(* ===== verification/Rt_Prelude.thy ===== *)
theory Rt_Prelude
  imports Main "HOL-Library.Word"
begin

text \<open>
  Shared vocabulary of the development: the machine integer types of the 32-bit target
  (\<^verbatim>\<open>include/rtdef.h\<close>), the insertion walk that several components use (a waiting
  thread by priority, a timer by deadline), and the generic lemmas on words and lists
  that the component theories rest on. The collection \<open>rt_defs\<close> gathers the
  definitions of the operations of one component.
\<close>

unbundle bit_operations_syntax

named_theorems rt_defs "definitions that are unfolded to expose an operation's steps"

type_synonym u8 = "8 word"
type_synonym u16 = "16 word"
type_synonym u32 = "32 word"
type_synonym byte = "8 word"

subsection \<open>Insertion before the first element that satisfies a test\<close>

fun insert_where :: "('a \<Rightarrow> bool) \<Rightarrow> 'a \<Rightarrow> 'a list \<Rightarrow> 'a list" where
  "insert_where P x [] = [x]"
| "insert_where P x (y # ys) = (if P y then x # y # ys else y # insert_where P x ys)"

lemma insert_where_split:
  "insert_where P x xs = takeWhile (\<lambda>y. \<not> P y) xs @ x # dropWhile (\<lambda>y. \<not> P y) xs"
  by (induction xs) auto

lemma set_insert_where [simp]: "set (insert_where P x xs) = insert x (set xs)"
  by (induction xs) auto

lemma length_insert_where [simp]: "length (insert_where P x xs) = Suc (length xs)"
  by (induction xs) auto

lemma distinct_insert_where [simp]:
  "distinct (insert_where P x xs) \<longleftrightarrow> x \<notin> set xs \<and> distinct xs"
  by (induction xs) auto

lemma insert_where_False: "insert_where (\<lambda>_. False) x xs = xs @ [x]"
  by (induction xs) auto

lemma sorted_wrt_insert_where:
  assumes "sorted_wrt R xs"
    and before: "\<And>y. y \<in> set xs \<Longrightarrow> \<not> P y \<Longrightarrow> R y x"
    and after: "\<And>y. y \<in> set xs \<Longrightarrow> P y \<Longrightarrow> R x y"
    and up: "\<And>y z. y \<in> set xs \<Longrightarrow> z \<in> set xs \<Longrightarrow> P y \<Longrightarrow> R y z \<Longrightarrow> P z"
  shows "sorted_wrt R (insert_where P x xs)"
  using assms
proof (induction xs)
  case Nil
  then show ?case by simp
next
  case (Cons a xs)
  show ?case
  proof (cases "P a")
    case True
    with Cons.prems have "\<forall>z \<in> set xs. P z"
      by (metis list.set_intros(1) list.set_intros(2) sorted_wrt.simps(2))
    with True Cons.prems show ?thesis by auto
  next
    case False
    have "sorted_wrt R (insert_where P x xs)"
      using Cons.prems by (intro Cons.IH) (auto intro: Cons.prems)
    with False Cons.prems show ?thesis by auto
  qed
qed

subsection \<open>Lists\<close>

lemma removeAll_eq_Nil: "removeAll x xs = [] \<longleftrightarrow> set xs \<subseteq> {x}"
  by (induction xs) auto

lemma removeAll_hd [simp]: "distinct (x # xs) \<Longrightarrow> removeAll x (x # xs) = xs"
  by simp

lemma sorted_wrt_removeAll: "sorted_wrt R xs \<Longrightarrow> sorted_wrt R (removeAll x xs)"
  by (induction xs) auto

subsection \<open>Words\<close>

lemma bit_push_1:
  fixes x :: "'a::len word"
  shows "p < LENGTH('a) \<Longrightarrow> bit (push_bit p (1 :: 'a word)) n \<longleftrightarrow> n = p"
  by (auto simp: bit_simps)

lemma word_eq_0_bits: "(w :: 'a::len word) = 0 \<longleftrightarrow> (\<forall>n < LENGTH('a). \<not> bit w n)"
  by (metis bit_0_eq bot_apply bot_bool_def bit_word_eqI)

lemma word_bit_ex: "(w :: 'a::len word) \<noteq> 0 \<longleftrightarrow> (\<exists>n < LENGTH('a). bit w n)"
  using word_eq_0_bits by blast

lemma u16_unat_Suc: "(v :: u16) \<noteq> 0xffff \<Longrightarrow> unat (v + 1) = unat v + 1"
proof -
  assume "v \<noteq> 0xffff"
  moreover have "unat v < 2 ^ LENGTH(16)" by (rule unsigned_less)
  ultimately show ?thesis by (simp add: unat_word_ariths word_unat_eq_iff)
qed

lemma u8_unat_Suc: "(v :: u8) \<noteq> 0xff \<Longrightarrow> unat (v + 1) = unat v + 1"
proof -
  assume "v \<noteq> 0xff"
  moreover have "unat v < 2 ^ LENGTH(8)" by (rule unsigned_less)
  ultimately show ?thesis by (simp add: unat_word_ariths word_unat_eq_iff)
qed

lemma unat_sub_one: "(v :: 'a::len word) \<noteq> 0 \<Longrightarrow> unat (v - 1) = unat v - 1"
  by (rule unat_minus_one)

lemma unat_u16_u32 [simp]: "unat (ucast (v :: u16) :: u32) = unat v"
proof -
  have "unat v < 2 ^ LENGTH(16)" by (rule unsigned_less)
  then show ?thesis by (simp add: unsigned_ucast_eq take_bit_nat_eq_self)
qed

lemma unat_u8_u32 [simp]: "unat (ucast (v :: u8) :: u32) = unat v"
proof -
  have "unat v < 2 ^ LENGTH(8)" by (rule unsigned_less)
  then show ?thesis by (simp add: unsigned_ucast_eq take_bit_nat_eq_self)
qed

end
