(* ===== verification/Rtdef.thy ===== *)
theory Rtdef
  imports Rt_Prelude
begin

text \<open>
  The kernel's data (\<^verbatim>\<open>include/rtdef.h\<close>) and its global variables, gathered in one
  record \<open>kernel\<close> that every operation takes and returns.

  A thread, timer or IPC object is named by a number that stands for its address. The
  intrusive node \<open>tlist\<close> of a thread can be linked into one list at a time (a ready
  queue, the waiters of an IPC object, the blocked senders of a mailbox, the defunct
  threads): \<open>lists\<close> maps each list head (\<open>lid\<close>) to the threads linked behind it, in
  order. Theory \<open>Rt_List\<close> proves that the pointer code of the doubly linked lists
  implements exactly these sequence operations.

  \<^verbatim>\<open>RT_ASSERT\<close> stops the system in \<open>rt_assert_handler\<close>; here a failed assertion, and
  every access the C code would make through a null or bogus pointer, sets the field
  \<open>fault\<close>. A theorem about a run therefore states that the fault flag stays clear.
\<close>

subsection \<open>Constants\<close>

definition RT_NAME_MAX :: nat where "RT_NAME_MAX = 8"
definition RT_ALIGN_SIZE :: nat where "RT_ALIGN_SIZE = 4"
definition RT_THREAD_PRIORITY_MAX :: nat where "RT_THREAD_PRIORITY_MAX = 32"
definition RT_TICK_PER_SECOND :: int where "RT_TICK_PER_SECOND = 100"
definition RT_TICK_MAX :: u32 where "RT_TICK_MAX = 0xffffffff"

abbreviation RT_EOK :: int where "RT_EOK \<equiv> 0"
abbreviation RT_ERROR :: int where "RT_ERROR \<equiv> 1"
abbreviation RT_ETIMEOUT :: int where "RT_ETIMEOUT \<equiv> 2"
abbreviation RT_EFULL :: int where "RT_EFULL \<equiv> 3"
abbreviation RT_ENOMEM :: int where "RT_ENOMEM \<equiv> 5"
abbreviation RT_EINTR :: int where "RT_EINTR \<equiv> 9"

abbreviation RT_THREAD_INIT :: u8 where "RT_THREAD_INIT \<equiv> 0x00"
abbreviation RT_THREAD_READY :: u8 where "RT_THREAD_READY \<equiv> 0x01"
abbreviation RT_THREAD_SUSPEND :: u8 where "RT_THREAD_SUSPEND \<equiv> 0x02"
abbreviation RT_THREAD_CLOSE :: u8 where "RT_THREAD_CLOSE \<equiv> 0x04"
abbreviation RT_THREAD_STAT_MASK :: u8 where "RT_THREAD_STAT_MASK \<equiv> 0x0f"

abbreviation RT_TIMER_FLAG_ACTIVATED :: u8 where "RT_TIMER_FLAG_ACTIVATED \<equiv> 0x1"
abbreviation RT_TIMER_FLAG_PERIODIC :: u8 where "RT_TIMER_FLAG_PERIODIC \<equiv> 0x2"

abbreviation RT_IPC_FLAG_FIFO :: u8 where "RT_IPC_FLAG_FIFO \<equiv> 0x00"
abbreviation RT_IPC_FLAG_PRIO :: u8 where "RT_IPC_FLAG_PRIO \<equiv> 0x01"
abbreviation RT_IPC_CMD_RESET :: int where "RT_IPC_CMD_RESET \<equiv> 0x01"

abbreviation RT_EVENT_FLAG_AND :: u8 where "RT_EVENT_FLAG_AND \<equiv> 0x01"
abbreviation RT_EVENT_FLAG_OR :: u8 where "RT_EVENT_FLAG_OR \<equiv> 0x02"
abbreviation RT_EVENT_FLAG_CLEAR :: u8 where "RT_EVENT_FLAG_CLEAR \<equiv> 0x04"

text \<open>The macros \<^verbatim>\<open>RT_ALIGN\<close> and \<^verbatim>\<open>RT_ALIGN_DOWN\<close> on the target's unsigned words.\<close>

definition RT_ALIGN :: "u32 \<Rightarrow> u32 \<Rightarrow> u32" where
  "RT_ALIGN sz align = (sz + align - 1) AND NOT (align - 1)"

definition RT_ALIGN_DOWN :: "u32 \<Rightarrow> u32 \<Rightarrow> u32" where
  "RT_ALIGN_DOWN sz align = sz AND NOT (align - 1)"

subsection \<open>Kernel objects\<close>

type_synonym tid = nat
type_synonym oid = nat

datatype obj_class =
    RT_Object_Class_Thread | RT_Object_Class_Semaphore | RT_Object_Class_Mutex
  | RT_Object_Class_Event | RT_Object_Class_MailBox | RT_Object_Class_MessageQueue
  | RT_Object_Class_MemHeap | RT_Object_Class_MemPool | RT_Object_Class_Device
  | RT_Object_Class_Timer | RT_Object_Class_Module | RT_Object_Class_Unknown

datatype timer_id = Thread_timer tid | Timer nat

datatype obj_ref = Thread_obj tid | Ipc_obj oid | Timer_obj timer_id

text \<open>
  \<^verbatim>\<open>struct rt_object\<close>: the C string \<open>name\<close> is kept without its terminator; \<open>obj_static\<close>
  is the bit \<^verbatim>\<open>RT_Object_Class_Static\<close> of the field \<^verbatim>\<open>type\<close>, \<open>obj_type\<close> its other bits.
\<close>

record rt_object =
  obj_name :: string
  obj_type :: obj_class
  obj_static :: bool
  obj_flag :: u8

subsection \<open>Timers and threads\<close>

datatype timeout_fn = Rt_thread_timeout tid | User_timeout nat

record rt_timer =
  tm_flag :: u8
  tm_func :: timeout_fn
  tm_init_tick :: u32
  tm_timeout_tick :: u32

record rt_thread =
  th_error :: int
  th_stat :: u8
  th_current_priority :: u8
  th_init_priority :: u8
  th_number_mask :: u32
  th_event_set :: u32
  th_event_info :: u8
  th_init_tick :: u32
  th_remaining_tick :: u32
  th_cleanup :: "nat option"

subsection \<open>IPC objects\<close>

text \<open>
  The list \<^verbatim>\<open>suspend_thread\<close> of the IPC object at address \<open>o\<close> is \<open>lists k (Suspend o)\<close>, the
  list \<^verbatim>\<open>suspend_sender_thread\<close> of a mailbox is \<open>lists k (Sender o)\<close>; the object's flag is in
  its \<open>rt_object\<close> header.
\<close>

record rt_semaphore =
  sem_value :: u16

record rt_mutex =
  mtx_value :: u16
  mtx_original_priority :: u8
  mtx_hold :: u8
  mtx_owner :: "tid option"

record rt_event =
  ev_set :: u32

record rt_mailbox =
  mb_msg_pool :: "u32 list"
  mb_size :: u16
  mb_entry :: u16
  mb_in_offset :: u16
  mb_out_offset :: u16

text \<open>
  The pool of a message queue is an array of slots; slot \<open>i\<close> is the C address
  \<^verbatim>\<open>msg_pool + i * (msg_size + sizeof(struct rt_mq_message))\<close>. A slot holds the link
  \<^verbatim>\<open>next\<close> and \<open>msg_size\<close> bytes of data.
\<close>

record rt_mq_message =
  msg_next :: "nat option"
  msg_data :: "byte list"

record rt_messagequeue =
  mq_msg_pool :: "rt_mq_message list"
  mq_msg_size :: u16
  mq_max_msgs :: u16
  mq_entry :: u16
  mq_head :: "nat option"
  mq_tail :: "nat option"
  mq_free :: "nat option"

subsection \<open>The kernel state\<close>

datatype lid = Ready nat | Suspend oid | Sender oid | Defunct

record kernel =
  threads :: "tid \<Rightarrow> rt_thread"
  lists :: "lid \<Rightarrow> tid list"
  prio_group :: u32
  current :: "tid option"
  current_prio :: u8
  lock_nest :: "16 word"
  int_nest :: u8
  tick :: u32
  timers :: "timer_id \<Rightarrow> rt_timer"
  timer_list :: "timer_id list"
  obj_list :: "obj_class \<Rightarrow> obj_ref list"
  obj_hdr :: "obj_ref \<Rightarrow> rt_object"
  sems :: "oid \<Rightarrow> rt_semaphore"
  mutexes :: "oid \<Rightarrow> rt_mutex"
  events :: "oid \<Rightarrow> rt_event"
  mailboxes :: "oid \<Rightarrow> rt_mailbox"
  mqs :: "oid \<Rightarrow> rt_messagequeue"
  fault :: bool

definition upd_thread :: "tid \<Rightarrow> (rt_thread \<Rightarrow> rt_thread) \<Rightarrow> kernel \<Rightarrow> kernel" where
  "upd_thread t f k = k\<lparr>threads := (threads k)(t := f (threads k t))\<rparr>"

definition upd_timer :: "timer_id \<Rightarrow> (rt_timer \<Rightarrow> rt_timer) \<Rightarrow> kernel \<Rightarrow> kernel" where
  "upd_timer i f k = k\<lparr>timers := (timers k)(i := f (timers k i))\<rparr>"

definition rt_assert :: "bool \<Rightarrow> kernel \<Rightarrow> kernel" where
  "rt_assert b k = (if b then k else k\<lparr>fault := True\<rparr>)"

text \<open>
  The same flag for a C access that would be undefined behaviour unless \<open>b\<close> holds: a null
  pointer, an index past an array, the entry of an empty list.
\<close>

abbreviation defined_if :: "bool \<Rightarrow> kernel \<Rightarrow> kernel" where
  "defined_if b k \<equiv> rt_assert b k"

lemma rt_assert_True [simp]: "rt_assert True k = k"
  by (simp add: rt_assert_def)

lemma rt_assert_sel [simp]:
  "threads (rt_assert b k) = threads k" "lists (rt_assert b k) = lists k"
  "prio_group (rt_assert b k) = prio_group k" "current (rt_assert b k) = current k"
  "current_prio (rt_assert b k) = current_prio k" "lock_nest (rt_assert b k) = lock_nest k"
  "int_nest (rt_assert b k) = int_nest k" "tick (rt_assert b k) = tick k"
  "timers (rt_assert b k) = timers k" "timer_list (rt_assert b k) = timer_list k"
  "obj_list (rt_assert b k) = obj_list k" "obj_hdr (rt_assert b k) = obj_hdr k"
  "sems (rt_assert b k) = sems k" "mutexes (rt_assert b k) = mutexes k"
  "events (rt_assert b k) = events k" "mailboxes (rt_assert b k) = mailboxes k"
  "mqs (rt_assert b k) = mqs k" "fault (rt_assert b k) = (fault k \<or> \<not> b)"
  by (simp_all add: rt_assert_def)

text \<open>\<^verbatim>\<open>RT_DEBUG_NOT_IN_INTERRUPT\<close> and \<^verbatim>\<open>RT_DEBUG_IN_THREAD_CONTEXT\<close> (\<^verbatim>\<open>include/rtdebug.h\<close>).\<close>

definition debug_not_in_interrupt :: "kernel \<Rightarrow> kernel" where
  "debug_not_in_interrupt k = rt_assert (int_nest k = 0) k"

definition debug_in_thread_context :: "kernel \<Rightarrow> kernel" where
  "debug_in_thread_context k =
     debug_not_in_interrupt (rt_assert (current k \<noteq> None) k)"

text \<open>The status of a thread without its signal bits.\<close>

definition stat_of :: "rt_thread \<Rightarrow> u8" where
  "stat_of th = th_stat th AND RT_THREAD_STAT_MASK"

text \<open>\<^verbatim>\<open>stat = s | (stat & ~RT_THREAD_STAT_MASK)\<close>\<close>

definition set_stat :: "u8 \<Rightarrow> rt_thread \<Rightarrow> rt_thread" where
  "set_stat s th = th\<lparr>th_stat := s OR (th_stat th AND NOT RT_THREAD_STAT_MASK)\<rparr>"

lemma or_and_not_mask: "s AND m = s \<Longrightarrow> (s OR (x AND NOT m)) AND m = s" for s x m :: u8
  by (simp add: bit.conj_disj_distrib2 and.assoc)

lemma th_stat_set_stat:
  "th_stat (set_stat s th) = s OR (th_stat th AND NOT RT_THREAD_STAT_MASK)"
  by (simp add: set_stat_def)

lemma stat_of_set_stat [simp]:
  "stat_of (set_stat RT_THREAD_READY th) = RT_THREAD_READY"
  "stat_of (set_stat RT_THREAD_SUSPEND th) = RT_THREAD_SUSPEND"
  unfolding stat_of_def th_stat_set_stat by (rule or_and_not_mask, simp)+

lemma set_stat_sel [simp]:
  "th_current_priority (set_stat s th) = th_current_priority th"
  "th_init_priority (set_stat s th) = th_init_priority th"
  "th_number_mask (set_stat s th) = th_number_mask th"
  "th_error (set_stat s th) = th_error th" "th_event_set (set_stat s th) = th_event_set th"
  "th_event_info (set_stat s th) = th_event_info th"
  "th_init_tick (set_stat s th) = th_init_tick th"
  "th_remaining_tick (set_stat s th) = th_remaining_tick th"
  "th_cleanup (set_stat s th) = th_cleanup th"
  by (simp_all add: set_stat_def)

lemma stat_of_upd [simp]:
  "stat_of (th\<lparr>th_error := a\<rparr>) = stat_of th" "stat_of (th\<lparr>th_current_priority := b\<rparr>) = stat_of th"
  "stat_of (th\<lparr>th_number_mask := c\<rparr>) = stat_of th" "stat_of (th\<lparr>th_event_set := d\<rparr>) = stat_of th"
  "stat_of (th\<lparr>th_event_info := e\<rparr>) = stat_of th" "stat_of (th\<lparr>th_remaining_tick := f\<rparr>) = stat_of th"
  "stat_of (th\<lparr>th_stat := RT_THREAD_CLOSE\<rparr>) = RT_THREAD_CLOSE"
  "stat_of (th\<lparr>th_stat := RT_THREAD_SUSPEND\<rparr>) = RT_THREAD_SUSPEND"
  "stat_of (th\<lparr>th_stat := RT_THREAD_INIT\<rparr>) = RT_THREAD_INIT"
  by (simp_all add: stat_of_def)

text \<open>
  The node \<open>tlist\<close> of a thread: \<^verbatim>\<open>rt_list_remove\<close> takes it out of whatever list it is
  linked into, \<^verbatim>\<open>rt_list_insert_before\<close> a head appends to that list and
  \<^verbatim>\<open>rt_list_insert_after\<close> a head puts it first.
\<close>

definition tlist_remove :: "tid \<Rightarrow> kernel \<Rightarrow> kernel" where
  "tlist_remove t k = k\<lparr>lists := (\<lambda>l. removeAll t (lists k l))\<rparr>"

definition tlist_insert_before :: "lid \<Rightarrow> tid \<Rightarrow> kernel \<Rightarrow> kernel" where
  "tlist_insert_before l t k = k\<lparr>lists := (lists k)(l := lists k l @ [t])\<rparr>"

definition tlist_insert_after :: "lid \<Rightarrow> tid \<Rightarrow> kernel \<Rightarrow> kernel" where
  "tlist_insert_after l t k = k\<lparr>lists := (lists k)(l := t # lists k l)\<rparr>"

end
