(* ===== verification/Kservice.thy ===== *)
theory Kservice
  imports Rt_Prelude
begin

text \<open>
  The find-first-set routine \<^verbatim>\<open>__rt_ffs\<close> of \<^verbatim>\<open>src/kservice.c\<close>, which the scheduler uses to find the
  highest ready priority: a 256-entry table and a case split on the bytes of the argument. The
  lemmas show that it returns one more than the index of the least set bit, and 0 for 0. The
  configuration of the board defines \<^verbatim>\<open>RT_USING_CPU_FFS\<close>, so that its image has the version of
  \<^verbatim>\<open>libcpu/arm/cortex-m3/cpuport.c\<close> in assembly instead, whose comment promises the same result;
  the table is the version of the ports without such an instruction.
\<close>

definition lowest_bit_bitmap :: "nat list" where
  "lowest_bit_bitmap =
    [0, 0, 1, 0, 2, 0, 1, 0, 3, 0, 1, 0, 2, 0, 1, 0,
     4, 0, 1, 0, 2, 0, 1, 0, 3, 0, 1, 0, 2, 0, 1, 0,
     5, 0, 1, 0, 2, 0, 1, 0, 3, 0, 1, 0, 2, 0, 1, 0,
     4, 0, 1, 0, 2, 0, 1, 0, 3, 0, 1, 0, 2, 0, 1, 0,
     6, 0, 1, 0, 2, 0, 1, 0, 3, 0, 1, 0, 2, 0, 1, 0,
     4, 0, 1, 0, 2, 0, 1, 0, 3, 0, 1, 0, 2, 0, 1, 0,
     5, 0, 1, 0, 2, 0, 1, 0, 3, 0, 1, 0, 2, 0, 1, 0,
     4, 0, 1, 0, 2, 0, 1, 0, 3, 0, 1, 0, 2, 0, 1, 0,
     7, 0, 1, 0, 2, 0, 1, 0, 3, 0, 1, 0, 2, 0, 1, 0,
     4, 0, 1, 0, 2, 0, 1, 0, 3, 0, 1, 0, 2, 0, 1, 0,
     5, 0, 1, 0, 2, 0, 1, 0, 3, 0, 1, 0, 2, 0, 1, 0,
     4, 0, 1, 0, 2, 0, 1, 0, 3, 0, 1, 0, 2, 0, 1, 0,
     6, 0, 1, 0, 2, 0, 1, 0, 3, 0, 1, 0, 2, 0, 1, 0,
     4, 0, 1, 0, 2, 0, 1, 0, 3, 0, 1, 0, 2, 0, 1, 0,
     5, 0, 1, 0, 2, 0, 1, 0, 3, 0, 1, 0, 2, 0, 1, 0,
     4, 0, 1, 0, 2, 0, 1, 0, 3, 0, 1, 0, 2, 0, 1, 0]"

definition rt_ffs :: "u32 \<Rightarrow> nat" where
  "rt_ffs v =
     (if v = 0 then 0
      else if v AND 0xff \<noteq> 0 then lowest_bit_bitmap ! unat (v AND 0xff) + 1
      else if v AND 0xff00 \<noteq> 0 then lowest_bit_bitmap ! unat (drop_bit 8 (v AND 0xff00)) + 9
      else if v AND 0xff0000 \<noteq> 0 then lowest_bit_bitmap ! unat (drop_bit 16 (v AND 0xff0000)) + 17
      else lowest_bit_bitmap ! unat (drop_bit 24 (v AND 0xff000000)) + 25)"

text \<open>
  The table is the ruler sequence: each doubling repeats the entries so far, except that
  the entry for the new power of two is its exponent.
\<close>

fun ruler :: "nat \<Rightarrow> nat list" where
  "ruler 0 = [0]"
| "ruler (Suc n) = ruler n @ (ruler n)[0 := n]"

lemma length_ruler [simp]: "length (ruler n) = 2 ^ n"
  by (induction n) auto

lemma bitmap_ruler: "lowest_bit_bitmap = ruler 8"
  by (simp add: lowest_bit_bitmap_def numeral_eq_Suc)

definition least_bit :: "nat \<Rightarrow> nat \<Rightarrow> bool" where
  "least_bit b i \<longleftrightarrow> bit b i \<and> (\<forall>j < i. \<not> bit b j)"

lemma bit_add_exp: "i < n \<Longrightarrow> bit (2 ^ n + b) i \<longleftrightarrow> bit (b :: nat) i"
proof -
  assume i: "i < n"
  then have "(2::nat) ^ n = 2 ^ i * (2 * 2 ^ (n - Suc i))"
    by (simp flip: power_Suc power_add)
  then have "(2 ^ n + b) div 2 ^ i = 2 * 2 ^ (n - Suc i) + b div 2 ^ i" by simp
  then show ?thesis by (simp add: bit_iff_odd)
qed

lemma ruler_least: "0 < b \<Longrightarrow> b < 2 ^ n \<Longrightarrow> least_bit b (ruler n ! b) \<and> ruler n ! b < n"
proof (induction n arbitrary: b)
  case 0
  then show ?case by simp
next
  case (Suc n)
  have up: "b < 2 ^ n + 2 ^ n" using Suc.prems by simp
  show ?case
  proof (rule linorder_cases [of b "2 ^ n"])
    assume "b < 2 ^ n"
    then show ?thesis using Suc.IH [of b] Suc.prems(1) by (simp add: nth_append)
  next
    assume b: "b = 2 ^ n"
    then have "ruler (Suc n) ! b = n" by (simp add: nth_append)
    then show ?thesis using b by (simp add: least_bit_def bit_exp_iff)
  next
    assume "2 ^ n < b"
    then obtain j where j: "b = 2 ^ n + j" "0 < j" using less_imp_add_positive by blast
    with up have "j < 2 ^ n" by simp
    then have "ruler (Suc n) ! b = ruler n ! j" using j by (simp add: nth_append)
    moreover have "least_bit j (ruler n ! j)" "ruler n ! j < n"
      using Suc.IH [OF j(2) \<open>j < 2 ^ n\<close>] by auto
    ultimately show ?thesis using j by (auto simp: least_bit_def bit_add_exp)
  qed
qed

lemma bitmap_least:
  "0 < b \<Longrightarrow> b < 256 \<Longrightarrow> least_bit b (lowest_bit_bitmap ! b) \<and> lowest_bit_bitmap ! b < 8"
  using ruler_least [of b 8] by (simp add: bitmap_ruler)

text \<open>Byte \<open>k\<close> of a word, as a number below 256, has the word's bits \<open>k .. k + 7\<close>.\<close>

lemma byte_bits:
  fixes v :: u32
  assumes "b = unat (drop_bit k (v AND push_bit k (mask 8)))" "k + 8 \<le> 32"
  shows "b < 256" "i < 8 \<Longrightarrow> bit b i \<longleftrightarrow> bit v (k + i)"
    "b \<noteq> 0 \<longleftrightarrow> v AND push_bit k (mask 8) \<noteq> 0"
proof -
  let ?w = "drop_bit k (v AND push_bit k (mask 8))"
  have bits: "bit ?w i \<longleftrightarrow> i < 8 \<and> bit v (k + i)" for i
    using assms(2) by (auto simp: bit_simps)
  have "?w = take_bit 8 ?w" by (rule bit_word_eqI) (auto simp: bit_simps bits)
  then have "unat ?w = take_bit 8 (unat ?w)" by (metis unsigned_take_bit_eq)
  then show "b < 256" using assms(1) take_bit_nat_less_exp [of 8 "unat ?w"] by simp
  show "i < 8 \<Longrightarrow> bit b i \<longleftrightarrow> bit v (k + i)"
    using assms bits by (auto simp: bit_simps)
  show "b \<noteq> 0 \<longleftrightarrow> v AND push_bit k (mask 8) \<noteq> 0"
    using assms by (auto simp: unat_eq_0 word_eq_0_bits bit_simps)
qed

lemma byte_least:
  fixes v :: u32
  assumes "v AND push_bit k (mask 8) \<noteq> 0" "k + 8 \<le> 32" "\<forall>j < k. \<not> bit v j"
  defines "i \<equiv> lowest_bit_bitmap ! unat (drop_bit k (v AND push_bit k (mask 8))) + k"
  shows "bit v i \<and> (\<forall>j < i. \<not> bit v j)"
proof -
  let ?b = "unat (drop_bit k (v AND push_bit k (mask 8)))"
  let ?l = "lowest_bit_bitmap ! ?b"
  have nz: "0 < ?b" and b: "?b < 256" using byte_bits [OF refl assms(2), where v = v] assms(1) by auto
  have l: "bit ?b ?l" "\<forall>j < ?l. \<not> bit ?b j" "?l < 8"
    using bitmap_least [OF nz b] by (auto simp: least_bit_def)
  then have "bit v (k + ?l)" "\<forall>j < ?l. \<not> bit v (k + j)"
    using byte_bits(2) [OF refl assms(2), where v = v] by auto
  moreover have "\<not> bit v j" if "j < i" for j
  proof (cases "j < k")
    case True
    then show ?thesis using assms(3) by blast
  next
    case False
    then obtain j' where "j = k + j'" using le_Suc_ex not_less by blast
    with that show ?thesis using \<open>\<forall>j < ?l. \<not> bit v (k + j)\<close> by (simp add: i_def)
  qed
  ultimately show ?thesis by (simp add: i_def add.commute)
qed

lemma no_byte_bits:
  fixes v :: u32
  assumes "v AND push_bit k (mask 8) = 0" "k + 8 \<le> 32" "\<forall>j < k. \<not> bit v j"
  shows "\<forall>j < k + 8. \<not> bit v j"
proof (intro allI impI)
  fix j assume j: "j < k + 8"
  show "\<not> bit v j"
  proof (cases "j < k")
    case True
    then show ?thesis using assms(3) by blast
  next
    case False
    have "\<not> bit (v AND push_bit k (mask 8)) j" using assms(1) by simp
    with False j assms(2) show ?thesis by (auto simp: bit_simps)
  qed
qed

lemma byte_masks:
  "(0xff :: u32) = push_bit 0 (mask 8)" "(0xff00 :: u32) = push_bit 8 (mask 8)"
  "(0xff0000 :: u32) = push_bit 16 (mask 8)" "(0xff000000 :: u32) = push_bit 24 (mask 8)"
  by (simp_all add: mask_eq_decr_exp push_bit_eq_mult)

lemma rt_ffs_0 [simp]: "rt_ffs 0 = 0"
  by (simp add: rt_ffs_def)

definition byte_of :: "u32 \<Rightarrow> nat \<Rightarrow> u32" where
  "byte_of v k = v AND push_bit k (mask 8)"

lemma rt_ffs_bytes:
  "rt_ffs v =
     (if v = 0 then 0
      else if byte_of v 0 \<noteq> 0 then lowest_bit_bitmap ! unat (byte_of v 0) + 1
      else if byte_of v 8 \<noteq> 0 then lowest_bit_bitmap ! unat (drop_bit 8 (byte_of v 8)) + 9
      else if byte_of v 16 \<noteq> 0 then lowest_bit_bitmap ! unat (drop_bit 16 (byte_of v 16)) + 17
      else lowest_bit_bitmap ! unat (drop_bit 24 (byte_of v 24)) + 25)"
  unfolding rt_ffs_def byte_of_def byte_masks ..

lemma rt_ffs_least:
  assumes "v \<noteq> 0"
  shows "0 < rt_ffs v \<and> bit v (rt_ffs v - 1) \<and> (\<forall>j < rt_ffs v - 1. \<not> bit v j)"
proof -
  have hit: "bit v (lowest_bit_bitmap ! unat (drop_bit k (byte_of v k)) + k) \<and>
      (\<forall>j < lowest_bit_bitmap ! unat (drop_bit k (byte_of v k)) + k. \<not> bit v j)"
    if "byte_of v k \<noteq> 0" "k + 8 \<le> 32" "\<forall>j < k. \<not> bit v j" for k
    using that unfolding byte_of_def by (rule byte_least)
  have miss: "\<forall>j < k + 8. \<not> bit v j"
    if "byte_of v k = 0" "k + 8 \<le> 32" "\<forall>j < k. \<not> bit v j" for k
    using that unfolding byte_of_def by (rule no_byte_bits)
  have fin: ?thesis
    if "rt_ffs v = lowest_bit_bitmap ! unat (drop_bit k (byte_of v k)) + k + 1"
      "byte_of v k \<noteq> 0" "k + 8 \<le> 32" "\<forall>j < k. \<not> bit v j" for k
    using that(1) hit [OF that(2,3,4)] by simp
  show ?thesis
  proof (cases "byte_of v 0 = 0")
    case False
    then show ?thesis using assms by (intro fin [of 0]) (simp_all add: rt_ffs_bytes)
  next
    case b0: True
    have l8: "\<forall>j < 8. \<not> bit v j" using miss [OF b0] by simp
    show ?thesis
    proof (cases "byte_of v 8 = 0")
      case False
      then show ?thesis using assms b0 l8 by (intro fin [of 8]) (simp_all add: rt_ffs_bytes)
    next
      case b8: True
      have l16: "\<forall>j < 16. \<not> bit v j" using miss [OF b8] l8 by simp
      show ?thesis
      proof (cases "byte_of v 16 = 0")
        case False
        then show ?thesis using assms b0 b8 l16
          by (intro fin [of 16]) (simp_all add: rt_ffs_bytes)
      next
        case b16: True
        have l24: "\<forall>j < 24. \<not> bit v j" using miss [OF b16] l16 by simp
        have "byte_of v 24 \<noteq> 0"
        proof
          assume b24: "byte_of v 24 = 0"
          have "\<forall>j < 32. \<not> bit v j" using miss [OF b24] l24 by simp
          then show False using assms by (simp add: word_eq_0_bits)
        qed
        then show ?thesis using assms b0 b8 b16 l24
          by (intro fin [of 24]) (simp_all add: rt_ffs_bytes)
      qed
    qed
  qed
qed

end
