(* ===== verification/Scheduler.thy ===== *)
theory Scheduler
  imports Rtdef Kservice
begin

text \<open>
  The scheduler (\<^verbatim>\<open>src/scheduler.c\<close>) for the build's \<^verbatim>\<open>RT_THREAD_PRIORITY_MAX\<close> of 32: one
  ready queue per priority and a bit group of the non-empty ones. Interrupts are locked
  throughout each operation, so an operation is one atomic step. The context switch itself
  (assembly) is the change of \<open>current\<close>; the stack checks are left out, and no hook is set.

  The invariant \<open>kinv\<close> ties the queues, the thread states and the bit group together; the
  lemmas \<open>sched_ok_unlink\<close>, \<open>sched_ok_ready\<close> and \<open>sched_ok_enqueue\<close> are the three moves
  every thread and IPC operation is made of.
\<close>

subsection \<open>Operations\<close>

definition rt_system_scheduler_init :: "kernel \<Rightarrow> kernel" where
  "rt_system_scheduler_init k =
     k\<lparr>lock_nest := 0,
       lists := (\<lambda>l. case l of
           Ready p \<Rightarrow> if p < RT_THREAD_PRIORITY_MAX then [] else lists k l
         | Defunct \<Rightarrow> []
         | _ \<Rightarrow> lists k l),
       current_prio := of_nat (RT_THREAD_PRIORITY_MAX - 1),
       current := None,
       prio_group := 0\<rparr>"

text \<open>
  \<^verbatim>\<open>__rt_ffs(rt_thread_ready_priority_group) - 1\<close> and the first entry of that queue; an
  empty group would index the table with -1, an empty queue yields a bogus thread.
\<close>

definition highest_ready :: "kernel \<Rightarrow> nat" where
  "highest_ready k = rt_ffs (prio_group k) - 1"

definition rt_system_scheduler_start :: "kernel \<Rightarrow> kernel" where
  "rt_system_scheduler_start k =
     (case lists k (Ready (highest_ready k)) of
        [] \<Rightarrow> defined_if False k
      | to_thread # _ \<Rightarrow> defined_if (prio_group k \<noteq> 0) (k\<lparr>current := Some to_thread\<rparr>))"

definition rt_schedule :: "kernel \<Rightarrow> kernel" where
  "rt_schedule k =
     (if lock_nest k = 0 then
        (case lists k (Ready (highest_ready k)) of
           [] \<Rightarrow> defined_if False k
         | to_thread # _ \<Rightarrow>
             (let k = defined_if (prio_group k \<noteq> 0) k in
              if current k \<noteq> Some to_thread
              then defined_if (current k \<noteq> None)
                     (k\<lparr>current_prio := of_nat (highest_ready k), current := Some to_thread\<rparr>)
              else k))
      else k)"

definition rt_schedule_insert_thread :: "tid \<Rightarrow> kernel \<Rightarrow> kernel" where
  "rt_schedule_insert_thread t k =
     (let k = upd_thread t (set_stat RT_THREAD_READY) k;
          k = defined_if (unat (th_current_priority (threads k t)) < RT_THREAD_PRIORITY_MAX) k;
          k = tlist_insert_before (Ready (unat (th_current_priority (threads k t)))) t k
      in k\<lparr>prio_group := prio_group k OR th_number_mask (threads k t)\<rparr>)"

definition rt_schedule_remove_thread :: "tid \<Rightarrow> kernel \<Rightarrow> kernel" where
  "rt_schedule_remove_thread t k =
     (let k = tlist_remove t k in
      if lists k (Ready (unat (th_current_priority (threads k t)))) = []
      then k\<lparr>prio_group := prio_group k AND NOT (th_number_mask (threads k t))\<rparr>
      else k)"

definition rt_enter_critical :: "kernel \<Rightarrow> kernel" where
  "rt_enter_critical k = k\<lparr>lock_nest := lock_nest k + 1\<rparr>"

definition rt_exit_critical :: "kernel \<Rightarrow> kernel" where
  "rt_exit_critical k =
     (let k = k\<lparr>lock_nest := lock_nest k - 1\<rparr> in
      if sint (lock_nest k) \<le> 0 then rt_schedule (k\<lparr>lock_nest := 0\<rparr>) else k)"

definition rt_critical_level :: "kernel \<Rightarrow> u16" where
  "rt_critical_level k = lock_nest k"

text \<open>\<^verbatim>\<open>rt_interrupt_enter\<close> and \<^verbatim>\<open>rt_interrupt_leave\<close> (\<^verbatim>\<open>src/irq.c\<close>).\<close>

definition rt_interrupt_enter :: "kernel \<Rightarrow> kernel" where
  "rt_interrupt_enter k = k\<lparr>int_nest := int_nest k + 1\<rparr>"

definition rt_interrupt_leave :: "kernel \<Rightarrow> kernel" where
  "rt_interrupt_leave k = k\<lparr>int_nest := int_nest k - 1\<rparr>"

subsection \<open>The invariant of the queues\<close>

definition queues_ok :: "(lid \<Rightarrow> tid list) \<Rightarrow> bool" where
  "queues_ok L \<longleftrightarrow> (\<forall>l. distinct (L l)) \<and>
     (\<forall>l l' t. t \<in> set (L l) \<longrightarrow> t \<in> set (L l') \<longrightarrow> l = l')"

definition ready_ok :: "(tid \<Rightarrow> rt_thread) \<Rightarrow> (lid \<Rightarrow> tid list) \<Rightarrow> bool" where
  "ready_ok T L \<longleftrightarrow>
     (\<forall>p t. t \<in> set (L (Ready p)) \<longleftrightarrow>
        stat_of (T t) = RT_THREAD_READY \<and> unat (th_current_priority (T t)) = p)"

definition mask_ok :: "rt_thread \<Rightarrow> bool" where
  "mask_ok th \<longleftrightarrow> unat (th_current_priority th) < RT_THREAD_PRIORITY_MAX \<and>
     th_number_mask th = push_bit (unat (th_current_priority th)) 1"

definition group_ok :: "(lid \<Rightarrow> tid list) \<Rightarrow> u32 \<Rightarrow> bool" where
  "group_ok L G \<longleftrightarrow> (\<forall>p < RT_THREAD_PRIORITY_MAX. bit G p \<longleftrightarrow> L (Ready p) \<noteq> [])"

definition sched_ok :: "(tid \<Rightarrow> rt_thread) \<Rightarrow> (lid \<Rightarrow> tid list) \<Rightarrow> u32 \<Rightarrow> bool" where
  "sched_ok T L G \<longleftrightarrow> queues_ok L \<and> ready_ok T L \<and> group_ok L G \<and>
     (\<forall>t. stat_of (T t) \<in> {RT_THREAD_READY, RT_THREAD_SUSPEND} \<longrightarrow> mask_ok (T t))"

definition kinv :: "kernel \<Rightarrow> bool" where
  "kinv k \<longleftrightarrow> sched_ok (threads k) (lists k) (prio_group k)"

lemma kinv_cong:
  "threads k' = threads k \<Longrightarrow> lists k' = lists k \<Longrightarrow> prio_group k' = prio_group k \<Longrightarrow>
     kinv k' = kinv k"
  by (simp add: kinv_def)

lemma queues_okD: "queues_ok L \<Longrightarrow> distinct (L l)"
  "queues_ok L \<Longrightarrow> t \<in> set (L l) \<Longrightarrow> t \<in> set (L l') \<Longrightarrow> l = l'"
  by (auto simp: queues_ok_def)

lemma ready_okD: "ready_ok T L \<Longrightarrow> t \<in> set (L (Ready p)) \<Longrightarrow>
    stat_of (T t) = RT_THREAD_READY \<and> unat (th_current_priority (T t)) = p"
  by (auto simp: ready_ok_def)

lemma RT_THREAD_PRIORITY_MAX_32 [simp]: "RT_THREAD_PRIORITY_MAX = 32"
  by (simp add: RT_THREAD_PRIORITY_MAX_def)

subsection \<open>The moves\<close>

text \<open>A thread leaves whatever list it is in and is no longer ready.\<close>

lemma sched_ok_unlink:
  assumes ok: "sched_ok T L G"
    and live: "stat_of (T t) \<in> {RT_THREAD_READY, RT_THREAD_SUSPEND}"
    and th: "stat_of th \<noteq> RT_THREAD_READY" "stat_of th = RT_THREAD_SUSPEND \<longrightarrow> mask_ok th"
    and p: "p = unat (th_current_priority (T t))"
    and L': "L' = (\<lambda>l. removeAll t (L l))"
    and G': "G' = (if L' (Ready p) = [] then G AND NOT (th_number_mask (T t)) else G)"
  shows "sched_ok (T(t := th)) L' G'"
proof -
  have q: "queues_ok L" and r: "ready_ok T L" and g: "group_ok L G" and m: "mask_ok (T t)"
    and ms: "\<And>u. stat_of (T u) \<in> {RT_THREAD_READY, RT_THREAD_SUSPEND} \<Longrightarrow> mask_ok (T u)"
    using ok live by (auto simp: sched_ok_def)
  have "queues_ok L'"
    using q by (auto simp: queues_ok_def L' distinct_removeAll)
  moreover have "ready_ok (T(t := th)) L'"
    using r th by (auto simp: ready_ok_def L')
  moreover have "group_ok L' G'"
    unfolding group_ok_def
  proof (intro allI impI)
    fix n assume n: "n < RT_THREAD_PRIORITY_MAX"
    have bn: "bit G n \<longleftrightarrow> L (Ready n) \<noteq> []" using g n by (simp add: group_ok_def)
    show "bit G' n \<longleftrightarrow> L' (Ready n) \<noteq> []"
    proof (cases "n = p")
      case True
      then show ?thesis using bn m n p
        by (auto simp: G' L' mask_ok_def bit_simps)
    next
      case False
      then have "t \<notin> set (L (Ready n))" using ready_okD [OF r] p by blast
      then have "L' (Ready n) = L (Ready n)" by (simp add: L')
      moreover have "bit G' n = bit G n"
        using False m n p by (auto simp: G' mask_ok_def bit_simps)
      ultimately show ?thesis using bn by simp
    qed
  qed
  moreover have "\<forall>u. stat_of ((T(t := th)) u) \<in> {RT_THREAD_READY, RT_THREAD_SUSPEND} \<longrightarrow>
      mask_ok ((T(t := th)) u)"
    using ms th by auto
  ultimately show ?thesis by (simp add: sched_ok_def)
qed

text \<open>A thread that is in no list joins the end of the ready queue of its priority.\<close>

lemma sched_ok_ready:
  assumes ok: "sched_ok T L G"
    and free: "\<And>l. t \<notin> set (L l)"
    and th: "stat_of th = RT_THREAD_READY" "mask_ok th"
    and p: "p = unat (th_current_priority th)"
  shows "sched_ok (T(t := th)) (L(Ready p := L (Ready p) @ [t])) (G OR th_number_mask th)"
proof -
  have q: "queues_ok L" and r: "ready_ok T L" and g: "group_ok L G"
    using ok by (auto simp: sched_ok_def)
  have "queues_ok (L(Ready p := L (Ready p) @ [t]))"
    using q free by (fastforce simp: queues_ok_def)
  moreover have "ready_ok (T(t := th)) (L(Ready p := L (Ready p) @ [t]))"
    using r th p free by (auto simp: ready_ok_def)
  moreover have "group_ok (L(Ready p := L (Ready p) @ [t])) (G OR th_number_mask th)"
    using g th p by (auto simp: group_ok_def mask_ok_def bit_simps)
  ultimately show ?thesis using ok th by (auto simp: sched_ok_def)
qed

text \<open>A thread that is in no list joins a list that is not a ready queue, at any position.\<close>

lemma sched_ok_enqueue:
  assumes ok: "sched_ok T L G"
    and free: "\<And>l. t \<notin> set (L l)"
    and q: "q = Suspend x \<or> q = Sender x \<or> q = Defunct"
    and xs: "set xs = insert t (set (L q))" "distinct xs"
  shows "sched_ok T (L(q := xs)) G"
proof -
  have "queues_ok (L(q := xs))"
    using ok free xs by (fastforce simp: sched_ok_def queues_ok_def)
  then show ?thesis
    using ok q by (auto simp: sched_ok_def ready_ok_def group_ok_def)
qed

text \<open>A thread update that keeps status, priority and mask.\<close>

lemma sched_ok_frame:
  assumes "sched_ok T L G"
    and "th_stat th = th_stat (T t)" "th_current_priority th = th_current_priority (T t)"
      "th_number_mask th = th_number_mask (T t)"
  shows "sched_ok (T(t := th)) L G"
  using assms by (auto simp: sched_ok_def ready_ok_def stat_of_def mask_ok_def)

lemma sched_ok_not_ready_free:
  "sched_ok T L G \<Longrightarrow> stat_of (T t) \<noteq> RT_THREAD_READY \<Longrightarrow> t \<notin> set (L (Ready p))"
  by (auto simp: sched_ok_def ready_ok_def)

subsection \<open>The scheduling decision\<close>

lemma highest_ready_least:
  assumes "kinv k" "lists k (Ready p) \<noteq> []" "p < 32"
  shows "prio_group k \<noteq> 0 \<and> highest_ready k < 32 \<and> lists k (Ready (highest_ready k)) \<noteq> [] \<and>
    (\<forall>q < highest_ready k. lists k (Ready q) = [])"
proof -
  have g: "\<And>n. n < 32 \<Longrightarrow> bit (prio_group k) n \<longleftrightarrow> lists k (Ready n) \<noteq> []"
    using assms(1) by (simp add: kinv_def sched_ok_def group_ok_def)
  have nz: "prio_group k \<noteq> 0" using g [of p] assms(2,3) by auto
  from rt_ffs_least [OF nz] have b: "bit (prio_group k) (highest_ready k)"
    and l: "\<forall>j < highest_ready k. \<not> bit (prio_group k) j" by (auto simp: highest_ready_def)
  have h: "highest_ready k < 32" using bit_imp_le_length [OF b] by simp
  then show ?thesis using nz b l g by auto
qed

lemma ready_thread_prio:
  assumes "kinv k" "stat_of (threads k t) = RT_THREAD_READY"
  shows "t \<in> set (lists k (Ready (unat (th_current_priority (threads k t)))))"
    "unat (th_current_priority (threads k t)) < 32"
  using assms by (auto simp: kinv_def sched_ok_def ready_ok_def mask_ok_def)

lemma rt_schedule_sel [simp]:
  "threads (rt_schedule k) = threads k" "lists (rt_schedule k) = lists k"
  "prio_group (rt_schedule k) = prio_group k" "lock_nest (rt_schedule k) = lock_nest k"
  "int_nest (rt_schedule k) = int_nest k" "tick (rt_schedule k) = tick k"
  "timers (rt_schedule k) = timers k" "timer_list (rt_schedule k) = timer_list k"
  "obj_list (rt_schedule k) = obj_list k" "obj_hdr (rt_schedule k) = obj_hdr k"
  "sems (rt_schedule k) = sems k" "mutexes (rt_schedule k) = mutexes k"
  "events (rt_schedule k) = events k" "mailboxes (rt_schedule k) = mailboxes k"
  "mqs (rt_schedule k) = mqs k"
  by (auto simp: rt_schedule_def Let_def split: list.splits)

lemma kinv_rt_schedule [simp]: "kinv (rt_schedule k) = kinv k"
  by (rule kinv_cong) simp_all

lemma rt_schedule_current:
  assumes "kinv k" "stat_of (threads k t) = RT_THREAD_READY" "lock_nest k = 0" "current k = Some c"
  shows "fault (rt_schedule k) = fault k \<and>
    current (rt_schedule k) = Some (hd (lists k (Ready (highest_ready k)))) \<and>
    lists k (Ready (highest_ready k)) \<noteq> []"
proof -
  let ?p = "unat (th_current_priority (threads k t))"
  have "lists k (Ready ?p) \<noteq> []" using ready_thread_prio(1) [OF assms(1,2)] by auto
  then have "prio_group k \<noteq> 0" "lists k (Ready (highest_ready k)) \<noteq> []"
    using highest_ready_least [OF assms(1) _ ready_thread_prio(2) [OF assms(1,2)]] by auto
  then show ?thesis using assms(3,4)
    by (auto simp: rt_schedule_def Let_def split: list.splits)
qed

lemma highest_ready_prio:
  assumes "kinv k" "stat_of (threads k t) = RT_THREAD_READY"
  shows "highest_ready k \<le> unat (th_current_priority (threads k t))"
  using ready_thread_prio [OF assms] highest_ready_least [OF assms(1)]
  by (metis in_set_conv_nth length_0_conv less_nat_zero_code linorder_not_less)

end
