(* ===== verification/Kobject.thy ===== *)
theory Kobject
  imports Scheduler
begin

text \<open>
  Kernel objects (\<^verbatim>\<open>src/object.c\<close>): every object class of the build has a container list,
  an object is registered at its head. A name is a C string without its terminator, copied
  by \<^verbatim>\<open>rt_strncpy\<close> into \<^verbatim>\<open>RT_NAME_MAX\<close> characters. The heap is outside this theory: the
  object address that \<^verbatim>\<open>RT_KERNEL_MALLOC\<close> returns is an argument, \<open>None\<close> when it fails.
\<close>

text \<open>The classes that have a container in this build (\<^verbatim>\<open>rt_object_container\<close>).\<close>

definition rt_object_container :: "obj_class list" where
  "rt_object_container =
     [RT_Object_Class_Thread, RT_Object_Class_Semaphore, RT_Object_Class_Mutex,
      RT_Object_Class_Event, RT_Object_Class_MailBox, RT_Object_Class_MessageQueue,
      RT_Object_Class_MemPool, RT_Object_Class_Device, RT_Object_Class_Timer]"

definition rt_object_get_information :: "obj_class \<Rightarrow> obj_class option" where
  "rt_object_get_information c = find (\<lambda>d. d = c) rt_object_container"

definition rt_strncpy_name :: "string \<Rightarrow> string" where
  "rt_strncpy_name name = take RT_NAME_MAX name"

definition upd_hdr :: "obj_ref \<Rightarrow> (rt_object \<Rightarrow> rt_object) \<Rightarrow> kernel \<Rightarrow> kernel" where
  "upd_hdr r f k = k\<lparr>obj_hdr := (obj_hdr k)(r := f (obj_hdr k r))\<rparr>"

definition obj_link :: "obj_class \<Rightarrow> obj_ref \<Rightarrow> kernel \<Rightarrow> kernel" where
  "obj_link c r k = k\<lparr>obj_list := (obj_list k)(c := r # obj_list k c)\<rparr>"

definition obj_unlink :: "obj_ref \<Rightarrow> kernel \<Rightarrow> kernel" where
  "obj_unlink r k = k\<lparr>obj_list := (\<lambda>c. removeAll r (obj_list k c))\<rparr>"

definition rt_object_init :: "obj_ref \<Rightarrow> obj_class \<Rightarrow> string \<Rightarrow> kernel \<Rightarrow> kernel" where
  "rt_object_init r c name k =
     (let k = rt_assert (rt_object_get_information c \<noteq> None) k;
          k = upd_hdr r (\<lambda>h. h\<lparr>obj_type := c, obj_static := True\<rparr>) k;
          k = upd_hdr r (\<lambda>h. h\<lparr>obj_name := rt_strncpy_name name\<rparr>) k
      in obj_link c r k)"

definition rt_object_detach :: "obj_ref \<Rightarrow> kernel \<Rightarrow> kernel" where
  "rt_object_detach r k = obj_unlink r k"

definition rt_object_allocate ::
    "obj_ref option \<Rightarrow> obj_class \<Rightarrow> string \<Rightarrow> kernel \<Rightarrow> obj_ref option \<times> kernel" where
  "rt_object_allocate mem c name k =
     (let k = debug_not_in_interrupt k;
          k = rt_assert (rt_object_get_information c \<noteq> None) k
      in case mem of
           None \<Rightarrow> (None, k)
         | Some r \<Rightarrow>
             (let k = upd_hdr r (\<lambda>h. h\<lparr>obj_type := c, obj_static := False\<rparr>) k;
                  k = upd_hdr r (\<lambda>h. h\<lparr>obj_flag := 0\<rparr>) k;
                  k = upd_hdr r (\<lambda>h. h\<lparr>obj_name := rt_strncpy_name name\<rparr>) k
              in (Some r, obj_link c r k)))"

definition rt_object_delete :: "obj_ref \<Rightarrow> kernel \<Rightarrow> kernel" where
  "rt_object_delete r k =
     (let k = rt_assert (\<not> obj_static (obj_hdr k r)) k
      in obj_unlink r k)"

definition rt_object_is_systemobject :: "obj_ref \<Rightarrow> kernel \<Rightarrow> bool" where
  "rt_object_is_systemobject r k = obj_static (obj_hdr k r)"

text \<open>\<^verbatim>\<open>rt_strncmp(a, b, RT_NAME_MAX) == 0\<close> on strings without terminators.\<close>

definition rt_name_eq :: "string \<Rightarrow> string \<Rightarrow> bool" where
  "rt_name_eq a b \<longleftrightarrow> take RT_NAME_MAX a = take RT_NAME_MAX b"

fun find_object :: "string \<Rightarrow> (obj_ref \<Rightarrow> rt_object) \<Rightarrow> obj_ref list \<Rightarrow> obj_ref option" where
  "find_object name h [] = None"
| "find_object name h (r # rs) =
     (if rt_name_eq (obj_name (h r)) name then Some r else find_object name h rs)"

definition rt_object_find ::
    "string option \<Rightarrow> obj_class \<Rightarrow> kernel \<Rightarrow> obj_ref option \<times> kernel" where
  "rt_object_find name c k =
     (case name of
        None \<Rightarrow> (None, k)
      | Some nm \<Rightarrow>
          (let k = debug_not_in_interrupt k;
               k = rt_enter_critical k;
               k = rt_assert (rt_object_get_information c \<noteq> None) k
           in (find_object nm (obj_hdr k) (obj_list k c), rt_exit_critical k)))"

subsection \<open>Lemmas\<close>

lemmas kobj_defs = rt_object_init_def rt_object_detach_def rt_object_delete_def upd_hdr_def
  obj_link_def obj_unlink_def

lemma kobj_sel [simp]:
  "threads (rt_object_init r c n k) = threads k" "lists (rt_object_init r c n k) = lists k"
  "prio_group (rt_object_init r c n k) = prio_group k"
  "current (rt_object_init r c n k) = current k" "tick (rt_object_init r c n k) = tick k"
  "timers (rt_object_init r c n k) = timers k"
  "timer_list (rt_object_init r c n k) = timer_list k"
  "threads (rt_object_detach r k) = threads k" "lists (rt_object_detach r k) = lists k"
  "prio_group (rt_object_detach r k) = prio_group k" "current (rt_object_detach r k) = current k"
  "tick (rt_object_detach r k) = tick k" "timers (rt_object_detach r k) = timers k"
  "timer_list (rt_object_detach r k) = timer_list k" "lock_nest (rt_object_detach r k) = lock_nest k"
  "obj_hdr (rt_object_detach r k) = obj_hdr k" "fault (rt_object_detach r k) = fault k"
  "threads (rt_object_delete r k) = threads k" "lists (rt_object_delete r k) = lists k"
  "prio_group (rt_object_delete r k) = prio_group k"
  by (simp_all add: kobj_defs Let_def)

lemma rt_object_allocate_sel [simp]:
  "threads (snd (rt_object_allocate m c n k)) = threads k"
  "lists (snd (rt_object_allocate m c n k)) = lists k"
  "prio_group (snd (rt_object_allocate m c n k)) = prio_group k"
  by (auto simp: rt_object_allocate_def Let_def upd_hdr_def obj_link_def debug_not_in_interrupt_def
      split: option.splits)

lemma rt_exit_critical_sel [simp]:
  "threads (rt_exit_critical k) = threads k" "lists (rt_exit_critical k) = lists k"
  "prio_group (rt_exit_critical k) = prio_group k" "obj_list (rt_exit_critical k) = obj_list k"
  "obj_hdr (rt_exit_critical k) = obj_hdr k" "timers (rt_exit_critical k) = timers k"
  "timer_list (rt_exit_critical k) = timer_list k"
  by (simp_all add: rt_exit_critical_def Let_def)

lemma rt_enter_critical_sel [simp]:
  "threads (rt_enter_critical k) = threads k" "lists (rt_enter_critical k) = lists k"
  "prio_group (rt_enter_critical k) = prio_group k" "obj_list (rt_enter_critical k) = obj_list k"
  "obj_hdr (rt_enter_critical k) = obj_hdr k" "timers (rt_enter_critical k) = timers k"
  "timer_list (rt_enter_critical k) = timer_list k"
  by (simp_all add: rt_enter_critical_def)

lemma kinv_kobj [simp]:
  "kinv (rt_object_init r c n k) = kinv k" "kinv (rt_object_detach r k) = kinv k"
  "kinv (rt_object_delete r k) = kinv k" "kinv (snd (rt_object_allocate m c n k)) = kinv k"
  "kinv (rt_exit_critical k) = kinv k" "kinv (rt_enter_critical k) = kinv k"
  by (rule kinv_cong; simp)+

lemma get_information_container:
  "rt_object_get_information c = Some d \<longleftrightarrow> d = c \<and> c \<in> set rt_object_container"
  by (cases c) (auto simp: rt_object_get_information_def rt_object_container_def)

lemma rt_name_eq_take: "rt_name_eq (rt_strncpy_name a) b \<longleftrightarrow> rt_name_eq a b"
  by (simp add: rt_name_eq_def rt_strncpy_name_def)

lemma find_object_Some:
  "find_object name h rs = Some r \<Longrightarrow> r \<in> set rs \<and> rt_name_eq (obj_name (h r)) name"
  by (induction rs) (auto split: if_splits)

lemma find_object_None:
  "find_object name h rs = None \<longleftrightarrow> (\<forall>r \<in> set rs. \<not> rt_name_eq (obj_name (h r)) name)"
  by (induction rs) auto

end
