(* ===== verification/Timer.thy ===== *)
theory Timer
  imports Kobject
begin

text \<open>
  Hard timers (\<^verbatim>\<open>src/timer.c\<close>) with \<^verbatim>\<open>RT_TIMER_SKIP_LIST_LEVEL\<close> 1, the build's value: the skip
  list is one row, \<open>timer_list\<close>, and the height counter has no effect. The tick is a 32-bit
  counter that wraps around; a deadline is "later" when the wrapped difference is below
  \<^verbatim>\<open>RT_TICK_MAX / 2\<close>. Soft timers (\<^verbatim>\<open>RT_USING_TIMER_SOFT\<close>) are not part of the build.
  \<^verbatim>\<open>rt_timer_check\<close>, which runs the timeout functions, is in theory \<open>Clock\<close>.
\<close>

definition half_tick :: u32 where "half_tick = RT_TICK_MAX div 2"

subsection \<open>Operations\<close>

definition rt_timer_remove :: "timer_id \<Rightarrow> kernel \<Rightarrow> kernel" where
  "rt_timer_remove i k = k\<lparr>timer_list := removeAll i (timer_list k)\<rparr>"

definition clear_activated :: "rt_timer \<Rightarrow> rt_timer" where
  "clear_activated tm = tm\<lparr>tm_flag := tm_flag tm AND NOT RT_TIMER_FLAG_ACTIVATED\<rparr>"

definition rt_timer_init_fields ::
    "timer_id \<Rightarrow> timeout_fn \<Rightarrow> u32 \<Rightarrow> u8 \<Rightarrow> kernel \<Rightarrow> kernel" where
  "rt_timer_init_fields i fn time flag k =
     (let k = upd_timer i (\<lambda>tm. tm\<lparr>tm_flag := flag\<rparr>) k;
          k = upd_timer i clear_activated k
      in upd_timer i (\<lambda>tm. tm\<lparr>tm_func := fn, tm_timeout_tick := 0, tm_init_tick := time\<rparr>) k)"

definition rt_timer_init ::
    "timer_id \<Rightarrow> string \<Rightarrow> timeout_fn \<Rightarrow> u32 \<Rightarrow> u8 \<Rightarrow> kernel \<Rightarrow> kernel" where
  "rt_timer_init i name fn time flag k =
     rt_timer_init_fields i fn time flag
       (rt_object_init (Timer_obj i) RT_Object_Class_Timer name k)"

definition rt_timer_create ::
    "timer_id option \<Rightarrow> string \<Rightarrow> timeout_fn \<Rightarrow> u32 \<Rightarrow> u8 \<Rightarrow> kernel \<Rightarrow>
       timer_id option \<times> kernel" where
  "rt_timer_create mem name fn time flag k =
     (let (r, k) = rt_object_allocate (map_option Timer_obj mem) RT_Object_Class_Timer name k
      in case (r, mem) of
           (Some _, Some i) \<Rightarrow> (Some i, rt_timer_init_fields i fn time flag k)
         | _ \<Rightarrow> (None, k))"

definition rt_timer_detach :: "timer_id \<Rightarrow> kernel \<Rightarrow> int \<times> kernel" where
  "rt_timer_detach i k = (- RT_EOK, rt_object_detach (Timer_obj i) (rt_timer_remove i k))"

definition rt_timer_delete :: "timer_id \<Rightarrow> kernel \<Rightarrow> int \<times> kernel" where
  "rt_timer_delete i k = (- RT_EOK, rt_object_delete (Timer_obj i) (rt_timer_remove i k))"

text \<open>
  The test that stops the walk of \<^verbatim>\<open>rt_timer_start\<close>: timers with the same deadline are
  passed, the first one with a later deadline is the place to insert before.
\<close>

definition timer_later :: "(timer_id \<Rightarrow> rt_timer) \<Rightarrow> u32 \<Rightarrow> timer_id \<Rightarrow> bool" where
  "timer_later T tt i \<longleftrightarrow>
     tm_timeout_tick (T i) - tt \<noteq> 0 \<and> tm_timeout_tick (T i) - tt < half_tick"

definition rt_timer_start :: "timer_id \<Rightarrow> kernel \<Rightarrow> int \<times> kernel" where
  "rt_timer_start i k =
     (let k = rt_timer_remove i k;
          k = upd_timer i clear_activated k;
          k = rt_assert (tm_init_tick (timers k i) < half_tick) k;
          k = upd_timer i (\<lambda>tm. tm\<lparr>tm_timeout_tick := tick k + tm_init_tick tm\<rparr>) k;
          k = k\<lparr>timer_list := insert_where
                 (timer_later (timers k) (tm_timeout_tick (timers k i))) i (timer_list k)\<rparr>
      in (- RT_EOK, upd_timer i (\<lambda>tm. tm\<lparr>tm_flag := tm_flag tm OR RT_TIMER_FLAG_ACTIVATED\<rparr>) k))"

definition timer_activated :: "rt_timer \<Rightarrow> bool" where
  "timer_activated tm \<longleftrightarrow> tm_flag tm AND RT_TIMER_FLAG_ACTIVATED \<noteq> 0"

definition rt_timer_stop :: "timer_id \<Rightarrow> kernel \<Rightarrow> int \<times> kernel" where
  "rt_timer_stop i k =
     (if \<not> timer_activated (timers k i) then (- RT_ERROR, k)
      else (RT_EOK, upd_timer i clear_activated (rt_timer_remove i k)))"

text \<open>The commands of \<^verbatim>\<open>rt_timer_control\<close>; \<open>GET_TIME\<close> also writes through its argument.\<close>

datatype timer_cmd = SET_TIME u32 | GET_TIME | SET_ONESHOT | SET_PERIODIC

definition rt_timer_control :: "timer_id \<Rightarrow> timer_cmd \<Rightarrow> kernel \<Rightarrow> u32 option \<times> kernel" where
  "rt_timer_control i cmd k =
     (case cmd of
        GET_TIME \<Rightarrow> (Some (tm_init_tick (timers k i)), k)
      | SET_TIME t \<Rightarrow> (None, upd_timer i (\<lambda>tm. tm\<lparr>tm_init_tick := t\<rparr>) k)
      | SET_ONESHOT \<Rightarrow>
          (None, upd_timer i (\<lambda>tm. tm\<lparr>tm_flag := tm_flag tm AND NOT RT_TIMER_FLAG_PERIODIC\<rparr>) k)
      | SET_PERIODIC \<Rightarrow>
          (None, upd_timer i (\<lambda>tm. tm\<lparr>tm_flag := tm_flag tm OR RT_TIMER_FLAG_PERIODIC\<rparr>) k))"

definition rt_timer_next_timeout_tick :: "kernel \<Rightarrow> u32" where
  "rt_timer_next_timeout_tick k =
     (case timer_list k of [] \<Rightarrow> RT_TICK_MAX | i # _ \<Rightarrow> tm_timeout_tick (timers k i))"

definition rt_system_timer_init :: "kernel \<Rightarrow> kernel" where
  "rt_system_timer_init k = k\<lparr>timer_list := []\<rparr>"

subsection \<open>Frame lemmas\<close>

lemmas timer_defs = rt_timer_init_def rt_timer_init_fields_def rt_timer_detach_def
  rt_timer_delete_def rt_timer_remove_def rt_timer_start_def rt_timer_stop_def
  rt_timer_control_def upd_timer_def

lemma timer_sel [simp]:
  "threads (rt_timer_init i n f t fl k) = threads k" "lists (rt_timer_init i n f t fl k) = lists k"
  "prio_group (rt_timer_init i n f t fl k) = prio_group k"
  "current (rt_timer_init i n f t fl k) = current k"
  "threads (snd (rt_timer_detach i k)) = threads k" "lists (snd (rt_timer_detach i k)) = lists k"
  "prio_group (snd (rt_timer_detach i k)) = prio_group k"
  "threads (snd (rt_timer_delete i k)) = threads k" "lists (snd (rt_timer_delete i k)) = lists k"
  "prio_group (snd (rt_timer_delete i k)) = prio_group k"
  "threads (snd (rt_timer_start i k)) = threads k" "lists (snd (rt_timer_start i k)) = lists k"
  "prio_group (snd (rt_timer_start i k)) = prio_group k"
  "threads (snd (rt_timer_stop i k)) = threads k" "lists (snd (rt_timer_stop i k)) = lists k"
  "prio_group (snd (rt_timer_stop i k)) = prio_group k"
  "threads (snd (rt_timer_control i c k)) = threads k"
  "lists (snd (rt_timer_control i c k)) = lists k"
  "prio_group (snd (rt_timer_control i c k)) = prio_group k"
  by (auto simp: timer_defs Let_def split: timer_cmd.splits)

lemma timer_sel_glob [simp]:
  "current (snd (rt_timer_start i k)) = current k" "current (snd (rt_timer_stop i k)) = current k"
  "current (snd (rt_timer_control i c k)) = current k"
  "current (snd (rt_timer_detach i k)) = current k"
  "tick (snd (rt_timer_start i k)) = tick k" "tick (snd (rt_timer_stop i k)) = tick k"
  "tick (snd (rt_timer_control i c k)) = tick k"
  "lock_nest (snd (rt_timer_start i k)) = lock_nest k"
  "lock_nest (snd (rt_timer_stop i k)) = lock_nest k"
  "lock_nest (snd (rt_timer_control i c k)) = lock_nest k"
  "int_nest (snd (rt_timer_start i k)) = int_nest k"
  "int_nest (snd (rt_timer_stop i k)) = int_nest k"
  "int_nest (snd (rt_timer_control i c k)) = int_nest k"
  "sems (snd (rt_timer_start i k)) = sems k" "sems (snd (rt_timer_stop i k)) = sems k"
  "sems (snd (rt_timer_control i c k)) = sems k"
  "mutexes (snd (rt_timer_start i k)) = mutexes k" "mutexes (snd (rt_timer_stop i k)) = mutexes k"
  "mutexes (snd (rt_timer_control i c k)) = mutexes k"
  "events (snd (rt_timer_start i k)) = events k" "events (snd (rt_timer_stop i k)) = events k"
  "events (snd (rt_timer_control i c k)) = events k"
  "mailboxes (snd (rt_timer_start i k)) = mailboxes k"
  "mailboxes (snd (rt_timer_stop i k)) = mailboxes k"
  "mailboxes (snd (rt_timer_control i c k)) = mailboxes k"
  "mqs (snd (rt_timer_start i k)) = mqs k" "mqs (snd (rt_timer_stop i k)) = mqs k"
  "mqs (snd (rt_timer_control i c k)) = mqs k"
  "obj_hdr (snd (rt_timer_start i k)) = obj_hdr k" "obj_hdr (snd (rt_timer_stop i k)) = obj_hdr k"
  "obj_hdr (snd (rt_timer_control i c k)) = obj_hdr k"
  by (auto simp: timer_defs kobj_defs Let_def split: timer_cmd.splits)

lemma kinv_timer [simp]:
  "kinv (rt_timer_init i n f t fl k) = kinv k" "kinv (snd (rt_timer_detach i k)) = kinv k"
  "kinv (snd (rt_timer_delete i k)) = kinv k" "kinv (snd (rt_timer_start i k)) = kinv k"
  "kinv (snd (rt_timer_stop i k)) = kinv k" "kinv (snd (rt_timer_control i c k)) = kinv k"
  by (rule kinv_cong; simp)+

subsection \<open>Deadlines in order\<close>

text \<open>
  \<open>time_left w T i\<close> is the wrapped distance of timer \<open>i\<close>'s deadline from the tick \<open>w\<close>. The row
  is in order as seen from \<open>w\<close> when every distance is below half the range and the
  distances do not decrease along it.
\<close>

definition time_left :: "u32 \<Rightarrow> (timer_id \<Rightarrow> rt_timer) \<Rightarrow> timer_id \<Rightarrow> nat" where
  "time_left w T i = unat (tm_timeout_tick (T i) - w)"

definition timers_sorted :: "u32 \<Rightarrow> (timer_id \<Rightarrow> rt_timer) \<Rightarrow> timer_id list \<Rightarrow> bool" where
  "timers_sorted w T xs \<longleftrightarrow> distinct xs \<and>
     sorted_wrt (\<lambda>i j. time_left w T i \<le> time_left w T j) xs \<and>
     (\<forall>i \<in> set xs. time_left w T i < unat half_tick)"

lemma half_tick_nat [simp]: "unat half_tick = 2147483647"
  by (simp add: half_tick_def RT_TICK_MAX_def)

lemma wrapped_later:
  fixes a b :: u32
  assumes "unat a < 2147483647" "unat b < 2147483647"
  shows "(a - b \<noteq> 0 \<and> a - b < half_tick) \<longleftrightarrow> unat b < unat a"
proof -
  show ?thesis
  proof (cases "unat b < unat a")
    case True
    then have "unat (a - b) = unat a - unat b" by (simp add: unat_sub word_less_nat_alt less_imp_le
          word_le_nat_alt)
    then show ?thesis using True assms by (auto simp: word_less_nat_alt unat_eq_0 [symmetric])
  next
    case False
    show ?thesis
    proof (cases "a = b")
      case True
      then show ?thesis by simp
    next
      case neq: False
      then have lt: "unat a < unat b" using False by (metis linorder_neqE_nat word_unat_eq_iff)
      have "unat (a - b) = 2 ^ 32 + unat a - unat b"
        using lt by (simp add: unat_sub_if')
      then show ?thesis using lt assms by (auto simp: word_less_nat_alt)
    qed
  qed
qed

lemma timer_later_time_left:
  assumes "time_left w T i < 2147483647" "unat (tt - w) < 2147483647"
  shows "timer_later T tt i \<longleftrightarrow> unat (tt - w) < time_left w T i"
proof -
  have "tm_timeout_tick (T i) - tt = (tm_timeout_tick (T i) - w) - (tt - w)" by simp
  then show ?thesis
    using wrapped_later [of "tm_timeout_tick (T i) - w" "tt - w"] assms
    by (simp add: timer_later_def time_left_def)
qed

lemma timers_sorted_removeAll:
  "timers_sorted w T xs \<Longrightarrow> timers_sorted w T (removeAll i xs)"
  by (auto simp: timers_sorted_def distinct_removeAll intro: sorted_wrt_removeAll)

lemma timers_sorted_cong:
  assumes "\<And>i. i \<in> set xs \<Longrightarrow> tm_timeout_tick (T' i) = tm_timeout_tick (T i)"
  shows "timers_sorted w T' xs = timers_sorted w T xs"
proof -
  have "\<And>i. i \<in> set xs \<Longrightarrow> time_left w T' i = time_left w T i"
    using assms by (simp add: time_left_def)
  then show ?thesis unfolding timers_sorted_def
    by (metis (mono_tags, lifting) sorted_wrt_mono_rel)
qed

lemma timers_sorted_insert:
  assumes s: "timers_sorted w T xs" and i: "i \<notin> set xs"
    and d: "time_left w T i < unat half_tick"
  shows "timers_sorted w T (insert_where (timer_later T (tm_timeout_tick (T i))) i xs)"
proof -
  have later: "j \<in> set xs \<Longrightarrow> timer_later T (tm_timeout_tick (T i)) j \<longleftrightarrow>
      time_left w T i < time_left w T j" for j
    using s d timer_later_time_left [of w T j "tm_timeout_tick (T i)"]
    by (simp add: timers_sorted_def time_left_def)
  have "sorted_wrt (\<lambda>i j. time_left w T i \<le> time_left w T j)
      (insert_where (timer_later T (tm_timeout_tick (T i))) i xs)"
    by (rule sorted_wrt_insert_where) (use s later in \<open>auto simp: timers_sorted_def\<close>)
  then show ?thesis using s i d by (auto simp: timers_sorted_def)
qed

lemma rt_timer_start_sorted:
  assumes "timers_sorted w (timers k) (timer_list k)"
    and "unat (tick k + tm_init_tick (timers k i) - w) < unat half_tick"
  defines "k' \<equiv> snd (rt_timer_start i k)"
  shows "timers_sorted w (timers k') (timer_list k') \<and> i \<in> set (timer_list k') \<and>
    tm_timeout_tick (timers k' i) = tick k + tm_init_tick (timers k i)"
proof -
  let ?xs = "removeAll i (timer_list k)"
  let ?T = "(timers k)(i := (clear_activated (timers k i))
              \<lparr>tm_timeout_tick := tick k + tm_init_tick (timers k i)\<rparr>)"
  have "timers_sorted w (timers k) ?xs" using assms(1) by (rule timers_sorted_removeAll)
  moreover have "timers_sorted w ?T ?xs = timers_sorted w (timers k) ?xs"
    by (rule timers_sorted_cong) auto
  ultimately have "timers_sorted w ?T ?xs" by simp
  then have ins: "timers_sorted w ?T
      (insert_where (timer_later ?T (tm_timeout_tick (?T i))) i ?xs)"
    by (rule timers_sorted_insert) (use assms(2) in \<open>auto simp: time_left_def\<close>)
  have l: "timer_list k' = insert_where (timer_later ?T (tm_timeout_tick (?T i))) i ?xs"
    and t: "\<And>j. tm_timeout_tick (timers k' j) = tm_timeout_tick (?T j)"
    by (auto simp: k'_def rt_timer_start_def Let_def upd_timer_def rt_timer_remove_def
        clear_activated_def)
  have "timers_sorted w (timers k') (timer_list k') = timers_sorted w ?T (timer_list k')"
    by (rule timers_sorted_cong) (rule t)
  then show ?thesis using ins by (simp add: l t)
qed

end
