(* ===== verification/Thread.thy ===== *)
theory Thread
  imports Timer
begin

text \<open>
  Threads (\<^verbatim>\<open>src/thread.c\<close>). A call that blocks ends in \<^verbatim>\<open>rt_schedule\<close>; what the C function
  does when the thread runs again is a second definition (\<open>rt_thread_sleep_return\<close>).
  Stack memory and entry points are left out, and no hook is set; the address
  of a new thread object and the outcome of its stack allocation are arguments.

  The lemmas show that every operation keeps the queue invariant \<open>kinv\<close>, and what it
  leaves in the queues.
\<close>

subsection \<open>Operations\<close>

definition rt_thread_self :: "kernel \<Rightarrow> tid option" where
  "rt_thread_self k = current k"

definition rt_thread_suspend :: "tid \<Rightarrow> kernel \<Rightarrow> int \<times> kernel" where
  "rt_thread_suspend t k =
     (if stat_of (threads k t) \<noteq> RT_THREAD_READY then (- RT_ERROR, k)
      else
        (let k = upd_thread t (set_stat RT_THREAD_SUSPEND) k;
             k = rt_schedule_remove_thread t k;
             k = snd (rt_timer_stop (Thread_timer t) k)
         in (RT_EOK, k)))"

definition rt_thread_resume :: "tid \<Rightarrow> kernel \<Rightarrow> int \<times> kernel" where
  "rt_thread_resume t k =
     (if stat_of (threads k t) \<noteq> RT_THREAD_SUSPEND then (- RT_ERROR, k)
      else
        (let k = tlist_remove t k;
             k = snd (rt_timer_stop (Thread_timer t) k)
         in (RT_EOK, rt_schedule_insert_thread t k)))"

definition rt_thread_exit :: "kernel \<Rightarrow> kernel" where
  "rt_thread_exit k =
     (case current k of
        None \<Rightarrow> defined_if False k
      | Some t \<Rightarrow>
          (let k = rt_schedule_remove_thread t k;
               k = upd_thread t (\<lambda>th. th\<lparr>th_stat := RT_THREAD_CLOSE\<rparr>) k;
               k = snd (rt_timer_detach (Thread_timer t) k);
               k = (if rt_object_is_systemobject (Thread_obj t) k \<and>
                       th_cleanup (threads k t) = None
                    then rt_object_detach (Thread_obj t) k
                    else tlist_insert_after Defunct t k)
           in rt_schedule k))"

definition rt_thread_init_fields :: "tid \<Rightarrow> string \<Rightarrow> u8 \<Rightarrow> u32 \<Rightarrow> kernel \<Rightarrow> int \<times> kernel" where
  "rt_thread_init_fields t name priority tk k =
     (let k = rt_assert (unat priority < RT_THREAD_PRIORITY_MAX) k;
          k = upd_thread t (\<lambda>th. th\<lparr>th_init_priority := priority,
                th_current_priority := priority, th_number_mask := 0,
                th_init_tick := tk, th_remaining_tick := tk,
                th_error := RT_EOK, th_stat := RT_THREAD_INIT, th_cleanup := None\<rparr>) k;
          k = rt_timer_init (Thread_timer t) name (Rt_thread_timeout t) 0 0 k
      in (RT_EOK, k))"

definition rt_thread_init :: "tid \<Rightarrow> string \<Rightarrow> u8 \<Rightarrow> u32 \<Rightarrow> kernel \<Rightarrow> int \<times> kernel" where
  "rt_thread_init t name priority tk k =
     rt_thread_init_fields t name priority tk
       (rt_object_init (Thread_obj t) RT_Object_Class_Thread name k)"

definition rt_thread_create ::
    "tid option \<Rightarrow> bool \<Rightarrow> string \<Rightarrow> u8 \<Rightarrow> u32 \<Rightarrow> kernel \<Rightarrow> tid option \<times> kernel" where
  "rt_thread_create mem stack_ok name priority tk k =
     (let (r, k) = rt_object_allocate (map_option Thread_obj mem) RT_Object_Class_Thread name k
      in case (r, mem) of
           (Some r, Some t) \<Rightarrow>
             if \<not> stack_ok then (None, rt_object_delete r k)
             else (Some t, snd (rt_thread_init_fields t name priority tk k))
         | _ \<Rightarrow> (None, k))"

text \<open>\<^verbatim>\<open>number_mask = 1L << current_priority\<close>\<close>

definition set_mask :: "rt_thread \<Rightarrow> rt_thread" where
  "set_mask th = th\<lparr>th_number_mask := push_bit (unat (th_current_priority th)) 1\<rparr>"

definition rt_thread_startup :: "tid \<Rightarrow> kernel \<Rightarrow> int \<times> kernel" where
  "rt_thread_startup t k =
     (let k = rt_assert (stat_of (threads k t) = RT_THREAD_INIT) k;
          k = upd_thread t (\<lambda>th. th\<lparr>th_current_priority := th_init_priority th\<rparr>) k;
          k = upd_thread t set_mask k;
          k = upd_thread t (\<lambda>th. th\<lparr>th_stat := RT_THREAD_SUSPEND\<rparr>) k;
          k = snd (rt_thread_resume t k)
      in (RT_EOK, if rt_thread_self k \<noteq> None then rt_schedule k else k))"

definition rt_thread_detach :: "tid \<Rightarrow> kernel \<Rightarrow> int \<times> kernel" where
  "rt_thread_detach t k =
     (let k = (if stat_of (threads k t) \<noteq> RT_THREAD_INIT
               then rt_schedule_remove_thread t k else k);
          k = snd (rt_timer_detach (Thread_timer t) k);
          k = upd_thread t (\<lambda>th. th\<lparr>th_stat := RT_THREAD_CLOSE\<rparr>) k;
          k = rt_object_detach (Thread_obj t) k
      in (RT_EOK, if th_cleanup (threads k t) \<noteq> None then tlist_insert_after Defunct t k else k))"

definition rt_thread_delete :: "tid \<Rightarrow> kernel \<Rightarrow> int \<times> kernel" where
  "rt_thread_delete t k =
     (let k = (if stat_of (threads k t) \<noteq> RT_THREAD_INIT
               then rt_schedule_remove_thread t k else k);
          k = snd (rt_timer_detach (Thread_timer t) k);
          k = upd_thread t (\<lambda>th. th\<lparr>th_stat := RT_THREAD_CLOSE\<rparr>) k
      in (RT_EOK, tlist_insert_after Defunct t k))"

text \<open>
  \<^verbatim>\<open>tlist.next != tlist.prev\<close> holds for a linked node exactly when its list has another
  thread (lemma \<open>Rt_List.ring_single\<close>).
\<close>

definition rt_thread_yield :: "kernel \<Rightarrow> int \<times> kernel" where
  "rt_thread_yield k =
     (case current k of
        None \<Rightarrow> (RT_EOK, defined_if False k)
      | Some t \<Rightarrow>
          (let p = unat (th_current_priority (threads k t)) in
           if stat_of (threads k t) = RT_THREAD_READY \<and> length (lists k (Ready p)) \<noteq> 1
           then (RT_EOK, rt_schedule (tlist_insert_before (Ready p) t (tlist_remove t k)))
           else (RT_EOK, k)))"

definition rt_thread_sleep :: "u32 \<Rightarrow> kernel \<Rightarrow> kernel" where
  "rt_thread_sleep tk k =
     (case current k of
        None \<Rightarrow> rt_assert False k
      | Some t \<Rightarrow>
          (let k = snd (rt_thread_suspend t k);
               k = snd (rt_timer_control (Thread_timer t) (SET_TIME tk) k);
               k = snd (rt_timer_start (Thread_timer t) k)
           in rt_schedule k))"

definition rt_thread_sleep_return :: "tid \<Rightarrow> kernel \<Rightarrow> int \<times> kernel" where
  "rt_thread_sleep_return t k =
     (RT_EOK, if th_error (threads k t) = - RT_ETIMEOUT
              then upd_thread t (\<lambda>th. th\<lparr>th_error := RT_EOK\<rparr>) k else k)"

definition rt_thread_delay :: "u32 \<Rightarrow> kernel \<Rightarrow> kernel" where
  "rt_thread_delay tk k = rt_thread_sleep tk k"

datatype thread_cmd = CTRL_STARTUP | CTRL_CLOSE | CTRL_CHANGE_PRIORITY u8 | CTRL_INFO

definition rt_thread_control :: "tid \<Rightarrow> thread_cmd \<Rightarrow> kernel \<Rightarrow> int \<times> kernel" where
  "rt_thread_control t cmd k =
     (case cmd of
        CTRL_CHANGE_PRIORITY p \<Rightarrow>
          if stat_of (threads k t) = RT_THREAD_READY
          then
            (let k = rt_schedule_remove_thread t k;
                 k = upd_thread t (\<lambda>th. th\<lparr>th_current_priority := p\<rparr>) k;
                 k = upd_thread t set_mask k
             in (RT_EOK, rt_schedule_insert_thread t k))
          else
            (let k = upd_thread t (\<lambda>th. th\<lparr>th_current_priority := p\<rparr>) k
             in (RT_EOK, upd_thread t set_mask k))
      | CTRL_STARTUP \<Rightarrow> rt_thread_startup t k
      | CTRL_CLOSE \<Rightarrow> rt_thread_delete t k
      | CTRL_INFO \<Rightarrow> (RT_EOK, k))"

definition rt_thread_timeout :: "tid \<Rightarrow> kernel \<Rightarrow> kernel" where
  "rt_thread_timeout t k =
     (let k = rt_assert (stat_of (threads k t) = RT_THREAD_SUSPEND) k;
          k = upd_thread t (\<lambda>th. th\<lparr>th_error := - RT_ETIMEOUT\<rparr>) k;
          k = tlist_remove t k;
          k = rt_schedule_insert_thread t k
      in rt_schedule k)"

definition rt_thread_find :: "string \<Rightarrow> kernel \<Rightarrow> obj_ref option \<times> kernel" where
  "rt_thread_find name k =
     (let k = (if rt_thread_self k \<noteq> None then rt_enter_critical k else k)
      in (find_object name (obj_hdr k) (obj_list k RT_Object_Class_Thread),
          if rt_thread_self k \<noteq> None then rt_exit_critical k else k))"

subsection \<open>The invariant through the moves\<close>

lemma kinv_unlink:
  assumes "kinv k" "stat_of (threads k t) \<in> {RT_THREAD_READY, RT_THREAD_SUSPEND}"
    and "stat_of (f (threads k t)) \<noteq> RT_THREAD_READY"
    and "\<And>th. th_current_priority (f th) = th_current_priority th"
    and "\<And>th. th_number_mask (f th) = th_number_mask th"
  shows "kinv (rt_schedule_remove_thread t (upd_thread t f k))"
proof -
  let ?L = "\<lambda>l. removeAll t (lists k l)"
  let ?p = "unat (th_current_priority (threads k t))"
  have "mask_ok (threads k t)" using assms(1,2) by (auto simp: kinv_def sched_ok_def)
  then have "mask_ok (f (threads k t))" using assms(4,5) by (simp add: mask_ok_def)
  then have "sched_ok ((threads k)(t := f (threads k t))) ?L
      (if ?L (Ready ?p) = [] then prio_group k AND NOT (th_number_mask (threads k t))
       else prio_group k)"
    using assms by (intro sched_ok_unlink) (auto simp: kinv_def)
  then show ?thesis
    using assms(4,5)
    by (simp add: kinv_def rt_schedule_remove_thread_def upd_thread_def tlist_remove_def Let_def
        split: if_splits)
qed

lemma upd_remove_commute:
  assumes "\<And>th. th_current_priority (f th) = th_current_priority th"
    and "\<And>th. th_number_mask (f th) = th_number_mask th"
  shows "upd_thread t f (rt_schedule_remove_thread t k) =
    rt_schedule_remove_thread t (upd_thread t f k)"
  using assms by (simp add: rt_schedule_remove_thread_def upd_thread_def tlist_remove_def Let_def)

lemma kinv_insert:
  assumes "kinv k" "\<And>l. t \<notin> set (lists k l)" "mask_ok (threads k t)"
  shows "kinv (rt_schedule_insert_thread t k)"
    "fault (rt_schedule_insert_thread t k) = fault k"
proof -
  let ?th = "set_stat RT_THREAD_READY (threads k t)"
  let ?p = "unat (th_current_priority (threads k t))"
  have "sched_ok ((threads k)(t := ?th)) ((lists k)(Ready ?p := lists k (Ready ?p) @ [t]))
      (prio_group k OR th_number_mask ?th)"
    using assms by (intro sched_ok_ready) (auto simp: kinv_def mask_ok_def)
  then show "kinv (rt_schedule_insert_thread t k)"
    by (simp add: kinv_def rt_schedule_insert_thread_def upd_thread_def tlist_insert_before_def
        Let_def)
  show "fault (rt_schedule_insert_thread t k) = fault k"
    using assms(3) by (simp add: rt_schedule_insert_thread_def upd_thread_def
        tlist_insert_before_def Let_def mask_ok_def)
qed

lemma kinv_tlist_remove:
  assumes "kinv k" "stat_of (threads k t) \<noteq> RT_THREAD_READY"
  shows "kinv (tlist_remove t k)"
proof -
  have "\<And>p. removeAll t (lists k (Ready p)) = lists k (Ready p)"
    using assms by (simp add: kinv_def sched_ok_not_ready_free)
  moreover have "queues_ok (\<lambda>l. removeAll t (lists k l))"
    using assms(1) by (auto simp: kinv_def sched_ok_def queues_ok_def distinct_removeAll)
  ultimately show ?thesis
    using assms(1) by (simp add: kinv_def tlist_remove_def sched_ok_def ready_ok_def group_ok_def)
qed

lemma tlist_remove_sel [simp]:
  "threads (tlist_remove t k) = threads k" "prio_group (tlist_remove t k) = prio_group k"
  "current (tlist_remove t k) = current k" "fault (tlist_remove t k) = fault k"
  "lists (tlist_remove t k) l = removeAll t (lists k l)" "lock_nest (tlist_remove t k) = lock_nest k"
  "sems (tlist_remove t k) = sems k" "mutexes (tlist_remove t k) = mutexes k"
  "events (tlist_remove t k) = events k" "mailboxes (tlist_remove t k) = mailboxes k"
  "mqs (tlist_remove t k) = mqs k" "tick (tlist_remove t k) = tick k"
  "int_nest (tlist_remove t k) = int_nest k" "obj_hdr (tlist_remove t k) = obj_hdr k"
  "timers (tlist_remove t k) = timers k" "timer_list (tlist_remove t k) = timer_list k"
  by (simp_all add: tlist_remove_def)

lemma upd_thread_sel [simp]:
  "threads (upd_thread t f k) = (threads k)(t := f (threads k t))"
  "lists (upd_thread t f k) = lists k" "prio_group (upd_thread t f k) = prio_group k"
  "current (upd_thread t f k) = current k" "fault (upd_thread t f k) = fault k"
  "lock_nest (upd_thread t f k) = lock_nest k" "sems (upd_thread t f k) = sems k"
  "mutexes (upd_thread t f k) = mutexes k" "events (upd_thread t f k) = events k"
  "mailboxes (upd_thread t f k) = mailboxes k" "mqs (upd_thread t f k) = mqs k"
  "tick (upd_thread t f k) = tick k" "int_nest (upd_thread t f k) = int_nest k"
  "obj_hdr (upd_thread t f k) = obj_hdr k" "timers (upd_thread t f k) = timers k"
  "timer_list (upd_thread t f k) = timer_list k"
  by (simp_all add: upd_thread_def)

lemma insert_thread_sel [simp]:
  "threads (rt_schedule_insert_thread t k) = 
     (threads k)(t := set_stat RT_THREAD_READY (threads k t))"
  "lists (rt_schedule_insert_thread t k) =
     (lists k)(Ready (unat (th_current_priority (threads k t))) :=
        lists k (Ready (unat (th_current_priority (threads k t)))) @ [t])"
  "prio_group (rt_schedule_insert_thread t k) = prio_group k OR th_number_mask (threads k t)"
  "current (rt_schedule_insert_thread t k) = current k"
  "lock_nest (rt_schedule_insert_thread t k) = lock_nest k"
  "sems (rt_schedule_insert_thread t k) = sems k"
  "mutexes (rt_schedule_insert_thread t k) = mutexes k"
  "events (rt_schedule_insert_thread t k) = events k"
  "mailboxes (rt_schedule_insert_thread t k) = mailboxes k"
  "mqs (rt_schedule_insert_thread t k) = mqs k" "tick (rt_schedule_insert_thread t k) = tick k"
  "int_nest (rt_schedule_insert_thread t k) = int_nest k"
  "obj_hdr (rt_schedule_insert_thread t k) = obj_hdr k"
  "timers (rt_schedule_insert_thread t k) = timers k"
  "timer_list (rt_schedule_insert_thread t k) = timer_list k"
  by (simp_all add: rt_schedule_insert_thread_def tlist_insert_before_def Let_def)

lemma remove_thread_sel [simp]:
  "threads (rt_schedule_remove_thread t k) = threads k"
  "lists (rt_schedule_remove_thread t k) = (\<lambda>l. removeAll t (lists k l))"
  "current (rt_schedule_remove_thread t k) = current k"
  "fault (rt_schedule_remove_thread t k) = fault k"
  "lock_nest (rt_schedule_remove_thread t k) = lock_nest k"
  "sems (rt_schedule_remove_thread t k) = sems k"
  "mutexes (rt_schedule_remove_thread t k) = mutexes k"
  "events (rt_schedule_remove_thread t k) = events k"
  "mailboxes (rt_schedule_remove_thread t k) = mailboxes k"
  "mqs (rt_schedule_remove_thread t k) = mqs k" "tick (rt_schedule_remove_thread t k) = tick k"
  "int_nest (rt_schedule_remove_thread t k) = int_nest k"
  "obj_hdr (rt_schedule_remove_thread t k) = obj_hdr k"
  "timers (rt_schedule_remove_thread t k) = timers k"
  "timer_list (rt_schedule_remove_thread t k) = timer_list k"
  by (auto simp: rt_schedule_remove_thread_def tlist_remove_def Let_def fun_eq_iff)

lemma timer_stop_fault [simp]: "fault (snd (rt_timer_stop i k)) = fault k"
  by (simp add: rt_timer_stop_def upd_timer_def rt_timer_remove_def)

lemma kinv_upd_frame:
  assumes "kinv k" "\<And>th. th_stat (f th) = th_stat th"
    "\<And>th. th_current_priority (f th) = th_current_priority th"
    "\<And>th. th_number_mask (f th) = th_number_mask th"
  shows "kinv (upd_thread t f k)"
  using assms by (auto simp: kinv_def intro!: sched_ok_frame)

lemma kinv_live_mask:
  "kinv k \<Longrightarrow> stat_of (threads k t) \<in> {RT_THREAD_READY, RT_THREAD_SUSPEND} \<Longrightarrow>
     mask_ok (threads k t)"
  by (auto simp: kinv_def sched_ok_def)

text \<open>A thread that is not ready may change its status to another one that is not ready.\<close>

lemma kinv_upd_not_ready:
  assumes "kinv k" "\<And>p. t \<notin> set (lists k (Ready p))"
    and "stat_of (f (threads k t)) \<noteq> RT_THREAD_READY"
    and "stat_of (f (threads k t)) = RT_THREAD_SUSPEND \<Longrightarrow> mask_ok (f (threads k t))"
  shows "kinv (upd_thread t f k)"
  using assms by (auto simp: kinv_def sched_ok_def ready_ok_def)

lemma kinv_defunct:
  assumes "kinv k" "\<And>l. t \<notin> set (lists k l)"
  shows "kinv (tlist_insert_after Defunct t k)"
  using sched_ok_enqueue [of "threads k" "lists k" "prio_group k" t Defunct 0
      "t # lists k Defunct"] assms
  by (simp add: kinv_def tlist_insert_after_def queues_okD sched_ok_def)

lemma tlist_insert_after_sel [simp]:
  "threads (tlist_insert_after l t k) = threads k" "current (tlist_insert_after l t k) = current k"
  "lists (tlist_insert_after l t k) = (lists k)(l := t # lists k l)"
  "fault (tlist_insert_after l t k) = fault k"
  by (simp_all add: tlist_insert_after_def)

subsection \<open>Suspension and resumption\<close>

lemma rt_thread_suspend_lists:
  "stat_of (threads k t) = RT_THREAD_READY \<Longrightarrow>
     lists (snd (rt_thread_suspend t k)) = (\<lambda>l. removeAll t (lists k l)) \<and>
     threads (snd (rt_thread_suspend t k)) =
       (threads k)(t := set_stat RT_THREAD_SUSPEND (threads k t)) \<and>
     fst (rt_thread_suspend t k) = RT_EOK"
  by (simp add: rt_thread_suspend_def Let_def)

lemma rt_thread_suspend_sel [simp]:
  "current (snd (rt_thread_suspend t k)) = current k"
  "lock_nest (snd (rt_thread_suspend t k)) = lock_nest k"
  "int_nest (snd (rt_thread_suspend t k)) = int_nest k" "tick (snd (rt_thread_suspend t k)) = tick k"
  "sems (snd (rt_thread_suspend t k)) = sems k" "mutexes (snd (rt_thread_suspend t k)) = mutexes k"
  "events (snd (rt_thread_suspend t k)) = events k"
  "mailboxes (snd (rt_thread_suspend t k)) = mailboxes k"
  "mqs (snd (rt_thread_suspend t k)) = mqs k" "fault (snd (rt_thread_suspend t k)) = fault k"
  "obj_hdr (snd (rt_thread_suspend t k)) = obj_hdr k"
  by (simp_all add: rt_thread_suspend_def Let_def)

lemma kinv_suspend [simp]: "kinv k \<Longrightarrow> kinv (snd (rt_thread_suspend t k))"
  by (auto simp: rt_thread_suspend_def Let_def intro!: kinv_unlink)

lemma rt_thread_resume_sel [simp]:
  "current (snd (rt_thread_resume t k)) = current k"
  "lock_nest (snd (rt_thread_resume t k)) = lock_nest k"
  "int_nest (snd (rt_thread_resume t k)) = int_nest k" "tick (snd (rt_thread_resume t k)) = tick k"
  "sems (snd (rt_thread_resume t k)) = sems k" "mutexes (snd (rt_thread_resume t k)) = mutexes k"
  "events (snd (rt_thread_resume t k)) = events k"
  "mailboxes (snd (rt_thread_resume t k)) = mailboxes k"
  "mqs (snd (rt_thread_resume t k)) = mqs k" "obj_hdr (snd (rt_thread_resume t k)) = obj_hdr k"
  by (simp_all add: rt_thread_resume_def Let_def)

lemma rt_thread_resume_state:
  assumes "stat_of (threads k t) = RT_THREAD_SUSPEND"
  shows "fst (rt_thread_resume t k) = RT_EOK"
    "threads (snd (rt_thread_resume t k)) =
       (threads k)(t := set_stat RT_THREAD_READY (threads k t))"
    "lists (snd (rt_thread_resume t k)) =
       (\<lambda>l. removeAll t (lists k l) @
          (if l = Ready (unat (th_current_priority (threads k t))) then [t] else []))"
  using assms by (auto simp: rt_thread_resume_def Let_def fun_eq_iff)

lemma rt_thread_resume_refused:
  "stat_of (threads k t) \<noteq> RT_THREAD_SUSPEND \<Longrightarrow> rt_thread_resume t k = (- RT_ERROR, k)"
  by (simp add: rt_thread_resume_def)

lemma kinv_resume [simp]:
  assumes "kinv k"
  shows "kinv (snd (rt_thread_resume t k))" "fault (snd (rt_thread_resume t k)) = fault k"
proof -
  have *: "kinv (snd (rt_thread_resume t k)) \<and> fault (snd (rt_thread_resume t k)) = fault k"
  proof (cases "stat_of (threads k t) = RT_THREAD_SUSPEND")
    case True
    let ?k = "snd (rt_timer_stop (Thread_timer t) (tlist_remove t k))"
    have "kinv ?k" using assms True by (simp add: kinv_tlist_remove)
    moreover have "mask_ok (threads ?k t)" using kinv_live_mask [OF assms] True by simp
    ultimately show ?thesis
      using True kinv_insert [of ?k t] by (simp add: rt_thread_resume_def Let_def)
  qed (simp add: rt_thread_resume_def assms)
  then show "kinv (snd (rt_thread_resume t k))" "fault (snd (rt_thread_resume t k)) = fault k"
    by auto
qed

subsection \<open>The other operations keep the invariant\<close>

definition live :: "kernel \<Rightarrow> tid \<Rightarrow> bool" where
  "live k t \<longleftrightarrow> stat_of (threads k t) \<in> {RT_THREAD_READY, RT_THREAD_SUSPEND}"

lemma kinv_close:
  assumes "kinv k" "live k t"
  shows "kinv (upd_thread t (\<lambda>th. th\<lparr>th_stat := RT_THREAD_CLOSE\<rparr>) (rt_schedule_remove_thread t k))"
  using assms by (subst upd_remove_commute) (auto simp: live_def intro!: kinv_unlink)

lemma kinv_exit:
  assumes "kinv k" "current k = Some t" "live k t"
  shows "kinv (rt_thread_exit k)"
proof -
  let ?k = "upd_thread t (\<lambda>th. th\<lparr>th_stat := RT_THREAD_CLOSE\<rparr>) (rt_schedule_remove_thread t k)"
  have "kinv ?k" using kinv_close [OF assms(1,3)] .
  then have "kinv (tlist_insert_after Defunct t (snd (rt_timer_detach (Thread_timer t) ?k)))"
    by (intro kinv_defunct) auto
  then show ?thesis using \<open>kinv ?k\<close> assms(2)
    by (simp add: rt_thread_exit_def Let_def)
qed

lemma kinv_init:
  assumes "kinv k" "\<And>p. t \<notin> set (lists k (Ready p))"
  shows "kinv (snd (rt_thread_init t name priority tk k))"
  using assms
  by (auto simp: rt_thread_init_def rt_thread_init_fields_def Let_def stat_of_def
      kinv_cong [of "rt_assert _ _"] intro!: kinv_upd_not_ready)

lemma kinv_startup:
  assumes "kinv k" "stat_of (threads k t) = RT_THREAD_INIT"
    and "unat (th_init_priority (threads k t)) < RT_THREAD_PRIORITY_MAX"
  shows "kinv (snd (rt_thread_startup t k))"
proof -
  have "\<And>p. t \<notin> set (lists k (Ready p))"
    using assms(1,2) sched_ok_not_ready_free [of "threads k" "lists k" "prio_group k" t]
    by (simp add: kinv_def)
  then have "kinv (upd_thread t (\<lambda>th. (set_mask (th\<lparr>th_current_priority := th_init_priority th\<rparr>))
      \<lparr>th_stat := RT_THREAD_SUSPEND\<rparr>) k)"
    using assms by (intro kinv_upd_not_ready) (auto simp: mask_ok_def set_mask_def)
  moreover have "upd_thread t (\<lambda>th. th\<lparr>th_stat := RT_THREAD_SUSPEND\<rparr>) (upd_thread t set_mask
      (upd_thread t (\<lambda>th. th\<lparr>th_current_priority := th_init_priority th\<rparr>) k)) =
    upd_thread t (\<lambda>th. (set_mask (th\<lparr>th_current_priority := th_init_priority th\<rparr>))
      \<lparr>th_stat := RT_THREAD_SUSPEND\<rparr>) k"
    by (simp add: upd_thread_def)
  ultimately show ?thesis using assms by (simp add: rt_thread_startup_def Let_def)
qed

lemma kinv_delete:
  assumes "kinv k" "live k t"
  shows "kinv (snd (rt_thread_delete t k))"
proof -
  let ?k = "upd_thread t (\<lambda>th. th\<lparr>th_stat := RT_THREAD_CLOSE\<rparr>)
    (snd (rt_timer_detach (Thread_timer t) (rt_schedule_remove_thread t k)))"
  have "kinv ?k = kinv (upd_thread t (\<lambda>th. th\<lparr>th_stat := RT_THREAD_CLOSE\<rparr>)
      (rt_schedule_remove_thread t k))"
    by (rule kinv_cong) simp_all
  then have "kinv ?k" using kinv_close [OF assms] by simp
  then show ?thesis using assms(2)
    by (auto simp: rt_thread_delete_def Let_def live_def intro!: kinv_defunct)
qed

lemma kinv_detach:
  assumes "kinv k" "live k t"
  shows "kinv (snd (rt_thread_detach t k))"
proof -
  let ?k = "rt_object_detach (Thread_obj t) (upd_thread t (\<lambda>th. th\<lparr>th_stat := RT_THREAD_CLOSE\<rparr>)
    (snd (rt_timer_detach (Thread_timer t) (rt_schedule_remove_thread t k))))"
  have "kinv ?k = kinv (upd_thread t (\<lambda>th. th\<lparr>th_stat := RT_THREAD_CLOSE\<rparr>)
      (rt_schedule_remove_thread t k))"
    by (rule kinv_cong) simp_all
  then have "kinv ?k" using kinv_close [OF assms] by simp
  moreover from this have "kinv (tlist_insert_after Defunct t ?k)" by (rule kinv_defunct) simp
  ultimately show ?thesis using assms(2)
    by (auto simp: rt_thread_detach_def Let_def live_def)
qed

lemma kinv_requeue:
  assumes "kinv k" "t \<in> set (lists k (Ready p))"
  shows "kinv (tlist_insert_before (Ready p) t (tlist_remove t k))"
proof -
  have q: "queues_ok (lists k)" and r: "ready_ok (threads k) (lists k)"
    and g: "group_ok (lists k) (prio_group k)"
    using assms(1) by (auto simp: kinv_def sched_ok_def)
  let ?L = "(\<lambda>l. removeAll t (lists k l))(Ready p := removeAll t (lists k (Ready p)) @ [t])"
  have s: "set (?L l) = set (lists k l)" for l
    using q assms(2) by (auto simp: queues_ok_def)
  have "queues_ok ?L"
    using q unfolding queues_ok_def s by (auto simp: distinct_removeAll)
  moreover have "ready_ok (threads k) ?L" using r unfolding ready_ok_def s .
  moreover have "group_ok ?L (prio_group k)"
    using g unfolding group_ok_def set_empty [symmetric] s .
  ultimately show ?thesis
    using assms(1) by (simp add: kinv_def sched_ok_def tlist_insert_before_def tlist_remove_def)
qed

lemma kinv_yield: "kinv k \<Longrightarrow> kinv (snd (rt_thread_yield k))"
  using ready_thread_prio(1) [of k "the (current k)"]
  by (auto simp: rt_thread_yield_def Let_def kinv_cong [of "rt_assert _ _"] split: option.splits
      intro!: kinv_requeue)

lemma kinv_assert [simp]: "kinv (rt_assert b k) = kinv k"
  by (rule kinv_cong) simp_all

lemma kinv_sleep: "kinv k \<Longrightarrow> kinv (rt_thread_sleep tk k)"
  by (simp add: rt_thread_sleep_def Let_def split: option.splits)

lemma kinv_sleep_return: "kinv k \<Longrightarrow> kinv (snd (rt_thread_sleep_return t k))"
  by (simp add: rt_thread_sleep_return_def kinv_upd_frame)

lemma stat_of_set_mask [simp]: "stat_of (set_mask th) = stat_of th"
  by (simp add: set_mask_def)

lemma kinv_change_priority:
  assumes "kinv k" "unat p < RT_THREAD_PRIORITY_MAX"
  shows "kinv (snd (rt_thread_control t (CTRL_CHANGE_PRIORITY p) k))"
proof (cases "stat_of (threads k t) = RT_THREAD_READY")
  case True
  let ?f = "\<lambda>th. set_mask (th\<lparr>th_current_priority := p\<rparr>)"
  let ?G = "upd_thread t (set_stat RT_THREAD_SUSPEND) k"
  let ?S = "upd_thread t ?f (rt_schedule_remove_thread t ?G)"
  have f: "upd_thread t set_mask (upd_thread t (\<lambda>th. th\<lparr>th_current_priority := p\<rparr>) k') =
      upd_thread t ?f k'" for k'
    by (simp add: upd_thread_def)
  have m: "mask_ok (?f th)" for th using assms(2) by (simp add: mask_ok_def set_mask_def)
  have "kinv (rt_schedule_remove_thread t ?G)" using assms(1) True by (intro kinv_unlink) auto
  then have S: "kinv ?S"
    by (rule kinv_upd_not_ready) (use m in \<open>auto\<close>)
  have "kinv (rt_schedule_insert_thread t ?S)"
    by (rule kinv_insert(1) [OF S]) (use m in auto)
  moreover have two: "((2 :: u8) OR (x AND - 16)) AND - 16 = x AND - 16" for x
    by (simp add: bit.conj_disj_distrib2 and.assoc)
  moreover have "rt_schedule_insert_thread t ?S =
      rt_schedule_insert_thread t (upd_thread t ?f (rt_schedule_remove_thread t k))"
    by (simp add: rt_schedule_insert_thread_def rt_schedule_remove_thread_def upd_thread_def
        tlist_remove_def tlist_insert_before_def set_mask_def set_stat_def Let_def two)
  ultimately show ?thesis using True f by (simp add: rt_thread_control_def Let_def)
next
  case False
  have "kinv (upd_thread t (\<lambda>th. set_mask (th\<lparr>th_current_priority := p\<rparr>)) k)"
    using assms False sched_ok_not_ready_free [of "threads k" "lists k" "prio_group k" t]
    by (intro kinv_upd_not_ready)
      (auto simp: kinv_def mask_ok_def set_mask_def stat_of_def)
  moreover have "upd_thread t set_mask (upd_thread t (\<lambda>th. th\<lparr>th_current_priority := p\<rparr>) k) =
      upd_thread t (\<lambda>th. set_mask (th\<lparr>th_current_priority := p\<rparr>)) k"
    by (simp add: upd_thread_def)
  ultimately show ?thesis using False by (simp add: rt_thread_control_def Let_def)
qed

lemma rt_thread_timeout_state:
  assumes "kinv k" "stat_of (threads k t) = RT_THREAD_SUSPEND"
  shows "kinv (rt_thread_timeout t k)"
    "threads (rt_thread_timeout t k) = (threads k)(t := set_stat RT_THREAD_READY
       ((threads k t)\<lparr>th_error := - RT_ETIMEOUT\<rparr>))"
proof -
  let ?k = "tlist_remove t (upd_thread t (\<lambda>th. th\<lparr>th_error := - RT_ETIMEOUT\<rparr>) k)"
  have "kinv ?k"
    by (rule kinv_tlist_remove) (use assms in \<open>auto intro!: kinv_upd_frame\<close>)
  then have "kinv (rt_schedule_insert_thread t ?k)"
    using kinv_live_mask [OF assms(1)] assms(2) by (intro kinv_insert(1)) (auto simp: mask_ok_def)
  then show "kinv (rt_thread_timeout t k)"
    using assms(2) by (simp add: rt_thread_timeout_def Let_def)
  show "threads (rt_thread_timeout t k) = (threads k)(t := set_stat RT_THREAD_READY
       ((threads k t)\<lparr>th_error := - RT_ETIMEOUT\<rparr>))"
    using assms(2) by (simp add: rt_thread_timeout_def Let_def)
qed

end
