(* ===== verification/Clock.thy ===== *)
theory Clock
  imports Thread
begin

text \<open>
  The system tick (\<^verbatim>\<open>src/clock.c\<close>) and \<^verbatim>\<open>rt_timer_check\<close> (\<^verbatim>\<open>src/timer.c\<close>), which the tick
  interrupt runs. The timeout function of a thread's timer is \<^verbatim>\<open>rt_thread_timeout\<close>; those
  of user timers are not in the repository's kernel and are the parameter \<open>cb\<close>.

  The loop of \<^verbatim>\<open>rt_timer_check\<close> has fuel. A periodic timer of period 0 makes it run forever
  (lemma \<open>timer_check_zero_period\<close>); when periods are positive, one step for every timer in the
  list and one more are enough (lemma \<open>timer_check_loop_ok\<close>).
\<close>

subsection \<open>Operations\<close>

definition rt_tick_get :: "kernel \<Rightarrow> u32" where
  "rt_tick_get k = tick k"

definition rt_tick_set :: "u32 \<Rightarrow> kernel \<Rightarrow> kernel" where
  "rt_tick_set v k = k\<lparr>tick := v\<rparr>"

definition run_timeout :: "(nat \<Rightarrow> kernel \<Rightarrow> kernel) \<Rightarrow> timeout_fn \<Rightarrow> kernel \<Rightarrow> kernel" where
  "run_timeout cb f k =
     (case f of Rt_thread_timeout t \<Rightarrow> rt_thread_timeout t k | User_timeout n \<Rightarrow> cb n k)"

definition timer_periodic :: "rt_timer \<Rightarrow> bool" where
  "timer_periodic tm \<longleftrightarrow> tm_flag tm AND RT_TIMER_FLAG_PERIODIC \<noteq> 0"

definition timer_expire :: "(nat \<Rightarrow> kernel \<Rightarrow> kernel) \<Rightarrow> timer_id \<Rightarrow> kernel \<Rightarrow> u32 \<times> kernel" where
  "timer_expire cb i k =
     (let k = rt_timer_remove i k;
          k = run_timeout cb (tm_func (timers k i)) k;
          current_tick = rt_tick_get k
      in if timer_periodic (timers k i) \<and> timer_activated (timers k i)
         then (current_tick, snd (rt_timer_start i (upd_timer i clear_activated k)))
         else (current_tick, upd_timer i clear_activated k))"

fun timer_check_loop ::
    "(nat \<Rightarrow> kernel \<Rightarrow> kernel) \<Rightarrow> nat \<Rightarrow> u32 \<Rightarrow> kernel \<Rightarrow> kernel option" where
  "timer_check_loop cb 0 current_tick k = None"
| "timer_check_loop cb (Suc fuel) current_tick k =
     (case timer_list k of
        [] \<Rightarrow> Some k
      | i # _ \<Rightarrow>
          if current_tick - tm_timeout_tick (timers k i) < half_tick
          then (let (current_tick, k) = timer_expire cb i k
                in timer_check_loop cb fuel current_tick k)
          else Some k)"

definition rt_timer_check :: "(nat \<Rightarrow> kernel \<Rightarrow> kernel) \<Rightarrow> nat \<Rightarrow> kernel \<Rightarrow> kernel option" where
  "rt_timer_check cb fuel k = timer_check_loop cb fuel (rt_tick_get k) k"

definition rt_tick_increase :: "(nat \<Rightarrow> kernel \<Rightarrow> kernel) \<Rightarrow> nat \<Rightarrow> kernel \<Rightarrow> kernel option" where
  "rt_tick_increase cb fuel k =
     (let k = k\<lparr>tick := tick k + 1\<rparr> in
      case rt_thread_self k of
        None \<Rightarrow> Some (defined_if False k)
      | Some t \<Rightarrow>
          (let k = upd_thread t (\<lambda>th. th\<lparr>th_remaining_tick := th_remaining_tick th - 1\<rparr>) k;
               k = (if th_remaining_tick (threads k t) = 0
                    then snd (rt_thread_yield
                           (upd_thread t (\<lambda>th. th\<lparr>th_remaining_tick := th_init_tick th\<rparr>) k))
                    else k)
           in rt_timer_check cb fuel k))"

text \<open>Signed 32-bit arithmetic; an overflow of \<^verbatim>\<open>int\<close> is undefined in C and gives \<open>None\<close>.\<close>

definition rt_tick_from_millisecond :: "int \<Rightarrow> int option" where
  "rt_tick_from_millisecond ms =
     (if ms < 0 then Some (- 1)
      else if RT_TICK_PER_SECOND * ms + 999 < 2 ^ 31
      then Some ((RT_TICK_PER_SECOND * ms + 999) div 1000)
      else None)"

subsection \<open>Milliseconds\<close>

text \<open>The result is the least number of ticks that lasts at least \<open>ms\<close> milliseconds.\<close>

lemma tick_from_millisecond_ceiling:
  assumes "0 \<le> ms" "ms \<le> 21474826"
  shows "\<exists>n. rt_tick_from_millisecond ms = Some n \<and> 10 * n \<ge> ms \<and> 10 * n < ms + 10"
  using assms by (auto simp: rt_tick_from_millisecond_def RT_TICK_PER_SECOND_def)

lemma tick_from_millisecond_overflow:
  "21474826 < ms \<Longrightarrow> rt_tick_from_millisecond ms = None"
  by (simp add: rt_tick_from_millisecond_def RT_TICK_PER_SECOND_def)

subsection \<open>The loop\<close>

text \<open>What the loop relies on: a user callback leaves the timers and the tick alone.\<close>

definition keeps_timers :: "(nat \<Rightarrow> kernel \<Rightarrow> kernel) \<Rightarrow> bool" where
  "keeps_timers cb \<longleftrightarrow> (\<forall>n k. timers (cb n k) = timers k \<and>
     timer_list (cb n k) = timer_list k \<and> tick (cb n k) = tick k)"

definition keeps_threads :: "(nat \<Rightarrow> kernel \<Rightarrow> kernel) \<Rightarrow> bool" where
  "keeps_threads cb \<longleftrightarrow> (\<forall>n k. threads (cb n k) = threads k \<and>
     lists (cb n k) = lists k \<and> prio_group (cb n k) = prio_group k)"

lemma run_timeout_frame:
  assumes "keeps_timers cb"
  shows "timers (run_timeout cb f k) = timers k" "timer_list (run_timeout cb f k) = timer_list k"
    "tick (run_timeout cb f k) = tick k"
  using assms
  by (auto simp: run_timeout_def rt_thread_timeout_def keeps_timers_def Let_def
      split: timeout_fn.splits)

lemma timer_remove_sel [simp]:
  "timers (rt_timer_remove i k) = timers k" "tick (rt_timer_remove i k) = tick k"
  "timer_list (rt_timer_remove i k) = removeAll i (timer_list k)"
  "threads (rt_timer_remove i k) = threads k"
  by (simp_all add: rt_timer_remove_def)

lemma upd_timer_sel [simp]:
  "timers (upd_timer i f k) = (timers k)(i := f (timers k i))" "tick (upd_timer i f k) = tick k"
  "timer_list (upd_timer i f k) = timer_list k"
  by (simp_all add: upd_timer_def)

lemma clear_activated_sel [simp]:
  "tm_timeout_tick (clear_activated tm) = tm_timeout_tick tm"
  "tm_init_tick (clear_activated tm) = tm_init_tick tm" "tm_func (clear_activated tm) = tm_func tm"
  by (simp_all add: clear_activated_def)

definition expired :: "kernel \<Rightarrow> timer_id \<Rightarrow> bool" where
  "expired k i \<longleftrightarrow> tick k - tm_timeout_tick (timers k i) < half_tick"

lemma expired_time_left:
  assumes "time_left w (timers k) i < 2147483647" "unat (tick k - w) < 2147483647"
  shows "expired k i \<longleftrightarrow> time_left w (timers k) i \<le> unat (tick k - w)"
proof -
  let ?a = "tick k - w" and ?b = "tm_timeout_tick (timers k i) - w"
  have e: "expired k i \<longleftrightarrow> ?a - ?b < half_tick" by (simp add: expired_def)
  show ?thesis
    using wrapped_later [of ?a ?b] wrapped_later [of ?b ?a] assms word_unat_eq_iff [of ?a ?b]
    by (cases "?a = ?b") (auto simp: e time_left_def half_tick_def RT_TICK_MAX_def)
qed

definition restart_ok :: "u32 \<Rightarrow> kernel \<Rightarrow> timer_id \<Rightarrow> bool" where
  "restart_ok w k i \<longleftrightarrow> (timer_periodic (timers k i) \<longrightarrow>
     0 < unat (tm_init_tick (timers k i)) \<and>
     unat (tick k - w) + unat (tm_init_tick (timers k i)) < 2147483647)"

definition check_inv :: "u32 \<Rightarrow> kernel \<Rightarrow> bool" where
  "check_inv w k \<longleftrightarrow> timers_sorted w (timers k) (timer_list k) \<and>
     unat (tick k - w) < 2147483647 \<and> (\<forall>i \<in> set (timer_list k). restart_ok w k i)"

lemma restart_deadline:
  fixes t d w :: u32
  assumes "unat (t - w) + unat d < 2147483647"
  shows "unat (t + d - w) = unat (t - w) + unat d"
proof -
  have "t + d - w = (t - w) + d" by simp
  moreover have "unat ((t - w) + d) = unat (t - w) + unat d"
    using assms by (simp add: unat_add_lem [THEN iffD1])
  ultimately show ?thesis by metis
qed

lemma timer_start_frame:
  "timers (snd (rt_timer_start i k)) =
     (timers k)(i := (timers k i)\<lparr>tm_timeout_tick := tick k + tm_init_tick (timers k i),
        tm_flag := (tm_flag (timers k i) AND NOT RT_TIMER_FLAG_ACTIVATED) OR RT_TIMER_FLAG_ACTIVATED\<rparr>)"
  "set (timer_list (snd (rt_timer_start i k))) = insert i (set (timer_list k))"
  by (auto simp: rt_timer_start_def Let_def upd_timer_def rt_timer_remove_def clear_activated_def)

lemma periodic_flags [simp]:
  "timer_periodic (clear_activated tm) = timer_periodic tm"
  "timer_periodic (tm\<lparr>tm_timeout_tick := a\<rparr>) = timer_periodic tm"
  "timer_periodic (tm\<lparr>tm_timeout_tick := a,
     tm_flag := (f AND NOT RT_TIMER_FLAG_ACTIVATED) OR RT_TIMER_FLAG_ACTIVATED\<rparr>) =
     (f AND RT_TIMER_FLAG_PERIODIC \<noteq> 0)"
proof -
  have c: "(x AND - 2) AND 2 = x AND 2" for x :: u8
    by (simp add: and.assoc)
  then show "timer_periodic (clear_activated tm) = timer_periodic tm"
    by (simp add: timer_periodic_def clear_activated_def)
  show "timer_periodic (tm\<lparr>tm_timeout_tick := a\<rparr>) = timer_periodic tm"
    by (simp add: timer_periodic_def)
  show "timer_periodic (tm\<lparr>tm_timeout_tick := a,
     tm_flag := (f AND NOT RT_TIMER_FLAG_ACTIVATED) OR RT_TIMER_FLAG_ACTIVATED\<rparr>) =
     (f AND RT_TIMER_FLAG_PERIODIC \<noteq> 0)"
    by (simp add: timer_periodic_def bit.conj_disj_distrib2 c)
qed

text \<open>Handling the expired head of the row.\<close>

lemma timer_expire_step:
  assumes cb: "keeps_timers cb"
    and inv: "check_inv w k" and xs: "timer_list k = i # xs" and e: "expired k i"
  defines "k' \<equiv> snd (timer_expire cb i k)"
  shows "fst (timer_expire cb i k) = tick k" "tick k' = tick k" "check_inv w k'"
    "set (timer_list k') \<subseteq> set (timer_list k)" "set xs \<subseteq> set (timer_list k')"
    "i \<in> set (timer_list k') \<longrightarrow> \<not> expired k' i" "\<And>j. j \<noteq> i \<Longrightarrow> timers k' j = timers k j"
proof -
  let ?k = "run_timeout cb (tm_func (timers k i)) (rt_timer_remove i k)"
  let ?c = "upd_timer i clear_activated ?k"
  have f: "timers ?k = timers k" "timer_list ?k = removeAll i (i # xs)" "tick ?k = tick k"
    using run_timeout_frame [OF cb] xs by simp_all
  have s: "timers_sorted w (timers k) (i # xs)" and win: "unat (tick k - w) < 2147483647"
    and r: "\<And>j. j \<in> set (i # xs) \<Longrightarrow> restart_ok w k j"
    using inv xs by (auto simp: check_inv_def)
  then have l: "timer_list ?k = xs" using f by (auto simp: timers_sorted_def)
  have sc: "timers_sorted w (timers ?c) (timer_list ?c)"
  proof -
    have "timers_sorted w (timers ?c) xs = timers_sorted w (timers k) xs"
      by (rule timers_sorted_cong) (auto simp: f)
    then show ?thesis using s l by (auto simp: timers_sorted_def)
  qed
  show "fst (timer_expire cb i k) = tick k" "tick k' = tick k"
    by (simp_all add: timer_expire_def k'_def Let_def rt_tick_get_def f)
  have i: "i \<notin> set xs" using s by (simp add: timers_sorted_def)
  have all: "check_inv w k' \<and> set (timer_list k') \<subseteq> set (timer_list k) \<and>
      set xs \<subseteq> set (timer_list k') \<and> (i \<in> set (timer_list k') \<longrightarrow> \<not> expired k' i) \<and>
      (\<forall>j. j \<noteq> i \<longrightarrow> timers k' j = timers k j)"
  proof (cases "timer_periodic (timers k i) \<and> timer_activated (timers k i)")
    case False
    then have k': "k' = ?c" by (auto simp: k'_def timer_expire_def Let_def f)
    show ?thesis
      using sc win r i by (auto simp: k' check_inv_def restart_ok_def f l xs)
  next
    case True
    then have k': "k' = snd (rt_timer_start i ?c)" by (simp add: k'_def timer_expire_def Let_def f)
    let ?d = "tm_init_tick (timers k i)"
    have d: "0 < unat ?d" "unat (tick k - w) + unat ?d < 2147483647"
      using r [of i] True by (auto simp: restart_ok_def)
    have dl: "unat (tick k + ?d - w) = unat (tick k - w) + unat ?d" by (rule restart_deadline [OF d(2)])
    have st: "timers_sorted w (timers k') (timer_list k')"
      "tm_timeout_tick (timers k' i) = tick k + ?d"
      using rt_timer_start_sorted [of w ?c i] sc d(2) by (auto simp: k' f dl)
    have "\<not> expired k' i"
      using expired_time_left [of w k' i] win d st(2)
      by (auto simp: time_left_def dl k' f)
    moreover have "restart_ok w k' j" if "j \<in> set (timer_list k')" for j
      using that r [of j] d True
      by (auto simp: k' f l restart_ok_def timer_start_frame timer_periodic_def [of "timers k i"]
          clear_activated_def)
    ultimately show ?thesis
      using st win by (auto simp: check_inv_def k' f l xs timer_start_frame)
  qed
  from all show "check_inv w k'" "set (timer_list k') \<subseteq> set (timer_list k)"
    "set xs \<subseteq> set (timer_list k')" "i \<in> set (timer_list k') \<longrightarrow> \<not> expired k' i"
    "\<And>j. j \<noteq> i \<Longrightarrow> timers k' j = timers k j" by blast+
qed

lemma timer_check_loop_ok:
  assumes cb: "keeps_timers cb"
    and "check_inv w k" "card {j \<in> set (timer_list k). expired k j} < fuel"
  shows "\<exists>k'. timer_check_loop cb fuel (tick k) k = Some k' \<and> check_inv w k' \<and> tick k' = tick k \<and>
    set (timer_list k') \<subseteq> set (timer_list k) \<and> (\<forall>j \<in> set (timer_list k'). \<not> expired k' j) \<and>
    (\<forall>j \<in> set (timer_list k). \<not> expired k j \<longrightarrow> j \<in> set (timer_list k') \<and> timers k' j = timers k j)"
  using assms(2,3)
proof (induction fuel arbitrary: k)
  case 0
  then show ?case by simp
next
  case (Suc fuel)
  show ?case
  proof (cases "timer_list k")
    case Nil
    then show ?thesis using Suc.prems by simp
  next
    case (Cons i xs)
    have s: "timers_sorted w (timers k) (i # xs)" "unat (tick k - w) < 2147483647"
      using Suc.prems(1) Cons by (auto simp: check_inv_def)
    show ?thesis
    proof (cases "expired k i")
      case False
      have "\<not> expired k j" if "j \<in> set (i # xs)" for j
        using that s False expired_time_left [of w k j] expired_time_left [of w k i]
        by (auto simp: timers_sorted_def)
      then show ?thesis using Suc.prems Cons False by (auto simp: expired_def)
    next
      case True
      let ?k = "snd (timer_expire cb i k)"
      note st = timer_expire_step [OF cb Suc.prems(1) Cons True]
      have ex: "j \<noteq> i \<Longrightarrow> expired ?k j = expired k j" for j
        using st(2,7) by (simp add: expired_def)
      have "{j \<in> set (timer_list ?k). expired ?k j} \<subset> {j \<in> set (timer_list k). expired k j}"
        using st(4,6) ex True Cons by fastforce
      then have "card {j \<in> set (timer_list ?k). expired ?k j} < card {j \<in> set (timer_list k). expired k j}"
        by (intro psubset_card_mono) auto
      then have "card {j \<in> set (timer_list ?k). expired ?k j} < fuel" using Suc.prems(2) by simp
      from Suc.IH [OF st(3) this] obtain k' where k':
        "timer_check_loop cb fuel (tick ?k) ?k = Some k'" "check_inv w k'" "tick k' = tick ?k"
        "set (timer_list k') \<subseteq> set (timer_list ?k)" "\<forall>j \<in> set (timer_list k'). \<not> expired k' j"
        "\<forall>j \<in> set (timer_list ?k). \<not> expired ?k j \<longrightarrow> j \<in> set (timer_list k') \<and> timers k' j = timers ?k j"
        by blast
      have "timer_check_loop cb (Suc fuel) (tick k) k = Some k'"
        using Cons True k'(1) st(1,2) by (simp add: expired_def case_prod_beta)
      moreover have "j \<in> set (timer_list k') \<and> timers k' j = timers k j"
        if "j \<in> set (timer_list k)" "\<not> expired k j" for j
      proof -
        have "j \<noteq> i" "j \<in> set xs" using that True Cons by auto
        then show ?thesis using that(2) st(5,7) ex k'(6) by (metis subsetD)
      qed
      ultimately show ?thesis using k' st(2,4) by auto
    qed
  qed
qed

subsection \<open>User functions that use timers\<close>

text \<open>
  What the function of a user timer may do while \<^verbatim>\<open>rt_timer_check\<close> runs it: stop, detach or
  delete any timer, start one whose time is positive and fits into half the tick range, change
  one so that it can still be restarted if it is periodic, and anything that leaves the timers and
  the tick alone. \<open>timer_fn\<close> admits every sequence of these.
\<close>

inductive timer_move :: "u32 \<Rightarrow> kernel \<Rightarrow> kernel \<Rightarrow> bool" for w :: u32 where
  stop: "timer_move w k (snd (rt_timer_stop i k))"
| detach: "timer_move w k (snd (rt_timer_detach i k))"
| delete: "timer_move w k (snd (rt_timer_delete i k))"
| start: "0 < unat (tm_init_tick (timers k i)) \<Longrightarrow>
    unat (tick k - w) + unat (tm_init_tick (timers k i)) < 2147483647 \<Longrightarrow>
    timer_move w k (snd (rt_timer_start i k))"
| control: "restart_ok w (snd (rt_timer_control i c k)) i \<Longrightarrow> timer_move w k (snd (rt_timer_control i c k))"
| other: "timers k' = timers k \<Longrightarrow> timer_list k' = timer_list k \<Longrightarrow> tick k' = tick k \<Longrightarrow> timer_move w k k'"

definition timer_fn :: "u32 \<Rightarrow> (nat \<Rightarrow> kernel \<Rightarrow> kernel) \<Rightarrow> bool" where
  "timer_fn w cb \<longleftrightarrow> (\<forall>n k. check_inv w k \<longrightarrow> (timer_move w)\<^sup>*\<^sup>* k (cb n k))"

definition expired_set :: "kernel \<Rightarrow> timer_id set" where
  "expired_set k = {j \<in> set (timer_list k). expired k j}"

lemma keeps_timer_fn: "keeps_timers cb \<Longrightarrow> timer_fn w cb"
  by (auto simp: timer_fn_def keeps_timers_def intro!: r_into_rtranclp timer_move.other)

text \<open>What every move keeps.\<close>

definition move_ok :: "u32 \<Rightarrow> kernel \<Rightarrow> kernel \<Rightarrow> bool" where
  "move_ok w k k' \<longleftrightarrow> check_inv w k' \<and> tick k' = tick k \<and> expired_set k' \<subseteq> expired_set k \<and>
     (\<forall>j. restart_ok w k j \<longrightarrow> restart_ok w k' j)"

text \<open>A timer leaves the row, or none does, and no deadline changes.\<close>

lemma shrink_move_ok:
  assumes "check_inv w k" "tick k' = tick k" "timer_list k' = timer_list k \<or> timer_list k' = removeAll i (timer_list k)"
    and t: "\<And>j. tm_timeout_tick (timers k' j) = tm_timeout_tick (timers k j)"
    and r: "\<And>j. restart_ok w k j \<Longrightarrow> restart_ok w k' j"
  shows "move_ok w k k'"
proof -
  have sub: "set (timer_list k') \<subseteq> set (timer_list k)" using assms(3) by auto
  have "timers_sorted w (timers k) (timer_list k')"
    using assms(1,3) timers_sorted_removeAll by (auto simp: check_inv_def)
  moreover have "timers_sorted w (timers k') (timer_list k') = timers_sorted w (timers k) (timer_list k')"
    by (rule timers_sorted_cong) (rule t)
  ultimately show ?thesis using assms(1,2) sub r
    by (auto simp: move_ok_def check_inv_def expired_set_def expired_def t)
qed

lemma start_move_ok:
  assumes "check_inv w k" "0 < unat (tm_init_tick (timers k i))"
    and d: "unat (tick k - w) + unat (tm_init_tick (timers k i)) < 2147483647"
  shows "move_ok w k (snd (rt_timer_start i k))" "\<not> expired (snd (rt_timer_start i k)) i"
proof -
  let ?k = "snd (rt_timer_start i k)"
  have dl: "unat (tick k + tm_init_tick (timers k i) - w) = unat (tick k - w) + unat (tm_init_tick (timers k i))"
    by (rule restart_deadline [OF d])
  have s: "timers_sorted w (timers ?k) (timer_list ?k)" "tm_timeout_tick (timers ?k i) = tick k + tm_init_tick (timers k i)"
    using rt_timer_start_sorted [of w k i] assms(1) d dl by (auto simp: check_inv_def)
  have tk: "tick ?k = tick k" by simp
  show ne: "\<not> expired ?k i"
    using expired_time_left [of w ?k i] assms d dl s(2) by (auto simp: time_left_def check_inv_def)
  have b: "(f AND NOT 1 OR 1) AND 2 = f AND 2" for f :: u8
    by (rule bit_eqI) (auto simp: bit_simps)
  have r: "restart_ok w ?k j = restart_ok w k j" for j
    using b by (simp add: restart_ok_def timer_start_frame(1) timer_periodic_def)
  have ri: "restart_ok w ?k i" using assms(2) d by (simp add: r) (simp add: restart_ok_def)
  have "expired_set ?k \<subseteq> expired_set k"
    using ne by (auto simp: expired_set_def expired_def timer_start_frame split: if_splits)
  then show "move_ok w k ?k"
    using s(1) assms(1) r ri by (auto simp: move_ok_def check_inv_def timer_start_frame(2))
qed

lemma timer_move_ok:
  assumes "timer_move w k k'" "check_inv w k"
  shows "move_ok w k k'"
  using assms
proof cases
  case (stop i)
  show ?thesis
    by (rule shrink_move_ok [where i = i]) (auto simp: stop rt_timer_stop_def restart_ok_def assms(2))
next
  case (detach i)
  show ?thesis
    by (rule shrink_move_ok [where i = i])
      (auto simp: detach rt_timer_detach_def kobj_defs restart_ok_def assms(2))
next
  case (delete i)
  show ?thesis
    by (rule shrink_move_ok [where i = i])
      (auto simp: delete rt_timer_delete_def kobj_defs restart_ok_def assms(2) Let_def rt_assert_def)
next
  case (start i)
  then show ?thesis using start_move_ok(1) assms(2) by simp
next
  case (control i c)
  show ?thesis
  proof (rule shrink_move_ok [where i = i])
    show "restart_ok w k' j" if "restart_ok w k j" for j
      using that control(2)
      by (cases "j = i") (auto simp: control(1) restart_ok_def rt_timer_control_def split: timer_cmd.splits)
  qed (auto simp: control(1) rt_timer_control_def assms(2) split: timer_cmd.splits)
next
  case other
  show ?thesis
    by (rule shrink_move_ok) (auto simp: other restart_ok_def assms(2))
qed

lemma timer_moves_ok:
  assumes "(timer_move w)\<^sup>*\<^sup>* k k'" "check_inv w k"
  shows "move_ok w k k'"
  using assms
proof (induction rule: rtranclp_induct)
  case base
  then show ?case by (simp add: move_ok_def)
next
  case (step a b)
  then have "move_ok w k a" by simp
  moreover from this have "move_ok w a b" using timer_move_ok [OF step(2)] by (simp add: move_ok_def)
  ultimately show ?case by (auto simp: move_ok_def)
qed

lemma run_timeout_ok:
  assumes "timer_fn w cb" "check_inv w k"
  shows "move_ok w k (run_timeout cb f k)"
proof (cases f)
  case (Rt_thread_timeout t)
  then have "timer_move w k (run_timeout cb f k)"
    by (intro timer_move.other) (simp_all add: run_timeout_def rt_thread_timeout_def Let_def)
  then show ?thesis using assms(2) by (rule timer_move_ok)
next
  case (User_timeout n)
  then show ?thesis using assms timer_moves_ok by (simp add: run_timeout_def timer_fn_def)
qed

lemma timer_expire_ok:
  assumes cb: "timer_fn w cb" and inv: "check_inv w k" and xs: "timer_list k = i # xs" and e: "expired k i"
  defines "k' \<equiv> snd (timer_expire cb i k)"
  shows "fst (timer_expire cb i k) = tick k" "tick k' = tick k" "check_inv w k'"
    "expired_set k' \<subset> expired_set k"
proof -
  let ?r = "rt_timer_remove i k"
  let ?k = "run_timeout cb (tm_func (timers k i)) ?r" let ?c = "upd_timer i clear_activated ?k"
  have r: "move_ok w k ?r" by (rule shrink_move_ok [where i = i]) (auto simp: inv restart_ok_def)
  then have rk: "move_ok w ?r ?k" using run_timeout_ok [OF cb] by (simp add: move_ok_def)
  have kc: "move_ok w ?k ?c"
    by (rule shrink_move_ok [where i = i]) (use rk in \<open>auto simp: restart_ok_def move_ok_def\<close>)
  have "i \<notin> expired_set ?r" by (simp add: expired_set_def)
  then have c: "check_inv w ?c" "tick ?c = tick k" "expired_set ?c \<subseteq> expired_set k - {i}"
    using r rk kc by (auto simp: move_ok_def)
  have i: "i \<in> expired_set k" using xs e by (simp add: expired_set_def)
  have tk: "tick ?k = tick k" using r rk by (simp add: move_ok_def)
  then show f: "fst (timer_expire cb i k) = tick k"
    by (simp add: timer_expire_def Let_def rt_tick_get_def)
  have "tick k' = tick k \<and> check_inv w k' \<and> expired_set k' \<subset> expired_set k"
  proof (cases "timer_periodic (timers ?k i) \<and> timer_activated (timers ?k i)")
    case False
    then have "k' = ?c" by (auto simp: k'_def timer_expire_def Let_def)
    then show ?thesis using c i by auto
  next
    case True
    then have k': "k' = snd (rt_timer_start i ?c)" by (simp add: k'_def timer_expire_def Let_def)
    have "restart_ok w k i" using inv xs by (simp add: check_inv_def)
    then have "restart_ok w ?c i" using r rk kc by (simp add: move_ok_def)
    then have "0 < unat (tm_init_tick (timers ?c i))"
      "unat (tick ?c - w) + unat (tm_init_tick (timers ?c i)) < 2147483647"
      using True by (auto simp: restart_ok_def)
    note st = start_move_ok [OF c(1) this]
    show ?thesis using st c i by (auto simp: k' move_ok_def)
  qed
  then show "tick k' = tick k" "check_inv w k'" "expired_set k' \<subset> expired_set k" by auto
qed

text \<open>The timers of a row are in order, so nothing behind one that is not due is due.\<close>

lemma head_not_expired:
  assumes "check_inv w k" "timer_list k = i # xs" "\<not> expired k i"
  shows "expired_set k = {}"
proof -
  have s: "timers_sorted w (timers k) (i # xs)" "unat (tick k - w) < 2147483647"
    using assms(1,2) by (auto simp: check_inv_def)
  have "\<not> expired k j" if "j \<in> set (i # xs)" for j
    using that s assms(3) expired_time_left [of w k j] expired_time_left [of w k i]
    by (auto simp: timers_sorted_def)
  then show ?thesis using assms(2) by (auto simp: expired_set_def)
qed

lemma timer_check_ends:
  assumes cb: "timer_fn w cb" and "check_inv w k" "card (expired_set k) < fuel"
  shows "\<exists>k'. timer_check_loop cb fuel (tick k) k = Some k' \<and> check_inv w k' \<and> tick k' = tick k \<and>
    expired_set k' = {}"
  using assms(2,3)
proof (induction fuel arbitrary: k)
  case (Suc fuel)
  show ?case
  proof (cases "timer_list k")
    case Nil
    then show ?thesis using Suc.prems by (simp add: expired_set_def)
  next
    case (Cons i xs)
    show ?thesis
    proof (cases "expired k i")
      case False
      then show ?thesis using Suc.prems Cons head_not_expired [OF Suc.prems(1) Cons]
        by (auto simp: expired_def)
    next
      case True
      let ?k = "snd (timer_expire cb i k)"
      note st = timer_expire_ok [OF cb Suc.prems(1) Cons True]
      have "card (expired_set ?k) < card (expired_set k)"
        using st(4) by (intro psubset_card_mono) (simp_all add: expired_set_def)
      then have "card (expired_set ?k) < fuel" using Suc.prems(2) by simp
      from Suc.IH [OF st(3) this] obtain k' where "timer_check_loop cb fuel (tick ?k) ?k = Some k'"
        "check_inv w k'" "tick k' = tick ?k" "expired_set k' = {}" by blast
      then show ?thesis using Cons True st(1,2) by (auto simp: expired_def case_prod_beta)
    qed
  qed
qed simp

lemma timer_check_zero_period:
  assumes "cb n = (\<lambda>k. k)" "timer_list k = [i]" "tm_func (timers k i) = User_timeout n"
    and "timer_periodic (timers k i)" "timer_activated (timers k i)" "tm_init_tick (timers k i) = 0"
    and "tm_timeout_tick (timers k i) = tick k"
  shows "rt_timer_check cb fuel k = None"
proof -
  have "timer_check_loop cb fuel (tick k) k = None"
    using assms(2-7)
  proof (induction fuel arbitrary: k)
    case (Suc fuel)
    let ?k = "snd (timer_expire cb i k)"
    have k': "?k = snd (rt_timer_start i (upd_timer i clear_activated (rt_timer_remove i k)))"
      "fst (timer_expire cb i k) = tick k" "tick ?k = tick k"
      using Suc.prems assms(1)
      by (simp_all add: timer_expire_def run_timeout_def Let_def rt_tick_get_def)
    have "timer_activated (timers ?k i)"
      by (simp add: k' timer_start_frame timer_activated_def bit.conj_disj_distrib2 and.assoc)
    moreover have "timer_periodic (timers ?k i)"
      using Suc.prems(3) periodic_flags(1) [of "timers k i"]
      by (simp add: k' timer_start_frame timer_periodic_def bit.conj_disj_distrib2 and.assoc)
    moreover have "timer_list ?k = [i]"
      by (simp add: k' rt_timer_start_def Let_def upd_timer_def rt_timer_remove_def Suc.prems(1))
    ultimately have "timer_check_loop cb fuel (tick ?k) ?k = None"
      using Suc.prems by (intro Suc.IH) (simp_all add: k' timer_start_frame)
    then show ?case using Suc.prems k'(2,3) by (simp add: case_prod_beta half_tick_def RT_TICK_MAX_def)
  qed simp
  then show ?thesis by (simp add: rt_timer_check_def rt_tick_get_def)
qed

subsection \<open>Sleepers wake up\<close>

text \<open>
  Every thread timer in the row is the one-shot timer of a suspended thread; this is how
  \<^verbatim>\<open>rt_thread_sleep\<close> and the blocking IPC calls use it.
\<close>

definition sleep_inv :: "kernel \<Rightarrow> bool" where
  "sleep_inv k \<longleftrightarrow> kinv k \<and> (\<forall>t. Thread_timer t \<in> set (timer_list k) \<longrightarrow>
     tm_func (timers k (Thread_timer t)) = Rt_thread_timeout t \<and>
     \<not> timer_periodic (timers k (Thread_timer t)) \<and>
     stat_of (threads k t) = RT_THREAD_SUSPEND) \<and>
   (\<forall>n. Timer n \<in> set (timer_list k) \<longrightarrow> (\<exists>m. tm_func (timers k (Timer n)) = User_timeout m))"

definition woken :: "rt_thread \<Rightarrow> rt_thread" where
  "woken th = set_stat RT_THREAD_READY (th\<lparr>th_error := - RT_ETIMEOUT\<rparr>)"

lemma timer_expire_threads:
  assumes cb: "keeps_timers cb" "keeps_threads cb" and inv: "sleep_inv k" "check_inv w k"
    and xs: "timer_list k = i # xs" and e: "expired k i"
  defines "k' \<equiv> snd (timer_expire cb i k)"
  shows "sleep_inv k'" "threads k' = (case i of
      Thread_timer t \<Rightarrow> (threads k)(t := woken (threads k t)) | Timer n \<Rightarrow> threads k)"
proof -
  let ?rm = "rt_timer_remove i k"
  let ?k = "run_timeout cb (tm_func (timers k i)) ?rm"
  have k0: "kinv ?rm = kinv k" by (rule kinv_cong) (simp_all add: rt_timer_remove_def)
  have t0: "threads ?rm = threads k" by (simp add: rt_timer_remove_def)
  have sel: "threads k' = threads ?k" "lists k' = lists ?k" "prio_group k' = prio_group ?k"
    by (auto simp: k'_def timer_expire_def Let_def upd_timer_def)
  have st: "threads k' = threads ?k" "kinv k' = kinv ?k"
    by (rule sel(1), rule kinv_cong [OF sel])
  have k: "kinv ?k \<and> threads ?k = (case i of
      Thread_timer t \<Rightarrow> (threads k)(t := woken (threads k t)) | Timer n \<Rightarrow> threads k)"
  proof (cases i)
    case (Thread_timer t)
    then have "run_timeout cb (tm_func (timers k i)) ?rm = rt_thread_timeout t ?rm"
      "stat_of (threads ?rm t) = RT_THREAD_SUSPEND"
      using inv(1) xs by (auto simp: sleep_inv_def run_timeout_def t0)
    then show ?thesis
      using rt_thread_timeout_state [of ?rm t] inv(1) k0 [unfolded Thread_timer] Thread_timer
      by (simp add: t0 sleep_inv_def woken_def)
  next
    case (Timer n)
    then obtain m where m: "tm_func (timers k i) = User_timeout m"
      using inv(1) xs by (auto simp: sleep_inv_def)
    have "kinv (cb m ?rm) = kinv ?rm"
      using cb(2) by (intro kinv_cong) (auto simp: keeps_threads_def)
    moreover have "threads (cb m ?rm) = threads k"
      using cb(2) by (auto simp: keeps_threads_def)
    ultimately show ?thesis using m inv(1) k0 [unfolded Timer]
      by (simp add: run_timeout_def sleep_inv_def Timer)
  qed
  then show th: "threads k' = (case i of
      Thread_timer t \<Rightarrow> (threads k)(t := woken (threads k t)) | Timer n \<Rightarrow> threads k)"
    using st by simp
  note step = timer_expire_step [OF cb(1) inv(2) xs e, folded k'_def]
  have fn: "tm_func (timers k' j) = tm_func (timers k j)"
    "timer_periodic (timers k' j) = timer_periodic (timers k j)" for j
    using run_timeout_frame [OF cb(1)]
    by (auto simp: k'_def timer_expire_def Let_def timer_start_frame timer_periodic_def [of "timers k i"]
        clear_activated_def)
      (auto simp: timer_periodic_def and.assoc bit.conj_disj_distrib2)
  have "t \<noteq> u" if "Thread_timer t \<in> set (timer_list k')" "i = Thread_timer u" for t u
  proof
    assume "t = u"
    with that have i: "i \<in> set (timer_list k')" by simp
    have "\<not> timer_periodic (timers k i)" using that(2) inv(1) xs by (simp add: sleep_inv_def)
    then have "timer_list k' = removeAll i (timer_list k)"
      using run_timeout_frame [OF cb(1)]
      by (simp add: k'_def timer_expire_def Let_def)
    with i show False by simp
  qed
  then show "sleep_inv k'"
    using inv(1) step(4) k st th unfolding sleep_inv_def fn
    by (auto split: timer_id.splits)
qed

lemma timer_check_wakes:
  assumes cb: "keeps_timers cb" "keeps_threads cb"
    and "sleep_inv k" "check_inv w k" "card {j \<in> set (timer_list k). expired k j} < fuel"
  shows "\<exists>k'. timer_check_loop cb fuel (tick k) k = Some k' \<and> sleep_inv k' \<and>
    threads k' = (\<lambda>t. if Thread_timer t \<in> set (timer_list k) \<and> expired k (Thread_timer t)
                     then woken (threads k t) else threads k t)"
  using assms(3-5)
proof (induction fuel arbitrary: k)
  case 0
  then show ?case by simp
next
  case (Suc fuel)
  show ?case
  proof (cases "timer_list k")
    case Nil
    then show ?thesis using Suc.prems by simp
  next
    case (Cons i xs)
    have s: "timers_sorted w (timers k) (i # xs)" "unat (tick k - w) < 2147483647"
      using Suc.prems(2) Cons by (auto simp: check_inv_def)
    show ?thesis
    proof (cases "expired k i")
      case False
      have "\<not> expired k j" if "j \<in> set (i # xs)" for j
        using that s False expired_time_left [of w k j] expired_time_left [of w k i]
        by (auto simp: timers_sorted_def)
      then have "threads k = (\<lambda>t. if Thread_timer t \<in> set (timer_list k) \<and> expired k (Thread_timer t)
          then woken (threads k t) else threads k t)"
        using Cons by fastforce
      then show ?thesis using Suc.prems(1) Cons False by (simp add: expired_def)
    next
      case True
      let ?k = "snd (timer_expire cb i k)"
      note st = timer_expire_step [OF cb(1) Suc.prems(2) Cons True]
      note th = timer_expire_threads [OF cb Suc.prems(1,2) Cons True]
      have ex: "j \<noteq> i \<Longrightarrow> expired ?k j = expired k j" for j
        using st(2,7) by (simp add: expired_def)
      have sub: "{j \<in> set (timer_list ?k). expired ?k j} = {j \<in> set (timer_list k). expired k j} - {i}"
        using st(4,5,6) ex Cons by fastforce
      have "card {j \<in> set (timer_list ?k). expired ?k j} < fuel"
        unfolding sub using Suc.prems(3) True Cons
        by (intro less_le_trans [OF card_Diff1_less]) auto
      from Suc.IH [OF th(1) st(3) this] obtain k' where k':
        "timer_check_loop cb fuel (tick ?k) ?k = Some k'" "sleep_inv k'"
        "threads k' = (\<lambda>t. if Thread_timer t \<in> set (timer_list ?k) \<and> expired ?k (Thread_timer t)
                     then woken (threads ?k t) else threads ?k t)"
        by blast
      have "timer_check_loop cb (Suc fuel) (tick k) k = Some k'"
        using Cons True k'(1) st(1,2) by (simp add: expired_def case_prod_beta)
      moreover have "(Thread_timer t \<in> set (timer_list ?k) \<and> expired ?k (Thread_timer t)) =
          (Thread_timer t \<in> set (timer_list k) \<and> expired k (Thread_timer t) \<and> Thread_timer t \<noteq> i)" for t
        using sub by blast
      ultimately show ?thesis using k'(2) True Cons
        by (intro exI [of _ k']) (auto simp: k'(3) th(2) fun_eq_iff split: timer_id.splits)
    qed
  qed
qed

text \<open>No user function runs in a check at which only threads' timers are due.\<close>

lemma timer_check_threads_only:
  assumes "sleep_inv k" "check_inv w k" "\<forall>n. Timer n \<notin> expired_set k"
  shows "timer_check_loop cb fuel (tick k) k = timer_check_loop (\<lambda>_ k. k) fuel (tick k) k"
  using assms
proof (induction fuel arbitrary: k)
  case (Suc fuel)
  have id: "keeps_timers (\<lambda>_ k. k)" "keeps_threads (\<lambda>_ k. k)"
    by (simp_all add: keeps_timers_def keeps_threads_def)
  show ?case
  proof (cases "timer_list k")
    case (Cons i xs)
    show ?thesis
    proof (cases "expired k i")
      case True
      then have "i \<in> expired_set k" using Cons by (simp add: expired_set_def)
      then obtain t where t: "i = Thread_timer t" using Suc.prems(3) by (cases i) auto
      let ?k = "snd (timer_expire (\<lambda>_ k. k) i k)"
      have f: "timer_expire cb i k = timer_expire (\<lambda>_ k. k) i k"
        using Suc.prems(1) Cons t by (simp add: timer_expire_def run_timeout_def sleep_inv_def)
      note st = timer_expire_ok [OF keeps_timer_fn [OF id(1)] Suc.prems(2) Cons True]
      note th = timer_expire_threads(1) [OF id Suc.prems(1,2) Cons True]
      have "timer_check_loop cb fuel (tick ?k) ?k = timer_check_loop (\<lambda>_ k. k) fuel (tick ?k) ?k"
        using Suc.prems(3) st(4) by (intro Suc.IH [OF th st(3)]) auto
      then show ?thesis using Cons True f st(1,2) by (simp add: case_prod_beta expired_def)
    qed (use Cons in \<open>simp add: expired_def\<close>)
  qed simp
qed simp

end
