(* ===== verification/Ipc.thy ===== *)
theory Ipc
  imports Clock
begin

text \<open>
  The part of \<^verbatim>\<open>src/ipc.c\<close> that semaphores, mutexes, events, mailboxes and message queues
  share: suspending the caller on a wait list, resuming the first waiter or all of them,
  and arming the caller's timer.

  A call that has to wait ends in \<^verbatim>\<open>rt_schedule\<close>: its outcome is \<open>Waiting t\<close>, and a second
  definition per call (\<open>..._return\<close>) is the code that thread \<open>t\<close> runs when it is scheduled
  again.

  \<open>wait_ok\<close> completes the kernel invariant: the threads in a wait list are suspended, those
  in the list of the idle thread are closed. \<open>kernel_ok\<close> is \<open>kinv\<close> and \<open>wait_ok\<close>.
\<close>

datatype outcome = Returned int | Waiting tid

subsection \<open>Operations\<close>

definition rt_ipc_object_init :: "oid \<Rightarrow> kernel \<Rightarrow> kernel" where
  "rt_ipc_object_init obj k = k\<lparr>lists := (lists k)(Suspend obj := [])\<rparr>"

text \<open>
  \<^verbatim>\<open>rt_thread_suspend\<close> refuses a thread that is not ready; linking its node a second time
  would corrupt the lists, so that case is a fault.
\<close>

definition rt_ipc_list_suspend :: "lid \<Rightarrow> tid \<Rightarrow> u8 \<Rightarrow> kernel \<Rightarrow> kernel" where
  "rt_ipc_list_suspend l t flag k =
     (let (r, k) = rt_thread_suspend t k;
          k = defined_if (r = RT_EOK) k
      in if flag = RT_IPC_FLAG_FIFO then tlist_insert_before l t k
         else if flag = RT_IPC_FLAG_PRIO
         then k\<lparr>lists := (lists k)(l := insert_where
                (\<lambda>s. th_current_priority (threads k t) < th_current_priority (threads k s))
                t (lists k l))\<rparr>
         else k)"

definition rt_ipc_list_resume :: "lid \<Rightarrow> kernel \<Rightarrow> kernel" where
  "rt_ipc_list_resume l k =
     (case lists k l of
        [] \<Rightarrow> defined_if False k
      | t # _ \<Rightarrow> snd (rt_thread_resume t k))"

definition resume_with_error :: "tid \<Rightarrow> kernel \<Rightarrow> kernel" where
  "resume_with_error t k =
     snd (rt_thread_resume t (upd_thread t (\<lambda>th. th\<lparr>th_error := - RT_ERROR\<rparr>) k))"

fun resume_all_loop :: "nat \<Rightarrow> lid \<Rightarrow> kernel \<Rightarrow> kernel option" where
  "resume_all_loop fuel l k =
     (case lists k l of
        [] \<Rightarrow> Some k
      | t # _ \<Rightarrow>
          (case fuel of
             0 \<Rightarrow> None
           | Suc fuel \<Rightarrow> resume_all_loop fuel l (resume_with_error t k)))"

declare resume_all_loop.simps [simp del]

text \<open>
  The length of the list is enough fuel: a pass that does not remove the head would be
  repeated for ever (lemma \<open>resume_all_stuck\<close>), which is a fault.
\<close>

definition rt_ipc_list_resume_all :: "lid \<Rightarrow> kernel \<Rightarrow> kernel" where
  "rt_ipc_list_resume_all l k =
     (case resume_all_loop (length (lists k l)) l k of
        None \<Rightarrow> defined_if False k
      | Some k \<Rightarrow> k)"

text \<open>\<^verbatim>\<open>if (time > 0) { rt_timer_control(..., RT_TIMER_CTRL_SET_TIME, ...); rt_timer_start(...); }\<close>\<close>

definition start_wait_timer :: "tid \<Rightarrow> int \<Rightarrow> kernel \<Rightarrow> kernel" where
  "start_wait_timer t time k =
     (if time > 0
      then snd (rt_timer_start (Thread_timer t)
             (snd (rt_timer_control (Thread_timer t) (SET_TIME (of_int time)) k)))
      else k)"

definition set_obj_flag :: "oid \<Rightarrow> u8 \<Rightarrow> kernel \<Rightarrow> kernel" where
  "set_obj_flag obj flag k = upd_hdr (Ipc_obj obj) (\<lambda>h. h\<lparr>obj_flag := flag\<rparr>) k"

definition obj_flag_of :: "oid \<Rightarrow> kernel \<Rightarrow> u8" where
  "obj_flag_of obj k = obj_flag (obj_hdr k (Ipc_obj obj))"

subsection \<open>The kernel invariant\<close>

fun list_stat :: "lid \<Rightarrow> u8" where
  "list_stat (Ready _) = RT_THREAD_READY"
| "list_stat (Suspend _) = RT_THREAD_SUSPEND"
| "list_stat (Sender _) = RT_THREAD_SUSPEND"
| "list_stat Defunct = RT_THREAD_CLOSE"

definition wait_ok :: "(tid \<Rightarrow> rt_thread) \<Rightarrow> (lid \<Rightarrow> tid list) \<Rightarrow> bool" where
  "wait_ok T L \<longleftrightarrow> (\<forall>l. \<forall>t \<in> set (L l). stat_of (T t) = list_stat l)"

definition kernel_ok :: "kernel \<Rightarrow> bool" where
  "kernel_ok k \<longleftrightarrow> kinv k \<and> wait_ok (threads k) (lists k)"

lemma kernel_ok_cong:
  "threads k' = threads k \<Longrightarrow> lists k' = lists k \<Longrightarrow> prio_group k' = prio_group k \<Longrightarrow>
     kernel_ok k' = kernel_ok k"
  using kinv_cong [of k' k] by (simp add: kernel_ok_def)

lemma kernel_ok_kinv: "kernel_ok k \<Longrightarrow> kinv k"
  by (simp add: kernel_ok_def)

lemma kernel_ok_frame [simp]:
  "kernel_ok (rt_schedule k) = kernel_ok k" "kernel_ok (rt_assert b k) = kernel_ok k"
  "kernel_ok (rt_object_init r c n k) = kernel_ok k" "kernel_ok (rt_object_detach r k) = kernel_ok k"
  "kernel_ok (rt_object_delete r k) = kernel_ok k"
  "kernel_ok (snd (rt_object_allocate m c n k)) = kernel_ok k"
  "kernel_ok (snd (rt_timer_start i k)) = kernel_ok k" "kernel_ok (snd (rt_timer_stop i k)) = kernel_ok k"
  "kernel_ok (snd (rt_timer_control i tc k)) = kernel_ok k"
  "kernel_ok (snd (rt_timer_detach i k)) = kernel_ok k"
  "kernel_ok (rt_timer_init i n fn tt fl k) = kernel_ok k"
  "kernel_ok (start_wait_timer t time k) = kernel_ok k"
  by (rule kernel_ok_cong; simp add: start_wait_timer_def)+

fun wait_list :: "lid \<Rightarrow> bool" where
  "wait_list (Suspend _) = True"
| "wait_list (Sender _) = True"
| "wait_list _ = False"

lemma wait_list_stat: "wait_list l \<Longrightarrow> list_stat l = RT_THREAD_SUSPEND"
  by (cases l) auto

lemma waiting_suspended:
  "kernel_ok k \<Longrightarrow> t \<in> set (lists k l) \<Longrightarrow> wait_list l \<Longrightarrow>
     stat_of (threads k t) = RT_THREAD_SUSPEND"
  using wait_list_stat by (auto simp: kernel_ok_def wait_ok_def)

lemma kernel_ok_distinct: "kernel_ok k \<Longrightarrow> distinct (lists k l)"
  by (simp add: kernel_ok_def kinv_def sched_ok_def queues_ok_def)

lemma kernel_ok_one_list:
  "kernel_ok k \<Longrightarrow> t \<in> set (lists k l) \<Longrightarrow> t \<in> set (lists k l') \<Longrightarrow> l' = l"
  by (auto simp: kernel_ok_def kinv_def sched_ok_def queues_ok_def)

lemma kernel_ok_listD: "kernel_ok k \<Longrightarrow> t \<in> set (lists k l) \<Longrightarrow> stat_of (threads k t) = list_stat l"
  by (simp add: kernel_ok_def wait_ok_def)

lemma kernel_ok_upd_frame:
  assumes "kernel_ok k" "\<And>th. th_stat (f th) = th_stat th"
    "\<And>th. th_current_priority (f th) = th_current_priority th"
    "\<And>th. th_number_mask (f th) = th_number_mask th"
  shows "kernel_ok (upd_thread t f k)"
  using assms kinv_upd_frame [of k f t]
  by (auto simp: kernel_ok_def wait_ok_def stat_of_def)

lemma kernel_ok_resume [simp]:
  assumes "kernel_ok k"
  shows "kernel_ok (snd (rt_thread_resume t k))" "fault (snd (rt_thread_resume t k)) = fault k"
proof -
  have "wait_ok (threads (snd (rt_thread_resume t k))) (lists (snd (rt_thread_resume t k)))"
  proof (cases "stat_of (threads k t) = RT_THREAD_SUSPEND")
    case True
    show ?thesis using assms
      by (auto simp: rt_thread_resume_state [OF True] kernel_ok_def wait_ok_def split: if_splits)
  qed (use assms in \<open>simp add: rt_thread_resume_def kernel_ok_def\<close>)
  then show "kernel_ok (snd (rt_thread_resume t k))" "fault (snd (rt_thread_resume t k)) = fault k"
    using assms by (simp_all add: kernel_ok_def)
qed

lemma kernel_ok_suspend [simp]:
  assumes "kernel_ok k"
  shows "kernel_ok (snd (rt_thread_suspend t k))"
proof (cases "stat_of (threads k t) = RT_THREAD_READY")
  case True
  then show ?thesis using assms rt_thread_suspend_lists [OF True]
    by (auto simp: kernel_ok_def wait_ok_def)
qed (use assms in \<open>simp add: rt_thread_suspend_def\<close>)

lemma suspended_free:
  assumes "kernel_ok k" "stat_of (threads k t) = RT_THREAD_READY"
  shows "t \<notin> set (lists (snd (rt_thread_suspend t k)) l)"
  using rt_thread_suspend_lists [OF assms(2)] by simp

text \<open>A wait list in the order that its flag asks for.\<close>

definition prio_sorted :: "kernel \<Rightarrow> tid list \<Rightarrow> bool" where
  "prio_sorted k ts \<longleftrightarrow>
     sorted_wrt (\<lambda>a b. th_current_priority (threads k a) \<le> th_current_priority (threads k b)) ts"

subsection \<open>Suspending the caller\<close>

lemma list_suspend_sel [simp]:
  "current (rt_ipc_list_suspend l t f k) = current k"
  "lock_nest (rt_ipc_list_suspend l t f k) = lock_nest k"
  "int_nest (rt_ipc_list_suspend l t f k) = int_nest k" "tick (rt_ipc_list_suspend l t f k) = tick k"
  "sems (rt_ipc_list_suspend l t f k) = sems k" "mutexes (rt_ipc_list_suspend l t f k) = mutexes k"
  "events (rt_ipc_list_suspend l t f k) = events k"
  "mailboxes (rt_ipc_list_suspend l t f k) = mailboxes k" "mqs (rt_ipc_list_suspend l t f k) = mqs k"
  "obj_hdr (rt_ipc_list_suspend l t f k) = obj_hdr k"
  by (simp_all add: rt_ipc_list_suspend_def tlist_insert_before_def case_prod_beta Let_def)

lemma list_suspend_state:
  assumes ok: "kernel_ok k" and r: "stat_of (threads k t) = RT_THREAD_READY"
    and l: "wait_list l" and f: "f = RT_IPC_FLAG_FIFO \<or> f = RT_IPC_FLAG_PRIO"
  defines "k' \<equiv> rt_ipc_list_suspend l t f k"
  shows "kernel_ok k'" "fault k' = fault k"
    "threads k' = (threads k)(t := set_stat RT_THREAD_SUSPEND (threads k t))"
    "lists k' = (\<lambda>q. removeAll t (lists k q))(l :=
       (if f = RT_IPC_FLAG_FIFO then lists k l @ [t]
        else insert_where (\<lambda>s. th_current_priority (threads k t) < th_current_priority (threads k s))
          t (lists k l)))"
proof -
  let ?s = "snd (rt_thread_suspend t k)"
  note st = rt_thread_suspend_lists [OF r]
  have tl: "t \<notin> set (lists k l)"
  proof
    assume "t \<in> set (lists k l)"
    from waiting_suspended [OF ok this l] r show False by simp
  qed
  have p: "th_current_priority (threads ?s s) = th_current_priority (threads k s)" for s
    using st by simp
  have ins: "insert_where (\<lambda>s. th_current_priority (threads ?s t) < th_current_priority (threads ?s s))
      t (lists ?s l) = insert_where (\<lambda>s. th_current_priority (threads k t) < th_current_priority (threads k s))
      t (lists k l)"
    unfolding p using st tl by simp
  have eq: "k' = ?s\<lparr>lists := (lists ?s)(l := (if f = RT_IPC_FLAG_FIFO then lists k l @ [t]
        else insert_where (\<lambda>s. th_current_priority (threads k t) < th_current_priority (threads k s))
          t (lists k l)))\<rparr>"
    using f ins st tl by (auto simp: k'_def rt_ipc_list_suspend_def case_prod_beta Let_def
        tlist_insert_before_def p)
  show th: "threads k' = (threads k)(t := set_stat RT_THREAD_SUSPEND (threads k t))"
    using st by (simp add: eq)
  show li: "lists k' = (\<lambda>q. removeAll t (lists k q))(l :=
       (if f = RT_IPC_FLAG_FIFO then lists k l @ [t]
        else insert_where (\<lambda>s. th_current_priority (threads k t) < th_current_priority (threads k s))
          t (lists k l)))"
    using st by (simp add: eq)
  show "fault k' = fault k" by (simp add: eq)
  let ?xs = "if f = RT_IPC_FLAG_FIFO then lists k l @ [t]
        else insert_where (\<lambda>s. th_current_priority (threads k t) < th_current_priority (threads k s))
          t (lists k l)"
  have xs: "set ?xs = insert t (set (lists ?s l))" "distinct ?xs"
    using st tl kernel_ok_distinct [OF ok, of l] by auto
  have ok': "kernel_ok ?s" using ok by simp
  have "sched_ok (threads ?s) ((lists ?s)(l := ?xs)) (prio_group ?s)"
    using ok' suspended_free [OF ok r] l xs
    by (cases l) (auto simp: kernel_ok_def kinv_def intro!: sched_ok_enqueue)
  moreover have "wait_ok (threads ?s) ((lists ?s)(l := ?xs))"
    using ok' xs st wait_list_stat [OF l] by (auto simp: kernel_ok_def wait_ok_def)
  ultimately show "kernel_ok k'" by (simp add: kernel_ok_def kinv_def eq)
qed

lemma prio_sorted_insert:
  assumes "prio_sorted k xs"
  shows "prio_sorted k (insert_where
    (\<lambda>s. th_current_priority (threads k t) < th_current_priority (threads k s)) t xs)"
  using assms unfolding prio_sorted_def
  by (rule sorted_wrt_insert_where) (auto simp: not_less)

subsection \<open>Resuming waiters\<close>

lemma resume_waiter:
  assumes ok: "kernel_ok k" and l: "lists k l = t # ts" "wait_list l"
  shows "stat_of (threads k t) = RT_THREAD_SUSPEND"
    "threads (snd (rt_thread_resume t k)) = (threads k)(t := set_stat RT_THREAD_READY (threads k t))"
    "lists (snd (rt_thread_resume t k)) =
       (lists k)(l := ts, Ready (unat (th_current_priority (threads k t))) :=
          lists k (Ready (unat (th_current_priority (threads k t)))) @ [t])"
    "fst (rt_thread_resume t k) = RT_EOK"
proof -
  show s: "stat_of (threads k t) = RT_THREAD_SUSPEND"
    using waiting_suspended [OF ok _ l(2)] l(1) by simp
  note st = rt_thread_resume_state [OF s]
  show "threads (snd (rt_thread_resume t k)) = (threads k)(t := set_stat RT_THREAD_READY (threads k t))"
    "fst (rt_thread_resume t k) = RT_EOK" using st by auto
  have ne: "Ready p \<noteq> l" for p using l(2) by (cases l) auto
  have free: "t \<notin> set (lists k q)" if "q \<noteq> l" for q
    using kernel_ok_one_list [OF ok, of t q l] that l(1) by auto
  have ts: "removeAll t (lists k l) = ts"
    using kernel_ok_distinct [OF ok, of l] l(1) by auto
  show "lists (snd (rt_thread_resume t k)) =
       (lists k)(l := ts, Ready (unat (th_current_priority (threads k t))) :=
          lists k (Ready (unat (th_current_priority (threads k t)))) @ [t])"
    unfolding st(3) using ne free ts by (auto simp: fun_eq_iff)
qed

lemma ipc_list_resume_state:
  assumes ok: "kernel_ok k" and l: "lists k l = t # ts" "wait_list l"
  defines "k' \<equiv> rt_ipc_list_resume l k"
  shows "kernel_ok k'" "fault k' = fault k"
    "threads k' = (threads k)(t := set_stat RT_THREAD_READY (threads k t))"
    "lists k' = (lists k)(l := ts, Ready (unat (th_current_priority (threads k t))) :=
          lists k (Ready (unat (th_current_priority (threads k t)))) @ [t])"
  using assms resume_waiter [OF ok l] by (simp_all add: k'_def rt_ipc_list_resume_def)

lemma ipc_list_resume_sel [simp]:
  "current (rt_ipc_list_resume l k) = current k" "lock_nest (rt_ipc_list_resume l k) = lock_nest k"
  "int_nest (rt_ipc_list_resume l k) = int_nest k" "tick (rt_ipc_list_resume l k) = tick k"
  "sems (rt_ipc_list_resume l k) = sems k" "mutexes (rt_ipc_list_resume l k) = mutexes k"
  "events (rt_ipc_list_resume l k) = events k" "mailboxes (rt_ipc_list_resume l k) = mailboxes k"
  "mqs (rt_ipc_list_resume l k) = mqs k" "obj_hdr (rt_ipc_list_resume l k) = obj_hdr k"
  by (simp_all add: rt_ipc_list_resume_def split: list.splits)

definition resumed :: "rt_thread \<Rightarrow> rt_thread" where
  "resumed th = set_stat RT_THREAD_READY (th\<lparr>th_error := - RT_ERROR\<rparr>)"

lemma resume_with_error_state:
  assumes ok: "kernel_ok k" and l: "lists k l = t # ts" "wait_list l"
  defines "k' \<equiv> resume_with_error t k"
  shows "kernel_ok k'" "fault k' = fault k" "threads k' = (threads k)(t := resumed (threads k t))"
    "lists k' = (lists k)(l := ts, Ready (unat (th_current_priority (threads k t))) :=
          lists k (Ready (unat (th_current_priority (threads k t)))) @ [t])"
proof -
  let ?k = "upd_thread t (\<lambda>th. th\<lparr>th_error := - RT_ERROR\<rparr>) k"
  have ok': "kernel_ok ?k" using ok by (rule kernel_ok_upd_frame) simp_all
  have l': "lists ?k l = t # ts" using l by simp
  note r = resume_waiter [OF ok' l' l(2)]
  show "kernel_ok k'" "fault k' = fault k" using ok' by (simp_all add: k'_def resume_with_error_def)
  show "threads k' = (threads k)(t := resumed (threads k t))"
    "lists k' = (lists k)(l := ts, Ready (unat (th_current_priority (threads k t))) :=
          lists k (Ready (unat (th_current_priority (threads k t)))) @ [t])"
    unfolding k'_def resume_with_error_def r by (simp_all add: resumed_def)
qed

definition resume_lists :: "kernel \<Rightarrow> lid \<Rightarrow> tid list \<Rightarrow> lid \<Rightarrow> tid list" where
  "resume_lists k l ts q = (if q = l then [] else lists k q) @ (case q of
     Ready p \<Rightarrow> filter (\<lambda>t. unat (th_current_priority (threads k t)) = p) ts | _ \<Rightarrow> [])"

lemma resume_all_state:
  assumes "kernel_ok k" "wait_list l"
  defines "k' \<equiv> rt_ipc_list_resume_all l k"
  shows "kernel_ok k' \<and> fault k' = fault k \<and>
    threads k' = (\<lambda>t. if t \<in> set (lists k l) then resumed (threads k t) else threads k t) \<and>
    lists k' = resume_lists k l (lists k l)"
proof -
  have "\<exists>k'. resume_all_loop (length ts) l k = Some k' \<and> kernel_ok k' \<and> fault k' = fault k \<and>
      threads k' = (\<lambda>t. if t \<in> set ts then resumed (threads k t) else threads k t) \<and>
      lists k' = resume_lists k l ts"
    if "kernel_ok k" "lists k l = ts" for ts k
    using that
  proof (induction ts arbitrary: k)
    case Nil
    have "lists k = resume_lists k l []" using Nil
      by (auto simp: resume_lists_def fun_eq_iff split: lid.splits)
    moreover have "threads k = (\<lambda>t. if t \<in> set [] then resumed (threads k t) else threads k t)" by simp
    ultimately show ?case using Nil by (intro exI [of _ k] conjI) (assumption | simp add: resume_all_loop.simps)+
  next
    case (Cons t ts)
    let ?k = "resume_with_error t k"
    note st = resume_with_error_state [OF Cons.prems assms(2)]
    have ne: "Ready p \<noteq> l" for p using assms(2) by (cases l) auto
    have l: "lists ?k l = ts" using ne by (metis st(4) fun_upd_other fun_upd_same)
    have nt: "t \<notin> set ts" using kernel_ok_distinct [OF Cons.prems(1), of l] Cons.prems(2) by simp
    from Cons.IH [OF st(1) l] obtain k' where k': "resume_all_loop (length ts) l ?k = Some k'"
      "kernel_ok k'" "fault k' = fault k"
      "threads k' = (\<lambda>u. if u \<in> set ts then resumed (threads ?k u) else threads ?k u)"
      "lists k' = resume_lists ?k l ts" using st(2) by auto
    have "threads k' = (\<lambda>u. if u \<in> set (t # ts) then resumed (threads k u) else threads k u)"
      using nt by (auto simp: k'(4) st(3))
    moreover have "th_current_priority (threads ?k u) = th_current_priority (threads k u)" for u
      by (simp add: st(3) resumed_def)
    then have "lists k' = resume_lists k l (t # ts)"
      using ne by (auto simp: k'(5) st(4) resume_lists_def fun_eq_iff split: lid.splits)
    ultimately show ?case using k'(1-3) Cons.prems(2) by (simp add: resume_all_loop.simps [of "Suc _"])
  qed
  from this [OF assms(1) refl] show ?thesis
    by (auto simp: k'_def rt_ipc_list_resume_all_def)
qed

lemma resume_all_loop_frame:
  "resume_all_loop n l k = Some k' \<Longrightarrow> current k' = current k \<and> lock_nest k' = lock_nest k \<and>
     int_nest k' = int_nest k \<and> tick k' = tick k \<and> sems k' = sems k \<and> mutexes k' = mutexes k \<and>
     events k' = events k \<and> mailboxes k' = mailboxes k \<and> mqs k' = mqs k \<and> obj_hdr k' = obj_hdr k"
proof (induction n arbitrary: k)
  case 0
  then show ?case by (simp add: resume_all_loop.simps [of 0] split: list.splits)
next
  case (Suc n)
  show ?case
  proof (cases "lists k l")
    case (Cons t ts)
    then show ?thesis using Suc.IH [of "resume_with_error t k"] Suc.prems
      by (simp add: resume_with_error_def resume_all_loop.simps [of "Suc _"])
  qed (use Suc.prems in \<open>simp add: resume_all_loop.simps\<close>)
qed

lemma resume_all_sel [simp]:
  "current (rt_ipc_list_resume_all l k) = current k"
  "lock_nest (rt_ipc_list_resume_all l k) = lock_nest k"
  "int_nest (rt_ipc_list_resume_all l k) = int_nest k" "tick (rt_ipc_list_resume_all l k) = tick k"
  "sems (rt_ipc_list_resume_all l k) = sems k" "mutexes (rt_ipc_list_resume_all l k) = mutexes k"
  "events (rt_ipc_list_resume_all l k) = events k"
  "mailboxes (rt_ipc_list_resume_all l k) = mailboxes k" "mqs (rt_ipc_list_resume_all l k) = mqs k"
  "obj_hdr (rt_ipc_list_resume_all l k) = obj_hdr k"
  using resume_all_loop_frame [of "length (lists k l)" l k]
  by (auto simp: rt_ipc_list_resume_all_def split: option.splits)

lemma resume_all_stuck:
  assumes "lists k l = t # ts" "stat_of (threads k t) \<noteq> RT_THREAD_SUSPEND"
  shows "resume_all_loop n l k = None"
  using assms
proof (induction n arbitrary: k)
  case (Suc n)
  then have "resume_with_error t k = upd_thread t (\<lambda>th. th\<lparr>th_error := - RT_ERROR\<rparr>) k"
    by (simp add: resume_with_error_def rt_thread_resume_refused)
  then show ?case using Suc by (simp add: resume_all_loop.simps [of "Suc n"])
qed (simp add: resume_all_loop.simps)

subsection \<open>Thread operations and the kernel invariant\<close>

lemma wait_ok_unlink: "wait_ok T L \<Longrightarrow> wait_ok (T(t := th)) (\<lambda>l. removeAll t (L l))"
  by (auto simp: wait_ok_def)

lemma wait_ok_link:
  "wait_ok T L \<Longrightarrow> stat_of (T t) = list_stat l \<Longrightarrow> set xs \<subseteq> insert t (set (L l)) \<Longrightarrow>
     wait_ok T (L(l := xs))"
  by (auto simp: wait_ok_def)

lemma wait_ok_free: "wait_ok T L \<Longrightarrow> (\<And>l. t \<notin> set (L l)) \<Longrightarrow> wait_ok (T(t := th)) L"
  by (auto simp: wait_ok_def)

text \<open>A thread that is neither ready, suspended nor closed is in no list.\<close>

lemma init_in_no_list:
  assumes "kernel_ok k" "stat_of (threads k t) = RT_THREAD_INIT"
  shows "t \<notin> set (lists k l)"
  using kernel_ok_listD [OF assms(1), of t l] assms(2) by (cases l) auto

lemma kernel_ok_close:
  assumes "kernel_ok k"
  shows "wait_ok (threads (upd_thread t (\<lambda>th. th\<lparr>th_stat := RT_THREAD_CLOSE\<rparr>)
      (rt_schedule_remove_thread t k))) (lists (upd_thread t (\<lambda>th. th\<lparr>th_stat := RT_THREAD_CLOSE\<rparr>)
      (rt_schedule_remove_thread t k)))"
  using assms by (simp add: kernel_ok_def wait_ok_unlink)

lemma kernel_ok_exit:
  assumes "kernel_ok k" "current k = Some t" "live k t"
  shows "kernel_ok (rt_thread_exit k)"
proof -
  have "kinv (rt_thread_exit k)"
    using kinv_exit [OF kernel_ok_kinv [OF assms(1)] assms(2,3)] .
  moreover have "wait_ok (threads (rt_thread_exit k)) (lists (rt_thread_exit k))"
    using assms(2) kernel_ok_close [OF assms(1), of t]
    by (auto simp: rt_thread_exit_def Let_def intro!: wait_ok_link)
  ultimately show ?thesis by (simp add: kernel_ok_def)
qed

lemma kernel_ok_delete:
  assumes "kernel_ok k" "live k t"
  shows "kernel_ok (snd (rt_thread_delete t k))"
proof -
  have "wait_ok (threads (snd (rt_thread_delete t k))) (lists (snd (rt_thread_delete t k)))"
    using assms(2) kernel_ok_close [OF assms(1), of t]
    by (auto simp: rt_thread_delete_def live_def Let_def intro!: wait_ok_link)
  then show ?thesis using kinv_delete assms by (simp add: kernel_ok_def)
qed

lemma kernel_ok_detach:
  assumes "kernel_ok k" "live k t"
  shows "kernel_ok (snd (rt_thread_detach t k))"
proof -
  have "wait_ok (threads (snd (rt_thread_detach t k))) (lists (snd (rt_thread_detach t k)))"
    using assms(2) kernel_ok_close [OF assms(1), of t]
    by (auto simp: rt_thread_detach_def live_def Let_def intro!: wait_ok_link)
  then show ?thesis using kinv_detach assms by (simp add: kernel_ok_def)
qed

lemma kernel_ok_init:
  assumes "kernel_ok k" "\<And>l. t \<notin> set (lists k l)"
  shows "kernel_ok (snd (rt_thread_init t name priority tk k))"
proof -
  have "kinv (snd (rt_thread_init t name priority tk k))"
    using assms by (intro kinv_init kernel_ok_kinv) auto
  then show ?thesis using assms
    by (simp add: kernel_ok_def rt_thread_init_def rt_thread_init_fields_def Let_def wait_ok_free)
qed

lemma kernel_ok_startup:
  assumes "kernel_ok k" "stat_of (threads k t) = RT_THREAD_INIT"
    and "unat (th_init_priority (threads k t)) < RT_THREAD_PRIORITY_MAX"
  shows "kernel_ok (snd (rt_thread_startup t k))"
proof -
  have f: "t \<notin> set (lists k l)" for l using init_in_no_list [OF assms(1,2)] .
  have "kinv (snd (rt_thread_startup t k))"
    using kinv_startup [OF kernel_ok_kinv [OF assms(1)] assms(2,3)] .
  moreover have "wait_ok (threads (snd (rt_thread_startup t k))) (lists (snd (rt_thread_startup t k)))"
    using assms(1,2) f
    by (auto simp: rt_thread_startup_def Let_def rt_thread_resume_state set_mask_def kernel_ok_def wait_ok_def
        split: if_splits)
  ultimately show ?thesis by (simp add: kernel_ok_def)
qed

lemma kernel_ok_yield: "kernel_ok k \<Longrightarrow> kernel_ok (snd (rt_thread_yield k))"
  using kinv_yield [of k]
  by (auto simp: kernel_ok_def wait_ok_def rt_thread_yield_def Let_def tlist_insert_before_def
      split: option.splits)

lemma kernel_ok_sleep: "kernel_ok k \<Longrightarrow> kernel_ok (rt_thread_sleep tk k)"
  by (simp add: rt_thread_sleep_def Let_def split: option.splits)

lemma kernel_ok_change_priority:
  assumes "kernel_ok k" "unat p < RT_THREAD_PRIORITY_MAX"
  shows "kernel_ok (snd (rt_thread_control t (CTRL_CHANGE_PRIORITY p) k))"
proof -
  have "wait_ok (threads (snd (rt_thread_control t (CTRL_CHANGE_PRIORITY p) k)))
      (lists (snd (rt_thread_control t (CTRL_CHANGE_PRIORITY p) k)))"
    using assms(1)
    by (auto simp: rt_thread_control_def Let_def kernel_ok_def wait_ok_def)
  then show ?thesis using kinv_change_priority assms by (simp add: kernel_ok_def)
qed

lemma kernel_ok_timeout:
  assumes "kernel_ok k" "stat_of (threads k t) = RT_THREAD_SUSPEND"
  shows "kernel_ok (rt_thread_timeout t k)"
proof -
  have "wait_ok (threads (rt_thread_timeout t k)) (lists (rt_thread_timeout t k))"
    using assms by (auto simp: rt_thread_timeout_def Let_def kernel_ok_def wait_ok_def)
  then show ?thesis using rt_thread_timeout_state(1) assms by (simp add: kernel_ok_def)
qed

subsection \<open>The caller of a blocking call\<close>

text \<open>What a blocking call does to the threads and lists, whatever object it waits on.\<close>

definition blocked_lists :: "lid \<Rightarrow> tid \<Rightarrow> u8 \<Rightarrow> kernel \<Rightarrow> lid \<Rightarrow> tid list" where
  "blocked_lists l t f k = (\<lambda>q. removeAll t (lists k q))(l :=
     (if f = RT_IPC_FLAG_FIFO then lists k l @ [t]
      else insert_where (\<lambda>s. th_current_priority (threads k t) < th_current_priority (threads k s))
        t (lists k l)))"

lemma start_wait_timer_sel [simp]:
  "threads (start_wait_timer t time k) = threads k" "lists (start_wait_timer t time k) = lists k"
  "prio_group (start_wait_timer t time k) = prio_group k"
  "current (start_wait_timer t time k) = current k" "sems (start_wait_timer t time k) = sems k"
  "mutexes (start_wait_timer t time k) = mutexes k" "events (start_wait_timer t time k) = events k"
  "mailboxes (start_wait_timer t time k) = mailboxes k" "mqs (start_wait_timer t time k) = mqs k"
  "lock_nest (start_wait_timer t time k) = lock_nest k"
  "int_nest (start_wait_timer t time k) = int_nest k" "tick (start_wait_timer t time k) = tick k"
  "obj_hdr (start_wait_timer t time k) = obj_hdr k"
  by (simp_all add: start_wait_timer_def)

lemma start_wait_timer_fault:
  assumes "time < 2147483647"
  shows "fault (start_wait_timer t time k) = fault k"
proof (cases "time > 0")
  case True
  have "uint (of_int time :: u32) = time" using assms True by (simp add: uint_word_of_int take_bit_eq_mod)
  then have "(of_int time :: u32) < half_tick"
    using assms by (simp add: word_less_def half_tick_def RT_TICK_MAX_def)
  then show ?thesis
    by (simp add: start_wait_timer_def rt_timer_start_def rt_timer_control_def upd_timer_def
        rt_timer_remove_def clear_activated_def Let_def)
qed (simp add: start_wait_timer_def)

text \<open>The thread that goes to wait, before the scheduler runs: shared by the IPC objects.\<close>

definition wait_state :: "lid \<Rightarrow> tid \<Rightarrow> u8 \<Rightarrow> (rt_thread \<Rightarrow> rt_thread) \<Rightarrow> int \<Rightarrow> kernel \<Rightarrow> kernel" where
  "wait_state l t f g time k =
     start_wait_timer t time (rt_ipc_list_suspend l t f (upd_thread t g k))"

lemma wait_state_props:
  fixes time :: int
  assumes "kernel_ok k" "stat_of (threads k t) = RT_THREAD_READY" "wait_list l"
    and "f = RT_IPC_FLAG_FIFO \<or> f = RT_IPC_FLAG_PRIO"
    and g: "\<And>th. th_stat (g th) = th_stat th" "\<And>th. th_current_priority (g th) = th_current_priority th"
      "\<And>th. th_number_mask (g th) = th_number_mask th"
  defines "k' \<equiv> wait_state l t f g time k"
  shows "kernel_ok k'" "time < 2147483647 \<Longrightarrow> fault k' = fault k"
    "threads k' = (threads k)(t := set_stat RT_THREAD_SUSPEND (g (threads k t)))"
    "lists k' = blocked_lists l t f k"
proof -
  let ?k = "upd_thread t g k"
  have ok: "kernel_ok ?k" using assms(1) g by (rule kernel_ok_upd_frame)
  have r: "stat_of (threads ?k t) = RT_THREAD_READY" using assms(2) g(1) by (simp add: stat_of_def)
  have p: "th_current_priority (threads ?k u) = th_current_priority (threads k u)" for u
    using g(2) by simp
  note st = list_suspend_state [OF ok r assms(3,4)]
  show "kernel_ok k'" using st(1) by (simp add: k'_def wait_state_def)
  show "time < 2147483647 \<Longrightarrow> fault k' = fault k"
    using st(2) by (simp add: k'_def wait_state_def start_wait_timer_fault)
  show "threads k' = (threads k)(t := set_stat RT_THREAD_SUSPEND (g (threads k t)))"
    using st(3) by (simp add: k'_def wait_state_def)
  show "lists k' = blocked_lists l t f k"
    using st(4) unfolding k'_def wait_state_def blocked_lists_def p by simp
qed

lemma set_obj_flag_sel [simp]:
  "threads (set_obj_flag obj f k) = threads k" "lists (set_obj_flag obj f k) = lists k"
  "prio_group (set_obj_flag obj f k) = prio_group k" "current (set_obj_flag obj f k) = current k"
  "sems (set_obj_flag obj f k) = sems k" "mutexes (set_obj_flag obj f k) = mutexes k"
  "events (set_obj_flag obj f k) = events k" "mailboxes (set_obj_flag obj f k) = mailboxes k"
  "mqs (set_obj_flag obj f k) = mqs k" "fault (set_obj_flag obj f k) = fault k"
  "obj_flag_of obj (set_obj_flag obj f k) = f" "kernel_ok (set_obj_flag obj f k) = kernel_ok k"
  by (simp_all add: set_obj_flag_def upd_hdr_def obj_flag_of_def kernel_ok_def kinv_def)

lemma wait_state_sel [simp]:
  "current (wait_state l t f g time k) = current k" "lock_nest (wait_state l t f g time k) = lock_nest k"
  "int_nest (wait_state l t f g time k) = int_nest k" "sems (wait_state l t f g time k) = sems k"
  "mutexes (wait_state l t f g time k) = mutexes k" "events (wait_state l t f g time k) = events k"
  "mailboxes (wait_state l t f g time k) = mailboxes k" "mqs (wait_state l t f g time k) = mqs k"
  "obj_hdr (wait_state l t f g time k) = obj_hdr k"
  by (simp_all add: wait_state_def)

lemma object_init_list:
  "kernel_ok k \<Longrightarrow> lists k (Suspend obj) = [] \<Longrightarrow> rt_ipc_object_init obj k = k"
  by (simp add: rt_ipc_object_init_def fun_upd_idem)

text \<open>A thread of the running system: it is ready, and not in an interrupt handler.\<close>

definition running :: "tid \<Rightarrow> kernel \<Rightarrow> bool" where
  "running t k \<longleftrightarrow> current k = Some t \<and> stat_of (threads k t) = RT_THREAD_READY \<and> int_nest k = 0"

lemma debug_in_thread_context_running [simp]: "running t k \<Longrightarrow> debug_in_thread_context k = k"
  by (simp add: running_def debug_in_thread_context_def debug_not_in_interrupt_def)

definition clear_error :: "rt_thread \<Rightarrow> rt_thread" where
  "clear_error th = th\<lparr>th_error := RT_EOK\<rparr>"

lemma clear_error_sel [simp]:
  "th_stat (clear_error th) = th_stat th"
  "th_current_priority (clear_error th) = th_current_priority th"
  "th_number_mask (clear_error th) = th_number_mask th" "th_error (clear_error th) = RT_EOK"
  "stat_of (clear_error th) = stat_of th"
  by (simp_all add: clear_error_def)

lemma upd_clear_error: "upd_thread t (\<lambda>th. th\<lparr>th_error := RT_EOK\<rparr>) = upd_thread t clear_error"
  by (simp add: clear_error_def [abs_def])

text \<open>Changing a thread's priority, as mutexes do to their owner.\<close>

definition change_priority :: "tid \<Rightarrow> u8 \<Rightarrow> kernel \<Rightarrow> kernel" where
  "change_priority t p k = snd (rt_thread_control t (CTRL_CHANGE_PRIORITY p) k)"

lemma change_priority_sel [simp]:
  "current (change_priority t p k) = current k" "lock_nest (change_priority t p k) = lock_nest k"
  "int_nest (change_priority t p k) = int_nest k" "sems (change_priority t p k) = sems k"
  "mutexes (change_priority t p k) = mutexes k" "events (change_priority t p k) = events k"
  "mailboxes (change_priority t p k) = mailboxes k" "mqs (change_priority t p k) = mqs k"
  "obj_hdr (change_priority t p k) = obj_hdr k"
  by (simp_all add: change_priority_def rt_thread_control_def Let_def)

lemma set_mask_sel [simp]:
  "th_current_priority (set_mask th) = th_current_priority th" "th_stat (set_mask th) = th_stat th"
  "th_error (set_mask th) = th_error th"
  "th_number_mask (set_mask th) = push_bit (unat (th_current_priority th)) 1"
  by (simp_all add: set_mask_def)

lemma change_priority_state:
  fixes t :: tid
  assumes "kernel_ok k" "unat p < RT_THREAD_PRIORITY_MAX"
  defines "k' \<equiv> change_priority t p k"
  shows "kernel_ok k'" "fault k' = fault k" "\<And>u. u \<noteq> t \<Longrightarrow> threads k' u = threads k u"
    "th_current_priority (threads k' t) = p" "stat_of (threads k' t) = stat_of (threads k t)"
    "th_error (threads k' t) = th_error (threads k t)" "\<And>l. wait_list l \<Longrightarrow> lists k' l = lists k l"
proof -
  show "kernel_ok k'" using kernel_ok_change_priority [OF assms(1,2)] by (simp add: k'_def change_priority_def)
  show "\<And>u. u \<noteq> t \<Longrightarrow> threads k' u = threads k u" "th_current_priority (threads k' t) = p"
    "th_error (threads k' t) = th_error (threads k t)"
    "stat_of (threads k' t) = stat_of (threads k t)"
    by (auto simp: k'_def change_priority_def rt_thread_control_def Let_def)
  show "fault k' = fault k"
    using assms(2) by (simp add: k'_def change_priority_def rt_thread_control_def Let_def
        rt_schedule_insert_thread_def tlist_insert_before_def)
  show "lists k' l = lists k l" if "wait_list l" for l
  proof (cases "stat_of (threads k t) = RT_THREAD_READY")
    case True
    then have "t \<notin> set (lists k l)" using waiting_suspended [OF assms(1) _ that] by fastforce
    then show ?thesis using that True
      by (cases l) (auto simp: k'_def change_priority_def rt_thread_control_def Let_def)
  qed (simp add: k'_def change_priority_def rt_thread_control_def Let_def)
qed

lemma running_prio:
  "kernel_ok k \<Longrightarrow> stat_of (threads k t) = RT_THREAD_READY \<Longrightarrow>
     unat (th_current_priority (threads k t)) < RT_THREAD_PRIORITY_MAX"
  using kinv_live_mask [of k t] by (simp add: kernel_ok_def mask_ok_def)

end
