(* ===== verification/Semaphore.thy ===== *)
theory Semaphore
  imports Ipc
begin

text \<open>
  Semaphores (\<^verbatim>\<open>src/ipc.c\<close>). The value is 16 bits wide and \<^verbatim>\<open>rt_sem_release\<close> does not check it.

  \<open>sem_abs\<close> reads off a semaphore's abstract state, a number of units and a queue of waiting
  threads; the operations are shown to implement those of the abstract one.
\<close>

subsection \<open>Operations\<close>

definition upd_sem :: "oid \<Rightarrow> u16 \<Rightarrow> kernel \<Rightarrow> kernel" where
  "upd_sem s v k = k\<lparr>sems := (sems k)(s := (sems k s)\<lparr>sem_value := v\<rparr>)\<rparr>"

definition rt_sem_init :: "oid \<Rightarrow> string \<Rightarrow> u32 \<Rightarrow> u8 \<Rightarrow> kernel \<Rightarrow> int \<times> kernel" where
  "rt_sem_init s name value flag k =
     (let k = rt_object_init (Ipc_obj s) RT_Object_Class_Semaphore name k;
          k = rt_ipc_object_init s k;
          k = upd_sem s (ucast value) k
      in (RT_EOK, set_obj_flag s flag k))"

definition rt_sem_detach :: "oid \<Rightarrow> kernel \<Rightarrow> int \<times> kernel" where
  "rt_sem_detach s k =
     (RT_EOK, rt_object_detach (Ipc_obj s) (rt_ipc_list_resume_all (Suspend s) k))"

definition rt_sem_create ::
    "oid option \<Rightarrow> string \<Rightarrow> u32 \<Rightarrow> u8 \<Rightarrow> kernel \<Rightarrow> oid option \<times> kernel" where
  "rt_sem_create mem name value flag k =
     (let k = debug_not_in_interrupt k;
          (r, k) = rt_object_allocate (map_option Ipc_obj mem) RT_Object_Class_Semaphore name k
      in case (r, mem) of
           (Some _, Some s) \<Rightarrow>
             (let k = rt_ipc_object_init s k;
                  k = upd_sem s (ucast value) k
              in (Some s, set_obj_flag s flag k))
         | _ \<Rightarrow> (None, k))"

definition rt_sem_delete :: "oid \<Rightarrow> kernel \<Rightarrow> int \<times> kernel" where
  "rt_sem_delete s k =
     (let k = debug_not_in_interrupt k
      in (RT_EOK, rt_object_delete (Ipc_obj s) (rt_ipc_list_resume_all (Suspend s) k)))"

definition rt_sem_take :: "oid \<Rightarrow> int \<Rightarrow> kernel \<Rightarrow> outcome \<times> kernel" where
  "rt_sem_take s time k =
     (if sem_value (sems k s) > 0
      then (Returned RT_EOK, upd_sem s (sem_value (sems k s) - 1) k)
      else if time = 0 then (Returned (- RT_ETIMEOUT), k)
      else
        (let k = debug_in_thread_context k in
         case rt_thread_self k of
           None \<Rightarrow> (Returned (- RT_ERROR), defined_if False k)
         | Some t \<Rightarrow>
             (let k = upd_thread t (\<lambda>th. th\<lparr>th_error := RT_EOK\<rparr>) k;
                  k = rt_ipc_list_suspend (Suspend s) t (obj_flag_of s k) k;
                  k = start_wait_timer t time k
              in (Waiting t, rt_schedule k))))"

definition rt_sem_take_return :: "tid \<Rightarrow> kernel \<Rightarrow> int" where
  "rt_sem_take_return t k =
     (if th_error (threads k t) \<noteq> RT_EOK then th_error (threads k t) else RT_EOK)"

definition rt_sem_trytake :: "oid \<Rightarrow> kernel \<Rightarrow> outcome \<times> kernel" where
  "rt_sem_trytake s k = rt_sem_take s 0 k"

definition rt_sem_release :: "oid \<Rightarrow> kernel \<Rightarrow> int \<times> kernel" where
  "rt_sem_release s k =
     (if lists k (Suspend s) \<noteq> []
      then (RT_EOK, rt_schedule (rt_ipc_list_resume (Suspend s) k))
      else (RT_EOK, upd_sem s (sem_value (sems k s) + 1) k))"

definition rt_sem_control :: "oid \<Rightarrow> int \<Rightarrow> u32 \<Rightarrow> kernel \<Rightarrow> int \<times> kernel" where
  "rt_sem_control s cmd arg k =
     (if cmd = RT_IPC_CMD_RESET
      then (let k = rt_ipc_list_resume_all (Suspend s) k
            in (RT_EOK, rt_schedule (upd_sem s (ucast arg) k)))
      else (- RT_ERROR, k))"

subsection \<open>Lemmas\<close>

lemma upd_sem_sel [simp]:
  "threads (upd_sem s v k) = threads k" "lists (upd_sem s v k) = lists k"
  "prio_group (upd_sem s v k) = prio_group k" "current (upd_sem s v k) = current k"
  "fault (upd_sem s v k) = fault k" "obj_hdr (upd_sem s v k) = obj_hdr k"
  "lock_nest (upd_sem s v k) = lock_nest k" "int_nest (upd_sem s v k) = int_nest k"
  "sem_value (sems (upd_sem s v k) s') = (if s' = s then v else sem_value (sems k s'))"
  by (simp_all add: upd_sem_def)

lemma kernel_ok_upd_sem [simp]: "kernel_ok (upd_sem s v k) = kernel_ok k"
  by (rule kernel_ok_cong) simp_all

lemma sem_take_available:
  "sem_value (sems k s) > 0 \<Longrightarrow>
     rt_sem_take s time k = (Returned RT_EOK, upd_sem s (sem_value (sems k s) - 1) k)"
  by (simp add: rt_sem_take_def)

lemma sem_take_nowait:
  "sem_value (sems k s) = 0 \<Longrightarrow> rt_sem_take s 0 k = (Returned (- RT_ETIMEOUT), k)"
  by (simp add: rt_sem_take_def)

lemma sem_take_blocks:
  assumes "sem_value (sems k s) = 0" "time \<noteq> 0" "running t k"
  shows "rt_sem_take s time k =
    (Waiting t, rt_schedule (wait_state (Suspend s) t (obj_flag_of s k) clear_error time k))"
proof -
  have "current k = Some t" using assms(3) by (simp add: running_def)
  then show ?thesis using assms
    by (simp add: rt_sem_take_def Let_def wait_state_def rt_thread_self_def upd_clear_error
        obj_flag_of_def)
qed

lemma sem_take_blocked_state:
  fixes time :: int
  assumes "kernel_ok k" "sem_value (sems k s) = 0" "time \<noteq> 0" "running t k"
    and f: "obj_flag_of s k = RT_IPC_FLAG_FIFO \<or> obj_flag_of s k = RT_IPC_FLAG_PRIO"
  defines "k' \<equiv> snd (rt_sem_take s time k)"
  shows "fst (rt_sem_take s time k) = Waiting t" "kernel_ok k'"
    "threads k' = (threads k)(t := set_stat RT_THREAD_SUSPEND (clear_error (threads k t)))"
    "lists k' = blocked_lists (Suspend s) t (obj_flag_of s k) k" "sems k' = sems k"
proof -
  have r: "stat_of (threads k t) = RT_THREAD_READY" using assms(4) by (simp add: running_def)
  have w: "wait_list (Suspend s)" by simp
  note st = wait_state_props [OF assms(1) r w f clear_error_sel(1-3)]
  show "fst (rt_sem_take s time k) = Waiting t" "kernel_ok k'"
    "threads k' = (threads k)(t := set_stat RT_THREAD_SUSPEND (clear_error (threads k t)))"
    "lists k' = blocked_lists (Suspend s) t (obj_flag_of s k) k" "sems k' = sems k"
    unfolding k'_def sem_take_blocks [OF assms(2-4)] by (simp_all add: st)
qed

lemma sem_release_wakes:
  assumes "kernel_ok k" "lists k (Suspend s) = t # ts"
  defines "k' \<equiv> snd (rt_sem_release s k)" and "p \<equiv> unat (th_current_priority (threads k t))"
  shows "kernel_ok k'" "threads k' = (threads k)(t := set_stat RT_THREAD_READY (threads k t))"
    "lists k' = (lists k)(Suspend s := ts, Ready p := lists k (Ready p) @ [t])" "sems k' = sems k"
proof -
  have w: "wait_list (Suspend s)" by simp
  note st = ipc_list_resume_state [OF assms(1,2) w]
  show "kernel_ok k'" "threads k' = (threads k)(t := set_stat RT_THREAD_READY (threads k t))"
    "lists k' = (lists k)(Suspend s := ts, Ready p := lists k (Ready p) @ [t])" "sems k' = sems k"
    using st assms(2) by (simp_all add: k'_def p_def rt_sem_release_def)
qed

lemma sem_release_counts:
  "lists k (Suspend s) = [] \<Longrightarrow> rt_sem_release s k = (RT_EOK, upd_sem s (sem_value (sems k s) + 1) k)"
  by (simp add: rt_sem_release_def)

lemma sem_control_reset:
  fixes v :: u32 and s :: oid
  assumes "kernel_ok k"
  defines "k' \<equiv> snd (rt_sem_control s RT_IPC_CMD_RESET v k)"
  shows "kernel_ok k'" "lists k' (Suspend s) = []" "sem_value (sems k' s) = ucast v"
    "threads k' = (\<lambda>t. if t \<in> set (lists k (Suspend s)) then resumed (threads k t) else threads k t)"
  using resume_all_state [of k "Suspend s"] assms(1)
  by (simp_all add: k'_def rt_sem_control_def Let_def resume_lists_def)

subsection \<open>The abstract semaphore\<close>

text \<open>
  Units are handed to the first waiter, and counted only when nobody waits. A thread that has to
  wait goes to the end of the queue, or with the priority flag behind the waiters that are at
  least as urgent (\<open>queue_up\<close>).
\<close>

definition queue_up :: "u8 \<Rightarrow> (tid \<Rightarrow> u8) \<Rightarrow> tid \<Rightarrow> tid list \<Rightarrow> tid list" where
  "queue_up flag prio t ts =
     (if flag = RT_IPC_FLAG_FIFO then ts @ [t]
      else takeWhile (\<lambda>u. prio u \<le> prio t) ts @ [t] @ dropWhile (\<lambda>u. prio u \<le> prio t) ts)"

definition sem_abs :: "oid \<Rightarrow> kernel \<Rightarrow> nat \<times> tid list" where
  "sem_abs s k = (unat (sem_value (sems k s)), lists k (Suspend s))"

fun spec_release :: "nat \<times> tid list \<Rightarrow> nat \<times> tid list" where
  "spec_release (n, []) = (n + 1, [])"
| "spec_release (n, t # ts) = (n, ts)"

fun spec_take :: "(tid list \<Rightarrow> tid list) \<Rightarrow> nat \<times> tid list \<Rightarrow> nat \<times> tid list" where
  "spec_take join (0, ts) = (0, join ts)"
| "spec_take join (Suc n, ts) = (n, ts)"

definition sem_ok :: "oid \<Rightarrow> kernel \<Rightarrow> bool" where
  "sem_ok s k \<longleftrightarrow> kernel_ok k \<and> (sem_value (sems k s) > 0 \<longrightarrow> lists k (Suspend s) = [])"

lemma spec_release_abs:
  assumes "sem_ok s k" "sem_value (sems k s) \<noteq> 0xffff"
  shows "sem_abs s (snd (rt_sem_release s k)) = spec_release (sem_abs s k)" "sem_ok s (snd (rt_sem_release s k))"
proof -
  have k: "kernel_ok k" using assms(1) by (simp add: sem_ok_def)
  have "sem_abs s (snd (rt_sem_release s k)) = spec_release (sem_abs s k) \<and> sem_ok s (snd (rt_sem_release s k))"
  proof (cases "lists k (Suspend s)")
    case Nil
    have "unat (sem_value (sems k s) + 1) = unat (sem_value (sems k s)) + 1"
      using assms(2) by (rule u16_unat_Suc)
    then show ?thesis using Nil k by (simp add: sem_abs_def sem_release_counts sem_ok_def)
  next
    case (Cons t ts)
    then show ?thesis
      using sem_release_wakes [OF k Cons] assms(1) by (auto simp: sem_abs_def sem_ok_def)
  qed
  then show "sem_abs s (snd (rt_sem_release s k)) = spec_release (sem_abs s k)"
    "sem_ok s (snd (rt_sem_release s k))" by auto
qed

lemma spec_take_abs:
  assumes "sem_ok s k" "running t k" "time \<noteq> 0"
    and f: "obj_flag_of s k = RT_IPC_FLAG_FIFO \<or> obj_flag_of s k = RT_IPC_FLAG_PRIO"
  defines "join \<equiv> queue_up (obj_flag_of s k) (\<lambda>u. th_current_priority (threads k u)) t"
  shows "sem_abs s (snd (rt_sem_take s time k)) = spec_take join (sem_abs s k)"
    "sem_ok s (snd (rt_sem_take s time k))"
proof -
  have k: "kernel_ok k" using assms(1) by (simp add: sem_ok_def)
  have "sem_abs s (snd (rt_sem_take s time k)) = spec_take join (sem_abs s k) \<and>
    sem_ok s (snd (rt_sem_take s time k))"
  proof (cases "sem_value (sems k s) > 0")
    case True
    then obtain n where n: "unat (sem_value (sems k s)) = Suc n"
      by (metis gr0_implies_Suc unat_gt_0 word_gt_0)
    then have "unat (sem_value (sems k s) - 1) = n" using True
      by (simp add: unat_minus_one word_gt_0)
    then show ?thesis using True n k assms(1) by (simp add: sem_abs_def sem_take_available sem_ok_def)
  next
    case False
    then have z: "sem_value (sems k s) = 0" by (simp add: word_gt_0)
    note st = sem_take_blocked_state [OF k z assms(3,2) f]
    show ?thesis using st z f
      by (auto simp: sem_abs_def blocked_lists_def sem_ok_def join_def queue_up_def insert_where_split not_less)
  qed
  then show "sem_abs s (snd (rt_sem_take s time k)) = spec_take join (sem_abs s k)"
    "sem_ok s (snd (rt_sem_take s time k))" by auto
qed

end
