(* ===== verification/Mutex.thy ===== *)
theory Mutex
  imports Semaphore
begin

text \<open>
  Mutexes (\<^verbatim>\<open>src/ipc.c\<close>): recursive, with priority inheritance. The hold counter is 8 bits
  wide. \<open>mutex_take_again\<close> is the code of \<^verbatim>\<open>rt_mutex_take\<close> from the label \<^verbatim>\<open>__again\<close>, and
  \<open>rt_mutex_take_return\<close> what a thread does when it runs again after waiting.

  \<open>mutex_ok\<close> is the invariant: free without waiters, or owned; for a mutex with the priority
  flag the waiters are in priority order and the owner runs at least as high as they do.
\<close>

subsection \<open>Operations\<close>

definition upd_mutex :: "oid \<Rightarrow> (rt_mutex \<Rightarrow> rt_mutex) \<Rightarrow> kernel \<Rightarrow> kernel" where
  "upd_mutex m f k = k\<lparr>mutexes := (mutexes k)(m := f (mutexes k m))\<rparr>"

definition mutex_fresh :: "rt_mutex \<Rightarrow> rt_mutex" where
  "mutex_fresh mu = mu\<lparr>mtx_value := 1, mtx_owner := None, mtx_original_priority := 0xFF, mtx_hold := 0\<rparr>"

definition rt_mutex_init :: "oid \<Rightarrow> string \<Rightarrow> u8 \<Rightarrow> kernel \<Rightarrow> int \<times> kernel" where
  "rt_mutex_init m name flag k =
     (let k = rt_object_init (Ipc_obj m) RT_Object_Class_Mutex name k;
          k = rt_ipc_object_init m k;
          k = upd_mutex m mutex_fresh k
      in (RT_EOK, set_obj_flag m flag k))"

definition rt_mutex_detach :: "oid \<Rightarrow> kernel \<Rightarrow> int \<times> kernel" where
  "rt_mutex_detach m k =
     (RT_EOK, rt_object_detach (Ipc_obj m) (rt_ipc_list_resume_all (Suspend m) k))"

definition rt_mutex_create :: "oid option \<Rightarrow> string \<Rightarrow> u8 \<Rightarrow> kernel \<Rightarrow> oid option \<times> kernel" where
  "rt_mutex_create mem name flag k =
     (let k = debug_not_in_interrupt k;
          (r, k) = rt_object_allocate (map_option Ipc_obj mem) RT_Object_Class_Mutex name k
      in case (r, mem) of
           (Some _, Some m) \<Rightarrow>
             (let k = rt_ipc_object_init m k;
                  k = upd_mutex m mutex_fresh k
              in (Some m, set_obj_flag m flag k))
         | _ \<Rightarrow> (None, k))"

definition rt_mutex_delete :: "oid \<Rightarrow> kernel \<Rightarrow> int \<times> kernel" where
  "rt_mutex_delete m k =
     (let k = debug_not_in_interrupt k
      in (RT_EOK, rt_object_delete (Ipc_obj m) (rt_ipc_list_resume_all (Suspend m) k)))"

definition mutex_take_again :: "oid \<Rightarrow> int \<Rightarrow> tid \<Rightarrow> kernel \<Rightarrow> outcome \<times> kernel" where
  "mutex_take_again m time t k =
     (if mtx_value (mutexes k m) > 0
      then (Returned RT_EOK,
            upd_mutex m (\<lambda>mu. mu\<lparr>mtx_value := mtx_value mu - 1, mtx_owner := Some t,
              mtx_original_priority := th_current_priority (threads k t),
              mtx_hold := mtx_hold mu + 1\<rparr>) k)
      else if time = 0
      then (Returned (- RT_ETIMEOUT), upd_thread t (\<lambda>th. th\<lparr>th_error := - RT_ETIMEOUT\<rparr>) k)
      else
        (case mtx_owner (mutexes k m) of
           None \<Rightarrow> (Returned (- RT_ERROR), defined_if False k)
         | Some w \<Rightarrow>
             (let k = (if th_current_priority (threads k t) < th_current_priority (threads k w)
                       then snd (rt_thread_control w
                              (CTRL_CHANGE_PRIORITY (th_current_priority (threads k t))) k)
                       else k);
                  k = rt_ipc_list_suspend (Suspend m) t (obj_flag_of m k) k;
                  k = start_wait_timer t time k
              in (Waiting t, rt_schedule k))))"

definition rt_mutex_take :: "oid \<Rightarrow> int \<Rightarrow> kernel \<Rightarrow> outcome \<times> kernel" where
  "rt_mutex_take m time k =
     (let k = debug_in_thread_context k in
      case rt_thread_self k of
        None \<Rightarrow> (Returned (- RT_ERROR), defined_if False k)
      | Some t \<Rightarrow>
          (let k = upd_thread t (\<lambda>th. th\<lparr>th_error := RT_EOK\<rparr>) k in
           if mtx_owner (mutexes k m) = Some t
           then (Returned RT_EOK, upd_mutex m (\<lambda>mu. mu\<lparr>mtx_hold := mtx_hold mu + 1\<rparr>) k)
           else mutex_take_again m time t k))"

definition rt_mutex_take_return :: "oid \<Rightarrow> int \<Rightarrow> tid \<Rightarrow> kernel \<Rightarrow> outcome \<times> kernel" where
  "rt_mutex_take_return m time t k =
     (if th_error (threads k t) \<noteq> RT_EOK
      then if th_error (threads k t) = - RT_EINTR then mutex_take_again m time t k
           else (Returned (th_error (threads k t)), k)
      else (Returned RT_EOK, k))"

definition rt_mutex_release :: "oid \<Rightarrow> kernel \<Rightarrow> int \<times> kernel" where
  "rt_mutex_release m k =
     (let k = debug_in_thread_context k in
      case rt_thread_self k of
        None \<Rightarrow> (- RT_ERROR, defined_if False k)
      | Some t \<Rightarrow>
          if Some t \<noteq> mtx_owner (mutexes k m)
          then (- RT_ERROR, upd_thread t (\<lambda>th. th\<lparr>th_error := - RT_ERROR\<rparr>) k)
          else
            (let k = upd_mutex m (\<lambda>mu. mu\<lparr>mtx_hold := mtx_hold mu - 1\<rparr>) k in
             if mtx_hold (mutexes k m) \<noteq> 0 then (RT_EOK, k)
             else
               (let k = (if mtx_original_priority (mutexes k m) \<noteq> th_current_priority (threads k t)
                         then snd (rt_thread_control t
                                (CTRL_CHANGE_PRIORITY (mtx_original_priority (mutexes k m))) k)
                         else k)
                in case lists k (Suspend m) of
                     w # _ \<Rightarrow>
                       (let k = upd_mutex m (\<lambda>mu. mu\<lparr>mtx_owner := Some w,
                              mtx_original_priority := th_current_priority (threads k w),
                              mtx_hold := mtx_hold mu + 1\<rparr>) k
                        in (RT_EOK, rt_schedule (rt_ipc_list_resume (Suspend m) k)))
                   | [] \<Rightarrow>
                       (RT_EOK, upd_mutex m (\<lambda>mu. mu\<lparr>mtx_value := mtx_value mu + 1,
                          mtx_owner := None, mtx_original_priority := 0xff\<rparr>) k))))"

definition rt_mutex_control :: "oid \<Rightarrow> int \<Rightarrow> u32 \<Rightarrow> kernel \<Rightarrow> int \<times> kernel" where
  "rt_mutex_control m cmd arg k = (- RT_ERROR, k)"

subsection \<open>The invariant\<close>

definition waiters_served :: "oid \<Rightarrow> tid \<Rightarrow> kernel \<Rightarrow> bool" where
  "waiters_served m t k \<longleftrightarrow> obj_flag_of m k = RT_IPC_FLAG_PRIO \<longrightarrow>
     prio_sorted k (lists k (Suspend m)) \<and>
     (\<forall>w \<in> set (lists k (Suspend m)). th_current_priority (threads k t) \<le> th_current_priority (threads k w))"

definition mutex_ok :: "oid \<Rightarrow> kernel \<Rightarrow> bool" where
  "mutex_ok m k \<longleftrightarrow> kernel_ok k \<and>
     (case mtx_owner (mutexes k m) of
        None \<Rightarrow> mtx_value (mutexes k m) = 1 \<and> mtx_hold (mutexes k m) = 0 \<and> lists k (Suspend m) = []
      | Some t \<Rightarrow> mtx_value (mutexes k m) = 0 \<and> mtx_hold (mutexes k m) \<noteq> 0 \<and>
          unat (mtx_original_priority (mutexes k m)) < RT_THREAD_PRIORITY_MAX \<and>
          t \<notin> set (lists k (Suspend m)) \<and> waiters_served m t k)"

lemma upd_mutex_sel [simp]:
  "threads (upd_mutex m f k) = threads k" "lists (upd_mutex m f k) = lists k"
  "prio_group (upd_mutex m f k) = prio_group k" "current (upd_mutex m f k) = current k"
  "fault (upd_mutex m f k) = fault k" "obj_hdr (upd_mutex m f k) = obj_hdr k"
  "lock_nest (upd_mutex m f k) = lock_nest k" "int_nest (upd_mutex m f k) = int_nest k"
  "mutexes (upd_mutex m f k) = (mutexes k)(m := f (mutexes k m))"
  "obj_flag_of m' (upd_mutex m f k) = obj_flag_of m' k"
  by (simp_all add: upd_mutex_def obj_flag_of_def)

lemma kernel_ok_upd_mutex [simp]: "kernel_ok (upd_mutex m f k) = kernel_ok k"
  by (rule kernel_ok_cong) simp_all

lemma obj_flag_frame [simp]:
  "obj_flag_of m (upd_thread t g k) = obj_flag_of m k" "obj_flag_of m (rt_schedule k) = obj_flag_of m k"
  "obj_flag_of m (change_priority t p k) = obj_flag_of m k"
  "obj_flag_of m (wait_state l t fl g time k) = obj_flag_of m k"
  "obj_flag_of m (rt_ipc_list_resume l k) = obj_flag_of m k"
  by (simp_all add: obj_flag_of_def)

lemma prio_sorted_cong:
  assumes "\<And>u. u \<in> set xs \<Longrightarrow> th_current_priority (threads k' u) = th_current_priority (threads k u)"
  shows "prio_sorted k' xs = prio_sorted k xs"
  using assms unfolding prio_sorted_def by (induction xs) auto

lemma waiters_served_cong:
  assumes "obj_flag_of m k' = obj_flag_of m k" "lists k' (Suspend m) = lists k (Suspend m)"
    and "th_current_priority (threads k' t) \<le> th_current_priority (threads k t)"
    and "\<And>u. u \<in> set (lists k (Suspend m)) \<Longrightarrow>
      th_current_priority (threads k' u) = th_current_priority (threads k u)"
  shows "waiters_served m t k \<Longrightarrow> waiters_served m t k'"
  using assms prio_sorted_cong [of "lists k (Suspend m)" k' k]
  by (auto simp: waiters_served_def)

lemma waiters_served_schedule [simp]: "waiters_served m t (rt_schedule k) = waiters_served m t k"
  by (simp add: waiters_served_def prio_sorted_def)

subsection \<open>Taking\<close>

lemma mutex_take_again_free:
  assumes "mtx_owner (mutexes k m) = None" "mutex_ok m k"
  shows "mutex_take_again m time t k = (Returned RT_EOK,
    upd_mutex m (\<lambda>mu. mu\<lparr>mtx_value := 0, mtx_owner := Some t,
      mtx_original_priority := th_current_priority (threads k t), mtx_hold := 1\<rparr>) k)"
  using assms by (simp add: mutex_take_again_def mutex_ok_def upd_mutex_def)

definition boost :: "tid \<Rightarrow> tid \<Rightarrow> kernel \<Rightarrow> kernel" where
  "boost w t k = (if th_current_priority (threads k t) < th_current_priority (threads k w)
     then change_priority w (th_current_priority (threads k t)) k else k)"

lemma boost_sel [simp]:
  "mutexes (boost w t k) = mutexes k" "current (boost w t k) = current k"
  "int_nest (boost w t k) = int_nest k" "lock_nest (boost w t k) = lock_nest k"
  "obj_flag_of m (boost w t k) = obj_flag_of m k"
  by (simp_all add: boost_def)

lemma boost_state:
  assumes "kernel_ok k" "stat_of (threads k t) = RT_THREAD_READY"
  shows "kernel_ok (boost w t k)" "fault (boost w t k) = fault k"
    "\<And>u. u \<noteq> w \<Longrightarrow> threads (boost w t k) u = threads k u"
    "th_current_priority (threads (boost w t k) w) =
       min (th_current_priority (threads k t)) (th_current_priority (threads k w))"
    "stat_of (threads (boost w t k) u) = stat_of (threads k u)"
    "\<And>l. wait_list l \<Longrightarrow> lists (boost w t k) l = lists k l"
  using change_priority_state [OF assms(1) running_prio [OF assms], where t = w] assms(1)
  by (cases "u = w"; simp add: boost_def min_def)+

lemma mutex_take_again_blocks:
  assumes "mtx_owner (mutexes k m) = Some w" "mtx_value (mutexes k m) = 0" "time \<noteq> 0"
  shows "mutex_take_again m time t k = (Waiting t,
    rt_schedule (wait_state (Suspend m) t (obj_flag_of m k) (\<lambda>th. th) time (boost w t k)))"
proof -
  have id: "upd_thread t (\<lambda>th. th) k' = k'" for k' by (simp add: upd_thread_def)
  have fl: "obj_flag_of m (snd (rt_thread_control w (CTRL_CHANGE_PRIORITY p) k)) = obj_flag_of m k" for p
    using obj_flag_frame(3) [of m w p k] by (simp add: change_priority_def)
  show ?thesis using assms
    by (simp add: mutex_take_again_def wait_state_def id boost_def change_priority_def Let_def fl)
qed

lemma mutex_take_unfold:
  assumes "running t k"
  shows "rt_mutex_take m time k =
    (if mtx_owner (mutexes k m) = Some t
     then (Returned RT_EOK, upd_mutex m (\<lambda>mu. mu\<lparr>mtx_hold := mtx_hold mu + 1\<rparr>) (upd_thread t clear_error k))
     else mutex_take_again m time t (upd_thread t clear_error k))"
proof -
  have "current k = Some t" using assms by (simp add: running_def)
  then show ?thesis using assms
    by (simp add: rt_mutex_take_def rt_thread_self_def upd_clear_error Let_def)
qed

lemma mutex_ok_clear_error:
  assumes "mutex_ok m k" shows "mutex_ok m (upd_thread t clear_error k)"
proof -
  have "kernel_ok (upd_thread t clear_error k)"
    using assms by (intro kernel_ok_upd_frame) (auto simp: mutex_ok_def)
  moreover have "waiters_served m w k \<Longrightarrow> waiters_served m w (upd_thread t clear_error k)" for w
    by (erule waiters_served_cong [rotated 4]) auto
  ultimately show ?thesis using assms by (auto simp: mutex_ok_def split: option.splits)
qed

lemma mutex_take_again_ok:
  fixes time :: int
  assumes ok: "mutex_ok m k" and r: "stat_of (threads k t) = RT_THREAD_READY"
    and f: "obj_flag_of m k = RT_IPC_FLAG_FIFO \<or> obj_flag_of m k = RT_IPC_FLAG_PRIO"
    and nt: "mtx_owner (mutexes k m) \<noteq> Some t" and tm: "time \<noteq> 0"
  shows "mutex_ok m (snd (mutex_take_again m time t k))"
proof (cases "mtx_owner (mutexes k m)")
  case None
  have "unat (th_current_priority (threads k t)) < RT_THREAD_PRIORITY_MAX"
    using ok r by (intro running_prio) (auto simp: mutex_ok_def)
  then show ?thesis
    using ok None by (simp add: mutex_take_again_free mutex_ok_def waiters_served_def prio_sorted_def)
next
  case (Some w)
  let ?b = "boost w t k" and ?f = "obj_flag_of m k"
  let ?w = "wait_state (Suspend m) t ?f (\<lambda>th. th) time ?b"
  have k: "kernel_ok k" and v: "mtx_value (mutexes k m) = 0" and ww: "w \<notin> set (lists k (Suspend m))"
    and ws: "waiters_served m w k" and wt: "w \<noteq> t"
    using ok Some nt by (auto simp: mutex_ok_def)
  note b = boost_state [OF k r, where w = w]
  have r': "stat_of (threads ?b t) = RT_THREAD_READY" using b(5) r by simp
  have wl: "wait_list (Suspend m)" by simp
  note st = wait_state_props [OF b(1) r' wl f refl refl refl, where time = time]
  have tw: "t \<notin> set (lists k (Suspend m))"
    using waiting_suspended [OF k _ wl, of t] r by auto
  have pr: "th_current_priority (threads ?w u) = th_current_priority (threads ?b u)" for u
    using st(3) by simp
  have li: "lists ?w (Suspend m) = (if ?f = RT_IPC_FLAG_FIFO then lists k (Suspend m) @ [t]
      else insert_where (\<lambda>s. th_current_priority (threads ?b t) < th_current_priority (threads ?b s))
        t (lists k (Suspend m)))"
    by (simp add: st(4) blocked_lists_def b(6))
  have "waiters_served m w ?w"
    unfolding waiters_served_def
  proof (intro impI conjI)
    assume "obj_flag_of m ?w = RT_IPC_FLAG_PRIO"
    then have fp: "?f = RT_IPC_FLAG_PRIO" by simp
    then have so: "prio_sorted k (lists k (Suspend m))"
      and lo: "\<forall>u \<in> set (lists k (Suspend m)). th_current_priority (threads k w) \<le> th_current_priority (threads k u)"
      using ws by (auto simp: waiters_served_def)
    have same: "th_current_priority (threads ?b u) = th_current_priority (threads k u)"
      if "u \<in> set (lists k (Suspend m))" for u
      by (metis b(3) that ww)
    have "prio_sorted ?b (lists k (Suspend m))" using so prio_sorted_cong [OF same] by simp
    then have "prio_sorted ?b (lists ?w (Suspend m))" unfolding li using fp by (simp add: prio_sorted_insert)
    then show "prio_sorted ?w (lists ?w (Suspend m))" using prio_sorted_cong [OF pr] by simp
    show "\<forall>u \<in> set (lists ?w (Suspend m)). th_current_priority (threads ?w w) \<le> th_current_priority (threads ?w u)"
    proof
      fix u assume "u \<in> set (lists ?w (Suspend m))"
      then have "u = t \<or> u \<in> set (lists k (Suspend m))" unfolding li using fp by simp
      then show "th_current_priority (threads ?w w) \<le> th_current_priority (threads ?w u)"
        unfolding pr b(4) using lo same b(3) [OF wt [symmetric]] by (auto simp: min_le_iff_disj)
    qed
  qed
  moreover have "w \<notin> set (lists ?w (Suspend m))" unfolding li using ww wt by simp
  moreover have "mutexes ?w = mutexes k" by simp
  ultimately show ?thesis
    using Some ok st(1) v unfolding mutex_take_again_blocks [OF Some v tm] mutex_ok_def by simp
qed

lemma mutex_take_ok:
  fixes time :: int
  assumes ok: "mutex_ok m k" and r: "running t k"
    and f: "obj_flag_of m k = RT_IPC_FLAG_FIFO \<or> obj_flag_of m k = RT_IPC_FLAG_PRIO"
    and h: "mtx_hold (mutexes k m) \<noteq> 0xff" and tm: "time \<noteq> 0"
  shows "mutex_ok m (snd (rt_mutex_take m time k))"
proof (cases "mtx_owner (mutexes k m) = Some t")
  case True
  let ?k = "upd_thread t clear_error k"
  have ok': "mutex_ok m ?k" using ok by (rule mutex_ok_clear_error)
  have "mtx_hold (mutexes k m) + 1 \<noteq> 0"
    using u8_unat_Suc [OF h] by (metis Suc_eq_plus1 nat.distinct(1) unat_0)
  moreover have "waiters_served m t ?k = waiters_served m t (upd_mutex m g ?k)" for g
    by (simp add: waiters_served_def prio_sorted_def)
  ultimately show ?thesis using True ok'
    by (simp add: mutex_take_unfold [OF r] mutex_ok_def)
next
  case False
  have "stat_of (threads k t) = RT_THREAD_READY" using r by (simp add: running_def)
  then show ?thesis using False mutex_take_again_ok [OF mutex_ok_clear_error [OF ok]] f tm
    by (simp add: mutex_take_unfold [OF r])
qed

lemma mutex_take_waits:
  fixes time :: int
  assumes "mutex_ok m k" "running t k" "mtx_owner (mutexes k m) = Some w" "w \<noteq> t" "time \<noteq> 0"
    and f: "obj_flag_of m k = RT_IPC_FLAG_FIFO \<or> obj_flag_of m k = RT_IPC_FLAG_PRIO"
  defines "k' \<equiv> snd (rt_mutex_take m time k)"
  shows "fst (rt_mutex_take m time k) = Waiting t" "mutexes k' = mutexes k"
    "th_current_priority (threads k' w) =
      min (th_current_priority (threads k t)) (th_current_priority (threads k w))"
    "stat_of (threads k' t) = RT_THREAD_SUSPEND" "t \<in> set (lists k' (Suspend m))"
proof -
  let ?c = "upd_thread t clear_error k" let ?b = "boost w t ?c"
  have v: "mtx_value (mutexes ?c m) = 0" "mtx_owner (mutexes ?c m) = Some w"
    using assms(1,3) by (auto simp: mutex_ok_def)
  have k: "kernel_ok ?c" using mutex_ok_clear_error [OF assms(1)] by (simp add: mutex_ok_def)
  have r: "stat_of (threads ?c t) = RT_THREAD_READY" using assms(2) by (simp add: running_def)
  note b = boost_state [OF k r, where w = w]
  have r': "stat_of (threads ?b t) = RT_THREAD_READY" using b(5) r by simp
  have wl: "wait_list (Suspend m)" by simp
  note st = wait_state_props [OF b(1) r' wl f refl refl refl, where time = time]
  have e: "rt_mutex_take m time k = mutex_take_again m time t ?c"
    using assms(3,4) by (simp add: mutex_take_unfold [OF assms(2)])
  show "fst (rt_mutex_take m time k) = Waiting t" "mutexes k' = mutexes k"
    "th_current_priority (threads k' w) =
      min (th_current_priority (threads k t)) (th_current_priority (threads k w))"
    "stat_of (threads k' t) = RT_THREAD_SUSPEND" "t \<in> set (lists k' (Suspend m))"
    unfolding k'_def e mutex_take_again_blocks [OF v(2,1) assms(5)] using st b(4) assms(4)
    by (auto simp: blocked_lists_def)
qed

subsection \<open>Releasing\<close>

lemma mutex_release_refused:
  assumes "running t k" "mtx_owner (mutexes k m) \<noteq> Some t"
  shows "rt_mutex_release m k = (- RT_ERROR, upd_thread t (\<lambda>th. th\<lparr>th_error := - RT_ERROR\<rparr>) k)"
proof -
  have "current k = Some t" using assms by (simp add: running_def)
  then show ?thesis using assms by (auto simp: rt_mutex_release_def rt_thread_self_def)
qed

definition unboost :: "oid \<Rightarrow> tid \<Rightarrow> kernel \<Rightarrow> kernel" where
  "unboost m t k = (if mtx_original_priority (mutexes k m) \<noteq> th_current_priority (threads k t)
     then change_priority t (mtx_original_priority (mutexes k m)) k else k)"

lemma unboost_sel [simp]:
  "mutexes (unboost m t k) = mutexes k" "current (unboost m t k) = current k"
  "int_nest (unboost m t k) = int_nest k" "obj_flag_of m' (unboost m t k) = obj_flag_of m' k"
  by (simp_all add: unboost_def)

lemma unboost_state:
  assumes "kernel_ok k" "unat (mtx_original_priority (mutexes k m)) < RT_THREAD_PRIORITY_MAX"
  shows "kernel_ok (unboost m t k)" "fault (unboost m t k) = fault k"
    "\<And>u. u \<noteq> t \<Longrightarrow> threads (unboost m t k) u = threads k u"
    "th_current_priority (threads (unboost m t k) t) = mtx_original_priority (mutexes k m)"
    "stat_of (threads (unboost m t k) u) = stat_of (threads k u)"
    "\<And>l. wait_list l \<Longrightarrow> lists (unboost m t k) l = lists k l"
  using change_priority_state [OF assms, where t = t] assms(1)
  by (cases "u = t"; simp add: unboost_def)+

lemma mutex_release_nested:
  assumes "running t k" "mtx_owner (mutexes k m) = Some t" "mtx_hold (mutexes k m) \<noteq> 1"
  shows "rt_mutex_release m k = (RT_EOK, upd_mutex m (\<lambda>mu. mu\<lparr>mtx_hold := mtx_hold mu - 1\<rparr>) k)"
proof -
  have "current k = Some t" using assms by (simp add: running_def)
  then show ?thesis using assms by (simp add: rt_mutex_release_def rt_thread_self_def)
qed

definition drop_hold :: "oid \<Rightarrow> kernel \<Rightarrow> kernel" where
  "drop_hold m k = upd_mutex m (\<lambda>mu. mu\<lparr>mtx_hold := 0\<rparr>) k"

lemma mutex_release_last:
  assumes "running t k" "mtx_owner (mutexes k m) = Some t" "mtx_hold (mutexes k m) = 1"
  shows "rt_mutex_release m k =
    (let k' = unboost m t (drop_hold m k) in
     case lists k' (Suspend m) of
       [] \<Rightarrow> (RT_EOK, upd_mutex m (\<lambda>mu. mu\<lparr>mtx_value := mtx_value mu + 1,
                 mtx_owner := None, mtx_original_priority := 0xff\<rparr>) k')
     | w # ws \<Rightarrow> (RT_EOK, rt_schedule (rt_ipc_list_resume (Suspend m) (upd_mutex m
          (\<lambda>mu. mu\<lparr>mtx_owner := Some w, mtx_original_priority := th_current_priority (threads k' w),
             mtx_hold := mtx_hold mu + 1\<rparr>) k'))))"
proof -
  have "current k = Some t" using assms by (simp add: running_def)
  moreover have "upd_mutex m (\<lambda>mu. mu\<lparr>mtx_hold := mtx_hold mu - 1\<rparr>) k = drop_hold m k"
    using assms(3) by (simp add: drop_hold_def upd_mutex_def)
  moreover have "mtx_hold (mutexes (drop_hold m k) m) = 0" by (simp add: drop_hold_def)
  ultimately show ?thesis using assms
    by (simp add: rt_mutex_release_def rt_thread_self_def Let_def unboost_def change_priority_def
        drop_hold_def split: list.splits)
qed

lemma drop_hold_sel [simp]:
  "threads (drop_hold m k) = threads k" "lists (drop_hold m k) = lists k"
  "kernel_ok (drop_hold m k) = kernel_ok k" "fault (drop_hold m k) = fault k"
  "obj_flag_of m' (drop_hold m k) = obj_flag_of m' k"
  "mtx_value (mutexes (drop_hold m k) m) = mtx_value (mutexes k m)"
  "mtx_owner (mutexes (drop_hold m k) m) = mtx_owner (mutexes k m)"
  "mtx_original_priority (mutexes (drop_hold m k) m) = mtx_original_priority (mutexes k m)"
  "mtx_hold (mutexes (drop_hold m k) m) = 0"
  by (simp_all add: drop_hold_def)

text \<open>The last release: the first waiter becomes the owner, or the mutex is free.\<close>

lemma mutex_release_free:
  assumes ok: "mutex_ok m k" and r: "running t k" and o: "mtx_owner (mutexes k m) = Some t"
    and h: "mtx_hold (mutexes k m) = 1" and e: "lists k (Suspend m) = []"
  defines "k' \<equiv> snd (rt_mutex_release m k)"
  shows "mutex_ok m k'" "mtx_owner (mutexes k' m) = None"
    "th_current_priority (threads k' t) = mtx_original_priority (mutexes k m)" "fault k' = fault k"
proof -
  have b: "unat (mtx_original_priority (mutexes (drop_hold m k) m)) < RT_THREAD_PRIORITY_MAX"
    and k: "kernel_ok (drop_hold m k)" and v: "mtx_value (mutexes k m) = 0"
    using ok o by (auto simp: mutex_ok_def)
  note u = unboost_state [OF k b, where t = t]
  have e': "lists (unboost m t (drop_hold m k)) (Suspend m) = []" using u(6) [of "Suspend m"] e by simp
  show "mutex_ok m k'" "mtx_owner (mutexes k' m) = None"
    "th_current_priority (threads k' t) = mtx_original_priority (mutexes k m)" "fault k' = fault k"
    using u(1,2,4) v e'
    by (simp_all add: k'_def mutex_release_last [OF r o h] Let_def mutex_ok_def)
qed

lemma mutex_release_handoff:
  assumes ok: "mutex_ok m k" and r: "running t k" and o: "mtx_owner (mutexes k m) = Some t"
    and h: "mtx_hold (mutexes k m) = 1" and w: "lists k (Suspend m) = w # ws"
  defines "k' \<equiv> snd (rt_mutex_release m k)"
  shows "mutex_ok m k'" "mtx_owner (mutexes k' m) = Some w" "mtx_hold (mutexes k' m) = 1"
    "stat_of (threads k' w) = RT_THREAD_READY" "lists k' (Suspend m) = ws"
    "th_error (threads k' w) = th_error (threads k w)"
    "th_current_priority (threads k' t) = mtx_original_priority (mutexes k m)"
proof -
  let ?d = "drop_hold m k" let ?u = "unboost m t ?d"
  let ?o = "upd_mutex m (\<lambda>mu. mu\<lparr>mtx_owner := Some w,
    mtx_original_priority := th_current_priority (threads ?u w), mtx_hold := mtx_hold mu + 1\<rparr>) ?u"
  have b: "unat (mtx_original_priority (mutexes ?d m)) < RT_THREAD_PRIORITY_MAX"
    and k: "kernel_ok ?d" and kk: "kernel_ok k" and v: "mtx_value (mutexes k m) = 0"
    and nt: "t \<notin> set (w # ws)" and sv: "waiters_served m t k"
    using ok o w by (auto simp: mutex_ok_def)
  note u = unboost_state [OF k b, where t = t]
  have lu: "lists ?u (Suspend m) = w # ws" using u(6) [of "Suspend m"] w by simp
  have ko: "kernel_ok ?o" using u(1) by simp
  have lo: "lists ?o (Suspend m) = w # ws" using lu by simp
  have wl: "wait_list (Suspend m)" by simp
  note st = ipc_list_resume_state [OF ko lo wl]
  have k': "k' = rt_schedule (rt_ipc_list_resume (Suspend m) ?o)"
    by (simp add: k'_def mutex_release_last [OF r o h] Let_def lu)
  show li: "lists k' (Suspend m) = ws" by (simp add: k' st(4))
  have th: "threads k' = (threads ?u)(w := set_stat RT_THREAD_READY (threads ?u w))"
    by (simp add: k' st(3))
  have same: "threads ?u x = threads k x" if "x \<in> set (w # ws)" for x
    using u(3) [of x] nt that by (metis drop_hold_sel(1))
  have wt: "w \<noteq> t" using nt by auto
  show "mtx_owner (mutexes k' m) = Some w" "mtx_hold (mutexes k' m) = 1" by (simp_all add: k')
  show "stat_of (threads k' w) = RT_THREAD_READY" "th_error (threads k' w) = th_error (threads k w)"
    using same by (simp_all add: th)
  show "th_current_priority (threads k' t) = mtx_original_priority (mutexes k m)"
    using u(4) wt by (simp add: th)
  have pr: "th_current_priority (threads k' x) = th_current_priority (threads k x)"
    if "x \<in> set (w # ws)" for x using same [OF that] by (cases "x = w") (simp_all add: th)
  have "waiters_served m w k'"
    unfolding waiters_served_def
  proof (intro impI conjI)
    assume "obj_flag_of m k' = RT_IPC_FLAG_PRIO"
    then have "prio_sorted k (w # ws)" using sv w by (simp add: k' waiters_served_def)
    then show "prio_sorted k' (lists k' (Suspend m))"
      "\<forall>x \<in> set (lists k' (Suspend m)). th_current_priority (threads k' w) \<le> th_current_priority (threads k' x)"
      using prio_sorted_cong [of ws k' k] pr by (auto simp: li prio_sorted_def)
  qed
  moreover have "kernel_ok k'" using st(1) by (simp add: k')
  moreover have "w \<notin> set ws" using kernel_ok_distinct [OF kk, of "Suspend m"] w by simp
  moreover have "unat (th_current_priority (threads ?u w)) < RT_THREAD_PRIORITY_MAX"
    using kinv_live_mask [OF kernel_ok_kinv [OF u(1)], of w] waiting_suspended [OF u(1) _ wl, of w] lu
    by (simp add: mask_ok_def)
  ultimately show "mutex_ok m k'" using v li by (simp add: mutex_ok_def k')
qed

lemma mutex_release_ok:
  assumes ok: "mutex_ok m k" and r: "running t k"
  shows "mutex_ok m (snd (rt_mutex_release m k))"
proof (cases "mtx_owner (mutexes k m) = Some t")
  case False
  have k: "kernel_ok (upd_thread t (\<lambda>th. th\<lparr>th_error := - RT_ERROR\<rparr>) k)"
    using ok by (intro kernel_ok_upd_frame) (auto simp: mutex_ok_def)
  have "waiters_served m w k \<Longrightarrow> waiters_served m w (upd_thread t (\<lambda>th. th\<lparr>th_error := - RT_ERROR\<rparr>) k)" for w
    by (erule waiters_served_cong [rotated 4]) auto
  then show ?thesis using ok k False r
    by (auto simp: mutex_release_refused mutex_ok_def split: option.splits)
next
  case o: True
  show ?thesis
  proof (cases "mtx_hold (mutexes k m) = 1")
    case True
    then show ?thesis
      using mutex_release_free(1) [OF ok r o True] mutex_release_handoff(1) [OF ok r o True]
      by (cases "lists k (Suspend m)") auto
  next
    case False
    have "waiters_served m t (upd_mutex m g k) = waiters_served m t k" for g
      by (simp add: waiters_served_def prio_sorted_def)
    then show ?thesis using ok o False
      by (simp add: mutex_release_nested [OF r o False] mutex_ok_def)
  qed
qed

end
