(* ===== verification/Event.thy ===== *)
theory Event
  imports Mutex
begin

text \<open>
  Event sets (\<^verbatim>\<open>src/ipc.c\<close>). A sender walks the waiters once, wakes each one whose condition
  the current set satisfies and, for a waiter with the clear option, takes its bits away
  before it looks at the next. The walk reads the next node before it resumes a thread, and
  resuming only unlinks that thread, so it visits the list as it was at the start.

  \<open>deliver\<close> is the abstract account of one send; \<open>event_ok\<close> says that no waiter's
  condition holds, i.e. that no wake-up is lost.
\<close>

subsection \<open>Operations\<close>

definition upd_event :: "oid \<Rightarrow> u32 \<Rightarrow> kernel \<Rightarrow> kernel" where
  "upd_event e v k = k\<lparr>events := (events k)(e := (events k e)\<lparr>ev_set := v\<rparr>)\<rparr>"

definition rt_event_init :: "oid \<Rightarrow> string \<Rightarrow> u8 \<Rightarrow> kernel \<Rightarrow> int \<times> kernel" where
  "rt_event_init e name flag k =
     (let k = rt_object_init (Ipc_obj e) RT_Object_Class_Event name k;
          k = set_obj_flag e flag k;
          k = rt_ipc_object_init e k
      in (RT_EOK, upd_event e 0 k))"

definition rt_event_detach :: "oid \<Rightarrow> kernel \<Rightarrow> int \<times> kernel" where
  "rt_event_detach e k =
     (RT_EOK, rt_object_detach (Ipc_obj e) (rt_ipc_list_resume_all (Suspend e) k))"

definition rt_event_create :: "oid option \<Rightarrow> string \<Rightarrow> u8 \<Rightarrow> kernel \<Rightarrow> oid option \<times> kernel" where
  "rt_event_create mem name flag k =
     (let k = debug_not_in_interrupt k;
          (r, k) = rt_object_allocate (map_option Ipc_obj mem) RT_Object_Class_Event name k
      in case (r, mem) of
           (Some _, Some e) \<Rightarrow>
             (let k = set_obj_flag e flag k;
                  k = rt_ipc_object_init e k
              in (Some e, upd_event e 0 k))
         | _ \<Rightarrow> (None, k))"

definition rt_event_delete :: "oid \<Rightarrow> kernel \<Rightarrow> int \<times> kernel" where
  "rt_event_delete e k =
     (let k = debug_not_in_interrupt k
      in (RT_EOK, rt_object_delete (Ipc_obj e) (rt_ipc_list_resume_all (Suspend e) k)))"

text \<open>The condition of a receiver with option \<open>opt\<close> for the bits \<open>want\<close>.\<close>

definition event_satisfied :: "u8 \<Rightarrow> u32 \<Rightarrow> u32 \<Rightarrow> bool" where
  "event_satisfied opt want s \<longleftrightarrow>
     (if opt AND RT_EVENT_FLAG_AND \<noteq> 0 then want AND s = want
      else if opt AND RT_EVENT_FLAG_OR \<noteq> 0 then want AND s \<noteq> 0
      else False)"

definition event_got :: "u8 \<Rightarrow> u32 \<Rightarrow> u32 \<Rightarrow> u32" where
  "event_got opt want s = (if opt AND RT_EVENT_FLAG_AND \<noteq> 0 then want else want AND s)"

fun event_send_loop :: "oid \<Rightarrow> tid list \<Rightarrow> bool \<Rightarrow> kernel \<Rightarrow> bool \<times> kernel" where
  "event_send_loop e [] need_schedule k = (need_schedule, k)"
| "event_send_loop e (t # ts) need_schedule k =
     (let opt = th_event_info (threads k t); s = ev_set (events k e) in
      if event_satisfied opt (th_event_set (threads k t)) s
      then
        (let k = upd_thread t (\<lambda>th. th\<lparr>th_event_set := event_got opt (th_event_set th) s\<rparr>) k;
             k = (if opt AND RT_EVENT_FLAG_CLEAR \<noteq> 0
                  then upd_event e (ev_set (events k e) AND NOT (th_event_set (threads k t))) k
                  else k)
         in event_send_loop e ts True (snd (rt_thread_resume t k)))
      else event_send_loop e ts need_schedule k)"

definition rt_event_send :: "oid \<Rightarrow> u32 \<Rightarrow> kernel \<Rightarrow> int \<times> kernel" where
  "rt_event_send e s k =
     (if s = 0 then (- RT_ERROR, k)
      else
        (let k = upd_event e (ev_set (events k e) OR s) k;
             (need_schedule, k) = event_send_loop e (lists k (Suspend e)) False k
         in (RT_EOK, if need_schedule then rt_schedule k else k)))"

definition rt_event_recv ::
    "oid \<Rightarrow> u32 \<Rightarrow> u8 \<Rightarrow> int \<Rightarrow> kernel \<Rightarrow> outcome \<times> u32 option \<times> kernel" where
  "rt_event_recv e want opt timeout k =
     (let k = debug_in_thread_context k in
      if want = 0 then (Returned (- RT_ERROR), None, k)
      else
        (case rt_thread_self k of
           None \<Rightarrow> (Returned (- RT_ERROR), None, defined_if False k)
         | Some t \<Rightarrow>
             (let k = upd_thread t (\<lambda>th. th\<lparr>th_error := RT_EOK\<rparr>) k;
                  k = rt_assert (opt AND RT_EVENT_FLAG_AND \<noteq> 0 \<or> opt AND RT_EVENT_FLAG_OR \<noteq> 0) k;
                  s = ev_set (events k e) in
              if event_satisfied opt want s
              then (Returned (th_error (threads k t)), Some (s AND want),
                    if opt AND RT_EVENT_FLAG_CLEAR \<noteq> 0 then upd_event e (s AND NOT want) k else k)
              else if timeout = 0
              then (Returned (- RT_ETIMEOUT), None,
                    upd_thread t (\<lambda>th. th\<lparr>th_error := - RT_ETIMEOUT\<rparr>) k)
              else
                (let k = upd_thread t (\<lambda>th. th\<lparr>th_event_set := want, th_event_info := opt\<rparr>) k;
                     k = rt_ipc_list_suspend (Suspend e) t (obj_flag_of e k) k;
                     k = start_wait_timer t timeout k
                 in (Waiting t, None, rt_schedule k)))))"

definition rt_event_recv_return :: "tid \<Rightarrow> kernel \<Rightarrow> int \<times> u32 option" where
  "rt_event_recv_return t k =
     (if th_error (threads k t) \<noteq> RT_EOK then (th_error (threads k t), None)
      else (th_error (threads k t), Some (th_event_set (threads k t))))"

definition rt_event_control :: "oid \<Rightarrow> int \<Rightarrow> u32 \<Rightarrow> kernel \<Rightarrow> int \<times> kernel" where
  "rt_event_control e cmd arg k =
     (if cmd = RT_IPC_CMD_RESET
      then (let k = rt_ipc_list_resume_all (Suspend e) k
            in (RT_EOK, rt_schedule (upd_event e 0 k)))
      else (- RT_ERROR, k))"

subsection \<open>One send, abstractly\<close>

text \<open>
  \<open>deliver T s ts\<close>: the set after the walk, the threads it wakes with the bits each one
  receives, and those that go on waiting.
\<close>

fun deliver :: "(tid \<Rightarrow> rt_thread) \<Rightarrow> u32 \<Rightarrow> tid list \<Rightarrow> u32 \<times> (tid \<times> u32) list \<times> tid list" where
  "deliver T s [] = (s, [], [])"
| "deliver T s (t # ts) =
     (let opt = th_event_info (T t); want = th_event_set (T t) in
      if event_satisfied opt want s
      then let got = event_got opt want s;
               (s', ws, rs) = deliver T (if opt AND RT_EVENT_FLAG_CLEAR \<noteq> 0 then s AND NOT got else s) ts
           in (s', (t, got) # ws, rs)
      else let (s', ws, rs) = deliver T s ts in (s', ws, t # rs))"

lemma deliver_cong:
  "(\<And>t. t \<in> set ts \<Longrightarrow> th_event_info (T' t) = th_event_info (T t) \<and> th_event_set (T' t) = th_event_set (T t)) \<Longrightarrow>
     deliver T' s ts = deliver T s ts"
  by (induction ts arbitrary: s) (simp_all add: Let_def)

definition next_set :: "rt_thread \<Rightarrow> u32 \<Rightarrow> u32" where
  "next_set th s = (if th_event_info th AND RT_EVENT_FLAG_CLEAR \<noteq> 0
     then s AND NOT (event_got (th_event_info th) (th_event_set th) s) else s)"

definition satisfied :: "rt_thread \<Rightarrow> u32 \<Rightarrow> bool" where
  "satisfied th s \<longleftrightarrow> event_satisfied (th_event_info th) (th_event_set th) s"

lemma deliver_Cons:
  "satisfied (T t) s \<Longrightarrow> deliver T s (t # ts) =
     (let (s', ws, rs) = deliver T (next_set (T t) s) ts
      in (s', (t, event_got (th_event_info (T t)) (th_event_set (T t)) s) # ws, rs))"
  "\<not> satisfied (T t) s \<Longrightarrow> deliver T s (t # ts) =
     (let (s', ws, rs) = deliver T s ts in (s', ws, t # rs))"
  by (simp_all add: satisfied_def next_set_def Let_def)

declare deliver.simps(2) [simp del]

text \<open>The bits of one set are among those of another.\<close>

definition bits_le :: "u32 \<Rightarrow> u32 \<Rightarrow> bool" where
  "bits_le a b \<longleftrightarrow> (\<forall>n. bit a n \<longrightarrow> bit b n)"

lemma bits_le_refl [simp]: "bits_le a a" by (simp add: bits_le_def)

lemma bits_le_trans: "bits_le a b \<Longrightarrow> bits_le b c \<Longrightarrow> bits_le a c"
  by (auto simp: bits_le_def)

lemma next_set_le: "bits_le (next_set th s) s"
  by (auto simp: bits_le_def next_set_def bit_simps)

lemma deliver_set_le: "deliver T s ts = (s', ws, rs) \<Longrightarrow> bits_le s' s"
proof (induction ts arbitrary: s s' ws rs)
  case (Cons t ts)
  show ?case
  proof (cases "satisfied (T t) s")
    case True
    then obtain ws' where "deliver T (next_set (T t) s) ts = (s', ws', rs)"
      using Cons.prems by (auto simp: deliver_Cons Let_def split: prod.splits)
    then show ?thesis using Cons.IH next_set_le bits_le_trans by blast
  next
    case False
    then obtain rs' where "deliver T s ts = (s', ws, rs')"
      using Cons.prems by (auto simp: deliver_Cons Let_def split: prod.splits)
    then show ?thesis using Cons.IH by blast
  qed
qed simp

lemma event_satisfied_mono:
  assumes "event_satisfied opt want s'" "bits_le s' s"
  shows "event_satisfied opt want s"
proof -
  have "want AND s' = want \<Longrightarrow> want AND s = want"
    using assms(2) by (auto simp: bits_le_def bit_eq_iff bit_simps)
  moreover have "want AND s' \<noteq> 0 \<Longrightarrow> want AND s \<noteq> 0"
    using assms(2) by (auto simp: bits_le_def word_eq_0_bits bit_simps)
  ultimately show ?thesis using assms(1) by (auto simp: event_satisfied_def split: if_splits)
qed

text \<open>Whoever still waits is not satisfied by what is left of the set.\<close>

lemma deliver_rest:
  "deliver T s ts = (s', ws, rs) \<Longrightarrow> t \<in> set rs \<Longrightarrow> \<not> satisfied (T t) s'"
proof (induction ts arbitrary: s s' ws rs)
  case (Cons u ts)
  show ?case
  proof (cases "satisfied (T u) s")
    case True
    then obtain ws' where "deliver T (next_set (T u) s) ts = (s', ws', rs)"
      using Cons.prems(1) by (auto simp: deliver_Cons Let_def split: prod.splits)
    then show ?thesis using Cons.IH Cons.prems(2) by blast
  next
    case False
    then obtain rs' where d: "deliver T s ts = (s', ws, rs')" and rs: "rs = u # rs'"
      using Cons.prems(1) by (auto simp: deliver_Cons Let_def split: prod.splits)
    have "bits_le s' s" using deliver_set_le [OF d] .
    then have "\<not> satisfied (T u) s'" using False event_satisfied_mono by (auto simp: satisfied_def)
    then show ?thesis using Cons.prems(2) rs Cons.IH [OF d] by auto
  qed
qed simp

lemma deliver_split:
  "deliver T s ts = (s', ws, rs) \<Longrightarrow> set (map fst ws) \<union> set rs = set ts \<and> length ws + length rs = length ts"
proof (induction ts arbitrary: s s' ws rs)
  case (Cons u ts)
  show ?case
  proof (cases "satisfied (T u) s")
    case True
    then obtain ws' g where "deliver T (next_set (T u) s) ts = (s', ws', rs)" "ws = (u, g) # ws'"
      using Cons.prems by (auto simp: deliver_Cons Let_def split: prod.splits)
    then show ?thesis using Cons.IH by auto
  next
    case False
    then obtain rs' where "deliver T s ts = (s', ws, rs')" "rs = u # rs'"
      using Cons.prems by (auto simp: deliver_Cons Let_def split: prod.splits)
    then show ?thesis using Cons.IH by auto
  qed
qed simp

lemma deliver_filter:
  "deliver T s ts = (s', ws, rs) \<Longrightarrow> distinct ts \<Longrightarrow> rs = filter (\<lambda>t. t \<notin> fst ` set ws) ts"
proof (induction ts arbitrary: s s' ws rs)
  case (Cons u ts)
  show ?case
  proof (cases "satisfied (T u) s")
    case True
    then obtain ws' g where d: "deliver T (next_set (T u) s) ts = (s', ws', rs)" and w: "ws = (u, g) # ws'"
      using Cons.prems by (auto simp: deliver_Cons Let_def split: prod.splits)
    have "rs = filter (\<lambda>t. t \<notin> fst ` set ws') ts" using Cons.IH [OF d] Cons.prems(2) by simp
    then show ?thesis using w Cons.prems(2) by (auto intro!: filter_cong)
  next
    case False
    then obtain rs' where d: "deliver T s ts = (s', ws, rs')" and r: "rs = u # rs'"
      using Cons.prems by (auto simp: deliver_Cons Let_def split: prod.splits)
    have "u \<notin> fst ` set ws" using deliver_split [OF d] Cons.prems(2) by auto
    then show ?thesis using Cons.IH [OF d] Cons.prems(2) r by simp
  qed
qed simp

subsection \<open>The walk implements it\<close>

lemma event_eq: "(r :: rt_event)\<lparr>ev_set := v\<rparr> = \<lparr>ev_set = v\<rparr>"
  by (cases r) simp

lemma upd_event_sel [simp]:
  "threads (upd_event e v k) = threads k" "lists (upd_event e v k) = lists k"
  "prio_group (upd_event e v k) = prio_group k" "current (upd_event e v k) = current k"
  "fault (upd_event e v k) = fault k" "obj_hdr (upd_event e v k) = obj_hdr k"
  "lock_nest (upd_event e v k) = lock_nest k" "int_nest (upd_event e v k) = int_nest k"
  "events (upd_event e v k) = (events k)(e := \<lparr>ev_set = v\<rparr>)"
  "kernel_ok (upd_event e v k) = kernel_ok k"
  by (simp_all add: upd_event_def kernel_ok_def kinv_def event_eq)

definition delivered :: "rt_thread \<Rightarrow> u32 \<Rightarrow> rt_thread" where
  "delivered th g = set_stat RT_THREAD_READY (th\<lparr>th_event_set := g\<rparr>)"

definition event_wake :: "oid \<Rightarrow> tid \<Rightarrow> kernel \<Rightarrow> kernel" where
  "event_wake e t k = snd (rt_thread_resume t
     (upd_event e (next_set (threads k t) (ev_set (events k e)))
       (upd_thread t (\<lambda>th. th\<lparr>th_event_set :=
          event_got (th_event_info th) (th_event_set th) (ev_set (events k e))\<rparr>) k)))"

lemma event_send_loop_Cons:
  "event_send_loop e (t # ts) b k =
     (if satisfied (threads k t) (ev_set (events k e))
      then event_send_loop e ts True (event_wake e t k) else event_send_loop e ts b k)"
proof -
  have id: "upd_event e (ev_set (events k e)) k' = k'" if "events k' = events k" for k'
    using that by (simp add: upd_event_def fun_upd_idem)
  show ?thesis
    by (simp add: satisfied_def event_wake_def next_set_def Let_def id upd_thread_def)
qed

lemma event_wake_state:
  assumes ok: "kernel_ok k" and t: "t \<in> set (lists k (Suspend e))"
  defines "k' \<equiv> event_wake e t k"
  shows "kernel_ok k'" "fault k' = fault k"
    "events k' = (events k)(e := \<lparr>ev_set = next_set (threads k t) (ev_set (events k e))\<rparr>)"
    "threads k' = (threads k)(t := delivered (threads k t)
       (event_got (th_event_info (threads k t)) (th_event_set (threads k t)) (ev_set (events k e))))"
    "\<And>l. wait_list l \<Longrightarrow> lists k' l = removeAll t (lists k l)" "current k' = current k"
proof -
  let ?u = "upd_event e (next_set (threads k t) (ev_set (events k e)))
       (upd_thread t (\<lambda>th. th\<lparr>th_event_set :=
          event_got (th_event_info th) (th_event_set th) (ev_set (events k e))\<rparr>) k)"
  have u: "kernel_ok ?u" using kernel_ok_upd_frame [OF ok] by simp
  have "stat_of (threads k t) = RT_THREAD_SUSPEND" using waiting_suspended [OF ok t] by simp
  then have su: "stat_of (threads ?u t) = RT_THREAD_SUSPEND" by simp
  note st = rt_thread_resume_state [OF su]
  show "kernel_ok k'" "fault k' = fault k" "current k' = current k"
    using u by (simp_all add: k'_def event_wake_def)
  show "events k' = (events k)(e := \<lparr>ev_set = next_set (threads k t) (ev_set (events k e))\<rparr>)"
    by (simp add: k'_def event_wake_def)
  show "threads k' = (threads k)(t := delivered (threads k t)
       (event_got (th_event_info (threads k t)) (th_event_set (threads k t)) (ev_set (events k e))))"
    unfolding k'_def event_wake_def st by (simp add: delivered_def)
  show "lists k' l = removeAll t (lists k l)" if "wait_list l" for l
    unfolding k'_def event_wake_def st using that by (cases l) auto
qed

lemma event_send_loop_deliver:
  fixes b :: bool
  assumes "kernel_ok k" "distinct ts" "set ts \<subseteq> set (lists k (Suspend e))"
    and "deliver (threads k) (ev_set (events k e)) ts = (s', ws, rs)"
  defines "r \<equiv> event_send_loop e ts b k"
  shows "kernel_ok (snd r) \<and> fault (snd r) = fault k \<and> current (snd r) = current k \<and>
    fst r = (b \<or> ws \<noteq> []) \<and>
    (\<forall>x. events (snd r) x = (if x = e then \<lparr>ev_set = s'\<rparr> else events k x)) \<and>
    lists (snd r) (Suspend e) = filter (\<lambda>t. t \<notin> fst ` set ws) (lists k (Suspend e)) \<and>
    threads (snd r) = (\<lambda>t. case map_of ws t of None \<Rightarrow> threads k t | Some g \<Rightarrow> delivered (threads k t) g)"
  using assms(1-4) unfolding r_def
proof (induction ts arbitrary: b k ws rs s')
  case Nil
  then show ?case by (cases "events k e") simp
next
  case (Cons t ts)
  let ?s = "ev_set (events k e)" and ?th = "threads k t"
  show ?case
  proof (cases "satisfied ?th ?s")
    case False
    then obtain rs' where "deliver (threads k) ?s ts = (s', ws, rs')"
      using Cons.prems(4) by (auto simp: deliver_Cons Let_def split: prod.splits)
    then show ?thesis
      using Cons.IH [of k s' ws rs' b] Cons.prems False by (simp add: event_send_loop_Cons del: event_send_loop.simps)
  next
    case True
    let ?k = "event_wake e t k"
    let ?g = "event_got (th_event_info ?th) (th_event_set ?th) ?s"
    obtain ws' where d: "deliver (threads k) (next_set ?th ?s) ts = (s', ws', rs)" and ws: "ws = (t, ?g) # ws'"
      using Cons.prems(4) True by (auto simp: deliver_Cons Let_def split: prod.splits)
    have t: "t \<in> set (lists k (Suspend e))" using Cons.prems(3) by simp
    note st = event_wake_state [OF Cons.prems(1) t]
    have del: "deliver (threads ?k) (ev_set (events ?k e)) ts = (s', ws', rs)"
      using d Cons.prems(2) by (subst deliver_cong [where T = "threads k"]) (auto simp: st(3,4))
    have sub: "set ts \<subseteq> set (lists ?k (Suspend e))" using Cons.prems(2,3) st(5) by auto
    have dts: "distinct ts" using Cons.prems(2) by simp
    note ih = Cons.IH [OF st(1) dts sub del, where b = True]
    have nw: "map_of ws' t = None"
      using deliver_split [OF d] Cons.prems(2) by (auto simp: map_of_eq_None_iff)
    have "(\<lambda>u. case map_of ws' u of None \<Rightarrow> threads ?k u | Some g \<Rightarrow> delivered (threads ?k u) g) =
      (\<lambda>u. case map_of ws u of None \<Rightarrow> threads k u | Some g \<Rightarrow> delivered (threads k u) g)"
      using nw by (auto simp: st(4) ws fun_eq_iff split: option.splits)
    moreover have "filter (\<lambda>t. t \<notin> fst ` set ws') (lists ?k (Suspend e)) =
      filter (\<lambda>t. t \<notin> fst ` set ws) (lists k (Suspend e))"
      by (auto simp: st(5) ws removeAll_filter_not_eq intro!: filter_cong)
    ultimately show ?thesis
      using ih st(2,3,6) True ws by (simp add: event_send_loop_Cons del: event_send_loop.simps)
  qed
qed

subsection \<open>Sending and receiving\<close>

lemma rt_event_send_deliver:
  assumes ok: "kernel_ok k" and nz: "s \<noteq> 0"
    and d: "deliver (threads k) (ev_set (events k e) OR s) (lists k (Suspend e)) = (s', ws, rs)"
  defines "k' \<equiv> snd (rt_event_send e s k)"
  shows "fst (rt_event_send e s k) = RT_EOK" "kernel_ok k'" "ev_set (events k' e) = s'"
    "lists k' (Suspend e) = rs"
    "threads k' = (\<lambda>t. case map_of ws t of None \<Rightarrow> threads k t | Some g \<Rightarrow> delivered (threads k t) g)"
    "ws = [] \<Longrightarrow> current k' = current k"
proof -
  let ?k = "upd_event e (ev_set (events k e) OR s) k"
  let ?r = "event_send_loop e (lists k (Suspend e)) False ?k"
  have ok': "kernel_ok ?k" using ok by simp
  have ds: "distinct (lists k (Suspend e))" using kernel_ok_distinct [OF ok] .
  have sub: "set (lists k (Suspend e)) \<subseteq> set (lists ?k (Suspend e))" by simp
  have d': "deliver (threads ?k) (ev_set (events ?k e)) (lists k (Suspend e)) = (s', ws, rs)"
    using d by simp
  note st = event_send_loop_deliver [OF ok' ds sub d', where b = False, unfolded upd_event_sel]
  have k': "rt_event_send e s k = (RT_EOK, if fst ?r then rt_schedule (snd ?r) else snd ?r)"
    using nz by (simp add: rt_event_send_def Let_def case_prod_beta)
  show "fst (rt_event_send e s k) = RT_EOK" "kernel_ok k'" "ev_set (events k' e) = s'"
    "threads k' = (\<lambda>t. case map_of ws t of None \<Rightarrow> threads k t | Some g \<Rightarrow> delivered (threads k t) g)"
    "ws = [] \<Longrightarrow> current k' = current k"
    using st by (simp_all add: k'_def k')
  show "lists k' (Suspend e) = rs"
    using st deliver_filter [OF d ds] by (simp add: k'_def k')
qed

definition event_ok :: "oid \<Rightarrow> kernel \<Rightarrow> bool" where
  "event_ok e k \<longleftrightarrow> kernel_ok k \<and>
     (\<forall>t \<in> set (lists k (Suspend e)). \<not> satisfied (threads k t) (ev_set (events k e)))"

lemma rt_event_send_ok:
  assumes ok: "kernel_ok k" and nz: "s \<noteq> 0"
  shows "event_ok e (snd (rt_event_send e s k))"
proof -
  obtain s' ws rs where d:
    "deliver (threads k) (ev_set (events k e) OR s) (lists k (Suspend e)) = (s', ws, rs)"
    by (metis prod_cases3)
  note st = rt_event_send_deliver [OF ok nz d]
  have "threads (snd (rt_event_send e s k)) t = threads k t" if "t \<in> set rs" for t
  proof -
    have "t \<notin> fst ` set ws"
      using that deliver_filter [OF d kernel_ok_distinct [OF ok]] by auto
    then show ?thesis by (simp add: st(5) map_of_eq_None_iff [THEN iffD2])
  qed
  then show ?thesis
    using st(2,3,4) deliver_rest [OF d] by (simp add: event_ok_def)
qed

definition event_wish :: "u32 \<Rightarrow> u8 \<Rightarrow> rt_thread \<Rightarrow> rt_thread" where
  "event_wish want opt th = th\<lparr>th_error := RT_EOK, th_event_set := want, th_event_info := opt\<rparr>"

lemma event_wish_sel [simp]:
  "th_stat (event_wish w op th) = th_stat th"
  "th_current_priority (event_wish w op th) = th_current_priority th"
  "th_number_mask (event_wish w op th) = th_number_mask th"
  "th_event_set (event_wish w op th) = w" "th_event_info (event_wish w op th) = op"
  by (simp_all add: event_wish_def)

lemma rt_event_recv_unfold:
  fixes e :: oid
  assumes "running t k" "want \<noteq> 0" "opt AND RT_EVENT_FLAG_AND \<noteq> 0 \<or> opt AND RT_EVENT_FLAG_OR \<noteq> 0"
  defines "s \<equiv> ev_set (events k e)" and "c \<equiv> upd_thread t clear_error k"
  shows "rt_event_recv e want opt timeout k =
    (if event_satisfied opt want s
     then (Returned RT_EOK, Some (s AND want),
           if opt AND RT_EVENT_FLAG_CLEAR \<noteq> 0 then upd_event e (s AND NOT want) c else c)
     else if timeout = 0
     then (Returned (- RT_ETIMEOUT), None, upd_thread t (\<lambda>th. th\<lparr>th_error := - RT_ETIMEOUT\<rparr>) c)
     else (Waiting t, None,
       rt_schedule (wait_state (Suspend e) t (obj_flag_of e k) (event_wish want opt) timeout k)))"
proof -
  have "current k = Some t" using assms(1) by (simp add: running_def)
  moreover have "rt_assert (opt AND 1 \<noteq> 0 \<or> opt AND 2 \<noteq> 0) k' = k'" for k'
    using assms(3) by simp
  moreover have "upd_thread t (\<lambda>th. th\<lparr>th_event_set := want, th_event_info := opt\<rparr>) c =
      upd_thread t (event_wish want opt) k"
    by (simp add: c_def clear_error_def event_wish_def upd_thread_def)
  ultimately show ?thesis using assms(1,2)
    by (simp add: rt_event_recv_def rt_thread_self_def upd_clear_error Let_def wait_state_def s_def
        flip: c_def) (simp add: c_def)
qed

lemma rt_event_recv_ok:
  fixes timeout :: int
  assumes ok: "event_ok e k" and r: "running t k" and nz: "want \<noteq> 0"
    and opt: "opt AND RT_EVENT_FLAG_AND \<noteq> 0 \<or> opt AND RT_EVENT_FLAG_OR \<noteq> 0"
    and f: "obj_flag_of e k = RT_IPC_FLAG_FIFO \<or> obj_flag_of e k = RT_IPC_FLAG_PRIO"
  shows "event_ok e (snd (snd (rt_event_recv e want opt timeout k)))"
proof -
  let ?s = "ev_set (events k e)" and ?c = "upd_thread t clear_error k"
  have k: "kernel_ok k" and un: "\<And>u. u \<in> set (lists k (Suspend e)) \<Longrightarrow> \<not> satisfied (threads k u) ?s"
    using ok by (auto simp: event_ok_def)
  have rt: "stat_of (threads k t) = RT_THREAD_READY" using r by (simp add: running_def)
  have nt: "t \<notin> set (lists k (Suspend e))" using waiting_suspended [OF k, of t "Suspend e"] rt by auto
  have c: "kernel_ok ?c" using k by (rule kernel_ok_upd_frame) simp_all
  have thc: "threads ?c u = threads k u" if "u \<in> set (lists k (Suspend e))" for u
    using that nt by auto
  consider (got) "event_satisfied opt want ?s" | (zero) "\<not> event_satisfied opt want ?s" "timeout = 0"
    | (blk) "\<not> event_satisfied opt want ?s" "timeout \<noteq> 0" by blast
  then show ?thesis
  proof cases
    case got
    have "\<not> satisfied (threads k u) (?s AND NOT want)" if "u \<in> set (lists k (Suspend e))" for u
      using un [OF that] event_satisfied_mono [of _ _ "?s AND NOT want" ?s]
      by (auto simp: satisfied_def bits_le_def bit_simps)
    then show ?thesis
      using got c un thc by (simp add: rt_event_recv_unfold [OF r nz opt] event_ok_def)
  next
    case zero
    have "kernel_ok (upd_thread t (\<lambda>th. th\<lparr>th_error := - RT_ETIMEOUT\<rparr>) ?c)"
      using c by (rule kernel_ok_upd_frame) simp_all
    then show ?thesis
      using zero un nt by (auto simp: rt_event_recv_unfold [OF r nz opt] event_ok_def)
  next
    case blk
    let ?w = "wait_state (Suspend e) t (obj_flag_of e k) (event_wish want opt) timeout k"
    have wl: "wait_list (Suspend e)" by simp
    note st = wait_state_props [OF k rt wl f event_wish_sel(1-3), where time = timeout]
    have "set (lists ?w (Suspend e)) = insert t (set (lists k (Suspend e)))"
      by (simp add: st(4) blocked_lists_def)
    moreover have "\<not> satisfied (threads ?w u) ?s" if "u \<in> insert t (set (lists k (Suspend e)))" for u
      using that un blk(1) by (auto simp: st(3) satisfied_def)
    ultimately show ?thesis
      using blk st(1) by (simp add: rt_event_recv_unfold [OF r nz opt] event_ok_def)
  qed
qed

end
