(* ===== verification/Fifo.thy ===== *)
theory Fifo
  imports Rt_Prelude
begin

text \<open>
  The contract of a bounded first-in first-out store, which mailboxes, message queues and ring
  buffers provide: \<open>put\<close> on a store that is not full appends, \<open>get\<close> on one that is not empty
  takes the front. Clients are proved against the contract once; each provider's theory
  interprets it on the code's own operations.

  The second part is the arithmetic of a circular array, shared by the mailbox and the ring
  buffer.
\<close>

datatype 'a fifo_op = Put 'a | Get

locale bounded_fifo =
  fixes wf :: "'s \<Rightarrow> bool" and items :: "'s \<Rightarrow> 'a list" and cap :: "'s \<Rightarrow> nat"
    and fits :: "'s \<Rightarrow> 'a \<Rightarrow> bool" and put :: "'a \<Rightarrow> 's \<Rightarrow> 's" and get :: "'s \<Rightarrow> 'a \<times> 's"
  assumes bounded: "wf s \<Longrightarrow> length (items s) \<le> cap s"
    and put_wf: "wf s \<Longrightarrow> fits s a \<Longrightarrow> length (items s) < cap s \<Longrightarrow> wf (put a s)"
    and put_items: "wf s \<Longrightarrow> fits s a \<Longrightarrow> length (items s) < cap s \<Longrightarrow> items (put a s) = items s @ [a]"
    and put_cap: "wf s \<Longrightarrow> fits s a \<Longrightarrow> length (items s) < cap s \<Longrightarrow>
      cap (put a s) = cap s \<and> fits (put a s) = fits s"
    and get_wf: "wf s \<Longrightarrow> items s \<noteq> [] \<Longrightarrow> wf (snd (get s))"
    and get_items: "wf s \<Longrightarrow> items s \<noteq> [] \<Longrightarrow> fst (get s) # items (snd (get s)) = items s"
    and get_cap: "wf s \<Longrightarrow> items s \<noteq> [] \<Longrightarrow> cap (snd (get s)) = cap s \<and> fits (snd (get s)) = fits s"
begin

text \<open>
  A run of calls: a \<open>put\<close> on a full store and a \<open>get\<close> on an empty one are refused. The result
  lists what was accepted and what came out.
\<close>

fun run :: "'a fifo_op list \<Rightarrow> 's \<Rightarrow> 'a list \<times> 'a list \<times> 's" where
  "run [] s = ([], [], s)"
| "run (Put a # ops) s =
     (if length (items s) < cap s
      then let (i, out, s') = run ops (put a s) in (a # i, out, s')
      else run ops s)"
| "run (Get # ops) s =
     (if items s \<noteq> []
      then let (i, out, s') = run ops (snd (get s)) in (i, fst (get s) # out, s')
      else run ops s)"

lemma run_fifo:
  "wf s \<Longrightarrow> (\<And>a. Put a \<in> set ops \<Longrightarrow> fits s a) \<Longrightarrow> run ops s = (i, out, s') \<Longrightarrow>
     wf s' \<and> out @ items s' = items s @ i \<and> cap s' = cap s"
proof (induction ops s arbitrary: i out s' rule: run.induct)
  case (2 a ops s)
  show ?case
  proof (cases "length (items s) < cap s")
    case True
    have fa: "fits s a" using 2(4) by simp
    obtain i' where r: "run ops (put a s) = (i', out, s')" and i: "i = a # i'"
      using 2(5) True by (auto split: prod.splits)
    have "\<And>b. Put b \<in> set ops \<Longrightarrow> fits (put a s) b"
      using 2(4) put_cap [OF 2(3) fa True] by simp
    from 2(1) [OF True put_wf [OF 2(3) fa True] this r] show ?thesis
      using put_items [OF 2(3) fa True] put_cap [OF 2(3) fa True] i by simp
  next
    case False
    then show ?thesis using 2(2) [OF False 2(3)] 2(4,5) by simp
  qed
next
  case (3 ops s)
  show ?case
  proof (cases "items s = []")
    case True
    then show ?thesis using 3(2) 3(3,4,5) by simp
  next
    case False
    obtain out' where r: "run ops (snd (get s)) = (i, out', s')" and out: "out = fst (get s) # out'"
      using 3(5) False by (auto split: prod.splits)
    have "\<And>b. Put b \<in> set ops \<Longrightarrow> fits (snd (get s)) b"
      using 3(4) get_cap [OF 3(3) False] by simp
    from 3(1) [OF False get_wf [OF 3(3) False] this r] show ?thesis
      using get_items [OF 3(3) False] get_cap [OF 3(3) False] out by (metis Cons_eq_appendI)
  qed
qed simp

text \<open>Everything that was put comes out in order when the store is drained.\<close>

lemma run_prefix:
  "wf s \<Longrightarrow> (\<And>a. Put a \<in> set ops \<Longrightarrow> fits s a) \<Longrightarrow> run ops s = (i, out, s') \<Longrightarrow>
     out = take (length out) (items s @ i)"
  using run_fifo [of s ops i out s'] by (metis append_eq_conv_conj)

lemma run_bounded:
  "wf s \<Longrightarrow> (\<And>a. Put a \<in> set ops \<Longrightarrow> fits s a) \<Longrightarrow> run ops s = (i, out, s') \<Longrightarrow>
     length (items s') \<le> cap s"
  using run_fifo [of s ops i out s'] bounded [of s'] by simp

end

subsection \<open>Circular arrays\<close>

text \<open>The \<open>n\<close> entries of \<open>xs\<close> from index \<open>r\<close> on, wrapping around at its end.\<close>

definition circ :: "'a list \<Rightarrow> nat \<Rightarrow> nat \<Rightarrow> 'a list" where
  "circ xs r n = map (\<lambda>i. xs ! ((r + i) mod length xs)) [0..<n]"

lemma length_circ [simp]: "length (circ xs r n) = n"
  by (simp add: circ_def)

lemma circ_0 [simp]: "circ xs r 0 = []"
  by (simp add: circ_def)

lemma circ_Suc: "circ xs r (Suc n) = xs ! (r mod length xs) # circ xs ((r + 1) mod length xs) n"
proof (rule nth_equalityI)
  fix i assume "i < length (circ xs r (Suc n))"
  then show "circ xs r (Suc n) ! i = (xs ! (r mod length xs) # circ xs ((r + 1) mod length xs) n) ! i"
    by (cases i) (simp_all add: circ_def mod_add_left_eq del: upt_Suc)
qed simp

lemma mod_add_inj:
  assumes "i < n" "j < n" "(r + i) mod n = (r + j) mod (n :: nat)"
  shows "i = j"
proof -
  have "i = j" if "i \<le> j" "j < n" "(r + j) mod n = (r + i) mod n" for i j
  proof -
    have "n dvd (r + j) - (r + i)" using that by (simp add: mod_eq_dvd_iff_nat)
    then show ?thesis using that by (auto dest: dvd_imp_le)
  qed
  then show ?thesis using assms by (metis nat_le_linear)
qed

lemma circ_snoc:
  assumes "n < length xs"
  shows "circ (xs[(r + n) mod length xs := v]) r (Suc n) = circ xs r n @ [v]"
proof (rule nth_equalityI)
  fix i assume i: "i < length (circ (xs[(r + n) mod length xs := v]) r (Suc n))"
  show "circ (xs[(r + n) mod length xs := v]) r (Suc n) ! i = (circ xs r n @ [v]) ! i"
  proof (cases "i = n")
    case True
    have "(r + n) mod length xs < length xs" using assms by (intro mod_less_divisor) auto
    then show ?thesis using assms True by (simp add: circ_def nth_append del: upt_Suc)
  next
    case False
    then have "(r + i) mod length xs \<noteq> (r + n) mod length xs"
      using i assms mod_add_inj [of i "length xs" n r] by auto
    then show ?thesis using i False by (simp add: circ_def nth_append del: upt_Suc)
  qed
qed simp

lemma circ_upd_outside:
  assumes "n \<le> length xs" "\<And>i. i < n \<Longrightarrow> j \<noteq> (r + i) mod length xs"
  shows "circ (xs[j := v]) r n = circ xs r n"
  using assms by (auto simp: circ_def)

text \<open>Runs of entries: split, straight and wrapped around the end, and a block written behind one.\<close>

lemma circ_add: "circ xs r (m + n) = circ xs r m @ circ xs ((r + m) mod length xs) n"
proof (rule nth_equalityI)
  fix i assume "i < length (circ xs r (m + n))"
  then show "circ xs r (m + n) ! i = (circ xs r m @ circ xs ((r + m) mod length xs) n) ! i"
    by (auto simp: circ_def nth_append mod_add_left_eq simp del: upt_Suc)
qed simp

lemma circ_straight: "r + n \<le> length xs \<Longrightarrow> circ xs r n = take n (drop r xs)"
  by (rule nth_equalityI) (auto simp: circ_def simp del: upt_Suc)

lemma circ_wrapped:
  assumes "r < length xs" "length xs - r \<le> n" "n \<le> length xs"
  shows "circ xs r n = drop r xs @ take (n - (length xs - r)) xs"
proof -
  let ?m = "length xs - r"
  have "circ xs r (?m + (n - ?m)) = circ xs r ?m @ circ xs ((r + ?m) mod length xs) (n - ?m)"
    by (rule circ_add)
  then show ?thesis using assms by (simp add: circ_straight)
qed

lemma circ_block:
  assumes len: "length ys = length xs" and n: "n + length bs \<le> length xs"
    and new: "\<And>i. i < length bs \<Longrightarrow> ys ! ((r + n + i) mod length xs) = bs ! i"
    and old: "\<And>i. i < n \<Longrightarrow> ys ! ((r + i) mod length xs) = xs ! ((r + i) mod length xs)"
  shows "circ ys r (n + length bs) = circ xs r n @ bs"
proof (rule nth_equalityI)
  fix i assume i: "i < length (circ ys r (n + length bs))"
  show "circ ys r (n + length bs) ! i = (circ xs r n @ bs) ! i"
  proof (cases "i < n")
    case True
    then show ?thesis using old len by (simp add: circ_def nth_append del: upt_Suc)
  next
    case False
    then have "i - n < length bs" using i by simp
    from new [OF this] show ?thesis using False i len
      by (simp add: circ_def nth_append del: upt_Suc)
  qed
qed simp

text \<open>A block written straight, or in two parts around the end, behind the entries in use.\<close>

lemma circ_write:
  assumes n: "n + length bs \<le> length xs" and w: "(r + n) mod length xs = w" "r < length xs"
    and ys: "ys = (if w + length bs \<le> length xs then take w xs @ bs @ drop (w + length bs) xs
      else drop (length xs - w) bs @ drop (length bs - (length xs - w)) (take w xs) @ take (length xs - w) bs)"
  shows "circ ys r (n + length bs) = circ xs r n @ bs \<and> length ys = length xs"
proof -
  let ?N = "length xs" and ?m = "length bs"
  have wN: "w < ?N" using w(1) mod_less_divisor [of ?N "r + n"] w(2) by linarith
  have len: "length ys = ?N" using ys wN n by (auto simp: min_def)
  have at: "ys ! j = (if w \<le> j \<and> j < w + ?m then bs ! (j - w)
      else if w + ?m > ?N \<and> j < w + ?m - ?N then bs ! (j + ?N - w) else xs ! j)" if "j < ?N" for j
  proof (cases "w + ?m \<le> ?N")
    case True
    then show ?thesis using that wN by (simp add: ys nth_append) (auto simp: nth_append)
  next
    case False
    then show ?thesis using that wN n
      by (auto simp: ys nth_append min_def add.commute intro!: arg_cong [of _ _ "(!) bs"] arg_cong [of _ _ "(!) xs"])
  qed
  have pos: "(r + n + i) mod ?N = (if w + i < ?N then w + i else w + i - ?N)" if "i < ?m" for i
  proof -
    have "(r + n + i) mod ?N = (w + i) mod ?N" using w(1) by (metis mod_add_left_eq)
    then show ?thesis using that wN n by (auto simp: mod_if)
  qed
  have rn: "w = (if r + n < ?N then r + n else r + n - ?N)" using w n by (auto simp: mod_if)
  have old: "(r + i) mod ?N = (if r + i < ?N then r + i else r + i - ?N)" if "i < n" for i
    using that w(2) n by (auto simp: mod_if)
  have "ys ! ((r + n + i) mod ?N) = bs ! i" if "i < ?m" for i
    using that wN n pos [OF that] by (subst at) (auto simp: intro!: arg_cong [of _ _ "(!) bs"])
  moreover have "ys ! ((r + i) mod ?N) = xs ! ((r + i) mod ?N)" if "i < n" for i
    using that n rn old [OF that] w(2) by (subst at) (auto split: if_splits)
  ultimately show ?thesis using circ_block [OF len n] len by blast
qed
text \<open>\<^verbatim>\<open>++ i; if (i >= size) i = 0;\<close>\<close>

lemma next_index:
  assumes "(i :: nat) < n"
  shows "(if n \<le> i + 1 then 0 else i + 1) = (i + 1) mod n"
  using assms by (auto simp: not_le dest: le_antisym)

end
