(* ===== verification/Mailbox.thy ===== *)
theory Mailbox
  imports Mutex Fifo
begin

text \<open>
  Mailboxes (\<^verbatim>\<open>src/ipc.c\<close>): a circular array of 32-bit values with waiting receivers
  (\<open>Suspend\<close>) and waiting senders (\<open>Sender\<close>). A thread that is woken goes back to the test at
  the top of its loop: \<open>mb_send_loop\<close> and \<open>mb_recv_loop\<close> are the code from there on, and
  \<open>rt_mb_send_wait_return\<close> and \<open>rt_mb_recv_return\<close> what precedes it after the wake-up, the
  remaining timeout computed on 32-bit words.

  The array operations satisfy the contract \<open>bounded_fifo\<close> (interpretation \<open>mb\<close>).
\<close>

subsection \<open>The array\<close>

definition mb_store :: "u32 \<Rightarrow> rt_mailbox \<Rightarrow> rt_mailbox" where
  "mb_store v mb =
     (let mb = mb\<lparr>mb_msg_pool := (mb_msg_pool mb)[unat (mb_in_offset mb) := v]\<rparr>;
          mb = mb\<lparr>mb_in_offset := mb_in_offset mb + 1\<rparr>;
          mb = (if mb_in_offset mb \<ge> mb_size mb then mb\<lparr>mb_in_offset := 0\<rparr> else mb)
      in mb\<lparr>mb_entry := mb_entry mb + 1\<rparr>)"

definition mb_fetch :: "rt_mailbox \<Rightarrow> u32 \<times> rt_mailbox" where
  "mb_fetch mb =
     (let v = mb_msg_pool mb ! unat (mb_out_offset mb);
          mb = mb\<lparr>mb_out_offset := mb_out_offset mb + 1\<rparr>;
          mb = (if mb_out_offset mb \<ge> mb_size mb then mb\<lparr>mb_out_offset := 0\<rparr> else mb)
      in (v, mb\<lparr>mb_entry := mb_entry mb - 1\<rparr>))"

definition mb_wf :: "rt_mailbox \<Rightarrow> bool" where
  "mb_wf mb \<longleftrightarrow> 0 < mb_size mb \<and> length (mb_msg_pool mb) = unat (mb_size mb) \<and>
     mb_out_offset mb < mb_size mb \<and> mb_entry mb \<le> mb_size mb \<and>
     unat (mb_in_offset mb) = (unat (mb_out_offset mb) + unat (mb_entry mb)) mod unat (mb_size mb)"

definition mb_items :: "rt_mailbox \<Rightarrow> u32 list" where
  "mb_items mb = circ (mb_msg_pool mb) (unat (mb_out_offset mb)) (unat (mb_entry mb))"

text \<open>\<^verbatim>\<open>++ off; if (off >= size) off = 0;\<close> on 16-bit words.\<close>

lemma next_offset:
  fixes off size :: u16
  assumes "off < size"
  shows "unat (if off + 1 \<ge> size then 0 else off + 1) = (unat off + 1) mod unat size"
proof -
  have "unat size < 2 ^ LENGTH(16)" by (rule unsigned_less)
  then have "unat off \<noteq> 65535" using assms by (simp add: word_less_nat_alt)
  then have "unat (off + 1) = unat off + 1"
    by (intro u16_unat_Suc) (auto simp: word_unat_eq_iff)
  then show ?thesis using next_index [of "unat off" "unat size"] assms
    by (simp add: word_less_nat_alt word_le_nat_alt split: if_splits)
qed

lemma mb_store_sel:
  "mb_size (mb_store v mb) = mb_size mb" "mb_out_offset (mb_store v mb) = mb_out_offset mb"
  "mb_entry (mb_store v mb) = mb_entry mb + 1"
  "mb_msg_pool (mb_store v mb) = (mb_msg_pool mb)[unat (mb_in_offset mb) := v]"
  "mb_in_offset (mb_store v mb) =
     (if mb_in_offset mb + 1 \<ge> mb_size mb then 0 else mb_in_offset mb + 1)"
  by (simp_all add: mb_store_def Let_def)

lemma mb_fetch_sel:
  "mb_size (snd (mb_fetch mb)) = mb_size mb" "mb_in_offset (snd (mb_fetch mb)) = mb_in_offset mb"
  "mb_entry (snd (mb_fetch mb)) = mb_entry mb - 1" "mb_msg_pool (snd (mb_fetch mb)) = mb_msg_pool mb"
  "mb_out_offset (snd (mb_fetch mb)) =
     (if mb_out_offset mb + 1 \<ge> mb_size mb then 0 else mb_out_offset mb + 1)"
  "fst (mb_fetch mb) = mb_msg_pool mb ! unat (mb_out_offset mb)"
  by (simp_all add: mb_fetch_def Let_def)

lemma mb_store_wf:
  assumes "mb_wf mb" "mb_entry mb \<noteq> mb_size mb"
  shows "mb_wf (mb_store v mb)" "mb_items (mb_store v mb) = mb_items mb @ [v]"
proof -
  let ?n = "unat (mb_size mb)" and ?e = "unat (mb_entry mb)" and ?o = "unat (mb_out_offset mb)"
  have n: "0 < ?n" and len: "length (mb_msg_pool mb) = ?n" and e: "?e < ?n"
    and i: "unat (mb_in_offset mb) = (?o + ?e) mod ?n"
    using assms by (auto simp: mb_wf_def word_less_nat_alt word_le_nat_alt le_less word_unat_eq_iff)
  have "?n < 2 ^ LENGTH(16)" by (rule unsigned_less)
  then have e1: "unat (mb_entry mb + 1) = ?e + 1"
    using e by (intro u16_unat_Suc) (auto simp: word_unat_eq_iff)
  have io: "mb_in_offset mb < mb_size mb" using i n by (simp add: word_less_nat_alt)
  show "mb_wf (mb_store v mb)"
    using assms(1) e e1 i next_offset [OF io]
    by (simp add: mb_wf_def mb_store_sel word_le_nat_alt mod_simps len ac_simps)
  show "mb_items (mb_store v mb) = mb_items mb @ [v]"
    using circ_snoc [of ?e "mb_msg_pool mb" ?o v] e i
    by (simp add: mb_items_def mb_store_sel e1 len)
qed

lemma mb_fetch_wf:
  assumes "mb_wf mb" "mb_entry mb \<noteq> 0"
  shows "mb_wf (snd (mb_fetch mb))" "fst (mb_fetch mb) # mb_items (snd (mb_fetch mb)) = mb_items mb"
proof -
  let ?n = "unat (mb_size mb)" and ?e = "unat (mb_entry mb)" and ?o = "unat (mb_out_offset mb)"
  have o: "mb_out_offset mb < mb_size mb" "?o < ?n" and len: "length (mb_msg_pool mb) = ?n"
    and e: "?e \<le> ?n" and i: "unat (mb_in_offset mb) = (?o + ?e) mod ?n"
    using assms(1) by (auto simp: mb_wf_def word_less_nat_alt word_le_nat_alt)
  obtain d where d: "?e = Suc d" using assms(2) by (metis not0_implies_Suc unat_eq_0)
  have e1: "unat (mb_entry mb - 1) = d" using unat_sub_one [OF assms(2)] d by simp
  show "mb_wf (snd (mb_fetch mb))"
    using assms(1) d e e1 i next_offset [OF o(1)]
    by (simp add: mb_wf_def mb_fetch_sel word_le_nat_alt word_less_nat_alt mod_simps)
  show "fst (mb_fetch mb) # mb_items (snd (mb_fetch mb)) = mb_items mb"
    using next_offset [OF o(1)] o(2)
    by (simp add: mb_items_def mb_fetch_sel e1 d circ_Suc len)
qed

interpretation mb: bounded_fifo mb_wf mb_items "\<lambda>mb. unat (mb_size mb)" "\<lambda>_ _. True" mb_store mb_fetch
proof
  fix mb :: rt_mailbox and v :: u32
  assume wf: "mb_wf mb"
  then show "length (mb_items mb) \<le> unat (mb_size mb)"
    by (simp add: mb_items_def mb_wf_def word_le_nat_alt)
  {
    assume "length (mb_items mb) < unat (mb_size mb)"
    then have "mb_entry mb \<noteq> mb_size mb" by (auto simp: mb_items_def)
    note st = mb_store_wf [OF wf this]
    show "mb_wf (mb_store v mb)" "mb_items (mb_store v mb) = mb_items mb @ [v]"
      "unat (mb_size (mb_store v mb)) = unat (mb_size mb) \<and> (\<lambda>_. True) = (\<lambda>_. True)"
      using st by (simp_all add: mb_store_sel)
  }
  assume "mb_items mb \<noteq> []"
  then have "mb_entry mb \<noteq> 0" by (auto simp: mb_items_def)
  note st = mb_fetch_wf [OF wf this]
  show "mb_wf (snd (mb_fetch mb))" "fst (mb_fetch mb) # mb_items (snd (mb_fetch mb)) = mb_items mb"
    "unat (mb_size (snd (mb_fetch mb))) = unat (mb_size mb) \<and> (\<lambda>_. True) = (\<lambda>_. True)"
    using st by (simp_all add: mb_fetch_sel)
qed

subsection \<open>Operations\<close>

definition upd_mb :: "oid \<Rightarrow> (rt_mailbox \<Rightarrow> rt_mailbox) \<Rightarrow> kernel \<Rightarrow> kernel" where
  "upd_mb m f k = k\<lparr>mailboxes := (mailboxes k)(m := f (mailboxes k m))\<rparr>"

definition mb_reset :: "rt_mailbox \<Rightarrow> rt_mailbox" where
  "mb_reset mb = mb\<lparr>mb_entry := 0, mb_in_offset := 0, mb_out_offset := 0\<rparr>"

definition sender_list_init :: "oid \<Rightarrow> kernel \<Rightarrow> kernel" where
  "sender_list_init m k = k\<lparr>lists := (lists k)(Sender m := [])\<rparr>"

definition rt_mb_init :: "oid \<Rightarrow> string \<Rightarrow> u32 list \<Rightarrow> u32 \<Rightarrow> u8 \<Rightarrow> kernel \<Rightarrow> int \<times> kernel" where
  "rt_mb_init m name msgpool sz flag k =
     (let k = rt_object_init (Ipc_obj m) RT_Object_Class_MailBox name k;
          k = set_obj_flag m flag k;
          k = rt_ipc_object_init m k;
          k = upd_mb m (\<lambda>mb. mb_reset (mb\<lparr>mb_msg_pool := msgpool, mb_size := ucast sz\<rparr>)) k
      in (RT_EOK, sender_list_init m k))"

definition rt_mb_detach :: "oid \<Rightarrow> kernel \<Rightarrow> int \<times> kernel" where
  "rt_mb_detach m k =
     (let k = rt_ipc_list_resume_all (Suspend m) k;
          k = rt_ipc_list_resume_all (Sender m) k
      in (RT_EOK, rt_object_detach (Ipc_obj m) k))"

text \<open>\<open>pool\<close> is the block of \<^verbatim>\<open>mb->size\<close> words that the allocation returns, \<open>None\<close> when it fails.\<close>

definition rt_mb_create ::
    "oid option \<Rightarrow> u32 list option \<Rightarrow> string \<Rightarrow> u32 \<Rightarrow> u8 \<Rightarrow> kernel \<Rightarrow> oid option \<times> kernel" where
  "rt_mb_create mem pool name sz flag k =
     (let k = debug_not_in_interrupt k;
          (r, k) = rt_object_allocate (map_option Ipc_obj mem) RT_Object_Class_MailBox name k
      in case (r, mem) of
           (Some _, Some m) \<Rightarrow>
             (let k = set_obj_flag m flag k;
                  k = rt_ipc_object_init m k;
                  k = upd_mb m (\<lambda>mb. mb\<lparr>mb_size := ucast sz\<rparr>) k
              in case pool of
                   None \<Rightarrow> (None, rt_object_delete (Ipc_obj m) k)
                 | Some ws \<Rightarrow>
                     (let k = upd_mb m (\<lambda>mb. mb_reset (mb\<lparr>mb_msg_pool := ws\<rparr>)) k
                      in (Some m, sender_list_init m k)))
         | _ \<Rightarrow> (None, k))"

definition rt_mb_delete :: "oid \<Rightarrow> kernel \<Rightarrow> int \<times> kernel" where
  "rt_mb_delete m k =
     (let k = debug_not_in_interrupt k;
          k = rt_ipc_list_resume_all (Suspend m) k;
          k = rt_ipc_list_resume_all (Sender m) k
      in (RT_EOK, rt_object_delete (Ipc_obj m) k))"

definition mb_send_loop :: "oid \<Rightarrow> u32 \<Rightarrow> int \<Rightarrow> tid option \<Rightarrow> kernel \<Rightarrow> outcome \<times> kernel" where
  "mb_send_loop m value timeout thread k =
     (if mb_entry (mailboxes k m) = mb_size (mailboxes k m)
      then
        (case thread of
           None \<Rightarrow> (Returned (- RT_ERROR), defined_if False k)
         | Some t \<Rightarrow>
             (let k = upd_thread t (\<lambda>th. th\<lparr>th_error := RT_EOK\<rparr>) k in
              if timeout = 0 then (Returned (- RT_EFULL), k)
              else
                (let k = debug_in_thread_context k;
                     k = rt_ipc_list_suspend (Sender m) t (obj_flag_of m k) k;
                     k = start_wait_timer t timeout k
                 in (Waiting t, rt_schedule k))))
      else
        (let k = defined_if (unat (mb_in_offset (mailboxes k m)) < length (mb_msg_pool (mailboxes k m))) k;
             k = upd_mb m (mb_store value) k
         in if lists k (Suspend m) \<noteq> []
            then (Returned RT_EOK, rt_schedule (rt_ipc_list_resume (Suspend m) k))
            else (Returned RT_EOK, k)))"

definition rt_mb_send_wait :: "oid \<Rightarrow> u32 \<Rightarrow> int \<Rightarrow> kernel \<Rightarrow> outcome \<times> kernel" where
  "rt_mb_send_wait m value timeout k =
     (if mb_entry (mailboxes k m) = mb_size (mailboxes k m) \<and> timeout = 0
      then (Returned (- RT_EFULL), k)
      else mb_send_loop m value timeout (rt_thread_self k) k)"

text \<open>
  \<^verbatim>\<open>if (timeout > 0) { tick_delta = rt_tick_get() - tick_delta; timeout -= tick_delta;
  if (timeout < 0) timeout = 0; }\<close>, where \<open>start\<close> is the tick at which the wait began.
\<close>

definition remaining_timeout :: "int \<Rightarrow> u32 \<Rightarrow> kernel \<Rightarrow> int" where
  "remaining_timeout timeout start k =
     (if timeout > 0
      then (let tick_delta = rt_tick_get k - start;
                timeout = sint (of_int timeout - tick_delta :: u32)
            in if timeout < 0 then 0 else timeout)
      else timeout)"

definition rt_mb_send_wait_return ::
    "oid \<Rightarrow> u32 \<Rightarrow> int \<Rightarrow> u32 \<Rightarrow> tid \<Rightarrow> kernel \<Rightarrow> outcome \<times> kernel" where
  "rt_mb_send_wait_return m value timeout start t k =
     (if th_error (threads k t) \<noteq> RT_EOK then (Returned (th_error (threads k t)), k)
      else mb_send_loop m value (remaining_timeout timeout start k) (Some t) k)"

definition rt_mb_send :: "oid \<Rightarrow> u32 \<Rightarrow> kernel \<Rightarrow> outcome \<times> kernel" where
  "rt_mb_send m value k = rt_mb_send_wait m value 0 k"

definition mb_recv_loop :: "oid \<Rightarrow> int \<Rightarrow> tid option \<Rightarrow> kernel \<Rightarrow> outcome \<times> u32 option \<times> kernel" where
  "mb_recv_loop m timeout thread k =
     (if mb_entry (mailboxes k m) = 0
      then
        (case thread of
           None \<Rightarrow> (Returned (- RT_ERROR), None, defined_if False k)
         | Some t \<Rightarrow>
             (let k = upd_thread t (\<lambda>th. th\<lparr>th_error := RT_EOK\<rparr>) k in
              if timeout = 0
              then (Returned (- RT_ETIMEOUT), None,
                    upd_thread t (\<lambda>th. th\<lparr>th_error := - RT_ETIMEOUT\<rparr>) k)
              else
                (let k = debug_in_thread_context k;
                     k = rt_ipc_list_suspend (Suspend m) t (obj_flag_of m k) k;
                     k = start_wait_timer t timeout k
                 in (Waiting t, None, rt_schedule k))))
      else
        (let k = defined_if (unat (mb_out_offset (mailboxes k m)) < length (mb_msg_pool (mailboxes k m))) k;
             v = fst (mb_fetch (mailboxes k m));
             k = upd_mb m (\<lambda>mb. snd (mb_fetch mb)) k
         in if lists k (Sender m) \<noteq> []
            then (Returned RT_EOK, Some v, rt_schedule (rt_ipc_list_resume (Sender m) k))
            else (Returned RT_EOK, Some v, k)))"

definition rt_mb_recv :: "oid \<Rightarrow> int \<Rightarrow> kernel \<Rightarrow> outcome \<times> u32 option \<times> kernel" where
  "rt_mb_recv m timeout k =
     (if mb_entry (mailboxes k m) = 0 \<and> timeout = 0 then (Returned (- RT_ETIMEOUT), None, k)
      else mb_recv_loop m timeout (rt_thread_self k) k)"

definition rt_mb_recv_return ::
    "oid \<Rightarrow> int \<Rightarrow> u32 \<Rightarrow> tid \<Rightarrow> kernel \<Rightarrow> outcome \<times> u32 option \<times> kernel" where
  "rt_mb_recv_return m timeout start t k =
     (if th_error (threads k t) \<noteq> RT_EOK then (Returned (th_error (threads k t)), None, k)
      else mb_recv_loop m (remaining_timeout timeout start k) (Some t) k)"

definition rt_mb_control :: "oid \<Rightarrow> int \<Rightarrow> u32 \<Rightarrow> kernel \<Rightarrow> int \<times> kernel" where
  "rt_mb_control m cmd arg k =
     (if cmd = RT_IPC_CMD_RESET
      then (let k = rt_ipc_list_resume_all (Suspend m) k;
                k = rt_ipc_list_resume_all (Sender m) k
            in (RT_EOK, rt_schedule (upd_mb m mb_reset k)))
      else (- RT_ERROR, k))"

subsection \<open>The operations on the kernel state\<close>

lemma upd_mb_sel [simp]:
  "threads (upd_mb m f k) = threads k" "lists (upd_mb m f k) = lists k"
  "current (upd_mb m f k) = current k" "fault (upd_mb m f k) = fault k"
  "mailboxes (upd_mb m f k) m' = (if m' = m then f (mailboxes k m) else mailboxes k m')"
  "kernel_ok (upd_mb m f k) = kernel_ok k" "obj_flag_of m' (upd_mb m f k) = obj_flag_of m' k"
  by (simp_all add: upd_mb_def kernel_ok_def kinv_def obj_flag_of_def)

definition mb_ok :: "oid \<Rightarrow> kernel \<Rightarrow> bool" where
  "mb_ok m k \<longleftrightarrow> kernel_ok k \<and> mb_wf (mailboxes k m)"

lemma mb_entry_full: "mb_wf mb \<Longrightarrow> mb_entry mb = mb_size mb \<longleftrightarrow> length (mb_items mb) = unat (mb_size mb)"
  by (auto simp: mb_items_def word_unat_eq_iff)

lemma mb_entry_empty: "mb_entry mb = 0 \<longleftrightarrow> mb_items mb = []"
  by (auto simp: mb_items_def circ_def unat_eq_0)

lemma mb_send_stores:
  fixes timeout :: int and v :: u32
  assumes ok: "mb_ok m k" and nf: "mb_entry (mailboxes k m) \<noteq> mb_size (mailboxes k m)"
  defines "k' \<equiv> snd (rt_mb_send_wait m v timeout k)"
  shows "fst (rt_mb_send_wait m v timeout k) = Returned RT_EOK" "mb_ok m k'"
    "mb_items (mailboxes k' m) = mb_items (mailboxes k m) @ [v]"
    "\<And>t ts. lists k (Suspend m) = t # ts \<Longrightarrow>
       stat_of (threads k' t) = RT_THREAD_READY \<and> lists k' (Suspend m) = ts"
    "lists k (Suspend m) = [] \<Longrightarrow> threads k' = threads k \<and> lists k' = lists k \<and> fault k' = fault k"
proof -
  let ?u = "upd_mb m (mb_store v) k"
  have wf: "mb_wf (mailboxes k m)" and kk: "kernel_ok k" using ok by (auto simp: mb_ok_def)
  have io: "unat (mb_in_offset (mailboxes k m)) < length (mb_msg_pool (mailboxes k m))"
    using wf by (auto simp: mb_wf_def word_less_nat_alt)
  have ku: "kernel_ok ?u" using kk by simp
  have eq: "rt_mb_send_wait m v timeout k =
      (Returned RT_EOK, if lists k (Suspend m) \<noteq> [] then rt_schedule (rt_ipc_list_resume (Suspend m) ?u) else ?u)"
    using nf io by (simp add: rt_mb_send_wait_def mb_send_loop_def Let_def)
  show "fst (rt_mb_send_wait m v timeout k) = Returned RT_EOK" by (simp add: eq)
  note st = mb_store_wf [OF wf nf, of v]
  show "mb_items (mailboxes k' m) = mb_items (mailboxes k m) @ [v]"
    using st(2) by (simp add: k'_def eq)
  show "lists k (Suspend m) = [] \<Longrightarrow> threads k' = threads k \<and> lists k' = lists k \<and> fault k' = fault k"
    by (simp add: k'_def eq)
  have r: "kernel_ok (rt_ipc_list_resume (Suspend m) ?u) \<and>
      stat_of (threads (rt_ipc_list_resume (Suspend m) ?u) t) = RT_THREAD_READY \<and>
      lists (rt_ipc_list_resume (Suspend m) ?u) (Suspend m) = ts"
    if "lists k (Suspend m) = t # ts" for t ts
    using ipc_list_resume_state [OF ku, of "Suspend m" t ts] that by simp
  show "stat_of (threads k' t) = RT_THREAD_READY \<and> lists k' (Suspend m) = ts"
    if "lists k (Suspend m) = t # ts" for t ts
    using r [OF that] that by (simp add: k'_def eq)
  show "mb_ok m k'"
    using r ku st(1) by (cases "lists k (Suspend m)") (auto simp: k'_def eq mb_ok_def)
qed

lemma mb_send_full:
  "mb_entry (mailboxes k m) = mb_size (mailboxes k m) \<Longrightarrow> rt_mb_send m v k = (Returned (- RT_EFULL), k)"
  by (simp add: rt_mb_send_def rt_mb_send_wait_def)

lemma mb_recv_empty:
  "mb_entry (mailboxes k m) = 0 \<Longrightarrow> rt_mb_recv m 0 k = (Returned (- RT_ETIMEOUT), None, k)"
  by (simp add: rt_mb_recv_def)

lemma mb_recv_fetches:
  fixes timeout :: int
  assumes ok: "mb_ok m k" and ne: "mb_entry (mailboxes k m) \<noteq> 0"
  defines "k' \<equiv> snd (snd (rt_mb_recv m timeout k))"
  shows "fst (rt_mb_recv m timeout k) = Returned RT_EOK"
    "fst (snd (rt_mb_recv m timeout k)) = Some (hd (mb_items (mailboxes k m)))" "mb_ok m k'"
    "mb_items (mailboxes k' m) = tl (mb_items (mailboxes k m))"
    "\<And>t ts. lists k (Sender m) = t # ts \<Longrightarrow>
       stat_of (threads k' t) = RT_THREAD_READY \<and> lists k' (Sender m) = ts"
    "lists k (Sender m) = [] \<Longrightarrow> threads k' = threads k \<and> lists k' = lists k \<and> fault k' = fault k"
proof -
  let ?u = "upd_mb m (\<lambda>mb. snd (mb_fetch mb)) k"
  have wf: "mb_wf (mailboxes k m)" and kk: "kernel_ok k" using ok by (auto simp: mb_ok_def)
  have oo: "unat (mb_out_offset (mailboxes k m)) < length (mb_msg_pool (mailboxes k m))"
    using wf by (auto simp: mb_wf_def word_less_nat_alt)
  have ku: "kernel_ok ?u" using kk by simp
  note st = mb_fetch_wf [OF wf ne]
  have v: "fst (mb_fetch (mailboxes k m)) = hd (mb_items (mailboxes k m))" using st(2) by (metis list.sel(1))
  have eq: "rt_mb_recv m timeout k = (Returned RT_EOK, Some (hd (mb_items (mailboxes k m))),
      if lists k (Sender m) \<noteq> [] then rt_schedule (rt_ipc_list_resume (Sender m) ?u) else ?u)"
    using ne oo by (simp add: rt_mb_recv_def mb_recv_loop_def Let_def v)
  show "fst (rt_mb_recv m timeout k) = Returned RT_EOK"
    "fst (snd (rt_mb_recv m timeout k)) = Some (hd (mb_items (mailboxes k m)))" by (simp_all add: eq)
  show "mb_items (mailboxes k' m) = tl (mb_items (mailboxes k m))"
    using st(2) by (simp add: k'_def eq) (metis list.sel(3))
  show "lists k (Sender m) = [] \<Longrightarrow> threads k' = threads k \<and> lists k' = lists k \<and> fault k' = fault k"
    by (simp add: k'_def eq)
  have r: "kernel_ok (rt_ipc_list_resume (Sender m) ?u) \<and>
      stat_of (threads (rt_ipc_list_resume (Sender m) ?u) t) = RT_THREAD_READY \<and>
      lists (rt_ipc_list_resume (Sender m) ?u) (Sender m) = ts"
    if "lists k (Sender m) = t # ts" for t ts
    using ipc_list_resume_state [OF ku, of "Sender m" t ts] that by simp
  show "stat_of (threads k' t) = RT_THREAD_READY \<and> lists k' (Sender m) = ts"
    if "lists k (Sender m) = t # ts" for t ts
    using r [OF that] that by (simp add: k'_def eq)
  show "mb_ok m k'"
    using r ku st(1) by (cases "lists k (Sender m)") (auto simp: k'_def eq mb_ok_def)
qed

lemma mb_send_blocks:
  fixes timeout :: int and v :: u32
  assumes ok: "mb_ok m k" and fl: "mb_entry (mailboxes k m) = mb_size (mailboxes k m)"
    and tm: "timeout \<noteq> 0" and r: "running t k"
    and f: "obj_flag_of m k = RT_IPC_FLAG_FIFO \<or> obj_flag_of m k = RT_IPC_FLAG_PRIO"
  defines "k' \<equiv> snd (rt_mb_send_wait m v timeout k)"
  shows "fst (rt_mb_send_wait m v timeout k) = Waiting t" "mb_ok m k'" "mailboxes k' = mailboxes k"
    "lists k' = blocked_lists (Sender m) t (obj_flag_of m k) k"
    "threads k' = (threads k)(t := set_stat RT_THREAD_SUSPEND (clear_error (threads k t)))"
proof -
  have cu: "current k = Some t" and rt: "stat_of (threads k t) = RT_THREAD_READY"
    using r by (auto simp: running_def)
  have r': "running t (upd_thread t clear_error k)" using r by (simp add: running_def)
  have eq: "rt_mb_send_wait m v timeout k =
      (Waiting t, rt_schedule (wait_state (Sender m) t (obj_flag_of m k) clear_error timeout k))"
    using fl tm cu r'
    by (simp add: rt_mb_send_wait_def mb_send_loop_def rt_thread_self_def upd_clear_error Let_def
        wait_state_def)
  have wl: "wait_list (Sender m)" by simp
  have k: "kernel_ok k" and wf: "mb_wf (mailboxes k m)" using ok by (auto simp: mb_ok_def)
  note st = wait_state_props [OF k rt wl f clear_error_sel(1-3), where time = timeout]
  show "fst (rt_mb_send_wait m v timeout k) = Waiting t" "mb_ok m k'" "mailboxes k' = mailboxes k"
    "lists k' = blocked_lists (Sender m) t (obj_flag_of m k) k"
    "threads k' = (threads k)(t := set_stat RT_THREAD_SUSPEND (clear_error (threads k t)))"
    using st wf by (simp_all add: k'_def eq mb_ok_def)
qed

text \<open>The remaining timeout never grows and is the exact difference while it is positive.\<close>

lemma remaining_timeout_exact:
  assumes "0 < timeout" "timeout < 2 ^ 31" "uint (tick k - start) < 2 ^ 31"
  shows "remaining_timeout timeout start k = max 0 (timeout - uint (tick k - start))"
proof -
  let ?d = "tick k - start"
  let ?x = "timeout - uint ?d"
  have "0 \<le> uint ?d" by simp
  then have b: "- (2 ^ 31) \<le> ?x" "?x < 2 ^ 31" using assms by linarith+
  have "(of_int timeout - ?d :: u32) = of_int ?x" by simp
  then have "sint (of_int timeout - ?d :: u32) = sint (of_int ?x :: u32)" by (rule arg_cong)
  also have "\<dots> = signed_take_bit 31 ?x" by (subst signed_of_int) simp
  also have "\<dots> = ?x" using b by (simp add: signed_take_bit_int_eq_self)
  finally show ?thesis using assms(1)
    by (simp add: remaining_timeout_def rt_tick_get_def Let_def)
qed

end
