(* ===== verification/Msgqueue.thy ===== *)
theory Msgqueue
  imports Mailbox
begin

text \<open>
  Message queues (\<^verbatim>\<open>src/ipc.c\<close>): the slots of a pool are linked into a queue and a free list.
  A sender takes a slot off the free list in one critical section, fills it with interrupts
  enabled, and links it in a second one; a receiver unlinks, copies out and gives the slot
  back in the same way. Each of these pieces is a definition, the calls compose them.

  \<open>mq_inv\<close> accounts for every slot: in the queue, free, or in the hands of a call that is
  between its critical sections. \<open>mq_step\<close> interleaves the pieces of any number of calls,
  and \<open>mq_steps_inv\<close> shows that the accounting survives every interleaving. Without calls in
  flight the queue is a \<open>bounded_fifo\<close> (interpretation \<open>mq\<close>).
\<close>

subsection \<open>The pool\<close>

definition mq_set_next :: "nat \<Rightarrow> nat option \<Rightarrow> rt_messagequeue \<Rightarrow> rt_messagequeue" where
  "mq_set_next i v mq = mq\<lparr>mq_msg_pool := (mq_msg_pool mq)[i := (mq_msg_pool mq ! i)\<lparr>msg_next := v\<rparr>]\<rparr>"

text \<open>\<^verbatim>\<open>rt_memcpy(msg + 1, buffer, size)\<close>: the bytes after \<open>size\<close> keep their old values.\<close>

definition mq_copy_in :: "nat \<Rightarrow> byte list \<Rightarrow> rt_messagequeue \<Rightarrow> rt_messagequeue" where
  "mq_copy_in i bs mq = mq\<lparr>mq_msg_pool := (mq_msg_pool mq)[i := (mq_msg_pool mq ! i)
     \<lparr>msg_data := bs @ drop (length bs) (msg_data (mq_msg_pool mq ! i))\<rparr>]\<rparr>"

definition mq_alloc :: "rt_messagequeue \<Rightarrow> nat option \<times> rt_messagequeue" where
  "mq_alloc mq =
     (case mq_free mq of
        None \<Rightarrow> (None, mq)
      | Some i \<Rightarrow> (Some i, mq\<lparr>mq_free := msg_next (mq_msg_pool mq ! i)\<rparr>))"

definition mq_link_tail :: "nat \<Rightarrow> rt_messagequeue \<Rightarrow> rt_messagequeue" where
  "mq_link_tail i mq =
     (let mq = (case mq_tail mq of None \<Rightarrow> mq | Some j \<Rightarrow> mq_set_next j (Some i) mq);
          mq = mq\<lparr>mq_tail := Some i\<rparr>;
          mq = (if mq_head mq = None then mq\<lparr>mq_head := Some i\<rparr> else mq)
      in mq\<lparr>mq_entry := mq_entry mq + 1\<rparr>)"

definition mq_link_head :: "nat \<Rightarrow> rt_messagequeue \<Rightarrow> rt_messagequeue" where
  "mq_link_head i mq =
     (let mq = mq_set_next i (mq_head mq) mq;
          mq = mq\<lparr>mq_head := Some i\<rparr>;
          mq = (if mq_tail mq = None then mq\<lparr>mq_tail := Some i\<rparr> else mq)
      in mq\<lparr>mq_entry := mq_entry mq + 1\<rparr>)"

definition mq_take_head :: "rt_messagequeue \<Rightarrow> nat option \<times> rt_messagequeue" where
  "mq_take_head mq =
     (case mq_head mq of
        None \<Rightarrow> (None, mq)
      | Some i \<Rightarrow>
          (let mq = mq\<lparr>mq_head := msg_next (mq_msg_pool mq ! i)\<rparr>
           in (Some i, if mq_tail mq = Some i then mq\<lparr>mq_tail := None\<rparr> else mq)))"

definition mq_unlink :: "rt_messagequeue \<Rightarrow> nat option \<times> rt_messagequeue" where
  "mq_unlink mq = (let (i, mq) = mq_take_head mq in (i, mq\<lparr>mq_entry := mq_entry mq - 1\<rparr>))"

definition mq_give_back :: "nat \<Rightarrow> rt_messagequeue \<Rightarrow> rt_messagequeue" where
  "mq_give_back i mq = (mq_set_next i (mq_free mq) mq)\<lparr>mq_free := Some i\<rparr>"

text \<open>The loop that builds the free list, and the one that empties the queue on a reset.\<close>

definition mq_init_free :: "rt_messagequeue \<Rightarrow> rt_messagequeue" where
  "mq_init_free mq = fold mq_give_back [0..<unat (mq_max_msgs mq)]
     (mq\<lparr>mq_head := None, mq_tail := None, mq_free := None\<rparr>)"

fun mq_release_loop :: "nat \<Rightarrow> rt_messagequeue \<Rightarrow> rt_messagequeue option" where
  "mq_release_loop 0 mq = (if mq_head mq = None then Some mq else None)"
| "mq_release_loop (Suc n) mq =
     (case mq_take_head mq of
        (None, mq) \<Rightarrow> Some mq
      | (Some i, mq) \<Rightarrow> mq_release_loop n (mq_give_back i mq))"

subsection \<open>Slot accounting\<close>

fun chain :: "rt_mq_message list \<Rightarrow> nat option \<Rightarrow> nat list \<Rightarrow> bool" where
  "chain P h [] \<longleftrightarrow> h = None"
| "chain P h (j # js) \<longleftrightarrow> h = Some j \<and> chain P (msg_next (P ! j)) js"

definition mq_inv :: "rt_messagequeue \<Rightarrow> nat list \<Rightarrow> nat list \<Rightarrow> nat list \<Rightarrow> bool" where
  "mq_inv mq qs fs held \<longleftrightarrow>
     chain (mq_msg_pool mq) (mq_head mq) qs \<and> chain (mq_msg_pool mq) (mq_free mq) fs \<and>
     distinct (qs @ fs @ held) \<and> set (qs @ fs @ held) = {..<unat (mq_max_msgs mq)} \<and>
     length (mq_msg_pool mq) = unat (mq_max_msgs mq) \<and>
     mq_tail mq = (if qs = [] then None else Some (last qs)) \<and>
     unat (mq_entry mq) = length qs \<and>
     (\<forall>s \<in> set (mq_msg_pool mq). length (msg_data s) = unat (mq_msg_size mq))"

lemma chain_cong:
  "(\<And>j. j \<in> set js \<Longrightarrow> msg_next (P' ! j) = msg_next (P ! j)) \<Longrightarrow> chain P' h js = chain P h js"
  by (induction js arbitrary: h) auto

lemma chain_upd: "i \<notin> set js \<Longrightarrow> chain (P[i := s]) h js = chain P h js"
  by (rule chain_cong) (metis nth_list_update_neq)

lemma chain_snoc:
  "chain P h (qs @ [j]) \<Longrightarrow> j \<notin> set qs \<Longrightarrow> i \<notin> set (qs @ [j]) \<Longrightarrow> j < length P \<Longrightarrow>
     msg_next (P ! i) = None \<Longrightarrow> chain (P[j := (P ! j)\<lparr>msg_next := Some i\<rparr>]) h (qs @ [j, i])"
  by (induction qs arbitrary: h) auto

lemma mq_set_next_sel [simp]:
  "mq_head (mq_set_next i v mq) = mq_head mq" "mq_tail (mq_set_next i v mq) = mq_tail mq"
  "mq_free (mq_set_next i v mq) = mq_free mq" "mq_entry (mq_set_next i v mq) = mq_entry mq"
  "mq_max_msgs (mq_set_next i v mq) = mq_max_msgs mq" "mq_msg_size (mq_set_next i v mq) = mq_msg_size mq"
  "length (mq_msg_pool (mq_set_next i v mq)) = length (mq_msg_pool mq)"
  by (simp_all add: mq_set_next_def)

lemma pool_sizes_upd:
  "(\<forall>s \<in> set P. length (msg_data s) = n) \<Longrightarrow> i < length P \<Longrightarrow> length (msg_data s) = n \<Longrightarrow>
     \<forall>s' \<in> set (P[i := s]). length (msg_data s') = n"
  using set_update_subset_insert [of P i s] by auto

text \<open>Writing to a slot that is held by a call disturbs neither list.\<close>

lemma mq_inv_held_bound: "mq_inv mq qs fs held \<Longrightarrow> i \<in> set held \<Longrightarrow> i < length (mq_msg_pool mq)"
  by (auto simp: mq_inv_def)

lemma mq_inv_write:
  assumes "mq_inv mq qs fs held" "i \<in> set held" "length (msg_data s) = unat (mq_msg_size mq)"
  shows "mq_inv (mq\<lparr>mq_msg_pool := (mq_msg_pool mq)[i := s]\<rparr>) qs fs held"
proof -
  have "i \<notin> set qs" "i \<notin> set fs" "i < length (mq_msg_pool mq)"
    using assms by (auto simp: mq_inv_def)
  then show ?thesis using assms pool_sizes_upd [of "mq_msg_pool mq" _ i s]
    by (auto simp: mq_inv_def chain_upd)
qed

lemma mq_inv_size:
  "mq_inv mq qs fs held \<Longrightarrow> i < length (mq_msg_pool mq) \<Longrightarrow>
     length (msg_data (mq_msg_pool mq ! i)) = unat (mq_msg_size mq)"
  by (simp add: mq_inv_def)

lemma mq_inv_set_next:
  assumes "mq_inv mq qs fs held" "i \<in> set held"
  shows "mq_inv (mq_set_next i v mq) qs fs held"
  unfolding mq_set_next_def
  by (rule mq_inv_write [OF assms]) (simp add: mq_inv_size [OF assms(1) mq_inv_held_bound [OF assms]])

lemma mq_inv_copy_in:
  assumes "mq_inv mq qs fs held" "i \<in> set held" "length bs \<le> unat (mq_msg_size mq)"
  shows "mq_inv (mq_copy_in i bs mq) qs fs held"
  unfolding mq_copy_in_def
  by (rule mq_inv_write [OF assms(1,2)])
    (use assms(3) in \<open>simp add: mq_inv_size [OF assms(1) mq_inv_held_bound [OF assms(1,2)]]\<close>)

lemma mq_inv_alloc:
  assumes "mq_inv mq qs fs held"
  shows "fs = [] \<Longrightarrow> mq_alloc mq = (None, mq)"
    "fs = i # fs' \<Longrightarrow> fst (mq_alloc mq) = Some i \<and> mq_inv (snd (mq_alloc mq)) qs fs' (i # held)"
  using assms by (auto simp: mq_inv_def mq_alloc_def)

lemma mq_inv_held:
  assumes "mq_inv mq qs fs held" "set held' = set held" "distinct held'"
  shows "mq_inv mq qs fs held'"
  using assms unfolding mq_inv_def by (simp add: disjoint_iff)

lemma mq_inv_pick:
  assumes "mq_inv mq qs fs held" "i \<in> set held"
  shows "mq_inv mq qs fs (i # remove1 i held)"
proof (rule mq_inv_held [OF assms(1)])
  have "distinct held" using assms(1) by (simp add: mq_inv_def)
  then show "set (i # remove1 i held) = set held" "distinct (i # remove1 i held)"
    using assms(2) by auto
qed

lemma mq_inv_give_back:
  assumes "mq_inv mq qs fs (i # held)"
  shows "mq_inv (mq_give_back i mq) qs (i # fs) held"
proof -
  let ?m = "mq_set_next i (mq_free mq) mq"
  have m: "mq_inv ?m qs fs (i # held)" using assms by (rule mq_inv_set_next) simp
  have "i < length (mq_msg_pool mq)" by (rule mq_inv_held_bound [OF assms]) simp
  then have "msg_next (mq_msg_pool ?m ! i) = mq_free mq" by (simp add: mq_set_next_def)
  then have c: "chain (mq_msg_pool ?m) (Some i) (i # fs)" using m by (simp add: mq_inv_def)
  have "set (qs @ (i # fs) @ held) = set (qs @ fs @ i # held)" by auto
  moreover have "distinct (qs @ (i # fs) @ held)" using m by (auto simp: mq_inv_def)
  ultimately show ?thesis using m c unfolding mq_inv_def mq_give_back_def by simp
qed

lemma mq_inv_link_head:
  assumes "mq_inv mq qs fs (i # held)"
  shows "mq_inv (mq_link_head i mq) (i # qs) fs held"
proof -
  let ?m = "mq_set_next i (mq_head mq) mq"
  have m: "mq_inv ?m qs fs (i # held)" using assms by (rule mq_inv_set_next) simp
  have "i < length (mq_msg_pool mq)" by (rule mq_inv_held_bound [OF assms]) simp
  then have "msg_next (mq_msg_pool ?m ! i) = mq_head mq" by (simp add: mq_set_next_def)
  then have c: "chain (mq_msg_pool ?m) (Some i) (i # qs)" using m by (simp add: mq_inv_def)
  have st: "set ((i # qs) @ fs @ held) = set (qs @ fs @ i # held)" by auto
  have d: "distinct ((i # qs) @ fs @ held)" using m by (auto simp: mq_inv_def)
  have "length ((i # qs) @ fs @ held) = unat (mq_max_msgs mq)"
    using d m st unfolding mq_inv_def by (metis card_lessThan distinct_card mq_set_next_sel(5))
  moreover have "unat (mq_max_msgs mq) < 2 ^ LENGTH(16)" by (rule unsigned_less)
  ultimately have "unat (mq_entry mq) \<noteq> 65535" using m by (simp add: mq_inv_def)
  then have "unat (mq_entry mq + 1) = Suc (length qs)"
    using m by (subst u16_unat_Suc) (auto simp: mq_inv_def word_unat_eq_iff)
  then show ?thesis using m c st d
    unfolding mq_inv_def mq_link_head_def Let_def by (simp split: if_splits)
qed

lemma mq_inv_link_tail:
  assumes inv: "mq_inv mq qs fs (i # held)" and nx: "msg_next (mq_msg_pool mq ! i) = None"
  shows "mq_inv (mq_link_tail i mq) (qs @ [i]) fs held"
proof -
  have st: "set ((qs @ [i]) @ fs @ held) = set (qs @ fs @ i # held)" by auto
  have d: "distinct ((qs @ [i]) @ fs @ held)" using inv by (auto simp: mq_inv_def)
  have "length ((qs @ [i]) @ fs @ held) = unat (mq_max_msgs mq)"
    using d inv st unfolding mq_inv_def by (metis card_lessThan distinct_card)
  moreover have "unat (mq_max_msgs mq) < 2 ^ LENGTH(16)" by (rule unsigned_less)
  ultimately have "unat (mq_entry mq) \<noteq> 65535" using inv by (simp add: mq_inv_def)
  then have e: "unat (mq_entry mq + 1) = Suc (length qs)"
    using inv by (subst u16_unat_Suc) (auto simp: mq_inv_def word_unat_eq_iff)
  show ?thesis
  proof (cases qs rule: rev_cases)
    case Nil
    then show ?thesis using inv nx st d e
      unfolding mq_inv_def mq_link_tail_def Let_def by simp
  next
    case (snoc ps j)
    let ?P = "(mq_msg_pool mq)[j := (mq_msg_pool mq ! j)\<lparr>msg_next := Some i\<rparr>]"
    have j: "j < length (mq_msg_pool mq)" "j \<notin> set fs" "j \<notin> set ps" "i \<notin> set (ps @ [j])"
      using inv snoc by (auto simp: mq_inv_def)
    have "chain ?P (mq_head mq) (qs @ [i])"
      using chain_snoc [of "mq_msg_pool mq" "mq_head mq" ps j i] inv snoc j nx by (simp add: mq_inv_def)
    moreover have "chain ?P (mq_free mq) fs" using inv j(2) by (simp add: mq_inv_def chain_upd)
    moreover have "\<forall>s \<in> set ?P. length (msg_data s) = unat (mq_msg_size mq)"
      using inv j(1) by (intro pool_sizes_upd) (auto simp: mq_inv_def)
    moreover have "mq_link_tail i mq = mq\<lparr>mq_msg_pool := ?P, mq_tail := Some i, mq_entry := mq_entry mq + 1\<rparr>"
    proof -
      have "mq_tail mq = Some j" "mq_head mq \<noteq> None"
        using inv snoc by (auto simp: mq_inv_def) (cases ps; simp)
      then show ?thesis by (simp add: mq_link_tail_def mq_set_next_def Let_def)
    qed
    ultimately show ?thesis using inv st d e unfolding mq_inv_def by simp
  qed
qed

lemma mq_inv_take_head:
  assumes inv: "mq_inv mq qs fs held" and qs: "qs = i # qs'"
  shows "fst (mq_unlink mq) = Some i" "mq_inv (snd (mq_unlink mq)) qs' fs (i # held)"
proof -
  have h: "mq_head mq = Some i" using inv qs by (simp add: mq_inv_def)
  then show "fst (mq_unlink mq) = Some i"
    by (simp add: mq_unlink_def mq_take_head_def Let_def)
  have st: "set (qs' @ fs @ i # held) = set (qs @ fs @ held)" using qs by auto
  have d: "distinct (qs' @ fs @ i # held)" using inv qs by (auto simp: mq_inv_def)
  have "mq_entry mq \<noteq> 0" using inv qs by (auto simp: mq_inv_def)
  then have e: "unat (mq_entry mq - 1) = length qs'" using inv qs by (simp add: unat_sub_one mq_inv_def)
  have "last qs = i \<longleftrightarrow> qs' = []" using inv qs by (auto simp: mq_inv_def)
  then show "mq_inv (snd (mq_unlink mq)) qs' fs (i # held)"
    using inv qs st d e h unfolding mq_inv_def mq_unlink_def mq_take_head_def Let_def
    by (auto split: if_splits)
qed

lemma mq_copy_in_next: "msg_next (mq_msg_pool (mq_copy_in i bs mq) ! j) = msg_next (mq_msg_pool mq ! j)"
  by (cases "i < length (mq_msg_pool mq)"; cases "i = j") (simp_all add: mq_copy_in_def list_update_beyond)

lemma mq_init_free_inv:
  assumes "length (mq_msg_pool mq) = unat (mq_max_msgs mq)" "mq_entry mq = 0"
    and "\<forall>s \<in> set (mq_msg_pool mq). length (msg_data s) = unat (mq_msg_size mq)"
  shows "mq_inv (mq_init_free mq) [] (rev [0..<unat (mq_max_msgs mq)]) []"
proof -
  let ?mq = "mq\<lparr>mq_head := None, mq_tail := None, mq_free := None\<rparr>"
  have "mq_inv (fold mq_give_back [0..<n] ?mq) [] (rev [0..<n]) [n..<unat (mq_max_msgs mq)]"
    if "n \<le> unat (mq_max_msgs mq)" for n
    using that
  proof (induction n)
    case 0
    then show ?case using assms by (auto simp: mq_inv_def)
  next
    case (Suc n)
    then have "mq_inv (fold mq_give_back [0..<n] ?mq) [] (rev [0..<n]) (n # [Suc n..<unat (mq_max_msgs mq)])"
      by (simp add: upt_conv_Cons)
    from mq_inv_give_back [OF this] show ?case by simp
  qed
  from this [of "unat (mq_max_msgs mq)"] show ?thesis by (simp add: mq_init_free_def)
qed

lemma mq_release_loop_inv:
  assumes "mq_inv mq qs fs []" "length qs \<le> n"
  shows "\<exists>mq'. mq_release_loop n mq = Some mq' \<and> mq_inv (mq'\<lparr>mq_entry := 0\<rparr>) [] (rev qs @ fs) []"
  using assms
proof (induction qs arbitrary: mq fs n)
  case Nil
  then show ?case by (cases n) (auto simp: mq_inv_def mq_take_head_def)
next
  case (Cons i qs)
  then obtain m where n: "n = Suc m" by (cases n) auto
  let ?t = "snd (mq_take_head mq)"
  note u = mq_inv_take_head [OF Cons.prems(1) refl]
  have h: "mq_head mq = Some i" using Cons.prems(1) by (simp add: mq_inv_def)
  have t: "mq_inv (?t\<lparr>mq_entry := mq_entry mq - 1\<rparr>) qs fs [i]" "fst (mq_take_head mq) = Some i"
    "mq_entry ?t = mq_entry mq"
    using u h by (simp_all add: mq_unlink_def mq_take_head_def Let_def split: if_splits)
  have c: "mq_give_back i (?t\<lparr>mq_entry := e\<rparr>) = (mq_give_back i ?t)\<lparr>mq_entry := e\<rparr>" for e
    by (simp add: mq_give_back_def mq_set_next_def)
  have g: "mq_inv ((mq_give_back i ?t)\<lparr>mq_entry := mq_entry mq - 1\<rparr>) qs (i # fs) []"
    using mq_inv_give_back [OF t(1)] c by simp
  have ent: "mq_release_loop m (q\<lparr>mq_entry := e\<rparr>) = map_option (\<lambda>q. q\<lparr>mq_entry := e\<rparr>) (mq_release_loop m q)"
    for m q and e :: u16
  proof (induction m arbitrary: q)
    case (Suc m)
    have "mq_take_head (q\<lparr>mq_entry := e\<rparr>) = map_prod id (\<lambda>q. q\<lparr>mq_entry := e\<rparr>) (mq_take_head q)"
      by (simp add: mq_take_head_def Let_def split: option.splits)
    moreover have "mq_give_back i (q\<lparr>mq_entry := e\<rparr>) = (mq_give_back i q)\<lparr>mq_entry := e\<rparr>" for i q
      by (simp add: mq_give_back_def mq_set_next_def)
    ultimately show ?case by (auto simp: Suc split: prod.splits option.splits)
  qed simp
  from Cons.IH [OF g] Cons.prems(2) n obtain mq' where
    "mq_release_loop m ((mq_give_back i ?t)\<lparr>mq_entry := mq_entry mq - 1\<rparr>) = Some mq'"
    "mq_inv (mq'\<lparr>mq_entry := 0\<rparr>) [] (rev qs @ i # fs) []" by auto
  then show ?case using n t(2) by (auto simp: ent split: prod.splits)
qed

subsection \<open>Interleaved calls\<close>

text \<open>
  What a call in flight holds: a slot being filled for the tail (its link cleared) or for the
  head, or a slot being copied out.
\<close>

datatype phase = Filling | Tail_ready | Taken

type_synonym in_flight = "(nat \<times> phase) list"

inductive mq_step :: "rt_messagequeue \<times> in_flight \<Rightarrow> rt_messagequeue \<times> in_flight \<Rightarrow> bool" where
  take_slot: "mq_alloc mq = (Some i, mq') \<Longrightarrow> mq_step (mq, hs) (mq', (i, Filling) # hs)"
| clear_link: "(i, Filling) \<in> set hs \<Longrightarrow>
     mq_step (mq, hs) (mq_set_next i None mq, (i, Tail_ready) # remove1 (i, Filling) hs)"
| fill: "(i, ph) \<in> set hs \<Longrightarrow> ph \<noteq> Taken \<Longrightarrow> length bs \<le> unat (mq_msg_size mq) \<Longrightarrow>
     mq_step (mq, hs) (mq_copy_in i bs mq, hs)"
| link_tail: "(i, Tail_ready) \<in> set hs \<Longrightarrow>
     mq_step (mq, hs) (mq_link_tail i mq, remove1 (i, Tail_ready) hs)"
| link_head: "(i, Filling) \<in> set hs \<Longrightarrow>
     mq_step (mq, hs) (mq_link_head i mq, remove1 (i, Filling) hs)"
| unlink: "mq_entry mq \<noteq> 0 \<Longrightarrow> mq_unlink mq = (Some i, mq') \<Longrightarrow> mq_step (mq, hs) (mq', (i, Taken) # hs)"
| give_back: "(i, Taken) \<in> set hs \<Longrightarrow>
     mq_step (mq, hs) (mq_give_back i mq, remove1 (i, Taken) hs)"

definition flight_ok :: "rt_messagequeue \<times> in_flight \<Rightarrow> bool" where
  "flight_ok c \<longleftrightarrow> (\<exists>qs fs. mq_inv (fst c) qs fs (map fst (snd c))) \<and>
     (\<forall>i. (i, Tail_ready) \<in> set (snd c) \<longrightarrow> msg_next (mq_msg_pool (fst c) ! i) = None)"

lemma flight_pick:
  assumes "(i, ph) \<in> set hs" "mq_inv mq qs fs (map fst hs)"
  shows "mq_inv mq qs fs (i # map fst (remove1 (i, ph) hs))"
    "(j, ph') \<in> set (remove1 (i, ph) hs) \<Longrightarrow> j \<noteq> i \<and> (j, ph') \<in> set hs"
proof -
  obtain xs ys where hs: "hs = xs @ (i, ph) # ys" "(i, ph) \<notin> set xs"
    using assms(1) by (metis split_list_first)
  then have r: "remove1 (i, ph) hs = xs @ ys" by (simp add: remove1_append)
  have d: "distinct (map fst hs)" using assms(2) by (simp add: mq_inv_def)
  show "mq_inv mq qs fs (i # map fst (remove1 (i, ph) hs))"
    unfolding r by (rule mq_inv_held [OF assms(2)]) (use d in \<open>auto simp: hs(1)\<close>)
  have "i \<notin> fst ` set (xs @ ys)" using d by (simp add: hs(1) image_Un)
  then show "(j, ph') \<in> set (remove1 (i, ph) hs) \<Longrightarrow> j \<noteq> i \<and> (j, ph') \<in> set hs"
    unfolding r by (force simp: hs(1))
qed

lemma link_next_other:
  "j \<noteq> i \<Longrightarrow> msg_next (mq_msg_pool (mq_set_next i v mq) ! j) = msg_next (mq_msg_pool mq ! j)"
  by (simp add: mq_set_next_def)

lemma link_tail_next_other:
  assumes "mq_inv mq qs fs held" "j \<in> set held"
  shows "msg_next (mq_msg_pool (mq_link_tail i mq) ! j) = msg_next (mq_msg_pool mq ! j)"
proof (cases "mq_tail mq")
  case (Some t)
  then have "t \<in> set qs" using assms(1) by (auto simp: mq_inv_def split: if_splits)
  then have "j \<noteq> t" using assms by (auto simp: mq_inv_def)
  then show ?thesis using Some by (simp add: mq_link_tail_def Let_def link_next_other)
qed (simp add: mq_link_tail_def Let_def)

lemma flight_okI:
  "mq_inv mq qs fs (map fst hs) \<Longrightarrow>
     (\<And>i. (i, Tail_ready) \<in> set hs \<Longrightarrow> msg_next (mq_msg_pool mq ! i) = None) \<Longrightarrow> flight_ok (mq, hs)"
  by (auto simp: flight_ok_def)

lemma mq_step_inv: "mq_step c c' \<Longrightarrow> flight_ok c \<Longrightarrow> flight_ok c'"
proof (induction rule: mq_step.induct)
  case (take_slot mq i mq' hs)
  from take_slot.prems obtain qs fs where inv: "mq_inv mq qs fs (map fst hs)"
    and nx: "\<And>j. (j, Tail_ready) \<in> set hs \<Longrightarrow> msg_next (mq_msg_pool mq ! j) = None"
    by (auto simp: flight_ok_def)
  obtain fs' where fs: "fs = i # fs'"
    using take_slot.hyps mq_inv_alloc [OF inv] by (cases fs) (auto simp: mq_alloc_def split: option.splits)
  have "mq_msg_pool mq' = mq_msg_pool mq"
    using take_slot.hyps by (auto simp: mq_alloc_def split: option.splits)
  then show ?case using mq_inv_alloc(2) [OF inv fs] take_slot.hyps nx
    by (intro flight_okI [of _ qs fs']) auto
next
  case (clear_link i hs mq)
  from clear_link.prems obtain qs fs where inv: "mq_inv mq qs fs (map fst hs)"
    and nx: "\<And>j. (j, Tail_ready) \<in> set hs \<Longrightarrow> msg_next (mq_msg_pool mq ! j) = None"
    by (auto simp: flight_ok_def)
  note pk = flight_pick [OF clear_link.hyps inv]
  have b: "i < length (mq_msg_pool mq)" using mq_inv_held_bound [OF pk(1)] by simp
  have "mq_inv (mq_set_next i None mq) qs fs (map fst ((i, Tail_ready) # remove1 (i, Filling) hs))"
    using mq_inv_set_next [OF pk(1)] by simp
  then show ?case
  proof (rule flight_okI)
    fix j assume "(j, Tail_ready) \<in> set ((i, Tail_ready) # remove1 (i, Filling) hs)"
    then consider "j = i" | "(j, Tail_ready) \<in> set (remove1 (i, Filling) hs)" by auto
    then show "msg_next (mq_msg_pool (mq_set_next i None mq) ! j) = None"
    proof cases
      case 1
      then show ?thesis using b by (simp add: mq_set_next_def)
    next
      case 2
      then show ?thesis using pk(2) [OF 2] nx by (simp add: link_next_other)
    qed
  qed
next
  case (fill i ph hs bs mq)
  from fill.prems obtain qs fs where inv: "mq_inv mq qs fs (map fst hs)"
    and nx: "\<And>j. (j, Tail_ready) \<in> set hs \<Longrightarrow> msg_next (mq_msg_pool mq ! j) = None"
    by (auto simp: flight_ok_def)
  have "i \<in> set (map fst hs)" using fill.hyps(1) by force
  then show ?case
    by (intro flight_okI [OF mq_inv_copy_in [OF inv _ fill.hyps(3)]]) (simp_all add: mq_copy_in_next nx)
next
  case (link_tail i hs mq)
  from link_tail.prems obtain qs fs where inv: "mq_inv mq qs fs (map fst hs)"
    and nx: "\<And>j. (j, Tail_ready) \<in> set hs \<Longrightarrow> msg_next (mq_msg_pool mq ! j) = None"
    by (auto simp: flight_ok_def)
  note pk = flight_pick [OF link_tail.hyps inv]
  have "msg_next (mq_msg_pool (mq_link_tail i mq) ! j) = None"
    if "(j, Tail_ready) \<in> set (remove1 (i, Tail_ready) hs)" for j
    using link_tail_next_other [OF inv, of j i] pk(2) [OF that] nx by force
  with mq_inv_link_tail [OF pk(1) nx [OF link_tail.hyps]] show ?case by (rule flight_okI)
next
  case (link_head i hs mq)
  from link_head.prems obtain qs fs where inv: "mq_inv mq qs fs (map fst hs)"
    and nx: "\<And>j. (j, Tail_ready) \<in> set hs \<Longrightarrow> msg_next (mq_msg_pool mq ! j) = None"
    by (auto simp: flight_ok_def)
  note pk = flight_pick [OF link_head.hyps inv]
  have "mq_msg_pool (mq_link_head i mq) = mq_msg_pool (mq_set_next i (mq_head mq) mq)"
    by (simp add: mq_link_head_def Let_def)
  then have "msg_next (mq_msg_pool (mq_link_head i mq) ! j) = None"
    if "(j, Tail_ready) \<in> set (remove1 (i, Filling) hs)" for j
    using pk(2) [OF that] nx by (simp add: link_next_other)
  with mq_inv_link_head [OF pk(1)] show ?case by (rule flight_okI)
next
  case (unlink mq i mq' hs)
  from unlink.prems obtain qs fs where inv: "mq_inv mq qs fs (map fst hs)"
    and nx: "\<And>j. (j, Tail_ready) \<in> set hs \<Longrightarrow> msg_next (mq_msg_pool mq ! j) = None"
    by (auto simp: flight_ok_def)
  obtain qs' where qs: "qs = i # qs'"
    using unlink.hyps inv mq_inv_take_head [OF inv] by (cases qs) (auto simp: mq_inv_def unat_eq_0)
  have "mq_msg_pool mq' = mq_msg_pool mq"
    using unlink.hyps(2) by (auto simp: mq_unlink_def mq_take_head_def Let_def split: option.splits if_splits)
  then show ?case using mq_inv_take_head(2) [OF inv qs] unlink.hyps(2) nx
    by (intro flight_okI [of _ qs' fs]) auto
next
  case (give_back i hs mq)
  from give_back.prems obtain qs fs where inv: "mq_inv mq qs fs (map fst hs)"
    and nx: "\<And>j. (j, Tail_ready) \<in> set hs \<Longrightarrow> msg_next (mq_msg_pool mq ! j) = None"
    by (auto simp: flight_ok_def)
  note pk = flight_pick [OF give_back.hyps inv]
  have "mq_msg_pool (mq_give_back i mq) = mq_msg_pool (mq_set_next i (mq_free mq) mq)"
    by (simp add: mq_give_back_def)
  then have "msg_next (mq_msg_pool (mq_give_back i mq) ! j) = None"
    if "(j, Tail_ready) \<in> set (remove1 (i, Taken) hs)" for j
    using pk(2) [OF that] nx by (simp add: link_next_other)
  with mq_inv_give_back [OF pk(1)] show ?case by (rule flight_okI)
qed

lemma mq_steps_inv: "mq_step\<^sup>*\<^sup>* c c' \<Longrightarrow> flight_ok c \<Longrightarrow> flight_ok c'"
  by (induction rule: rtranclp_induct) (auto intro: mq_step_inv)

subsection \<open>The queue as a store\<close>

definition mq_put :: "byte list \<Rightarrow> rt_messagequeue \<Rightarrow> rt_messagequeue" where
  "mq_put bs mq =
     (case mq_alloc mq of
        (None, mq) \<Rightarrow> mq
      | (Some i, mq) \<Rightarrow> mq_link_tail i (mq_copy_in i bs (mq_set_next i None mq)))"

definition mq_put_front :: "byte list \<Rightarrow> rt_messagequeue \<Rightarrow> rt_messagequeue" where
  "mq_put_front bs mq =
     (case mq_alloc mq of
        (None, mq) \<Rightarrow> mq
      | (Some i, mq) \<Rightarrow> mq_link_head i (mq_copy_in i bs mq))"

definition mq_get :: "rt_messagequeue \<Rightarrow> byte list \<times> rt_messagequeue" where
  "mq_get mq =
     (case mq_unlink mq of
        (None, mq) \<Rightarrow> ([], mq)
      | (Some i, mq) \<Rightarrow> (msg_data (mq_msg_pool mq ! i), mq_give_back i mq))"

fun follow :: "nat \<Rightarrow> rt_mq_message list \<Rightarrow> nat option \<Rightarrow> nat list" where
  "follow 0 P h = []"
| "follow (Suc n) P h = (case h of None \<Rightarrow> [] | Some i \<Rightarrow> i # follow n P (msg_next (P ! i)))"

lemma follow_chain: "chain P h js \<Longrightarrow> length js \<le> n \<Longrightarrow> follow n P h = js"
proof (induction js arbitrary: h n)
  case Nil
  then show ?case by (cases n) auto
next
  case (Cons j js)
  then show ?case by (cases n) auto
qed

definition mq_queue :: "rt_messagequeue \<Rightarrow> nat list" where
  "mq_queue mq = follow (unat (mq_max_msgs mq)) (mq_msg_pool mq) (mq_head mq)"

definition mq_frees :: "rt_messagequeue \<Rightarrow> nat list" where
  "mq_frees mq = follow (unat (mq_max_msgs mq)) (mq_msg_pool mq) (mq_free mq)"

definition mq_wf :: "rt_messagequeue \<Rightarrow> bool" where
  "mq_wf mq \<longleftrightarrow> mq_inv mq (mq_queue mq) (mq_frees mq) []"

definition mq_items :: "rt_messagequeue \<Rightarrow> byte list list" where
  "mq_items mq = map (\<lambda>i. msg_data (mq_msg_pool mq ! i)) (mq_queue mq)"

lemma mq_inv_lengths:
  assumes "mq_inv mq qs fs held"
  shows "length qs + length fs + length held = unat (mq_max_msgs mq)"
proof -
  have "card (set (qs @ fs @ held)) = length (qs @ fs @ held)"
    using assms by (intro distinct_card) (simp add: mq_inv_def)
  then show ?thesis using assms by (simp add: mq_inv_def)
qed

lemma mq_inv_queue: "mq_inv mq qs fs held \<Longrightarrow> mq_queue mq = qs \<and> mq_frees mq = fs"
  using mq_inv_lengths [of mq qs fs held]
  by (auto simp: mq_queue_def mq_frees_def mq_inv_def intro!: follow_chain)

lemma mq_wfI: "mq_inv mq qs fs [] \<Longrightarrow> mq_wf mq"
  using mq_inv_queue [of mq qs fs "[]"] by (simp add: mq_wf_def)

lemma data_set_next: "msg_data (mq_msg_pool (mq_set_next i v mq) ! j) = msg_data (mq_msg_pool mq ! j)"
  by (cases "i < length (mq_msg_pool mq)"; cases "i = j") (simp_all add: mq_set_next_def list_update_beyond)

lemma data_copy_in:
  "msg_data (mq_msg_pool (mq_copy_in i bs mq) ! j) =
     (if j = i \<and> i < length (mq_msg_pool mq)
      then bs @ drop (length bs) (msg_data (mq_msg_pool mq ! i)) else msg_data (mq_msg_pool mq ! j))"
  by (auto simp: mq_copy_in_def list_update_beyond)

lemma data_link_tail: "msg_data (mq_msg_pool (mq_link_tail i mq) ! j) = msg_data (mq_msg_pool mq ! j)"
  by (simp add: mq_link_tail_def Let_def data_set_next split: option.splits)

lemma data_link_head: "msg_data (mq_msg_pool (mq_link_head i mq) ! j) = msg_data (mq_msg_pool mq ! j)"
  by (simp add: mq_link_head_def Let_def data_set_next)

lemma data_give_back: "msg_data (mq_msg_pool (mq_give_back i mq) ! j) = msg_data (mq_msg_pool mq ! j)"
  by (simp add: mq_give_back_def data_set_next)

lemma alloc_pool:
  "mq_msg_pool (snd (mq_alloc mq)) = mq_msg_pool mq" "mq_msg_size (snd (mq_alloc mq)) = mq_msg_size mq"
  "mq_max_msgs (snd (mq_alloc mq)) = mq_max_msgs mq"
  by (auto simp: mq_alloc_def split: option.splits)

lemma unlink_pool:
  "mq_msg_pool (snd (mq_unlink mq)) = mq_msg_pool mq" "mq_msg_size (snd (mq_unlink mq)) = mq_msg_size mq"
  "mq_max_msgs (snd (mq_unlink mq)) = mq_max_msgs mq"
  by (auto simp: mq_unlink_def mq_take_head_def Let_def split: option.splits)

lemma sizes_keep:
  "mq_msg_size (mq_copy_in i bs mq) = mq_msg_size mq" "mq_max_msgs (mq_copy_in i bs mq) = mq_max_msgs mq"
  "mq_msg_size (mq_link_tail i mq) = mq_msg_size mq" "mq_max_msgs (mq_link_tail i mq) = mq_max_msgs mq"
  "mq_msg_size (mq_link_head i mq) = mq_msg_size mq" "mq_max_msgs (mq_link_head i mq) = mq_max_msgs mq"
  "mq_msg_size (mq_give_back i mq) = mq_msg_size mq" "mq_max_msgs (mq_give_back i mq) = mq_max_msgs mq"
  by (simp_all add: mq_copy_in_def mq_link_tail_def mq_link_head_def mq_give_back_def Let_def
      split: option.splits)

text \<open>A message shorter than the slot keeps the slot's old tail.\<close>

lemma mq_put_state:
  assumes wf: "mq_wf mq" and room: "mq_free mq = Some i" and len: "length bs \<le> unat (mq_msg_size mq)"
  defines "m \<equiv> bs @ drop (length bs) (msg_data (mq_msg_pool mq ! i))"
  shows "mq_wf (mq_put bs mq)" "mq_items (mq_put bs mq) = mq_items mq @ [m]"
    "mq_wf (mq_put_front bs mq)" "mq_items (mq_put_front bs mq) = m # mq_items mq"
proof -
  let ?q = "mq_queue mq"
  have inv: "mq_inv mq ?q (mq_frees mq) []" using wf by (simp add: mq_wf_def)
  then obtain fs where fs: "mq_frees mq = i # fs"
    using room by (cases "mq_frees mq") (auto simp: mq_inv_def)
  let ?a = "snd (mq_alloc mq)"
  have a: "mq_alloc mq = (Some i, ?a)" "mq_inv ?a ?q fs [i]"
    using mq_inv_alloc(2) [OF inv fs] by (metis prod.collapse) (simp add: mq_inv_alloc(2) [OF inv fs])
  have iq: "i \<notin> set ?q" and b: "i < length (mq_msg_pool mq)" using inv fs by (auto simp: mq_inv_def)
  let ?c = "mq_copy_in i bs (mq_set_next i None ?a)" and ?h = "mq_copy_in i bs ?a"
  have n: "mq_inv (mq_set_next i None ?a) ?q fs [i]" using a(2) by (rule mq_inv_set_next) simp
  have c: "mq_inv ?c ?q fs [i]" "mq_inv ?h ?q fs [i]"
    using len by (intro mq_inv_copy_in n a(2); simp add: alloc_pool)+
  have "msg_next (mq_msg_pool ?c ! i) = None" using b by (simp add: mq_copy_in_next mq_set_next_def alloc_pool)
  note t = mq_inv_link_tail [OF c(1) this] and h = mq_inv_link_head [OF c(2)]
  have e: "mq_put bs mq = mq_link_tail i ?c" "mq_put_front bs mq = mq_link_head i ?h"
    unfolding mq_put_def mq_put_front_def by (subst a(1), simp)+
  show "mq_wf (mq_put bs mq)" "mq_wf (mq_put_front bs mq)" using t h by (auto simp: e intro: mq_wfI)
  have d: "msg_data (mq_msg_pool ?c ! j) = (if j = i then m else msg_data (mq_msg_pool mq ! j))"
    "msg_data (mq_msg_pool ?h ! j) = (if j = i then m else msg_data (mq_msg_pool mq ! j))" for j
    using b by (simp_all add: data_copy_in data_set_next alloc_pool m_def)
  have q: "mq_queue (mq_link_tail i ?c) = ?q @ [i]" "mq_queue (mq_link_head i ?h) = i # ?q"
    using mq_inv_queue [OF t] mq_inv_queue [OF h] by simp_all
  have k: "map (\<lambda>j. if j = i then m else msg_data (mq_msg_pool mq ! j)) ?q =
      map (\<lambda>j. msg_data (mq_msg_pool mq ! j)) ?q"
    using iq by auto
  show "mq_items (mq_put bs mq) = mq_items mq @ [m]"
    unfolding mq_items_def e q data_link_tail d using k by simp
  show "mq_items (mq_put_front bs mq) = m # mq_items mq"
    unfolding mq_items_def e q data_link_head d using k by simp
qed

lemma mq_get_state:
  assumes wf: "mq_wf mq" and ne: "mq_entry mq \<noteq> 0"
  shows "mq_wf (snd (mq_get mq))" "fst (mq_get mq) # mq_items (snd (mq_get mq)) = mq_items mq"
proof -
  have inv: "mq_inv mq (mq_queue mq) (mq_frees mq) []" using wf by (simp add: mq_wf_def)
  then obtain i qs where qs: "mq_queue mq = i # qs"
    using ne by (cases "mq_queue mq") (auto simp: mq_inv_def unat_eq_0)
  note u = mq_inv_take_head [OF inv qs]
  note g = mq_inv_give_back [OF u(2)]
  have e: "mq_get mq = (msg_data (mq_msg_pool mq ! i), mq_give_back i (snd (mq_unlink mq)))"
    using u(1) unlink_pool(1) [of mq] by (auto simp: mq_get_def split: prod.splits)
  show "mq_wf (snd (mq_get mq))" using g by (auto simp: e intro: mq_wfI)
  show "fst (mq_get mq) # mq_items (snd (mq_get mq)) = mq_items mq"
    using mq_inv_queue [OF g] by (simp add: e mq_items_def qs data_give_back unlink_pool)
qed

lemma mq_room:
  assumes "mq_wf mq"
  shows "mq_free mq = None \<longleftrightarrow> length (mq_items mq) = unat (mq_max_msgs mq)"
    "length (mq_items mq) \<le> unat (mq_max_msgs mq)" "mq_entry mq = 0 \<longleftrightarrow> mq_items mq = []"
proof -
  have inv: "mq_inv mq (mq_queue mq) (mq_frees mq) []" using assms by (simp add: mq_wf_def)
  then have "mq_free mq = None \<longleftrightarrow> mq_frees mq = []" by (cases "mq_frees mq") (auto simp: mq_inv_def)
  then show "mq_free mq = None \<longleftrightarrow> length (mq_items mq) = unat (mq_max_msgs mq)"
    "length (mq_items mq) \<le> unat (mq_max_msgs mq)"
    using mq_inv_lengths [OF inv] by (auto simp: mq_items_def)
  show "mq_entry mq = 0 \<longleftrightarrow> mq_items mq = []"
    using inv unat_eq_0 [of "mq_entry mq"] by (auto simp: mq_inv_def mq_items_def)
qed

lemma mq_put_sizes:
  "mq_msg_size (mq_put bs mq) = mq_msg_size mq" "mq_max_msgs (mq_put bs mq) = mq_max_msgs mq"
  using alloc_pool [of mq] by (auto simp: mq_put_def sizes_keep split: prod.splits option.splits)

lemma mq_get_sizes:
  "mq_msg_size (snd (mq_get mq)) = mq_msg_size mq" "mq_max_msgs (snd (mq_get mq)) = mq_max_msgs mq"
  using unlink_pool [of mq] by (auto simp: mq_get_def sizes_keep split: prod.splits option.splits)

text \<open>Messages of the full slot size come out as they went in.\<close>

interpretation mq: bounded_fifo mq_wf mq_items "\<lambda>mq. unat (mq_max_msgs mq)"
  "\<lambda>mq bs. length bs = unat (mq_msg_size mq)" mq_put mq_get
proof
  fix mq and bs :: "byte list"
  assume wf: "mq_wf mq"
  show "length (mq_items mq) \<le> unat (mq_max_msgs mq)" by (rule mq_room(2) [OF wf])
  {
    assume len: "length bs = unat (mq_msg_size mq)" and "length (mq_items mq) < unat (mq_max_msgs mq)"
    then obtain i where i: "mq_free mq = Some i" using mq_room(1) [OF wf] by auto
    have "i < length (mq_msg_pool mq)"
      using wf i by (cases "mq_frees mq") (auto simp: mq_wf_def mq_inv_def)
    then have "length (msg_data (mq_msg_pool mq ! i)) = length bs"
      using wf len by (simp add: mq_wf_def mq_inv_size)
    then show "mq_wf (mq_put bs mq)" "mq_items (mq_put bs mq) = mq_items mq @ [bs]"
      using mq_put_state [OF wf i, of bs] len by simp_all
    show "unat (mq_max_msgs (mq_put bs mq)) = unat (mq_max_msgs mq) \<and>
        (\<lambda>ds. length ds = unat (mq_msg_size (mq_put bs mq))) = (\<lambda>ds. length ds = unat (mq_msg_size mq))"
      by (simp add: mq_put_sizes)
  }
  assume "mq_items mq \<noteq> []"
  then have "mq_entry mq \<noteq> 0" using mq_room(3) [OF wf] by simp
  from mq_get_state [OF wf this] show "mq_wf (snd (mq_get mq))"
    "fst (mq_get mq) # mq_items (snd (mq_get mq)) = mq_items mq"
    "unat (mq_max_msgs (snd (mq_get mq))) = unat (mq_max_msgs mq) \<and>
      (\<lambda>ds :: byte list. length ds = unat (mq_msg_size (snd (mq_get mq)))) =
      (\<lambda>ds. length ds = unat (mq_msg_size mq))"
    by (simp_all add: mq_get_sizes)
qed

subsection \<open>Operations\<close>

definition upd_mq :: "oid \<Rightarrow> (rt_messagequeue \<Rightarrow> rt_messagequeue) \<Rightarrow> kernel \<Rightarrow> kernel" where
  "upd_mq q f k = k\<lparr>mqs := (mqs k)(q := f (mqs k q))\<rparr>"

text \<open>\<^verbatim>\<open>sizeof(struct rt_mq_message)\<close> is 4; \<open>slots\<close> is the memory of the pool, seen as slots.\<close>

definition rt_mq_init ::
    "oid \<Rightarrow> string \<Rightarrow> rt_mq_message list \<Rightarrow> u32 \<Rightarrow> u32 \<Rightarrow> u8 \<Rightarrow> kernel \<Rightarrow> int \<times> kernel" where
  "rt_mq_init q name slots msg_size pool_size flag k =
     (let k = rt_object_init (Ipc_obj q) RT_Object_Class_MessageQueue name k;
          k = set_obj_flag q flag k;
          k = rt_ipc_object_init q k;
          k = upd_mq q (\<lambda>mq. mq\<lparr>mq_msg_pool := slots,
                mq_msg_size := ucast (RT_ALIGN msg_size (of_nat RT_ALIGN_SIZE))\<rparr>) k;
          k = upd_mq q (\<lambda>mq. mq\<lparr>mq_max_msgs := ucast (pool_size div (ucast (mq_msg_size mq) + 4))\<rparr>) k;
          k = defined_if (unat (mq_max_msgs (mqs k q)) \<le> length slots) k;
          k = upd_mq q mq_init_free k
      in (RT_EOK, upd_mq q (\<lambda>mq. mq\<lparr>mq_entry := 0\<rparr>) k))"

definition rt_mq_detach :: "oid \<Rightarrow> kernel \<Rightarrow> int \<times> kernel" where
  "rt_mq_detach q k =
     (RT_EOK, rt_object_detach (Ipc_obj q) (rt_ipc_list_resume_all (Suspend q) k))"

definition rt_mq_delete :: "oid \<Rightarrow> kernel \<Rightarrow> int \<times> kernel" where
  "rt_mq_delete q k =
     (let k = debug_not_in_interrupt k
      in (RT_EOK, rt_object_delete (Ipc_obj q) (rt_ipc_list_resume_all (Suspend q) k)))"

definition rt_mq_create ::
    "oid option \<Rightarrow> rt_mq_message list option \<Rightarrow> string \<Rightarrow> u32 \<Rightarrow> u32 \<Rightarrow> u8 \<Rightarrow> kernel \<Rightarrow>
       oid option \<times> kernel" where
  "rt_mq_create mem pool name msg_size max_msgs flag k =
     (let k = debug_not_in_interrupt k;
          (r, k) = rt_object_allocate (map_option Ipc_obj mem) RT_Object_Class_MessageQueue name k
      in case (r, mem) of
           (Some _, Some q) \<Rightarrow>
             (let k = set_obj_flag q flag k;
                  k = rt_ipc_object_init q k;
                  k = upd_mq q (\<lambda>mq. mq\<lparr>mq_msg_size := ucast (RT_ALIGN msg_size (of_nat RT_ALIGN_SIZE)),
                        mq_max_msgs := ucast max_msgs\<rparr>) k
              in case pool of
                   None \<Rightarrow> (None, snd (rt_mq_delete q k))
                 | Some slots \<Rightarrow>
                     (let k = upd_mq q (\<lambda>mq. mq\<lparr>mq_msg_pool := slots\<rparr>) k;
                          k = upd_mq q mq_init_free k
                      in (Some q, upd_mq q (\<lambda>mq. mq\<lparr>mq_entry := 0\<rparr>) k)))
         | _ \<Rightarrow> (None, k))"

text \<open>The checks and the first critical section that \<^verbatim>\<open>rt_mq_send\<close> and \<^verbatim>\<open>rt_mq_urgent\<close> share.\<close>

definition mq_wake :: "oid \<Rightarrow> kernel \<Rightarrow> int \<times> kernel" where
  "mq_wake q k =
     (if lists k (Suspend q) \<noteq> [] then (RT_EOK, rt_schedule (rt_ipc_list_resume (Suspend q) k))
      else (RT_EOK, k))"

definition rt_mq_send :: "oid \<Rightarrow> byte list \<Rightarrow> u32 \<Rightarrow> kernel \<Rightarrow> int \<times> kernel" where
  "rt_mq_send q buffer sz k =
     (let k = rt_assert (sz \<noteq> 0) k in
      if sz > ucast (mq_msg_size (mqs k q)) then (- RT_ERROR, k)
      else
        (case mq_alloc (mqs k q) of
           (None, _) \<Rightarrow> (- RT_EFULL, k)
         | (Some i, mq) \<Rightarrow>
             (let k = upd_mq q (\<lambda>_. mq) k;
                  k = upd_mq q (mq_set_next i None) k;
                  k = defined_if (unat sz \<le> length buffer) k;
                  k = upd_mq q (mq_copy_in i (take (unat sz) buffer)) k;
                  k = upd_mq q (mq_link_tail i) k
              in mq_wake q k)))"

definition rt_mq_urgent :: "oid \<Rightarrow> byte list \<Rightarrow> u32 \<Rightarrow> kernel \<Rightarrow> int \<times> kernel" where
  "rt_mq_urgent q buffer sz k =
     (let k = rt_assert (sz \<noteq> 0) k in
      if sz > ucast (mq_msg_size (mqs k q)) then (- RT_ERROR, k)
      else
        (case mq_alloc (mqs k q) of
           (None, _) \<Rightarrow> (- RT_EFULL, k)
         | (Some i, mq) \<Rightarrow>
             (let k = upd_mq q (\<lambda>_. mq) k;
                  k = defined_if (unat sz \<le> length buffer) k;
                  k = upd_mq q (mq_copy_in i (take (unat sz) buffer)) k;
                  k = upd_mq q (mq_link_head i) k
              in mq_wake q k)))"

text \<open>The bytes that \<^verbatim>\<open>rt_mq_recv\<close> copies out are part of the result.\<close>

definition mq_recv_loop ::
    "oid \<Rightarrow> u32 \<Rightarrow> int \<Rightarrow> tid option \<Rightarrow> kernel \<Rightarrow> outcome \<times> byte list option \<times> kernel" where
  "mq_recv_loop q sz timeout thread k =
     (if mq_entry (mqs k q) = 0
      then
        (let k = debug_in_thread_context k in
         case thread of
           None \<Rightarrow> (Returned (- RT_ERROR), None, defined_if False k)
         | Some t \<Rightarrow>
             (let k = upd_thread t (\<lambda>th. th\<lparr>th_error := RT_EOK\<rparr>) k in
              if timeout = 0
              then (Returned (- RT_ETIMEOUT), None,
                    upd_thread t (\<lambda>th. th\<lparr>th_error := - RT_ETIMEOUT\<rparr>) k)
              else
                (let k = rt_ipc_list_suspend (Suspend q) t (obj_flag_of q k) k;
                     k = start_wait_timer t timeout k
                 in (Waiting t, None, rt_schedule k))))
      else
        (case mq_unlink (mqs k q) of
           (None, mq) \<Rightarrow> (Returned (- RT_ERROR), None, defined_if False k)
         | (Some i, mq) \<Rightarrow>
             (let k = upd_mq q (\<lambda>_. mq) k;
                  n = (if sz > ucast (mq_msg_size (mqs k q)) then unat (mq_msg_size (mqs k q)) else unat sz);
                  bs = take n (msg_data (mq_msg_pool (mqs k q) ! i));
                  k = upd_mq q (mq_give_back i) k
              in (Returned RT_EOK, Some bs, k))))"

definition rt_mq_recv :: "oid \<Rightarrow> u32 \<Rightarrow> int \<Rightarrow> kernel \<Rightarrow> outcome \<times> byte list option \<times> kernel" where
  "rt_mq_recv q sz timeout k =
     (let k = rt_assert (sz \<noteq> 0) k in
      if mq_entry (mqs k q) = 0 \<and> timeout = 0 then (Returned (- RT_ETIMEOUT), None, k)
      else mq_recv_loop q sz timeout (rt_thread_self k) k)"

definition rt_mq_recv_return ::
    "oid \<Rightarrow> u32 \<Rightarrow> int \<Rightarrow> u32 \<Rightarrow> tid \<Rightarrow> kernel \<Rightarrow> outcome \<times> byte list option \<times> kernel" where
  "rt_mq_recv_return q sz timeout start t k =
     (if th_error (threads k t) \<noteq> RT_EOK then (Returned (th_error (threads k t)), None, k)
      else mq_recv_loop q sz (remaining_timeout timeout start k) (Some t) k)"

definition rt_mq_control :: "oid \<Rightarrow> int \<Rightarrow> u32 \<Rightarrow> kernel \<Rightarrow> int \<times> kernel" where
  "rt_mq_control q cmd arg k =
     (if cmd = RT_IPC_CMD_RESET
      then
        (let k = rt_ipc_list_resume_all (Suspend q) k
         in case mq_release_loop (unat (mq_max_msgs (mqs k q))) (mqs k q) of
              None \<Rightarrow> (RT_EOK, defined_if False k)
            | Some mq \<Rightarrow> (RT_EOK, rt_schedule (upd_mq q (\<lambda>_. mq\<lparr>mq_entry := 0\<rparr>) k)))
      else (- RT_ERROR, k))"

lemma upd_mq_sel [simp]:
  "threads (upd_mq q f k) = threads k" "lists (upd_mq q f k) = lists k"
  "current (upd_mq q f k) = current k" "fault (upd_mq q f k) = fault k"
  "mqs (upd_mq q f k) q' = (if q' = q then f (mqs k q) else mqs k q')"
  "kernel_ok (upd_mq q f k) = kernel_ok k" "obj_flag_of q' (upd_mq q f k) = obj_flag_of q' k"
  by (simp_all add: upd_mq_def kernel_ok_def kinv_def obj_flag_of_def)

lemma upd_mq_merge: "upd_mq q f (upd_mq q g k) = upd_mq q (\<lambda>mq. f (g mq)) k"
  by (simp add: upd_mq_def)

lemma upd_mq_const: "upd_mq q f k = upd_mq q (\<lambda>_. f (mqs k q)) k"
  by (simp add: upd_mq_def)

definition mq_ok :: "oid \<Rightarrow> kernel \<Rightarrow> bool" where
  "mq_ok q k \<longleftrightarrow> kernel_ok k \<and> mq_wf (mqs k q)"

lemma mq_wake_state:
  assumes "kernel_ok k"
  shows "fst (mq_wake q k) = RT_EOK" "kernel_ok (snd (mq_wake q k))" "mqs (snd (mq_wake q k)) = mqs k"
    "lists (snd (mq_wake q k)) (Suspend q) = tl (lists k (Suspend q))"
    "lists k (Suspend q) = t # ts \<Longrightarrow> stat_of (threads (snd (mq_wake q k)) t) = RT_THREAD_READY"
  using assms ipc_list_resume_state [OF assms, of "Suspend q"]
  by (cases "lists k (Suspend q)"; simp add: mq_wake_def)+

lemma mq_send_too_long:
  "sz \<noteq> 0 \<Longrightarrow> ucast (mq_msg_size (mqs k q)) < sz \<Longrightarrow>
     rt_mq_send q buf sz k = (- RT_ERROR, k) \<and> rt_mq_urgent q buf sz k = (- RT_ERROR, k)"
  by (simp add: rt_mq_send_def rt_mq_urgent_def)

lemma mq_send_full:
  "sz \<noteq> 0 \<Longrightarrow> sz \<le> ucast (mq_msg_size (mqs k q)) \<Longrightarrow> mq_free (mqs k q) = None \<Longrightarrow>
     rt_mq_send q buf sz k = (- RT_EFULL, k) \<and> rt_mq_urgent q buf sz k = (- RT_EFULL, k)"
  by (simp add: rt_mq_send_def rt_mq_urgent_def mq_alloc_def not_less)

lemma mq_send_puts:
  assumes "sz \<noteq> 0" "sz \<le> ucast (mq_msg_size (mqs k q))" "mq_free (mqs k q) = Some i"
    and "unat sz \<le> length buf"
  shows "rt_mq_send q buf sz k = mq_wake q (upd_mq q (mq_put (take (unat sz) buf)) k)"
    "rt_mq_urgent q buf sz k = mq_wake q (upd_mq q (mq_put_front (take (unat sz) buf)) k)"
proof -
  obtain mq where a: "mq_alloc (mqs k q) = (Some i, mq)" using assms(3) by (simp add: mq_alloc_def)
  have "mq_put bs (mqs k q) = mq_link_tail i (mq_copy_in i bs (mq_set_next i None mq))"
    "mq_put_front bs (mqs k q) = mq_link_head i (mq_copy_in i bs mq)" for bs
    using a by (simp_all add: mq_put_def mq_put_front_def)
  then show "rt_mq_send q buf sz k = mq_wake q (upd_mq q (mq_put (take (unat sz) buf)) k)"
    "rt_mq_urgent q buf sz k = mq_wake q (upd_mq q (mq_put_front (take (unat sz) buf)) k)"
    using assms a upd_mq_const [of q "mq_put (take (unat sz) buf)" k]
      upd_mq_const [of q "mq_put_front (take (unat sz) buf)" k]
      linorder_not_less [THEN iffD2, OF assms(2)]
    by (simp_all add: rt_mq_send_def rt_mq_urgent_def Let_def upd_mq_merge)
qed

lemma mq_send_ok:
  assumes ok: "mq_ok q k" and s: "sz \<noteq> 0" "sz \<le> ucast (mq_msg_size (mqs k q))"
    and i: "mq_free (mqs k q) = Some i" and b: "unat sz \<le> length buf"
  defines "m \<equiv> take (unat sz) buf @ drop (unat sz) (msg_data (mq_msg_pool (mqs k q) ! i))"
  shows "mq_ok q (snd (rt_mq_send q buf sz k))"
    "mq_items (mqs (snd (rt_mq_send q buf sz k)) q) = mq_items (mqs k q) @ [m]"
    "mq_ok q (snd (rt_mq_urgent q buf sz k))"
    "mq_items (mqs (snd (rt_mq_urgent q buf sz k)) q) = m # mq_items (mqs k q)"
proof -
  have wf: "mq_wf (mqs k q)" and k: "kernel_ok k" using ok by (auto simp: mq_ok_def)
  have "unat sz \<le> unat (mq_msg_size (mqs k q))"
    using s(2) by (simp add: word_le_nat_alt)
  then have l: "length (take (unat sz) buf) \<le> unat (mq_msg_size (mqs k q))" using b by simp
  note p = mq_put_state [OF wf i l]
  note e = mq_send_puts [OF s i b]
  have m: "take (unat sz) buf @ drop (length (take (unat sz) buf)) (msg_data (mq_msg_pool (mqs k q) ! i)) = m"
    using b by (simp add: m_def)
  have k2: "kernel_ok (upd_mq q f k)" for f using k by simp
  show "mq_ok q (snd (rt_mq_send q buf sz k))"
    "mq_items (mqs (snd (rt_mq_send q buf sz k)) q) = mq_items (mqs k q) @ [m]"
    "mq_ok q (snd (rt_mq_urgent q buf sz k))"
    "mq_items (mqs (snd (rt_mq_urgent q buf sz k)) q) = m # mq_items (mqs k q)"
    unfolding mq_ok_def e mq_wake_state(2,3) [OF k2] using p m by (simp_all add: mq_wake_state k)
qed

lemma mq_recv_ok:
  fixes timeout :: int
  assumes ok: "mq_ok q k" and s: "sz \<noteq> 0" and ne: "mq_entry (mqs k q) \<noteq> 0"
  defines "r \<equiv> rt_mq_recv q sz timeout k"
  shows "fst r = Returned RT_EOK"
    "fst (snd r) = Some (take (min (unat sz) (unat (mq_msg_size (mqs k q)))) (hd (mq_items (mqs k q))))"
    "mq_ok q (snd (snd r))" "mq_items (mqs (snd (snd r)) q) = tl (mq_items (mqs k q))"
    "threads (snd (snd r)) = threads k" "lists (snd (snd r)) = lists k" "fault (snd (snd r)) = fault k"
proof -
  have wf: "mq_wf (mqs k q)" and k: "kernel_ok k" using ok by (auto simp: mq_ok_def)
  have inv: "mq_inv (mqs k q) (mq_queue (mqs k q)) (mq_frees (mqs k q)) []" using wf by (simp add: mq_wf_def)
  then obtain i qs where qs: "mq_queue (mqs k q) = i # qs"
    using ne by (cases "mq_queue (mqs k q)") (auto simp: mq_inv_def unat_eq_0)
  obtain mq where u: "mq_unlink (mqs k q) = (Some i, mq)"
    using mq_inv_take_head(1) [OF inv qs] by (metis prod.collapse)
  have pool: "mq_msg_pool mq = mq_msg_pool (mqs k q)" "mq_msg_size mq = mq_msg_size (mqs k q)"
    using unlink_pool [of "mqs k q"] u by simp_all
  have g: "mq_get (mqs k q) = (msg_data (mq_msg_pool mq ! i), mq_give_back i mq)"
    using u by (simp add: mq_get_def)
  note st = mq_get_state [OF wf ne]
  have h: "msg_data (mq_msg_pool mq ! i) = hd (mq_items (mqs k q))"
    "mq_items (mq_give_back i mq) = tl (mq_items (mqs k q))"
    using st(2) g by (metis fst_conv list.sel(1)) (metis st(2) g snd_conv list.sel(3))
  have n: "(if sz > ucast (mq_msg_size (mqs k q)) then unat (mq_msg_size (mqs k q)) else unat sz) =
      min (unat sz) (unat (mq_msg_size (mqs k q)))"
    by (auto simp: word_less_nat_alt min_def)
  have r: "r = (Returned RT_EOK, Some (take (min (unat sz) (unat (mq_msg_size (mqs k q)))) (hd (mq_items (mqs k q)))),
      upd_mq q (\<lambda>_. mq_give_back i mq) k)"
    using s ne u h(1) unfolding r_def
    by (simp add: rt_mq_recv_def mq_recv_loop_def Let_def upd_mq_merge pool flip: n)
  have "mq_wf (mq_give_back i mq)" using st(1) g by simp
  then show "fst r = Returned RT_EOK"
    "fst (snd r) = Some (take (min (unat sz) (unat (mq_msg_size (mqs k q)))) (hd (mq_items (mqs k q))))"
    "mq_ok q (snd (snd r))" "mq_items (mqs (snd (snd r)) q) = tl (mq_items (mqs k q))"
    "threads (snd (snd r)) = threads k" "lists (snd (snd r)) = lists k" "fault (snd (snd r)) = fault k"
    using k h(2) by (simp_all add: r mq_ok_def)
qed

end
