(* ===== verification/Idle.thy ===== *)
theory Idle
  imports Ipc
begin

text \<open>
  The clean-up that the idle thread runs (\<^verbatim>\<open>src/idle.c\<close>): it takes closed threads off the
  defunct list, calls their cleanup function (the parameter \<open>cu\<close>, user code) and deletes
  their objects. The comment in the code says that one call does all the cleanups; it stops
  at the first thread that is a static object (lemma \<open>idle_stops_at_static\<close>).
\<close>

subsection \<open>Operations\<close>

definition has_defunct_thread :: "kernel \<Rightarrow> bool" where
  "has_defunct_thread k \<longleftrightarrow> lists k Defunct \<noteq> []"

definition run_cleanup :: "(nat \<Rightarrow> tid \<Rightarrow> kernel \<Rightarrow> kernel) \<Rightarrow> tid \<Rightarrow> kernel \<Rightarrow> kernel" where
  "run_cleanup cu t k = (case th_cleanup (threads k t) of None \<Rightarrow> k | Some f \<Rightarrow> cu f t k)"

text \<open>\<open>None\<close> means that the fuel ran out.\<close>

fun rt_thread_idle_excute :: "(nat \<Rightarrow> tid \<Rightarrow> kernel \<Rightarrow> kernel) \<Rightarrow> nat \<Rightarrow> kernel \<Rightarrow> kernel option" where
  "rt_thread_idle_excute cu 0 k = None"
| "rt_thread_idle_excute cu (Suc fuel) k =
     (if \<not> has_defunct_thread k then Some k
      else
        (let k = debug_not_in_interrupt k in
         case lists k Defunct of
           [] \<Rightarrow> Some k
         | t # _ \<Rightarrow>
             (let k = tlist_remove t k;
                  k = rt_enter_critical k;
                  k = run_cleanup cu t k
              in if rt_object_is_systemobject (Thread_obj t) k then Some (rt_exit_critical k)
                 else rt_thread_idle_excute cu fuel
                        (rt_object_delete (Thread_obj t) (rt_exit_critical k)))))"

subsection \<open>Lemmas\<close>

text \<open>What the clean-up relies on: the user's function leaves threads and lists alone.\<close>

definition keeps_lists :: "(nat \<Rightarrow> tid \<Rightarrow> kernel \<Rightarrow> kernel) \<Rightarrow> bool" where
  "keeps_lists cu \<longleftrightarrow> (\<forall>f t k. threads (cu f t k) = threads k \<and> lists (cu f t k) = lists k \<and>
     prio_group (cu f t k) = prio_group k \<and> obj_hdr (cu f t k) = obj_hdr k)"

lemma run_cleanup_sel:
  assumes "keeps_lists cu"
  shows "threads (run_cleanup cu t k) = threads k" "lists (run_cleanup cu t k) = lists k"
    "prio_group (run_cleanup cu t k) = prio_group k" "obj_hdr (run_cleanup cu t k) = obj_hdr k"
  using assms by (auto simp: run_cleanup_def keeps_lists_def split: option.splits)

definition idle_one :: "(nat \<Rightarrow> tid \<Rightarrow> kernel \<Rightarrow> kernel) \<Rightarrow> tid \<Rightarrow> kernel \<Rightarrow> kernel" where
  "idle_one cu t k =
     run_cleanup cu t (rt_enter_critical (tlist_remove t (debug_not_in_interrupt k)))"

lemma debug_not_in_interrupt_sel [simp]:
  "threads (debug_not_in_interrupt k) = threads k" "lists (debug_not_in_interrupt k) = lists k"
  "prio_group (debug_not_in_interrupt k) = prio_group k" "obj_hdr (debug_not_in_interrupt k) = obj_hdr k"
  by (simp_all add: debug_not_in_interrupt_def)

lemma idle_one_sel:
  assumes "keeps_lists cu"
  shows "threads (idle_one cu t k) = threads k" "lists (idle_one cu t k) = (\<lambda>l. removeAll t (lists k l))"
    "prio_group (idle_one cu t k) = prio_group k" "obj_hdr (idle_one cu t k) = obj_hdr k"
  using assms by (auto simp: idle_one_def run_cleanup_sel fun_eq_iff)

lemma idle_step:
  assumes "lists k Defunct = t # ts"
  shows "rt_thread_idle_excute cu (Suc fuel) k =
    (if obj_static (obj_hdr (idle_one cu t k) (Thread_obj t)) then Some (rt_exit_critical (idle_one cu t k))
     else rt_thread_idle_excute cu fuel
       (rt_object_delete (Thread_obj t) (rt_exit_critical (idle_one cu t k))))"
  using assms
  by (simp add: has_defunct_thread_def idle_one_def rt_object_is_systemobject_def Let_def)

lemma object_delete_hdr [simp]: "obj_hdr (rt_object_delete r k) = obj_hdr k"
  by (simp add: rt_object_delete_def obj_unlink_def Let_def)

lemma kernel_ok_idle_one:
  assumes "kernel_ok k" "keeps_lists cu" "t \<in> set (lists k Defunct)"
  shows "kernel_ok (idle_one cu t k)"
proof -
  have "stat_of (threads k t) = RT_THREAD_CLOSE" using kernel_ok_listD [OF assms(1,3)] by simp
  then have "kinv (tlist_remove t k)" using assms(1) by (intro kinv_tlist_remove) (auto simp: kernel_ok_def)
  moreover have "wait_ok (threads k) (\<lambda>l. removeAll t (lists k l))"
    using assms(1) by (auto simp: kernel_ok_def wait_ok_def)
  ultimately show ?thesis
    by (simp add: kernel_ok_def kinv_def idle_one_sel [OF assms(2)] tlist_remove_def)
qed

lemma kernel_ok_exit_critical [simp]: "kernel_ok (rt_exit_critical k) = kernel_ok k"
  by (rule kernel_ok_cong) simp_all

lemma idle_reaps_all:
  assumes cu: "keeps_lists cu" and "kernel_ok k" "length (lists k Defunct) < fuel"
    and "\<forall>t \<in> set (lists k Defunct). \<not> obj_static (obj_hdr k (Thread_obj t))"
  shows "\<exists>k'. rt_thread_idle_excute cu fuel k = Some k' \<and> kernel_ok k' \<and> lists k' Defunct = [] \<and>
    threads k' = threads k \<and> (\<forall>l. l \<noteq> Defunct \<longrightarrow> lists k' l = lists k l)"
  using assms(2-4)
proof (induction "lists k Defunct" arbitrary: k fuel)
  case Nil
  then obtain f where "fuel = Suc f" by (cases fuel) auto
  then show ?case using Nil by (auto simp: has_defunct_thread_def)
next
  case (Cons t ts)
  then obtain f where f: "fuel = Suc f" "length ts < f" by (cases fuel) (auto simp flip: Cons.hyps(2))
  let ?k = "rt_object_delete (Thread_obj t) (rt_exit_critical (idle_one cu t k))"
  have t: "t \<in> set (lists k Defunct)" using Cons.hyps(2) [symmetric] by simp
  have d: "t \<notin> set ts" using kernel_ok_distinct [OF Cons.prems(1), of Defunct] Cons.hyps(2) [symmetric] by simp
  have l: "lists ?k l = removeAll t (lists k l)" for l by (simp add: idle_one_sel [OF cu])
  have ts: "ts = lists ?k Defunct" unfolding l using d by (simp flip: Cons.hyps(2))
  have ok: "kernel_ok ?k" using kernel_ok_idle_one [OF Cons.prems(1) cu t] by simp
  have other: "lists ?k l = lists k l" if "l \<noteq> Defunct" for l
    unfolding l by (rule removeAll_id) (use kernel_ok_one_list [OF Cons.prems(1) t, of l] that in blast)
  have ns: "\<forall>u \<in> set (lists ?k Defunct). \<not> obj_static (obj_hdr ?k (Thread_obj u))"
    using Cons.prems(3) by (auto simp: idle_one_sel [OF cu])
  have len: "length (lists ?k Defunct) < f" using f(2) ts by simp
  from Cons.hyps(1) [OF ts ok len ns] obtain k' where k': "rt_thread_idle_excute cu f ?k = Some k'"
    "kernel_ok k'" "lists k' Defunct = []" "threads k' = threads ?k" "\<forall>l. l \<noteq> Defunct \<longrightarrow> lists k' l = lists ?k l"
    by blast
  have "\<not> obj_static (obj_hdr (idle_one cu t k) (Thread_obj t))"
    using Cons.prems(3) t by (simp add: idle_one_sel [OF cu])
  then have "rt_thread_idle_excute cu fuel k = Some k'"
    using k'(1) f(1) idle_step [OF Cons.hyps(2) [symmetric], of cu f] by simp
  then show ?case using k' other by (auto simp: idle_one_sel [OF cu])
qed

lemma idle_stops_at_static:
  assumes "keeps_lists cu" "lists k Defunct = t # ts" "obj_static (obj_hdr k (Thread_obj t))"
    and "t \<notin> set ts"
  shows "\<exists>k'. rt_thread_idle_excute cu (Suc fuel) k = Some k' \<and> lists k' Defunct = ts"
  using assms by (simp add: idle_step [OF assms(2)] idle_one_sel [OF assms(1)] del: rt_thread_idle_excute.simps)

end
