(* ===== verification/Kernel_Timers.thy ===== *)
theory Kernel_Timers
  imports Event Msgqueue Idle
begin

text \<open>
  What the kernel calls keep of the timers: \<open>timers_ok\<close> says that the timer of a thread is
  pending only while the thread is suspended, that a live thread's timer is a one-shot timer
  that runs \<^verbatim>\<open>rt_thread_timeout\<close> for it, and that the other timers run user functions. It is
  what makes the time-outs of a timer check hit suspended threads only.
\<close>

subsection \<open>The invariant\<close>

definition own_timer :: "kernel \<Rightarrow> tid \<Rightarrow> bool" where
  "own_timer k t \<longleftrightarrow> tm_func (timers k (Thread_timer t)) = Rt_thread_timeout t \<and>
     \<not> timer_periodic (timers k (Thread_timer t))"

definition timers_ok :: "kernel \<Rightarrow> bool" where
  "timers_ok k \<longleftrightarrow>
     (\<forall>t. Thread_timer t \<in> set (timer_list k) \<longrightarrow>
        stat_of (threads k t) = RT_THREAD_SUSPEND \<and> timer_activated (timers k (Thread_timer t))) \<and>
     (\<forall>t. live k t \<longrightarrow> own_timer k t) \<and>
     (\<forall>n. \<exists>m. tm_func (timers k (Timer n)) = User_timeout m)"

lemma timers_okD:
  assumes "timers_ok k" "Thread_timer t \<in> set (timer_list k)"
  shows "stat_of (threads k t) = RT_THREAD_SUSPEND" "timer_activated (timers k (Thread_timer t))"
    "own_timer k t"
  using assms by (auto simp: timers_ok_def live_def)

lemma timers_ok_cong:
  assumes "\<And>t. stat_of (threads k' t) = stat_of (threads k t)" "timers k' = timers k"
    "timer_list k' = timer_list k"
  shows "timers_ok k' = timers_ok k"
  using assms by (simp add: timers_ok_def live_def own_timer_def)

lemma activated_flags [simp]:
  "\<not> timer_activated (clear_activated tm)"
  "timer_activated (tm\<lparr>tm_timeout_tick := a, tm_flag := f OR RT_TIMER_FLAG_ACTIVATED\<rparr>)"
  "timer_activated (tm\<lparr>tm_init_tick := a\<rparr>) = timer_activated tm"
  "timer_periodic (tm\<lparr>tm_init_tick := a\<rparr>) = timer_periodic tm"
proof -
  have "(x AND NOT 1) AND 1 = (0 :: u8)" "(x OR 1) AND 1 = (1 :: u8)" for x :: u8
    by (auto simp: bit_eq_iff bit_simps)
  then show "\<not> timer_activated (clear_activated tm)"
    "timer_activated (tm\<lparr>tm_timeout_tick := a, tm_flag := f OR RT_TIMER_FLAG_ACTIVATED\<rparr>)"
    by (simp_all add: timer_activated_def clear_activated_def)
qed (simp_all add: timer_activated_def timer_periodic_def)

lemma upd_timer_threads [simp]: "threads (upd_timer i f k) = threads k"
  by (simp add: upd_timer_def)

lemma upd_timers_ok:
  assumes "timers_ok k"
    and "\<And>t. i = Thread_timer t \<Longrightarrow> own_timer k t \<Longrightarrow> own_timer (upd_timer i f k) t"
    and "\<And>t. i = Thread_timer t \<Longrightarrow> Thread_timer t \<in> set (timer_list k) \<Longrightarrow>
      timer_activated (timers k i) \<Longrightarrow> timer_activated (f (timers k i))"
    and "\<And>n. i = Timer n \<Longrightarrow> \<exists>m. tm_func (f (timers k i)) = User_timeout m"
  shows "timers_ok (upd_timer i f k)"
  using assms unfolding timers_ok_def live_def own_timer_def
  by (cases i) auto

lemma remove_timers_ok [simp]: "timers_ok k \<Longrightarrow> timers_ok (rt_timer_remove i k)"
  by (auto simp: timers_ok_def live_def own_timer_def)

subsection \<open>Operations that leave threads' states and timers alone\<close>

lemma timers_ok_frame [simp]:
  "timers_ok (rt_schedule k) = timers_ok k" "timers_ok (rt_assert b k) = timers_ok k"
  "timers_ok (upd_sem s v k) = timers_ok k" "timers_ok (upd_mutex s fm k) = timers_ok k"
  "timers_ok (upd_event s u k) = timers_ok k" "timers_ok (upd_mb s fb k) = timers_ok k"
  "timers_ok (upd_mq s fq k) = timers_ok k" "timers_ok (set_obj_flag s fl k) = timers_ok k"
  "timers_ok (rt_ipc_object_init s k) = timers_ok k" "timers_ok (sender_list_init s k) = timers_ok k"
  "timers_ok (tlist_remove t k) = timers_ok k" "timers_ok (tlist_insert_before l t k) = timers_ok k"
  "timers_ok (tlist_insert_after l t k) = timers_ok k"
  "timers_ok (rt_schedule_remove_thread t k) = timers_ok k"
  "timers_ok (k\<lparr>lists := L\<rparr>) = timers_ok k" "timers_ok (k\<lparr>tick := tk\<rparr>) = timers_ok k"
  "timers_ok (rt_object_init r c name k) = timers_ok k" "timers_ok (rt_object_detach r k) = timers_ok k"
  "timers_ok (rt_object_delete r k) = timers_ok k"
  "timers_ok (rt_enter_critical k) = timers_ok k" "timers_ok (rt_exit_critical k) = timers_ok k"
  "timers_ok (rt_interrupt_enter k) = timers_ok k" "timers_ok (rt_interrupt_leave k) = timers_ok k"
  "timers_ok (debug_not_in_interrupt k) = timers_ok k"
  "timers_ok (debug_in_thread_context k) = timers_ok k"
  "timers_ok (rt_system_scheduler_start k) = timers_ok k"
  by (rule timers_ok_cong;
      simp add: upd_sem_def upd_mutex_def upd_event_def upd_mb_def upd_mq_def set_obj_flag_def
        rt_ipc_object_init_def sender_list_init_def tlist_insert_before_def tlist_insert_after_def
        kobj_defs rt_enter_critical_def rt_exit_critical_def rt_interrupt_enter_def
        rt_interrupt_leave_def debug_not_in_interrupt_def debug_in_thread_context_def
        rt_system_scheduler_start_def Let_def split: list.split option.split)+

lemma timers_ok_allocate [simp]: "timers_ok (snd (rt_object_allocate mem c name k)) = timers_ok k"
  by (rule timers_ok_cong;
      cases mem; simp add: rt_object_allocate_def debug_not_in_interrupt_def upd_hdr_def obj_link_def Let_def)

lemma timers_ok_upd_thread [simp]:
  "(\<And>th. stat_of (f th) = stat_of th) \<Longrightarrow> timers_ok (upd_thread t f k) = timers_ok k"
  by (rule timers_ok_cong) simp_all

subsection \<open>The moves\<close>

lemma timers_ok_stop [simp]: "timers_ok k \<Longrightarrow> timers_ok (snd (rt_timer_stop i k))"
  by (auto simp: rt_timer_stop_def own_timer_def timers_ok_def live_def intro!: upd_timers_ok)

lemma timers_ok_start:
  assumes "timers_ok k" "\<And>t. i = Thread_timer t \<Longrightarrow> stat_of (threads k t) = RT_THREAD_SUSPEND"
  shows "timers_ok (snd (rt_timer_start i k))"
proof -
  have "(f AND NOT 1 OR 1) AND 2 = f AND 2" for f :: u8
    by (rule bit_eqI) (auto simp: bit_simps)
  then have "timer_periodic (timers (snd (rt_timer_start i k)) j) = timer_periodic (timers k j)" for j
    by (simp add: timer_start_frame timer_periodic_def)
  then show ?thesis using assms
    by (cases i) (auto simp: timers_ok_def live_def own_timer_def timer_start_frame(2),
        auto simp: timer_start_frame(1))
qed

lemma timers_ok_set_time [simp]:
  "timers_ok k \<Longrightarrow> timers_ok (snd (rt_timer_control i (SET_TIME v) k))"
  by (auto simp: rt_timer_control_def own_timer_def timers_ok_def live_def intro!: upd_timers_ok)

text \<open>A thread that leaves the suspended state has no pending timer any more.\<close>

lemma not_pending: "timers_ok k \<Longrightarrow> stat_of (threads k t) \<noteq> RT_THREAD_SUSPEND \<Longrightarrow>
    Thread_timer t \<notin> set (timer_list k)"
  using timers_okD(1) by blast

lemma stop_not_pending: "timers_ok k \<Longrightarrow> Thread_timer t \<notin> set (timer_list (snd (rt_timer_stop (Thread_timer t) k)))"
  using timers_okD(2) by (auto simp: rt_timer_stop_def)

lemma timers_ok_upd_stat:
  assumes "timers_ok k" "live k t \<or> own_timer k t" "Thread_timer t \<notin> set (timer_list k)"
  shows "timers_ok (upd_thread t f k)"
  using assms by (auto simp: timers_ok_def live_def own_timer_def)

lemma timers_ok_insert_thread:
  assumes "timers_ok k" "live k t" "Thread_timer t \<notin> set (timer_list k)"
  shows "timers_ok (rt_schedule_insert_thread t k)"
proof -
  have "timers_ok (rt_schedule_insert_thread t k) = timers_ok (upd_thread t (set_stat RT_THREAD_READY) k)"
    by (rule timers_ok_cong) simp_all
  then show ?thesis using timers_ok_upd_stat assms by simp
qed

lemma timers_ok_suspend [simp]:
  assumes "timers_ok k"
  shows "timers_ok (snd (rt_thread_suspend t k))"
proof (cases "stat_of (threads k t) = RT_THREAD_READY")
  case True
  have "timers_ok (upd_thread t (set_stat RT_THREAD_SUSPEND) k)"
    using True not_pending [OF assms, of t] by (intro timers_ok_upd_stat assms) (auto simp: live_def)
  then show ?thesis using True by (simp add: rt_thread_suspend_def Let_def)
qed (simp add: rt_thread_suspend_def assms)

lemma stop_live [simp]: "live (snd (rt_timer_stop i k)) t = live k t" "live (tlist_remove u k) t = live k t"
  by (simp_all add: live_def)

lemma timers_ok_resume [simp]:
  assumes "timers_ok k"
  shows "timers_ok (snd (rt_thread_resume t k))"
proof (cases "stat_of (threads k t) = RT_THREAD_SUSPEND")
  case True
  let ?k = "snd (rt_timer_stop (Thread_timer t) (tlist_remove t k))"
  have "timers_ok (rt_schedule_insert_thread t ?k)"
    using assms True stop_not_pending [of "tlist_remove t k" t]
    by (intro timers_ok_insert_thread) (simp_all add: live_def)
  then show ?thesis using True by (simp add: rt_thread_resume_def Let_def)
qed (simp add: rt_thread_resume_def assms)

lemma timers_ok_wait_timer:
  assumes "timers_ok k" "stat_of (threads k t) = RT_THREAD_SUSPEND"
  shows "timers_ok (start_wait_timer t time k)"
  using assms by (auto simp: start_wait_timer_def intro!: timers_ok_start)

lemma timers_ok_list_suspend [simp]:
  "timers_ok k \<Longrightarrow> timers_ok (rt_ipc_list_suspend l t f k)"
  by (simp add: rt_ipc_list_suspend_def case_prod_beta Let_def)

lemma list_suspend_stat:
  "stat_of (threads k t) = RT_THREAD_READY \<Longrightarrow>
     stat_of (threads (rt_ipc_list_suspend l t f k) t) = RT_THREAD_SUSPEND"
  using rt_thread_suspend_lists [of k t]
  by (simp add: rt_ipc_list_suspend_def case_prod_beta Let_def tlist_insert_before_def)

lemma timers_ok_block [simp]:
  "timers_ok k \<Longrightarrow> stat_of (threads k t) = RT_THREAD_READY \<Longrightarrow>
     timers_ok (start_wait_timer t time (rt_ipc_list_suspend l t f k))"
  by (simp add: timers_ok_wait_timer list_suspend_stat)

lemma timers_ok_list_resume [simp]: "timers_ok k \<Longrightarrow> timers_ok (rt_ipc_list_resume l k)"
  by (simp add: rt_ipc_list_resume_def split: list.split)

lemma timers_ok_resume_with_error: "timers_ok k \<Longrightarrow> timers_ok (resume_with_error t k)"
  by (simp add: resume_with_error_def)

lemma timers_ok_resume_all_loop: "timers_ok k \<Longrightarrow> resume_all_loop n l k = Some k' \<Longrightarrow> timers_ok k'"
proof (induction n arbitrary: k)
  case (Suc n)
  then show ?case
    using Suc.IH [of "resume_with_error (hd (lists k l)) k"] timers_ok_resume_with_error
    by (auto simp: resume_all_loop.simps [of "Suc n"] split: list.splits)
qed (auto simp: resume_all_loop.simps [of 0] split: list.splits)

lemma timers_ok_resume_all [simp]: "timers_ok k \<Longrightarrow> timers_ok (rt_ipc_list_resume_all l k)"
  using timers_ok_resume_all_loop [of k "length (lists k l)" l]
  by (auto simp: rt_ipc_list_resume_all_def split: option.split)

lemma timers_ok_control [simp]:
  assumes "timers_ok k"
  shows "timers_ok (snd (rt_thread_control t (CTRL_CHANGE_PRIORITY p) k))"
proof (cases "stat_of (threads k t) = RT_THREAD_READY")
  case True
  then show ?thesis using assms not_pending [OF assms, of t]
    by (simp add: rt_thread_control_def Let_def timers_ok_insert_thread live_def)
qed (simp add: rt_thread_control_def Let_def assms)

lemma control_stat [simp]:
  "stat_of (threads (snd (rt_thread_control t (CTRL_CHANGE_PRIORITY p) k)) u) = stat_of (threads k u)"
  by (simp add: rt_thread_control_def Let_def)

subsection \<open>Threads\<close>

lemma timers_ok_close:
  assumes "timers_ok k" "timers k' = timers k" "timer_list k' = removeAll (Thread_timer t) (timer_list k)"
    and "\<And>u. u \<noteq> t \<Longrightarrow> threads k' u = threads k u" "\<not> live k' t"
  shows "timers_ok k'"
  unfolding timers_ok_def
proof (intro conjI allI impI)
  fix u
  show "stat_of (threads k' u) = RT_THREAD_SUSPEND" "timer_activated (timers k' (Thread_timer u))"
    if "Thread_timer u \<in> set (timer_list k')"
    using that assms(2-4) timers_okD(1,2) [OF assms(1), of u] by auto
  show "own_timer k' u" if "live k' u"
    using that assms by (cases "u = t") (auto simp: timers_ok_def own_timer_def live_def)
  show "\<exists>m. tm_func (timers k' (Timer u)) = User_timeout m"
    using assms(1,2) by (simp add: timers_ok_def)
qed

lemma timer_detach_sel [simp]:
  "timers (snd (rt_timer_detach i k)) = timers k"
  "timer_list (snd (rt_timer_detach i k)) = removeAll i (timer_list k)"
  by (simp_all add: rt_timer_detach_def kobj_defs)

lemma insert_after_timers [simp]:
  "timers (tlist_insert_after l t k) = timers k" "timer_list (tlist_insert_after l t k) = timer_list k"
  by (simp_all add: tlist_insert_after_def)

lemma object_detach_timers [simp]:
  "timers (rt_object_detach r k) = timers k" "timer_list (rt_object_detach r k) = timer_list k"
  by (simp_all add: kobj_defs)

lemma timers_ok_exit:
  assumes "timers_ok k"
  shows "timers_ok (rt_thread_exit k)"
proof (cases "current k")
  case (Some t)
  show ?thesis
    by (rule timers_ok_close [OF assms, of _ t]) (simp_all add: Some rt_thread_exit_def Let_def live_def)
qed (simp add: rt_thread_exit_def assms)

lemma timers_ok_detach:
  assumes "timers_ok k"
  shows "timers_ok (snd (rt_thread_detach t k))"
  by (rule timers_ok_close [OF assms, of _ t]) (simp_all add: rt_thread_detach_def Let_def live_def)

lemma timers_ok_delete:
  assumes "timers_ok k"
  shows "timers_ok (snd (rt_thread_delete t k))"
  by (rule timers_ok_close [OF assms, of _ t]) (simp_all add: rt_thread_delete_def Let_def live_def)

lemma timers_ok_init_fields:
  assumes "timers_ok k" "\<not> live k t"
  shows "timers_ok (snd (rt_thread_init_fields t name p tk k))"
proof -
  have "Thread_timer t \<notin> set (timer_list k)" using assms not_pending by (auto simp: live_def)
  then show ?thesis using assms
    by (auto simp: rt_thread_init_fields_def Let_def timers_ok_def live_def own_timer_def
        rt_timer_init_def rt_timer_init_fields_def kobj_defs stat_of_def timer_periodic_def clear_activated_def)
qed

lemma timers_ok_init:
  assumes "timers_ok k" "\<not> live k t"
  shows "timers_ok (snd (rt_thread_init t name p tk k))"
  using assms by (simp add: rt_thread_init_def timers_ok_init_fields live_def)

lemma timers_ok_create:
  assumes "timers_ok k" "\<And>t. mem = Some t \<Longrightarrow> \<not> live k t"
  shows "timers_ok (snd (rt_thread_create mem st name p tk k))"
  using assms
  by (auto simp: rt_thread_create_def case_prod_beta live_def split: option.split intro!: timers_ok_init_fields)

lemma timers_ok_startup:
  assumes "timers_ok k" "stat_of (threads k t) = RT_THREAD_INIT" "own_timer k t"
  shows "timers_ok (snd (rt_thread_startup t k))"
  using assms not_pending [of k t]
  by (simp add: rt_thread_startup_def Let_def timers_ok_upd_stat own_timer_def)

lemma timers_ok_yield: "timers_ok k \<Longrightarrow> timers_ok (snd (rt_thread_yield k))"
  by (simp add: rt_thread_yield_def Let_def split: option.split)

lemma timers_ok_sleep: "timers_ok k \<Longrightarrow> running t k \<Longrightarrow> timers_ok (rt_thread_sleep tk k)"
  using rt_thread_suspend_lists [of k t]
  by (auto simp: rt_thread_sleep_def Let_def running_def intro!: timers_ok_start)

lemma timers_ok_timeout:
  assumes "timers_ok k" "own_timer k t" "Thread_timer t \<notin> set (timer_list k)"
    "stat_of (threads k t) = RT_THREAD_SUSPEND"
  shows "timers_ok (rt_thread_timeout t k)"
  using assms by (simp add: rt_thread_timeout_def Let_def timers_ok_insert_thread live_def)

subsection \<open>IPC calls\<close>

lemma debug_in_thread_sel [simp]:
  "threads (debug_in_thread_context k) = threads k" "current (debug_in_thread_context k) = current k"
  by (simp_all add: debug_in_thread_context_def debug_not_in_interrupt_def)

lemma timers_ok_sem:
  assumes "timers_ok k"
  shows "timers_ok (snd (rt_sem_init s name v f k))" "timers_ok (snd (rt_sem_detach s k))"
    "timers_ok (snd (rt_sem_create mem name v f k))" "timers_ok (snd (rt_sem_delete s k))"
    "running t k \<Longrightarrow> timers_ok (snd (rt_sem_take s time k))" "timers_ok (snd (rt_sem_release s k))"
    "timers_ok (snd (rt_sem_control s c v k))"
  using assms
  by (simp_all add: rt_sem_init_def rt_sem_detach_def rt_sem_create_def rt_sem_delete_def Let_def
      case_prod_beta rt_sem_take_def [of _ _ k] rt_thread_self_def upd_clear_error running_def
      rt_sem_release_def rt_sem_control_def split: option.split)

lemma timers_ok_take_again [simp]:
  assumes "timers_ok k" "stat_of (threads k t) = RT_THREAD_READY"
  shows "timers_ok (snd (mutex_take_again m time t k))"
  using assms
  by (auto simp: mutex_take_again_def Let_def split: option.split)

lemma timers_ok_mutex:
  assumes "timers_ok k"
  shows "timers_ok (snd (rt_mutex_init m name f k))" "timers_ok (snd (rt_mutex_detach m k))"
    "timers_ok (snd (rt_mutex_create mem name f k))" "timers_ok (snd (rt_mutex_delete m k))"
    "running t k \<Longrightarrow> timers_ok (snd (rt_mutex_take m time k))"
    "running t k \<Longrightarrow> timers_ok (snd (rt_mutex_take_return m time t k))"
    "timers_ok (snd (rt_mutex_release m k))" "timers_ok (snd (rt_mutex_control m c v k))"
  using assms
  by (simp_all add: rt_mutex_init_def rt_mutex_detach_def rt_mutex_create_def rt_mutex_delete_def Let_def
      case_prod_beta rt_mutex_take_def rt_mutex_take_return_def rt_thread_self_def upd_clear_error
      running_def rt_mutex_release_def rt_mutex_control_def split: option.split list.split)

lemma timers_ok_send_loop:
  "timers_ok k \<Longrightarrow> timers_ok (snd (event_send_loop e ts b k))"
  by (induction ts arbitrary: b k) (simp_all add: Let_def)

lemma timers_ok_event:
  assumes "timers_ok k"
  shows "timers_ok (snd (rt_event_init e name f k))" "timers_ok (snd (rt_event_detach e k))"
    "timers_ok (snd (rt_event_create mem name f k))" "timers_ok (snd (rt_event_delete e k))"
    "timers_ok (snd (rt_event_send e v k))"
    "running t k \<Longrightarrow> timers_ok (snd (snd (rt_event_recv e v opt time k)))"
    "timers_ok (snd (rt_event_control e c v k))"
  using assms
  by (simp_all add: rt_event_init_def rt_event_detach_def rt_event_create_def rt_event_delete_def Let_def
      case_prod_beta rt_event_send_def timers_ok_send_loop rt_event_recv_def rt_thread_self_def
      upd_clear_error running_def rt_event_control_def split: option.split)

lemma timers_ok_mb_loops:
  assumes "timers_ok k" "stat_of (threads k t) = RT_THREAD_READY"
  shows "timers_ok (snd (mb_send_loop m v time (Some t) k))"
    "timers_ok (snd (snd (mb_recv_loop m time (Some t) k)))"
    "timers_ok (snd (snd (mq_recv_loop m sz time (Some t) k)))"
  using assms
  by (auto simp: mb_send_loop_def mb_recv_loop_def mq_recv_loop_def upd_clear_error Let_def
      debug_in_thread_context_def debug_not_in_interrupt_def
      split: option.split prod.split)

lemma timers_ok_mailbox:
  assumes "timers_ok k"
  shows "timers_ok (snd (rt_mb_init m name pool sz f k))" "timers_ok (snd (rt_mb_detach m k))"
    "timers_ok (snd (rt_mb_create mem mpool name sz f k))" "timers_ok (snd (rt_mb_delete m k))"
    "running t k \<Longrightarrow> timers_ok (snd (rt_mb_send_wait m v time k))"
    "running t k \<Longrightarrow> timers_ok (snd (rt_mb_send_wait_return m v time st t k))"
    "running t k \<Longrightarrow> timers_ok (snd (snd (rt_mb_recv m time k)))"
    "running t k \<Longrightarrow> timers_ok (snd (snd (rt_mb_recv_return m time st t k)))"
    "timers_ok (snd (rt_mb_control m c v k))"
  using assms
  by (simp_all add: rt_mb_init_def rt_mb_detach_def rt_mb_create_def rt_mb_delete_def Let_def
      case_prod_beta rt_mb_send_wait_def rt_mb_send_wait_return_def rt_mb_recv_def rt_mb_recv_return_def
      rt_thread_self_def running_def timers_ok_mb_loops rt_mb_control_def split: option.split)

lemma timers_ok_mq_wake: "timers_ok k \<Longrightarrow> timers_ok (snd (mq_wake q k))"
  by (simp add: mq_wake_def)

lemma timers_ok_msgqueue:
  assumes "timers_ok k"
  shows "timers_ok (snd (rt_mq_init q name slots ms ps f k))" "timers_ok (snd (rt_mq_detach q k))"
    "timers_ok (snd (rt_mq_create mem mslots name ms n f k))" "timers_ok (snd (rt_mq_delete q k))"
    "timers_ok (snd (rt_mq_send q buf sz k))" "timers_ok (snd (rt_mq_urgent q buf sz k))"
    "running t k \<Longrightarrow> timers_ok (snd (snd (rt_mq_recv q sz time k)))"
    "running t k \<Longrightarrow> timers_ok (snd (snd (rt_mq_recv_return q sz time st t k)))"
    "timers_ok (snd (rt_mq_control q c v k))"
  using assms
  by (auto simp: rt_mq_init_def rt_mq_detach_def rt_mq_create_def rt_mq_delete_def Let_def
      case_prod_beta rt_mq_send_def rt_mq_urgent_def timers_ok_mq_wake rt_mq_recv_def
      rt_mq_recv_return_def rt_thread_self_def running_def timers_ok_mb_loops rt_mq_control_def
      split: option.split prod.split)

subsection \<open>User timers\<close>

lemma timers_ok_init_timer:
  "timers_ok k \<Longrightarrow> timers_ok (rt_timer_init_fields (Timer n) (User_timeout m) tt fl k)"
  by (auto simp: rt_timer_init_fields_def intro!: upd_timers_ok) (auto simp: timers_ok_def)

lemma timers_ok_user_timer:
  assumes "timers_ok k"
  shows "timers_ok (rt_timer_init (Timer n) name (User_timeout m) tt fl k)"
    "timers_ok (snd (rt_timer_create (Some (Timer n)) name (User_timeout m) tt fl k))"
    "timers_ok (snd (rt_timer_create None name (User_timeout m) tt fl k))"
    "timers_ok (snd (rt_timer_detach (Timer n) k))" "timers_ok (snd (rt_timer_delete (Timer n) k))"
    "timers_ok (snd (rt_timer_start (Timer n) k))" "timers_ok (snd (rt_timer_stop (Timer n) k))"
    "timers_ok (snd (rt_timer_control (Timer n) cmd k))"
proof -
  show "timers_ok (rt_timer_init (Timer n) name (User_timeout m) tt fl k)"
    "timers_ok (snd (rt_timer_detach (Timer n) k))" "timers_ok (snd (rt_timer_delete (Timer n) k))"
    "timers_ok (snd (rt_timer_start (Timer n) k))" "timers_ok (snd (rt_timer_stop (Timer n) k))"
    using assms
    by (auto simp: rt_timer_init_def timers_ok_init_timer rt_timer_detach_def rt_timer_delete_def
        intro!: timers_ok_start)
  show "timers_ok (snd (rt_timer_create (Some (Timer n)) name (User_timeout m) tt fl k))"
    "timers_ok (snd (rt_timer_create None name (User_timeout m) tt fl k))"
    using assms
    by (auto simp: rt_timer_create_def case_prod_beta timers_ok_init_timer split: option.split)
  show "timers_ok (snd (rt_timer_control (Timer n) cmd k))"
    using assms
    by (cases cmd) (auto simp: rt_timer_control_def timers_ok_def live_def own_timer_def)
qed

end
