(* ===== verification/Kernel_Objects.thy ===== *)
theory Kernel_Objects
  imports Kernel_Timers
begin

text \<open>
  The blocking and waking calls of the IPC objects keep \<open>objects_ok\<close>: the invariant \<open>kernel_ok\<close> of
  threads and lists, and a valid saved priority in every owned mutex.
\<close>

subsection \<open>The invariant\<close>

definition mutex_prios_ok :: "kernel \<Rightarrow> bool" where
  "mutex_prios_ok k \<longleftrightarrow> (\<forall>m. mtx_owner (mutexes k m) \<noteq> None \<longrightarrow>
     unat (mtx_original_priority (mutexes k m)) < RT_THREAD_PRIORITY_MAX)"

definition objects_ok :: "kernel \<Rightarrow> bool" where
  "objects_ok k \<longleftrightarrow> kernel_ok k \<and> mutex_prios_ok k"

lemma objects_ok_kernel: "objects_ok k \<Longrightarrow> kernel_ok k"
  by (simp add: objects_ok_def)

lemma objects_okI: "kernel_ok k' \<Longrightarrow> mutexes k' = mutexes k \<Longrightarrow> objects_ok k \<Longrightarrow> objects_ok k'"
  by (simp add: objects_ok_def mutex_prios_ok_def)

lemma objects_ok_schedule [simp]: "objects_ok (rt_schedule k) = objects_ok k"
  by (simp add: objects_ok_def mutex_prios_ok_def)

lemma objects_ok_assert [simp]: "objects_ok (rt_assert b k) = objects_ok k"
  by (simp add: objects_ok_def mutex_prios_ok_def)

lemma running_ready: "running t k \<Longrightarrow> stat_of (threads k t) = RT_THREAD_READY"
  by (simp add: running_def)

lemma kernel_ok_list_suspend:
  assumes "kernel_ok k" "stat_of (threads k t) = RT_THREAD_READY" "wait_list l"
  shows "kernel_ok (rt_ipc_list_suspend l t f k)"
proof (cases "f = RT_IPC_FLAG_FIFO \<or> f = RT_IPC_FLAG_PRIO")
  case True
  then show ?thesis using list_suspend_state(1) [OF assms] by blast
next
  case False
  then show ?thesis using assms(1) by (simp add: rt_ipc_list_suspend_def case_prod_beta Let_def)
qed

lemma kernel_ok_wait_state:
  assumes "kernel_ok k" "stat_of (threads k t) = RT_THREAD_READY" "wait_list l"
    and g: "\<And>th. th_stat (g th) = th_stat th" "\<And>th. th_current_priority (g th) = th_current_priority th"
      "\<And>th. th_number_mask (g th) = th_number_mask th"
  shows "kernel_ok (wait_state l t f g time k)"
proof -
  have "kernel_ok (upd_thread t g k)" using assms(1) g by (rule kernel_ok_upd_frame)
  moreover have "stat_of (threads (upd_thread t g k) t) = RT_THREAD_READY"
    using assms(2) g(1) by (simp add: stat_of_def)
  ultimately show ?thesis
    using kernel_ok_list_suspend [OF _ _ assms(3)] by (simp add: wait_state_def)
qed

lemma kernel_ok_clear_error: "kernel_ok k \<Longrightarrow> kernel_ok (upd_thread t clear_error k)"
  by (rule kernel_ok_upd_frame) simp_all

lemma kernel_ok_set_error: "kernel_ok k \<Longrightarrow> kernel_ok (upd_thread t (\<lambda>th. th\<lparr>th_error := e\<rparr>) k)"
  by (rule kernel_ok_upd_frame) simp_all

lemma kernel_ok_resume_list: "kernel_ok k \<Longrightarrow> kernel_ok (rt_ipc_list_resume l k)"
  by (simp add: rt_ipc_list_resume_def split: list.splits)

lemma kernel_ok_resume_all: "kernel_ok k \<Longrightarrow> wait_list l \<Longrightarrow> kernel_ok (rt_ipc_list_resume_all l k)"
  using resume_all_state [of k l] by simp

subsection \<open>Semaphores and mutexes\<close>

lemma upd_sem_mutexes [simp]: "mutexes (upd_sem s v k) = mutexes k"
  by (simp add: upd_sem_def)

lemma objects_ok_sem_take:
  assumes "objects_ok k" "running t k"
  shows "objects_ok (snd (rt_sem_take s time k))"
proof -
  have k: "kernel_ok k" using assms(1) by (simp add: objects_ok_def)
  have "kernel_ok (wait_state (Suspend s) t (obj_flag_of s k) clear_error time k)"
    by (rule kernel_ok_wait_state) (use k running_ready [OF assms(2)] in simp_all)
  then have "kernel_ok (snd (rt_sem_take s time k)) \<and> mutexes (snd (rt_sem_take s time k)) = mutexes k"
    using k sem_take_blocks [OF _ _ assms(2), of s time]
    by (cases "sem_value (sems k s) = 0"; cases "time = 0")
      (auto simp: rt_sem_take_def [of _ _ k] word_gt_0)
  then show ?thesis using assms(1) objects_okI by blast
qed

lemma objects_ok_sem_release: "objects_ok k \<Longrightarrow> objects_ok (snd (rt_sem_release s k))"
  using kernel_ok_resume_list [of k "Suspend s"]
  by (auto simp: rt_sem_release_def objects_ok_def mutex_prios_ok_def)

lemma objects_ok_sem_control: "objects_ok k \<Longrightarrow> objects_ok (snd (rt_sem_control s cmd v k))"
  using kernel_ok_resume_all [of k "Suspend s"]
  by (auto simp: rt_sem_control_def Let_def objects_ok_def mutex_prios_ok_def)

lemma objects_ok_mutex_take_again:
  assumes ok: "objects_ok k" and r: "stat_of (threads k t) = RT_THREAD_READY"
  shows "objects_ok (snd (mutex_take_again m time t k))"
proof -
  have k: "kernel_ok k" and p: "mutex_prios_ok k" using ok by (auto simp: objects_ok_def)
  note pr = running_prio [OF k r]
  consider (free) "mtx_value (mutexes k m) > 0" | (zero) "mtx_value (mutexes k m) = 0" "time = 0"
    | (none) "mtx_value (mutexes k m) = 0" "time \<noteq> 0" "mtx_owner (mutexes k m) = None"
    | (blk) w where "mtx_value (mutexes k m) = 0" "time \<noteq> 0" "mtx_owner (mutexes k m) = Some w"
    by (cases "mtx_owner (mutexes k m)") (auto simp: word_gt_0)
  then show ?thesis
  proof cases
    case free
    then show ?thesis using k p pr
      by (simp add: mutex_take_again_def objects_ok_def mutex_prios_ok_def)
  next
    case zero
    then show ?thesis using p kernel_ok_set_error [OF k]
      by (simp add: mutex_take_again_def objects_ok_def mutex_prios_ok_def)
  next
    case none
    then show ?thesis using ok by (simp add: mutex_take_again_def)
  next
    case blk
    note b = boost_state [OF k r, where w = w]
    have r': "stat_of (threads (boost w t k) t) = RT_THREAD_READY" using b(5) r by simp
    have "kernel_ok (wait_state (Suspend m) t (obj_flag_of m k) (\<lambda>th. th) time (boost w t k))"
      by (rule kernel_ok_wait_state [OF b(1) r']) simp_all
    then show ?thesis using p
      by (simp add: mutex_take_again_blocks [OF blk(3,1,2)] objects_ok_def mutex_prios_ok_def)
  qed
qed

lemma objects_ok_mutex_take:
  assumes "objects_ok k" "running t k"
  shows "objects_ok (snd (rt_mutex_take m time k))"
proof -
  have k: "objects_ok (upd_thread t clear_error k)"
    using assms(1) kernel_ok_clear_error by (simp add: objects_ok_def mutex_prios_ok_def)
  have "stat_of (threads (upd_thread t clear_error k) t) = RT_THREAD_READY"
    using running_ready [OF assms(2)] by simp
  note a = objects_ok_mutex_take_again [OF k this, of m time]
  show ?thesis using k a
    by (simp add: mutex_take_unfold [OF assms(2)] objects_ok_def mutex_prios_ok_def)
qed

lemma objects_ok_mutex_take_return:
  assumes "objects_ok k" "stat_of (threads k t) = RT_THREAD_READY"
  shows "objects_ok (snd (rt_mutex_take_return m time t k))"
  using assms objects_ok_mutex_take_again [OF assms] by (simp add: rt_mutex_take_return_def)

lemma objects_ok_mutex_release:
  assumes ok: "objects_ok k" and r: "running t k"
  shows "objects_ok (snd (rt_mutex_release m k))"
proof -
  have k: "kernel_ok k" and p: "mutex_prios_ok k" using ok by (auto simp: objects_ok_def)
  show ?thesis
  proof (cases "mtx_owner (mutexes k m) = Some t")
    case False
    then show ?thesis using p kernel_ok_set_error [OF k]
      by (simp add: mutex_release_refused [OF r] objects_ok_def mutex_prios_ok_def)
  next
    case o: True
    show ?thesis
    proof (cases "mtx_hold (mutexes k m) = 1")
      case False
      then show ?thesis using k p
        by (simp add: mutex_release_nested [OF r o] objects_ok_def mutex_prios_ok_def)
    next
      case True
      let ?u = "unboost m t (drop_hold m k)"
      have b: "unat (mtx_original_priority (mutexes (drop_hold m k) m)) < RT_THREAD_PRIORITY_MAX"
        using p o by (simp add: mutex_prios_ok_def)
      have kd: "kernel_ok (drop_hold m k)" using k by simp
      note u = unboost_state [OF kd b, where t = t]
      have pu: "mutex_prios_ok ?u" using p by (simp add: mutex_prios_ok_def drop_hold_def)
      show ?thesis
      proof (cases "lists ?u (Suspend m)")
        case Nil
        then show ?thesis using u(1) pu
          by (simp add: mutex_release_last [OF r o True] Let_def objects_ok_def mutex_prios_ok_def)
      next
        case (Cons w ws)
        have "stat_of (threads ?u w) = RT_THREAD_SUSPEND"
          using waiting_suspended [OF u(1), of w "Suspend m"] Cons by simp
        then have "unat (th_current_priority (threads ?u w)) < RT_THREAD_PRIORITY_MAX"
          using kinv_live_mask [OF kernel_ok_kinv [OF u(1)], of w] by (simp add: mask_ok_def)
        then show ?thesis using u(1) pu Cons kernel_ok_resume_list
          by (simp add: mutex_release_last [OF r o True] Let_def objects_ok_def mutex_prios_ok_def)
      qed
    qed
  qed
qed

subsection \<open>Events, mailboxes and message queues\<close>

lemma objects_ok_event_send: "objects_ok k \<Longrightarrow> objects_ok (snd (rt_event_send e s k))"
proof -
  assume ok: "objects_ok k"
  have "mutexes (snd (event_send_loop e ts b k)) = mutexes k" for ts b k
  proof (induction ts arbitrary: b k)
    case (Cons t ts)
    have "mutexes (event_wake e t k) = mutexes k"
      by (simp add: event_wake_def upd_event_def)
    then show ?case by (simp add: event_send_loop_Cons Cons.IH del: event_send_loop.simps)
  qed simp
  then have "mutexes (snd (rt_event_send e s k)) = mutexes k"
    by (simp add: rt_event_send_def Let_def case_prod_beta upd_event_def)
  moreover have "kernel_ok (snd (rt_event_send e s k))"
    using ok rt_event_send_ok [of k s e] by (cases "s = 0") (auto simp: rt_event_send_def objects_ok_def event_ok_def)
  ultimately show ?thesis using ok objects_okI by blast
qed

lemma objects_ok_event_recv:
  assumes ok: "objects_ok k" and r: "running t k"
    and opt: "opt AND RT_EVENT_FLAG_AND \<noteq> 0 \<or> opt AND RT_EVENT_FLAG_OR \<noteq> 0"
  shows "objects_ok (snd (snd (rt_event_recv e want opt timeout k)))"
proof (cases "want = 0")
  case True
  then show ?thesis using ok r by (simp add: rt_event_recv_def)
next
  case False
  have k: "kernel_ok k" using ok by (simp add: objects_ok_def)
  have w: "kernel_ok (wait_state (Suspend e) t (obj_flag_of e k) (event_wish want opt) timeout k)"
    by (rule kernel_ok_wait_state) (use k running_ready [OF r] in simp_all)
  note u = rt_event_recv_unfold [OF r False opt, of e timeout]
  have "kernel_ok (snd (snd (rt_event_recv e want opt timeout k)))"
    unfolding u using kernel_ok_clear_error [OF k] kernel_ok_set_error w by simp
  moreover have "mutexes (snd (snd (rt_event_recv e want opt timeout k))) = mutexes k"
    unfolding u by (simp add: upd_event_def)
  ultimately show ?thesis using ok objects_okI by blast
qed

lemma objects_ok_event_control: "objects_ok k \<Longrightarrow> objects_ok (snd (rt_event_control e cmd v k))"
  using kernel_ok_resume_all [of k "Suspend e"]
  by (auto simp: rt_event_control_def Let_def objects_ok_def mutex_prios_ok_def upd_event_def kernel_ok_def kinv_def)

lemma upd_mb_mutexes [simp]: "mutexes (upd_mb m f k) = mutexes k" "mutexes (upd_mq m g k) = mutexes k"
  by (simp_all add: upd_mb_def upd_mq_def)

lemma running_clear_error [simp]: "running t (upd_thread t clear_error k) = running t k"
  by (simp add: running_def)

lemma debug_clear_error:
  "running t k \<Longrightarrow> debug_in_thread_context (upd_thread t clear_error k) = upd_thread t clear_error k"
  by (rule debug_in_thread_context_running [of t]) simp

lemma objects_ok_mb_send_loop:
  assumes ok: "objects_ok k" and r: "running t k"
  shows "objects_ok (snd (mb_send_loop m v timeout (Some t) k))"
proof -
  have k: "kernel_ok k" using ok by (simp add: objects_ok_def)
  have w: "kernel_ok (wait_state (Sender m) t (obj_flag_of m k) clear_error timeout k)"
    by (rule kernel_ok_wait_state) (use k running_ready [OF r] in simp_all)
  have "snd (mb_send_loop m v timeout (Some t) k) =
      (if mb_entry (mailboxes k m) = mb_size (mailboxes k m)
       then if timeout = 0 then upd_thread t clear_error k
         else rt_schedule (wait_state (Sender m) t (obj_flag_of m k) clear_error timeout k)
       else let k' = upd_mb m (mb_store v) (rt_assert
              (unat (mb_in_offset (mailboxes k m)) < length (mb_msg_pool (mailboxes k m))) k)
         in if lists k (Suspend m) \<noteq> [] then rt_schedule (rt_ipc_list_resume (Suspend m) k') else k')"
    using debug_clear_error [OF r] by (simp add: mb_send_loop_def upd_clear_error wait_state_def Let_def)
  then show ?thesis
    using ok w kernel_ok_clear_error [OF k] kernel_ok_resume_list
    by (simp add: objects_ok_def mutex_prios_ok_def Let_def)
qed

lemma objects_ok_mb_recv_loop:
  assumes ok: "objects_ok k" and r: "running t k"
  shows "objects_ok (snd (snd (mb_recv_loop m timeout (Some t) k)))"
proof -
  have k: "kernel_ok k" using ok by (simp add: objects_ok_def)
  have w: "kernel_ok (wait_state (Suspend m) t (obj_flag_of m k) clear_error timeout k)"
    by (rule kernel_ok_wait_state) (use k running_ready [OF r] in simp_all)
  have "snd (snd (mb_recv_loop m timeout (Some t) k)) =
      (if mb_entry (mailboxes k m) = 0
       then if timeout = 0
         then upd_thread t (\<lambda>th. th\<lparr>th_error := - RT_ETIMEOUT\<rparr>) (upd_thread t clear_error k)
         else rt_schedule (wait_state (Suspend m) t (obj_flag_of m k) clear_error timeout k)
       else let k' = upd_mb m (\<lambda>mb. snd (mb_fetch mb)) (rt_assert
              (unat (mb_out_offset (mailboxes k m)) < length (mb_msg_pool (mailboxes k m))) k)
         in if lists k (Sender m) \<noteq> [] then rt_schedule (rt_ipc_list_resume (Sender m) k') else k')"
    using debug_clear_error [OF r] by (simp add: mb_recv_loop_def upd_clear_error wait_state_def Let_def)
  then show ?thesis
    using ok w kernel_ok_set_error [OF kernel_ok_clear_error [OF k]] kernel_ok_resume_list
    by (simp add: objects_ok_def mutex_prios_ok_def Let_def)
qed

lemma objects_ok_mb_control: "objects_ok k \<Longrightarrow> objects_ok (snd (rt_mb_control m cmd v k))"
  using kernel_ok_resume_all [OF kernel_ok_resume_all [of k "Suspend m"], of "Sender m"]
  by (auto simp: rt_mb_control_def Let_def objects_ok_def mutex_prios_ok_def)

lemma objects_ok_mq_wake: "objects_ok k \<Longrightarrow> objects_ok (snd (mq_wake q k))"
  using kernel_ok_resume_list [of k "Suspend q"]
  by (auto simp: mq_wake_def objects_ok_def mutex_prios_ok_def)

lemma objects_ok_upd_mq [simp]: "objects_ok (upd_mq q f k) = objects_ok k"
  by (simp add: objects_ok_def mutex_prios_ok_def)

lemma objects_ok_mq_send: "objects_ok k \<Longrightarrow> objects_ok (snd (rt_mq_send q buf sz k))"
  by (auto simp: rt_mq_send_def Let_def intro!: objects_ok_mq_wake split: option.splits prod.splits)

lemma objects_ok_mq_urgent: "objects_ok k \<Longrightarrow> objects_ok (snd (rt_mq_urgent q buf sz k))"
  by (auto simp: rt_mq_urgent_def Let_def intro!: objects_ok_mq_wake split: option.splits prod.splits)

lemma objects_ok_mq_recv_loop:
  assumes ok: "objects_ok k" and r: "running t k"
  shows "objects_ok (snd (snd (mq_recv_loop q sz timeout (Some t) k)))"
proof -
  have k: "kernel_ok k" using ok by (simp add: objects_ok_def)
  have w: "kernel_ok (wait_state (Suspend q) t (obj_flag_of q k) clear_error timeout k)"
    by (rule kernel_ok_wait_state) (use k running_ready [OF r] in simp_all)
  show ?thesis
  proof (cases "mq_entry (mqs k q) = 0")
    case False
    then show ?thesis using ok
      by (auto simp: mq_recv_loop_def Let_def split: prod.splits option.splits)
  next
    case True
    then have "snd (snd (mq_recv_loop q sz timeout (Some t) k)) =
       (if timeout = 0
         then upd_thread t (\<lambda>th. th\<lparr>th_error := - RT_ETIMEOUT\<rparr>) (upd_thread t clear_error k)
         else rt_schedule (wait_state (Suspend q) t (obj_flag_of q k) clear_error timeout k))"
      using r by (simp add: mq_recv_loop_def upd_clear_error wait_state_def Let_def)
    then show ?thesis
      using ok w kernel_ok_set_error [OF kernel_ok_clear_error [OF k]]
      by (simp add: objects_ok_def mutex_prios_ok_def)
  qed
qed

lemma objects_ok_mq_control: "objects_ok k \<Longrightarrow> objects_ok (snd (rt_mq_control q cmd v k))"
  using kernel_ok_resume_all [of k "Suspend q"]
  by (auto simp: rt_mq_control_def Let_def objects_ok_def mutex_prios_ok_def split: option.splits)

end
