(* ===== verification/Kernel_Steps.thy ===== *)
theory Kernel_Steps
  imports Kernel_Objects
begin

text \<open>
  The kernel as a state machine: \<open>kcall\<close> has one rule for the system calls, the return paths of
  the blocking ones and the start of the scheduler, with the conditions under which the API may be
  used, and one for the scheduler. \<open>kstep\<close> adds the tick interrupt (\<open>rt_tick_increase\<close>, whose timer
  check runs the time-outs of threads and the functions of user timers) and the idle thread's
  clean-up; the functions of user timers and the cleanup functions of threads are any sequences of
  calls. \<open>reachable\<close> starts from the state that \<^verbatim>\<open>rt_system_scheduler_init\<close> leaves. Each call is one
  step: interrupts are taken between calls.

  The invariant \<open>system_ok\<close> holds in every reachable state: \<open>kernel_ok\<close>, valid saved priorities in
  owned mutexes (together \<open>objects_ok\<close>), and \<open>timers_ok\<close>.

  The interface between the steps and the invariant is the locale \<open>kernel_call\<close>: an operation
  that keeps \<open>system_ok\<close> under its guard. It is interpreted on all calls, which may then be
  chained.
\<close>

subsection \<open>System calls\<close>

datatype thread_call =
    Thread_init tid string u8 u32 | Thread_startup tid | Thread_suspend tid | Thread_resume tid
   | Thread_yield | Thread_sleep u32 | Thread_sleep_return | Thread_exit | Thread_detach tid
   | Thread_delete tid | Thread_create "tid option" bool string u8 u32 | Change_priority tid u8
   | Scheduler_start | Enter_critical | Exit_critical | Interrupt_enter | Interrupt_leave

datatype lock_call =
    Sem_init oid string u32 u8 | Sem_detach oid | Sem_take oid int | Sem_release oid
   | Sem_control oid int u32 | Sem_create "oid option" string u32 u8 | Sem_delete oid
   | Mutex_init oid string u8 | Mutex_detach oid | Mutex_take oid int | Mutex_take_return oid int
   | Mutex_release oid | Mutex_control oid int u32 | Mutex_create "oid option" string u8
   | Mutex_delete oid | Event_init oid string u8 | Event_detach oid | Event_send oid u32
   | Event_recv oid u32 u8 int | Event_control oid int u32 | Event_create "oid option" string u8
   | Event_delete oid

datatype mail_call =
    Mb_init oid string "u32 list" u32 u8 | Mb_detach oid
   | Mb_create "oid option" "u32 list option" string u32 u8 | Mb_delete oid | Mb_send oid u32 int
   | Mb_send_return oid u32 int u32 | Mb_recv oid int | Mb_recv_return oid int u32
   | Mb_control oid int u32 | Mq_init oid string "rt_mq_message list" u32 u32 u8 | Mq_detach oid
   | Mq_delete oid | Mq_create "oid option" "rt_mq_message list option" string u32 u32 u8
   | Mq_send oid "byte list" u32 | Mq_urgent oid "byte list" u32 | Mq_recv oid u32 int
   | Mq_recv_return oid u32 int u32 | Mq_control oid int u32

datatype timer_call =
    Timer_init nat string nat u32 u8 | Timer_create "nat option" string nat u32 u8
   | Timer_detach nat | Timer_delete nat | Timer_start nat | Timer_stop nat
   | Timer_control nat timer_cmd

datatype syscall = Thread_call thread_call | Lock_call lock_call | Mail_call mail_call | Timer_call timer_call

definition caller :: "kernel \<Rightarrow> tid" where
  "caller k = (case current k of None \<Rightarrow> 0 | Some t \<Rightarrow> t)"

fun exec_thread :: "thread_call \<Rightarrow> kernel \<Rightarrow> kernel" where
  "exec_thread (Thread_init t name p tk) k = snd (rt_thread_init t name p tk k)"
| "exec_thread (Thread_startup t) k = snd (rt_thread_startup t k)"
| "exec_thread (Thread_suspend t) k = snd (rt_thread_suspend t k)"
| "exec_thread (Thread_resume t) k = snd (rt_thread_resume t k)"
| "exec_thread Thread_yield k = snd (rt_thread_yield k)"
| "exec_thread (Thread_sleep tk) k = rt_thread_sleep tk k"
| "exec_thread Thread_exit k = rt_thread_exit k"
| "exec_thread (Thread_detach t) k = snd (rt_thread_detach t k)"
| "exec_thread (Thread_delete t) k = snd (rt_thread_delete t k)"
| "exec_thread (Change_priority t p) k = snd (rt_thread_control t (CTRL_CHANGE_PRIORITY p) k)"
| "exec_thread Thread_sleep_return k = snd (rt_thread_sleep_return (caller k) k)"
| "exec_thread (Thread_create mem st name p tk) k = snd (rt_thread_create mem st name p tk k)"
| "exec_thread Scheduler_start k = rt_system_scheduler_start k"
| "exec_thread Enter_critical k = rt_enter_critical k"
| "exec_thread Exit_critical k = rt_exit_critical k"
| "exec_thread Interrupt_enter k = rt_interrupt_enter k"
| "exec_thread Interrupt_leave k = rt_interrupt_leave k"

fun exec_lock :: "lock_call \<Rightarrow> kernel \<Rightarrow> kernel" where
  "exec_lock (Sem_init s name v f) k = snd (rt_sem_init s name v f k)"
| "exec_lock (Sem_detach s) k = snd (rt_sem_detach s k)"
| "exec_lock (Sem_take s time) k = snd (rt_sem_take s time k)"
| "exec_lock (Sem_release s) k = snd (rt_sem_release s k)"
| "exec_lock (Sem_control s c v) k = snd (rt_sem_control s c v k)"
| "exec_lock (Sem_create mem name v f) k = snd (rt_sem_create mem name v f k)"
| "exec_lock (Sem_delete s) k = snd (rt_sem_delete s k)"
| "exec_lock (Mutex_init m name f) k = snd (rt_mutex_init m name f k)"
| "exec_lock (Mutex_detach m) k = snd (rt_mutex_detach m k)"
| "exec_lock (Mutex_take m time) k = snd (rt_mutex_take m time k)"
| "exec_lock (Mutex_take_return m time) k = snd (rt_mutex_take_return m time (caller k) k)"
| "exec_lock (Mutex_release m) k = snd (rt_mutex_release m k)"
| "exec_lock (Mutex_control m c v) k = snd (rt_mutex_control m c v k)"
| "exec_lock (Mutex_create mem name f) k = snd (rt_mutex_create mem name f k)"
| "exec_lock (Mutex_delete m) k = snd (rt_mutex_delete m k)"
| "exec_lock (Event_init e name f) k = snd (rt_event_init e name f k)"
| "exec_lock (Event_detach e) k = snd (rt_event_detach e k)"
| "exec_lock (Event_send e s) k = snd (rt_event_send e s k)"
| "exec_lock (Event_recv e s opt time) k = snd (snd (rt_event_recv e s opt time k))"
| "exec_lock (Event_control e c v) k = snd (rt_event_control e c v k)"
| "exec_lock (Event_create mem name f) k = snd (rt_event_create mem name f k)"
| "exec_lock (Event_delete e) k = snd (rt_event_delete e k)"

fun exec_mail :: "mail_call \<Rightarrow> kernel \<Rightarrow> kernel" where
  "exec_mail (Mb_init m name pool sz f) k = snd (rt_mb_init m name pool sz f k)"
| "exec_mail (Mb_detach m) k = snd (rt_mb_detach m k)"
| "exec_mail (Mb_create mem pool name sz f) k = snd (rt_mb_create mem pool name sz f k)"
| "exec_mail (Mb_delete m) k = snd (rt_mb_delete m k)"
| "exec_mail (Mb_send m v time) k = snd (rt_mb_send_wait m v time k)"
| "exec_mail (Mb_send_return m v time st) k = snd (rt_mb_send_wait_return m v time st (caller k) k)"
| "exec_mail (Mb_recv m time) k = snd (snd (rt_mb_recv m time k))"
| "exec_mail (Mb_recv_return m time st) k = snd (snd (rt_mb_recv_return m time st (caller k) k))"
| "exec_mail (Mb_control m c v) k = snd (rt_mb_control m c v k)"
| "exec_mail (Mq_init q name slots ms ps f) k = snd (rt_mq_init q name slots ms ps f k)"
| "exec_mail (Mq_detach q) k = snd (rt_mq_detach q k)"
| "exec_mail (Mq_delete q) k = snd (rt_mq_delete q k)"
| "exec_mail (Mq_create mem slots name ms n f) k = snd (rt_mq_create mem slots name ms n f k)"
| "exec_mail (Mq_send q b n) k = snd (rt_mq_send q b n k)"
| "exec_mail (Mq_urgent q b n) k = snd (rt_mq_urgent q b n k)"
| "exec_mail (Mq_recv q n time) k = snd (snd (rt_mq_recv q n time k))"
| "exec_mail (Mq_recv_return q n time st) k = snd (snd (rt_mq_recv_return q n time st (caller k) k))"
| "exec_mail (Mq_control q c v) k = snd (rt_mq_control q c v k)"

fun exec_timer :: "timer_call \<Rightarrow> kernel \<Rightarrow> kernel" where
  "exec_timer (Timer_init i name fn tt f) k = rt_timer_init (Timer i) name (User_timeout fn) tt f k"
| "exec_timer (Timer_create mem name fn tt f) k =
     snd (rt_timer_create (map_option Timer mem) name (User_timeout fn) tt f k)"
| "exec_timer (Timer_detach i) k = snd (rt_timer_detach (Timer i) k)"
| "exec_timer (Timer_delete i) k = snd (rt_timer_delete (Timer i) k)"
| "exec_timer (Timer_start i) k = snd (rt_timer_start (Timer i) k)"
| "exec_timer (Timer_stop i) k = snd (rt_timer_stop (Timer i) k)"
| "exec_timer (Timer_control i cmd) k = snd (rt_timer_control (Timer i) cmd k)"

fun exec :: "syscall \<Rightarrow> kernel \<Rightarrow> kernel" where
  "exec (Thread_call c) k = exec_thread c k"
| "exec (Lock_call c) k = exec_lock c k"
| "exec (Mail_call c) k = exec_mail c k"
| "exec (Timer_call c) k = exec_timer c k"

text \<open>
  The conditions the documentation puts on a caller; the other calls are always allowed. A thread
  is initialised while it is not in use, and started once it is (its own timer is set up by
  \<^verbatim>\<open>rt_thread_init\<close>); an IPC object is initialised or created in memory no thread waits on; a
  blocking call is made by a running thread.
\<close>

definition thread_running :: "kernel \<Rightarrow> bool" where
  "thread_running k \<longleftrightarrow> current k \<noteq> None \<and> running (caller k) k"

definition thread_unused :: "tid \<Rightarrow> kernel \<Rightarrow> bool" where
  "thread_unused t k \<longleftrightarrow> \<not> live k t \<and> t \<notin> set (lists k Defunct)"

definition nobody_waits :: "oid \<Rightarrow> kernel \<Rightarrow> bool" where
  "nobody_waits x k \<longleftrightarrow> lists k (Suspend x) = [] \<and> lists k (Sender x) = []"

fun allowed_thread :: "thread_call \<Rightarrow> kernel \<Rightarrow> bool" where
  "allowed_thread (Thread_init t _ p _) k \<longleftrightarrow> thread_unused t k \<and> unat p < RT_THREAD_PRIORITY_MAX"
| "allowed_thread (Thread_create mem _ _ p _) k \<longleftrightarrow>
     (\<forall>t. mem = Some t \<longrightarrow> thread_unused t k) \<and> unat p < RT_THREAD_PRIORITY_MAX"
| "allowed_thread (Thread_startup t) k \<longleftrightarrow> stat_of (threads k t) = RT_THREAD_INIT \<and> own_timer k t \<and>
     unat (th_init_priority (threads k t)) < RT_THREAD_PRIORITY_MAX"
| "allowed_thread (Thread_sleep _) k \<longleftrightarrow> thread_running k"
| "allowed_thread Thread_exit k \<longleftrightarrow> thread_running k"
| "allowed_thread (Thread_detach t) k \<longleftrightarrow> live k t"
| "allowed_thread (Thread_delete t) k \<longleftrightarrow> live k t"
| "allowed_thread (Change_priority t p) k \<longleftrightarrow> unat p < RT_THREAD_PRIORITY_MAX"
| "allowed_thread _ k \<longleftrightarrow> True"

fun allowed_lock :: "lock_call \<Rightarrow> kernel \<Rightarrow> bool" where
  "allowed_lock (Sem_init s _ _ _) k \<longleftrightarrow> nobody_waits s k"
| "allowed_lock (Sem_create mem _ _ _) k \<longleftrightarrow> (\<forall>s. mem = Some s \<longrightarrow> nobody_waits s k)"
| "allowed_lock (Sem_take _ _) k \<longleftrightarrow> thread_running k"
| "allowed_lock (Mutex_init m _ _) k \<longleftrightarrow> nobody_waits m k"
| "allowed_lock (Mutex_create mem _ _) k \<longleftrightarrow> (\<forall>m. mem = Some m \<longrightarrow> nobody_waits m k)"
| "allowed_lock (Mutex_take _ _) k \<longleftrightarrow> thread_running k"
| "allowed_lock (Mutex_take_return _ _) k \<longleftrightarrow> thread_running k"
| "allowed_lock (Mutex_release _) k \<longleftrightarrow> thread_running k"
| "allowed_lock (Event_init e _ _) k \<longleftrightarrow> nobody_waits e k"
| "allowed_lock (Event_create mem _ _) k \<longleftrightarrow> (\<forall>e. mem = Some e \<longrightarrow> nobody_waits e k)"
| "allowed_lock (Event_recv _ _ opt _) k \<longleftrightarrow> thread_running k \<and>
     (opt AND RT_EVENT_FLAG_AND \<noteq> 0 \<or> opt AND RT_EVENT_FLAG_OR \<noteq> 0)"
| "allowed_lock _ k \<longleftrightarrow> True"

fun allowed_mail :: "mail_call \<Rightarrow> kernel \<Rightarrow> bool" where
  "allowed_mail (Mb_init m _ _ _ _) k \<longleftrightarrow> nobody_waits m k"
| "allowed_mail (Mb_create mem _ _ _ _) k \<longleftrightarrow> (\<forall>m. mem = Some m \<longrightarrow> nobody_waits m k)"
| "allowed_mail (Mb_send _ _ _) k \<longleftrightarrow> thread_running k"
| "allowed_mail (Mb_send_return _ _ _ _) k \<longleftrightarrow> thread_running k"
| "allowed_mail (Mb_recv _ _) k \<longleftrightarrow> thread_running k"
| "allowed_mail (Mb_recv_return _ _ _) k \<longleftrightarrow> thread_running k"
| "allowed_mail (Mq_init q _ _ _ _ _) k \<longleftrightarrow> nobody_waits q k"
| "allowed_mail (Mq_create mem _ _ _ _ _) k \<longleftrightarrow> (\<forall>q. mem = Some q \<longrightarrow> nobody_waits q k)"
| "allowed_mail (Mq_recv _ _ _) k \<longleftrightarrow> thread_running k"
| "allowed_mail (Mq_recv_return _ _ _ _) k \<longleftrightarrow> thread_running k"
| "allowed_mail _ k \<longleftrightarrow> True"

fun allowed :: "syscall \<Rightarrow> kernel \<Rightarrow> bool" where
  "allowed (Thread_call c) k \<longleftrightarrow> allowed_thread c k"
| "allowed (Lock_call c) k \<longleftrightarrow> allowed_lock c k"
| "allowed (Mail_call c) k \<longleftrightarrow> allowed_mail c k"
| "allowed (Timer_call c) k \<longleftrightarrow> True"

definition system_ok :: "kernel \<Rightarrow> bool" where
  "system_ok k \<longleftrightarrow> objects_ok k \<and> timers_ok k"

lemma system_okD: "system_ok k \<Longrightarrow> kinv k" "system_ok k \<Longrightarrow> kernel_ok k"
  by (simp_all add: system_ok_def objects_ok_def kernel_ok_def)

locale kernel_call =
  fixes guard :: "kernel \<Rightarrow> bool" and call :: "kernel \<Rightarrow> kernel"
  assumes keeps: "guard k \<Longrightarrow> system_ok k \<Longrightarrow> system_ok (call k)"
begin

lemma iterate: "(\<And>i. i < n \<Longrightarrow> guard ((call ^^ i) k)) \<Longrightarrow> system_ok k \<Longrightarrow> system_ok ((call ^^ n) k)"
  by (induction n) (auto intro: keeps)

text \<open>After the call the scheduler picks the front of the highest non-empty ready queue.\<close>

lemma then_schedule:
  assumes "guard k" "system_ok k" "stat_of (threads (call k) t) = RT_THREAD_READY"
    and "lock_nest (call k) = 0" "current (call k) \<noteq> None"
  shows "\<exists>c. current (rt_schedule (call k)) = Some c \<and> stat_of (threads (call k) c) = RT_THREAD_READY \<and>
    th_current_priority (threads (call k) c) \<le> th_current_priority (threads (call k) t)"
proof -
  let ?k = "call k" and ?h = "highest_ready (call k)"
  have ok: "kinv ?k" using keeps [OF assms(1,2)] by (rule system_okD)
  obtain c0 where "current ?k = Some c0" using assms(5) by blast
  from rt_schedule_current [OF ok assms(3,4) this]
  have c: "current (rt_schedule ?k) = Some (hd (lists ?k (Ready ?h)))" "lists ?k (Ready ?h) \<noteq> []" by auto
  let ?c = "hd (lists ?k (Ready ?h))"
  have "?c \<in> set (lists ?k (Ready ?h))" using c(2) by simp
  then have "stat_of (threads ?k ?c) = RT_THREAD_READY" "unat (th_current_priority (threads ?k ?c)) = ?h"
    using ok by (auto simp: kinv_def sched_ok_def ready_ok_def)
  then show ?thesis using c(1) highest_ready_prio [OF ok assms(3)]
    by (auto simp: word_le_nat_alt)
qed

end

lemma thread_running_caller: "thread_running k \<Longrightarrow> current k = Some (caller k) \<and> running (caller k) k"
  by (auto simp: thread_running_def caller_def)

lemma objects_ok_frame:
  "threads k' = threads k \<Longrightarrow> lists k' = lists k \<Longrightarrow> prio_group k' = prio_group k \<Longrightarrow>
     mutexes k' = mutexes k \<Longrightarrow> objects_ok k' = objects_ok k"
  using kernel_ok_cong [of k' k] by (simp add: objects_ok_def mutex_prios_ok_def)

lemma kobj_mutexes [simp]:
  "mutexes (rt_object_init r c n k) = mutexes k" "mutexes (rt_object_detach r k) = mutexes k"
  "mutexes (rt_timer_init i n f t fl k) = mutexes k" "mutexes (snd (rt_timer_detach i k)) = mutexes k"
  "mutexes (rt_exit_critical k) = mutexes k" "mutexes (rt_enter_critical k) = mutexes k"
  "mutexes (tlist_insert_after l u k) = mutexes k" "mutexes (tlist_insert_before l u k) = mutexes k"
  "mutexes (rt_object_delete r k) = mutexes k" "mutexes (snd (rt_object_allocate mem c n k)) = mutexes k"
  "mutexes (sender_list_init x k) = mutexes k" "mutexes (debug_not_in_interrupt k) = mutexes k"
  "mutexes (rt_system_scheduler_start k) = mutexes k" "mutexes (snd (rt_timer_delete i k)) = mutexes k"
  "mutexes (snd (rt_timer_create ti n f t fl k)) = mutexes k"
  "mutexes (rt_ipc_object_init x k) = mutexes k" "mutexes (upd_event x w k) = mutexes k"
  by (simp_all add: kobj_defs timer_defs rt_exit_critical_def rt_enter_critical_def
      tlist_insert_after_def tlist_insert_before_def rt_ipc_object_init_def upd_event_def Let_def
      rt_object_allocate_def sender_list_init_def debug_not_in_interrupt_def
      rt_system_scheduler_start_def rt_timer_create_def case_prod_beta split: option.split list.split)

lemma thread_mutexes:
  "mutexes (snd (rt_thread_init t name p tk k)) = mutexes k"
  "mutexes (snd (rt_thread_startup t k)) = mutexes k"
  "mutexes (snd (rt_thread_yield k)) = mutexes k" "mutexes (rt_thread_sleep tk k) = mutexes k"
  "mutexes (snd (rt_thread_sleep_return t k)) = mutexes k"
  "mutexes (snd (rt_thread_create mem st name p tk k)) = mutexes k"
  "mutexes (rt_thread_exit k) = mutexes k" "mutexes (snd (rt_thread_detach t k)) = mutexes k"
  "mutexes (snd (rt_thread_delete t k)) = mutexes k" "mutexes (rt_thread_timeout t k) = mutexes k"
  by (simp_all add: rt_thread_init_def rt_thread_init_fields_def rt_thread_startup_def
      rt_thread_yield_def rt_thread_sleep_def rt_thread_sleep_return_def rt_thread_create_def case_prod_beta
      rt_thread_exit_def rt_thread_detach_def
      rt_thread_delete_def rt_thread_timeout_def Let_def split: option.split)

lemma kernel_ok_object_init_list:
  "kernel_ok k \<Longrightarrow> lists k (Suspend obj) = [] \<Longrightarrow> kernel_ok (rt_ipc_object_init obj k)"
  by (simp add: object_init_list)

lemma kernel_ok_thread_init:
  assumes "kernel_ok k" "thread_unused t k"
  shows "kernel_ok (snd (rt_thread_init t name p tk k))"
proof -
  have "t \<notin> set (lists k l)" for l
    using kernel_ok_listD [OF assms(1), of t l] assms(2) by (cases l) (auto simp: thread_unused_def live_def)
  then show ?thesis using kernel_ok_init [OF assms(1)] by simp
qed

lemma kernel_ok_init_fields:
  assumes "kernel_ok k" "thread_unused t k"
  shows "kernel_ok (snd (rt_thread_init_fields t name p tk k))"
proof -
  have "kernel_ok (snd (rt_thread_init_fields t name p tk k)) = kernel_ok (snd (rt_thread_init t name p tk k))"
    by (rule kernel_ok_cong) (simp_all add: rt_thread_init_def rt_thread_init_fields_def Let_def)
  then show ?thesis using kernel_ok_thread_init [OF assms] by simp
qed

lemma kernel_ok_thread_create:
  assumes "kernel_ok k" "\<And>t. mem = Some t \<Longrightarrow> thread_unused t k"
  shows "kernel_ok (snd (rt_thread_create mem st name p tk k))"
  using assms
  by (auto simp: rt_thread_create_def case_prod_beta thread_unused_def live_def split: option.split
      intro!: kernel_ok_init_fields)

lemma kernel_ok_sleep_return: "kernel_ok k \<Longrightarrow> kernel_ok (snd (rt_thread_sleep_return t k))"
  by (auto simp: rt_thread_sleep_return_def intro!: kernel_ok_upd_frame)

lemma objects_ok_thread_call:
  assumes ok: "objects_ok k"
  shows "allowed_thread (Thread_init t name p tk) k \<Longrightarrow> objects_ok (exec_thread (Thread_init t name p tk) k)"
    "allowed_thread (Thread_startup t) k \<Longrightarrow> objects_ok (exec_thread (Thread_startup t) k)"
    "objects_ok (exec_thread (Thread_suspend t) k)" "objects_ok (exec_thread (Thread_resume t) k)"
    "objects_ok (exec_thread Thread_yield k)" "objects_ok (exec_thread (Thread_sleep tk) k)"
    "allowed_thread Thread_exit k \<Longrightarrow> objects_ok (exec_thread Thread_exit k)"
    "allowed_thread (Thread_detach t) k \<Longrightarrow> objects_ok (exec_thread (Thread_detach t) k)"
    "allowed_thread (Thread_delete t) k \<Longrightarrow> objects_ok (exec_thread (Thread_delete t) k)"
    "allowed_thread (Change_priority t p) k \<Longrightarrow> objects_ok (exec_thread (Change_priority t p) k)"
    "allowed_thread (Thread_create mem st name p tk) k \<Longrightarrow> objects_ok (exec_thread (Thread_create mem st name p tk) k)"
    "objects_ok (exec_thread Thread_sleep_return k)"
proof -
  have k: "kernel_ok k" using ok by (rule objects_ok_kernel)
  note I = objects_okI [OF _ _ ok]
  show "objects_ok (exec_thread (Thread_init t name p tk) k)" if "allowed_thread (Thread_init t name p tk) k"
    using kernel_ok_thread_init [OF k, of t name p tk] that by (auto intro: I simp: thread_mutexes)
  show "objects_ok (exec_thread (Thread_create mem st name p tk) k)" if "allowed_thread (Thread_create mem st name p tk) k"
    using kernel_ok_thread_create [OF k, of mem st name p tk] that by (auto intro: I simp: thread_mutexes)
  show "objects_ok (exec_thread Thread_sleep_return k)"
    using kernel_ok_sleep_return [OF k] by (auto intro: I simp: thread_mutexes)
  show "objects_ok (exec_thread (Thread_startup t) k)" if "allowed_thread (Thread_startup t) k"
    using that kernel_ok_startup [OF k] by (auto intro: I simp: thread_mutexes)
  show "objects_ok (exec_thread (Thread_suspend t) k)" "objects_ok (exec_thread (Thread_resume t) k)"
    "objects_ok (exec_thread Thread_yield k)" "objects_ok (exec_thread (Thread_sleep tk) k)"
    using k kernel_ok_yield [OF k] kernel_ok_sleep [OF k] by (auto intro: I simp: thread_mutexes)
  show "objects_ok (exec_thread Thread_exit k)" if "allowed_thread Thread_exit k"
  proof -
    have "live k (caller k)" "current k = Some (caller k)"
      using that thread_running_caller [of k] by (auto simp: live_def running_def)
    then show ?thesis using kernel_ok_exit [OF k] by (auto intro: I simp: thread_mutexes)
  qed
  show "allowed_thread (Thread_detach t) k \<Longrightarrow> objects_ok (exec_thread (Thread_detach t) k)"
    "allowed_thread (Thread_delete t) k \<Longrightarrow> objects_ok (exec_thread (Thread_delete t) k)"
    using kernel_ok_detach [OF k] kernel_ok_delete [OF k]
    by (auto intro!: I simp: thread_mutexes)
  show "objects_ok (exec_thread (Change_priority t p) k)" if "allowed_thread (Change_priority t p) k"
    using that kernel_ok_change_priority [OF k] change_priority_sel(5) [of t p k]
    by (auto intro!: I simp: change_priority_def)
qed

lemma objects_ok_object_frame [simp]:
  "objects_ok (rt_object_init r c n k) = objects_ok k" "objects_ok (rt_object_detach r k) = objects_ok k"
  "objects_ok (rt_object_delete r k) = objects_ok k"
  "objects_ok (snd (rt_object_allocate mem c n k)) = objects_ok k"
  "objects_ok (set_obj_flag x f k) = objects_ok k" "objects_ok (upd_sem x v k) = objects_ok k"
  "objects_ok (upd_event x w k) = objects_ok k" "objects_ok (upd_mb x fb k) = objects_ok k"
  "objects_ok (debug_not_in_interrupt k) = objects_ok k"
  "objects_ok (rt_timer_init i n tf tt fl k) = objects_ok k"
  "objects_ok (snd (rt_timer_create ti n tf tt fl k)) = objects_ok k"
  "objects_ok (snd (rt_timer_detach i k)) = objects_ok k" "objects_ok (snd (rt_timer_delete i k)) = objects_ok k"
  "objects_ok (snd (rt_timer_start i k)) = objects_ok k" "objects_ok (snd (rt_timer_stop i k)) = objects_ok k"
  "objects_ok (snd (rt_timer_control i cmd k)) = objects_ok k"
  "objects_ok (rt_timer_remove i k) = objects_ok k" "objects_ok (upd_timer i tu k) = objects_ok k"
  "objects_ok (rt_system_scheduler_start k) = objects_ok k"
  "objects_ok (rt_enter_critical k) = objects_ok k" "objects_ok (rt_exit_critical k) = objects_ok k"
  "objects_ok (rt_interrupt_enter k) = objects_ok k" "objects_ok (rt_interrupt_leave k) = objects_ok k"
  by (rule objects_ok_frame;
      simp add: debug_not_in_interrupt_def upd_event_def upd_mb_def rt_timer_create_def
        rt_timer_init_fields_def upd_timer_def rt_timer_remove_def rt_system_scheduler_start_def
        rt_interrupt_enter_def rt_interrupt_leave_def case_prod_beta Let_def
        split: option.split list.split)+

lemma objects_ok_list_init [simp]:
  "lists k (Suspend x) = [] \<Longrightarrow> objects_ok (rt_ipc_object_init x k) = objects_ok k"
  "lists k (Sender x) = [] \<Longrightarrow> objects_ok (sender_list_init x k) = objects_ok k"
  by (rule objects_ok_frame; simp add: rt_ipc_object_init_def sender_list_init_def fun_upd_idem)+

lemma objects_ok_fresh [simp]: "objects_ok k \<Longrightarrow> objects_ok (upd_mutex m mutex_fresh k)"
  by (simp add: objects_ok_def mutex_prios_ok_def mutex_fresh_def)

lemma objects_ok_resume_all [simp]:
  "objects_ok k \<Longrightarrow> wait_list l \<Longrightarrow> objects_ok (rt_ipc_list_resume_all l k)"
  using kernel_ok_resume_all by (simp add: objects_ok_def mutex_prios_ok_def)

lemma allocate_lists [simp]: "lists (snd (rt_object_allocate mem c n k)) = lists k"
  by (simp add: rt_object_allocate_def upd_hdr_def obj_link_def Let_def debug_not_in_interrupt_def
      split: option.split)

lemma ipc_init_sender [simp]: "lists (rt_ipc_object_init x k) (Sender y) = lists k (Sender y)"
  by (simp add: rt_ipc_object_init_def)

lemma objects_ok_object_call:
  assumes "objects_ok k"
  shows "allowed_lock (Sem_init s name v f) k \<Longrightarrow> objects_ok (exec_lock (Sem_init s name v f) k)"
    "allowed_lock (Sem_create mem name v f) k \<Longrightarrow> objects_ok (exec_lock (Sem_create mem name v f) k)"
    "objects_ok (exec_lock (Sem_detach s) k)" "objects_ok (exec_lock (Sem_delete s) k)"
    "allowed_lock (Mutex_init m name f) k \<Longrightarrow> objects_ok (exec_lock (Mutex_init m name f) k)"
    "allowed_lock (Mutex_create mem name f) k \<Longrightarrow> objects_ok (exec_lock (Mutex_create mem name f) k)"
    "objects_ok (exec_lock (Mutex_detach m) k)" "objects_ok (exec_lock (Mutex_delete m) k)"
    "objects_ok (exec_lock (Mutex_control m c v) k)"
    "allowed_lock (Event_init e name f) k \<Longrightarrow> objects_ok (exec_lock (Event_init e name f) k)"
    "allowed_lock (Event_create mem name f) k \<Longrightarrow> objects_ok (exec_lock (Event_create mem name f) k)"
    "objects_ok (exec_lock (Event_detach e) k)" "objects_ok (exec_lock (Event_delete e) k)"
  using assms
  by (simp_all add: rt_sem_init_def rt_sem_create_def rt_sem_detach_def rt_sem_delete_def
      rt_mutex_init_def rt_mutex_create_def rt_mutex_detach_def rt_mutex_delete_def rt_mutex_control_def
      rt_event_init_def rt_event_create_def rt_event_detach_def rt_event_delete_def
      nobody_waits_def case_prod_beta Let_def split: option.split)

lemma objects_ok_mail_object_call:
  assumes "objects_ok k"
  shows "allowed_mail (Mb_init m name pool sz f) k \<Longrightarrow> objects_ok (exec_mail (Mb_init m name pool sz f) k)"
    "allowed_mail (Mb_create mem mpool name sz f) k \<Longrightarrow> objects_ok (exec_mail (Mb_create mem mpool name sz f) k)"
    "objects_ok (exec_mail (Mb_detach m) k)" "objects_ok (exec_mail (Mb_delete m) k)"
    "allowed_mail (Mq_init q name slots ms ps f) k \<Longrightarrow> objects_ok (exec_mail (Mq_init q name slots ms ps f) k)"
    "allowed_mail (Mq_create mem mslots name ms n f) k \<Longrightarrow> objects_ok (exec_mail (Mq_create mem mslots name ms n f) k)"
    "objects_ok (exec_mail (Mq_detach q) k)" "objects_ok (exec_mail (Mq_delete q) k)"
  using assms
  by (simp_all add: rt_mb_init_def rt_mb_create_def rt_mb_detach_def rt_mb_delete_def upd_mb_sel
      rt_mq_init_def rt_mq_create_def rt_mq_detach_def rt_mq_delete_def
      nobody_waits_def case_prod_beta Let_def split: option.split)

lemma objects_ok_mail_call:
  assumes ok: "objects_ok k" and r: "thread_running k"
  shows "objects_ok (exec_mail (Mb_send m v time) k)" "objects_ok (exec_mail (Mb_send_return m v time st) k)"
    "objects_ok (exec_mail (Mb_recv m time) k)" "objects_ok (exec_mail (Mb_recv_return m time st) k)"
    "objects_ok (exec_mail (Mq_recv q n time) k)" "objects_ok (exec_mail (Mq_recv_return q n time st) k)"
proof -
  have c: "current k = Some (caller k)" and ru: "running (caller k) k"
    using thread_running_caller [OF r] by auto
  note l = objects_ok_mb_send_loop [OF ok ru] objects_ok_mb_recv_loop [OF ok ru] objects_ok_mq_recv_loop [OF ok ru]
  have a: "objects_ok (snd (snd (mq_recv_loop q n time (Some (caller k)) (rt_assert b k))))" for b
    using objects_ok_mq_recv_loop [of "rt_assert b k"] ok ru by (simp add: running_def)
  show "objects_ok (exec_mail (Mb_send m v time) k)" "objects_ok (exec_mail (Mb_send_return m v time st) k)"
    "objects_ok (exec_mail (Mb_recv m time) k)" "objects_ok (exec_mail (Mb_recv_return m time st) k)"
    "objects_ok (exec_mail (Mq_recv q n time) k)" "objects_ok (exec_mail (Mq_recv_return q n time st) k)"
    using l ok a c
    by (simp_all add: rt_mb_send_wait_def rt_mb_send_wait_return_def rt_mb_recv_def
        rt_mb_recv_return_def rt_mq_recv_def rt_mq_recv_return_def rt_thread_self_def Let_def)
qed

lemma objects_ok_running_call:
  assumes "objects_ok k" "thread_running k"
  shows "objects_ok (exec_lock (Sem_take s time) k)" "objects_ok (exec_lock (Mutex_take m time) k)"
    "objects_ok (exec_lock (Mutex_take_return m time) k)" "objects_ok (exec_lock (Mutex_release m) k)"
    "opt AND RT_EVENT_FLAG_AND \<noteq> 0 \<or> opt AND RT_EVENT_FLAG_OR \<noteq> 0 \<Longrightarrow>
       objects_ok (exec_lock (Event_recv e w opt time) k)"
proof -
  have r: "running (caller k) k" using thread_running_caller [OF assms(2)] by simp
  show "objects_ok (exec_lock (Sem_take s time) k)" "objects_ok (exec_lock (Mutex_take m time) k)"
    "objects_ok (exec_lock (Mutex_take_return m time) k)" "objects_ok (exec_lock (Mutex_release m) k)"
    "opt AND RT_EVENT_FLAG_AND \<noteq> 0 \<or> opt AND RT_EVENT_FLAG_OR \<noteq> 0 \<Longrightarrow>
       objects_ok (exec_lock (Event_recv e w opt time) k)"
    using objects_ok_sem_take [OF assms(1) r] objects_ok_mutex_take [OF assms(1) r]
      objects_ok_mutex_take_return [OF assms(1) running_ready [OF r]]
      objects_ok_mutex_release [OF assms(1) r] objects_ok_event_recv [OF assms(1) r]
    by simp_all
qed

lemma objects_ok_exec:
  assumes "allowed c k" "objects_ok k"
  shows "objects_ok (exec c k)"
proof (cases c)
  case (Thread_call d)
  then show ?thesis using assms objects_ok_thread_call [OF assms(2)] by (cases d) simp_all
next
  case (Lock_call d)
  then show ?thesis using assms objects_ok_object_call [OF assms(2)] objects_ok_running_call [OF assms(2)]
    by (cases d) (simp_all add: objects_ok_sem_release objects_ok_sem_control objects_ok_event_send
        objects_ok_event_control)
next
  case (Mail_call d)
  then show ?thesis using assms objects_ok_mail_object_call [OF assms(2)] objects_ok_mail_call [OF assms(2)]
    by (cases d) (simp_all add: objects_ok_mb_control objects_ok_mq_send objects_ok_mq_urgent
        objects_ok_mq_control)
next
  case (Timer_call d)
  then show ?thesis using assms by (cases d) simp_all
qed

lemma timers_ok_thread_call:
  assumes "allowed_thread c k" "timers_ok k"
  shows "timers_ok (exec_thread c k)"
proof -
  have u: "\<not> live k x" if "thread_unused x k" for x using that by (simp add: thread_unused_def)
  show ?thesis
  proof (cases c)
    case (Thread_create mem st name p tk)
    then show ?thesis using assms u by (auto intro!: timers_ok_create)
  next
    case Thread_sleep_return
    then show ?thesis using assms(2) by (simp add: rt_thread_sleep_return_def)
  next
    case (Thread_sleep tk)
    then show ?thesis using assms timers_ok_sleep thread_running_caller [of k] by auto
  qed (use assms u in \<open>simp_all add: timers_ok_exit timers_ok_detach timers_ok_delete
      timers_ok_startup timers_ok_yield timers_ok_init\<close>)
qed

lemma timers_ok_exec:
  assumes "allowed c k" "timers_ok k"
  shows "timers_ok (exec c k)"
proof -
  have r: "running (caller k) k" if "thread_running k" using thread_running_caller [OF that] by simp
  show ?thesis
  proof (cases c)
    case (Thread_call d)
    then show ?thesis using assms timers_ok_thread_call by simp
  next
    case (Lock_call d)
    then show ?thesis using assms r timers_ok_sem [OF assms(2)] timers_ok_mutex [OF assms(2)]
        timers_ok_event [OF assms(2)]
      by (cases d) simp_all
  next
    case (Mail_call d)
    then show ?thesis using assms r timers_ok_mailbox [OF assms(2)] timers_ok_msgqueue [OF assms(2)]
      by (cases d) simp_all
  next
    case (Timer_call d)
    then show ?thesis using timers_ok_user_timer [OF assms(2)]
      by (cases d) (auto split: option.split simp: map_option_case)
  qed
qed

lemma exec_keeps: "allowed c k \<Longrightarrow> system_ok k \<Longrightarrow> system_ok (exec c k)"
  by (simp add: system_ok_def objects_ok_exec timers_ok_exec)

subsection \<open>Reachable states\<close>

inductive kcall :: "kernel \<Rightarrow> kernel \<Rightarrow> bool" where
  call: "allowed c k \<Longrightarrow> kcall k (exec c k)"
| schedule: "kcall k (rt_schedule k)"

inductive_cases kcallE: "kcall k k'"

text \<open>A function of the user that the kernel calls back: whatever it does is a sequence of calls.\<close>

definition user_fn :: "(kernel \<Rightarrow> kernel) \<Rightarrow> bool" where
  "user_fn f \<longleftrightarrow> (\<forall>k. kcall\<^sup>*\<^sup>* k (f k))"

inductive kstep :: "kernel \<Rightarrow> kernel \<Rightarrow> bool" where
  kcall: "kcall k k' \<Longrightarrow> kstep k k'"
| tick: "(\<And>n. user_fn (cb n)) \<Longrightarrow> rt_tick_increase cb fuel k = Some k' \<Longrightarrow> kstep k k'"
| idle: "(\<And>n t. user_fn (cu n t)) \<Longrightarrow> rt_thread_idle_excute cu fuel k = Some k' \<Longrightarrow> kstep k k'"

inductive_cases kstepE: "kstep k k'"

text \<open>The memory of a system that has just started: no thread, no object is in use.\<close>

definition boot :: kernel where
  "boot = rt_system_scheduler_init
     \<lparr>threads = (\<lambda>_. \<lparr>th_error = 0, th_stat = 0, th_current_priority = 0, th_init_priority = 0,
        th_number_mask = 0, th_event_set = 0, th_event_info = 0, th_init_tick = 0,
        th_remaining_tick = 0, th_cleanup = None\<rparr>),
      lists = (\<lambda>_. []), prio_group = 0, current = None, current_prio = 0, lock_nest = 0,
      int_nest = 0, tick = 0,
      timers = (\<lambda>_. \<lparr>tm_flag = 0, tm_func = User_timeout 0, tm_init_tick = 0, tm_timeout_tick = 0\<rparr>),
      timer_list = [], obj_list = (\<lambda>_. []),
      obj_hdr = (\<lambda>_. \<lparr>obj_name = [], obj_type = RT_Object_Class_Unknown, obj_static = False, obj_flag = 0\<rparr>),
      sems = (\<lambda>_. \<lparr>sem_value = 0\<rparr>),
      mutexes = (\<lambda>_. \<lparr>mtx_value = 0, mtx_original_priority = 0, mtx_hold = 0, mtx_owner = None\<rparr>),
      events = (\<lambda>_. \<lparr>ev_set = 0\<rparr>),
      mailboxes = (\<lambda>_. \<lparr>mb_msg_pool = [], mb_size = 0, mb_entry = 0, mb_in_offset = 0, mb_out_offset = 0\<rparr>),
      mqs = (\<lambda>_. \<lparr>mq_msg_pool = [], mq_msg_size = 0, mq_max_msgs = 0, mq_entry = 0, mq_head = None,
        mq_tail = None, mq_free = None\<rparr>),
      fault = False\<rparr>"

definition reachable :: "kernel \<Rightarrow> bool" where
  "reachable k \<longleftrightarrow> kstep\<^sup>*\<^sup>* boot k"

lemma boot_lists: "lists boot l = []"
  by (simp add: boot_def rt_system_scheduler_init_def split: lid.split)

lemma boot_ok: "system_ok boot"
proof -
  have "objects_ok boot"
    using boot_lists
    by (auto simp: objects_ok_def kernel_ok_def kinv_def sched_ok_def queues_ok_def ready_ok_def
        group_ok_def mutex_prios_ok_def wait_ok_def)
      (auto simp: boot_def rt_system_scheduler_init_def stat_of_def)
  moreover have "timers_ok boot"
    by (simp add: timers_ok_def live_def boot_def rt_system_scheduler_init_def stat_of_def)
  ultimately show ?thesis by (simp add: system_ok_def)
qed

lemma system_ok_schedule: "system_ok (rt_schedule k) = system_ok k"
  by (simp add: system_ok_def)

lemma kcall_ok: "kcall k k' \<Longrightarrow> system_ok k \<Longrightarrow> system_ok k'"
  by (auto elim!: kcallE intro: exec_keeps simp: system_ok_schedule)

lemma user_fn_ok:
  assumes "user_fn f" "system_ok k"
  shows "system_ok (f k)"
proof -
  have "kcall\<^sup>*\<^sup>* k (f k)" using assms(1) by (simp add: user_fn_def)
  then show ?thesis using assms(2) by (induction rule: rtranclp_induct) (auto intro: kcall_ok)
qed

text \<open>One expired timer: a thread's timer finds the thread suspended.\<close>

lemma expire_system_ok:
  assumes cb: "\<And>n. user_fn (cb n)" and k: "system_ok k" and i: "i \<in> set (timer_list k)"
  shows "system_ok (snd (timer_expire cb i k))"
proof -
  let ?r = "rt_timer_remove i k"
  have r: "system_ok ?r" using k by (simp add: system_ok_def)
  have t: "timers_ok k" using k by (simp add: system_ok_def)
  show ?thesis
  proof (cases i)
    case (Thread_timer t)
    note d = timers_okD [OF \<open>timers_ok k\<close> i [unfolded Thread_timer]]
    let ?t = "rt_thread_timeout t ?r"
    have "kernel_ok ?t" by (rule kernel_ok_timeout) (use r d system_okD in simp_all)
    then have o: "objects_ok ?t" using r by (simp add: system_ok_def objects_ok_def mutex_prios_ok_def thread_mutexes)
    have "timers_ok ?t"
      using t d Thread_timer by (intro timers_ok_timeout) (simp_all add: own_timer_def)
    moreover have s: "timers ?t = timers k" "timer_list ?t = removeAll i (timer_list k)"
      by (simp_all add: rt_thread_timeout_def Let_def)
    ultimately have "timers_ok (upd_timer i clear_activated ?t)"
      using Thread_timer by (intro upd_timers_ok) (auto simp: own_timer_def)
    then show ?thesis using d(3) o s Thread_timer
      by (simp add: timer_expire_def run_timeout_def own_timer_def Let_def system_ok_def)
  next
    case (Timer n)
    have "\<exists>m. tm_func (timers k (Timer n)) = User_timeout m" using t by (simp add: timers_ok_def)
    then obtain m where m: "tm_func (timers k (Timer n)) = User_timeout m" ..
    let ?c = "cb m ?r"
    have c: "system_ok ?c" using user_fn_ok [OF cb r] .
    then have "timers_ok (upd_timer (Timer n) clear_activated ?c)"
      by (auto simp: system_ok_def timers_ok_def live_def own_timer_def)
    then have "system_ok (upd_timer (Timer n) clear_activated ?c)" using c by (simp add: system_ok_def)
    then show ?thesis
      using m Timer timers_ok_user_timer(6) [of "upd_timer (Timer n) clear_activated ?c" n]
      by (simp add: timer_expire_def run_timeout_def Let_def system_ok_def)
  qed
qed

lemma timer_check_ok:
  assumes "\<And>n. user_fn (cb n)" "system_ok k" "timer_check_loop cb fuel tk k = Some k'"
  shows "system_ok k'"
  using assms(2,3)
proof (induction fuel arbitrary: tk k)
  case (Suc fuel)
  show ?case
  proof (cases "timer_list k")
    case (Cons i xs)
    have "system_ok (snd (timer_expire cb i k))"
      using assms(1) Suc.prems(1) Cons by (intro expire_system_ok) simp_all
    then show ?thesis using Suc.prems Suc.IH Cons by (auto simp: case_prod_beta split: if_splits)
  qed (use Suc.prems in simp)
qed simp

lemma system_ok_frame:
  "threads k' = threads k \<Longrightarrow> lists k' = lists k \<Longrightarrow> prio_group k' = prio_group k \<Longrightarrow>
     mutexes k' = mutexes k \<Longrightarrow> timers k' = timers k \<Longrightarrow> timer_list k' = timer_list k \<Longrightarrow>
     system_ok k' = system_ok k"
  using objects_ok_frame [of k' k] timers_ok_cong [of k' k] by (simp add: system_ok_def)

lemma upd_thread_ok:
  assumes "system_ok k" "\<And>th. th_stat (f th) = th_stat th"
    "\<And>th. th_current_priority (f th) = th_current_priority th"
    "\<And>th. th_number_mask (f th) = th_number_mask th"
  shows "system_ok (upd_thread t f k)"
  using assms kernel_ok_upd_frame [of k f t]
  by (simp add: system_ok_def objects_ok_def mutex_prios_ok_def stat_of_def)

lemma yield_ok: "system_ok k \<Longrightarrow> system_ok (snd (rt_thread_yield k))"
  using exec_keeps [of "Thread_call Thread_yield" k] by simp

lemma tick_ok:
  assumes "\<And>n. user_fn (cb n)" "system_ok k" "rt_tick_increase cb fuel k = Some k'"
  shows "system_ok k'"
proof (cases "current k")
  case None
  then have "system_ok k' = system_ok k" using assms(3)
    by (intro system_ok_frame) (auto simp: rt_tick_increase_def rt_thread_self_def)
  then show ?thesis using assms(2) by simp
next
  case (Some t)
  let ?a = "upd_thread t (\<lambda>th. th\<lparr>th_remaining_tick := th_remaining_tick th - 1\<rparr>) (k\<lparr>tick := tick k + 1\<rparr>)"
  let ?b = "upd_thread t (\<lambda>th. th\<lparr>th_remaining_tick := th_init_tick th\<rparr>) ?a"
  have "system_ok (k\<lparr>tick := tick k + 1\<rparr>)" using assms(2) system_ok_frame [of "k\<lparr>tick := tick k + 1\<rparr>" k] by simp
  then have a: "system_ok ?a" by (rule upd_thread_ok) simp_all
  then have "system_ok ?b" by (rule upd_thread_ok) simp_all
  then have "system_ok (snd (rt_thread_yield ?b))" by (rule yield_ok)
  then show ?thesis
    using Some a assms(3) timer_check_ok [OF assms(1)]
    by (auto simp: rt_tick_increase_def rt_thread_self_def rt_timer_check_def Let_def split: if_splits)
qed

lemma defunct_removed_ok:
  assumes "system_ok k" "t \<in> set (lists k Defunct)"
  shows "system_ok (tlist_remove t k)"
proof -
  have k: "kernel_ok k" using assms(1) by (rule system_okD)
  have "stat_of (threads k t) = RT_THREAD_CLOSE" using kernel_ok_listD [OF k assms(2)] by simp
  then have "kinv (tlist_remove t k)" using k by (intro kinv_tlist_remove) (auto simp: kernel_ok_def)
  moreover have "wait_ok (threads k) (\<lambda>l. removeAll t (lists k l))"
    using k by (auto simp: kernel_ok_def wait_ok_def)
  ultimately have "kernel_ok (tlist_remove t k)" by (simp add: kernel_ok_def tlist_remove_def)
  then show ?thesis using assms(1) by (simp add: system_ok_def objects_ok_def mutex_prios_ok_def)
qed

lemma idle_ok:
  assumes cu: "\<And>n t. user_fn (cu n t)" and "system_ok k" "rt_thread_idle_excute cu fuel k = Some k'"
  shows "system_ok k'"
  using assms(2,3)
proof (induction fuel arbitrary: k)
  case (Suc fuel)
  show ?case
  proof (cases "lists k Defunct")
    case (Cons t ts)
    let ?d = "debug_not_in_interrupt k"
    have "system_ok ?d" using Suc.prems(1) by (simp add: system_ok_def)
    then have "system_ok (tlist_remove t ?d)" using Cons by (intro defunct_removed_ok) simp_all
    then have "system_ok (rt_enter_critical (tlist_remove t ?d))" by (simp add: system_ok_def)
    then have "system_ok (idle_one cu t k)"
      using user_fn_ok [OF cu] by (simp add: idle_one_def run_cleanup_def split: option.split)
    then have "system_ok (rt_exit_critical (idle_one cu t k))" by (simp add: system_ok_def)
    moreover from this have "system_ok (rt_object_delete (Thread_obj t) (rt_exit_critical (idle_one cu t k)))"
      by (simp add: system_ok_def)
    ultimately show ?thesis using Suc.prems(2) Suc.IH unfolding idle_step [OF Cons]
      by (auto split: if_splits)
  qed (use Suc.prems in \<open>simp add: has_defunct_thread_def\<close>)
qed simp

lemma kstep_ok: "kstep k k' \<Longrightarrow> system_ok k \<Longrightarrow> system_ok k'"
  by (auto elim!: kstepE intro: kcall_ok tick_ok idle_ok)

lemma reachable_ok: "reachable k \<Longrightarrow> system_ok k"
  unfolding reachable_def by (induction rule: rtranclp_induct) (auto intro: boot_ok kstep_ok)

interpretation syscall: kernel_call "allowed c" "exec c" for c
  by unfold_locales (rule exec_keeps)

text \<open>What the invariant says of the threads that sleep.\<close>

lemma system_ok_sleep:
  assumes "system_ok k"
  shows "sleep_inv k"
proof -
  have t: "timers_ok k" and "kernel_ok k" using assms system_okD(2) [OF assms] by (simp_all only: system_ok_def)
  then have "kinv k" and "\<forall>n. \<exists>m. tm_func (timers k (Timer n)) = User_timeout m"
    unfolding kernel_ok_def timers_ok_def by blast+
  then show ?thesis unfolding sleep_inv_def using timers_okD [OF t, unfolded own_timer_def] by blast
qed

end
