(* ===== verification/Kernel_Demo.thy ===== *)
theory Kernel_Demo
  imports Kernel_Steps
begin

text \<open>
  Small concrete kernels on which the properties are applied: \<open>demo q\<close> has thread 1 (priority
  10) running, thread 3 (priority 10) behind it in the ready queue and thread 2 (priority 5)
  suspended, in the wait list \<open>q\<close> if there is one, and asks for any of the event bits 3.
  Objects and timers are as after \<open>boot\<close>.
\<close>

definition demo_thread :: "u8 \<Rightarrow> nat \<Rightarrow> rt_thread" where
  "demo_thread st p = \<lparr>th_error = 0, th_stat = st, th_current_priority = of_nat p,
     th_init_priority = of_nat p, th_number_mask = push_bit p 1, th_event_set = 3,
     th_event_info = RT_EVENT_FLAG_OR, th_init_tick = 10, th_remaining_tick = 10, th_cleanup = None\<rparr>"

fun demo_queue :: "lid option \<Rightarrow> lid \<Rightarrow> tid list" where
  "demo_queue q (Ready p) = (if p = 10 then [1, 3] else [])"
| "demo_queue q l = (if q = Some l then [2] else [])"

definition demo_threads :: "tid \<Rightarrow> rt_thread" where
  "demo_threads = (\<lambda>t. if t = 1 \<or> t = 3 then demo_thread RT_THREAD_READY 10
     else if t = 2 then demo_thread RT_THREAD_SUSPEND 5 else demo_thread RT_THREAD_INIT 20)"

definition demo :: "lid option \<Rightarrow> kernel" where
  "demo q = boot\<lparr>threads := demo_threads, lists := demo_queue q, prio_group := 1024,
     current := Some 1, current_prio := 10\<rparr>"

lemma demo_thread_sel [simp]:
  "th_error (demo_thread st p) = 0" "th_stat (demo_thread st p) = st"
  "th_current_priority (demo_thread st p) = of_nat p" "th_init_priority (demo_thread st p) = of_nat p"
  "th_number_mask (demo_thread st p) = push_bit p 1" "th_event_set (demo_thread st p) = 3"
  "th_event_info (demo_thread st p) = RT_EVENT_FLAG_OR" "th_cleanup (demo_thread st p) = None"
  by (simp_all add: demo_thread_def)

lemma demo_threads_at [simp]:
  "demo_threads 1 = demo_thread RT_THREAD_READY 10" "demo_threads (Suc 0) = demo_thread RT_THREAD_READY 10"
  "demo_threads 2 = demo_thread RT_THREAD_SUSPEND 5" "demo_threads 3 = demo_thread RT_THREAD_READY 10"
  "demo_threads 7 = demo_thread RT_THREAD_INIT 20"
  by (simp_all add: demo_threads_def)

lemma demo_sel [simp]:
  "threads (demo q) = demo_threads" "lists (demo q) = demo_queue q" "prio_group (demo q) = 1024"
  "current (demo q) = Some 1" "current_prio (demo q) = 10" "lock_nest (demo q) = 0"
  "int_nest (demo q) = 0" "tick (demo q) = 0" "timer_list (demo q) = []" "fault (demo q) = False"
  "sems (demo q) = (\<lambda>_. \<lparr>sem_value = 0\<rparr>)"
  "mutexes (demo q) = (\<lambda>_. \<lparr>mtx_value = 0, mtx_original_priority = 0, mtx_hold = 0, mtx_owner = None\<rparr>)"
  "events (demo q) = (\<lambda>_. \<lparr>ev_set = 0\<rparr>)" "obj_list (demo q) c = []"
  "obj_flag_of x (demo q) = RT_IPC_FLAG_FIFO" "tm_init_tick (timers (demo q) i) = 0"
  by (simp_all add: demo_def boot_def rt_system_scheduler_init_def obj_flag_of_def)

lemma demo_queue_in:
  "t \<in> set (demo_queue q l) \<longleftrightarrow> (l = Ready 10 \<and> (t = 1 \<or> t = 3)) \<or>
     (q = Some l \<and> t = 2 \<and> (\<forall>p. l \<noteq> Ready p))"
  by (cases l) auto

lemma demo_stat [simp]:
  "stat_of (demo_threads t) = (if t = 1 \<or> t = 3 then RT_THREAD_READY
     else if t = 2 then RT_THREAD_SUSPEND else RT_THREAD_INIT)"
  by (simp add: demo_threads_def stat_of_def)

lemma demo_wait:
  assumes "case q of None \<Rightarrow> True | Some l \<Rightarrow> wait_list l"
  shows "wait_ok demo_threads (demo_queue q)"
  using assms by (auto simp: wait_ok_def demo_queue_in wait_list_stat)

lemma demo_ok:
  assumes "case q of None \<Rightarrow> True | Some l \<Rightarrow> wait_list l"
  shows "kernel_ok (demo q)"
proof -
  have "distinct (demo_queue q l)" for l by (cases l) simp_all
  then have "queues_ok (demo_queue q)"
    by (auto simp: queues_ok_def demo_queue_in)
  moreover have "ready_ok demo_threads (demo_queue q)"
    by (auto simp: ready_ok_def demo_queue_in demo_threads_def stat_of_def)
  moreover have "bit (1024 :: u32) p \<longleftrightarrow> demo_queue q (Ready p) \<noteq> []" if "p < 32" for p
  proof -
    have "(1024 :: u32) = 2 ^ 10" by simp
    then show ?thesis using that bit_exp_iff [of 10 p, where ?'a = u32] by auto
  qed
  moreover have "mask_ok (demo_threads t)" for t by (simp add: mask_ok_def demo_threads_def)
  ultimately show ?thesis using demo_wait [OF assms]
    by (simp add: kernel_ok_def kinv_def sched_ok_def group_ok_def)
qed

lemma demo_running [simp]: "running 1 (demo q)" "running (Suc 0) (demo q)"
  by (simp_all add: running_def stat_of_def)

end
