(* ===== verification/Rt_List.thy ===== *)
theory Rt_List
  imports Rt_Prelude
begin

text \<open>
  The intrusive doubly and singly linked lists of \<^verbatim>\<open>include/rtservice.h\<close>, on an explicit
  store: an address is a number, \<open>nxt\<close> and \<open>prv\<close> are the two pointer fields. The theorems
  show that the pointer assignments implement the operations on sequences that
  \<open>Rtdef.tlist_remove\<close>, \<open>Rtdef.tlist_insert_before\<close> and \<open>Rtdef.tlist_insert_after\<close> state.
\<close>

record dstore =
  nxt :: "nat \<Rightarrow> nat"
  prv :: "nat \<Rightarrow> nat"

definition set_next :: "nat \<Rightarrow> nat \<Rightarrow> dstore \<Rightarrow> dstore" where
  "set_next a v s = s\<lparr>nxt := (nxt s)(a := v)\<rparr>"

definition set_prev :: "nat \<Rightarrow> nat \<Rightarrow> dstore \<Rightarrow> dstore" where
  "set_prev a v s = s\<lparr>prv := (prv s)(a := v)\<rparr>"

definition rt_list_init :: "nat \<Rightarrow> dstore \<Rightarrow> dstore" where
  "rt_list_init l s = set_next l l (set_prev l l s)"

definition rt_list_insert_after :: "nat \<Rightarrow> nat \<Rightarrow> dstore \<Rightarrow> dstore" where
  "rt_list_insert_after l n s =
     (let s = set_prev (nxt s l) n s;
          s = set_next n (nxt s l) s;
          s = set_next l n s
      in set_prev n l s)"

definition rt_list_insert_before :: "nat \<Rightarrow> nat \<Rightarrow> dstore \<Rightarrow> dstore" where
  "rt_list_insert_before l n s =
     (let s = set_next (prv s l) n s;
          s = set_prev n (prv s l) s;
          s = set_prev l n s
      in set_next n l s)"

definition rt_list_remove :: "nat \<Rightarrow> dstore \<Rightarrow> dstore" where
  "rt_list_remove n s =
     (let s = set_prev (nxt s n) (prv s n) s;
          s = set_next (prv s n) (nxt s n) s;
          s = set_prev n n s
      in set_next n n s)"

definition rt_list_isempty :: "nat \<Rightarrow> dstore \<Rightarrow> bool" where
  "rt_list_isempty l s \<longleftrightarrow> nxt s l = l"

text \<open>The loop of \<^verbatim>\<open>rt_list_len\<close>; the fuel bounds the walk, \<open>None\<close> means it ran out.\<close>

fun list_len_loop :: "nat \<Rightarrow> nat \<Rightarrow> nat \<Rightarrow> nat \<Rightarrow> dstore \<Rightarrow> nat option" where
  "list_len_loop 0 l p len s = None"
| "list_len_loop (Suc f) l p len s =
     (if nxt s p \<noteq> l then list_len_loop f l (nxt s p) (len + 1) s else Some len)"

definition rt_list_len :: "nat \<Rightarrow> nat \<Rightarrow> dstore \<Rightarrow> nat option" where
  "rt_list_len f l s = list_len_loop f l l 0 s"

subsection \<open>Rings\<close>

text \<open>
  \<open>seg s a xs b\<close>: following \<open>nxt\<close> from \<open>a\<close> visits \<open>xs\<close> and then \<open>b\<close>, and \<open>prv\<close> goes the
  other way. The ring of the head \<open>l\<close> is the segment from \<open>l\<close> back to \<open>l\<close>.
\<close>

fun seg :: "dstore \<Rightarrow> nat \<Rightarrow> nat list \<Rightarrow> nat \<Rightarrow> bool" where
  "seg s a [] b \<longleftrightarrow> nxt s a = b \<and> prv s b = a"
| "seg s a (x # xs) b \<longleftrightarrow> nxt s a = x \<and> prv s x = a \<and> seg s x xs b"

definition ring :: "dstore \<Rightarrow> nat \<Rightarrow> nat list \<Rightarrow> bool" where
  "ring s l xs \<longleftrightarrow> distinct (l # xs) \<and> seg s l xs l"

lemma set_next_sel [simp]:
  "nxt (set_next a v s) = (nxt s)(a := v)" "prv (set_next a v s) = prv s"
  by (simp_all add: set_next_def)

lemma set_prev_sel [simp]:
  "prv (set_prev a v s) = (prv s)(a := v)" "nxt (set_prev a v s) = nxt s"
  by (simp_all add: set_prev_def)

lemma seg_append: "seg s a (xs @ x # ys) b \<longleftrightarrow> seg s a xs x \<and> seg s x ys b"
  by (induction xs arbitrary: a) auto

lemma seg_nxt: "seg s a xs b \<Longrightarrow> nxt s a = hd (xs @ [b])"
  by (cases xs) auto

lemma seg_prv: "seg s a xs b \<Longrightarrow> prv s b = last (a # xs)"
  by (induction xs arbitrary: a) auto

lemma seg_cong:
  assumes "\<And>x. x \<in> set (a # xs) \<Longrightarrow> nxt s' x = nxt s x"
    and "\<And>x. x \<in> set (xs @ [b]) \<Longrightarrow> prv s' x = prv s x"
  shows "seg s' a xs b = seg s a xs b"
  using assms by (induction xs arbitrary: a) auto

lemma ring_unique: "ring s l xs \<Longrightarrow> ring s l ys \<Longrightarrow> xs = ys"
proof -
  have "seg s a xs l \<Longrightarrow> seg s a ys l \<Longrightarrow> l \<notin> set xs \<Longrightarrow> l \<notin> set ys \<Longrightarrow> xs = ys" for a
    by (induction xs arbitrary: a ys) (case_tac ys; fastforce)+
  then show "ring s l xs \<Longrightarrow> ring s l ys \<Longrightarrow> xs = ys"
    by (auto simp: ring_def)
qed

lemma ring_init: "ring (rt_list_init l s) l []"
  by (simp add: ring_def rt_list_init_def)

lemma ring_isempty: "ring s l xs \<Longrightarrow> rt_list_isempty l s \<longleftrightarrow> xs = []"
  by (cases xs) (auto simp: ring_def rt_list_isempty_def)

text \<open>
  A linked node is alone in its ring exactly when its two pointers agree; this is the test
  \<^verbatim>\<open>tlist.next != tlist.prev\<close> of \<^verbatim>\<open>rt_thread_yield\<close>.
\<close>

lemma ring_single:
  assumes "ring s l xs" "n \<in> set xs"
  shows "nxt s n \<noteq> prv s n \<longleftrightarrow> length xs \<noteq> 1"
proof -
  from assms(2) obtain ys zs where xs: "xs = ys @ n # zs" by (meson split_list)
  with assms(1) have l: "seg s l ys n" and r: "seg s n zs l" and d: "distinct (l # ys @ n # zs)"
    by (auto simp: ring_def seg_append)
  have "nxt s n = hd (zs @ [l])" using r by (rule seg_nxt)
  moreover have "prv s n = last (l # ys)" using l by (rule seg_prv)
  ultimately show ?thesis using d xs
    by (cases zs; cases ys rule: rev_cases) auto
qed

subsection \<open>Insertion and removal\<close>

lemma seg_insert_head:
  assumes "seg s p ys l" "n \<notin> set (p # l # ys)" "p \<notin> set ys" "l \<notin> set ys" "distinct ys"
  shows "seg (rt_list_insert_after p n s) p (n # ys) l"
proof (cases ys)
  case Nil
  with assms show ?thesis by (auto simp: rt_list_insert_after_def Let_def)
next
  case (Cons y ys')
  let ?s' = "rt_list_insert_after p n s"
  from assms Cons have "seg s y ys' l" and y: "nxt s p = y" "prv s y = p" by auto
  have "seg ?s' y ys' l = seg s y ys' l"
    by (rule seg_cong) (use assms Cons y in \<open>auto simp: rt_list_insert_after_def Let_def\<close>)
  with \<open>seg s y ys' l\<close> have "seg ?s' y ys' l" by simp
  with assms Cons y show ?thesis by (auto simp: rt_list_insert_after_def Let_def)
qed

lemma insert_before_eq_after:
  assumes "nxt s a = b" "prv s b = a" "n \<noteq> a" "n \<noteq> b"
  shows "rt_list_insert_before b n s = rt_list_insert_after a n s"
  using assms
  by (auto simp: rt_list_insert_before_def rt_list_insert_after_def Let_def
      set_next_def set_prev_def fun_eq_iff intro!: dstore.equality)

lemma seg_neighbours:
  "seg s a (xs @ ys) b \<Longrightarrow>
     nxt s (last (a # xs)) = hd (ys @ [b]) \<and> prv s (hd (ys @ [b])) = last (a # xs)"
proof (induction xs arbitrary: a)
  case Nil
  then show ?case by (cases ys) auto
qed auto

lemma ring_insert_after:
  assumes "ring s l (xs @ ys)" "n \<notin> set (l # xs @ ys)"
  shows "ring (rt_list_insert_after (last (l # xs)) n s) l (xs @ n # ys)"
proof (cases xs rule: rev_cases)
  case Nil
  with assms show ?thesis by (auto simp: ring_def intro!: seg_insert_head simp del: seg.simps)
next
  case (snoc xs' p)
  let ?s' = "rt_list_insert_after p n s"
  from assms snoc have left: "seg s l xs' p" and right: "seg s p ys l"
    and d: "distinct (l # xs' @ p # ys)" by (auto simp: ring_def seg_append)
  have b: "nxt s p = hd (ys @ [l])" using right by (rule seg_nxt)
  then have "nxt s p \<in> set (l # ys)" by (cases ys) auto
  then have "seg ?s' l xs' p = seg s l xs' p"
    using d assms(2) snoc
    by (intro seg_cong) (auto simp: rt_list_insert_after_def Let_def)
  moreover have "seg ?s' p (n # ys) l"
    using right d assms(2) snoc by (intro seg_insert_head) auto
  ultimately show ?thesis
    using left d assms(2) snoc by (auto simp: ring_def seg_append simp del: seg.simps)
qed

lemma ring_insert_before:
  assumes "ring s l (xs @ ys)" "n \<notin> set (l # xs @ ys)"
  shows "ring (rt_list_insert_before (hd (ys @ [l])) n s) l (xs @ n # ys)"
proof -
  have nb: "nxt s (last (l # xs)) = hd (ys @ [l])" "prv s (hd (ys @ [l])) = last (l # xs)"
    using assms(1) seg_neighbours [of s l xs ys l] by (auto simp: ring_def)
  have "n \<noteq> last (l # xs)" "n \<noteq> hd (ys @ [l])"
    using assms(2) by (cases xs rule: rev_cases; cases ys; auto)+
  then have "rt_list_insert_before (hd (ys @ [l])) n s = rt_list_insert_after (last (l # xs)) n s"
    using nb by (intro insert_before_eq_after)
  then show ?thesis using ring_insert_after [OF assms] by simp
qed

lemma seg_remove_head:
  assumes "seg s p (n # ys) l" "n \<notin> set (p # l # ys)" "p \<notin> set ys" "l \<notin> set ys" "distinct ys"
  shows "seg (rt_list_remove n s) p ys l"
proof (cases ys)
  case Nil
  with assms show ?thesis by (auto simp: rt_list_remove_def Let_def)
next
  case (Cons y ys')
  let ?s' = "rt_list_remove n s"
  from assms Cons have "seg s y ys' l" by auto
  have "seg ?s' y ys' l = seg s y ys' l"
    by (rule seg_cong) (use assms Cons in \<open>auto simp: rt_list_remove_def Let_def\<close>)
  with \<open>seg s y ys' l\<close> have "seg ?s' y ys' l" by simp
  with assms Cons show ?thesis by (auto simp: rt_list_remove_def Let_def)
qed

lemma ring_remove:
  assumes "ring s l (xs @ n # ys)"
  shows "ring (rt_list_remove n s) l (xs @ ys) \<and> ring (rt_list_remove n s) n []"
proof -
  let ?s' = "rt_list_remove n s"
  have self: "ring ?s' n []" by (simp add: ring_def rt_list_remove_def Let_def)
  have "ring ?s' l (xs @ ys)"
  proof (cases xs rule: rev_cases)
    case Nil
    with assms show ?thesis by (auto simp: ring_def intro!: seg_remove_head simp del: seg.simps)
  next
    case (snoc xs' p)
    from assms snoc have left: "seg s l xs' p" and right: "seg s p (n # ys) l"
      and d: "distinct (l # xs' @ p # n # ys)" by (auto simp: ring_def seg_append)
    have "seg s n ys l" and pn: "nxt s p = n" "prv s n = p" using right by auto
    then have "nxt s n \<in> set (l # ys)" by (cases ys) auto
    then have "seg ?s' l xs' p = seg s l xs' p"
      using d pn by (intro seg_cong) (auto simp: rt_list_remove_def Let_def)
    moreover have "seg ?s' p ys l"
      using right d by (intro seg_remove_head) auto
    ultimately show ?thesis
      using left d snoc by (auto simp: ring_def seg_append simp del: seg.simps)
  qed
  with self show ?thesis by simp
qed

text \<open>The operations touch the neighbours of the node only: any other ring is unchanged.\<close>

lemma ring_cong:
  "(\<And>x. x \<in> set (l # xs) \<Longrightarrow> nxt s' x = nxt s x \<and> prv s' x = prv s x) \<Longrightarrow>
     ring s' l xs = ring s l xs"
  unfolding ring_def by (intro conj_cong refl seg_cong) auto

lemma ring_nxt_in: "ring s l xs \<Longrightarrow> x \<in> set (l # xs) \<Longrightarrow> nxt s x \<in> set (l # xs)"
proof -
  assume r: "ring s l xs" and x: "x \<in> set (l # xs)"
  have "seg s a zs b \<Longrightarrow> x \<in> set (a # zs) \<Longrightarrow> nxt s x \<in> set (zs @ [b])" for a zs b
    by (induction zs arbitrary: a) auto
  then show ?thesis using r x by (auto simp: ring_def)
qed

lemma ring_prv_in: "ring s l xs \<Longrightarrow> x \<in> set (l # xs) \<Longrightarrow> prv s x \<in> set (l # xs)"
proof -
  assume r: "ring s l xs" and x: "x \<in> set (l # xs)"
  have "seg s a zs b \<Longrightarrow> x \<in> set (zs @ [b]) \<Longrightarrow> prv s x \<in> set (a # zs)" for a zs b
    by (induction zs arbitrary: a) auto
  then show ?thesis using r x by (auto simp: ring_def)
qed

lemma ring_remove_other:
  assumes "ring s l xs" "n \<in> set (l # xs)" "ring s m ys" "set (l # xs) \<inter> set (m # ys) = {}"
  shows "ring (rt_list_remove n s) m ys"
proof -
  have "nxt s n \<in> set (l # xs)" "prv s n \<in> set (l # xs)"
    using ring_nxt_in [OF assms(1,2)] ring_prv_in [OF assms(1,2)] by auto
  then have "ring (rt_list_remove n s) m ys = ring s m ys"
    using assms(2,4) by (intro ring_cong) (auto simp: rt_list_remove_def Let_def)
  with assms(3) show ?thesis by simp
qed

lemma list_len_loop_seg:
  "seg s p ys l \<Longrightarrow> l \<notin> set ys \<Longrightarrow> length ys < f \<Longrightarrow>
     list_len_loop f l p len s = Some (len + length ys)"
proof (induction ys arbitrary: p len f)
  case Nil
  then show ?case by (cases f) auto
next
  case (Cons y ys)
  then show ?case by (cases f) auto
qed

lemma ring_len: "ring s l xs \<Longrightarrow> length xs < f \<Longrightarrow> rt_list_len f l s = Some (length xs)"
  by (auto simp: ring_def rt_list_len_def list_len_loop_seg)

subsection \<open>Singly linked lists\<close>

text \<open>
  \<^verbatim>\<open>rt_slist_t\<close>: the store maps a node to its \<^verbatim>\<open>next\<close> pointer, \<open>None\<close> is \<^verbatim>\<open>RT_NULL\<close>. The
  two walks of \<^verbatim>\<open>rt_slist_append\<close> and \<^verbatim>\<open>rt_slist_remove\<close> carry fuel.
\<close>

type_synonym sstore = "nat \<Rightarrow> nat option"

definition rt_slist_init :: "nat \<Rightarrow> sstore \<Rightarrow> sstore" where
  "rt_slist_init l s = s(l := None)"

fun slist_walk :: "nat \<Rightarrow> (nat \<Rightarrow> bool) \<Rightarrow> nat \<Rightarrow> sstore \<Rightarrow> nat option" where
  "slist_walk 0 stop node s = None"
| "slist_walk (Suc f) stop node s =
     (case s node of
        Some m \<Rightarrow> if stop m then Some node else slist_walk f stop m s
      | None \<Rightarrow> Some node)"

definition rt_slist_append :: "nat \<Rightarrow> nat \<Rightarrow> nat \<Rightarrow> sstore \<Rightarrow> sstore option" where
  "rt_slist_append f l n s =
     (case slist_walk f (\<lambda>_. False) l s of
        None \<Rightarrow> None
      | Some node \<Rightarrow> Some (s(node := Some n, n := None)))"

definition rt_slist_insert :: "nat \<Rightarrow> nat \<Rightarrow> sstore \<Rightarrow> sstore" where
  "rt_slist_insert l n s = (let s = s(n := s l) in s(l := Some n))"

fun rt_slist_len_from :: "nat \<Rightarrow> nat option \<Rightarrow> nat \<Rightarrow> sstore \<Rightarrow> nat option" where
  "rt_slist_len_from 0 p len s = None"
| "rt_slist_len_from (Suc f) p len s =
     (case p of None \<Rightarrow> Some len | Some a \<Rightarrow> rt_slist_len_from f (s a) (len + 1) s)"

definition rt_slist_len :: "nat \<Rightarrow> nat \<Rightarrow> sstore \<Rightarrow> nat option" where
  "rt_slist_len f l s = rt_slist_len_from f (s l) 0 s"

definition rt_slist_remove :: "nat \<Rightarrow> nat \<Rightarrow> nat \<Rightarrow> sstore \<Rightarrow> sstore option" where
  "rt_slist_remove f l n s =
     (case slist_walk f (\<lambda>m. m = n) l s of
        None \<Rightarrow> None
      | Some node \<Rightarrow>
          Some (case s node of None \<Rightarrow> s | Some m \<Rightarrow> s(node := s m)))"

definition rt_slist_isempty :: "nat \<Rightarrow> sstore \<Rightarrow> bool" where
  "rt_slist_isempty l s \<longleftrightarrow> s l = None"

fun spath :: "sstore \<Rightarrow> nat \<Rightarrow> nat list \<Rightarrow> bool" where
  "spath s a [] \<longleftrightarrow> s a = None"
| "spath s a (x # xs) \<longleftrightarrow> s a = Some x \<and> spath s x xs"

definition slist :: "sstore \<Rightarrow> nat \<Rightarrow> nat list \<Rightarrow> bool" where
  "slist s l xs \<longleftrightarrow> distinct (l # xs) \<and> spath s l xs"

lemma spath_upd: "n \<notin> set (a # xs) \<Longrightarrow> spath (s(n := v)) a xs = spath s a xs"
  by (induction xs arbitrary: a) auto

lemma slist_walk_end:
  "spath s a xs \<Longrightarrow> length xs < f \<Longrightarrow> slist_walk f (\<lambda>_. False) a s = Some (last (a # xs))"
proof (induction xs arbitrary: a f)
  case Nil
  then show ?case by (cases f) auto
next
  case (Cons x xs)
  then show ?case by (cases f) auto
qed

lemma spath_append:
  "spath s a xs \<Longrightarrow> distinct (a # xs) \<Longrightarrow> n \<notin> set (a # xs) \<Longrightarrow>
     spath (s(last (a # xs) := Some n, n := None)) a (xs @ [n])"
proof (induction xs arbitrary: a)
  case (Cons x xs)
  have "spath (s(last (x # xs) := Some n, n := None)) x (xs @ [n])"
    using Cons.prems by (intro Cons.IH) auto
  moreover have "last (x # xs) \<noteq> a" using Cons.prems(2) last_in_set [of "x # xs"] by auto
  ultimately show ?case using Cons.prems by (auto simp: fun_upd_def)
qed auto

lemma slist_append:
  assumes "slist s l xs" "n \<notin> set (l # xs)" "length xs < f"
  shows "\<exists>s'. rt_slist_append f l n s = Some s' \<and> slist s' l (xs @ [n])"
  using assms slist_walk_end [of s l xs f] spath_append [of s l xs n]
  by (auto simp: slist_def rt_slist_append_def)

lemma slist_insert:
  "slist s l xs \<Longrightarrow> n \<notin> set (l # xs) \<Longrightarrow> slist (rt_slist_insert l n s) l (n # xs)"
  by (cases xs) (auto simp: slist_def rt_slist_insert_def spath_upd)

lemma slist_remove_path:
  "spath s a xs \<Longrightarrow> distinct (a # xs) \<Longrightarrow> length xs < f \<Longrightarrow>
     \<exists>node. slist_walk f (\<lambda>m. m = n) a s = Some node \<and> node \<in> set (a # xs) \<and>
       spath (case s node of None \<Rightarrow> s | Some m \<Rightarrow> s(node := s m)) a (removeAll n xs)"
proof (induction xs arbitrary: a f)
  case Nil
  then show ?case by (cases f) auto
next
  case (Cons x xs)
  then obtain f' where f: "f = Suc f'" "length xs < f'" by (cases f) auto
  show ?case
  proof (cases "x = n")
    case True
    then show ?thesis using Cons.prems f by (cases xs) (auto simp: spath_upd)
  next
    case False
    from Cons.prems have "spath s x xs" "distinct (x # xs)" by auto
    from Cons.IH [OF this f(2)] obtain node where node:
      "slist_walk f' (\<lambda>m. m = n) x s = Some node" "node \<in> set (x # xs)"
      "spath (case s node of None \<Rightarrow> s | Some m \<Rightarrow> s(node := s m)) x (removeAll n xs)" by auto
    then have "a \<noteq> node" using Cons.prems(2) by auto
    with node False Cons.prems f show ?thesis
      by (intro exI [of _ node]) (auto split: option.splits)
  qed
qed

lemma slist_remove:
  assumes "slist s l xs" "length xs < f"
  shows "\<exists>s'. rt_slist_remove f l n s = Some s' \<and> slist s' l (removeAll n xs)"
  using assms slist_remove_path [of s l xs f n]
  by (auto simp: slist_def rt_slist_remove_def distinct_removeAll)

lemma slist_len: "slist s l xs \<Longrightarrow> length xs < f \<Longrightarrow> rt_slist_len f l s = Some (length xs)"
proof -
  have "spath s a ys \<Longrightarrow> length ys < f \<Longrightarrow> rt_slist_len_from f (s a) len s = Some (len + length ys)"
    for a ys len f
  proof (induction ys arbitrary: a f len)
    case Nil
    then show ?case by (cases f) auto
  next
    case (Cons y ys)
    then show ?case by (cases f) auto
  qed
  then show "slist s l xs \<Longrightarrow> length xs < f \<Longrightarrow> ?thesis"
    by (auto simp: slist_def rt_slist_len_def)
qed

end
