(* ===== verification/Kernel_Properties.thy ===== *)
theory Kernel_Properties
  imports Kernel_Demo Rt_List
begin

text \<open>
  The properties of the kernel. Each rests on the lemmas of the components' theories; the
  theorem that follows one with hypotheses applies it to a concrete kernel of \<open>Kernel_Demo\<close>.
\<close>

subsection \<open>The system\<close>

text \<open>C1: every state that the kernel reaches from the one in which the scheduler is
  initialised satisfies the kernel invariant. A step is any call of the thread, scheduler,
  semaphore, mutex, event, mailbox, message queue and timer interfaces (initialise, create, detach,
  delete, blocking calls and their return paths, start of the scheduler) under the conditions of
  their documentation (\<open>allowed\<close>: a thread is initialised while it is not in use and started after
  that, an object is initialised in memory nobody waits on, blocking calls come from a running
  thread, priorities are below 32, a thread that is detached or deleted is alive), the tick interrupt with its timer check, or the idle thread's clean-up; functions of
  user timers and cleanup functions are any sequences of calls. The invariant: each thread is in
  at most one list and only once, the ready queues hold exactly the ready threads at their
  priority, the priority bitmap marks exactly the non-empty ready queues, waiting threads are
  suspended, the saved priority of an owned mutex is a valid one, and the timer of a thread is
  pending only while it is suspended. Steps are not interleaved within a call, and a tick or
  clean-up is a step when it returns.\<close>

theorem reachable_system_ok:
  "reachable k \<Longrightarrow> system_ok k"
  by (rule reachable_ok)

theorem reachable_system_ok_witness:
  "\<exists>k. reachable k \<and> system_ok k \<and> current k = Some 1 \<and> lists k (Ready 10) = [1]"
proof -
  let ?a = "exec (Thread_call (Thread_init 1 ''main'' 10 20)) boot"
  let ?b = "exec (Thread_call (Thread_startup 1)) ?a"
  let ?c = "exec (Thread_call Scheduler_start) ?b"
  note boot = boot_def rt_system_scheduler_init_def
  note init = rt_thread_init_def rt_thread_init_fields_def rt_timer_init_def rt_timer_init_fields_def
    Let_def kobj_defs own_timer_def timer_periodic_def clear_activated_def stat_of_def
  have "thread_unused 1 boot"
    by (simp add: thread_unused_def live_def boot stat_of_def)
  then have "kcall boot ?a" by (intro kcall.call) simp
  moreover have "stat_of (threads ?a 1) = RT_THREAD_INIT" "th_init_priority (threads ?a 1) = 10" "own_timer ?a 1"
    by (simp_all add: init)
  then have "kcall ?a ?b" by (intro kcall.call) simp
  moreover have "kcall ?b ?c" by (intro kcall.call) simp
  ultimately have "kstep\<^sup>*\<^sup>* boot ?c"
    by (meson kstep.kcall converse_rtranclp_into_rtranclp rtranclp.rtrancl_refl)
  then have r: "reachable ?c" by (simp add: reachable_def)
  show ?thesis
  proof (intro exI [of _ ?c] conjI)
    show "reachable ?c" "system_ok ?c" using r reachable_system_ok [OF r] by auto
    have a: "lists ?a = lists boot" "prio_group ?a = prio_group boot" "current ?a = current boot"
      by (simp_all add: init upd_timer_def upd_thread_def rt_assert_def)
    have "prio_group boot = 0" "current boot = None" by (simp_all add: boot)
    then have n: "rt_thread_self ?a = None" "lists ?a l = []" "prio_group ?a = 0" for l
      using boot_lists [of l] by (simp_all only: a rt_thread_self_def)
    have s: "stat_of (threads ?a 1) = RT_THREAD_INIT" "th_init_priority (threads ?a 1) = 10"
      by (simp_all add: init)
    have l: "lists ?b = (lists ?a)(Ready 10 := [1])" "prio_group ?b = 0x400"
      using n s by (auto simp: rt_thread_startup_def rt_thread_resume_def Let_def fun_eq_iff rt_thread_self_def
          tlist_remove_def set_mask_def)
    moreover have "rt_ffs 0x400 = 11" by code_simp
    ultimately show "current ?c = Some 1" "lists ?c (Ready 10) = [1]"
      by (simp_all add: rt_system_scheduler_start_def highest_ready_def)
  qed
qed

text \<open>C2: \<^verbatim>\<open>rt_schedule\<close> (with the scheduler unlocked) switches to a ready thread of the
  highest priority: no ready thread has a smaller priority number, and among those of the same
  priority it is the first of the queue.\<close>

theorem schedule_picks_highest_ready:
  assumes "kernel_ok k" "stat_of (threads k t) = RT_THREAD_READY" "lock_nest k = 0" "current k = Some c"
  shows "\<exists>n. current (rt_schedule k) = Some n \<and> fault (rt_schedule k) = fault k \<and>
    stat_of (threads k n) = RT_THREAD_READY \<and>
    (\<exists>ns. lists k (Ready (unat (th_current_priority (threads k n)))) = n # ns) \<and>
    (\<forall>u. stat_of (threads k u) = RT_THREAD_READY \<longrightarrow>
       th_current_priority (threads k n) \<le> th_current_priority (threads k u))"
proof -
  have k: "kinv k" using assms(1) by (rule kernel_ok_kinv)
  let ?n = "hd (lists k (Ready (highest_ready k)))"
  note s = rt_schedule_current [OF k assms(2-4)]
  have "?n \<in> set (lists k (Ready (highest_ready k)))" using s by simp
  then have n: "stat_of (threads k ?n) = RT_THREAD_READY"
    "unat (th_current_priority (threads k ?n)) = highest_ready k"
    using k ready_okD [of "threads k" "lists k"] by (auto simp: kinv_def sched_ok_def)
  obtain ns where "lists k (Ready (highest_ready k)) = ?n # ns"
    using s by (cases "lists k (Ready (highest_ready k))") auto
  then show ?thesis using s n highest_ready_prio [OF k] by (auto simp: word_le_nat_alt)
qed

theorem schedule_picks_highest_ready_witness:
  "\<exists>n. current (rt_schedule (demo None)) = Some n \<and>
     stat_of (demo_threads n) = RT_THREAD_READY \<and> th_current_priority (demo_threads n) \<le> 10"
proof -
  have "stat_of (threads (demo None) 1) = RT_THREAD_READY" "th_current_priority (threads (demo None) 1) = 10"
    by (simp_all add: stat_of_def)
  with schedule_picks_highest_ready [of "demo None" 1 1] demo_ok [of None]
  show ?thesis by (metis demo_sel(1,4,6) option.case(1))
qed

text \<open>C3: \<^verbatim>\<open>__rt_ffs\<close> returns one more than the position of the lowest set bit.\<close>

theorem ffs_finds_lowest_bit:
  "v \<noteq> 0 \<Longrightarrow> 0 < rt_ffs v \<and> bit v (rt_ffs v - 1) \<and> (\<forall>j < rt_ffs v - 1. \<not> bit v j)"
  by (rule rt_ffs_least)

theorem ffs_finds_lowest_bit_witness:
  "bit (0x500 :: u32) (rt_ffs 0x500 - 1) \<and> \<not> bit (0x500 :: u32) 3"
  using ffs_finds_lowest_bit [of "0x500"] by (simp add: bit_iff_odd)

text \<open>C4: releasing a semaphore whose count is below 65535 gives the unit to the first waiter,
  which becomes ready at the end of its priority's queue (no other queue changes), and counts the
  unit only when nobody waits.\<close>

theorem sem_release_refines:
  assumes "sem_ok s k" "sem_value (sems k s) \<noteq> 0xffff"
  defines "k' \<equiv> snd (rt_sem_release s k)"
  shows "sem_abs s k' = spec_release (sem_abs s k) \<and> sem_ok s k' \<and>
    (\<forall>t ts. lists k (Suspend s) = t # ts \<longrightarrow>
       (let p = unat (th_current_priority (threads k t)) in
        threads k' = (threads k)(t := set_stat RT_THREAD_READY (threads k t)) \<and>
        lists k' = (lists k)(Suspend s := ts, Ready p := lists k (Ready p) @ [t])))"
proof -
  have k: "kernel_ok k" using assms(1) by (simp add: sem_ok_def)
  show ?thesis using spec_release_abs [OF assms(1,2)] sem_release_wakes [OF k]
    by (auto simp: k'_def Let_def)
qed

theorem sem_release_refines_witness:
  "sem_abs 4 (snd (rt_sem_release 4 (demo (Some (Suspend 4))))) = (0, []) \<and>
   lists (snd (rt_sem_release 4 (demo (Some (Suspend 4))))) (Ready 5) = [2]"
proof -
  have "sem_ok 4 (demo (Some (Suspend 4)))" using demo_ok [of "Some (Suspend 4)"] by (simp add: sem_ok_def)
  from sem_release_refines [OF this] show ?thesis by (simp add: sem_abs_def Let_def)
qed

text \<open>C5: taking a semaphore takes a unit if there is one; otherwise the caller is suspended and
  joins the queue, whatever the time-out (not 0) is: at the end of a FIFO semaphore, behind the
  waiters of the same or a higher priority (a smaller or equal number) of one with the priority
  flag.\<close>

theorem sem_take_refines:
  assumes "sem_ok s k" "running t k" "time \<noteq> 0"
    and "obj_flag_of s k = RT_IPC_FLAG_FIFO \<or> obj_flag_of s k = RT_IPC_FLAG_PRIO"
  defines "k' \<equiv> snd (rt_sem_take s time k)"
    and "join \<equiv> queue_up (obj_flag_of s k) (\<lambda>u. th_current_priority (threads k u)) t"
  shows "sem_abs s k' = spec_take join (sem_abs s k) \<and> sem_ok s k' \<and>
    fst (rt_sem_take s time k) = (if sem_value (sems k s) = 0 then Waiting t else Returned RT_EOK) \<and>
    (sem_value (sems k s) = 0 \<longrightarrow> stat_of (threads k' t) = RT_THREAD_SUSPEND)"
proof -
  have k: "kernel_ok k" using assms(1) by (simp add: sem_ok_def)
  show ?thesis
    using spec_take_abs [OF assms(1-4)] sem_take_blocked_state(1,3) [OF k _ assms(3,2,4)]
    by (auto simp: sem_take_available word_gt_0 k'_def join_def)
qed

theorem sem_take_refines_witness:
  "sem_abs 4 (snd (rt_sem_take 4 50 (demo (Some (Suspend 4))))) = (0, [2, 1])"
proof -
  have "sem_ok 4 (demo (Some (Suspend 4)))" using demo_ok [of "Some (Suspend 4)"] by (simp add: sem_ok_def)
  from sem_take_refines [OF this, of 1 50] show ?thesis by (simp add: sem_abs_def queue_up_def)
qed

text \<open>C6: taking and releasing a mutex keep it consistent: an owned mutex has value 0, a hold
  count above 0 and a valid saved priority, its owner does not wait for it and (in priority
  order) is at least as urgent as every waiter; a free one has value 1, hold count 0 and no
  waiter. The hold count must not be at the top of its 8 bits.\<close>

theorem mutex_ops_keep_invariant:
  fixes time :: int
  assumes "mutex_ok m k" "running t k" "mtx_hold (mutexes k m) \<noteq> 0xff" "time \<noteq> 0"
    and "obj_flag_of m k = RT_IPC_FLAG_FIFO \<or> obj_flag_of m k = RT_IPC_FLAG_PRIO"
  shows "mutex_ok m (snd (rt_mutex_take m time k)) \<and> mutex_ok m (snd (rt_mutex_release m k))"
  using mutex_take_ok [OF assms(1,2,5,3,4)] mutex_release_ok [OF assms(1,2)] ..

definition demo_mutex :: "lid option \<Rightarrow> u8 \<Rightarrow> tid \<Rightarrow> kernel" where
  "demo_mutex q h t = (demo q)\<lparr>mutexes := (\<lambda>_. \<lparr>mtx_value = 0, mtx_original_priority = 10,
     mtx_hold = h, mtx_owner = Some t\<rparr>)\<rparr>"

lemma demo_mutex_sel [simp]:
  "threads (demo_mutex q h t) = demo_threads" "lists (demo_mutex q h t) = demo_queue q"
  "current (demo_mutex q h t) = Some 1" "obj_flag_of x (demo_mutex q h t) = RT_IPC_FLAG_FIFO"
  "mutexes (demo_mutex q h t) = (\<lambda>_. \<lparr>mtx_value = 0, mtx_original_priority = 10, mtx_hold = h, mtx_owner = Some t\<rparr>)"
  "running 1 (demo_mutex q h t)" "running (Suc 0) (demo_mutex q h t)"
  by (simp_all add: demo_mutex_def running_def stat_of_def)
    (simp_all add: obj_flag_of_def demo_def boot_def rt_system_scheduler_init_def)

lemma demo_mutex_ok:
  assumes "h \<noteq> 0" "t \<noteq> 2"
  shows "mutex_ok m (demo_mutex (Some (Suspend m)) h t)" "mutex_ok m (demo_mutex None h t)"
proof -
  have "kernel_ok (demo_mutex q h t) = kernel_ok (demo q)" for q
    by (rule kernel_ok_cong) (simp_all add: demo_mutex_def)
  then show "mutex_ok m (demo_mutex (Some (Suspend m)) h t)" "mutex_ok m (demo_mutex None h t)"
    using demo_ok [of "Some (Suspend m)"] demo_ok [of None] assms
    by (simp_all add: mutex_ok_def waiters_served_def)
qed

theorem mutex_ops_keep_invariant_witness:
  "mutex_ok 4 (snd (rt_mutex_take 4 50 (demo_mutex (Some (Suspend 4)) 1 1)))"
  using mutex_ops_keep_invariant [OF demo_mutex_ok(1), of 1 1 1 4 50] by simp

text \<open>C7: the last release of a mutex hands it to its first waiter, which becomes ready, owns the
  mutex once and keeps its error code; the releasing thread is back at the priority saved when
  it took the mutex.\<close>

theorem mutex_release_hands_over:
  assumes "mutex_ok m k" "running t k" "mtx_owner (mutexes k m) = Some t" "mtx_hold (mutexes k m) = 1"
    and "lists k (Suspend m) = w # ws"
  defines "k' \<equiv> snd (rt_mutex_release m k)"
  shows "mutex_ok m k' \<and> mtx_owner (mutexes k' m) = Some w \<and> mtx_hold (mutexes k' m) = 1 \<and>
    stat_of (threads k' w) = RT_THREAD_READY \<and> lists k' (Suspend m) = ws \<and>
    th_error (threads k' w) = th_error (threads k w) \<and>
    th_current_priority (threads k' t) = mtx_original_priority (mutexes k m)"
  unfolding k'_def using mutex_release_handoff [OF assms(1-5)] by blast

theorem mutex_release_hands_over_witness:
  "mtx_owner (mutexes (snd (rt_mutex_release 4 (demo_mutex (Some (Suspend 4)) 1 1))) 4) = Some 2"
proof -
  have "mutex_ok 4 (demo_mutex (Some (Suspend 4)) 1 1)" by (rule demo_mutex_ok) simp_all
  from mutex_release_hands_over [OF this, of 1 2 "[]"] show ?thesis by simp
qed

text \<open>C8: a thread that has to wait for a mutex lends its priority to the owner when it is the
  more urgent one, and is suspended in the mutex's wait list.\<close>

theorem mutex_take_boosts_owner:
  fixes time :: int
  assumes "mutex_ok m k" "running t k" "mtx_owner (mutexes k m) = Some w" "w \<noteq> t" "time \<noteq> 0"
    and f: "obj_flag_of m k = RT_IPC_FLAG_FIFO \<or> obj_flag_of m k = RT_IPC_FLAG_PRIO"
  defines "k' \<equiv> snd (rt_mutex_take m time k)"
  shows "fst (rt_mutex_take m time k) = Waiting t \<and>
    th_current_priority (threads k' w) =
      min (th_current_priority (threads k t)) (th_current_priority (threads k w)) \<and>
    stat_of (threads k' t) = RT_THREAD_SUSPEND \<and> t \<in> set (lists k' (Suspend m)) \<and>
    mutexes k' = mutexes k"
  unfolding k'_def using mutex_take_waits [OF assms(1-6)] by blast

theorem mutex_take_boosts_owner_witness:
  "stat_of (threads (snd (rt_mutex_take 4 50 (demo_mutex None 1 7))) 1) = RT_THREAD_SUSPEND \<and>
   th_current_priority (threads (snd (rt_mutex_take 4 50 (demo_mutex None 1 7))) 7) = 10"
proof -
  have "mutex_ok 4 (demo_mutex None 1 7)" by (rule demo_mutex_ok) simp_all
  from mutex_take_boosts_owner [OF this, of 1 7 50] show ?thesis by simp
qed

text \<open>the lent priority is not taken back when the wait ends by time-out: the waiter is gone
  from the list, and the owner still runs at the waiter's priority.\<close>

theorem mutex_timeout_leaves_boost:
  fixes time :: int
  assumes "mutex_ok m k" "running t k" "mtx_owner (mutexes k m) = Some w" "w \<noteq> t" "time \<noteq> 0"
    and "obj_flag_of m k = RT_IPC_FLAG_FIFO \<or> obj_flag_of m k = RT_IPC_FLAG_PRIO"
  defines "k' \<equiv> rt_thread_timeout t (snd (rt_mutex_take m time k))"
  shows "th_error (threads k' t) = - RT_ETIMEOUT \<and> stat_of (threads k' t) = RT_THREAD_READY \<and>
    t \<notin> set (lists k' (Suspend m)) \<and> mtx_owner (mutexes k' m) = Some w \<and>
    th_current_priority (threads k' w) =
      min (th_current_priority (threads k t)) (th_current_priority (threads k w))"
proof -
  let ?k = "snd (rt_mutex_take m time k)"
  have c: "stat_of (threads ?k t) = RT_THREAD_SUSPEND" "mtx_owner (mutexes ?k m) = Some w"
    "th_current_priority (threads ?k w) =
      min (th_current_priority (threads k t)) (th_current_priority (threads k w))"
    using assms(3) by (simp_all add: mutex_take_waits [OF assms(1-6)])
  then show ?thesis using assms(4)
    by (simp add: k'_def rt_thread_timeout_def Let_def)
qed

theorem mutex_timeout_leaves_boost_witness:
  "mtx_owner (mutexes (rt_thread_timeout 1 (snd (rt_mutex_take 4 50 (demo_mutex None 1 7)))) 4) = Some 7 \<and>
   th_current_priority (threads (rt_thread_timeout 1 (snd (rt_mutex_take 4 50 (demo_mutex None 1 7)))) 7) = 10"
proof -
  have "mutex_ok 4 (demo_mutex None 1 7)" by (rule demo_mutex_ok) simp_all
  from mutex_timeout_leaves_boost [OF this, of 1 7 50] show ?thesis by simp
qed

subsection \<open>Events\<close>

text \<open>C22: sending events delivers them as the abstract walk \<open>deliver\<close> over the wait list says:
  the threads whose condition holds are woken in order, each with the bits it gets, and bits
  taken by a clearing receiver are gone for the later ones; the others stay. No waiter whose
  condition holds is left behind.\<close>

theorem event_send_delivers:
  assumes "kernel_ok k" "s \<noteq> 0"
    and "deliver (threads k) (ev_set (events k e) OR s) (lists k (Suspend e)) = (s', ws, rs)"
  defines "k' \<equiv> snd (rt_event_send e s k)"
  shows "fst (rt_event_send e s k) = RT_EOK \<and> event_ok e k' \<and> ev_set (events k' e) = s' \<and>
    lists k' (Suspend e) = rs \<and>
    threads k' = (\<lambda>t. case map_of ws t of None \<Rightarrow> threads k t | Some g \<Rightarrow> delivered (threads k t) g)"
  unfolding k'_def using rt_event_send_deliver [OF assms(1-3)] rt_event_send_ok [OF assms(1,2)] by blast

theorem event_send_delivers_witness:
  "lists (snd (rt_event_send 4 2 (demo (Some (Suspend 4))))) (Suspend 4) = [] \<and>
   th_event_set (threads (snd (rt_event_send 4 2 (demo (Some (Suspend 4))))) 2) = 2"
proof -
  have "kernel_ok (demo (Some (Suspend 4)))" using demo_ok [of "Some (Suspend 4)"] by simp
  moreover have "deliver demo_threads 2 [2] = (2, [(2, 2)], [])"
    by (simp add: deliver_Cons satisfied_def next_set_def event_satisfied_def event_got_def Let_def)
  ultimately show ?thesis
    using event_send_delivers [of "demo (Some (Suspend 4))" 2 4 2 "[(2, 2)]" "[]"]
    by (simp add: delivered_def)
qed

text \<open>receiving events returns at once with the wanted bits that are set when the condition
  holds, taking them away only with the clear option; it fails at once with time-out 0, and
  otherwise the caller waits with its condition recorded. No waiter's condition holds after.\<close>

theorem event_recv_waits_or_returns:
  fixes timeout :: int
  assumes "event_ok e k" "running t k" "want \<noteq> 0"
    and "opt AND RT_EVENT_FLAG_AND \<noteq> 0 \<or> opt AND RT_EVENT_FLAG_OR \<noteq> 0"
    and "obj_flag_of e k = RT_IPC_FLAG_FIFO \<or> obj_flag_of e k = RT_IPC_FLAG_PRIO"
  defines "r \<equiv> rt_event_recv e want opt timeout k" and "s \<equiv> ev_set (events k e)"
  shows "event_ok e (snd (snd r)) \<and>
    (if event_satisfied opt want s
     then fst r = Returned RT_EOK \<and> fst (snd r) = Some (s AND want) \<and>
       ev_set (events (snd (snd r)) e) = (if opt AND RT_EVENT_FLAG_CLEAR \<noteq> 0 then s AND NOT want else s)
     else fst (snd r) = None \<and> ev_set (events (snd (snd r)) e) = s \<and>
       fst r = (if timeout = 0 then Returned (- RT_ETIMEOUT) else Waiting t))"
  unfolding r_def s_def using rt_event_recv_ok [OF assms(1-5)]
  by (simp add: rt_event_recv_unfold [OF assms(2-4)] upd_event_def)

theorem event_recv_waits_or_returns_witness:
  "fst (rt_event_recv 4 3 RT_EVENT_FLAG_AND 50 (demo None)) = Waiting 1"
proof -
  have "event_ok 4 (demo None)" using demo_ok [of None] by (simp add: event_ok_def)
  from event_recv_waits_or_returns [OF this, of 1 3 RT_EVENT_FLAG_AND 50]
  show ?thesis by (simp add: event_satisfied_def)
qed

subsection \<open>Mailboxes\<close>

definition demo_mail :: "u32 list \<Rightarrow> u16 \<Rightarrow> u16 \<Rightarrow> u16 \<Rightarrow> lid option \<Rightarrow> kernel" where
  "demo_mail pool entry inp out q = (demo q)\<lparr>mailboxes := (\<lambda>_. \<lparr>mb_msg_pool = pool,
     mb_size = of_nat (length pool), mb_entry = entry, mb_in_offset = inp, mb_out_offset = out\<rparr>)\<rparr>"

lemma demo_mail_sel [simp]:
  "threads (demo_mail pool n i j q) = demo_threads" "lists (demo_mail pool n i j q) = demo_queue q"
  "obj_flag_of m (demo_mail pool n i j q) = RT_IPC_FLAG_FIFO"
  "running 1 (demo_mail pool n i j q)" "running (Suc 0) (demo_mail pool n i j q)"
  "mailboxes (demo_mail pool n i j q) = (\<lambda>_. \<lparr>mb_msg_pool = pool,
     mb_size = of_nat (length pool), mb_entry = n, mb_in_offset = i, mb_out_offset = j\<rparr>)"
  by (simp_all add: demo_mail_def running_def stat_of_def)
    (simp_all add: obj_flag_of_def demo_def boot_def rt_system_scheduler_init_def)

lemma demo_mail_ok: "kernel_ok (demo_mail pool n i j q) = kernel_ok (demo q)"
  by (rule kernel_ok_cong) (simp_all add: demo_mail_def)

text \<open>sending to a mailbox with room returns at once, appends the value to what is stored
  and wakes the first waiting receiver; if nobody waits, no thread is touched.\<close>

theorem mb_send_appends:
  fixes timeout :: int and v :: u32
  assumes "mb_ok m k" "mb_entry (mailboxes k m) \<noteq> mb_size (mailboxes k m)"
  defines "k' \<equiv> snd (rt_mb_send_wait m v timeout k)"
  shows "fst (rt_mb_send_wait m v timeout k) = Returned RT_EOK \<and> mb_ok m k' \<and>
    mb_items (mailboxes k' m) = mb_items (mailboxes k m) @ [v] \<and>
    (case lists k (Suspend m) of
       [] \<Rightarrow> threads k' = threads k \<and> lists k' = lists k
     | t # ts \<Rightarrow> stat_of (threads k' t) = RT_THREAD_READY \<and> lists k' (Suspend m) = ts)"
  unfolding k'_def using mb_send_stores [OF assms(1,2)] by (auto split: list.splits)

theorem mb_send_appends_witness:
  "mb_items (mailboxes (snd (rt_mb_send_wait 4 11 0 (demo_mail [7, 8, 9] 2 1 2 (Some (Suspend 4))))) 4)
     = [9, 7, 11]"
proof -
  have "mb_ok 4 (demo_mail [7, 8, 9] 2 1 2 (Some (Suspend 4)))"
    using demo_ok [of "Some (Suspend 4)"] by (simp add: mb_ok_def mb_wf_def demo_mail_ok)
  from mb_send_appends [OF this, of 11 0] show ?thesis by (simp add: mb_items_def circ_def upt_rec)
qed

text \<open>receiving from a mailbox that is not empty returns the value stored first, removes it
  and wakes the first waiting sender.\<close>

theorem mb_recv_takes_first:
  fixes timeout :: int
  assumes "mb_ok m k" "mb_entry (mailboxes k m) \<noteq> 0"
  defines "r \<equiv> rt_mb_recv m timeout k"
  shows "fst r = Returned RT_EOK \<and> mb_ok m (snd (snd r)) \<and>
    (\<exists>v. fst (snd r) = Some v \<and> mb_items (mailboxes k m) = v # mb_items (mailboxes (snd (snd r)) m)) \<and>
    (case lists k (Sender m) of
       [] \<Rightarrow> threads (snd (snd r)) = threads k \<and> lists (snd (snd r)) = lists k
     | t # ts \<Rightarrow> stat_of (threads (snd (snd r)) t) = RT_THREAD_READY \<and> lists (snd (snd r)) (Sender m) = ts)"
proof -
  have "mb_items (mailboxes k m) \<noteq> []" using assms(2) mb_entry_empty by blast
  then show ?thesis unfolding r_def using mb_recv_fetches [OF assms(1,2)]
    by (auto split: list.splits)
qed

theorem mb_recv_takes_first_witness:
  "fst (snd (rt_mb_recv 4 0 (demo_mail [7, 8, 9] 2 1 2 (Some (Sender 4))))) = Some 9"
proof -
  have "mb_ok 4 (demo_mail [7, 8, 9] 2 1 2 (Some (Sender 4)))"
    using demo_ok [of "Some (Sender 4)"] by (simp add: mb_ok_def mb_wf_def demo_mail_ok)
  from mb_recv_takes_first [OF this, of 0] show ?thesis by (auto simp: mb_items_def circ_def upt_rec)
qed

definition mb_run :: "u32 fifo_op list \<Rightarrow> rt_mailbox \<Rightarrow> u32 list \<times> u32 list \<times> rt_mailbox" where
  "mb_run = bounded_fifo.run mb_items (\<lambda>mb. unat (mb_size mb)) mb_store mb_fetch"

text \<open>C23: over any run of stores and fetches on the mailbox's circular array, refusing a store
  when it is full and a fetch when it is empty, what comes out followed by what is still stored
  is what was stored before followed by what was accepted; the array is never overfilled.\<close>

theorem mailbox_is_fifo:
  assumes "mb_wf mb" "mb_run ops mb = (accepted, out, mb')"
  shows "mb_wf mb' \<and> out @ mb_items mb' = mb_items mb @ accepted \<and>
    length (mb_items mb') \<le> unat (mb_size mb)"
  using mb.run_fifo [of mb ops accepted out mb'] mb.run_bounded [of mb ops accepted out mb'] assms
  by (simp add: mb_run_def)

theorem mailbox_is_fifo_witness:
  "\<exists>accepted out mb'. mb_run [Put 5, Get] \<lparr>mb_msg_pool = [7, 8, 9], mb_size = 3, mb_entry = 2,
     mb_in_offset = 1, mb_out_offset = 2\<rparr> = (accepted, out, mb') \<and>
     out @ mb_items mb' = [9, 7] @ accepted"
proof -
  let ?mb = "\<lparr>mb_msg_pool = [7, 8, 9], mb_size = 3, mb_entry = 2, mb_in_offset = 1, mb_out_offset = 2\<rparr>"
  obtain a out mb' where r: "mb_run [Put 5, Get] ?mb = (a, out, mb')" by (metis prod_cases3)
  have "mb_items ?mb = [9, 7]" by (simp add: mb_items_def circ_def upt_rec)
  then show ?thesis using mailbox_is_fifo [OF _ r] r by (simp add: mb_wf_def)
qed

subsection \<open>Message queues\<close>

definition demo_mq :: rt_messagequeue where
  "demo_mq = \<lparr>mq_msg_pool = [\<lparr>msg_next = None, msg_data = [0, 0, 0, 0]\<rparr>,
    \<lparr>msg_next = Some 0, msg_data = [0, 0, 0, 0]\<rparr>, \<lparr>msg_next = None, msg_data = [5, 6, 7, 8]\<rparr>],
    mq_msg_size = 4, mq_max_msgs = 3, mq_entry = 1, mq_head = Some 2, mq_tail = Some 2,
    mq_free = Some 1\<rparr>"

lemma demo_mq_slots:
  "mq_free demo_mq = Some 1" "mq_msg_size demo_mq = 4" "mq_entry demo_mq = 1"
  "msg_data (mq_msg_pool demo_mq ! Suc 0) = [0, 0, 0, 0]"
  by (simp_all add: demo_mq_def)

lemma demo_mq_inv: "mq_inv demo_mq [2] [1, 0] []"
  by (auto simp: demo_mq_def mq_inv_def)

definition demo_queue_kernel :: "lid option \<Rightarrow> kernel" where
  "demo_queue_kernel q = (demo q)\<lparr>mqs := (\<lambda>_. demo_mq)\<rparr>"

lemma demo_mq_ok:
  "mq_ok m (demo_queue_kernel None)" "mqs (demo_queue_kernel None) x = demo_mq"
  "mq_items demo_mq = [[5, 6, 7, 8]]"
proof -
  have "kernel_ok (demo_queue_kernel None) = kernel_ok (demo None)"
    by (rule kernel_ok_cong) (simp_all add: demo_queue_kernel_def)
  moreover have w: "mq_wf demo_mq" using demo_mq_inv mq_inv_queue by (simp add: mq_wf_def)
  ultimately show "mq_ok m (demo_queue_kernel None)" "mqs (demo_queue_kernel None) x = demo_mq"
    using demo_ok [of None] by (simp_all add: mq_ok_def demo_queue_kernel_def)
  show "mq_items demo_mq = [[5, 6, 7, 8]]"
    using mq_inv_queue [OF demo_mq_inv] by (simp add: mq_items_def) (simp add: demo_mq_def)
qed

text \<open>C24: a send puts the message last and an urgent send puts it first, in a slot whose bytes
  after the message's length keep their old content; without a free slot, or for a message
  longer than a slot, both fail and change nothing.\<close>

theorem mq_send_and_urgent:
  assumes "mq_ok q k" "sz \<noteq> 0" "unat sz \<le> length buf"
  shows "if ucast (mq_msg_size (mqs k q)) < sz
    then rt_mq_send q buf sz k = (- RT_ERROR, k) \<and> rt_mq_urgent q buf sz k = (- RT_ERROR, k)
    else case mq_free (mqs k q) of
      None \<Rightarrow> rt_mq_send q buf sz k = (- RT_EFULL, k) \<and> rt_mq_urgent q buf sz k = (- RT_EFULL, k)
    | Some i \<Rightarrow>
        (let m = take (unat sz) buf @ drop (unat sz) (msg_data (mq_msg_pool (mqs k q) ! i));
             a = snd (rt_mq_send q buf sz k); b = snd (rt_mq_urgent q buf sz k)
         in mq_ok q a \<and> mq_items (mqs a q) = mq_items (mqs k q) @ [m] \<and>
            mq_ok q b \<and> mq_items (mqs b q) = m # mq_items (mqs k q))"
  using mq_send_ok [OF assms(1,2) _ _ assms(3)] mq_send_too_long [OF assms(2)] mq_send_full [OF assms(2)]
  by (auto simp: not_less Let_def split: option.splits)

theorem mq_send_and_urgent_witness:
  "mq_items (mqs (snd (rt_mq_urgent 4 [9, 9] 2 (demo_queue_kernel None))) 4) = [[9, 9, 0, 0], [5, 6, 7, 8]]"
  using mq_send_and_urgent [OF demo_mq_ok(1), of 2 "[9, 9]" 4]
  by (simp add: demo_mq_ok demo_mq_slots Let_def)

text \<open>receiving from a queue that is not empty returns the first message, cut to the size the
  caller asks for, removes it and touches no thread.\<close>

theorem mq_recv_takes_first:
  fixes timeout :: int
  assumes "mq_ok q k" "sz \<noteq> 0" "mq_entry (mqs k q) \<noteq> 0"
  defines "r \<equiv> rt_mq_recv q sz timeout k"
  shows "fst r = Returned RT_EOK \<and> mq_ok q (snd (snd r)) \<and>
    fst (snd r) = Some (take (min (unat sz) (unat (mq_msg_size (mqs k q)))) (hd (mq_items (mqs k q)))) \<and>
    mq_items (mqs (snd (snd r)) q) = tl (mq_items (mqs k q)) \<and>
    threads (snd (snd r)) = threads k \<and> lists (snd (snd r)) = lists k"
  unfolding r_def using mq_recv_ok [OF assms(1-3)] by blast

theorem mq_recv_takes_first_witness:
  "fst (snd (rt_mq_recv 4 3 0 (demo_queue_kernel None))) = Some [5, 6, 7]"
  using mq_recv_takes_first [OF demo_mq_ok(1), of 3 4 0]
  by (simp add: demo_mq_ok demo_mq_slots)

text \<open>C25: however the calls of several threads on one queue are interleaved between their
  critical sections (taking a slot, clearing its link, copying, linking, unlinking, giving
  back), no slot is lost, shared or linked twice: the queued, the free and the held slots are
  always a partition of the pool, and the entry count is the length of the queue.\<close>

theorem mq_interleaving_partitions_pool:
  assumes "length pool = unat n" "\<forall>s \<in> set pool. length (msg_data s) = unat sz"
    and "mq_step\<^sup>*\<^sup>* (mq_init_free \<lparr>mq_msg_pool = pool, mq_msg_size = sz, mq_max_msgs = n, mq_entry = 0,
      mq_head = None, mq_tail = None, mq_free = None\<rparr>, []) (mq, held)"
  shows "\<exists>queued free. mq_inv mq queued free (map fst held)"
proof -
  let ?mq = "\<lparr>mq_msg_pool = pool, mq_msg_size = sz, mq_max_msgs = n, mq_entry = 0,
      mq_head = None, mq_tail = None, mq_free = None\<rparr>"
  have "flight_ok (mq_init_free ?mq, [])"
    using mq_init_free_inv [of ?mq] assms(1,2) by (auto simp: flight_ok_def)
  then show ?thesis using mq_steps_inv [OF assms(3)] by (simp add: flight_ok_def)
qed

theorem mq_interleaving_partitions_pool_witness:
  "\<exists>mq held queued free. held = [(0, Tail_ready)] \<and> mq_inv mq queued free (map fst held)"
proof -
  let ?p = "[\<lparr>msg_next = None, msg_data = [0]\<rparr>]"
  let ?mq = "mq_init_free \<lparr>mq_msg_pool = ?p, mq_msg_size = 1, mq_max_msgs = 1, mq_entry = 0,
      mq_head = None, mq_tail = None, mq_free = None\<rparr>"
  have a: "mq_alloc ?mq = (Some 0, snd (mq_alloc ?mq))"
    by (simp add: mq_init_free_def mq_alloc_def mq_give_back_def mq_set_next_def Let_def)
  let ?c = "(mq_set_next 0 None (snd (mq_alloc ?mq)), [(0, Tail_ready)])"
  have "mq_step (?mq, []) (snd (mq_alloc ?mq), [(0, Filling)])" using a by (rule mq_step.take_slot)
  moreover have "mq_step (snd (mq_alloc ?mq), [(0, Filling)]) ?c"
    using mq_step.clear_link [of 0 "[(0, Filling)]"] by simp
  ultimately have "mq_step\<^sup>*\<^sup>* (?mq, []) ?c"
    by (rule converse_rtranclp_into_rtranclp [OF _ r_into_rtranclp])
  from mq_interleaving_partitions_pool [OF _ _ this] show ?thesis by fastforce
qed

subsection \<open>Timers and the clock\<close>

text \<open>C26: starting a timer keeps the row of active timers sorted by the time left to each
  deadline, counted from any tick \<open>w\<close> less than half the tick range before them, also when the
  tick counter wraps around between the deadlines.\<close>

theorem timer_start_keeps_sorted:
  assumes "timers_sorted w (timers k) (timer_list k)"
    and "unat (tick k + tm_init_tick (timers k i) - w) < unat half_tick"
  defines "k' \<equiv> snd (rt_timer_start i k)"
  shows "timers_sorted w (timers k') (timer_list k') \<and> i \<in> set (timer_list k') \<and>
    tm_timeout_tick (timers k' i) = tick k + tm_init_tick (timers k i)"
  unfolding k'_def using rt_timer_start_sorted [OF assms(1,2)] .

definition demo_timers :: "u8 \<Rightarrow> timer_id \<Rightarrow> rt_timer" where
  "demo_timers fl i = \<lparr>tm_flag = fl, tm_func = (case i of Thread_timer t \<Rightarrow> Rt_thread_timeout t | Timer n \<Rightarrow> User_timeout n),
     tm_init_tick = (if i = Timer 0 then 0 else 0x20),
     tm_timeout_tick = (if i = Thread_timer 2 then 0xfffffff0 else 0xfffffff8)\<rparr>"

definition demo_clock :: "u8 \<Rightarrow> timer_id list \<Rightarrow> kernel" where
  "demo_clock fl ts = (demo None)\<lparr>tick := 0xfffffff4, timers := demo_timers fl, timer_list := ts\<rparr>"

lemma demo_clock_sel [simp]:
  "tick (demo_clock fl ts) = 0xfffffff4" "timers (demo_clock fl ts) = demo_timers fl"
  "timer_list (demo_clock fl ts) = ts" "threads (demo_clock fl ts) = demo_threads"
  by (simp_all add: demo_clock_def)

lemma demo_clock_row: "timers_sorted 0xfffffff0 (demo_timers fl) [Thread_timer 2, Timer 7]"
  by (simp add: timers_sorted_def time_left_def demo_timers_def)

lemma demo_clock_kinv: "kinv (demo_clock fl ts)"
  using demo_ok [of None] kinv_cong [of "demo_clock fl ts" "demo None"]
  by (simp add: kernel_ok_def demo_clock_def)

theorem timer_start_keeps_sorted_witness:
  "tm_timeout_tick (timers (snd (rt_timer_start (Timer 1) (demo_clock 0 [Thread_timer 2, Timer 7]))) (Timer 1)) = 0x14 \<and>
   timers_sorted 0xfffffff0 (timers (snd (rt_timer_start (Timer 1) (demo_clock 0 [Thread_timer 2, Timer 7]))))
     (timer_list (snd (rt_timer_start (Timer 1) (demo_clock 0 [Thread_timer 2, Timer 7]))))"
  using timer_start_keeps_sorted [of "0xfffffff0" "demo_clock 0 [Thread_timer 2, Timer 7]" "Timer 1"]
  by (simp add: demo_clock_row) (simp add: demo_timers_def)


lemma demo_clock_inv: "check_inv 0xfffffff0 (demo_clock 1 [Thread_timer 2, Timer 7])"
  using demo_clock_row [of 1]
  by (simp add: check_inv_def restart_ok_def timer_periodic_def) (simp add: demo_timers_def)

lemma demo_clock_expired:
  "expired_set (demo_clock 1 [Thread_timer 2, Timer 7]) = {Thread_timer 2}"
  by (auto simp: expired_set_def expired_def demo_timers_def half_tick_def RT_TICK_MAX_def)


text \<open>C40: in a reachable state (\<open>system_ok\<close>, C1) a timer check at which no user timer is due
  wakes exactly the threads whose sleep or wait has run out, each with the error time-out, and
  leaves every other thread as it is; no user function runs in it. The row must satisfy
  \<open>check_inv\<close> as in C39.\<close>

theorem timer_check_wakes_exactly:
  assumes "system_ok k" "check_inv w k" "\<forall>n. Timer n \<notin> expired_set k" "card (expired_set k) < fuel"
  shows "\<exists>k'. rt_timer_check cb fuel k = Some k' \<and>
    threads k' = (\<lambda>t. if Thread_timer t \<in> expired_set k then woken (threads k t) else threads k t)"
proof -
  have s: "sleep_inv k" using assms(1) by (rule system_ok_sleep)
  have id: "keeps_timers (\<lambda>_ k. k)" "keeps_threads (\<lambda>_ k. k)"
    by (simp_all add: keeps_timers_def keeps_threads_def)
  obtain k' where k': "timer_check_loop (\<lambda>_ k. k) fuel (tick k) k = Some k'"
    "threads k' = (\<lambda>t. if Thread_timer t \<in> expired_set k then woken (threads k t) else threads k t)"
    using timer_check_wakes [OF id s assms(2), of fuel] assms(4) by (auto simp: expired_set_def)
  then have "rt_timer_check cb fuel k = Some k'"
    using timer_check_threads_only [OF s assms(2,3), of cb fuel] by (simp add: rt_timer_check_def rt_tick_get_def)
  then show ?thesis using k'(2) by blast
qed

theorem timer_check_wakes_exactly_witness:
  "\<exists>k'. rt_timer_check (\<lambda>_ k. k) 2 (demo_clock 1 [Thread_timer 2, Timer 7]) = Some k' \<and>
     stat_of (threads k' 2) = RT_THREAD_READY"
proof -
  let ?k = "demo_clock 1 [Thread_timer 2, Timer 7]"
  have "card (expired_set ?k) < 2" unfolding demo_clock_expired by simp
  moreover have "objects_ok ?k"
    using demo_ok [of None] kernel_ok_cong [of ?k "demo None"]
    by (simp add: objects_ok_def mutex_prios_ok_def demo_clock_def)
  moreover have "timers_ok ?k"
    by (auto simp: timers_ok_def own_timer_def timer_periodic_def timer_activated_def demo_timers_def stat_of_def)
  ultimately obtain k' where "rt_timer_check (\<lambda>_ k. k) 2 ?k = Some k'"
    "threads k' = (\<lambda>t. if Thread_timer t \<in> expired_set ?k then woken (threads ?k t) else threads ?k t)"
    using timer_check_wakes_exactly [OF _ demo_clock_inv, of 2 "\<lambda>_ k. k"]
    by (auto simp: system_ok_def demo_clock_expired)
  then show ?thesis by (simp add: demo_clock_expired woken_def)
qed

text \<open>a periodic timer with period 0 makes \<^verbatim>\<open>rt_timer_check\<close> restart it for ever: no amount
  of fuel is enough.\<close>

theorem timer_check_zero_period_diverges:
  assumes "cb n = (\<lambda>k. k)" "timer_list k = [i]" "tm_func (timers k i) = User_timeout n"
    and "timer_periodic (timers k i)" "timer_activated (timers k i)" "tm_init_tick (timers k i) = 0"
    and "tm_timeout_tick (timers k i) = tick k"
  shows "rt_timer_check cb fuel k = None"
  using assms by (rule timer_check_zero_period)

theorem timer_check_zero_period_diverges_witness:
  "\<forall>fuel. rt_timer_check (\<lambda>_ k. k) fuel ((demo_clock 3 [Timer 0])\<lparr>tick := 0xfffffff8\<rparr>) = None"
  using timer_check_zero_period_diverges [of "\<lambda>_ k. k" 0 "(demo_clock 3 [Timer 0])\<lparr>tick := 0xfffffff8\<rparr>" "Timer 0"]
  by (simp add: demo_timers_def timer_periodic_def timer_activated_def)

text \<open>a conversion of milliseconds gives the least number of ticks that lasts at least that
  long, as long as the product stays in a signed 32-bit integer, which fails from 21474827 on.\<close>

theorem millisecond_ticks_round_up:
  "0 \<le> ms \<Longrightarrow> (if ms \<le> 21474826
     then \<exists>n. rt_tick_from_millisecond ms = Some n \<and> ms \<le> 10 * n \<and> 10 * n < ms + 10
     else rt_tick_from_millisecond ms = None)"
  using tick_from_millisecond_ceiling [of ms] tick_from_millisecond_overflow [of ms] by auto

theorem millisecond_ticks_round_up_witness:
  "rt_tick_from_millisecond 101 = Some 11"
  using millisecond_ticks_round_up [of 101] by (auto simp: algebra_simps)

text \<open>a blocked mailbox or queue call waits on for what is left of its time-out: the ticks
  gone since \<open>start\<close> are subtracted, also across a wrap of the tick counter, down to 0.\<close>

theorem remaining_timeout_is_exact:
  assumes "0 < timeout" "timeout < 2 ^ 31" "uint (tick k - start) < 2 ^ 31"
  shows "remaining_timeout timeout start k = max 0 (timeout - uint (tick k - start))"
  using assms by (rule remaining_timeout_exact)

theorem remaining_timeout_is_exact_witness:
  "remaining_timeout 50 0xfffffff0 ((demo None)\<lparr>tick := 0x10\<rparr>) = 18"
  using remaining_timeout_is_exact [of 50 "(demo None)\<lparr>tick := 0x10\<rparr>" "0xfffffff0"] by simp

subsection \<open>Threads\<close>

lemma set_stat_ready_again:
  assumes "stat_of th = RT_THREAD_READY"
  shows "set_stat RT_THREAD_READY (set_stat RT_THREAD_SUSPEND th) = th"
proof -
  have "(x AND RT_THREAD_STAT_MASK) OR (x AND NOT RT_THREAD_STAT_MASK) = x" for x :: u8
    by (rule bit_eqI) (auto simp: bit_simps)
  then have "RT_THREAD_READY OR (th_stat th AND NOT RT_THREAD_STAT_MASK) = th_stat th"
    using assms unfolding stat_of_def by metis
  moreover have "(RT_THREAD_SUSPEND OR (th_stat th AND NOT RT_THREAD_STAT_MASK)) AND NOT RT_THREAD_STAT_MASK
      = th_stat th AND NOT RT_THREAD_STAT_MASK"
    by (simp add: bit.conj_disj_distrib2 and.assoc)
  ultimately show ?thesis by (simp add: set_stat_def)
qed

text \<open>suspending a ready thread and resuming it returns it to its state, at the end of its
  priority's ready queue; in between it is in no list. A second suspend or a resume of a ready
  thread is refused.\<close>

theorem thread_suspend_resume:
  assumes "kernel_ok k" "stat_of (threads k t) = RT_THREAD_READY"
  defines "p \<equiv> unat (th_current_priority (threads k t))"
    and "a \<equiv> snd (rt_thread_suspend t k)" and "b \<equiv> snd (rt_thread_resume t (snd (rt_thread_suspend t k)))"
  shows "fst (rt_thread_suspend t k) = RT_EOK \<and> fst (rt_thread_resume t a) = RT_EOK \<and>
    (\<forall>l. t \<notin> set (lists a l)) \<and> rt_thread_suspend t a = (- RT_ERROR, a) \<and>
    rt_thread_resume t k = (- RT_ERROR, k) \<and> threads b = threads k \<and>
    lists b = (lists k)(Ready p := removeAll t (lists k (Ready p)) @ [t])"
proof -
  note s = rt_thread_suspend_lists [OF assms(2)]
  have st: "stat_of (threads a t) = RT_THREAD_SUSPEND" using s by (simp add: a_def)
  note r = rt_thread_resume_state [OF st]
  have pa: "unat (th_current_priority (threads a t)) = p" using s by (simp add: a_def p_def)
  have tp: "t \<in> set (lists k (Ready p))"
    using ready_thread_prio(1) [OF kernel_ok_kinv [OF assms(1)] assms(2)] by (simp add: p_def)
  have "threads b = threads k"
    using r(2) s set_stat_ready_again [OF assms(2)] by (simp add: a_def b_def)
  moreover have "lists b l = ((lists k)(Ready p := removeAll t (lists k (Ready p)) @ [t])) l" for l
  proof (cases "l = Ready p")
    case False
    then have "t \<notin> set (lists k l)" using kernel_ok_one_list [OF assms(1) tp, of l] by blast
    then show ?thesis using False r(3) s pa by (simp add: b_def a_def removeAll_id)
  qed (use r(3) s pa in \<open>simp add: b_def a_def\<close>)
  ultimately show ?thesis
    using s r(1) st by (auto simp: a_def rt_thread_suspend_def rt_thread_resume_refused assms(2))
qed

theorem thread_suspend_resume_witness:
  "lists (snd (rt_thread_resume 1 (snd (rt_thread_suspend 1 (demo None))))) (Ready 10) = [3, 1]"
  using thread_suspend_resume [of "demo None" 1] demo_ok [of None] by (simp add: stat_of_def)

text \<open>yielding is round robin: when the running thread's priority is the highest among the
  ready threads, it goes to the end of its queue and the next thread of the queue runs.\<close>

theorem yield_round_robin:
  assumes "kernel_ok k" "current k = Some t" "stat_of (threads k t) = RT_THREAD_READY" "lock_nest k = 0"
    and "\<forall>u. stat_of (threads k u) = RT_THREAD_READY \<longrightarrow>
      th_current_priority (threads k t) \<le> th_current_priority (threads k u)"
  defines "p \<equiv> unat (th_current_priority (threads k t))" and "k' \<equiv> snd (rt_thread_yield k)"
  assumes "lists k (Ready p) = t # u # us"
  shows "lists k' (Ready p) = u # us @ [t] \<and> current k' = Some u \<and> threads k' = threads k \<and> kernel_ok k'"
proof -
  let ?k = "tlist_insert_before (Ready p) t (tlist_remove t k)"
  have k': "k' = rt_schedule ?k"
    using assms(2,3,8) by (simp add: k'_def p_def rt_thread_yield_def)
  have d: "t \<notin> set (u # us)" using kernel_ok_distinct [OF assms(1), of "Ready p"] assms(8) by simp
  have li: "lists ?k (Ready p) = u # us @ [t]" using d assms(8)
    by (auto simp: tlist_insert_before_def tlist_remove_def)
  have ok: "kernel_ok k'" using kernel_ok_yield [OF assms(1)] by (simp add: k'_def)
  then have ki: "kinv ?k" by (simp add: k' kernel_ok_def)
  have p: "p < 32" using ready_thread_prio(2) [OF kernel_ok_kinv [OF assms(1)] assms(3)] by (simp add: p_def)
  have th: "threads ?k = threads k" "lock_nest ?k = 0" "current ?k = Some t"
    using assms(2,4) by (simp_all add: tlist_insert_before_def tlist_remove_def)
  note h = highest_ready_least [OF ki, of p]
  have hne: "lists ?k (Ready (highest_ready ?k)) \<noteq> []" "\<forall>q < highest_ready ?k. lists ?k (Ready q) = []"
    using h li p by auto
  then obtain x where x: "x \<in> set (lists ?k (Ready (highest_ready ?k)))" by (meson list.set_sel(1))
  then have "stat_of (threads k x) = RT_THREAD_READY" "unat (th_current_priority (threads k x)) = highest_ready ?k"
    using ki ready_okD [of "threads ?k" "lists ?k"] th(1) by (auto simp: kinv_def sched_ok_def)
  then have "p \<le> highest_ready ?k" using assms(5) by (auto simp: p_def word_le_nat_alt)
  moreover have "\<not> p < highest_ready ?k" using hne(2) li by auto
  ultimately have "highest_ready ?k = p" by simp
  moreover have "stat_of (threads ?k t) = RT_THREAD_READY" using assms(3) th by simp
  ultimately have "current k' = Some u"
    using rt_schedule_current [OF ki _ th(2,3)] li by (auto simp: k')
  then show ?thesis using li ok th(1) by (simp add: k')
qed

theorem yield_round_robin_witness:
  "current (snd (rt_thread_yield (demo None))) = Some 3"
  using yield_round_robin [of "demo None" 1 3 "[]"] demo_ok [of None]
  by (simp add: demo_threads_def stat_of_def)

text \<open>the idle thread's clean-up releases every defunct thread when all of them were created
  dynamically, and touches no other thread or list.\<close>

theorem idle_reaps_dynamic_threads:
  assumes "keeps_lists cu" "kernel_ok k" "length (lists k Defunct) < fuel"
    and "\<forall>t \<in> set (lists k Defunct). \<not> obj_static (obj_hdr k (Thread_obj t))"
  shows "\<exists>k'. rt_thread_idle_excute cu fuel k = Some k' \<and> kernel_ok k' \<and> lists k' Defunct = [] \<and>
    threads k' = threads k \<and> (\<forall>l. l \<noteq> Defunct \<longrightarrow> lists k' l = lists k l)"
  using idle_reaps_all [OF assms] .

definition demo_defunct :: "tid list \<Rightarrow> tid \<Rightarrow> kernel" where
  "demo_defunct ts s = boot\<lparr>threads := (\<lambda>_. demo_thread RT_THREAD_CLOSE 10),
     lists := (\<lambda>l. if l = Defunct then ts else []),
     obj_hdr := (\<lambda>r. \<lparr>obj_name = [], obj_type = RT_Object_Class_Thread, obj_static = (r = Thread_obj s), obj_flag = 0\<rparr>)\<rparr>"

lemma demo_defunct_ok: "distinct ts \<Longrightarrow> kernel_ok (demo_defunct ts s)"
  by (auto simp: kernel_ok_def kinv_def sched_ok_def queues_ok_def ready_ok_def group_ok_def
      wait_ok_def demo_defunct_def boot_def rt_system_scheduler_init_def stat_of_def)

theorem idle_reaps_dynamic_threads_witness:
  "\<exists>k'. rt_thread_idle_excute (\<lambda>_ _ k. k) 3 (demo_defunct [4, 5] 9) = Some k' \<and> lists k' Defunct = []"
  using idle_reaps_dynamic_threads [of "\<lambda>_ _ k. k" "demo_defunct [4, 5] 9" 3] demo_defunct_ok [of "[4, 5]" 9]
  by (auto simp: keeps_lists_def) (auto simp: demo_defunct_def)

text \<open>the clean-up stops after a statically allocated thread: the defunct threads behind it
  stay, whatever the fuel is.\<close>

theorem idle_stops_after_static_thread:
  assumes "keeps_lists cu" "lists k Defunct = t # ts" "obj_static (obj_hdr k (Thread_obj t))" "t \<notin> set ts"
  shows "\<exists>k'. rt_thread_idle_excute cu (Suc fuel) k = Some k' \<and> lists k' Defunct = ts"
  using idle_stops_at_static [OF assms] .

theorem idle_stops_after_static_thread_witness:
  "\<exists>k'. rt_thread_idle_excute (\<lambda>_ _ k. k) (Suc 9) (demo_defunct [4, 5] 4) = Some k' \<and> lists k' Defunct = [5]"
  using idle_stops_after_static_thread [of "\<lambda>_ _ k. k" "demo_defunct [4, 5] 4" 4 "[5]" 9]
  by (simp add: keeps_lists_def demo_defunct_def)

subsection \<open>Lists and objects\<close>

text \<open>the pointer operations of \<^verbatim>\<open>rt_list_t\<close> act on a ring as the list operations: at any
  position of the ring, inserting after a node or before one puts the new node there, removing
  takes the node out and leaves it alone in a ring of its own, and the length is counted right.\<close>

theorem dlist_operations_refine_lists:
  assumes "ring s l (xs @ ys)" "n \<notin> set (l # xs @ ys)"
  defines "a \<equiv> rt_list_insert_after (last (l # xs)) n s"
    and "b \<equiv> rt_list_insert_before (hd (ys @ [l])) n s"
  shows "ring a l (xs @ n # ys) \<and> ring b l (xs @ n # ys) \<and>
    ring (rt_list_remove n a) l (xs @ ys) \<and> ring (rt_list_remove n a) n [] \<and>
    rt_list_len (Suc (Suc (length (xs @ ys)))) l a = Some (Suc (length (xs @ ys))) \<and>
    (rt_list_isempty l s \<longleftrightarrow> xs @ ys = [])"
proof -
  have r: "ring a l (xs @ n # ys)" "ring b l (xs @ n # ys)"
    unfolding a_def b_def by (rule ring_insert_after [OF assms(1,2)], rule ring_insert_before [OF assms(1,2)])
  show ?thesis
    using r ring_remove [OF r(1)] ring_len [OF r(1), of "Suc (Suc (length (xs @ ys)))"] ring_isempty [OF assms(1)]
    by auto
qed

theorem dlist_operations_refine_lists_witness:
  "ring (rt_list_insert_before 0 7 (rt_list_insert_before 0 5
     (rt_list_init 0 \<lparr>nxt = (\<lambda>_. 0), prv = (\<lambda>_. 0)\<rparr>))) 0 [5, 7]"
proof -
  let ?s = "rt_list_init 0 \<lparr>nxt = (\<lambda>_. 0), prv = (\<lambda>_. 0)\<rparr>"
  have "ring ?s 0 ([] @ [])" by (simp add: ring_init)
  from dlist_operations_refine_lists [OF this, of 5]
  have "ring (rt_list_insert_before 0 5 ?s) 0 ([5] @ [])" by simp
  from dlist_operations_refine_lists [OF this, of 7] show ?thesis by simp
qed

text \<open>the walks of \<^verbatim>\<open>rt_slist_t\<close> end, and append, insert, remove and length act on the
  chain as the list operations.\<close>

theorem slist_operations_refine_lists:
  assumes "slist s l xs" "n \<notin> set (l # xs)" "length xs < f"
  shows "(\<exists>s'. rt_slist_append f l n s = Some s' \<and> slist s' l (xs @ [n])) \<and>
    slist (rt_slist_insert l n s) l (n # xs) \<and>
    (\<forall>m. \<exists>s'. rt_slist_remove f l m s = Some s' \<and> slist s' l (removeAll m xs)) \<and>
    rt_slist_len f l s = Some (length xs)"
  using slist_append [OF assms] slist_insert [OF assms(1,2)] slist_remove [OF assms(1,3)]
    slist_len [OF assms(1,3)] by blast

theorem slist_operations_refine_lists_witness:
  "\<exists>s'. rt_slist_append 1 0 9 (\<lambda>_. None) = Some s' \<and> slist s' 0 [9]"
  using slist_operations_refine_lists [of "\<lambda>_. None" 0 "[]" 9 1] by (simp add: slist_def)

text \<open>after an object is initialised, a search for its name in its class (names count up to
  their first 8 characters) finds it before any older one, other searches see what they saw
  before, and after it is detached it is not found any more.\<close>

theorem object_find_after_init:
  fixes name :: string
  assumes "r \<notin> set (obj_list k c)"
  defines "k' \<equiv> rt_object_init r c name k"
  shows "fst (rt_object_find (Some nm) c k') =
      (if rt_name_eq name nm then Some r else fst (rt_object_find (Some nm) c k)) \<and>
    r \<notin> set (obj_list (rt_object_detach r k') c)"
proof -
  have "find_object nm ((obj_hdr k)(r := h)) rs = find_object nm (obj_hdr k) rs"
    if "r \<notin> set rs" for h rs
    using that by (induction rs) auto
  then show ?thesis using assms(1)
    by (simp add: k'_def rt_object_find_def kobj_defs Let_def debug_not_in_interrupt_def rt_name_eq_take)
qed

theorem object_find_after_init_witness:
  "fst (rt_object_find (Some ''mainthread'') RT_Object_Class_Thread
     (rt_object_init (Thread_obj 4) RT_Object_Class_Thread ''mainthreaX'' (demo None))) = Some (Thread_obj 4)"
  using object_find_after_init [of "Thread_obj 4" "demo None" RT_Object_Class_Thread "''mainthread''" "''mainthreaX''"]
  by (simp add: rt_name_eq_def RT_NAME_MAX_def)

subsection \<open>Counters at their width\<close>

text \<open>the 16-bit count of a semaphore is not guarded: a release at 65535 without a waiter
  reports success and leaves the count 0.\<close>

theorem sem_release_wraps:
  assumes "sem_value (sems k s) = 0xffff" "lists k (Suspend s) = []"
  shows "fst (rt_sem_release s k) = RT_EOK \<and> sem_value (sems (snd (rt_sem_release s k)) s) = 0"
  using assms by (simp add: sem_release_counts)

theorem sem_release_wraps_witness:
  "sem_value (sems (snd (rt_sem_release 4 (upd_sem 4 0xffff (demo None)))) 4) = 0"
  using sem_release_wraps [of "upd_sem 4 0xffff (demo None)" 4] by simp

text \<open>the 8-bit hold count of a mutex is not guarded either: the owner of a mutex held 255
  times takes it twice more, and a single release then makes the mutex free.\<close>

theorem mutex_hold_wraps:
  fixes time time' :: int
  assumes "mutex_ok m k" "running t k" "mtx_owner (mutexes k m) = Some t"
    and "mtx_hold (mutexes k m) = 0xff" "lists k (Suspend m) = []"
  defines "a \<equiv> snd (rt_mutex_take m time k)"
  defines "b \<equiv> snd (rt_mutex_take m time' a)"
  shows "fst (rt_mutex_take m time k) = Returned RT_EOK \<and> fst (rt_mutex_take m time' a) = Returned RT_EOK \<and>
    fst (rt_mutex_release m b) = RT_EOK \<and> mtx_owner (mutexes (snd (rt_mutex_release m b)) m) = None"
proof -
  have a: "rt_mutex_take m time k = (Returned RT_EOK, a)" "running t a" "lists a = lists k"
    "mtx_owner (mutexes a m) = Some t" "mtx_hold (mutexes a m) = 0"
    using assms(2-4) by (simp_all add: a_def mutex_take_unfold [OF assms(2)] running_def)
  have b: "rt_mutex_take m time' a = (Returned RT_EOK, b)" "running t b" "lists b = lists k"
    "mtx_owner (mutexes b m) = Some t" "mtx_hold (mutexes b m) = 1"
    using a by (simp_all add: b_def mutex_take_unfold [OF a(2)] running_def)
  have "lists (unboost m t (drop_hold m b)) (Suspend m) = []"
    using b(3) assms(5) by (simp add: unboost_def change_priority_def rt_thread_control_def Let_def)
  then show ?thesis using a(1) b(1) by (simp add: mutex_release_last [OF b(2,4,5)] Let_def)
qed

theorem mutex_hold_wraps_witness:
  "mtx_owner (mutexes (snd (rt_mutex_release 4 (snd (rt_mutex_take 4 0 (snd (rt_mutex_take 4 0
     (demo_mutex None 0xff 1))))))) 4) = None"
proof -
  have "mutex_ok 4 (demo_mutex None 0xff 1)" by (rule demo_mutex_ok) simp_all
  from mutex_hold_wraps [OF this, of 1 0 0] show ?thesis by simp
qed

text \<open>changing the priority of a ready thread is not checked against the number of priorities:
  from 32 on the call reports success and the kernel's queue invariant is broken.\<close>

theorem change_priority_unchecked:
  assumes "kernel_ok k" "stat_of (threads k t) = RT_THREAD_READY" "RT_THREAD_PRIORITY_MAX \<le> unat p"
  shows "fst (rt_thread_control t (CTRL_CHANGE_PRIORITY p) k) = RT_EOK \<and>
    \<not> kinv (snd (rt_thread_control t (CTRL_CHANGE_PRIORITY p) k))"
proof -
  let ?k = "snd (rt_thread_control t (CTRL_CHANGE_PRIORITY p) k)"
  have "stat_of (threads ?k t) = RT_THREAD_READY" "th_current_priority (threads ?k t) = p"
    using assms(2) by (simp_all add: rt_thread_control_def Let_def)
  then have "\<not> mask_ok (threads ?k t)" using assms(3) by (simp add: mask_ok_def)
  then show ?thesis using assms(2) \<open>stat_of (threads ?k t) = RT_THREAD_READY\<close>
    by (auto simp: kinv_def sched_ok_def) (simp add: rt_thread_control_def Let_def)
qed

theorem change_priority_unchecked_witness:
  "\<not> kinv (snd (rt_thread_control 1 (CTRL_CHANGE_PRIORITY 40) (demo None)))"
  using change_priority_unchecked [of "demo None" 1 40] demo_ok [of None] by (simp add: stat_of_def)

end
