(* ===== verification/Memory.thy ===== *)
theory Memory
  imports Rtdef "HOL-Library.Monad_Syntax"
begin

text \<open>
  Byte-addressed memory for the parts of the kernel that work on raw memory: the memory and
  string routines (\<open>Kservice_Mem\<close>) and the system heap (\<open>Mem_Heap\<close>). A memory is a partial map
  from addresses to bytes: its domain is what a pointer may be used for, and a load or store
  outside gives \<open>None\<close>. Words are stored with the least significant byte first, as the target
  does. Addresses are natural numbers; \<open>upd m a bs\<close> is the effect of storing \<open>bs\<close> at \<open>a\<close>.
\<close>

type_synonym memory = "nat \<Rightarrow> byte option"

subsection \<open>Loads and stores\<close>

definition store8 :: "memory \<Rightarrow> nat \<Rightarrow> byte \<Rightarrow> memory option" where
  "store8 m a v = (case m a of None \<Rightarrow> None | Some _ \<Rightarrow> Some (m(a \<mapsto> v)))"

fun load_bytes :: "memory \<Rightarrow> nat \<Rightarrow> nat \<Rightarrow> byte list option" where
  "load_bytes m a 0 = Some []"
| "load_bytes m a (Suc n) = do { b \<leftarrow> m a; bs \<leftarrow> load_bytes m (Suc a) n; Some (b # bs) }"

fun store_bytes :: "memory \<Rightarrow> nat \<Rightarrow> byte list \<Rightarrow> memory option" where
  "store_bytes m a [] = Some m"
| "store_bytes m a (b # bs) = do { m \<leftarrow> store8 m a b; store_bytes m (Suc a) bs }"

definition split16 :: "u16 \<Rightarrow> byte list" where
  "split16 v = [ucast v, ucast (drop_bit 8 v)]"

definition split32 :: "u32 \<Rightarrow> byte list" where
  "split32 v = [ucast v, ucast (drop_bit 8 v), ucast (drop_bit 16 v), ucast (drop_bit 24 v)]"

fun join16 :: "byte list \<Rightarrow> u16" where
  "join16 [a, b] = ucast a OR push_bit 8 (ucast b)"
| "join16 _ = 0"

fun join32 :: "byte list \<Rightarrow> u32" where
  "join32 [a, b, c, d] =
     ucast a OR push_bit 8 (ucast b) OR push_bit 16 (ucast c) OR push_bit 24 (ucast d)"
| "join32 _ = 0"

definition load32 :: "memory \<Rightarrow> nat \<Rightarrow> u32 option" where
  "load32 m a = do { bs \<leftarrow> load_bytes m a 4; Some (join32 bs) }"

definition store32 :: "memory \<Rightarrow> nat \<Rightarrow> u32 \<Rightarrow> memory option" where
  "store32 m a v = store_bytes m a (split32 v)"

lemma length_split [simp]: "length (split16 h) = 2" "length (split32 w) = 4"
  by (simp_all add: split16_def split32_def)

lemma join_split [simp]: "join16 (split16 h) = h" "join32 (split32 w) = w"
proof -
  show "join16 (split16 h) = h"
    unfolding split16_def join16.simps by (rule bit_word_eqI) (auto simp: bit_simps)
  show "join32 (split32 w) = w"
    unfolding split32_def join32.simps
  proof (rule bit_word_eqI)
    fix n
    assume "n < LENGTH(32)"
    then show "bit (ucast (ucast w :: byte) OR push_bit 8 (ucast (ucast (drop_bit 8 w) :: byte))
        OR push_bit 16 (ucast (ucast (drop_bit 16 w) :: byte))
        OR push_bit 24 (ucast (ucast (drop_bit 24 w) :: byte)) :: u32) n \<longleftrightarrow> bit w n"
      by (cases "n < 16"; cases "n < 24") (auto simp: bit_simps)
  qed
qed

lemma split_join32 [simp]: "length bs = 4 \<Longrightarrow> split32 (join32 bs) = bs"
proof -
  assume "length bs = 4"
  then obtain a b c d where "bs = [a, b, c, d]"
    by (auto simp: length_Suc_conv numeral_eq_Suc)
  moreover have "split32 (join32 [a, b, c, d]) = [a, b, c, d]"
    unfolding split32_def join32.simps list.inject
    by (intro conjI refl; rule bit_word_eqI; auto simp: bit_simps dest: bit_imp_le_length)
  ultimately show ?thesis by simp
qed

subsection \<open>What a store does\<close>

definition upd :: "memory \<Rightarrow> nat \<Rightarrow> byte list \<Rightarrow> memory" where
  "upd m a bs = (\<lambda>x. if a \<le> x \<and> x < a + length bs then Some (bs ! (x - a)) else m x)"

definition bytes :: "memory \<Rightarrow> nat \<Rightarrow> nat \<Rightarrow> byte list" where
  "bytes m a n = map (\<lambda>i. the (m i)) [a ..< a + n]"

definition mapped :: "memory \<Rightarrow> nat \<Rightarrow> nat \<Rightarrow> bool" where
  "mapped m a n \<longleftrightarrow> {a ..< a + n} \<subseteq> dom m"

lemma upd_Nil [simp]: "upd m a [] = m"
  by (rule ext) (auto simp: upd_def)

lemma length_bytes [simp]: "length (bytes m a n) = n"
  by (simp add: bytes_def)

lemma bytes_0 [simp]: "bytes m a 0 = []"
  by (simp add: bytes_def)

lemma bytes_nth [simp]: "i < n \<Longrightarrow> bytes m a n ! i = the (m (a + i))"
  by (simp add: bytes_def)

lemma mapped_0 [simp]: "mapped m a 0"
  by (simp add: mapped_def)

lemma mapped_iff: "mapped m a n \<longleftrightarrow> (\<forall>x. a \<le> x \<and> x < a + n \<longrightarrow> x \<in> dom m)"
  unfolding mapped_def by (rule iffI) (blast intro: atLeastLessThan_iff [THEN iffD2], auto)

lemma mapped_Suc: "mapped m a (Suc n) \<longleftrightarrow> a \<in> dom m \<and> mapped m (Suc a) n"
proof -
  have "{a ..< a + Suc n} = insert a {Suc a ..< Suc a + n}" by auto
  then show ?thesis by (simp only: mapped_def insert_subset)
qed

lemma mapped_part: "mapped m a n \<Longrightarrow> a \<le> b \<Longrightarrow> b + k \<le> a + n \<Longrightarrow> mapped m b k"
  by (simp only: mapped_iff) (meson dual_order.trans order.strict_trans2)

lemma mapped_add: "mapped m a (n + k) \<longleftrightarrow> mapped m a n \<and> mapped m (a + n) k"
proof -
  have "{a ..< a + (n + k)} = {a ..< a + n} \<union> {a + n ..< a + n + k}" by auto
  then show ?thesis by (simp add: mapped_def)
qed

lemma dom_upd: "mapped m a (length bs) \<Longrightarrow> dom (upd m a bs) = dom m"
  by (force simp: mapped_def upd_def split: if_splits)

lemma mapped_upd: "mapped m a (length bs) \<Longrightarrow> mapped (upd m a bs) b n = mapped m b n"
  using dom_upd [of m a bs] by (simp add: mapped_def)

lemma mapped_upd_mono: "mapped m b n \<Longrightarrow> mapped (upd m a bs) b n"
  by (auto simp: mapped_def upd_def subset_iff dom_def)

lemma upd_Cons: "upd (m(a \<mapsto> b)) (Suc a) bs = upd m a (b # bs)"
  by (rule ext) (auto simp: upd_def nth_Cons' fun_upd_def)

lemma upd_append: "upd (upd m a xs) (a + length xs) ys = upd m a (xs @ ys)"
  by (rule ext) (auto simp: upd_def nth_append)

lemma upd_append': "b = a + length xs \<Longrightarrow> upd (upd m a xs) b ys = upd m a (xs @ ys)"
  by (simp add: upd_append)

lemma upd_commute:
  "a + length xs \<le> b \<or> b + length ys \<le> a \<Longrightarrow> upd (upd m a xs) b ys = upd (upd m b ys) a xs"
  by (rule ext) (auto simp: upd_def)

lemma upd_overwrite: "length xs = length ys \<Longrightarrow> upd (upd m a xs) a ys = upd m a ys"
  by (rule ext) (auto simp: upd_def)

lemma upd_other: "x < a \<or> a + length bs \<le> x \<Longrightarrow> upd m a bs x = m x"
  by (auto simp: upd_def)

lemma bytes_upd_same [simp]: "length bs = n \<Longrightarrow> bytes (upd m a bs) a n = bs"
  by (rule nth_equalityI) (auto simp: upd_def)

lemma bytes_cong: "(\<And>x. a \<le> x \<Longrightarrow> x < a + n \<Longrightarrow> m x = m' x) \<Longrightarrow> bytes m a n = bytes m' a n"
  by (simp add: bytes_def)

lemma bytes_upd_other:
  "b + n \<le> a \<or> a + length bs \<le> b \<Longrightarrow> bytes (upd m a bs) b n = bytes m b n"
  by (rule bytes_cong) (auto simp: upd_def)

lemma bytes_append: "bytes m a (n + k) = bytes m a n @ bytes m (a + n) k"
  by (rule nth_equalityI) (auto simp: nth_append)

lemma bytes_Suc: "bytes m a (Suc n) = the (m a) # bytes m (Suc a) n"
  by (rule nth_equalityI) (auto simp: nth_Cons split: nat.split)

lemma upd_bytes_same: "mapped m a n \<Longrightarrow> upd m a (bytes m a n) = m"
  by (rule ext) (auto simp: upd_def mapped_def subset_iff dom_def)

lemma store8_iff: "store8 m a v = Some m' \<longleftrightarrow> a \<in> dom m \<and> m' = m(a \<mapsto> v)"
  by (auto simp: store8_def split: option.split)

lemma load_bytes_eq:
  "load_bytes m a n = (if mapped m a n then Some (bytes m a n) else None)"
proof (induction n arbitrary: a)
  case 0
  then show ?case by simp
next
  case (Suc n)
  then show ?case by (cases "m a") (auto simp: mapped_Suc bytes_Suc dom_def)
qed

lemma store_bytes_eq:
  "store_bytes m a bs = (if mapped m a (length bs) then Some (upd m a bs) else None)"
proof (induction bs arbitrary: m a)
  case Nil
  then show ?case by simp
next
  case (Cons b bs)
  show ?case
  proof (cases "m a")
    case None
    then show ?thesis by (simp add: store8_def mapped_Suc dom_def)
  next
    case (Some v)
    have "mapped (m(a \<mapsto> b)) (Suc a) (length bs) = mapped m (Suc a) (length bs)"
      using Some by (auto simp: mapped_def)
    with Some show ?thesis
      by (simp add: store8_def Cons.IH mapped_Suc upd_Cons dom_def)
  qed
qed

lemma load32_eq: "load32 m a = (if mapped m a 4 then Some (join32 (bytes m a 4)) else None)"
  by (simp add: load32_def load_bytes_eq)

lemma store32_eq: "store32 m a v = (if mapped m a 4 then Some (upd m a (split32 v)) else None)"
  by (simp add: store32_def store_bytes_eq)

lemma copy_word:
  "mapped m s 4 \<Longrightarrow> mapped m d 4 \<Longrightarrow>
   Option.bind (load32 m s) (store32 m d) = Some (upd m d (bytes m s 4))"
  by (simp add: load32_eq store32_eq)

end
