(* ===== verification/Kservice_Mem.thy ===== *)
theory Kservice_Mem
  imports Memory
begin

text \<open>
  The memory and string routines of \<^verbatim>\<open>src/kservice.c\<close> (\<^verbatim>\<open>RT_USING_TINY_SIZE\<close> is not defined:
  \<open>rt_memset\<close> and \<open>rt_memcpy\<close> work on words, four at a time, when the addresses are aligned).
  Each gives the memory afterwards, or \<open>None\<close> when it touches an address that is not mapped; the
  pointer that the C functions return is their first argument. \<open>char\<close> is unsigned, as the
  target's compilers have it. The \<open>_eq\<close> lemmas state what each routine does in terms of \<open>upd\<close> and
  \<open>bytes\<close>.
\<close>

subsection \<open>Filling\<close>

fun set_blocks :: "memory \<Rightarrow> nat \<Rightarrow> u32 \<Rightarrow> nat \<Rightarrow> (memory \<times> nat \<times> nat) option" where
  "set_blocks m a buffer count =
     (if 16 \<le> count
      then do {
        m \<leftarrow> store32 m a buffer;
        m \<leftarrow> store32 m (a + 4) buffer;
        m \<leftarrow> store32 m (a + 8) buffer;
        m \<leftarrow> store32 m (a + 12) buffer;
        set_blocks m (a + 16) buffer (count - 16) }
      else Some (m, a, count))"

fun set_words :: "memory \<Rightarrow> nat \<Rightarrow> u32 \<Rightarrow> nat \<Rightarrow> (memory \<times> nat \<times> nat) option" where
  "set_words m a buffer count =
     (if 4 \<le> count
      then do { m \<leftarrow> store32 m a buffer; set_words m (a + 4) buffer (count - 4) }
      else Some (m, a, count))"

fun set_bytes :: "memory \<Rightarrow> nat \<Rightarrow> byte \<Rightarrow> nat \<Rightarrow> memory option" where
  "set_bytes m a d 0 = Some m"
| "set_bytes m a d (Suc count) = do { m \<leftarrow> store8 m a d; set_bytes m (a + 1) d count }"

definition rt_memset :: "memory \<Rightarrow> nat \<Rightarrow> u32 \<Rightarrow> u32 \<Rightarrow> memory option" where
  "rt_memset m s c count =
     (let d = c AND 0xff; n = unat count in
      if 4 \<le> n \<and> s AND 3 = 0
      then let buffer = push_bit 8 d OR d; buffer = buffer OR push_bit 16 buffer in
        do {
          (m, a, n) \<leftarrow> set_blocks m s buffer n;
          (m, a, n) \<leftarrow> set_words m a buffer n;
          set_bytes m a (ucast d) n }
      else set_bytes m s (ucast d) n)"

declare set_blocks.simps [simp del] set_words.simps [simp del]

lemma set_bytes_eq:
  "set_bytes m a d n = (if mapped m a n then Some (upd m a (replicate n d)) else None)"
proof (induction n arbitrary: m a)
  case 0
  then show ?case by simp
next
  case (Suc n)
  have "mapped (m(a \<mapsto> d)) (Suc a) n = mapped m (Suc a) n" if "a \<in> dom m"
    using that by (auto simp: mapped_def)
  then show ?case
    by (auto simp: store8_def mapped_Suc Suc.IH upd_Cons dom_def split: option.split)
qed

lemma div4: "4 * ((4 + k) div 4) = 4 + 4 * (k div 4)" for k :: nat
  by presburger

lemma div16: "16 * ((16 + k) div 16) = 16 + 16 * (k div 16)" for k :: nat
  by presburger

lemma set_words_eq:
  assumes "mapped m a n" "split32 w = replicate 4 d"
  shows "set_words m a w n = Some (upd m a (replicate (4 * (n div 4)) d), a + 4 * (n div 4), n mod 4)"
  using assms(1)
proof (induction n arbitrary: m a rule: less_induct)
  case (less n)
  show ?case
  proof (cases "4 \<le> n")
    case True
    then obtain k where n: "n = 4 + k" using le_Suc_ex by blast
    with less.prems have m4: "mapped m a 4" "mapped m (a + 4) k" by (simp_all add: mapped_add)
    let ?m = "upd m a (replicate 4 d)"
    have "mapped ?m (a + 4) k" using m4 by (intro mapped_upd_mono)
    then have "set_words ?m (a + 4) w k =
        Some (upd ?m (a + 4) (replicate (4 * (k div 4)) d), a + 4 + 4 * (k div 4), k mod 4)"
      using n by (intro less.IH) simp_all
    moreover have "upd ?m (a + 4) (replicate (4 * (k div 4)) d) = upd m a (replicate (4 * (n div 4)) d)"
      using n div4 [of k] by (simp add: upd_append' flip: replicate_add)
    ultimately show ?thesis
      using True n m4 assms(2) div4 [of k] by (subst set_words.simps) (simp add: store32_eq)
  next
    case False
    then show ?thesis by (subst set_words.simps) simp
  qed
qed

lemma set_blocks_eq:
  assumes "mapped m a n" "split32 w = replicate 4 d"
  shows "set_blocks m a w n =
           Some (upd m a (replicate (16 * (n div 16)) d), a + 16 * (n div 16), n mod 16)"
  using assms(1)
proof (induction n arbitrary: m a rule: less_induct)
  case (less n)
  show ?case
  proof (cases "16 \<le> n")
    case True
    then obtain k where n: "n = 4 + (4 + (4 + (4 + k)))" using le_Suc_ex by force
    with less.prems have m4: "mapped m a 4" "mapped m (a + 4) 4" "mapped m (a + 8) 4"
        "mapped m (a + 12) 4" and mk: "mapped m (a + 16) k"
      by (simp_all only: mapped_add n) (simp_all add: add.assoc)
    let ?m = "upd m a (replicate 16 d)"
    have "mapped ?m (a + 16) k" using mk by (intro mapped_upd_mono)
    then have "set_blocks ?m (a + 16) w k =
        Some (upd ?m (a + 16) (replicate (16 * (k div 16)) d), a + 16 + 16 * (k div 16), k mod 16)"
      using n by (intro less.IH) simp_all
    moreover have "upd ?m (a + 16) (replicate (16 * (k div 16)) d) =
        upd m a (replicate (16 * (n div 16)) d)"
      using n div16 [of k] by (simp add: upd_append' flip: replicate_add)
    ultimately show ?thesis
      using True n m4 assms(2) div16 [of k]
      by (subst set_blocks.simps)
        (simp add: store32_eq mapped_upd_mono upd_append' flip: replicate_add)
  next
    case False
    then show ?thesis by (subst set_blocks.simps) simp
  qed
qed

lemma fill_word:
  fixes c :: u32
  defines "d \<equiv> c AND 0xff"
  defines "b \<equiv> push_bit 8 d OR d"
  shows "split32 (b OR push_bit 16 b) = replicate 4 (ucast d)"
proof -
  have m: "(0xff :: u32) = mask 8" by (simp add: mask_eq_exp_minus_1)
  have r: "replicate 4 x = [x, x, x, x]" for x :: byte by (simp add: numeral_eq_Suc)
  show ?thesis
    unfolding split32_def b_def d_def m r list.inject
    by (intro conjI refl; rule bit_word_eqI; auto simp: bit_simps)
qed

text \<open>\<open>rt_memset\<close> fills exactly the given bytes, whatever the alignment and the length.\<close>

lemma set_all_eq:
  assumes "mapped m s n" "split32 w = replicate 4 d"
  shows "do { (m, a, n) \<leftarrow> set_blocks m s w n; (m, a, n) \<leftarrow> set_words m a w n; set_bytes m a d n } =
           Some (upd m s (replicate n d))"
proof -
  let ?i = "16 * (n div 16)" and ?j = "4 * (n mod 16 div 4)" and ?k = "n mod 16 mod 4"
  have n: "n = ?i + (?j + ?k)" by simp
  with assms(1) have m: "mapped m (s + ?i) (n mod 16)" "mapped m (s + ?i + ?j) ?k"
    by (auto intro!: mapped_part [OF assms(1)])
  have "upd (upd (upd m s (replicate ?i d)) (s + ?i) (replicate ?j d)) (s + ?i + ?j) (replicate ?k d) =
      upd m s (replicate n d)"
    by (simp only: upd_append' length_replicate replicate_add [symmetric] add.assoc n [symmetric])
  then show ?thesis
    by (simp only: set_blocks_eq [OF assms] set_words_eq [OF mapped_upd_mono [OF m(1)] assms(2)]
        set_bytes_eq mapped_upd_mono [OF mapped_upd_mono [OF m(2)]] Option.bind.simps prod.case if_True)
qed

lemma rt_memset_eq:
  assumes "mapped m s (unat count)"
  shows "rt_memset m s c count = Some (upd m s (replicate (unat count) (ucast c)))"
proof -
  have m: "(0xff :: u32) = mask 8" by (simp add: mask_eq_exp_minus_1)
  have d: "ucast (c AND 0xff) = (ucast c :: byte)"
    unfolding m by (rule bit_word_eqI) (auto simp: bit_simps)
  show ?thesis
    unfolding rt_memset_def Let_def set_all_eq [OF assms fill_word]
    by (simp add: set_bytes_eq d assms)
qed

text \<open>Conversely, a call that returns has found all of the block mapped.\<close>

lemma store32_mapped: "store32 m a w = Some m' \<Longrightarrow> dom m' = dom m \<and> mapped m a 4"
  using dom_upd [of m a "split32 w"] by (simp add: store32_eq split: if_splits)

lemma mapped_same_dom: "dom m = dom m' \<Longrightarrow> mapped m a n = mapped m' a n"
  by (simp add: mapped_def)

lemma mapped_join:
  assumes "mapped m a (b - a)" "mapped m b (c - b)" "a \<le> b" "b \<le> c"
  shows "mapped m a (c - a)"
proof -
  have "c - a = (b - a) + (c - b)" "a + (b - a) = b" using assms(3,4) by simp_all
  then show ?thesis using assms(1,2) by (simp only: mapped_add simp_thms)
qed

lemma set_words_mapped:
  "set_words m a w n = Some (m', b, k) \<Longrightarrow> dom m' = dom m \<and> mapped m a (b - a) \<and> b + k = a + n \<and> a \<le> b"
proof (induction m a w n rule: set_words.induct)
  case (1 m a w n)
  show ?case
  proof (cases "4 \<le> n")
    case True
    with "1.prems" obtain m1 where m1: "store32 m a w = Some m1" "set_words m1 (a + 4) w (n - 4) = Some (m', b, k)"
      by (subst (asm) set_words.simps) (auto split: bind_splits)
    note m = store32_mapped [OF m1(1)]
    from "1.IH" [OF True m1] have i: "dom m' = dom m1" "mapped m1 (a + 4) (b - (a + 4))" "b + k = a + n" "a + 4 \<le> b"
      using True by simp_all
    with m show ?thesis
      using mapped_join [of m a "a + 4" b] mapped_same_dom [of m1 m] by simp
  next
    case False
    with "1.prems" show ?thesis by (subst (asm) set_words.simps) (auto simp: mapped_def)
  qed
qed

lemma set_blocks_mapped:
  "set_blocks m a w n = Some (m', b, k) \<Longrightarrow> dom m' = dom m \<and> mapped m a (b - a) \<and> b + k = a + n \<and> a \<le> b"
proof (induction m a w n rule: set_blocks.induct)
  case (1 m a w n)
  show ?case
  proof (cases "16 \<le> n")
    case True
    with "1.prems" obtain m1 m2 m3 m4 where st: "store32 m a w = Some m1" "store32 m1 (a + 4) w = Some m2"
      "store32 m2 (a + 8) w = Some m3" "store32 m3 (a + 12) w = Some m4"
      and r: "set_blocks m4 (a + 16) w (n - 16) = Some (m', b, k)"
      by (subst (asm) set_blocks.simps) (auto split: bind_splits)
    note d = st [THEN store32_mapped]
    have e: "mapped m1 x j = mapped m x j" "mapped m2 x j = mapped m x j" "mapped m3 x j = mapped m x j"
      "mapped m4 x j = mapped m x j" for x j using d by (simp_all add: mapped_def)
    from "1.IH" [OF True st r] have i: "dom m' = dom m4" "mapped m4 (a + 16) (b - (a + 16))"
      "b + k = a + n" "a + 16 \<le> b" using True by simp_all
    have "mapped m a (a + 16 - a)"
      by (rule mapped_join [of m a "a + 12"], rule mapped_join [of m a "a + 8"],
          rule mapped_join [of m a "a + 4"]) (use d in \<open>simp_all add: e\<close>)
    then have "mapped m a (b - a)"
      using mapped_join [of m a "a + 16" b] i(2,4) by (simp add: e)
    then show ?thesis using i d by simp
  next
    case False
    with "1.prems" show ?thesis by (subst (asm) set_blocks.simps) (auto simp: mapped_def)
  qed
qed

lemma rt_memset_mapped:
  assumes "rt_memset m s c count = Some m'"
  shows "mapped m s (unat count)"
proof (cases "4 \<le> unat count \<and> s AND 3 = 0")
  case True
  with assms obtain w m1 a1 n1 m2 a2 n2 d where
    1: "set_blocks m s w (unat count) = Some (m1, a1, n1)" "set_words m1 a1 w n1 = Some (m2, a2, n2)"
    "set_bytes m2 a2 d n2 = Some m'"
    by (auto simp: rt_memset_def Let_def split: bind_splits)
  note b = set_blocks_mapped [OF 1(1)] and w = set_words_mapped [OF 1(2)]
  have "mapped m2 a2 n2" using 1(3) by (simp add: set_bytes_eq split: if_splits)
  then have "mapped m s (a1 - s)" "mapped m a1 (a2 - a1)" "mapped m a2 (s + unat count - a2)"
    using b w by (auto simp: mapped_def)
  then have "mapped m s (s + unat count - s)"
    using b w mapped_join [of m s a1 a2] mapped_join [of m s a2 "s + unat count"] by simp
  then show ?thesis by simp
next
  case False
  with assms show ?thesis by (auto simp: rt_memset_def Let_def set_bytes_eq split: if_splits)
qed

subsection \<open>Copying and comparing\<close>

definition copy_word :: "memory \<Rightarrow> nat \<Rightarrow> nat \<Rightarrow> memory option" where
  "copy_word m d s = do { w \<leftarrow> load32 m s; store32 m d w }"

fun copy_blocks :: "memory \<Rightarrow> nat \<Rightarrow> nat \<Rightarrow> nat \<Rightarrow> (memory \<times> nat \<times> nat \<times> nat) option" where
  "copy_blocks m d s len =
     (if 16 \<le> len
      then do {
        m \<leftarrow> copy_word m d s;
        m \<leftarrow> copy_word m (d + 4) (s + 4);
        m \<leftarrow> copy_word m (d + 8) (s + 8);
        m \<leftarrow> copy_word m (d + 12) (s + 12);
        copy_blocks m (d + 16) (s + 16) (len - 16) }
      else Some (m, d, s, len))"

fun copy_words :: "memory \<Rightarrow> nat \<Rightarrow> nat \<Rightarrow> nat \<Rightarrow> (memory \<times> nat \<times> nat \<times> nat) option" where
  "copy_words m d s len =
     (if 4 \<le> len
      then do { m \<leftarrow> copy_word m d s; copy_words m (d + 4) (s + 4) (len - 4) }
      else Some (m, d, s, len))"

fun copy_up :: "memory \<Rightarrow> nat \<Rightarrow> nat \<Rightarrow> nat \<Rightarrow> memory option" where
  "copy_up m d s 0 = Some m"
| "copy_up m d s (Suc n) = do { b \<leftarrow> m s; m \<leftarrow> store8 m d b; copy_up m (d + 1) (s + 1) n }"

text \<open>
  \<^verbatim>\<open>rt_memcpy\<close> keeps the count in an \<^verbatim>\<open>int\<close>; counts from \<open>2\<^sup>31\<close> up, which no object of the
  target has, are left out (\<open>None\<close>).
\<close>

definition rt_memcpy :: "memory \<Rightarrow> nat \<Rightarrow> nat \<Rightarrow> u32 \<Rightarrow> memory option" where
  "rt_memcpy m dst src count =
     (let len = unat count in
      if 2 ^ 31 \<le> len then None
      else if 16 \<le> len \<and> (src AND 3) OR (dst AND 3) = 0
      then do {
        (m, d, s, len) \<leftarrow> copy_blocks m dst src len;
        (m, d, s, len) \<leftarrow> copy_words m d s len;
        copy_up m d s len }
      else copy_up m dst src len)"

text \<open>\<open>copy_down\<close>: the pointers stand behind the bytes that are still to be copied.\<close>

fun copy_down :: "memory \<Rightarrow> nat \<Rightarrow> nat \<Rightarrow> nat \<Rightarrow> memory option" where
  "copy_down m d s 0 = Some m"
| "copy_down m d s (Suc n) =
     do { b \<leftarrow> m (s - 1); m \<leftarrow> store8 m (d - 1) b; copy_down m (d - 1) (s - 1) n }"

definition rt_memmove :: "memory \<Rightarrow> nat \<Rightarrow> nat \<Rightarrow> u32 \<Rightarrow> memory option" where
  "rt_memmove m dest src n =
     (if src < dest \<and> dest < src + unat n
      then copy_down m (dest + unat n) (src + unat n) (unat n)
      else copy_up m dest src (unat n))"

fun memcmp_loop :: "memory \<Rightarrow> nat \<Rightarrow> nat \<Rightarrow> nat \<Rightarrow> int option" where
  "memcmp_loop m su1 su2 0 = Some 0"
| "memcmp_loop m su1 su2 (Suc count) =
     do {
       a \<leftarrow> m su1;
       b \<leftarrow> m su2;
       let res = uint a - uint b in
       if res \<noteq> 0 then Some res else memcmp_loop m (su1 + 1) (su2 + 1) count }"

definition rt_memcmp :: "memory \<Rightarrow> nat \<Rightarrow> nat \<Rightarrow> u32 \<Rightarrow> int option" where
  "rt_memcmp m cs ct count = memcmp_loop m cs ct (unat count)"

declare copy_blocks.simps [simp del] copy_words.simps [simp del]

lemma copy_word_eq:
  "mapped m s 4 \<Longrightarrow> mapped m d 4 \<Longrightarrow> copy_word m d s = Some (upd m d (bytes m s 4))"
  by (simp add: copy_word_def load32_eq store32_eq)

lemma copy_up_step:
  assumes "a \<in> dom m"
  shows "mapped (m(a \<mapsto> b)) c n = mapped m c n"
proof -
  have "dom (m(a \<mapsto> b)) = dom m" using assms by auto
  then show ?thesis by (simp add: mapped_def)
qed

text \<open>Copying upwards is right unless the destination starts inside the source, above its start.\<close>

lemma copy_up_eq:
  assumes "mapped m d n" "mapped m s n" "d \<le> s \<or> s + n \<le> d"
  shows "copy_up m d s n = Some (upd m d (bytes m s n))"
  using assms
proof (induction n arbitrary: m d s)
  case 0
  then show ?case by simp
next
  case (Suc n)
  then obtain b where b: "m s = Some b" and d: "d \<in> dom m" by (auto simp: mapped_Suc)
  have "bytes (m(d \<mapsto> b)) (Suc s) n = bytes m (Suc s) n"
    using Suc.prems(3) by (intro bytes_cong) auto
  moreover have "copy_up (m(d \<mapsto> b)) (Suc d) (Suc s) n =
      Some (upd (m(d \<mapsto> b)) (Suc d) (bytes (m(d \<mapsto> b)) (Suc s) n))"
    using Suc.prems by (intro Suc.IH) (simp_all only: copy_up_step [OF d] mapped_Suc, auto)
  ultimately show ?case
    using b d by (auto simp: store8_def upd_Cons bytes_Suc split: option.split)
qed

lemma copy_down_eq:
  assumes "mapped m d n" "mapped m s n" "s \<le> d"
  shows "copy_down m (d + n) (s + n) n = Some (upd m d (bytes m s n))"
  using assms
proof (induction n arbitrary: m)
  case 0
  then show ?case by simp
next
  case (Suc n)
  have s: "mapped m s n" "s + n \<in> dom m" and d: "mapped m d n" "d + n \<in> dom m"
    using Suc.prems mapped_add [of m s n 1] mapped_add [of m d n 1] by (auto simp: mapped_Suc)
  then obtain b where b: "m (s + n) = Some b" by blast
  let ?m = "m(d + n \<mapsto> b)"
  have "bytes ?m s n = bytes m s n" using Suc.prems(3) by (intro bytes_cong) auto
  moreover have "copy_down ?m (d + n) (s + n) n = Some (upd ?m d (bytes ?m s n))"
    using Suc.prems s d by (intro Suc.IH) (simp_all only: copy_up_step [OF d(2)])
  moreover have "upd ?m d (bytes m s n) = upd m d (bytes m s (Suc n))"
  proof -
    have "?m = upd m (d + n) [b]" by (auto simp: upd_def fun_eq_iff)
    moreover have "bytes m s (Suc n) = bytes m s n @ [b]"
      using b bytes_append [of m s n 1] by (simp add: bytes_Suc)
    ultimately show ?thesis by (simp add: upd_commute upd_append')
  qed
  ultimately show ?case
    using b d by (auto simp: store8_def split: option.split)
qed

text \<open>\<open>rt_memmove\<close> copies right however the two blocks overlap.\<close>

lemma rt_memmove_eq:
  assumes "mapped m d (unat n)" "mapped m s (unat n)"
  shows "rt_memmove m d s n = Some (upd m d (bytes m s (unat n)))"
  using assms by (auto simp: rt_memmove_def copy_down_eq copy_up_eq not_less)

text \<open>\<open>rt_memcpy\<close> copies right between blocks that do not overlap, whatever their alignment.\<close>

lemma bytes_upd_apart: "d + k \<le> s \<or> s + n \<le> d \<Longrightarrow> length bs = k \<Longrightarrow> bytes (upd m d bs) s n = bytes m s n"
  by (rule bytes_upd_other) auto

lemma copy_words_eq:
  assumes "mapped m d n" "mapped m s n" "d + n \<le> s \<or> s + n \<le> d"
  shows "copy_words m d s n =
    Some (upd m d (bytes m s (4 * (n div 4))), d + 4 * (n div 4), s + 4 * (n div 4), n mod 4)"
  using assms
proof (induction n arbitrary: m d s rule: less_induct)
  case (less n)
  show ?case
  proof (cases "4 \<le> n")
    case True
    then obtain k where n: "n = 4 + k" using le_Suc_ex by blast
    let ?m = "upd m d (bytes m s 4)" and ?k = "4 * (k div 4)"
    have m: "mapped m d 4" "mapped m (d + 4) k" "mapped m s 4" "mapped m (s + 4) k"
      using less.prems n by (simp_all add: mapped_add)
    have "bytes ?m (s + 4) ?k = bytes m (s + 4) ?k"
      using less.prems(3) n by (intro bytes_upd_apart) auto
    moreover have "copy_words ?m (d + 4) (s + 4) k =
        Some (upd ?m (d + 4) (bytes ?m (s + 4) ?k), d + 4 + ?k, s + 4 + ?k, k mod 4)"
      using less.prems(3) n m by (intro less.IH mapped_upd_mono) auto
    ultimately show ?thesis
      using True n m div4 [of k]
      by (subst copy_words.simps) (simp add: copy_word_eq upd_append' flip: bytes_append)
  next
    case False
    then show ?thesis by (subst copy_words.simps) simp
  qed
qed

lemma copy_blocks_eq:
  assumes "mapped m d n" "mapped m s n" "d + n \<le> s \<or> s + n \<le> d"
  shows "copy_blocks m d s n =
    Some (upd m d (bytes m s (16 * (n div 16))), d + 16 * (n div 16), s + 16 * (n div 16), n mod 16)"
  using assms
proof (induction n arbitrary: m d s rule: less_induct)
  case (less n)
  show ?case
  proof (cases "16 \<le> n")
    case True
    then obtain k where n: "n = 16 + k" using le_Suc_ex by blast
    let ?m = "upd m d (bytes m s 16)" and ?k = "16 * (k div 16)"
    have m: "mapped m (d + 16) k" "mapped m (s + 16) k"
      using less.prems n by (simp_all add: mapped_add)
    have "copy_words m d s 16 = Some (?m, d + 16, s + 16, 0)"
      using less.prems n by (subst copy_words_eq) (auto simp: mapped_add)
    then have step: "copy_blocks m d s n = copy_blocks ?m (d + 16) (s + 16) k"
      using n by (subst copy_blocks.simps)
        (auto simp: copy_words.simps add.assoc bind_eq_Some_conv)
    have "bytes ?m (s + 16) ?k = bytes m (s + 16) ?k"
      using less.prems(3) n by (intro bytes_upd_apart) auto
    moreover have "copy_blocks ?m (d + 16) (s + 16) k =
        Some (upd ?m (d + 16) (bytes ?m (s + 16) ?k), d + 16 + ?k, s + 16 + ?k, k mod 16)"
      using less.prems(3) n m by (intro less.IH mapped_upd_mono) auto
    ultimately show ?thesis
      unfolding step using n div16 [of k] by (simp add: upd_append' flip: bytes_append)
  next
    case False
    then show ?thesis by (subst copy_blocks.simps) simp
  qed
qed

lemma rt_memcpy_eq:
  assumes "mapped m d (unat n)" "mapped m s (unat n)" "d + unat n \<le> s \<or> s + unat n \<le> d"
    and "unat n < 2 ^ 31"
  shows "rt_memcpy m d s n = Some (upd m d (bytes m s (unat n)))"
proof -
  let ?n = "unat n"
  define i j k where "i = 16 * (?n div 16)" and "j = 4 * (?n mod 16 div 4)" and "k = ?n mod 16 mod 4"
  note ijk = this
  let ?m = "upd m d (bytes m s i)"
  have ij: "i + ?n mod 16 = ?n" "j + k = ?n mod 16" and n: "?n = i + (j + k)"
    by (simp_all add: ijk)
  have 1: "bytes ?m (s + i) j = bytes m (s + i) j"
    using assms(3) n by (intro bytes_upd_apart) auto
  have "copy_words ?m (d + i) (s + i) (j + k) =
      Some (upd ?m (d + i) (bytes ?m (s + i) j), d + i + j, s + i + j, k)"
  proof -
    have "4 * ((j + k) div 4) = j" "(j + k) mod 4 = k" by (simp_all only: ij(2)) (simp_all add: ijk)
    moreover have "mapped ?m (d + i) (j + k)"
      by (rule mapped_upd_mono, rule mapped_part [OF assms(1)]) (simp_all add: n)
    moreover have "mapped ?m (s + i) (j + k)"
      by (rule mapped_upd_mono, rule mapped_part [OF assms(2)]) (simp_all add: n)
    moreover have "d + i + (j + k) \<le> s + i \<or> s + i + (j + k) \<le> d + i"
      using assms(3) n by auto
    ultimately show ?thesis using copy_words_eq [of ?m "d + i" "j + k" "s + i"] by simp
  qed
  then have 2: "copy_words ?m (d + i) (s + i) (?n mod 16) =
      Some (upd ?m (d + i) (bytes m (s + i) j), d + i + j, s + i + j, k)"
    using ij(2) 1 by simp
  let ?m2 = "upd m d (bytes m s (i + j))"
  have m2: "upd ?m (d + i) (bytes m (s + i) j) = ?m2" by (simp add: upd_append' bytes_append)
  have 3: "bytes ?m2 (s + i + j) k = bytes m (s + i + j) k"
    using assms(3) n by (intro bytes_upd_apart) auto
  have 4: "copy_up ?m2 (d + i + j) (s + i + j) k =
      Some (upd ?m2 (d + i + j) (bytes m (s + i + j) k))"
  proof -
    have "mapped ?m2 (d + i + j) k"
      by (rule mapped_upd_mono, rule mapped_part [OF assms(1)]) (simp_all add: n)
    moreover have "mapped ?m2 (s + i + j) k"
      by (rule mapped_upd_mono, rule mapped_part [OF assms(2)]) (simp_all add: n)
    ultimately show ?thesis using assms(3) n by (subst copy_up_eq) (auto simp: 3)
  qed
  have 5: "upd ?m2 (d + i + j) (bytes m (s + i + j) k) = upd m d (bytes m s ?n)"
    by (simp only: upd_append' length_bytes add.assoc bytes_append [symmetric] n [symmetric])
  have "do { (m, d, s, len) \<leftarrow> copy_blocks m d s ?n; (m, d, s, len) \<leftarrow> copy_words m d s len;
      copy_up m d s len } = Some (upd m d (bytes m s ?n))"
    by (simp only: copy_blocks_eq [OF assms(1-3), folded ijk] 2 m2 4 5 Option.bind.simps prod.case)
  moreover have "copy_up m d s ?n = Some (upd m d (bytes m s ?n))"
    using assms by (intro copy_up_eq) auto
  ultimately show ?thesis using assms(4) by (simp only: rt_memcpy_def Let_def) simp
qed

text \<open>\<open>rt_memcmp\<close> gives the difference of the first two bytes that differ, or 0.\<close>

lemma memcmp_loop_eq:
  assumes "mapped m s n" "mapped m t n"
  shows "\<exists>r. memcmp_loop m s t n = Some r \<and> (r = 0 \<longleftrightarrow> bytes m s n = bytes m t n) \<and>
     (r < 0 \<longleftrightarrow> (bytes m s n, bytes m t n) \<in> lexord {(a, b). a < b})"
  using assms
proof (induction n arbitrary: s t)
  case 0
  then show ?case by simp
next
  case (Suc n)
  then obtain a b where ab: "m s = Some a" "m t = Some b" by (auto simp: mapped_Suc)
  obtain r where "memcmp_loop m (Suc s) (Suc t) n = Some r"
      "r = 0 \<longleftrightarrow> bytes m (Suc s) n = bytes m (Suc t) n"
      "r < 0 \<longleftrightarrow> (bytes m (Suc s) n, bytes m (Suc t) n) \<in> lexord {(a, b). a < b}"
    using Suc.IH [of "Suc s" "Suc t"] Suc.prems by (auto simp: mapped_Suc)
  with ab show ?case
    by (cases "a = b") (auto simp: bytes_Suc Let_def word_less_def word_uint_eq_iff)
qed

end
