(* ===== verification/Mem_Heap.thy ===== *)
theory Mem_Heap
  imports Kservice_Mem
begin

text \<open>
  The system heap (\<^verbatim>\<open>src/mem.c\<close>, the "small memory" allocator of the build): a chain of blocks
  in one area of memory, each behind a header of 12 bytes with the offsets of its neighbours.
  The headers are bytes of the memory like everything else, so that what the owner of a block
  writes and what the allocator writes share one address space. \<open>None\<close> is a failed assertion, an
  access outside mapped memory, or a loop that does not end.

  Every call holds \<^verbatim>\<open>heap_sem\<close> while it works on the chain: a call is one atomic operation here,
  and the semaphore itself is not part of the state. \<^verbatim>\<open>RT_USING_MEMTRACE\<close> is off, and no hook is set.
\<close>

subsection \<open>Data\<close>

record heap_mem =
  mem_magic :: u16
  mem_used :: u16
  mem_next :: u32
  mem_prev :: u32

record mem_heap =
  heap_ptr :: nat
  heap_end :: nat
  lfree :: nat
  mem_size_aligned :: u32
  used_mem :: u32
  max_mem :: u32
  ram :: memory

abbreviation (input) RT_NULL :: nat where "RT_NULL \<equiv> 0"
abbreviation HEAP_MAGIC :: u16 where "HEAP_MAGIC \<equiv> 0x1ea0"
abbreviation MIN_SIZE_ALIGNED :: u32 where "MIN_SIZE_ALIGNED \<equiv> 12"
abbreviation SIZEOF_STRUCT_MEM :: u32 where "SIZEOF_STRUCT_MEM \<equiv> 12"

definition hm_bytes :: "heap_mem \<Rightarrow> byte list" where
  "hm_bytes b = split16 (mem_magic b) @ split16 (mem_used b) @ split32 (mem_next b) @ split32 (mem_prev b)"

definition hm_of :: "byte list \<Rightarrow> heap_mem" where
  "hm_of bs = \<lparr>mem_magic = join16 (take 2 bs), mem_used = join16 (take 2 (drop 2 bs)),
               mem_next = join32 (take 4 (drop 4 bs)), mem_prev = join32 (take 4 (drop 8 bs))\<rparr>"

definition ld_mem :: "memory \<Rightarrow> nat \<Rightarrow> heap_mem option" where
  "ld_mem m a = do { bs \<leftarrow> load_bytes m a 12; Some (hm_of bs) }"

text \<open>An assignment to a field of the header at an address.\<close>

definition put :: "(heap_mem \<Rightarrow> heap_mem) \<Rightarrow> nat \<Rightarrow> mem_heap \<Rightarrow> mem_heap option" where
  "put f a h = do {
     b \<leftarrow> ld_mem (ram h) a;
     m \<leftarrow> store_bytes (ram h) a (hm_bytes (f b));
     Some (h\<lparr>ram := m\<rparr>) }"

definition addr :: "mem_heap \<Rightarrow> u32 \<Rightarrow> nat" where
  "addr h x = heap_ptr h + unat x"

definition offset :: "mem_heap \<Rightarrow> nat \<Rightarrow> u32" where
  "offset h a = of_nat (a - heap_ptr h)"

subsection \<open>Operations\<close>

text \<open>\<open>unlink a b\<close>: the block at \<open>a\<close> takes over the one behind it, at \<open>b\<close>.\<close>

definition unlink :: "nat \<Rightarrow> nat \<Rightarrow> mem_heap \<Rightarrow> mem_heap option" where
  "unlink a b h = do {
     y \<leftarrow> ld_mem (ram h) b;
     h \<leftarrow> put (mem_next_update (\<lambda>_. mem_next y)) a h;
     y \<leftarrow> ld_mem (ram h) b;
     put (mem_prev_update (\<lambda>_. offset h a)) (addr h (mem_next y)) h }"

definition plug_forward :: "nat \<Rightarrow> mem_heap \<Rightarrow> mem_heap option" where
  "plug_forward mem h = do {
     x \<leftarrow> ld_mem (ram h) mem;
     let nmem = addr h (mem_next x) in
     if mem = nmem then Some h
     else do {
       y \<leftarrow> ld_mem (ram h) nmem;
       if mem_used y = 0 \<and> nmem \<noteq> heap_end h
       then unlink mem nmem (if lfree h = nmem then h\<lparr>lfree := mem\<rparr> else h)
       else Some h } }"

definition plug_backward :: "nat \<Rightarrow> mem_heap \<Rightarrow> mem_heap option" where
  "plug_backward mem h = do {
     x \<leftarrow> ld_mem (ram h) mem;
     let pmem = addr h (mem_prev x) in
     if pmem = mem then Some h
     else do {
       y \<leftarrow> ld_mem (ram h) pmem;
       if mem_used y = 0
       then unlink pmem mem (if lfree h = mem then h\<lparr>lfree := pmem\<rparr> else h)
       else Some h } }"

definition plug_holes :: "nat \<Rightarrow> mem_heap \<Rightarrow> mem_heap option" where
  "plug_holes mem h =
     (if mem < heap_ptr h \<or> heap_end h \<le> mem then None
      else do {
        x \<leftarrow> ld_mem (ram h) mem;
        if mem_used x \<noteq> 0 then None
        else do { h \<leftarrow> plug_forward mem h; plug_backward mem h } })"

text \<open>The static variables \<^verbatim>\<open>used_mem\<close> and \<^verbatim>\<open>max_mem\<close> keep their values.\<close>

definition rt_system_heap_init :: "u32 \<Rightarrow> u32 \<Rightarrow> mem_heap \<Rightarrow> mem_heap option" where
  "rt_system_heap_init begin_addr end_addr h =
     (let begin_align = RT_ALIGN begin_addr 4; end_align = RT_ALIGN_DOWN end_addr 4 in
      if 2 * SIZEOF_STRUCT_MEM < end_align \<and> begin_align \<le> end_align - 2 * SIZEOF_STRUCT_MEM
      then
        let sz = end_align - begin_align - 2 * SIZEOF_STRUCT_MEM;
            h = h\<lparr>mem_size_aligned := sz, heap_ptr := unat begin_align\<rparr>;
            last = sz + SIZEOF_STRUCT_MEM
        in do {
          h \<leftarrow> put (\<lambda>_. \<lparr>mem_magic = HEAP_MAGIC, mem_used = 0, mem_next = last, mem_prev = 0\<rparr>)
                (heap_ptr h) h;
          h \<leftarrow> Some (h\<lparr>heap_end := addr h last\<rparr>);
          h \<leftarrow> put (\<lambda>_. \<lparr>mem_magic = HEAP_MAGIC, mem_used = 1, mem_next = last, mem_prev = last\<rparr>)
                (heap_end h) h;
          Some (h\<lparr>lfree := heap_ptr h\<rparr>) }
      else Some h)"

partial_function (option) malloc_find :: "mem_heap \<Rightarrow> u32 \<Rightarrow> u32 \<Rightarrow> u32 option option" where
  "malloc_find h sz ptr =
     (if ptr < mem_size_aligned h - sz
      then do {
        x \<leftarrow> ld_mem (ram h) (addr h ptr);
        if mem_used x = 0 \<and> sz \<le> mem_next x - (ptr + SIZEOF_STRUCT_MEM)
        then Some (Some ptr)
        else malloc_find h sz (mem_next x) }
      else Some None)"

partial_function (option) lfree_next :: "mem_heap \<Rightarrow> nat \<Rightarrow> nat option" where
  "lfree_next h a = do {
     x \<leftarrow> ld_mem (ram h) a;
     if mem_used x \<noteq> 0 \<and> a \<noteq> heap_end h then lfree_next h (addr h (mem_next x)) else Some a }"

definition add_used :: "u32 \<Rightarrow> mem_heap \<Rightarrow> mem_heap" where
  "add_used n h = (let u = used_mem h + n in
     h\<lparr>used_mem := u, max_mem := (if max_mem h < u then u else max_mem h)\<rparr>)"

text \<open>
  \<open>carve ptr sz mark\<close>: the block at offset \<open>ptr\<close> is cut behind \<open>sz\<close> bytes; the rest becomes
  a free block of its own. The first write fills the header of the rest, the second links the
  cut block to it (and marks it used in \<^verbatim>\<open>rt_malloc\<close>), the third the block behind.
\<close>

definition carve :: "u32 \<Rightarrow> u32 \<Rightarrow> (heap_mem \<Rightarrow> heap_mem) \<Rightarrow> mem_heap \<Rightarrow> mem_heap option" where
  "carve ptr sz mark h =
     (let ptr2 = ptr + SIZEOF_STRUCT_MEM + sz in
      do {
        x \<leftarrow> ld_mem (ram h) (addr h ptr);
        h \<leftarrow> put (\<lambda>_. \<lparr>mem_magic = HEAP_MAGIC, mem_used = 0, mem_next = mem_next x, mem_prev = ptr\<rparr>)
              (addr h ptr2) h;
        h \<leftarrow> put (\<lambda>b. mark (b\<lparr>mem_next := ptr2\<rparr>)) (addr h ptr) h;
        y \<leftarrow> ld_mem (ram h) (addr h ptr2);
        if mem_next y \<noteq> mem_size_aligned h + SIZEOF_STRUCT_MEM
        then put (mem_prev_update (\<lambda>_. ptr2)) (addr h (mem_next y)) h
        else Some h })"

definition malloc_mark :: "u32 \<Rightarrow> u32 \<Rightarrow> mem_heap \<Rightarrow> mem_heap option" where
  "malloc_mark sz ptr h = do {
     x \<leftarrow> ld_mem (ram h) (addr h ptr);
     if sz + SIZEOF_STRUCT_MEM + MIN_SIZE_ALIGNED \<le> mem_next x - (ptr + SIZEOF_STRUCT_MEM)
     then do {
       h \<leftarrow> carve ptr sz (mem_used_update (\<lambda>_. 1)) h;
       Some (add_used (sz + SIZEOF_STRUCT_MEM) h) }
     else do {
       h \<leftarrow> put (mem_used_update (\<lambda>_. 1)) (addr h ptr) h;
       Some (add_used (mem_next x - ptr) h) } }"

definition malloc_take :: "u32 \<Rightarrow> u32 \<Rightarrow> mem_heap \<Rightarrow> mem_heap option" where
  "malloc_take sz ptr h = do {
     h \<leftarrow> malloc_mark sz ptr h;
     h \<leftarrow> put (mem_magic_update (\<lambda>_. HEAP_MAGIC)) (addr h ptr) h;
     if addr h ptr = lfree h
     then do { a \<leftarrow> lfree_next h (lfree h); Some (h\<lparr>lfree := a\<rparr>) }
     else Some h }"

definition rt_malloc :: "u32 \<Rightarrow> mem_heap \<Rightarrow> (nat \<times> mem_heap) option" where
  "rt_malloc sz h =
     (if sz = 0 then Some (RT_NULL, h)
      else let sz = RT_ALIGN sz 4 in
      if mem_size_aligned h < sz then Some (RT_NULL, h)
      else let sz = (if sz < MIN_SIZE_ALIGNED then MIN_SIZE_ALIGNED else sz) in
      do {
        found \<leftarrow> malloc_find h sz (offset h (lfree h));
        case found of
          None \<Rightarrow> Some (RT_NULL, h)
        | Some ptr \<Rightarrow> do {
            h \<leftarrow> malloc_take sz ptr h;
            if addr h ptr + 12 + unat sz \<le> heap_end h \<and> addr h ptr AND 3 = 0
            then Some (addr h ptr + 12, h)
            else None } })"

definition rt_free :: "nat \<Rightarrow> mem_heap \<Rightarrow> mem_heap option" where
  "rt_free rmem h =
     (if rmem = RT_NULL then Some h
      else if rmem AND 3 \<noteq> 0 \<or> rmem < heap_ptr h + 12 \<or> heap_end h \<le> rmem then None
      else let mem = rmem - 12 in
      do {
        x \<leftarrow> ld_mem (ram h) mem;
        if mem_used x = 0 \<or> mem_magic x \<noteq> HEAP_MAGIC then None
        else do {
          h \<leftarrow> put (\<lambda>b. b\<lparr>mem_used := 0, mem_magic := HEAP_MAGIC\<rparr>) mem h;
          h \<leftarrow> Some (h\<lparr>lfree := (if mem < lfree h then mem else lfree h)\<rparr>);
          x \<leftarrow> ld_mem (ram h) mem;
          h \<leftarrow> Some (h\<lparr>used_mem := used_mem h - (mem_next x - offset h mem)\<rparr>);
          plug_holes mem h } })"

definition rt_realloc :: "nat \<Rightarrow> u32 \<Rightarrow> mem_heap \<Rightarrow> (nat \<times> mem_heap) option" where
  "rt_realloc rmem newsize h =
     (let newsize = RT_ALIGN newsize 4 in
      if mem_size_aligned h < newsize then Some (RT_NULL, h)
      else if newsize = 0 then do { h \<leftarrow> rt_free rmem h; Some (RT_NULL, h) }
      else if rmem = RT_NULL then rt_malloc newsize h
      else if rmem < heap_ptr h \<or> heap_end h \<le> rmem then Some (rmem, h)
      else if rmem < heap_ptr h + 12 then None
      else let mem = rmem - 12; ptr = offset h mem in
      do {
        x \<leftarrow> ld_mem (ram h) mem;
        let sz = mem_next x - ptr - SIZEOF_STRUCT_MEM in
        if sz = newsize then Some (rmem, h)
        else if newsize + SIZEOF_STRUCT_MEM + MIN_SIZE_ALIGNED < sz
        then do {
          h \<leftarrow> Some (h\<lparr>used_mem := used_mem h - (sz - newsize)\<rparr>);
          h \<leftarrow> carve ptr newsize id h;
          h \<leftarrow> plug_holes (addr h (ptr + SIZEOF_STRUCT_MEM + newsize)) h;
          Some (rmem, h) }
        else do {
          (nmem, h) \<leftarrow> rt_malloc newsize h;
          if nmem = RT_NULL then Some (RT_NULL, h)
          else do {
            m \<leftarrow> rt_memcpy (ram h) nmem rmem (if sz < newsize then sz else newsize);
            h \<leftarrow> rt_free rmem (h\<lparr>ram := m\<rparr>);
            Some (nmem, h) } } })"

definition rt_calloc :: "u32 \<Rightarrow> u32 \<Rightarrow> mem_heap \<Rightarrow> (nat \<times> mem_heap) option" where
  "rt_calloc count sz h = do {
     (p, h) \<leftarrow> rt_malloc (count * sz) h;
     if p = RT_NULL then Some (p, h)
     else do { m \<leftarrow> rt_memset (ram h) p 0 (count * sz); Some (p, h\<lparr>ram := m\<rparr>) } }"

definition rt_memory_info :: "mem_heap \<Rightarrow> u32 \<times> u32 \<times> u32" where
  "rt_memory_info h = (mem_size_aligned h, used_mem h, max_mem h)"

end
