(* ===== verification/Mem_Chain.thy ===== *)
theory Mem_Chain
  imports Mem_Heap
begin

text \<open>
  The chain of headers that the system heap keeps in its memory, seen as a list of blocks: for
  each one whether it is used and how many data bytes it has. \<open>chain\<close> relates the memory to the
  list, \<open>blocks_at\<close> a part of the memory to a part of the list; the lemmas say how the header writes of
  \<open>Mem_Heap\<close> act on the list.
\<close>

subsection \<open>Headers in memory\<close>

lemma length_hm_bytes [simp]: "length (hm_bytes b) = 12"
  by (simp add: hm_bytes_def)

lemma hm_of_bytes [simp]: "hm_of (hm_bytes b) = b"
  by (simp add: hm_of_def hm_bytes_def)

lemma ld_mem_eq: "ld_mem m a = (if mapped m a 12 then Some (hm_of (bytes m a 12)) else None)"
  by (simp add: ld_mem_def load_bytes_eq)

lemma ld_mem_mapped: "ld_mem m a = Some b \<Longrightarrow> mapped m a 12"
  by (simp add: ld_mem_eq split: if_splits)

lemma ld_mem_upd_same: "mapped m a 12 \<Longrightarrow> ld_mem (upd m a (hm_bytes b)) a = Some b"
  by (simp add: ld_mem_eq mapped_upd_mono)

lemma put_eq:
  "ld_mem (ram h) a = Some b \<Longrightarrow> put f a h = Some (h\<lparr>ram := upd (ram h) a (hm_bytes (f b))\<rparr>)"
  using ld_mem_mapped [of "ram h" a b] by (simp add: put_def store_bytes_eq)

subsection \<open>What a step leaves alone\<close>

definition changes :: "nat set \<Rightarrow> memory \<Rightarrow> memory \<Rightarrow> bool" where
  "changes S m m' \<longleftrightarrow> dom m' = dom m \<and> (\<forall>x. x \<notin> S \<longrightarrow> m' x = m x)"

abbreviation hdr :: "nat \<Rightarrow> nat set" where "hdr a \<equiv> {a ..< a + 12}"

lemma changes_refl [simp, intro]: "changes S m m"
  by (simp add: changes_def)

lemma changes_upd: "mapped m a (length bs) \<Longrightarrow> {a ..< a + length bs} \<subseteq> S \<Longrightarrow> changes S m (upd m a bs)"
  unfolding changes_def by (intro conjI dom_upd allI impI) (auto simp: upd_def)

lemma changes_hdr: "ld_mem m a = Some b \<Longrightarrow> changes (hdr a) m (upd m a (hm_bytes c))"
  by (intro changes_upd) (auto dest: ld_mem_mapped)

lemma changes_trans: "changes S m m' \<Longrightarrow> changes T m' m'' \<Longrightarrow> changes (S \<union> T) m m''"
  by (simp add: changes_def)

lemma changes_mono: "changes S m m' \<Longrightarrow> S \<subseteq> T \<Longrightarrow> changes T m m'"
  by (auto simp: changes_def)

lemma changes_mapped: "changes S m m' \<Longrightarrow> mapped m' a n = mapped m a n"
  by (simp add: changes_def mapped_def)

lemma changes_bytes: "changes S m m' \<Longrightarrow> S \<inter> {a ..< a + n} = {} \<Longrightarrow> bytes m' a n = bytes m a n"
  by (rule bytes_cong) (auto simp: changes_def disjoint_iff)

lemma changes_ld_mem: "changes S m m' \<Longrightarrow> S \<inter> hdr a = {} \<Longrightarrow> ld_mem m' a = ld_mem m a"
  by (simp add: ld_mem_eq changes_mapped changes_bytes)

subsection \<open>Lists of blocks\<close>

type_synonym block = "bool \<times> nat"

fun bsize :: "block \<Rightarrow> nat" where
  "bsize (u, n) = 12 + n"

definition total :: "block list \<Rightarrow> nat" where
  "total bs = sum_list (map bsize bs)"

fun lastpos :: "nat \<Rightarrow> nat \<Rightarrow> block list \<Rightarrow> nat" where
  "lastpos q p [] = q"
| "lastpos q p (b # bs) = lastpos p (p + bsize b) bs"

definition header :: "block \<Rightarrow> nat \<Rightarrow> nat \<Rightarrow> heap_mem" where
  "header b q p = \<lparr>mem_magic = HEAP_MAGIC, mem_used = of_bool (fst b),
                   mem_next = of_nat (p + bsize b), mem_prev = of_nat q\<rparr>"

text \<open>
  \<open>blocks_at m hp q p bs\<close>: from offset \<open>p\<close> of the heap at \<open>hp\<close> the memory holds the blocks \<open>bs\<close>; the
  block before them is at \<open>q\<close>. \<open>chain\<close>: the blocks are the last ones, and the end mark follows at
  offset \<open>e\<close> (its back link is of no account).
\<close>

fun blocks_at :: "memory \<Rightarrow> nat \<Rightarrow> nat \<Rightarrow> nat \<Rightarrow> block list \<Rightarrow> bool" where
  "blocks_at m hp q p [] \<longleftrightarrow> True"
| "blocks_at m hp q p (b # bs) \<longleftrightarrow> ld_mem m (hp + p) = Some (header b q p) \<and> blocks_at m hp p (p + bsize b) bs"

definition end_mark :: "memory \<Rightarrow> nat \<Rightarrow> nat \<Rightarrow> bool" where
  "end_mark m hp e \<longleftrightarrow> (\<exists>v. ld_mem m (hp + e) =
     Some \<lparr>mem_magic = HEAP_MAGIC, mem_used = 1, mem_next = of_nat e, mem_prev = v\<rparr>)"

definition chain :: "memory \<Rightarrow> nat \<Rightarrow> nat \<Rightarrow> nat \<Rightarrow> nat \<Rightarrow> block list \<Rightarrow> bool" where
  "chain m hp e q p bs \<longleftrightarrow> blocks_at m hp q p bs \<and> p + total bs = e \<and> end_mark m hp e"

lemma bsize_eq: "bsize b = 12 + snd b"
  by (cases b) simp

lemma header_sel [simp]:
  "mem_magic (header b q p) = HEAP_MAGIC" "mem_used (header b q p) = of_bool (fst b)"
  "mem_next (header b q p) = of_nat (p + bsize b)" "mem_prev (header b q p) = of_nat q"
  by (simp_all add: header_def)

lemma total_simps [simp]:
  "total [] = 0" "total (b # bs) = bsize b + total bs" "total (xs @ ys) = total xs + total ys"
  by (simp_all add: total_def)

lemma blocks_append [simp]:
  "blocks_at m hp q p (xs @ ys) \<longleftrightarrow> blocks_at m hp q p xs \<and> blocks_at m hp (lastpos q p xs) (p + total xs) ys"
  by (induction xs arbitrary: q p) (auto simp: add.assoc)

lemma chain_append:
  "chain m hp e q p (xs @ ys) \<longleftrightarrow> blocks_at m hp q p xs \<and> chain m hp e (lastpos q p xs) (p + total xs) ys"
  by (auto simp: chain_def add.assoc)

lemma chain_Cons:
  "chain m hp e q p (b # bs) \<longleftrightarrow>
     ld_mem m (hp + p) = Some (header b q p) \<and> chain m hp e p (p + bsize b) bs"
  by (auto simp: chain_def add.assoc)

lemma lastpos_append [simp]: "lastpos q p (xs @ ys) = lastpos (lastpos q p xs) (p + total xs) ys"
  by (induction xs arbitrary: q p) (auto simp: add.assoc)

lemma blocks_changes:
  assumes "changes S m m'" "S \<inter> {hp + p ..< hp + p + total bs} = {}"
  shows "blocks_at m' hp q p bs = blocks_at m hp q p bs"
  using assms(2)
proof (induction bs arbitrary: q p)
  case Nil
  then show ?case by simp
next
  case (Cons b bs)
  have "S \<inter> hdr (hp + p) = {}"
    using Cons.prems by (auto simp: disjoint_iff bsize_eq)
  moreover have "blocks_at m' hp p (p + bsize b) bs = blocks_at m hp p (p + bsize b) bs"
    using Cons.prems by (intro Cons.IH) (auto simp: disjoint_iff bsize_eq)
  ultimately show ?case using changes_ld_mem [OF assms(1)] by simp
qed

lemma end_mark_changes:
  "changes S m m' \<Longrightarrow> S \<inter> hdr (hp + e) = {} \<Longrightarrow> end_mark m' hp e = end_mark m hp e"
  by (simp add: end_mark_def changes_ld_mem)

lemma chain_changes:
  assumes "changes S m m'" "S \<inter> {hp + p ..< hp + p + total bs + 12} = {}"
  shows "chain m' hp e q p bs = chain m hp e q p bs"
proof -
  have "S \<inter> {hp + p ..< hp + p + total bs} = {}" using assms(2) by (auto simp: disjoint_iff)
  moreover have "S \<inter> hdr (hp + e) = {}" if "p + total bs = e"
    using assms(2) that by (auto simp: disjoint_iff)
  ultimately show ?thesis
    using blocks_changes [OF assms(1)] end_mark_changes [OF assms(1)] by (auto simp: chain_def)
qed

text \<open>Setting the back link of the block, or of the end mark, at the start of a chain.\<close>

lemma chain_relink:
  assumes "chain m hp e q p bs"
  obtains b where "ld_mem m (hp + p) = Some b"
    "chain (upd m (hp + p) (hm_bytes (b\<lparr>mem_prev := of_nat q'\<rparr>))) hp e q' p bs"
proof (cases bs)
  case Nil
  with assms obtain v where v: "ld_mem m (hp + p) =
      Some \<lparr>mem_magic = HEAP_MAGIC, mem_used = 1, mem_next = of_nat e, mem_prev = v\<rparr>" "p = e"
    by (auto simp: chain_def end_mark_def)
  then show ?thesis
    using ld_mem_upd_same [OF ld_mem_mapped [OF v(1)]] Nil
    by (intro that [OF v(1)]) (auto simp: chain_def end_mark_def)
next
  case (Cons b bs')
  with assms have b: "ld_mem m (hp + p) = Some (header b q p)"
    and rest: "chain m hp e p (p + bsize b) bs'" by (simp_all add: chain_Cons)
  let ?m = "upd m (hp + p) (hm_bytes ((header b q p)\<lparr>mem_prev := of_nat q'\<rparr>))"
  have "hdr (hp + p) \<inter> {hp + (p + bsize b) ..< hp + (p + bsize b) + total bs' + 12} = {}"
    by (auto simp: bsize_eq)
  then have "chain ?m hp e p (p + bsize b) bs'"
    using rest chain_changes [OF changes_hdr [OF b]] by blast
  moreover have h: "(header b q p)\<lparr>mem_prev := of_nat q'\<rparr> = header b q' p" by (simp add: header_def)
  ultimately have "chain ?m hp e q' p bs"
    unfolding h using Cons ld_mem_upd_same [OF ld_mem_mapped [OF b]] by (simp add: chain_Cons)
  then show ?thesis by (rule that [OF b])
qed

lemma chain_end: "chain m hp e q p bs \<Longrightarrow> p + total bs = e"
  by (simp add: chain_def)

lemma unat_offset: "p \<le> e \<Longrightarrow> e < 2 ^ 32 \<Longrightarrow> unat (of_nat p :: u32) = p"
  by (simp add: unat_of_nat take_bit_nat_eq_self)

subsection \<open>Joining two blocks, cutting one in two\<close>

lemma chain_unlink:
  assumes "chain (ram h) hp e q p (b # c # ys)" "heap_ptr h = hp" "e < 2 ^ 32"
  obtains m where "unlink (hp + p) (hp + p + bsize b) h = Some (h\<lparr>ram := m\<rparr>)"
    "chain m hp e q p ((fst b, snd b + bsize c) # ys)"
    "changes (hdr (hp + p) \<union> hdr (hp + p + bsize b + bsize c)) (ram h) m"
proof -
  let ?x = "hp + p" and ?y = "hp + p + bsize b" and ?r = "p + bsize b + bsize c"
  let ?b = "(fst b, snd b + bsize c)"
  have x: "ld_mem (ram h) ?x = Some (header b q p)"
    and y: "ld_mem (ram h) ?y = Some (header c p (p + bsize b))"
    and rest: "chain (ram h) hp e (p + bsize b) ?r ys"
    using assms(1) by (simp_all add: chain_Cons add.assoc)
  let ?m = "upd (ram h) ?x (hm_bytes (header ?b q p))"
  have b: "(header b q p)\<lparr>mem_next := of_nat ?r\<rparr> = header ?b q p"
    by (simp add: header_def bsize_eq algebra_simps)
  have nx: "mem_next (header c p (p + bsize b)) = of_nat ?r" by simp
  have ch: "changes (hdr ?x) (ram h) ?m" by (rule changes_hdr [OF x])
  have y': "ld_mem ?m ?y = Some (header c p (p + bsize b))"
    using changes_ld_mem [OF ch, of ?y] y by (auto simp: bsize_eq disjoint_iff)
  have "hdr ?x \<inter> {hp + ?r ..< hp + ?r + total ys + 12} = {}"
    by (auto simp: bsize_eq)
  then have rest': "chain ?m hp e (p + bsize b) ?r ys"
    using rest chain_changes [OF ch] by blast
  from chain_relink [OF rest', of p] obtain w where w: "ld_mem ?m (hp + ?r) = Some w"
    "chain (upd ?m (hp + ?r) (hm_bytes (w\<lparr>mem_prev := of_nat p\<rparr>))) hp e p ?r ys" .
  let ?n = "upd ?m (hp + ?r) (hm_bytes (w\<lparr>mem_prev := of_nat p\<rparr>))"
  have r: "unat (of_nat ?r :: u32) = ?r"
    using chain_end [OF rest] assms(3) by (intro unat_offset [of _ e]) auto
  have "unlink ?x ?y h = Some (h\<lparr>ram := ?n\<rparr>)"
    using r by (simp add: unlink_def y put_eq [OF x] nx b y' put_eq w(1) addr_def offset_def assms(2)
        del: of_nat_add header_sel)
  moreover have ch2: "changes (hdr (hp + ?r)) ?m ?n" by (rule changes_hdr [OF w(1)])
  moreover have "ld_mem ?n ?x = Some (header ?b q p)"
    using changes_ld_mem [OF ch2, of ?x] ld_mem_upd_same [OF ld_mem_mapped [OF x]]
    by (auto simp: bsize_eq disjoint_iff)
  ultimately show ?thesis
    using w(2) changes_trans [OF ch ch2]
    by (intro that [of ?n]) (simp_all add: chain_Cons bsize_eq algebra_simps)
qed

text \<open>
  \<open>carve\<close> on a block that is at least a header larger than asked for. The caller's \<open>mark\<close> turns
  the header into that of a block that is used or not.
\<close>

lemma chain_carve:
  assumes "chain (ram h) hp e q p ((u, n) # ys)" "heap_ptr h = hp" "e < 2 ^ 32" "k + 12 \<le> n"
    and e: "e = unat (mem_size_aligned h) + 12"
    and map: "mapped (ram h) (hp + p) (12 + n)"
    and mark: "mark ((header (u, n) q p)\<lparr>mem_next := of_nat (p + 12 + k)\<rparr>) = header (v, k) q p"
  obtains m where "carve (of_nat p) (of_nat k) mark h = Some (h\<lparr>ram := m\<rparr>)"
    "chain m hp e q p ((v, k) # (False, n - k - 12) # ys)"
    "changes (hdr (hp + p) \<union> hdr (hp + p + 12 + k) \<union> hdr (hp + p + 12 + n)) (ram h) m"
proof -
  let ?x = "hp + p" and ?z = "p + 12 + k" and ?r = "p + 12 + n"
  define c where "c = (False, n - k - 12)"
  have cs: "fst c = False" "bsize c = n - k" using assms(4) by (simp_all add: c_def)
  have x: "ld_mem (ram h) ?x = Some (header (u, n) q p)"
    and rest: "chain (ram h) hp e p ?r ys"
    using assms(1) by (simp_all add: chain_Cons add.assoc)
  have le: "?r \<le> e" "?z \<le> e" "p \<le> e" using chain_end [OF rest] assms(4) by auto
  note un = unat_offset [OF le(1) assms(3)] unat_offset [OF le(2) assms(3)] unat_offset [OF le(3) assms(3)]
  have mz: "mapped (ram h) (hp + ?z) 12"
    using assms(4) by (intro mapped_part [OF map]) auto
  then obtain g where g: "ld_mem (ram h) (hp + ?z) = Some g" by (simp add: ld_mem_eq)
  let ?m = "upd (ram h) (hp + ?z) (hm_bytes (header c p ?z))"
  have hc: "\<lparr>mem_magic = HEAP_MAGIC, mem_used = 0, mem_next = mem_next (header (u, n) q p), mem_prev = of_nat p\<rparr>
      = header c p ?z"
    using assms(4) by (simp add: header_def cs add.assoc del: of_nat_add)
  have ch: "changes (hdr (hp + ?z)) (ram h) ?m" by (rule changes_hdr [OF g])
  have x': "ld_mem ?m ?x = Some (header (u, n) q p)"
    using changes_ld_mem [OF ch, of ?x] x by (auto simp: disjoint_iff)
  let ?n = "upd ?m ?x (hm_bytes (header (v, k) q p))"
  have ch2: "changes (hdr ?x) ?m ?n" by (rule changes_hdr [OF x'])
  have z: "ld_mem ?n (hp + ?z) = Some (header c p ?z)"
    using changes_ld_mem [OF ch2, of "hp + ?z"] ld_mem_upd_same [OF mz] by (auto simp: disjoint_iff)
  have cc: "changes (hdr ?x \<union> hdr (hp + ?z)) (ram h) ?n"
    using changes_trans [OF ch ch2] by (simp add: Un_commute)
  have "(hdr ?x \<union> hdr (hp + ?z)) \<inter> {hp + ?r ..< hp + ?r + total ys + 12} = {}"
    using assms(4) by auto
  then have rest': "chain ?n hp e p ?r ys"
    using rest chain_changes [OF cc] by blast
  have next_c: "?z + bsize c = ?r" using assms(4) by (simp add: cs)
  have nx: "mem_next (header c p ?z) = of_nat ?r"
    by (simp only: header_sel next_c)
  have zz: "of_nat p + 12 + of_nat k = (of_nat ?z :: u32)" by simp
  have em: "(of_nat e :: u32) = mem_size_aligned h + 12" by (simp add: e)
  have carve: "carve (of_nat p) (of_nat k) mark h =
      (if (of_nat ?r :: u32) \<noteq> mem_size_aligned h + 12
       then put (mem_prev_update (\<lambda>_. of_nat ?z)) (hp + ?r) (h\<lparr>ram := ?n\<rparr>) else Some (h\<lparr>ram := ?n\<rparr>))"
    by (simp add: carve_def Let_def addr_def assms(2) zz un x hc g x' put_eq mark z nx
        del: of_nat_add header_sel)
  have x2: "ld_mem ?n ?x = Some (header (v, k) q p)"
    by (rule ld_mem_upd_same [OF ld_mem_mapped [OF x']])
  show ?thesis
  proof (cases ys)
    case Nil
    then have "chain ?n hp e q p ((v, k) # c # ys)"
      using rest' x2 z next_c by (simp add: chain_Cons) (simp add: chain_def add.assoc)
    moreover have "carve (of_nat p) (of_nat k) mark h = Some (h\<lparr>ram := ?n\<rparr>)"
    proof -
      have "?r = e" using Nil chain_end [OF rest] by simp
      then have "(of_nat ?r :: u32) = mem_size_aligned h + 12" using em by (simp only:)
      then show ?thesis by (simp only: carve simp_thms if_False)
    qed
    moreover have "changes (hdr (hp + p) \<union> hdr (hp + p + 12 + k) \<union> hdr (hp + p + 12 + n)) (ram h) ?n"
      by (rule changes_mono [OF cc]) (auto simp: add.assoc)
    ultimately show ?thesis using that unfolding c_def by blast
  next
    case (Cons d ds)
    then have "?r < e" using chain_end [OF rest] by (simp add: bsize_eq)
    then have "unat (of_nat ?r :: u32) \<noteq> unat (of_nat e :: u32)"
      using assms(3) un(1) unat_offset [of e e] by simp
    then have ne: "(of_nat ?r :: u32) \<noteq> mem_size_aligned h + 12" using em by metis
    from chain_relink [OF rest', of ?z] obtain w where w: "ld_mem ?n (hp + ?r) = Some w"
      "chain (upd ?n (hp + ?r) (hm_bytes (w\<lparr>mem_prev := of_nat ?z\<rparr>))) hp e ?z ?r ys" .
    let ?o = "upd ?n (hp + ?r) (hm_bytes (w\<lparr>mem_prev := of_nat ?z\<rparr>))"
    have ch3: "changes (hdr (hp + ?r)) ?n ?o" by (rule changes_hdr [OF w(1)])
    have "carve (of_nat p) (of_nat k) mark h = Some (h\<lparr>ram := ?o\<rparr>)"
      using carve ne w(1) by (simp add: put_eq del: of_nat_add)
    moreover have "ld_mem ?o ?x = Some (header (v, k) q p)" "ld_mem ?o (hp + ?z) = Some (header c p ?z)"
      using changes_ld_mem [OF ch3] x2 z assms(4) by (auto simp: disjoint_iff)
    then have "chain ?o hp e q p ((v, k) # c # ys)"
      using w(2) next_c by (simp add: chain_Cons add.assoc)
    moreover have "changes (hdr (hp + p) \<union> hdr (hp + p + 12 + k) \<union> hdr (hp + p + 12 + n)) (ram h) ?o"
      using changes_trans [OF cc ch3] by (simp add: add.assoc)
    ultimately show ?thesis using that unfolding c_def by blast
  qed
qed

end
