(* ===== verification/Mem_Alloc.thy ===== *)
theory Mem_Alloc
  imports Mem_Chain
begin

text \<open>
  What the system heap promises. \<open>heap_holds h bs\<close> is the invariant: the chain in memory is the
  list \<open>bs\<close>, no two free blocks are neighbours, \<open>used_mem\<close> counts the used blocks with their
  headers, and \<open>lfree\<close> is a free block or the end mark. \<open>allocs\<close> is what the owners of blocks see:
  the address and the size of every used block. The lemmas \<open>rt_malloc_ok\<close>, \<open>rt_free_ok\<close> and so on
  give the effect of each operation on \<open>bs\<close>, on \<open>allocs\<close> and on the bytes in used blocks.
\<close>

subsection \<open>The invariant\<close>

fun allocs :: "nat \<Rightarrow> block list \<Rightarrow> (nat \<times> nat) set" where
  "allocs a [] = {}"
| "allocs a (b # bs) = (if fst b then {(a + 12, snd b)} else {}) \<union> allocs (a + bsize b) bs"

fun free_at :: "nat \<Rightarrow> block list \<Rightarrow> nat set" where
  "free_at a [] = {}"
| "free_at a (b # bs) = (if fst b then {} else {a}) \<union> free_at (a + bsize b) bs"

definition data :: "nat \<Rightarrow> block list \<Rightarrow> nat set" where
  "data a bs = (\<Union>(s, n) \<in> allocs a bs. {s ..< s + n})"

definition used_total :: "block list \<Rightarrow> nat" where
  "used_total bs = total (filter fst bs)"

definition heap_core :: "mem_heap \<Rightarrow> block list \<Rightarrow> bool" where
  "heap_core h bs \<longleftrightarrow>
     chain (ram h) (heap_ptr h) (total bs) 0 0 bs \<and> bs \<noteq> [] \<and>
     total bs = unat (mem_size_aligned h) + 12 \<and> heap_end h = heap_ptr h + total bs \<and>
     heap_ptr h + total bs + 12 < 2 ^ 32 \<and> mapped (ram h) (heap_ptr h) (total bs + 12) \<and>
     4 dvd heap_ptr h \<and> (\<forall>b \<in> set bs. 4 dvd snd b)"

definition lfree_ok :: "mem_heap \<Rightarrow> block list \<Rightarrow> bool" where
  "lfree_ok h bs \<longleftrightarrow> lfree h \<in> insert (heap_end h) (free_at (heap_ptr h) bs)"

definition lfree_lowest :: "mem_heap \<Rightarrow> block list \<Rightarrow> bool" where
  "lfree_lowest h bs \<longleftrightarrow> (\<forall>a \<in> free_at (heap_ptr h) bs. lfree h \<le> a)"

definition no_gaps :: "block list \<Rightarrow> bool" where
  "no_gaps bs \<longleftrightarrow> successively (\<lambda>b c. fst b \<or> fst c) bs"

definition counted :: "mem_heap \<Rightarrow> block list \<Rightarrow> bool" where
  "counted h bs \<longleftrightarrow> unat (used_mem h) = used_total bs \<and> used_mem h \<le> max_mem h"

definition heap_holds :: "mem_heap \<Rightarrow> block list \<Rightarrow> bool" where
  "heap_holds h bs \<longleftrightarrow> heap_core h bs \<and> lfree_ok h bs \<and> no_gaps bs \<and> counted h bs \<and>
     (\<forall>(s, n) \<in> allocs (heap_ptr h) bs. 0 < n)"

lemma allocs_append [simp]: "allocs a (xs @ ys) = allocs a xs \<union> allocs (a + total xs) ys"
  by (induction xs arbitrary: a) (auto simp: add.assoc)

lemma free_at_append [simp]: "free_at a (xs @ ys) = free_at a xs \<union> free_at (a + total xs) ys"
  by (induction xs arbitrary: a) (auto simp: add.assoc)

lemma data_append [simp]: "data a (xs @ ys) = data a xs \<union> data (a + total xs) ys"
  by (simp add: data_def)

lemma data_simps [simp]:
  "data a [] = {}"
  "data a (b # bs) = (if fst b then {a + 12 ..< a + 12 + snd b} else {}) \<union> data (a + bsize b) bs"
  by (auto simp: data_def)

lemma used_total_simps [simp]:
  "used_total [] = 0" "used_total (b # bs) = (if fst b then bsize b else 0) + used_total bs"
  "used_total (xs @ ys) = used_total xs + used_total ys"
  by (simp_all add: used_total_def)

lemma total_0: "total bs = 0 \<longleftrightarrow> bs = []"
  by (cases bs) (auto simp: bsize_eq)

lemma used_le_total: "used_total bs \<le> total bs"
  by (induction bs) auto

lemma free_at_range: "x \<in> free_at a bs \<Longrightarrow> a \<le> x \<and> x + 12 \<le> a + total bs"
  by (induction bs arbitrary: a) (fastforce simp: bsize_eq split: if_splits)+

lemma allocs_range: "(s, n) \<in> allocs a bs \<Longrightarrow> a + 12 \<le> s \<and> s + n \<le> a + total bs"
  by (induction bs arbitrary: a) (fastforce simp: bsize_eq split: if_splits)+

lemma data_range: "x \<in> data a bs \<Longrightarrow> a + 12 \<le> x \<and> x < a + total bs"
  by (force simp: data_def dest: allocs_range)

lemma allocs_split:
  assumes "(s, n) \<in> allocs a bs"
  obtains xs ys where "bs = xs @ (True, n) # ys" "s = a + total xs + 12"
proof -
  have "\<exists>xs ys. bs = xs @ (True, n) # ys \<and> s = a + total xs + 12"
    using assms
  proof (induction bs arbitrary: a)
    case Nil
    then show ?case by simp
  next
    case (Cons b bs)
    show ?case
    proof (cases "fst b \<and> (s, n) = (a + 12, snd b)")
      case True
      then have "b # bs = [] @ (True, n) # bs \<and> s = a + total [] + 12" by (cases b) auto
      then show ?thesis by blast
    next
      case False
      then have "(s, n) \<in> allocs (a + bsize b) bs" using Cons.prems by (auto split: if_splits)
      from Cons.IH [OF this] obtain xs ys
        where "bs = xs @ (True, n) # ys" "s = a + bsize b + total xs + 12" by blast
      then have "b # bs = (b # xs) @ (True, n) # ys \<and> s = a + total (b # xs) + 12" by simp
      then show ?thesis by blast
    qed
  qed
  then show ?thesis using that by blast
qed

lemma free_at_iff:
  "x \<in> free_at a bs \<longleftrightarrow> (\<exists>xs n ys. bs = xs @ (False, n) # ys \<and> x = a + total xs)"
proof (induction bs arbitrary: a)
  case Nil
  then show ?case by simp
next
  case (Cons b bs)
  show ?case
  proof
    assume "x \<in> free_at a (b # bs)"
    then consider "\<not> fst b" "x = a" | "x \<in> free_at (a + bsize b) bs" by (auto split: if_splits)
    then show "\<exists>xs n ys. b # bs = xs @ (False, n) # ys \<and> x = a + total xs"
    proof cases
      case 1
      then have "b # bs = [] @ (False, snd b) # bs \<and> x = a + total []" by (cases b) auto
      then show ?thesis by blast
    next
      case 2
      then obtain xs n ys where "bs = xs @ (False, n) # ys" "x = a + bsize b + total xs"
        using Cons.IH by blast
      then have "b # bs = (b # xs) @ (False, n) # ys \<and> x = a + total (b # xs)" by simp
      then show ?thesis by blast
    qed
  next
    assume "\<exists>xs n ys. b # bs = xs @ (False, n) # ys \<and> x = a + total xs"
    then obtain xs n ys where "b # bs = xs @ (False, n) # ys" and x: "x = a + total xs" by blast
    then have "free_at a (b # bs) = free_at a xs \<union> free_at (a + total xs) ((False, n) # ys)"
      by (simp only: free_at_append)
    then show "x \<in> free_at a (b # bs)" using x by simp
  qed
qed

lemma no_gaps_simps [simp]:
  "no_gaps []" "no_gaps [b]" "no_gaps (b # c # bs) \<longleftrightarrow> (fst b \<or> fst c) \<and> no_gaps (c # bs)"
  by (simp_all add: no_gaps_def)

lemma no_gaps_append:
  "no_gaps (xs @ ys) \<longleftrightarrow>
     no_gaps xs \<and> no_gaps ys \<and> (xs = [] \<or> ys = [] \<or> fst (last xs) \<or> fst (hd ys))"
  unfolding no_gaps_def successively_append_iff by blast

lemma no_gaps_Cons: "no_gaps (b # bs) \<longleftrightarrow> no_gaps bs \<and> (bs = [] \<or> fst b \<or> fst (hd bs))"
  by (cases bs) auto

subsection \<open>Joining neighbours\<close>

lemma core_upd [simp]:
  "heap_core (h\<lparr>lfree := a\<rparr>) bs = heap_core h bs" "heap_core (h\<lparr>used_mem := u\<rparr>) bs = heap_core h bs"
  "heap_core (h\<lparr>max_mem := u\<rparr>) bs = heap_core h bs"
  by (simp_all add: heap_core_def)

lemma addr_upd [simp]:
  "offset (h\<lparr>ram := m\<rparr>) = offset h" "addr (h\<lparr>ram := m\<rparr>) = addr h"
  "offset (h\<lparr>lfree := a\<rparr>) = offset h" "addr (h\<lparr>lfree := a\<rparr>) = addr h"
  "offset (h\<lparr>used_mem := u\<rparr>) = offset h" "addr (h\<lparr>used_mem := u\<rparr>) = addr h"
  "offset (h\<lparr>max_mem := u\<rparr>) = offset h" "addr (h\<lparr>max_mem := u\<rparr>) = addr h"
  by (auto simp: offset_def addr_def fun_eq_iff)

lemma core_chain:
  assumes "heap_core h (xs @ ys)"
  shows "blocks_at (ram h) (heap_ptr h) 0 0 xs"
    "chain (ram h) (heap_ptr h) (total xs + total ys) (lastpos 0 0 xs) (total xs) ys"
    "total xs + total ys < 2 ^ 32"
  using assms by (auto simp: heap_core_def chain_append)

text \<open>A change of the memory from offset \<open>total xs\<close> on that leaves a chain there.\<close>

lemma core_replace:
  assumes "heap_core h (xs @ ys)" "changes S (ram h) m" "total zs = total ys"
    and "S \<inter> {heap_ptr h ..< heap_ptr h + total xs} = {}"
    and "chain m (heap_ptr h) (total xs + total ys) (lastpos 0 0 xs) (total xs) zs"
    and "zs \<noteq> [] \<or> xs \<noteq> []" "\<forall>b \<in> set zs. 4 dvd snd b"
  shows "heap_core (h\<lparr>ram := m\<rparr>) (xs @ zs)"
proof -
  have "blocks_at m (heap_ptr h) 0 0 xs"
    using blocks_changes [OF assms(2), of "heap_ptr h" 0 xs 0] assms(4) core_chain(1) [OF assms(1)] by simp
  moreover have "4 dvd snd b" if "b \<in> set xs" for b
    using assms(1) that by (auto simp: heap_core_def)
  ultimately show ?thesis
    using assms changes_mapped [OF assms(2)] by (auto simp: heap_core_def chain_append)
qed

lemma core_unlink:
  assumes "heap_core h (xs @ b # c # ys)"
  obtains m where
    "unlink (heap_ptr h + total xs) (heap_ptr h + total xs + bsize b) h = Some (h\<lparr>ram := m\<rparr>)"
    "heap_core (h\<lparr>ram := m\<rparr>) (xs @ (fst b, snd b + bsize c) # ys)"
    "changes (hdr (heap_ptr h + total xs) \<union> hdr (heap_ptr h + total xs + bsize b + bsize c)) (ram h) m"
proof -
  note ch = core_chain [OF assms]
  from chain_unlink [OF ch(2) refl ch(3)] obtain m where m:
    "unlink (heap_ptr h + total xs) (heap_ptr h + total xs + bsize b) h = Some (h\<lparr>ram := m\<rparr>)"
    "chain m (heap_ptr h) (total xs + total (b # c # ys)) (lastpos 0 0 xs) (total xs)
       ((fst b, snd b + bsize c) # ys)"
    "changes (hdr (heap_ptr h + total xs) \<union> hdr (heap_ptr h + total xs + bsize b + bsize c)) (ram h) m" .
  have "4 dvd snd b" "4 dvd snd c" "\<forall>d \<in> set ys. 4 dvd snd d"
    using assms by (auto simp: heap_core_def)
  then have "heap_core (h\<lparr>ram := m\<rparr>) (xs @ (fst b, snd b + bsize c) # ys)"
    using assms m by (intro core_replace [OF _ m(3)]) (auto simp: bsize_eq)
  then show ?thesis using m by (intro that)
qed


text \<open>The bytes of the heap that belong to the allocator: all but the data of used blocks.\<close>

definition own :: "mem_heap \<Rightarrow> block list \<Rightarrow> nat set" where
  "own h bs = {heap_ptr h ..< heap_end h + 12} - data (heap_ptr h) bs"

fun join_next :: "nat \<Rightarrow> block list \<Rightarrow> block list" where
  "join_next n ((False, m) # ys) = (False, n + (12 + m)) # ys"
| "join_next n ys = (False, n) # ys"

definition plug :: "block list \<Rightarrow> nat \<Rightarrow> block list \<Rightarrow> block list" where
  "plug xs n ys =
     (if xs \<noteq> [] \<and> \<not> fst (last xs)
      then butlast xs @ (False, snd (last xs) + bsize (hd (join_next n ys))) # tl (join_next n ys)
      else xs @ join_next n ys)"

lemma join_next_cases:
  obtains m ys' where "ys = (False, m) # ys'" "join_next n ys = (False, n + (12 + m)) # ys'"
  | "join_next n ys = (False, n) # ys" "ys = [] \<or> fst (hd ys)"
  by (cases "(n, ys)" rule: join_next.cases) auto

lemma join_next_alloc [simp]:
  "allocs a (join_next n ys) = allocs a ((False, n) # ys)"
  "total (join_next n ys) = 12 + n + total ys" "used_total (join_next n ys) = used_total ys"
  by (cases "(n, ys)" rule: join_next.cases; simp add: algebra_simps)+

lemma plug_cases:
  obtains zs i where "xs = zs @ [(False, i)]"
    "plug xs n ys = zs @ (False, i + bsize (hd (join_next n ys))) # tl (join_next n ys)"
  | "plug xs n ys = xs @ join_next n ys" "xs = [] \<or> fst (last xs)"
proof (cases "xs \<noteq> [] \<and> \<not> fst (last xs)")
  case True
  then have "xs = butlast xs @ [(False, snd (last xs))]"
    by (metis append_butlast_last_id prod.collapse)
  with True show ?thesis by (intro that(1)) (simp_all add: plug_def)
next
  case False
  then show ?thesis by (intro that(2)) (auto simp: plug_def)
qed

lemma join_next_Cons: "join_next n ys = (False, snd (hd (join_next n ys))) # tl (join_next n ys)"
  by (cases "(n, ys)" rule: join_next.cases) simp_all

lemma plug_alloc [simp]:
  "allocs a (plug xs n ys) = allocs a (xs @ (False, n) # ys)"
  "total (plug xs n ys) = total xs + (12 + n + total ys)"
  "used_total (plug xs n ys) = used_total xs + used_total ys"
proof -
  have "allocs a (plug xs n ys) = allocs a (xs @ (False, n) # ys) \<and>
      total (plug xs n ys) = total xs + (12 + n + total ys) \<and>
      used_total (plug xs n ys) = used_total xs + used_total ys"
  proof (cases xs n ys rule: plug_cases)
    case (1 zs i)
    then show ?thesis
      by (cases "(n, ys)" rule: join_next.cases) (simp_all add: algebra_simps)
  next
    case 2
    then show ?thesis by simp
  qed
  then show "allocs a (plug xs n ys) = allocs a (xs @ (False, n) # ys)"
    "total (plug xs n ys) = total xs + (12 + n + total ys)"
    "used_total (plug xs n ys) = used_total xs + used_total ys" by blast+
qed

lemma no_gaps_join_next: "no_gaps ys \<Longrightarrow> no_gaps (join_next n ys)"
  by (cases "(n, ys)" rule: join_next.cases) (auto simp: no_gaps_Cons)

lemma no_gaps_plug:
  assumes "no_gaps xs" "no_gaps ys"
  shows "no_gaps (plug xs n ys)"
proof (cases xs n ys rule: plug_cases)
  case (1 zs i)
  then have z: "no_gaps zs" "zs = [] \<or> fst (last zs)" using assms(1) by (auto simp: no_gaps_append)
  have "no_gaps (join_next n ys)" by (rule no_gaps_join_next [OF assms(2)])
  then have "no_gaps ((False, i + bsize (hd (join_next n ys))) # tl (join_next n ys))"
    by (subst (asm) join_next_Cons) (simp add: no_gaps_Cons)
  with 1 z show ?thesis by (auto simp: no_gaps_append)
next
  case 2
  then show ?thesis using assms no_gaps_join_next [OF assms(2)] by (auto simp: no_gaps_append)
qed

lemma own_hdr:
  assumes "heap_end h = heap_ptr h + total (xs @ ys)"
  shows "hdr (heap_ptr h + total xs) \<subseteq> own h (xs @ ys)"
proof -
  have "x \<notin> data (heap_ptr h + total xs) ys" if "x < heap_ptr h + total xs + 12" for x
    using that data_range [of x "heap_ptr h + total xs" ys] by auto
  moreover have "x \<notin> data (heap_ptr h) xs" if "heap_ptr h + total xs \<le> x" for x
    using that data_range [of x "heap_ptr h" xs] by auto
  ultimately show ?thesis using assms by (auto simp: own_def)
qed

lemma own_end: "heap_end h = heap_ptr h + total bs \<Longrightarrow> hdr (heap_end h) \<subseteq> own h bs"
  using own_hdr [of h bs "[]"] by simp

lemma core_geo:
  assumes "heap_core h bs"
  shows "heap_end h = heap_ptr h + total bs" "4 dvd heap_ptr h" "heap_ptr h + total bs + 12 < 2 ^ 32"
  using assms by (auto simp: heap_core_def)

lemma core_header:
  assumes "heap_core h (xs @ b # ys)"
  shows "ld_mem (ram h) (heap_ptr h + total xs) = Some (header b (lastpos 0 0 xs) (total xs))"
    "total xs + bsize b < 2 ^ 32" "unat (of_nat (total xs + bsize b) :: u32) = total xs + bsize b"
proof -
  show "ld_mem (ram h) (heap_ptr h + total xs) = Some (header b (lastpos 0 0 xs) (total xs))"
    using core_chain(2) [OF assms] by (simp add: chain_Cons)
  show *: "total xs + bsize b < 2 ^ 32" using core_chain(3) [OF assms] by simp
  then show "unat (of_nat (total xs + bsize b) :: u32) = total xs + bsize b"
    by (intro unat_offset [OF order_refl])
qed

lemma core_next:
  assumes "heap_core h (xs @ b # ys)"
  shows "addr h (mem_next (header b (lastpos 0 0 xs) (total xs))) = heap_ptr h + total (xs @ [b])"
  using core_header(3) [OF assms] by (simp add: addr_def del: of_nat_add)

lemma core_end:
  assumes "heap_core h bs"
  obtains v where "ld_mem (ram h) (heap_end h) =
    Some \<lparr>mem_magic = HEAP_MAGIC, mem_used = 1, mem_next = of_nat (total bs), mem_prev = v\<rparr>"
  using assms by (auto simp: heap_core_def chain_def end_mark_def)

lemma plug_forward_eq:
  assumes "ld_mem (ram h) a = Some x" "addr h (mem_next x) = b" "a \<noteq> b" "ld_mem (ram h) b = Some y"
  shows "plug_forward a h = (if mem_used y = 0 \<and> b \<noteq> heap_end h
    then unlink a b (h\<lparr>lfree := if lfree h = b then a else lfree h\<rparr>) else Some h)"
  using assms by (simp add: plug_forward_def Let_def)

lemma plug_backward_eq:
  assumes "ld_mem (ram h) a = Some x" "addr h (mem_prev x) = b" "b \<noteq> a" "ld_mem (ram h) b = Some y"
  shows "plug_backward a h = (if mem_used y = 0
    then unlink b a (h\<lparr>lfree := if lfree h = a then b else lfree h\<rparr>) else Some h)"
  using assms by (simp add: plug_backward_def Let_def)

lemma plug_forward_ok:
  assumes core: "heap_core h (xs @ (False, n) # ys)" and lf: "lfree_ok h (xs @ (False, n) # ys)"
  obtains m a where "plug_forward (heap_ptr h + total xs) h = Some (h\<lparr>ram := m, lfree := a\<rparr>)"
    "heap_core (h\<lparr>ram := m, lfree := a\<rparr>) (xs @ join_next n ys)"
    "lfree_ok (h\<lparr>ram := m, lfree := a\<rparr>) (xs @ join_next n ys)"
    "lfree_lowest h (xs @ (False, n) # ys) \<Longrightarrow> lfree_lowest (h\<lparr>ram := m, lfree := a\<rparr>) (xs @ join_next n ys)"
    "changes (own h (xs @ (False, n) # ys)) (ram h) m" "lfree h = heap_end h \<Longrightarrow> a = heap_end h"
proof -
  let ?bs = "xs @ (False, n) # ys" and ?a = "heap_ptr h + total xs"
  note x = core_header(1) [OF core] and nx = core_next [OF core]
  show ?thesis
  proof (cases ys n rule: join_next_cases)
    case (1 m ys')
    let ?l = "if lfree h = ?a + (12 + n) then ?a else lfree h"
    let ?h = "h\<lparr>lfree := ?l\<rparr>"
    have core': "heap_core h ((xs @ [(False, n)]) @ (False, m) # ys')"
      and core2: "heap_core ?h (xs @ (False, n) # (False, m) # ys')" using core 1 by simp_all
    from core_unlink [OF core2] obtain k where k:
      "unlink ?a (?a + (12 + n)) ?h = Some (?h\<lparr>ram := k\<rparr>)"
      "heap_core (?h\<lparr>ram := k\<rparr>) (xs @ join_next n ys)"
      "changes (hdr ?a \<union> hdr (?a + (12 + n) + (12 + m))) (ram h) k"
      using 1 by auto
    have y: "ld_mem (ram h) (?a + (12 + n)) = Some (header (False, m) (total xs) (total xs + (12 + n)))"
      using core_header(1) [OF core'] by (simp add: add.assoc)
    have ne: "?a + (12 + n) \<noteq> heap_end h" using core_geo(1) [OF core] 1 by simp
    have eq: "?h\<lparr>ram := k\<rparr> = h\<lparr>ram := k, lfree := ?l\<rparr>" by simp
    have "plug_forward ?a h = Some (?h\<lparr>ram := k\<rparr>)"
      using k(1) ne plug_forward_eq [OF x nx, of "header (False, m) (total xs) (total xs + (12 + n))"] y
      by (simp add: add.assoc)
    moreover have "lfree_ok (?h\<lparr>ram := k\<rparr>) (xs @ join_next n ys)"
      using lf 1 by (auto simp: lfree_ok_def add.assoc)
    moreover have "lfree_lowest (?h\<lparr>ram := k\<rparr>) (xs @ join_next n ys)"
      if "lfree_lowest h (xs @ (False, n) # ys)"
      using that 1 by (auto simp: lfree_lowest_def add.assoc)
    moreover have "changes (own h ?bs) (ram h) k"
    proof (rule changes_mono [OF k(3)], intro Un_least)
      show "hdr ?a \<subseteq> own h ?bs" by (rule own_hdr) (rule core_geo(1) [OF core])
      show "hdr (?a + (12 + n) + (12 + m)) \<subseteq> own h ?bs"
        using own_hdr [of h "xs @ [(False, n), (False, m)]" ys'] core_geo(1) [OF core] 1
        by (simp add: add.assoc)
    qed
    moreover have "?l = heap_end h" if "lfree h = heap_end h" using that ne by simp
    ultimately show ?thesis using k(2) that [of ?l k] unfolding eq by blast
  next
    case 2
    have "plug_forward ?a h = Some (h\<lparr>ram := ram h, lfree := lfree h\<rparr>)"
    proof (cases ys)
      case Nil
      obtain v where "ld_mem (ram h) (heap_end h) =
          Some \<lparr>mem_magic = HEAP_MAGIC, mem_used = 1, mem_next = of_nat (total ?bs), mem_prev = v\<rparr>"
        by (rule core_end [OF core])
      moreover have "heap_end h = ?a + (12 + n)" using core_geo(1) [OF core] Nil by simp
      ultimately show ?thesis using plug_forward_eq [OF x nx] by (simp add: add.assoc)
    next
      case (Cons b zs)
      then have "heap_core h ((xs @ [(False, n)]) @ b # zs)" "fst b" using core 2 by simp_all
      then show ?thesis using core_header(1) [of h "xs @ [(False, n)]" b zs] plug_forward_eq [OF x nx]
        by (simp add: add.assoc)
    qed
    then show ?thesis using 2 core lf by (intro that [of "lfree h" "ram h"]) simp_all
  qed
qed

lemma plug_backward_ok:
  assumes core: "heap_core h (xs @ (False, n) # ys)" and lf: "lfree_ok h (xs @ (False, n) # ys)"
  defines "bs \<equiv> (if xs \<noteq> [] \<and> \<not> fst (last xs)
      then butlast xs @ (False, snd (last xs) + (12 + n)) # ys else xs @ (False, n) # ys)"
  obtains m a where "plug_backward (heap_ptr h + total xs) h = Some (h\<lparr>ram := m, lfree := a\<rparr>)"
    "heap_core (h\<lparr>ram := m, lfree := a\<rparr>) bs" "lfree_ok (h\<lparr>ram := m, lfree := a\<rparr>) bs"
    "lfree_lowest h (xs @ (False, n) # ys) \<Longrightarrow> lfree_lowest (h\<lparr>ram := m, lfree := a\<rparr>) bs"
    "changes (own h (xs @ (False, n) # ys)) (ram h) m" "lfree h = heap_end h \<Longrightarrow> a = heap_end h"
proof -
  let ?cs = "xs @ (False, n) # ys" and ?a = "heap_ptr h + total xs"
  note x = core_header(1) [OF core]
  show ?thesis
  proof (cases xs rule: rev_cases)
    case Nil
    then have "plug_backward ?a h = Some (h\<lparr>ram := ram h, lfree := lfree h\<rparr>)"
      using x by (simp add: plug_backward_def addr_def)
    then show ?thesis using Nil core lf by (intro that [of "lfree h" "ram h"]) (simp_all add: bs_def)
  next
    case (snoc zs b)
    let ?b = "heap_ptr h + total zs"
    have core': "heap_core h (zs @ b # (False, n) # ys)" using core snoc by simp
    have y: "ld_mem (ram h) ?b = Some (header b (lastpos 0 0 zs) (total zs))"
      by (rule core_header(1) [OF core'])
    have prev: "addr h (mem_prev (header (False, n) (lastpos 0 0 xs) (total xs))) = ?b"
      using core_chain(3) [OF core'] snoc by (simp add: addr_def unat_offset [OF order_refl])
    have ne: "?b \<noteq> ?a" using snoc by (simp add: bsize_eq)
    show ?thesis
    proof (cases "fst b")
      case True
      then have "plug_backward ?a h = Some (h\<lparr>ram := ram h, lfree := lfree h\<rparr>)"
        using ne plug_backward_eq [OF x prev _ y] by simp
      then show ?thesis using True snoc core lf
        by (intro that [of "lfree h" "ram h"]) (simp_all add: bs_def)
    next
      case False
      then obtain i where b: "b = (False, i)" by (cases b) auto
      let ?l = "if lfree h = ?a then ?b else lfree h"
      let ?h = "h\<lparr>lfree := ?l\<rparr>"
      have bs: "bs = zs @ (False, i + (12 + n)) # ys" using snoc b by (simp add: bs_def)
      have "heap_core ?h (zs @ (False, i) # (False, n) # ys)" using core' b by simp
      from core_unlink [OF this] obtain k where k:
        "unlink ?b (?b + (12 + i)) ?h = Some (?h\<lparr>ram := k\<rparr>)"
        "heap_core (?h\<lparr>ram := k\<rparr>) bs"
        "changes (hdr ?b \<union> hdr (?b + (12 + i) + (12 + n))) (ram h) k"
        using bs by auto
      have a: "?a = ?b + (12 + i)" using snoc b by simp
      have eq: "?h\<lparr>ram := k\<rparr> = h\<lparr>ram := k, lfree := ?l\<rparr>" by simp
      have "plug_backward ?a h = Some (?h\<lparr>ram := k\<rparr>)"
        using k(1) ne False plug_backward_eq [OF x prev _ y] by (simp flip: a)
      moreover have "lfree_ok (?h\<lparr>ram := k\<rparr>) bs"
        using lf snoc b bs by (auto simp: lfree_ok_def add.assoc)
      moreover have "lfree_lowest (?h\<lparr>ram := k\<rparr>) bs" if "lfree_lowest h ?cs"
        using that snoc b bs by (auto simp: lfree_lowest_def add.assoc)
      moreover have "changes (own h ?cs) (ram h) k"
      proof (rule changes_mono [OF k(3)], intro Un_least)
        show "hdr ?b \<subseteq> own h ?cs"
          using own_hdr [of h zs "b # (False, n) # ys"] core_geo(1) [OF core'] snoc by simp
        show "hdr (?b + (12 + i) + (12 + n)) \<subseteq> own h ?cs"
          using own_hdr [of h "zs @ [b, (False, n)]" ys] core_geo(1) [OF core'] snoc b
          by (simp add: add.assoc)
      qed
      moreover have "?l = heap_end h" if "lfree h = heap_end h"
        using that core_geo(1) [OF core] by simp
      ultimately show ?thesis using k(2) that [of ?l k] unfolding eq by blast
    qed
  qed
qed


lemma own_cong:
  "heap_ptr h' = heap_ptr h \<Longrightarrow> heap_end h' = heap_end h \<Longrightarrow>
   allocs (heap_ptr h) cs = allocs (heap_ptr h) bs \<Longrightarrow> own h' cs = own h bs"
  by (simp add: own_def data_def)

lemma plug_holes_ok:
  assumes core: "heap_core h (xs @ (False, n) # ys)" and lf: "lfree_ok h (xs @ (False, n) # ys)"
  obtains m a where "plug_holes (heap_ptr h + total xs) h = Some (h\<lparr>ram := m, lfree := a\<rparr>)"
    "heap_core (h\<lparr>ram := m, lfree := a\<rparr>) (plug xs n ys)"
    "lfree_ok (h\<lparr>ram := m, lfree := a\<rparr>) (plug xs n ys)"
    "lfree_lowest h (xs @ (False, n) # ys) \<Longrightarrow> lfree_lowest (h\<lparr>ram := m, lfree := a\<rparr>) (plug xs n ys)"
    "changes (own h (xs @ (False, n) # ys)) (ram h) m" "lfree h = heap_end h \<Longrightarrow> a = heap_end h"
proof -
  let ?a = "heap_ptr h + total xs" and ?bs = "xs @ (False, n) # ys"
  obtain n' ys' where j: "join_next n ys = (False, n') # ys'" using join_next_Cons by blast
  have p: "plug xs n ys = (if xs \<noteq> [] \<and> \<not> fst (last xs)
      then butlast xs @ (False, snd (last xs) + (12 + n')) # ys' else xs @ (False, n') # ys')"
    by (simp add: plug_def j)
  from plug_forward_ok [OF core lf] obtain m a where f:
    "plug_forward ?a h = Some (h\<lparr>ram := m, lfree := a\<rparr>)"
    "heap_core (h\<lparr>ram := m, lfree := a\<rparr>) (xs @ (False, n') # ys')"
    "lfree_ok (h\<lparr>ram := m, lfree := a\<rparr>) (xs @ (False, n') # ys')"
    "lfree_lowest h ?bs \<Longrightarrow> lfree_lowest (h\<lparr>ram := m, lfree := a\<rparr>) (xs @ (False, n') # ys')"
    "changes (own h ?bs) (ram h) m" "lfree h = heap_end h \<Longrightarrow> a = heap_end h" unfolding j by blast
  let ?h = "h\<lparr>ram := m, lfree := a\<rparr>"
  have hp: "heap_ptr ?h = heap_ptr h" "ram ?h = m" by simp_all
  from plug_backward_ok [OF f(2,3), folded p, unfolded hp] obtain m' a' where b:
    "plug_backward ?a ?h = Some (?h\<lparr>ram := m', lfree := a'\<rparr>)"
    "heap_core (?h\<lparr>ram := m', lfree := a'\<rparr>) (plug xs n ys)"
    "lfree_ok (?h\<lparr>ram := m', lfree := a'\<rparr>) (plug xs n ys)"
    "lfree_lowest ?h (xs @ (False, n') # ys') \<Longrightarrow> lfree_lowest (?h\<lparr>ram := m', lfree := a'\<rparr>) (plug xs n ys)"
    "changes (own ?h (xs @ (False, n') # ys')) m m'" "lfree ?h = heap_end ?h \<Longrightarrow> a' = heap_end ?h"
    by blast
  have eq: "?h\<lparr>ram := m', lfree := a'\<rparr> = h\<lparr>ram := m', lfree := a'\<rparr>" by simp
  have "own ?h (xs @ (False, n') # ys') = own h ?bs"
    using join_next_alloc(1) [of "?a" n ys] j by (intro own_cong) simp_all
  then have "changes (own h ?bs) (ram h) m'"
    using changes_trans [OF f(5)] b(5) by fastforce
  moreover have "plug_holes ?a h = Some (h\<lparr>ram := m', lfree := a'\<rparr>)"
    using core_header(1) [OF core] core_geo(1) [OF core] f(1) b(1) by (simp add: plug_holes_def)
  moreover have "a' = heap_end h" if "lfree h = heap_end h" using f(6) b(6) that by simp
  ultimately show ?thesis using b(2-4) f(4) that [of a' m'] unfolding eq by blast
qed

subsection \<open>rt\_free\<close>

lemma heap_holds_core: "heap_holds h bs \<Longrightarrow> heap_core h bs"
  by (simp add: heap_holds_def)

lemma dvd4_and3: "4 dvd a \<longleftrightarrow> a AND 3 = (0 :: nat)"
  using take_bit_eq_mask [of 2 a] by (simp add: take_bit_eq_mod mask_eq_exp_minus_1 dvd_eq_mod_eq_0)

lemma dvd_total: "\<forall>b \<in> set bs. 4 dvd snd b \<Longrightarrow> 4 dvd total bs"
  by (induction bs) (auto simp: bsize_eq)

lemma core_aligned: "heap_core h (xs @ ys) \<Longrightarrow> 4 dvd heap_ptr h + total xs"
  by (auto simp: heap_core_def dvd_total)

text \<open>Marking a block: its header is rewritten, the others stay.\<close>

lemma core_mark:
  assumes core: "heap_core h (xs @ b # ys)" and s: "snd c = snd b"
    and f: "f (header b (lastpos 0 0 xs) (total xs)) = header c (lastpos 0 0 xs) (total xs)"
  obtains m where "put f (heap_ptr h + total xs) h = Some (h\<lparr>ram := m\<rparr>)"
    "heap_core (h\<lparr>ram := m\<rparr>) (xs @ c # ys)" "changes (own h (xs @ b # ys)) (ram h) m"
    "ld_mem m (heap_ptr h + total xs) = Some (header c (lastpos 0 0 xs) (total xs))"
proof -
  let ?a = "heap_ptr h + total xs"
  note x = core_header(1) [OF core]
  let ?m = "upd (ram h) ?a (hm_bytes (header c (lastpos 0 0 xs) (total xs)))"
  have ch: "changes (hdr ?a) (ram h) ?m" by (rule changes_hdr [OF x])
  have sz: "bsize c = bsize b" using s by (simp add: bsize_eq)
  have "hdr ?a \<inter> {heap_ptr h + (total xs + bsize b) ..<
      heap_ptr h + (total xs + bsize b) + total ys + 12} = {}" by (auto simp: bsize_eq)
  from chain_changes [OF ch this]
  have "chain ?m (heap_ptr h) (total xs + total (b # ys)) (lastpos 0 0 xs) (total xs) (c # ys)"
    using core_chain(2) [OF core] ld_mem_upd_same [OF ld_mem_mapped [OF x]] by (simp add: chain_Cons sz)
  then have "heap_core (h\<lparr>ram := ?m\<rparr>) (xs @ c # ys)"
    using core s sz by (intro core_replace [OF core ch]) (auto simp: heap_core_def)
  moreover have "changes (own h (xs @ b # ys)) (ram h) ?m"
    using own_hdr [OF core_geo(1) [OF core]] by (rule changes_mono [OF ch])
  ultimately show ?thesis
    using put_eq [OF x] f ld_mem_upd_same [OF ld_mem_mapped [OF x]] by (intro that [of ?m]) auto
qed


definition same_area :: "mem_heap \<Rightarrow> mem_heap \<Rightarrow> bool" where
  "same_area h h' \<longleftrightarrow> heap_ptr h' = heap_ptr h \<and> heap_end h' = heap_end h \<and>
     mem_size_aligned h' = mem_size_aligned h"

lemma offset_block:
  assumes "heap_core h (xs @ b # ys)"
  shows "offset h (heap_ptr h + total xs) = of_nat (total xs)"
    "of_nat (total xs + bsize b) - offset h (heap_ptr h + total xs) = of_nat (bsize b)"
    "unat (of_nat (bsize b) :: u32) = bsize b"
  using core_header(2) [OF assms] by (simp_all add: offset_def unat_offset [OF order_refl] del: of_nat_add)
    (simp add: of_nat_add)

lemma used_range: "counted h bs \<Longrightarrow> heap_core h bs \<Longrightarrow> used_total bs < 2 ^ 32"
  using used_le_total [of bs] by (simp add: heap_core_def)

lemma rt_free_null: "rt_free RT_NULL h = Some h"
  by (simp add: rt_free_def)

lemma rt_free_ok:
  assumes inv: "heap_holds h (xs @ (True, n) # ys)"
  obtains h' where "rt_free (heap_ptr h + total xs + 12) h = Some h'" "heap_holds h' (plug xs n ys)"
    "same_area h h'" "changes (own h (xs @ (False, n) # ys)) (ram h) (ram h')"
    "lfree_lowest h (xs @ (True, n) # ys) \<Longrightarrow> lfree_lowest h' (plug xs n ys)"
proof -
  let ?bs = "xs @ (True, n) # ys" and ?cs = "xs @ (False, n) # ys"
  let ?a = "heap_ptr h + total xs" and ?f = "\<lambda>b. b\<lparr>mem_used := 0, mem_magic := HEAP_MAGIC\<rparr>"
  have core: "heap_core h ?bs" and cnt: "counted h ?bs" and lf: "lfree_ok h ?bs"
    and pos: "0 < n" and gaps: "no_gaps xs" "no_gaps ys" and sz: "\<forall>(s, k) \<in> allocs (heap_ptr h) ?cs. 0 < k"
    using inv by (auto simp: heap_holds_def no_gaps_append no_gaps_Cons)
  note x = core_header(1) [OF core]
  have f: "?f (header (True, n) (lastpos 0 0 xs) (total xs)) = header (False, n) (lastpos 0 0 xs) (total xs)"
    by (simp add: header_def)
  from core_mark [OF core, of "(False, n)" ?f, OF _ f] obtain m where m:
    "put ?f ?a h = Some (h\<lparr>ram := m\<rparr>)" "heap_core (h\<lparr>ram := m\<rparr>) ?cs"
    "changes (own h ?bs) (ram h) m"
    "ld_mem m ?a = Some (header (False, n) (lastpos 0 0 xs) (total xs))" by auto
  let ?l = "if ?a < lfree h then ?a else lfree h" and ?u = "used_mem h - of_nat (12 + n)"
  let ?h = "h\<lparr>ram := m, lfree := ?l, used_mem := ?u\<rparr>"
  have u: "unat ?u = used_total xs + used_total ys"
  proof -
    have "unat (of_nat (12 + n) :: u32) = 12 + n" using offset_block(3) [OF core] by simp
    moreover have "12 + n \<le> unat (used_mem h)" using cnt by (simp add: counted_def)
    ultimately show ?thesis using cnt by (simp add: unat_sub word_le_nat_alt counted_def)
  qed
  have core': "heap_core ?h ?cs" and lf': "lfree_ok ?h ?cs"
    using m(2) lf by (auto simp: lfree_ok_def heap_core_def)
  have low: "lfree_lowest ?h ?cs" if "lfree_lowest h ?bs"
    unfolding lfree_lowest_def
  proof
    fix y
    assume "y \<in> free_at (heap_ptr ?h) ?cs"
    then have "y = ?a \<or> lfree h \<le> y" using that by (auto simp: lfree_lowest_def)
    then show "lfree ?h \<le> y" by auto
  qed
  have hp: "heap_ptr ?h = heap_ptr h" "ram ?h = m" by simp_all
  from plug_holes_ok [OF core' lf', unfolded hp] obtain m' a' where p:
    "plug_holes ?a ?h = Some (?h\<lparr>ram := m', lfree := a'\<rparr>)"
    "heap_core (?h\<lparr>ram := m', lfree := a'\<rparr>) (plug xs n ys)"
    "lfree_ok (?h\<lparr>ram := m', lfree := a'\<rparr>) (plug xs n ys)"
    "lfree_lowest ?h ?cs \<Longrightarrow> lfree_lowest (?h\<lparr>ram := m', lfree := a'\<rparr>) (plug xs n ys)"
    "changes (own ?h ?cs) m m'" by blast
  let ?h' = "?h\<lparr>ram := m', lfree := a'\<rparr>"
  have dvd: "4 dvd ?a + 12" using core_aligned [OF core] by simp
  have "rt_free (?a + 12) h = Some ?h'"
  proof -
    have nx: "mem_next (header (False, n) (lastpos 0 0 xs) (total xs)) - offset h ?a = of_nat (12 + n)"
      using offset_block(2) [OF core] by simp
    have "?a + 12 < heap_end h" using core_geo(1) [OF core] pos by simp
    then show ?thesis
      using dvd p(1) nx by (simp add: rt_free_def Let_def x m(1,4) dvd4_and3 del: header_sel(3) of_nat_add split del: if_split cong: if_cong)
  qed
  moreover have "heap_holds ?h' (plug xs n ys)"
    using p(2,3) u cnt sz no_gaps_plug [OF gaps]
    by (auto simp: heap_holds_def counted_def word_le_nat_alt)
  moreover have "changes (own h ?cs) (ram h) m'"
  proof -
    have "own ?h ?cs = own h ?cs" by (intro own_cong) simp_all
    moreover have "own h ?bs \<subseteq> own h ?cs" by (auto simp: own_def)
    ultimately show ?thesis using changes_trans [OF m(3) p(5)] by (simp add: changes_mono sup_absorb2)
  qed
  ultimately show ?thesis using p(4) low by (intro that [of ?h']) (simp_all add: same_area_def)
qed


subsection \<open>rt\_malloc\<close>

text \<open>The walk of \<open>rt_malloc\<close> over the blocks \<open>bs\<close> from offset \<open>p\<close> on.\<close>

fun first_fit :: "nat \<Rightarrow> nat \<Rightarrow> nat \<Rightarrow> block list \<Rightarrow> nat option" where
  "first_fit lim k p [] = None"
| "first_fit lim k p (b # bs) =
     (if p < lim then if \<not> fst b \<and> k \<le> snd b then Some p else first_fit lim k (p + bsize b) bs
      else None)"

lemma first_fit_Some:
  assumes "first_fit lim k p bs = Some r"
  obtains xs n ys where "bs = xs @ (False, n) # ys" "k \<le> n" "r = p + total xs" "r < lim"
proof -
  have "\<exists>xs n ys. bs = xs @ (False, n) # ys \<and> k \<le> n \<and> r = p + total xs \<and> r < lim"
    using assms
  proof (induction lim k p bs rule: first_fit.induct)
    case (2 lim k p b bs)
    show ?case
    proof (cases "\<not> fst b \<and> k \<le> snd b")
      case True
      then have "b # bs = [] @ (False, snd b) # bs \<and> k \<le> snd b \<and> r = p + total [] \<and> r < lim"
        using 2 by (cases b) (auto split: if_splits)
      then show ?thesis by blast
    next
      case False
      then obtain xs n ys where
        "bs = xs @ (False, n) # ys" "k \<le> n" "r = p + bsize b + total xs" "r < lim"
        using 2 by (fastforce split: if_splits)
      then have "b # bs = (b # xs) @ (False, n) # ys \<and> k \<le> n \<and> r = p + total (b # xs) \<and> r < lim"
        by simp
      then show ?thesis by blast
    qed
  qed simp
  then show ?thesis using that by blast
qed

lemma first_fit_None:
  "first_fit lim k p (xs @ (False, n) # ys) = None \<Longrightarrow> n < k \<or> lim \<le> p + total xs"
proof (induction xs arbitrary: p)
  case Nil
  then show ?case by (auto split: if_splits)
next
  case (Cons b xs)
  then show ?case using Cons.IH [of "p + bsize b"] by (auto simp: add.assoc split: if_splits)
qed

lemma unat_sub_le: "(b :: u32) \<le> a \<Longrightarrow> unat (a - b) = unat a - unat b"
  by (simp add: unat_sub)

lemma malloc_find_eq:
  assumes "heap_core h (xs @ ys)" "sz \<le> mem_size_aligned h"
  shows "malloc_find h sz (of_nat (total xs)) = Some (map_option of_nat
    (first_fit (unat (mem_size_aligned h) - unat sz) (unat sz) (total xs) ys))"
  using assms(1)
proof (induction ys arbitrary: xs)
  case Nil
  then have "total xs = unat (mem_size_aligned h) + 12" "total xs < 2 ^ 32"
    by (auto simp: heap_core_def)
  moreover from this have "unat (of_nat (total xs) :: u32) = total xs"
    by (intro unat_offset [OF order_refl])
  ultimately have "\<not> of_nat (total xs) < mem_size_aligned h - sz"
    using assms(2) by (simp only: word_less_nat_alt unat_sub_le)
  then show ?case by (subst malloc_find.simps) simp
next
  case (Cons b ys)
  have t: "unat (of_nat (total xs) :: u32) = total xs"
    using core_header(2) [OF Cons.prems] by (intro unat_offset [OF order_refl]) simp
  have sn: "unat (of_nat (snd b) :: u32) = snd b"
    using core_header(2) [OF Cons.prems] by (intro unat_offset [OF order_refl]) (simp add: bsize_eq)
  let ?x = "header b (lastpos 0 0 xs) (total xs)"
  have x: "ld_mem (ram h) (addr h (of_nat (total xs))) = Some ?x"
    using core_header(1) [OF Cons.prems] t by (simp add: addr_def)
  have d: "mem_next ?x - (of_nat (total xs) + 12) = of_nat (snd b)"
    by (simp add: bsize_eq)
  have n: "mem_next ?x = of_nat (total (xs @ [b]))" by simp
  have "heap_core h ((xs @ [b]) @ ys)" using Cons.prems by simp
  note IH = Cons.IH [OF this]
  have lt: "of_nat (total xs) < mem_size_aligned h - sz \<longleftrightarrow>
      total xs < unat (mem_size_aligned h) - unat sz"
    using assms(2) t by (simp add: word_less_nat_alt unat_sub_le)
  have le: "sz \<le> of_nat (snd b) \<longleftrightarrow> unat sz \<le> snd b" by (simp add: word_le_nat_alt sn)
  have r: "malloc_find h sz (mem_next ?x) = Some (map_option of_nat
      (first_fit (unat (mem_size_aligned h) - unat sz) (unat sz) (total xs + bsize b) ys))"
    unfolding n IH by simp
  show ?case
    by (subst malloc_find.simps) (simp add: lt x d le r del: header_sel(3))
qed

lemma lfree_next_eq:
  assumes "heap_core h (xs @ ys)"
  shows "lfree_next h (heap_ptr h + total xs) = Some (heap_ptr h + total xs + total (takeWhile fst ys))"
  using assms
proof (induction ys arbitrary: xs)
  case Nil
  then have e: "heap_end h = heap_ptr h + total xs" by (simp add: heap_core_def)
  from core_end [OF Nil] obtain v where "ld_mem (ram h) (heap_end h) = Some \<lparr>mem_magic = HEAP_MAGIC,
      mem_used = 1, mem_next = of_nat (total (xs @ [])), mem_prev = v\<rparr>" by blast
  then show ?case using e by (subst lfree_next.simps) simp
next
  case (Cons b ys)
  have "heap_ptr h + total xs \<noteq> heap_end h" using core_geo(1) [OF Cons.prems] by (simp add: bsize_eq)
  moreover have "heap_core h ((xs @ [b]) @ ys)" using Cons.prems by simp
  note IH = Cons.IH [OF this]
  have "lfree_next h (addr h (mem_next (header b (lastpos 0 0 xs) (total xs)))) =
      Some (heap_ptr h + total xs + bsize b + total (takeWhile fst ys))"
    unfolding core_next [OF Cons.prems] IH by simp
  ultimately show ?case
    using core_header(1) [OF Cons.prems] by (subst lfree_next.simps) (simp del: header_sel(3))
qed

lemma takeWhile_free:
  "total (takeWhile fst bs) + a \<in> insert (a + total bs) (free_at a bs)"
  "x \<in> free_at a bs \<Longrightarrow> total (takeWhile fst bs) + a \<le> x"
proof -
  show "total (takeWhile fst bs) + a \<in> insert (a + total bs) (free_at a bs)"
  proof (induction bs arbitrary: a)
    case (Cons b bs)
    then show ?case using Cons.IH [of "a + bsize b"] by (auto simp: add.assoc add.commute)
  qed simp
  show "x \<in> free_at a bs \<Longrightarrow> total (takeWhile fst bs) + a \<le> x"
    by (induction bs arbitrary: a) (fastforce simp: algebra_simps dest: free_at_range)+
qed


text \<open>What becomes of a free block of \<open>n\<close> bytes when \<open>k\<close> of them are taken.\<close>

definition cut :: "nat \<Rightarrow> nat \<Rightarrow> block list" where
  "cut k n = (if k + 24 \<le> n then [(True, k), (False, n - k - 12)] else [(True, n)])"

lemma total_cut [simp]: "total (cut k n) = 12 + n"
  by (simp add: cut_def)

lemma cut_not_Nil [simp]: "cut k n \<noteq> []" "fst (hd (cut k n))"
  by (simp_all add: cut_def)

lemma core_carve:
  assumes core: "heap_core h (xs @ (u, n) # ys)" and k: "k + 12 \<le> n" "4 dvd k"
    and mark: "mark ((header (u, n) (lastpos 0 0 xs) (total xs))\<lparr>mem_next := of_nat (total xs + 12 + k)\<rparr>) =
      header (v, k) (lastpos 0 0 xs) (total xs)"
  obtains m where "carve (of_nat (total xs)) (of_nat k) mark h = Some (h\<lparr>ram := m\<rparr>)"
    "heap_core (h\<lparr>ram := m\<rparr>) (xs @ (v, k) # (False, n - k - 12) # ys)"
    "changes (own h (xs @ (v, k) # (False, n - k - 12) # ys)) (ram h) m"
proof -
  let ?a = "heap_ptr h + total xs" and ?bs = "xs @ (v, k) # (False, n - k - 12) # ys"
  note ch = core_chain [OF core]
  have t: "total xs + total ((u, n) # ys) = unat (mem_size_aligned h) + 12"
    using core by (simp add: heap_core_def)
  have "mapped (ram h) (heap_ptr h) (total (xs @ (u, n) # ys) + 12)"
    using core unfolding heap_core_def by blast
  then have map: "mapped (ram h) ?a (12 + n)" by (rule mapped_part) simp_all
  from chain_carve [where mark = mark and v = v, OF ch(2) refl ch(3) k(1) t map mark] obtain m where m:
    "carve (of_nat (total xs)) (of_nat k) mark h = Some (h\<lparr>ram := m\<rparr>)"
    "chain m (heap_ptr h) (total xs + total ((u, n) # ys)) (lastpos 0 0 xs) (total xs)
      ((v, k) # (False, n - k - 12) # ys)"
    "changes (hdr ?a \<union> hdr (?a + 12 + k) \<union> hdr (?a + 12 + n)) (ram h) m" .
  have "4 dvd n" "\<forall>b \<in> set ys. 4 dvd snd b" using core by (auto simp: heap_core_def)
  then have "\<forall>b \<in> set ((v, k) # (False, n - k - 12) # ys). 4 dvd snd b"
    using k by (auto intro!: dvd_diff_nat)
  then have "heap_core (h\<lparr>ram := m\<rparr>) ?bs"
    using k m(2) by (intro core_replace [OF core m(3)]) (auto simp: add.assoc)
  moreover have "changes (own h ?bs) (ram h) m"
  proof (rule changes_mono [OF m(3)], intro Un_least)
    have e: "heap_end h = heap_ptr h + total ?bs" using core_geo(1) [OF core] k by simp
    show "hdr ?a \<subseteq> own h ?bs" by (rule own_hdr [OF e])
    show "hdr (?a + 12 + k) \<subseteq> own h ?bs"
      using own_hdr [of h "xs @ [(v, k)]" "(False, n - k - 12) # ys"] e by (simp add: add.assoc)
    show "hdr (?a + 12 + n) \<subseteq> own h ?bs"
      using own_hdr [of h "xs @ [(v, k), (False, n - k - 12)]" ys] e k by (simp add: add.assoc)
  qed
  ultimately show ?thesis using m(1) by (intro that)
qed

lemma own_antimono:
  "heap_ptr h' = heap_ptr h \<Longrightarrow> heap_end h' = heap_end h \<Longrightarrow>
   data (heap_ptr h) bs \<subseteq> data (heap_ptr h) cs \<Longrightarrow> own h' cs \<subseteq> own h bs"
  by (auto simp: own_def)

lemma counted_add:
  assumes "counted h bs" "used_total cs = used_total bs + unat n" "used_total cs < 2 ^ 32"
  shows "counted (add_used n h) cs"
proof -
  have "unat (used_mem h + n) = unat (used_mem h) + unat n"
    using assms by (subst unat_add_lem [THEN iffD1]) (simp_all add: counted_def)
  then show ?thesis using assms by (auto simp: counted_def add_used_def Let_def)
qed

lemma add_used_sel [simp]:
  "ram (add_used n h) = ram h" "lfree (add_used n h) = lfree h" "heap_ptr (add_used n h) = heap_ptr h"
  "heap_end (add_used n h) = heap_end h" "mem_size_aligned (add_used n h) = mem_size_aligned h"
  "addr (add_used n h) = addr h" "heap_core (add_used n h) bs = heap_core h bs"
  by (simp_all add: add_used_def Let_def)

lemma malloc_mark_ok:
  assumes core: "heap_core h (xs @ (False, n) # ys)" and cnt: "counted h (xs @ (False, n) # ys)"
    and k: "k \<le> n" "4 dvd k"
  obtains h' b r where "malloc_mark (of_nat k) (of_nat (total xs)) h = Some h'"
    "heap_core h' (xs @ cut k n @ ys)" "counted h' (xs @ cut k n @ ys)"
    "same_area h h'" "lfree h' = lfree h" "changes (own h (xs @ (False, n) # ys)) (ram h) (ram h')"
    "cut k n = (True, b) # r"
proof -
  let ?a = "heap_ptr h + total xs" and ?bs = "xs @ (False, n) # ys" and ?cs = "xs @ cut k n @ ys"
  let ?x = "header (False, n) (lastpos 0 0 xs) (total xs)"
  note x = core_header(1) [OF core]
  have n: "total xs + n + 24 < 2 ^ 32" using core_geo(3) [OF core] by simp
  have a: "addr h (of_nat (total xs)) = ?a"
    using n by (simp add: addr_def unat_offset [OF order_refl])
  have d: "mem_next ?x - (of_nat (total xs) + 12) = of_nat n" by simp
  have u: "unat (of_nat n :: u32) = n" "unat (24 + of_nat k :: u32) = k + 24"
    "unat (of_nat k + 12 :: u32) = k + 12"
    using n k(1) unat_offset [of n n] unat_offset [of "k + 24" "k + 24"] unat_offset [of "k + 12" "k + 12"]
    by (simp_all add: add.commute)
  have le: "24 + of_nat k \<le> (of_nat n :: u32) \<longleftrightarrow> k + 24 \<le> n"
    by (simp only: word_le_nat_alt u)
  have ut: "used_total xs + (12 + n) + used_total ys < 2 ^ 32"
    using n used_le_total [of xs] used_le_total [of ys] core_geo(3) [OF core] by simp
  show ?thesis
  proof (cases "k + 24 \<le> n")
    case True
    have kk: "k + 12 \<le> n" using True by simp
    have "mem_used_update (\<lambda>_. 1) (?x\<lparr>mem_next := of_nat (total xs + 12 + k)\<rparr>) =
        header (True, k) (lastpos 0 0 xs) (total xs)"
      by (simp add: header_def)
    from core_carve [where mark = "mem_used_update (\<lambda>_. 1)" and v = True, OF core kk k(2) this] True
    obtain m where m:
      "carve (of_nat (total xs)) (of_nat k) (mem_used_update (\<lambda>_. 1)) h = Some (h\<lparr>ram := m\<rparr>)"
      "heap_core (h\<lparr>ram := m\<rparr>) ?cs" "changes (own h ?cs) (ram h) m"
      by (auto simp: cut_def)
    have "counted (add_used (of_nat k + 12) (h\<lparr>ram := m\<rparr>)) ?cs"
      using cnt True ut u(3) by (intro counted_add [of _ ?bs]) (auto simp: counted_def cut_def)
    moreover have "changes (own h ?bs) (ram h) m"
      by (rule changes_mono [OF m(3)], rule own_antimono) (auto simp: add.assoc)
    moreover have "malloc_mark (of_nat k) (of_nat (total xs)) h =
        Some (add_used (of_nat k + 12) (h\<lparr>ram := m\<rparr>))"
      using True by (simp add: malloc_mark_def a x d le m(1) del: header_sel(3))
    ultimately show ?thesis
      using m(2) True by (intro that [of "add_used (of_nat k + 12) (h\<lparr>ram := m\<rparr>)" k]) (auto simp: same_area_def cut_def)
  next
    case False
    have "mem_used_update (\<lambda>_. 1) ?x = header (True, n) (lastpos 0 0 xs) (total xs)"
      by (simp add: header_def)
    from core_mark [where f = "mem_used_update (\<lambda>_. 1)" and c = "(True, n)", OF core _ this]
    obtain m where m: "put (mem_used_update (\<lambda>_. 1)) ?a h = Some (h\<lparr>ram := m\<rparr>)"
      "heap_core (h\<lparr>ram := m\<rparr>) (xs @ (True, n) # ys)" "changes (own h ?bs) (ram h) m" by auto
    have cs: "?cs = xs @ (True, n) # ys" using False by (simp add: cut_def)
    have w: "mem_next ?x - of_nat (total xs) = of_nat n + 12" by simp
    have "unat (of_nat n + 12 :: u32) = n + 12"
      using n unat_offset [of "n + 12" "n + 12"] by simp
    then have "counted (add_used (of_nat n + 12) (h\<lparr>ram := m\<rparr>)) ?cs"
      using cnt ut unfolding cs by (intro counted_add [of _ ?bs]) (auto simp: counted_def)
    moreover have "malloc_mark (of_nat k) (of_nat (total xs)) h =
        Some (add_used (of_nat n + 12) (h\<lparr>ram := m\<rparr>))"
      using False by (simp add: malloc_mark_def a x d le m(1) w del: header_sel(3))
    ultimately show ?thesis
      using m(2,3) cs False by (intro that [of "add_used (of_nat n + 12) (h\<lparr>ram := m\<rparr>)" n]) (auto simp: same_area_def cut_def)
  qed
qed


lemma malloc_take_ok:
  assumes inv: "heap_holds h (xs @ (False, n) # ys)" and k: "k \<le> n" "4 dvd k" "0 < k"
  obtains h' where "malloc_take (of_nat k) (of_nat (total xs)) h = Some h'"
    "heap_holds h' (xs @ cut k n @ ys)" "same_area h h'"
    "changes (own h (xs @ (False, n) # ys)) (ram h) (ram h')"
    "lfree_lowest h (xs @ (False, n) # ys) \<Longrightarrow> lfree_lowest h' (xs @ cut k n @ ys)"
proof -
  let ?a = "heap_ptr h + total xs" and ?bs = "xs @ (False, n) # ys" and ?cs = "xs @ cut k n @ ys"
  have core: "heap_core h ?bs" and cnt: "counted h ?bs" and lf: "lfree_ok h ?bs" and gaps: "no_gaps ?bs"
    and pos: "\<forall>(s, j) \<in> allocs (heap_ptr h) ?bs. 0 < j"
    using inv by (auto simp: heap_holds_def)
  from malloc_mark_ok [OF core cnt k(1,2)] obtain h1 b r where h1:
    "malloc_mark (of_nat k) (of_nat (total xs)) h = Some h1"
    "heap_core h1 ?cs" "counted h1 ?cs" "same_area h h1" "lfree h1 = lfree h"
    "changes (own h ?bs) (ram h) (ram h1)" "cut k n = (True, b) # r" by blast
  have hp: "heap_ptr h1 = heap_ptr h" "heap_end h1 = heap_end h" using h1(4) by (simp_all add: same_area_def)
  have a: "addr h1 (of_nat (total xs)) = ?a"
    using core_header(2) [OF core] hp by (simp add: addr_def unat_offset [OF order_refl])
  have c1: "heap_core h1 (xs @ (True, b) # r @ ys)" using h1(2,7) by simp
  have "mem_magic_update (\<lambda>_. HEAP_MAGIC) (header (True, b) (lastpos 0 0 xs) (total xs)) =
      header (True, b) (lastpos 0 0 xs) (total xs)" by (simp add: header_def)
  from core_mark [where f = "mem_magic_update (\<lambda>_. HEAP_MAGIC)" and c = "(True, b)", OF c1 refl this]
  obtain m where m: "put (mem_magic_update (\<lambda>_. HEAP_MAGIC)) ?a h1 = Some (h1\<lparr>ram := m\<rparr>)"
    "heap_core (h1\<lparr>ram := m\<rparr>) ?cs" "changes (own h1 ?cs) (ram h1) m"
    using hp h1(7) by auto
  have "own h1 ?cs \<subseteq> own h ?bs" using hp by (intro own_antimono) (auto simp: add.assoc)
  then have ch: "changes (own h ?bs) (ram h) m"
    using changes_trans [OF h1(6) m(3)] by (simp add: sup_absorb1)
  have gaps': "no_gaps ?cs"
    using gaps by (auto simp: no_gaps_append no_gaps_Cons cut_def)
  have pos': "\<forall>(s, j) \<in> allocs (heap_ptr h) ?cs. 0 < j"
    using pos k by (auto simp: cut_def add.assoc)
  have free: "free_at (heap_ptr h) ?bs =
      free_at (heap_ptr h) xs \<union> {?a} \<union> free_at (?a + (12 + n)) ys"
    "free_at (heap_ptr h) ?cs =
      free_at (heap_ptr h) xs \<union> free_at ?a (cut k n) \<union> free_at (?a + (12 + n)) ys"
    by (auto simp: add.assoc)
  show ?thesis
  proof (cases "?a = lfree h")
    case True
    let ?l = "?a + total (takeWhile fst (cut k n @ ys))"
    have l: "lfree_next (h1\<lparr>ram := m\<rparr>) ?a = Some ?l"
      using lfree_next_eq [OF m(2)] hp by simp
    let ?h' = "h1\<lparr>ram := m, lfree := ?l\<rparr>"
    have "malloc_take (of_nat k) (of_nat (total xs)) h = Some ?h'"
      using h1(1,5) a m(1) True l by (simp add: malloc_take_def)
    moreover have "lfree_ok ?h' ?cs"
      using takeWhile_free(1) [of "cut k n @ ys" ?a] core_geo(1) [OF core] hp
      by (auto simp: lfree_ok_def algebra_simps)
    moreover have "lfree_lowest ?h' ?cs" if "lfree_lowest h ?bs"
    proof -
      have "x \<notin> free_at (heap_ptr h) xs" for x
      proof
        assume x: "x \<in> free_at (heap_ptr h) xs"
        then have "lfree h \<le> x" using that by (simp add: lfree_lowest_def)
        then show False using free_at_range [OF x] True by simp
      qed
      then show ?thesis
        using takeWhile_free(2) [of _ ?a "cut k n @ ys"] hp
        by (auto simp: lfree_lowest_def algebra_simps)
    qed
    ultimately show ?thesis
      using m(2) h1(3,4) ch gaps' pos' hp
      by (intro that [of ?h']) (auto simp: heap_holds_def counted_def same_area_def)
  next
    case False
    let ?h' = "h1\<lparr>ram := m\<rparr>"
    have "malloc_take (of_nat k) (of_nat (total xs)) h = Some ?h'"
      using h1(1,5) a m(1) False by (simp add: malloc_take_def)
    moreover have "lfree_ok ?h' ?cs"
      using lf False hp h1(5) unfolding lfree_ok_def by (auto simp: free add.assoc)
    moreover have "lfree_lowest ?h' ?cs" if "lfree_lowest h ?bs"
    proof -
      have "lfree h \<le> ?a" using that by (auto simp: lfree_lowest_def)
      then have "lfree h \<le> x" if "x \<in> free_at ?a (cut k n)" for x
        using free_at_range [OF that] by simp
      moreover have "lfree h \<le> x" if "x \<in> free_at (heap_ptr h) xs \<union> free_at (?a + (12 + n)) ys" for x
        using that \<open>lfree_lowest h ?bs\<close> unfolding lfree_lowest_def free by blast
      ultimately show ?thesis
        unfolding lfree_lowest_def using hp h1(5) free(2) by auto
    qed
    ultimately show ?thesis
      using m(2) h1(3,4) ch gaps' pos' hp
      by (intro that [of ?h']) (auto simp: heap_holds_def counted_def same_area_def)
  qed
qed


subsection \<open>Alignment\<close>

lemma unat_align_down: "unat (RT_ALIGN_DOWN x 4) = 4 * (unat x div 4)"
proof -
  have m: "(4 - 1 :: u32) = mask 2" by (simp add: mask_eq_exp_minus_1)
  have "2 \<le> i \<Longrightarrow> Suc (Suc (i - 2)) = i" for i by simp
  then have "RT_ALIGN_DOWN x 4 = push_bit 2 (drop_bit 2 x)"
    unfolding RT_ALIGN_DOWN_def m by (intro bit_word_eqI) (auto simp: bit_simps not_less)
  moreover have "unat x < 2 ^ LENGTH(32)" by (rule unsigned_less)
  moreover from this
  have "unat (push_bit 2 (drop_bit 2 x)) = take_bit LENGTH(32) (push_bit 2 (drop_bit 2 (unat x)))"
    by (simp only: unsigned_push_bit_eq unsigned_drop_bit_eq) (simp add: take_bit_nat_eq_self)
  ultimately show ?thesis by (simp add: push_bit_eq_mult drop_bit_eq_div take_bit_nat_eq_self)
qed

lemma align_up_down: "RT_ALIGN x 4 = RT_ALIGN_DOWN (x + 3) 4"
  by (simp add: RT_ALIGN_def RT_ALIGN_DOWN_def add.commute)

lemma align_dvd [simp]: "4 dvd unat (RT_ALIGN x 4)" "4 dvd unat (RT_ALIGN_DOWN x 4)"
  by (simp_all add: align_up_down unat_align_down)

lemma unat_align_up: "x \<le> 0xfffffffc \<Longrightarrow> unat (RT_ALIGN x 4) = 4 * ((unat x + 3) div 4)"
proof -
  assume "x \<le> 0xfffffffc"
  then have "unat (x + 3) = unat x + 3" by (simp add: word_le_nat_alt unat_word_ariths)
  then show ?thesis by (simp add: align_up_down unat_align_down)
qed

lemma align_up_bounds:
  assumes "x \<le> 0xfffffffc"
  shows "unat x \<le> unat (RT_ALIGN x 4)" "unat (RT_ALIGN x 4) < unat x + 4"
  using unat_align_up [OF assms] by presburger+

subsection \<open>rt\_malloc as a whole\<close>

text \<open>The number of bytes that \<open>rt_malloc\<close> looks for.\<close>

definition malloc_size :: "u32 \<Rightarrow> nat" where
  "malloc_size n = max 12 (unat (RT_ALIGN n 4))"

lemma malloc_size_props [simp]: "4 dvd malloc_size n" "0 < malloc_size n"
  by (simp_all add: malloc_size_def max_def)

lemma malloc_size_ge: "n \<le> 0xfffffffc \<Longrightarrow> unat n \<le> malloc_size n"
  using align_up_bounds(1) [of n] by (simp add: malloc_size_def)

lemma rt_malloc_eq:
  assumes "n \<noteq> 0" "12 \<le> mem_size_aligned h"
  shows "rt_malloc n h =
    (if unat (mem_size_aligned h) < malloc_size n then Some (RT_NULL, h)
     else do {
       found \<leftarrow> malloc_find h (of_nat (malloc_size n)) (offset h (lfree h));
       case found of None \<Rightarrow> Some (RT_NULL, h)
       | Some ptr \<Rightarrow> do {
           h \<leftarrow> malloc_take (of_nat (malloc_size n)) ptr h;
           if addr h ptr + 12 + malloc_size n \<le> heap_end h \<and> addr h ptr AND 3 = 0
           then Some (addr h ptr + 12, h) else None } })"
proof -
  have "(if RT_ALIGN n 4 < 12 then 12 else RT_ALIGN n 4) = (of_nat (malloc_size n) :: u32)"
    by (auto simp: malloc_size_def word_less_nat_alt max_def)
  moreover have "unat (of_nat (malloc_size n) :: u32) = malloc_size n"
    by (auto simp: malloc_size_def max_def)
  moreover have "mem_size_aligned h < RT_ALIGN n 4 \<longleftrightarrow> unat (mem_size_aligned h) < malloc_size n"
    using assms(2) by (auto simp: malloc_size_def word_less_nat_alt word_le_nat_alt)
  ultimately show ?thesis using assms(1) by (simp add: rt_malloc_def Let_def)
qed

lemma lfree_split:
  assumes "heap_holds h bs"
  obtains xs ys where "bs = xs @ ys" "lfree h = heap_ptr h + total xs"
proof -
  have "lfree h = heap_ptr h + total bs \<or> lfree h \<in> free_at (heap_ptr h) bs"
    using assms by (auto simp: heap_holds_def lfree_ok_def heap_core_def)
  then show ?thesis using that [of bs "[]"] that by (auto simp: free_at_iff)
qed

text \<open>
  \<open>rt_malloc\<close> either refuses and changes nothing, or takes a free block that is large enough.
  When \<open>lfree\<close> is the lowest free block, a refusal means that there is no such block other than
  a last one of exactly the size.
\<close>

lemma rt_malloc_ok:
  assumes inv: "heap_holds h bs" and sz: "12 \<le> mem_size_aligned h" and n: "n \<noteq> 0"
  obtains (null) "rt_malloc n h = Some (RT_NULL, h)"
    "lfree_lowest h bs \<Longrightarrow>
       \<forall>xs k ys. bs = xs @ (False, k) # ys \<longrightarrow> k < malloc_size n \<or> (k = malloc_size n \<and> ys = [])"
  | (block) xs k ys h' where "bs = xs @ (False, k) # ys" "malloc_size n \<le> k"
    "rt_malloc n h = Some (heap_ptr h + total xs + 12, h')"
    "heap_holds h' (xs @ cut (malloc_size n) k @ ys)" "same_area h h'"
    "changes (own h bs) (ram h) (ram h')"
    "lfree_lowest h bs \<Longrightarrow> lfree_lowest h' (xs @ cut (malloc_size n) k @ ys)"
proof -
  let ?n = "malloc_size n"
  have core: "heap_core h bs" using inv by (rule heap_holds_core)
  have size: "total bs = unat (mem_size_aligned h) + 12" using core by (simp add: heap_core_def)
  note eq = rt_malloc_eq [OF n sz]
  show ?thesis
  proof (cases "unat (mem_size_aligned h) < ?n")
    case True
    moreover have "k < ?n" if "bs = xs @ (False, k) # ys" for xs k ys
      using that size True by simp
    ultimately show ?thesis by (intro null) (auto simp: eq)
  next
    case False
    obtain zs ws where z: "bs = zs @ ws" "lfree h = heap_ptr h + total zs"
      by (rule lfree_split [OF inv])
    have un: "unat (of_nat ?n :: u32) = ?n" by (auto simp: malloc_size_def max_def)
    have le: "of_nat ?n \<le> mem_size_aligned h" using False un by (simp add: word_le_nat_alt)
    let ?lim = "unat (mem_size_aligned h) - ?n"
    have off: "offset h (lfree h) = of_nat (total zs)" using z(2) by (simp add: offset_def)
    have find: "malloc_find h (of_nat ?n) (offset h (lfree h)) =
        Some (map_option of_nat (first_fit ?lim ?n (total zs) ws))"
      using malloc_find_eq [of h zs ws "of_nat ?n"] core z(1) le un by (simp add: off)
    show ?thesis
    proof (cases "first_fit ?lim ?n (total zs) ws")
      case None
      have "k < ?n \<or> k = ?n \<and> ys = []" if low: "lfree_lowest h bs" and b: "bs = xs @ (False, k) # ys" for xs k ys
      proof -
        have "heap_ptr h + total zs \<le> heap_ptr h + total xs"
          using low b z(2) by (auto simp: lfree_lowest_def)
        moreover from b z(1) have "zs @ ws = xs @ (False, k) # ys" by simp
        ultimately obtain us where us: "xs = zs @ us"
          by (auto simp: append_eq_append_conv2 total_0)
        then have "ws = us @ (False, k) # ys" using b z(1) by simp
        then have "k < ?n \<or> ?lim \<le> total zs + total us" using first_fit_None None by simp
        moreover have "total zs + total us + (12 + k) + total ys = unat (mem_size_aligned h) + 12"
          using size b us by simp
        ultimately show ?thesis using False by (cases ys) (auto simp: bsize_eq)
      qed
      then show ?thesis using False find None by (intro null) (auto simp: eq)
    next
      case (Some r)
      from first_fit_Some [OF Some] obtain us k ys where r:
        "ws = us @ (False, k) # ys" "?n \<le> k" "r = total zs + total us" by blast
      let ?xs = "zs @ us"
      have b: "bs = ?xs @ (False, k) # ys" and rt: "r = total ?xs" using z(1) r by simp_all
      from malloc_take_ok [OF inv [unfolded b] r(2)] obtain h' where h':
        "malloc_take (of_nat ?n) (of_nat (total ?xs)) h = Some h'"
        "heap_holds h' (?xs @ cut ?n k @ ys)" "same_area h h'"
        "changes (own h bs) (ram h) (ram h')"
        "lfree_lowest h bs \<Longrightarrow> lfree_lowest h' (?xs @ cut ?n k @ ys)"
        by (auto simp: b)
      have hp: "heap_ptr h' = heap_ptr h" "heap_end h' = heap_end h"
        using h'(3) by (simp_all add: same_area_def)
      have a: "addr h' (of_nat (total ?xs)) = heap_ptr h + total ?xs"
        using core_header(2) [OF core [unfolded b]] hp by (simp add: addr_def unat_offset [OF order_refl] del: total_simps)
      have "heap_ptr h + total ?xs + 12 + ?n \<le> heap_end h"
        using core_geo(1) [OF core] b r(2) by simp
      moreover have "heap_ptr h + total ?xs AND 3 = 0"
        using core_aligned [OF core [unfolded b]] dvd4_and3 by simp
      ultimately have "rt_malloc n h = Some (heap_ptr h + total ?xs + 12, h')"
        using False find Some rt h'(1) a hp by (simp add: eq del: total_simps of_nat_add)
      then show ?thesis using b r(2) h' by (intro block)
    qed
  qed
qed

end
