(* ===== verification/Allocator.thy ===== *)
theory Allocator
  imports Rtdef "HOL-Library.Monad_Syntax"
begin

text \<open>
  The contract of a memory allocator, as the callers of \<^verbatim>\<open>rt_malloc\<close> and \<^verbatim>\<open>rt_free\<close> rely on it:
  \<open>view s A\<close> says that in state \<open>s\<close> the blocks of \<open>A\<close> (address and size) are handed out. A request
  that is served gives a block that overlaps none of them; a block that was handed out can be
  given back. \<open>serve\<close> runs a client that asks for blocks and gives back blocks it holds, in any
  order; inside the locale \<open>allocator\<close> it is shown that no call of such a client fails.
\<close>

text \<open>\<open>(p, k)\<close> overlaps no block of \<open>A\<close>.\<close>

definition fresh :: "(nat \<times> nat) set \<Rightarrow> nat \<Rightarrow> nat \<Rightarrow> bool" where
  "fresh A p k \<longleftrightarrow> (\<forall>(s, n) \<in> A. p + k \<le> s \<or> s + n \<le> p)"

definition apart :: "(nat \<times> nat) set \<Rightarrow> bool" where
  "apart A \<longleftrightarrow> (\<forall>(s, n) \<in> A. \<forall>(t, k) \<in> A. (s, n) = (t, k) \<or> s + n \<le> t \<or> t + k \<le> s)"

lemma fresh_notin: "fresh A p k \<Longrightarrow> 0 < k \<Longrightarrow> (p, n) \<in> A \<Longrightarrow> 0 < n \<Longrightarrow> False"
  unfolding fresh_def by fastforce

lemma apart_insert: "apart A \<Longrightarrow> fresh A p k \<Longrightarrow> apart (insert (p, k) A)"
  unfolding apart_def fresh_def by fastforce

lemma apart_mono: "apart A \<Longrightarrow> B \<subseteq> A \<Longrightarrow> apart B"
  unfolding apart_def by blast

datatype request = Get u32 | Put nat

text \<open>The client holds the addresses of \<open>held\<close>; \<open>Put i\<close> gives back the \<open>i\<close>-th of them.\<close>

fun serve :: "(u32 \<Rightarrow> 's \<Rightarrow> (nat \<times> 's) option) \<Rightarrow> (nat \<Rightarrow> 's \<Rightarrow> 's option) \<Rightarrow>
    request list \<Rightarrow> nat list \<Rightarrow> 's \<Rightarrow> (nat list \<times> 's) option" where
  "serve alloc release [] held s = Some (held, s)"
| "serve alloc release (Get n # rs) held s =
     do { (p, s) \<leftarrow> alloc n s; serve alloc release rs (if p = 0 then held else p # held) s }"
| "serve alloc release (Put i # rs) held s =
     (if i < length held
      then do { s \<leftarrow> release (held ! i) s; serve alloc release rs (take i held @ drop (Suc i) held) s }
      else serve alloc release rs held s)"

locale allocator =
  fixes view :: "'s \<Rightarrow> (nat \<times> nat) set \<Rightarrow> bool"
    and alloc :: "u32 \<Rightarrow> 's \<Rightarrow> (nat \<times> 's) option"
    and release :: "nat \<Rightarrow> 's \<Rightarrow> 's option"
    and room :: "u32 \<Rightarrow> nat"
  assumes alloc: "view s A \<Longrightarrow> \<exists>p s'. alloc n s = Some (p, s') \<and>
      (p = 0 \<and> view s' A \<or>
       p \<noteq> 0 \<and> (\<exists>k. room n \<le> k \<and> fresh A p k \<and> view s' (insert (p, k) A)))"
    and release: "view s A \<Longrightarrow> (p, k) \<in> A \<Longrightarrow> \<exists>s'. release p s = Some s' \<and> view s' (A - {(p, k)})"
    and view_apart: "view s A \<Longrightarrow> apart A"
    and view_pos: "view s A \<Longrightarrow> (p, k) \<in> A \<Longrightarrow> 0 < k"
begin

lemma one_block: "view s A \<Longrightarrow> (p, k) \<in> A \<Longrightarrow> (p, j) \<in> A \<Longrightarrow> k = j"
  using view_apart [of s A] view_pos [of s A p k] view_pos [of s A p j] unfolding apart_def by fastforce

lemma addresses_Diff:
  assumes "view s A" "(p, k) \<in> A"
  shows "fst ` (A - {(p, k)}) = fst ` A - {p}"
proof (intro set_eqI iffI)
  fix x
  assume "x \<in> fst ` (A - {(p, k)})"
  then obtain j where j: "(x, j) \<in> A" "(x, j) \<noteq> (p, k)" by fastforce
  then have "x \<noteq> p" using one_block [OF assms(1), of p j k] assms(2) by auto
  then show "x \<in> fst ` A - {p}" using j(1) by (auto intro: rev_image_eqI)
next
  fix x
  assume "x \<in> fst ` A - {p}"
  then obtain j where "(x, j) \<in> A" "x \<noteq> p" by auto
  then have "(x, j) \<in> A - {(p, k)}" by simp
  then show "x \<in> fst ` (A - {(p, k)})" by (rule rev_image_eqI) simp
qed

text \<open>Every call of a client that keeps to its blocks succeeds, and it never holds two that overlap.\<close>

lemma serve_ok:
  assumes "view s A" "fst ` A = set held" "distinct held"
  shows "\<exists>held' s' B. serve alloc release rs held s = Some (held', s') \<and> view s' B \<and>
    fst ` B = set held' \<and> distinct held' \<and> apart B"
  using assms
proof (induction rs arbitrary: s A held)
  case Nil
  then show ?case using view_apart by auto
next
  case (Cons r rs)
  show ?case
  proof (cases r)
    case (Get n)
    obtain p s' where p: "alloc n s = Some (p, s')"
      "p = 0 \<and> view s' A \<or> p \<noteq> 0 \<and> (\<exists>k. room n \<le> k \<and> fresh A p k \<and> view s' (insert (p, k) A))"
      using alloc [OF Cons.prems(1)] by blast
    show ?thesis
    proof (cases "p = 0")
      case True
      then show ?thesis using Cons.IH [of s' A held] Cons.prems p Get by simp
    next
      case False
      then obtain k where k: "fresh A p k" "view s' (insert (p, k) A)" using p(2) by auto
      have "p \<notin> set held"
      proof
        assume "p \<in> set held"
        then obtain j where "(p, j) \<in> A" using Cons.prems(2) by force
        then show False
          using fresh_notin [OF k(1)] view_pos [OF k(2)] view_pos [OF Cons.prems(1)] by blast
      qed
      then show ?thesis
        using Cons.IH [of s' "insert (p, k) A" "p # held"] Cons.prems k p(1) False Get by simp
    qed
  next
    case (Put i)
    show ?thesis
    proof (cases "i < length held")
      case True
      then obtain k where k: "(held ! i, k) \<in> A" using Cons.prems(2) by (metis imageE nth_mem prod.collapse)
      obtain s' where s': "release (held ! i) s = Some s'" "view s' (A - {(held ! i, k)})"
        using release [OF Cons.prems(1) k] by blast
      let ?held = "take i held @ drop (Suc i) held"
      have split: "held = take i held @ held ! i # drop (Suc i) held" by (rule id_take_nth_drop [OF True])
      then have "distinct (take i held @ held ! i # drop (Suc i) held)" using Cons.prems(3) by simp
      then have "distinct ?held" "held ! i \<notin> set ?held" by auto
      moreover have "set held = insert (held ! i) (set ?held)" by (subst split) auto
      ultimately have "fst ` (A - {(held ! i, k)}) = set ?held" "distinct ?held"
        using addresses_Diff [OF Cons.prems(1) k] Cons.prems(2) by auto
      then show ?thesis using Cons.IH [OF s'(2)] s'(1) True Put by simp
    next
      case False
      then show ?thesis using Cons.IH [OF Cons.prems] Put by simp
    qed
  qed
qed

end

end
