(* ===== verification/Mem_Client.thy ===== *)
theory Mem_Client
  imports Mem_Alloc Allocator
begin

text \<open>
  The system heap as its clients see it. \<open>heap_view h A\<close>: the heap is consistent and \<open>A\<close> holds
  the address and size of every block that is in use. The lemmas give the effect of the calls
  on \<open>A\<close>; \<open>mem_step\<close> is the heap under any client that frees and resizes only what it was given
  and writes only into blocks it holds. The interpretation \<open>heap\<close> shows that \<open>rt_malloc\<close> and
  \<open>rt_free\<close> keep the contract of \<open>Allocator\<close>.
\<close>

definition heap_view :: "mem_heap \<Rightarrow> (nat \<times> nat) set \<Rightarrow> bool" where
  "heap_view h A \<longleftrightarrow> 12 \<le> mem_size_aligned h \<and> mem_size_aligned h < 2 ^ 31 \<and>
     (\<exists>bs. heap_holds h bs \<and> allocs (heap_ptr h) bs = A)"

definition kept :: "(nat \<times> nat) set \<Rightarrow> mem_heap \<Rightarrow> mem_heap \<Rightarrow> bool" where
  "kept A h h' \<longleftrightarrow> same_area h h' \<and> dom (ram h') = dom (ram h) \<and>
     (\<forall>(s, n) \<in> A. bytes (ram h') s n = bytes (ram h) s n)"

lemma kept_refl [simp]: "kept A h h"
  by (auto simp: kept_def same_area_def)

lemma kept_trans: "kept A h h' \<Longrightarrow> kept B h' h'' \<Longrightarrow> C \<subseteq> A \<Longrightarrow> C \<subseteq> B \<Longrightarrow> kept C h h''"
  by (fastforce simp: kept_def same_area_def)

lemma view_next:
  "heap_view h A \<Longrightarrow> same_area h h' \<Longrightarrow> heap_holds h' bs \<Longrightarrow> allocs (heap_ptr h) bs = B \<Longrightarrow>
   heap_view h' B"
  by (auto simp: heap_view_def same_area_def)

subsection \<open>Writing into a block\<close>

lemma core_write:
  assumes core: "heap_core h (xs @ b # ys)" and ch: "changes S (ram h) m"
    and S: "S \<subseteq> {heap_ptr h + total xs + 12 ..< heap_ptr h + total xs + 12 + snd b}"
  shows "heap_core (h\<lparr>ram := m\<rparr>) (xs @ b # ys)"
proof (rule core_replace [OF core ch refl])
  show "S \<inter> {heap_ptr h ..< heap_ptr h + total xs} = {}" using S by auto
  have "S \<inter> hdr (heap_ptr h + total xs) = {}" using S by auto
  moreover have "S \<inter> {heap_ptr h + (total xs + bsize b) ..<
      heap_ptr h + (total xs + bsize b) + total ys + 12} = {}"
    using S by (auto simp: bsize_eq)
  ultimately show "chain m (heap_ptr h) (total xs + total (b # ys)) (lastpos 0 0 xs) (total xs) (b # ys)"
    using core_chain(2) [OF core] changes_ld_mem [OF ch] chain_changes [OF ch] by (simp add: chain_Cons)
qed (use core in \<open>auto simp: heap_core_def\<close>)

lemma holds_write:
  assumes inv: "heap_holds h bs" and a: "(s, n) \<in> allocs (heap_ptr h) bs" "changes {s ..< s + n} (ram h) m"
  shows "heap_holds (h\<lparr>ram := m\<rparr>) bs"
proof -
  obtain xs ys where bs: "bs = xs @ (True, n) # ys" "s = heap_ptr h + total xs + 12"
    by (rule allocs_split [OF a(1)])
  have "heap_core (h\<lparr>ram := m\<rparr>) bs"
    unfolding bs(1) using heap_holds_core [OF inv] a(2) bs by (intro core_write) auto
  then show ?thesis using inv by (simp add: heap_holds_def lfree_ok_def counted_def)
qed

lemma view_write:
  "heap_view h A \<Longrightarrow> (s, n) \<in> A \<Longrightarrow> changes {s ..< s + n} (ram h) m \<Longrightarrow> heap_view (h\<lparr>ram := m\<rparr>) A"
  by (auto simp: heap_view_def intro!: holds_write)

lemma view_block:
  assumes "heap_view h A" "(s, n) \<in> A"
  shows "mapped (ram h) s n" "4 dvd s" "heap_ptr h + 12 \<le> s" "s + n \<le> heap_end h" "0 < n"
    "heap_end h < 2 ^ 32"
proof -
  from assms obtain bs where inv: "heap_holds h bs" and A: "allocs (heap_ptr h) bs = A"
    by (auto simp: heap_view_def)
  note core = heap_holds_core [OF inv]
  from assms(2) A have a: "(s, n) \<in> allocs (heap_ptr h) bs" by simp
  obtain xs ys where bs: "bs = xs @ (True, n) # ys" "s = heap_ptr h + total xs + 12"
    by (rule allocs_split [OF a])
  have "mapped (ram h) (heap_ptr h) (total bs + 12)" using core unfolding heap_core_def by blast
  then show "mapped (ram h) s n" by (rule mapped_part) (simp_all add: bs)
  have "4 dvd heap_ptr h + total xs" using core unfolding bs by (rule core_aligned)
  then show "4 dvd s" unfolding bs(2) by (rule dvd_add) simp
  show "heap_ptr h + 12 \<le> s" "s + n \<le> heap_end h"
    using bs core_geo(1) [OF core] by simp_all
  show "0 < n" using inv a by (auto simp: heap_holds_def)
  show "heap_end h < 2 ^ 32" using core_geo [OF core] by simp
qed

text \<open>Blocks in use do not overlap.\<close>

lemma allocs_disjoint:
  "(s, n) \<in> allocs a bs \<Longrightarrow> (t, k) \<in> allocs a bs \<Longrightarrow> (s, n) = (t, k) \<or> s + n \<le> t \<or> t + k \<le> s"
proof (induction bs arbitrary: a)
  case (Cons b bs)
  then show ?case
    using allocs_range [of s n "a + bsize b" bs] allocs_range [of t k "a + bsize b" bs]
    by (fastforce simp: bsize_eq split: if_splits)
qed simp

lemma view_apart: "heap_view h A \<Longrightarrow> apart A"
  using allocs_disjoint by (fastforce simp: heap_view_def apart_def)

lemma changes_view:
  assumes "changes (own h bs) (ram h) m" "(s, n) \<in> allocs (heap_ptr h) bs"
  shows "bytes m s n = bytes (ram h) s n"
proof (rule changes_bytes [OF assms(1)])
  show "own h bs \<inter> {s ..< s + n} = {}" using assms(2) by (auto simp: own_def data_def)
qed

subsection \<open>Initialisation\<close>

lemma unat_sub3:
  fixes b e :: u32
  assumes "24 < e" "b \<le> e - 24"
  shows "unat (e - b - 24) + unat b + 24 = unat e"
proof -
  have "unat (e - 24) = unat e - 24" using assms(1) by (simp add: unat_sub_le order.strict_implies_order)
  then have le: "unat b + 24 \<le> unat e" using assms by (simp add: word_le_nat_alt word_less_nat_alt)
  then have "unat (e - b) = unat e - unat b" by (simp add: unat_sub_le word_le_nat_alt)
  moreover from this le have "unat (e - b - 24) = unat (e - b) - 24"
    by (intro unat_sub_le [of 24, simplified]) (simp add: word_le_nat_alt)
  ultimately show ?thesis using le by simp
qed

text \<open>An area that has room for the two headers becomes one free block.\<close>

lemma heap_init_ok:
  assumes b: "b = RT_ALIGN begin_addr 4" and e: "e = RT_ALIGN_DOWN end_addr 4"
    and room: "unat b + 24 \<le> unat e" "24 < unat e"
    and map: "mapped (ram h) (unat b) (unat e - unat b)" and zero: "used_mem h = 0"
  obtains h' where "rt_system_heap_init begin_addr end_addr h = Some h'"
    "heap_holds h' [(False, unat e - unat b - 24)]" "lfree_lowest h' [(False, unat e - unat b - 24)]"
    "heap_ptr h' = unat b" "unat (mem_size_aligned h') = unat e - unat b - 24"
    "changes {unat b ..< unat e} (ram h) (ram h')"
proof -
  let ?s = "e - b - 24" and ?a = "unat b"
  have "unat e = ?a + 24 + (unat e - ?a - 24)" using room(1) by simp
  then obtain k where k: "unat e = ?a + 24 + k" by blast
  let ?z = "?a + (12 + k)"
  have c: "24 < e" "b \<le> e - 24"
    using room by (simp_all add: word_less_nat_alt word_le_nat_alt unat_sub_le)
  have s: "unat ?s = k" using unat_sub3 [OF c] k by simp
  have "unat e < 2 ^ LENGTH(32)" by (rule unsigned_less)
  then have n: "?a + k + 24 < 2 ^ 32" using k by simp
  have l: "unat (?s + 12) = 12 + k"
    using n s by (subst unat_add_lem [THEN iffD1]) simp_all
  have "unat (of_nat (12 + k) :: u32) = 12 + k" using n by (intro unat_offset [OF order_refl]) simp
  then have w: "of_nat (12 + k) = ?s + 12" using l by (simp only: word_unat_eq_iff)
  let ?x = "\<lparr>mem_magic = HEAP_MAGIC, mem_used = 0, mem_next = ?s + 12, mem_prev = 0\<rparr>"
  let ?y = "\<lparr>mem_magic = HEAP_MAGIC, mem_used = 1, mem_next = ?s + 12, mem_prev = ?s + 12\<rparr>"
  let ?m = "upd (ram h) ?a (hm_bytes ?x)"
  let ?m' = "upd ?m ?z (hm_bytes ?y)"
  let ?h = "h\<lparr>mem_size_aligned := ?s, heap_ptr := ?a, ram := ?m', heap_end := ?z, lfree := ?a\<rparr>"
  have map': "mapped (ram h) ?a (24 + k)" using map k by simp
  have ma: "mapped (ram h) ?a 12" and mz: "mapped (ram h) ?z 12"
    by (rule mapped_part [OF map']; simp)+
  have mz': "mapped ?m ?z 12" by (rule mapped_upd_mono [OF mz])
  have x: "?x = header (False, k) 0 0" using w by (simp add: header_def)
  have ch1: "changes (hdr ?a) (ram h) ?m" by (rule changes_upd) (simp_all add: ma)
  have ch2: "changes (hdr ?z) ?m ?m'" by (rule changes_upd) (simp_all only: length_hm_bytes mz' order_refl)
  have lx: "ld_mem ?m' ?a = Some ?x"
    using changes_ld_mem [OF ch2, of ?a] ld_mem_upd_same [OF ma, of ?x] by (auto simp: disjoint_iff)
  have ly: "ld_mem ?m' ?z = Some ?y" by (rule ld_mem_upd_same [OF mz'])
  have ch: "changes {?a ..< unat e} (ram h) ?m'"
    by (rule changes_mono [OF changes_trans [OF ch1 ch2]]) (use k in auto)
  obtain v where v: "ld_mem (ram h) ?a = Some v" using ma by (simp add: ld_mem_eq)
  obtain u where u: "ld_mem ?m ?z = Some u" using mz' by (simp add: ld_mem_eq)
  have "rt_system_heap_init begin_addr end_addr h = Some ?h"
    using c l u v
    by (simp add: rt_system_heap_init_def Let_def b [symmetric] e [symmetric] put_eq addr_def)
  moreover have "heap_core ?h [(False, k)]"
  proof -
    have "end_mark ?m' ?a (12 + k)" unfolding end_mark_def ly w by blast
    moreover have d: "4 dvd ?a" "4 dvd unat e" using b e by simp_all
    then have "4 dvd k" unfolding k by presburger
    moreover have "mapped ?m' ?a (24 + k)" using map' changes_mapped [OF ch] by simp
    ultimately show ?thesis
      using lx x s d(1) n by (simp add: heap_core_def chain_def add.assoc)
  qed
  ultimately show ?thesis
    using zero s ch k
    by (intro that [of ?h]) (simp_all add: heap_holds_def lfree_ok_def lfree_lowest_def counted_def)
qed


subsection \<open>The calls\<close>

lemma allocs_cut:
  obtains j where "allocs a (cut k n) = {(a + 12, j)}" "k \<le> n \<Longrightarrow> k \<le> j \<and> j \<le> n"
  by (cases "k + 24 \<le> n") (auto simp: cut_def intro: that)

lemma fresh_gap:
  assumes "hp + total xs + 12 \<le> p" "p + k \<le> hp + total xs + 12 + n"
  shows "fresh (allocs hp xs \<union> allocs (hp + total xs + (12 + n)) ys) p k"
proof -
  have "p + k \<le> s \<or> s + j \<le> p"
    if "(s, j) \<in> allocs hp xs \<union> allocs (hp + total xs + (12 + n)) ys" for s j
    using that allocs_range [of s j hp xs] allocs_range [of s j "hp + total xs + (12 + n)" ys] assms
    by auto
  then show ?thesis by (auto simp: fresh_def)
qed

lemma malloc_view:
  assumes v: "heap_view h A" and n: "n \<noteq> 0"
  obtains (null) "rt_malloc n h = Some (RT_NULL, h)"
  | (block) p k h' where "rt_malloc n h = Some (p, h')" "p \<noteq> RT_NULL" "malloc_size n \<le> k"
    "heap_view h' (insert (p, k) A)" "fresh A p k" "kept A h h'"
proof -
  from v obtain bs where inv: "heap_holds h bs" and A: "allocs (heap_ptr h) bs = A"
    and sz: "12 \<le> mem_size_aligned h" by (auto simp: heap_view_def)
  from inv sz n show ?thesis
  proof (cases rule: rt_malloc_ok)
    case null
    then show ?thesis by (intro that(1))
  next
    case (block xs k ys h')
    let ?p = "heap_ptr h + total xs + 12"
    obtain j where j: "allocs (heap_ptr h + total xs) (cut (malloc_size n) k) = {(?p, j)}"
      "malloc_size n \<le> j \<and> j \<le> k" using allocs_cut block(2) by metis
    have hp: "heap_ptr h' = heap_ptr h" using block(5) by (simp add: same_area_def)
    have "allocs (heap_ptr h) (xs @ cut (malloc_size n) k @ ys) = insert (?p, j) A"
      using j(1) A block(1) by (auto simp: add.assoc)
    then have "heap_view h' (insert (?p, j) A)" by (rule view_next [OF v block(5,4)])
    moreover have "fresh A ?p j"
      using fresh_gap [of "heap_ptr h" xs ?p j k ys] A block(1) j(2) by (simp add: add.assoc)
    moreover have "kept A h h'"
      using block(5) changes_view [OF block(6)] A block(6) by (auto simp: kept_def changes_def)
    ultimately show ?thesis using block(3) j(2) by (intro that(2)) simp_all
  qed
qed

lemma free_view:
  assumes v: "heap_view h A" and a: "(p, n) \<in> A"
  obtains h' where "rt_free p h = Some h'" "heap_view h' (A - {(p, n)})" "kept (A - {(p, n)}) h h'"
proof -
  from v obtain bs where inv: "heap_holds h bs" and A: "allocs (heap_ptr h) bs = A"
    by (auto simp: heap_view_def)
  from a A have "(p, n) \<in> allocs (heap_ptr h) bs" by simp
  then obtain xs ys where bs: "bs = xs @ (True, n) # ys" "p = heap_ptr h + total xs + 12"
    by (rule allocs_split)
  from rt_free_ok [OF inv [unfolded bs(1)]] obtain h' where h':
    "rt_free p h = Some h'" "heap_holds h' (plug xs n ys)" "same_area h h'"
    "changes (own h (xs @ (False, n) # ys)) (ram h) (ram h')" by (auto simp: bs(2))
  have "fresh (allocs (heap_ptr h) (xs @ (False, n) # ys)) p n"
    using fresh_gap [of "heap_ptr h" xs p n n ys] bs(2) by (simp add: add.assoc)
  moreover have "0 < n" using view_block(5) [OF v a] .
  ultimately have "(p, n) \<notin> allocs (heap_ptr h) (xs @ (False, n) # ys)"
    unfolding fresh_def by fastforce
  then have rest: "allocs (heap_ptr h) (xs @ (False, n) # ys) = A - {(p, n)}"
    using A bs by (auto simp: add.assoc)
  have "heap_view h' (A - {(p, n)})" by (rule view_next [OF v h'(3,2)]) (simp add: rest [symmetric])
  moreover have "kept (A - {(p, n)}) h h'"
    using h'(3) changes_view [OF h'(4)] rest h'(4) by (auto simp: kept_def changes_def)
  ultimately show ?thesis using h'(1) by (intro that)
qed


lemma plug_used: "plug (xs @ [(True, k)]) n ys = xs @ (True, k) # join_next n ys"
  by (simp add: plug_def)

text \<open>What \<open>rt_realloc\<close> does when the block is cut.\<close>

lemma shrink_ok:
  assumes inv: "heap_holds h (xs @ (True, n) # ys)" and k: "k + 24 < n" "4 dvd k" "0 < k"
  obtains h' where
    "do { h \<leftarrow> carve (of_nat (total xs)) (of_nat k) id (h\<lparr>used_mem := used_mem h - of_nat (n - k)\<rparr>);
          plug_holes (addr h (of_nat (total xs) + 12 + of_nat k)) h } = Some h'"
    "heap_holds h' (xs @ (True, k) # join_next (n - k - 12) ys)" "same_area h h'"
    "changes (own h (xs @ (True, k) # (False, n - k - 12) # ys)) (ram h) (ram h')"
    "lfree h = heap_end h \<Longrightarrow> lfree h' = heap_end h"
proof -
  let ?bs = "xs @ (True, n) # ys" and ?cs = "xs @ (True, k) # (False, n - k - 12) # ys"
  let ?u = "used_mem h - of_nat (n - k)"
  let ?h = "h\<lparr>used_mem := ?u\<rparr>"
  have core: "heap_core h ?bs" and cnt: "counted h ?bs" and lf: "lfree_ok h ?bs"
    and gaps: "no_gaps xs" "no_gaps ys" and sz: "\<forall>(s, j) \<in> allocs (heap_ptr h) ?bs. 0 < j"
    using inv by (auto simp: heap_holds_def no_gaps_append no_gaps_Cons)
  have n: "total xs + 12 + n < 2 ^ 32" using core_header(2) [OF core] by simp
  have u: "unat ?u = used_total xs + (12 + k) + used_total ys" "?u \<le> used_mem h"
  proof -
    have "unat (of_nat (n - k) :: u32) = n - k" using n by (intro unat_offset [OF order_refl]) simp
    moreover have "n - k \<le> unat (used_mem h)" using cnt by (simp add: counted_def)
    ultimately have *: "unat ?u = unat (used_mem h) - (n - k)"
      by (subst unat_sub_le) (simp_all add: word_le_nat_alt)
    then show "unat ?u = used_total xs + (12 + k) + used_total ys" using cnt k(1) by (simp add: counted_def)
    show "?u \<le> used_mem h" using * by (simp add: word_le_nat_alt)
  qed
  have core1: "heap_core ?h ?bs" using core by simp
  have kk: "k + 12 \<le> n" using k(1) by simp
  have "id ((header (True, n) (lastpos 0 0 xs) (total xs))\<lparr>mem_next := of_nat (total xs + 12 + k)\<rparr>) =
      header (True, k) (lastpos 0 0 xs) (total xs)" by (simp add: header_def)
  from core_carve [where mark = id and v = True, OF core1 kk k(2) this] obtain m where m:
    "carve (of_nat (total xs)) (of_nat k) id ?h = Some (?h\<lparr>ram := m\<rparr>)"
    "heap_core (?h\<lparr>ram := m\<rparr>) ((xs @ [(True, k)]) @ (False, n - k - 12) # ys)"
    "changes (own ?h ?cs) (ram ?h) m" by auto
  have lf': "lfree_ok (?h\<lparr>ram := m\<rparr>) ((xs @ [(True, k)]) @ (False, n - k - 12) # ys)"
  proof -
    have "heap_ptr h + total xs + (12 + k) + (12 + (n - k - 12)) = heap_ptr h + total xs + (12 + n)"
      using kk by simp
    then show ?thesis using lf by (auto simp: lfree_ok_def add.assoc)
  qed
  have hp: "heap_ptr (?h\<lparr>ram := m\<rparr>) = heap_ptr h" "ram (?h\<lparr>ram := m\<rparr>) = m" by simp_all
  from plug_holes_ok [OF m(2) lf', unfolded hp plug_used] obtain m' a' where p:
    "plug_holes (heap_ptr h + total (xs @ [(True, k)])) (?h\<lparr>ram := m\<rparr>) =
       Some (?h\<lparr>ram := m\<rparr>\<lparr>ram := m', lfree := a'\<rparr>)"
    "heap_core (?h\<lparr>ram := m\<rparr>\<lparr>ram := m', lfree := a'\<rparr>) (xs @ (True, k) # join_next (n - k - 12) ys)"
    "lfree_ok (?h\<lparr>ram := m\<rparr>\<lparr>ram := m', lfree := a'\<rparr>) (xs @ (True, k) # join_next (n - k - 12) ys)"
    "changes (own (?h\<lparr>ram := m\<rparr>) ((xs @ [(True, k)]) @ (False, n - k - 12) # ys)) m m'"
    "lfree (?h\<lparr>ram := m\<rparr>) = heap_end (?h\<lparr>ram := m\<rparr>) \<Longrightarrow> a' = heap_end (?h\<lparr>ram := m\<rparr>)" by blast
  let ?h' = "?h\<lparr>ram := m\<rparr>\<lparr>ram := m', lfree := a'\<rparr>"
  have "of_nat (total xs) + 12 + of_nat k = (of_nat (total (xs @ [(True, k)])) :: u32)" by simp
  moreover have "unat (of_nat (total (xs @ [(True, k)])) :: u32) = total (xs @ [(True, k)])"
    using n kk by (intro unat_offset [OF order_refl]) simp
  ultimately have a: "addr (?h\<lparr>ram := m\<rparr>) (of_nat (total xs) + 12 + of_nat k) =
      heap_ptr h + total (xs @ [(True, k)])"
    by (simp only: addr_def hp)
  have "no_gaps (xs @ (True, k) # join_next (n - k - 12) ys)"
    using gaps no_gaps_join_next [OF gaps(2)] by (auto simp: no_gaps_append no_gaps_Cons)
  moreover have "\<forall>(s, j) \<in> allocs (heap_ptr h) (xs @ (True, k) # join_next (n - k - 12) ys). 0 < j"
    using sz k by (auto simp: add.assoc)
  moreover have "counted ?h' (xs @ (True, k) # join_next (n - k - 12) ys)"
    using cnt u by (auto simp: counted_def)
  ultimately have "heap_holds ?h' (xs @ (True, k) # join_next (n - k - 12) ys)"
    using p(2,3) by (simp add: heap_holds_def)
  moreover have "changes (own h ?cs) (ram h) m'"
  proof -
    have "own ?h ?cs = own h ?cs" "own (?h\<lparr>ram := m\<rparr>) ((xs @ [(True, k)]) @ (False, n - k - 12) # ys) = own h ?cs"
      by (intro own_cong; simp)+
    then show ?thesis using changes_trans [OF m(3) p(4)] by simp
  qed
  ultimately show ?thesis
    using m(1) p(1,5) a by (intro that [of ?h']) (simp_all add: same_area_def)
qed

lemma unat_min: "unat (if (a :: u32) < b then a else b) = min (unat a) (unat b)"
  by (auto simp: word_less_nat_alt)


text \<open>\<open>rt_realloc\<close> on a block in use, without the pointer tests.\<close>

lemma rt_realloc_block:
  assumes inv: "heap_holds h (xs @ (True, n) # ys)" and k: "k = unat (RT_ALIGN newsize 4)"
    and p: "p = heap_ptr h + total xs + 12"
  shows "rt_realloc p newsize h =
    (if unat (mem_size_aligned h) < k then Some (RT_NULL, h)
     else if k = 0 then do { h \<leftarrow> rt_free p h; Some (RT_NULL, h) }
     else if n = k then Some (p, h)
     else if k + 24 < n then do {
       h \<leftarrow> do { h \<leftarrow> carve (of_nat (total xs)) (of_nat k) id (h\<lparr>used_mem := used_mem h - of_nat (n - k)\<rparr>);
         plug_holes (addr h (of_nat (total xs) + 12 + of_nat k)) h };
       Some (p, h) }
     else do {
       (nmem, h) \<leftarrow> rt_malloc (RT_ALIGN newsize 4) h;
       if nmem = RT_NULL then Some (RT_NULL, h)
       else do {
         m \<leftarrow> rt_memcpy (ram h) nmem p (of_nat (min n k));
         h \<leftarrow> rt_free p (h\<lparr>ram := m\<rparr>);
         Some (nmem, h) } })"
proof -
  let ?z = "RT_ALIGN newsize 4" and ?x = "header (True, n) (lastpos 0 0 xs) (total xs)"
  note core = heap_holds_core [OF inv]
  have pos: "0 < n" using inv by (auto simp: heap_holds_def)
  have total: "total xs + (12 + n) + total ys = unat (mem_size_aligned h) + 12"
    "unat (mem_size_aligned h) + 24 < 2 ^ 32"
    using core by (auto simp: heap_core_def)
  have x: "ld_mem (ram h) (p - 12) = Some ?x" using core_header(1) [OF core] p by simp
  have ptr: "offset h (p - 12) = of_nat (total xs)" using p by (simp add: offset_def)
  have size: "mem_next ?x - of_nat (total xs) - 12 = of_nat n" by simp
  have zk: "?z = of_nat k" using k by simp
  have un: "unat (of_nat n :: u32) = n" using total by (intro unat_offset [OF order_refl]) simp
  have tests: "p \<noteq> 0" "\<not> p < heap_ptr h" "\<not> heap_end h \<le> p" "\<not> p < heap_ptr h + 12"
    using p pos core_geo(1) [OF core] by simp_all
  have big: "mem_size_aligned h < ?z \<longleftrightarrow> unat (mem_size_aligned h) < k"
    using k by (simp add: word_less_nat_alt)
  have zero: "?z = 0 \<longleftrightarrow> k = 0" using k by (simp add: unat_eq_0)
  have same: "of_nat n = ?z \<longleftrightarrow> n = k" using k un by (metis word_unat_eq_iff)
  have head: "rt_realloc p newsize h =
    (if unat (mem_size_aligned h) < k then Some (RT_NULL, h)
     else if k = 0 then do { h \<leftarrow> rt_free p h; Some (RT_NULL, h) }
     else if n = k then Some (p, h)
     else if ?z + 12 + 12 < of_nat n
     then do {
       h \<leftarrow> Some (h\<lparr>used_mem := used_mem h - (of_nat n - ?z)\<rparr>);
       h \<leftarrow> carve (of_nat (total xs)) ?z id h;
       h \<leftarrow> plug_holes (addr h (of_nat (total xs) + 12 + ?z)) h;
       Some (p, h) }
     else do {
       (nmem, h) \<leftarrow> rt_malloc ?z h;
       if nmem = RT_NULL then Some (RT_NULL, h)
       else do {
         m \<leftarrow> rt_memcpy (ram h) nmem p (if of_nat n < ?z then of_nat n else ?z);
         h \<leftarrow> rt_free p (h\<lparr>ram := m\<rparr>);
         Some (nmem, h) } })"
    unfolding rt_realloc_def Let_def x Option.bind.simps ptr size same big zero
    by (simp only: tests if_False simp_thms)
  show ?thesis
  proof (cases "unat (mem_size_aligned h) < k \<or> k = 0 \<or> n = k")
    case True
    then show ?thesis unfolding head by presburger
  next
    case False
    have "unat (?z + 24) = k + 24"
      using False total(2) k by (subst unat_add_lem [THEN iffD1]) simp_all
    then have split: "?z + 12 + 12 < of_nat n \<longleftrightarrow> k + 24 < n"
      by (simp add: word_less_nat_alt un add.assoc)
    have min: "(if of_nat n < ?z then of_nat n else ?z) = (of_nat (min n k) :: u32)"
      using un k by (auto simp: word_less_nat_alt min_def)
    have sub: "of_nat n - of_nat k = (of_nat (n - k) :: u32)" if "k + 24 < n"
      using that by (subst of_nat_diff) simp_all
    show ?thesis
    proof (cases "k + 24 < n")
      case True
      then show ?thesis
        using False unfolding head split min
        by (simp only: if_True if_False de_Morgan_disj sub zk Option.bind.simps bind_assoc simp_thms)
    next
      case False
      then show ?thesis unfolding head split min by (simp only: if_False)
    qed
  qed
qed


lemma align_again: "RT_ALIGN (RT_ALIGN x 4) 4 = RT_ALIGN x 4"
proof -
  obtain j where j: "unat (RT_ALIGN x 4) = 4 * j" using align_dvd(1) [of x] by (rule dvdE)
  have "unat (RT_ALIGN x 4) < 2 ^ LENGTH(32)" by (rule unsigned_less)
  then have "j \<le> 1073741823" unfolding j by simp
  then have "RT_ALIGN x 4 \<le> 0xfffffffc" by (simp add: word_le_nat_alt j)
  from unat_align_up [OF this] have "unat (RT_ALIGN (RT_ALIGN x 4) 4) = unat (RT_ALIGN x 4)"
    using align_dvd(1) [of x] by presburger
  then show ?thesis by (simp only: word_unat_eq_iff)
qed

lemma bytes_take: "j \<le> n \<Longrightarrow> bytes m a j = take j (bytes m a n)"
  by (auto intro!: nth_equalityI)

lemma kept_bytes: "kept A h h' \<Longrightarrow> (s, n) \<in> A \<Longrightarrow> bytes (ram h') s n = bytes (ram h) s n"
  by (auto simp: kept_def)

text \<open>
  \<open>rt_realloc\<close> on a block in use, asked for \<open>k\<close> bytes after rounding: the heap is left alone when
  there is no room; otherwise the block is given back, kept, cut, or moved with its contents.
\<close>

lemma realloc_view:
  assumes v: "heap_view h A" and a: "(p, n) \<in> A" and k: "k = unat (RT_ALIGN newsize 4)"
  obtains (null) "rt_realloc p newsize h = Some (RT_NULL, h)" "0 < k"
  | (freed) h' where "rt_realloc p newsize h = Some (RT_NULL, h')" "k = 0"
      "heap_view h' (A - {(p, n)})" "kept (A - {(p, n)}) h h'"
  | (resized) q j h' where "rt_realloc p newsize h = Some (q, h')" "q \<noteq> RT_NULL" "k \<le> j" "0 < k"
      "heap_view h' (insert (q, j) (A - {(p, n)}))" "kept (A - {(p, n)}) h h'"
      "bytes (ram h') q (min n k) = bytes (ram h) p (min n k)"
proof -
  from v obtain bs where inv: "heap_holds h bs" and A: "allocs (heap_ptr h) bs = A"
    and msa: "mem_size_aligned h < 2 ^ 31" by (auto simp: heap_view_def)
  from a A have "(p, n) \<in> allocs (heap_ptr h) bs" by simp
  then obtain xs ys where bs: "bs = xs @ (True, n) # ys" and p: "p = heap_ptr h + total xs + 12"
    by (rule allocs_split)
  note eq = rt_realloc_block [OF inv [unfolded bs] k p]
  have k4: "4 dvd k" using k by simp
  have p0: "p \<noteq> RT_NULL" using p by simp
  have rest: "A - {(p, n)} = allocs (heap_ptr h) (xs @ (False, n) # ys)"
  proof -
    have "fresh (allocs (heap_ptr h) (xs @ (False, n) # ys)) p n"
      using fresh_gap [of "heap_ptr h" xs p n n ys] p by (simp add: add.assoc)
    moreover have "0 < n" using view_block(5) [OF v a] .
    ultimately have "(p, n) \<notin> allocs (heap_ptr h) (xs @ (False, n) # ys)"
      unfolding fresh_def by fastforce
    then show ?thesis using A bs p by (auto simp: add.assoc)
  qed
  consider "unat (mem_size_aligned h) < k" | "k = 0" | "0 < k" "k \<le> unat (mem_size_aligned h)" "n = k"
    | "0 < k" "k + 24 < n" "k \<le> unat (mem_size_aligned h)"
    | "0 < k" "n \<le> k + 24" "n \<noteq> k" "k \<le> unat (mem_size_aligned h)" by linarith
  then show ?thesis
  proof cases
    case 1
    then show ?thesis by (intro null) (simp_all add: eq)
  next
    case 2
    from free_view [OF v a] obtain h' where
      "rt_free p h = Some h'" "heap_view h' (A - {(p, n)})" "kept (A - {(p, n)}) h h'" .
    with 2 show ?thesis by (intro freed) (simp_all add: eq)
  next
    case 3
    then have "insert (p, k) (A - {(p, n)}) = A" using a by auto
    with 3 v show ?thesis by (intro resized [of p h k]) (simp_all add: eq p0)
  next
    case 4
    from shrink_ok [OF inv [unfolded bs] 4(2) k4 4(1)] obtain h' where h':
      "do { h \<leftarrow> carve (of_nat (total xs)) (of_nat k) id (h\<lparr>used_mem := used_mem h - of_nat (n - k)\<rparr>);
          plug_holes (addr h (of_nat (total xs) + 12 + of_nat k)) h } = Some h'"
      "heap_holds h' (xs @ (True, k) # join_next (n - k - 12) ys)" "same_area h h'"
      "changes (own h (xs @ (True, k) # (False, n - k - 12) # ys)) (ram h) (ram h')" by blast
    have "allocs (heap_ptr h) (xs @ (True, k) # join_next (n - k - 12) ys) = insert (p, k) (A - {(p, n)})"
      unfolding rest using 4(2) p by (auto simp: add.assoc)
    then have "heap_view h' (insert (p, k) (A - {(p, n)}))" by (rule view_next [OF v h'(3,2)])
    moreover have "allocs (heap_ptr h) (xs @ (True, k) # (False, n - k - 12) # ys) =
        insert (p, k) (A - {(p, n)})"
      unfolding rest using 4(2) p by (auto simp: add.assoc)
    then have same: "bytes (ram h') s i = bytes (ram h) s i" if "(s, i) \<in> insert (p, k) (A - {(p, n)})" for s i
      using changes_view [OF h'(4)] that by blast
    then have "kept (A - {(p, n)}) h h'" "bytes (ram h') p k = bytes (ram h) p k"
      using h'(3,4) unfolding kept_def changes_def by blast+
    moreover have "rt_realloc p newsize h = Some (p, h')"
      unfolding eq h'(1) using 4 by simp
    ultimately show ?thesis using 4 by (intro resized [of p h' k]) (simp_all add: p0)
  next
    case 5
    have nz: "RT_ALIGN newsize 4 \<noteq> 0" using 5(1) k by (auto simp: unat_eq_0)
    have ms: "k \<le> malloc_size (RT_ALIGN newsize 4)" using k by (simp add: malloc_size_def align_again)
    from v nz show ?thesis
    proof (cases rule: malloc_view)
      case null
      then show ?thesis using 5 by (intro that(1)) (simp_all add: eq)
    next
      case (block q j h1)
      have q: "p + n \<le> q \<or> q + j \<le> p" using block(5) a by (auto simp: fresh_def)
      have mp: "mapped (ram h1) p n" "mapped (ram h1) q j"
        using view_block(1) [OF block(4)] a by auto
      let ?c = "min n k"
      have c: "unat (of_nat ?c :: u32) = ?c" and c31: "?c < 2 ^ 31"
        using 5 msa unat_offset [of ?c ?c] by (simp_all add: word_less_nat_alt)
      have j: "?c \<le> j" "?c \<le> n" using ms block(3) by auto
      let ?m = "upd (ram h1) q (bytes (ram h1) p ?c)"
      have cp: "rt_memcpy (ram h1) q p (of_nat ?c) = Some ?m"
      proof -
        have "q + ?c \<le> p \<or> p + ?c \<le> q" using q j by linarith
        moreover have "mapped (ram h1) q ?c" "mapped (ram h1) p ?c"
          using mapped_part [OF mp(1)] mapped_part [OF mp(2)] j by simp_all
        ultimately show ?thesis
          using rt_memcpy_eq [of "ram h1" q "of_nat ?c" p] unfolding c using c31 by blast
      qed
      have ch: "changes {q ..< q + j} (ram h1) ?m"
        by (rule changes_upd) (use j mapped_part [OF mp(2)] in auto)
      let ?h1 = "h1\<lparr>ram := ?m\<rparr>"
      have v1: "heap_view ?h1 (insert (q, j) A)" by (rule view_write [OF block(4) _ ch]) simp
      from free_view [OF v1, of p n] a obtain h' where h':
        "rt_free p ?h1 = Some h'" "heap_view h' (insert (q, j) A - {(p, n)})"
        "kept (insert (q, j) A - {(p, n)}) ?h1 h'" by auto
      have ne: "(q, j) \<noteq> (p, n)" using q view_block(5) [OF v a] by auto
      then have set: "insert (q, j) A - {(p, n)} = insert (q, j) (A - {(p, n)})" by auto
      have k1: "kept A h1 ?h1"
        unfolding kept_def same_area_def
      proof (intro conjI ballI)
        fix b assume b: "b \<in> A"
        obtain s i where si: "b = (s, i)" by (cases b)
        have "{q ..< q + j} \<inter> {s ..< s + i} = {}" using block(5) b si by (auto simp: fresh_def)
        from changes_bytes [OF ch this]
        show "case b of (s, i) \<Rightarrow> bytes (ram ?h1) s i = bytes (ram h1) s i" by (simp add: si)
      qed (use ch in \<open>simp_all add: changes_def\<close>)
      have "kept (A - {(p, n)}) h h'"
        by (rule kept_trans [OF kept_trans [OF block(6) k1 order_refl order_refl] h'(3)]) (auto simp: set)
      moreover have "bytes (ram h') q ?c = bytes (ram h) p ?c"
      proof -
        have "(q, j) \<in> insert (q, j) A - {(p, n)}" using set by simp
        from kept_bytes [OF h'(3) this] have e: "bytes (ram h') q j = bytes ?m q j" by simp
        have "bytes (ram h') q ?c = bytes ?m q ?c"
          unfolding bytes_take [OF j(1), of "ram h'" q] bytes_take [OF j(1), of ?m q] e ..
        also have "\<dots> = bytes (ram h1) p ?c" by simp
        also have "\<dots> = bytes (ram h) p ?c"
          unfolding bytes_take [OF j(2), of "ram h1" p] bytes_take [OF j(2), of "ram h" p]
          using kept_bytes [OF block(6) a] by (simp only:)
        finally show ?thesis .
      qed
      moreover have "rt_realloc p newsize h = Some (q, h')"
        using 5 block(1,2) h'(1) cp by (simp add: eq)
      ultimately show ?thesis using 5 block(2,3) ms h'(2) set by (intro resized [of q h' j]) auto
    qed
  qed
qed


lemma calloc_view:
  assumes v: "heap_view h A" and c: "c = count * sz" "c \<le> 0xfffffffc"
  obtains (null) "rt_calloc count sz h = Some (RT_NULL, h)"
  | (block) p k h' where "rt_calloc count sz h = Some (p, h')" "p \<noteq> RT_NULL" "malloc_size c \<le> k"
    "heap_view h' (insert (p, k) A)" "fresh A p k" "kept A h h'"
    "bytes (ram h') p (unat c) = replicate (unat c) 0"
proof (cases "c = 0")
  case True
  then show ?thesis using c by (intro null) (simp add: rt_calloc_def rt_malloc_def)
next
  case False
  with v show ?thesis
  proof (cases rule: malloc_view)
    case null
    then show ?thesis using c by (intro that(1)) (simp add: rt_calloc_def)
  next
    case (block p k h1)
    have ck: "unat c \<le> k" using malloc_size_ge [OF c(2)] block(3) by simp
    have "mapped (ram h1) p k" using view_block(1) [OF block(4)] by simp
    then have mp: "mapped (ram h1) p (unat c)" using ck by (simp add: mapped_part)
    let ?m = "upd (ram h1) p (replicate (unat c) 0)"
    have set: "rt_memset (ram h1) p 0 c = Some ?m" using rt_memset_eq [OF mp] by simp
    have ch: "changes {p ..< p + k} (ram h1) ?m"
      by (rule changes_upd) (use mp ck in auto)
    let ?h = "h1\<lparr>ram := ?m\<rparr>"
    have "heap_view ?h (insert (p, k) A)" by (rule view_write [OF block(4) _ ch]) simp
    moreover have "kept A h1 ?h"
      unfolding kept_def same_area_def
    proof (intro conjI ballI)
      fix b assume b: "b \<in> A"
      obtain s i where si: "b = (s, i)" by (cases b)
      have "{p ..< p + k} \<inter> {s ..< s + i} = {}" using block(5) b si by (auto simp: fresh_def)
      from changes_bytes [OF ch this]
      show "case b of (s, i) \<Rightarrow> bytes (ram ?h) s i = bytes (ram h1) s i" by (simp add: si)
    qed (use ch in \<open>simp_all add: changes_def\<close>)
    then have "kept A h ?h" by (rule kept_trans [OF block(6)]) simp_all
    moreover have "rt_calloc count sz h = Some (p, ?h)"
      using block(1,2) set c(1) by (simp add: rt_calloc_def)
    ultimately show ?thesis using block by (intro that(2) [of p ?h k]) simp_all
  qed
qed

subsection \<open>The heap under any client\<close>

text \<open>The size of a block, as its header has it.\<close>

definition usable :: "mem_heap \<Rightarrow> nat \<Rightarrow> nat option" where
  "usable h p = do {
     x \<leftarrow> ld_mem (ram h) (p - 12);
     Some (unat (mem_next x - offset h (p - 12) - 12)) }"

lemma usable_view:
  assumes "heap_view h A" "(p, n) \<in> A"
  shows "usable h p = Some n"
proof -
  from assms obtain bs where inv: "heap_holds h bs" and a: "(p, n) \<in> allocs (heap_ptr h) bs"
    by (auto simp: heap_view_def)
  from a obtain xs ys where bs: "bs = xs @ (True, n) # ys" "p = heap_ptr h + total xs + 12"
    by (rule allocs_split)
  note core = heap_holds_core [OF inv, unfolded bs(1)]
  have "unat (of_nat n :: u32) = n"
    using core_header(2) [OF core] by (intro unat_offset [OF order_refl]) simp
  then show ?thesis using core_header(1) [OF core] offset_block(1) [OF core] bs(2) by (simp add: usable_def)
qed

text \<open>For a product above 2\^32 - 4 the size that \<^verbatim>\<open>rt_malloc\<close> aligns wraps around to 0 and it gives a
  block of 12 bytes, but the whole product is cleared: where nothing is mapped behind the heap,
  the call goes astray.\<close>

lemma calloc_wraps:
  assumes v: "heap_view h A" and big: "0xfffffffc < count * sz" and gap: "heap_end h + 12 \<notin> dom (ram h)"
  shows "rt_calloc count sz h = Some (RT_NULL, h) \<or> rt_calloc count sz h = None"
proof -
  have "count * sz \<noteq> 0" using big by auto
  with v show ?thesis
  proof (cases rule: malloc_view)
    case null
    then show ?thesis by (simp add: rt_calloc_def)
  next
    case (block p k h1)
    note b = view_block [OF block(4), of p k]
    have e: "heap_end h1 = heap_end h" "dom (ram h1) = dom (ram h)"
      using block(6) by (simp_all add: kept_def same_area_def)
    have "0xfffffffc < unat (count * sz)" using big by (simp add: word_less_nat_alt)
    moreover have "heap_end h + 12 < 2 ^ 32"
      using v core_geo [OF heap_holds_core] by (auto simp: heap_view_def)
    ultimately have "heap_end h + 12 \<in> {p ..< p + unat (count * sz)}" using b e by simp
    then have "\<not> mapped (ram h1) p (unat (count * sz))" using gap e by (auto simp: mapped_def)
    then have "rt_memset (ram h1) p 0 (count * sz) = None" using rt_memset_mapped by fastforce
    then show ?thesis using block(1,2) by (simp add: rt_calloc_def)
  qed
qed

text \<open>One call of a client. The calls of \<^verbatim>\<open>rt_calloc\<close> are those of any size that return, as long as the
  memory ends with the heap.\<close>

inductive mem_step :: "mem_heap \<times> (nat \<times> nat) set \<Rightarrow> mem_heap \<times> (nat \<times> nat) set \<Rightarrow> bool" where
  refused: "rt_malloc n h = Some (RT_NULL, h') \<Longrightarrow> mem_step (h, A) (h', A)"
| malloc: "rt_malloc n h = Some (p, h') \<Longrightarrow> p \<noteq> RT_NULL \<Longrightarrow> usable h' p = Some k \<Longrightarrow>
    mem_step (h, A) (h', insert (p, k) A)"
| calloc_refused: "rt_calloc c n h = Some (RT_NULL, h') \<Longrightarrow> mem_step (h, A) (h', A)"
| calloc: "rt_calloc c n h = Some (p, h') \<Longrightarrow> c * n \<le> 0xfffffffc \<or> heap_end h + 12 \<notin> dom (ram h) \<Longrightarrow>
    p \<noteq> RT_NULL \<Longrightarrow> usable h' p = Some k \<Longrightarrow> mem_step (h, A) (h', insert (p, k) A)"
| free: "(p, k) \<in> A \<Longrightarrow> rt_free p h = Some h' \<Longrightarrow> mem_step (h, A) (h', A - {(p, k)})"
| realloc_refused: "(p, k) \<in> A \<Longrightarrow> rt_realloc p n h = Some (RT_NULL, h') \<Longrightarrow> RT_ALIGN n 4 \<noteq> 0 \<Longrightarrow>
    mem_step (h, A) (h', A)"
| realloc_free: "(p, k) \<in> A \<Longrightarrow> rt_realloc p n h = Some (RT_NULL, h') \<Longrightarrow> RT_ALIGN n 4 = 0 \<Longrightarrow>
    mem_step (h, A) (h', A - {(p, k)})"
| realloc: "(p, k) \<in> A \<Longrightarrow> rt_realloc p n h = Some (q, h') \<Longrightarrow> q \<noteq> RT_NULL \<Longrightarrow> usable h' q = Some j \<Longrightarrow>
    mem_step (h, A) (h', insert (q, j) (A - {(p, k)}))"
| user_write: "(p, k) \<in> A \<Longrightarrow> changes {p ..< p + k} (ram h) m \<Longrightarrow> mem_step (h, A) (h\<lparr>ram := m\<rparr>, A)"

lemma rt_malloc_0 [simp]: "rt_malloc 0 h = Some (RT_NULL, h)"
  by (simp add: rt_malloc_def)

lemma mem_step_view:
  assumes "mem_step s t" "heap_view (fst s) (snd s)"
  shows "heap_view (fst t) (snd t)"
  using assms
proof (induction rule: mem_step.induct)
  case (refused n h h' A)
  then show ?case
  proof (cases "n = 0")
    case False
    have "heap_view h A" using refused by simp
    then show ?thesis by (cases rule: malloc_view [OF _ False]) (use refused in auto)
  qed simp
next
  case (malloc n h p h' k A)
  then have n: "n \<noteq> 0" and v: "heap_view h A" by auto
  from v n show ?case
  proof (cases rule: malloc_view)
    case (block p' k' h'')
    then have "usable h' p = Some k'" using malloc usable_view [OF block(4), of p' k'] by simp
    then show ?thesis using malloc block by simp
  qed (use malloc in simp)
next
  case (calloc_refused c n h h' A)
  from calloc_refused(1) obtain h1 where "rt_malloc (c * n) h = Some (RT_NULL, h1)" "h' = h1"
    by (auto simp: rt_calloc_def split: bind_splits if_splits)
  moreover from this have "h1 = h"
    using calloc_refused(2) malloc_view [of h A "c * n"] by (cases "c * n = 0") auto
  ultimately show ?case using calloc_refused(2) by simp
next
  case (calloc c n h p h' k A)
  then have v: "heap_view h A" by simp
  have "c * n \<le> 0xfffffffc"
  proof (rule ccontr)
    assume "\<not> c * n \<le> 0xfffffffc"
    with calloc(2) have "0xfffffffc < c * n" "heap_end h + 12 \<notin> dom (ram h)" by simp_all
    from calloc_wraps [OF v this] calloc(1,3) show False by simp
  qed
  from v refl this show ?case
  proof (cases rule: calloc_view)
    case (block p' k' h'')
    then have "usable h' p = Some k'" using calloc usable_view [OF block(4), of p' k'] by simp
    then show ?thesis using calloc block by simp
  qed (use calloc in simp)
next
  case (free p k A h h')
  then have v: "heap_view h A" by simp
  show ?case by (rule free_view [OF v free(1)]) (use free in simp)
next
  case (realloc_refused p k A n h h')
  then have v: "heap_view h A" by simp
  from v realloc_refused(1) refl show ?case
    by (cases rule: realloc_view [where newsize = n]) (use realloc_refused in \<open>auto simp: unat_eq_0\<close>)
next
  case (realloc_free p k A n h h')
  then have v: "heap_view h A" by simp
  from v realloc_free(1) refl show ?case
    by (cases rule: realloc_view [where newsize = n]) (use realloc_free in auto)
next
  case (realloc p k A n h q h' j)
  then have v: "heap_view h A" by simp
  from v realloc(1) refl show ?case
  proof (cases rule: realloc_view [where newsize = n])
    case (resized q' j' h'')
    then have "usable h' q = Some j'" using realloc usable_view [OF resized(5), of q' j'] by simp
    then show ?thesis using realloc resized by simp
  qed (use realloc in simp_all)
next
  case (user_write p k A h m)
  then show ?case using view_write by simp
qed

lemma mem_steps_view:
  "mem_step\<^sup>*\<^sup>* s t \<Longrightarrow> heap_view (fst s) (snd s) \<Longrightarrow> heap_view (fst t) (snd t)"
  by (induction rule: rtranclp_induct) (auto intro: mem_step_view)


subsection \<open>The contract of an allocator\<close>

definition malloc_room :: "u32 \<Rightarrow> nat" where
  "malloc_room n = (if n = 0 then 0 else malloc_size n)"

interpretation heap: allocator heap_view rt_malloc rt_free malloc_room
proof
  fix s A n
  assume v: "heap_view s A"
  show "\<exists>p s'. rt_malloc n s = Some (p, s') \<and> (p = 0 \<and> heap_view s' A \<or>
      p \<noteq> 0 \<and> (\<exists>k. malloc_room n \<le> k \<and> fresh A p k \<and> heap_view s' (insert (p, k) A)))"
  proof (cases "n = 0")
    case False
    from v False show ?thesis
      by (cases rule: malloc_view) (use v False in \<open>auto simp: malloc_room_def\<close>)
  qed (use v in auto)
next
  show "\<exists>s'. rt_free p s = Some s' \<and> heap_view s' (A - {(p, k)})"
    if "heap_view s A" "(p, k) \<in> A" for s A p k
    by (rule free_view [OF that]) blast
qed (auto dest: view_apart view_block(5))

end
