(* ===== verification/Memory_Properties.thy ===== *)
theory Memory_Properties
  imports Mem_Client
begin

text \<open>
  The properties of the system heap and of the memory routines of the kernel service. The
  witnesses run them on a heap of 160 bytes at address 1024.
\<close>

definition heap_area :: "u32 \<Rightarrow> u32 \<Rightarrow> mem_heap \<Rightarrow> bool" where
  "heap_area begin_addr end_addr h \<longleftrightarrow>
     (let b = unat (RT_ALIGN begin_addr 4); e = unat (RT_ALIGN_DOWN end_addr 4) in
      b + 36 \<le> e \<and> e < b + 2 ^ 31 \<and> mapped (ram h) b (e - b) \<and> used_mem h = 0)"

definition blank :: mem_heap where
  "blank = \<lparr>heap_ptr = 0, heap_end = 0, lfree = 0, mem_size_aligned = 0, used_mem = 0, max_mem = 0,
            ram = (\<lambda>_. Some 0)\<rparr>"

lemma blank_area: "heap_area 1024 1184 blank"
proof -
  have "unat (RT_ALIGN 1024 4) = 1024" "unat (RT_ALIGN_DOWN 1184 4) = 1184"
    by (simp_all add: unat_align_up unat_align_down)
  then show ?thesis by (simp add: heap_area_def blank_def mapped_def)
qed

lemma heap_area_init:
  assumes "heap_area b e h"
  obtains h' n where "rt_system_heap_init b e h = Some h'" "heap_view h' {}"
    "heap_holds h' [(False, n)]" "lfree_lowest h' [(False, n)]" "n + 24 = unat (RT_ALIGN_DOWN e 4) - unat (RT_ALIGN b 4)"
    "heap_ptr h' = unat (RT_ALIGN b 4)" "unat (mem_size_aligned h') = n"
proof -
  let ?b = "unat (RT_ALIGN b 4)" and ?e = "unat (RT_ALIGN_DOWN e 4)"
  have a: "?b + 24 \<le> ?e" "24 < ?e" "mapped (ram h) ?b (?e - ?b)" "used_mem h = 0"
    and sz: "?b + 36 \<le> ?e" "?e < ?b + 2 ^ 31"
    using assms by (simp_all add: heap_area_def Let_def)
  from heap_init_ok [OF refl refl a] obtain h' where h':
    "rt_system_heap_init b e h = Some h'" "heap_holds h' [(False, ?e - ?b - 24)]"
    "lfree_lowest h' [(False, ?e - ?b - 24)]" "heap_ptr h' = ?b"
    "unat (mem_size_aligned h') = ?e - ?b - 24" by blast
  have "heap_view h' {}"
    using h'(2,5) sz by (auto simp: heap_view_def word_le_nat_alt word_less_nat_alt intro!: exI [of _ "[(False, ?e - ?b - 24)]"])
  with h' sz show ?thesis by (intro that [of h' "?e - ?b - 24"]) simp_all
qed

lemma blank_init:
  obtains h where "rt_system_heap_init 1024 1184 blank = Some h" "heap_view h {}"
    "heap_holds h [(False, 136)]" "lfree_lowest h [(False, 136)]"
    "heap_ptr h = 1024" "unat (mem_size_aligned h) = 136"
proof -
  have a: "unat (RT_ALIGN 1024 4) = 1024" "unat (RT_ALIGN_DOWN 1184 4) = 1184"
    by (simp_all add: unat_align_up unat_align_down)
  obtain h n where h: "rt_system_heap_init 1024 1184 blank = Some h" "heap_view h {}"
    "heap_holds h [(False, n)]" "lfree_lowest h [(False, n)]"
    "n + 24 = unat (RT_ALIGN_DOWN 1184 4) - unat (RT_ALIGN 1024 4)"
    "heap_ptr h = unat (RT_ALIGN 1024 4)" "unat (mem_size_aligned h) = n"
    by (rule heap_area_init [OF blank_area])
  from h(5) have "n = 136" unfolding a by simp
  with h a show ?thesis by (intro that [of h]) simp_all
qed

lemma one_free_block:
  assumes "heap_holds h bs" "allocs (heap_ptr h) bs = {}"
  shows "bs = [(False, unat (mem_size_aligned h))]"
proof -
  have "\<not> fst b" if "b \<in> set bs" for b
    using assms(2) that
  proof (induction bs arbitrary: h)
    case (Cons c cs)
    have "allocs a cs = {} \<Longrightarrow> allocs a' cs = {}" for a a'
      by (induction cs arbitrary: a a') (auto split: if_splits)
    with Cons show ?case by (auto split: if_splits)
  qed simp
  moreover have "bs \<noteq> []" "no_gaps bs" "total bs = unat (mem_size_aligned h) + 12"
    using assms(1) by (auto simp: heap_holds_def heap_core_def)
  ultimately show ?thesis
    by (cases bs rule: remdups_adj.cases) (auto simp: bsize_eq prod_eq_iff)
qed

text \<open>The first request on a heap that is one free block.\<close>

lemma first_malloc:
  assumes inv: "heap_holds h [(False, k)]" and low: "lfree_lowest h [(False, k)]"
    and n: "n \<noteq> 0" "malloc_size n < k" and sz: "12 \<le> mem_size_aligned h"
  obtains h' where "rt_malloc n h = Some (heap_ptr h + 12, h')" "heap_holds h' (cut (malloc_size n) k)"
    "same_area h h'"
  using inv sz n(1)
proof (cases rule: rt_malloc_ok)
  case null
  then show ?thesis using low n(2) by fastforce
next
  case (block xs j ys h')
  then have "xs = [] \<and> j = k \<and> ys = []" by (cases xs) auto
  then show ?thesis using block by (intro that) simp_all
qed

lemma blank_malloc:
  assumes "n \<noteq> 0" "malloc_size n < 136"
  obtains h h' where "rt_system_heap_init 1024 1184 blank = Some h" "rt_malloc n h = Some (1036, h')"
    "heap_view h {}" "heap_view h' {(1036, if malloc_size n \<le> 112 then malloc_size n else 136)}"
    "heap_holds h' (cut (malloc_size n) 136)" "heap_ptr h' = 1024" "unat (mem_size_aligned h') = 136"
proof -
  obtain h where h: "rt_system_heap_init 1024 1184 blank = Some h" "heap_view h {}"
    "heap_holds h [(False, 136)]" "lfree_lowest h [(False, 136)]"
    "heap_ptr h = 1024" "unat (mem_size_aligned h) = 136" by (rule blank_init)
  have sz: "12 \<le> mem_size_aligned h" using h(2) by (simp add: heap_view_def)
  obtain h' where h': "rt_malloc n h = Some (heap_ptr h + 12, h')"
    "heap_holds h' (cut (malloc_size n) 136)" "same_area h h'"
    by (rule first_malloc [OF h(3,4) assms sz])
  have "allocs (heap_ptr h) (cut (malloc_size n) 136) =
      {(1036, if malloc_size n \<le> 112 then malloc_size n else 136)}"
    by (simp add: cut_def h(5))
  from view_next [OF h(2) h'(3,2) this] h h' show ?thesis
    by (intro that [of h h']) (simp_all add: same_area_def)
qed

lemma size_20: "malloc_size 20 = 20" and size_120: "malloc_size 120 = 120"
  by (simp_all add: malloc_size_def unat_align_up)

text \<open>C12: Whatever a client does with the heap, as long as it frees and resizes only blocks it
  was given, once, and writes only into blocks it holds (\<open>mem_step\<close>): from the initialisation of
  an area of at least 36 bytes on, the blocks it holds lie in the area, are aligned and do not
  overlap, and every further call returns: \<open>rt_malloc\<close> for any size, \<open>rt_free\<close> and \<open>rt_realloc\<close> for any
  block it holds, and \<open>rt_calloc\<close> where the product of its arguments, taken modulo 2\^32, is at most
  2\^32 - 4. No assertion fails, no header is read outside the heap, no loop runs for ever. For the
  three larger products \<open>rt_calloc\<close> gives a null pointer or, where the memory ends with the heap,
  writes outside of it: \<open>rt_malloc\<close> has given it a block of 12 bytes.\<close>

theorem heap_any_client:
  assumes area: "heap_area begin_addr end_addr h0"
    and init: "rt_system_heap_init begin_addr end_addr h0 = Some h"
    and run: "mem_step\<^sup>*\<^sup>* (h, {}) (h', A)"
  shows "apart A \<and>
    (\<forall>(p, k) \<in> A. 4 dvd p \<and> heap_ptr h' + 12 \<le> p \<and> p + k \<le> heap_end h' \<and>
       rt_free p h' \<noteq> None \<and> (\<forall>n. rt_realloc p n h' \<noteq> None)) \<and>
    (\<forall>n. rt_malloc n h' \<noteq> None) \<and> (\<forall>c n. c * n \<le> 0xfffffffc \<longrightarrow> rt_calloc c n h' \<noteq> None) \<and>
    (\<forall>c n. 0xfffffffc < c * n \<longrightarrow> heap_end h' + 12 \<notin> dom (ram h') \<longrightarrow>
       rt_calloc c n h' \<in> {Some (RT_NULL, h'), None})"
proof -
  have "heap_view h {}" using heap_area_init [OF area] init by auto
  then have v: "heap_view h' A" using mem_steps_view [OF run] by simp
  have "rt_malloc n h' \<noteq> None" for n using heap.alloc [OF v, of n] by auto
  moreover have "rt_calloc c n h' \<noteq> None" if "c * n \<le> 0xfffffffc" for c n
    by (rule calloc_view [OF v refl that]) auto
  moreover have "rt_calloc c n h' \<in> {Some (RT_NULL, h'), None}"
    if "0xfffffffc < c * n" "heap_end h' + 12 \<notin> dom (ram h')" for c n
    using calloc_wraps [OF v that] by simp
  moreover have "4 dvd p \<and> heap_ptr h' + 12 \<le> p \<and> p + k \<le> heap_end h' \<and>
      rt_free p h' \<noteq> None \<and> (\<forall>n. rt_realloc p n h' \<noteq> None)" if a: "(p, k) \<in> A" for p k
  proof -
    have "rt_free p h' \<noteq> None" using heap.release [OF v a] by auto
    moreover have "rt_realloc p n h' \<noteq> None" for n
      by (rule realloc_view [OF v a refl, of n]) auto
    ultimately show ?thesis using view_block [OF v a] by simp
  qed
  ultimately show ?thesis using view_apart [OF v] by auto
qed

theorem heap_any_client_witness:
  "\<exists>h p h'. rt_system_heap_init 1024 1184 blank = Some h \<and> rt_malloc 20 h = Some (p, h') \<and>
     rt_free p h' \<noteq> None \<and> rt_realloc p 0xffffffff h' \<noteq> None"
proof -
  obtain h h' where h: "rt_system_heap_init 1024 1184 blank = Some h" "rt_malloc 20 h = Some (1036, h')"
    "heap_view h {}" "heap_view h' {(1036, 20)}"
    by (rule blank_malloc [of 20]) (simp_all add: size_20)
  have "mem_step (h, {}) (h', insert (1036, 20) {})"
    by (rule mem_step.malloc [OF h(2) _ usable_view [OF h(4)]]) simp_all
  then have "mem_step\<^sup>*\<^sup>* (h, {}) (h', {(1036, 20)})" by simp
  from heap_any_client [OF blank_area h(1) this]
  have "rt_free 1036 h' \<noteq> None \<and> rt_realloc 1036 0xffffffff h' \<noteq> None" by simp
  then show ?thesis using h(1,2) by blast
qed

text \<open>C13: \<open>rt_malloc\<close> of a size above 0, rounded up to \<open>malloc_size\<close>, takes a free block that is
  large enough, cuts off what is left when that makes a block of at least 12 bytes, and gives the
  address behind its header; the contents of all blocks in use are kept. Otherwise it gives a
  null pointer and changes nothing; as long as \<open>lfree\<close> is the lowest free block, which \<open>rt_malloc\<close>
  keeps, that happens only if every free block is too small, or is the last one and has exactly
  the size asked for (the loop stops one block too early).\<close>

theorem heap_malloc_first_fit:
  assumes "heap_holds h bs" "12 \<le> mem_size_aligned h" "n \<noteq> 0"
  shows "rt_malloc n h = Some (RT_NULL, h) \<and>
      (lfree_lowest h bs \<longrightarrow> (\<forall>xs k ys. bs = xs @ (False, k) # ys \<longrightarrow>
         k < malloc_size n \<or> k = malloc_size n \<and> ys = [])) \<or>
    (\<exists>xs k ys h'. bs = xs @ (False, k) # ys \<and> malloc_size n \<le> k \<and>
       rt_malloc n h = Some (heap_ptr h + total xs + 12, h') \<and>
       heap_holds h' (xs @ cut (malloc_size n) k @ ys) \<and>
       (lfree_lowest h bs \<longrightarrow> lfree_lowest h' (xs @ cut (malloc_size n) k @ ys)) \<and>
       kept (allocs (heap_ptr h) bs) h h')"
  using assms
proof (cases rule: rt_malloc_ok)
  case null
  then show ?thesis by blast
next
  case (block xs k ys h')
  have "kept (allocs (heap_ptr h) bs) h h'"
    using block(5,6) changes_view [OF block(6)] by (auto simp: kept_def changes_def)
  with block show ?thesis by blast
qed

theorem heap_malloc_first_fit_witness:
  "\<exists>h h'. rt_malloc 20 h = Some (1036, h') \<and> heap_holds h' [(True, 20), (False, 104)]"
proof -
  obtain h where h: "heap_view h {}" "heap_holds h [(False, 136)]" "lfree_lowest h [(False, 136)]"
    "heap_ptr h = 1024" by (rule blank_init)
  have sz: "12 \<le> mem_size_aligned h" using h(1) by (simp add: heap_view_def)
  have one: "[(False, 136)] = xs @ (False, k) # ys \<longleftrightarrow> xs = [] \<and> k = 136 \<and> ys = []" for xs k ys
    by (cases xs) auto
  have "(20 :: u32) \<noteq> 0" by simp
  from heap_malloc_first_fit [OF h(2) sz this] obtain h' where
    "rt_malloc 20 h = Some (heap_ptr h + 12, h')" "heap_holds h' (cut 20 136)"
    using h(3) by (auto simp: one size_20)
  then show ?thesis using h(4) by (auto simp: cut_def)
qed

text \<open>C15: \<open>rt_free\<close> of a block in use makes it free and joins it with free neighbours on both
  sides; other blocks keep their contents, \<open>lfree\<close> stays the lowest free block if it was, and when
  nothing is in use any more the heap is one free block of its full size again.\<close>

theorem heap_free_joins:
  assumes "heap_holds h (xs @ (True, n) # ys)"
  shows "\<exists>h'. rt_free (heap_ptr h + total xs + 12) h = Some h' \<and> heap_holds h' (plug xs n ys) \<and>
    (lfree_lowest h (xs @ (True, n) # ys) \<longrightarrow> lfree_lowest h' (plug xs n ys)) \<and>
    kept (allocs (heap_ptr h) (plug xs n ys)) h h' \<and>
    (allocs (heap_ptr h) (plug xs n ys) = {} \<longrightarrow> plug xs n ys = [(False, unat (mem_size_aligned h))])"
proof -
  from rt_free_ok [OF assms] obtain h' where h':
    "rt_free (heap_ptr h + total xs + 12) h = Some h'" "heap_holds h' (plug xs n ys)" "same_area h h'"
    "changes (own h (xs @ (False, n) # ys)) (ram h) (ram h')"
    "lfree_lowest h (xs @ (True, n) # ys) \<Longrightarrow> lfree_lowest h' (plug xs n ys)" by blast
  have "kept (allocs (heap_ptr h) (plug xs n ys)) h h'"
    using h'(3,4) changes_view [OF h'(4)] unfolding plug_alloc(1) by (auto simp: kept_def changes_def)
  moreover have "plug xs n ys = [(False, unat (mem_size_aligned h))]"
    if "allocs (heap_ptr h) (plug xs n ys) = {}"
    using one_free_block [OF h'(2)] h'(3) that by (simp add: same_area_def)
  ultimately show ?thesis using h'(1,2,5) by blast
qed

theorem heap_free_joins_witness:
  "\<exists>h h'. heap_holds h [(True, 20), (False, 104)] \<and> rt_free 1036 h = Some h' \<and>
     heap_holds h' [(False, 136)]"
proof -
  obtain h where h: "heap_holds h (cut (malloc_size 20) 136)" "heap_ptr h = 1024"
    "unat (mem_size_aligned h) = 136"
    by (rule blank_malloc [of 20]) (simp_all add: size_20)
  then have "heap_holds h ([] @ (True, 20) # [(False, 104)])" by (simp add: cut_def size_20)
  from heap_free_joins [OF this] h show ?thesis
    by (auto simp: plug_def cut_def size_20)
qed


lemma align_big_0: "0xfffffffc < n \<Longrightarrow> RT_ALIGN n 4 = 0"
proof -
  assume big: "0xfffffffc < n"
  have "unat n < 2 ^ LENGTH(32)" by (rule unsigned_less)
  moreover have "0xfffffffc < unat n" using big by (simp add: word_less_nat_alt)
  ultimately have "unat n = 0xfffffffd + (unat n - 0xfffffffd)" "unat n - 0xfffffffd < 3" by simp_all
  then obtain d where d: "unat n = 0xfffffffd + d" "d < 3" by blast
  have "unat (n + 3) = (unat n + 3) mod 2 ^ 32" by (simp add: unat_word_ariths)
  then have "unat (n + 3) < 4" using d by simp
  then have "unat (RT_ALIGN n 4) = 0" by (simp add: align_up_down unat_align_down)
  then show ?thesis by (simp add: unat_eq_0)
qed

text \<open>C14: \<open>rt_realloc\<close> of a block in use to a size from 1 to 2\^32 - 4, which is \<open>k\<close> when it is
  aligned, either gives a null pointer and changes nothing, or gives a block of at least \<open>k\<close> bytes
  whose first bytes, as many as fit into both, are those of the old one; the other blocks keep their
  contents and the old block is no longer in use. To a size of 0, and to a size above 2\^32 - 4,
  whose alignment wraps around to 0, it frees the block and gives a null pointer.\<close>

theorem heap_realloc_keeps_contents:
  assumes "heap_view h A" "(p, n) \<in> A" "k = unat (RT_ALIGN newsize 4)"
  shows "\<exists>q h'. rt_realloc p newsize h = Some (q, h') \<and>
    (if 0 < newsize \<and> newsize \<le> 0xfffffffc
     then q = RT_NULL \<and> h' = h \<or>
       q \<noteq> RT_NULL \<and> bytes (ram h') q (min n k) = bytes (ram h) p (min n k) \<and>
       (\<exists>j \<ge> k. heap_view h' (insert (q, j) (A - {(p, n)})) \<and> kept (A - {(p, n)}) h h')
     else q = RT_NULL \<and> rt_free p h = Some h' \<and> heap_view h' (A - {(p, n)}))"
proof -
  have z: "k = 0 \<longleftrightarrow> \<not> (0 < newsize \<and> newsize \<le> 0xfffffffc)"
  proof (cases "newsize \<le> 0xfffffffc")
    case True
    then have "k = 4 * ((unat newsize + 3) div 4)" using assms(3) by (simp add: unat_align_up)
    moreover have "0 < newsize \<longleftrightarrow> unat newsize \<noteq> 0" by (simp add: unat_eq_0 word_neq_0_conv)
    ultimately show ?thesis using True by auto
  next
    case False
    then show ?thesis using align_big_0 [of newsize] assms(3) by simp
  qed
  show ?thesis
  proof (cases "k = 0")
    case True
    have a: "RT_ALIGN newsize 4 = 0" using True assms(3) by (simp add: unat_eq_0)
    obtain h' where h': "rt_free p h = Some h'" "heap_view h' (A - {(p, n)})"
      by (rule free_view [OF assms(1,2)])
    have "rt_realloc p newsize h = Some (RT_NULL, h')" by (simp add: rt_realloc_def a h'(1))
    moreover have c: "(0 < newsize \<and> newsize \<le> 0xfffffffc) = False" using True z by (simp only: simp_thms)
    ultimately show ?thesis unfolding c if_False using h' by blast
  next
    case False
    from assms show ?thesis
    proof (cases rule: realloc_view)
      case (resized q j h')
      then show ?thesis using False z by (intro exI [of _ q] exI [of _ h']) auto
    qed (use False z in auto)
  qed
qed

theorem heap_realloc_keeps_contents_witness:
  "\<exists>h q h'. heap_view h {(1036, 20)} \<and> rt_realloc 1036 40 h = Some (q, h') \<and>
     (q = RT_NULL \<or> bytes (ram h') q 20 = bytes (ram h) 1036 20)"
proof -
  obtain h where h: "heap_view h {(1036, 20)}"
    by (rule blank_malloc [of 20]) (simp_all add: size_20)
  have "unat (RT_ALIGN 40 4) = 40" by (simp add: unat_align_up)
  then have "(1036, 20) \<in> {(1036, 20)}" "40 = unat (RT_ALIGN 40 4)" by simp_all
  from heap_realloc_keeps_contents [OF h this] h show ?thesis by auto
qed

text \<open>\<open>rt_malloc\<close> finds nothing when \<open>lfree\<close> stands at the end mark.\<close>

lemma malloc_at_end:
  assumes inv: "heap_holds h bs" and sz: "12 \<le> mem_size_aligned h" and lf: "lfree h = heap_end h"
  shows "rt_malloc n h = Some (RT_NULL, h)"
proof (cases "n = 0")
  case False
  note core = heap_holds_core [OF inv]
  have "offset h (lfree h) = of_nat (total bs)"
    using lf core_geo(1) [OF core] by (simp add: offset_def)
  moreover have "unat (of_nat (malloc_size n) :: u32) = malloc_size n"
    by (auto simp: malloc_size_def max_def)
  ultimately show ?thesis
    using malloc_find_eq [of h bs "[]" "of_nat (malloc_size n)"] core
    by (simp add: rt_malloc_eq [OF False sz] word_le_nat_alt)
qed simp

text \<open>When the heap is full (\<open>lfree\<close> stands at the end) and a block is made smaller with
  \<open>rt_realloc\<close>, the rest becomes a free block, but \<open>lfree\<close> is not moved down to it: every
  \<open>rt_malloc\<close> after that fails, whatever the size, until some block is freed.\<close>

theorem heap_realloc_hides_free_memory:
  assumes inv: "heap_holds h (xs @ (True, n) # ys)" and full: "lfree h = heap_end h"
    and sz: "12 \<le> mem_size_aligned h"
    and k: "k = unat (RT_ALIGN newsize 4)" "0 < k" "k + 24 < n"
  shows "\<exists>h'. rt_realloc (heap_ptr h + total xs + 12) newsize h = Some (heap_ptr h + total xs + 12, h') \<and>
    heap_holds h' (xs @ (True, k) # join_next (n - k - 12) ys) \<and>
    (\<forall>m. rt_malloc m h' = Some (RT_NULL, h'))"
proof -
  have dv: "4 dvd k" using k(1) by simp
  from shrink_ok [OF inv k(3) dv k(2)] obtain h' where h':
    "do { h \<leftarrow> carve (of_nat (total xs)) (of_nat k) id (h\<lparr>used_mem := used_mem h - of_nat (n - k)\<rparr>);
        plug_holes (addr h (of_nat (total xs) + 12 + of_nat k)) h } = Some h'"
    "heap_holds h' (xs @ (True, k) # join_next (n - k - 12) ys)" "same_area h h'"
    "lfree h = heap_end h \<Longrightarrow> lfree h' = heap_end h" by blast
  have "n \<le> unat (mem_size_aligned h)" using inv by (simp add: heap_holds_def heap_core_def)
  then have "rt_realloc (heap_ptr h + total xs + 12) newsize h = Some (heap_ptr h + total xs + 12, h')"
    unfolding rt_realloc_block [OF inv k(1) refl] h'(1) using k by simp
  moreover have "rt_malloc m h' = Some (RT_NULL, h')" for m
    using h'(3,4) full sz by (intro malloc_at_end [OF h'(2)]) (simp_all add: same_area_def)
  ultimately show ?thesis using h'(2) by blast
qed

theorem heap_realloc_hides_free_memory_witness:
  "\<exists>h h'. heap_holds h [(True, 136)] \<and> rt_realloc 1036 20 h = Some (1036, h') \<and>
     heap_holds h' [(True, 20), (False, 104)] \<and> rt_malloc 16 h' = Some (RT_NULL, h')"
proof -
  obtain h where h: "heap_holds h (cut (malloc_size 120) 136)" "heap_ptr h = 1024"
    "unat (mem_size_aligned h) = 136"
    by (rule blank_malloc [of 120]) (simp_all add: size_120)
  then have inv: "heap_holds h ([] @ (True, 136) # [])" by (simp add: cut_def size_120)
  then have "lfree h = heap_end h" by (simp add: heap_holds_def lfree_ok_def)
  moreover have "12 \<le> mem_size_aligned h" using h(3) by (simp add: word_le_nat_alt)
  moreover have "20 = unat (RT_ALIGN 20 4)" by (simp add: unat_align_up)
  moreover have "0 < (20 :: nat)" "20 + 24 < (136 :: nat)" by simp_all
  ultimately obtain h' where
    "rt_realloc (heap_ptr h + total [] + 12) 20 h = Some (heap_ptr h + total [] + 12, h')"
    "heap_holds h' ([] @ (True, 20) # join_next (136 - 20 - 12) [])"
    "\<forall>m. rt_malloc m h' = Some (RT_NULL, h')"
    using heap_realloc_hides_free_memory [OF inv] by blast
  then show ?thesis using inv h(2) by (intro exI [of _ h] exI [of _ h']) simp
qed

text \<open>Sizes are not checked for overflow: \<open>rt_malloc\<close> of more than 2\^32 - 4 bytes acts like
  \<open>rt_malloc\<close> of 12, \<open>rt_calloc\<close> of 2\^30 + 1 objects of 4 bytes like one of a single object, and
  \<open>rt_realloc\<close> to more than 2\^32 - 4 bytes frees the block.\<close>

theorem heap_sizes_wrap:
  assumes "0xfffffffc < n" "12 \<le> mem_size_aligned h"
  shows "rt_malloc n h = rt_malloc 12 h \<and> rt_calloc 0x40000001 4 h = rt_calloc 1 4 h \<and>
    rt_realloc p n h = do { h \<leftarrow> rt_free p h; Some (RT_NULL, h) }"
proof -
  have z: "RT_ALIGN n 4 = 0" using assms(1) by (rule align_big_0)
  have m: "malloc_size n = 12" "malloc_size 12 = 12" "malloc_size 4 = 12"
    by (simp_all add: malloc_size_def z unat_align_up)
  have n: "n \<noteq> 0" using assms(1) by auto
  have "rt_malloc x h = rt_malloc y h" if "x \<noteq> 0" "y \<noteq> 0" "malloc_size x = malloc_size y" for x y
    unfolding rt_malloc_eq [OF that(1) assms(2)] rt_malloc_eq [OF that(2) assms(2)] that(3) ..
  from this [OF n, of 12] have "rt_malloc n h = rt_malloc 12 h" by (simp add: m)
  moreover have "0x40000001 * 4 = (4 :: u32)" by (simp only: word_unat_eq_iff unat_word_ariths) simp
  then have "rt_calloc 0x40000001 4 h = rt_calloc 1 4 h" by (simp only: rt_calloc_def mult_1)
  moreover have "rt_realloc p n h = do { h \<leftarrow> rt_free p h; Some (RT_NULL, h) }"
    by (simp add: rt_realloc_def z)
  ultimately show ?thesis by simp
qed

theorem heap_sizes_wrap_witness:
  "\<exists>h. rt_malloc 0xffffffff h = rt_malloc 12 h \<and> heap_view h {}"
proof -
  obtain h where h: "heap_view h {}" by (rule blank_init)
  then have "12 \<le> mem_size_aligned h" by (simp add: heap_view_def)
  moreover have "(0xfffffffc :: u32) < 0xffffffff" by simp
  ultimately show ?thesis using heap_sizes_wrap h by blast
qed

text \<open>A client that asks for blocks of any sizes and gives back blocks it holds, in any
  order, on a heap with nothing in use is served to the end: no call fails, it never holds an
  address twice, and the blocks in use are exactly those it holds and do not overlap.\<close>

theorem heap_serves_client:
  assumes "heap_view h {}"
  shows "\<exists>held h' B. serve rt_malloc rt_free rs [] h = Some (held, h') \<and> heap_view h' B \<and>
    fst ` B = set held \<and> distinct held \<and> apart B"
  using heap.serve_ok [OF assms, of "[]" rs] by simp

theorem heap_serves_client_witness:
  "\<exists>h held h'. rt_system_heap_init 1024 1184 blank = Some h \<and>
     serve rt_malloc rt_free [Get 20, Get 30, Put 1, Get 8, Put 0, Put 0] [] h = Some (held, h')"
proof -
  obtain h where "rt_system_heap_init 1024 1184 blank = Some h" "heap_view h {}" by (rule blank_init)
  then show ?thesis using heap_serves_client by blast
qed

text \<open>C38: On mapped memory the routines of the kernel service do what the byte by byte versions
  do, whatever the alignment and the length: \<open>rt_memset\<close> fills like its byte loop, \<open>rt_memmove\<close> copies
  the old contents of the source however the blocks overlap, \<open>rt_memcpy\<close> does the same for blocks
  below 2\^31 bytes that do not overlap, and \<open>rt_memcmp\<close> is 0 for equal contents and negative
  when the first block comes first in the lexical order of bytes.\<close>

theorem block_routines_bytewise:
  "(mapped m d (unat n) \<longrightarrow> rt_memset m d c n = set_bytes m d (ucast c) (unat n)) \<and>
   (mapped m d (unat n) \<and> mapped m s (unat n) \<longrightarrow>
     rt_memmove m d s n = Some (upd m d (bytes m s (unat n))) \<and>
     (unat n < 2 ^ 31 \<and> (d + unat n \<le> s \<or> s + unat n \<le> d) \<longrightarrow>
       rt_memcpy m d s n = rt_memmove m d s n) \<and>
     (\<exists>r. rt_memcmp m d s n = Some r \<and>
        (r = 0 \<longleftrightarrow> bytes m d (unat n) = bytes m s (unat n)) \<and>
        (r < 0 \<longleftrightarrow> (bytes m d (unat n), bytes m s (unat n)) \<in> lexord {(a, b). a < b})))"
  by (simp add: rt_memset_eq set_bytes_eq rt_memmove_eq rt_memcpy_eq rt_memcmp_def memcmp_loop_eq)

theorem block_routines_bytewise_witness:
  "rt_memcpy (\<lambda>_. Some 7) 1024 2048 20 = rt_memmove (\<lambda>_. Some 7) 1024 2048 20"
proof -
  have "mapped (\<lambda>_. Some 7) a k" for a k by (simp add: mapped_def)
  then show ?thesis using block_routines_bytewise [of "\<lambda>_. Some 7" 1024 20 0 2048] by simp
qed

end
