(* ===== verification/Mqtt_Codec.thy ===== *)
theory Mqtt_Codec
  imports Rt_Prelude "HOL-Library.Monad_Syntax"
begin

text \<open>
  The encodings of the MQTT client (\<^verbatim>\<open>components/net/Protocol/mqtt/mqtt.c\<close>): big-endian
  integers, the variable-length \<^emph>\<open>remaining length\<close> of a packet, the client identifier test
  and the UTF-8 test.

  A memory block is a list of bytes, an entry \<open>None\<close> being a byte that was never written. A
  read outside the block or of such a byte is \<open>None\<close> as the result of the call. A C string
  argument is the list of its characters; \<open>c_mem\<close> adds the terminating 0. Plain \<^verbatim>\<open>char\<close> is
  unsigned, as it is for the ARM compilers of the board, and \<^verbatim>\<open>size_t\<close> has 32 bits.
\<close>

subsection \<open>Memory blocks\<close>

type_synonym mem = "byte option list"

definition peek :: "mem \<Rightarrow> nat \<Rightarrow> byte option" where
  "peek m i = (if i < length m then m ! i else None)"

definition poke :: "mem \<Rightarrow> nat \<Rightarrow> byte list \<Rightarrow> mem option" where
  "poke m i bs =
     (if i + length bs \<le> length m then Some (take i m @ map Some bs @ drop (i + length bs) m)
      else None)"

definition c_mem :: "byte list \<Rightarrow> mem" where
  "c_mem s = map Some s @ [Some 0]"

fun c_string :: "mem \<Rightarrow> byte list option" where
  "c_string [] = None"
| "c_string (None # m) = None"
| "c_string (Some b # m) = (if b = 0 then Some [] else map_option (Cons b) (c_string m))"

fun mem_bytes :: "mem \<Rightarrow> byte list option" where
  "mem_bytes [] = Some []"
| "mem_bytes (None # m) = None"
| "mem_bytes (Some b # m) = map_option (Cons b) (mem_bytes m)"

definition mem_slice :: "mem \<Rightarrow> nat \<Rightarrow> nat \<Rightarrow> byte list option" where
  "mem_slice m i n = (if i + n \<le> length m then mem_bytes (take n (drop i m)) else None)"

lemma peek_append: "peek (m @ m') i = (if i < length m then peek m i else peek m' (i - length m))"
  by (simp add: peek_def nth_append less_diff_conv2 not_less)

lemma peek_Cons [simp]: "peek (x # m) 0 = x" "peek (x # m) (Suc i) = peek m i"
  by (auto simp: peek_def)

lemma peek_map_Some [simp]: "peek (map Some s) i = (if i < length s then Some (s ! i) else None)"
  by (simp add: peek_def)

lemma peek_c_mem: "peek (c_mem s) i =
    (if i < length s then Some (s ! i) else if i = length s then Some 0 else None)"
  by (auto simp: c_mem_def peek_append) (simp add: peek_def)

lemma poke_length: "poke m i bs = Some m' \<Longrightarrow> length m' = length m"
  by (auto simp: poke_def split: if_splits)

lemma peek_poke:
  "poke m i bs = Some m' \<Longrightarrow>
   peek m' j = (if i \<le> j \<and> j < i + length bs then Some (bs ! (j - i)) else peek m j)"
proof -
  assume "poke m i bs = Some m'"
  then have le: "i + length bs \<le> length m"
    and m': "m' = take i m @ map Some bs @ drop (i + length bs) m"
    by (auto simp: poke_def split: if_splits)
  have "length m' = length m" using le by (simp add: m')
  moreover have "m' ! j = (if i \<le> j \<and> j < i + length bs then Some (bs ! (j - i)) else m ! j)"
    if "j < length m"
    using le that by (auto simp: m' nth_append min_absorb2)
  ultimately show ?thesis using le unfolding peek_def by simp
qed

lemma c_string_c_mem: "0 \<notin> set s \<Longrightarrow> c_string (c_mem s @ m) = Some s"
  by (induction s) (auto simp: c_mem_def)

lemma mem_bytes_map_Some [simp]: "mem_bytes (map Some bs) = Some bs"
  by (induction bs) auto

lemma mem_bytes_Some: "mem_bytes m = Some bs \<longleftrightarrow> m = map Some bs"
proof
  show "mem_bytes m = Some bs \<Longrightarrow> m = map Some bs"
    by (induction m arbitrary: bs rule: mem_bytes.induct) auto
qed simp

lemma mem_slice_Some: "mem_slice m i n = Some bs \<longleftrightarrow> i + n \<le> length m \<and> take n (drop i m) = map Some bs"
  by (auto simp: mem_slice_def mem_bytes_Some)

lemma mem_slice_mid:
  "length a = i \<Longrightarrow> length bs = n \<Longrightarrow> mem_slice (a @ map Some bs @ c) i n = Some bs"
  by (simp add: mem_slice_Some)

subsection \<open>Error codes\<close>

abbreviation MQTTERR_NOERROR :: int where "MQTTERR_NOERROR \<equiv> 0"
abbreviation MQTTERR_OUTOFMEMORY :: int where "MQTTERR_OUTOFMEMORY \<equiv> -1"
abbreviation MQTTERR_ENDOFFILE :: int where "MQTTERR_ENDOFFILE \<equiv> -2"
abbreviation MQTTERR_IO :: int where "MQTTERR_IO \<equiv> -3"
abbreviation MQTTERR_ILLEGAL_PKT :: int where "MQTTERR_ILLEGAL_PKT \<equiv> -4"
abbreviation MQTTERR_ILLEGAL_CHARACTER :: int where "MQTTERR_ILLEGAL_CHARACTER \<equiv> -5"
abbreviation MQTTERR_NOT_UTF8 :: int where "MQTTERR_NOT_UTF8 \<equiv> -6"
abbreviation MQTTERR_INVALID_PARAMETER :: int where "MQTTERR_INVALID_PARAMETER \<equiv> -7"
abbreviation MQTTERR_PKT_TOO_LARGE :: int where "MQTTERR_PKT_TOO_LARGE \<equiv> -8"
abbreviation MQTTERR_BUF_OVERFLOW :: int where "MQTTERR_BUF_OVERFLOW \<equiv> -9"
abbreviation MQTTERR_INTERNAL :: int where "MQTTERR_INTERNAL \<equiv> -11"
abbreviation MQTTERR_NOT_IN_SUBOBJECT :: int where "MQTTERR_NOT_IN_SUBOBJECT \<equiv> -12"
abbreviation MQTTERR_INCOMPLETE_SUBOBJECT :: int where "MQTTERR_INCOMPLETE_SUBOBJECT \<equiv> -13"
abbreviation MQTTERR_FAILED_SEND_RESPONSE :: int where "MQTTERR_FAILED_SEND_RESPONSE \<equiv> -14"

subsection \<open>Big-endian integers\<close>

definition Mqtt_RB16 :: "mem \<Rightarrow> nat \<Rightarrow> u16 option" where
  "Mqtt_RB16 v i = do {
     b0 \<leftarrow> peek v i;
     b1 \<leftarrow> peek v (i + 1);
     Some (push_bit 8 (ucast b0) OR ucast b1)
   }"

definition Mqtt_RB64 :: "mem \<Rightarrow> nat \<Rightarrow> 64 word option" where
  "Mqtt_RB64 v i = do {
     b0 \<leftarrow> peek v i; b1 \<leftarrow> peek v (i + 1); b2 \<leftarrow> peek v (i + 2); b3 \<leftarrow> peek v (i + 3);
     b4 \<leftarrow> peek v (i + 4); b5 \<leftarrow> peek v (i + 5); b6 \<leftarrow> peek v (i + 6); b7 \<leftarrow> peek v (i + 7);
     Some (push_bit 56 (ucast b0) OR push_bit 48 (ucast b1) OR push_bit 40 (ucast b2) OR
           push_bit 32 (ucast b3) OR push_bit 24 (ucast b4) OR push_bit 16 (ucast b5) OR
           push_bit 8 (ucast b6) OR ucast b7)
   }"

definition Mqtt_WB8 :: "u8 \<Rightarrow> byte list" where
  "Mqtt_WB8 v = [v]"

definition Mqtt_WB16 :: "u16 \<Rightarrow> byte list" where
  "Mqtt_WB16 v = [ucast (drop_bit 8 v), ucast v]"

definition Mqtt_WB32 :: "u32 \<Rightarrow> byte list" where
  "Mqtt_WB32 v = [ucast (drop_bit 24 v), ucast (drop_bit 16 v), ucast (drop_bit 8 v), ucast v]"

lemma length_WB [simp]:
  "length (Mqtt_WB8 b) = 1" "length (Mqtt_WB16 v) = 2" "length (Mqtt_WB32 w) = 4"
  by (simp_all add: Mqtt_WB8_def Mqtt_WB16_def Mqtt_WB32_def)

lemma word16_of_bytes:
  "push_bit 8 (ucast (ucast (drop_bit 8 v) :: u8) :: u16) OR ucast (ucast v :: u8) = (v :: u16)"
proof (rule bit_word_eqI)
  fix n :: nat
  assume "n < LENGTH(16)"
  then have "n < 8 \<or> (8 \<le> n \<and> n < 16)" by auto
  then show "bit (push_bit 8 (ucast (ucast (drop_bit 8 v) :: u8) :: u16) OR ucast (ucast v :: u8)) n = bit v n"
    by (auto simp: bit_simps)
qed

lemma WB16_RB16:
  assumes "peek m i = Some (Mqtt_WB16 v ! 0)" "peek m (i + 1) = Some (Mqtt_WB16 v ! 1)"
  shows "Mqtt_RB16 m i = Some v"
  using assms by (simp add: Mqtt_RB16_def Mqtt_WB16_def word16_of_bytes)

lemma RB16_append:
  "length a = i \<Longrightarrow> Mqtt_RB16 (a @ map Some (Mqtt_WB16 v) @ c) i = Some v"
  by (intro WB16_RB16) (simp_all add: peek_append Mqtt_WB16_def)

lemma RB16_unat:
  "Mqtt_RB16 m i = Some v \<Longrightarrow> peek m i = Some b0 \<Longrightarrow> peek m (i + 1) = Some b1 \<Longrightarrow>
   unat v = 256 * unat b0 + unat b1"
proof -
  assume "Mqtt_RB16 m i = Some v" "peek m i = Some b0" "peek m (i + 1) = Some b1"
  then have v: "v = push_bit 8 (ucast b0) OR ucast b1" by (simp add: Mqtt_RB16_def)
  have "push_bit 8 (ucast b0 :: u16) AND ucast b1 = 0"
    by (rule bit_word_eqI) (auto simp: bit_simps dest: bit_imp_le_length)
  then have "v = push_bit 8 (ucast b0) + ucast b1" by (simp add: v disjunctive_add_eq_or)
  moreover have "unat b0 < 2 ^ LENGTH(8)" "unat b1 < 2 ^ LENGTH(8)" by (rule unsigned_less)+
  ultimately show "unat v = 256 * unat b0 + unat b1"
    by (simp add: unat_word_ariths push_bit_eq_mult unsigned_ucast_eq take_bit_nat_eq_self mult.commute)
qed

subsection \<open>The remaining length\<close>

text \<open>The result of \<open>Mqtt_ReadLength\<close> is the value returned and \<^verbatim>\<open>*len\<close>.\<close>

fun read_length_loop :: "mem \<Rightarrow> nat \<Rightarrow> nat \<Rightarrow> nat \<Rightarrow> u32 \<Rightarrow> u32 \<Rightarrow> (int \<times> u32) option" where
  "read_length_loop m off 0 i multiplier len = Some (-1, len)"
| "read_length_loop m off (Suc n) i multiplier len =
     (case peek m (off + i) of
        None \<Rightarrow> None
      | Some b \<Rightarrow>
          (let len = len + ucast (b AND 0x7f) * multiplier
           in if b AND 0x80 = 0 then Some (int i + 1, len)
              else let multiplier = multiplier * 128
                   in if 128 * 128 * 128 \<le> multiplier then Some (-2, len)
                      else read_length_loop m off n (Suc i) multiplier len))"

definition Mqtt_ReadLength :: "mem \<Rightarrow> nat \<Rightarrow> nat \<Rightarrow> (int \<times> u32) option" where
  "Mqtt_ReadLength m off sz = read_length_loop m off sz 0 1 0"

text \<open>The result of \<open>Mqtt_DumpLength\<close> is the value returned and the bytes written at \<^verbatim>\<open>buf\<close>.\<close>

fun dump_length_loop :: "nat \<Rightarrow> int \<Rightarrow> u32 \<Rightarrow> int \<times> byte list" where
  "dump_length_loop 0 i len = (-1, [])"
| "dump_length_loop (Suc n) i len =
     (let b = ucast (len mod 128); len = len div 128
      in if len > 0 then (case dump_length_loop n (i + 1) len of (r, bs) \<Rightarrow> (r, (b OR 128) # bs))
         else (i, [b]))"

definition Mqtt_DumpLength :: "u32 \<Rightarrow> int \<times> byte list" where
  "Mqtt_DumpLength len = dump_length_loop 4 1 len"

text \<open>The value of a byte sequence in base 128, and the sequences with the continuation bit on
  all bytes but the last.\<close>

fun base128 :: "byte list \<Rightarrow> nat" where
  "base128 [] = 0"
| "base128 (b # bs) = unat (b AND 0x7f) + 128 * base128 bs"

fun length_bytes :: "byte list \<Rightarrow> bool" where
  "length_bytes [] = False"
| "length_bytes [b] = (b AND 0x80 = 0)"
| "length_bytes (b # bs) = (b AND 0x80 \<noteq> 0 \<and> length_bytes bs)"

lemma bit_0x80 [simp]: "bit (0x80 :: nat) n \<longleftrightarrow> n = 7"
proof -
  have "(0x80 :: nat) = 2 ^ 7" by simp
  then show ?thesis by (simp only: bit_exp_iff) simp
qed

lemma bit_0x7f [simp]: "bit (0x7f :: nat) n \<longleftrightarrow> n < 7"
proof -
  have "(0x7f :: nat) = mask 7" by (simp add: mask_eq_exp_minus_1)
  then show ?thesis by (simp only: bit_mask_iff) simp
qed

lemma bit_0x80_u8 [simp]: "bit (0x80 :: u8) n \<longleftrightarrow> n = 7"
  using bit_push_1 [of 7 n, where 'a = 8] by simp

lemma and_0x7f: "(b :: u8) AND 0x7f = take_bit 7 b"
  by (simp add: take_bit_eq_mask mask_eq_exp_minus_1)

lemma and_0x80: "(b :: u8) AND 0x80 = 0 \<longleftrightarrow> \<not> bit b 7"
proof -
  have "bit (b AND 0x80) n \<longleftrightarrow> n = 7 \<and> bit b 7" for n
    by (simp only: bit_and_iff bit_0x80_u8) auto
  then show ?thesis by (simp add: word_eq_0_bits)
qed

lemma low7:
  fixes l :: u32
  shows "unat ((ucast (l mod 128) :: u8) AND 0x7f) = unat l mod 128"
    and "(ucast (l mod 128) :: u8) AND 0x80 = 0"
    and "unat (((ucast (l mod 128) :: u8) OR 128) AND 0x7f) = unat l mod 128"
    and "((ucast (l mod 128) :: u8) OR 128) AND 0x80 \<noteq> 0"
proof -
  have m: "l mod 128 = take_bit 7 l" by (simp add: take_bit_eq_mod)
  have "(ucast (l mod 128) :: u8) AND 0x7f = ucast (l mod 128)"
    unfolding m and_0x7f by (rule bit_word_eqI) (auto simp: bit_simps)
  moreover have "unat (ucast (l mod 128) :: u8) = unat l mod 128"
    by (simp add: unsigned_ucast_eq unat_mod_distrib take_bit_nat_eq_self)
  ultimately show a: "unat ((ucast (l mod 128) :: u8) AND 0x7f) = unat l mod 128" by simp
  show "(ucast (l mod 128) :: u8) AND 0x80 = 0"
    unfolding m and_0x80 by (simp add: bit_simps)
  have "((ucast (l mod 128) :: u8) OR 128) AND 0x7f = (ucast (l mod 128) :: u8) AND 0x7f"
    by (simp add: and_0x7f take_bit_or)
  then show "unat (((ucast (l mod 128) :: u8) OR 128) AND 0x7f) = unat l mod 128"
    using a by simp
  show "((ucast (l mod 128) :: u8) OR 128) AND 0x80 \<noteq> 0"
    unfolding and_0x80 by (simp add: bit_or_iff)
qed

lemma unat_div_mod_128:
  "unat ((l :: u32) div 128) = unat l div 128" "unat (l mod 128) = unat l mod 128"
  by (simp_all add: unat_div_distrib unat_mod_distrib)

lemma length_bytes_Cons: "b AND 0x80 \<noteq> 0 \<Longrightarrow> length_bytes bs \<Longrightarrow> length_bytes (b # bs)"
  by (cases bs) auto

lemma dump_length_loop_ok:
  "unat l < 128 ^ Suc n \<Longrightarrow>
   \<exists>bs. dump_length_loop (Suc n) i l = (i + int (length bs) - 1, bs) \<and> length_bytes bs \<and>
     base128 bs = unat l \<and> length bs \<le> Suc n \<and> (128 ^ (length bs - 1) \<le> unat l \<or> length bs = 1)"
proof (induction n arbitrary: i l)
  case 0
  then have "l div 128 = 0" by (simp add: word_unat_eq_iff unat_div_mod_128)
  with 0 show ?case
    by (simp add: low7 Let_def)
next
  case (Suc n)
  show ?case
  proof (cases "l div 128 = 0")
    case True
    then have "unat l < 128" by (simp add: word_unat_eq_iff unat_div_mod_128)
    with True show ?thesis by (simp add: low7 Let_def)
  next
    case False
    then have big: "128 \<le> unat l" by (simp add: word_unat_eq_iff unat_div_mod_128)
    from Suc.prems have "unat (l div 128) < 128 ^ Suc n"
      by (simp add: unat_div_mod_128 less_mult_imp_div_less mult.commute)
    from Suc.IH [OF this, of "i + 1"] obtain bs where bs:
      "dump_length_loop (Suc n) (i + 1) (l div 128) = (i + 1 + int (length bs) - 1, bs)"
      "length_bytes bs" "base128 bs = unat l div 128" "length bs \<le> Suc n"
      "128 ^ (length bs - 1) \<le> unat l div 128 \<or> length bs = 1"
      by (auto simp: unat_div_mod_128)
    then have ne: "bs \<noteq> []" by auto
    let ?bs = "((ucast (l mod 128) :: u8) OR 128) # bs"
    have "dump_length_loop (Suc (Suc n)) i l = (i + int (length ?bs) - 1, ?bs)"
      using False bs(1) by (simp add: Let_def word_gt_0 del: dump_length_loop.simps(2) add: dump_length_loop.simps(2) [of "Suc n"])
    moreover have "length_bytes ?bs" using low7(4) bs(2) by (intro length_bytes_Cons) auto
    moreover have "base128 ?bs = unat l" by (simp add: low7 bs(3))
    moreover have "128 ^ (length ?bs - 1) \<le> unat l"
    proof -
      have "128 * 128 ^ (length bs - 1) \<le> unat l" using bs(5) big by (auto simp: less_eq_div_iff_mult_less_eq mult.commute)
      then show ?thesis using ne by (cases bs) auto
    qed
    ultimately show ?thesis using bs(4) by (intro exI [of _ ?bs]) simp
  qed
qed

lemma dump_length_loop_overflow:
  "128 ^ n \<le> unat l \<Longrightarrow> fst (dump_length_loop n i l) = -1 \<and> length (snd (dump_length_loop n i l)) = n"
proof (induction n arbitrary: i l)
  case (Suc n)
  have "128 ^ n \<le> unat (l div 128)"
    using Suc.prems by (simp add: unat_div_mod_128 less_eq_div_iff_mult_less_eq mult.commute)
  moreover have "l div 128 \<noteq> 0"
    using \<open>128 ^ n \<le> unat (l div 128)\<close> by (metis not_one_le_zero le_zero_eq power_not_zero unsigned_0 zero_neq_numeral)
  ultimately show ?case
    using Suc.IH [of "l div 128" "i + 1"] by (simp add: Let_def word_gt_0 case_prod_beta)
qed simp

lemma word_128_power: "i \<le> 4 \<Longrightarrow> unat ((128 :: u32) ^ i) = 128 ^ i"
proof -
  assume "i \<le> 4"
  then have "(128 :: nat) ^ i \<le> 128 ^ 4" by (intro power_increasing) auto
  moreover have "(128 :: u32) ^ i = of_nat (128 ^ i)" by simp
  ultimately show ?thesis by (simp only: unat_of_nat) (simp add: take_bit_nat_eq_self)
qed

lemma read_length_loop_ok:
  "length_bytes bs \<Longrightarrow> (\<And>j. j < length bs \<Longrightarrow> peek m (off + i + j) = Some (bs ! j)) \<Longrightarrow>
   length bs \<le> sz \<Longrightarrow> i + length bs \<le> 3 \<Longrightarrow> multiplier = 128 ^ i \<Longrightarrow>
   read_length_loop m off sz i multiplier a =
     Some (int (i + length bs), a + multiplier * of_nat (base128 bs))"
proof (induction bs arbitrary: i sz multiplier a rule: length_bytes.induct)
  case (2 b)
  from "2.prems"(2) [of 0] have "peek m (off + i) = Some b" by simp
  moreover obtain n where "sz = Suc n" using "2.prems"(3) by (cases sz) auto
  ultimately show ?case using "2.prems" by (simp add: mult.commute)
next
  case (3 b c bs)
  from "3.prems"(2) [of 0] have p: "peek m (off + i) = Some b" by simp
  obtain n where n: "sz = Suc n" using "3.prems"(3) by (cases sz) auto
  have pow: "multiplier * 128 = 128 ^ Suc i" using "3.prems"(5) by simp
  have small: "\<not> 2097152 \<le> multiplier * 128"
  proof -
    have "Suc i \<le> 2" using "3.prems"(4) by simp
    then have "(128 :: nat) ^ Suc i \<le> 128 ^ 2" by (intro power_increasing) auto
    then have "unat (multiplier * 128) \<le> 128 ^ 2"
      using \<open>Suc i \<le> 2\<close> word_128_power [of "Suc i"] by (simp only: pow)
    then show ?thesis by (simp add: word_le_nat_alt)
  qed
  have "read_length_loop m off n (Suc i) (multiplier * 128) (a + ucast (b AND 0x7f) * multiplier) =
    Some (int (Suc i + length (c # bs)),
      a + ucast (b AND 0x7f) * multiplier + multiplier * 128 * of_nat (base128 (c # bs)))"
  proof (rule "3.IH")
    fix j assume "j < length (c # bs)"
    then show "peek m (off + Suc i + j) = Some ((c # bs) ! j)" using "3.prems"(2) [of "Suc j"] by simp
  qed (use "3.prems" n pow in auto)
  then show ?case using "3.prems"(1) p n small
    by (simp add: Let_def algebra_simps)
qed simp

lemma read_length_loop_too_long:
  assumes "\<And>j. j < 3 \<Longrightarrow> \<exists>b. peek m (off + j) = Some b \<and> b AND 0x80 \<noteq> 0" "3 \<le> sz"
  shows "\<exists>l. Mqtt_ReadLength m off sz = Some (-2, l)"
proof -
  obtain n where n: "sz = Suc (Suc (Suc n))" using assms(2)
    by (metis Suc_le_D Suc_le_mono numeral_3_eq_3)
  obtain b0 b1 b2 where "peek m off = Some b0" "b0 AND 0x80 \<noteq> 0" "peek m (Suc off) = Some b1"
    "b1 AND 0x80 \<noteq> 0" "peek m (Suc (Suc off)) = Some b2" "b2 AND 0x80 \<noteq> 0"
    using assms(1) [of 0] assms(1) [of 1] assms(1) [of 2] by auto
  then show ?thesis by (simp add: Mqtt_ReadLength_def n Let_def)
qed

lemma DumpLength_ok:
  assumes "unat l < 2 ^ 28"
  obtains bs where "Mqtt_DumpLength l = (int (length bs), bs)" "length_bytes bs"
    "base128 bs = unat l" "1 \<le> length bs" "length bs \<le> 4"
    "128 ^ (length bs - 1) \<le> unat l \<or> length bs = 1"
proof -
  have "unat l < 128 ^ Suc 3" using assms by simp
  from dump_length_loop_ok [OF this, of 1] obtain bs where
    "dump_length_loop (Suc 3) 1 l = (int (length bs), bs)" "length_bytes bs" "base128 bs = unat l"
    "length bs \<le> Suc 3" "128 ^ (length bs - 1) \<le> unat l \<or> length bs = 1"
    by auto
  moreover from \<open>length_bytes bs\<close> have "1 \<le> length bs" by (cases bs) auto
  ultimately show ?thesis by (intro that) (simp_all add: Mqtt_DumpLength_def)
qed

lemma DumpLength_overflow:
  assumes "2 ^ 28 \<le> unat l"
  shows "fst (Mqtt_DumpLength l) = -1" "length (snd (Mqtt_DumpLength l)) = 4"
  using dump_length_loop_overflow [of 4 l 1] assms by (simp_all add: Mqtt_DumpLength_def)

lemma ReadLength_bytes:
  assumes "length_bytes bs" "length bs \<le> 3" "length bs \<le> sz"
    "\<And>j. j < length bs \<Longrightarrow> peek m (off + j) = Some (bs ! j)"
  shows "Mqtt_ReadLength m off sz = Some (int (length bs), of_nat (base128 bs))"
  using read_length_loop_ok [of bs m off 0 sz 1 0] assms by (simp add: Mqtt_ReadLength_def)

lemma length_bytes_continue:
  "length_bytes bs \<Longrightarrow> j + 1 < length bs \<Longrightarrow> bs ! j AND 0x80 \<noteq> 0"
proof (induction bs arbitrary: j rule: length_bytes.induct)
  case (3 b c bs)
  then show ?case by (cases j) auto
qed simp_all

text \<open>What \<open>Mqtt_ReadLength\<close> makes of the output of \<open>Mqtt_DumpLength\<close>: below 2\^21 the value,
  from there on the error -2, although lengths up to 2\^28 - 1 are written.\<close>

lemma length_roundtrip:
  assumes "unat l < 2 ^ 21" "Mqtt_DumpLength l = (r, bs)" "length bs \<le> sz"
    "\<And>j. j < length bs \<Longrightarrow> peek m (off + j) = Some (bs ! j)"
  shows "r = int (length bs) \<and> 1 \<le> length bs \<and> length bs \<le> 3 \<and>
    Mqtt_ReadLength m off sz = Some (r, l)"
proof -
  from assms(1) have "unat l < 2 ^ 28" by simp
  from DumpLength_ok [OF this] assms(2) have bs: "r = int (length bs)" "length_bytes bs"
    "base128 bs = unat l" "1 \<le> length bs" "length bs \<le> 4"
    "128 ^ (length bs - 1) \<le> unat l \<or> length bs = 1"
    by auto
  have "length bs \<noteq> 4" using bs(6) assms(1) by auto
  then have "length bs \<le> 3" using bs(5) by simp
  with ReadLength_bytes [OF bs(2) _ assms(3,4)] bs show ?thesis by simp
qed

lemma length_rejected:
  assumes "2 ^ 21 \<le> unat l" "unat l < 2 ^ 28" "Mqtt_DumpLength l = (r, bs)" "4 \<le> sz"
    "\<And>j. j < length bs \<Longrightarrow> peek m (off + j) = Some (bs ! j)"
  shows "r = 4 \<and> (\<exists>x. Mqtt_ReadLength m off sz = Some (-2, x))"
proof -
  from DumpLength_ok [OF assms(2)] assms(3) have bs: "r = int (length bs)" "length_bytes bs"
    "base128 bs = unat l" "length bs \<le> 4" by auto
  have "\<not> length bs \<le> 3"
  proof
    assume "length bs \<le> 3"
    moreover have "base128 bs < 128 ^ length bs" for bs
    proof (induction bs)
      case (Cons b bs)
      have "unat (b AND 0x7f) < 128"
        by (simp add: and_0x7f unsigned_take_bit_eq take_bit_nat_def)
      with Cons show ?case by simp
    qed simp
    then have "base128 bs < 128 ^ length bs" .
    moreover have "(128 :: nat) ^ length bs \<le> 128 ^ 3"
      using \<open>length bs \<le> 3\<close> by (intro power_increasing) auto
    ultimately show False using bs(3) assms(1) by simp
  qed
  then have "length bs = 4" using bs(4) by simp
  moreover have "\<exists>x. Mqtt_ReadLength m off sz = Some (-2, x)"
  proof (rule read_length_loop_too_long)
    fix j :: nat assume "j < 3"
    then show "\<exists>b. peek m (off + j) = Some b \<and> b AND 0x80 \<noteq> 0"
      using assms(5) [of j] length_bytes_continue [OF bs(2), of j] \<open>length bs = 4\<close> by simp
  qed (use assms(4) in simp)
  ultimately show ?thesis using bs(1) by simp
qed

subsection \<open>Client identifier\<close>

definition isalnum :: "byte \<Rightarrow> bool" where
  "isalnum c = (0x30 \<le> c \<and> c \<le> 0x39 \<or> 0x41 \<le> c \<and> c \<le> 0x5A \<or> 0x61 \<le> c \<and> c \<le> 0x7A)"

fun check_identifier_loop :: "byte list \<Rightarrow> int \<Rightarrow> int" where
  "check_identifier_loop [] len = len"
| "check_identifier_loop (c # s) len =
     (if c = 0 then len
      else if isalnum c then check_identifier_loop s (len + 1) else -1)"

definition Mqtt_CheckClentIdentifier :: "byte list \<Rightarrow> int" where
  "Mqtt_CheckClentIdentifier ident = check_identifier_loop ident 0"

lemma check_identifier_loop:
  "0 \<notin> set s \<Longrightarrow> check_identifier_loop s n = (if list_all isalnum s then n + int (length s) else -1)"
  by (induction s arbitrary: n) auto

lemma CheckClentIdentifier:
  "0 \<notin> set s \<Longrightarrow>
   Mqtt_CheckClentIdentifier s = (if list_all isalnum s then int (length s) else -1)"
  by (simp add: Mqtt_CheckClentIdentifier_def check_identifier_loop)

subsection \<open>UTF-8\<close>

definition Mqtt_TrailingBytesForUTF8 :: "nat list" where
  "Mqtt_TrailingBytesForUTF8 =
     replicate 192 0 @ replicate 32 1 @ replicate 16 2 @ replicate 8 3 @ replicate 4 4 @ replicate 4 5"

text \<open>The three tests of \<^verbatim>\<open>Mqtt_IsLegalUtf8\<close>: a byte that is no continuation byte, a
  second byte out of the range its first byte allows, a first byte that starts no character.\<close>

definition utf8_bad_tail :: "byte \<Rightarrow> bool" where
  "utf8_bad_tail bv = (bv < 0x80 \<or> 0xBF < bv)"

definition utf8_bad_second :: "byte \<Rightarrow> byte \<Rightarrow> bool" where
  "utf8_bad_second c bv =
     (c = 0xE0 \<and> bv < 0xA0 \<or> c = 0xED \<and> 0x9F < bv \<or> c = 0xF0 \<and> bv < 0x90 \<or> c = 0xF4 \<and> 0x8F < bv)"

definition utf8_bad_first :: "byte \<Rightarrow> bool" where
  "utf8_bad_first c = (0x80 \<le> c \<and> c < 0xC2 \<or> 0xF4 < c)"

text \<open>The \<^verbatim>\<open>switch\<close> entered at \<^verbatim>\<open>case k\<close>, falling through to \<^verbatim>\<open>case 1\<close>;
  \<^verbatim>\<open>*(--tail)\<close> is the byte at \<open>first + k - 1\<close>.\<close>

fun legal_utf8_case :: "mem \<Rightarrow> nat \<Rightarrow> nat \<Rightarrow> int option" where
  "legal_utf8_case m first 0 = Some MQTTERR_NOT_UTF8"
| "legal_utf8_case m first (Suc 0) = do {
     c \<leftarrow> peek m first;
     if utf8_bad_first c then Some MQTTERR_NOT_UTF8 else Some MQTTERR_NOERROR
   }"
| "legal_utf8_case m first (Suc (Suc k)) = do {
     bv \<leftarrow> peek m (first + Suc k);
     if utf8_bad_tail bv then Some MQTTERR_NOT_UTF8
     else if k = 0 then do {
       c \<leftarrow> peek m first;
       if utf8_bad_second c bv then Some MQTTERR_NOT_UTF8 else legal_utf8_case m first (Suc k)
     }
     else legal_utf8_case m first (Suc k)
   }"

definition Mqtt_IsLegalUtf8 :: "mem \<Rightarrow> nat \<Rightarrow> nat \<Rightarrow> int option" where
  "Mqtt_IsLegalUtf8 m first len =
     (if len \<in> {1, 2, 3, 4} then legal_utf8_case m first len else Some MQTTERR_NOT_UTF8)"

text \<open>The loop tests the character at \<^verbatim>\<open>str\<close>, not the one at \<^verbatim>\<open>str + i\<close>, as the code does.\<close>

function check_utf8_loop :: "mem \<Rightarrow> nat \<Rightarrow> nat \<Rightarrow> nat \<Rightarrow> int option" where
  "check_utf8_loop m str len i =
     (if i < len
      then case peek m (str + i) of
             None \<Rightarrow> None
           | Some c \<Rightarrow>
               (let utf8_char_len = Mqtt_TrailingBytesForUTF8 ! unat c + 1
                in if len < i + utf8_char_len then Some MQTTERR_NOT_UTF8
                   else case Mqtt_IsLegalUtf8 m str utf8_char_len of
                          None \<Rightarrow> None
                        | Some ret \<Rightarrow>
                            if ret \<noteq> MQTTERR_NOERROR then Some ret
                            else case peek m (str + (i + utf8_char_len)) of
                                   None \<Rightarrow> None
                                 | Some d \<Rightarrow>
                                     if d = 0 then Some (int (i + utf8_char_len))
                                     else check_utf8_loop m str len (i + utf8_char_len))
      else Some (int i))"
  by pat_completeness auto
termination by (relation "measure (\<lambda>(m, str, len, i). len - i)") auto

declare check_utf8_loop.simps [simp del]

definition Mqtt_CheckUtf8 :: "mem \<Rightarrow> nat \<Rightarrow> nat \<Rightarrow> int option" where
  "Mqtt_CheckUtf8 m str len = check_utf8_loop m str len 0"

text \<open>The reference: the well-formed byte sequences of the Unicode standard (table 3-7).\<close>

definition utf8_cont :: "byte \<Rightarrow> bool" where
  "utf8_cont c = (0x80 \<le> c \<and> c \<le> 0xBF)"

fun utf8_char :: "byte list \<Rightarrow> bool" where
  "utf8_char [b] = (b < 0x80)"
| "utf8_char [b, c] = (0xC2 \<le> b \<and> b \<le> 0xDF \<and> utf8_cont c)"
| "utf8_char [b, c, d] =
     (utf8_cont d \<and>
      (b = 0xE0 \<and> 0xA0 \<le> c \<and> c \<le> 0xBF \<or>
       (0xE1 \<le> b \<and> b \<le> 0xEC \<or> 0xEE \<le> b \<and> b \<le> 0xEF) \<and> utf8_cont c \<or>
       b = 0xED \<and> 0x80 \<le> c \<and> c \<le> 0x9F))"
| "utf8_char [b, c, d, e] =
     (utf8_cont d \<and> utf8_cont e \<and>
      (b = 0xF0 \<and> 0x90 \<le> c \<and> c \<le> 0xBF \<or> 0xF1 \<le> b \<and> b \<le> 0xF3 \<and> utf8_cont c \<or>
       b = 0xF4 \<and> 0x80 \<le> c \<and> c \<le> 0x8F))"
| "utf8_char _ = False"

fun utf8_valid :: "byte list \<Rightarrow> bool" where
  "utf8_valid [] = True"
| "utf8_valid [b] = utf8_char [b]"
| "utf8_valid [b, c] = (if utf8_char [b] then utf8_valid [c] else utf8_char [b, c])"
| "utf8_valid [b, c, d] =
     (if utf8_char [b] then utf8_valid [c, d] else if utf8_char [b, c] then utf8_valid [d]
      else utf8_char [b, c, d])"
| "utf8_valid (b # c # d # e # s) =
     (if utf8_char [b] then utf8_valid (c # d # e # s)
      else if utf8_char [b, c] then utf8_valid (d # e # s)
      else if utf8_char [b, c, d] then utf8_valid (e # s)
      else utf8_char [b, c, d, e] \<and> utf8_valid s)"

lemma trailing_bytes:
  "Mqtt_TrailingBytesForUTF8 ! unat (c :: byte) =
     (if c < 0xC0 then 0 else if c < 0xE0 then 1 else if c < 0xF0 then 2 else if c < 0xF8 then 3
      else if c < 0xFC then 4 else 5)"
proof -
  have "unat c < 2 ^ LENGTH(8)" by (rule unsigned_less)
  then show ?thesis
    by (auto simp: Mqtt_TrailingBytesForUTF8_def nth_append word_less_nat_alt)
qed

lemmas u8_order = word_less_nat_alt word_le_nat_alt word_unat_eq_iff

lemma peek_block: "j < length cs \<Longrightarrow> peek (a @ map Some cs @ m) (length a + j) = Some (cs ! j)"
  by (simp add: peek_append)

lemma legal_utf8_correct:
  assumes t: "Mqtt_TrailingBytesForUTF8 ! unat (hd cs) + 1 = length cs"
    and m: "\<And>j. j < length cs \<Longrightarrow> peek m (first + j) = Some (cs ! j)"
  shows "Mqtt_IsLegalUtf8 m first (length cs) =
    Some (if utf8_char cs then MQTTERR_NOERROR else MQTTERR_NOT_UTF8)"
proof -
  have m0: "0 < length cs \<Longrightarrow> peek m first = Some (cs ! 0)" using m [of 0] by simp
  have m1: "1 < length cs \<Longrightarrow> peek m (Suc first) = Some (cs ! 1)" using m [of 1] by simp
  have m2: "2 < length cs \<Longrightarrow> peek m (Suc (Suc first)) = Some (cs ! 2)" using m [of 2] by simp
  have m3: "3 < length cs \<Longrightarrow> peek m (Suc (Suc (Suc first))) = Some (cs ! 3)"
    using m [of 3] by (simp add: numeral_3_eq_3)
  consider b where "cs = [b]" | b c where "cs = [b, c]" | b c d where "cs = [b, c, d]"
    | b c d e where "cs = [b, c, d, e]" | b c d e f s where "cs = b # c # d # e # f # s"
    using t by (metis Suc_eq_plus1 list.exhaust list.size(3) nat.distinct(1))
  then show ?thesis
  proof cases
    case 1
    then have "utf8_char cs = (\<not> utf8_bad_first b)"
      using t by (auto simp: trailing_bytes utf8_bad_first_def u8_order split: if_splits)
    then show ?thesis using 1 m0 by (simp add: Mqtt_IsLegalUtf8_def)
  next
    case 2
    then have b: "0xC0 \<le> b \<and> b < 0xE0" using t by (simp add: trailing_bytes not_less split: if_splits)
    then have "utf8_char cs = (\<not> utf8_bad_tail c \<and> \<not> utf8_bad_second b c \<and> \<not> utf8_bad_first b)"
      unfolding 2 by (auto simp: utf8_cont_def utf8_bad_tail_def utf8_bad_second_def utf8_bad_first_def u8_order)
    then show ?thesis using 2 m0 m1 by (simp add: Mqtt_IsLegalUtf8_def)
  next
    case 3
    then have b: "0xE0 \<le> b \<and> b < 0xF0" using t by (simp add: trailing_bytes not_less split: if_splits)
    then have "utf8_char cs = (\<not> utf8_bad_tail d \<and> \<not> utf8_bad_tail c \<and> \<not> utf8_bad_second b c \<and> \<not> utf8_bad_first b)"
      unfolding 3 by (cases "b = 0xE0"; cases "b = 0xED")
        (auto simp: utf8_cont_def utf8_bad_tail_def utf8_bad_second_def utf8_bad_first_def u8_order)
    then show ?thesis using 3 m0 m1 m2 by (simp add: Mqtt_IsLegalUtf8_def)
  next
    case 4
    then have b: "0xF0 \<le> b \<and> b < 0xF8" using t by (simp add: trailing_bytes not_less split: if_splits)
    then have "utf8_char cs = (\<not> utf8_bad_tail e \<and> \<not> utf8_bad_tail d \<and> \<not> utf8_bad_tail c \<and>
        \<not> utf8_bad_second b c \<and> \<not> utf8_bad_first b)"
      unfolding 4 by (cases "b = 0xF0"; cases "b = 0xF4")
        (auto simp: utf8_cont_def utf8_bad_tail_def utf8_bad_second_def utf8_bad_first_def u8_order)
    then show ?thesis using 4 m0 m1 m2 m3 by (simp add: Mqtt_IsLegalUtf8_def)
  next
    case 5
    then show ?thesis by (simp add: Mqtt_IsLegalUtf8_def)
  qed
qed

lemma CheckUtf8_first_char:
  assumes "Mqtt_TrailingBytesForUTF8 ! unat (hd cs) + 1 = length cs"
    and m: "\<And>j. j < length cs \<Longrightarrow> peek m (str + j) = Some (cs ! j)"
    and z: "peek m (str + length cs) = Some 0"
  shows "Mqtt_CheckUtf8 m str (length cs) =
    Some (if utf8_char cs then int (length cs) else MQTTERR_NOT_UTF8)"
proof -
  have "cs \<noteq> []" using assms(1) by auto
  then have "peek m str = Some (hd cs)" using m [of 0] by (simp add: hd_conv_nth)
  moreover have "Mqtt_IsLegalUtf8 m str (length cs) =
      Some (if utf8_char cs then MQTTERR_NOERROR else MQTTERR_NOT_UTF8)"
    by (rule legal_utf8_correct [OF assms(1)]) (rule m)
  ultimately show ?thesis using \<open>cs \<noteq> []\<close> assms(1) z
    by (simp add: Mqtt_CheckUtf8_def check_utf8_loop.simps [of m str "length cs" 0] Let_def)
qed

text \<open>After an ASCII first character every byte is checked as if it were that character.\<close>

lemma check_utf8_loop_single:
  assumes first: "peek m str = Some c" "c < 0x80"
    and s: "\<And>j. i \<le> j \<Longrightarrow> j < len \<Longrightarrow> \<exists>d. peek m (str + j) = Some d \<and> d < 0xC0 \<and> (i < j \<longrightarrow> d \<noteq> 0)"
    and z: "peek m (str + len) = Some 0" and "i \<le> len"
  shows "check_utf8_loop m str len i = Some (int len)"
  using s \<open>i \<le> len\<close>
proof (induction "len - i" arbitrary: i)
  case 0
  then show ?case by (simp add: check_utf8_loop.simps)
next
  case (Suc n)
  then have lt: "i < len" by simp
  from Suc.prems(1) [OF order_refl lt] obtain d where d: "peek m (str + i) = Some d" "d < 0xC0" by auto
  have t: "Mqtt_TrailingBytesForUTF8 ! unat d = 0" using d(2) by (simp add: trailing_bytes)
  have l: "Mqtt_IsLegalUtf8 m str (Suc 0) = Some 0"
    using first by (auto simp: Mqtt_IsLegalUtf8_def utf8_bad_first_def u8_order)
  have rest: "check_utf8_loop m str len (Suc i) = Some (int len)"
  proof (rule Suc.hyps(1))
    show "\<exists>d. peek m (str + j) = Some d \<and> d < 0xC0 \<and> (Suc i < j \<longrightarrow> d \<noteq> 0)"
      if "Suc i \<le> j" "j < len" for j
      using Suc.prems(1) [of j] that by auto
  qed (use Suc.hyps(2) lt in simp_all)
  show ?case
  proof (cases "Suc i = len")
    case True
    then show ?thesis using d(1) t l z lt by (simp add: check_utf8_loop.simps [of _ _ _ i] Let_def)
  next
    case False
    with Suc.prems(1) [of "Suc i"] lt obtain e where "peek m (str + Suc i) = Some e" "e \<noteq> 0"
      by auto
    then show ?thesis using d(1) t l lt rest
      by (simp add: check_utf8_loop.simps [of _ _ _ i] Let_def)
  qed
qed

lemma CheckUtf8_ascii:
  assumes "\<And>j. j < length s \<Longrightarrow> peek m (str + j) = Some (s ! j)" "peek m (str + length s) = Some 0"
    and "list_all (\<lambda>c. c < 0x80) s" "0 \<notin> set s"
  shows "Mqtt_CheckUtf8 m str (length s) = Some (int (length s))"
proof (cases s)
  case Nil
  then show ?thesis by (simp add: Mqtt_CheckUtf8_def check_utf8_loop.simps)
next
  case (Cons c cs)
  have "\<exists>d. peek m (str + j) = Some d \<and> d < 0xC0 \<and> (0 < j \<longrightarrow> d \<noteq> 0)" if "j < length s" for j
  proof -
    have "s ! j < 0x80" "s ! j \<noteq> 0"
      using assms(3) that by (auto simp: list_all_length) (use assms(4) that in \<open>metis nth_mem\<close>)
    then show ?thesis using assms(1) [OF that] by (auto simp: u8_order)
  qed
  moreover have "c < 0x80" using assms(3) Cons by simp
  ultimately show ?thesis using assms(1) [of 0] assms(2) Cons unfolding Mqtt_CheckUtf8_def
    by (intro check_utf8_loop_single [of m str c]) auto
qed

text \<open>The test depends on the bytes up to the terminating one only.\<close>

lemma legal_utf8_case_cong:
  "(\<And>j. j < k \<Longrightarrow> peek m (first + j) = peek m' (first' + j)) \<Longrightarrow>
   legal_utf8_case m first k = legal_utf8_case m' first' k"
proof (induction k)
  case (Suc k)
  have z: "peek m first = peek m' first'" using Suc.prems [of 0] by simp
  show ?case
  proof (cases k)
    case 0
    then show ?thesis using z by simp
  next
    case (Suc n)
    have l: "legal_utf8_case m first (Suc n) = legal_utf8_case m' first' (Suc n)"
      using Suc.IH [unfolded Suc] Suc.prems Suc by simp
    have p: "peek m (first + Suc n) = peek m' (first' + Suc n)" using Suc.prems [of "Suc n"] Suc by simp
    show ?thesis unfolding Suc legal_utf8_case.simps z l p by (rule refl)
  qed
qed simp

lemma check_utf8_loop_cong:
  "(\<And>j. j \<le> len \<Longrightarrow> peek m (str + j) = peek m' (str' + j)) \<Longrightarrow>
   check_utf8_loop m str len i = check_utf8_loop m' str' len i"
proof (induction m str len i rule: check_utf8_loop.induct)
  case (1 m str len i)
  show ?case
  proof (cases "i < len")
    case False
    then show ?thesis by (simp add: check_utf8_loop.simps)
  next
    case True
    have p: "peek m' (str' + i) = peek m (str + i)" using "1.prems" [of i] True by simp
    show ?thesis
    proof (cases "peek m (str + i)")
      case None
      then show ?thesis using True p by (simp add: check_utf8_loop.simps [of _ _ _ i])
    next
      case (Some c)
      define n where "n = Mqtt_TrailingBytesForUTF8 ! unat c + 1"
      show ?thesis
      proof (cases "len < i + n")
        case True
        then show ?thesis using \<open>i < len\<close> Some p
          by (simp add: check_utf8_loop.simps [of _ _ _ i] Let_def n_def)
      next
        case False
        then have le: "i + n \<le> len" by simp
        have l: "Mqtt_IsLegalUtf8 m' str' n = Mqtt_IsLegalUtf8 m str n"
          unfolding Mqtt_IsLegalUtf8_def using legal_utf8_case_cong [of n m str m' str'] "1.prems" le by simp
        have q: "peek m' (str' + (i + n)) = peek m (str + (i + n))" using "1.prems" [OF le] by simp
        have "check_utf8_loop m str len (i + n) = check_utf8_loop m' str' len (i + n)"
          if "Mqtt_IsLegalUtf8 m str n = Some 0" "peek m (str + (i + n)) = Some d" "d \<noteq> 0" for d
          using "1.IH" [OF True Some n_def False] that "1.prems" by blast
        then show ?thesis
          unfolding check_utf8_loop.simps [of m str len i] check_utf8_loop.simps [of m' str' len i] p Some
            option.case Let_def n_def [symmetric] l q
          by (auto split: option.split)
      qed
    qed
  qed
qed

lemma CheckUtf8_cong:
  "(\<And>j. j \<le> len \<Longrightarrow> peek m (str + j) = peek m' (str' + j)) \<Longrightarrow>
   Mqtt_CheckUtf8 m str len = Mqtt_CheckUtf8 m' str' len"
  unfolding Mqtt_CheckUtf8_def by (rule check_utf8_loop_cong)

end
