(* ===== verification/Mqtt_Buffer.thy ===== *)
theory Mqtt_Buffer
  imports Mqtt_Codec
begin

text \<open>
  The output buffer of the MQTT client (\<^verbatim>\<open>mqtt_buffer.c\<close>): a packet is a chain of extents
  that are carved out of chunks taken from \<^verbatim>\<open>malloc\<close>.

  The chain \<open>exts\<close> is the list from \<^verbatim>\<open>first_ext\<close> to \<^verbatim>\<open>last_ext\<close>. The payload of an extent of
  its own is the memory of its slot up to the next extent, so a write past the slot is \<open>None\<close>;
  the payload of a referenced block is the caller's memory. \<open>mallocs\<close> are the addresses the next
  calls of \<^verbatim>\<open>malloc\<close> return (0, or none left: out of memory), \<open>frees\<close> the addresses passed to
  \<^verbatim>\<open>free\<close> so far. Pointers have 32 bits and are stored low byte first.
\<close>

record mqtt_extent =
  ext_at :: u32
  ext_len :: u32
  ext_payload :: mem

record mqtt_buffer =
  exts :: "mqtt_extent list"
  available_bytes :: u32
  allocations :: "u32 list"
  allocations_at :: u32
  first_available :: u32
  alloc_count :: u32
  alloc_max_count :: u32
  buffered_bytes :: u32
  mallocs :: "u32 list"
  frees :: "u32 list"

abbreviation SIZEOF_EXTENT :: u32 where "SIZEOF_EXTENT \<equiv> 12"
abbreviation MQTT_DEFAULT_ALIGNMENT :: u32 where "MQTT_DEFAULT_ALIGNMENT \<equiv> 4"
abbreviation MQTT_MIN_EXTENT_SIZE :: u32 where "MQTT_MIN_EXTENT_SIZE \<equiv> 1024"

definition MqttBuffer_Init :: "mqtt_buffer \<Rightarrow> mqtt_buffer" where
  "MqttBuffer_Init b =
     b\<lparr>exts := [], available_bytes := 0, allocations := [], allocations_at := 0, alloc_count := 0,
       alloc_max_count := 0, first_available := 0, buffered_bytes := 0\<rparr>"

definition mqtt_free :: "u32 \<Rightarrow> mqtt_buffer \<Rightarrow> mqtt_buffer" where
  "mqtt_free p b = b\<lparr>frees := frees b @ [p]\<rparr>"

definition MqttBuffer_Reset :: "mqtt_buffer \<Rightarrow> mqtt_buffer" where
  "MqttBuffer_Reset b =
     MqttBuffer_Init
       (mqtt_free (allocations_at b) (fold mqtt_free (take (unat (alloc_count b)) (allocations b)) b))"

definition MqttBuffer_Destroy :: "mqtt_buffer \<Rightarrow> mqtt_buffer" where
  "MqttBuffer_Destroy b = MqttBuffer_Reset b"

definition mqtt_malloc :: "mqtt_buffer \<Rightarrow> u32 \<times> mqtt_buffer" where
  "mqtt_malloc b = (case mallocs b of [] \<Rightarrow> (0, b) | p # ps \<Rightarrow> (p, b\<lparr>mallocs := ps\<rparr>))"

text \<open>\<^verbatim>\<open>memset(tmp, 0, 4 * n); memcpy(tmp, ps, bytes);\<close> on an array of pointers.\<close>

definition copy_pointers :: "nat \<Rightarrow> nat \<Rightarrow> u32 list \<Rightarrow> u32 list" where
  "copy_pointers n bytes ps =
     map (\<lambda>i. if 4 * i + 4 \<le> bytes then ps ! i
              else if 4 * i < bytes then take_bit (8 * (bytes - 4 * i)) (ps ! i)
              else 0) [0..<n]"

definition grow_allocations :: "mqtt_buffer \<Rightarrow> bool \<times> mqtt_buffer" where
  "grow_allocations b =
     (if alloc_count b = alloc_max_count b
      then let max_count = alloc_max_count b * 2 + 1;
               (tmp, b) = mqtt_malloc b
           in if tmp = 0 then (False, b)
              else let arr = copy_pointers (unat max_count) (unat (alloc_max_count b)) (allocations b);
                       b = mqtt_free (allocations_at b) b
                   in (True, b\<lparr>alloc_max_count := max_count, allocations := arr, allocations_at := tmp\<rparr>)
      else (True, b))"

definition new_chunk :: "u32 \<Rightarrow> mqtt_buffer \<Rightarrow> bool \<times> mqtt_buffer" where
  "new_chunk aligned_bytes b =
     (case grow_allocations b of (grown, b) \<Rightarrow>
        if \<not> grown then (False, b)
        else let alloc_bytes = (if aligned_bytes < MQTT_MIN_EXTENT_SIZE then MQTT_MIN_EXTENT_SIZE
                                else aligned_bytes);
                 (chunk, b) = mqtt_malloc b
             in if chunk = 0 then (False, b)
                else (True, b\<lparr>alloc_count := alloc_count b + 1,
                              allocations := (allocations b)[unat (alloc_count b) := chunk],
                              available_bytes := alloc_bytes, first_available := chunk\<rparr>))"

definition extent_bytes :: "u32 \<Rightarrow> u32" where
  "extent_bytes bytes =
     (let aligned_bytes = bytes + SIZEOF_EXTENT
      in aligned_bytes + (MQTT_DEFAULT_ALIGNMENT - aligned_bytes mod MQTT_DEFAULT_ALIGNMENT) mod
           MQTT_DEFAULT_ALIGNMENT)"

text \<open>\<open>None\<close>: the sum in \<open>extent_bytes\<close> wrapped around and the slot is too small for the
  extent's own fields.\<close>

definition MqttBuffer_AllocExtent :: "u32 \<Rightarrow> mqtt_buffer \<Rightarrow> (mqtt_extent option \<times> mqtt_buffer) option" where
  "MqttBuffer_AllocExtent bytes b =
     (let aligned_bytes = extent_bytes bytes;
          (ok, b) = (if available_bytes b < aligned_bytes then new_chunk aligned_bytes b else (True, b))
      in if \<not> ok then Some (None, b)
         else if aligned_bytes < SIZEOF_EXTENT then None
         else let e = \<lparr>ext_at = first_available b, ext_len = bytes,
                       ext_payload = replicate (unat (aligned_bytes - SIZEOF_EXTENT)) None\<rparr>
              in Some (Some e, b\<lparr>first_available := first_available b + aligned_bytes,
                                 available_bytes := available_bytes b - aligned_bytes\<rparr>))"

definition MqttBuffer_AppendExtent :: "mqtt_extent \<Rightarrow> mqtt_buffer \<Rightarrow> mqtt_buffer" where
  "MqttBuffer_AppendExtent e b =
     b\<lparr>exts := exts b @ [e], buffered_bytes := buffered_bytes b + ext_len e\<rparr>"

definition MqttBuffer_Append :: "byte list \<Rightarrow> u32 \<Rightarrow> bool \<Rightarrow> mqtt_buffer \<Rightarrow> (int \<times> mqtt_buffer) option" where
  "MqttBuffer_Append payload sz own b =
     (let bytes = (if own then sz else SIZEOF_EXTENT)
      in case MqttBuffer_AllocExtent bytes b of
           None \<Rightarrow> None
         | Some (None, b) \<Rightarrow> Some (MQTTERR_OUTOFMEMORY, b)
         | Some (Some e, b) \<Rightarrow>
             if own
             then if length payload < unat sz then None
                  else do {
                    p \<leftarrow> poke (ext_payload e) 0 (take (unat sz) payload);
                    Some (MQTTERR_NOERROR, MqttBuffer_AppendExtent (e\<lparr>ext_payload := p\<rparr>) b)
                  }
             else Some (MQTTERR_NOERROR,
                        MqttBuffer_AppendExtent (e\<lparr>ext_payload := map Some payload, ext_len := sz\<rparr>) b))"

text \<open>What the chain holds: the bytes \<^verbatim>\<open>writev\<close> is given.\<close>

definition ext_out :: "mqtt_extent \<Rightarrow> mem" where
  "ext_out e = take (unat (ext_len e)) (ext_payload e)"

definition buf_out :: "mqtt_buffer \<Rightarrow> mem" where
  "buf_out b = concat (map ext_out (exts b))"

text \<open>Enough memory for \<open>k\<close> more extents: each takes at most two blocks.\<close>

definition plenty :: "nat \<Rightarrow> mqtt_buffer \<Rightarrow> bool" where
  "plenty k b = (2 * k \<le> length (mallocs b) \<and> 0 \<notin> set (mallocs b))"

subsection \<open>Allocation\<close>

lemma round_up_4: "(x :: nat) + (4 - x mod 4) mod 4 = (x + 3) div 4 * 4"
proof -
  consider "x mod 4 = 0" | "x mod 4 = 1" | "x mod 4 = 2" | "x mod 4 = 3" by linarith
  then show ?thesis by cases (simp, presburger)+
qed

lemma extent_bytes_ok:
  assumes "unat n + 16 < 2 ^ 32"
  shows "unat (extent_bytes n) = (unat n + 15) div 4 * 4"
proof -
  have a: "unat (n + 12) = unat n + 12" using assms by (simp add: unat_word_ariths)
  have m: "unat ((n + 12) mod 4) = (unat n + 12) mod 4" by (simp add: unat_mod_distrib a)
  have s: "unat (4 - (n + 12) mod 4) = 4 - (unat n + 12) mod 4"
  proof -
    have "(n + 12) mod 4 \<le> 4" using m by (simp add: word_le_nat_alt)
    then show ?thesis using m by (simp add: unat_sub)
  qed
  have "unat ((4 - (n + 12) mod 4) mod 4) = (4 - (unat n + 12) mod 4) mod 4"
    by (simp add: unat_mod_distrib s)
  then have "unat (extent_bytes n) = (unat n + 12) + (4 - (unat n + 12) mod 4) mod 4"
    using assms a by (simp add: extent_bytes_def Let_def unat_word_ariths)
  then show ?thesis by (simp add: round_up_4)
qed

lemma malloc_frame:
  assumes "mqtt_malloc b = (p, b')"
  shows "exts b' = exts b \<and> buffered_bytes b' = buffered_bytes b"
  using assms by (auto simp: mqtt_malloc_def split: list.splits)

lemma grow_frame:
  "grow_allocations b = (r, b') \<Longrightarrow> exts b' = exts b \<and> buffered_bytes b' = buffered_bytes b"
  by (auto simp: grow_allocations_def mqtt_free_def Let_def dest: malloc_frame split: prod.splits if_splits)

lemma new_chunk_frame:
  "new_chunk n b = (r, b') \<Longrightarrow> exts b' = exts b \<and> buffered_bytes b' = buffered_bytes b"
  by (auto simp: new_chunk_def Let_def dest!: malloc_frame grow_frame split: prod.splits if_splits)

lemma AllocExtent_frame:
  "MqttBuffer_AllocExtent n b = Some (r, b') \<Longrightarrow>
   exts b' = exts b \<and> buffered_bytes b' = buffered_bytes b"
  by (auto simp: MqttBuffer_AllocExtent_def Let_def dest!: new_chunk_frame split: prod.splits if_splits)

lemma plenty_malloc:
  assumes "2 * k + 1 \<le> length (mallocs b)" "0 \<notin> set (mallocs b)"
  obtains p b' where "mqtt_malloc b = (p, b')" "p \<noteq> 0" "length (mallocs b') = length (mallocs b) - 1"
    "0 \<notin> set (mallocs b')"
  using assms by (cases "mallocs b") (auto simp: mqtt_malloc_def)

lemma plenty_new_chunk:
  assumes "plenty (Suc k) b"
  obtains b' where "new_chunk n b = (True, b')" "plenty k b'"
    "available_bytes b' = (if n < MQTT_MIN_EXTENT_SIZE then MQTT_MIN_EXTENT_SIZE else n)"
proof -
  obtain p q ps where ms: "mallocs b = p # q # ps" "p \<noteq> 0" "q \<noteq> 0" "0 \<notin> set ps" "2 * k \<le> length ps"
    using assms by (cases "mallocs b"; cases "tl (mallocs b)") (auto simp: plenty_def)
  show ?thesis
    by (rule that [of "snd (new_chunk n b)"])
      (use ms in \<open>auto simp: new_chunk_def grow_allocations_def mqtt_malloc_def mqtt_free_def plenty_def Let_def\<close>)
qed

lemma plenty_mono: "plenty (Suc k) b \<Longrightarrow> plenty k b"
  by (simp add: plenty_def)

lemma AllocExtent_plenty:
  assumes p: "plenty (Suc k) b" and n: "unat n + 16 < 2 ^ 32"
  obtains e b' where "MqttBuffer_AllocExtent n b = Some (Some e, b')" "plenty k b'"
    "exts b' = exts b" "buffered_bytes b' = buffered_bytes b"
    "ext_len e = n" "unat n \<le> length (ext_payload e)"
    "length (ext_payload e) = (unat n + 3) div 4 * 4"
proof -
  have sz: "unat (extent_bytes n) = (unat n + 15) div 4 * 4" by (rule extent_bytes_ok [OF n])
  then have "12 \<le> unat (extent_bytes n)" by presburger
  then have ge: "\<not> extent_bytes n < 12" by (simp add: word_less_nat_alt)
  have len: "unat (extent_bytes n - 12) = (unat n + 3) div 4 * 4"
    using sz ge by (simp add: unat_sub not_less) presburger
  obtain b1 where b1: "(if available_bytes b < extent_bytes n then new_chunk (extent_bytes n) b else (True, b)) =
      (True, b1)" "plenty k b1"
    using plenty_new_chunk [OF p] plenty_mono [OF p] by (metis (full_types))
  then have f: "exts b1 = exts b" "buffered_bytes b1 = buffered_bytes b"
    by (auto dest: new_chunk_frame split: if_splits)
  have alloc: "MqttBuffer_AllocExtent n b =
      Some (Some \<lparr>ext_at = first_available b1, ext_len = n,
                  ext_payload = replicate (unat (extent_bytes n - 12)) None\<rparr>,
            b1\<lparr>first_available := first_available b1 + extent_bytes n,
               available_bytes := available_bytes b1 - extent_bytes n\<rparr>)"
    unfolding MqttBuffer_AllocExtent_def Let_def b1(1) using ge by simp
  show ?thesis
    by (rule that [OF alloc]) (use b1(2) f len in \<open>simp_all add: plenty_def\<close>)
qed

subsection \<open>Filling an extent from the front\<close>

definition filled :: "mem \<Rightarrow> byte list \<Rightarrow> bool" where
  "filled p bs = (length bs \<le> length p \<and> take (length bs) p = map Some bs)"

lemma filled_Nil [simp]: "filled p []"
  by (simp add: filled_def)

lemma poke_filled:
  assumes "filled p bs" "length bs = i" "i + length cs \<le> length p"
  obtains p' where "poke p i cs = Some p'" "filled p' (bs @ cs)" "length p' = length p"
proof -
  let ?p = "take i p @ map Some cs @ drop (i + length cs) p"
  have "poke p i cs = Some ?p" using assms(3) by (simp add: poke_def)
  moreover have "filled ?p (bs @ cs)" using assms by (simp add: filled_def)
  moreover have "length ?p = length p" using assms(3) by simp
  ultimately show thesis by (rule that)
qed

lemma filled_out:
  "filled (ext_payload e) bs \<Longrightarrow> unat (ext_len e) = length bs \<Longrightarrow> ext_out e = map Some bs"
  by (simp add: filled_def ext_out_def)

lemma buf_out_Append [simp]:
  "buf_out (MqttBuffer_AppendExtent e b) = buf_out b @ ext_out e"
  by (simp add: buf_out_def MqttBuffer_AppendExtent_def)

lemma AppendExtent_simps [simp]:
  "exts (MqttBuffer_AppendExtent e b) = exts b @ [e]"
  "buffered_bytes (MqttBuffer_AppendExtent e b) = buffered_bytes b + ext_len e"
  "mallocs (MqttBuffer_AppendExtent e b) = mallocs b"
  "plenty k (MqttBuffer_AppendExtent e b) = plenty k b"
  by (simp_all add: MqttBuffer_AppendExtent_def plenty_def)

lemma AllocExtent_buf_out:
  "MqttBuffer_AllocExtent n b = Some (r, b') \<Longrightarrow> buf_out b' = buf_out b"
  by (simp add: buf_out_def AllocExtent_frame)

text \<open>A block appended to a packet, copied or by reference.\<close>

lemma MqttBuffer_Append_ok:
  assumes p: "plenty (Suc k) b" and n: "unat sz + 16 < 2 ^ 32" and "unat sz = length payload"
  obtains b' where "MqttBuffer_Append payload sz own b = Some (MQTTERR_NOERROR, b')" "plenty k b'"
    "buf_out b' = buf_out b @ map Some payload"
    "buffered_bytes b' = buffered_bytes b + sz"
proof (cases own)
  case True
  obtain e b1 where e: "MqttBuffer_AllocExtent sz b = Some (Some e, b1)" "plenty k b1"
    "exts b1 = exts b" "buffered_bytes b1 = buffered_bytes b"
    "ext_len e = sz" "unat sz \<le> length (ext_payload e)"
    using AllocExtent_plenty [OF p n] by metis
  have "filled (ext_payload e) []" by simp
  from poke_filled [OF this refl] e(6) assms(3) obtain q where
    q: "poke (ext_payload e) 0 payload = Some q" "filled q payload" by auto
  have "ext_out (e\<lparr>ext_payload := q\<rparr>) = map Some payload"
    by (rule filled_out) (use q e(5) assms(3) in simp_all)
  then show ?thesis
    by (intro that [of "MqttBuffer_AppendExtent (e\<lparr>ext_payload := q\<rparr>) b1"])
      (use True e q(1) assms(3) AllocExtent_buf_out [OF e(1)] in \<open>simp_all add: MqttBuffer_Append_def\<close>)
next
  case False
  have "unat (12 :: u32) + 16 < 2 ^ 32" by simp
  from AllocExtent_plenty [OF p this] obtain e b1 where
    e: "MqttBuffer_AllocExtent 12 b = Some (Some e, b1)" "plenty k b1"
      "exts b1 = exts b" "buffered_bytes b1 = buffered_bytes b" by metis
  show ?thesis
    by (intro that [of "MqttBuffer_AppendExtent (e\<lparr>ext_payload := map Some payload, ext_len := sz\<rparr>) b1"])
      (use False e assms(3) AllocExtent_buf_out [OF e(1)] in
        \<open>simp_all add: MqttBuffer_Append_def ext_out_def\<close>)
qed

subsection \<open>Extents do not overlap\<close>

text \<open>The slots handed out lie in the current chunk, one behind the other.\<close>

lemma AllocExtent_slot:
  assumes "MqttBuffer_AllocExtent n b = Some (Some e, b')" "\<not> available_bytes b < extent_bytes n"
  shows "ext_at e = first_available b \<and> first_available b' = ext_at e + extent_bytes n \<and>
    available_bytes b' = available_bytes b - extent_bytes n \<and>
    first_available b' + available_bytes b' = first_available b + available_bytes b"
  using assms by (auto simp: MqttBuffer_AllocExtent_def Let_def split: if_splits)

subsection \<open>The array of allocated chunks\<close>

text \<open>\<^verbatim>\<open>memcpy\<close> is given a number of entries where it needs a number of bytes: growing the
  array keeps a quarter of it, the second growth keeps one byte of the first pointer.\<close>

lemma copy_pointers_0_1 [simp]: "copy_pointers (Suc 0) 0 ps = [0]"
  by (simp add: copy_pointers_def)

lemma copy_pointers_1_3 [simp]: "copy_pointers 3 (Suc 0) (p # ps) = [take_bit 8 p, 0, 0]"
  by (simp add: copy_pointers_def upt_rec)

lemma second_chunk_loses_first:
  assumes ms: "mallocs b = a1 # c1 # a2 # c2 # ps" "0 \<notin> set [a1, c1, a2, c2]"
    and n: "extent_bytes n1 = 1024" "extent_bytes n2 = 1024"
  shows "do {
      (e1, b) \<leftarrow> MqttBuffer_AllocExtent n1 (MqttBuffer_Init b);
      (e2, b) \<leftarrow> MqttBuffer_AllocExtent n2 b;
      Some (frees (MqttBuffer_Reset b))
    } = Some (frees b @ [0, a1, take_bit 8 c1, c2, a2])"
  using ms by (simp add: MqttBuffer_AllocExtent_def n new_chunk_def grow_allocations_def
    MqttBuffer_Init_def MqttBuffer_Reset_def mqtt_malloc_def mqtt_free_def Let_def)

end
