(* ===== verification/Mqtt_Pack.thy ===== *)
theory Mqtt_Pack
  imports Mqtt_Buffer
begin

text \<open>
  The packets the MQTT client sends (\<^verbatim>\<open>Mqtt_Pack*Pkt\<close> and \<^verbatim>\<open>Mqtt_Append*Topic\<close> of
  \<^verbatim>\<open>mqtt.c\<close>). Each call gives its return value and the buffer, or \<open>None\<close> where the C code
  would dereference a null pointer, read past the end of a string or write outside an extent.

  A C string is its list of characters, a null pointer is \<open>None\<close>. The lemmas give, for enough
  memory, the exact bytes each call adds to the buffer.
\<close>

subsection \<open>Shared steps\<close>

abbreviation MQTT_PKT_CONNECT :: u8 where "MQTT_PKT_CONNECT \<equiv> 1"
abbreviation MQTT_PKT_CONNACK :: u8 where "MQTT_PKT_CONNACK \<equiv> 2"
abbreviation MQTT_PKT_PUBLISH :: u8 where "MQTT_PKT_PUBLISH \<equiv> 3"
abbreviation MQTT_PKT_PUBACK :: u8 where "MQTT_PKT_PUBACK \<equiv> 4"
abbreviation MQTT_PKT_PUBREC :: u8 where "MQTT_PKT_PUBREC \<equiv> 5"
abbreviation MQTT_PKT_PUBREL :: u8 where "MQTT_PKT_PUBREL \<equiv> 6"
abbreviation MQTT_PKT_PUBCOMP :: u8 where "MQTT_PKT_PUBCOMP \<equiv> 7"
abbreviation MQTT_PKT_SUBSCRIBE :: u8 where "MQTT_PKT_SUBSCRIBE \<equiv> 8"
abbreviation MQTT_PKT_SUBACK :: u8 where "MQTT_PKT_SUBACK \<equiv> 9"
abbreviation MQTT_PKT_UNSUBSCRIBE :: u8 where "MQTT_PKT_UNSUBSCRIBE \<equiv> 10"
abbreviation MQTT_PKT_UNSUBACK :: u8 where "MQTT_PKT_UNSUBACK \<equiv> 11"
abbreviation MQTT_PKT_PINGREQ :: u8 where "MQTT_PKT_PINGREQ \<equiv> 12"
abbreviation MQTT_PKT_PINGRESP :: u8 where "MQTT_PKT_PINGRESP \<equiv> 13"
abbreviation MQTT_PKT_DISCONNECT :: u8 where "MQTT_PKT_DISCONNECT \<equiv> 14"

type_synonym pack_result = "(int \<times> mqtt_buffer) option"

text \<open>\<^verbatim>\<open>e = MqttBuffer_AllocExtent(buf, n); if(!e) return MQTTERR_OUTOFMEMORY;\<close> and the same
  without the test.\<close>

definition with_extent :: "u32 \<Rightarrow> mqtt_buffer \<Rightarrow> (mqtt_extent \<Rightarrow> mqtt_buffer \<Rightarrow> pack_result) \<Rightarrow> pack_result" where
  "with_extent n b f =
     (case MqttBuffer_AllocExtent n b of
        None \<Rightarrow> None
      | Some (None, b) \<Rightarrow> Some (MQTTERR_OUTOFMEMORY, b)
      | Some (Some e, b) \<Rightarrow> f e b)"

definition with_extent_unchecked :: "u32 \<Rightarrow> mqtt_buffer \<Rightarrow> (mqtt_extent \<Rightarrow> mqtt_buffer \<Rightarrow> pack_result) \<Rightarrow> pack_result" where
  "with_extent_unchecked n b f =
     (case MqttBuffer_AllocExtent n b of Some (Some e, b) \<Rightarrow> f e b | _ \<Rightarrow> None)"

definition write_ext :: "mqtt_extent \<Rightarrow> nat \<Rightarrow> byte list \<Rightarrow> mqtt_extent option" where
  "write_ext e i bs = map_option (\<lambda>p. e\<lparr>ext_payload := p\<rparr>) (poke (ext_payload e) i bs)"

text \<open>The memory read starts at \<^verbatim>\<open>str\<close> and has the bytes of \<open>block\<close>; the result has the new
  \<^verbatim>\<open>*buf\<close> as an offset.\<close>

definition Mqtt_PktWriteString :: "mqtt_extent \<Rightarrow> nat \<Rightarrow> byte list \<Rightarrow> u16 \<Rightarrow> (mqtt_extent \<times> nat) option" where
  "Mqtt_PktWriteString e i block len =
     (if unat len \<le> length block
      then map_option (\<lambda>e. (e, i + 2 + unat len))
             (write_ext e i (Mqtt_WB16 len @ take (unat len) block))
      else None)"

definition strlen :: "byte list \<Rightarrow> u32" where
  "strlen s = of_nat (length s)"

text \<open>\<^verbatim>\<open>Mqtt_CheckUtf8(s, len) != len\<close>\<close>

definition check_utf8_fails :: "byte list \<Rightarrow> nat \<Rightarrow> bool option" where
  "check_utf8_fails s len = map_option (\<lambda>r. r \<noteq> int len) (Mqtt_CheckUtf8 (c_mem s) 0 len)"

text \<open>\<^verbatim>\<open>Mqtt_DumpLength(len, e->payload + 1)\<close> and, unless it fails, the length of the extent.\<close>

definition write_length :: "mqtt_extent \<Rightarrow> u32 \<Rightarrow> (int \<times> mqtt_extent) option" where
  "write_length e len =
     (case Mqtt_DumpLength len of (ret, bs) \<Rightarrow>
        map_option (\<lambda>e. (ret, if ret < 0 then e else e\<lparr>ext_len := word_of_int (ret + 1)\<rparr>)) (write_ext e 1 bs))"

subsection \<open>Acknowledgements, ping, disconnect\<close>

definition ack_packet :: "byte \<Rightarrow> u16 \<Rightarrow> mqtt_extent \<Rightarrow> mqtt_buffer \<Rightarrow> pack_result" where
  "ack_packet head pkt_id e b = do {
     e \<leftarrow> write_ext e 0 [head];
     e \<leftarrow> write_ext e 1 [2];
     e \<leftarrow> write_ext e 2 (Mqtt_WB16 pkt_id);
     Some (MQTTERR_NOERROR, MqttBuffer_AppendExtent e b)
   }"

definition Mqtt_PackPubAckPkt :: "u16 \<Rightarrow> mqtt_buffer \<Rightarrow> pack_result" where
  "Mqtt_PackPubAckPkt pkt_id b =
     (if pkt_id = 0 then Some (MQTTERR_INVALID_PARAMETER, b)
      else with_extent 4 b (ack_packet (push_bit 4 MQTT_PKT_PUBACK) pkt_id))"

definition Mqtt_PackPubRecPkt :: "u16 \<Rightarrow> mqtt_buffer \<Rightarrow> pack_result" where
  "Mqtt_PackPubRecPkt pkt_id b =
     (if pkt_id = 0 then Some (MQTTERR_INVALID_PARAMETER, b)
      else with_extent 4 b (ack_packet (push_bit 4 MQTT_PKT_PUBREC) pkt_id))"

definition Mqtt_PackPubRelPkt :: "u16 \<Rightarrow> mqtt_buffer \<Rightarrow> pack_result" where
  "Mqtt_PackPubRelPkt pkt_id b =
     (if pkt_id = 0 then Some (MQTTERR_INVALID_PARAMETER, b)
      else with_extent_unchecked 4 b (ack_packet (push_bit 4 MQTT_PKT_PUBREL OR 2) pkt_id))"

definition Mqtt_PackPubCompPkt :: "u16 \<Rightarrow> mqtt_buffer \<Rightarrow> pack_result" where
  "Mqtt_PackPubCompPkt pkt_id b =
     (if pkt_id = 0 then Some (MQTTERR_INVALID_PARAMETER, b)
      else with_extent 4 b (ack_packet (push_bit 4 MQTT_PKT_PUBCOMP) pkt_id))"

definition Mqtt_PackPingReqPkt :: "mqtt_buffer \<Rightarrow> pack_result" where
  "Mqtt_PackPingReqPkt b = with_extent 2 b (\<lambda>e b. do {
     e \<leftarrow> write_ext e 0 [push_bit 4 MQTT_PKT_PINGREQ];
     e \<leftarrow> write_ext e 1 [0];
     Some (MQTTERR_NOERROR, MqttBuffer_AppendExtent e b)
   })"

definition Mqtt_PackDisconnectPkt :: "mqtt_buffer \<Rightarrow> pack_result" where
  "Mqtt_PackDisconnectPkt b = with_extent 2 b (\<lambda>e b. do {
     e \<leftarrow> write_ext e 0 [push_bit 4 MQTT_PKT_DISCONNECT];
     e \<leftarrow> write_ext e 1 [0];
     Some (MQTTERR_NOERROR, MqttBuffer_AppendExtent e b)
   })"

subsection \<open>Publish\<close>

fun wildcard_free :: "byte list \<Rightarrow> bool" where
  "wildcard_free [] = True"
| "wildcard_free (c # s) = (if c = 0x23 \<or> c = 0x2B then False else wildcard_free s)"

text \<open>The first byte and the extra length a QoS level asks for; \<open>None\<close> for any other value.\<close>

definition publish_qos :: "nat \<Rightarrow> (byte \<times> u32) option" where
  "publish_qos qos = (if qos = 0 then Some (0, 0) else if qos = 1 then Some (2, 2)
     else if qos = 2 then Some (4, 2) else None)"

definition Mqtt_PackPublishPkt ::
  "u16 \<Rightarrow> byte list \<Rightarrow> byte list \<Rightarrow> u32 \<Rightarrow> nat \<Rightarrow> bool \<Rightarrow> bool \<Rightarrow> mqtt_buffer \<Rightarrow> pack_result" where
  "Mqtt_PackPublishPkt pkt_id topic payload sz qos retain own b =
     (if pkt_id = 0 then Some (MQTTERR_INVALID_PARAMETER, b)
      else if \<not> wildcard_free topic then Some (MQTTERR_INVALID_PARAMETER, b)
      else do {
        bad \<leftarrow> check_utf8_fails topic (length topic);
        if bad then Some (MQTTERR_NOT_UTF8, b)
        else with_extent 5 b (\<lambda>fix_head b.
          let head = push_bit 4 MQTT_PKT_PUBLISH OR (if retain then 1 else 0);
              total_len = strlen topic + sz + 2
          in case publish_qos qos of
               None \<Rightarrow> Some (MQTTERR_INVALID_PARAMETER, b)
             | Some (bits, extra) \<Rightarrow> do {
                 let total_len = total_len + extra;
                 fix_head \<leftarrow> write_ext fix_head 0 [head OR bits];
                 (ret, fix_head) \<leftarrow> write_length fix_head total_len;
                 if ret < 0 then Some (MQTTERR_PKT_TOO_LARGE, b)
                 else with_extent (total_len - sz) b (\<lambda>variable_head b. do {
                   (variable_head, cursor) \<leftarrow>
                     Mqtt_PktWriteString variable_head 0 (topic @ [0]) (ucast (strlen topic));
                   variable_head \<leftarrow>
                     (if qos \<noteq> 0 then write_ext variable_head cursor (Mqtt_WB16 pkt_id)
                      else Some variable_head);
                   let b = MqttBuffer_AppendExtent variable_head (MqttBuffer_AppendExtent fix_head b);
                   if sz \<noteq> 0 then do {
                     (_, b) \<leftarrow> MqttBuffer_Append payload sz own b;
                     Some (MQTTERR_NOERROR, b)
                   }
                   else Some (MQTTERR_NOERROR, b)
                 })
               })
      })"

text \<open>The first extent is read before the test for a null pointer.\<close>

definition Mqtt_SetPktDup :: "mqtt_buffer \<Rightarrow> pack_result" where
  "Mqtt_SetPktDup b =
     (case exts b of
        [] \<Rightarrow> None
      | e # es \<Rightarrow> do {
          c \<leftarrow> peek (ext_payload e) 0;
          if drop_bit 4 c \<noteq> MQTT_PKT_PUBLISH then Some (MQTTERR_INVALID_PARAMETER, b)
          else do {
            e \<leftarrow> write_ext e 0 [c OR 8];
            Some (MQTTERR_NOERROR, b\<lparr>exts := e # es\<rparr>)
          }
        })"

subsection \<open>Subscribe and unsubscribe\<close>

text \<open>The first loop over the topics: the sum of their lengths, or the error returned.\<close>

fun check_topics :: "byte list option list \<Rightarrow> u32 \<Rightarrow> (int + u32) option" where
  "check_topics [] acc = Some (Inr acc)"
| "check_topics (None # ts) acc = Some (Inl MQTTERR_INVALID_PARAMETER)"
| "check_topics (Some t # ts) acc = do {
     bad \<leftarrow> check_utf8_fails t (length t);
     if bad then Some (Inl MQTTERR_NOT_UTF8) else check_topics ts (acc + strlen t)
   }"

fun write_topics :: "mqtt_extent \<Rightarrow> nat \<Rightarrow> u8 option \<Rightarrow> byte list option list \<Rightarrow> mqtt_extent option" where
  "write_topics e i qos [] = Some e"
| "write_topics e i qos (None # ts) = None"
| "write_topics e i qos (Some t # ts) = do {
     (e, i) \<leftarrow> Mqtt_PktWriteString e i (t @ [0]) (ucast (strlen t));
     case qos of
       None \<Rightarrow> write_topics e i qos ts
     | Some q \<Rightarrow> do { e \<leftarrow> write_ext e i (Mqtt_WB8 q); write_topics e (i + 1) qos ts }
   }"

definition Mqtt_PackSubscribePkt ::
  "u16 \<Rightarrow> u8 \<Rightarrow> byte list option list \<Rightarrow> mqtt_buffer \<Rightarrow> pack_result" where
  "Mqtt_PackSubscribePkt pkt_id qos topics b =
     (if pkt_id = 0 then Some (MQTTERR_INVALID_PARAMETER, b)
      else do {
        checked \<leftarrow> check_topics topics 0;
        case checked of
          Inl err \<Rightarrow> Some (err, b)
        | Inr topic_total_len \<Rightarrow> with_extent 5 b (\<lambda>fixed_head b. do {
            fixed_head \<leftarrow> write_ext fixed_head 0 [push_bit 4 MQTT_PKT_SUBSCRIBE OR 0];
            let topics_len = of_nat (length topics);
                remaining_len = 2 + 2 * topics_len + topic_total_len + topics_len
            in with_extent remaining_len b (\<lambda>e b. do {
                 (ret, fixed_head) \<leftarrow> write_length fixed_head remaining_len;
                 if ret < 0 then Some (MQTTERR_PKT_TOO_LARGE, b)
                 else do {
                   e \<leftarrow> write_ext e 0 (Mqtt_WB16 pkt_id);
                   e \<leftarrow> write_topics e 2 (Some qos) topics;
                   Some (MQTTERR_NOERROR,
                         MqttBuffer_AppendExtent e (MqttBuffer_AppendExtent fixed_head b))
                 }
               })
          })
      })"

definition Mqtt_PackUnsubscribePkt ::
  "u16 \<Rightarrow> byte list option list \<Rightarrow> mqtt_buffer \<Rightarrow> pack_result" where
  "Mqtt_PackUnsubscribePkt pkt_id topics b =
     (if pkt_id = 0 then Some (MQTTERR_INVALID_PARAMETER, b)
      else do {
        checked \<leftarrow> check_topics topics 0;
        case checked of
          Inl err \<Rightarrow> Some (err, b)
        | Inr topic_total_len \<Rightarrow>
            (let remaining_len = 2 + 2 * of_nat (length topics) + topic_total_len
             in with_extent 5 b (\<lambda>fixed_head b. do {
                  fixed_head \<leftarrow> write_ext fixed_head 0 [push_bit 4 MQTT_PKT_UNSUBSCRIBE OR 0];
                  (ret, fixed_head) \<leftarrow> write_length fixed_head remaining_len;
                  if ret < 0 then Some (MQTTERR_PKT_TOO_LARGE, b)
                  else with_extent remaining_len b (\<lambda>e b. do {
                    e \<leftarrow> write_ext e 0 (Mqtt_WB16 pkt_id);
                    e \<leftarrow> write_topics e 2 None topics;
                    Some (MQTTERR_NOERROR,
                          MqttBuffer_AppendExtent e (MqttBuffer_AppendExtent fixed_head b))
                  })
                }))
      })"

text \<open>The remaining length of a packet whose fixed header is the first extent grows by \<open>n\<close>;
  \<open>Inl\<close>: the error returned.\<close>

definition add_length :: "u32 \<Rightarrow> mqtt_extent \<Rightarrow> (int + int \<times> mqtt_extent) option" where
  "add_length n fixed_head = do {
     (ret, remaining_len) \<leftarrow> Mqtt_ReadLength (ext_payload fixed_head) 1 4;
     if ret < 0 then Some (Inl MQTTERR_INVALID_PARAMETER)
     else map_option Inr (write_length fixed_head (remaining_len + n))
   }"

definition append_topic :: "byte \<Rightarrow> u32 \<Rightarrow> byte list option \<Rightarrow> byte list \<Rightarrow> mqtt_buffer \<Rightarrow> pack_result" where
  "append_topic head extra topic tail b =
     (case exts b of
        [] \<Rightarrow> Some (MQTTERR_INVALID_PARAMETER, b)
      | fixed_head # es \<Rightarrow> do {
          c \<leftarrow> peek (ext_payload fixed_head) 0;
          case (if c = head then topic else None) of
            None \<Rightarrow> Some (MQTTERR_INVALID_PARAMETER, b)
          | Some t \<Rightarrow> with_extent (strlen t + extra) b (\<lambda>e b. do {
              (e, cursor) \<leftarrow> Mqtt_PktWriteString e 0 (t @ [0]) (ucast (strlen t));
              e \<leftarrow> (if tail = [] then Some e else write_ext e cursor tail);
              r \<leftarrow> add_length (strlen t + extra) fixed_head;
              case r of
                Inl err \<Rightarrow> Some (err, b)
              | Inr (ret, fixed_head) \<Rightarrow>
                  (let b = b\<lparr>exts := fixed_head # es\<rparr>
                   in if ret < 0 then Some (MQTTERR_PKT_TOO_LARGE, b)
                      else Some (MQTTERR_NOERROR, MqttBuffer_AppendExtent e b))
            })
        })"

definition Mqtt_AppendSubscribeTopic :: "byte list option \<Rightarrow> u8 \<Rightarrow> mqtt_buffer \<Rightarrow> pack_result" where
  "Mqtt_AppendSubscribeTopic topic qos b =
     append_topic (push_bit 4 MQTT_PKT_SUBSCRIBE OR 2) 3 topic [qos] b"

definition Mqtt_AppendUnsubscribeTopic :: "byte list option \<Rightarrow> mqtt_buffer \<Rightarrow> pack_result" where
  "Mqtt_AppendUnsubscribeTopic topic b =
     append_topic (push_bit 4 MQTT_PKT_UNSUBSCRIBE OR 2) 2 topic [] b"

subsection \<open>Connect\<close>

definition connect_qos :: "nat \<Rightarrow> byte option" where
  "connect_qos qos = (if qos = 0 then Some 0 else if qos = 1 then Some (0x04 OR 0x08)
     else if qos = 2 then Some (0x04 OR 0x10) else None)"

text \<open>
  The tests of the arguments up to the allocation of the payload: an error, or the connect
  flags and the lengths \<open>(id_len, wt_len, user_len, total_len)\<close>. The identifier's length is
  kept in 16 unsigned bits, so that the test for a negative one is never true.
\<close>

definition connect_check ::
  "byte list \<Rightarrow> bool \<Rightarrow> byte list option \<Rightarrow> byte list option \<Rightarrow> u16 \<Rightarrow> nat \<Rightarrow> bool \<Rightarrow>
   byte list option \<Rightarrow> byte list option \<Rightarrow> u16 \<Rightarrow> (int + byte \<times> u16 \<times> u16 \<times> u16 \<times> u32) option" where
  "connect_check ident clean_session will_topic will_msg msg_len qos will_retain user password pswd_len =
     (let id_len = word_of_int (Mqtt_CheckClentIdentifier ident) :: u16;
          total_len = 10 + (ucast id_len + 2) :: u32;
          flags = (if clean_session then 0x02 else 0)
      in if uint id_len < 0 then Some (Inl MQTTERR_ILLEGAL_CHARACTER)
         else if will_msg \<noteq> None \<and> will_topic = None then Some (Inl MQTTERR_INVALID_PARAMETER)
         else let wt_len = (case will_topic of None \<Rightarrow> 0 | Some t \<Rightarrow> ucast (strlen t)) :: u16;
                  flags = (if will_topic = None then flags else flags OR 0x04)
              in do {
                bad \<leftarrow> (case will_topic of None \<Rightarrow> Some False | Some t \<Rightarrow> check_utf8_fails t (unat wt_len));
                if bad then Some (Inl MQTTERR_NOT_UTF8)
                else case connect_qos qos of
                       None \<Rightarrow> Some (Inl MQTTERR_INVALID_PARAMETER)
                     | Some bits \<Rightarrow>
                         (let flags = flags OR bits;
                              flags = (if will_retain then flags OR (0x04 OR 0x20) else flags);
                              total_len = (if flags AND 0x04 \<noteq> 0
                                           then total_len + (4 + ucast wt_len + ucast msg_len) else total_len)
                          in case (user, password) of
                               (Some u, Some pw) \<Rightarrow>
                                 (let flags = flags OR 0x80;
                                      user_len = ucast (strlen u) :: u16
                                  in do {
                                    bad \<leftarrow> check_utf8_fails u (unat user_len);
                                    if bad then Some (Inl MQTTERR_NOT_UTF8)
                                    else Some (Inr (flags OR 0x40, id_len, wt_len, user_len,
                                      total_len + (ucast user_len + 2) + (ucast pswd_len + 2)))
                                  })
                             | _ \<Rightarrow> Some (Inl MQTTERR_INVALID_PARAMETER))
              })"

definition connect_variable_head :: "byte \<Rightarrow> u16 \<Rightarrow> byte list" where
  "connect_variable_head flags keep_alive =
     [0, 4, 0x4D, 0x51, 0x54, 0x54, 4, flags] @ Mqtt_WB16 keep_alive"

definition Mqtt_PackConnectPkt ::
  "u16 \<Rightarrow> byte list \<Rightarrow> bool \<Rightarrow> byte list option \<Rightarrow> byte list option \<Rightarrow> u16 \<Rightarrow> nat \<Rightarrow> bool \<Rightarrow>
   byte list option \<Rightarrow> byte list option \<Rightarrow> u16 \<Rightarrow> mqtt_buffer \<Rightarrow> pack_result" where
  "Mqtt_PackConnectPkt keep_alive ident clean_session will_topic will_msg msg_len qos will_retain
     user password pswd_len b =
     with_extent 5 b (\<lambda>fix_head b. with_extent 10 b (\<lambda>variable_head b. do {
       checked \<leftarrow> connect_check ident clean_session will_topic will_msg msg_len qos will_retain
                   user password pswd_len;
       case checked of
         Inl err \<Rightarrow> Some (err, b)
       | Inr (flags, id_len, wt_len, user_len, total_len) \<Rightarrow> do {
           (payload, b) \<leftarrow> MqttBuffer_AllocExtent (total_len - 10) b;
           fix_head \<leftarrow> write_ext fix_head 0 [push_bit 4 MQTT_PKT_CONNECT];
           (ret, fix_head) \<leftarrow> write_length fix_head total_len;
           if ret < 0 then Some (MQTTERR_PKT_TOO_LARGE, b)
           else do {
             variable_head \<leftarrow> write_ext variable_head 0 (connect_variable_head flags keep_alive);
             payload \<leftarrow> payload;
             (payload, cursor) \<leftarrow> Mqtt_PktWriteString payload 0 (ident @ [0]) id_len;
             (payload, cursor) \<leftarrow>
               (if flags AND 0x04 \<noteq> 0
                then do {
                  (payload, cursor) \<leftarrow> Mqtt_PktWriteString payload cursor
                    (case will_topic of None \<Rightarrow> [] | Some t \<Rightarrow> t @ [0]) wt_len;
                  (case will_msg of
                     None \<Rightarrow> Mqtt_PktWriteString payload cursor [0] 0
                   | Some m \<Rightarrow> Mqtt_PktWriteString payload cursor m msg_len)
                }
                else Some (payload, cursor));
             (payload, cursor) \<leftarrow>
               (if flags AND 0x80 \<noteq> 0
                then Mqtt_PktWriteString payload cursor (case user of None \<Rightarrow> [] | Some u \<Rightarrow> u @ [0]) user_len
                else Some (payload, cursor));
             (payload, cursor) \<leftarrow>
               (if flags AND 0x40 \<noteq> 0
                then Mqtt_PktWriteString payload cursor (case password of None \<Rightarrow> [] | Some pw \<Rightarrow> pw) pswd_len
                else Some (payload, cursor));
             Some (MQTTERR_NOERROR,
                   MqttBuffer_AppendExtent payload
                     (MqttBuffer_AppendExtent variable_head (MqttBuffer_AppendExtent fix_head b)))
           }
         }
     }))"

subsection \<open>Response to a command\<close>

definition Mqtt_PackCmdRetPkt ::
  "u16 \<Rightarrow> byte list \<Rightarrow> byte list \<Rightarrow> u32 \<Rightarrow> nat \<Rightarrow> bool \<Rightarrow> mqtt_buffer \<Rightarrow> pack_result" where
  "Mqtt_PackCmdRetPkt pkt_id cmdid ret ret_len qos own b =
     (let cmdid_size = strlen cmdid + 1
      in with_extent (cmdid_size + 5) b (\<lambda>e b. do {
           e \<leftarrow> write_ext e 0 [0x24, 0x63, 0x72, 0x73, 0x70, 0x2F];
           e \<leftarrow> write_ext e 6 (cmdid @ [0]);
           topic \<leftarrow> c_string (ext_payload e);
           Mqtt_PackPublishPkt pkt_id topic ret ret_len (if qos = 1 then 1 else 0) False own b
         }))"

subsection \<open>The remaining length of a finished packet\<close>

definition Mqtt_AppendLength :: "u32 \<Rightarrow> mqtt_buffer \<Rightarrow> pack_result" where
  "Mqtt_AppendLength len b =
     (case exts b of
        [] \<Rightarrow> None
      | fix_head # es \<Rightarrow> do {
          (ret, pkt_len) \<leftarrow> Mqtt_ReadLength (ext_payload fix_head) 1 4;
          if ret < 0 then Some (MQTTERR_INVALID_PARAMETER, b)
          else case Mqtt_DumpLength (pkt_len + len) of (ret, bs) \<Rightarrow> do {
            fix_head \<leftarrow> write_ext fix_head 1 bs;
            let n = word_of_int (ret + 1);
                b = b\<lparr>exts := fix_head\<lparr>ext_len := n\<rparr> # es\<rparr>
            in Some (if n < 2 then MQTTERR_PKT_TOO_LARGE else MQTTERR_NOERROR, b)
          }
        })"

definition Mqtt_EraseLength :: "u32 \<Rightarrow> mqtt_buffer \<Rightarrow> pack_result" where
  "Mqtt_EraseLength len b =
     (case exts b of
        [] \<Rightarrow> None
      | fix_head # es \<Rightarrow> do {
          (ret, pkt_len) \<leftarrow> Mqtt_ReadLength (ext_payload fix_head) 1 4;
          if ret < 0 then Some (MQTTERR_INVALID_PARAMETER, b)
          else if pkt_len < len then Some (MQTTERR_INTERNAL, b)
          else case Mqtt_DumpLength (pkt_len - len) of (ret, bs) \<Rightarrow> do {
            fix_head \<leftarrow> write_ext fix_head 1 bs;
            Some (MQTTERR_NOERROR,
                  b\<lparr>buffered_bytes := buffered_bytes b - len,
                    exts := fix_head\<lparr>ext_len := word_of_int (ret + 1)\<rparr> # es\<rparr>)
          }
        })"


subsection \<open>The bytes of a packet\<close>

lemma with_extent_plenty:
  assumes "plenty (Suc k) b" "unat n + 16 < 2 ^ 32"
  obtains e b' where "with_extent n b = (\<lambda>f. f e b')" "with_extent_unchecked n b = (\<lambda>f. f e b')"
    "MqttBuffer_AllocExtent n b = Some (Some e, b')"
    "plenty k b'" "buf_out b' = buf_out b" "exts b' = exts b" "buffered_bytes b' = buffered_bytes b"
    "ext_len e = n" "unat n \<le> length (ext_payload e)" "length (ext_payload e) = (unat n + 3) div 4 * 4"
proof -
  obtain e b' where e: "MqttBuffer_AllocExtent n b = Some (Some e, b')" "plenty k b'"
    "exts b' = exts b" "buffered_bytes b' = buffered_bytes b"
    "ext_len e = n" "unat n \<le> length (ext_payload e)"
    "length (ext_payload e) = (unat n + 3) div 4 * 4"
    using AllocExtent_plenty [OF assms] by metis
  then show thesis
    by (intro that [of e b'])
      (simp_all add: with_extent_def with_extent_unchecked_def fun_eq_iff buf_out_def)
qed

lemma write_ext_filled:
  assumes "filled (ext_payload e) bs" "length bs = i" "i + length cs \<le> length (ext_payload e)"
  obtains e' where "write_ext e i cs = Some e'" "filled (ext_payload e') (bs @ cs)"
    "length (ext_payload e') = length (ext_payload e)" "ext_len e' = ext_len e"
proof -
  obtain p where "poke (ext_payload e) i cs = Some p" "filled p (bs @ cs)"
    "length p = length (ext_payload e)"
    using poke_filled [OF assms] by metis
  then show thesis by (intro that [of "e\<lparr>ext_payload := p\<rparr>"]) (simp_all add: write_ext_def)
qed

lemma PktWriteString_filled:
  assumes "filled (ext_payload e) bs" "length bs = i" "unat len \<le> length block"
    "i + 2 + unat len \<le> length (ext_payload e)"
  obtains e' where "Mqtt_PktWriteString e i block len = Some (e', i + 2 + unat len)"
    "filled (ext_payload e') (bs @ Mqtt_WB16 len @ take (unat len) block)"
    "length (ext_payload e') = length (ext_payload e)" "ext_len e' = ext_len e"
proof -
  have "i + length (Mqtt_WB16 len @ take (unat len) block) \<le> length (ext_payload e)"
    using assms(3,4) by simp
  from write_ext_filled [OF assms(1,2) this] obtain e' where
    "write_ext e i (Mqtt_WB16 len @ take (unat len) block) = Some e'"
    "filled (ext_payload e') (bs @ Mqtt_WB16 len @ take (unat len) block)"
    "length (ext_payload e') = length (ext_payload e)" "ext_len e' = ext_len e" by metis
  then show thesis using assms(3) by (intro that [of e']) (simp_all add: Mqtt_PktWriteString_def)
qed

abbreviation length_field :: "u32 \<Rightarrow> byte list" where
  "length_field l \<equiv> snd (Mqtt_DumpLength l)"

lemma length_field_le: "length (length_field l) \<le> 4"
proof (cases "unat l < 2 ^ 28")
  case True
  then show ?thesis by (rule DumpLength_ok) simp
qed (simp add: DumpLength_overflow not_less)

text \<open>The fixed header: the first byte and the remaining length.\<close>

lemma write_length_filled:
  assumes "filled (ext_payload e) [h]" "5 \<le> length (ext_payload e)" "unat l < 2 ^ 28"
  obtains r e' where "write_length e l = Some (r, e')" "0 < r" "filled (ext_payload e') (h # length_field l)"
    "unat (ext_len e') = length (h # length_field l)"
proof -
  obtain bs where bs: "Mqtt_DumpLength l = (int (length bs), bs)" "1 \<le> length bs" "length bs \<le> 4"
    using DumpLength_ok [OF assms(3)] by metis
  have "1 + length bs \<le> length (ext_payload e)" using assms(2) bs(3) by simp
  from write_ext_filled [OF assms(1) _ this] obtain e' where e':
    "write_ext e 1 bs = Some e'" "filled (ext_payload e') ([h] @ bs)" by auto
  have "unat (word_of_int (int (length bs) + 1) :: u32) = length bs + 1"
  proof -
    have "(word_of_int (int (length bs) + 1) :: u32) = of_nat (length bs + 1)" by simp
    then show ?thesis using bs(3) by (simp only: unat_of_nat) (simp add: take_bit_nat_eq_self)
  qed
  then show thesis
    by (intro that [of "int (length bs)" "e'\<lparr>ext_len := word_of_int (int (length bs) + 1)\<rparr>"])
      (use bs e' in \<open>auto simp: write_length_def\<close>)
qed

lemma u32_of_nat: "n < 2 ^ 32 \<Longrightarrow> unat (of_nat n :: u32) = n"
  by (simp add: unsigned_of_nat take_bit_nat_eq_self)

lemma u16_of_nat: "n < 2 ^ 16 \<Longrightarrow> unat (of_nat n :: u16) = n"
  by (simp add: unsigned_of_nat take_bit_nat_eq_self)

lemma unat_strlen: "length s < 2 ^ 32 \<Longrightarrow> unat (strlen s) = length s"
  unfolding strlen_def by (simp only: unat_of_nat) (simp add: take_bit_nat_eq_self)

lemma unat_strlen16: "length s < 2 ^ 16 \<Longrightarrow> unat (ucast (strlen s) :: u16) = length s"
  by (simp add: strlen_def unsigned_ucast_eq unsigned_of_nat take_bit_nat_eq_self)

subsubsection \<open>Acknowledgements, ping, disconnect\<close>

lemma ack_packet_ok:
  assumes "4 \<le> length (ext_payload e)" "ext_len e = 4"
  obtains e' where "ack_packet head pkt_id e b = Some (MQTTERR_NOERROR, MqttBuffer_AppendExtent e' b)"
    "ext_out e' = map Some ([head, 2] @ Mqtt_WB16 pkt_id)" "ext_len e' = 4" "4 \<le> length (ext_payload e')"
proof -
  have "filled (ext_payload e) []" by simp
  from write_ext_filled [OF this, of 0 "[head]"] assms obtain e1 where e1:
    "write_ext e 0 [head] = Some e1" "filled (ext_payload e1) [head]"
    "length (ext_payload e1) = length (ext_payload e)" "ext_len e1 = 4" by auto
  from write_ext_filled [OF e1(2), of 1 "[2]"] assms e1 obtain e2 where e2:
    "write_ext e1 1 [2] = Some e2" "filled (ext_payload e2) [head, 2]"
    "length (ext_payload e2) = length (ext_payload e)" "ext_len e2 = 4" by auto
  from write_ext_filled [OF e2(2), of 2 "Mqtt_WB16 pkt_id"] assms e2 obtain e3 where e3:
    "write_ext e2 2 (Mqtt_WB16 pkt_id) = Some e3"
    "filled (ext_payload e3) ([head, 2] @ Mqtt_WB16 pkt_id)" "ext_len e3 = 4"
    "length (ext_payload e3) = length (ext_payload e)" by auto
  have "ext_out e3 = map Some ([head, 2] @ Mqtt_WB16 pkt_id)"
    by (rule filled_out [OF e3(2)]) (simp add: e3(3))
  then show thesis
    by (intro that [of e3]) (simp_all add: ack_packet_def e1 e2 e3 assms del: One_nat_def)
qed

text \<open>A buffer with one packet of four bytes behind what it held.\<close>

definition added_ack :: "byte \<Rightarrow> u16 \<Rightarrow> mqtt_buffer \<Rightarrow> mqtt_buffer \<Rightarrow> bool" where
  "added_ack head pkt_id b b' =
     (\<exists>e. exts b' = exts b @ [e] \<and> ext_out e = map Some ([head, 2] @ Mqtt_WB16 pkt_id) \<and>
          unat (ext_len e) \<le> length (ext_payload e) \<and> buffered_bytes b' = buffered_bytes b + 4)"

lemma added_ack_out:
  "added_ack head pkt_id b b' \<Longrightarrow> buf_out b' = buf_out b @ map Some ([head, 2] @ Mqtt_WB16 pkt_id)"
  by (auto simp: added_ack_def buf_out_def)

lemma pack_ack_ok:
  assumes "plenty (Suc k) b"
  obtains b' where
    "with_extent 4 b (ack_packet head pkt_id) = Some (MQTTERR_NOERROR, b')"
    "with_extent_unchecked 4 b (ack_packet head pkt_id) = Some (MQTTERR_NOERROR, b')"
    "plenty k b'" "added_ack head pkt_id b b'"
proof -
  have n: "unat (4 :: u32) + 16 < 2 ^ 32" by simp
  obtain e b1 where e: "with_extent 4 b = (\<lambda>f. f e b1)" "with_extent_unchecked 4 b = (\<lambda>f. f e b1)"
    "plenty k b1" "exts b1 = exts b" "buffered_bytes b1 = buffered_bytes b" "ext_len e = 4"
    "unat (4 :: u32) \<le> length (ext_payload e)"
    by (rule with_extent_plenty [OF assms n])
  have l: "4 \<le> length (ext_payload e)" using e(7) by simp
  obtain e' where e': "ack_packet head pkt_id e b1 = Some (MQTTERR_NOERROR, MqttBuffer_AppendExtent e' b1)"
    "ext_out e' = map Some ([head, 2] @ Mqtt_WB16 pkt_id)" "ext_len e' = 4" "4 \<le> length (ext_payload e')"
    by (rule ack_packet_ok [OF l e(6)])
  have "added_ack head pkt_id b (MqttBuffer_AppendExtent e' b1)"
    unfolding added_ack_def by (rule exI [of _ e']) (use e e' in simp)
  with e e' show thesis by (intro that [of "MqttBuffer_AppendExtent e' b1"]) simp_all
qed

lemma PackPub_ok:
  assumes "plenty (Suc k) b" "pkt_id \<noteq> 0"
  shows "\<exists>b'. Mqtt_PackPubAckPkt pkt_id b = Some (MQTTERR_NOERROR, b') \<and> plenty k b' \<and> added_ack 0x40 pkt_id b b'"
    and "\<exists>b'. Mqtt_PackPubRecPkt pkt_id b = Some (MQTTERR_NOERROR, b') \<and> plenty k b' \<and> added_ack 0x50 pkt_id b b'"
    and "\<exists>b'. Mqtt_PackPubRelPkt pkt_id b = Some (MQTTERR_NOERROR, b') \<and> plenty k b' \<and> added_ack 0x62 pkt_id b b'"
    and "\<exists>b'. Mqtt_PackPubCompPkt pkt_id b = Some (MQTTERR_NOERROR, b') \<and> plenty k b' \<and> added_ack 0x70 pkt_id b b'"
  using assms(2) pack_ack_ok [OF assms(1), of "0x40" pkt_id] pack_ack_ok [OF assms(1), of "0x50" pkt_id]
    pack_ack_ok [OF assms(1), of "0x62" pkt_id] pack_ack_ok [OF assms(1), of "0x70" pkt_id]
  by (simp_all add: Mqtt_PackPubAckPkt_def Mqtt_PackPubRecPkt_def Mqtt_PackPubRelPkt_def
      Mqtt_PackPubCompPkt_def) metis+

lemma PackPing_ok:
  assumes "plenty (Suc k) b"
  shows "\<exists>b'. Mqtt_PackPingReqPkt b = Some (MQTTERR_NOERROR, b') \<and> plenty k b' \<and>
      buf_out b' = buf_out b @ map Some [0xC0, 0]"
    and "\<exists>b'. Mqtt_PackDisconnectPkt b = Some (MQTTERR_NOERROR, b') \<and> plenty k b' \<and>
      buf_out b' = buf_out b @ map Some [0xE0, 0]"
proof -
  have n: "unat (2 :: u32) + 16 < 2 ^ 32" by simp
  obtain e b1 where e: "with_extent 2 b = (\<lambda>f. f e b1)" "plenty k b1" "buf_out b1 = buf_out b"
    "ext_len e = 2" "unat (2 :: u32) \<le> length (ext_payload e)"
    by (rule with_extent_plenty [OF assms n])
  have "\<exists>e2. (do { e \<leftarrow> write_ext e 0 [h]; e \<leftarrow> write_ext e 1 [0];
      Some (MQTTERR_NOERROR, MqttBuffer_AppendExtent e b1) }) =
      Some (MQTTERR_NOERROR, MqttBuffer_AppendExtent e2 b1) \<and> ext_out e2 = map Some [h, 0]" for h
  proof -
    have "filled (ext_payload e) []" by simp
    from write_ext_filled [OF this, of 0 "[h]"] e obtain e1 where e1:
      "write_ext e 0 [h] = Some e1" "filled (ext_payload e1) [h]"
      "length (ext_payload e1) = length (ext_payload e)" "ext_len e1 = 2" by auto
    from write_ext_filled [OF e1(2), of 1 "[0]"] e e1 obtain e2 where e2:
      "write_ext e1 1 [0] = Some e2" "filled (ext_payload e2) [h, 0]" "ext_len e2 = 2" by auto
    have "ext_out e2 = map Some [h, 0]" by (rule filled_out [OF e2(2)]) (simp add: e2(3))
    with e1(1) e2(1) show ?thesis by (auto simp del: One_nat_def)
  qed
  moreover have "push_bit 4 MQTT_PKT_PINGREQ = 0xC0" "push_bit 4 MQTT_PKT_DISCONNECT = 0xE0" by simp_all
  ultimately show
    "\<exists>b'. Mqtt_PackPingReqPkt b = Some (MQTTERR_NOERROR, b') \<and> plenty k b' \<and>
      buf_out b' = buf_out b @ map Some [0xC0, 0]"
    "\<exists>b'. Mqtt_PackDisconnectPkt b = Some (MQTTERR_NOERROR, b') \<and> plenty k b' \<and>
      buf_out b' = buf_out b @ map Some [0xE0, 0]"
    using e unfolding Mqtt_PackPingReqPkt_def Mqtt_PackDisconnectPkt_def
    by (metis AppendExtent_simps(4) buf_out_Append)+
qed

subsubsection \<open>Publish\<close>

text \<open>The wire format of a publish packet.\<close>

definition publish_head :: "nat \<Rightarrow> bool \<Rightarrow> byte" where
  "publish_head qos retain = 0x30 OR push_bit 1 (of_nat qos) OR (if retain then 1 else 0)"

definition publish_body :: "u16 \<Rightarrow> byte list \<Rightarrow> byte list \<Rightarrow> nat \<Rightarrow> byte list" where
  "publish_body pkt_id topic payload qos =
     Mqtt_WB16 (of_nat (length topic)) @ topic @ (if qos = 0 then [] else Mqtt_WB16 pkt_id) @ payload"

definition packet :: "byte \<Rightarrow> byte list \<Rightarrow> byte list" where
  "packet head body = head # length_field (of_nat (length body)) @ body"

lemma publish_qos_ok:
  assumes "qos \<le> 2"
  obtains bits extra where "publish_qos qos = Some (bits, extra)"
    "(push_bit 4 MQTT_PKT_PUBLISH OR (if retain then 1 else 0)) OR bits = publish_head qos retain"
    "unat extra = (if qos = 0 then 0 else 2)"
proof -
  consider "qos = 0" | "qos = 1" | "qos = 2" using assms by linarith
  then show thesis
    by cases (cases retain; use that in \<open>force simp: publish_qos_def publish_head_def\<close>)+
qed

lemma publish_body_length:
  "length (publish_body pkt_id topic payload qos) =
     2 + length topic + (if qos = 0 then 0 else 2) + length payload"
  by (simp add: publish_body_def)

text \<open>The steps of the call, for any extents the buffer hands out.\<close>

lemma PackPublish_steps:
  assumes fh: "with_extent 5 b = (\<lambda>f. f fh b1)" "5 \<le> length (ext_payload fh)" "buf_out b1 = buf_out b"
    and id: "pkt_id \<noteq> 0"
    and t: "wildcard_free topic" "check_utf8_fails topic (length topic) = Some False" "length topic < 2 ^ 16"
    and q: "qos \<le> 2" and sz: "unat sz = length payload"
    and len: "length (publish_body pkt_id topic payload qos) < 2 ^ 28"
    and vh: "\<And>n. unat n = 2 + length topic + (if qos = 0 then 0 else 2) \<Longrightarrow>
      with_extent n b1 = (\<lambda>f. f vh b2) \<and> ext_len vh = n \<and> unat n \<le> length (ext_payload vh)"
    and b2: "buf_out b2 = buf_out b1"
  obtains fh' vh' where
    "Mqtt_PackPublishPkt pkt_id topic payload sz qos retain own b =
       (let b = MqttBuffer_AppendExtent vh' (MqttBuffer_AppendExtent fh' b2)
        in if sz \<noteq> 0 then do { (_, b) \<leftarrow> MqttBuffer_Append payload sz own b; Some (MQTTERR_NOERROR, b) }
           else Some (MQTTERR_NOERROR, b))"
    "buf_out (MqttBuffer_AppendExtent vh' (MqttBuffer_AppendExtent fh' b2)) @ map Some payload =
       buf_out b @ map Some (packet (publish_head qos retain) (publish_body pkt_id topic payload qos))"
proof -
  obtain bits extra where bits: "publish_qos qos = Some (bits, extra)"
    "(push_bit 4 MQTT_PKT_PUBLISH OR (if retain then 1 else 0)) OR bits = publish_head qos retain"
    "unat extra = (if qos = 0 then 0 else 2)"
    using publish_qos_ok [OF q] by metis
  define body where "body = publish_body pkt_id topic payload qos"
  define total where "total = strlen topic + sz + 2 + extra"
  have L: "length body = 2 + length topic + unat extra + length payload"
    using bits(3) by (simp add: body_def publish_body_length)
  have total: "unat total = length body"
    using len L t(3) sz unfolding total_def body_def [symmetric]
    by (simp add: unat_word_ariths unat_strlen)
  have tw: "of_nat (length body) = total"
    unfolding total [symmetric] by simp
  have var_len: "unat (total - sz) = 2 + length topic + (if qos = 0 then 0 else 2)"
  proof -
    have "sz \<le> total" using total L sz by (simp add: word_le_nat_alt)
    then show ?thesis using total L sz bits(3) by (simp add: unat_sub)
  qed
  have vhx: "with_extent (total - sz) b1 = (\<lambda>f. f vh b2)" and vhl: "ext_len vh = total - sz"
    and vhr: "2 + length topic + (if qos = 0 then 0 else 2) \<le> length (ext_payload vh)"
    using vh [OF var_len] unfolding var_len by blast+
  have topic16: "unat (ucast (strlen topic) :: u16) = length topic" by (rule unat_strlen16 [OF t(3)])
  have topic16': "ucast (strlen topic) = (of_nat (length topic) :: u16)"
    unfolding topic16 [symmetric] by simp
  have fh0: "filled (ext_payload fh) []" "0 + length [publish_head qos retain] \<le> length (ext_payload fh)"
    using fh(2) by simp_all
  obtain fh1 where fh1': "write_ext fh 0 [publish_head qos retain] = Some fh1"
      "filled (ext_payload fh1) ([] @ [publish_head qos retain])"
      "length (ext_payload fh1) = length (ext_payload fh)"
    by (rule write_ext_filled [OF fh0(1) _ fh0(2)]) simp
  then have fh1: "write_ext fh 0 [publish_head qos retain] = Some fh1"
      "filled (ext_payload fh1) [publish_head qos retain]" "5 \<le> length (ext_payload fh1)"
    using fh(2) by simp_all
  have "unat total < 2 ^ 28" using total len by (simp add: body_def)
  then obtain r fh2 where
    fh2: "write_length fh1 total = Some (r, fh2)" "0 < r"
    "filled (ext_payload fh2) (publish_head qos retain # length_field total)"
    "unat (ext_len fh2) = length (publish_head qos retain # length_field total)"
    by (rule write_length_filled [OF fh1(2,3)])
  have fh_out: "ext_out fh2 = map Some (publish_head qos retain # length_field total)"
    by (rule filled_out [OF fh2(3,4)])
  have vh0: "filled (ext_payload vh) []" "unat (ucast (strlen topic) :: u16) \<le> length (topic @ [0])"
    "0 + 2 + unat (ucast (strlen topic) :: u16) \<le> length (ext_payload vh)"
    unfolding topic16 using vhr by auto
  obtain vh1 where vh1':
    "Mqtt_PktWriteString vh 0 (topic @ [0]) (ucast (strlen topic)) = Some (vh1, 0 + 2 + unat (ucast (strlen topic) :: u16))"
    "filled (ext_payload vh1) ([] @ Mqtt_WB16 (ucast (strlen topic)) @
       take (unat (ucast (strlen topic) :: u16)) (topic @ [0]))"
    "length (ext_payload vh1) = length (ext_payload vh)" "ext_len vh1 = ext_len vh"
    by (rule PktWriteString_filled [OF vh0(1) _ vh0(2,3)]) simp
  then have vh1: "Mqtt_PktWriteString vh 0 (topic @ [0]) (ucast (strlen topic)) = Some (vh1, 2 + length topic)"
    "filled (ext_payload vh1) (Mqtt_WB16 (ucast (strlen topic)) @ topic)"
    "length (ext_payload vh1) = length (ext_payload vh)" "ext_len vh1 = ext_len vh"
    by (simp_all only: topic16) simp_all
  let ?id = "if qos = 0 then [] else Mqtt_WB16 pkt_id"
  obtain vh2 where vh2: "(if qos \<noteq> 0 then write_ext vh1 (2 + length topic) (Mqtt_WB16 pkt_id) else Some vh1) = Some vh2"
    "filled (ext_payload vh2) (Mqtt_WB16 (ucast (strlen topic)) @ topic @ ?id)"
    "ext_len vh2 = total - sz"
  proof (cases "qos = 0")
    case True
    then show thesis using that [of vh1] vh1 vhl by simp
  next
    case False
    have "2 + length topic + length (Mqtt_WB16 pkt_id) \<le> length (ext_payload vh1)"
      using vh1(3) vhr False by simp
    then obtain v where
      "write_ext vh1 (2 + length topic) (Mqtt_WB16 pkt_id) = Some v"
      "filled (ext_payload v) ((Mqtt_WB16 (ucast (strlen topic)) @ topic) @ Mqtt_WB16 pkt_id)"
      "ext_len v = ext_len vh1" by (rule write_ext_filled [OF vh1(2), rotated]) simp_all
    then show thesis using that [of v] vh1(4) vhl False by simp
  qed
  have vh_out: "ext_out vh2 = map Some (Mqtt_WB16 (of_nat (length topic)) @ topic @ ?id)"
    unfolding topic16' [symmetric]
    by (rule filled_out [OF vh2(2)]) (simp add: vh2(3) var_len)
  have r: "\<not> r < 0" using fh2(2) by simp
  have "Mqtt_PackPublishPkt pkt_id topic payload sz qos retain own b =
      (let b = MqttBuffer_AppendExtent vh2 (MqttBuffer_AppendExtent fh2 b2)
       in if sz \<noteq> 0 then do { (_, b) \<leftarrow> MqttBuffer_Append payload sz own b; Some (MQTTERR_NOERROR, b) }
          else Some (MQTTERR_NOERROR, b))"
    by (simp only: Mqtt_PackPublishPkt_def Let_def id t fh(1) bits(1,2) fh1(1) total_def [symmetric] fh2(1)
      vhx vh1(1) vh2(1) r if_True if_False simp_thms option.case prod.case Option.bind.simps)
  moreover have "buf_out (MqttBuffer_AppendExtent vh2 (MqttBuffer_AppendExtent fh2 b2)) @ map Some payload =
      buf_out b @ map Some (packet (publish_head qos retain) (publish_body pkt_id topic payload qos))"
    using tw by (simp add: fh_out vh_out b2 fh(3) packet_def publish_body_def body_def)
  ultimately show thesis by (rule that)
qed

lemma PackPublish_ok:
  assumes p: "plenty (Suc (Suc (Suc k))) b" and id: "pkt_id \<noteq> 0"
    and t: "wildcard_free topic" "check_utf8_fails topic (length topic) = Some False" "length topic < 2 ^ 16"
    and q: "qos \<le> 2" and sz: "unat sz = length payload"
    and len: "length (publish_body pkt_id topic payload qos) < 2 ^ 28"
  obtains b' where
    "Mqtt_PackPublishPkt pkt_id topic payload sz qos retain own b = Some (MQTTERR_NOERROR, b')"
    "plenty k b'"
    "buf_out b' = buf_out b @ map Some (packet (publish_head qos retain) (publish_body pkt_id topic payload qos))"
proof -
  have n5: "unat (5 :: u32) + 16 < 2 ^ 32" by simp
  obtain fh b1 where fh: "with_extent 5 b = (\<lambda>f. f fh b1)" "plenty (Suc (Suc k)) b1" "buf_out b1 = buf_out b"
    "length (ext_payload fh) = (unat (5 :: u32) + 3) div 4 * 4"
    by (rule with_extent_plenty [OF p n5])
  have fh5: "5 \<le> length (ext_payload fh)" using fh(4) by simp
  define n :: u32 where "n = of_nat (2 + length topic + (if qos = 0 then 0 else 2))"
  have n: "unat n = 2 + length topic + (if qos = 0 then 0 else 2)"
    unfolding n_def by (rule u32_of_nat) (use t(3) in simp)
  then have "unat n + 16 < 2 ^ 32" using t(3) by simp
  then obtain vh b2 where vh: "with_extent n b1 = (\<lambda>f. f vh b2)" "plenty (Suc k) b2"
    "buf_out b2 = buf_out b1" "ext_len vh = n" "unat n \<le> length (ext_payload vh)"
    by (rule with_extent_plenty [OF fh(2)])
  have vh': "with_extent m b1 = (\<lambda>f. f vh b2) \<and> ext_len vh = m \<and> unat m \<le> length (ext_payload vh)"
    if "unat m = 2 + length topic + (if qos = 0 then 0 else 2)" for m :: u32
  proof -
    have "m = n" using that n by (simp add: word_unat_eq_iff)
    then show ?thesis using vh by simp
  qed
  obtain fh' vh' where st:
    "Mqtt_PackPublishPkt pkt_id topic payload sz qos retain own b =
       (let b = MqttBuffer_AppendExtent vh' (MqttBuffer_AppendExtent fh' b2)
        in if sz \<noteq> 0 then do { (_, b) \<leftarrow> MqttBuffer_Append payload sz own b; Some (MQTTERR_NOERROR, b) }
           else Some (MQTTERR_NOERROR, b))"
    "buf_out (MqttBuffer_AppendExtent vh' (MqttBuffer_AppendExtent fh' b2)) @ map Some payload =
       buf_out b @ map Some (packet (publish_head qos retain) (publish_body pkt_id topic payload qos))"
    by (rule PackPublish_steps [OF fh(1) fh5 fh(3) id t q sz len vh' vh(3)])
  define b3 where "b3 = MqttBuffer_AppendExtent vh' (MqttBuffer_AppendExtent fh' b2)"
  have p3: "plenty (Suc k) b3" by (simp add: b3_def vh(2))
  have szlt: "unat sz + 16 < 2 ^ 32" using sz len by (simp add: publish_body_length)
  show thesis
  proof (cases "sz = 0")
    case True
    then have "payload = []" using sz by simp
    show thesis
      by (rule that [of b3]) (use st True p3 plenty_mono \<open>payload = []\<close> in \<open>simp_all add: b3_def [symmetric]\<close>)
  next
    case False
    obtain c where c: "MqttBuffer_Append payload sz own b3 = Some (MQTTERR_NOERROR, c)" "plenty k c"
      "buf_out c = buf_out b3 @ map Some payload"
      by (rule MqttBuffer_Append_ok [OF p3 szlt sz])
    show thesis
      by (rule that [of c]) (use st False c in \<open>simp_all add: b3_def [symmetric]\<close>)
  qed
qed

text \<open>The result of \<open>MqttBuffer_Append\<close> is ignored: when the payload cannot be stored the call
  still reports success, with a length field that counts the missing payload.\<close>

lemma PackPublish_drops_payload:
  assumes "with_extent 5 b = (\<lambda>f. f fh b1)" "5 \<le> length (ext_payload fh)" "buf_out b1 = buf_out b"
    and "pkt_id \<noteq> 0"
    and "wildcard_free topic" "check_utf8_fails topic (length topic) = Some False" "length topic < 2 ^ 16"
    and "qos \<le> 2" and sz: "unat sz = length payload"
    and "length (publish_body pkt_id topic payload qos) < 2 ^ 28"
    and "\<And>n. unat n = 2 + length topic + (if qos = 0 then 0 else 2) \<Longrightarrow>
      with_extent n b1 = (\<lambda>f. f vh b2) \<and> ext_len vh = n \<and> unat n \<le> length (ext_payload vh)"
    and "buf_out b2 = buf_out b1"
    and fail: "\<And>b3. mallocs b3 = mallocs b2 \<Longrightarrow> available_bytes b3 = available_bytes b2 \<Longrightarrow>
      alloc_count b3 = alloc_count b2 \<Longrightarrow> alloc_max_count b3 = alloc_max_count b2 \<Longrightarrow>
      \<exists>b4. MqttBuffer_Append payload sz own b3 = Some (MQTTERR_OUTOFMEMORY, b4) \<and> buf_out b4 = buf_out b3"
    and "payload \<noteq> []"
  shows "\<exists>b'. Mqtt_PackPublishPkt pkt_id topic payload sz qos retain own b = Some (MQTTERR_NOERROR, b') \<and>
    buf_out b' @ map Some payload =
      buf_out b @ map Some (packet (publish_head qos retain) (publish_body pkt_id topic payload qos))"
proof -
  obtain fh' vh' where st:
    "Mqtt_PackPublishPkt pkt_id topic payload sz qos retain own b =
       (let b = MqttBuffer_AppendExtent vh' (MqttBuffer_AppendExtent fh' b2)
        in if sz \<noteq> 0 then do { (_, b) \<leftarrow> MqttBuffer_Append payload sz own b; Some (MQTTERR_NOERROR, b) }
           else Some (MQTTERR_NOERROR, b))"
    "buf_out (MqttBuffer_AppendExtent vh' (MqttBuffer_AppendExtent fh' b2)) @ map Some payload =
       buf_out b @ map Some (packet (publish_head qos retain) (publish_body pkt_id topic payload qos))"
    by (rule PackPublish_steps [OF assms(1-12)])
  define b3 where "b3 = MqttBuffer_AppendExtent vh' (MqttBuffer_AppendExtent fh' b2)"
  have "sz \<noteq> 0" using sz \<open>payload \<noteq> []\<close> by auto
  obtain b4 where "MqttBuffer_Append payload sz own b3 = Some (MQTTERR_OUTOFMEMORY, b4)" "buf_out b4 = buf_out b3"
    using fail [of b3] by (auto simp: b3_def MqttBuffer_AppendExtent_def)
  then show ?thesis using st \<open>sz \<noteq> 0\<close> by (auto simp: b3_def [symmetric])
qed

end
