(* ===== verification/Mqtt_Recv.thy ===== *)
theory Mqtt_Recv
  imports Mqtt_Pack
begin

text \<open>
  Receiving and sending MQTT packets (\<^verbatim>\<open>Mqtt_Handle*\<close>, \<^verbatim>\<open>Mqtt_Dispatch\<close>,
  \<^verbatim>\<open>Mqtt_RecvPkt\<close>, \<^verbatim>\<open>Mqtt_SendPkt\<close> of \<^verbatim>\<open>mqtt.c\<close>).

  The context keeps the receive buffer from \<^verbatim>\<open>bgn\<close> to \<^verbatim>\<open>end\<close>, the write position \<^verbatim>\<open>pos\<close> as
  an offset, the addresses the next calls of \<^verbatim>\<open>malloc\<close> return, and the calls of the
  application's functions made so far. These functions (\<^verbatim>\<open>handle_*\<close>, \<^verbatim>\<open>writev_func\<close>; none of
  them null) are a parameter \<open>app\<close>: what the last call of a sequence of calls returns. What
  \<^verbatim>\<open>read_func\<close> delivers is an argument of \<open>Mqtt_RecvPkt\<close>.
\<close>

subsection \<open>Context and callbacks\<close>

datatype mqtt_call =
    Call_ping_resp
  | Call_conn_ack byte byte
  | Call_publish u16 "byte list option" "byte list option" byte nat
  | Call_cmd u16 "byte list option" int "byte list option" byte nat
  | Call_pub_ack u16
  | Call_pub_rec u16
  | Call_pub_rel u16
  | Call_pub_comp u16
  | Call_sub_ack u16 "byte list option"
  | Call_unsub_ack u16
  | Call_writev "mem list"

record mqtt_context =
  rx :: mem
  rx_pos :: nat
  heap :: "u32 list"
  calls :: "mqtt_call list"

type_synonym mqtt_app = "mqtt_call list \<Rightarrow> int"

definition call_app :: "mqtt_app \<Rightarrow> mqtt_call \<Rightarrow> mqtt_context \<Rightarrow> int \<times> mqtt_context" where
  "call_app app f c = (let c = c\<lparr>calls := calls c @ [f]\<rparr> in (app (calls c), c))"

definition mem_move :: "mem \<Rightarrow> nat \<Rightarrow> nat \<Rightarrow> nat \<Rightarrow> mem option" where
  "mem_move m dst src n =
     (if src + n \<le> length m \<and> dst + n \<le> length m
      then Some (take dst m @ take n (drop src m) @ drop (dst + n) m) else None)"

text \<open>\<open>blk\<close> is the result of \<^verbatim>\<open>malloc(buf_size)\<close>: \<open>None\<close>, or memory of that size.\<close>

definition Mqtt_InitContext :: "nat \<Rightarrow> mem option \<Rightarrow> u32 list \<Rightarrow> int \<times> mqtt_context" where
  "Mqtt_InitContext buf_size blk ms =
     (case blk of
        None \<Rightarrow> (MQTTERR_OUTOFMEMORY, \<lparr>rx = [], rx_pos = 0, heap = ms, calls = []\<rparr>)
      | Some m \<Rightarrow> (MQTTERR_NOERROR, \<lparr>rx = take buf_size m, rx_pos = 0, heap = ms, calls = []\<rparr>))"

definition Mqtt_DestroyContext :: "mqtt_context \<Rightarrow> mqtt_context" where
  "Mqtt_DestroyContext c = c\<lparr>rx := [], rx_pos := 0\<rparr>"

subsection \<open>Sending\<close>

text \<open>\<^verbatim>\<open>while(cursor && bytes < offset)\<close>\<close>

fun skip_extents :: "u32 \<Rightarrow> u32 \<Rightarrow> mqtt_extent list \<Rightarrow> u32 \<times> mqtt_extent list" where
  "skip_extents offset bytes [] = (bytes, [])"
| "skip_extents offset bytes (e # es) =
     (if bytes < offset then skip_extents offset (bytes + ext_len e) es else (bytes, e # es))"

text \<open>\<open>None\<close>: the first block would start before the payload of its extent (\<open>offset - bytes\<close>
  is negative), or end behind it.\<close>

definition Mqtt_SendPkt ::
  "mqtt_app \<Rightarrow> mqtt_buffer \<Rightarrow> u32 \<Rightarrow> mqtt_context \<Rightarrow> (int \<times> mqtt_buffer \<times> mqtt_context) option" where
  "Mqtt_SendPkt app b offset c =
     (if buffered_bytes b \<le> offset then Some (0, b, c)
      else case skip_extents offset 0 (exts b) of
             (bytes, []) \<Rightarrow> Some (0, b, c)
           | (bytes, first_ext # es) \<Rightarrow>
               (case mqtt_malloc b of (iov, b) \<Rightarrow>
                  if iov = 0 then Some (MQTTERR_OUTOFMEMORY, b, c)
                  else if offset \<noteq> bytes then None
                  else if \<exists>e \<in> set (first_ext # es). length (ext_payload e) < unat (ext_len e) then None
                  else case call_app app (Call_writev (map ext_out (first_ext # es))) c of
                         (i, c) \<Rightarrow> Some (i, mqtt_free iov b, c)))"

subsection \<open>Handlers\<close>

type_synonym handler_result = "(int \<times> mqtt_context) option"

definition Mqtt_HandlePingResp :: "mqtt_app \<Rightarrow> byte \<Rightarrow> nat \<Rightarrow> nat \<Rightarrow> mqtt_context \<Rightarrow> handler_result" where
  "Mqtt_HandlePingResp app flags pkt sz c =
     (if flags \<noteq> 0 \<or> sz \<noteq> 0 then Some (MQTTERR_ILLEGAL_PKT, c)
      else Some (call_app app Call_ping_resp c))"

definition Mqtt_HandleConnAck :: "mqtt_app \<Rightarrow> byte \<Rightarrow> nat \<Rightarrow> nat \<Rightarrow> mqtt_context \<Rightarrow> handler_result" where
  "Mqtt_HandleConnAck app flags pkt sz c =
     (if flags \<noteq> 0 \<or> sz \<noteq> 2 then Some (MQTTERR_ILLEGAL_PKT, c)
      else do {
        ack_flags \<leftarrow> peek (rx c) pkt;
        ret_code \<leftarrow> peek (rx c) (pkt + 1);
        if ack_flags AND 1 \<noteq> 0 \<and> ret_code \<noteq> 0 \<or> 5 < ret_code then Some (MQTTERR_ILLEGAL_PKT, c)
        else Some (call_app app (Call_conn_ack ack_flags ret_code) c)
      })"

text \<open>The test shared by the packets that carry a packet id only.\<close>

definition packet_id :: "byte \<Rightarrow> byte \<Rightarrow> nat \<Rightarrow> nat \<Rightarrow> mqtt_context \<Rightarrow> (int + u16) option" where
  "packet_id expected flags pkt sz c =
     (if flags \<noteq> expected \<or> sz \<noteq> 2 then Some (Inl MQTTERR_ILLEGAL_PKT)
      else do {
        pkt_id \<leftarrow> Mqtt_RB16 (rx c) pkt;
        Some (if pkt_id = 0 then Inl MQTTERR_ILLEGAL_PKT else Inr pkt_id)
      })"

definition Mqtt_HandlePubAck :: "mqtt_app \<Rightarrow> byte \<Rightarrow> nat \<Rightarrow> nat \<Rightarrow> mqtt_context \<Rightarrow> handler_result" where
  "Mqtt_HandlePubAck app flags pkt sz c = do {
     r \<leftarrow> packet_id 0 flags pkt sz c;
     case r of Inl err \<Rightarrow> Some (err, c) | Inr pkt_id \<Rightarrow> Some (call_app app (Call_pub_ack pkt_id) c)
   }"

text \<open>The response to a packet: packed into a fresh buffer, sent, and the buffer destroyed. A
  failure to pack it gives \<open>pack_err\<close> of the error.\<close>

definition send_response ::
  "mqtt_app \<Rightarrow> (mqtt_buffer \<Rightarrow> pack_result) \<Rightarrow> (int \<Rightarrow> int) \<Rightarrow> mqtt_context \<Rightarrow> handler_result" where
  "send_response app pack pack_err c =
     (let b = MqttBuffer_Init \<lparr>exts = [], available_bytes = 0, allocations = [], allocations_at = 0,
                first_available = 0, alloc_count = 0, alloc_max_count = 0, buffered_bytes = 0,
                mallocs = heap c, frees = []\<rparr>
      in do {
        (err, b) \<leftarrow> pack b;
        if err = MQTTERR_NOERROR
        then do {
          (n, b, c) \<leftarrow> Mqtt_SendPkt app b 0 c;
          let err = (if word_of_int n \<noteq> buffered_bytes b then MQTTERR_FAILED_SEND_RESPONSE else err);
              b = MqttBuffer_Destroy b
          in Some (err, c\<lparr>heap := mallocs b\<rparr>)
        }
        else Some (pack_err err, c\<lparr>heap := mallocs (MqttBuffer_Destroy b)\<rparr>)
      })"

definition Mqtt_HandlePubRec :: "mqtt_app \<Rightarrow> byte \<Rightarrow> nat \<Rightarrow> nat \<Rightarrow> mqtt_context \<Rightarrow> handler_result" where
  "Mqtt_HandlePubRec app flags pkt sz c = do {
     r \<leftarrow> packet_id 0 flags pkt sz c;
     case r of
       Inl err \<Rightarrow> Some (err, c)
     | Inr pkt_id \<Rightarrow>
         (case call_app app (Call_pub_rec pkt_id) c of (err, c) \<Rightarrow>
            if 0 \<le> err then send_response app (Mqtt_PackPubRelPkt pkt_id) (\<lambda>e. e) c else Some (err, c))
   }"

definition Mqtt_HandlePubRel :: "mqtt_app \<Rightarrow> byte \<Rightarrow> nat \<Rightarrow> nat \<Rightarrow> mqtt_context \<Rightarrow> handler_result" where
  "Mqtt_HandlePubRel app flags pkt sz c = do {
     r \<leftarrow> packet_id 2 flags pkt sz c;
     case r of
       Inl err \<Rightarrow> Some (err, c)
     | Inr pkt_id \<Rightarrow>
         (case call_app app (Call_pub_rel pkt_id) c of (err, c) \<Rightarrow>
            if 0 \<le> err then send_response app (Mqtt_PackPubCompPkt pkt_id) (\<lambda>e. e) c else Some (err, c))
   }"

definition Mqtt_HandlePubComp :: "mqtt_app \<Rightarrow> byte \<Rightarrow> nat \<Rightarrow> nat \<Rightarrow> mqtt_context \<Rightarrow> handler_result" where
  "Mqtt_HandlePubComp app flags pkt sz c = do {
     r \<leftarrow> packet_id 0 flags pkt sz c;
     case r of Inl err \<Rightarrow> Some (err, c) | Inr pkt_id \<Rightarrow> Some (call_app app (Call_pub_comp pkt_id) c)
   }"

definition Mqtt_HandleUnsubAck :: "mqtt_app \<Rightarrow> byte \<Rightarrow> nat \<Rightarrow> nat \<Rightarrow> mqtt_context \<Rightarrow> handler_result" where
  "Mqtt_HandleUnsubAck app flags pkt sz c = do {
     r \<leftarrow> packet_id 0 flags pkt sz c;
     case r of Inl err \<Rightarrow> Some (err, c) | Inr pkt_id \<Rightarrow> Some (call_app app (Call_unsub_ack pkt_id) c)
   }"

text \<open>\<^verbatim>\<open>for(code = pkt + 2; code < pkt + size; ++code)\<close>\<close>

fun codes_legal :: "mem \<Rightarrow> nat \<Rightarrow> nat \<Rightarrow> bool option" where
  "codes_legal m i 0 = Some True"
| "codes_legal m i (Suc n) = do {
     code \<leftarrow> peek m i;
     if code AND 0x7C \<noteq> 0 then Some False else codes_legal m (i + 1) n
   }"

definition Mqtt_HandleSubAck :: "mqtt_app \<Rightarrow> byte \<Rightarrow> nat \<Rightarrow> nat \<Rightarrow> mqtt_context \<Rightarrow> handler_result" where
  "Mqtt_HandleSubAck app flags pkt sz c =
     (if flags \<noteq> 0 \<or> sz < 2 then Some (MQTTERR_ILLEGAL_PKT, c)
      else do {
        pkt_id \<leftarrow> Mqtt_RB16 (rx c) pkt;
        if pkt_id = 0 then Some (MQTTERR_ILLEGAL_PKT, c)
        else do {
          legal \<leftarrow> codes_legal (rx c) (pkt + 2) (sz - 2);
          if \<not> legal then Some (MQTTERR_ILLEGAL_PKT, c)
          else Some (call_app app (Call_sub_ack pkt_id (mem_slice (rx c) (pkt + 2) (sz - 2))) c)
        }
      })"

text \<open>The fields of a publish packet: the memory after the topic was moved, the offset of the
  topic, the packet id, offset and length of the payload; or the error returned.\<close>

definition publish_fields ::
  "byte \<Rightarrow> nat \<Rightarrow> nat \<Rightarrow> nat \<Rightarrow> nat \<Rightarrow> mem \<Rightarrow> (int + mem \<times> nat \<times> u16 \<times> nat \<times> nat) option" where
  "publish_fields dup qos topic_len pkt sz m =
     (if qos = 0
      then if dup \<noteq> 0 then Some (Inl MQTTERR_ILLEGAL_PKT)
           else do {
             m \<leftarrow> mem_move m pkt (pkt + 2) topic_len;
             Some (Inr (m, pkt, 0, pkt + 2 + topic_len, sz - 2 - topic_len))
           }
      else if qos = 1 \<or> qos = 2
      then if sz < topic_len + 4 then Some (Inl MQTTERR_ILLEGAL_PKT)
           else do {
             pkt_id \<leftarrow> Mqtt_RB16 m (pkt + topic_len + 2);
             if pkt_id = 0 then Some (Inl MQTTERR_ILLEGAL_PKT)
             else Some (Inr (m, pkt + 2, pkt_id, pkt + 4 + topic_len, sz - 4 - topic_len))
           }
      else Some (Inl MQTTERR_ILLEGAL_PKT))"

definition CMD_TOPIC_PREFIX :: "byte list" where
  "CMD_TOPIC_PREFIX = [0x24, 0x63, 0x72, 0x65, 0x71]"

text \<open>The callback for a publish packet with a legal topic; its result is 0 when none is called.\<close>

definition publish_call ::
  "mqtt_app \<Rightarrow> byte list \<Rightarrow> nat \<Rightarrow> u16 \<Rightarrow> nat \<Rightarrow> nat \<Rightarrow> byte \<Rightarrow> nat \<Rightarrow> mqtt_context \<Rightarrow> int \<times> mqtt_context" where
  "publish_call app topic_str topic pkt_id payload payload_len dup qos c =
     (if take 1 topic_str = [0x24]
      then if take 5 topic_str = CMD_TOPIC_PREFIX
           then call_app app (Call_cmd pkt_id (c_string (drop (topic + 6) (rx c))) 0
                  (mem_slice (rx c) payload payload_len) dup qos) c
           else (MQTTERR_NOERROR, c)
      else call_app app (Call_publish pkt_id (Some topic_str)
             (mem_slice (rx c) payload payload_len) dup qos) c)"

definition publish_response :: "mqtt_app \<Rightarrow> nat \<Rightarrow> u16 \<Rightarrow> int \<times> mqtt_context \<Rightarrow> handler_result" where
  "publish_response app qos pkt_id r =
     (case r of (err, c) \<Rightarrow>
        if 0 \<le> err
        then if qos = 2 then send_response app (Mqtt_PackPubRecPkt pkt_id) (\<lambda>_. MQTTERR_FAILED_SEND_RESPONSE) c
             else if qos = 1 then send_response app (Mqtt_PackPubAckPkt pkt_id) (\<lambda>_. MQTTERR_FAILED_SEND_RESPONSE) c
             else Some (err, c)
        else Some (err, c))"

text \<open>From \<^verbatim>\<open>topic[topic_len] = '\0';\<close> to the end.\<close>

definition publish_deliver ::
  "mqtt_app \<Rightarrow> byte \<Rightarrow> nat \<Rightarrow> nat \<Rightarrow> mem \<times> nat \<times> u16 \<times> nat \<times> nat \<Rightarrow> mqtt_context \<Rightarrow> handler_result" where
  "publish_deliver app dup qos topic_len flds c =
     (case flds of (m, topic, pkt_id, payload, payload_len) \<Rightarrow> do {
        m \<leftarrow> poke m (topic + topic_len) [0];
        let c = c\<lparr>rx := m\<rparr>;
        r \<leftarrow> Mqtt_CheckUtf8 m topic topic_len;
        topic_str \<leftarrow> c_string (drop topic m);
        if r \<noteq> int topic_len then Some (MQTTERR_ILLEGAL_PKT, c)
        else if \<not> wildcard_free topic_str then Some (MQTTERR_ILLEGAL_PKT, c)
        else publish_response app qos pkt_id
               (publish_call app topic_str topic pkt_id payload payload_len dup qos c)
      })"

definition Mqtt_HandlePublish :: "mqtt_app \<Rightarrow> byte \<Rightarrow> nat \<Rightarrow> nat \<Rightarrow> mqtt_context \<Rightarrow> handler_result" where
  "Mqtt_HandlePublish app flags pkt sz c =
     (let dup = flags AND 0x08; qos = unat (drop_bit 1 (flags AND 0x06)); retain = flags AND 0x01
      in if sz < 2 then Some (MQTTERR_ILLEGAL_PKT, c)
         else if retain \<noteq> 0 then Some (MQTTERR_ILLEGAL_PKT, c)
         else do {
           tlen \<leftarrow> Mqtt_RB16 (rx c) pkt;
           if sz < 2 + unat tlen then Some (MQTTERR_ILLEGAL_PKT, c)
           else do {
             flds \<leftarrow> publish_fields dup qos (unat tlen) pkt sz (rx c);
             case flds of
               Inl err \<Rightarrow> Some (err, c)
             | Inr flds \<Rightarrow> publish_deliver app dup qos (unat tlen) flds c
           }
         })"

definition Mqtt_Dispatch :: "mqtt_app \<Rightarrow> byte \<Rightarrow> nat \<Rightarrow> nat \<Rightarrow> mqtt_context \<Rightarrow> handler_result" where
  "Mqtt_Dispatch app fh pkt sz c =
     (let flags = fh AND 0x0F; kind = drop_bit 4 fh
      in if kind = MQTT_PKT_PINGRESP then Mqtt_HandlePingResp app flags pkt sz c
         else if kind = MQTT_PKT_CONNACK then Mqtt_HandleConnAck app flags pkt sz c
         else if kind = MQTT_PKT_PUBLISH then Mqtt_HandlePublish app flags pkt sz c
         else if kind = MQTT_PKT_PUBACK then Mqtt_HandlePubAck app flags pkt sz c
         else if kind = MQTT_PKT_PUBREC then Mqtt_HandlePubRec app flags pkt sz c
         else if kind = MQTT_PKT_PUBREL then Mqtt_HandlePubRel app flags pkt sz c
         else if kind = MQTT_PKT_PUBCOMP then Mqtt_HandlePubComp app flags pkt sz c
         else if kind = MQTT_PKT_SUBACK then Mqtt_HandleSubAck app flags pkt sz c
         else if kind = MQTT_PKT_UNSUBACK then Mqtt_HandleUnsubAck app flags pkt sz c
         else Some (MQTTERR_ILLEGAL_PKT, c))"

subsection \<open>The receive loop\<close>

text \<open>\<^verbatim>\<open>while(1)\<close>: \<open>Inl\<close> the error the call returns, \<open>Inr\<close> the final \<^verbatim>\<open>cursor\<close>.\<close>

function recv_loop :: "mqtt_app \<Rightarrow> nat \<Rightarrow> nat \<Rightarrow> mqtt_context \<Rightarrow> ((int + nat) \<times> mqtt_context) option" where
  "recv_loop app pos cursor c =
     (if pos < cursor + 2 then Some (Inr cursor, c)
      else case Mqtt_ReadLength (rx c) (cursor + 1) (pos - cursor - 1) of
             None \<Rightarrow> None
           | Some (bytes, remaining_len) \<Rightarrow>
               if bytes = -1 then Some (Inr cursor, c)
               else if bytes = -2 then Some (Inl MQTTERR_ILLEGAL_PKT, c)
               else if pos < cursor + unat remaining_len + nat bytes + 1 then Some (Inr cursor, c)
               else case peek (rx c) cursor of
                      None \<Rightarrow> None
                    | Some fh \<Rightarrow>
                        (case Mqtt_Dispatch app fh (cursor + nat bytes + 1) (unat remaining_len) c of
                           None \<Rightarrow> None
                         | Some (errcode, c) \<Rightarrow>
                             if errcode < 0 then Some (Inl errcode, c)
                             else recv_loop app pos (cursor + nat bytes + 1 + unat remaining_len) c))"
  by pat_completeness auto
termination by (relation "measure (\<lambda>(app, pos, cursor, c). pos + 1 - cursor)") auto

declare recv_loop.simps [simp del]

datatype mqtt_read = Rd_fail | Rd_data "byte list"

text \<open>\<open>Rd_data []\<close> is the end of file. Data beyond \<^verbatim>\<open>end\<close> is not the code's to store, but \<^verbatim>\<open>pos\<close>
  is advanced over it before the test.\<close>

definition Mqtt_RecvPkt :: "mqtt_app \<Rightarrow> mqtt_read \<Rightarrow> mqtt_context \<Rightarrow> handler_result" where
  "Mqtt_RecvPkt app rd c =
     (case rd of
        Rd_fail \<Rightarrow> Some (MQTTERR_IO, c)
      | Rd_data bs \<Rightarrow>
          if bs = [] then Some (MQTTERR_ENDOFFILE, c\<lparr>rx_pos := 0\<rparr>)
          else let room = length (rx c) - rx_pos c;
                   pos = rx_pos c + length bs
               in case poke (rx c) (rx_pos c) (take room bs) of
                    None \<Rightarrow> None
                  | Some m \<Rightarrow>
                      (let c = c\<lparr>rx := m, rx_pos := pos\<rparr>
                       in if length m < pos then Some (MQTTERR_BUF_OVERFLOW, c)
                          else case recv_loop app pos 0 c of
                                 None \<Rightarrow> None
                               | Some (Inl err, c) \<Rightarrow> Some (err, c)
                               | Some (Inr cursor, c) \<Rightarrow>
                                   if 0 < cursor
                                   then do {
                                     m \<leftarrow> mem_move (rx c) 0 cursor cursor;
                                     Some (MQTTERR_NOERROR, c\<lparr>rx := m, rx_pos := rx_pos c - cursor\<rparr>)
                                   }
                                   else Some (MQTTERR_NOERROR, c)))"

subsection \<open>Sending a packet\<close>

lemma call_app_simps [simp]:
  "rx (snd (call_app app f c)) = rx c" "rx_pos (snd (call_app app f c)) = rx_pos c"
  "heap (snd (call_app app f c)) = heap c" "calls (snd (call_app app f c)) = calls c @ [f]"
  "fst (call_app app f c) = app (calls c @ [f])"
  by (simp_all add: call_app_def Let_def)

lemma call_app_eq: "call_app app f c = (app (calls c @ [f]), c\<lparr>calls := calls c @ [f]\<rparr>)"
  by (simp add: call_app_def Let_def)

lemma SendPkt_whole:
  assumes "exts b = e # es" "buffered_bytes b \<noteq> 0" "mqtt_malloc b = (p, b')" "p \<noteq> 0"
    "\<And>x. x \<in> set (exts b) \<Longrightarrow> unat (ext_len x) \<le> length (ext_payload x)"
  shows "Mqtt_SendPkt app b 0 c =
    Some (app (calls c @ [Call_writev (map ext_out (exts b))]), mqtt_free p b',
          c\<lparr>calls := calls c @ [Call_writev (map ext_out (exts b))]\<rparr>)"
  using assms by (auto simp: Mqtt_SendPkt_def call_app_eq not_less word_gt_0)

text \<open>An offset inside an extent, as after a short write: the extent is skipped as a whole. When
  it was the last one, 0 is returned however often the call is repeated; otherwise the first
  block starts before the payload.\<close>

lemma SendPkt_offset_inside:
  assumes "exts b = e # es" "0 < offset" "offset < ext_len e" "offset < buffered_bytes b"
  shows "es = [] \<Longrightarrow> Mqtt_SendPkt app b offset c = Some (0, b, c)"
    and "es \<noteq> [] \<Longrightarrow> mqtt_malloc b = (p, b') \<Longrightarrow> p \<noteq> 0 \<Longrightarrow> Mqtt_SendPkt app b offset c = None"
proof -
  have s: "skip_extents offset 0 (e # es) = (ext_len e, es)"
    using assms(2,3) by (cases es) (auto simp: not_less)
  have le: "\<not> buffered_bytes b \<le> offset" using assms(4) by simp
  show "es = [] \<Longrightarrow> Mqtt_SendPkt app b offset c = Some (0, b, c)"
    using le s assms(1) by (simp add: Mqtt_SendPkt_def)
  show "es \<noteq> [] \<Longrightarrow> mqtt_malloc b = (p, b') \<Longrightarrow> p \<noteq> 0 \<Longrightarrow> Mqtt_SendPkt app b offset c = None"
    using le s assms(1,3) by (cases es) (auto simp: Mqtt_SendPkt_def simp del: skip_extents.simps)
qed

text \<open>A response of four bytes.\<close>

definition ack_block :: "byte \<Rightarrow> u16 \<Rightarrow> mem" where
  "ack_block head pkt_id = map Some ([head, 2] @ Mqtt_WB16 pkt_id)"

definition memory_for_response :: "mqtt_context \<Rightarrow> bool" where
  "memory_for_response c = (4 \<le> length (heap c) \<and> 0 \<notin> set (heap c))"

lemma send_response_ok:
  assumes mem: "memory_for_response c"
    and pack: "\<And>b. plenty (Suc (Suc 0)) b \<Longrightarrow>
      \<exists>b'. pack b = Some (MQTTERR_NOERROR, b') \<and> plenty (Suc 0) b' \<and> added_ack head pkt_id b b'"
    and sent: "app (calls c @ [Call_writev [ack_block head pkt_id]]) = 4"
  shows "\<exists>h. send_response app pack pe c =
    Some (MQTTERR_NOERROR, c\<lparr>heap := h, calls := calls c @ [Call_writev [ack_block head pkt_id]]\<rparr>)"
proof -
  define b0 where "b0 = MqttBuffer_Init \<lparr>exts = [], available_bytes = 0, allocations = [], allocations_at = 0,
                first_available = 0, alloc_count = 0, alloc_max_count = 0, buffered_bytes = 0,
                mallocs = heap c, frees = []\<rparr>"
  have b0: "plenty (Suc (Suc 0)) b0" "exts b0 = []" "buffered_bytes b0 = 0"
    using mem by (simp_all add: b0_def plenty_def memory_for_response_def MqttBuffer_Init_def)
  obtain b1 where b1: "pack b0 = Some (MQTTERR_NOERROR, b1)" "plenty (Suc 0) b1" "added_ack head pkt_id b0 b1"
    using pack [OF b0(1)] by blast
  from b1(3) b0(2,3) obtain e where e: "exts b1 = [e]" "ext_out e = ack_block head pkt_id"
    "unat (ext_len e) \<le> length (ext_payload e)" "buffered_bytes b1 = 4"
    by (auto simp: added_ack_def ack_block_def)
  obtain p b2 where p: "mqtt_malloc b1 = (p, b2)" "p \<noteq> 0"
    by (rule plenty_malloc [of 0 b1]) (use b1(2) in \<open>auto simp: plenty_def\<close>)
  have bb: "buffered_bytes b2 = 4" using malloc_frame [OF p(1)] e(4) by simp
  have send: "Mqtt_SendPkt app b1 0 c = Some (4, mqtt_free p b2,
      c\<lparr>calls := calls c @ [Call_writev [ack_block head pkt_id]]\<rparr>)"
    using SendPkt_whole [OF e(1) _ p, of app c] e sent by simp
  show ?thesis
    unfolding send_response_def b0_def [symmetric] Let_def
    by (rule exI [of _ "mallocs (MqttBuffer_Destroy (mqtt_free p b2))"])
      (simp add: b1(1) send bb mqtt_free_def)
qed

subsection \<open>Acknowledgements received\<close>

lemma packet_id_ok:
  assumes "Mqtt_RB16 (rx c) pkt = Some pkt_id"
  shows "packet_id expected flags pkt sz c =
    Some (if flags = expected \<and> sz = 2 \<and> pkt_id \<noteq> 0 then Inr pkt_id else Inl MQTTERR_ILLEGAL_PKT)"
  using assms by (simp add: packet_id_def)

text \<open>A packet without response reaches its callback exactly when it is well-formed.\<close>

lemma HandleAck_calls:
  assumes "Mqtt_RB16 (rx c) pkt = Some pkt_id"
  shows "Mqtt_HandlePubAck app flags pkt sz c =
      Some (if flags = 0 \<and> sz = 2 \<and> pkt_id \<noteq> 0 then call_app app (Call_pub_ack pkt_id) c
            else (MQTTERR_ILLEGAL_PKT, c))"
    and "Mqtt_HandlePubComp app flags pkt sz c =
      Some (if flags = 0 \<and> sz = 2 \<and> pkt_id \<noteq> 0 then call_app app (Call_pub_comp pkt_id) c
            else (MQTTERR_ILLEGAL_PKT, c))"
    and "Mqtt_HandleUnsubAck app flags pkt sz c =
      Some (if flags = 0 \<and> sz = 2 \<and> pkt_id \<noteq> 0 then call_app app (Call_unsub_ack pkt_id) c
            else (MQTTERR_ILLEGAL_PKT, c))"
  by (simp_all add: Mqtt_HandlePubAck_def Mqtt_HandlePubComp_def Mqtt_HandleUnsubAck_def packet_id_ok [OF assms])

text \<open>The two steps of a QoS 2 exchange that have a response.\<close>

lemma HandlePubRec_responds:
  assumes "Mqtt_RB16 (rx c) pkt = Some pkt_id" "pkt_id \<noteq> 0" "memory_for_response c"
    and "0 \<le> app (calls c @ [Call_pub_rec pkt_id])"
    and "app (calls c @ [Call_pub_rec pkt_id, Call_writev [ack_block 0x62 pkt_id]]) = 4"
  shows "\<exists>h. Mqtt_HandlePubRec app 0 pkt 2 c = Some (MQTTERR_NOERROR, c\<lparr>heap := h,
    calls := calls c @ [Call_pub_rec pkt_id, Call_writev [ack_block 0x62 pkt_id]]\<rparr>)"
proof -
  let ?c = "c\<lparr>calls := calls c @ [Call_pub_rec pkt_id]\<rparr>"
  have "\<exists>h. send_response app (Mqtt_PackPubRelPkt pkt_id) (\<lambda>e. e) ?c =
    Some (MQTTERR_NOERROR, ?c\<lparr>heap := h, calls := calls ?c @ [Call_writev [ack_block 0x62 pkt_id]]\<rparr>)"
  proof (rule send_response_ok)
    show "\<exists>b'. Mqtt_PackPubRelPkt pkt_id b = Some (MQTTERR_NOERROR, b') \<and> plenty (Suc 0) b' \<and>
        added_ack 0x62 pkt_id b b'" if "plenty (Suc (Suc 0)) b" for b
      by (rule PackPub_ok(3) [OF that assms(2)])
  qed (use assms(3,5) in \<open>simp_all add: memory_for_response_def\<close>)
  then show ?thesis
    using assms(4) by (simp add: Mqtt_HandlePubRec_def packet_id_ok [OF assms(1)] assms(2) call_app_eq)
qed

lemma HandlePubRel_responds:
  assumes "Mqtt_RB16 (rx c) pkt = Some pkt_id" "pkt_id \<noteq> 0" "memory_for_response c"
    and "0 \<le> app (calls c @ [Call_pub_rel pkt_id])"
    and "app (calls c @ [Call_pub_rel pkt_id, Call_writev [ack_block 0x70 pkt_id]]) = 4"
  shows "\<exists>h. Mqtt_HandlePubRel app 2 pkt 2 c = Some (MQTTERR_NOERROR, c\<lparr>heap := h,
    calls := calls c @ [Call_pub_rel pkt_id, Call_writev [ack_block 0x70 pkt_id]]\<rparr>)"
proof -
  let ?c = "c\<lparr>calls := calls c @ [Call_pub_rel pkt_id]\<rparr>"
  have "\<exists>h. send_response app (Mqtt_PackPubCompPkt pkt_id) (\<lambda>e. e) ?c =
    Some (MQTTERR_NOERROR, ?c\<lparr>heap := h, calls := calls ?c @ [Call_writev [ack_block 0x70 pkt_id]]\<rparr>)"
  proof (rule send_response_ok)
    show "\<exists>b'. Mqtt_PackPubCompPkt pkt_id b = Some (MQTTERR_NOERROR, b') \<and> plenty (Suc 0) b' \<and>
        added_ack 0x70 pkt_id b b'" if "plenty (Suc (Suc 0)) b" for b
      by (rule PackPub_ok(4) [OF that assms(2)])
  qed (use assms(3,5) in \<open>simp_all add: memory_for_response_def\<close>)
  then show ?thesis
    using assms(4) by (simp add: Mqtt_HandlePubRel_def packet_id_ok [OF assms(1)] assms(2) call_app_eq)
qed

subsection \<open>A publish packet received\<close>

text \<open>The topic as the receiver may have it: no byte 0, no wildcard, accepted by the UTF-8 test.\<close>

definition plain_topic :: "byte list \<Rightarrow> bool" where
  "plain_topic t = (length t < 2 ^ 16 \<and> 0 \<notin> set t \<and> wildcard_free t \<and>
     check_utf8_fails t (length t) = Some False \<and> take 1 t \<noteq> [0x24])"

lemma RB16_at:
  assumes "length a = i" shows "Mqtt_RB16 (a @ map Some (Mqtt_WB16 v @ s) @ m) i = Some v"
  using RB16_append [OF assms, of v "map Some s @ m"] by simp

lemma CheckUtf8_at:
  assumes "check_utf8_fails t (length t) = Some False" "length a = i"
  shows "Mqtt_CheckUtf8 (a @ c_mem t @ m) i (length t) = Some (int (length t))"
proof -
  have "Mqtt_CheckUtf8 (a @ c_mem t @ m) i (length t) = Mqtt_CheckUtf8 (c_mem t) 0 (length t)"
    by (rule CheckUtf8_cong) (use assms(2) in \<open>auto simp: peek_append c_mem_def\<close>)
  then show ?thesis using assms(1) by (auto simp: check_utf8_fails_def)
qed

lemma c_string_at: "0 \<notin> set t \<Longrightarrow> length a = i \<Longrightarrow> c_string (drop i (a @ c_mem t @ m)) = Some t"
  by (simp add: c_string_c_mem)

lemma publish_deliver_ok:
  assumes t: "plain_topic t" and a: "length a = topic"
    and pk: "poke m (topic + length t) [0] = Some (a @ c_mem t @ r)"
    and sl: "mem_slice (a @ c_mem t @ r) payload n = Some pl"
  shows "publish_deliver app dup qos (length t) (m, topic, pkt_id, payload, n) c =
    publish_response app qos pkt_id
      (call_app app (Call_publish pkt_id (Some t) (Some pl) dup qos) (c\<lparr>rx := a @ c_mem t @ r\<rparr>))"
proof -
  have utf: "Mqtt_CheckUtf8 (a @ c_mem t @ r) topic (length t) = Some (int (length t))"
    by (rule CheckUtf8_at [OF _ a]) (use t in \<open>simp add: plain_topic_def\<close>)
  have str: "c_string (drop topic (a @ c_mem t @ r)) = Some t"
    by (rule c_string_at [OF _ a]) (use t in \<open>simp add: plain_topic_def\<close>)
  show ?thesis
    using t by (simp only: publish_deliver_def prod.case pk Option.bind.simps Let_def utf str)
      (simp add: plain_topic_def publish_call_def sl)
qed

lemma poke_at: "length u = i \<Longrightarrow> poke (u @ [x] @ v) i [b] = Some (u @ [Some b] @ v)"
  by (simp add: poke_def)

lemma HandlePublish_fields:
  assumes "flags AND 0x01 = 0" "flags AND 0x08 = dup" "unat (drop_bit 1 (flags AND 0x06)) = qos"
    and "Mqtt_RB16 (rx c) pkt = Some tlen" "2 + unat tlen \<le> sz"
    and "publish_fields dup qos (unat tlen) pkt sz (rx c) = Some (Inr f)"
  shows "Mqtt_HandlePublish app flags pkt sz c = publish_deliver app dup qos (unat tlen) f c"
  using assms(5) unfolding Mqtt_HandlePublish_def Let_def assms(1-3) assms(4,6) by (simp add: assms(6))

text \<open>QoS 0: the topic is moved two bytes down to make room for its terminating 0. QoS 1 and 2: the
  0 replaces the first byte of the packet id.\<close>

lemma HandlePublish_ok:
  assumes t: "plain_topic t" and q: "qos \<le> 2" and id: "qos \<noteq> 0 \<longrightarrow> pkt_id \<noteq> 0"
    and flags: "flags = of_nat (2 * qos)"
    and rx: "rx c = a @ map Some (publish_body pkt_id t payload qos) @ m" "length a = pkt"
  shows "\<exists>m'. length m' = length (publish_body pkt_id t payload qos) \<and>
    Mqtt_HandlePublish app flags pkt (length (publish_body pkt_id t payload qos)) c =
      publish_response app qos (if qos = 0 then 0 else pkt_id)
        (call_app app (Call_publish (if qos = 0 then 0 else pkt_id) (Some t) (Some payload) 0 qos)
          (c\<lparr>rx := a @ m' @ m\<rparr>))"
proof -
  let ?n = "length t"
  let ?wt = "map Some (Mqtt_WB16 (of_nat ?n) @ t)"
  let ?id = "if qos = 0 then [] else Mqtt_WB16 pkt_id"
  have n16: "?n < 2 ^ 16" using t by (simp add: plain_topic_def)
  have body: "rx c = a @ ?wt @ map Some ?id @ map Some payload @ m"
    using rx(1) by (simp add: publish_body_def)
  have rb: "Mqtt_RB16 (rx c) pkt = Some (of_nat ?n)"
    using RB16_at [OF rx(2), of "of_nat ?n" t "map Some ?id @ map Some payload @ m"] body by simp
  have un: "unat (of_nat ?n :: u16) = ?n" by (rule u16_of_nat [OF n16])
  have fl: "flags AND 0x01 = 0 \<and> flags AND 0x08 = 0 \<and> unat (drop_bit 1 (flags AND 0x06)) = qos"
  proof -
    consider "qos = 0" | "qos = 1" | "qos = 2" using q by linarith
    then show ?thesis by cases (simp_all add: flags)
  qed
  have len: "length (publish_body pkt_id t payload qos) = 2 + ?n + (if qos = 0 then 0 else 2) + length payload"
    by (simp add: publish_body_length)
  note handle = HandlePublish_fields [OF conjunct1 [OF fl] conjunct1 [OF conjunct2 [OF fl]]
    conjunct2 [OF conjunct2 [OF fl]] rb, unfolded un]
  show ?thesis
  proof (cases "qos = 0")
    case True
    have mv: "mem_move (rx c) pkt (pkt + 2) ?n = Some (a @ map Some t @ drop ?n ?wt @ map Some payload @ m)"
      using rx(2) True by (simp add: mem_move_def body)
    define d where "d = drop ?n ?wt"
    have "length d = Suc (Suc 0)" unfolding d_def by simp
    then obtain x y where "d = [x, y]" by (auto simp: length_Suc_conv)
    then have xy: "drop ?n ?wt = [x, y]" by (simp only: d_def)
    have fields: "publish_fields 0 qos ?n pkt (length (publish_body pkt_id t payload qos)) (rx c) =
        Some (Inr (a @ map Some t @ [x, y] @ map Some payload @ m, pkt, 0, pkt + 2 + ?n, length payload))"
      using mv [unfolded xy] True by (simp add: publish_fields_def publish_body_length)
    have pk: "poke (a @ map Some t @ [x, y] @ map Some payload @ m) (pkt + ?n) [0] =
        Some (a @ c_mem t @ [y] @ map Some payload @ m)"
      using rx(2) by (simp add: poke_def c_mem_def)
    have sl: "mem_slice (a @ c_mem t @ [y] @ map Some payload @ m) (pkt + 2 + ?n) (length payload) = Some payload"
      using mem_slice_mid [of "a @ c_mem t @ [y]" "pkt + 2 + ?n" payload "length payload" m] rx(2)
      by (simp add: c_mem_def)
    let ?m' = "c_mem t @ [y] @ map Some payload"
    show ?thesis
    proof (intro exI [of _ ?m'] conjI)
      show "length ?m' = length (publish_body pkt_id t payload qos)" using True by (simp add: publish_body_length c_mem_def)
      have "Mqtt_HandlePublish app flags pkt (length (publish_body pkt_id t payload qos)) c =
          publish_deliver app 0 qos ?n
            (a @ map Some t @ [x, y] @ map Some payload @ m, pkt, 0, pkt + 2 + ?n, length payload) c"
        by (rule handle [OF _ fields]) (simp add: len)
      also have "\<dots> = publish_response app qos 0
          (call_app app (Call_publish 0 (Some t) (Some payload) 0 qos) (c\<lparr>rx := a @ c_mem t @ [y] @ map Some payload @ m\<rparr>))"
        by (rule publish_deliver_ok [OF t rx(2) pk sl])
      finally show "Mqtt_HandlePublish app flags pkt (length (publish_body pkt_id t payload qos)) c =
          publish_response app qos (if qos = 0 then 0 else pkt_id)
            (call_app app (Call_publish (if qos = 0 then 0 else pkt_id) (Some t) (Some payload) 0 qos)
              (c\<lparr>rx := a @ ?m' @ m\<rparr>))"
        using True by simp
    qed
  next
    case False
    obtain w0 w1 i0 i1 where w: "map Some (Mqtt_WB16 (of_nat ?n)) = [w0, w1]"
      "map Some (Mqtt_WB16 pkt_id) = [i0, i1]" by (simp add: Mqtt_WB16_def)
    have body': "rx c = (a @ [w0, w1]) @ map Some t @ [i0, i1] @ map Some payload @ m"
      using body False w by simp
    have rbid: "Mqtt_RB16 (rx c) (pkt + ?n + 2) = Some pkt_id"
      using RB16_append [of "a @ [w0, w1] @ map Some t" "pkt + ?n + 2" pkt_id "map Some payload @ m"] rx(2)
      by (simp add: body' w(2))
    have fields: "publish_fields 0 qos ?n pkt (length (publish_body pkt_id t payload qos)) (rx c) =
        Some (Inr (rx c, pkt + 2, pkt_id, pkt + 4 + ?n, length payload))"
    proof -
      have "qos = 1 \<or> qos = 2" using False q by linarith
      then show ?thesis using rbid id False by (auto simp: publish_fields_def len)
    qed
    have pk: "poke (rx c) (pkt + 2 + ?n) [0] =
        Some ((a @ [w0, w1]) @ c_mem t @ [i1] @ map Some payload @ m)"
      using poke_at [of "(a @ [w0, w1]) @ map Some t" "pkt + 2 + ?n" i0 "[i1] @ map Some payload @ m" 0] rx(2)
      by (simp add: c_mem_def body')
    have sl: "mem_slice ((a @ [w0, w1]) @ c_mem t @ [i1] @ map Some payload @ m) (pkt + 4 + ?n) (length payload) = Some payload"
      using mem_slice_mid [of "(a @ [w0, w1]) @ c_mem t @ [i1]" "pkt + 4 + ?n" payload "length payload" m] rx(2)
      by (simp add: c_mem_def)
    have al: "length (a @ [w0, w1]) = pkt + 2" using rx(2) by simp
    let ?m' = "[w0, w1] @ c_mem t @ [i1] @ map Some payload"
    show ?thesis
    proof (intro exI [of _ ?m'] conjI)
      show "length ?m' = length (publish_body pkt_id t payload qos)" using False by (simp add: len c_mem_def)
      have "Mqtt_HandlePublish app flags pkt (length (publish_body pkt_id t payload qos)) c =
          publish_deliver app 0 qos ?n (rx c, pkt + 2, pkt_id, pkt + 4 + ?n, length payload) c"
        by (rule handle [OF _ fields]) (simp add: len)
      also have "\<dots> = publish_response app qos pkt_id
          (call_app app (Call_publish pkt_id (Some t) (Some payload) 0 qos)
            (c\<lparr>rx := (a @ [w0, w1]) @ c_mem t @ [i1] @ map Some payload @ m\<rparr>))"
        by (rule publish_deliver_ok [OF t al pk sl])
      finally show "Mqtt_HandlePublish app flags pkt (length (publish_body pkt_id t payload qos)) c =
          publish_response app qos (if qos = 0 then 0 else pkt_id)
            (call_app app (Call_publish (if qos = 0 then 0 else pkt_id) (Some t) (Some payload) 0 qos)
              (c\<lparr>rx := a @ ?m' @ m\<rparr>))"
        using False by simp
    qed
  qed
qed

subsection \<open>The stream of packets\<close>

lemma packet_length: "length (packet h body) = 1 + length (length_field (of_nat (length body))) + length body"
  by (simp add: packet_def)

text \<open>One complete packet at \<open>cursor\<close>: it is dispatched, and the loop goes on behind it.\<close>

lemma recv_loop_packet:
  assumes rx: "rx c = a @ map Some (packet h body) @ m" "length a = cursor"
    and body: "length body < 2 ^ 21" and pos: "cursor + length (packet h body) \<le> pos"
  shows "recv_loop app pos cursor c =
    (case Mqtt_Dispatch app h (cursor + length (packet h body) - length body) (length body) c of
       None \<Rightarrow> None
     | Some (errcode, c) \<Rightarrow>
         if errcode < 0 then Some (Inl errcode, c)
         else recv_loop app pos (cursor + length (packet h body)) c)"
proof -
  define l :: u32 where "l = of_nat (length body)"
  have l: "unat l = length body" unfolding l_def by (rule u32_of_nat) (use body in simp)
  let ?lf = "length_field l"
  obtain r where r: "Mqtt_DumpLength l = (r, ?lf)" by (cases "Mqtt_DumpLength l") auto
  have pl: "length (packet h body) = 1 + length ?lf + length body" by (simp add: packet_length l_def)
  have rl: "r = int (length ?lf) \<and> 1 \<le> length ?lf \<and> length ?lf \<le> 3 \<and>
      Mqtt_ReadLength (rx c) (cursor + 1) (pos - cursor - 1) = Some (r, l)"
  proof (rule length_roundtrip [OF _ r])
    show "unat l < 2 ^ 21" using l body by simp
    show "length ?lf \<le> pos - cursor - 1" using pos pl by simp
    show "peek (rx c) (cursor + 1 + j) = Some (?lf ! j)" if "j < length ?lf" for j
      using that rx by (simp add: packet_def l_def [symmetric] peek_append nth_append)
  qed
  then have ret: "Mqtt_ReadLength (rx c) (cursor + 1) (pos - cursor - 1) = Some (int (length ?lf), l)"
    and ge: "1 \<le> length ?lf" by simp_all
  have hd: "peek (rx c) cursor = Some h" using rx by (simp add: packet_def peek_append)
  have go: "\<not> pos < cursor + 2" "int (length ?lf) \<noteq> -1" "int (length ?lf) \<noteq> -2"
    "\<not> pos < cursor + length body + nat (int (length ?lf)) + 1"
    using pos pl ge by simp_all
  have at: "cursor + nat (int (length ?lf)) + 1 = cursor + length (packet h body) - length body"
    "cursor + length (packet h body) - length body + length body = cursor + length (packet h body)"
    using pl by simp_all
  show ?thesis
    by (subst recv_loop.simps) (simp only: ret l go if_False option.case prod.case hd at)
qed

lemma recv_loop_end: "pos < cursor + 2 \<Longrightarrow> recv_loop app pos cursor c = Some (Inr cursor, c)"
  by (subst recv_loop.simps) simp

text \<open>What the fixed header says to \<open>Mqtt_Dispatch\<close>.\<close>

lemma dispatch_publish:
  assumes "qos \<le> 2"
  shows "Mqtt_Dispatch app (publish_head qos False) pkt sz c =
    Mqtt_HandlePublish app (of_nat (2 * qos)) pkt sz c"
proof -
  consider "qos = 0" | "qos = 1" | "qos = 2" using assms by linarith
  then show ?thesis by cases (simp_all add: Mqtt_Dispatch_def publish_head_def Let_def)
qed

lemma dispatch_ids:
  "Mqtt_Dispatch app 0x40 pkt sz c = Mqtt_HandlePubAck app 0 pkt sz c"
  "Mqtt_Dispatch app 0x50 pkt sz c = Mqtt_HandlePubRec app 0 pkt sz c"
  "Mqtt_Dispatch app 0x62 pkt sz c = Mqtt_HandlePubRel app 2 pkt sz c"
  "Mqtt_Dispatch app 0x70 pkt sz c = Mqtt_HandlePubComp app 0 pkt sz c"
  "Mqtt_Dispatch app 0xB0 pkt sz c = Mqtt_HandleUnsubAck app 0 pkt sz c"
  "Mqtt_Dispatch app 0xD0 pkt sz c = Mqtt_HandlePingResp app 0 pkt sz c"
  "Mqtt_Dispatch app 0x20 pkt sz c = Mqtt_HandleConnAck app 0 pkt sz c"
  "Mqtt_Dispatch app 0x90 pkt sz c = Mqtt_HandleSubAck app 0 pkt sz c"
  by (simp_all add: Mqtt_Dispatch_def Let_def)

lemma dispatch_unknown:
  "drop_bit 4 h \<in> {0, 1, 8, 10, 12, 14, 15} \<Longrightarrow> Mqtt_Dispatch app h pkt sz c = Some (MQTTERR_ILLEGAL_PKT, c)"
  by (auto simp: Mqtt_Dispatch_def Let_def)

text \<open>A publish packet and its response.\<close>

definition publish_calls :: "nat \<Rightarrow> u16 \<Rightarrow> byte list \<Rightarrow> byte list \<Rightarrow> mqtt_call list" where
  "publish_calls qos pkt_id t payload =
     Call_publish (if qos = 0 then 0 else pkt_id) (Some t) (Some payload) 0 qos #
     (if qos = 0 then [] else [Call_writev [ack_block (if qos = 1 then 0x40 else 0x50) pkt_id]])"

lemma publish_response_ok:
  assumes q: "qos \<le> 2" and id: "qos \<noteq> 0 \<longrightarrow> pkt_id \<noteq> 0" and mem: "memory_for_response c"
    and err: "0 \<le> err"
    and sent: "qos \<noteq> 0 \<longrightarrow> app (calls c @ [Call_writev [ack_block (if qos = 1 then 0x40 else 0x50) pkt_id]]) = 4"
  shows "\<exists>h n. 0 \<le> n \<and> publish_response app qos pkt_id (err, c) = Some (n, c\<lparr>heap := h, calls := calls c @
    (if qos = 0 then [] else [Call_writev [ack_block (if qos = 1 then 0x40 else 0x50) pkt_id]])\<rparr>)"
proof -
  consider "qos = 0" | "qos = 1" | "qos = 2" using q by linarith
  then show ?thesis
  proof cases
    case 1
    then show ?thesis using err by (intro exI [of _ "heap c"] exI [of _ err]) (simp add: publish_response_def)
  next
    case 2
    have "\<exists>h. send_response app (Mqtt_PackPubAckPkt pkt_id) (\<lambda>_. MQTTERR_FAILED_SEND_RESPONSE) c =
        Some (MQTTERR_NOERROR, c\<lparr>heap := h, calls := calls c @ [Call_writev [ack_block 0x40 pkt_id]]\<rparr>)"
      by (rule send_response_ok [OF mem PackPub_ok(1)]) (use id sent 2 in auto)
    then show ?thesis using 2 err by (auto simp: publish_response_def)
  next
    case 3
    have "\<exists>h. send_response app (Mqtt_PackPubRecPkt pkt_id) (\<lambda>_. MQTTERR_FAILED_SEND_RESPONSE) c =
        Some (MQTTERR_NOERROR, c\<lparr>heap := h, calls := calls c @ [Call_writev [ack_block 0x50 pkt_id]]\<rparr>)"
      by (rule send_response_ok [OF mem PackPub_ok(2)]) (use id sent 3 in auto)
    then show ?thesis using 3 err by (auto simp: publish_response_def)
  qed
qed

subsection \<open>What every packet leaves as it is\<close>

text \<open>The size of the buffer and the write position; the calls made so far stay the first ones.\<close>

definition frame :: "mqtt_context \<Rightarrow> mqtt_context \<Rightarrow> bool" where
  "frame c c' = (length (rx c') = length (rx c) \<and> rx_pos c' = rx_pos c \<and> (\<exists>fs. calls c' = calls c @ fs))"

named_theorems frames

lemma frame_refl [frames]: "frame c c"
  by (simp add: frame_def)

lemma frame_trans: "frame c d \<Longrightarrow> frame d e \<Longrightarrow> frame c e"
  by (auto simp: frame_def)

lemma frame_heap [frames]: "frame c (c\<lparr>heap := h\<rparr>)"
  by (simp add: frame_def)

lemma frame_rx: "length m = length (rx c) \<Longrightarrow> frame c (c\<lparr>rx := m\<rparr>)"
  by (simp add: frame_def)

lemma frame_call: "call_app app f c = (r, c') \<Longrightarrow> frame c c'"
  by (auto simp: frame_def call_app_eq)

lemma frame_call_snd [frames]: "frame c (snd (call_app app f c))"
  by (simp add: frame_def)

lemma frame_SendPkt: "Mqtt_SendPkt app b off c = Some (n, b', c') \<Longrightarrow> frame c c'"
  by (auto simp: Mqtt_SendPkt_def frame_refl dest: frame_call split: if_splits prod.splits list.splits)

lemma frame_send_response: "send_response app pack pe c = Some (n, c') \<Longrightarrow> frame c c'"
  unfolding send_response_def Let_def
  by (auto simp: bind_eq_Some_conv frame_heap split: if_splits prod.splits
      dest!: frame_SendPkt intro: frame_trans [OF _ frame_heap])

lemma frame_sum:
  assumes "(x \<bind> case_sum (\<lambda>e. Some (e, c)) f) = Some (n, c')" "\<And>i. f i = Some (n, c') \<Longrightarrow> frame c c'"
  shows "frame c c'"
proof (cases x)
  case (Some r)
  then show ?thesis using assms by (cases r) (auto simp: frame_refl)
qed (use assms(1) in simp)

lemma frame_acks:
  "Mqtt_HandlePubAck app flags pkt sz c = Some (n, c') \<Longrightarrow> frame c c'"
  "Mqtt_HandlePubComp app flags pkt sz c = Some (n, c') \<Longrightarrow> frame c c'"
  "Mqtt_HandleUnsubAck app flags pkt sz c = Some (n, c') \<Longrightarrow> frame c c'"
  unfolding Mqtt_HandlePubAck_def Mqtt_HandlePubComp_def Mqtt_HandleUnsubAck_def
  by (erule frame_sum; auto dest: frame_call)+

lemma frame_others:
  "Mqtt_HandlePingResp app flags pkt sz c = Some (n, c') \<Longrightarrow> frame c c'"
  "Mqtt_HandleConnAck app flags pkt sz c = Some (n, c') \<Longrightarrow> frame c c'"
  "Mqtt_HandleSubAck app flags pkt sz c = Some (n, c') \<Longrightarrow> frame c c'"
  by (auto simp: Mqtt_HandlePingResp_def Mqtt_HandleConnAck_def Mqtt_HandleSubAck_def bind_eq_Some_conv
      frame_refl dest: frame_call split: if_splits)

lemma frame_then_respond:
  assumes "(case call_app app f c of (err, c) \<Rightarrow>
      if 0 \<le> err then send_response app pack pe c else Some (err, c)) = Some (n, c')"
  shows "frame c c'"
proof -
  obtain err d where d: "call_app app f c = (err, d)" by (cases "call_app app f c")
  have "frame d c'"
    using assms by (auto simp: d frame_refl dest: frame_send_response split: if_splits)
  with frame_call [OF d] show ?thesis by (rule frame_trans)
qed

lemma frame_responders:
  "Mqtt_HandlePubRec app flags pkt sz c = Some (n, c') \<Longrightarrow> frame c c'"
  "Mqtt_HandlePubRel app flags pkt sz c = Some (n, c') \<Longrightarrow> frame c c'"
  unfolding Mqtt_HandlePubRec_def Mqtt_HandlePubRel_def
  by (erule frame_sum; erule frame_then_respond)+

lemma frame_publish_call: "publish_call app s t i p n d q c = (r, c') \<Longrightarrow> frame c c'"
  by (auto simp: publish_call_def frame_refl dest: frame_call split: if_splits)

lemma frame_publish_response: "publish_response app q i (r, c) = Some (n, c') \<Longrightarrow> frame c c'"
  by (auto simp: publish_response_def frame_refl dest: frame_send_response split: if_splits)

lemma mem_move_length: "mem_move m d s n = Some m' \<Longrightarrow> length m' = length m"
  by (auto simp: mem_move_def split: if_splits)

lemma publish_fields_length:
  "publish_fields d q t pkt sz m = Some (Inr (m', f)) \<Longrightarrow> length m' = length m"
  by (auto simp: publish_fields_def bind_eq_Some_conv dest: mem_move_length split: if_splits)

lemma frame_publish_deliver:
  assumes "publish_deliver app d q t (m, topic, i, p, l) c = Some (n, c')" "length m = length (rx c)"
  shows "frame c c'"
proof -
  obtain m1 where m1: "poke m (topic + t) [0] = Some m1"
    using assms(1) by (auto simp: publish_deliver_def bind_eq_Some_conv)
  then have f1: "frame c (c\<lparr>rx := m1\<rparr>)" using assms(2) by (simp add: frame_rx poke_length)
  obtain r str where r: "Mqtt_CheckUtf8 m1 topic t = Some r" "c_string (drop topic m1) = Some str"
    using assms(1) m1 by (auto simp: publish_deliver_def bind_eq_Some_conv Let_def)
  obtain e d' where d: "publish_call app str topic i p l d q (c\<lparr>rx := m1\<rparr>) = (e, d')"
    by (cases "publish_call app str topic i p l d q (c\<lparr>rx := m1\<rparr>)")
  have "c' = c\<lparr>rx := m1\<rparr> \<or> publish_response app q i (e, d') = Some (n, c')"
    using assms(1) m1 r d by (simp add: publish_deliver_def Let_def split: if_splits)
  then have "frame (c\<lparr>rx := m1\<rparr>) c'"
    using frame_publish_call [OF d] frame_publish_response frame_trans frame_refl by blast
  with f1 show ?thesis by (rule frame_trans)
qed

lemma frame_HandlePublish:
  assumes "Mqtt_HandlePublish app flags pkt sz c = Some (n, c')"
  shows "frame c c'"
proof (cases "sz < 2 \<or> flags AND 1 \<noteq> 0")
  case True
  then have "Mqtt_HandlePublish app flags pkt sz c = Some (MQTTERR_ILLEGAL_PKT, c)"
    unfolding Mqtt_HandlePublish_def Let_def by (elim disjE) (simp_all only: if_True if_cancel not_False_eq_True)
  then show ?thesis using assms by (simp add: frame_refl)
next
  case False
  define d where "d = flags AND 8"
  define q where "q = unat (drop_bit 1 (flags AND 6))"
  have no: "\<not> sz < 2" "\<not> flags AND 1 \<noteq> 0" using False by simp_all
  note run = assms [unfolded Mqtt_HandlePublish_def Let_def d_def [symmetric] q_def [symmetric] if_not_P [OF no(1)]
    if_not_P [OF no(2)]]
  obtain tlen where t: "Mqtt_RB16 (rx c) pkt = Some tlen"
    using run by (auto simp: bind_eq_Some_conv)
  show ?thesis
  proof (cases "sz < 2 + unat tlen")
    case True
    then show ?thesis using run t by (simp add: frame_refl)
  next
    case le: False
    obtain f where f: "publish_fields d q (unat tlen) pkt sz (rx c) = Some f"
      "(case f of Inl err \<Rightarrow> Some (err, c) | Inr f \<Rightarrow> publish_deliver app d q (unat tlen) f c) = Some (n, c')"
      using run t le by (auto simp: bind_eq_Some_conv)
    show ?thesis
    proof (cases f)
      case (Inl e)
      then show ?thesis using f(2) by (simp add: frame_refl)
    next
      case (Inr g)
      obtain m t' i p l where g: "g = (m, t', i, p, l)" by (cases g)
      have "length m = length (rx c)" using f(1) Inr g by (auto dest: publish_fields_length)
      moreover have "publish_deliver app d q (unat tlen) (m, t', i, p, l) c = Some (n, c')"
        using f(2) Inr g by simp
      ultimately show ?thesis by (rule frame_publish_deliver [rotated])
    qed
  qed
qed

lemma frame_Dispatch: "Mqtt_Dispatch app fh pkt sz c = Some (n, c') \<Longrightarrow> frame c c'"
  unfolding Mqtt_Dispatch_def Let_def
  by (auto simp: frame_refl dest: frame_acks frame_others frame_responders frame_HandlePublish split: if_splits)

lemma frame_recv_loop:
  "recv_loop app pos cursor c = Some (r, c') \<Longrightarrow>
   frame c c' \<and> (\<forall>cur. r = Inr cur \<longrightarrow> cursor \<le> pos \<longrightarrow> cursor \<le> cur \<and> cur \<le> pos)"
proof (induction app pos cursor c arbitrary: r c' rule: recv_loop.induct)
  case (1 app pos cursor c)
  show ?case
  proof (cases "r = Inr cursor \<and> c' = c \<or> (\<exists>e. r = Inl e \<and> c' = c)")
    case True
    then show ?thesis by (auto simp: frame_refl)
  next
    case False
    note run = "1.prems" [unfolded recv_loop.simps [of app pos cursor c]]
    have p: "\<not> pos < cursor + 2" using False run by (auto split: if_splits)
    obtain bytes len where rl: "Mqtt_ReadLength (rx c) (cursor + 1) (pos - cursor - 1) = Some (bytes, len)"
      using run p by (auto split: option.splits)
    note run = run [unfolded rl option.case prod.case]
    have ok: "bytes \<noteq> -1" "bytes \<noteq> -2" "\<not> pos < cursor + unat len + nat bytes + 1"
      using False run p by (auto split: if_splits)
    obtain fh where fh: "peek (rx c) cursor = Some fh"
      using run p ok by (auto split: option.splits)
    obtain e d where d: "Mqtt_Dispatch app fh (cursor + nat bytes + 1) (unat len) c = Some (e, d)"
      using run p ok fh by (auto split: option.splits)
    show ?thesis
    proof (cases "e < 0")
      case True
      then have "r = Inl e \<and> c' = d" using run p ok fh d by simp
      then show ?thesis using frame_Dispatch [OF d] by simp
    next
      case e: False
      then have rec: "recv_loop app pos (cursor + nat bytes + 1 + unat len) d = Some (r, c')"
        using run p ok fh d by simp
      from "1.IH" [OF p rl refl ok(1,2,3) fh d refl e rec] ok(3) frame_Dispatch [OF d] show ?thesis
        by (auto intro: frame_trans)
    qed
  qed
qed

subsection \<open>The call\<close>

lemma RecvPkt_fits:
  assumes "bs \<noteq> []" "rx_pos c + length bs \<le> length (rx c)"
  shows "Mqtt_RecvPkt app (Rd_data bs) c =
    (let pos = rx_pos c + length bs;
         c = c\<lparr>rx := take (rx_pos c) (rx c) @ map Some bs @ drop pos (rx c), rx_pos := pos\<rparr>
     in case recv_loop app pos 0 c of
          None \<Rightarrow> None
        | Some (Inl err, c) \<Rightarrow> Some (err, c)
        | Some (Inr cursor, c) \<Rightarrow>
            if 0 < cursor
            then do {
              m \<leftarrow> mem_move (rx c) 0 cursor cursor;
              Some (MQTTERR_NOERROR, c\<lparr>rx := m, rx_pos := rx_pos c - cursor\<rparr>)
            }
            else Some (MQTTERR_NOERROR, c))"
proof -
  have t: "take (length (rx c) - rx_pos c) bs = bs" using assms(2) by simp
  have le: "length (take (rx_pos c) (rx c) @ map Some bs @ drop (rx_pos c + length bs) (rx c)) = length (rx c)"
    using assms(2) by simp
  have p: "poke (rx c) (rx_pos c) (take (length (rx c) - rx_pos c) bs) =
      Some (take (rx_pos c) (rx c) @ map Some bs @ drop (rx_pos c + length bs) (rx c))"
    unfolding t using assms(2) by (simp add: poke_def)
  show ?thesis
    unfolding Mqtt_RecvPkt_def Let_def p option.case mqtt_read.case le
    using assms by simp
qed

text \<open>The move after the loop: \<open>cursor\<close> bytes are moved, not the \<open>pos - cursor\<close> that are left.\<close>

lemma mem_move_down:
  assumes "mem_move m 0 cursor cursor = Some m'"
  shows "peek m' j = (if j < cursor then peek m (cursor + j) else peek m j)"
proof -
  have le: "cursor + cursor \<le> length m" and m': "m' = take cursor (drop cursor m) @ drop cursor m"
    using assms by (auto simp: mem_move_def split: if_splits)
  then show ?thesis by (auto simp: peek_append) (auto simp: peek_def)
qed

lemma mem_move_over: "length m < 2 * cursor \<Longrightarrow> mem_move m 0 cursor cursor = None"
  by (simp add: mem_move_def)

lemma RecvPkt_frame:
  assumes "Mqtt_RecvPkt app (Rd_data bs) c = Some (n, c')" "rx_pos c + length bs \<le> length (rx c)"
  shows "length (rx c') = length (rx c) \<and> rx_pos c' \<le> length (rx c')"
proof (cases "bs = []")
  case True
  then show ?thesis using assms(1) by (auto simp: Mqtt_RecvPkt_def)
next
  case False
  define pos where "pos = rx_pos c + length bs"
  define d where "d = c\<lparr>rx := take (rx_pos c) (rx c) @ map Some bs @ drop pos (rx c), rx_pos := pos\<rparr>"
  have d: "length (rx d) = length (rx c)" "rx_pos d = pos" "pos \<le> length (rx c)"
    using assms(2) by (simp_all add: d_def pos_def)
  note run = assms(1) [unfolded RecvPkt_fits [OF False assms(2)] Let_def pos_def [symmetric] d_def [symmetric]]
  obtain r e where re: "recv_loop app pos 0 d = Some (r, e)"
    using run by (cases "recv_loop app pos 0 d") auto
  have fe: "length (rx e) = length (rx c) \<and> rx_pos e = pos"
    using frame_recv_loop [OF re] d by (auto simp: frame_def)
  show ?thesis
  proof (cases r)
    case (Inl err)
    then show ?thesis using run re fe d(3) by simp
  next
    case (Inr cursor)
    then have "cursor \<le> pos" using frame_recv_loop [OF re] by auto
    show ?thesis
    proof (cases "0 < cursor")
      case True
      then obtain m where "mem_move (rx e) 0 cursor cursor = Some m"
        "c' = e\<lparr>rx := m, rx_pos := rx_pos e - cursor\<rparr>"
        using run re Inr by (auto simp: bind_eq_Some_conv)
      then show ?thesis using fe d(3) by (auto dest: mem_move_length)
    next
      case z: False
      then show ?thesis using run re Inr fe d(3) by simp
    qed
  qed
qed

end
