(* ===== verification/Mqtt_Safety.thy ===== *)
theory Mqtt_Safety
  imports Mqtt_Recv
begin

text \<open>
  Memory safety of the receiver: whatever bytes arrive, in whatever pieces, no handler reads
  a byte that was not received or writes outside the buffer, as long as the received data fill
  at most half of it (the move at the end of \<^verbatim>\<open>Mqtt_RecvPkt\<close> copies as many bytes as were
  consumed, see \<open>mem_move_over\<close>) and memory for the responses is there (four blocks for each
  packet; \<^verbatim>\<open>Mqtt_PackPubRelPkt\<close> does not test the extent it is given).
\<close>

subsection \<open>Bytes that were received\<close>

definition inited :: "nat \<Rightarrow> mem \<Rightarrow> bool" where
  "inited p m = (\<forall>j < p. peek m j \<noteq> None)"

lemma inited_peek: "inited p m \<Longrightarrow> i < p \<Longrightarrow> \<exists>b. peek m i = Some b"
  by (auto simp: inited_def)

lemma inited_mono: "inited p m \<Longrightarrow> q \<le> p \<Longrightarrow> inited q m"
  by (auto simp: inited_def)

lemma inited_length: "inited p m \<Longrightarrow> p \<le> length m"
  by (rule ccontr) (auto simp: inited_def peek_def split: if_splits)

lemma inited_poke: "poke m i bs = Some m' \<Longrightarrow> inited p m \<Longrightarrow> inited p m'"
  by (auto simp: inited_def peek_poke)

lemma peek_mem_move:
  assumes "mem_move m dst src n = Some m'"
  shows "peek m' j = (if dst \<le> j \<and> j < dst + n then peek m (src + (j - dst)) else peek m j)"
proof -
  have le: "src + n \<le> length m" "dst + n \<le> length m"
    and m': "m' = take dst m @ take n (drop src m) @ drop (dst + n) m"
    using assms by (auto simp: mem_move_def split: if_splits)
  consider "j < dst" | "dst \<le> j" "j < dst + n" | "dst + n \<le> j" by linarith
  then show ?thesis
    by cases (use le in \<open>auto simp: m' peek_def nth_append min_absorb2\<close>)
qed

lemma inited_mem_move:
  "mem_move m dst src n = Some m' \<Longrightarrow> inited p m \<Longrightarrow> src + n \<le> p \<Longrightarrow> inited p m'"
  by (auto simp: inited_def peek_mem_move)

lemma inited_RB16: "inited p m \<Longrightarrow> i + 2 \<le> p \<Longrightarrow> \<exists>v. Mqtt_RB16 m i = Some v"
  using inited_peek [of p m i] inited_peek [of p m "i + 1"] by (auto simp: Mqtt_RB16_def)

lemma inited_codes: "inited p m \<Longrightarrow> i + n \<le> p \<Longrightarrow> \<exists>v. codes_legal m i n = Some v"
proof (induction n arbitrary: i)
  case (Suc n)
  then obtain b where "peek m i = Some b" using inited_peek [of p m i] by auto
  with Suc show ?case by auto
qed auto

lemma inited_ReadLength: "inited p m \<Longrightarrow> off + sz \<le> p \<Longrightarrow> \<exists>r. Mqtt_ReadLength m off sz = Some r"
proof -
  have "off + i + n \<le> p \<Longrightarrow> \<exists>r. read_length_loop m off n i mu a = Some r" if "inited p m" for i n mu a
    using that
  proof (induction m off n i mu a rule: read_length_loop.induct)
    case (2 m off n i mu a)
    then obtain b where "peek m (off + i) = Some b" using inited_peek [of p m "off + i"] by auto
    with 2 show ?case by (simp add: Let_def)
  qed simp
  then show "inited p m \<Longrightarrow> off + sz \<le> p \<Longrightarrow> ?thesis" by (simp add: Mqtt_ReadLength_def)
qed

lemma inited_legal_utf8: "inited p m \<Longrightarrow> first + n \<le> p \<Longrightarrow> \<exists>r. legal_utf8_case m first n = Some r"
proof (induction m first n rule: legal_utf8_case.induct)
  case (2 m first)
  then obtain b where "peek m first = Some b" using inited_peek [of p m first] by auto
  then show ?case by simp
next
  case (3 m first k)
  obtain b where "peek m (first + Suc k) = Some b" using 3 inited_peek [of p m "first + Suc k"] by auto
  moreover obtain c where "peek m first = Some c" using 3 inited_peek [of p m first] by auto
  ultimately show ?case using 3 by auto
qed simp

lemma inited_check_utf8_loop:
  "inited p m \<Longrightarrow> str + len < p \<Longrightarrow> \<exists>r. check_utf8_loop m str len i = Some r"
proof (induction m str len i rule: check_utf8_loop.induct)
  case (1 m str len i)
  show ?case
  proof (cases "i < len")
    case False
    then show ?thesis by (simp add: check_utf8_loop.simps)
  next
    case True
    obtain c where c: "peek m (str + i) = Some c" using 1(2,3) True inited_peek [of p m "str + i"] by auto
    define n where "n = Mqtt_TrailingBytesForUTF8 ! unat c + 1"
    show ?thesis
    proof (cases "len < i + n")
      case True
      then show ?thesis using \<open>i < len\<close> c
        by (simp add: check_utf8_loop.simps [of _ _ _ i] Let_def n_def)
    next
      case False
      have "\<exists>r. legal_utf8_case m str n = Some r"
        by (rule inited_legal_utf8 [OF 1(2)]) (use False 1(3) in simp)
      then have "\<exists>r. Mqtt_IsLegalUtf8 m str n = Some r" by (simp add: Mqtt_IsLegalUtf8_def)
      then obtain r where r: "Mqtt_IsLegalUtf8 m str n = Some r" ..
      obtain d where d: "peek m (str + (i + n)) = Some d"
        using 1(2,3) False inited_peek [of p m "str + (i + n)"] by auto
      have "\<exists>r. check_utf8_loop m str len (i + n) = Some r" if "\<not> r \<noteq> 0" "d \<noteq> 0"
        using "1.IH" [OF True c n_def False r that(1) d that(2)] 1(2,3) by blast
      then show ?thesis
        unfolding check_utf8_loop.simps [of m str len i] c option.case Let_def n_def [symmetric] r d
        by auto
    qed
  qed
qed

lemma inited_CheckUtf8:
  "inited p m \<Longrightarrow> str + len < p \<Longrightarrow> \<exists>r. Mqtt_CheckUtf8 m str len = Some r"
  unfolding Mqtt_CheckUtf8_def by (rule inited_check_utf8_loop)

lemma inited_c_string:
  "inited p m \<Longrightarrow> peek m (i + k) = Some 0 \<Longrightarrow> i + k < p \<Longrightarrow> \<exists>s. c_string (drop i m) = Some s"
proof (induction k arbitrary: i)
  case 0
  then have "drop i m = m ! i # drop (Suc i) m" using inited_length [of p m] by (simp add: Cons_nth_drop_Suc)
  then show ?case using 0 inited_length [of p m] by (simp add: peek_def)
next
  case (Suc k)
  have lt: "i < length m" using Suc.prems inited_length [of p m] by simp
  then have "drop i m = m ! i # drop (Suc i) m" by (simp add: Cons_nth_drop_Suc)
  moreover obtain b where "m ! i = Some b" using inited_peek [of p m i] Suc.prems lt by (auto simp: peek_def)
  moreover have "\<exists>s. c_string (drop (Suc i) m) = Some s" using Suc.IH [of "Suc i"] Suc.prems by simp
  ultimately show ?case by auto
qed

subsection \<open>Handlers\<close>

text \<open>Memory for \<open>k\<close> responses; a call that went well, with memory for \<open>k\<close> more.\<close>

definition heap_for :: "nat \<Rightarrow> mqtt_context \<Rightarrow> bool" where
  "heap_for k c = (4 * k \<le> length (heap c) \<and> 0 \<notin> set (heap c))"

definition served :: "nat \<Rightarrow> nat \<Rightarrow> handler_result \<Rightarrow> bool" where
  "served p k r = (\<exists>n c. r = Some (n, c) \<and> inited p (rx c) \<and> heap_for k c)"

lemma servedI: "inited p (rx c) \<Longrightarrow> heap_for k c \<Longrightarrow> served p k (Some (n, c))"
  by (simp add: served_def)

lemma heap_for_mono: "heap_for (Suc k) c \<Longrightarrow> heap_for k c"
  by (simp add: heap_for_def)

lemma heap_for_rx [simp]: "heap_for k (c\<lparr>rx := m\<rparr>) = heap_for k c"
  "heap_for k (c\<lparr>calls := fs\<rparr>) = heap_for k c" "heap_for k (c\<lparr>rx_pos := q\<rparr>) = heap_for k c"
  by (simp_all add: heap_for_def)

lemma served_call: "inited p (rx c) \<Longrightarrow> heap_for (Suc k) c \<Longrightarrow> served p k (Some (call_app app f c))"
  by (simp add: served_def call_app_eq heap_for_mono)

text \<open>The four acknowledgements, for any amount of memory that is enough.\<close>

definition packs_ack :: "(mqtt_buffer \<Rightarrow> pack_result) \<Rightarrow> bool" where
  "packs_ack pack = (\<exists>h i. \<forall>k b. plenty (Suc k) b \<longrightarrow>
     (\<exists>b'. pack b = Some (MQTTERR_NOERROR, b') \<and> plenty k b' \<and> added_ack h i b b'))"

lemma packs_ack:
  assumes "i \<noteq> 0"
  shows "packs_ack (Mqtt_PackPubAckPkt i)" "packs_ack (Mqtt_PackPubRecPkt i)"
    "packs_ack (Mqtt_PackPubRelPkt i)" "packs_ack (Mqtt_PackPubCompPkt i)"
  unfolding packs_ack_def using PackPub_ok [OF _ assms] by blast+

lemma served_response:
  assumes pack: "packs_ack pack" and i: "inited p (rx c)" and h: "heap_for (Suc k) c"
  shows "served p k (send_response app pack pe c)"
proof -
  define b0 where "b0 = MqttBuffer_Init \<lparr>exts = [], available_bytes = 0, allocations = [], allocations_at = 0,
                first_available = 0, alloc_count = 0, alloc_max_count = 0, buffered_bytes = 0,
                mallocs = heap c, frees = []\<rparr>"
  have b0: "plenty (Suc (Suc (2 * k))) b0" "exts b0 = []" "buffered_bytes b0 = 0"
    using h by (simp_all add: b0_def plenty_def heap_for_def MqttBuffer_Init_def)
  obtain hd i where "\<exists>b'. pack b0 = Some (MQTTERR_NOERROR, b') \<and> plenty (Suc (2 * k)) b' \<and> added_ack hd i b0 b'"
    using pack b0(1) unfolding packs_ack_def by blast
  then obtain b1 where b1: "pack b0 = Some (MQTTERR_NOERROR, b1)" "plenty (Suc (2 * k)) b1" "added_ack hd i b0 b1"
    by blast
  from b1(3) b0(2,3) obtain e where e: "exts b1 = [e]" "unat (ext_len e) \<le> length (ext_payload e)"
    "buffered_bytes b1 = 4"
    by (auto simp: added_ack_def)
  obtain q b2 where q: "mqtt_malloc b1 = (q, b2)" "q \<noteq> 0" "length (mallocs b2) = length (mallocs b1) - 1"
    "0 \<notin> set (mallocs b2)"
    by (rule plenty_malloc [of "Suc (2 * k) - 1" b1]) (use b1(2) in \<open>auto simp: plenty_def\<close>)
  have "\<exists>n c'. Mqtt_SendPkt app b1 0 c = Some (n, mqtt_free q b2, c') \<and> rx c' = rx c"
    using SendPkt_whole [OF e(1) _ q(1,2), of app c] e by simp
  then obtain n c' where send: "Mqtt_SendPkt app b1 0 c = Some (n, mqtt_free q b2, c')" "rx c' = rx c"
    by blast
  have left: "mallocs (MqttBuffer_Destroy (mqtt_free q b2)) = mallocs b2"
  proof -
    have f: "mallocs (fold mqtt_free ps b) = mallocs b" for ps b
      by (induction ps arbitrary: b) (simp_all add: mqtt_free_def)
    show ?thesis by (simp add: MqttBuffer_Destroy_def MqttBuffer_Reset_def MqttBuffer_Init_def f mqtt_free_def [of _ "fold _ _ _"])
      (simp add: mqtt_free_def)
  qed
  have "4 * k \<le> length (mallocs b2)" using q(3) b1(2) by (auto simp: plenty_def)
  then show ?thesis
    using send i q(4) unfolding send_response_def b0_def [symmetric] Let_def
    by (simp add: b1(1) served_def heap_for_def left)
qed

lemma served_then_respond:
  assumes "packs_ack pack" "inited p (rx c)" "heap_for (Suc k) c"
  shows "served p k (case call_app app f c of (err, c) \<Rightarrow>
    if 0 \<le> err then send_response app pack pe c else Some (err, c))"
  using assms served_response [OF assms(1), of p "c\<lparr>calls := calls c @ [f]\<rparr>" k]
  by (simp add: call_app_eq servedI heap_for_mono)

lemma inited_packet_id:
  assumes "inited p (rx c)" "pkt + sz \<le> p"
  shows "(\<exists>e. packet_id x flags pkt sz c = Some (Inl e)) \<or>
    (\<exists>i. i \<noteq> 0 \<and> packet_id x flags pkt sz c = Some (Inr i))"
proof (cases "flags = x \<and> sz = 2")
  case True
  then obtain v where "Mqtt_RB16 (rx c) pkt = Some v" using assms inited_RB16 by blast
  then show ?thesis using True by (simp add: packet_id_def)
qed (auto simp: packet_id_def)

lemma served_ids:
  assumes i: "inited p (rx c)" "pkt + sz \<le> p" and h: "heap_for (Suc k) c"
  shows "served p k (Mqtt_HandlePubAck app flags pkt sz c)"
    "served p k (Mqtt_HandlePubRec app flags pkt sz c)"
    "served p k (Mqtt_HandlePubRel app flags pkt sz c)"
    "served p k (Mqtt_HandlePubComp app flags pkt sz c)"
    "served p k (Mqtt_HandleUnsubAck app flags pkt sz c)"
proof -
  have e: "served p k (Some (n, c))" for n by (rule servedI [OF i(1) heap_for_mono [OF h]])
  have run: "served p k (do { r \<leftarrow> packet_id x flags pkt sz c; case r of Inl err \<Rightarrow> Some (err, c) | Inr i \<Rightarrow> f i })"
    if "\<And>i. i \<noteq> 0 \<Longrightarrow> served p k (f i)" for x f
    using inited_packet_id [OF i, of x flags] that e by auto
  show "served p k (Mqtt_HandlePubAck app flags pkt sz c)"
    "served p k (Mqtt_HandlePubComp app flags pkt sz c)"
    "served p k (Mqtt_HandleUnsubAck app flags pkt sz c)"
    unfolding Mqtt_HandlePubAck_def Mqtt_HandlePubComp_def Mqtt_HandleUnsubAck_def
    by (rule run, rule served_call [OF i(1) h])+
  show "served p k (Mqtt_HandlePubRec app flags pkt sz c)"
    unfolding Mqtt_HandlePubRec_def by (rule run, rule served_then_respond [OF packs_ack(3) i(1) h])
  show "served p k (Mqtt_HandlePubRel app flags pkt sz c)"
    unfolding Mqtt_HandlePubRel_def by (rule run, rule served_then_respond [OF packs_ack(4) i(1) h])
qed

lemma served_others:
  assumes i: "inited p (rx c)" "pkt + sz \<le> p" and h: "heap_for (Suc k) c"
  shows "served p k (Mqtt_HandlePingResp app flags pkt sz c)"
    "served p k (Mqtt_HandleConnAck app flags pkt sz c)"
    "served p k (Mqtt_HandleSubAck app flags pkt sz c)"
proof -
  have e: "served p k (Some (n, c))" for n by (rule servedI [OF i(1) heap_for_mono [OF h]])
  note call = served_call [OF i(1) h]
  show "served p k (Mqtt_HandlePingResp app flags pkt sz c)"
    using e call by (simp add: Mqtt_HandlePingResp_def)
  show "served p k (Mqtt_HandleConnAck app flags pkt sz c)"
  proof (cases "sz = 2")
    case True
    then obtain x y where "peek (rx c) pkt = Some x" "peek (rx c) (Suc pkt) = Some y"
      using i inited_peek [of p "rx c" pkt] inited_peek [of p "rx c" "Suc pkt"] by auto
    then show ?thesis using e call by (simp add: Mqtt_HandleConnAck_def)
  qed (use e in \<open>simp add: Mqtt_HandleConnAck_def\<close>)
  show "served p k (Mqtt_HandleSubAck app flags pkt sz c)"
  proof (cases "sz < 2")
    case False
    then have "pkt + 2 \<le> p" "pkt + 2 + (sz - 2) \<le> p" using i(2) by simp_all
    then obtain v l where "Mqtt_RB16 (rx c) pkt = Some v" "codes_legal (rx c) (pkt + 2) (sz - 2) = Some l"
      using inited_RB16 [OF i(1)] inited_codes [OF i(1)] by blast
    then show ?thesis using e call by (simp add: Mqtt_HandleSubAck_def)
  qed (use e in \<open>simp add: Mqtt_HandleSubAck_def\<close>)
qed

subsection \<open>Publish packets\<close>

lemma served_publish_response:
  assumes "inited p (rx c)" "heap_for (Suc k) c" "qos \<noteq> 0 \<longrightarrow> i \<noteq> 0"
  shows "served p k (publish_response app qos i (err, c))"
  using assms served_response [OF packs_ack(1) assms(1,2)] served_response [OF packs_ack(2) assms(1,2)]
  by (auto simp: publish_response_def servedI heap_for_mono)

lemma publish_call_frame:
  "publish_call app s t i p n d q c = (r, c') \<Longrightarrow> rx c' = rx c \<and> heap c' = heap c"
  by (auto simp: publish_call_def call_app_eq split: if_splits)

lemma served_publish_deliver:
  assumes i: "inited p m" and h: "heap_for (Suc k) c" and t: "topic + tlen < p" and q: "qos \<noteq> 0 \<longrightarrow> i \<noteq> 0"
  shows "served p k (publish_deliver app dup qos tlen (m, topic, i, payload, n) c)"
proof -
  obtain m1 where m1: "poke m (topic + tlen) [0] = Some m1"
    using inited_length [OF i] t by (simp add: poke_def)
  have i1: "inited p m1" by (rule inited_poke [OF m1 i])
  obtain r where r: "Mqtt_CheckUtf8 m1 topic tlen = Some r" using inited_CheckUtf8 [OF i1 t] by blast
  have "peek m1 (topic + tlen) = Some 0" by (simp add: peek_poke [OF m1])
  then obtain s where s: "c_string (drop topic m1) = Some s" using inited_c_string [OF i1 _ t] by blast
  obtain e d where d: "publish_call app s topic i payload n dup qos (c\<lparr>rx := m1\<rparr>) = (e, d)"
    by (cases "publish_call app s topic i payload n dup qos (c\<lparr>rx := m1\<rparr>)")
  then have "inited p (rx d)" "heap_for (Suc k) d"
    using publish_call_frame [OF d] i1 h by (simp_all add: heap_for_def)
  then have "served p k (publish_response app qos i (e, d))" using q by (rule served_publish_response)
  moreover have "served p k (Some (x, c\<lparr>rx := m1\<rparr>))" for x
    using i1 heap_for_mono [OF h] by (simp add: servedI)
  ultimately show ?thesis
    by (simp add: publish_deliver_def m1 r s d Let_def)
qed

lemma publish_fields_inited:
  assumes i: "inited p m" and sz: "pkt + sz \<le> p" "tlen + 2 \<le> sz"
  shows "(\<exists>e. publish_fields dup qos tlen pkt sz m = Some (Inl e)) \<or>
    (\<exists>m' topic i payload n. publish_fields dup qos tlen pkt sz m = Some (Inr (m', topic, i, payload, n)) \<and>
       inited p m' \<and> topic + tlen < p \<and> (qos \<noteq> 0 \<longrightarrow> i \<noteq> 0))"
proof -
  consider "qos = 0" | "qos \<noteq> 0" "sz < tlen + 4" | "qos \<noteq> 0" "tlen + 4 \<le> sz" by linarith
  then show ?thesis
  proof cases
    case 1
    have le: "pkt + 2 + tlen \<le> length m" using inited_length [OF i] sz by simp
    then obtain m' where m': "mem_move m pkt (pkt + 2) tlen = Some m'" by (simp add: mem_move_def)
    then have "inited p m'" by (rule inited_mem_move [OF _ i]) (use sz in simp)
    then show ?thesis using 1 m' sz by (cases "dup = 0") (simp_all add: publish_fields_def)
  next
    case 2
    then show ?thesis by (simp add: publish_fields_def)
  next
    case 3
    have "pkt + tlen + 2 + 2 \<le> p" using 3 sz by simp
    then obtain v where v: "Mqtt_RB16 m (pkt + tlen + 2) = Some v" using inited_RB16 [OF i] by blast
    have "topic_at < p" if "topic_at = pkt + 2 + tlen" for topic_at using 3 sz that by simp
    then show ?thesis using 3 v i by (cases "v = 0") (simp_all add: publish_fields_def)
  qed
qed

lemma served_HandlePublish:
  assumes i: "inited p (rx c)" "pkt + sz \<le> p" and h: "heap_for (Suc k) c"
  shows "served p k (Mqtt_HandlePublish app flags pkt sz c)"
proof -
  have e: "served p k (Some (n, c))" for n by (rule servedI [OF i(1) heap_for_mono [OF h]])
  define d where "d = flags AND 8"
  define q where "q = unat (drop_bit 1 (flags AND 6))"
  show ?thesis
  proof (cases "sz < 2 \<or> flags AND 1 \<noteq> 0")
    case True
    then have "Mqtt_HandlePublish app flags pkt sz c = Some (MQTTERR_ILLEGAL_PKT, c)"
      unfolding Mqtt_HandlePublish_def Let_def by (elim disjE) (simp_all only: if_True if_cancel not_False_eq_True)
    then show ?thesis using e by simp
  next
    case False
    then have no: "\<not> sz < 2" "\<not> flags AND 1 \<noteq> 0" by simp_all
    have "pkt + 2 \<le> p" using no(1) i(2) by simp
    then obtain t where t: "Mqtt_RB16 (rx c) pkt = Some t" using inited_RB16 [OF i(1)] by blast
    have run: "Mqtt_HandlePublish app flags pkt sz c =
      (if sz < 2 + unat t then Some (MQTTERR_ILLEGAL_PKT, c)
       else do {
         flds \<leftarrow> publish_fields d q (unat t) pkt sz (rx c);
         case flds of
           Inl err \<Rightarrow> Some (err, c)
         | Inr flds \<Rightarrow> publish_deliver app d q (unat t) flds c
       })"
      unfolding Mqtt_HandlePublish_def Let_def d_def [symmetric] q_def [symmetric]
      by (simp only: no if_False t Option.bind.simps)
    show ?thesis
    proof (cases "sz < 2 + unat t")
      case True
      then show ?thesis using run e by simp
    next
      case False
      then have "unat t + 2 \<le> sz" by simp
      from publish_fields_inited [OF i this, of d q] run False show ?thesis
        using e served_publish_deliver [OF _ h] by auto
    qed
  qed
qed

lemma served_Dispatch:
  assumes "inited p (rx c)" "pkt + sz \<le> p" "heap_for (Suc k) c"
  shows "served p k (Mqtt_Dispatch app fh pkt sz c)"
proof -
  have "served p k (Some (MQTTERR_ILLEGAL_PKT, c))"
    by (rule servedI [OF assms(1) heap_for_mono [OF assms(3)]])
  with served_ids [OF assms] served_others [OF assms] served_HandlePublish [OF assms]
  show ?thesis unfolding Mqtt_Dispatch_def Let_def by presburger
qed

subsection \<open>The loop and the call\<close>

lemma recv_loop_safe:
  "inited pos (rx c) \<Longrightarrow> heap_for (pos - cursor) c \<Longrightarrow>
   \<exists>r c'. recv_loop app pos cursor c = Some (r, c') \<and> inited pos (rx c') \<and> 0 \<notin> set (heap c')"
proof (induction app pos cursor c rule: recv_loop.induct)
  case (1 app pos cursor c)
  note hp = "1.prems"(2) [unfolded heap_for_def]
  have h0: "0 \<notin> set (heap c)" using "1.prems"(2) by (simp add: heap_for_def)
  show ?case
  proof (cases "pos < cursor + 2")
    case True
    then show ?thesis using "1.prems"(1) h0 by (simp add: recv_loop_end)
  next
    case p: False
    then have "cursor + 1 + (pos - cursor - 1) \<le> pos" by simp
    then obtain bytes len where rl: "Mqtt_ReadLength (rx c) (cursor + 1) (pos - cursor - 1) = Some (bytes, len)"
      using inited_ReadLength [OF "1.prems"(1)] by fastforce
    show ?thesis
    proof (cases "bytes = -1 \<or> bytes = -2 \<or> pos < cursor + unat len + nat bytes + 1")
      case True
      then show ?thesis using p rl "1.prems"(1) h0 by (subst recv_loop.simps) auto
    next
      case False
      then have ok: "bytes \<noteq> -1" "bytes \<noteq> -2" "\<not> pos < cursor + unat len + nat bytes + 1" by simp_all
      obtain fh where fh: "peek (rx c) cursor = Some fh"
        using inited_peek [OF "1.prems"(1), of cursor] p by auto
      have "heap_for (Suc (pos - cursor - 1)) c" using hp p unfolding heap_for_def by auto
      then have "served pos (pos - cursor - 1) (Mqtt_Dispatch app fh (cursor + nat bytes + 1) (unat len) c)"
        by (rule served_Dispatch [OF "1.prems"(1), rotated]) (use ok(3) in simp)
      then obtain e d where d: "Mqtt_Dispatch app fh (cursor + nat bytes + 1) (unat len) c = Some (e, d)"
        "inited pos (rx d)" "heap_for (pos - cursor - 1) d"
        by (auto simp: served_def)
      have h: "heap_for (pos - (cursor + nat bytes + 1 + unat len)) d" "0 \<notin> set (heap d)"
        using d(3) unfolding heap_for_def by auto
      show ?thesis
      proof (cases "e < 0")
        case True
        then show ?thesis using p rl ok fh d(1,2) h(2) by (subst recv_loop.simps) simp
      next
        case e: False
        from "1.IH" [OF p rl refl ok fh d(1) refl e d(2) h(1)] show ?thesis
          using p rl ok fh d(1) e by (subst recv_loop.simps) simp
      qed
    qed
  qed
qed

lemma RecvPkt_safe:
  assumes c: "inited (rx_pos c) (rx c)" "heap_for (rx_pos c + length bs) c"
    and room: "2 * (rx_pos c + length bs) \<le> length (rx c)"
  shows "\<exists>n c'. Mqtt_RecvPkt app (Rd_data bs) c = Some (n, c') \<and> length (rx c') = length (rx c) \<and>
    rx_pos c' \<le> rx_pos c + length bs \<and> inited (rx_pos c') (rx c')"
proof (cases "bs = []")
  case True
  then show ?thesis by (simp add: Mqtt_RecvPkt_def inited_def)
next
  case False
  define pos where "pos = rx_pos c + length bs"
  define d where "d = c\<lparr>rx := take (rx_pos c) (rx c) @ map Some bs @ drop pos (rx c), rx_pos := pos\<rparr>"
  have fits: "rx_pos c + length bs \<le> length (rx c)" using room by simp
  have d: "length (rx d) = length (rx c)" "rx_pos d = pos" "heap d = heap c"
    using fits by (simp_all add: d_def pos_def)
  have "inited pos (rx d)"
    using c(1) fits by (auto simp: inited_def d_def pos_def peek_append) (auto simp: peek_def)
  moreover have "heap_for (pos - 0) d" using c(2) d(3) by (simp add: heap_for_def pos_def)
  ultimately obtain r e where re: "recv_loop app pos 0 d = Some (r, e)" "inited pos (rx e)"
    using recv_loop_safe [of pos d 0 app] by blast
  have fe: "length (rx e) = length (rx c)" "rx_pos e = pos"
    using frame_recv_loop [OF re(1)] d by (auto simp: frame_def)
  show ?thesis
  proof (cases r)
    case (Inl err)
    then show ?thesis using re fe unfolding RecvPkt_fits [OF False fits] Let_def pos_def [symmetric] d_def [symmetric]
      by simp
  next
    case (Inr cursor)
    then have le: "cursor \<le> pos" using frame_recv_loop [OF re(1)] by auto
    have "cursor + cursor \<le> length (rx e)" using le room fe(1) by (simp add: pos_def)
    then obtain m where m: "mem_move (rx e) 0 cursor cursor = Some m" by (simp add: mem_move_def)
    have ini: "inited (pos - cursor) m"
    proof (unfold inited_def, intro allI impI)
      fix j assume "j < pos - cursor"
      then show "peek m j \<noteq> None"
        using re(2) by (auto simp: mem_move_down [OF m] inited_def)
    qed
    show ?thesis
      using Inr re fe m ini mem_move_length [OF m] unfolding RecvPkt_fits [OF False fits] Let_def pos_def [symmetric] d_def [symmetric]
      by simp
  qed
qed

end
