(* ===== verification/Mqtt_Pack2.thy ===== *)
theory Mqtt_Pack2
  imports Mqtt_Pack
begin

text \<open>
  The bytes of the subscribe, unsubscribe, connect and command response packets of
  \<^verbatim>\<open>mqtt.c\<close>, and the calls that cannot succeed.
\<close>

subsection \<open>Subscribe and unsubscribe\<close>

definition topic_ok :: "byte list \<Rightarrow> bool" where
  "topic_ok t = (length t < 2 ^ 16 \<and> check_utf8_fails t (length t) = Some False)"

text \<open>The payload: the topics, each followed by \<open>tail\<close> (the requested QoS, or nothing).\<close>

definition topic_field :: "byte list \<Rightarrow> byte list \<Rightarrow> byte list" where
  "topic_field tail t = Mqtt_WB16 (of_nat (length t)) @ t @ tail"

definition topics_body :: "u16 \<Rightarrow> byte list \<Rightarrow> byte list list \<Rightarrow> byte list" where
  "topics_body pkt_id tail ts = Mqtt_WB16 pkt_id @ concat (map (topic_field tail) ts)"

lemma topic_field_length [simp]: "length (topic_field tail t) = 2 + length t + length tail"
  by (simp add: topic_field_def)

lemma strlen16: "length t < 2 ^ 16 \<Longrightarrow> ucast (strlen t) = (of_nat (length t) :: u16)"
  by (simp add: unat_strlen16 word_unat_eq_iff unsigned_of_nat take_bit_nat_eq_self)

lemma check_topics_ok:
  "list_all topic_ok ts \<Longrightarrow>
   check_topics (map Some ts) acc = Some (Inr (acc + of_nat (sum_list (map length ts))))"
  by (induction ts arbitrary: acc) (auto simp: topic_ok_def strlen_def add.assoc)

lemma write_topics_filled:
  assumes "list_all topic_ok ts" "filled (ext_payload e) bs" "length bs = i"
    "i + length (concat (map (topic_field (case qos of None \<Rightarrow> [] | Some q \<Rightarrow> Mqtt_WB8 q)) ts)) \<le> length (ext_payload e)"
  shows "\<exists>e'. write_topics e i qos (map Some ts) = Some e' \<and> ext_len e' = ext_len e \<and>
    filled (ext_payload e') (bs @ concat (map (topic_field (case qos of None \<Rightarrow> [] | Some q \<Rightarrow> Mqtt_WB8 q)) ts))"
  using assms
proof (induction ts arbitrary: e bs i)
  case (Cons t ts)
  let ?q = "case qos of None \<Rightarrow> [] | Some q \<Rightarrow> Mqtt_WB8 q"
  have t: "length t < 2 ^ 16" and ts: "list_all topic_ok ts"
    using Cons.prems(1) by (simp_all add: topic_ok_def [of t])
  have room: "i + (2 + length t + length ?q) + length (concat (map (topic_field ?q) ts)) \<le> length (ext_payload e)"
    using Cons.prems(4) by simp
  have u: "unat (ucast (strlen t) :: u16) = length t" by (rule unat_strlen16 [OF t])
  have "i + 2 + unat (ucast (strlen t) :: u16) \<le> length (ext_payload e)" using room u by simp
  from PktWriteString_filled [OF Cons.prems(2,3) _ this, of "t @ [0]"] u strlen16 [OF t] obtain e1 where
    e1: "Mqtt_PktWriteString e i (t @ [0]) (ucast (strlen t)) = Some (e1, i + 2 + length t)"
      "filled (ext_payload e1) (bs @ Mqtt_WB16 (of_nat (length t)) @ t)"
      "length (ext_payload e1) = length (ext_payload e)" "ext_len e1 = ext_len e"
    by auto
  show ?case
  proof (cases qos)
    case None
    have "length (bs @ Mqtt_WB16 (of_nat (length t)) @ t) = i + 2 + length t" using Cons.prems(3) by simp
    from Cons.IH [OF ts e1(2) this] room e1(3) None
    have "\<exists>e'. write_topics e1 (i + 2 + length t) qos (map Some ts) = Some e' \<and> ext_len e' = ext_len e1 \<and>
        filled (ext_payload e') ((bs @ Mqtt_WB16 (of_nat (length t)) @ t) @ concat (map (topic_field ?q) ts))"
      by simp
    then show ?thesis using e1(1,4) None by (simp add: topic_field_def [of "[]" t])
  next
    case (Some q)
    have l: "length (bs @ Mqtt_WB16 (of_nat (length t)) @ t) = i + 2 + length t" using Cons.prems(3) by simp
    have "i + 2 + length t + length (Mqtt_WB8 q) \<le> length (ext_payload e1)" using room Some e1(3) by simp
    from write_ext_filled [OF e1(2) l this] obtain e2 where
      e2: "write_ext e1 (i + 2 + length t) (Mqtt_WB8 q) = Some e2"
        "filled (ext_payload e2) (bs @ topic_field (Mqtt_WB8 q) t)"
        "length (ext_payload e2) = length (ext_payload e)" "ext_len e2 = ext_len e"
      by (auto simp: e1(3,4) topic_field_def)
    have l2: "length (bs @ topic_field (Mqtt_WB8 q) t) = i + 2 + length t + 1" using Cons.prems(3) by simp
    from Cons.IH [OF ts e2(2) l2] room e2(3) Some
    have "\<exists>e'. write_topics e2 (i + 2 + length t + 1) qos (map Some ts) = Some e' \<and> ext_len e' = ext_len e2 \<and>
        filled (ext_payload e') ((bs @ topic_field (Mqtt_WB8 q) t) @ concat (map (topic_field ?q) ts))"
      by simp
    then show ?thesis using e1(1) e2(1,4) Some by simp
  qed
qed simp

lemma topics_body_length:
  "length (topics_body pkt_id tail ts) =
     2 + 2 * length ts + sum_list (map length ts) + length ts * length tail"
proof -
  have "length (concat (map (topic_field tail) ts)) =
      2 * length ts + sum_list (map length ts) + length ts * length tail"
    by (induction ts) auto
  then show ?thesis by (simp add: topics_body_def)
qed

text \<open>The steps the two calls share, once the lengths are known.\<close>

lemma pack_topics_ok:
  assumes p: "plenty (Suc (Suc k)) b" and ts: "list_all topic_ok ts"
    and tail: "tail = (case qos of None \<Rightarrow> [] | Some q \<Rightarrow> Mqtt_WB8 q)"
    and n: "unat n = length (topics_body pkt_id tail ts)" "unat n < 2 ^ 28"
  obtains fh b1 fh1 r fh2 vh b2 vh1 vh2 where
    "with_extent 5 b = (\<lambda>f. f fh b1)" "write_ext fh 0 [head] = Some fh1"
    "write_length fh1 n = Some (r, fh2)" "0 < r"
    "with_extent n b1 = (\<lambda>f. f vh b2)" "write_ext vh 0 (Mqtt_WB16 pkt_id) = Some vh1"
    "write_topics vh1 2 qos (map Some ts) = Some vh2" "plenty k b2"
    "buf_out (MqttBuffer_AppendExtent vh2 (MqttBuffer_AppendExtent fh2 b2)) =
       buf_out b @ map Some (packet head (topics_body pkt_id tail ts))"
    "exts b2 = exts b" "peek (ext_payload fh2) 0 = Some head"
proof -
  have n5: "unat (5 :: u32) + 16 < 2 ^ 32" by simp
  obtain fh b1 where fh: "with_extent 5 b = (\<lambda>f. f fh b1)" "plenty (Suc k) b1" "buf_out b1 = buf_out b"
    "exts b1 = exts b" "length (ext_payload fh) = (unat (5 :: u32) + 3) div 4 * 4"
    by (rule with_extent_plenty [OF p n5])
  have fh8: "length (ext_payload fh) = 8" using fh(5) by simp
  have "filled (ext_payload fh) []" by simp
  from write_ext_filled [OF this refl, of "[head]"] fh8 obtain fh1 where
    fh1: "write_ext fh 0 [head] = Some fh1" "filled (ext_payload fh1) [head]" "length (ext_payload fh1) = 8"
    by auto
  have "5 \<le> length (ext_payload fh1)" using fh1(3) by simp
  from write_length_filled [OF fh1(2) this n(2)] obtain r fh2 where
    fh2: "write_length fh1 n = Some (r, fh2)" "0 < r" "filled (ext_payload fh2) (head # length_field n)"
    "unat (ext_len fh2) = length (head # length_field n)" by metis
  have "unat n + 16 < 2 ^ 32" using n(2) by simp
  then obtain vh b2 where vh: "with_extent n b1 = (\<lambda>f. f vh b2)" "plenty k b2"
    "buf_out b2 = buf_out b1" "exts b2 = exts b1" "ext_len vh = n" "unat n \<le> length (ext_payload vh)"
    by (rule with_extent_plenty [OF fh(2)])
  have "2 \<le> length (ext_payload vh)" using vh(6) n(1) by (simp add: topics_body_length)
  with write_ext_filled [of vh "[]" 0 "Mqtt_WB16 pkt_id"] obtain vh1 where
    vh1: "write_ext vh 0 (Mqtt_WB16 pkt_id) = Some vh1" "filled (ext_payload vh1) (Mqtt_WB16 pkt_id)"
      "length (ext_payload vh1) = length (ext_payload vh)" "ext_len vh1 = n"
    using vh(5) by auto
  have "2 + length (concat (map (topic_field tail) ts)) \<le> length (ext_payload vh1)"
    using vh1(3) vh(6) n(1) by (simp add: topics_body_def)
  with write_topics_filled [OF ts vh1(2), of 2 qos] obtain vh2 where
    vh2: "write_topics vh1 2 qos (map Some ts) = Some vh2" "ext_len vh2 = n"
      "filled (ext_payload vh2) (topics_body pkt_id tail ts)"
    by (auto simp: tail topics_body_def vh1(4))
  have "ext_out fh2 = map Some (head # length_field n)" by (rule filled_out [OF fh2(3,4)])
  moreover have "ext_out vh2 = map Some (topics_body pkt_id tail ts)"
    by (rule filled_out [OF vh2(3)]) (simp add: vh2(2) n(1))
  moreover have "of_nat (length (topics_body pkt_id tail ts)) = n" unfolding n(1) [symmetric] by simp
  moreover have "peek (ext_payload fh2) 0 = Some head"
    using fh2(3) by (cases "ext_payload fh2") (auto simp: filled_def)
  ultimately show thesis
    by (intro that [OF fh(1) fh1(1) fh2(1,2) vh(1) vh1(1) vh2(1) vh(2)]) (simp_all add: vh(3,4) fh(3,4) packet_def)
qed

lemma PackSubscribe_ok:
  assumes p: "plenty (Suc (Suc k)) b" and "pkt_id \<noteq> 0" and ts: "list_all topic_ok ts"
    and len: "length (topics_body pkt_id [qos] ts) < 2 ^ 28"
  obtains b' where "Mqtt_PackSubscribePkt pkt_id qos (map Some ts) b = Some (MQTTERR_NOERROR, b')"
    "plenty k b'" "buf_out b' = buf_out b @ map Some (packet 0x80 (topics_body pkt_id [qos] ts))"
    "exts b = [] \<Longrightarrow> \<exists>e es. exts b' = e # es \<and> peek (ext_payload e) 0 = Some 0x80"
proof -
  define n :: u32 where "n = 2 + 2 * of_nat (length (map Some ts)) + of_nat (sum_list (map length ts)) +
    of_nat (length (map Some ts))"
  have "n = of_nat (length (topics_body pkt_id [qos] ts))" by (simp add: n_def topics_body_length)
  then have n: "unat n = length (topics_body pkt_id [qos] ts)"
    using len by (simp add: unsigned_of_nat take_bit_nat_eq_self)
  then have n28: "unat n < 2 ^ 28" using len by simp
  have tail: "[qos] = (case Some qos of None \<Rightarrow> [] | Some q \<Rightarrow> Mqtt_WB8 q)" by (simp add: Mqtt_WB8_def)
  have h: "push_bit 4 MQTT_PKT_SUBSCRIBE OR 0 = (0x80 :: u8)" by simp
  obtain fh b1 fh1 r fh2 vh b2 vh1 vh2 where s:
    "with_extent 5 b = (\<lambda>f. f fh b1)" "write_ext fh 0 [0x80] = Some fh1"
    "write_length fh1 n = Some (r, fh2)" "0 < r"
    "with_extent n b1 = (\<lambda>f. f vh b2)" "write_ext vh 0 (Mqtt_WB16 pkt_id) = Some vh1"
    "write_topics vh1 2 (Some qos) (map Some ts) = Some vh2" "plenty k b2"
    "buf_out (MqttBuffer_AppendExtent vh2 (MqttBuffer_AppendExtent fh2 b2)) =
       buf_out b @ map Some (packet 0x80 (topics_body pkt_id [qos] ts))"
    "exts b2 = exts b" "peek (ext_payload fh2) 0 = Some 0x80"
    by (rule pack_topics_ok [OF p ts tail n n28])
  have r: "\<not> r < 0" using s(4) by simp
  have "Mqtt_PackSubscribePkt pkt_id qos (map Some ts) b =
      Some (MQTTERR_NOERROR, MqttBuffer_AppendExtent vh2 (MqttBuffer_AppendExtent fh2 b2))"
    by (simp only: Mqtt_PackSubscribePkt_def assms(2) if_False check_topics_ok [OF ts] Option.bind.simps
      sum.case add_0 s(1) h s(2) Let_def n_def [symmetric] s(5) s(3) prod.case r s(6) s(7))
  then show thesis by (rule that [OF _ _ s(9)]) (simp_all add: s(8,10,11))
qed

lemma PackUnsubscribe_ok:
  assumes p: "plenty (Suc (Suc k)) b" and "pkt_id \<noteq> 0" and ts: "list_all topic_ok ts"
    and len: "length (topics_body pkt_id [] ts) < 2 ^ 28"
  obtains b' where "Mqtt_PackUnsubscribePkt pkt_id (map Some ts) b = Some (MQTTERR_NOERROR, b')"
    "plenty k b'" "buf_out b' = buf_out b @ map Some (packet 0xA0 (topics_body pkt_id [] ts))"
    "exts b = [] \<Longrightarrow> \<exists>e es. exts b' = e # es \<and> peek (ext_payload e) 0 = Some 0xA0"
proof -
  define n :: u32 where "n = 2 + 2 * of_nat (length (map Some ts)) + of_nat (sum_list (map length ts))"
  have "n = of_nat (length (topics_body pkt_id [] ts))" by (simp add: n_def topics_body_length)
  then have n: "unat n = length (topics_body pkt_id [] ts)"
    using len by (simp add: unsigned_of_nat take_bit_nat_eq_self)
  then have n28: "unat n < 2 ^ 28" using len by simp
  have tail: "[] = (case None of None \<Rightarrow> [] | Some q \<Rightarrow> Mqtt_WB8 q)" by simp
  have h: "push_bit 4 MQTT_PKT_UNSUBSCRIBE OR 0 = (0xA0 :: u8)" by simp
  obtain fh b1 fh1 r fh2 vh b2 vh1 vh2 where s:
    "with_extent 5 b = (\<lambda>f. f fh b1)" "write_ext fh 0 [0xA0] = Some fh1"
    "write_length fh1 n = Some (r, fh2)" "0 < r"
    "with_extent n b1 = (\<lambda>f. f vh b2)" "write_ext vh 0 (Mqtt_WB16 pkt_id) = Some vh1"
    "write_topics vh1 2 None (map Some ts) = Some vh2" "plenty k b2"
    "buf_out (MqttBuffer_AppendExtent vh2 (MqttBuffer_AppendExtent fh2 b2)) =
       buf_out b @ map Some (packet 0xA0 (topics_body pkt_id [] ts))"
    "exts b2 = exts b" "peek (ext_payload fh2) 0 = Some 0xA0"
    by (rule pack_topics_ok [OF p ts tail n n28])
  have r: "\<not> r < 0" using s(4) by simp
  have "Mqtt_PackUnsubscribePkt pkt_id (map Some ts) b =
      Some (MQTTERR_NOERROR, MqttBuffer_AppendExtent vh2 (MqttBuffer_AppendExtent fh2 b2))"
    by (simp only: Mqtt_PackUnsubscribePkt_def assms(2) if_False check_topics_ok [OF ts] Option.bind.simps
      sum.case add_0 s(1) h s(2) Let_def n_def [symmetric] s(5) s(3) prod.case r s(6) s(7))
  then show thesis by (rule that [OF _ _ s(9)]) (simp_all add: s(8,10,11))
qed

text \<open>\<open>Mqtt_AppendSubscribeTopic\<close> and \<open>Mqtt_AppendUnsubscribeTopic\<close> look for a first byte that the
  calls above do not write.\<close>

lemma AppendTopic_rejected:
  assumes "exts b = e # es" "peek (ext_payload e) 0 = Some h"
  shows "h \<noteq> 0x82 \<Longrightarrow> Mqtt_AppendSubscribeTopic t q b = Some (MQTTERR_INVALID_PARAMETER, b)"
    and "h \<noteq> 0xA2 \<Longrightarrow> Mqtt_AppendUnsubscribeTopic t b = Some (MQTTERR_INVALID_PARAMETER, b)"
  using assms by (simp_all add: Mqtt_AppendSubscribeTopic_def Mqtt_AppendUnsubscribeTopic_def append_topic_def)

subsection \<open>Connect\<close>

definition connect_flags :: "bool \<Rightarrow> bool \<Rightarrow> nat \<Rightarrow> bool \<Rightarrow> byte" where
  "connect_flags clean_session will qos will_retain =
     0x80 OR 0x40 OR (if clean_session then 0x02 else 0) OR (if will then 0x04 else 0) OR
     push_bit 3 (of_nat qos) OR (if will_retain then 0x20 else 0)"

definition connect_body ::
  "u16 \<Rightarrow> byte list \<Rightarrow> bool \<Rightarrow> (byte list \<times> byte list) option \<Rightarrow> nat \<Rightarrow> bool \<Rightarrow>
   byte list \<Rightarrow> byte list \<Rightarrow> byte list" where
  "connect_body keep_alive ident clean_session will qos will_retain user password =
     topic_field [] [0x4D, 0x51, 0x54, 0x54] @
     [4, connect_flags clean_session (will \<noteq> None) qos will_retain] @ Mqtt_WB16 keep_alive @
     topic_field [] ident @
     (case will of None \<Rightarrow> [] | Some (t, m) \<Rightarrow> topic_field [] t @ topic_field [] m) @
     topic_field [] user @ topic_field [] password"

definition will_length :: "(byte list \<times> byte list) option \<Rightarrow> nat" where
  "will_length will = (case will of None \<Rightarrow> 0 | Some (t, m) \<Rightarrow> 4 + length t + length m)"

lemma connect_qos_ok:
  assumes "qos \<le> 2" "\<not> will \<Longrightarrow> qos = 0 \<and> \<not> will_retain"
  obtains bits where "connect_qos qos = Some bits"
    "(let flags = (if clean_session then 0x02 else 0);
          flags = (if will then flags OR 0x04 else flags) OR bits;
          flags = (if will_retain then flags OR (0x04 OR 0x20) else flags)
      in (flags AND 0x04 \<noteq> 0) = will \<and>
         (flags OR 0x80) OR 0x40 = connect_flags clean_session will qos will_retain)"
    "(connect_flags clean_session will qos will_retain AND 0x04 \<noteq> 0) = will"
    "connect_flags clean_session will qos will_retain AND 0x80 \<noteq> 0"
    "connect_flags clean_session will qos will_retain AND 0x40 \<noteq> 0"
proof -
  consider "qos = 0" | "qos = 1" | "qos = 2" using assms(1) by linarith
  then show thesis
    by cases (cases will; cases clean_session; cases will_retain;
      use assms(2) that in \<open>force simp: connect_qos_def connect_flags_def\<close>)+
qed

lemma connect_check_ok:
  assumes id: "word_of_int (Mqtt_CheckClentIdentifier ident) = (id_len :: u16)"
    and will: "\<And>t m. will = Some (t, m) \<Longrightarrow> topic_ok t \<and> length m < 2 ^ 16"
    and q: "qos \<le> 2" "will = None \<Longrightarrow> qos = 0 \<and> \<not> will_retain"
    and user: "topic_ok user" and pw: "length password < 2 ^ 16"
  obtains total :: u32 and wt_len :: u16 where
    "connect_check ident clean_session (map_option fst will) (map_option snd will)
       (case will of None \<Rightarrow> 0 | Some (t, m) \<Rightarrow> of_nat (length m)) qos will_retain
       (Some user) (Some password) (of_nat (length password)) =
     Some (Inr (connect_flags clean_session (will \<noteq> None) qos will_retain, id_len, wt_len,
       of_nat (length user), total))"
    "unat total = 10 + (2 + unat id_len) + will_length will + (2 + length user) + (2 + length password)"
    "\<forall>t m. will = Some (t, m) \<longrightarrow> wt_len = of_nat (length t)"
proof -
  have u16: "n < 2 ^ 16 \<Longrightarrow> unat (of_nat n :: u16) = n" for n
    by (simp add: unsigned_of_nat take_bit_nat_eq_self)
  have us: "ucast (strlen user) = (of_nat (length user) :: u16)" "length user < 2 ^ 16"
    "check_utf8_fails user (length user) = Some False"
    using user strlen16 by (auto simp: topic_ok_def)
  have uu: "unat (of_nat (length user) :: u16) = length user" by (rule u16 [OF us(2)])
  define wt_len :: u16 where "wt_len = (case will of None \<Rightarrow> 0 | Some (t, m) \<Rightarrow> of_nat (length t))"
  define msg_len :: u16 where "msg_len = (case will of None \<Rightarrow> 0 | Some (t, m) \<Rightarrow> of_nat (length m))"
  define total0 :: u32 where "total0 = 10 + (ucast id_len + 2)"
  define total1 where "total1 = (if will \<noteq> None then total0 + (4 + ucast wt_len + ucast msg_len) else total0)"
  define total where "total = total1 + (ucast (of_nat (length user) :: u16) + 2) + (ucast (of_nat (length password) :: u16) + 2)"
  have wt: "(case map_option fst will of None \<Rightarrow> 0 | Some t \<Rightarrow> ucast (strlen t)) = wt_len"
    "(case map_option fst will of None \<Rightarrow> Some False | Some t \<Rightarrow> check_utf8_fails t (unat wt_len)) = Some False"
    "will = None \<longrightarrow> msg_len = 0"
    "unat wt_len + unat msg_len + (if will = None then 0 else 4) = will_length will"
    using will by (auto simp: wt_len_def msg_len_def strlen16 topic_ok_def u16 will_length_def split: option.splits)
  have small: "unat (w :: u16) < 2 ^ 16" for w
    by (rule less_le_trans [OF unsigned_less]) simp
  have "unat total = 10 + (2 + unat id_len) + will_length will + (2 + length user) + (2 + length password)"
    unfolding total_def total1_def total0_def
    using wt(3,4) small [of wt_len] small [of msg_len] small [of id_len] us(2) pw
    by (auto simp: unat_word_ariths u16 uu will_length_def [of None] split: if_splits)
  moreover obtain bits where bits: "connect_qos qos = Some bits"
    "(let flags = (if clean_session then 0x02 else 0);
          flags = (if will \<noteq> None then flags OR 0x04 else flags) OR bits;
          flags = (if will_retain then flags OR (0x04 OR 0x20) else flags)
      in (flags AND 0x04 \<noteq> 0) = (will \<noteq> None) \<and>
         (flags OR 0x80) OR 0x40 = connect_flags clean_session (will \<noteq> None) qos will_retain)"
    using connect_qos_ok [OF q(1), of "will \<noteq> None" will_retain clean_session] q(2) by metis
  define flags0 :: byte where "flags0 =
    (if map_option fst will = None then (if clean_session then 0x02 else 0)
     else (if clean_session then 0x02 else 0) OR 0x04) OR bits"
  define flags where "flags = (if will_retain then flags0 OR (0x04 OR 0x20) else flags0)"
  have f: "(flags AND 0x04 \<noteq> 0) = (will \<noteq> None)"
    "(flags OR 0x80) OR 0x40 = connect_flags clean_session (will \<noteq> None) qos will_retain"
    using bits(2) by (simp_all only: flags_def flags0_def Let_def map_option_is_None not_not split: if_split) auto
  have "connect_check ident clean_session (map_option fst will) (map_option snd will)
       msg_len qos will_retain (Some user) (Some password) (of_nat (length password)) =
     Some (Inr (connect_flags clean_session (will \<noteq> None) qos will_retain, id_len, wt_len,
       of_nat (length user), total))"
    unfolding connect_check_def Let_def id wt(1,2) bits(1) prod.case option.case us(1) uu us(3)
      flags0_def [symmetric] flags_def [symmetric] f total0_def [symmetric] total1_def [symmetric] total_def [symmetric]
    by (cases will) auto
  ultimately show thesis
    by (intro that) (auto simp: wt_len_def msg_len_def)
qed

lemma connect_body_length:
  "length (connect_body keep_alive ident clean_session will qos will_retain user password) =
     10 + (2 + length ident) + will_length will + (2 + length user) + (2 + length password)"
  by (simp add: connect_body_def will_length_def split: option.split)

text \<open>The three fields of the payload, one after the other.\<close>

lemma write_field:
  assumes "filled (ext_payload e) bs" "length s < 2 ^ 16" "block = s \<or> block = s @ [0]"
    "length bs + 2 + length s \<le> length (ext_payload e)"
  obtains e' where "Mqtt_PktWriteString e (length bs) block (of_nat (length s)) = Some (e', length (bs @ topic_field [] s))"
    "filled (ext_payload e') (bs @ topic_field [] s)"
    "length (ext_payload e') = length (ext_payload e)" "ext_len e' = ext_len e"
proof -
  have u: "unat (of_nat (length s) :: u16) = length s"
    using assms(2) by (simp add: unsigned_of_nat take_bit_nat_eq_self)
  have le: "unat (of_nat (length s) :: u16) \<le> length block" using assms(3) u by auto
  have room: "length bs + 2 + unat (of_nat (length s) :: u16) \<le> length (ext_payload e)"
    using assms(4) u by simp
  have tk: "take (length s) block = s" using assms(3) by auto
  obtain e' where "Mqtt_PktWriteString e (length bs) block (of_nat (length s)) =
      Some (e', length bs + 2 + unat (of_nat (length s) :: u16))"
    "filled (ext_payload e') (bs @ Mqtt_WB16 (of_nat (length s)) @ take (unat (of_nat (length s) :: u16)) block)"
    "length (ext_payload e') = length (ext_payload e)" "ext_len e' = ext_len e"
    by (rule PktWriteString_filled [OF assms(1) refl le room])
  then show thesis by (intro that [of e']) (simp_all add: topic_field_def u tk)
qed

lemma PackConnect_ok:
  assumes p: "plenty (Suc (Suc (Suc k))) b"
    and ident: "list_all isalnum ident" "length ident < 2 ^ 16"
    and will: "\<And>t m. will = Some (t, m) \<Longrightarrow> topic_ok t \<and> length m < 2 ^ 16"
    and q: "qos \<le> 2" "will = None \<Longrightarrow> qos = 0 \<and> \<not> will_retain"
    and user: "topic_ok user" and pw: "length password < 2 ^ 16"
  obtains b' where
    "Mqtt_PackConnectPkt keep_alive ident clean_session (map_option fst will) (map_option snd will)
       (case will of None \<Rightarrow> 0 | Some (t, m) \<Rightarrow> of_nat (length m)) qos will_retain
       (Some user) (Some password) (of_nat (length password)) b = Some (MQTTERR_NOERROR, b')"
    "plenty k b'"
    "buf_out b' = buf_out b @ map Some (packet 0x10
       (connect_body keep_alive ident clean_session will qos will_retain user password))"
proof -
  let ?flags = "connect_flags clean_session (will \<noteq> None) qos will_retain"
  let ?msg_len = "case will of None \<Rightarrow> 0 | Some (t, m) \<Rightarrow> (of_nat (length m) :: u16)"
  have z: "0 \<notin> set ident"
    using ident(1) by (auto simp: list_all_iff isalnum_def)
  have id: "word_of_int (Mqtt_CheckClentIdentifier ident) = (of_nat (length ident) :: u16)"
    using ident(1) by (simp add: CheckClentIdentifier [OF z])
  obtain wt_len :: u16 and total :: u32 where c':
    "connect_check ident clean_session (map_option fst will) (map_option snd will) ?msg_len qos will_retain
       (Some user) (Some password) (of_nat (length password)) =
     Some (Inr (?flags, of_nat (length ident), wt_len, of_nat (length user), total))"
    "unat total = 10 + (2 + unat (of_nat (length ident) :: u16)) + will_length will + (2 + length user) + (2 + length password)"
    "\<forall>t m. will = Some (t, m) \<longrightarrow> wt_len = of_nat (length t)"
    by (rule connect_check_ok [OF id will q user pw, where clean_session = clean_session])
  note c = c'(1) c'(2) [unfolded u16_of_nat [OF ident(2)]] c'(3)
  have user': "length user < 2 ^ 16" using user by (simp add: topic_ok_def)
  have fl: "(?flags AND 0x04 \<noteq> 0) = (will \<noteq> None)" "?flags AND 0x80 \<noteq> 0" "?flags AND 0x40 \<noteq> 0"
    using connect_qos_ok [OF q(1), of "will \<noteq> None" will_retain clean_session] q(2) by metis+
  have wl: "will_length will \<le> 4 + 2 ^ 16 + 2 ^ 16"
    using will by (auto simp: will_length_def topic_ok_def split: option.split)
  have t28: "unat total < 2 ^ 28" using c(2) wl ident(2) user' pw by simp
  have n5: "unat (5 :: u32) + 16 < 2 ^ 32" and n10: "unat (10 :: u32) + 16 < 2 ^ 32" by simp_all
  obtain fh b1 where fh: "with_extent 5 b = (\<lambda>f. f fh b1)" "plenty (Suc (Suc k)) b1" "buf_out b1 = buf_out b"
    "length (ext_payload fh) = (unat (5 :: u32) + 3) div 4 * 4"
    by (rule with_extent_plenty [OF p n5])
  obtain vh b2 where vh: "with_extent 10 b1 = (\<lambda>f. f vh b2)" "plenty (Suc k) b2" "buf_out b2 = buf_out b1"
    "ext_len vh = 10" "unat (10 :: u32) \<le> length (ext_payload vh)"
    by (rule with_extent_plenty [OF fh(2) n10])
  have pl_len: "unat (total - 10) = unat total - 10"
    using c(2) by (simp add: unat_sub word_le_nat_alt)
  then have "unat (total - 10) + 16 < 2 ^ 32" using t28 by simp
  then obtain pl b3 where pl: "MqttBuffer_AllocExtent (total - 10) b2 = Some (Some pl, b3)" "plenty k b3"
    "buf_out b3 = buf_out b2" "ext_len pl = total - 10" "unat (total - 10) \<le> length (ext_payload pl)"
    by (rule with_extent_plenty [OF vh(2)])
  have fh8: "length (ext_payload fh) = 8" using fh(4) by simp
  have fh0: "filled (ext_payload fh) []" "0 + length [0x10 :: byte] \<le> length (ext_payload fh)"
    using fh8 by simp_all
  obtain fh1 where fh1: "write_ext fh 0 [0x10] = Some fh1" "filled (ext_payload fh1) ([] @ [0x10])"
    "length (ext_payload fh1) = length (ext_payload fh)"
    by (rule write_ext_filled [OF fh0(1) _ fh0(2)]) simp
  have fh1': "filled (ext_payload fh1) [0x10]" "5 \<le> length (ext_payload fh1)" using fh1 fh8 by simp_all
  obtain r fh2 where fh2: "write_length fh1 total = Some (r, fh2)" "0 < r"
    "filled (ext_payload fh2) (0x10 # length_field total)"
    "unat (ext_len fh2) = length ((0x10 :: byte) # length_field total)"
    by (rule write_length_filled [OF fh1' t28])
  let ?vh = "connect_variable_head ?flags keep_alive"
  have "length ?vh = 10" by (simp add: connect_variable_head_def)
  then have vh0: "filled (ext_payload vh) []" "0 + length ?vh \<le> length (ext_payload vh)"
    using vh(5) by simp_all
  obtain vh1 where vh1: "write_ext vh 0 ?vh = Some vh1" "filled (ext_payload vh1) ([] @ ?vh)"
    "ext_len vh1 = ext_len vh"
    by (rule write_ext_filled [OF vh0(1) _ vh0(2)]) simp
  let ?will = "case will of None \<Rightarrow> [] | Some (t, m) \<Rightarrow> topic_field [] t @ topic_field [] m"
  have will_len: "length ?will = will_length will" by (simp add: will_length_def split: option.split)
  have room: "(2 + length ident) + will_length will + (2 + length user) + (2 + length password) \<le> length (ext_payload pl)"
    using pl(5) pl_len c(2) by simp
  obtain p1 where p1: "Mqtt_PktWriteString pl 0 (ident @ [0]) (of_nat (length ident)) = Some (p1, length (topic_field [] ident))"
    "filled (ext_payload p1) (topic_field [] ident)" "length (ext_payload p1) = length (ext_payload pl)"
    "ext_len p1 = total - 10"
    by (rule write_field [of pl "[]" ident "ident @ [0]"]) (use ident(2) room pl(4) in auto)
  obtain p2 where p2: "(if ?flags AND 0x04 \<noteq> 0
      then do {
        (payload, cursor) \<leftarrow> Mqtt_PktWriteString p1 (length (topic_field [] ident))
          (case map_option fst will of None \<Rightarrow> [] | Some t \<Rightarrow> t @ [0]) wt_len;
        (case map_option snd will of
           None \<Rightarrow> Mqtt_PktWriteString payload cursor [0] 0
         | Some m \<Rightarrow> Mqtt_PktWriteString payload cursor m ?msg_len)
      }
      else Some (p1, length (topic_field [] ident))) = Some (p2, length (topic_field [] ident @ ?will))"
    "filled (ext_payload p2) (topic_field [] ident @ ?will)" "length (ext_payload p2) = length (ext_payload pl)"
    "ext_len p2 = total - 10"
  proof (cases will)
    case None
    then show thesis using that [of p1] p1 fl(1) by simp
  next
    case (Some tm)
    obtain t m where tm: "tm = (t, m)" by (cases tm)
    have tml: "length t < 2 ^ 16" "length m < 2 ^ 16" using will Some tm by (auto simp: topic_ok_def)
    have wl: "will_length will = 4 + length t + length m" by (simp add: Some tm will_length_def)
    obtain q1 where q1: "Mqtt_PktWriteString p1 (length (topic_field [] ident)) (t @ [0]) (of_nat (length t)) =
        Some (q1, length (topic_field [] ident @ topic_field [] t))"
      "filled (ext_payload q1) (topic_field [] ident @ topic_field [] t)"
      "length (ext_payload q1) = length (ext_payload p1)" "ext_len q1 = ext_len p1"
      by (rule write_field [OF p1(2) tml(1), of "t @ [0]"]) (use room p1(3) wl in auto)
    obtain q2 where q2: "Mqtt_PktWriteString q1 (length (topic_field [] ident @ topic_field [] t)) m (of_nat (length m)) =
        Some (q2, length ((topic_field [] ident @ topic_field [] t) @ topic_field [] m))"
      "filled (ext_payload q2) ((topic_field [] ident @ topic_field [] t) @ topic_field [] m)"
      "length (ext_payload q2) = length (ext_payload q1)" "ext_len q2 = ext_len q1"
      by (rule write_field [OF q1(2) tml(2), of m]) (use room p1(3) q1(3) wl in auto)
    have "wt_len = of_nat (length t)" using c(3) Some tm by simp
    then show thesis using that [of q2] fl(1) q1 q2 p1(3,4) Some tm by simp
  qed
  let ?b2 = "topic_field [] ident @ ?will"
  obtain p3 where p3: "Mqtt_PktWriteString p2 (length ?b2) (user @ [0]) (of_nat (length user)) =
      Some (p3, length (?b2 @ topic_field [] user))"
    "filled (ext_payload p3) (?b2 @ topic_field [] user)" "length (ext_payload p3) = length (ext_payload p2)"
    "ext_len p3 = ext_len p2"
    by (rule write_field [OF p2(2) user', of "user @ [0]"]) (use room p2(3) will_len in auto)
  obtain p4 where p4: "Mqtt_PktWriteString p3 (length (?b2 @ topic_field [] user)) password (of_nat (length password)) =
      Some (p4, length ((?b2 @ topic_field [] user) @ topic_field [] password))"
    "filled (ext_payload p4) ((?b2 @ topic_field [] user) @ topic_field [] password)" "ext_len p4 = ext_len p3"
    by (rule write_field [OF p3(2) pw, of password]) (use room p2(3) p3(3) will_len in auto)
  let ?b' = "MqttBuffer_AppendExtent p4 (MqttBuffer_AppendExtent vh1 (MqttBuffer_AppendExtent fh2 b3))"
  have h: "push_bit 4 MQTT_PKT_CONNECT = (0x10 :: u8)" by simp
  have r: "\<not> r < 0" using fh2(2) by simp
  have "Mqtt_PackConnectPkt keep_alive ident clean_session (map_option fst will) (map_option snd will)
      ?msg_len qos will_retain (Some user) (Some password) (of_nat (length password)) b =
      Some (MQTTERR_NOERROR, ?b')"
    by (simp only: Mqtt_PackConnectPkt_def fh(1) vh(1) c(1) Option.bind.simps sum.case prod.case pl(1) h fh1(1)
      fh2(1) r if_False vh1(1) p1(1) p2(1) fl(2,3) not_False_eq_True if_True option.case p3(1) p4(1))
  moreover have "ext_out fh2 = map Some (0x10 # length_field total)" by (rule filled_out [OF fh2(3,4)])
  moreover have "ext_out vh1 = map Some ?vh"
    using filled_out [OF vh1(2)] by (simp add: vh1(3) vh(4) connect_variable_head_def)
  moreover have "ext_out p4 = map Some ((?b2 @ topic_field [] user) @ topic_field [] password)"
    by (rule filled_out [OF p4(2)]) (simp add: p4(3) p3(4) p2(4) pl_len c(2) will_len)
  moreover have "of_nat (length (connect_body keep_alive ident clean_session will qos will_retain user password)) = total"
    unfolding connect_body_length c(2) [symmetric] by simp
  moreover have "connect_body keep_alive ident clean_session will qos will_retain user password =
      ?vh @ (?b2 @ topic_field [] user) @ topic_field [] password"
    by (simp add: connect_body_def connect_variable_head_def topic_field_def [of "[]" "[77, 81, 84, 84]"] Mqtt_WB16_def)
  ultimately show thesis
    by (intro that [of ?b']) (simp_all add: packet_def pl(2,3) vh(3) fh(3))
qed

text \<open>An identifier with an illegal character: the check gives -1, which is stored as 65535, so the
  error is never reported and 65535 bytes are copied from the identifier.\<close>

lemma connect_check_never_illegal:
  "connect_check ident cs wt wm ml q wr u pw pl \<noteq> Some (Inl MQTTERR_ILLEGAL_CHARACTER)"
proof -
  have no: "\<not> uint (w :: u16) < 0" for w by (simp add: not_less)
  show ?thesis
    unfolding connect_check_def Let_def no if_False prod.case
    by (cases wt; cases u; cases pw; cases "connect_qos q") (simp_all add: bind_eq_Some_conv)
qed

lemma PackConnect_illegal_identifier:
  assumes p: "plenty (Suc (Suc (Suc k))) b"
    and ident: "0 \<notin> set ident" "\<not> list_all isalnum ident" "length ident < 65534"
    and user: "topic_ok user" and pw: "length password < 2 ^ 16"
  shows "Mqtt_PackConnectPkt keep_alive ident clean_session None None 0 0 False
    (Some user) (Some password) (of_nat (length password)) b = None"
proof -
  have id: "word_of_int (Mqtt_CheckClentIdentifier ident) = (0xFFFF :: u16)"
    using ident(2) by (simp add: CheckClentIdentifier [OF ident(1)])
  have w: "\<And>t m. (None :: (byte list \<times> byte list) option) = Some (t, m) \<Longrightarrow> topic_ok t \<and> length m < 2 ^ 16"
    and q: "(0 :: nat) \<le> 2" "(None :: (byte list \<times> byte list) option) = None \<Longrightarrow> (0 :: nat) = 0 \<and> \<not> False"
    by simp_all
  obtain wt_len :: u16 and total :: u32 where c':
    "connect_check ident clean_session (map_option fst (None :: (byte list \<times> byte list) option)) (map_option snd (None :: (byte list \<times> byte list) option))
      (case (None :: (byte list \<times> byte list) option) of None \<Rightarrow> 0 | Some (t, m) \<Rightarrow> of_nat (length m)) 0 False
       (Some user) (Some password) (of_nat (length password)) =
     Some (Inr (connect_flags clean_session ((None :: (byte list \<times> byte list) option) \<noteq> None) 0 False, 0xFFFF, wt_len, of_nat (length user), total))"
    "unat total = 10 + (2 + unat (0xFFFF :: u16)) + will_length None + (2 + length user) + (2 + length password)"
    "\<forall>t m. (None :: (byte list \<times> byte list) option) = Some (t, m) \<longrightarrow> wt_len = of_nat (length t)"
    by (rule connect_check_ok [OF id w q user pw, where clean_session = clean_session])
  have c: "connect_check ident clean_session None None 0 0 False (Some user) (Some password) (of_nat (length password)) =
     Some (Inr (connect_flags clean_session False 0 False, 0xFFFF, wt_len, of_nat (length user), total))"
    using c'(1) by simp
  have tot: "unat total = 10 + 65537 + (2 + length user) + (2 + length password)"
    using c'(2) by (simp add: will_length_def)
  have user': "length user < 2 ^ 16" using user by (simp add: topic_ok_def)
  have t28: "unat total < 2 ^ 28" using tot user' pw by simp
  have n5: "unat (5 :: u32) + 16 < 2 ^ 32" and n10: "unat (10 :: u32) + 16 < 2 ^ 32" by simp_all
  obtain fh b1 where fh: "with_extent 5 b = (\<lambda>f. f fh b1)" "plenty (Suc (Suc k)) b1"
    "length (ext_payload fh) = (unat (5 :: u32) + 3) div 4 * 4"
    by (rule with_extent_plenty [OF p n5])
  obtain vh b2 where vh: "with_extent 10 b1 = (\<lambda>f. f vh b2)" "plenty (Suc k) b2"
    "unat (10 :: u32) \<le> length (ext_payload vh)"
    by (rule with_extent_plenty [OF fh(2) n10])
  have "unat (total - 10) + 16 < 2 ^ 32" using t28 tot by (simp add: unat_sub word_le_nat_alt)
  then obtain pl b3 where pl: "MqttBuffer_AllocExtent (total - 10) b2 = Some (Some pl, b3)"
    by (rule with_extent_plenty [OF vh(2)])
  have fh0: "filled (ext_payload fh) []" "0 + length [0x10 :: byte] \<le> length (ext_payload fh)"
    using fh(3) by simp_all
  obtain fh1 where fh1: "write_ext fh 0 [0x10] = Some fh1" "filled (ext_payload fh1) ([] @ [0x10])"
    "length (ext_payload fh1) = length (ext_payload fh)"
    by (rule write_ext_filled [OF fh0(1) _ fh0(2)]) simp
  have fh1': "filled (ext_payload fh1) [0x10]" "5 \<le> length (ext_payload fh1)" using fh1 fh(3) by simp_all
  obtain r fh2 where fh2: "write_length fh1 total = Some (r, fh2)" "0 < r"
    by (rule write_length_filled [OF fh1' t28])
  let ?vh = "connect_variable_head (connect_flags clean_session False 0 False) keep_alive"
  have "length ?vh = 10" by (simp add: connect_variable_head_def)
  then have vh0: "filled (ext_payload vh) []" "0 + length ?vh \<le> length (ext_payload vh)"
    using vh(3) by simp_all
  obtain vh1 where vh1: "write_ext vh 0 ?vh = Some vh1"
    by (rule write_ext_filled [OF vh0(1) _ vh0(2)]) simp
  have bad: "Mqtt_PktWriteString pl 0 (ident @ [0]) 0xFFFF = None"
    using ident(3) by (simp add: Mqtt_PktWriteString_def)
  have h: "push_bit 4 MQTT_PKT_CONNECT = (0x10 :: u8)" by simp
  have r: "\<not> r < 0" using fh2(2) by simp
  show ?thesis
    by (simp only: Mqtt_PackConnectPkt_def fh(1) vh(1) c Option.bind.simps sum.case prod.case pl h fh1(1)
      fh2(1) r if_False vh1 bad)
qed

subsection \<open>Response to a command\<close>

lemma filled_c_string:
  assumes "filled p (s @ [0])" "0 \<notin> set s"
  shows "c_string p = Some s"
proof -
  have "p = map Some (s @ [0]) @ drop (length s + 1) p"
    using assms(1) append_take_drop_id [of "length s + 1" p] by (simp add: filled_def)
  then have "p = c_mem s @ drop (length s + 1) p" by (simp add: c_mem_def)
  then show ?thesis using c_string_c_mem [OF assms(2)] by metis
qed

abbreviation RESP_CMD_TOPIC_PREFIX :: "byte list" where
  "RESP_CMD_TOPIC_PREFIX \<equiv> [0x24, 0x63, 0x72, 0x73, 0x70, 0x2F]"

text \<open>The topic takes one byte more than the extent has; the slot has room for it unless the
  length of the command id leaves the remainder 2.\<close>

lemma PackCmdRet_topic:
  assumes p: "plenty (Suc k) b" and id: "0 \<notin> set cmdid" "length cmdid < 2 ^ 16"
  obtains b1 where "plenty k b1" "buf_out b1 = buf_out b"
    "Mqtt_PackCmdRetPkt pkt_id cmdid ret ret_len qos own b =
      (if length cmdid mod 4 = 2 then None
       else Mqtt_PackPublishPkt pkt_id (RESP_CMD_TOPIC_PREFIX @ cmdid) ret ret_len
              (if qos = 1 then 1 else 0) False own b1)"
proof -
  define n where "n = strlen cmdid + 1 + 5"
  have "n = of_nat (length cmdid + 6)" by (simp add: n_def strlen_def)
  then have n: "unat n = length cmdid + 6" using u32_of_nat [of "length cmdid + 6"] id(2) by simp
  then have "unat n + 16 < 2 ^ 32" using id(2) by simp
  then obtain e b1 where e: "with_extent n b = (\<lambda>f. f e b1)" "plenty k b1" "buf_out b1 = buf_out b"
    "length (ext_payload e) = (unat n + 3) div 4 * 4"
    by (rule with_extent_plenty [OF p])
  have len: "length (ext_payload e) = (length cmdid + 9) div 4 * 4" using e(4) n by simp
  have fits: "6 + length (cmdid @ [0]) \<le> length (ext_payload e) \<longleftrightarrow> length cmdid mod 4 \<noteq> 2"
    unfolding len by simp presburger
  have e0: "filled (ext_payload e) []" "0 + length RESP_CMD_TOPIC_PREFIX \<le> length (ext_payload e)"
    using len by simp_all
  obtain e1 where e1': "write_ext e 0 RESP_CMD_TOPIC_PREFIX = Some e1"
    "filled (ext_payload e1) ([] @ RESP_CMD_TOPIC_PREFIX)" "length (ext_payload e1) = length (ext_payload e)"
    by (rule write_ext_filled [OF e0(1) _ e0(2)]) simp
  have e1: "filled (ext_payload e1) RESP_CMD_TOPIC_PREFIX" using e1'(2) by simp
  show thesis
  proof (cases "length cmdid mod 4 = 2")
    case True
    have "write_ext e1 6 (cmdid @ [0]) = None"
      using fits True e1'(3) by (simp add: write_ext_def poke_def)
    then have "Mqtt_PackCmdRetPkt pkt_id cmdid ret ret_len qos own b = None"
      by (simp only: Mqtt_PackCmdRetPkt_def Let_def n_def [symmetric] e(1) e1'(1) Option.bind.simps)
    then show thesis using that [OF e(2,3)] True by simp
  next
    case False
    have room: "6 + length (cmdid @ [0]) \<le> length (ext_payload e1)" using fits False e1'(3) by simp
    obtain e2 where e2: "write_ext e1 6 (cmdid @ [0]) = Some e2"
      "filled (ext_payload e2) (RESP_CMD_TOPIC_PREFIX @ (cmdid @ [0]))"
      by (rule write_ext_filled [OF e1 _ room]) simp_all
    have "c_string (ext_payload e2) = Some (RESP_CMD_TOPIC_PREFIX @ cmdid)"
      by (rule filled_c_string) (use e2(2) id(1) in simp_all)
    then have "Mqtt_PackCmdRetPkt pkt_id cmdid ret ret_len qos own b =
        Mqtt_PackPublishPkt pkt_id (RESP_CMD_TOPIC_PREFIX @ cmdid) ret ret_len (if qos = 1 then 1 else 0) False own b1"
      by (simp only: Mqtt_PackCmdRetPkt_def Let_def n_def [symmetric] e(1) e1'(1) e2(1) Option.bind.simps)
    then show thesis using that [OF e(2,3)] False by simp
  qed
qed

subsection \<open>The duplicate flag\<close>

lemma SetPktDup_empty: "exts b = [] \<Longrightarrow> Mqtt_SetPktDup b = None"
  by (simp add: Mqtt_SetPktDup_def)

lemma SetPktDup_first:
  assumes "exts b = e # es" "peek (ext_payload e) 0 = Some h" "1 \<le> unat (ext_len e)"
  shows "drop_bit 4 h = MQTT_PKT_PUBLISH \<Longrightarrow>
      \<exists>b'. Mqtt_SetPktDup b = Some (MQTTERR_NOERROR, b') \<and>
        (\<exists>out. buf_out b = Some h # out \<and> buf_out b' = Some (h OR 8) # out)"
    and "drop_bit 4 h \<noteq> MQTT_PKT_PUBLISH \<Longrightarrow> Mqtt_SetPktDup b = Some (MQTTERR_INVALID_PARAMETER, b)"
proof -
  obtain m where m: "ext_payload e = Some h # m"
    using assms(2) by (cases "ext_payload e") (auto simp: peek_def)
  obtain k where k: "unat (ext_len e) = Suc k" using assms(3) by (cases "unat (ext_len e)") auto
  have w: "write_ext e 0 [h OR 8] = Some (e\<lparr>ext_payload := Some (h OR 8) # m\<rparr>)"
    by (simp add: write_ext_def poke_def m)
  show "drop_bit 4 h = MQTT_PKT_PUBLISH \<Longrightarrow>
      \<exists>b'. Mqtt_SetPktDup b = Some (MQTTERR_NOERROR, b') \<and>
        (\<exists>out. buf_out b = Some h # out \<and> buf_out b' = Some (h OR 8) # out)"
    by (simp add: Mqtt_SetPktDup_def assms(1,2) w buf_out_def ext_out_def k m)
  show "drop_bit 4 h \<noteq> MQTT_PKT_PUBLISH \<Longrightarrow> Mqtt_SetPktDup b = Some (MQTTERR_INVALID_PARAMETER, b)"
    by (simp add: Mqtt_SetPktDup_def assms(1,2))
qed

end
