(* ===== verification/Mqtt_Session.thy ===== *)
theory Mqtt_Session
  imports Mqtt_Safety Mqtt_Pack2
begin

text \<open>
  Packets on their way from one client to another: what \<^verbatim>\<open>Mqtt_RecvPkt\<close> makes of the bytes
  the packing functions produce, packet by packet, up to the four-way exchange of QoS 2, and of
  a packet that arrives in two pieces behind another one.
\<close>

subsection \<open>A ready receiver\<close>

text \<open>Nothing buffered, room for \<open>n\<close> bytes, memory for \<open>k\<close> responses.\<close>

definition ready :: "nat \<Rightarrow> nat \<Rightarrow> mqtt_context \<Rightarrow> bool" where
  "ready k n c = (rx_pos c = 0 \<and> 2 * n \<le> length (rx c) \<and> heap_for k c)"

text \<open>An application that accepts every packet and a transport that takes every byte.\<close>

definition accepting :: "mqtt_app \<Rightarrow> bool" where
  "accepting app = (\<forall>cs f. case f of Call_writev ms \<Rightarrow> app (cs @ [f]) = int (length (concat ms))
                                   | _ \<Rightarrow> 0 \<le> app (cs @ [f]))"

lemma accepting_simps [simp]:
  assumes "accepting app"
  shows "app (cs @ [Call_writev [ack_block h i]]) = 4"
    "0 \<le> app (cs @ [Call_ping_resp])" "0 \<le> app (cs @ [Call_publish j t p d q])"
    "0 \<le> app (cs @ [Call_pub_ack j])" "0 \<le> app (cs @ [Call_pub_rec j])"
    "0 \<le> app (cs @ [Call_pub_rel j])" "0 \<le> app (cs @ [Call_pub_comp j])"
  using assms [unfolded accepting_def, rule_format, of cs "Call_writev [ack_block h i]"]
    assms [unfolded accepting_def, rule_format, of cs Call_ping_resp]
    assms [unfolded accepting_def, rule_format, of cs "Call_publish j t p d q"]
    assms [unfolded accepting_def, rule_format, of cs "Call_pub_ack j"]
    assms [unfolded accepting_def, rule_format, of cs "Call_pub_rec j"]
    assms [unfolded accepting_def, rule_format, of cs "Call_pub_rel j"]
    assms [unfolded accepting_def, rule_format, of cs "Call_pub_comp j"]
  by (simp_all add: ack_block_def)

lemma accepting_simps2 [simp]:
  "accepting app \<Longrightarrow> app (cs @ [f, Call_writev [ack_block h i]]) = 4"
  using accepting_simps(1) [of app "cs @ [f]"] by simp

lemma ready_memory: "ready (Suc k) n c \<Longrightarrow> memory_for_response c"
  by (simp add: ready_def heap_for_def memory_for_response_def)

definition received :: "byte list \<Rightarrow> mqtt_context \<Rightarrow> mqtt_context" where
  "received bytes c = c\<lparr>rx := map Some bytes @ drop (length bytes) (rx c), rx_pos := length bytes\<rparr>"

lemma received_simps [simp]:
  "rx (received bytes c) = map Some bytes @ drop (length bytes) (rx c)"
  "rx_pos (received bytes c) = length bytes" "calls (received bytes c) = calls c"
  "heap (received bytes c) = heap c"
  by (simp_all add: received_def)

lemma recv_one:
  assumes c: "ready (Suc k) n c" "length bytes \<le> n"
    and bytes: "bytes = packet h body" "length body < 2 ^ 21"
    and disp: "Mqtt_Dispatch app h (length bytes - length body) (length body) (received bytes c) = Some (e, f)"
      "0 \<le> e"
  shows "\<exists>c'. Mqtt_RecvPkt app (Rd_data bytes) c = Some (MQTTERR_NOERROR, c') \<and>
    calls c' = calls f \<and> ready k n c'"
proof -
  let ?d = "received bytes c"
  have c0: "rx_pos c = 0" "2 * n \<le> length (rx c)" "heap_for (Suc k) c" using c(1) by (simp_all add: ready_def)
  have ne: "bytes \<noteq> []" by (simp add: bytes packet_def)
  have fits: "rx_pos c + length bytes \<le> length (rx c)" using c0 c(2) by simp
  have le: "length body \<le> length bytes" by (simp add: bytes packet_def)
  have "inited (length bytes) (rx ?d)" by (simp add: inited_def peek_append)
  then have "served (length bytes) k (Some (e, f))"
    unfolding disp(1) [symmetric] by (rule served_Dispatch) (use c0(3) le in \<open>simp_all add: heap_for_def\<close>)
  then have hf: "heap_for k f" by (simp add: served_def)
  have fr: "length (rx f) = length (rx c)" "rx_pos f = length bytes"
    using frame_Dispatch [OF disp(1)] c0 c(2) by (simp_all add: frame_def)
  have "recv_loop app (length bytes) 0 ?d = (case Mqtt_Dispatch app h
      (0 + length (packet h body) - length body) (length body) ?d of
       None \<Rightarrow> None
     | Some (errcode, c) \<Rightarrow> if errcode < 0 then Some (Inl errcode, c)
         else recv_loop app (length bytes) (0 + length (packet h body)) c)"
    by (rule recv_loop_packet [of _ "[]" _ _ "drop (length bytes) (rx c)"]) (use bytes in simp_all)
  also have "\<dots> = Some (Inr (length bytes), f)"
    using disp by (simp add: bytes(1) [symmetric] recv_loop_end)
  finally have loop: "recv_loop app (length bytes) 0 ?d = Some (Inr (length bytes), f)" .
  obtain m where m: "mem_move (rx f) 0 (length bytes) (length bytes) = Some m" "length m = length (rx c)"
    using c0(2) c(2) fr(1) by (auto simp: mem_move_def)
  show ?thesis
    using ne fr(2) m hf c0(2) unfolding RecvPkt_fits [OF ne fits] Let_def
    by (simp add: c0(1) received_def [symmetric] loop ready_def)
qed

subsection \<open>Acknowledgements\<close>

lemma DumpLength_short:
  assumes "l < 128"
  shows "Mqtt_DumpLength l = (1, [ucast l])"
proof -
  have "unat (l mod 128) = unat l" "unat (l div 128) = 0"
    using assms by (simp_all add: unat_mod_distrib unat_div_distrib word_less_nat_alt)
  then have "l mod 128 = l" "l div 128 = 0" by (simp_all add: word_unat_eq_iff)
  then have "dump_length_loop (Suc 3) 1 l = (1, [ucast l])" by (simp only: dump_length_loop.simps Let_def) simp
  then show ?thesis by (simp add: Mqtt_DumpLength_def)
qed

lemma ack_bytes: "packet h (Mqtt_WB16 i) = [h, 2] @ Mqtt_WB16 i"
  by (simp add: packet_def DumpLength_short)

lemma ack_block_packet: "ack_block h i = map Some (packet h (Mqtt_WB16 i))"
  by (simp add: ack_block_def ack_bytes)

lemma ack_length [simp]: "length (packet h (Mqtt_WB16 i)) = 4"
  by (simp add: ack_bytes)

lemma recv_ack:
  assumes c: "ready (Suc k) n c" "4 \<le> n" and i: "i \<noteq> 0"
    and disp: "\<And>d. Mqtt_RB16 (rx d) 2 = Some i \<Longrightarrow> memory_for_response d \<Longrightarrow> calls d = calls c \<Longrightarrow>
      \<exists>e f. Mqtt_Dispatch app h 2 2 d = Some (e, f) \<and> 0 \<le> e \<and> calls f = calls c @ fs"
  shows "\<exists>c'. Mqtt_RecvPkt app (Rd_data (packet h (Mqtt_WB16 i))) c = Some (MQTTERR_NOERROR, c') \<and>
    calls c' = calls c @ fs \<and> ready k n c'"
proof -
  let ?b = "packet h (Mqtt_WB16 i)"
  have "Mqtt_RB16 (rx (received ?b c)) 2 = Some i"
    using RB16_at [of "map Some [h, 2]" 2 i "[]"] by (simp add: ack_bytes)
  moreover have "memory_for_response (received ?b c)"
    using ready_memory [OF c(1)] by (simp add: memory_for_response_def)
  ultimately obtain e f where f: "Mqtt_Dispatch app h 2 2 (received ?b c) = Some (e, f)" "0 \<le> e"
    "calls f = calls c @ fs" using disp [of "received ?b c"] by auto
  have b4: "length ?b \<le> n" using c(2) by simp
  have "\<exists>c'. Mqtt_RecvPkt app (Rd_data ?b) c = Some (MQTTERR_NOERROR, c') \<and> calls c' = calls f \<and> ready k n c'"
    by (rule recv_one [OF c(1) b4 refl _ _ f(2)]) (use f(1) in simp_all)
  then show ?thesis using f(3) by simp
qed

lemma recv_acks:
  assumes c: "ready (Suc k) n c" "4 \<le> n" and i: "i \<noteq> 0" and app: "accepting app"
  shows "\<exists>c'. Mqtt_RecvPkt app (Rd_data (packet 0x40 (Mqtt_WB16 i))) c = Some (MQTTERR_NOERROR, c') \<and>
      calls c' = calls c @ [Call_pub_ack i] \<and> ready k n c'"
    "\<exists>c'. Mqtt_RecvPkt app (Rd_data (packet 0x50 (Mqtt_WB16 i))) c = Some (MQTTERR_NOERROR, c') \<and>
      calls c' = calls c @ [Call_pub_rec i, Call_writev [ack_block 0x62 i]] \<and> ready k n c'"
    "\<exists>c'. Mqtt_RecvPkt app (Rd_data (packet 0x62 (Mqtt_WB16 i))) c = Some (MQTTERR_NOERROR, c') \<and>
      calls c' = calls c @ [Call_pub_rel i, Call_writev [ack_block 0x70 i]] \<and> ready k n c'"
    "\<exists>c'. Mqtt_RecvPkt app (Rd_data (packet 0x70 (Mqtt_WB16 i))) c = Some (MQTTERR_NOERROR, c') \<and>
      calls c' = calls c @ [Call_pub_comp i] \<and> ready k n c'"
proof -
  note run = recv_ack [OF c i]
  show "\<exists>c'. Mqtt_RecvPkt app (Rd_data (packet 0x40 (Mqtt_WB16 i))) c = Some (MQTTERR_NOERROR, c') \<and>
      calls c' = calls c @ [Call_pub_ack i] \<and> ready k n c'"
    by (rule run) (simp add: dispatch_ids HandleAck_calls i call_app_eq app)
  show "\<exists>c'. Mqtt_RecvPkt app (Rd_data (packet 0x70 (Mqtt_WB16 i))) c = Some (MQTTERR_NOERROR, c') \<and>
      calls c' = calls c @ [Call_pub_comp i] \<and> ready k n c'"
    by (rule run) (simp add: dispatch_ids HandleAck_calls i call_app_eq app)
  show "\<exists>c'. Mqtt_RecvPkt app (Rd_data (packet 0x50 (Mqtt_WB16 i))) c = Some (MQTTERR_NOERROR, c') \<and>
      calls c' = calls c @ [Call_pub_rec i, Call_writev [ack_block 0x62 i]] \<and> ready k n c'"
  proof (rule run)
    fix d assume d: "Mqtt_RB16 (rx d) 2 = Some i" "memory_for_response d" "calls d = calls c"
    from HandlePubRec_responds [OF d(1) i d(2), of app] app d(3)
    show "\<exists>e f. Mqtt_Dispatch app 0x50 2 2 d = Some (e, f) \<and> 0 \<le> e \<and>
        calls f = calls c @ [Call_pub_rec i, Call_writev [ack_block 0x62 i]]"
      by (auto simp: dispatch_ids)
  qed
  show "\<exists>c'. Mqtt_RecvPkt app (Rd_data (packet 0x62 (Mqtt_WB16 i))) c = Some (MQTTERR_NOERROR, c') \<and>
      calls c' = calls c @ [Call_pub_rel i, Call_writev [ack_block 0x70 i]] \<and> ready k n c'"
  proof (rule run)
    fix d assume d: "Mqtt_RB16 (rx d) 2 = Some i" "memory_for_response d" "calls d = calls c"
    from HandlePubRel_responds [OF d(1) i d(2), of app] app d(3)
    show "\<exists>e f. Mqtt_Dispatch app 0x62 2 2 d = Some (e, f) \<and> 0 \<le> e \<and>
        calls f = calls c @ [Call_pub_rel i, Call_writev [ack_block 0x70 i]]"
      by (auto simp: dispatch_ids)
  qed
qed

subsection \<open>Publish packets\<close>

text \<open>The acknowledgement a publish packet is answered with.\<close>

definition publish_ack :: "nat \<Rightarrow> u16 \<Rightarrow> byte list" where
  "publish_ack qos pkt_id = packet (if qos = 1 then 0x40 else 0x50) (Mqtt_WB16 pkt_id)"

lemma publish_calls_ack:
  "publish_calls qos pkt_id t payload =
     Call_publish (if qos = 0 then 0 else pkt_id) (Some t) (Some payload) 0 qos #
     (if qos = 0 then [] else [Call_writev [map Some (publish_ack qos pkt_id)]])"
  by (simp add: publish_calls_def publish_ack_def ack_block_packet)

lemma recv_publish:
  assumes t: "plain_topic t" and q: "qos \<le> 2" and id: "qos \<noteq> 0 \<longrightarrow> pkt_id \<noteq> 0"
    and body: "length (publish_body pkt_id t payload qos) < 2 ^ 21"
    and bytes: "bytes = packet (publish_head qos False) (publish_body pkt_id t payload qos)"
    and c: "ready (Suc k) n c" "length bytes \<le> n" and app: "accepting app"
  shows "\<exists>c'. Mqtt_RecvPkt app (Rd_data bytes) c = Some (MQTTERR_NOERROR, c') \<and>
    calls c' = calls c @ publish_calls qos pkt_id t payload \<and> ready k n c'"
proof -
  let ?body = "publish_body pkt_id t payload qos"
  let ?id = "if qos = 0 then 0 else pkt_id"
  let ?n = "length bytes"
  let ?d = "received bytes c"
  let ?call = "Call_publish ?id (Some t) (Some payload) 0 qos"
  let ?ack = "if qos = 0 then [] else [Call_writev [ack_block (if qos = 1 then 0x40 else 0x50) ?id]]"
  define a where "a = map Some (publish_head qos False # length_field (of_nat (length ?body)))"
  have al: "length a = ?n - length ?body" by (simp add: a_def bytes packet_def)
  have rxd: "rx ?d = a @ map Some ?body @ drop ?n (rx c)" by (simp add: a_def bytes packet_def)
  obtain m' where m': "Mqtt_HandlePublish app (of_nat (2 * qos)) (?n - length ?body) (length ?body) ?d =
      publish_response app qos ?id (call_app app ?call (?d\<lparr>rx := a @ m' @ drop ?n (rx c)\<rparr>))"
    using HandlePublish_ok [OF t q id refl rxd al, where app = app] by blast
  define e where "e = ?d\<lparr>rx := a @ m' @ drop ?n (rx c), calls := calls c @ [?call]\<rparr>"
  have call: "call_app app ?call (?d\<lparr>rx := a @ m' @ drop ?n (rx c)\<rparr>) = (app (calls c @ [?call]), e)"
    by (simp add: call_app_eq e_def)
  have mem: "memory_for_response e" using ready_memory [OF c(1)] by (simp add: e_def memory_for_response_def)
  have "\<exists>h r. 0 \<le> r \<and> publish_response app qos ?id (app (calls c @ [?call]), e) =
      Some (r, e\<lparr>heap := h, calls := calls e @ ?ack\<rparr>)"
    by (rule publish_response_ok [OF q _ mem]) (use id app in auto)
  then obtain h r where r: "0 \<le> r" "publish_response app qos ?id (app (calls c @ [?call]), e) =
      Some (r, e\<lparr>heap := h, calls := calls e @ ?ack\<rparr>)" by blast
  have disp: "Mqtt_Dispatch app (publish_head qos False) (?n - length ?body) (length ?body) ?d =
      Some (r, e\<lparr>heap := h, calls := calls e @ ?ack\<rparr>)"
    by (simp only: dispatch_publish [OF q] m' call r(2))
  from recv_one [OF c bytes body disp r(1)] show ?thesis
    by (cases "qos = 0") (simp_all add: e_def publish_calls_def)
qed

lemma publish_packet:
  assumes p: "plenty 3 b" and id: "pkt_id \<noteq> 0" and t: "plain_topic t" and q: "qos \<le> 2"
    and sz: "unat sz = length payload" and len: "length (publish_body pkt_id t payload qos) < 2 ^ 28"
  shows "\<exists>b'. Mqtt_PackPublishPkt pkt_id t payload sz qos retain own b = Some (MQTTERR_NOERROR, b') \<and>
    buf_out b' = buf_out b @ map Some (packet (publish_head qos retain) (publish_body pkt_id t payload qos))"
proof -
  have p': "plenty (Suc (Suc (Suc 0))) b" using p by (simp add: eval_nat_numeral)
  obtain b' where
    "Mqtt_PackPublishPkt pkt_id t payload sz qos retain own b = Some (MQTTERR_NOERROR, b')"
    "buf_out b' = buf_out b @ map Some (packet (publish_head qos retain) (publish_body pkt_id t payload qos))"
    by (rule PackPublish_ok [OF p' id _ _ _ q sz len]) (use t in \<open>auto simp: plain_topic_def\<close>)
  then show ?thesis by blast
qed

subsection \<open>The exchange of QoS 2\<close>

lemma qos2_exchange:
  assumes t: "plain_topic t" and id: "pkt_id \<noteq> 0"
    and body: "length (publish_body pkt_id t payload 2) < 2 ^ 21"
    and bytes: "bytes = packet (publish_head 2 False) (publish_body pkt_id t payload 2)"
    and r: "ready (Suc (Suc k)) n r" "length bytes \<le> n" "accepting rapp"
    and s: "ready (Suc (Suc k)) m s" "4 \<le> m" "accepting sapp"
  shows "\<exists>r1 s1 r2 s2 rec rel comp.
    Mqtt_RecvPkt rapp (Rd_data bytes) r = Some (MQTTERR_NOERROR, r1) \<and>
    calls r1 = calls r @ [Call_publish pkt_id (Some t) (Some payload) 0 2, Call_writev [map Some rec]] \<and>
    Mqtt_RecvPkt sapp (Rd_data rec) s = Some (MQTTERR_NOERROR, s1) \<and>
    calls s1 = calls s @ [Call_pub_rec pkt_id, Call_writev [map Some rel]] \<and>
    Mqtt_RecvPkt rapp (Rd_data rel) r1 = Some (MQTTERR_NOERROR, r2) \<and>
    calls r2 = calls r1 @ [Call_pub_rel pkt_id, Call_writev [map Some comp]] \<and>
    Mqtt_RecvPkt sapp (Rd_data comp) s1 = Some (MQTTERR_NOERROR, s2) \<and>
    calls s2 = calls s1 @ [Call_pub_comp pkt_id] \<and> ready k n r2 \<and> ready k m s2"
proof -
  have q: "(2 :: nat) \<le> 2" by simp
  have n4: "4 \<le> n" using r(2) by (simp add: bytes packet_def publish_body_length)
  obtain r1 where r1: "Mqtt_RecvPkt rapp (Rd_data bytes) r = Some (MQTTERR_NOERROR, r1)"
    "calls r1 = calls r @ publish_calls 2 pkt_id t payload" "ready (Suc k) n r1"
    using recv_publish [OF t q _ body bytes r(1,2,3)] id by blast
  obtain s1 where s1: "Mqtt_RecvPkt sapp (Rd_data (packet 0x50 (Mqtt_WB16 pkt_id))) s = Some (MQTTERR_NOERROR, s1)"
    "calls s1 = calls s @ [Call_pub_rec pkt_id, Call_writev [ack_block 0x62 pkt_id]]" "ready (Suc k) m s1"
    using recv_acks(2) [OF s(1,2) id s(3)] by blast
  obtain r2 where r2: "Mqtt_RecvPkt rapp (Rd_data (packet 0x62 (Mqtt_WB16 pkt_id))) r1 = Some (MQTTERR_NOERROR, r2)"
    "calls r2 = calls r1 @ [Call_pub_rel pkt_id, Call_writev [ack_block 0x70 pkt_id]]" "ready k n r2"
    using recv_acks(3) [OF r1(3) n4 id r(3)] by blast
  obtain s2 where s2: "Mqtt_RecvPkt sapp (Rd_data (packet 0x70 (Mqtt_WB16 pkt_id))) s1 = Some (MQTTERR_NOERROR, s2)"
    "calls s2 = calls s1 @ [Call_pub_comp pkt_id]" "ready k m s2"
    using recv_acks(4) [OF s1(3) s(2) id s(3)] by blast
  show ?thesis
    by (rule exI [of _ r1], rule exI [of _ s1], rule exI [of _ r2], rule exI [of _ s2],
        rule exI [of _ "packet 0x50 (Mqtt_WB16 pkt_id)"], rule exI [of _ "packet 0x62 (Mqtt_WB16 pkt_id)"],
        rule exI [of _ "packet 0x70 (Mqtt_WB16 pkt_id)"])
      (use r1 s1 r2 s2 in \<open>simp add: publish_calls_def ack_block_packet\<close>)
qed

subsection \<open>A packet in two pieces\<close>

text \<open>Behind a complete packet of two bytes the first three bytes of an acknowledgement arrive,
  then its last one. Only two of the three are moved to the front.\<close>

lemma split_ack:
  assumes c: "rx_pos c = 0" "8 \<le> length (rx c)" and app: "accepting app"
  shows "\<exists>c1 c2. Mqtt_RecvPkt app (Rd_data [0xD0, 0, 0x40, 2, hi]) c = Some (MQTTERR_NOERROR, c1) \<and>
    rx_pos c1 = 3 \<and> take 3 (rx c1) = map Some [0x40, 2, 0x40] \<and>
    Mqtt_RecvPkt app (Rd_data [lo]) c1 = Some (MQTTERR_NOERROR, c2) \<and>
    calls c2 = calls c @ [Call_ping_resp, Call_pub_ack (push_bit 8 0x40 OR ucast lo)]"
proof -
  let ?bs = "[0xD0, 0, 0x40, 2, hi] :: byte list"
  obtain x0 x1 x2 x3 x4 x5 x6 x7 xs where rx: "rx c = x0 # x1 # x2 # x3 # x4 # x5 # x6 # x7 # xs"
    using c(2) by (auto simp: Suc_le_length_iff numeral_eq_Suc)
  define d where "d = received ?bs c"
  have rxd: "rx d = map Some ?bs @ [x5, x6, x7] @ xs" "rx_pos d = 5" "calls d = calls c"
    by (simp_all add: d_def received_def rx)
  define e where "e = d\<lparr>calls := calls c @ [Call_ping_resp]\<rparr>"
  have "recv_loop app 5 0 d = (case Mqtt_Dispatch app 0xD0 (0 + length (packet 0xD0 []) - length ([] :: byte list)) (length ([] :: byte list)) d of
       None \<Rightarrow> None
     | Some (errcode, c) \<Rightarrow> if errcode < 0 then Some (Inl errcode, c)
         else recv_loop app 5 (0 + length (packet 0xD0 [])) c)"
    by (rule recv_loop_packet [of _ "[]" _ _ "map Some [0x40, 2, hi] @ [x5, x6, x7] @ xs"])
      (simp_all add: rxd packet_def DumpLength_short)
  also have "\<dots> = recv_loop app 5 2 e"
    using accepting_simps(2) [OF app, of "calls c"]
    by (simp add: packet_def DumpLength_short dispatch_ids Mqtt_HandlePingResp_def call_app_eq rxd e_def not_less
        flip: numeral_2_eq_2)
  also have "\<dots> = Some (Inr 2, e)"
  proof -
    have "Mqtt_ReadLength (rx e) 3 2 = Some (int (length [2 :: byte]), of_nat (base128 [2]))"
      by (rule ReadLength_bytes) (simp_all add: e_def rxd peek_def)
    then show ?thesis by (subst recv_loop.simps) simp
  qed
  finally have loop: "recv_loop app 5 0 d = Some (Inr 2, e)" .
  define c1 where "c1 = e\<lparr>rx := map Some [0x40, 2, 0x40, 2, hi] @ [x5, x6, x7] @ xs, rx_pos := 3\<rparr>"
  have run1: "Mqtt_RecvPkt app (Rd_data ?bs) c = Some (MQTTERR_NOERROR, c1)"
  proof -
    have ne: "?bs \<noteq> []" and fits: "rx_pos c + length ?bs \<le> length (rx c)" using c by simp_all
    have "c\<lparr>rx := take (rx_pos c) (rx c) @ map Some ?bs @ drop (rx_pos c + length ?bs) (rx c),
        rx_pos := rx_pos c + length ?bs\<rparr> = d" "rx_pos c + length ?bs = 5"
      by (simp_all add: d_def received_def c(1))
    moreover have "mem_move (rx e) 0 2 2 = Some (rx c1)" "rx_pos e = 5"
      by (simp_all add: mem_move_def e_def rxd c1_def eval_nat_numeral)
    ultimately show ?thesis
      by (simp only: RecvPkt_fits [OF ne fits] Let_def loop option.case prod.case sum.case if_True zero_less_numeral
          Option.bind.simps) (simp add: c1_def)
  qed
  define d2 where "d2 = c1\<lparr>rx := map Some [0x40, 2, 0x40, lo, hi] @ [x5, x6, x7] @ xs, rx_pos := 4\<rparr>"
  define i where "i = (push_bit 8 0x40 OR ucast lo :: u16)"
  have rb: "Mqtt_RB16 (rx d2) 2 = Some i"
    by (simp add: Mqtt_RB16_def d2_def i_def peek_def)
  have "i \<noteq> 0"
  proof
    assume "i = 0"
    then have "bit i 14 = False" by simp
    then show False by (simp add: i_def bit_simps)
  qed
  define f where "f = d2\<lparr>calls := calls c @ [Call_ping_resp, Call_pub_ack i]\<rparr>"
  have pk: "packet 0x40 [0x40, lo] = [0x40, 2, 0x40, lo]" by (simp add: packet_def DumpLength_short)
  have ok: "0 \<le> app (calls c @ [Call_ping_resp, Call_pub_ack i])"
    using accepting_simps(4) [OF app, of "calls c @ [Call_ping_resp]"] by simp
  have "recv_loop app 4 0 d2 = (case Mqtt_Dispatch app 0x40 (0 + length (packet 0x40 [0x40, lo]) - length [0x40, lo]) (length [0x40, lo]) d2 of
       None \<Rightarrow> None
     | Some (errcode, c) \<Rightarrow> if errcode < 0 then Some (Inl errcode, c)
         else recv_loop app 4 (0 + length (packet 0x40 [0x40, lo])) c)"
    by (rule recv_loop_packet [of _ "[]" _ _ "map Some [hi] @ [x5, x6, x7] @ xs"])
      (simp_all add: d2_def pk)
  also have "\<dots> = Some (Inr 4, f)"
    using ok \<open>i \<noteq> 0\<close> HandleAck_calls(1) [OF rb, of app 0 2]
    by (simp add: pk dispatch_ids call_app_eq recv_loop_end f_def d2_def c1_def e_def flip: numeral_2_eq_2)
  finally have loop2: "recv_loop app 4 0 d2 = Some (Inr 4, f)" .
  obtain c2 where run2: "Mqtt_RecvPkt app (Rd_data [lo]) c1 = Some (MQTTERR_NOERROR, c2)" "calls c2 = calls f"
  proof -
    have ne: "[lo] \<noteq> []" and fits: "rx_pos c1 + length [lo] \<le> length (rx c1)" by (simp_all add: c1_def)
    have "c1\<lparr>rx := take (rx_pos c1) (rx c1) @ map Some [lo] @ drop (rx_pos c1 + length [lo]) (rx c1),
        rx_pos := rx_pos c1 + length [lo]\<rparr> = d2" "rx_pos c1 + length [lo] = 4"
      by (simp_all add: d2_def c1_def)
    moreover obtain m where "mem_move (rx f) 0 4 4 = Some m"
      by (simp add: mem_move_def f_def d2_def)
    ultimately have "Mqtt_RecvPkt app (Rd_data [lo]) c1 =
        Some (MQTTERR_NOERROR, f\<lparr>rx := m, rx_pos := rx_pos f - 4\<rparr>)"
      by (simp only: RecvPkt_fits [OF ne fits] Let_def loop2 option.case prod.case sum.case if_True zero_less_numeral
          Option.bind.simps)
    then show thesis by (rule that) simp
  qed
  show ?thesis
    by (rule exI [of _ c1], rule exI [of _ c2])
      (use run1 run2 in \<open>simp add: c1_def f_def i_def\<close>)
qed

end
