(* ===== verification/Mqtt_Datapoint.thy ===== *)
theory Mqtt_Datapoint
  imports Mqtt_Pack
begin

text \<open>
  The data point packets of the MQTT client (\<^verbatim>\<open>Mqtt_PackDataPoint*\<close>, \<^verbatim>\<open>Mqtt_AppendDP*\<close> of
  \<^verbatim>\<open>mqtt.c\<close>): JSON text appended piece by piece to a publish packet whose first payload extent
  carries a tag and the depth of open objects.

  \<open>fmt_time\<close> is what \<^verbatim>\<open>gmtime\<close>, \<^verbatim>\<open>strftime\<close> and \<^verbatim>\<open>sprintf\<close> make of a time stamp (\<open>None\<close>: one of
  them failed), \<open>digits\<close> the text \<^verbatim>\<open>snprintf\<close> gives for a number; the code relies on 23 bytes
  for the former. A null string is \<open>None\<close>.
\<close>

abbreviation FORMAT_TIME_STRING_SIZE :: u32 where "FORMAT_TIME_STRING_SIZE \<equiv> 23"
abbreviation DATA_POINT_PKT_TAG :: u16 where "DATA_POINT_PKT_TAG \<equiv> 0xc19c"
abbreviation SIZEOF_INFO :: u32 where "SIZEOF_INFO \<equiv> 4"

subsection \<open>The tag and the depth\<close>

definition peek16 :: "mem \<Rightarrow> nat \<Rightarrow> u16 option" where
  "peek16 m i = do { b0 \<leftarrow> peek m i; b1 \<leftarrow> peek m (i + 1); Some (ucast b0 OR push_bit 8 (ucast b1)) }"

definition poke16 :: "mem \<Rightarrow> nat \<Rightarrow> u16 \<Rightarrow> mem option" where
  "poke16 m i v = poke m i [ucast v, ucast (drop_bit 8 v)]"

text \<open>The result is the depth in place of the pointer to it; \<open>Some None\<close> is the null pointer.\<close>

definition Mqtt_GetDataPointPktInfo :: "mqtt_buffer \<Rightarrow> u16 option option" where
  "Mqtt_GetDataPointPktInfo b =
     (case exts b of
        [] \<Rightarrow> Some None
      | fix_head # es \<Rightarrow> do {
          c \<leftarrow> peek (ext_payload fix_head) 0;
          if drop_bit 4 c \<noteq> MQTT_PKT_PUBLISH then Some None
          else case es of
                 _ # first_payload # _ \<Rightarrow> do {
                   t \<leftarrow> peek (ext_payload first_payload) 0;
                   if t \<noteq> 2 then Some None
                   else if ext_len first_payload \<noteq> 2 + SIZEOF_INFO then Some None
                   else do {
                     tag \<leftarrow> peek16 (ext_payload first_payload) 2;
                     if tag \<noteq> DATA_POINT_PKT_TAG then Some None
                     else map_option Some (peek16 (ext_payload first_payload) 4)
                   }
                 }
               | _ \<Rightarrow> Some None
        })"

definition upd_ext :: "nat \<Rightarrow> (mqtt_extent \<Rightarrow> mqtt_extent option) \<Rightarrow> mqtt_buffer \<Rightarrow> mqtt_buffer option" where
  "upd_ext i f b =
     (if i < length (exts b) then do { e \<leftarrow> f (exts b ! i); Some (b\<lparr>exts := (exts b)[i := e]\<rparr>) } else None)"

definition set_depth :: "u16 \<Rightarrow> mqtt_buffer \<Rightarrow> mqtt_buffer option" where
  "set_depth d = upd_ext 2 (\<lambda>e. map_option (\<lambda>p. e\<lparr>ext_payload := p\<rparr>) (poke16 (ext_payload e) 4 d))"

text \<open>\<^verbatim>\<open>if(NOERROR != (err = Mqtt_AppendLength(buf, ext->len))) return err; MqttBuffer_AppendExtent(buf, ext);\<close>\<close>

definition append_text :: "mqtt_extent \<Rightarrow> mqtt_buffer \<Rightarrow> pack_result" where
  "append_text e b = do {
     (err, b) \<leftarrow> Mqtt_AppendLength (ext_len e) b;
     if err \<noteq> MQTTERR_NOERROR then Some (err, b)
     else Some (MQTTERR_NOERROR, MqttBuffer_AppendExtent e b)
   }"

definition Mqtt_HasIllegalCharacter :: "byte list \<Rightarrow> nat \<Rightarrow> bool" where
  "Mqtt_HasIllegalCharacter s len = False"

subsection \<open>Values\<close>

definition json_field :: "byte list \<Rightarrow> byte list \<Rightarrow> byte list \<Rightarrow> bool \<Rightarrow> byte list" where
  "json_field dsid stamp val str =
     [0x22] @ dsid @ [0x22, 0x3A, 0x7B, 0x22] @ stamp @ [0x22, 0x3A] @
     (if str then [0x22] else []) @ val @ (if str then [0x22] else []) @ [0x7D, 0x2C]"

definition Mqtt_AppendDP ::
  "(int \<Rightarrow> byte list option) \<Rightarrow> byte list option \<Rightarrow> int \<Rightarrow> byte list option \<Rightarrow> bool \<Rightarrow> mqtt_buffer \<Rightarrow> pack_result" where
  "Mqtt_AppendDP fmt_time dsid ts val str b = do {
     info \<leftarrow> Mqtt_GetDataPointPktInfo b;
     case (info, dsid) of
       (Some _, Some ds) \<Rightarrow>
         if ds = [] then Some (MQTTERR_INVALID_PARAMETER, b)
         else do {
           bad \<leftarrow> check_utf8_fails ds (length ds);
           if bad then Some (MQTTERR_NOT_UTF8, b)
           else if Mqtt_HasIllegalCharacter ds (length ds) then Some (MQTTERR_ILLEGAL_CHARACTER, b)
           else let text = (case val of None \<Rightarrow> [0x6E, 0x75, 0x6C, 0x6C] | Some v \<Rightarrow> v);
                    total_len = strlen ds + 9 + (if 0 < ts then FORMAT_TIME_STRING_SIZE else 0) +
                      strlen text + (if str then 2 else 0)
                in with_extent total_len b (\<lambda>e b.
                     case (if 0 < ts then fmt_time ts else Some []) of
                       None \<Rightarrow> Some (MQTTERR_INTERNAL, b)
                     | Some stamp \<Rightarrow> do {
                         e \<leftarrow> write_ext e 0 (json_field ds stamp text str);
                         append_text e b
                       })
         }
     | _ \<Rightarrow> Some (MQTTERR_INVALID_PARAMETER, b)
   }"

definition Mqtt_AppendDPNull :: "byte list option \<Rightarrow> mqtt_buffer \<Rightarrow> pack_result" where
  "Mqtt_AppendDPNull dsid b = Mqtt_AppendDP (\<lambda>_. None) dsid 0 None False b"

definition Mqtt_AppendDPInt ::
  "(int \<Rightarrow> byte list option) \<Rightarrow> (int \<Rightarrow> byte list) \<Rightarrow> byte list option \<Rightarrow> int \<Rightarrow> int \<Rightarrow> mqtt_buffer \<Rightarrow> pack_result" where
  "Mqtt_AppendDPInt fmt_time digits dsid ts val b = Mqtt_AppendDP fmt_time dsid ts (Some (digits val)) False b"

definition Mqtt_AppendDPDouble ::
  "(int \<Rightarrow> byte list option) \<Rightarrow> ('d \<Rightarrow> byte list) \<Rightarrow> byte list option \<Rightarrow> int \<Rightarrow> 'd \<Rightarrow> mqtt_buffer \<Rightarrow> pack_result" where
  "Mqtt_AppendDPDouble fmt_time digits dsid ts val b = Mqtt_AppendDP fmt_time dsid ts (Some (digits val)) False b"

text \<open>A string value: null is the empty string.\<close>

definition check_value :: "byte list option \<Rightarrow> mqtt_buffer \<Rightarrow> (byte list \<Rightarrow> pack_result) \<Rightarrow> pack_result" where
  "check_value val b f =
     (let v = (case val of None \<Rightarrow> [] | Some v \<Rightarrow> v)
      in do {
        bad \<leftarrow> check_utf8_fails v (length v);
        if bad then Some (MQTTERR_NOT_UTF8, b)
        else if Mqtt_HasIllegalCharacter v (length v) then Some (MQTTERR_ILLEGAL_CHARACTER, b)
        else f v
      })"

definition Mqtt_AppendDPString ::
  "(int \<Rightarrow> byte list option) \<Rightarrow> byte list option \<Rightarrow> int \<Rightarrow> byte list option \<Rightarrow> mqtt_buffer \<Rightarrow> pack_result" where
  "Mqtt_AppendDPString fmt_time dsid ts val b =
     check_value val b (\<lambda>v. Mqtt_AppendDP fmt_time dsid ts (Some v) True b)"

subsection \<open>Objects\<close>

definition Mqtt_AppendDPSubvalue :: "byte list \<Rightarrow> byte list \<Rightarrow> bool \<Rightarrow> mqtt_buffer \<Rightarrow> pack_result" where
  "Mqtt_AppendDPSubvalue name val str b = do {
     info \<leftarrow> Mqtt_GetDataPointPktInfo b;
     case info of
       None \<Rightarrow> Some (MQTTERR_INVALID_PARAMETER, b)
     | Some depth \<Rightarrow>
         if sint depth \<le> 0 then Some (MQTTERR_NOT_IN_SUBOBJECT, b)
         else do {
           bad \<leftarrow> check_utf8_fails name (length name);
           if bad then Some (MQTTERR_NOT_UTF8, b)
           else if Mqtt_HasIllegalCharacter name (length name) then Some (MQTTERR_ILLEGAL_CHARACTER, b)
           else with_extent (strlen val + 2 + (if str then 2 else 0) + (strlen name + 2)) b (\<lambda>e b. do {
             e \<leftarrow> write_ext e 0 ([0x22] @ name @ [0x22, 0x3A] @ (if str then [0x22] else []) @ val @
                    (if str then [0x22] else []) @ [0x2C]);
             append_text e b
           })
         }
   }"

definition Mqtt_AppendDPSubvalueInt :: "(int \<Rightarrow> byte list) \<Rightarrow> byte list \<Rightarrow> int \<Rightarrow> mqtt_buffer \<Rightarrow> pack_result" where
  "Mqtt_AppendDPSubvalueInt digits name val b = Mqtt_AppendDPSubvalue name (digits val) False b"

definition Mqtt_AppendDPSubvalueDouble :: "('d \<Rightarrow> byte list) \<Rightarrow> byte list \<Rightarrow> 'd \<Rightarrow> mqtt_buffer \<Rightarrow> pack_result" where
  "Mqtt_AppendDPSubvalueDouble digits name val b = Mqtt_AppendDPSubvalue name (digits val) False b"

definition Mqtt_AppendDPSubvalueString :: "byte list \<Rightarrow> byte list option \<Rightarrow> mqtt_buffer \<Rightarrow> pack_result" where
  "Mqtt_AppendDPSubvalueString name val b = check_value val b (\<lambda>v. Mqtt_AppendDPSubvalue name v True b)"

text \<open>The depth is raised before the allocation and stays raised when that fails.\<close>

definition Mqtt_AppendDPStartSubobject :: "byte list option \<Rightarrow> mqtt_buffer \<Rightarrow> pack_result" where
  "Mqtt_AppendDPStartSubobject name b =
     check_value name b (\<lambda>name. do {
       info \<leftarrow> Mqtt_GetDataPointPktInfo b;
       case info of
         None \<Rightarrow> Some (MQTTERR_INVALID_PARAMETER, b)
       | Some depth \<Rightarrow> do {
           b \<leftarrow> set_depth (depth + 1) b;
           with_extent (strlen name + 4) b (\<lambda>e b. do {
             e \<leftarrow> write_ext e 0 ([0x22] @ name @ [0x22, 0x3A, 0x7B]);
             append_text e b
           })
         }
     })"

text \<open>The depth is lowered before the test.\<close>

definition Mqtt_AppendDPFinishSubobject :: "mqtt_buffer \<Rightarrow> pack_result" where
  "Mqtt_AppendDPFinishSubobject b = do {
     info \<leftarrow> Mqtt_GetDataPointPktInfo b;
     case info of
       None \<Rightarrow> Some (MQTTERR_INVALID_PARAMETER, b)
     | Some depth \<Rightarrow> do {
         b \<leftarrow> set_depth (depth - 1) b;
         if sint (depth - 1) < 0 then Some (MQTTERR_NOT_IN_SUBOBJECT, b)
         else let i = length (exts b) - 1; n = unat (ext_len (exts b ! i))
              in if n = 0 then None
                 else do {
                   c \<leftarrow> peek (ext_payload (exts b ! i)) (n - 1);
                   if c = 0x7B
                   then with_extent 2 b (\<lambda>e b. do {
                          e \<leftarrow> write_ext e 0 [0x7D, 0x2C];
                          append_text e b
                        })
                   else do {
                     b \<leftarrow> upd_ext i (\<lambda>e. write_ext e (n - 1) [0x7D]) b;
                     with_extent 1 b (\<lambda>e b. do { e \<leftarrow> write_ext e 0 [0x2C]; append_text e b })
                   }
                 }
       }
   }"

definition Mqtt_AppendDPStartObject ::
  "(int \<Rightarrow> byte list option) \<Rightarrow> byte list option \<Rightarrow> int \<Rightarrow> mqtt_buffer \<Rightarrow> pack_result" where
  "Mqtt_AppendDPStartObject fmt_time dsid ts b = do {
     (err, b) \<leftarrow> Mqtt_AppendDPStartSubobject dsid b;
     if err \<noteq> MQTTERR_NOERROR then Some (err, b)
     else case (if 0 < ts then fmt_time ts else Some []) of
            None \<Rightarrow> Some (MQTTERR_INTERNAL, b)
          | Some strtime \<Rightarrow> Mqtt_AppendDPStartSubobject (Some strtime) b
   }"

definition Mqtt_AppendDPFinishObject :: "mqtt_buffer \<Rightarrow> pack_result" where
  "Mqtt_AppendDPFinishObject b = do {
     (err, b) \<leftarrow> Mqtt_AppendDPFinishSubobject b;
     if err \<noteq> MQTTERR_NOERROR then Some (err, b) else Mqtt_AppendDPFinishSubobject b
   }"

subsection \<open>Start, end, binary values\<close>

definition TOPIC_DP :: "byte list" where "TOPIC_DP = [0x24, 0x64, 0x70]"
definition TOPIC_CRSP :: "byte list" where "TOPIC_CRSP = [0x24, 0x63, 0x72, 0x73, 0x70]"

definition Mqtt_PackDataPointStart :: "u16 \<Rightarrow> nat \<Rightarrow> bool \<Rightarrow> bool \<Rightarrow> mqtt_buffer \<Rightarrow> pack_result" where
  "Mqtt_PackDataPointStart pkt_id qos retain topic b =
     (if exts b \<noteq> [] then Some (MQTTERR_INVALID_PARAMETER, b)
      else do {
        (err, b) \<leftarrow> Mqtt_PackPublishPkt pkt_id (if topic then TOPIC_DP else TOPIC_CRSP) [] 0 qos retain False b;
        if err \<noteq> MQTTERR_NOERROR then Some (err, b) else Some (MQTTERR_NOERROR, b)
      })"

definition Mqtt_PackDataPointFinish :: "mqtt_buffer \<Rightarrow> pack_result" where
  "Mqtt_PackDataPointFinish b = do {
     info \<leftarrow> Mqtt_GetDataPointPktInfo b;
     case info of
       None \<Rightarrow> Some (MQTTERR_INVALID_PARAMETER, b)
     | Some depth \<Rightarrow>
         if 0 < sint depth then Some (MQTTERR_INCOMPLETE_SUBOBJECT, b)
         else do {
           b \<leftarrow> upd_ext 2 (\<lambda>e. Some (e\<lparr>ext_len := 2\<rparr>)) b;
           (err, b) \<leftarrow> Mqtt_EraseLength SIZEOF_INFO b;
           if err \<noteq> MQTTERR_NOERROR then Some (err, b)
           else if length (exts b) \<noteq> 3
           then let i = length (exts b) - 1; n = unat (ext_len (exts b ! i))
                in if n = 0 then None
                   else do {
                     b \<leftarrow> upd_ext i (\<lambda>e. write_ext e (n - 1) [0x7D]) b;
                     Some (MQTTERR_NOERROR, b)
                   }
           else with_extent 1 b (\<lambda>e b. do {
                  e \<leftarrow> write_ext e 0 [0x7D];
                  (err, b) \<leftarrow> Mqtt_AppendLength (ext_len e) (MqttBuffer_AppendExtent e b);
                  Some (err, b)
                })
         }
   }"

definition TOPIC_SAVEDATA :: "byte list" where
  "TOPIC_SAVEDATA = [0x24, 0x53, 0x41, 0x56, 0x45, 0x44, 0x41, 0x54, 0x41]"
definition TOPIC_PASSDATA :: "byte list" where
  "TOPIC_PASSDATA = [0x24, 0x50, 0x41, 0x53, 0x53, 0x44, 0x41, 0x54, 0x41]"

text \<open>The bytes of the header behind its type and length: the name, the time stamp and the
  description, separated by commas. A time stamp that cannot be formatted leaves 23 bytes unset.\<close>

definition binary_header ::
  "(int \<Rightarrow> byte list option) \<Rightarrow> byte list \<Rightarrow> byte list option \<Rightarrow> int \<Rightarrow> mqtt_extent \<Rightarrow> (mqtt_extent \<times> nat) option" where
  "binary_header fmt_time ds desc time e = do {
     e \<leftarrow> write_ext e 3 ds;
     let i = 3 + length ds;
     let pack_time = (desc \<noteq> None \<or> 0 < time);
     (e, i) \<leftarrow> (if pack_time
        then do {
          e \<leftarrow> write_ext e i [0x2C];
          if 0 < time
          then do {
            e \<leftarrow> (case fmt_time time of None \<Rightarrow> Some e | Some stamp \<Rightarrow> write_ext e (i + 1) stamp);
            Some (e, i + 1 + 23)
          }
          else Some (e, i + 1)
        }
        else Some (e, i));
     case desc of
       None \<Rightarrow> Some (e, i)
     | Some d \<Rightarrow> do { e \<leftarrow> write_ext e i (0x2C # d); Some (e, i + 1 + length d) }
   }"

definition Mqtt_PackDataPointByBinary ::
  "(int \<Rightarrow> byte list option) \<Rightarrow> u16 \<Rightarrow> byte list option \<Rightarrow> byte list option \<Rightarrow> int \<Rightarrow> byte list option \<Rightarrow> u32 \<Rightarrow>
   nat \<Rightarrow> bool \<Rightarrow> bool \<Rightarrow> bool \<Rightarrow> mqtt_buffer \<Rightarrow> pack_result" where
  "Mqtt_PackDataPointByBinary fmt_time pkt_id dsid desc time bin sz qos retain own save b =
     (case (exts b, dsid, bin) of
        ([], Some ds, Some bytes) \<Rightarrow>
          if sz = 0 then Some (MQTTERR_INVALID_PARAMETER, b)
          else do {
            (err, b) \<leftarrow> Mqtt_PackPublishPkt pkt_id (if save then TOPIC_SAVEDATA else TOPIC_PASSDATA) [] 0 qos retain False b;
            if err \<noteq> MQTTERR_NOERROR then Some (err, b)
            else do {
              bad \<leftarrow> check_utf8_fails ds (length ds);
              if bad then Some (MQTTERR_NOT_UTF8, b)
              else do {
                bad \<leftarrow> (case desc of None \<Rightarrow> Some False | Some d \<Rightarrow> check_utf8_fails d (length d));
                if bad then Some (MQTTERR_NOT_UTF8, b)
                else let header_len = strlen ds + 2 + 1 +
                           (case desc of None \<Rightarrow> 0 | Some d \<Rightarrow> strlen d + 1) +
                           (if 0 < time then FORMAT_TIME_STRING_SIZE + 1 else if desc \<noteq> None then 1 else 0) + 4
                     in with_extent header_len b (\<lambda>header_ext b. do {
                          header_ext \<leftarrow> write_ext header_ext 0 (4 # Mqtt_WB16 (ucast (header_len - 7)));
                          (header_ext, cursor) \<leftarrow> binary_header fmt_time ds desc time header_ext;
                          header_ext \<leftarrow> write_ext header_ext cursor (Mqtt_WB32 sz);
                          with_extent (if own then sz else 0) b (\<lambda>binary_ext b. do {
                            binary_ext \<leftarrow> (if own
                              then if length bytes < unat sz then None else write_ext binary_ext 0 (take (unat sz) bytes)
                              else Some (binary_ext\<lparr>ext_payload := map Some bytes, ext_len := sz\<rparr>));
                            (err, b) \<leftarrow> Mqtt_AppendLength (header_len + sz) b;
                            if err \<noteq> MQTTERR_NOERROR then Some (err, b)
                            else Some (MQTTERR_NOERROR,
                                   MqttBuffer_AppendExtent binary_ext (MqttBuffer_AppendExtent header_ext b))
                          })
                        })
              }
            }
          }
      | _ \<Rightarrow> Some (MQTTERR_INVALID_PARAMETER, b))"

subsection \<open>No data point after the start\<close>

text \<open>\<open>Mqtt_PackDataPointStart\<close> no longer adds the extent with the tag (its code is commented out),
  so every call that follows it finds no data point packet.\<close>

lemma with_extent_elim:
  assumes "with_extent n b f = Some (r, b')"
  obtains "r = MQTTERR_OUTOFMEMORY" | e b1 where "exts b1 = exts b" "f e b1 = Some (r, b')"
  using assms by (auto simp: with_extent_def dest: AllocExtent_frame split: option.splits)

lemma write_ext_peek:
  assumes "write_ext e i bs = Some e'"
  shows "peek (ext_payload e') j = (if i \<le> j \<and> j < i + length bs then Some (bs ! (j - i)) else peek (ext_payload e) j)"
  using assms by (auto simp: write_ext_def peek_poke)

lemma write_length_peek:
  assumes "write_length e l = Some (r, e')"
  shows "peek (ext_payload e') 0 = peek (ext_payload e) 0"
proof -
  obtain x where "write_ext e 1 (snd (Mqtt_DumpLength l)) = Some x" "ext_payload e' = ext_payload x"
    using assms by (auto simp: write_length_def split: prod.splits if_splits)
  then show ?thesis by (simp add: write_ext_peek)
qed

lemma PackPublish_empty_exts:
  assumes "Mqtt_PackPublishPkt pkt_id topic [] 0 qos retain own b = Some (MQTTERR_NOERROR, b')"
  obtains fh vh h where "exts b' = exts b @ [fh, vh]" "peek (ext_payload fh) 0 = Some h"
proof -
  have "pkt_id \<noteq> 0" "wildcard_free topic" using assms by (auto simp: Mqtt_PackPublishPkt_def split: if_splits)
  then obtain bad where bad: "check_utf8_fails topic (length topic) = Some bad"
    using assms by (auto simp: Mqtt_PackPublishPkt_def bind_eq_Some_conv)
  note run = assms [unfolded Mqtt_PackPublishPkt_def Let_def bad Option.bind.simps]
  have "\<not> bad" using run \<open>pkt_id \<noteq> 0\<close> \<open>wildcard_free topic\<close> by auto
  note run = run [simplified \<open>pkt_id \<noteq> 0\<close> \<open>wildcard_free topic\<close> \<open>\<not> bad\<close> simp_thms if_False]
  from run obtain e1 b1 where e1: "exts b1 = exts b"
    "(case publish_qos qos of
        None \<Rightarrow> Some (MQTTERR_INVALID_PARAMETER, b1)
      | Some (bits, extra) \<Rightarrow> do {
          e \<leftarrow> write_ext e1 0 [(48 OR (if retain then 1 else 0)) OR bits];
          (ret, e) \<leftarrow> write_length e (strlen topic + 2 + extra);
          if ret < 0 then Some (MQTTERR_PKT_TOO_LARGE, b1)
          else with_extent (strlen topic + 0 + 2 + extra - 0) b1 (\<lambda>v b. do {
            (v, cursor) \<leftarrow> Mqtt_PktWriteString v 0 (topic @ [0]) (ucast (strlen topic));
            v \<leftarrow> (if qos \<noteq> 0 then write_ext v cursor (Mqtt_WB16 pkt_id) else Some v);
            Some (MQTTERR_NOERROR, MqttBuffer_AppendExtent v (MqttBuffer_AppendExtent e b))
          })
        }) = Some (MQTTERR_NOERROR, b')"
    by (elim with_extent_elim) (auto split: option.splits)
  from e1(2) obtain bits extra where q: "publish_qos qos = Some (bits, extra)"
    by (auto split: option.splits)
  note run = e1(2) [unfolded q option.case prod.case]
  from run obtain e2 where e2: "write_ext e1 0 [(48 OR (if retain then 1 else 0)) OR bits] = Some e2"
    by (auto simp: bind_eq_Some_conv)
  note run = run [unfolded e2 Option.bind.simps]
  from run obtain ret e3 where e3: "write_length e2 (strlen topic + 2 + extra) = Some (ret, e3)"
    by (auto simp: bind_eq_Some_conv)
  note run = run [unfolded e3 Option.bind.simps prod.case]
  have "\<not> ret < 0" using run by auto
  note run = run [unfolded if_not_P [OF this]]
  from run obtain v where v: "exts b' = exts b1 @ [e3, v]"
    by (elim with_extent_elim) (auto simp: bind_eq_Some_conv)
  have "peek (ext_payload e3) 0 = Some ((48 OR (if retain then 1 else 0)) OR bits)"
    using write_length_peek [OF e3] write_ext_peek [OF e2, of 0] by simp
  then show thesis by (intro that [of e3 v]) (simp_all add: v e1(1))
qed

lemma GetDataPointPktInfo_two:
  assumes "exts b = [fh, vh]" "peek (ext_payload fh) 0 = Some h"
  shows "Mqtt_GetDataPointPktInfo b = Some None"
  using assms by (simp add: Mqtt_GetDataPointPktInfo_def)

lemma check_value_fails:
  assumes "check_value val b f = Some (r, b')" "\<And>v. f v = Some (MQTTERR_INVALID_PARAMETER, b)"
  shows "r < 0 \<and> b' = b"
  using assms by (auto simp: check_value_def Let_def bind_eq_Some_conv split: if_splits)

lemma no_info_no_datapoint:
  assumes i: "Mqtt_GetDataPointPktInfo b = Some None"
  shows "Mqtt_AppendDP fmt dsid ts val str b = Some (MQTTERR_INVALID_PARAMETER, b)"
    and "Mqtt_AppendDPSubvalue name v str b = Some (MQTTERR_INVALID_PARAMETER, b)"
    and "Mqtt_AppendDPFinishSubobject b = Some (MQTTERR_INVALID_PARAMETER, b)"
    and "Mqtt_PackDataPointFinish b = Some (MQTTERR_INVALID_PARAMETER, b)"
    and "Mqtt_AppendDPFinishObject b = Some (MQTTERR_INVALID_PARAMETER, b)"
    and "Mqtt_AppendDPStartSubobject nm b = Some (r, b') \<Longrightarrow> r < 0 \<and> b' = b"
    and "Mqtt_AppendDPStartObject fmt nm ts b = Some (r, b') \<Longrightarrow> r < 0 \<and> b' = b"
proof -
  have start: "r < 0 \<and> b' = b" if "Mqtt_AppendDPStartSubobject nm b = Some (r, b')" for nm r b'
    using that unfolding Mqtt_AppendDPStartSubobject_def by (rule check_value_fails) (simp add: i)
  show "Mqtt_AppendDP fmt dsid ts val str b = Some (MQTTERR_INVALID_PARAMETER, b)"
    "Mqtt_AppendDPSubvalue name v str b = Some (MQTTERR_INVALID_PARAMETER, b)"
    "Mqtt_AppendDPFinishSubobject b = Some (MQTTERR_INVALID_PARAMETER, b)"
    "Mqtt_PackDataPointFinish b = Some (MQTTERR_INVALID_PARAMETER, b)"
    by (simp_all add: Mqtt_AppendDP_def Mqtt_AppendDPSubvalue_def Mqtt_AppendDPFinishSubobject_def
        Mqtt_PackDataPointFinish_def i)
  then show "Mqtt_AppendDPFinishObject b = Some (MQTTERR_INVALID_PARAMETER, b)"
    by (simp add: Mqtt_AppendDPFinishObject_def)
  show "Mqtt_AppendDPStartSubobject nm b = Some (r, b') \<Longrightarrow> r < 0 \<and> b' = b" by (rule start)
  show "Mqtt_AppendDPStartObject fmt nm ts b = Some (r, b') \<Longrightarrow> r < 0 \<and> b' = b"
  proof -
    assume a: "Mqtt_AppendDPStartObject fmt nm ts b = Some (r, b')"
    then obtain r1 b1 where r1: "Mqtt_AppendDPStartSubobject nm b = Some (r1, b1)"
      by (auto simp: Mqtt_AppendDPStartObject_def bind_eq_Some_conv)
    then have "r1 \<noteq> 0" using start [OF r1] by simp
    then show "r < 0 \<and> b' = b" using a start [OF r1] by (simp add: Mqtt_AppendDPStartObject_def r1)
  qed
qed

end
