(* ===== verification/Mqtt_Properties.thy ===== *)
theory Mqtt_Properties
  imports Mqtt_Session Mqtt_Datapoint
begin

text \<open>
  The properties of the MQTT client: safety of the receiver for arbitrary input, what packed
  packets contain and what the receiver makes of them, and where the code departs from the
  protocol or from its own interface. The witnesses run them on concrete buffers.
\<close>

subsection \<open>Concrete buffers for the witnesses\<close>

definition empty_buffer :: "u32 list \<Rightarrow> mqtt_buffer" where
  "empty_buffer ms = MqttBuffer_Init \<lparr>exts = [], available_bytes = 0, allocations = [],
     allocations_at = 0, first_available = 0, alloc_count = 0, alloc_max_count = 0,
     buffered_bytes = 0, mallocs = ms, frees = []\<rparr>"

lemma empty_buffer_simps [simp]:
  "exts (empty_buffer ms) = []" "buf_out (empty_buffer ms) = []" "mallocs (empty_buffer ms) = ms"
  "plenty k (empty_buffer ms) = (2 * k \<le> length ms \<and> 0 \<notin> set ms)"
  "buffered_bytes (empty_buffer ms) = 0"
  by (simp_all add: empty_buffer_def MqttBuffer_Init_def buf_out_def plenty_def)

definition empty_context :: "nat \<Rightarrow> u32 list \<Rightarrow> mqtt_context" where
  "empty_context n ms = snd (Mqtt_InitContext n (Some (replicate n None)) ms)"

lemma empty_context_simps [simp]:
  "rx (empty_context n ms) = replicate n None" "rx_pos (empty_context n ms) = 0"
  "heap (empty_context n ms) = ms" "calls (empty_context n ms) = []"
  by (simp_all add: empty_context_def Mqtt_InitContext_def)

lemma empty_context_ready:
  "2 * n \<le> sz \<Longrightarrow> 4 * k \<le> length ms \<Longrightarrow> 0 \<notin> set ms \<Longrightarrow> ready k n (empty_context sz ms)"
  by (simp add: ready_def heap_for_def)

text \<open>Every callback returns 0, every write takes all bytes.\<close>

definition obliging :: mqtt_app where
  "obliging cs = (case last cs of Call_writev ms \<Rightarrow> int (length (concat ms)) | _ \<Rightarrow> 0)"

lemma obliging_accepting [simp]: "accepting obliging"
  by (simp add: accepting_def obliging_def split: mqtt_call.split)

lemma ascii_topic:
  assumes "list_all (\<lambda>c. c < 0x80) t" "0 \<notin> set t"
  shows "check_utf8_fails t (length t) = Some False"
proof -
  have "Mqtt_CheckUtf8 (c_mem t) 0 (length t) = Some (int (length t))"
    by (rule CheckUtf8_ascii) (use assms in \<open>simp_all add: peek_c_mem\<close>)
  then show ?thesis by (simp add: check_utf8_fails_def)
qed

text \<open>The topic \<open>a/b\<close>.\<close>

abbreviation topic_ab :: "byte list" where "topic_ab \<equiv> [0x61, 0x2F, 0x62]"

lemma topic_ab_plain: "plain_topic topic_ab" "topic_ok topic_ab"
  using ascii_topic [of topic_ab] by (simp_all add: plain_topic_def topic_ok_def)

subsection \<open>Receiving\<close>

text \<open>C9: For every sequence of bytes that \<^verbatim>\<open>read_func\<close> may deliver, in any
  state of the receive buffer that holds received bytes, \<^verbatim>\<open>Mqtt_RecvPkt\<close> returns, reads
  no byte it was not given and writes none outside its buffer, provided the bytes it has fill at
  most half of the buffer and memory for the responses is there; the buffer keeps its size and
  the bytes left over are again received ones.\<close>
theorem mqtt_receiver_memory_safe:
  assumes "inited (rx_pos c) (rx c)" "heap_for (rx_pos c + length bs) c"
    and "2 * (rx_pos c + length bs) \<le> length (rx c)"
  shows "\<exists>n c'. Mqtt_RecvPkt app (Rd_data bs) c = Some (n, c') \<and> length (rx c') = length (rx c) \<and>
    rx_pos c' \<le> rx_pos c + length bs \<and> inited (rx_pos c') (rx c')"
  using assms by (rule RecvPkt_safe)

theorem mqtt_receiver_memory_safe_witness:
  "\<exists>n c'. Mqtt_RecvPkt obliging (Rd_data [0x36, 4, 0, 9, 1, 2, 0x90]) (empty_context 16 (replicate 28 1)) =
     Some (n, c') \<and> length (rx c') = 16 \<and> rx_pos c' \<le> 7 \<and> inited (rx_pos c') (rx c')"
  using mqtt_receiver_memory_safe [of "empty_context 16 (replicate 28 1)" "[0x36, 4, 0, 9, 1, 2, 0x90]" obliging]
  by (auto simp: inited_def heap_for_def)

text \<open>C10: A message that is not retained, packed by \<^verbatim>\<open>Mqtt_PackPublishPkt\<close> into an empty buffer and
  received as one piece by \<^verbatim>\<open>Mqtt_RecvPkt\<close>, reaches the application with its topic, payload, QoS and
  packet id (0 for QoS 0), is answered with the acknowledgement its QoS asks for, and leaves the
  receiver ready again. This is for a packet id other than 0, a topic with no wildcard, no byte 0 and
  no \<open>$\<close> in front that passes the UTF-8 test, a body of less than 2\^21 bytes, memory for the three
  extents of the buffer and for the response, a receive buffer that is empty and has twice the room
  of the packet, an application that accepts every packet and a transport that takes every byte.
  (The receiver refuses retained messages, and lengths of four bytes.)\<close>
theorem mqtt_publish_roundtrip:
  assumes b: "plenty 3 b" "buf_out b = []"
    and m: "plain_topic t" "pkt_id \<noteq> 0" "qos \<le> 2" "unat sz = length payload"
      "length (publish_body pkt_id t payload qos) < 2 ^ 21" "length (publish_body pkt_id t payload qos) + 5 \<le> n"
    and c: "ready (Suc k) n c" "accepting app"
  shows "\<exists>b' bytes c'.
    Mqtt_PackPublishPkt pkt_id t payload sz qos False own b = Some (MQTTERR_NOERROR, b') \<and>
    buf_out b' = map Some bytes \<and>
    Mqtt_RecvPkt app (Rd_data bytes) c = Some (MQTTERR_NOERROR, c') \<and>
    calls c' = calls c @ Call_publish (if qos = 0 then 0 else pkt_id) (Some t) (Some payload) 0 qos #
      (if qos = 0 then [] else [Call_writev [map Some (publish_ack qos pkt_id)]]) \<and>
    ready k n c'"
proof -
  let ?bytes = "packet (publish_head qos False) (publish_body pkt_id t payload qos)"
  have "length (publish_body pkt_id t payload qos) < 2 ^ 28" using m(5) by simp
  from publish_packet [OF b(1) m(2,1,3,4) this, of False own] obtain b' where
    b': "Mqtt_PackPublishPkt pkt_id t payload sz qos False own b = Some (MQTTERR_NOERROR, b')"
      "buf_out b' = map Some ?bytes" using b(2) by auto
  have "length ?bytes \<le> n"
    using m(6) length_field_le [of "of_nat (length (publish_body pkt_id t payload qos))"]
    by (simp add: packet_length)
  from recv_publish [OF m(1,3) _ m(5) refl c(1) this c(2)] m(2) b' show ?thesis
    unfolding publish_calls_ack by blast
qed

theorem mqtt_publish_roundtrip_witness:
  "\<exists>b' bytes c'.
    Mqtt_PackPublishPkt 7 topic_ab [1, 2] 2 1 False True (empty_buffer [10, 20, 30, 40, 50, 60]) =
      Some (MQTTERR_NOERROR, b') \<and>
    buf_out b' = map Some bytes \<and>
    Mqtt_RecvPkt obliging (Rd_data bytes) (empty_context 40 [1, 2, 3, 4]) = Some (MQTTERR_NOERROR, c') \<and>
    calls c' = [Call_publish 7 (Some topic_ab) (Some [1, 2]) 0 1, Call_writev [map Some (publish_ack 1 7)]] \<and>
    ready 0 20 c'"
  using mqtt_publish_roundtrip [of "empty_buffer [10, 20, 30, 40, 50, 60]" topic_ab 7 1 2 "[1, 2]" 20 0
      "empty_context 40 [1, 2, 3, 4]" obliging True]
  by (simp add: topic_ab_plain publish_body_length empty_context_ready)

text \<open>C11: The exchange of QoS 2 ends: when a packed QoS 2 message is delivered and each side is
  given the bytes the other one writes, the receiver calls \<^verbatim>\<open>handle_publish\<close> once and
  \<^verbatim>\<open>handle_pub_rel\<close>, the sender \<^verbatim>\<open>handle_pub_rec\<close> and \<^verbatim>\<open>handle_pub_comp\<close>, all with the packet's
  id and in this order, and both are ready for the next packet. The message is not retained, its
  packet id is not 0, its topic has no wildcard, no byte 0 and no \<open>$\<close> in front and passes the UTF-8
  test, its body has less than 2\^21 bytes; memory is there, both receive buffers are empty and
  have twice the room of a packet, both applications accept every packet and both transports take
  every byte.\<close>
theorem mqtt_qos2_exchange:
  assumes b: "plenty 3 b" "buf_out b = []"
    and m: "plain_topic t" "pkt_id \<noteq> 0" "unat sz = length payload"
      "length (publish_body pkt_id t payload 2) < 2 ^ 21" "length (publish_body pkt_id t payload 2) + 5 \<le> n"
    and r: "ready (Suc (Suc k)) n r" "accepting rapp"
    and s: "ready (Suc (Suc k)) i s" "4 \<le> i" "accepting sapp"
  shows "\<exists>b' bytes r1 s1 r2 s2 rec rel comp.
    Mqtt_PackPublishPkt pkt_id t payload sz 2 False own b = Some (MQTTERR_NOERROR, b') \<and>
    buf_out b' = map Some bytes \<and>
    Mqtt_RecvPkt rapp (Rd_data bytes) r = Some (MQTTERR_NOERROR, r1) \<and>
    calls r1 = calls r @ [Call_publish pkt_id (Some t) (Some payload) 0 2, Call_writev [map Some rec]] \<and>
    Mqtt_RecvPkt sapp (Rd_data rec) s = Some (MQTTERR_NOERROR, s1) \<and>
    calls s1 = calls s @ [Call_pub_rec pkt_id, Call_writev [map Some rel]] \<and>
    Mqtt_RecvPkt rapp (Rd_data rel) r1 = Some (MQTTERR_NOERROR, r2) \<and>
    calls r2 = calls r1 @ [Call_pub_rel pkt_id, Call_writev [map Some comp]] \<and>
    Mqtt_RecvPkt sapp (Rd_data comp) s1 = Some (MQTTERR_NOERROR, s2) \<and>
    calls s2 = calls s1 @ [Call_pub_comp pkt_id] \<and> ready k n r2 \<and> ready k i s2"
proof -
  let ?bytes = "packet (publish_head 2 False) (publish_body pkt_id t payload 2)"
  have q: "(2 :: nat) \<le> 2" by simp
  have "length (publish_body pkt_id t payload 2) < 2 ^ 28" using m(4) by simp
  from publish_packet [OF b(1) m(2,1) q m(3) this, of False own] obtain b' where
    b': "Mqtt_PackPublishPkt pkt_id t payload sz 2 False own b = Some (MQTTERR_NOERROR, b')"
      "buf_out b' = map Some ?bytes" using b(2) by auto
  have "length ?bytes \<le> n"
    using m(5) length_field_le [of "of_nat (length (publish_body pkt_id t payload 2))"]
    by (simp add: packet_length)
  from qos2_exchange [OF m(1,2,4) refl r(1) this r(2) s] b' show ?thesis by blast
qed

theorem mqtt_qos2_exchange_witness:
  "\<exists>b' bytes r1 s1 r2 s2 rec rel comp.
    Mqtt_PackPublishPkt 7 topic_ab [1, 2] 2 2 False True (empty_buffer [10, 20, 30, 40, 50, 60]) =
      Some (MQTTERR_NOERROR, b') \<and>
    buf_out b' = map Some bytes \<and>
    Mqtt_RecvPkt obliging (Rd_data bytes) (empty_context 40 [1, 2, 3, 4, 5, 6, 7, 8]) = Some (MQTTERR_NOERROR, r1) \<and>
    calls r1 = [Call_publish 7 (Some topic_ab) (Some [1, 2]) 0 2, Call_writev [map Some rec]] \<and>
    Mqtt_RecvPkt obliging (Rd_data rec) (empty_context 8 [1, 2, 3, 4, 5, 6, 7, 8]) = Some (MQTTERR_NOERROR, s1) \<and>
    calls s1 = [Call_pub_rec 7, Call_writev [map Some rel]] \<and>
    Mqtt_RecvPkt obliging (Rd_data rel) r1 = Some (MQTTERR_NOERROR, r2) \<and>
    calls r2 = calls r1 @ [Call_pub_rel 7, Call_writev [map Some comp]] \<and>
    Mqtt_RecvPkt obliging (Rd_data comp) s1 = Some (MQTTERR_NOERROR, s2) \<and>
    calls s2 = calls s1 @ [Call_pub_comp 7] \<and> ready 0 20 r2 \<and> ready 0 4 s2"
  using mqtt_qos2_exchange [of "empty_buffer [10, 20, 30, 40, 50, 60]" topic_ab 7 2 "[1, 2]" 20 0
      "empty_context 40 [1, 2, 3, 4, 5, 6, 7, 8]" obliging 4 "empty_context 8 [1, 2, 3, 4, 5, 6, 7, 8]" obliging True]
  by (simp add: topic_ab_plain publish_body_length empty_context_ready)

text \<open>A packet that arrives in two pieces behind another packet is misread: after a ping
  response and the first three bytes of an acknowledgement only two of the three are moved to the
  front of the buffer, and when the last byte arrives the application is told of the id
  \<open>0x4000 + i mod 256\<close> instead of the acknowledged id \<open>i\<close>.\<close>
theorem mqtt_split_packet_misread:
  assumes "rx_pos c = 0" "8 \<le> length (rx c)" "accepting app"
  shows "\<exists>c1 c2. Mqtt_RecvPkt app (Rd_data ([0xD0, 0] @ take 3 (packet 0x40 (Mqtt_WB16 i)))) c =
      Some (MQTTERR_NOERROR, c1) \<and> rx_pos c1 = 3 \<and>
    Mqtt_RecvPkt app (Rd_data (drop 3 (packet 0x40 (Mqtt_WB16 i)))) c1 = Some (MQTTERR_NOERROR, c2) \<and>
    calls c2 = calls c @ [Call_ping_resp, Call_pub_ack (push_bit 8 0x40 OR (i AND 0xFF))]"
proof -
  have "ucast (ucast i :: byte) = take_bit 8 i" by (auto simp: bit_simps intro!: bit_eqI)
  then have "ucast (ucast i :: byte) = i AND 0xFF" by (simp add: take_bit_eq_mask mask_eq_exp_minus_1)
  moreover have "packet 0x40 (Mqtt_WB16 i) = [0x40, 2, ucast (drop_bit 8 i), ucast i]"
    unfolding ack_bytes by (simp add: Mqtt_WB16_def)
  ultimately show ?thesis
    using split_ack [OF assms, of "ucast (drop_bit 8 i)" "ucast i"] by auto
qed

theorem mqtt_split_packet_misread_witness:
  "\<exists>c1 c2. Mqtt_RecvPkt obliging (Rd_data ([0xD0, 0] @ take 3 (packet 0x40 (Mqtt_WB16 0x1234)))) (empty_context 8 []) =
      Some (MQTTERR_NOERROR, c1) \<and> rx_pos c1 = 3 \<and>
    Mqtt_RecvPkt obliging (Rd_data (drop 3 (packet 0x40 (Mqtt_WB16 0x1234)))) c1 = Some (MQTTERR_NOERROR, c2) \<and>
    calls c2 = [Call_ping_resp, Call_pub_ack 0x4034]"
  using mqtt_split_packet_misread [of "empty_context 8 []" obliging "0x1234"] by simp

subsection \<open>Encodings\<close>

text \<open>C27: The remaining length of a packet: what \<^verbatim>\<open>Mqtt_DumpLength\<close> writes below 2\^21,
  \<^verbatim>\<open>Mqtt_ReadLength\<close> reads back, with the same number of bytes, wherever it is placed; from 2\^21
  to 2\^28 - 1 four legal bytes are written that are read as malformed (-2); larger lengths are
  refused.\<close>
theorem mqtt_length_codec:
  "(unat l < 2 ^ 21 \<longrightarrow>
     Mqtt_ReadLength (m @ map Some (snd (Mqtt_DumpLength l)) @ m') (length m) (length (snd (Mqtt_DumpLength l)) + k) =
       Some (fst (Mqtt_DumpLength l), l) \<and> fst (Mqtt_DumpLength l) = int (length (snd (Mqtt_DumpLength l)))) \<and>
   (2 ^ 21 \<le> unat l \<and> unat l < 2 ^ 28 \<longrightarrow> fst (Mqtt_DumpLength l) = 4 \<and>
     (\<exists>x. Mqtt_ReadLength (m @ map Some (snd (Mqtt_DumpLength l)) @ m') (length m) (4 + k) = Some (-2, x))) \<and>
   (2 ^ 28 \<le> unat l \<longrightarrow> fst (Mqtt_DumpLength l) = -1)"
proof -
  obtain r bs where d: "Mqtt_DumpLength l = (r, bs)" by (cases "Mqtt_DumpLength l")
  have pk: "peek (m @ map Some bs @ m') (length m + j) = Some (bs ! j)" if "j < length bs" for j
    using that by (rule peek_block)
  have "unat l < 2 ^ 21 \<Longrightarrow> Mqtt_ReadLength (m @ map Some bs @ m') (length m) (length bs + k) = Some (r, l) \<and>
      r = int (length bs)"
    using length_roundtrip [OF _ d _ pk, of "length bs + k"] by simp
  moreover have "2 ^ 21 \<le> unat l \<Longrightarrow> unat l < 2 ^ 28 \<Longrightarrow> r = 4 \<and>
      (\<exists>x. Mqtt_ReadLength (m @ map Some bs @ m') (length m) (4 + k) = Some (-2, x))"
    using length_rejected [OF _ _ d _ pk, of "4 + k"] by simp
  moreover have "2 ^ 28 \<le> unat l \<Longrightarrow> r = -1" using DumpLength_overflow(1) [of l] d by simp
  ultimately show ?thesis using d by simp
qed

theorem mqtt_length_codec_witness:
  "Mqtt_ReadLength (map Some (snd (Mqtt_DumpLength 321)) @ [Some 9]) 0 (length (snd (Mqtt_DumpLength 321)) + 1) =
     Some (fst (Mqtt_DumpLength 321), 321) \<and>
   (\<exists>x. Mqtt_ReadLength (map Some (snd (Mqtt_DumpLength 0x200000)) @ []) 0 (4 + 0) = Some (-2, x)) \<and>
   fst (Mqtt_DumpLength 0x10000000) = -1"
  using mqtt_length_codec [of 321 "[]" "[Some 9]" 1] mqtt_length_codec [of "0x200000" "[]" "[]" 0]
    mqtt_length_codec [of "0x10000000" "[]" "[]" 0] by simp

text \<open>\<^verbatim>\<open>Mqtt_CheckUtf8\<close> agrees with the table of well-formed sequences of the Unicode
  standard on a string of one character. On longer strings it tests the first character again and
  again: behind an ASCII character it accepts any bytes below \<open>0xC0\<close>, stray continuation bytes
  included, and it rejects the valid string \<open>a\<close> followed by a two-byte character.\<close>
theorem mqtt_utf8_first_character:
  "(\<forall>cs. Mqtt_TrailingBytesForUTF8 ! unat (hd cs) + 1 = length cs \<longrightarrow>
      Mqtt_CheckUtf8 (c_mem cs) 0 (length cs) =
        Some (if utf8_char cs then int (length cs) else MQTTERR_NOT_UTF8)) \<and>
   (\<forall>c s. c < 0x80 \<and> list_all (\<lambda>d. d < 0xC0 \<and> d \<noteq> 0) s \<longrightarrow>
      Mqtt_CheckUtf8 (c_mem (c # s)) 0 (length (c # s)) = Some (int (length (c # s)))) \<and>
   \<not> utf8_valid [0x61, 0x80] \<and>
   utf8_valid [0x61, 0xC3, 0xA9] \<and> Mqtt_CheckUtf8 (c_mem [0x61, 0xC3, 0xA9]) 0 3 = Some MQTTERR_NOT_UTF8"
proof (intro conjI allI impI)
  fix cs :: "byte list" assume "Mqtt_TrailingBytesForUTF8 ! unat (hd cs) + 1 = length cs"
  then show "Mqtt_CheckUtf8 (c_mem cs) 0 (length cs) =
      Some (if utf8_char cs then int (length cs) else MQTTERR_NOT_UTF8)"
    by (rule CheckUtf8_first_char) (simp_all add: peek_c_mem)
next
  fix c :: byte and s :: "byte list" assume a: "c < 0x80 \<and> list_all (\<lambda>d. d < 0xC0 \<and> d \<noteq> 0) s"
  have "check_utf8_loop (c_mem (c # s)) 0 (length (c # s)) 0 = Some (int (length (c # s)))"
  proof (rule check_utf8_loop_single [of _ _ c])
    fix j assume "0 \<le> j" "j < length (c # s)"
    then show "\<exists>d. peek (c_mem (c # s)) (0 + j) = Some d \<and> d < 0xC0 \<and> (0 < j \<longrightarrow> d \<noteq> 0)"
      using a by (cases j) (auto simp: peek_c_mem list_all_length u8_order)
  qed (use a in \<open>simp_all add: peek_c_mem\<close>)
  then show "Mqtt_CheckUtf8 (c_mem (c # s)) 0 (length (c # s)) = Some (int (length (c # s)))"
    by (simp add: Mqtt_CheckUtf8_def)
next
  show "\<not> utf8_valid [0x61, 0x80]" "utf8_valid [0x61, 0xC3, 0xA9]"
    by (simp_all add: utf8_cont_def)
  have t: "Mqtt_TrailingBytesForUTF8 ! unat (0x61 :: byte) = 0" "Mqtt_TrailingBytesForUTF8 ! unat (0xC3 :: byte) = 1"
    by (simp_all only: trailing_bytes) simp_all
  have l: "Mqtt_IsLegalUtf8 (c_mem [0x61, 0xC3, 0xA9]) 0 1 = Some MQTTERR_NOERROR"
    "Mqtt_IsLegalUtf8 (c_mem [0x61, 0xC3, 0xA9]) 0 (1 + 1) = Some MQTTERR_NOT_UTF8"
    by (simp_all add: Mqtt_IsLegalUtf8_def c_mem_def utf8_bad_first_def utf8_bad_tail_def)
  have p: "peek (c_mem [0x61, 0xC3, 0xA9]) 0 = Some 0x61" "peek (c_mem [0x61, 0xC3, 0xA9]) 1 = Some 0xC3"
    by (simp_all add: c_mem_def)
  have "check_utf8_loop (c_mem [0x61, 0xC3, 0xA9]) 0 3 1 = Some MQTTERR_NOT_UTF8"
    by (subst check_utf8_loop.simps) (simp only: p t l add_0 option.case Let_def, simp)
  then have "check_utf8_loop (c_mem [0x61, 0xC3, 0xA9]) 0 3 0 = Some MQTTERR_NOT_UTF8"
    by (subst check_utf8_loop.simps) (simp only: p t l add_0 option.case Let_def, simp)
  then show "Mqtt_CheckUtf8 (c_mem [0x61, 0xC3, 0xA9]) 0 3 = Some MQTTERR_NOT_UTF8"
    by (simp only: Mqtt_CheckUtf8_def)
qed

theorem mqtt_utf8_first_character_witness:
  "Mqtt_CheckUtf8 (c_mem [0xE2, 0x82, 0xAC]) 0 3 = Some 3 \<and> Mqtt_CheckUtf8 (c_mem [0x61, 0x80]) 0 2 = Some 2"
proof -
  have t: "Mqtt_TrailingBytesForUTF8 ! unat (hd [0xE2, 0x82, 0xAC :: byte]) + 1 = length [0xE2, 0x82, 0xAC :: byte]"
    by (simp only: trailing_bytes list.sel) simp
  have "Mqtt_CheckUtf8 (c_mem [0xE2, 0x82, 0xAC]) 0 (length [0xE2, 0x82, 0xAC :: byte]) =
      Some (if utf8_char [0xE2, 0x82, 0xAC] then int (length [0xE2, 0x82, 0xAC :: byte]) else MQTTERR_NOT_UTF8)"
    by (rule mqtt_utf8_first_character [THEN conjunct1, rule_format, OF t])
  moreover have "Mqtt_CheckUtf8 (c_mem [0x61, 0x80]) 0 (length [0x61, 0x80 :: byte]) = Some (int (length [0x61, 0x80 :: byte]))"
    using mqtt_utf8_first_character [THEN conjunct2, THEN conjunct1, rule_format, of "0x61" "[0x80]"] by simp
  moreover have "length [0xE2, 0x82, 0xAC :: byte] = 3" "length [0x61, 0x80 :: byte] = 2"
    "utf8_char [0xE2, 0x82, 0xAC]"
    by (simp_all add: utf8_cont_def)
  ultimately show ?thesis by (simp only: if_True) simp
qed

subsection \<open>Packing\<close>



text \<open>A subscribe or unsubscribe packet is built with the first byte \<open>0x80\<close> or \<open>0xA0\<close> (the
  protocol asks for \<open>0x82\<close> and \<open>0xA2\<close>), followed by the packet id and the topics; because of that
  byte \<^verbatim>\<open>Mqtt_AppendSubscribeTopic\<close> and \<^verbatim>\<open>Mqtt_AppendUnsubscribeTopic\<close> refuse every topic
  for the packets just built, and leave them as they are.\<close>
theorem mqtt_topics_not_appendable:
  assumes "plenty 2 b" "exts b = []" "pkt_id \<noteq> 0" "list_all topic_ok ts"
    and "length (topics_body pkt_id [qos] ts) < 2 ^ 28"
  shows "(\<exists>b'. Mqtt_PackSubscribePkt pkt_id qos (map Some ts) b = Some (MQTTERR_NOERROR, b') \<and>
      buf_out b' = map Some (packet 0x80 (topics_body pkt_id [qos] ts)) \<and>
      (\<forall>t q. Mqtt_AppendSubscribeTopic t q b' = Some (MQTTERR_INVALID_PARAMETER, b'))) \<and>
    (\<exists>b'. Mqtt_PackUnsubscribePkt pkt_id (map Some ts) b = Some (MQTTERR_NOERROR, b') \<and>
      buf_out b' = map Some (packet 0xA0 (topics_body pkt_id [] ts)) \<and>
      (\<forall>t. Mqtt_AppendUnsubscribeTopic t b' = Some (MQTTERR_INVALID_PARAMETER, b')))"
proof -
  have p: "plenty (Suc (Suc 0)) b" using assms(1) by (simp add: eval_nat_numeral)
  have o: "buf_out b = []" using assms(2) by (simp add: buf_out_def)
  have short: "length (topics_body pkt_id [] ts) < 2 ^ 28"
    using assms(5) by (simp add: topics_body_length)
  obtain b1 where b1: "Mqtt_PackSubscribePkt pkt_id qos (map Some ts) b = Some (MQTTERR_NOERROR, b1)"
    "plenty 0 b1" "buf_out b1 = buf_out b @ map Some (packet 0x80 (topics_body pkt_id [qos] ts))"
    "\<exists>e es. exts b1 = e # es \<and> peek (ext_payload e) 0 = Some 0x80"
    by (rule PackSubscribe_ok [OF p assms(3-5)], rule that) (use assms(2) in simp_all)
  obtain b2 where b2: "Mqtt_PackUnsubscribePkt pkt_id (map Some ts) b = Some (MQTTERR_NOERROR, b2)"
    "plenty 0 b2" "buf_out b2 = buf_out b @ map Some (packet 0xA0 (topics_body pkt_id [] ts))"
    "\<exists>e es. exts b2 = e # es \<and> peek (ext_payload e) 0 = Some 0xA0"
    by (rule PackUnsubscribe_ok [OF p assms(3,4) short], rule that) (use assms(2) in simp_all)
  obtain e es where e: "exts b1 = e # es" "peek (ext_payload e) 0 = Some 0x80" using b1(4) by blast
  obtain f fs where f: "exts b2 = f # fs" "peek (ext_payload f) 0 = Some 0xA0" using b2(4) by blast
  show ?thesis using b1(1,3) b2(1,3) o AppendTopic_rejected(1) [OF e] AppendTopic_rejected(2) [OF f] by simp
qed

theorem mqtt_topics_not_appendable_witness:
  "(\<exists>b'. Mqtt_PackSubscribePkt 7 1 [Some topic_ab] (empty_buffer [10, 20, 30, 40]) = Some (MQTTERR_NOERROR, b') \<and>
      buf_out b' = map Some (packet 0x80 (topics_body 7 [1] [topic_ab])) \<and>
      (\<forall>t q. Mqtt_AppendSubscribeTopic t q b' = Some (MQTTERR_INVALID_PARAMETER, b'))) \<and>
    (\<exists>b'. Mqtt_PackUnsubscribePkt 7 [Some topic_ab] (empty_buffer [10, 20, 30, 40]) = Some (MQTTERR_NOERROR, b') \<and>
      buf_out b' = map Some (packet 0xA0 (topics_body 7 [] [topic_ab])) \<and>
      (\<forall>t. Mqtt_AppendUnsubscribeTopic t b' = Some (MQTTERR_INVALID_PARAMETER, b')))"
  using mqtt_topics_not_appendable [of "empty_buffer [10, 20, 30, 40]" 7 "[topic_ab]" 1]
  by (simp add: topic_ab_plain topics_body_length)

text \<open>A write that took only a part of the first extent cannot be continued with
  \<^verbatim>\<open>Mqtt_SendPkt\<close>: called with the number of bytes sent as its offset it returns 0 without
  writing anything when that extent is the only one, however often it is called, and otherwise
  passes on a block that starts before the payload of the next extent.\<close>
theorem mqtt_short_write_not_resumed:
  assumes "exts b = e # es" "0 < n" "n < ext_len e" "n < buffered_bytes b"
    and "es = [] \<or> fst (mqtt_malloc b) \<noteq> 0"
  shows "Mqtt_SendPkt app b n c = (if es = [] then Some (0, b, c) else None)"
  using SendPkt_offset_inside(1) [OF assms(1-4), of app c] assms(5)
    SendPkt_offset_inside(2) [OF assms(1-4), of "fst (mqtt_malloc b)" "snd (mqtt_malloc b)" app c] by auto

definition one_extent :: "mqtt_extent list \<Rightarrow> mqtt_buffer" where
  "one_extent es = fold MqttBuffer_AppendExtent es (empty_buffer [1])"

theorem mqtt_short_write_not_resumed_witness:
  "Mqtt_SendPkt obliging (one_extent [\<lparr>ext_at = 4, ext_len = 2, ext_payload = map Some [0xC0, 0]\<rparr>]) 1 (empty_context 8 []) =
     Some (0, one_extent [\<lparr>ext_at = 4, ext_len = 2, ext_payload = map Some [0xC0, 0]\<rparr>], empty_context 8 []) \<and>
   Mqtt_SendPkt obliging (one_extent [\<lparr>ext_at = 4, ext_len = 2, ext_payload = map Some [0xC0, 0]\<rparr>,
     \<lparr>ext_at = 8, ext_len = 1, ext_payload = [Some 7]\<rparr>]) 1 (empty_context 8 []) = None"
proof -
  let ?e = "\<lparr>ext_at = 4, ext_len = 2, ext_payload = map Some [0xC0, 0]\<rparr>"
  let ?f = "\<lparr>ext_at = 8, ext_len = 1, ext_payload = [Some 7]\<rparr>"
  have "fst (mqtt_malloc (one_extent [?e, ?f])) \<noteq> 0"
    by (simp add: one_extent_def mqtt_malloc_def)
  then show ?thesis
    using mqtt_short_write_not_resumed [of "one_extent [?e]" ?e "[]" 1 obliging "empty_context 8 []"]
      mqtt_short_write_not_resumed [of "one_extent [?e, ?f]" ?e "[?f]" 1 obliging "empty_context 8 []"]
    by (simp add: one_extent_def)
qed

text \<open>No data point can be packed the way the interface says: \<^verbatim>\<open>Mqtt_PackDataPointStart\<close>
  succeeds, but it does not add the extent with the tag that the other calls look for, so each of
  them, up to \<^verbatim>\<open>Mqtt_PackDataPointFinish\<close>, fails and leaves the packet as it is.\<close>
theorem mqtt_no_datapoint_after_start:
  assumes "plenty 3 b" "exts b = []" "pkt_id \<noteq> 0" "qos \<le> 2"
  shows "\<exists>b'. Mqtt_PackDataPointStart pkt_id qos retain topic b = Some (MQTTERR_NOERROR, b') \<and>
    (\<forall>fmt dsid ts val str. Mqtt_AppendDP fmt dsid ts val str b' = Some (MQTTERR_INVALID_PARAMETER, b')) \<and>
    (\<forall>name v str. Mqtt_AppendDPSubvalue name v str b' = Some (MQTTERR_INVALID_PARAMETER, b')) \<and>
    (\<forall>nm r b''. Mqtt_AppendDPStartSubobject nm b' = Some (r, b'') \<longrightarrow> r < 0 \<and> b'' = b') \<and>
    (\<forall>fmt nm ts r b''. Mqtt_AppendDPStartObject fmt nm ts b' = Some (r, b'') \<longrightarrow> r < 0 \<and> b'' = b') \<and>
    Mqtt_AppendDPFinishSubobject b' = Some (MQTTERR_INVALID_PARAMETER, b') \<and>
    Mqtt_AppendDPFinishObject b' = Some (MQTTERR_INVALID_PARAMETER, b') \<and>
    Mqtt_PackDataPointFinish b' = Some (MQTTERR_INVALID_PARAMETER, b')"
proof -
  let ?t = "if topic then TOPIC_DP else TOPIC_CRSP"
  have "list_all (\<lambda>c. c < 0x80) ?t" "0 \<notin> set ?t" by (simp_all add: TOPIC_DP_def TOPIC_CRSP_def)
  then have "check_utf8_fails ?t (length ?t) = Some False" by (rule ascii_topic)
  moreover have "wildcard_free ?t" "length ?t < 2 ^ 16" by (simp_all add: TOPIC_DP_def TOPIC_CRSP_def)
  ultimately have t: "wildcard_free ?t" "check_utf8_fails ?t (length ?t) = Some False" "length ?t < 2 ^ 16" by blast+
  have p: "plenty (Suc (Suc (Suc 0))) b" using assms(1) by (simp add: eval_nat_numeral)
  obtain b' where b': "Mqtt_PackPublishPkt pkt_id ?t [] 0 qos retain False b = Some (MQTTERR_NOERROR, b')"
    by (rule PackPublish_ok [OF p assms(3) t assms(4), of 0 "[]"]) (use t(3) in \<open>simp_all add: publish_body_length\<close>)
  then have start: "Mqtt_PackDataPointStart pkt_id qos retain topic b = Some (MQTTERR_NOERROR, b')"
    using assms(2) by (simp add: Mqtt_PackDataPointStart_def)
  obtain fh vh h where "exts b' = exts b @ [fh, vh]" "peek (ext_payload fh) 0 = Some h"
    by (rule PackPublish_empty_exts [OF b'])
  then have i: "Mqtt_GetDataPointPktInfo b' = Some None"
    using assms(2) by (intro GetDataPointPktInfo_two) simp_all
  show ?thesis using start no_info_no_datapoint [OF i] by blast
qed

theorem mqtt_no_datapoint_after_start_witness:
  "\<exists>b'. Mqtt_PackDataPointStart 7 1 False True (empty_buffer [10, 20, 30, 40, 50, 60]) = Some (MQTTERR_NOERROR, b') \<and>
    Mqtt_PackDataPointFinish b' = Some (MQTTERR_INVALID_PARAMETER, b')"
  using mqtt_no_datapoint_after_start [of "empty_buffer [10, 20, 30, 40, 50, 60]" 7 1 False True] by auto

end
