(* ===== verification/Mempool.thy ===== *)
theory Mempool
  imports Mailbox Mem_Heap
begin

text \<open>
  Memory pools (\<^verbatim>\<open>src/mempool.c\<close>): blocks of one size, each behind a pointer, in an area of memory
  that the caller gives (\<^verbatim>\<open>rt_mp_init\<close>) or that comes from the system heap (\<^verbatim>\<open>rt_mp_create\<close>).

  The state puts together the kernel, the pools and the heap, in whose memory the areas of all
  pools lie. A pool is named by its address, which is what the pointer in front of a block in use
  holds; in front of a free block stands the address of the next one. The wait list
  \<^verbatim>\<open>suspend_thread\<close> is \<open>lists k (Suspend mp)\<close>. \<open>None\<close> is an access outside mapped memory, or a
  division by 0. \<^verbatim>\<open>rt_set_errno\<close> is left out, and no hook is set.
\<close>

subsection \<open>Data\<close>

record rt_mempool =
  start_address :: u32
  mp_size :: u32
  block_size :: u32
  block_list :: u32
  block_total_count :: u32
  block_free_count :: u32
  suspend_thread_count :: u32

record mp_state =
  kern :: kernel
  pools :: "oid \<Rightarrow> rt_mempool"
  mp_heap :: mem_heap

definition upd_pool :: "oid \<Rightarrow> (rt_mempool \<Rightarrow> rt_mempool) \<Rightarrow> mp_state \<Rightarrow> mp_state" where
  "upd_pool mp f s = s\<lparr>pools := (pools s)(mp := f (pools s mp))\<rparr>"

definition set_ram :: "memory \<Rightarrow> mp_state \<Rightarrow> mp_state" where
  "set_ram m s = s\<lparr>mp_heap := (mp_heap s)\<lparr>ram := m\<rparr>\<rparr>"

abbreviation mp_ram :: "mp_state \<Rightarrow> memory" where "mp_ram s \<equiv> ram (mp_heap s)"

subsection \<open>Making and deleting a pool\<close>

text \<open>The loop over the blocks, \<open>n\<close> of which are left, and the end mark.\<close>

fun link_blocks :: "u32 \<Rightarrow> u32 \<Rightarrow> u32 \<Rightarrow> nat \<Rightarrow> memory \<Rightarrow> memory option" where
  "link_blocks block_ptr stride i 0 m = Some m"
| "link_blocks block_ptr stride i (Suc n) m = do {
     m \<leftarrow> store32 m (unat (block_ptr + i * stride)) (block_ptr + (i + 1) * stride);
     link_blocks block_ptr stride (i + 1) n m
   }"

definition init_free_list :: "u32 \<Rightarrow> u32 \<Rightarrow> u32 \<Rightarrow> memory \<Rightarrow> memory option" where
  "init_free_list block_ptr stride count m = do {
     m \<leftarrow> link_blocks block_ptr stride 0 (unat count) m;
     store32 m (unat (block_ptr + (count - 1) * stride)) 0
   }"

text \<open>What \<^verbatim>\<open>rt_mp_init\<close> and \<^verbatim>\<open>rt_mp_create\<close> share: the wait list, the counters, the chain of free blocks.\<close>

definition mp_setup :: "oid \<Rightarrow> rt_mempool \<Rightarrow> mp_state \<Rightarrow> mp_state option" where
  "mp_setup mp p s = do {
     let s = s\<lparr>kern := (kern s)\<lparr>lists := (lists (kern s))(Suspend mp := [])\<rparr>\<rparr>;
     m \<leftarrow> init_free_list (start_address p) (block_size p + 4) (block_total_count p) (mp_ram s);
     Some (set_ram m (upd_pool mp (\<lambda>_. p\<lparr>block_free_count := block_total_count p, suspend_thread_count := 0,
       block_list := start_address p\<rparr>) s))
   }"

definition rt_mp_init :: "oid \<Rightarrow> string \<Rightarrow> u32 \<Rightarrow> u32 \<Rightarrow> u32 \<Rightarrow> mp_state \<Rightarrow> (int \<times> mp_state) option" where
  "rt_mp_init mp name start sz bsize s =
     (let s = s\<lparr>kern := rt_object_init (Ipc_obj mp) RT_Object_Class_MemPool name (kern s)\<rparr>;
          sz = RT_ALIGN_DOWN sz 4;
          bsize = RT_ALIGN bsize 4
      in if bsize + 4 = 0 then None
         else do {
           s \<leftarrow> mp_setup mp ((pools s mp)\<lparr>start_address := start, mp_size := sz, block_size := bsize,
                  block_total_count := sz div (bsize + 4)\<rparr>) s;
           Some (RT_EOK, s)
         })"

definition rt_mp_create :: "oid option \<Rightarrow> string \<Rightarrow> u32 \<Rightarrow> u32 \<Rightarrow> mp_state \<Rightarrow> (oid option \<times> mp_state) option" where
  "rt_mp_create mem name count bsize s =
     (let k = debug_not_in_interrupt (kern s);
          (r, k) = rt_object_allocate (map_option Ipc_obj mem) RT_Object_Class_MemPool name k;
          s = s\<lparr>kern := k\<rparr>
      in case (r, mem) of
           (Some r, Some mp) \<Rightarrow>
             (let bsize = RT_ALIGN bsize 4;
                  s = upd_pool mp (\<lambda>p. p\<lparr>block_size := bsize, mp_size := (bsize + 4) * count\<rparr>) s
              in do {
                (a, h) \<leftarrow> rt_malloc ((bsize + 4) * count) (mp_heap s);
                let s = upd_pool mp (\<lambda>p. p\<lparr>start_address := of_nat a\<rparr>) (s\<lparr>mp_heap := h\<rparr>);
                if a = RT_NULL then Some (None, s\<lparr>kern := rt_object_delete r (kern s)\<rparr>)
                else do {
                  s \<leftarrow> mp_setup mp ((pools s mp)\<lparr>block_total_count := count\<rparr>) s;
                  Some (Some mp, s)
                }
              })
         | _ \<Rightarrow> Some (None, s))"

text \<open>The loop that wakes all waiting threads. As in theory \<open>Ipc\<close>, the length of the list is enough fuel.\<close>

fun mp_resume_loop :: "nat \<Rightarrow> oid \<Rightarrow> kernel \<Rightarrow> u32 \<Rightarrow> (kernel \<times> u32) option" where
  "mp_resume_loop fuel mp k n =
     (case lists k (Suspend mp) of
        [] \<Rightarrow> Some (k, n)
      | t # _ \<Rightarrow>
          (case fuel of
             0 \<Rightarrow> None
           | Suc fuel \<Rightarrow> mp_resume_loop fuel mp (resume_with_error t k) (n - 1)))"

declare mp_resume_loop.simps [simp del]

definition mp_resume_all :: "oid \<Rightarrow> mp_state \<Rightarrow> mp_state option" where
  "mp_resume_all mp s = do {
     (k, n) \<leftarrow> mp_resume_loop (length (lists (kern s) (Suspend mp))) mp (kern s)
                (suspend_thread_count (pools s mp));
     Some (upd_pool mp (\<lambda>p. p\<lparr>suspend_thread_count := n\<rparr>) (s\<lparr>kern := k\<rparr>))
   }"

definition rt_mp_detach :: "oid \<Rightarrow> mp_state \<Rightarrow> (int \<times> mp_state) option" where
  "rt_mp_detach mp s = do {
     s \<leftarrow> mp_resume_all mp s;
     Some (RT_EOK, s\<lparr>kern := rt_object_detach (Ipc_obj mp) (kern s)\<rparr>)
   }"

definition rt_mp_delete :: "oid \<Rightarrow> mp_state \<Rightarrow> (int \<times> mp_state) option" where
  "rt_mp_delete mp s = do {
     s \<leftarrow> mp_resume_all mp (s\<lparr>kern := debug_not_in_interrupt (kern s)\<rparr>);
     h \<leftarrow> rt_free (unat (start_address (pools s mp))) (mp_heap s);
     Some (RT_EOK, s\<lparr>mp_heap := h, kern := rt_object_delete (Ipc_obj mp) (kern s)\<rparr>)
   }"

subsection \<open>Allocating and freeing a block\<close>

datatype mp_outcome = Block u32 | Mp_waiting tid

text \<open>A block is available.\<close>

definition mp_take :: "oid \<Rightarrow> mp_state \<Rightarrow> (mp_outcome \<times> mp_state) option" where
  "mp_take mp s = do {
     let s = upd_pool mp (\<lambda>p. p\<lparr>block_free_count := block_free_count p - 1\<rparr>) s;
     let block_ptr = block_list (pools s mp);
     let s = s\<lparr>kern := rt_assert (block_ptr \<noteq> 0) (kern s)\<rparr>;
     next \<leftarrow> load32 (mp_ram s) (unat block_ptr);
     m \<leftarrow> store32 (mp_ram s) (unat block_ptr) (of_nat mp);
     Some (Block (block_ptr + 4), set_ram m (upd_pool mp (\<lambda>p. p\<lparr>block_list := next\<rparr>) s))
   }"

text \<open>The loop up to the call of \<^verbatim>\<open>rt_schedule\<close>; \<open>thread\<close> is the caller.\<close>

definition mp_alloc_loop :: "oid \<Rightarrow> int \<Rightarrow> tid option \<Rightarrow> mp_state \<Rightarrow> (mp_outcome \<times> mp_state) option" where
  "mp_alloc_loop mp time thread s =
     (if block_free_count (pools s mp) \<noteq> 0 then mp_take mp s
      else if time = 0 then Some (Block 0, s)
      else
        (let k = debug_not_in_interrupt (kern s) in
         case thread of
           None \<Rightarrow> None
         | Some t \<Rightarrow>
             (let k = upd_thread t (\<lambda>th. th\<lparr>th_error := RT_EOK\<rparr>) k;
                  (r, k) = rt_thread_suspend t k;
                  k = tlist_insert_after (Suspend mp) t (defined_if (r = RT_EOK) k);
                  s = upd_pool mp (\<lambda>p. p\<lparr>suspend_thread_count := suspend_thread_count p + 1\<rparr>) s;
                  k = start_wait_timer t time k
              in Some (Mp_waiting t, s\<lparr>kern := rt_schedule k\<rparr>))))"

definition rt_mp_alloc :: "oid \<Rightarrow> int \<Rightarrow> mp_state \<Rightarrow> (mp_outcome \<times> mp_state) option" where
  "rt_mp_alloc mp time s = mp_alloc_loop mp time (rt_thread_self (kern s)) s"

definition rt_mp_alloc_return :: "oid \<Rightarrow> int \<Rightarrow> u32 \<Rightarrow> tid \<Rightarrow> mp_state \<Rightarrow> (mp_outcome \<times> mp_state) option" where
  "rt_mp_alloc_return mp time before_sleep t s =
     (if th_error (threads (kern s) t) \<noteq> RT_EOK then Some (Block 0, s)
      else mp_alloc_loop mp (remaining_timeout time before_sleep (kern s)) (Some t) s)"

definition rt_mp_free :: "u32 \<Rightarrow> mp_state \<Rightarrow> mp_state option" where
  "rt_mp_free block s = do {
     let block_ptr = block - 4;
     w \<leftarrow> load32 (mp_ram s) (unat block_ptr);
     let mp = unat w;
     let s = upd_pool mp (\<lambda>p. p\<lparr>block_free_count := block_free_count p + 1\<rparr>) s;
     m \<leftarrow> store32 (mp_ram s) (unat block_ptr) (block_list (pools s mp));
     let s = set_ram m (upd_pool mp (\<lambda>p. p\<lparr>block_list := block_ptr\<rparr>) s);
     if suspend_thread_count (pools s mp) > 0
     then case lists (kern s) (Suspend mp) of
            [] \<Rightarrow> None
          | t # _ \<Rightarrow>
              (let k = upd_thread t (\<lambda>th. th\<lparr>th_error := RT_EOK\<rparr>) (kern s);
                   k = snd (rt_thread_resume t k);
                   s = upd_pool mp (\<lambda>p. p\<lparr>suspend_thread_count := suspend_thread_count p - 1\<rparr>) s
               in Some (s\<lparr>kern := rt_schedule k\<rparr>))
     else Some s
   }"

end
