(* ===== verification/Mempool_Chain.thy ===== *)
theory Mempool_Chain
  imports Mempool Mem_Client
begin

text \<open>
  The blocks of a memory pool: \<open>pool_ok mp p m F U\<close> says that in memory \<open>m\<close> the chain of free blocks
  of pool \<open>p\<close> is \<open>F\<close> (numbers of blocks, in order), that the blocks of \<open>U\<close> are in use, and that there
  are no others. \<^verbatim>\<open>rt_mp_init\<close> establishes it; taking and giving back a block move one number.
\<close>

subsection \<open>The layout\<close>

definition stride :: "rt_mempool \<Rightarrow> nat" where
  "stride p = unat (block_size p) + 4"

definition blk :: "rt_mempool \<Rightarrow> nat \<Rightarrow> nat" where
  "blk p i = unat (start_address p) + i * stride p"

fun free_chain :: "memory \<Rightarrow> rt_mempool \<Rightarrow> u32 \<Rightarrow> nat list \<Rightarrow> bool" where
  "free_chain m p b [] = (b = 0)"
| "free_chain m p b (i # is) = (b = of_nat (blk p i) \<and>
     (case load32 m (blk p i) of None \<Rightarrow> False | Some b \<Rightarrow> free_chain m p b is))"

definition layout_ok :: "rt_mempool \<Rightarrow> memory \<Rightarrow> bool" where
  "layout_ok p m \<longleftrightarrow> 0 < unat (start_address p) \<and> blk p (unat (block_total_count p)) \<le> 2 ^ 32 \<and>
     mapped m (unat (start_address p)) (unat (block_total_count p) * stride p)"

definition pool_ok :: "oid \<Rightarrow> rt_mempool \<Rightarrow> memory \<Rightarrow> nat list \<Rightarrow> nat set \<Rightarrow> bool" where
  "pool_ok mp p m F U \<longleftrightarrow> layout_ok p m \<and> free_chain m p (block_list p) F \<and> distinct F \<and> set F \<inter> U = {} \<and>
     set F \<union> U = {..< unat (block_total_count p)} \<and> unat (block_free_count p) = length F \<and>
     (\<forall>i \<in> U. load32 m (blk p i) = Some (of_nat mp)) \<and> mp < 2 ^ 32"

lemma stride_ge [simp]: "4 \<le> stride p"
  by (simp add: stride_def)

lemma blk_apart: "i \<noteq> j \<Longrightarrow> blk p i + stride p \<le> blk p j \<or> blk p j + stride p \<le> blk p i"
proof -
  have *: "blk p i + stride p \<le> blk p j" if "i < j" for i j
  proof -
    have "Suc i * stride p \<le> j * stride p" using that by (intro mult_le_mono1) simp
    then show ?thesis by (simp add: blk_def)
  qed
  assume "i \<noteq> j"
  then show ?thesis using * by (meson linorder_neqE_nat)
qed

lemma blk_in:
  assumes "layout_ok p m" "i < unat (block_total_count p)"
  shows "mapped m (blk p i) (stride p)" "blk p i < 2 ^ 32" "0 < blk p i" "blk p i + stride p \<le> 2 ^ 32"
proof -
  have "Suc i * stride p \<le> unat (block_total_count p) * stride p"
    using assms(2) by (intro mult_le_mono1) simp
  then have le: "blk p i + stride p \<le> blk p (unat (block_total_count p))" by (simp add: blk_def)
  then show "blk p i + stride p \<le> 2 ^ 32" using assms(1) by (simp add: layout_ok_def)
  then show "blk p i < 2 ^ 32" using stride_ge [of p] by linarith
  show "0 < blk p i" using assms(1) by (simp add: layout_ok_def blk_def)
  show "mapped m (blk p i) (stride p)"
    by (rule mapped_part [of m "unat (start_address p)" "unat (block_total_count p) * stride p"])
      (use assms(1) le in \<open>simp_all add: layout_ok_def blk_def\<close>)
qed

lemma blk_unat:
  assumes "layout_ok p m" "i < unat (block_total_count p)"
  shows "unat (of_nat (blk p i) :: u32) = blk p i" "mapped m (blk p i) 4" "(of_nat (blk p i) :: u32) \<noteq> 0"
proof -
  show u: "unat (of_nat (blk p i) :: u32) = blk p i"
    using blk_in(2) [OF assms] by (simp add: unat_of_nat take_bit_nat_eq_self)
  show "mapped m (blk p i) 4" using mapped_part [OF blk_in(1) [OF assms]] by simp
  show "(of_nat (blk p i) :: u32) \<noteq> 0" using u blk_in(3) [OF assms] by (metis unat_0 less_numeral_extra(3))
qed

subsection \<open>Loads after a store\<close>

lemma load32_upd_same: "mapped m a 4 \<Longrightarrow> load32 (upd m a (split32 v)) a = Some v"
  by (simp add: load32_eq mapped_upd)

lemma load32_upd_other:
  assumes "b + 4 \<le> a \<or> a + length bs \<le> b"
  shows "load32 (upd m a bs) b = load32 m b"
proof -
  have "mapped (upd m a bs) b 4 = mapped m b 4"
    unfolding mapped_iff using assms upd_other [of _ a bs m] by (auto simp: dom_def)
  with bytes_upd_other [OF assms, of m] show ?thesis by (simp add: load32_eq)
qed

lemma layout_ok_upd: "mapped m a (length bs) \<Longrightarrow> layout_ok p (upd m a bs) = layout_ok p m"
  by (simp add: layout_ok_def mapped_upd)

text \<open>A store into block \<open>i\<close>, header or contents, leaves the headers of the other blocks alone.\<close>

lemma load32_other_block:
  assumes "i \<noteq> j" "blk p i \<le> a" "a + length bs \<le> blk p i + stride p"
  shows "load32 (upd m a bs) (blk p j) = load32 m (blk p j)"
  using blk_apart [OF assms(1), of p] assms(2,3) stride_ge [of p]
  by (intro load32_upd_other) linarith

lemma free_chain_upd:
  assumes "blk p i \<le> a" "a + length bs \<le> blk p i + stride p"
  shows "i \<notin> set F \<Longrightarrow> free_chain (upd m a bs) p b F = free_chain m p b F"
proof (induction F arbitrary: b)
  case (Cons j F)
  then show ?case using load32_other_block [of i j, OF _ assms] by (auto split: option.split)
qed simp

lemma free_chain_fields:
  "start_address p' = start_address p \<Longrightarrow> block_size p' = block_size p \<Longrightarrow> free_chain m p' b F = free_chain m p b F"
  by (induction F arbitrary: b) (auto simp: blk_def stride_def split: option.split)

lemma blk_fields [simp]:
  "blk (p\<lparr>block_list := b\<rparr>) = blk p" "blk (p\<lparr>block_free_count := c\<rparr>) = blk p"
  "blk (p\<lparr>suspend_thread_count := c\<rparr>) = blk p" "stride (p\<lparr>block_list := b\<rparr>) = stride p"
  "stride (p\<lparr>block_free_count := c\<rparr>) = stride p" "stride (p\<lparr>suspend_thread_count := c\<rparr>) = stride p"
  "free_chain m (p\<lparr>block_list := b\<rparr>) = free_chain m p" "free_chain m (p\<lparr>block_free_count := c\<rparr>) = free_chain m p"
  "free_chain m (p\<lparr>suspend_thread_count := c\<rparr>) = free_chain m p"
  by (auto simp: fun_eq_iff blk_def stride_def intro!: free_chain_fields)

lemma layout_fields [simp]:
  "layout_ok (p\<lparr>block_list := b\<rparr>) = layout_ok p" "layout_ok (p\<lparr>block_free_count := c\<rparr>) = layout_ok p"
  "layout_ok (p\<lparr>suspend_thread_count := c\<rparr>) = layout_ok p"
  by (simp_all add: fun_eq_iff layout_ok_def)

lemma pool_ok_count [simp]: "pool_ok mp (p\<lparr>suspend_thread_count := c\<rparr>) m F U = pool_ok mp p m F U"
  by (simp add: pool_ok_def)

text \<open>The owner of a block may write into it.\<close>

lemma pool_ok_write:
  assumes "pool_ok mp p m F U" "i \<in> U" "blk p i + 4 \<le> a" "a + length bs \<le> blk p i + stride p"
  shows "pool_ok mp p (upd m a bs) F U"
proof -
  have l: "layout_ok p m" and iU: "i \<notin> set F" and iN: "i < unat (block_total_count p)"
    using assms(1,2) by (auto simp: pool_ok_def)
  have "mapped m a (length bs)" by (rule mapped_part [OF blk_in(1) [OF l iN]]) (use assms(3,4) in auto)
  moreover have "load32 (upd m a bs) (blk p j) = load32 m (blk p j)" for j
  proof (cases "i = j")
    case False
    then show ?thesis using assms(3,4) by (intro load32_other_block) auto
  qed (use assms(3) in \<open>simp add: load32_upd_other\<close>)
  moreover have "free_chain (upd m a bs) p b F = free_chain m p b F" for b
    using assms(3,4) iU by (intro free_chain_upd) auto
  ultimately show ?thesis using assms(1) by (simp add: pool_ok_def layout_ok_upd)
qed

subsection \<open>Taking and giving back a block\<close>

lemma free_chain_null: "layout_ok p m \<Longrightarrow> set F \<subseteq> {..< unat (block_total_count p)} \<Longrightarrow> free_chain m p b F \<Longrightarrow> b = 0 \<longleftrightarrow> F = []"
  by (cases F) (auto dest: blk_unat(3))

text \<open>The pool and the state after block \<open>i\<close> was taken, \<open>b\<close> being the next free one, or given back.\<close>

definition taken_pool :: "u32 \<Rightarrow> rt_mempool \<Rightarrow> rt_mempool" where
  "taken_pool b p = p\<lparr>block_free_count := block_free_count p - 1, block_list := b\<rparr>"

definition given_pool :: "nat \<Rightarrow> rt_mempool \<Rightarrow> rt_mempool" where
  "given_pool i p = p\<lparr>block_free_count := block_free_count p + 1, block_list := of_nat (blk p i)\<rparr>"

definition with_pool :: "oid \<Rightarrow> rt_mempool \<Rightarrow> memory \<Rightarrow> mp_state \<Rightarrow> mp_state" where
  "with_pool mp p m s = set_ram m (upd_pool mp (\<lambda>_. p) s)"

lemma with_pool_sel [simp]:
  "kern (with_pool mp p m s) = kern s" "pools (with_pool mp p m s) = (pools s)(mp := p)"
  "mp_heap (with_pool mp p m s) = (mp_heap s)\<lparr>ram := m\<rparr>"
  by (simp_all add: with_pool_def set_ram_def upd_pool_def)

lemma pool_fields [simp]:
  "blk (taken_pool b p) = blk p" "blk (given_pool i p) = blk p" "stride (taken_pool b p) = stride p"
  "stride (given_pool i p) = stride p" "block_size (taken_pool b p) = block_size p"
  "block_size (given_pool i p) = block_size p"
  "block_total_count (taken_pool b p) = block_total_count p"
  "block_total_count (given_pool i p) = block_total_count p"
  "suspend_thread_count (taken_pool b p) = suspend_thread_count p"
  "suspend_thread_count (given_pool i p) = suspend_thread_count p"
  "block_free_count (given_pool i p) = block_free_count p + 1"
  by (simp_all add: taken_pool_def given_pool_def)

lemma pool_ok_take:
  assumes "pool_ok mp p m (i # F) U" "load32 m (blk p i) = Some b"
  shows "pool_ok mp (taken_pool b p) (upd m (blk p i) (split32 (of_nat mp))) F (insert i U)"
proof -
  have l: "layout_ok p m" and i: "i < unat (block_total_count p)" and iF: "i \<notin> set F"
    and c: "free_chain m p b F" and n: "unat (block_free_count p) = Suc (length F)"
    using assms by (auto simp: pool_ok_def)
  note mi = blk_unat(2) [OF l i]
  let ?m = "upd m (blk p i) (split32 (of_nat mp))"
  have "unat (block_free_count p - 1) = length F"
    using n by (subst unat_minus_one) (auto simp: unat_eq_zero)
  moreover have "free_chain ?m p b F" using c iF by (subst free_chain_upd) simp_all
  moreover have "load32 ?m (blk p j) = Some (of_nat mp)" if "j \<in> insert i U" for j
  proof (cases "j = i")
    case False
    then show ?thesis using that assms(1) load32_other_block [of i j p "blk p i" "split32 (of_nat mp)" m]
      by (simp add: pool_ok_def)
  qed (use mi in \<open>simp add: load32_upd_same\<close>)
  ultimately show ?thesis using assms(1) mi by (auto simp: pool_ok_def taken_pool_def layout_ok_upd)
qed

lemma pool_ok_give:
  assumes "pool_ok mp p m F U" "i \<in> U"
  shows "pool_ok mp (given_pool i p) (upd m (blk p i) (split32 (block_list p))) (i # F) (U - {i})"
proof -
  have l: "layout_ok p m" and i: "i < unat (block_total_count p)" and iF: "i \<notin> set F"
    and c: "free_chain m p (block_list p) F" and n: "unat (block_free_count p) = length F" "distinct F"
    and u: "set F \<union> U = {..< unat (block_total_count p)}"
    using assms by (auto simp: pool_ok_def)
  note mi = blk_unat(2) [OF l i]
  let ?m = "upd m (blk p i) (split32 (block_list p))"
  have "set (i # F) \<subseteq> {..< unat (block_total_count p)}" using i u by auto
  then have "card (set (i # F)) \<le> card {..< unat (block_total_count p)}" by (intro card_mono) auto
  then have "Suc (length F) \<le> unat (block_total_count p)" using iF n(2) distinct_card by fastforce
  then have "unat (block_free_count p) + 1 < 2 ^ 32"
    using n(1) unsigned_less [where 'a = nat and w = "block_total_count p"] by simp
  then have "unat (block_free_count p + 1) = Suc (length F)"
    using n(1) by (simp add: unat_word_ariths)
  moreover have "free_chain ?m p (block_list p) F" using c iF by (subst free_chain_upd) simp_all
  then have "free_chain ?m p (of_nat (blk p i)) (i # F)" using mi by (simp add: load32_upd_same)
  moreover have "load32 ?m (blk p j) = Some (of_nat mp)" if "j \<in> U - {i}" for j
    using that assms(1) load32_other_block [of i j p "blk p i" "split32 (block_list p)" m]
    by (auto simp: pool_ok_def)
  ultimately show ?thesis using assms mi iF n(2) u i
    unfolding pool_ok_def given_pool_def by (auto simp: layout_ok_upd)
qed

lemma mp_take_ok:
  assumes "pool_ok mp (pools s mp) (mp_ram s) (i # F) U"
  obtains b where "load32 (mp_ram s) (blk (pools s mp) i) = Some b"
    "mp_take mp s = Some (Block (of_nat (blk (pools s mp) i + 4)),
       with_pool mp (taken_pool b (pools s mp)) (upd (mp_ram s) (blk (pools s mp) i) (split32 (of_nat mp))) s)"
proof -
  let ?p = "pools s mp"
  have l: "layout_ok ?p (mp_ram s)" and i: "i < unat (block_total_count ?p)"
    and b: "block_list ?p = of_nat (blk ?p i)" using assms by (auto simp: pool_ok_def)
  note u = blk_unat [OF l i]
  obtain b where 1: "load32 (mp_ram s) (blk ?p i) = Some b"
    using u(2) by (auto simp: load32_eq)
  show thesis
    by (rule that [OF 1])
      (use u 1 b in \<open>simp add: mp_take_def upd_pool_def set_ram_def with_pool_def Let_def store32_eq taken_pool_def\<close>)
qed

text \<open>\<open>rt_mp_free\<close> on a block in use: the chain, then the waiters.\<close>

definition wake_waiter :: "oid \<Rightarrow> mp_state \<Rightarrow> mp_state option" where
  "wake_waiter mp s =
     (if suspend_thread_count (pools s mp) > 0
      then case lists (kern s) (Suspend mp) of
             [] \<Rightarrow> None
           | t # _ \<Rightarrow> Some (upd_pool mp (\<lambda>p. p\<lparr>suspend_thread_count := suspend_thread_count p - 1\<rparr>)
               (s\<lparr>kern := rt_schedule (snd (rt_thread_resume t (upd_thread t clear_error (kern s))))\<rparr>))
      else Some s)"

lemma rt_mp_free_eq:
  assumes "pool_ok mp (pools s mp) (mp_ram s) F U" "i \<in> U"
  shows "rt_mp_free (of_nat (blk (pools s mp) i + 4)) s = wake_waiter mp
    (with_pool mp (given_pool i (pools s mp)) (upd (mp_ram s) (blk (pools s mp) i) (split32 (block_list (pools s mp)))) s)"
proof -
  let ?p = "pools s mp"
  have l: "layout_ok ?p (mp_ram s)" and i: "i < unat (block_total_count ?p)"
    and w: "load32 (mp_ram s) (blk ?p i) = Some (of_nat mp)" and mp: "mp < 2 ^ 32"
    using assms by (auto simp: pool_ok_def)
  note u = blk_unat [OF l i]
  have b: "(of_nat (blk ?p i + 4) :: u32) - 4 = of_nat (blk ?p i)" by simp
  have m: "unat (of_nat mp :: u32) = mp" using mp by (simp add: unat_of_nat take_bit_nat_eq_self)
  show ?thesis
    unfolding rt_mp_free_def Let_def b u(1) w bind.bind_lunit m
    using u by (simp add: upd_pool_def set_ram_def with_pool_def store32_eq given_pool_def wake_waiter_def
        upd_clear_error split: list.split)
qed

subsection \<open>A new pool\<close>

lemma load32_cong: "(\<And>x. a \<le> x \<Longrightarrow> x < a + 4 \<Longrightarrow> m' x = m x) \<Longrightarrow> load32 m' a = load32 m a"
proof -
  assume *: "\<And>x. a \<le> x \<Longrightarrow> x < a + 4 \<Longrightarrow> m' x = m x"
  then have "mapped m' a 4 = mapped m a 4" unfolding mapped_iff dom_def by auto
  moreover have "bytes m' a 4 = bytes m a 4" using * by (intro bytes_cong) auto
  ultimately show ?thesis by (simp add: load32_eq)
qed

lemma link_blocks_ok:
  fixes a S :: nat
  assumes "4 \<le> S"
  shows "a + (i + n) * S \<le> 2 ^ 32 \<Longrightarrow> mapped m (a + i * S) (n * S) \<Longrightarrow>
    \<exists>m'. link_blocks (of_nat a) (of_nat S) (of_nat i) n m = Some m' \<and>
      (\<forall>j. i \<le> j \<and> j < i + n \<longrightarrow> load32 m' (a + j * S) = Some (of_nat (a + (j + 1) * S))) \<and>
      (\<forall>x. x < a + i * S \<or> a + (i + n) * S \<le> x \<longrightarrow> m' x = m x) \<and> dom m' = dom m"
proof (induction n arbitrary: i m)
  case (Suc n)
  have le: "a + i * S + S \<le> a + (i + Suc n) * S" by (simp add: algebra_simps)
  have w: "(of_nat a + of_nat i * of_nat S :: u32) = of_nat (a + i * S)"
    "(of_nat a + (of_nat i + 1) * of_nat S :: u32) = of_nat (a + (i + 1) * S)"
    "(of_nat i + 1 :: u32) = of_nat (Suc i)" by (simp_all add: algebra_simps)
  have u: "unat (of_nat (a + i * S) :: u32) = a + i * S"
  proof -
    have "a + i * S < 2 ^ 32" using Suc.prems(1) le assms by linarith
    then show ?thesis by (simp add: unat_of_nat take_bit_nat_eq_self del: of_nat_add of_nat_mult)
  qed
  have m4: "mapped m (a + i * S) 4" by (rule mapped_part [OF Suc.prems(2)]) (use assms in simp_all)
  let ?m = "upd m (a + i * S) (split32 (of_nat (a + (i + 1) * S)))"
  have "mapped m (a + Suc i * S) (n * S)"
    by (rule mapped_part [OF Suc.prems(2)]) (simp_all add: algebra_simps)
  then have "mapped ?m (a + Suc i * S) (n * S)" using m4 by (simp add: mapped_upd)
  moreover have "a + (Suc i + n) * S \<le> 2 ^ 32" using Suc.prems(1) by simp
  ultimately obtain m' where m': "link_blocks (of_nat a) (of_nat S) (of_nat (Suc i)) n ?m = Some m'"
    "\<forall>j. Suc i \<le> j \<and> j < Suc i + n \<longrightarrow> load32 m' (a + j * S) = Some (of_nat (a + (j + 1) * S))"
    "\<forall>x. x < a + Suc i * S \<or> a + (Suc i + n) * S \<le> x \<longrightarrow> m' x = ?m x" "dom m' = dom ?m"
    using Suc.IH [of "Suc i" ?m] by auto
  have 1: "link_blocks (of_nat a) (of_nat S) (of_nat i) (Suc n) m = Some m'"
    unfolding link_blocks.simps w(1,2) u store32_eq using m4 m'(1) unfolding w(3) by simp
  have "load32 m' (a + i * S) = load32 ?m (a + i * S)"
    using m'(3) assms by (intro load32_cong) auto
  then have 2: "load32 m' (a + i * S) = Some (of_nat (a + (i + 1) * S))"
    using load32_upd_same [OF m4] by simp
  have 3: "m' x = m x" if "x < a + i * S \<or> a + (i + Suc n) * S \<le> x" for x
  proof -
    have "m' x = ?m x" using m'(3) that le by auto
    moreover have "x < a + i * S \<or> a + i * S + length (split32 0) \<le> x"
      using that le assms length_split(2) [of 0] by linarith
    then have "?m x = m x" by (intro upd_other) simp
    ultimately show ?thesis by simp
  qed
  have 4: "dom m' = dom m" using m'(4) m4 by (simp add: dom_upd)
  have 5: "load32 m' (a + j * S) = Some (of_nat (a + (j + 1) * S))" if "i \<le> j \<and> j < i + Suc n" for j
    using that 2 m'(2) by (cases "j = i") auto
  show ?case using 1 3 4 5 by blast
qed auto

lemma free_chain_from:
  "i < n \<Longrightarrow> (\<And>j. i \<le> j \<Longrightarrow> j < n \<Longrightarrow>
     load32 m (blk p j) = Some (if Suc j = n then 0 else of_nat (blk p (Suc j)))) \<Longrightarrow>
   free_chain m p (of_nat (blk p i)) [i ..< n]"
proof (induction "n - i" arbitrary: i)
  case (Suc d)
  show ?case
  proof (cases "Suc i = n")
    case True
    then show ?thesis using Suc.prems(2) [of i] by (simp add: upt_conv_Cons)
  next
    case False
    then have "free_chain m p (of_nat (blk p (Suc i))) [Suc i ..< n]"
      using Suc.prems Suc.hyps(2) by (intro Suc.hyps(1)) auto
    then show ?thesis using Suc.prems(1) Suc.prems(2) [of i] False
      by (simp add: upt_conv_Cons del: upt.upt_Suc)
  qed
qed simp

lemma init_free_list_ok:
  assumes "layout_ok p m" "0 < unat (block_total_count p)"
  defines "n \<equiv> unat (block_total_count p)"
  obtains m' where "init_free_list (start_address p) (block_size p + 4) (block_total_count p) m = Some m'"
    "free_chain m' p (start_address p) [0 ..< n]" "dom m' = dom m"
    "\<And>x. x < unat (start_address p) \<or> blk p n \<le> x \<Longrightarrow> m' x = m x"
proof -
  let ?a = "unat (start_address p)" and ?S = "stride p"
  have w: "start_address p = of_nat ?a" "block_size p + 4 = of_nat ?S" by (simp_all add: stride_def)
  have pre: "?a + (0 + n) * ?S \<le> 2 ^ 32" "mapped m (?a + 0 * ?S) (n * ?S)"
    using assms(1) by (simp_all add: layout_ok_def blk_def n_def)
  from link_blocks_ok [OF stride_ge pre] obtain m1 where
    1: "link_blocks (start_address p) (block_size p + 4) 0 n m = Some m1"
    and ld: "\<And>j. j < n \<Longrightarrow> load32 m1 (blk p j) = Some (of_nat (blk p (Suc j)))"
    and out: "\<And>x. x < ?a \<or> blk p n \<le> x \<Longrightarrow> m1 x = m x" and dm: "dom m1 = dom m"
    unfolding w [symmetric] by (auto simp: blk_def)
  have n1: "n - 1 < unat (block_total_count p)" "Suc (n - 1) = n" using assms(2) by (simp_all add: n_def)
  have l1: "layout_ok p m1" using assms(1) dm by (simp add: layout_ok_def mapped_def)
  note b = blk_unat [OF l1 n1(1)]
  have "(of_nat ?a + (block_total_count p - 1) * of_nat ?S :: u32) = of_nat (blk p (n - 1))"
    using assms(2) by (simp add: blk_def n_def of_nat_diff)
  then have last: "unat (start_address p + (block_total_count p - 1) * (block_size p + 4)) = blk p (n - 1)"
    using b(1) by (simp add: w(2) [symmetric])
  let ?m = "upd m1 (blk p (n - 1)) (split32 0)"
  have 2: "init_free_list (start_address p) (block_size p + 4) (block_total_count p) m = Some ?m"
    unfolding init_free_list_def n_def [symmetric] 1 bind.bind_lunit last using b(2) by (simp add: store32_eq)
  have "load32 ?m (blk p j) = Some (if Suc j = n then 0 else of_nat (blk p (Suc j)))" if "j < n" for j
  proof (cases "Suc j = n")
    case True
    then have "j = n - 1" by simp
    then show ?thesis using load32_upd_same [OF b(2)] True by simp
  next
    case False
    then have "load32 ?m (blk p j) = load32 m1 (blk p j)"
      using n1(2) by (intro load32_other_block [of "n - 1"]) auto
    then show ?thesis using ld [OF that] False by simp
  qed
  then have "free_chain ?m p (of_nat (blk p 0)) [0 ..< n]"
    using assms(2) by (intro free_chain_from) (simp_all add: n_def)
  then have 3: "free_chain ?m p (start_address p) [0 ..< n]" by (simp add: blk_def)
  have 4: "?m x = m x" if "x < ?a \<or> blk p n \<le> x" for x
  proof -
    have "blk p (Suc (n - 1)) = blk p (n - 1) + stride p" by (simp add: blk_def)
    then have "blk p (n - 1) + stride p = blk p n" by (simp only: n1(2))
    then have "blk p (n - 1) + 4 \<le> blk p n" using stride_ge [of p] by linarith
    moreover have "?a \<le> blk p (n - 1)" by (simp add: blk_def)
    ultimately have "?m x = m1 x" using that by (intro upd_other) auto
    with out that show ?thesis by simp
  qed
  show thesis by (rule that [OF 2 3 _ 4]) (use dom_upd [of m1 "blk p (n - 1)" "split32 0"] b(2) dm in simp_all)
qed

end
