(* ===== verification/Mempool_Ops.thy ===== *)
theory Mempool_Ops
  imports Mempool_Chain Allocator
begin

text \<open>
  The operations on memory pools as a whole: initialisation, the pool as an allocator (the
  interpretation \<open>mpool\<close> of the contract in \<open>Allocator\<close>), and the threads that wait for a block.
\<close>

subsection \<open>Initialisation\<close>

definition fresh_pool :: "rt_mempool \<Rightarrow> rt_mempool" where
  "fresh_pool p = p\<lparr>block_free_count := block_total_count p, suspend_thread_count := 0, block_list := start_address p\<rparr>"

definition no_waiters :: "oid \<Rightarrow> mp_state \<Rightarrow> mp_state" where
  "no_waiters mp s = s\<lparr>kern := (kern s)\<lparr>lists := (lists (kern s))(Suspend mp := [])\<rparr>\<rparr>"

lemma fresh_pool_sel [simp]:
  "start_address (fresh_pool p) = start_address p" "block_size (fresh_pool p) = block_size p"
  "block_total_count (fresh_pool p) = block_total_count p" "suspend_thread_count (fresh_pool p) = 0"
  "blk (fresh_pool p) = blk p" "stride (fresh_pool p) = stride p"
  by (simp_all add: fresh_pool_def blk_def stride_def fun_eq_iff)

lemma no_waiters_sel [simp]:
  "lists (kern (no_waiters mp s)) (Suspend mp) = []" "fault (kern (no_waiters mp s)) = fault (kern s)"
  "pools (no_waiters mp s) = pools s" "mp_heap (no_waiters mp s) = mp_heap s"
  by (simp_all add: no_waiters_def)

lemma mp_setup_ok:
  assumes "layout_ok p (mp_ram s)" "0 < unat (block_total_count p)" "mp < 2 ^ 32"
  shows "\<exists>m'. mp_setup mp p s = Some (with_pool mp (fresh_pool p) m' (no_waiters mp s)) \<and>
    pool_ok mp (fresh_pool p) m' [0 ..< unat (block_total_count p)] {} \<and> dom m' = dom (mp_ram s) \<and>
    (\<forall>x. x < unat (start_address p) \<or> blk p (unat (block_total_count p)) \<le> x \<longrightarrow> m' x = mp_ram s x)"
proof -
  obtain m' where m': "init_free_list (start_address p) (block_size p + 4) (block_total_count p) (mp_ram s) = Some m'"
    "free_chain m' p (start_address p) [0 ..< unat (block_total_count p)]" "dom m' = dom (mp_ram s)"
    "\<And>x. x < unat (start_address p) \<or> blk p (unat (block_total_count p)) \<le> x \<Longrightarrow> m' x = mp_ram s x"
    using init_free_list_ok [OF assms(1,2)] by blast
  have "layout_ok p m'" using assms(1) m'(3) by (simp add: layout_ok_def mapped_def)
  with m'(2) assms(3) have "pool_ok mp (fresh_pool p) m' [0 ..< unat (block_total_count p)] {}"
    by (auto simp: pool_ok_def fresh_pool_def)
  moreover have "mp_setup mp p s = Some (with_pool mp (fresh_pool p) m' (no_waiters mp s))"
    by (simp add: mp_setup_def m'(1) Let_def with_pool_def set_ram_def upd_pool_def fresh_pool_def no_waiters_def)
  ultimately show ?thesis using m'(3,4) by blast
qed

text \<open>The number of blocks of \<open>B\<close> bytes, with a pointer each, in an area of \<open>n\<close> bytes.\<close>

definition pool_blocks :: "nat \<Rightarrow> nat \<Rightarrow> nat" where
  "pool_blocks n B = 4 * (n div 4) div (4 * ((B + 3) div 4) + 4)"

lemma pool_sizes:
  assumes "bz \<le> 0x80000000"
  shows "unat (RT_ALIGN bz 4 + 4) = unat (RT_ALIGN bz 4) + 4" "RT_ALIGN bz 4 + 4 \<noteq> 0"
    "unat (RT_ALIGN_DOWN sz 4 div (RT_ALIGN bz 4 + 4)) = pool_blocks (unat sz) (unat bz)"
    "unat (RT_ALIGN bz 4) = 4 * ((unat bz + 3) div 4)"
proof -
  have u: "unat bz \<le> 2 ^ 31" using assms by (simp add: word_le_nat_alt)
  have "bz \<le> 0xfffffffc" using u by (simp add: word_le_nat_alt)
  note a = unat_align_up [OF this]
  then show "unat (RT_ALIGN bz 4) = 4 * ((unat bz + 3) div 4)" .
  have "unat (RT_ALIGN bz 4) + 4 < 2 ^ 32" using a u by simp
  then show w: "unat (RT_ALIGN bz 4 + 4) = unat (RT_ALIGN bz 4) + 4" by (simp add: unat_word_ariths)
  then show "RT_ALIGN bz 4 + 4 \<noteq> 0" by (metis add_is_0 unat_0 zero_neq_numeral)
  show "unat (RT_ALIGN_DOWN sz 4 div (RT_ALIGN bz 4 + 4)) = pool_blocks (unat sz) (unat bz)"
    by (simp add: unat_div_distrib w a unat_align_down pool_blocks_def)
qed

lemma rt_mp_init_ok:
  fixes start sz bz :: u32
  defines "n \<equiv> pool_blocks (unat sz) (unat bz)"
  assumes "mapped (mp_ram s) (unat start) (unat sz)" "0 < unat start" "unat start + unat sz \<le> 2 ^ 32"
    and "bz \<le> 0x80000000" "0 < n" "mp < 2 ^ 32"
  obtains p m' k where "rt_mp_init mp name start sz bz s = Some (RT_EOK, with_pool mp p m' (s\<lparr>kern := k\<rparr>))"
    "pool_ok mp p m' [0 ..< n] {}" "unat (block_total_count p) = n" "start_address p = start"
    "unat (block_size p) = 4 * ((unat bz + 3) div 4)" "suspend_thread_count p = 0"
    "lists k (Suspend mp) = []" "fault k = fault (kern s)"
    "\<And>x. x < unat start \<or> unat start + unat sz \<le> x \<Longrightarrow> m' x = mp_ram s x"
proof -
  let ?b = "RT_ALIGN bz 4" and ?z = "RT_ALIGN_DOWN sz 4"
  let ?s = "s\<lparr>kern := rt_object_init (Ipc_obj mp) RT_Object_Class_MemPool name (kern s)\<rparr>"
  let ?p = "(pools s mp)\<lparr>start_address := start, mp_size := ?z, block_size := ?b, block_total_count := ?z div (?b + 4)\<rparr>"
  note sz = pool_sizes [OF assms(5)]
  have n: "unat (block_total_count ?p) = n" using sz(3) by (simp add: n_def)
  have st: "stride ?p = unat ?b + 4" by (simp add: stride_def)
  have "n * (unat ?b + 4) \<le> 4 * (unat sz div 4)"
    unfolding n_def pool_blocks_def sz(4) by (rule div_times_less_eq_dividend)
  then have le: "n * (unat ?b + 4) \<le> unat sz" by (rule order_trans) simp
  have "mapped (mp_ram s) (unat start) (n * (unat ?b + 4))"
    by (rule mapped_part [OF assms(2)]) (use le in simp_all)
  then have lay: "layout_ok ?p (mp_ram ?s)"
    using le assms(3,4) n st by (simp add: layout_ok_def blk_def)
  have n0: "0 < unat (block_total_count ?p)" using n assms(6) by simp
  from mp_setup_ok [OF lay n0 assms(7)] obtain m' where
    1: "mp_setup mp ?p ?s = Some (with_pool mp (fresh_pool ?p) m' (no_waiters mp ?s))"
    and 2: "pool_ok mp (fresh_pool ?p) m' [0 ..< unat (block_total_count ?p)] {}"
    and 3: "\<forall>x. x < unat (start_address ?p) \<or> blk ?p (unat (block_total_count ?p)) \<le> x \<longrightarrow> m' x = mp_ram ?s x"
    by (elim exE conjE)
  let ?k = "kern (no_waiters mp ?s)"
  have 4: "rt_mp_init mp name start sz bz s = Some (RT_EOK, with_pool mp (fresh_pool ?p) m' (s\<lparr>kern := ?k\<rparr>))"
    using sz(2) 1 by (simp add: rt_mp_init_def Let_def no_waiters_def)
  have b: "blk ?p n = unat start + n * (unat ?b + 4)" by (simp add: blk_def stride_def)
  have 5: "m' x = mp_ram s x" if "x < unat start \<or> unat start + unat sz \<le> x" for x
    using 3 that le unfolding n b by auto
  show thesis
    by (rule that [OF 4]) (use 2 5 sz(4) n in \<open>simp_all add: n_def kobj_defs rt_object_get_information_def rt_object_container_def obj_link_def Let_def\<close>)
qed

subsection \<open>The pool as an allocator\<close>

definition mp_get :: "oid \<Rightarrow> u32 \<Rightarrow> mp_state \<Rightarrow> (nat \<times> mp_state) option" where
  "mp_get mp sz s = do {
     (r, s) \<leftarrow> rt_mp_alloc mp 0 s;
     case r of Block b \<Rightarrow> Some (unat b, s) | Mp_waiting t \<Rightarrow> None
   }"

definition mp_put :: "nat \<Rightarrow> mp_state \<Rightarrow> mp_state option" where
  "mp_put a s = rt_mp_free (of_nat a) s"

definition user_blocks :: "rt_mempool \<Rightarrow> nat set \<Rightarrow> (nat \<times> nat) set" where
  "user_blocks p U = (\<lambda>i. (blk p i + 4, unat (block_size p))) ` U"

text \<open>The pool has the layout of \<open>q\<close>, nobody waits, and the blocks of \<open>A\<close> are in use.\<close>

definition mp_view :: "oid \<Rightarrow> rt_mempool \<Rightarrow> mp_state \<Rightarrow> (nat \<times> nat) set \<Rightarrow> bool" where
  "mp_view mp q s A \<longleftrightarrow> (\<exists>F U. pool_ok mp (pools s mp) (mp_ram s) F U \<and> A = user_blocks (pools s mp) U) \<and>
     suspend_thread_count (pools s mp) = 0 \<and> 0 < unat (block_size q) \<and> start_address (pools s mp) = start_address q \<and>
     block_size (pools s mp) = block_size q \<and> block_total_count (pools s mp) = block_total_count q"

lemma user_blocks_pool [simp]:
  "user_blocks (taken_pool b p) = user_blocks p" "user_blocks (given_pool i p) = user_blocks p"
  "start_address (taken_pool b p) = start_address p" "start_address (given_pool i p) = start_address p"
  by (simp_all add: user_blocks_def fun_eq_iff taken_pool_def given_pool_def)

lemma blk_inj: "blk p i = blk p j \<longleftrightarrow> i = j"
  using blk_apart [of i j p] stride_ge [of p] by (cases "i = j") (auto simp del: stride_ge)

lemma mp_empty_free: "pool_ok mp p m F U \<Longrightarrow> block_free_count p = 0 \<longleftrightarrow> F = []"
  by (auto simp: pool_ok_def unat_eq_zero simp flip: length_0_conv)

lemma mp_get_ok:
  fixes q :: rt_mempool
  defines "bs \<equiv> unat (block_size q)"
  assumes "mp_view mp q s A"
  shows "\<exists>p s'. mp_get mp n s = Some (p, s') \<and> (p = 0 \<and> mp_view mp q s' A \<or>
    p \<noteq> 0 \<and> (\<exists>k. bs \<le> k \<and> fresh A p k \<and> mp_view mp q s' (insert (p, k) A)))"
proof -
  let ?p = "pools s mp"
  obtain F U where ok: "pool_ok mp ?p (mp_ram s) F U" and A: "A = user_blocks ?p U"
    and bs: "suspend_thread_count ?p = 0" "unat (block_size ?p) = bs" "0 < bs"
    "start_address ?p = start_address q" "block_size ?p = block_size q" "block_total_count ?p = block_total_count q"
    using assms by (auto simp: mp_view_def)
  show ?thesis
  proof (cases F)
    case Nil
    then have "rt_mp_alloc mp 0 s = Some (Block 0, s)"
      using mp_empty_free [OF ok] by (simp add: rt_mp_alloc_def mp_alloc_loop_def)
    then show ?thesis using assms(2) by (simp add: mp_get_def)
  next
    case (Cons i F')
    note ok' = ok [unfolded Cons]
    have i: "i < unat (block_total_count ?p)" "i \<notin> U" and l: "layout_ok ?p (mp_ram s)"
      using ok' by (auto simp: pool_ok_def)
    have lt: "blk ?p i + 4 < 2 ^ 32" using blk_in(4) [OF l i(1)] bs(2,3) by (simp add: stride_def)
    then have u: "unat (of_nat (blk ?p i + 4) :: u32) = blk ?p i + 4"
      by (simp add: unat_of_nat take_bit_nat_eq_self del: of_nat_add)
    obtain b where b: "load32 (mp_ram s) (blk ?p i) = Some b"
      "mp_take mp s = Some (Block (of_nat (blk ?p i + 4)),
         with_pool mp (taken_pool b ?p) (upd (mp_ram s) (blk ?p i) (split32 (of_nat mp))) s)"
      by (rule mp_take_ok [OF ok'])
    let ?s = "with_pool mp (taken_pool b ?p) (upd (mp_ram s) (blk ?p i) (split32 (of_nat mp))) s"
    have "rt_mp_alloc mp 0 s = Some (Block (of_nat (blk ?p i + 4)), ?s)"
      using mp_empty_free [OF ok'] b(2) by (simp add: rt_mp_alloc_def mp_alloc_loop_def)
    then have 1: "mp_get mp n s = Some (blk ?p i + 4, ?s)" unfolding mp_get_def by (simp only: bind.bind_lunit
      prod.case mp_outcome.case u)
    have "user_blocks ?p (insert i U) = insert (blk ?p i + 4, bs) A"
      by (simp add: user_blocks_def A bs(2))
    then have 2: "mp_view mp q ?s (insert (blk ?p i + 4, bs) A)"
      using pool_ok_take [OF ok' b(1)] bs unfolding mp_view_def
      by (intro conjI exI [of _ F'] exI [of _ "insert i U"]) simp_all
    have 3: "fresh A (blk ?p i + 4) bs"
      unfolding fresh_def A user_blocks_def
    proof (clarsimp)
      fix j assume "j \<in> U" "\<not> blk ?p j + unat (block_size ?p) \<le> blk ?p i"
      then show "blk ?p i + bs \<le> blk ?p j"
        using blk_apart [of i j ?p] i(2) bs(2) by (cases "i = j") (auto simp: stride_def)
    qed
    show ?thesis by (rule exI [of _ "blk ?p i + 4"], rule exI [of _ ?s]) (use 1 2 3 in auto)
  qed
qed

lemma mp_put_ok:
  fixes q :: rt_mempool
  defines "bs \<equiv> unat (block_size q)"
  assumes "mp_view mp q s A" "(p, k) \<in> A"
  shows "\<exists>s'. mp_put p s = Some s' \<and> mp_view mp q s' (A - {(p, k)})"
proof -
  let ?p = "pools s mp"
  obtain F U where ok: "pool_ok mp ?p (mp_ram s) F U" and A: "A = user_blocks ?p U"
    and bs: "suspend_thread_count ?p = 0" "unat (block_size ?p) = bs" "0 < bs"
    "start_address ?p = start_address q" "block_size ?p = block_size q" "block_total_count ?p = block_total_count q"
    using assms(1,2) by (auto simp: mp_view_def)
  obtain i where i: "i \<in> U" "p = blk ?p i + 4" "k = bs" using assms(3) A bs(2) by (auto simp: user_blocks_def)
  let ?s = "with_pool mp (given_pool i ?p) (upd (mp_ram s) (blk ?p i) (split32 (block_list ?p))) s"
  have "mp_put p s = Some ?s"
    unfolding mp_put_def i(2) rt_mp_free_eq [OF ok i(1)] by (simp add: wake_waiter_def bs(1))
  moreover have "user_blocks ?p (U - {i}) = A - {(p, k)}"
    unfolding A i(2,3) by (auto simp: user_blocks_def blk_inj bs(2))
  then have "mp_view mp q ?s (A - {(p, k)})"
    using pool_ok_give [OF ok i(1)] bs unfolding mp_view_def
    by (intro conjI exI [of _ "i # F"] exI [of _ "U - {i}"]) simp_all
  ultimately show ?thesis by blast
qed

lemma mp_view_apart:
  assumes "mp_view mp q s A"
  shows "apart A"
proof -
  have "(a, n) = (b, m) \<or> a + n \<le> b \<or> b + m \<le> a" if in_A: "(a, n) \<in> A" "(b, m) \<in> A" for a n b m
  proof -
    from in_A obtain i j where "a = blk (pools s mp) i + 4" "b = blk (pools s mp) j + 4" "n = unat (block_size q)" "m = unat (block_size q)"
      and bs: "block_size (pools s mp) = block_size q"
      using assms by (auto simp: mp_view_def user_blocks_def)
    with blk_apart [of i j "pools s mp"] show ?thesis by (cases "i = j") (auto simp: stride_def)
  qed
  then show ?thesis unfolding apart_def by auto
qed

lemma mp_view_pos: "mp_view mp q s A \<Longrightarrow> (p, k) \<in> A \<Longrightarrow> 0 < k"
  by (auto simp: mp_view_def user_blocks_def)

interpretation mpool: allocator "mp_view mp q" "mp_get mp" mp_put "\<lambda>_. unat (block_size q)" for mp q
  by unfold_locales (rule mp_get_ok mp_put_ok mp_view_apart mp_view_pos; assumption)+

lemma mp_view_held:
  assumes "mp_view mp q s A" "fst ` A = set held" "distinct held"
  shows "length held \<le> unat (block_total_count q)"
    "\<And>a. a \<in> set held \<Longrightarrow> \<exists>i < unat (block_total_count q). a = blk q i + 4"
proof -
  obtain F U where ok: "pool_ok mp (pools s mp) (mp_ram s) F U" and A: "A = user_blocks (pools s mp) U"
    and eq: "start_address (pools s mp) = start_address q" "block_size (pools s mp) = block_size q"
      "block_total_count (pools s mp) = block_total_count q"
    using assms(1) by (auto simp: mp_view_def)
  have "blk (pools s mp) = blk q" by (simp add: blk_def stride_def eq fun_eq_iff)
  then have held: "set held = (\<lambda>i. blk q i + 4) ` U"
    unfolding assms(2) [symmetric] A user_blocks_def by force
  have U: "U \<subseteq> {..< unat (block_total_count q)}" using ok eq(3) by (auto simp: pool_ok_def)
  then show "\<And>a. a \<in> set held \<Longrightarrow> \<exists>i < unat (block_total_count q). a = blk q i + 4"
    unfolding held by auto
  have "card (set held) \<le> card U" unfolding held by (meson U card_image_le finite_lessThan finite_subset)
  also have "\<dots> \<le> card {..< unat (block_total_count q)}" using U by (intro card_mono) auto
  finally show "length held \<le> unat (block_total_count q)" using assms(3) by (simp add: distinct_card)
qed

subsection \<open>Waiting for a block\<close>

lemma push_state:
  fixes mp :: oid
  assumes ok: "kernel_ok k" and r: "stat_of (threads k t) = RT_THREAD_READY"
  defines "k' \<equiv> tlist_insert_after (Suspend mp) t
     (defined_if (fst (rt_thread_suspend t k) = RT_EOK) (snd (rt_thread_suspend t k)))"
  shows "kernel_ok k'" "fault k' = fault k"
    "threads k' = (threads k)(t := set_stat RT_THREAD_SUSPEND (threads k t))"
    "lists k' (Suspend mp) = t # lists k (Suspend mp)"
proof -
  let ?s = "snd (rt_thread_suspend t k)" and ?l = "Suspend mp"
  note st = rt_thread_suspend_lists [OF r]
  have tl: "t \<notin> set (lists k ?l)" using waiting_suspended [OF ok, of t ?l] r by auto
  have eq: "k' = ?s\<lparr>lists := (lists ?s)(?l := t # lists k ?l)\<rparr>"
    using st tl by (simp add: k'_def tlist_insert_after_def)
  show th: "threads k' = (threads k)(t := set_stat RT_THREAD_SUSPEND (threads k t))"
    using st by (simp add: eq)
  show "lists k' ?l = t # lists k ?l" "fault k' = fault k" by (simp_all add: eq)
  have xs: "set (t # lists k ?l) = insert t (set (lists ?s ?l))" "distinct (t # lists k ?l)"
    using st tl kernel_ok_distinct [OF ok, of ?l] by auto
  have ok': "kernel_ok ?s" using ok by simp
  have "sched_ok (threads ?s) ((lists ?s)(?l := t # lists k ?l)) (prio_group ?s)"
    using ok' suspended_free [OF ok r] xs by (auto simp: kernel_ok_def kinv_def intro!: sched_ok_enqueue)
  moreover have "wait_ok (threads ?s) ((lists ?s)(?l := t # lists k ?l))"
    using ok' xs st by (auto simp: kernel_ok_def wait_ok_def)
  ultimately show "kernel_ok k'" by (simp add: kernel_ok_def kinv_def eq)
qed

text \<open>The count of waiting threads is right.\<close>

definition waiters_ok :: "oid \<Rightarrow> mp_state \<Rightarrow> bool" where
  "waiters_ok mp s \<longleftrightarrow> kernel_ok (kern s) \<and>
     unat (suspend_thread_count (pools s mp)) = length (lists (kern s) (Suspend mp))"

lemma mp_alloc_waits:
  fixes time :: int
  assumes "waiters_ok mp s" "running t (kern s)" "block_free_count (pools s mp) = 0" "time \<noteq> 0"
    and "length (lists (kern s) (Suspend mp)) + 1 < 2 ^ 32"
  obtains s1 where "rt_mp_alloc mp time s = Some (Mp_waiting t, s1)" "waiters_ok mp s1"
    "stat_of (threads (kern s1) t) = RT_THREAD_SUSPEND" "th_error (threads (kern s1) t) = RT_EOK"
    "lists (kern s1) (Suspend mp) = t # lists (kern s) (Suspend mp)"
    "mp_heap s1 = mp_heap s"
    "pools s1 = (pools s)(mp := (pools s mp)\<lparr>suspend_thread_count := suspend_thread_count (pools s mp) + 1\<rparr>)"
proof -
  let ?k = "kern s" and ?p = "pools s mp"
  have r: "current ?k = Some t" "stat_of (threads ?k t) = RT_THREAD_READY" "int_nest ?k = 0"
    using assms(2) by (simp_all add: running_def)
  have ok: "kernel_ok ?k" and n: "unat (suspend_thread_count ?p) = length (lists ?k (Suspend mp))"
    using assms(1) by (simp_all add: waiters_ok_def)
  let ?u = "upd_thread t clear_error ?k"
  have ok': "kernel_ok ?u" using ok by (rule kernel_ok_upd_frame) simp_all
  have r': "stat_of (threads ?u t) = RT_THREAD_READY" using r(2) by simp
  note st = push_state [OF ok' r', where mp = mp]
  let ?k' = "tlist_insert_after (Suspend mp) t
     (defined_if (fst (rt_thread_suspend t ?u) = RT_EOK) (snd (rt_thread_suspend t ?u)))"
  let ?s1 = "(upd_pool mp (\<lambda>p. p\<lparr>suspend_thread_count := suspend_thread_count p + 1\<rparr>) s)
      \<lparr>kern := rt_schedule (start_wait_timer t time ?k')\<rparr>"
  have 1: "rt_mp_alloc mp time s = Some (Mp_waiting t, ?s1)"
    using assms(3,4) r
    by (simp add: rt_mp_alloc_def mp_alloc_loop_def rt_thread_self_def debug_not_in_interrupt_def Let_def
        case_prod_beta upd_clear_error)
  have k: "threads (kern ?s1) = threads ?k'" "lists (kern ?s1) = lists ?k'"
    "kernel_ok (kern ?s1)"
    using st(1) by (simp_all add: start_wait_timer_def)
  have "unat (suspend_thread_count ?p + 1) = length (lists ?k (Suspend mp)) + 1"
    using n assms(5) by (simp add: unat_word_ariths)
  then have 2: "waiters_ok mp ?s1" using k(2,3) st(4) by (simp add: waiters_ok_def upd_pool_def)
  show thesis
    by (rule that [OF 1 2]) (use k(1,2) st(2-4) in \<open>simp_all add: upd_pool_def\<close>)
qed

lemma wake_waiter_ok:
  assumes "waiters_ok mp s" "lists (kern s) (Suspend mp) = t # ts"
  obtains s2 where "wake_waiter mp s = Some s2" "waiters_ok mp s2"
    "stat_of (threads (kern s2) t) = RT_THREAD_READY" "th_error (threads (kern s2) t) = RT_EOK"
    "lists (kern s2) (Suspend mp) = ts" "mp_heap s2 = mp_heap s"
    "pools s2 = (pools s)(mp := (pools s mp)\<lparr>suspend_thread_count := suspend_thread_count (pools s mp) - 1\<rparr>)"
proof -
  let ?k = "upd_thread t clear_error (kern s)"
  have ok: "kernel_ok (kern s)" and n: "unat (suspend_thread_count (pools s mp)) = Suc (length ts)"
    using assms by (simp_all add: waiters_ok_def)
  have ok': "kernel_ok ?k" using ok by (rule kernel_ok_upd_frame) simp_all
  have l: "lists ?k (Suspend mp) = t # ts" using assms(2) by simp
  note st = resume_waiter [OF ok' l]
  have "suspend_thread_count (pools s mp) \<noteq> 0" using n by auto
  then have pos: "suspend_thread_count (pools s mp) > 0" by (simp add: word_gt_0)
  let ?s2 = "upd_pool mp (\<lambda>p. p\<lparr>suspend_thread_count := suspend_thread_count p - 1\<rparr>)
               (s\<lparr>kern := rt_schedule (snd (rt_thread_resume t ?k))\<rparr>)"
  have 1: "wake_waiter mp s = Some ?s2" using pos assms(2) by (simp add: wake_waiter_def)
  have "unat (suspend_thread_count (pools s mp) - 1) = length ts"
    using n pos by (simp add: unat_minus_one word_gt_0)
  moreover have "lists (snd (rt_thread_resume t ?k)) (Suspend mp) = ts" using st(3) by simp
  ultimately have 2: "waiters_ok mp ?s2" using ok' by (simp add: waiters_ok_def upd_pool_def)
  show thesis
    by (rule that [OF 1 2]) (use st ok' in \<open>simp_all add: upd_pool_def\<close>)
qed

subsection \<open>Pools on the heap\<close>

lemma upd_pool_sel: "mp_heap (upd_pool mp f s) = mp_heap s" "kern (upd_pool mp f s) = kern s"
  by (simp_all add: upd_pool_def)

lemma mp_create_ok:
  fixes count bz :: u32
  defines "B \<equiv> 4 * ((unat bz + 3) div 4)"
  assumes v: "heap_view (mp_heap s) A" and c: "0 < unat count" "bz \<le> 0x80000000"
    and fits: "(B + 4) * unat count \<le> 0xfffffffc" and mp: "mp < 2 ^ 32"
  obtains (refused) s' where "rt_mp_create (Some mp) name count bz s = Some (None, s')" "mp_heap s' = mp_heap s"
  | (pool) s' k where "rt_mp_create (Some mp) name count bz s = Some (Some mp, s')"
    "pool_ok mp (pools s' mp) (mp_ram s') [0 ..< unat count] {}" "stride (pools s' mp) = B + 4"
    "heap_view (mp_heap s') (insert (unat (start_address (pools s' mp)), k) A)" "unat count * (B + 4) \<le> k"
    "fresh A (unat (start_address (pools s' mp))) k" "kept A (mp_heap s) (mp_heap s')"
    "kernel_ok (kern s) \<Longrightarrow> lists (kern s) (Suspend mp) = [] \<Longrightarrow> waiters_ok mp s'"
proof -
  let ?b = "RT_ALIGN bz 4" and ?c = "(RT_ALIGN bz 4 + 4) * count"
  let ?k = "snd (rt_object_allocate (Some (Ipc_obj mp)) RT_Object_Class_MemPool name (debug_not_in_interrupt (kern s)))"
  let ?s0 = "upd_pool mp (\<lambda>p. p\<lparr>block_size := ?b, mp_size := ?c\<rparr>) (s\<lparr>kern := ?k\<rparr>)"
  have al: "fst (rt_object_allocate (Some (Ipc_obj mp)) RT_Object_Class_MemPool name k) = Some (Ipc_obj mp)" for k
    by (simp add: rt_object_allocate_def Let_def)
  note sz = pool_sizes [OF c(2)]
  have uc: "unat ?c = (B + 4) * unat count"
    using fits sz(1,4) by (simp add: unat_word_ariths B_def)
  have nz: "?c \<noteq> 0" using uc c(1) by auto
  have v0: "heap_view (mp_heap ?s0) A" using v by (simp add: upd_pool_def)
  have eq: "rt_mp_create (Some mp) name count bz s = do {
      (a, h) \<leftarrow> rt_malloc ?c (mp_heap s);
      let s = upd_pool mp (\<lambda>p. p\<lparr>start_address := of_nat a\<rparr>) (?s0\<lparr>mp_heap := h\<rparr>);
      if a = RT_NULL then Some (None, s\<lparr>kern := rt_object_delete (Ipc_obj mp) (kern s)\<rparr>)
      else do {
        s \<leftarrow> mp_setup mp ((pools s mp)\<lparr>block_total_count := count\<rparr>) s;
        Some (Some mp, s)
      } }"
    by (simp add: rt_mp_create_def Let_def case_prod_beta al upd_pool_sel)
  from v nz show ?thesis
  proof (cases rule: malloc_view)
    case null
    let ?s1 = "upd_pool mp (\<lambda>p. p\<lparr>start_address := of_nat 0\<rparr>) (?s0\<lparr>mp_heap := mp_heap s\<rparr>)"
    have "rt_mp_create (Some mp) name count bz s =
        Some (None, ?s1\<lparr>kern := rt_object_delete (Ipc_obj mp) (kern ?s1)\<rparr>)"
      unfolding eq null by (simp only: bind.bind_lunit prod.case Let_def refl if_True)
    then show ?thesis by (rule refused) (simp add: upd_pool_sel)
  next
    case (block a k h)
    let ?s1 = "upd_pool mp (\<lambda>p. p\<lparr>start_address := of_nat a\<rparr>) (?s0\<lparr>mp_heap := h\<rparr>)"
    let ?p = "(pools ?s1 mp)\<lparr>block_total_count := count\<rparr>"
    note vb = view_block [OF block(4), of a k, simplified]
    have le: "?c \<le> 0xfffffffc" using uc fits by (simp add: word_le_nat_alt)
    have ck: "(B + 4) * unat count \<le> k" using malloc_size_ge [OF le] block(3) uc by simp
    have ua: "unat (of_nat a :: u32) = a" using vb by (simp add: unat_of_nat take_bit_nat_eq_self)
    have p: "unat (start_address ?p) = a" "stride ?p = B + 4" "block_total_count ?p = count"
      using ua sz(4) by (simp_all add: upd_pool_def stride_def B_def)
    have m: "mapped (mp_ram ?s1) a (unat count * (B + 4))"
      using mapped_part [OF vb(1), of a "unat count * (B + 4)"] ck by (simp add: upd_pool_def mult.commute)
    have lay: "layout_ok ?p (mp_ram ?s1)"
      unfolding layout_ok_def blk_def p using m vb ck by (simp add: mult.commute)
    have n0: "0 < unat (block_total_count ?p)" using c(1) by (simp only: p)
    from mp_setup_ok [OF lay n0 mp] obtain m' where
      1: "mp_setup mp ?p ?s1 = Some (with_pool mp (fresh_pool ?p) m' (no_waiters mp ?s1))"
      and 2: "pool_ok mp (fresh_pool ?p) m' [0 ..< unat (block_total_count ?p)] {}"
      and 3: "dom m' = dom (mp_ram ?s1)"
      and 4: "\<forall>x. x < unat (start_address ?p) \<or> blk ?p (unat (block_total_count ?p)) \<le> x \<longrightarrow> m' x = mp_ram ?s1 x"
      by (elim exE conjE)
    let ?s' = "with_pool mp (fresh_pool ?p) m' (no_waiters mp ?s1)"
    have 5: "rt_mp_create (Some mp) name count bz s = Some (Some mp, ?s')"
      unfolding eq block(1) bind.bind_lunit prod.case Let_def using block(2) 1 by simp
    have h1: "mp_heap ?s1 = h" by (simp add: upd_pool_def)
    have ch: "changes {a ..< a + k} (ram h) m'"
      unfolding changes_def
    proof (intro conjI allI impI)
      show "dom m' = dom (ram h)" using 3 h1 by simp
      fix x assume "x \<notin> {a ..< a + k}"
      then have "x < a \<or> a + unat count * (B + 4) \<le> x" using ck by (auto simp: mult.commute)
      then show "m' x = ram h x" using 4 h1 unfolding blk_def p by auto
    qed
    have h': "mp_heap ?s' = h\<lparr>ram := m'\<rparr>" using h1 by simp
    have 6: "heap_view (mp_heap ?s') (insert (a, k) A)"
      unfolding h' by (rule view_write [OF block(4) _ ch]) simp
    have "kept A h (mp_heap ?s')"
      unfolding kept_def same_area_def h'
    proof (intro conjI ballI)
      fix b assume b: "b \<in> A"
      obtain t i where ti: "b = (t, i)" by (cases b)
      have "{a ..< a + k} \<inter> {t ..< t + i} = {}" using block(5) b ti by (auto simp: fresh_def)
      from changes_bytes [OF ch this]
      show "case b of (t, i) \<Rightarrow> bytes (ram (h\<lparr>ram := m'\<rparr>)) t i = bytes (ram h) t i" by (simp add: ti)
    qed (use ch in \<open>simp_all add: changes_def\<close>)
    then have 7: "kept A (mp_heap s) (mp_heap ?s')" by (rule kept_trans [OF block(6)]) simp_all
    have sa: "unat (start_address (pools ?s' mp)) = a" using p(1) by simp
    have 8: "waiters_ok mp ?s'" if k: "kernel_ok (kern s)" "lists (kern s) (Suspend mp) = []"
    proof -
      have k1: "kern ?s1 = ?k" by (simp add: upd_pool_sel)
      have l: "lists (debug_not_in_interrupt (kern s)) (Suspend mp) = []"
        using k(2) by (simp add: debug_not_in_interrupt_def)
      have "kernel_ok ?k" using k(1) by (simp add: debug_not_in_interrupt_def)
      then have "kernel_ok (kern (no_waiters mp ?s1))"
        by (subst kernel_ok_cong [where k = ?k]) (simp_all add: no_waiters_def k1 l fun_upd_idem)
      then show ?thesis by (simp add: waiters_ok_def)
    qed
    show ?thesis
      by (rule pool [OF 5, of k]) (use 2 6 7 8 sa block(5) ck p in \<open>simp_all add: mult.commute stride_def\<close>)
  qed
qed

text \<open>Deleting or detaching a pool wakes every waiting thread with \<^verbatim>\<open>-RT_ERROR\<close>.\<close>

lemma mp_resume_loop_ok:
  "kernel_ok k \<Longrightarrow> lists k (Suspend mp) = ts \<Longrightarrow>
     \<exists>k'. resume_all_loop (length ts) (Suspend mp) k = Some k' \<and>
       mp_resume_loop (length ts) mp k n = Some (k', n - of_nat (length ts))"
proof (induction ts arbitrary: k n)
  case Nil
  then show ?case by (simp add: mp_resume_loop.simps [of 0] resume_all_loop.simps [of 0])
next
  case (Cons t ts)
  have w: "wait_list (Suspend mp)" by simp
  note st = resume_with_error_state [OF Cons.prems w]
  have "lists (resume_with_error t k) (Suspend mp) = ts" using st(4) by simp
  with Cons.IH [of "resume_with_error t k" "n - 1"] st(1) Cons.prems(2) show ?case
    by (simp add: mp_resume_loop.simps [of "Suc _"] resume_all_loop.simps [of "Suc _"] algebra_simps)
qed

lemma mp_resume_all_ok:
  assumes "waiters_ok mp s"
  obtains s' where "mp_resume_all mp s = Some s'" "waiters_ok mp s'" "lists (kern s') (Suspend mp) = []"
    "threads (kern s') = (\<lambda>t. if t \<in> set (lists (kern s) (Suspend mp)) then resumed (threads (kern s) t)
       else threads (kern s) t)" "mp_heap s' = mp_heap s"
    "pools s' = (pools s)(mp := (pools s mp)\<lparr>suspend_thread_count := 0\<rparr>)"
proof -
  let ?l = "lists (kern s) (Suspend mp)"
  have ok: "kernel_ok (kern s)" and n: "unat (suspend_thread_count (pools s mp)) = length ?l"
    using assms by (simp_all add: waiters_ok_def)
  have c: "suspend_thread_count (pools s mp) = of_nat (length ?l)" by (simp flip: n)
  have w: "wait_list (Suspend mp)" by simp
  note st = resume_all_state [OF ok w]
  obtain k where k: "resume_all_loop (length ?l) (Suspend mp) (kern s) = Some k"
    "rt_ipc_list_resume_all (Suspend mp) (kern s) = k"
    "mp_resume_loop (length ?l) mp (kern s) (suspend_thread_count (pools s mp)) = Some (k, 0)"
    using mp_resume_loop_ok [OF ok refl, of mp "suspend_thread_count (pools s mp)"] c
    by (auto simp: rt_ipc_list_resume_all_def)
  let ?s' = "upd_pool mp (\<lambda>p. p\<lparr>suspend_thread_count := 0\<rparr>) (s\<lparr>kern := k\<rparr>)"
  have 1: "mp_resume_all mp s = Some ?s'"
    by (simp add: mp_resume_all_def k(3))
  have l: "lists k (Suspend mp) = []" "kernel_ok k"
    "threads k = (\<lambda>t. if t \<in> set ?l then resumed (threads (kern s) t) else threads (kern s) t)"
    using st k(2) by (simp_all add: resume_lists_def)
  then have 2: "waiters_ok mp ?s'" by (simp add: waiters_ok_def upd_pool_def)
  show thesis by (rule that [OF 1 2]) (use l in \<open>simp_all add: upd_pool_def\<close>)
qed

lemma mp_detach_ok:
  assumes "waiters_ok mp s"
  shows "\<exists>s'. rt_mp_detach mp s = Some (RT_EOK, s') \<and> waiters_ok mp s' \<and> lists (kern s') (Suspend mp) = [] \<and>
    (\<forall>t \<in> set (lists (kern s) (Suspend mp)). threads (kern s') t = resumed (threads (kern s) t))"
proof -
  obtain s1 where 1: "mp_resume_all mp s = Some s1" "waiters_ok mp s1" "lists (kern s1) (Suspend mp) = []"
    "threads (kern s1) = (\<lambda>t. if t \<in> set (lists (kern s) (Suspend mp)) then resumed (threads (kern s) t)
       else threads (kern s) t)"
    by (rule mp_resume_all_ok [OF assms])
  then show ?thesis by (simp add: rt_mp_detach_def waiters_ok_def)
qed

lemma mp_delete_ok:
  assumes "waiters_ok mp s" "heap_view (mp_heap s) A" "(unat (start_address (pools s mp)), k) \<in> A"
  shows "\<exists>s'. rt_mp_delete mp s = Some (RT_EOK, s') \<and>
    heap_view (mp_heap s') (A - {(unat (start_address (pools s mp)), k)}) \<and> lists (kern s') (Suspend mp) = [] \<and>
    (\<forall>t \<in> set (lists (kern s) (Suspend mp)). threads (kern s') t = resumed (threads (kern s) t))"
proof -
  let ?s = "s\<lparr>kern := debug_not_in_interrupt (kern s)\<rparr>"
  have "waiters_ok mp ?s" using assms(1) by (simp add: waiters_ok_def debug_not_in_interrupt_def)
  then obtain s1 where 1: "mp_resume_all mp ?s = Some s1" "lists (kern s1) (Suspend mp) = []"
    "threads (kern s1) = (\<lambda>t. if t \<in> set (lists (kern ?s) (Suspend mp)) then resumed (threads (kern ?s) t)
       else threads (kern ?s) t)" "mp_heap s1 = mp_heap ?s"
    "pools s1 = (pools ?s)(mp := (pools ?s mp)\<lparr>suspend_thread_count := 0\<rparr>)"
    by (rule mp_resume_all_ok)
  obtain h where 2: "rt_free (unat (start_address (pools s mp))) (mp_heap s) = Some h"
    "heap_view h (A - {(unat (start_address (pools s mp)), k)})"
    by (rule free_view [OF assms(2,3)])
  show ?thesis using 1 2 by (simp add: rt_mp_delete_def debug_not_in_interrupt_def)
qed

end
