(* ===== verification/Mempool_Properties.thy ===== *)
theory Mempool_Properties
  imports Mempool_Ops Kernel_Demo Memory_Properties
begin

text \<open>
  The properties of memory pools: a pool serves a client to the end, a block that is given back goes
  to the thread that came last, and a wait that times out leaves the count of waiting threads wrong.
  The witnesses use a pool with blocks of 12 bytes at address 4096.
\<close>

subsection \<open>Blocks\<close>

text \<open>C16: A pool made by \<^verbatim>\<open>rt_mp_init\<close> serves a client that asks for blocks and gives back
  blocks it holds, in any order: no call fails, and the client never holds more blocks than fit the
  area, two that overlap, or one that is too small or leaves the area.\<close>
theorem mp_serves_client:
  fixes start sz bz :: u32
  assumes "mapped (mp_ram s) (unat start) (unat sz)" "0 < unat start" "unat start + unat sz \<le> 2 ^ 32"
    and "0 < unat bz" "bz \<le> 0x80000000" "0 < pool_blocks (unat sz) (unat bz)" "mp < 2 ^ 32"
  shows "\<exists>s1 held s2. rt_mp_init mp name start sz bz s = Some (RT_EOK, s1) \<and>
    serve (mp_get mp) mp_put rs [] s1 = Some (held, s2) \<and> distinct held \<and>
    length held \<le> pool_blocks (unat sz) (unat bz) \<and>
    (\<forall>a \<in> set held. unat start + 4 \<le> a \<and> a + unat bz \<le> unat start + unat sz) \<and>
    (\<forall>a \<in> set held. \<forall>b \<in> set held. a \<noteq> b \<longrightarrow> a + unat bz \<le> b \<or> b + unat bz \<le> a)"
proof -
  let ?n = "pool_blocks (unat sz) (unat bz)"
  obtain p m' k where
    1: "rt_mp_init mp name start sz bz s = Some (RT_EOK, with_pool mp p m' (s\<lparr>kern := k\<rparr>))"
    and p: "pool_ok mp p m' [0 ..< ?n] {}" "unat (block_total_count p) = ?n" "start_address p = start"
      "unat (block_size p) = 4 * ((unat bz + 3) div 4)" "suspend_thread_count p = 0"
    by (rule rt_mp_init_ok [OF assms(1-3,5-7), of name]) blast
  let ?s1 = "with_pool mp p m' (s\<lparr>kern := k\<rparr>)"
  have bz: "unat bz \<le> unat (block_size p)" unfolding p(4) by presburger
  have "mp_view mp p ?s1 {}"
    using p(1,5) bz assms(4) unfolding mp_view_def
    by (intro conjI exI [of _ "[0 ..< ?n]"] exI [of _ "{}"]) (simp_all add: user_blocks_def)
  from mpool.serve_ok [OF this, of "[]" rs] obtain held s2 B where
    2: "serve (mp_get mp) mp_put rs [] ?s1 = Some (held, s2)" "mp_view mp p s2 B" "fst ` B = set held"
      "distinct held" by auto
  have "?n * (unat (block_size p) + 4) \<le> 4 * (unat sz div 4)"
    unfolding p(4) pool_blocks_def by (rule div_times_less_eq_dividend)
  then have le: "?n * (unat (block_size p) + 4) \<le> unat sz" by (rule order_trans) simp
  note held = mp_view_held [OF 2(2-4), unfolded p(2)]
  have blk: "blk p i = unat start + i * (unat (block_size p) + 4)" for i by (simp add: blk_def stride_def p(3))
  have 4: "\<forall>a \<in> set held. unat start + 4 \<le> a \<and> a + unat bz \<le> unat start + unat sz"
  proof
    fix a assume "a \<in> set held"
    then obtain i where i: "i < ?n" "a = blk p i + 4" using held(2) by blast
    then have "Suc i * (unat (block_size p) + 4) \<le> ?n * (unat (block_size p) + 4)" by (intro mult_le_mono1) simp
    with le bz show "unat start + 4 \<le> a \<and> a + unat bz \<le> unat start + unat sz" unfolding i(2) blk by simp
  qed
  have 6: "\<forall>a \<in> set held. \<forall>b \<in> set held. a \<noteq> b \<longrightarrow> a + unat bz \<le> b \<or> b + unat bz \<le> a"
  proof (intro ballI impI)
    fix a b assume ab: "a \<in> set held" "b \<in> set held" "a \<noteq> b"
    obtain i j where ij: "a = blk p i + 4" "b = blk p j + 4" using held(2) ab(1,2) by meson
    with ab(3) have "i \<noteq> j" by auto
    from blk_apart [OF this, of p] bz show "a + unat bz \<le> b \<or> b + unat bz \<le> a"
      unfolding ij stride_def by linarith
  qed
  show ?thesis by (intro exI conjI, rule 1, rule 2(1), rule 2(4), rule held(1), rule 4, rule 6)
qed

text \<open>\<^verbatim>\<open>rt_mp_create\<close> on a heap with any blocks in use either is refused and leaves the heap
  as it was, or makes a pool whose blocks, all free, lie in one new block of the heap; it writes
  into no other. \<^verbatim>\<open>rt_mp_delete\<close> gives that block back, and leaves the others.\<close>
theorem mp_create_delete:
  fixes count bz :: u32
  assumes "heap_view (mp_heap s) A" "0 < unat count" "bz \<le> 0x80000000"
    and "(4 * ((unat bz + 3) div 4) + 4) * unat count \<le> 0xfffffffc" "mp < 2 ^ 32"
    and "kernel_ok (kern s)" "lists (kern s) (Suspend mp) = []"
  shows "\<exists>r s1. rt_mp_create (Some mp) name count bz s = Some (r, s1) \<and>
    (case r of
       None \<Rightarrow> mp_heap s1 = mp_heap s
     | Some _ \<Rightarrow> pool_ok mp (pools s1 mp) (mp_ram s1) [0 ..< unat count] {} \<and>
         (\<exists>k. fresh A (unat (start_address (pools s1 mp))) k \<and> unat count * stride (pools s1 mp) \<le> k \<and>
            heap_view (mp_heap s1) (insert (unat (start_address (pools s1 mp)), k) A)) \<and>
         kept A (mp_heap s) (mp_heap s1) \<and>
         (\<exists>s2. rt_mp_delete mp s1 = Some (RT_EOK, s2) \<and> heap_view (mp_heap s2) A))"
  using assms(1-5)
proof (cases rule: mp_create_ok [where name = name])
  case (refused s')
  then show ?thesis by (intro exI [of _ None] exI [of _ s']) simp
next
  case (pool s1 k)
  let ?a = "unat (start_address (pools s1 mp))"
  have w: "waiters_ok mp s1" by (rule pool(8) [OF assms(6,7)])
  obtain s2 where 1: "rt_mp_delete mp s1 = Some (RT_EOK, s2)" "heap_view (mp_heap s2) (insert (?a, k) A - {(?a, k)})"
    using mp_delete_ok [OF w pool(4)] by blast
  have "(?a, k) \<notin> A"
  proof
    assume "(?a, k) \<in> A"
    then show False using pool(6) view_block(5) [OF assms(1)] by (fastforce simp: fresh_def)
  qed
  then have "insert (?a, k) A - {(?a, k)} = A" by simp
  with 1 have 2: "\<exists>s2. rt_mp_delete mp s1 = Some (RT_EOK, s2) \<and> heap_view (mp_heap s2) A" by auto
  have 3: "unat count * stride (pools s1 mp) \<le> k" unfolding pool(3) by (rule pool(5))
  show ?thesis
    by (intro exI [of _ "Some mp"] exI [of _ s1] conjI, rule pool(1))
      (use pool(2,4,6,7) 2 3 in auto)
qed

subsection \<open>Waiting threads\<close>

text \<open>C17: When no block is free, a thread that asks for one is suspended; the next block that
  is given back wakes this thread, the last that came, and not one that waits longer, and
  \<^verbatim>\<open>rt_mp_alloc\<close> returns it that block. The other threads go on waiting.\<close>
theorem mp_block_to_last_waiter:
  fixes time :: int
  assumes "waiters_ok mp s" "running t (kern s)" "pool_ok mp (pools s mp) (mp_ram s) [] U" "i \<in> U"
    and "time \<noteq> 0" "length (lists (kern s) (Suspend mp)) + 1 < 2 ^ 32"
  defines "b \<equiv> of_nat (blk (pools s mp) i + 4)"
  shows "\<exists>s1 s2 s3. rt_mp_alloc mp time s = Some (Mp_waiting t, s1) \<and> stat_of (threads (kern s1) t) = RT_THREAD_SUSPEND \<and>
    rt_mp_free b s1 = Some s2 \<and> stat_of (threads (kern s2) t) = RT_THREAD_READY \<and>
    lists (kern s2) (Suspend mp) = lists (kern s) (Suspend mp) \<and>
    rt_mp_alloc_return mp time before t s2 = Some (Block b, s3) \<and>
    pool_ok mp (pools s3 mp) (mp_ram s3) [] U \<and> waiters_ok mp s3"
proof -
  let ?p = "pools s mp"
  have z: "block_free_count ?p = 0" using mp_empty_free [OF assms(3)] by simp
  obtain s1 where 1: "rt_mp_alloc mp time s = Some (Mp_waiting t, s1)" "waiters_ok mp s1"
    "stat_of (threads (kern s1) t) = RT_THREAD_SUSPEND"
    "lists (kern s1) (Suspend mp) = t # lists (kern s) (Suspend mp)" "mp_heap s1 = mp_heap s"
    "pools s1 = (pools s)(mp := ?p\<lparr>suspend_thread_count := suspend_thread_count ?p + 1\<rparr>)"
    by (rule mp_alloc_waits [OF assms(1,2) z assms(5,6)])
  let ?p1 = "pools s1 mp"
  have ok1: "pool_ok mp ?p1 (mp_ram s1) [] U" and blk1: "blk ?p1 = blk ?p" using assms(3) 1(5,6) by simp_all
  let ?m = "upd (mp_ram s1) (blk ?p1 i) (split32 (block_list ?p1))"
  let ?s = "with_pool mp (given_pool i ?p1) ?m s1"
  have 2: "rt_mp_free b s1 = wake_waiter mp ?s" using rt_mp_free_eq [OF ok1 assms(4)] by (simp add: b_def blk1)
  have w: "waiters_ok mp ?s" "lists (kern ?s) (Suspend mp) = t # lists (kern s) (Suspend mp)"
    using 1(2,4) by (simp_all add: waiters_ok_def)
  obtain s2 where 3: "wake_waiter mp ?s = Some s2" "waiters_ok mp s2"
    "stat_of (threads (kern s2) t) = RT_THREAD_READY" "th_error (threads (kern s2) t) = RT_EOK"
    "lists (kern s2) (Suspend mp) = lists (kern s) (Suspend mp)" "mp_heap s2 = mp_heap ?s"
    "pools s2 = (pools ?s)(mp := (pools ?s mp)\<lparr>suspend_thread_count := suspend_thread_count (pools ?s mp) - 1\<rparr>)"
    by (rule wake_waiter_ok [OF w])
  have ok2: "pool_ok mp (pools s2 mp) (mp_ram s2) [i] (U - {i})" and blk2: "blk (pools s2 mp) = blk ?p"
    using pool_ok_give [OF ok1 assms(4)] 3(6,7) blk1 by simp_all
  obtain n where 4: "load32 (mp_ram s2) (blk (pools s2 mp) i) = Some n"
    "mp_take mp s2 = Some (Block (of_nat (blk (pools s2 mp) i + 4)),
       with_pool mp (taken_pool n (pools s2 mp)) (upd (mp_ram s2) (blk (pools s2 mp) i) (split32 (of_nat mp))) s2)"
    by (rule mp_take_ok [OF ok2])
  let ?s3 = "with_pool mp (taken_pool n (pools s2 mp)) (upd (mp_ram s2) (blk (pools s2 mp) i) (split32 (of_nat mp))) s2"
  have 5: "rt_mp_alloc_return mp time before t s2 = Some (Block b, ?s3)"
    using 3(4) 4(2) mp_empty_free [OF ok2] by (simp add: rt_mp_alloc_return_def mp_alloc_loop_def b_def blk2)
  have "pool_ok mp (pools ?s3 mp) (mp_ram ?s3) [] (insert i (U - {i}))"
    using pool_ok_take [OF ok2 4(1)] by simp
  then have 6: "pool_ok mp (pools ?s3 mp) (mp_ram ?s3) [] U" using assms(4) by (simp only: insert_Diff)
  have 7: "waiters_ok mp ?s3" using 3(2) by (simp add: waiters_ok_def)
  show ?thesis using 1(1,3) 2 3(1,3,5) 5 6 7 by auto
qed

text \<open>A wait for a block that times out takes the thread off the list, but not off the count
  of waiting threads. The next \<^verbatim>\<open>rt_mp_free\<close> believes that a thread waits, and takes one out of an
  empty list.\<close>
theorem mp_timeout_breaks_free:
  fixes time :: int
  assumes "waiters_ok mp s" "running t (kern s)" "pool_ok mp (pools s mp) (mp_ram s) [] U" "i \<in> U"
    and "time \<noteq> 0" "lists (kern s) (Suspend mp) = []"
  shows "\<exists>s1 s2. rt_mp_alloc mp time s = Some (Mp_waiting t, s1) \<and>
    s2 = s1\<lparr>kern := rt_thread_timeout t (kern s1)\<rparr> \<and> rt_mp_alloc_return mp time before t s2 = Some (Block 0, s2) \<and>
    rt_mp_free (of_nat (blk (pools s mp) i + 4)) s2 = None"
proof -
  let ?p = "pools s mp"
  have z: "block_free_count ?p = 0" using mp_empty_free [OF assms(3)] by simp
  have c: "suspend_thread_count ?p = 0" using assms(1,6) by (simp add: waiters_ok_def unat_eq_zero)
  obtain s1 where 1: "rt_mp_alloc mp time s = Some (Mp_waiting t, s1)"
    "stat_of (threads (kern s1) t) = RT_THREAD_SUSPEND"
    "lists (kern s1) (Suspend mp) = t # lists (kern s) (Suspend mp)" "mp_heap s1 = mp_heap s"
    "pools s1 = (pools s)(mp := ?p\<lparr>suspend_thread_count := suspend_thread_count ?p + 1\<rparr>)"
    by (rule mp_alloc_waits [OF assms(1,2) z assms(5)]) (simp_all add: assms(6))
  let ?s2 = "s1\<lparr>kern := rt_thread_timeout t (kern s1)\<rparr>"
  have e: "th_error (threads (kern ?s2) t) = - RT_ETIMEOUT" "lists (kern ?s2) (Suspend mp) = []"
    using 1(2,3) assms(6) by (simp_all add: rt_thread_timeout_def Let_def)
  have ok: "pool_ok mp (pools ?s2 mp) (mp_ram ?s2) [] U" and b: "blk (pools ?s2 mp) = blk ?p"
    using assms(3) 1(4,5) by simp_all
  have "rt_mp_free (of_nat (blk ?p i + 4)) ?s2 = None"
    using rt_mp_free_eq [OF ok assms(4)] e(2) 1(5) c by (simp add: b wake_waiter_def)
  moreover have "rt_mp_alloc_return mp time before t ?s2 = Some (Block 0, ?s2)"
    using e(1) by (simp add: rt_mp_alloc_return_def)
  ultimately show ?thesis using 1(1) by blast
qed

subsection \<open>Witnesses\<close>

definition demo_pool_state :: mp_state where
  "demo_pool_state = \<lparr>kern = demo None, pools = (\<lambda>_. \<lparr>start_address = 0, mp_size = 0, block_size = 0,
     block_list = 0, block_total_count = 0, block_free_count = 0, suspend_thread_count = 0\<rparr>),
     mp_heap = \<lparr>heap_ptr = 0, heap_end = 0, lfree = 0, mem_size_aligned = 0, used_mem = 0, max_mem = 0,
       ram = (\<lambda>a. if 4096 \<le> a \<and> a < 4160 then Some 0 else None)\<rparr>\<rparr>"

lemma demo_pool_state_sel [simp]: "kern demo_pool_state = demo None"
  "mp_ram demo_pool_state = (\<lambda>a. if 4096 \<le> a \<and> a < 4160 then Some 0 else None)"
  by (simp_all add: demo_pool_state_def)

lemma demo_pool_mapped: "mapped (mp_ram demo_pool_state) (unat (4096 :: u32)) (unat (64 :: u32))"
  by (auto simp: mapped_iff dom_def)

lemma demo_pool_blocks: "pool_blocks (unat (64 :: u32)) (unat (10 :: u32)) = 4"
  by (simp add: pool_blocks_def)

theorem mp_serves_client_witness:
  "\<exists>s1 held s2. rt_mp_init 9 ''pool'' 4096 64 10 demo_pool_state = Some (RT_EOK, s1) \<and>
    serve (mp_get 9) mp_put [Get 0, Get 0, Put 1, Get 0, Get 0, Get 0, Get 0] [] s1 = Some (held, s2) \<and>
    length held \<le> 4"
proof -
  have 1: "0 < unat (4096 :: u32)" "unat (4096 :: u32) + unat (64 :: u32) \<le> 2 ^ 32" "0 < unat (10 :: u32)"
    "(10 :: u32) \<le> 0x80000000" "(9 :: nat) < 2 ^ 32" by simp_all
  have 2: "0 < pool_blocks (unat (64 :: u32)) (unat (10 :: u32))" unfolding demo_pool_blocks by simp
  from mp_serves_client [OF demo_pool_mapped 1(1-4) 2 1(5), of "''pool''" "[Get 0, Get 0, Put 1, Get 0, Get 0, Get 0, Get 0]"]
  obtain s1 held s2 where "rt_mp_init 9 ''pool'' 4096 64 10 demo_pool_state = Some (RT_EOK, s1)"
    "serve (mp_get 9) mp_put [Get 0, Get 0, Put 1, Get 0, Get 0, Get 0, Get 0] [] s1 = Some (held, s2)"
    "length held \<le> 4" unfolding demo_pool_blocks by (elim exE conjE)
  then show ?thesis by (intro exI conjI)
qed

theorem mp_create_delete_witness:
  "\<exists>h r s1. rt_system_heap_init 1024 1184 blank = Some h \<and>
    rt_mp_create (Some 9) ''pool'' 4 10 (demo_pool_state\<lparr>mp_heap := h\<rparr>) = Some (r, s1) \<and>
    (r \<noteq> None \<longrightarrow> (\<exists>s2. rt_mp_delete 9 s1 = Some (RT_EOK, s2) \<and> heap_view (mp_heap s2) {}))"
proof -
  obtain h where h: "rt_system_heap_init 1024 1184 blank = Some h" "heap_view h {}" by (rule blank_init)
  let ?s = "demo_pool_state\<lparr>mp_heap := h\<rparr>"
  have 1: "heap_view (mp_heap ?s) {}" using h(2) by simp
  have 2: "0 < unat (4 :: u32)" "(10 :: u32) \<le> 0x80000000"
    "(4 * ((unat (10 :: u32) + 3) div 4) + 4) * unat (4 :: u32) \<le> 0xfffffffc" "(9 :: nat) < 2 ^ 32" by simp_all
  have 3: "kernel_ok (kern ?s)" "lists (kern ?s) (Suspend 9) = []" using demo_ok [of None] by simp_all
  from mp_create_delete [OF 1 2 3, of "''pool''"] obtain r s1 where
    4: "rt_mp_create (Some 9) ''pool'' 4 10 ?s = Some (r, s1)"
    and 5: "case r of None \<Rightarrow> mp_heap s1 = mp_heap ?s | Some _ \<Rightarrow>
         pool_ok 9 (pools s1 9) (mp_ram s1) [0 ..< unat (4 :: u32)] {} \<and>
         (\<exists>k. fresh {} (unat (start_address (pools s1 9))) k \<and> unat (4 :: u32) * stride (pools s1 9) \<le> k \<and>
            heap_view (mp_heap s1) (insert (unat (start_address (pools s1 9)), k) {})) \<and>
         kept {} (mp_heap ?s) (mp_heap s1) \<and>
         (\<exists>s2. rt_mp_delete 9 s1 = Some (RT_EOK, s2) \<and> heap_view (mp_heap s2) {})" by (elim exE conjE)
  from 5 have "r \<noteq> None \<longrightarrow> (\<exists>s2. rt_mp_delete 9 s1 = Some (RT_EOK, s2) \<and> heap_view (mp_heap s2) {})"
    by (auto split: option.splits)
  with h(1) 4 show ?thesis by blast
qed

text \<open>A pool of one block, which is in use, and thread 1 that asks for it.\<close>

definition demo_used_pool :: mp_state where
  "demo_used_pool = with_pool 9 \<lparr>start_address = 4096, mp_size = 16, block_size = 12, block_list = 0,
     block_total_count = 1, block_free_count = 0, suspend_thread_count = 0\<rparr>
     (upd (mp_ram demo_pool_state) 4096 (split32 9)) demo_pool_state"

lemma demo_used_pool_ok: "pool_ok 9 (pools demo_used_pool 9) (mp_ram demo_used_pool) [] {0}"
proof -
  have m: "mapped (mp_ram demo_pool_state) 4096 16" by (auto simp: mapped_iff dom_def)
  have m4: "mapped (mp_ram demo_pool_state) 4096 4" by (rule mapped_part [OF m]) simp_all
  have "mapped (upd (mp_ram demo_pool_state) 4096 (split32 9)) 4096 16" using m m4 by (simp only: mapped_upd length_split)
  then show ?thesis using load32_upd_same [OF m4, of 9]
    by (auto simp: pool_ok_def layout_ok_def demo_used_pool_def blk_def stride_def simp del: demo_pool_state_sel(2))
qed

lemma demo_used_pool_waiters: "waiters_ok 9 demo_used_pool" "running 1 (kern demo_used_pool)"
  "lists (kern demo_used_pool) (Suspend 9) = []" "blk (pools demo_used_pool 9) 0 = 4096"
  using demo_ok [of None] by (simp_all add: waiters_ok_def demo_used_pool_def blk_def)

theorem mp_block_to_last_waiter_witness:
  "\<exists>s1 s2 s3. rt_mp_alloc 9 50 demo_used_pool = Some (Mp_waiting 1, s1) \<and> rt_mp_free 4100 s1 = Some s2 \<and>
    rt_mp_alloc_return 9 50 0 1 s2 = Some (Block 4100, s3)"
proof -
  note w = demo_used_pool_waiters
  have i: "(0 :: nat) \<in> {0}" and t: "(50 :: int) \<noteq> 0" and l: "length (lists (kern demo_used_pool) (Suspend 9)) + 1 < 2 ^ 32"
    by (simp_all add: w(3))
  from mp_block_to_last_waiter [OF w(1,2) demo_used_pool_ok i t l, of 0] show ?thesis
    unfolding w(4) by auto
qed

theorem mp_timeout_breaks_free_witness:
  "\<exists>s1 s2. rt_mp_alloc 9 50 demo_used_pool = Some (Mp_waiting 1, s1) \<and>
    s2 = s1\<lparr>kern := rt_thread_timeout 1 (kern s1)\<rparr> \<and> rt_mp_free 4100 s2 = None"
proof -
  note w = demo_used_pool_waiters
  have i: "(0 :: nat) \<in> {0}" and t: "(50 :: int) \<noteq> 0" by simp_all
  from mp_timeout_breaks_free [OF w(1,2) demo_used_pool_ok i t w(3), of 0] show ?thesis
    unfolding w(4) by auto
qed

end
