(* ===== verification/Edp_Buffer.thy ===== *)
theory Edp_Buffer
  imports Mqtt_Buffer
begin

text \<open>
  The buffers of the EDP protocol (\<^verbatim>\<open>components/net/Protocol/edp/EdpKit.c\<close>): a growing byte array
  with a write and a read position, which is a packet to be sent, a received packet or the
  receive buffer.

  Blocks are as in \<open>Mqtt_Codec\<close>: \<open>None\<close> for a byte that was never written, \<open>None\<close> as the result of
  a call whose behaviour is undefined (access outside a block or through a null pointer). The
  list of booleans says of the next calls of \<^verbatim>\<open>malloc\<close> which are served; past its end none is.
  A C string argument is the list of its characters. What \<^verbatim>\<open>printf\<close> prints is left out;
  \<^verbatim>\<open>my_assert\<close> does nothing. A read function returns \<open>Inl\<close> of its return code where that is not
  0, and \<open>Inr\<close> of what it stores through its pointer argument where it is 0.
\<close>

record edp_buffer =
  edp_data :: mem
  write_pos :: u32
  read_pos :: u32
  capacity :: u32

type_synonym edp_state = "edp_buffer \<times> bool list"
type_synonym edp_write = "edp_state \<Rightarrow> (int \<times> edp_state) option"
type_synonym 'a edp_read = "edp_state \<Rightarrow> ((int + 'a) \<times> edp_state) option"

abbreviation BUFFER_SIZE :: u32 where "BUFFER_SIZE \<equiv> 128"

definition edp_malloc :: "bool list \<Rightarrow> bool \<times> bool list" where
  "edp_malloc ms = (case ms of [] \<Rightarrow> (False, []) | ok # ms \<Rightarrow> (ok, ms))"

text \<open>\<^verbatim>\<open>memcpy(dst + i, src + j, n)\<close>.\<close>

definition block_copy :: "mem \<Rightarrow> nat \<Rightarrow> mem \<Rightarrow> nat \<Rightarrow> nat \<Rightarrow> mem option" where
  "block_copy dst i src j n =
     (if i + n \<le> length dst \<and> j + n \<le> length src
      then Some (take i dst @ take n (drop j src) @ drop (i + n) dst) else None)"

subsection \<open>Allocation\<close>

definition NewBuffer :: "bool list \<Rightarrow> edp_buffer option \<times> bool list" where
  "NewBuffer ms =
     (let (ok, ms) = edp_malloc ms
      in if \<not> ok then (None, ms)
         else let (ok, ms) = edp_malloc ms
              in if \<not> ok then (None, ms)
                 else (Some \<lparr>edp_data = replicate (unat BUFFER_SIZE) None, write_pos = 0, read_pos = 0,
                             capacity = BUFFER_SIZE\<rparr>, ms))"

function grow_cap :: "u32 \<Rightarrow> u32 \<Rightarrow> nat \<Rightarrow> u32 \<Rightarrow> nat \<times> u32" where
  "grow_cap wpos len flag cap_len =
     (if cap_len - wpos < len
      then let cap_len = push_bit 1 cap_len; flag = flag + 1
           in if 32 < flag then (flag, cap_len) else grow_cap wpos len flag cap_len
      else (flag, cap_len))"
  by pat_completeness auto
termination
  by (relation "measure (\<lambda>(wpos, len, flag, cap_len). 33 - flag)") auto

declare grow_cap.simps [simp del]

definition CheckCapacity :: "u32 \<Rightarrow> edp_write" where
  "CheckCapacity len = (\<lambda>(buf, ms).
     case grow_cap (write_pos buf) len 0 (capacity buf) of (flag, cap_len) \<Rightarrow>
       if 32 < flag then Some (-1, (buf, ms))
       else if capacity buf < cap_len
       then case edp_malloc ms of (ok, ms) \<Rightarrow>
              if \<not> ok then None
              else do {
                pdata \<leftarrow> block_copy (replicate (unat cap_len) None) 0 (edp_data buf) 0
                           (unat (write_pos buf));
                Some (0, (buf\<lparr>edp_data := pdata, capacity := cap_len\<rparr>, ms))
              }
       else Some (0, (buf, ms)))"

subsection \<open>Writing\<close>

text \<open>\<open>or_else\<close> is \<^verbatim>\<open>w1 || w2\<close> on return codes.\<close>

definition or_else :: "edp_write \<Rightarrow> edp_write \<Rightarrow> edp_write" where
  "or_else w1 w2 = (\<lambda>st. do {
     (r, st) \<leftarrow> w1 st;
     if r \<noteq> 0 then Some (1, st)
     else do { (r, st) \<leftarrow> w2 st; Some (if r \<noteq> 0 then 1 else 0, st) }
   })"

definition WriteByte :: "byte \<Rightarrow> edp_write" where
  "WriteByte b = (\<lambda>st. do {
     (r, (buf, ms)) \<leftarrow> CheckCapacity 1 st;
     if r \<noteq> 0 then Some (-1, (buf, ms))
     else do {
       d \<leftarrow> poke (edp_data buf) (unat (write_pos buf)) [b];
       Some (0, (buf\<lparr>edp_data := d, write_pos := write_pos buf + 1\<rparr>, ms))
     }
   })"

definition WriteBytes :: "mem \<Rightarrow> u32 \<Rightarrow> edp_write" where
  "WriteBytes bytes count = (\<lambda>st. do {
     (r, (buf, ms)) \<leftarrow> CheckCapacity count st;
     if r \<noteq> 0 then Some (-1, (buf, ms))
     else do {
       d \<leftarrow> block_copy (edp_data buf) (unat (write_pos buf)) bytes 0 (unat count);
       Some (0, (buf\<lparr>edp_data := d, write_pos := write_pos buf + count\<rparr>, ms))
     }
   })"

definition WriteUint16 :: "u16 \<Rightarrow> edp_write" where
  "WriteUint16 val = or_else (WriteByte (ucast (drop_bit 8 (val AND 0xFF00)))) (WriteByte (ucast (val AND 0x00FF)))"

definition WriteUint32 :: "u32 \<Rightarrow> edp_write" where
  "WriteUint32 val =
     or_else (or_else (or_else
       (WriteByte (ucast (drop_bit 24 val AND 0x00FF)))
       (WriteByte (ucast (drop_bit 16 val AND 0x00FF))))
       (WriteByte (ucast (drop_bit 8 val AND 0x00FF))))
       (WriteByte (ucast (val AND 0x00FF)))"

definition WriteStr :: "byte list \<Rightarrow> edp_write" where
  "WriteStr str =
     (let len = of_nat (length str) :: u16
      in or_else (WriteUint16 len) (WriteBytes (c_mem str) (ucast len)))"

text \<open>\<open>n\<close> iterations are left; no call of \<^verbatim>\<open>CheckCapacity\<close> here.\<close>

fun write_remainlen_loop :: "nat \<Rightarrow> u32 \<Rightarrow> edp_write" where
  "write_remainlen_loop 0 remaining_length st = Some (0, st)"
| "write_remainlen_loop (Suc n) remaining_length (buf, ms) =
     (let b = ucast (remaining_length mod 128);
          remaining_length = remaining_length div 128;
          b = (if remaining_length > 0 then b OR 0x80 else b)
      in do {
        d \<leftarrow> poke (edp_data buf) (unat (write_pos buf)) [b];
        let st = (buf\<lparr>edp_data := d, write_pos := write_pos buf + 1\<rparr>, ms);
        if remaining_length > 0 then write_remainlen_loop n remaining_length st else Some (0, st)
      })"

definition WriteRemainlen :: "u32 \<Rightarrow> edp_write" where
  "WriteRemainlen len_val = write_remainlen_loop 5 len_val"

subsection \<open>Reading\<close>

definition ReadByte :: "byte edp_read" where
  "ReadByte = (\<lambda>(pkg, ms).
     if write_pos pkg < read_pos pkg + 1 then Some (Inl (-1), (pkg, ms))
     else do {
       b \<leftarrow> peek (edp_data pkg) (unat (read_pos pkg));
       Some (Inr b, (pkg\<lparr>read_pos := read_pos pkg + 1\<rparr>, ms))
     })"

text \<open>The block \<^verbatim>\<open>*val\<close> points to: \<^verbatim>\<open>count\<close> bytes and a 0.\<close>

definition ReadBytes :: "u32 \<Rightarrow> mem edp_read" where
  "ReadBytes count = (\<lambda>(pkg, ms).
     if write_pos pkg < read_pos pkg + count then Some (Inl (-1), (pkg, ms))
     else case edp_malloc ms of (ok, ms) \<Rightarrow>
       if \<not> ok then None
       else do {
         val \<leftarrow> block_copy (replicate (unat (count + 1)) (Some 0)) 0
                  (edp_data pkg) (unat (read_pos pkg)) (unat count);
         Some (Inr val, (pkg\<lparr>read_pos := read_pos pkg + count\<rparr>, ms))
       })"

definition ReadUint16 :: "u16 edp_read" where
  "ReadUint16 = (\<lambda>(pkg, ms).
     if write_pos pkg < read_pos pkg + 2 then Some (Inl (-1), (pkg, ms))
     else do {
       msb \<leftarrow> peek (edp_data pkg) (unat (read_pos pkg));
       lsb \<leftarrow> peek (edp_data pkg) (unat (read_pos pkg + 1));
       Some (Inr (push_bit 8 (ucast msb) + ucast lsb), (pkg\<lparr>read_pos := read_pos pkg + 2\<rparr>, ms))
     })"

fun read_uint32_loop :: "nat \<Rightarrow> u32 \<Rightarrow> u32 edp_read" where
  "read_uint32_loop 0 tmpval st = Some (Inr tmpval, st)"
| "read_uint32_loop (Suc n) tmpval (pkg, ms) = do {
     b \<leftarrow> peek (edp_data pkg) (unat (read_pos pkg));
     read_uint32_loop n (push_bit 8 tmpval OR ucast b) (pkg\<lparr>read_pos := read_pos pkg + 1\<rparr>, ms)
   }"

definition ReadUint32 :: "u32 edp_read" where
  "ReadUint32 = (\<lambda>(pkg, ms).
     if write_pos pkg < read_pos pkg + 4 then Some (Inl (-1), (pkg, ms))
     else read_uint32_loop 4 0 (pkg, ms))"

text \<open>\<^verbatim>\<open>strncpy\<close> reads up to the first 0 and fills up with zeros.\<close>

fun strncpy_bytes :: "mem \<Rightarrow> nat \<Rightarrow> nat \<Rightarrow> byte list option" where
  "strncpy_bytes m i 0 = Some []"
| "strncpy_bytes m i (Suc n) = do {
     b \<leftarrow> peek m i;
     if b = 0 then Some (replicate (Suc n) 0) else map_option (Cons b) (strncpy_bytes m (Suc i) n)
   }"

text \<open>The statement \<^verbatim>\<open>if (rd(pkg, &x)) return e; ...\<close>; \<open>e\<close> may use the return code.\<close>

definition or_return :: "'a edp_read \<Rightarrow> (int \<Rightarrow> int) \<Rightarrow> ('a \<Rightarrow> 'b edp_read) \<Rightarrow> 'b edp_read" where
  "or_return rd e k = (\<lambda>st.
     case rd st of
       None \<Rightarrow> None
     | Some (Inl rc, st) \<Rightarrow> Some (Inl (e rc), st)
     | Some (Inr x, st) \<Rightarrow> k x st)"

definition return_value :: "'a \<Rightarrow> 'a edp_read" where
  "return_value x = (\<lambda>st. Some (Inr x, st))"

definition read_chars :: "u16 \<Rightarrow> mem edp_read" where
  "read_chars len = (\<lambda>(pkg, ms).
     if write_pos pkg < read_pos pkg + ucast len then Some (Inl (-1), (pkg, ms))
     else case edp_malloc ms of (ok, ms) \<Rightarrow>
       if \<not> ok then None
       else do {
         s \<leftarrow> strncpy_bytes (edp_data pkg) (unat (read_pos pkg)) (unat len);
         val \<leftarrow> poke (replicate (unat len + 1) (Some 0)) 0 s;
         Some (Inr val, (pkg\<lparr>read_pos := read_pos pkg + ucast len\<rparr>, ms))
       })"

definition ReadStr :: "mem edp_read" where
  "ReadStr = or_return ReadUint16 (\<lambda>rc. rc) read_chars"

function read_remainlen_loop :: "nat \<Rightarrow> u32 \<Rightarrow> u32 \<Rightarrow> u32 edp_read" where
  "read_remainlen_loop len_len multiplier len_val st =
     (case ReadByte st of
        None \<Rightarrow> None
      | Some (Inl rc, st) \<Rightarrow> Some (Inl rc, st)
      | Some (Inr onebyte, st) \<Rightarrow>
          (let len_val = len_val + ucast (onebyte AND 0x7f) * multiplier;
               multiplier = multiplier * 0x80;
               len_len = len_len + 1
           in if 4 < len_len then Some (Inl (-1), st)
              else if onebyte AND 0x80 \<noteq> 0 then read_remainlen_loop len_len multiplier len_val st
              else Some (Inr len_val, st)))"
  by pat_completeness auto
termination
  by (relation "measure (\<lambda>(len_len, m, l, st). 5 - len_len)") auto

declare read_remainlen_loop.simps [simp del]

definition ReadRemainlen :: "u32 edp_read" where
  "ReadRemainlen = read_remainlen_loop 0 1 0"

subsection \<open>What a buffer holds\<close>

text \<open>\<open>shape buf k acc\<close>: \<open>acc\<close> has been written and nothing read, and the block has been doubled
  \<open>k\<close> times since \<open>NewBuffer\<close>. \<open>avail ms\<close> calls of \<^verbatim>\<open>malloc\<close> are served in a row. As the size
  of a block is at most 2\^31, a buffer asks for at most \<open>24 - k\<close> more blocks; \<open>holds m\<close> says that
  they and \<open>m\<close> more will be served.\<close>

definition shape :: "edp_buffer \<Rightarrow> nat \<Rightarrow> byte list \<Rightarrow> bool" where
  "shape buf k acc \<longleftrightarrow> filled (edp_data buf) acc \<and> length (edp_data buf) = 2 ^ (7 + k) \<and> k \<le> 24 \<and>
     capacity buf = 2 ^ (7 + k) \<and> write_pos buf = of_nat (length acc) \<and> read_pos buf = 0"

definition avail :: "bool list \<Rightarrow> nat" where
  "avail ms = length (takeWhile (\<lambda>x. x) ms)"

definition holds :: "nat \<Rightarrow> edp_state \<Rightarrow> byte list \<Rightarrow> bool" where
  "holds m = (\<lambda>(buf, ms) acc. \<exists>k. shape buf k acc \<and> m + (24 - k) \<le> avail ms)"

definition appends :: "edp_write \<Rightarrow> byte list \<Rightarrow> bool" where
  "appends w bs \<longleftrightarrow> (\<forall>m st acc. holds m st acc \<longrightarrow> length acc + length bs \<le> 2 ^ 31 \<longrightarrow>
     (\<exists>st'. w st = Some (0, st') \<and> holds m st' (acc @ bs)))"

lemma avail_replicate [simp]: "avail (replicate n True @ ms) = n + avail ms" "avail [] = 0"
  "avail (replicate n True) = n"
  by (induction n) (auto simp: avail_def)

lemma avail_Cons [simp]: "avail (x # ms) = (if x then Suc (avail ms) else 0)"
  by (simp add: avail_def)

lemma edp_malloc_served: "0 < avail ms \<Longrightarrow> \<exists>ms'. edp_malloc ms = (True, ms') \<and> avail ms = Suc (avail ms')"
  by (cases ms) (auto simp: edp_malloc_def split: if_splits)

lemma edp_malloc_refused: "avail ms = 0 \<Longrightarrow> \<exists>ms'. edp_malloc ms = (False, ms')"
  by (cases ms) (auto simp: edp_malloc_def split: if_splits)

lemma unat_of_nat_32: "n < 2 ^ 32 \<Longrightarrow> unat (of_nat n :: u32) = n"
  by (simp add: unat_of_nat take_bit_nat_eq_self)

lemma unat_pow2: "n < 32 \<Longrightarrow> unat ((2 :: u32) ^ n) = 2 ^ n"
proof -
  assume "n < 32"
  then have "(2 :: nat) ^ n < 2 ^ 32" by (intro power_strict_increasing) auto
  then show ?thesis using unat_of_nat_32 [of "2 ^ n"] by simp
qed

lemma shape_capacity: "shape buf k acc \<Longrightarrow> unat (capacity buf) = 2 ^ (7 + k)"
  using unat_pow2 [of "7 + k"] by (auto simp: shape_def)

lemma shape_length: "shape buf k acc \<Longrightarrow> length acc \<le> 2 ^ (7 + k)"
  by (auto simp: shape_def filled_def)

lemma shape_length_31: "shape buf k acc \<Longrightarrow> length acc \<le> 2 ^ 31"
proof -
  assume s: "shape buf k acc"
  then have "(2 :: nat) ^ (7 + k) \<le> 2 ^ 31" by (intro power_increasing) (auto simp: shape_def)
  with shape_length [OF s] show ?thesis by simp
qed

lemma shape_write_pos: "shape buf k acc \<Longrightarrow> unat (write_pos buf) = length acc"
proof -
  assume s: "shape buf k acc"
  from shape_length_31 [OF s] have "unat (of_nat (length acc) :: u32) = length acc"
    by (intro unat_of_nat_32) simp
  with s show ?thesis by (simp add: shape_def)
qed

lemma grow_cap_ok:
  assumes "k \<le> 24" "w \<le> 2 ^ (7 + k)" "w + n \<le> 2 ^ 31" "flag \<le> 8 + k"
    "unat wpos = w" "unat len = n"
  shows "\<exists>k'. grow_cap wpos len flag (2 ^ (7 + k)) = (flag + (k' - k), 2 ^ (7 + k')) \<and>
    k \<le> k' \<and> k' \<le> 24 \<and> w + n \<le> 2 ^ (7 + k')"
  using assms
proof (induction "24 - k" arbitrary: k flag rule: less_induct)
  case less
  have c: "unat ((2 :: u32) ^ (7 + k)) = 2 ^ (7 + k)" using less.prems(1) by (intro unat_pow2) simp
  have le: "wpos \<le> 2 ^ (7 + k)" using less.prems(2,5) c by (simp add: word_le_nat_alt)
  then have sub: "unat ((2 :: u32) ^ (7 + k) - wpos) = 2 ^ (7 + k) - w"
    using c less.prems(5) by (simp add: unat_sub)
  show ?case
  proof (cases "w + n \<le> 2 ^ (7 + k)")
    case True
    then have "\<not> 2 ^ (7 + k) - wpos < len"
      using sub less.prems(6) by (simp add: word_less_nat_alt)
    then have "grow_cap wpos len flag (2 ^ (7 + k)) = (flag, 2 ^ (7 + k))"
      by (simp add: grow_cap.simps)
    with True less.prems(1) show ?thesis by (intro exI [of _ k]) simp
  next
    case False
    then have "2 ^ (7 + k) - w < n" using less.prems(2) by linarith
    then have lt: "2 ^ (7 + k) - wpos < len"
      unfolding word_less_nat_alt sub less.prems(6) .
    have "k \<noteq> 24" using False less.prems(3) by auto
    then have k: "Suc k \<le> 24" using less.prems(1) by simp
    have p: "push_bit (Suc 0) ((2 :: u32) ^ (7 + k)) = 2 ^ (7 + Suc k)"
      by (simp add: push_bit_eq_mult power_add)
    have "grow_cap wpos len flag (2 ^ (7 + k)) = grow_cap wpos len (flag + 1) (2 ^ (7 + Suc k))"
      using lt k less.prems(4) p by (subst grow_cap.simps) (simp add: Let_def)
    moreover have "w \<le> 2 ^ (7 + Suc k)" using less.prems(2) by (simp add: power_add)
    ultimately show ?thesis
      using less.hyps [of "Suc k" "flag + 1"] k less.prems by force
  qed
qed

lemma CheckCapacity_ok:
  assumes s: "shape buf k acc" and "length acc + unat len \<le> 2 ^ 31" "k = 24 \<or> 0 < avail ms"
  shows "\<exists>k' buf' ms'. CheckCapacity len (buf, ms) = Some (0, (buf', ms')) \<and> shape buf' k' acc \<and>
    length acc + unat len \<le> 2 ^ (7 + k') \<and> k \<le> k' \<and> avail ms \<le> avail ms' + (k' - k) \<and>
    avail ms \<le> avail ms' + 1"
proof -
  have k: "k \<le> 24" using s by (simp add: shape_def)
  from grow_cap_ok [OF k shape_length [OF s] assms(2), of 0 "write_pos buf" len]
  obtain k' where g: "grow_cap (write_pos buf) len 0 (2 ^ (7 + k)) = (k' - k, 2 ^ (7 + k'))"
    and k': "k \<le> k'" "k' \<le> 24" "length acc + unat len \<le> 2 ^ (7 + k')"
    using shape_write_pos [OF s] by auto
  have cap: "capacity buf = 2 ^ (7 + k)" using s by (simp add: shape_def)
  have u: "unat ((2 :: u32) ^ (7 + k)) = 2 ^ (7 + k)" "unat ((2 :: u32) ^ (7 + k')) = 2 ^ (7 + k')"
    using k k' by (intro unat_pow2; simp)+
  show ?thesis
  proof (cases "k' = k")
    case True
    then have "CheckCapacity len (buf, ms) = Some (0, (buf, ms))"
      by (simp add: CheckCapacity_def cap g [unfolded True] True)
    with True s k' show ?thesis by auto
  next
    case False
    then have "k < k'" using k' by simp
    then have "(2 :: nat) ^ (7 + k) < 2 ^ (7 + k')" by (intro power_strict_increasing) auto
    then have lt: "(2 :: u32) ^ (7 + k) < 2 ^ (7 + k')" by (simp only: word_less_nat_alt u)
    from assms(3) \<open>k < k'\<close> k'(2) have "0 < avail ms" by auto
    from edp_malloc_served [OF this] obtain ms' where m: "edp_malloc ms = (True, ms')" "avail ms = Suc (avail ms')"
      by blast
    let ?d = "map Some acc @ drop (length acc) (replicate (2 ^ (7 + k')) None)"
    let ?b = "buf\<lparr>edp_data := ?d, capacity := 2 ^ (7 + k')\<rparr>"
    have la: "length acc \<le> 2 ^ (7 + k')" using k'(3) by linarith
    have "take (length acc) (edp_data buf) = map Some acc" "length acc \<le> length (edp_data buf)"
      using s by (simp_all add: shape_def filled_def)
    then have "block_copy (replicate (2 ^ (7 + k')) None) 0 (edp_data buf) 0 (length acc) = Some ?d"
      using la by (simp add: block_copy_def)
    then have "CheckCapacity len (buf, ms) = Some (0, (?b, ms'))"
      using k k' lt shape_write_pos [OF s] by (simp add: CheckCapacity_def cap g m(1) u)
    moreover have "shape ?b k' acc"
      using s k' la by (simp add: shape_def filled_def)
    ultimately show ?thesis using \<open>k < k'\<close> k' m(2) by (intro exI [of _ k'] exI [of _ ?b] exI [of _ ms']) simp
  qed
qed

lemma shape_append:
  assumes "shape buf k acc" "filled d (acc @ bs)" "length d = 2 ^ (7 + k)"
    "n = of_nat (length bs)"
  shows "shape (buf\<lparr>edp_data := d, write_pos := write_pos buf + n\<rparr>) k (acc @ bs)"
  using assms by (simp add: shape_def)

lemma WriteBytes_ok:
  assumes s: "shape buf k acc" and "length acc + length bs \<le> 2 ^ 31" "k = 24 \<or> 0 < avail ms"
    and src: "take (length bs) src = map Some bs"
  shows "\<exists>k' buf' ms'. WriteBytes src (of_nat (length bs)) (buf, ms) = Some (0, (buf', ms')) \<and>
    shape buf' k' (acc @ bs) \<and> k \<le> k' \<and> avail ms \<le> avail ms' + (k' - k) \<and> avail ms \<le> avail ms' + 1"
proof -
  have n: "unat (of_nat (length bs) :: u32) = length bs" using assms(2) by (intro unat_of_nat_32) simp
  from CheckCapacity_ok [OF s, of "of_nat (length bs)" ms] assms(2,3) n
  obtain k' b ms' where c: "CheckCapacity (of_nat (length bs)) (buf, ms) = Some (0, (b, ms'))"
    "shape b k' acc" "length acc + length bs \<le> 2 ^ (7 + k')" "k \<le> k'"
    "avail ms \<le> avail ms' + (k' - k)" "avail ms \<le> avail ms' + 1" by auto
  let ?d = "take (length acc) (edp_data b) @ map Some bs @ drop (length acc + length bs) (edp_data b)"
  have len: "length (edp_data b) = 2 ^ (7 + k')" and ac: "take (length acc) (edp_data b) = map Some acc"
    using c(2) by (simp_all add: shape_def filled_def)
  have "length bs \<le> length src" using arg_cong [OF src, of length] by simp
  then have "block_copy (edp_data b) (length acc) src 0 (length bs) = Some ?d"
    using c(3) len src by (simp add: block_copy_def)
  then have "WriteBytes src (of_nat (length bs)) (buf, ms) =
      Some (0, (b\<lparr>edp_data := ?d, write_pos := write_pos b + of_nat (length bs)\<rparr>, ms'))"
    by (simp add: WriteBytes_def c(1) n shape_write_pos [OF c(2)])
  moreover have "filled ?d (acc @ bs)" "length ?d = 2 ^ (7 + k')"
    using c(3) len by (simp_all add: filled_def ac min_absorb1)
  from shape_append [OF c(2) this refl]
  have "shape (b\<lparr>edp_data := ?d, write_pos := write_pos b + of_nat (length bs)\<rparr>) k' (acc @ bs)" .
  ultimately show ?thesis using c(4-6) by blast
qed

text \<open>The writing functions.\<close>

lemma appendsD:
  "appends w bs \<Longrightarrow> holds m st acc \<Longrightarrow> length acc + length bs \<le> 2 ^ 31 \<Longrightarrow>
   \<exists>st'. w st = Some (0, st') \<and> holds m st' (acc @ bs)"
  unfolding appends_def by blast

lemma appends_WriteBytes:
  assumes "take (length bs) src = map Some bs" "n = of_nat (length bs)"
  shows "appends (WriteBytes src n) bs"
  unfolding appends_def
proof (intro allI impI)
  fix m st acc
  assume h: "holds m st acc" and le: "length acc + length bs \<le> 2 ^ 31"
  obtain buf ms where st: "st = (buf, ms)" by (cases st)
  from h obtain k where k: "shape buf k acc" "m + (24 - k) \<le> avail ms" by (auto simp: holds_def st)
  then have "k = 24 \<or> 0 < avail ms" by (auto simp: shape_def)
  from WriteBytes_ok [OF k(1) le this assms(1)] obtain k' buf' ms' where
    "WriteBytes src n st = Some (0, (buf', ms'))" "shape buf' k' (acc @ bs)" "k \<le> k'"
    "avail ms \<le> avail ms' + (k' - k)"
    by (auto simp: st assms(2))
  moreover from this k have "m + (24 - k') \<le> avail ms'" by (auto simp: shape_def)
  ultimately show "\<exists>st'. WriteBytes src n st = Some (0, st') \<and> holds m st' (acc @ bs)"
    by (auto simp: holds_def)
qed

lemma poke_block_copy: "poke d i [b] = block_copy d i [Some b] 0 1"
  by (simp add: poke_def block_copy_def)

lemma WriteByte_WriteBytes: "WriteByte b = WriteBytes [Some b] 1"
  unfolding WriteByte_def WriteBytes_def poke_block_copy unsigned_1 ..

lemma appends_WriteByte: "appends (WriteByte b) [b]"
  unfolding WriteByte_WriteBytes by (rule appends_WriteBytes) simp_all

lemma appends_or_else:
  assumes "appends w1 bs" "appends w2 cs"
  shows "appends (or_else w1 w2) (bs @ cs)"
  unfolding appends_def
proof (intro allI impI)
  fix m st acc
  assume h: "holds m st acc" and le: "length acc + length (bs @ cs) \<le> 2 ^ 31"
  from appendsD [OF assms(1) h] le obtain st1 where 1: "w1 st = Some (0, st1)" "holds m st1 (acc @ bs)"
    by auto
  from appendsD [OF assms(2) 1(2)] le obtain st2 where "w2 st1 = Some (0, st2)" "holds m st2 ((acc @ bs) @ cs)"
    by auto
  with 1(1) show "\<exists>st'. or_else w1 w2 st = Some (0, st') \<and> holds m st' (acc @ bs @ cs)"
    by (simp add: or_else_def)
qed

definition bytes16 :: "u16 \<Rightarrow> byte list" where
  "bytes16 v = [ucast (drop_bit 8 v), ucast v]"

definition bytes32 :: "u32 \<Rightarrow> byte list" where
  "bytes32 v = [ucast (drop_bit 24 v), ucast (drop_bit 16 v), ucast (drop_bit 8 v), ucast v]"

lemma length_bytes16_32 [simp]: "length (bytes16 v) = 2" "length (bytes32 w) = 4"
  by (simp_all add: bytes16_def bytes32_def)

lemma bit_0xff [simp]: "bit (0xff :: nat) n \<longleftrightarrow> n < 8"
proof -
  have "(0xff :: nat) = mask 8" by (simp add: mask_eq_exp_minus_1)
  then show ?thesis by (simp only: bit_mask_iff) simp
qed

lemma and_0xff: "(w :: 'a::len word) AND 0xff = take_bit 8 w"
  by (simp add: take_bit_eq_mask mask_eq_exp_minus_1)

lemma ucast_take_bit_8: "(ucast (take_bit 8 w) :: byte) = ucast (w :: 'a::len word)"
  by (rule bit_word_eqI) (auto simp: bit_simps)

lemma and_0xff00: "(ucast (drop_bit 8 ((v :: u16) AND 0xFF00)) :: byte) = ucast (drop_bit 8 v)"
proof -
  have "drop_bit 8 (0xFF00 :: u16) = 0xFF" by simp
  then show ?thesis by (simp only: drop_bit_and and_0xff ucast_take_bit_8)
qed

lemma appends_WriteUint16: "appends (WriteUint16 v) (bytes16 v)"
  using appends_or_else [OF appends_WriteByte appends_WriteByte, of "ucast (drop_bit 8 v)" "ucast v"]
  by (simp add: WriteUint16_def bytes16_def and_0xff00 and_0xff ucast_take_bit_8)

lemma appends_WriteUint32: "appends (WriteUint32 v) (bytes32 v)"
  using appends_or_else [OF appends_or_else [OF appends_or_else [OF appends_WriteByte appends_WriteByte] appends_WriteByte] appends_WriteByte,
      of "ucast (drop_bit 24 v)" "ucast (drop_bit 16 v)" "ucast (drop_bit 8 v)" "ucast v"]
  by (simp add: WriteUint32_def bytes32_def and_0xff ucast_take_bit_8)

lemma appends_WriteStr:
  assumes "length s < 2 ^ 16"
  shows "appends (WriteStr s) (bytes16 (of_nat (length s)) @ s)"
proof -
  have "unat (of_nat (length s) :: u16) = length s"
    using assms by (simp add: unat_of_nat take_bit_nat_eq_self)
  then have "ucast (of_nat (length s) :: u16) = (of_nat (length s) :: u32)"
    using assms unat_of_nat_32 [of "length s"] by (simp add: word_unat_eq_iff)
  then have "appends (WriteBytes (c_mem s) (ucast (of_nat (length s) :: u16))) s"
    by (intro appends_WriteBytes) (simp_all add: c_mem_def)
  then show ?thesis
    unfolding WriteStr_def Let_def by (intro appends_or_else appends_WriteUint16)
qed

end
