(* ===== verification/Edp_Packet.thy ===== *)
theory Edp_Packet
  imports Edp_Buffer
begin

text \<open>
  The packets of the EDP protocol (\<^verbatim>\<open>edp/EdpKit.c\<close>): one function per packet that the client
  sends, the framing of the received stream, one function per packet that it receives.

  A packing function ignores the return codes of the writing functions; \<open>statements\<close> is such a
  sequence of calls. It returns the packet, or \<open>None\<close> for the null pointer. The functions of
  \<^verbatim>\<open>cJSON.c\<close> are parameters: \<open>cJSON_Print\<close> gives a string or a null pointer, \<open>cJSON_Parse\<close> an
  object or a null pointer, and both may call \<^verbatim>\<open>malloc\<close>. An unpacking function that fails leaves
  \<open>Inl\<close> of its return code; what it had stored through its pointers before is left out.
\<close>

subsection \<open>Packet types and return codes\<close>

abbreviation CONNREQ :: byte where "CONNREQ \<equiv> 0x10"
abbreviation CONNRESP :: byte where "CONNRESP \<equiv> 0x20"
abbreviation PUSHDATA :: byte where "PUSHDATA \<equiv> 0x30"
abbreviation SAVEDATA :: byte where "SAVEDATA \<equiv> 0x80"
abbreviation SAVEACK :: byte where "SAVEACK \<equiv> 0x90"
abbreviation CMDREQ :: byte where "CMDREQ \<equiv> 0xA0"
abbreviation CMDRESP :: byte where "CMDRESP \<equiv> 0xB0"
abbreviation PINGREQ :: byte where "PINGREQ \<equiv> 0xC0"
abbreviation PINGRESP :: byte where "PINGRESP \<equiv> 0xD0"
abbreviation kTypeBin :: byte where "kTypeBin \<equiv> 2"
abbreviation kTypeString :: byte where "kTypeString \<equiv> 5"
abbreviation PROTOCOL_NAME :: "byte list" where "PROTOCOL_NAME \<equiv> [0x45, 0x44, 0x50]"
abbreviation PROTOCOL_VERSION :: byte where "PROTOCOL_VERSION \<equiv> 1"

abbreviation ERR_UNPACK_CONNRESP_REMAIN :: int where "ERR_UNPACK_CONNRESP_REMAIN \<equiv> -1000"
abbreviation ERR_UNPACK_CONNRESP_FLAG :: int where "ERR_UNPACK_CONNRESP_FLAG \<equiv> -1001"
abbreviation ERR_UNPACK_CONNRESP_RTN :: int where "ERR_UNPACK_CONNRESP_RTN \<equiv> -1002"
abbreviation ERR_UNPACK_PUSHD_REMAIN :: int where "ERR_UNPACK_PUSHD_REMAIN \<equiv> -1010"
abbreviation ERR_UNPACK_PUSHD_DEVID :: int where "ERR_UNPACK_PUSHD_DEVID \<equiv> -1011"
abbreviation ERR_UNPACK_PUSHD_DATA :: int where "ERR_UNPACK_PUSHD_DATA \<equiv> -1012"
abbreviation ERR_UNPACK_SAVED_REMAIN :: int where "ERR_UNPACK_SAVED_REMAIN \<equiv> -1020"
abbreviation ERR_UNPACK_SAVED_TANSFLAG :: int where "ERR_UNPACK_SAVED_TANSFLAG \<equiv> -1021"
abbreviation ERR_UNPACK_SAVED_DEVID :: int where "ERR_UNPACK_SAVED_DEVID \<equiv> -1022"
abbreviation ERR_UNPACK_SAVED_DATAFLAG :: int where "ERR_UNPACK_SAVED_DATAFLAG \<equiv> -1023"
abbreviation ERR_UNPACK_SAVED_JSON :: int where "ERR_UNPACK_SAVED_JSON \<equiv> -1024"
abbreviation ERR_UNPACK_SAVED_PARSEJSON :: int where "ERR_UNPACK_SAVED_PARSEJSON \<equiv> -1025"
abbreviation ERR_UNPACK_SAVED_BIN_DESC :: int where "ERR_UNPACK_SAVED_BIN_DESC \<equiv> -1026"
abbreviation ERR_UNPACK_SAVED_PARSEDESC :: int where "ERR_UNPACK_SAVED_PARSEDESC \<equiv> -1027"
abbreviation ERR_UNPACK_SAVED_BINLEN :: int where "ERR_UNPACK_SAVED_BINLEN \<equiv> -1028"
abbreviation ERR_UNPACK_SAVED_BINDATA :: int where "ERR_UNPACK_SAVED_BINDATA \<equiv> -1029"
abbreviation ERR_UNPACK_PING_REMAIN :: int where "ERR_UNPACK_PING_REMAIN \<equiv> -1030"
abbreviation ERR_UNPACK_CMDREQ :: int where "ERR_UNPACK_CMDREQ \<equiv> -1031"
abbreviation ERR_UNPACK_SAVEDATA_ACK :: int where "ERR_UNPACK_SAVEDATA_ACK \<equiv> -1033"

subsection \<open>Packing\<close>

type_synonym edp_packed = "(edp_buffer option \<times> bool list) option"

fun statements :: "edp_write list \<Rightarrow> edp_state \<Rightarrow> edp_state option" where
  "statements [] st = Some st"
| "statements (w # ws) st = do { (r, st) \<leftarrow> w st; statements ws st }"

definition fill :: "edp_write list \<Rightarrow> edp_buffer \<times> bool list \<Rightarrow> edp_packed" where
  "fill ws st = do { (pkg, ms) \<leftarrow> statements ws st; Some (Some pkg, ms) }"

text \<open>\<open>pack ws\<close> is \<^verbatim>\<open>pkg = NewBuffer(); ...; return pkg;\<close> with no test for a null pointer, which
  the first writing function follows.\<close>

definition pack :: "edp_write list \<Rightarrow> bool list \<Rightarrow> edp_packed" where
  "pack ws ms = (case NewBuffer ms of (None, ms) \<Rightarrow> None | (Some pkg, ms) \<Rightarrow> fill ws (pkg, ms))"

definition edp_strlen :: "byte list \<Rightarrow> u32" where
  "edp_strlen s = of_nat (length s)"

definition PacketConnect1 :: "byte list \<Rightarrow> byte list \<Rightarrow> bool list \<Rightarrow> edp_packed" where
  "PacketConnect1 devid auth_key ms =
     (case NewBuffer ms of
        (None, ms) \<Rightarrow> Some (None, ms)
      | (Some pkg, ms) \<Rightarrow>
          fill [WriteByte CONNREQ,
                WriteRemainlen ((2 + 3) + 1 + 1 + 2 + (2 + edp_strlen devid) + (2 + edp_strlen auth_key)),
                WriteStr PROTOCOL_NAME,
                WriteByte PROTOCOL_VERSION,
                WriteByte 0x40,
                WriteUint16 0x0080,
                WriteStr devid,
                WriteStr auth_key] (pkg, ms))"

definition PacketConnect2 :: "byte list \<Rightarrow> byte list \<Rightarrow> bool list \<Rightarrow> edp_packed" where
  "PacketConnect2 userid auth_info =
     pack [WriteByte CONNREQ,
           WriteRemainlen ((2 + 3) + 1 + 1 + 2 + 2 + (2 + edp_strlen userid) + (2 + edp_strlen auth_info)),
           WriteStr PROTOCOL_NAME,
           WriteByte PROTOCOL_VERSION,
           WriteByte 0xC0,
           WriteUint16 0x0080,
           WriteByte 0x00,
           WriteByte 0x00,
           WriteStr userid,
           WriteStr auth_info]"

definition PacketPushdata :: "byte list \<Rightarrow> mem \<Rightarrow> u32 \<Rightarrow> bool list \<Rightarrow> edp_packed" where
  "PacketPushdata dst_devid data data_len =
     pack [WriteByte PUSHDATA,
           WriteRemainlen ((2 + edp_strlen dst_devid) + data_len),
           WriteStr dst_devid,
           WriteBytes data data_len]"

text \<open>The two branches that all save-data packets share; \<open>len\<close> is the length of what follows
  the type byte of the payload.\<close>

definition savedata_head :: "byte list option \<Rightarrow> u32 \<Rightarrow> edp_write list" where
  "savedata_head dst_devid len =
     (case dst_devid of
        Some dst_devid \<Rightarrow>
          [WriteRemainlen (1 + (2 + edp_strlen dst_devid) + 1 + len), WriteByte 0x80, WriteStr dst_devid]
      | None \<Rightarrow> [WriteRemainlen (1 + 1 + len), WriteByte 0x00])"

definition PacketSavedataJson ::
    "('j \<Rightarrow> bool list \<Rightarrow> byte list option \<times> bool list) \<Rightarrow> byte list option \<Rightarrow> 'j \<Rightarrow> u32 \<Rightarrow>
     bool list \<Rightarrow> edp_packed" where
  "PacketSavedataJson cJSON_Print dst_devid json_obj type ms =
     (case NewBuffer ms of (pkg, ms) \<Rightarrow>
        case (cJSON_Print json_obj ms, pkg) of
          ((Some json_out, ms), Some pkg) \<Rightarrow>
            fill ([WriteByte SAVEDATA] @ savedata_head dst_devid (2 + edp_strlen json_out) @
                  [WriteByte (ucast type), WriteStr json_out]) (pkg, ms)
        | _ \<Rightarrow> None)"

definition desc_refused :: "byte list \<Rightarrow> u32 \<Rightarrow> bool" where
  "desc_refused desc bin_len = (0x10000 < edp_strlen desc \<or> 3 * 0x100000 < bin_len)"

definition PacketSavedataBin ::
    "('j \<Rightarrow> bool list \<Rightarrow> byte list option \<times> bool list) \<Rightarrow> ('j \<Rightarrow> bool) \<Rightarrow> byte list option \<Rightarrow> 'j \<Rightarrow>
     u32 \<Rightarrow> bool list \<Rightarrow> edp_packed" where
  "PacketSavedataBin cJSON_Print has_ds_id dst_devid desc_obj bin_len ms =
     (case cJSON_Print desc_obj ms of
        (None, ms) \<Rightarrow> None
      | (Some desc_out, ms) \<Rightarrow>
          if desc_refused desc_out bin_len \<or> \<not> has_ds_id desc_obj then Some (None, ms)
          else pack ([WriteByte SAVEDATA] @
                     savedata_head dst_devid ((2 + edp_strlen desc_out) + (4 + bin_len)) @
                     [WriteByte 0x02, WriteStr desc_out, WriteUint32 bin_len]) ms)"

definition PacketSavedataBinStr ::
    "byte list option \<Rightarrow> byte list \<Rightarrow> mem \<Rightarrow> u32 \<Rightarrow> bool list \<Rightarrow> edp_packed" where
  "PacketSavedataBinStr dst_devid desc_str bin_data bin_len ms =
     (if desc_refused desc_str bin_len then Some (None, ms)
      else pack ([WriteByte SAVEDATA] @
                 savedata_head dst_devid ((2 + edp_strlen desc_str) + (4 + bin_len)) @
                 [WriteByte 0x02, WriteStr desc_str, WriteUint32 bin_len,
                  WriteBytes bin_data bin_len]) ms)"

definition PacketCmdResp :: "mem \<Rightarrow> u16 \<Rightarrow> mem \<Rightarrow> u32 \<Rightarrow> bool list \<Rightarrow> edp_packed" where
  "PacketCmdResp cmdid cmdid_len resp resp_len =
     pack ([WriteByte CMDRESP,
            WriteRemainlen (ucast cmdid_len + resp_len + (if resp_len \<noteq> 0 then 6 else 2)),
            WriteUint16 cmdid_len,
            WriteBytes cmdid (ucast cmdid_len)] @
           (if resp_len \<noteq> 0 then [WriteUint32 resp_len, WriteBytes resp resp_len] else []))"

definition PacketPing :: "bool list \<Rightarrow> edp_packed" where
  "PacketPing = pack [WriteByte PINGREQ, WriteRemainlen 0]"

definition PacketSavedataSimpleString :: "byte list option \<Rightarrow> byte list \<Rightarrow> bool list \<Rightarrow> edp_packed" where
  "PacketSavedataSimpleString dst_devid input =
     pack ([WriteByte SAVEDATA] @ savedata_head dst_devid (2 + edp_strlen input) @
           [WriteByte kTypeString, WriteStr input])"

subsection \<open>Framing\<close>

text \<open>\<open>Inl\<close> is a \<^verbatim>\<open>return\<close> inside the loop, \<open>Inr\<close> the values of \<^verbatim>\<open>len_len\<close> and \<^verbatim>\<open>len_val\<close> after it;
  \<^verbatim>\<open>pdigit\<close> is \<^verbatim>\<open>data + len_len - 1\<close>.\<close>

function remainlen_complete :: "mem \<Rightarrow> u32 \<Rightarrow> nat \<Rightarrow> u32 \<Rightarrow> u32 \<Rightarrow> (int + nat \<times> u32) option" where
  "remainlen_complete data data_len len_len multiplier len_val =
     (if 4 < len_len then Some (Inl (-1))
      else if of_nat len_len > data_len - 1 then Some (Inl 0)
      else case peek data len_len of
             None \<Rightarrow> None
           | Some digit \<Rightarrow>
               (let len_len = len_len + 1;
                    len_val = len_val + ucast (digit AND 0x7f) * multiplier;
                    multiplier = multiplier * 0x80
                in if digit AND 0x80 \<noteq> 0
                   then remainlen_complete data data_len len_len multiplier len_val
                   else Some (Inr (len_len, len_val))))"
  by pat_completeness auto
termination
  by (relation "measure (\<lambda>(d, dl, len_len, m, l). 5 - len_len)") auto

declare remainlen_complete.simps [simp del]

definition IsPkgComplete :: "edp_buffer \<Rightarrow> int option" where
  "IsPkgComplete buf =
     (if write_pos buf \<le> 1 then Some 0
      else case remainlen_complete (edp_data buf) (write_pos buf) 1 1 0 of
             None \<Rightarrow> None
           | Some (Inl r) \<Rightarrow> Some r
           | Some (Inr (len_len, len_val)) \<Rightarrow>
               (let pkg_total_len = of_nat len_len + len_val
                in Some (if pkg_total_len \<le> write_pos buf then sint pkg_total_len else 0)))"

text \<open>The result is the packet and the receive buffer.\<close>

definition GetEdpPacket :: "edp_state \<Rightarrow> (edp_buffer option \<times> edp_state) option" where
  "GetEdpPacket = (\<lambda>(buf, ms). do {
     flag \<leftarrow> IsPkgComplete buf;
     if flag \<le> 0 then Some (None, (buf, ms))
     else case NewBuffer ms of
            (None, ms) \<Rightarrow> None
          | (Some pkg, ms) \<Rightarrow> do {
              (r, (pkg, ms)) \<leftarrow> WriteBytes (edp_data buf) (of_int flag) (pkg, ms);
              let rest = write_pos buf - of_int flag;
              d \<leftarrow> block_copy (edp_data buf) 0 (edp_data buf) (nat flag) (unat rest);
              Some (Some pkg, (buf\<lparr>edp_data := d, write_pos := rest\<rparr>, ms))
            }
   })"

subsection \<open>Unpacking\<close>

definition EdpPacketType :: "edp_state \<Rightarrow> (byte \<times> edp_state) option" where
  "EdpPacketType st = do {
     (r, st) \<leftarrow> ReadByte st;
     Some (case r of Inl rc \<Rightarrow> 0 | Inr mtype \<Rightarrow> mtype, st)
   }"

text \<open>The \<^verbatim>\<open>rtn\<close> byte is the return code of the call.\<close>

definition UnpackConnectResp :: "byte edp_read" where
  "UnpackConnectResp =
     or_return ReadRemainlen (\<lambda>_. ERR_UNPACK_CONNRESP_REMAIN) (\<lambda>remainlen.
     or_return ReadByte (\<lambda>_. ERR_UNPACK_CONNRESP_FLAG) (\<lambda>flag.
     or_return ReadByte (\<lambda>_. ERR_UNPACK_CONNRESP_RTN) (\<lambda>rtn.
     return_value rtn)))"

text \<open>\<^verbatim>\<open>*src_devid\<close>, \<^verbatim>\<open>*data\<close> and \<^verbatim>\<open>*data_len\<close>.\<close>

definition UnpackPushdata :: "(mem \<times> mem \<times> u32) edp_read" where
  "UnpackPushdata =
     or_return ReadRemainlen (\<lambda>_. ERR_UNPACK_PUSHD_REMAIN) (\<lambda>remainlen.
     or_return ReadStr (\<lambda>_. ERR_UNPACK_PUSHD_DEVID) (\<lambda>src_devid.
     case c_string src_devid of
       None \<Rightarrow> (\<lambda>st. None)
     | Some s \<Rightarrow>
         (let remainlen = remainlen - (2 + edp_strlen s)
          in or_return (ReadBytes remainlen) (\<lambda>_. ERR_UNPACK_PUSHD_DATA) (\<lambda>data.
             return_value (src_devid, data, remainlen)))))"

text \<open>\<^verbatim>\<open>*src_devid\<close>, which may be a null pointer, and \<^verbatim>\<open>*jb_flag\<close>.\<close>

definition UnpackSavedata :: "(mem option \<times> byte) edp_read" where
  "UnpackSavedata =
     or_return ReadRemainlen (\<lambda>_. ERR_UNPACK_SAVED_REMAIN) (\<lambda>remainlen.
     or_return ReadByte (\<lambda>_. ERR_UNPACK_SAVED_TANSFLAG) (\<lambda>ta_flag.
     or_return (if ta_flag = 0x80
                then or_return ReadStr (\<lambda>_. ERR_UNPACK_SAVED_DEVID) (\<lambda>s. return_value (Some s))
                else return_value None) (\<lambda>rc. rc) (\<lambda>src_devid.
     or_return ReadByte (\<lambda>_. ERR_UNPACK_SAVED_DATAFLAG) (\<lambda>jb_flag.
     return_value (src_devid, jb_flag)))))"

definition parse_json ::
    "(mem \<Rightarrow> bool list \<Rightarrow> 'j option \<times> bool list) \<Rightarrow> int \<Rightarrow> mem \<Rightarrow> 'j edp_read" where
  "parse_json cJSON_Parse e s = (\<lambda>(pkg, ms).
     case cJSON_Parse s ms of
       (None, ms) \<Rightarrow> Some (Inl e, (pkg, ms))
     | (Some obj, ms) \<Rightarrow> Some (Inr obj, (pkg, ms)))"

definition UnpackSavedataJson :: "(mem \<Rightarrow> bool list \<Rightarrow> 'j option \<times> bool list) \<Rightarrow> 'j edp_read" where
  "UnpackSavedataJson cJSON_Parse =
     or_return ReadStr (\<lambda>_. ERR_UNPACK_SAVED_JSON)
       (parse_json cJSON_Parse ERR_UNPACK_SAVED_PARSEJSON)"

text \<open>\<^verbatim>\<open>*desc_obj\<close>, \<^verbatim>\<open>*bin_data\<close> and \<^verbatim>\<open>*bin_len\<close>.\<close>

definition UnpackSavedataBin ::
    "(mem \<Rightarrow> bool list \<Rightarrow> 'j option \<times> bool list) \<Rightarrow> ('j \<times> mem \<times> u32) edp_read" where
  "UnpackSavedataBin cJSON_Parse =
     or_return ReadStr (\<lambda>_. ERR_UNPACK_SAVED_BIN_DESC) (\<lambda>desc_str.
     or_return (parse_json cJSON_Parse ERR_UNPACK_SAVED_PARSEDESC desc_str) (\<lambda>rc. rc) (\<lambda>desc_obj.
     or_return ReadUint32 (\<lambda>_. ERR_UNPACK_SAVED_BINLEN) (\<lambda>bin_len.
     or_return (ReadBytes bin_len) (\<lambda>_. ERR_UNPACK_SAVED_BINDATA) (\<lambda>bin_data.
     return_value (desc_obj, bin_data, bin_len)))))"

definition UnpackSavedataBinStr :: "(mem \<times> mem \<times> u32) edp_read" where
  "UnpackSavedataBinStr =
     or_return ReadStr (\<lambda>_. ERR_UNPACK_SAVED_BIN_DESC) (\<lambda>desc_str.
     or_return ReadUint32 (\<lambda>_. ERR_UNPACK_SAVED_BINLEN) (\<lambda>bin_len.
     or_return (ReadBytes bin_len) (\<lambda>_. ERR_UNPACK_SAVED_BINDATA) (\<lambda>bin_data.
     return_value (desc_str, bin_data, bin_len))))"

text \<open>\<^verbatim>\<open>*cmdid\<close>, \<^verbatim>\<open>*cmdid_len\<close>, \<^verbatim>\<open>*req\<close> and \<^verbatim>\<open>*req_len\<close>.\<close>

definition UnpackCmdReq :: "(mem \<times> u16 \<times> mem \<times> u32) edp_read" where
  "UnpackCmdReq =
     or_return ReadRemainlen (\<lambda>_. ERR_UNPACK_CMDREQ) (\<lambda>remainlen.
     or_return ReadUint16 (\<lambda>rc. rc) (\<lambda>cmdid_len.
     or_return (ReadBytes (ucast cmdid_len)) (\<lambda>_. ERR_UNPACK_CMDREQ) (\<lambda>cmdid.
     or_return ReadUint32 (\<lambda>rc. rc) (\<lambda>req_len.
     or_return (ReadBytes req_len) (\<lambda>_. ERR_UNPACK_CMDREQ) (\<lambda>req.
     return_value (cmdid, cmdid_len, req, req_len))))))"

definition UnpackSavedataAck :: "mem edp_read" where
  "UnpackSavedataAck =
     or_return ReadRemainlen (\<lambda>_. ERR_UNPACK_SAVEDATA_ACK) (\<lambda>remainlen.
     or_return ReadByte (\<lambda>_. ERR_UNPACK_SAVEDATA_ACK) (\<lambda>flag.
     or_return ReadUint16 (\<lambda>_. ERR_UNPACK_SAVEDATA_ACK) (\<lambda>json_len.
     or_return (ReadBytes (ucast json_len)) (\<lambda>_. ERR_UNPACK_SAVEDATA_ACK) (\<lambda>json_ack.
     return_value json_ack))))"

definition UnpackPingResp :: "unit edp_read" where
  "UnpackPingResp =
     or_return ReadRemainlen (\<lambda>_. ERR_UNPACK_PING_REMAIN) (\<lambda>remainlen. return_value ())"

definition UnpackSavedataSimpleString :: "mem edp_read" where
  "UnpackSavedataSimpleString =
     or_return ReadStr (\<lambda>_. ERR_UNPACK_SAVED_JSON) (\<lambda>output. return_value output)"

end
