(* ===== verification/Edp_Wire.thy ===== *)
theory Edp_Wire
  imports Edp_Packet
begin

text \<open>
  What the EDP functions put on the wire and take from it. \<open>appends\<close> (theory \<open>Edp_Buffer\<close>)
  describes a writing function, \<open>reads\<close> a reading function by the bytes it consumes, and both
  compose; with them a packing function is the list of the bytes of its fields, and an unpacking
  function is run over such a list.
\<close>

subsection \<open>The remaining length\<close>

definition remainlen_bytes :: "u32 \<Rightarrow> byte list" where
  "remainlen_bytes l = snd (dump_length_loop 5 1 l)"

lemma remainlen_bytes_ok:
  "length_bytes (remainlen_bytes l)" "base128 (remainlen_bytes l) = unat l"
  "length (remainlen_bytes l) \<le> 5"
  "128 ^ (length (remainlen_bytes l) - 1) \<le> unat l \<or> length (remainlen_bytes l) = 1"
proof -
  have "unat l < 2 ^ LENGTH(32)" by (rule unsigned_less)
  then have "unat l < 128 ^ Suc 4" by simp
  from dump_length_loop_ok [OF this, of 1]
  have "length_bytes (remainlen_bytes l) \<and> base128 (remainlen_bytes l) = unat l \<and>
    length (remainlen_bytes l) \<le> 5 \<and>
    (128 ^ (length (remainlen_bytes l) - 1) \<le> unat l \<or> length (remainlen_bytes l) = 1)"
    by (auto simp: remainlen_bytes_def numeral_eq_Suc simp del: dump_length_loop.simps)
  then show "length_bytes (remainlen_bytes l)" "base128 (remainlen_bytes l) = unat l"
    "length (remainlen_bytes l) \<le> 5"
    "128 ^ (length (remainlen_bytes l) - 1) \<le> unat l \<or> length (remainlen_bytes l) = 1"
    by blast+
qed

lemma remainlen_bytes_short: "unat l < 2 ^ 28 \<Longrightarrow> length (remainlen_bytes l) \<le> 4"
proof (rule ccontr)
  assume "unat l < 2 ^ 28" "\<not> length (remainlen_bytes l) \<le> 4"
  then have "length (remainlen_bytes l) = 5" using remainlen_bytes_ok(3) [of l] by linarith
  then show False using remainlen_bytes_ok(4) [of l] \<open>unat l < 2 ^ 28\<close> by simp
qed

lemma write_remainlen_loop_ok:
  "shape buf k acc \<Longrightarrow> length acc + n \<le> 2 ^ (7 + k) \<Longrightarrow>
   \<exists>buf'. write_remainlen_loop n l (buf, ms) = Some (0, (buf', ms)) \<and>
     shape buf' k (acc @ snd (dump_length_loop n i l))"
proof (induction n arbitrary: buf acc l i)
  case (Suc n)
  define b where "b = (if l div 128 > 0 then ucast (l mod 128) OR 0x80 else ucast (l mod 128) :: byte)"
  have len: "length (edp_data buf) = 2 ^ (7 + k)" using Suc.prems by (simp add: shape_def)
  have fl: "filled (edp_data buf) acc" using Suc.prems(1) by (simp add: shape_def)
  have room: "length acc + length [b] \<le> length (edp_data buf)" using Suc.prems(2) len by simp
  obtain d where d: "poke (edp_data buf) (length acc) [b] = Some d" "filled d (acc @ [b])"
    "length d = length (edp_data buf)"
    by (rule poke_filled [OF fl refl room])
  have "shape (buf\<lparr>edp_data := d, write_pos := write_pos buf + 1\<rparr>) k (acc @ [b])"
    by (rule shape_append [OF Suc.prems(1) d(2)]) (simp_all add: d(3) len)
  note IH = Suc.IH [OF this]
  have step: "write_remainlen_loop (Suc n) l (buf, ms) =
    (let st = (buf\<lparr>edp_data := d, write_pos := write_pos buf + 1\<rparr>, ms)
     in if l div 128 > 0 then write_remainlen_loop n (l div 128) st else Some (0, st))"
    using d(1) by (simp add: b_def Let_def shape_write_pos [OF Suc.prems(1)])
  show ?case
  proof (cases "l div 128 > 0")
    case True
    from IH [of "l div 128" "i + 1"] Suc.prems(2) obtain buf' where
      "write_remainlen_loop n (l div 128) (buf\<lparr>edp_data := d, write_pos := write_pos buf + 1\<rparr>, ms) =
         Some (0, (buf', ms))"
      "shape buf' k ((acc @ [b]) @ snd (dump_length_loop n (i + 1) (l div 128)))" by auto
    then show ?thesis
      using True unfolding step by (auto simp: b_def Let_def case_prod_beta)
  next
    case False
    with \<open>shape (buf\<lparr>edp_data := d, write_pos := write_pos buf + 1\<rparr>) k (acc @ [b])\<close>
    show ?thesis unfolding step by (auto simp: b_def Let_def)
  qed
qed simp

lemma WriteRemainlen_ok:
  "holds m st acc \<Longrightarrow> length acc \<le> 100 \<Longrightarrow>
   \<exists>st'. WriteRemainlen l st = Some (0, st') \<and> holds m st' (acc @ remainlen_bytes l)"
proof -
  assume h: "holds m st acc" and le: "length acc \<le> 100"
  obtain buf ms where st: "st = (buf, ms)" by (cases st)
  from h obtain k where k: "shape buf k acc" "m + (24 - k) \<le> avail ms" by (auto simp: holds_def st)
  have "(2 :: nat) ^ 7 \<le> 2 ^ (7 + k)" by (intro power_increasing) auto
  with le have "length acc + 5 \<le> 2 ^ (7 + k)" by simp
  from write_remainlen_loop_ok [OF k(1) this, of l ms 1] k(2)
  show ?thesis by (auto simp: WriteRemainlen_def remainlen_bytes_def st holds_def)
qed

subsection \<open>Packing\<close>

lemma NewBuffer_shape:
  assumes "2 \<le> avail ms"
  shows "\<exists>pkg ms'. NewBuffer ms = (Some pkg, ms') \<and> shape pkg 0 [] \<and> avail ms = avail ms' + 2"
proof -
  from assms obtain ms1 where 1: "edp_malloc ms = (True, ms1)" "avail ms = Suc (avail ms1)"
    using edp_malloc_served [of ms] by auto
  then obtain ms2 where 2: "edp_malloc ms1 = (True, ms2)" "avail ms1 = Suc (avail ms2)"
    using assms edp_malloc_served [of ms1] by auto
  have "shape \<lparr>edp_data = replicate 128 None, write_pos = 0, read_pos = 0, capacity = 128\<rparr> 0 []"
    by (simp add: shape_def)
  with 1 2 show ?thesis by (simp add: NewBuffer_def)
qed

lemma NewBuffer_ok:
  "26 + m \<le> avail ms \<Longrightarrow> \<exists>pkg ms'. NewBuffer ms = (Some pkg, ms') \<and> holds m (pkg, ms') []"
  using NewBuffer_shape [of ms] by (fastforce simp: holds_def)

lemma NewBuffer_refused: "avail ms \<le> 1 \<Longrightarrow> \<exists>ms'. NewBuffer ms = (None, ms')"
  by (cases ms) (auto simp: NewBuffer_def edp_malloc_def split: list.splits if_splits)

lemma statements_ok:
  "list_all2 appends ws bss \<Longrightarrow> holds m st acc \<Longrightarrow> length acc + length (concat bss) \<le> 2 ^ 31 \<Longrightarrow>
   \<exists>st'. statements ws st = Some st' \<and> holds m st' (acc @ concat bss)"
proof (induction ws bss arbitrary: st acc rule: list_all2_induct)
  case (Cons w ws bs bss)
  from appendsD [OF Cons.hyps(1) Cons.prems(1)] Cons.prems(2) obtain st1 where
    1: "w st = Some (0, st1)" "holds m st1 (acc @ bs)" by auto
  from Cons.IH [OF 1(2)] Cons.prems(2) 1(1) show ?case by auto
qed simp

text \<open>\<open>packed pkg bs\<close>: the bytes from \<^verbatim>\<open>_data\<close> up to \<^verbatim>\<open>_write_pos\<close> are \<open>bs\<close>.\<close>

definition packed :: "edp_buffer \<Rightarrow> byte list \<Rightarrow> bool" where
  "packed pkg bs \<longleftrightarrow> mem_slice (edp_data pkg) 0 (unat (write_pos pkg)) = Some bs \<and> read_pos pkg = 0"

lemma shape_packed: "shape buf k acc \<Longrightarrow> packed buf acc"
  using shape_write_pos [of buf k acc]
  by (auto simp: packed_def shape_def filled_def mem_slice_Some)

definition edp_frame :: "byte \<Rightarrow> u32 \<Rightarrow> byte list \<Rightarrow> byte list" where
  "edp_frame t l body = t # remainlen_bytes l @ body"

lemma pack_ok:
  assumes "ws = WriteByte t # WriteRemainlen l # ws'" "list_all2 appends ws' bss" "concat bss = body"
    and "length body \<le> 2 ^ 30" "26 + m \<le> avail ms"
  shows "\<exists>pkg ms'. pack ws ms = Some (Some pkg, ms') \<and> packed pkg (edp_frame t l body) \<and>
    m \<le> avail ms'"
proof -
  from NewBuffer_ok [OF assms(5)] obtain p0 ms0 where
    0: "NewBuffer ms = (Some p0, ms0)" "holds m (p0, ms0) []" by blast
  from appendsD [OF appends_WriteByte 0(2), of t] obtain st1 where
    1: "WriteByte t (p0, ms0) = Some (0, st1)" "holds m st1 [t]" by auto
  from WriteRemainlen_ok [OF 1(2), of l] obtain st2 where
    2: "WriteRemainlen l st1 = Some (0, st2)" "holds m st2 ([t] @ remainlen_bytes l)" by auto
  have "length ([t] @ remainlen_bytes l) + length (concat bss) \<le> 2 ^ 31"
    using assms(3,4) remainlen_bytes_ok(3) [of l] by simp
  from statements_ok [OF assms(2) 2(2) this] obtain pkg ms' where
    3: "statements ws' st2 = Some (pkg, ms')" "holds m (pkg, ms') (edp_frame t l body)"
    by (auto simp: assms(3) edp_frame_def)
  then have "packed pkg (edp_frame t l body)" "m \<le> avail ms'"
    by (auto simp: holds_def intro: shape_packed)
  moreover have "pack ws ms = Some (Some pkg, ms')"
    using 0 1 2 3 by (simp add: pack_def fill_def assms(1))
  ultimately show ?thesis by blast
qed

subsection \<open>Reading\<close>

text \<open>\<open>unread m st bs\<close>: \<open>bs\<close> is what lies between the read and the write position, and \<open>m\<close> calls
  of \<^verbatim>\<open>malloc\<close> will be served.\<close>

definition unread :: "nat \<Rightarrow> edp_state \<Rightarrow> byte list \<Rightarrow> bool" where
  "unread m = (\<lambda>(pkg, ms) bs. \<exists>p. unat (read_pos pkg) = p \<and> unat (write_pos pkg) = p + length bs \<and>
     mem_slice (edp_data pkg) p (length bs) = Some bs \<and> p + length bs \<le> length (edp_data pkg) \<and>
     length (edp_data pkg) \<le> 2 ^ 31 \<and> m \<le> avail ms)"

definition reads :: "'a edp_read \<Rightarrow> byte list \<Rightarrow> 'a \<Rightarrow> nat \<Rightarrow> bool" where
  "reads rd bs x n \<longleftrightarrow> (\<forall>m st rest. unread (n + m) st (bs @ rest) \<longrightarrow>
     (\<exists>st'. rd st = Some (Inr x, st') \<and> unread m st' rest))"

definition refuses :: "'a edp_read \<Rightarrow> byte list \<Rightarrow> int \<Rightarrow> nat \<Rightarrow> bool" where
  "refuses rd bs e n \<longleftrightarrow> (\<forall>m st. unread (n + m) st bs \<longrightarrow>
     (\<exists>st'. rd st = Some (Inl e, st') \<and> m \<le> avail (snd st')))"

lemma readsD: "reads rd bs x n \<Longrightarrow> unread (n + m) st (bs @ rest) \<Longrightarrow>
    \<exists>st'. rd st = Some (Inr x, st') \<and> unread m st' rest"
  unfolding reads_def by blast

lemma refusesD: "refuses rd bs e n \<Longrightarrow> unread (n + m) st bs \<Longrightarrow>
    \<exists>st'. rd st = Some (Inl e, st') \<and> m \<le> avail (snd st')"
  unfolding refuses_def by blast

lemma unread_peek:
  "unread m (pkg, ms) bs \<Longrightarrow> i < length bs \<Longrightarrow> peek (edp_data pkg) (unat (read_pos pkg) + i) = Some (bs ! i)"
proof -
  assume "unread m (pkg, ms) bs" and i: "i < length bs"
  then have le: "unat (read_pos pkg) + length bs \<le> length (edp_data pkg)"
    and sl: "take (length bs) (drop (unat (read_pos pkg)) (edp_data pkg)) = map Some bs"
    by (auto simp: unread_def mem_slice_Some)
  from arg_cong [OF sl, of "\<lambda>m. m ! i"] i le show ?thesis by (simp add: peek_def)
qed

lemma unat_add_small: "unat a + unat b < 2 ^ 32 \<Longrightarrow> unat (a + b :: u32) = unat a + unat b"
  by (simp add: unat_word_ariths)

lemma unread_advance:
  assumes "unread m (pkg, ms) (bs @ rest)" "unat n = length bs" "m' \<le> avail ms'"
  shows "unread m' (pkg\<lparr>read_pos := read_pos pkg + n\<rparr>, ms') rest"
proof -
  from assms(1,2) have "unat (read_pos pkg + n) = unat (read_pos pkg) + length bs"
    by (subst unat_add_small) (auto simp: unread_def)
  moreover from assms(1) have "mem_slice (edp_data pkg) (unat (read_pos pkg) + length bs) (length rest) = Some rest"
    by (auto simp: unread_def mem_slice_Some take_add append_eq_append_conv_if algebra_simps)
  ultimately show ?thesis using assms by (auto simp: unread_def)
qed

text \<open>The test of the reading functions, where \<open>n\<close> does not wrap around.\<close>

lemma unread_test:
  assumes "unread m (pkg, ms) bs" "unat n < 2 ^ 31"
  shows "write_pos pkg < read_pos pkg + n \<longleftrightarrow> length bs < unat n"
proof -
  have "unat (read_pos pkg + n) = unat (read_pos pkg) + unat n"
    using assms by (subst unat_add_small) (auto simp: unread_def)
  then show ?thesis using assms(1) by (auto simp: unread_def word_less_nat_alt)
qed

lemma reads_return_value: "reads (return_value x) [] x 0"
  by (simp add: reads_def return_value_def)

lemma reads_or_return:
  assumes "reads rd bs x n" "reads (k x) cs y n'"
  shows "reads (or_return rd e k) (bs @ cs) y (n + n')"
  unfolding reads_def
proof (intro allI impI)
  fix m st rest
  assume u: "unread (n + n' + m) st ((bs @ cs) @ rest)"
  from readsD [OF assms(1), of "n' + m" st "cs @ rest"] u obtain st1 where
    1: "rd st = Some (Inr x, st1)" "unread (n' + m) st1 (cs @ rest)" by (auto simp: add.assoc)
  from readsD [OF assms(2) 1(2)] 1(1)
  show "\<exists>st'. or_return rd e k st = Some (Inr y, st') \<and> unread m st' rest"
    by (auto simp: or_return_def)
qed

lemma reads_step:
  "reads rd bs x n \<Longrightarrow> reads (k x) cs y n' \<Longrightarrow> zs = bs @ cs \<Longrightarrow> N = n + n' \<Longrightarrow>
   reads (or_return rd e k) zs y N"
  by (simp add: reads_or_return)

lemma reads_last: "reads rd bs x n \<Longrightarrow> reads (or_return rd e (\<lambda>x. return_value (f x))) bs (f x) n"
  by (rule reads_step [OF _ reads_return_value]) simp_all

lemma refuses_or_return_here:
  "refuses rd bs rc n \<Longrightarrow> refuses (or_return rd e k) bs (e rc) n"
  unfolding refuses_def or_return_def by fastforce

lemma refuses_or_return_later:
  assumes "reads rd bs x n" "refuses (k x) cs rc n'"
  shows "refuses (or_return rd e k) (bs @ cs) rc (n + n')"
  unfolding refuses_def
proof (intro allI impI)
  fix m st
  assume u: "unread (n + n' + m) st (bs @ cs)"
  from readsD [OF assms(1), of "n' + m" st cs] u obtain st1 where
    1: "rd st = Some (Inr x, st1)" "unread (n' + m) st1 cs" by (auto simp: add.assoc)
  from refusesD [OF assms(2) 1(2)] 1(1)
  show "\<exists>st'. or_return rd e k st = Some (Inl rc, st') \<and> m \<le> avail (snd st')"
    by (auto simp: or_return_def)
qed

lemma refuses_step:
  "reads rd bs x n \<Longrightarrow> refuses (k x) cs rc n' \<Longrightarrow> zs = bs @ cs \<Longrightarrow> N = n + n' \<Longrightarrow>
   refuses (or_return rd e k) zs rc N"
  by (simp add: refuses_or_return_later)

lemma refuses_mono: "refuses rd bs e n \<Longrightarrow> n \<le> n' \<Longrightarrow> refuses rd bs e n'"
  unfolding refuses_def
proof (intro allI impI)
  fix m st
  assume r: "\<forall>m st. unread (n + m) st bs \<longrightarrow> (\<exists>st'. rd st = Some (Inl e, st') \<and> m \<le> avail (snd st'))"
    and le: "n \<le> n'" and u: "unread (n' + m) st bs"
  have "unread (n + (n' - n + m)) st bs" using u le by simp
  with r obtain st' where "rd st = Some (Inl e, st')" "n' - n + m \<le> avail (snd st')" by blast
  then show "\<exists>st'. rd st = Some (Inl e, st') \<and> m \<le> avail (snd st')" by auto
qed

lemma reads_ReadByte: "reads ReadByte [b] b 0"
  unfolding reads_def
proof (intro allI impI)
  fix m st rest
  assume u: "unread (0 + m) st ([b] @ rest)"
  obtain pkg ms where st: "st = (pkg, ms)" by (cases st)
  from u unread_peek [of m pkg ms "b # rest" 0] unread_test [of m pkg ms "b # rest" 1]
  have "ReadByte st = Some (Inr b, (pkg\<lparr>read_pos := read_pos pkg + 1\<rparr>, ms))"
    by (simp add: ReadByte_def st)
  moreover have "unread m (pkg\<lparr>read_pos := read_pos pkg + 1\<rparr>, ms) rest"
    by (rule unread_advance [of m pkg ms "[b]"]) (use u in \<open>auto simp: st unread_def\<close>)
  ultimately show "\<exists>st'. ReadByte st = Some (Inr b, st') \<and> unread m st' rest" by blast
qed

lemma refuses_ReadByte: "refuses ReadByte [] (-1) 0"
  unfolding refuses_def
proof (intro allI impI)
  fix m st
  assume u: "unread (0 + m) st []"
  obtain pkg ms where st: "st = (pkg, ms)" by (cases st)
  from u unread_test [of m pkg ms "[]" 1] show "\<exists>st'. ReadByte st = Some (Inl (-1), st') \<and> m \<le> avail (snd st')"
    by (auto simp: ReadByte_def st unread_def)
qed

lemma word16_plus: "push_bit 8 (ucast (a :: byte)) + ucast (b :: byte) = (push_bit 8 (ucast a) OR ucast b :: u16)"
proof -
  have "push_bit 8 (ucast a :: u16) AND ucast b = 0"
    by (rule bit_word_eqI) (auto simp: bit_simps dest: bit_imp_le_length)
  then show ?thesis by (simp add: disjunctive_add_eq_or)
qed

lemma reads_ReadUint16: "reads ReadUint16 (bytes16 v) v 0"
  unfolding reads_def
proof (intro allI impI)
  fix m st rest
  assume u: "unread (0 + m) st (bytes16 v @ rest)"
  obtain pkg ms where st: "st = (pkg, ms)" by (cases st)
  have "unat (read_pos pkg + 1) = unat (read_pos pkg) + 1"
    using u by (subst unat_add_small) (auto simp: st unread_def)
  with u unread_peek [of m pkg ms "bytes16 v @ rest" 0] unread_peek [of m pkg ms "bytes16 v @ rest" 1]
    unread_test [of m pkg ms "bytes16 v @ rest" 2]
  have "ReadUint16 st = Some (Inr v, (pkg\<lparr>read_pos := read_pos pkg + 2\<rparr>, ms))"
    by (simp add: ReadUint16_def st bytes16_def word16_plus word16_of_bytes)
  moreover have "unread m (pkg\<lparr>read_pos := read_pos pkg + 2\<rparr>, ms) rest"
    by (rule unread_advance [of m pkg ms "bytes16 v"]) (use u in \<open>auto simp: st unread_def\<close>)
  ultimately show "\<exists>st'. ReadUint16 st = Some (Inr v, st') \<and> unread m st' rest" by blast
qed

lemma refuses_ReadUint16: "length bs < 2 \<Longrightarrow> refuses ReadUint16 bs (-1) 0"
  unfolding refuses_def
proof (intro allI impI)
  fix m st
  assume l: "length bs < 2" and u: "unread (0 + m) st bs"
  obtain pkg ms where st: "st = (pkg, ms)" by (cases st)
  from l u unread_test [of m pkg ms bs 2] show "\<exists>st'. ReadUint16 st = Some (Inl (-1), st') \<and> m \<le> avail (snd st')"
    by (auto simp: ReadUint16_def st unread_def)
qed

lemma word32_of_bytes:
  "push_bit 8 (push_bit 8 (push_bit 8 (push_bit 8 0 OR ucast (ucast (drop_bit 24 v) :: byte)) OR
     ucast (ucast (drop_bit 16 v) :: byte)) OR ucast (ucast (drop_bit 8 v) :: byte)) OR
     ucast (ucast v :: byte) = (v :: u32)" (is "?l = v")
proof (rule bit_word_eqI)
  fix n :: nat
  assume "n < LENGTH(32)"
  then have "n < 8 \<or> 8 \<le> n \<and> n < 16 \<or> 16 \<le> n \<and> n < 24 \<or> 24 \<le> n \<and> n < 32" by auto
  then show "bit ?l n = bit v n" by (auto simp: bit_simps)
qed

lemma read_uint32_loop_ok:
  "unread m (pkg, ms) (bs @ rest) \<Longrightarrow>
   \<exists>pkg'. read_uint32_loop (length bs) t (pkg, ms) =
       Some (Inr (foldl (\<lambda>t b. push_bit 8 t OR ucast b) t bs), (pkg', ms)) \<and>
     unread m (pkg', ms) rest"
proof (induction bs arbitrary: t pkg)
  case (Cons b bs)
  have "unread m (pkg\<lparr>read_pos := read_pos pkg + 1\<rparr>, ms) (bs @ rest)"
    by (rule unread_advance [of m pkg ms "[b]"]) (use Cons.prems in \<open>auto simp: unread_def\<close>)
  from Cons.IH [OF this, of "push_bit 8 t OR ucast b"] unread_peek [OF Cons.prems, of 0]
  show ?case by simp
qed simp

lemma reads_ReadUint32: "reads ReadUint32 (bytes32 v) v 0"
  unfolding reads_def
proof (intro allI impI)
  fix m st rest
  assume u: "unread (0 + m) st (bytes32 v @ rest)"
  obtain pkg ms where st: "st = (pkg, ms)" by (cases st)
  from u unread_test [of m pkg ms "bytes32 v @ rest" 4]
  have "ReadUint32 st = read_uint32_loop (length (bytes32 v)) 0 (pkg, ms)"
    by (simp add: ReadUint32_def st)
  moreover have "foldl (\<lambda>t b. push_bit 8 t OR ucast b) 0 (bytes32 v) = v"
    using word32_of_bytes [of v] by (simp only: bytes32_def foldl.simps)
  ultimately show "\<exists>st'. ReadUint32 st = Some (Inr v, st') \<and> unread m st' rest"
    using read_uint32_loop_ok [of m pkg ms "bytes32 v" rest 0] u by (auto simp: st)
qed

lemma refuses_ReadUint32: "length bs < 4 \<Longrightarrow> refuses ReadUint32 bs (-1) 0"
  unfolding refuses_def
proof (intro allI impI)
  fix m st
  assume l: "length bs < 4" and u: "unread (0 + m) st bs"
  obtain pkg ms where st: "st = (pkg, ms)" by (cases st)
  from l u unread_test [of m pkg ms bs 4] show "\<exists>st'. ReadUint32 st = Some (Inl (-1), st') \<and> m \<le> avail (snd st')"
    by (auto simp: ReadUint32_def st unread_def)
qed

lemma drop_replicate_Suc: "drop n (x # replicate n x) = [x]"
  by (induction n) (simp_all flip: replicate_append_same)

lemma unread_copy:
  "unread m (pkg, ms) (bs @ rest) \<Longrightarrow>
   block_copy (replicate (Suc (length bs)) (Some 0)) 0 (edp_data pkg) (unat (read_pos pkg)) (length bs) =
     Some (c_mem bs)"
proof -
  assume u: "unread m (pkg, ms) (bs @ rest)"
  then have le: "unat (read_pos pkg) + length bs \<le> length (edp_data pkg)"
    and sl: "take (length bs + length rest) (drop (unat (read_pos pkg)) (edp_data pkg)) = map Some (bs @ rest)"
    by (auto simp: unread_def mem_slice_Some)
  from arg_cong [OF sl, of "take (length bs)"]
  have "take (length bs) (drop (unat (read_pos pkg)) (edp_data pkg)) = map Some bs"
    by (simp add: min_absorb1)
  with le show ?thesis by (simp add: block_copy_def c_mem_def drop_replicate_Suc)
qed

lemma reads_ReadBytes:
  assumes "unat n = length bs" "unat n < 2 ^ 31"
  shows "reads (ReadBytes n) bs (c_mem bs) 1"
  unfolding reads_def
proof (intro allI impI)
  fix m st rest
  assume u: "unread (1 + m) st (bs @ rest)"
  obtain pkg ms where st: "st = (pkg, ms)" by (cases st)
  from u obtain ms' where ms': "edp_malloc ms = (True, ms')" "avail ms = Suc (avail ms')"
    using edp_malloc_served [of ms] by (auto simp: st unread_def)
  have n: "unat (n + 1) = Suc (length bs)" using assms by (subst unat_add_small) auto
  have "ReadBytes n st = Some (Inr (c_mem bs), (pkg\<lparr>read_pos := read_pos pkg + n\<rparr>, ms'))"
    using unread_test [OF u [unfolded st] assms(2)] unread_copy [OF u [unfolded st]] assms(1)
    by (simp add: ReadBytes_def st ms' n del: replicate_Suc)
  moreover have "unread m (pkg\<lparr>read_pos := read_pos pkg + n\<rparr>, ms') rest"
    by (rule unread_advance [OF u [unfolded st] assms(1)]) (use u ms' in \<open>auto simp: st unread_def\<close>)
  ultimately show "\<exists>st'. ReadBytes n st = Some (Inr (c_mem bs), st') \<and> unread m st' rest" by blast
qed

lemma refuses_ReadBytes:
  assumes "length bs < unat n" "unat n < 2 ^ 31"
  shows "refuses (ReadBytes n) bs (-1) 0"
  unfolding refuses_def
proof (intro allI impI)
  fix m st
  assume u: "unread (0 + m) st bs"
  obtain pkg ms where st: "st = (pkg, ms)" by (cases st)
  from assms u unread_test [of m pkg ms bs n]
  show "\<exists>st'. ReadBytes n st = Some (Inl (-1), st') \<and> m \<le> avail (snd st')"
    by (auto simp: ReadBytes_def st unread_def)
qed

text \<open>Where the sum in the test wraps around, the test is passed and the copy leaves the packet.\<close>

lemma ReadBytes_wraps:
  assumes "unread m (pkg, ms) bs" "2 ^ 32 \<le> unat (read_pos pkg) + unat n"
  shows "ReadBytes n (pkg, ms) = None"
proof -
  have n: "unat n < 2 ^ 32" "unat (read_pos pkg) < 2 ^ 32"
    using unsigned_less [of n] unsigned_less [of "read_pos pkg"] by simp_all
  then have "unat (read_pos pkg + n) = unat (read_pos pkg) + unat n - 2 ^ 32"
    using assms(2) by (simp add: unat_word_ariths mod_if)
  then have "\<not> write_pos pkg < read_pos pkg + n"
    using n(1) assms(1) by (auto simp: word_less_nat_alt unread_def)
  moreover have "block_copy x 0 (edp_data pkg) (unat (read_pos pkg)) (unat n) = None" for x
    using assms by (auto simp: block_copy_def unread_def)
  ultimately show ?thesis by (simp add: ReadBytes_def split: prod.split)
qed

text \<open>A string as \<^verbatim>\<open>strncpy\<close> delivers it: zeros from the first 0 on.\<close>

definition c_pad :: "byte list \<Rightarrow> byte list" where
  "c_pad bs = (let s = takeWhile (\<lambda>b. b \<noteq> 0) bs in s @ replicate (length bs - length s) 0)"

lemma length_c_pad [simp]: "length (c_pad bs) = length bs"
  by (simp add: c_pad_def Let_def length_takeWhile_le)

lemma c_pad_plain [simp]: "0 \<notin> set bs \<Longrightarrow> c_pad bs = bs"
proof -
  assume "0 \<notin> set bs"
  then have "takeWhile (\<lambda>b. b \<noteq> 0) bs = bs" by (auto simp: takeWhile_eq_all_conv)
  then show ?thesis by (simp only: c_pad_def Let_def) simp
qed

lemma c_pad_Cons: "c_pad (b # bs) = (if b = 0 then replicate (Suc (length bs)) 0 else b # c_pad bs)"
  by (simp add: c_pad_def Let_def)

lemma strncpy_bytes_ok:
  "(\<And>j. j < length bs \<Longrightarrow> peek m (i + j) = Some (bs ! j)) \<Longrightarrow>
   strncpy_bytes m i (length bs) = Some (c_pad bs)"
proof (induction bs arbitrary: i)
  case Nil
  then show ?case by (simp add: c_pad_def)
next
  case (Cons b bs)
  from Cons.prems [of 0] have "peek m i = Some b" by simp
  moreover have "strncpy_bytes m (Suc i) (length bs) = Some (c_pad bs)"
  proof (rule Cons.IH)
    fix j assume "j < length bs"
    then show "peek m (Suc i + j) = Some (bs ! j)" using Cons.prems [of "Suc j"] by simp
  qed
  ultimately show ?case by (simp add: c_pad_Cons)
qed

lemma c_string_c_pad: "c_string (c_mem (c_pad bs)) = Some (takeWhile (\<lambda>b. b \<noteq> 0) bs)"
proof (induction bs)
  case Nil
  then show ?case by (simp add: c_pad_def c_mem_def)
next
  case (Cons b bs)
  then show ?case by (auto simp: c_pad_Cons c_mem_def)
qed

lemma unat_u16_length: "length bs < 2 ^ 16 \<Longrightarrow> unat (of_nat (length bs) :: u16) = length bs"
  by (simp add: unat_of_nat take_bit_nat_eq_self)

lemma unat_u16_less: "unat (l :: u16) < 2 ^ 16"
proof -
  have "unat l < 2 ^ LENGTH(16)" by (rule unsigned_less)
  then show ?thesis by simp
qed

lemma reads_read_chars:
  assumes "unat l = length bs"
  shows "reads (read_chars l) bs (c_mem (c_pad bs)) 1"
  unfolding reads_def
proof (intro allI impI)
  fix m st rest
  assume u: "unread (1 + m) st (bs @ rest)"
  obtain pkg ms where st: "st = (pkg, ms)" by (cases st)
  from u obtain ms' where ms': "edp_malloc ms = (True, ms')" "avail ms = Suc (avail ms')"
    using edp_malloc_served [of ms] by (auto simp: st unread_def)
  have l: "unat (ucast l :: u32) = length bs" "unat (ucast l :: u32) < 2 ^ 31"
    using assms unat_u16_less [of l] by simp_all
  have "strncpy_bytes (edp_data pkg) (unat (read_pos pkg)) (length bs) = Some (c_pad bs)"
  proof (rule strncpy_bytes_ok)
    fix j assume "j < length bs"
    then show "peek (edp_data pkg) (unat (read_pos pkg) + j) = Some (bs ! j)"
      using unread_peek [OF u [unfolded st], of j] by (simp add: nth_append)
  qed
  then have "read_chars l st = Some (Inr (c_mem (c_pad bs)), (pkg\<lparr>read_pos := read_pos pkg + ucast l\<rparr>, ms'))"
    using unread_test [OF u [unfolded st] l(2)] assms
    by (simp add: read_chars_def st ms' poke_def c_mem_def drop_replicate_Suc)
  moreover have "unread m (pkg\<lparr>read_pos := read_pos pkg + ucast l\<rparr>, ms') rest"
    by (rule unread_advance [OF u [unfolded st] l(1)]) (use u ms' in \<open>auto simp: st unread_def\<close>)
  ultimately show "\<exists>st'. read_chars l st = Some (Inr (c_mem (c_pad bs)), st') \<and> unread m st' rest" by blast
qed

lemma refuses_read_chars:
  assumes "length bs < unat l"
  shows "refuses (read_chars l) bs (-1) 0"
  unfolding refuses_def
proof (intro allI impI)
  fix m st
  assume u: "unread (0 + m) st bs"
  obtain pkg ms where st: "st = (pkg, ms)" by (cases st)
  have "unat (ucast l :: u32) < 2 ^ 31" using unat_u16_less [of l] by simp
  from unread_test [OF _ this, of m pkg ms bs] u assms
  show "\<exists>st'. read_chars l st = Some (Inl (-1), st') \<and> m \<le> avail (snd st')"
    by (auto simp: read_chars_def st unread_def)
qed

definition wire_str :: "byte list \<Rightarrow> byte list" where
  "wire_str s = bytes16 (of_nat (length s)) @ s"

lemma reads_ReadStr: "length s < 2 ^ 16 \<Longrightarrow> reads ReadStr (wire_str s) (c_mem (c_pad s)) 1"
  using reads_or_return [where e = "\<lambda>rc. rc", OF reads_ReadUint16 reads_read_chars] unat_u16_length [of s]
  by (fastforce simp: ReadStr_def wire_str_def)

lemma refuses_ReadStr:
  "length bs < 2 \<Longrightarrow> refuses ReadStr bs (-1) 0"
  "length bs < unat l \<Longrightarrow> refuses ReadStr (bytes16 l @ bs) (-1) 0"
  using refuses_or_return_here [where e = "\<lambda>rc. rc", OF refuses_ReadUint16]
    refuses_or_return_later [where e = "\<lambda>rc. rc", OF reads_ReadUint16 refuses_read_chars]
  by (fastforce simp: ReadStr_def)+

lemma read_remainlen_loop_ok:
  "length_bytes lb \<Longrightarrow> n + length lb \<le> 4 \<Longrightarrow> mult = 128 ^ n \<Longrightarrow>
   reads (read_remainlen_loop n mult l) lb (l + mult * of_nat (base128 lb)) 0"
proof (induction lb arbitrary: n mult l rule: length_bytes.induct)
  case (2 b)
  show ?case
    unfolding reads_def
  proof (intro allI impI)
    fix m st rest
    assume u: "unread (0 + m) st ([b] @ rest)"
    from readsD [OF reads_ReadByte u] obtain st' where "ReadByte st = Some (Inr b, st')" "unread m st' rest"
      by blast
    then show "\<exists>st'. read_remainlen_loop n mult l st = Some (Inr (l + mult * of_nat (base128 [b])), st') \<and>
        unread m st' rest"
      using "2.prems"(1,2) by (subst read_remainlen_loop.simps) (simp add: Let_def mult.commute)
  qed
next
  case (3 b c lb)
  have lb: "b AND 0x80 \<noteq> 0" "length_bytes (c # lb)" using "3.prems"(1) by auto
  have IH: "reads (read_remainlen_loop (Suc n) (mult * 0x80) (l + ucast (b AND 0x7f) * mult)) (c # lb)
      (l + ucast (b AND 0x7f) * mult + mult * 0x80 * of_nat (base128 (c # lb))) 0"
    by (rule "3.IH") (use "3.prems" lb in \<open>auto simp: mult.commute\<close>)
  show ?case
    unfolding reads_def
  proof (intro allI impI)
    fix m st rest
    assume u: "unread (0 + m) st ((b # c # lb) @ rest)"
    from readsD [OF reads_ReadByte, of m st b "(c # lb) @ rest"] u obtain st1 where
      1: "ReadByte st = Some (Inr b, st1)" "unread (0 + m) st1 ((c # lb) @ rest)" by auto
    have "read_remainlen_loop n mult l st =
        read_remainlen_loop (Suc n) (mult * 0x80) (l + ucast (b AND 0x7f) * mult) st1"
      using 1(1) lb(1) "3.prems"(2) by (subst read_remainlen_loop.simps) (simp add: Let_def)
    with readsD [OF IH 1(2)]
    show "\<exists>st'. read_remainlen_loop n mult l st = Some (Inr (l + mult * of_nat (base128 (b # c # lb))), st') \<and>
        unread m st' rest"
      by (simp add: algebra_simps)
  qed
qed simp

lemma reads_ReadRemainlen:
  "length_bytes lb \<Longrightarrow> length lb \<le> 4 \<Longrightarrow> reads ReadRemainlen lb (of_nat (base128 lb)) 0"
  using read_remainlen_loop_ok [of lb 0 1 0] by (simp add: ReadRemainlen_def)

end
