(* ===== verification/Edp_Stream.thy ===== *)
theory Edp_Stream
  imports Edp_Wire
begin

text \<open>
  The received stream: how \<^verbatim>\<open>GetEdpPacket\<close> cuts what lies in the receive buffer into packets, and
  the calls of \<^verbatim>\<open>Recv_Thread_Func\<close> (\<^verbatim>\<open>edp/EdpDemo.c\<close>), each of which makes a receive buffer, writes
  one piece of the stream into it, takes packets out of it until there is none, and deletes it.
\<close>

subsection \<open>Whole packets\<close>

text \<open>A packet: a type, a remaining length of at most four bytes, and as many bytes as it says.\<close>

definition is_packet :: "byte list \<Rightarrow> bool" where
  "is_packet f \<longleftrightarrow> (\<exists>t lb body. f = t # lb @ body \<and> length_bytes lb \<and> length lb \<le> 4 \<and>
     base128 lb = length body)"

lemma is_packet_edp_frame:
  "unat l = length body \<Longrightarrow> length body < 2 ^ 28 \<Longrightarrow> is_packet (edp_frame t l body)"
  unfolding is_packet_def edp_frame_def
  using remainlen_bytes_ok(1,2) [of l] remainlen_bytes_short [of l] by auto

lemma base128_less: "base128 lb < 128 ^ length lb"
proof (induction lb)
  case (Cons b lb)
  have "unat (b AND 0x7f) < 128"
    by (simp add: and_0x7f unsigned_take_bit_eq take_bit_nat_def)
  with Cons show ?case by simp
qed simp

lemma base128_bound: "length lb \<le> 4 \<Longrightarrow> base128 lb < 2 ^ 28"
proof -
  assume "length lb \<le> 4"
  then have "(128 :: nat) ^ length lb \<le> 128 ^ 4" by (intro power_increasing) auto
  with base128_less [of lb] show ?thesis by simp
qed

lemma shape_peek: "shape buf k acc \<Longrightarrow> i < length acc \<Longrightarrow> peek (edp_data buf) i = Some (acc ! i)"
proof -
  assume "shape buf k acc" and i: "i < length acc"
  then have le: "length acc \<le> length (edp_data buf)" and f: "take (length acc) (edp_data buf) = map Some acc"
    by (auto simp: shape_def filled_def)
  from arg_cong [OF f, of "\<lambda>m. m ! i"] i le show ?thesis by (simp add: peek_def)
qed

lemma write_pos_test:
  assumes "shape buf k acc" "acc \<noteq> []" "n \<le> 5"
  shows "of_nat n > write_pos buf - 1 \<longleftrightarrow> length acc \<le> n"
proof -
  have w: "unat (write_pos buf) = length acc" by (rule shape_write_pos [OF assms(1)])
  then have "write_pos buf \<noteq> 0" using assms(2) by auto
  then have "unat (write_pos buf - 1) = length acc - 1" using w by (simp add: unat_minus_one)
  moreover have "unat (of_nat n :: u32) = n" using assms(3) by (intro unat_of_nat_32) simp
  moreover have "length acc - 1 < n \<longleftrightarrow> length acc \<le> n" using assms(2) by (cases acc) auto
  ultimately show ?thesis by (simp only: word_less_nat_alt)
qed

lemma remainlen_complete_ok:
  assumes "shape buf k acc"
  shows "length_bytes lb \<Longrightarrow> n + length lb \<le> 5 \<Longrightarrow> 1 \<le> n \<Longrightarrow> n + length lb \<le> length acc \<Longrightarrow>
    (\<And>j. j < length lb \<Longrightarrow> acc ! (n + j) = lb ! j) \<Longrightarrow> mult = 128 ^ (n - 1) \<Longrightarrow>
    remainlen_complete (edp_data buf) (write_pos buf) n mult l =
      Some (Inr (n + length lb, l + mult * of_nat (base128 lb)))"
proof (induction lb arbitrary: n mult l rule: length_bytes.induct)
  case (2 b)
  from "2.prems"(4) have "acc \<noteq> []" by auto
  with "2.prems" shape_peek [OF assms, of n] write_pos_test [OF assms this, of n]
  have "acc \<noteq> []" "peek (edp_data buf) n = Some b" "\<not> write_pos buf - 1 < of_nat n" by auto
  with "2.prems" show ?case by (subst remainlen_complete.simps) (simp add: Let_def mult.commute)
next
  case (3 b c lb)
  have p: "peek (edp_data buf) n = Some b"
    using shape_peek [OF assms, of n] "3.prems"(4) "3.prems"(5) [of 0] by simp
  have "remainlen_complete (edp_data buf) (write_pos buf) (Suc n) (mult * 0x80) (l + ucast (b AND 0x7f) * mult) =
    Some (Inr (Suc n + length (c # lb),
      l + ucast (b AND 0x7f) * mult + mult * 0x80 * of_nat (base128 (c # lb))))"
  proof (rule "3.IH")
    show "mult * 0x80 = 128 ^ (Suc n - 1)"
      using "3.prems"(3,6) by (cases n) simp_all
    fix j assume "j < length (c # lb)"
    then show "acc ! (Suc n + j) = (c # lb) ! j" using "3.prems"(5) [of "Suc j"] by simp
  qed (use "3.prems" in auto)
  moreover have "acc \<noteq> []" "n \<le> 5" "\<not> length acc \<le> n" "\<not> 4 < n" "b AND 0x80 \<noteq> 0"
    using "3.prems"(1-4) by auto
  ultimately show ?case
    using p write_pos_test [OF assms, of n]
    by (subst remainlen_complete.simps) (simp add: Let_def algebra_simps)
qed simp

text \<open>The length is not complete, or has more than four bytes.\<close>

lemma remainlen_complete_short:
  assumes "shape buf k acc"
  shows "1 \<le> n \<Longrightarrow> n \<le> length acc \<Longrightarrow> length acc \<le> 5 \<Longrightarrow>
    (\<And>j. n \<le> j \<Longrightarrow> j < length acc \<Longrightarrow> acc ! j AND 0x80 \<noteq> 0) \<Longrightarrow>
    remainlen_complete (edp_data buf) (write_pos buf) n mult l =
      Some (Inl (if length acc = 5 then -1 else 0))"
proof (induction "length acc - n" arbitrary: n mult l)
  case 0
  then have "acc \<noteq> []" by auto
  with 0 show ?case using write_pos_test [OF assms, of n]
    by (subst remainlen_complete.simps) auto
next
  case (Suc d)
  then have n: "n < length acc" and ne: "acc \<noteq> []" by auto
  show ?case
    using Suc.hyps(1) [of "Suc n"] Suc.hyps(2) Suc.prems n write_pos_test [OF assms ne, of n]
      shape_peek [OF assms n] Suc.prems(4) [of n]
    by (subst remainlen_complete.simps) (simp add: Let_def)
qed

lemma sint_small: "unat (w :: u32) < 2 ^ 31 \<Longrightarrow> sint w = int (unat w)"
proof -
  assume "unat w < 2 ^ 31"
  then have "int (unat w) < int (2 ^ 31)" by (simp only: of_nat_less_iff)
  moreover have "- (2 ^ 31) \<le> int (unat w)" by (rule order_trans [of _ 0]) simp_all
  ultimately have "signed_take_bit 31 (int (unat w)) = int (unat w)"
    by (intro signed_take_bit_int_eq_self) simp_all
  then show ?thesis unfolding sint_uint uint_nat by simp
qed

lemma IsPkgComplete_header:
  assumes s: "shape buf k (t # lb @ body)" and lb: "length_bytes lb" "length lb \<le> 4"
  shows "IsPkgComplete buf =
    Some (if base128 lb \<le> length body then int (1 + length lb + base128 lb) else 0)"
proof -
  let ?n = "1 + length lb + base128 lb"
  have ne: "lb \<noteq> []" using lb(1) by auto
  have w: "unat (write_pos buf) = length (t # lb @ body)" by (rule shape_write_pos [OF s])
  have "remainlen_complete (edp_data buf) (write_pos buf) 1 1 0 = Some (Inr (1 + length lb, of_nat (base128 lb)))"
    using remainlen_complete_ok [OF s lb(1), of 1 1 0] lb(2) by (simp add: nth_append)
  moreover have "\<not> write_pos buf \<le> 1" using w ne by (cases lb) (auto simp: word_le_nat_alt)
  moreover have tot: "of_nat (1 + length lb) + of_nat (base128 lb) = (of_nat ?n :: u32)" by simp
  moreover have "?n < 2 ^ 29" using base128_bound [OF lb(2)] lb(2) by simp
  then have n: "unat (of_nat ?n :: u32) = ?n" by (intro unat_of_nat_32) (rule order.strict_trans, assumption, simp)
  have "(2 :: nat) ^ 29 < 2 ^ 31" by simp
  with \<open>?n < 2 ^ 29\<close> have "unat (of_nat ?n :: u32) < 2 ^ 31" unfolding n by (rule order.strict_trans)
  from sint_small [OF this] have "sint (of_nat ?n :: u32) = int ?n" unfolding n .
  moreover have "of_nat ?n \<le> write_pos buf \<longleftrightarrow> base128 lb \<le> length body"
    unfolding word_le_nat_alt n(1) w by auto
  ultimately show ?thesis
    unfolding IsPkgComplete_def by (simp only: option.case sum.case prod.case if_False Let_def)
qed

lemma IsPkgComplete_packet:
  assumes "shape buf k (f @ rest)" "is_packet f"
  shows "IsPkgComplete buf = Some (int (length f))"
proof -
  from assms(2) obtain t lb body where f: "f = t # lb @ body" "length_bytes lb" "length lb \<le> 4"
    "base128 lb = length body" by (auto simp: is_packet_def)
  with IsPkgComplete_header [of buf k t lb "body @ rest"] assms(1) show ?thesis by simp
qed

lemma remainlen_complete_bad:
  assumes "shape buf k acc" "5 \<le> length acc"
  shows "1 \<le> n \<Longrightarrow> n \<le> 5 \<Longrightarrow> (\<And>j. n \<le> j \<Longrightarrow> j < 5 \<Longrightarrow> acc ! j AND 0x80 \<noteq> 0) \<Longrightarrow>
    remainlen_complete (edp_data buf) (write_pos buf) n mult l = Some (Inl (-1))"
proof (induction "5 - n" arbitrary: n mult l)
  case 0
  then show ?case by (subst remainlen_complete.simps) simp
next
  case (Suc d)
  then have n: "n < 5" "n < length acc" "acc \<noteq> []" using assms(2) by auto
  show ?case
    using Suc.hyps(1) [of "Suc n"] Suc.hyps(2) Suc.prems n write_pos_test [OF assms(1) n(3), of n]
      shape_peek [OF assms(1) n(2)] Suc.prems(3) [of n]
    by (subst remainlen_complete.simps) (simp add: Let_def)
qed

text \<open>The bytes begin with a packet.\<close>

definition starts_packet :: "byte list \<Rightarrow> bool" where
  "starts_packet r \<longleftrightarrow> (\<exists>f s. is_packet f \<and> r = f @ s)"

text \<open>Among the first \<open>n\<close> bytes a remaining length ends, or all of them ask for another.\<close>

lemma length_bytes_or:
  "(\<exists>lb body. b = lb @ body \<and> length_bytes lb \<and> length lb \<le> n) \<or>
   (\<forall>j < n. j < length b \<longrightarrow> b ! j AND 0x80 \<noteq> 0)"
proof (induction n arbitrary: b)
  case (Suc n)
  show ?case
  proof (cases b)
    case (Cons x b')
    show ?thesis
    proof (cases "x AND 0x80 = 0")
      case True
      then have "b = [x] @ b' \<and> length_bytes [x] \<and> length [x] \<le> Suc n" using Cons by simp
      then show ?thesis by blast
    next
      case False
      from Suc.IH [of b'] show ?thesis
      proof
        assume "\<exists>lb body. b' = lb @ body \<and> length_bytes lb \<and> length lb \<le> n"
        then obtain lb body where lb: "b' = lb @ body" "length_bytes lb" "length lb \<le> n" by blast
        then have "b = (x # lb) @ body \<and> length_bytes (x # lb) \<and> length (x # lb) \<le> Suc n"
          using Cons False by (cases lb) auto
        then show ?thesis by blast
      next
        assume "\<forall>j < n. j < length b' \<longrightarrow> b' ! j AND 0x80 \<noteq> 0"
        then have "\<forall>j < Suc n. j < length b \<longrightarrow> b ! j AND 0x80 \<noteq> 0"
          using Cons False by (auto simp: less_Suc_eq_0_disj)
        then show ?thesis by blast
      qed
    qed
  qed simp
qed simp

lemma IsPkgComplete_none:
  assumes s: "shape buf k r" and no: "\<not> starts_packet r"
  shows "IsPkgComplete buf = Some 0 \<or> IsPkgComplete buf = Some (-1)"
proof (cases "length r \<le> 1")
  case True
  then show ?thesis using shape_write_pos [OF s] by (simp add: IsPkgComplete_def word_le_nat_alt)
next
  case False
  then obtain t b where r: "r = t # b" "b \<noteq> []" by (cases r) auto
  have w: "\<not> write_pos buf \<le> 1" using False shape_write_pos [OF s] by (simp add: word_le_nat_alt)
  from length_bytes_or [of b 4] show ?thesis
  proof
    assume "\<exists>lb body. b = lb @ body \<and> length_bytes lb \<and> length lb \<le> 4"
    then obtain lb body where b: "b = lb @ body" "length_bytes lb" "length lb \<le> 4" by blast
    have "\<not> base128 lb \<le> length body"
    proof
      assume le: "base128 lb \<le> length body"
      let ?f = "t # lb @ take (base128 lb) body"
      have "length (take (base128 lb) body) = base128 lb" using le by simp
      then have "is_packet ?f" using b(2,3) unfolding is_packet_def by metis
      moreover have "r = ?f @ drop (base128 lb) body" by (simp add: r(1) b(1))
      ultimately show False using no unfolding starts_packet_def by blast
    qed
    moreover have "shape buf k (t # lb @ body)" using s by (simp add: r(1) b(1))
    ultimately show ?thesis using IsPkgComplete_header [OF _ b(2,3)] by (simp only: if_False) simp
  next
    assume c: "\<forall>j < 4. j < length b \<longrightarrow> b ! j AND 0x80 \<noteq> 0"
    have c': "r ! j AND 0x80 \<noteq> 0" if "1 \<le> j" "j < 5" "j < length r" for j
      using c [rule_format, of "j - 1"] that by (cases j) (simp_all add: r(1))
    have "remainlen_complete (edp_data buf) (write_pos buf) 1 1 0 = Some (Inl (if 5 \<le> length r then -1 else 0))"
    proof (cases "5 \<le> length r")
      case True
      from remainlen_complete_bad [OF s True, of 1 1 0] c' True show ?thesis by simp
    next
      case short: False
      from remainlen_complete_short [OF s, of 1 1 0] c' short False show ?thesis by simp
    qed
    then show ?thesis using w by (simp add: IsPkgComplete_def)
  qed
qed

lemma GetEdpPacket_none:
  "holds m st r \<Longrightarrow> \<not> starts_packet r \<Longrightarrow> GetEdpPacket st = Some (None, st)"
  using IsPkgComplete_none by (cases st) (fastforce simp: GetEdpPacket_def holds_def)

lemma GetEdpPacket_ok:
  assumes h: "holds (3 + m) (buf, ms) (f @ rest)" and f: "is_packet f"
  shows "\<exists>pkg j st'. GetEdpPacket (buf, ms) = Some (Some pkg, st') \<and> shape pkg j f \<and> holds m st' rest"
proof -
  from h obtain k where k: "shape buf k (f @ rest)" "3 + m + (24 - k) \<le> avail ms"
    by (auto simp: holds_def)
  have len: "length f + length rest \<le> 2 ^ 31" using shape_length_31 [OF k(1)] by simp
  have w: "unat (write_pos buf) = length f + length rest" using shape_write_pos [OF k(1)] by simp
  have flag: "IsPkgComplete buf = Some (int (length f))" by (rule IsPkgComplete_packet [OF k(1) f])
  have pos: "\<not> int (length f) \<le> 0" using f by (auto simp: is_packet_def)
  have d: "length f + length rest \<le> length (edp_data buf)"
    "take (length f + length rest) (edp_data buf) = map Some (f @ rest)"
    using k(1) by (simp_all add: shape_def filled_def)
  from NewBuffer_shape [of ms] k(2) obtain p0 ms0 where
    0: "NewBuffer ms = (Some p0, ms0)" "shape p0 0 []" "avail ms = avail ms0 + 2" by auto
  have "take (length f) (edp_data buf) = map Some f"
    using arg_cong [OF d(2), of "take (length f)"] by (simp add: min_absorb1)
  with WriteBytes_ok [OF 0(2), of f ms0 "edp_data buf"] len 0(3) k(2)
  obtain j pkg ms1 where 1: "WriteBytes (edp_data buf) (of_nat (length f)) (p0, ms0) = Some (0, (pkg, ms1))"
    "shape pkg j f" "avail ms0 \<le> avail ms1 + 1" by auto
  define n where "n = write_pos buf - of_nat (length f)"
  have "unat (of_nat (length f) :: u32) = length f" using len by (intro unat_of_nat_32) simp
  then have n: "unat n = length rest" unfolding n_def
    using w by (subst unat_sub) (simp_all add: word_le_nat_alt)
  let ?d = "take (length rest) (drop (length f) (edp_data buf)) @ drop (length rest) (edp_data buf)"
  have "block_copy (edp_data buf) 0 (edp_data buf) (length f) (length rest) = Some ?d"
    using d(1) by (simp add: block_copy_def)
  moreover have dr: "take (length rest) (drop (length f) (edp_data buf)) = map Some rest"
    using arg_cong [OF d(2), of "drop (length f)"] by (simp add: drop_take)
  moreover have "n = of_nat (length rest)" unfolding n [symmetric] by simp
  ultimately have "shape (buf\<lparr>edp_data := ?d, write_pos := n\<rparr>) k rest"
    using k(1) d(1) by (simp add: shape_def filled_def)
  moreover have "m + (24 - k) \<le> avail ms1" using 0(3) 1(3) k(2) by linarith
  moreover have "GetEdpPacket (buf, ms) = Some (Some pkg, (buf\<lparr>edp_data := ?d, write_pos := n\<rparr>, ms1))"
    using \<open>block_copy _ _ _ _ _ = _\<close> n 1(1) 0(1) pos
    by (simp add: GetEdpPacket_def flag n_def Let_def)
  ultimately show ?thesis using 1(2) by (auto simp: holds_def)
qed

subsection \<open>The receiving loop\<close>

text \<open>The loop ends when there is no complete packet; its result is the packets in order. What
  \<^verbatim>\<open>Recv_Thread_Func\<close> does with a packet leaves the receive buffer alone.\<close>

partial_function (option) take_packets :: "edp_state \<Rightarrow> (edp_buffer list \<times> edp_state) option" where
  "take_packets st = do {
     (pkg, st) \<leftarrow> GetEdpPacket st;
     case pkg of
       None \<Rightarrow> Some ([], st)
     | Some pkg \<Rightarrow> do { (pkgs, st) \<leftarrow> take_packets st; Some (pkg # pkgs, st) }
   }"

definition receive :: "byte list \<Rightarrow> edp_state \<Rightarrow> (edp_buffer list \<times> edp_state) option" where
  "receive p st = do {
     (r, st) \<leftarrow> WriteBytes (map Some p) (of_nat (length p)) st;
     take_packets st
   }"

text \<open>One call of \<^verbatim>\<open>Recv_Thread_Func\<close>: the receive buffer is made before \<^verbatim>\<open>uartDataParse\<close> looks
  for the bytes of the server in what the serial line delivered, and deleted at the end; what is
  left in it is gone. \<open>None\<close> stands for a call that finds no bytes of the server. The result of
  \<^verbatim>\<open>NewBuffer\<close> is not tested.\<close>

definition receive_call :: "byte list option \<Rightarrow> bool list \<Rightarrow> (edp_buffer list \<times> bool list) option" where
  "receive_call piece ms =
     (let (recv_buf, ms) = NewBuffer ms
      in case piece of
           None \<Rightarrow> Some ([], ms)
         | Some p \<Rightarrow> do {
             buf \<leftarrow> recv_buf;
             (pkgs, (buf, ms)) \<leftarrow> receive p (buf, ms);
             Some (pkgs, ms)
           })"

text \<open>Calls one after the other.\<close>

fun receive_calls :: "byte list option list \<Rightarrow> bool list \<Rightarrow> (edp_buffer list \<times> bool list) option" where
  "receive_calls [] ms = Some ([], ms)"
| "receive_calls (piece # pieces) ms = do {
     (pkgs, ms) \<leftarrow> receive_call piece ms;
     (pkgs', ms) \<leftarrow> receive_calls pieces ms;
     Some (pkgs @ pkgs', ms)
   }"

lemma take_packets_ok:
  "list_all is_packet fs \<Longrightarrow> holds (3 * length fs + m) st (concat fs @ p) \<Longrightarrow>
   \<not> starts_packet p \<Longrightarrow>
   \<exists>pkgs st'. take_packets st = Some (pkgs, st') \<and> list_all2 (\<lambda>pkg f. \<exists>j. shape pkg j f) pkgs fs \<and>
     holds m st' p"
proof (induction fs arbitrary: st)
  case Nil
  from Nil.prems have "GetEdpPacket st = Some (None, st)" by (auto intro: GetEdpPacket_none)
  then show ?case using Nil.prems(2) by (subst take_packets.simps) simp
next
  case (Cons f fs)
  obtain buf ms where st: "st = (buf, ms)" by (cases st)
  have "holds (3 + (3 * length fs + m)) (buf, ms) (f @ concat fs @ p)"
    using Cons.prems(2) by (simp add: st add.assoc)
  from GetEdpPacket_ok [OF this] Cons.prems(1) obtain pkg j st1 where
    1: "GetEdpPacket st = Some (Some pkg, st1)" "shape pkg j f" "holds (3 * length fs + m) st1 (concat fs @ p)"
    by (auto simp: st)
  from Cons.IH [OF _ 1(3) Cons.prems(3)] Cons.prems(1) obtain pkgs st2 where
    "take_packets st1 = Some (pkgs, st2)" "list_all2 (\<lambda>pkg f. \<exists>j. shape pkg j f) pkgs fs" "holds m st2 p"
    by auto
  with 1 show ?case by (subst take_packets.simps) auto
qed

text \<open>Any bytes are whole packets and a rest that does not begin with one, in one way only.\<close>

definition cuts :: "byte list \<Rightarrow> byte list list \<times> byte list \<Rightarrow> bool" where
  "cuts p c \<longleftrightarrow> p = concat (fst c) @ snd c \<and> list_all is_packet (fst c) \<and> \<not> starts_packet (snd c)"

lemma cuts_exists: "\<exists>c. cuts p c"
proof (induction "length p" arbitrary: p rule: less_induct)
  case less
  show ?case
  proof (cases "starts_packet p")
    case True
    then obtain f s where f: "is_packet f" "p = f @ s" unfolding starts_packet_def by blast
    then have "length s < length p" by (auto simp: is_packet_def)
    from less [OF this] obtain c where "cuts s c" by blast
    then have "cuts p (f # fst c, snd c)" using f by (simp add: cuts_def)
    then show ?thesis by blast
  next
    case False
    then have "cuts p ([], p)" by (simp add: cuts_def)
    then show ?thesis by blast
  qed
qed

lemma length_bytes_prefix:
  "length_bytes l \<Longrightarrow> length_bytes l' \<Longrightarrow> l @ a = l' @ b \<Longrightarrow> l = l' \<and> a = b"
proof (induction l arbitrary: l' rule: length_bytes.induct)
  case (2 x)
  then show ?case by (cases l' rule: length_bytes.cases) auto
next
  case (3 x y l)
  then show ?case by (cases l' rule: length_bytes.cases) auto
qed simp

lemma is_packet_prefix: "is_packet f \<Longrightarrow> is_packet g \<Longrightarrow> f @ s = g @ t \<Longrightarrow> f = g \<and> s = t"
proof -
  assume "is_packet f" "is_packet g" and eq: "f @ s = g @ t"
  then obtain x lb body y lb' body' where
    f: "f = x # lb @ body" "length_bytes lb" "base128 lb = length body" and
    g: "g = y # lb' @ body'" "length_bytes lb'" "base128 lb' = length body'"
    by (auto simp: is_packet_def)
  from eq have e: "x = y" "lb @ (body @ s) = lb' @ (body' @ t)" by (simp_all add: f(1) g(1))
  from length_bytes_prefix [OF f(2) g(2) e(2)] f(3) g(3) show ?thesis by (simp add: f(1) g(1) e(1))
qed

lemma cuts_unique: "cuts p (fs, r) \<Longrightarrow> cuts p (gs, q) \<Longrightarrow> fs = gs \<and> r = q"
proof (induction fs arbitrary: p gs)
  case Nil
  then show ?case by (cases gs) (auto simp: cuts_def starts_packet_def)
next
  case (Cons f fs)
  show ?case
  proof (cases gs)
    case Nil
    with Cons.prems show ?thesis by (auto simp: cuts_def starts_packet_def)
  next
    case (Cons g gs')
    with Cons.prems have "is_packet f" "is_packet g" "f @ (concat fs @ r) = g @ (concat gs' @ q)"
      by (auto simp: cuts_def)
    from is_packet_prefix [OF this] have "f = g" "concat fs @ r = concat gs' @ q" by auto
    then show ?thesis
      using Cons.IH [of "concat fs @ r" gs'] Cons.prems Cons by (auto simp: cuts_def)
  qed
qed

lemma cuts_length: "cuts p c \<Longrightarrow> length (fst c) \<le> length p"
proof -
  have "list_all is_packet fs \<Longrightarrow> length fs \<le> length (concat fs)" for fs
    by (induction fs) (auto simp: is_packet_def)
  then show "cuts p c \<Longrightarrow> length (fst c) \<le> length p" by (fastforce simp: cuts_def)
qed

lemma receive_call_ok:
  assumes c: "cuts p c" and len: "length p \<le> 2 ^ 31" and m: "26 + 3 * length p + m \<le> avail ms"
  shows "\<exists>pkgs ms'. receive_call (Some p) ms = Some (pkgs, ms') \<and> list_all2 packed pkgs (fst c) \<and> m \<le> avail ms'"
proof -
  have "2 \<le> avail ms" using m by simp
  from NewBuffer_shape [OF this] obtain buf ms1 where
    1: "NewBuffer ms = (Some buf, ms1)" "shape buf 0 []" "avail ms = avail ms1 + 2" by auto
  define n where "n = m + (3 * length p - 3 * length (fst c))"
  have n: "3 * length (fst c) + n = m + 3 * length p" using cuts_length [OF c] by (simp add: n_def)
  have h: "holds (3 * length (fst c) + n) (buf, ms1) []"
    using 1(2,3) m unfolding holds_def n by fastforce
  have "appends (WriteBytes (map Some p) (of_nat (length p))) p"
    by (rule appends_WriteBytes) simp_all
  from appendsD [OF this h] len obtain st1 where
    2: "WriteBytes (map Some p) (of_nat (length p)) (buf, ms1) = Some (0, st1)"
    "holds (3 * length (fst c) + n) st1 (concat (fst c) @ snd c)" using c by (auto simp: cuts_def)
  from take_packets_ok [OF _ 2(2)] c obtain pkgs st' where
    3: "take_packets st1 = Some (pkgs, st')" "list_all2 (\<lambda>pkg f. \<exists>j. shape pkg j f) pkgs (fst c)"
    "holds n st' (snd c)" by (auto simp: cuts_def)
  have "list_all2 packed pkgs (fst c)" using 3(2) by (blast intro: list_all2_mono shape_packed)
  moreover have "m \<le> avail (snd st')" using 3(3) by (cases st') (auto simp: holds_def n_def)
  ultimately show ?thesis using 1(1) 2(1) 3(1) by (cases st') (auto simp: receive_call_def receive_def)
qed

lemma receive_call_nothing:
  "2 + m \<le> avail ms \<Longrightarrow> \<exists>ms'. receive_call None ms = Some ([], ms') \<and> m \<le> avail ms'"
  using NewBuffer_shape [of ms] by (fastforce simp: receive_call_def)

subsection \<open>One packet through the receiver\<close>

text \<open>Take a packet from the receive buffer, read its type, unpack it.\<close>

definition edp_deliver :: "'a edp_read \<Rightarrow> edp_state \<Rightarrow> (byte \<times> (int + 'a) \<times> edp_state) option" where
  "edp_deliver unpack st = do {
     (p, (buf, ms)) \<leftarrow> GetEdpPacket st;
     pkg \<leftarrow> p;
     (t, st) \<leftarrow> EdpPacketType (pkg, ms);
     (r, (pkg, ms)) \<leftarrow> unpack st;
     Some (t, r, (buf, ms))
   }"

lemma shape_unread: "shape pkg j f \<Longrightarrow> m \<le> avail ms \<Longrightarrow> unread m (pkg, ms) f"
proof -
  assume s: "shape pkg j f" and m: "m \<le> avail ms"
  have "(2 :: nat) ^ (7 + j) \<le> 2 ^ 31" using s by (intro power_increasing) (auto simp: shape_def)
  then show ?thesis
    using s m shape_write_pos [OF s] by (auto simp: unread_def shape_def filled_def mem_slice_Some)
qed

lemma EdpPacketType_ok:
  "unread m st (t # bs) \<Longrightarrow> \<exists>st'. EdpPacketType st = Some (t, st') \<and> unread m st' bs"
  using readsD [OF reads_ReadByte, of m st t bs] by (auto simp: EdpPacketType_def)

text \<open>What \<open>edp_deliver\<close> has to show for the two outcomes of \<open>unpack\<close>.\<close>

lemma edp_deliver_start:
  assumes "holds (3 + n) (buf, ms) ((t # bs) @ rest)" "is_packet (t # bs)"
  obtains pkg ms1 buf1 st1 k where "GetEdpPacket (buf, ms) = Some (Some pkg, (buf1, ms1))"
    "EdpPacketType (pkg, ms1) = Some (t, st1)" "unread (n + (24 - k)) st1 bs" "shape buf1 k rest"
proof -
  from GetEdpPacket_ok [OF assms] obtain pkg j buf1 ms1 where
    1: "GetEdpPacket (buf, ms) = Some (Some pkg, (buf1, ms1))" "shape pkg j (t # bs)"
    "holds n (buf1, ms1) rest" by auto
  then obtain k where k: "shape buf1 k rest" "n + (24 - k) \<le> avail ms1" by (auto simp: holds_def)
  from EdpPacketType_ok [OF shape_unread [OF 1(2) k(2)]] that [OF 1(1) _ _ k(1)] show thesis by blast
qed

lemma edp_deliver_ok:
  assumes "is_packet (t # bs)" "holds (3 + (n + m)) (buf, ms) ((t # bs) @ rest)"
    and "\<And>k st. unread (n + (m + k)) st bs \<Longrightarrow> \<exists>st'. unpack st = Some (r, st') \<and> m + k \<le> avail (snd st')"
  shows "\<exists>st'. edp_deliver unpack (buf, ms) = Some (t, r, st') \<and> holds m st' rest"
proof -
  from edp_deliver_start [OF assms(2,1)] obtain pkg ms1 buf1 st1 k where
    1: "GetEdpPacket (buf, ms) = Some (Some pkg, (buf1, ms1))" "EdpPacketType (pkg, ms1) = Some (t, st1)"
    "unread (n + m + (24 - k)) st1 bs" "shape buf1 k rest" .
  from assms(3) [OF 1(3) [unfolded add.assoc]] obtain pkg' ms' where
    2: "unpack st1 = Some (r, (pkg', ms'))" "m + (24 - k) \<le> avail ms'" by auto
  have "edp_deliver unpack (buf, ms) = Some (t, r, (buf1, ms'))" by (simp add: edp_deliver_def 1(1,2) 2(1))
  moreover have "holds m (buf1, ms') rest" using 1(4) 2(2) unfolding holds_def by blast
  ultimately show ?thesis by blast
qed

lemma edp_deliver_reads:
  assumes "reads unpack bs x n" "is_packet (t # bs)" "holds (3 + (n + m)) (buf, ms) ((t # bs) @ rest)"
  shows "\<exists>st'. edp_deliver unpack (buf, ms) = Some (t, Inr x, st') \<and> holds m st' rest"
  using assms(2,3)
proof (rule edp_deliver_ok)
  fix k st
  assume "unread (n + (m + k)) st bs"
  with readsD [OF assms(1), of "m + k" st "[]"] obtain st' where
    "unpack st = Some (Inr x, st')" "unread (m + k) st' []" by auto
  then show "\<exists>st'. unpack st = Some (Inr x, st') \<and> m + k \<le> avail (snd st')"
    by (cases st') (auto simp: unread_def)
qed

lemma edp_deliver_refuses:
  assumes "refuses unpack bs e n" "is_packet (t # bs)" "holds (3 + (n + m)) (buf, ms) ((t # bs) @ rest)"
  shows "\<exists>st'. edp_deliver unpack (buf, ms) = Some (t, Inl e, st') \<and> holds m st' rest"
  using assms(2,3) refusesD [OF assms(1)] by (rule edp_deliver_ok)

end
