(* ===== verification/Edp_Unpack.thy ===== *)
theory Edp_Unpack
  imports Edp_Stream
begin

text \<open>
  The unpacking functions run over the bytes of a packet: pushed data for every packet there is,
  saved data as the client packs them, and the commands whose length makes the position wrap.
\<close>

subsection \<open>Pushed data\<close>

text \<open>What the length of a packet tells after its type: a remaining length and its value.\<close>

lemma reads_remainlen_packet:
  assumes "is_packet (t # bs)"
  obtains lb body where "bs = lb @ body" "reads ReadRemainlen lb (of_nat (length body)) 0"
    "length body < 2 ^ 28" "length_bytes lb"
proof -
  from assms obtain lb body where b: "bs = lb @ body" "length_bytes lb" "length lb \<le> 4"
    "base128 lb = length body" by (auto simp: is_packet_def)
  with reads_ReadRemainlen [OF b(2,3)] base128_bound [OF b(3)] show thesis by (intro that) simp_all
qed

lemma reads_pushdata_body:
  assumes "length s < 2 ^ 16" "0 \<notin> set s" "length s + length data + 2 < 2 ^ 28"
    "reads ReadRemainlen lb (of_nat (length s + length data + 2)) 0"
  shows "reads UnpackPushdata (lb @ wire_str s @ data) (c_mem s, c_mem data, of_nat (length data)) 2"
proof -
  have d: "of_nat (length s + length data + 2) - (2 + edp_strlen s) = (of_nat (length data) :: u32)"
    by (simp add: edp_strlen_def)
  have "unat (of_nat (length data) :: u32) = length data" using assms(3) by (intro unat_of_nat_32) simp
  then have r: "reads (ReadBytes (of_nat (length data))) data (c_mem data) 1"
    using assms(3) by (intro reads_ReadBytes) simp_all
  have cs: "c_string (c_mem s) = Some s" using c_string_c_mem [of s "[]"] assms(2) by simp
  have rs: "reads ReadStr (wire_str s) (c_mem s) 1" using reads_ReadStr [OF assms(1)] assms(2) by simp
  show ?thesis
    unfolding UnpackPushdata_def
  proof (rule reads_step [OF assms(4)], rule reads_step [OF rs])
    show "reads (case c_string (c_mem s) of None \<Rightarrow> \<lambda>st. None
      | Some s' \<Rightarrow> let remainlen = of_nat (length s + length data + 2) - (2 + edp_strlen s')
          in or_return (ReadBytes remainlen) (\<lambda>_. ERR_UNPACK_PUSHD_DATA)
               (\<lambda>data. return_value (c_mem s, data, remainlen))) data
      (c_mem s, c_mem data, of_nat (length data)) 1"
      unfolding cs option.case Let_def d by (rule reads_last [OF r])
  qed simp_all
qed

text \<open>The outcome of \<open>UnpackPushdata\<close> for the bytes after the remaining length. A device id that
  contains a 0 makes the data too long by the characters that \<^verbatim>\<open>strlen\<close> does not count.\<close>

definition pushdata_result :: "byte list \<Rightarrow> int + mem \<times> mem \<times> u32" where
  "pushdata_result body =
     (case body of
        a # b # bs \<Rightarrow>
          (let l = unat (push_bit 8 (ucast a) OR ucast b :: u16); s = take l bs; data = drop l bs
           in if length bs < l then Inl ERR_UNPACK_PUSHD_DEVID
              else if 0 \<in> set s then Inl ERR_UNPACK_PUSHD_DATA
              else Inr (c_mem s, c_mem data, of_nat (length data)))
      | _ \<Rightarrow> Inl ERR_UNPACK_PUSHD_DEVID)"

lemma length_takeWhile_less: "0 \<in> set s \<Longrightarrow> length (takeWhile (\<lambda>b. b \<noteq> 0) s) < length (s :: byte list)"
  by (induction s) auto

lemma bytes16_of_bytes: "bytes16 (push_bit 8 (ucast a) OR ucast b) = [a, b]"
proof -
  have "(ucast (drop_bit 8 (push_bit 8 (ucast a) OR ucast b :: u16)) :: byte) = a"
    by (rule bit_word_eqI) (auto simp: bit_simps dest: bit_imp_le_length)
  moreover have "(ucast (push_bit 8 (ucast a) OR ucast b :: u16) :: byte) = b"
    by (rule bit_word_eqI) (auto simp: bit_simps dest: bit_imp_le_length)
  ultimately show ?thesis by (simp add: bytes16_def)
qed

text \<open>The call returns one of the two kinds of results.\<close>

definition yields :: "'a edp_read \<Rightarrow> byte list \<Rightarrow> int + 'a \<Rightarrow> nat \<Rightarrow> bool" where
  "yields rd bs r n \<longleftrightarrow> (case r of Inl e \<Rightarrow> refuses rd bs e n | Inr x \<Rightarrow> reads rd bs x n)"

lemma yields_pushdata:
  assumes lb: "reads ReadRemainlen lb (of_nat (length body)) 0" and small: "length body < 2 ^ 28"
  shows "yields UnpackPushdata (lb @ body) (pushdata_result body) 2"
proof (cases "length body < 2")
  case True
  have "refuses (or_return ReadStr (\<lambda>_. ERR_UNPACK_PUSHD_DEVID) k) body ERR_UNPACK_PUSHD_DEVID 0" for k :: "mem \<Rightarrow> (mem \<times> mem \<times> u32) edp_read"
    by (rule refuses_or_return_here [OF refuses_ReadStr(1) [OF True]])
  then have "refuses UnpackPushdata (lb @ body) ERR_UNPACK_PUSHD_DEVID 0"
    unfolding UnpackPushdata_def by (rule refuses_step [OF lb]) simp_all
  then have "refuses UnpackPushdata (lb @ body) ERR_UNPACK_PUSHD_DEVID 2" by (rule refuses_mono) simp
  moreover have "pushdata_result body = Inl ERR_UNPACK_PUSHD_DEVID"
    using True by (auto simp: pushdata_result_def split: list.split)
  ultimately show ?thesis by (simp add: yields_def)
next
  case False
  then obtain a b bs where body: "body = a # b # bs" by (cases body rule: remdups_adj.cases) auto
  define w where "w = (push_bit 8 (ucast a) OR ucast b :: u16)"
  have body': "body = bytes16 w @ bs" by (simp add: body w_def bytes16_of_bytes)
  show ?thesis
  proof (cases "length bs < unat w")
    case True
    have "refuses (or_return ReadStr (\<lambda>_. ERR_UNPACK_PUSHD_DEVID) k) body ERR_UNPACK_PUSHD_DEVID 0" for k :: "mem \<Rightarrow> (mem \<times> mem \<times> u32) edp_read"
      unfolding body' by (rule refuses_or_return_here [OF refuses_ReadStr(2) [OF True]])
    then have "refuses UnpackPushdata (lb @ body) ERR_UNPACK_PUSHD_DEVID 0"
      unfolding UnpackPushdata_def by (rule refuses_step [OF lb]) simp_all
    then have "refuses UnpackPushdata (lb @ body) ERR_UNPACK_PUSHD_DEVID 2" by (rule refuses_mono) simp
    moreover have "pushdata_result body = Inl ERR_UNPACK_PUSHD_DEVID"
      using True by (simp add: pushdata_result_def body w_def [symmetric] Let_def)
    ultimately show ?thesis by (simp add: yields_def)
  next
    case False
    define s data where "s = take (unat w) bs" and "data = drop (unat w) bs"
    have bs: "bs = s @ data" "length s = unat w" using False by (simp_all add: s_def data_def)
    have s16: "length s < 2 ^ 16" using unat_u16_less [of w] bs(2) by simp
    have w: "w = of_nat (length s)" by (simp add: bs(2))
    have wire: "body = wire_str s @ data" by (simp add: body' wire_str_def w [symmetric] bs(1))
    show ?thesis
    proof (cases "0 \<in> set s")
      case True
      let ?n = "of_nat (length body) - (2 + edp_strlen (takeWhile (\<lambda>b. b \<noteq> 0) s))"
      have "length (takeWhile (\<lambda>b. b \<noteq> 0) s) < length s" by (rule length_takeWhile_less [OF True])
      then obtain d where d: "length s = length (takeWhile (\<lambda>b. b \<noteq> 0) s) + Suc d"
        using less_imp_Suc_add by fastforce
      then have "?n = of_nat (length data + Suc d)"
        by (simp add: wire wire_str_def edp_strlen_def)
      then have n: "unat ?n = length data + Suc d"
        using small d by (simp only:) (intro unat_of_nat_32, simp add: wire wire_str_def)
      have r: "refuses (ReadBytes ?n) data (-1) 0"
        by (rule refuses_ReadBytes) (use n small d in \<open>simp_all add: wire wire_str_def\<close>)
      have "refuses UnpackPushdata (lb @ body) ERR_UNPACK_PUSHD_DATA 1"
        unfolding UnpackPushdata_def
      proof (rule refuses_step [OF lb], rule refuses_step [OF reads_ReadStr [OF s16]])
        show "refuses (case c_string (c_mem (c_pad s)) of None \<Rightarrow> \<lambda>st. None
          | Some s' \<Rightarrow> let remainlen = of_nat (length body) - (2 + edp_strlen s')
              in or_return (ReadBytes remainlen) (\<lambda>_. ERR_UNPACK_PUSHD_DATA)
                   (\<lambda>data. return_value (c_mem (c_pad s), data, remainlen))) data ERR_UNPACK_PUSHD_DATA 0"
          unfolding c_string_c_pad option.case Let_def by (rule refuses_or_return_here [OF r])
      qed (simp_all add: wire)
      then have "refuses UnpackPushdata (lb @ body) ERR_UNPACK_PUSHD_DATA 2" by (rule refuses_mono) simp
      moreover have "pushdata_result body = Inl ERR_UNPACK_PUSHD_DATA"
        using True False by (simp add: pushdata_result_def body w_def [symmetric] Let_def s_def)
      ultimately show ?thesis by (simp add: yields_def)
    next
      case zero: False
      have "length body = length s + length data + 2" by (simp add: wire wire_str_def)
      with reads_pushdata_body [OF s16 zero, of data lb] lb small
      have "reads UnpackPushdata (lb @ body) (c_mem s, c_mem data, of_nat (length data)) 2"
        by (simp only: wire)
      moreover have "pushdata_result body = Inr (c_mem s, c_mem data, of_nat (length data))"
        using zero False by (simp add: pushdata_result_def body w_def [symmetric] Let_def s_def data_def)
      ultimately show ?thesis by (simp add: yields_def)
    qed
  qed
qed

subsection \<open>Saved data\<close>

text \<open>\<open>UnpackSavedata\<close>, and then what the type byte asks for.\<close>

definition unpack_saved :: "'a edp_read \<Rightarrow> ((mem option \<times> byte) \<times> 'a) edp_read" where
  "unpack_saved rd =
     or_return UnpackSavedata (\<lambda>rc. rc) (\<lambda>head. or_return rd (\<lambda>rc. rc) (\<lambda>x. return_value (head, x)))"

definition saved_head :: "byte list option \<Rightarrow> byte list" where
  "saved_head dst = (case dst of None \<Rightarrow> [0] | Some s \<Rightarrow> 0x80 # wire_str s)"

definition plain_str :: "byte list \<Rightarrow> bool" where
  "plain_str s \<longleftrightarrow> 0 \<notin> set s \<and> length s < 2 ^ 16"

lemma reads_ReadStr_plain: "plain_str s \<Longrightarrow> reads ReadStr (wire_str s) (c_mem s) 1"
  using reads_ReadStr [of s] by (simp add: plain_str_def)

lemma reads_mono: "reads rd bs x n \<Longrightarrow> n \<le> n' \<Longrightarrow> reads rd bs x n'"
  unfolding reads_def
proof (intro allI impI)
  fix m st rest
  assume r: "\<forall>m st rest. unread (n + m) st (bs @ rest) \<longrightarrow> (\<exists>st'. rd st = Some (Inr x, st') \<and> unread m st' rest)"
    and le: "n \<le> n'" and u: "unread (n' + m) st (bs @ rest)"
  have "unread (n + m) st (bs @ rest)" using u le by (cases st) (auto simp: unread_def)
  with r show "\<exists>st'. rd st = Some (Inr x, st') \<and> unread m st' rest" by blast
qed

lemma reads_UnpackSavedata:
  assumes lb: "reads ReadRemainlen lb l 0" and dst: "\<forall>s \<in> set_option dst. plain_str s"
  shows "reads UnpackSavedata (lb @ saved_head dst @ [jb]) (map_option c_mem dst, jb) 1"
proof -
  define flag where "flag = (if dst = None then 0 else 0x80 :: byte)"
  define src where "src = (if flag = 0x80
      then or_return ReadStr (\<lambda>_. ERR_UNPACK_SAVED_DEVID) (\<lambda>s. return_value (Some s)) else return_value None)"
  have src: "reads src (tl (saved_head dst)) (map_option c_mem dst) 1"
  proof (cases dst)
    case None
    then show ?thesis
      by (simp add: src_def flag_def saved_head_def) (rule reads_mono [OF reads_return_value], simp)
  next
    case (Some s)
    with dst have "plain_str s" by simp
    from reads_last [OF reads_ReadStr_plain [OF this], of _ Some] Some show ?thesis
      by (simp add: src_def flag_def saved_head_def)
  qed
  have "saved_head dst = [flag] @ tl (saved_head dst)"
    by (simp add: saved_head_def flag_def split: option.split)
  then have bytes: "saved_head dst @ [jb] = [flag] @ tl (saved_head dst) @ [jb]" by (metis append.assoc)
  show ?thesis
    unfolding UnpackSavedata_def bytes
    by (rule reads_step [OF lb], rule reads_step [OF reads_ReadByte [of flag]],
        rule reads_step [OF src [unfolded src_def]], rule reads_last [OF reads_ReadByte]) simp_all
qed

lemma reads_simple_string:
  assumes "reads ReadRemainlen lb l 0" "\<forall>s \<in> set_option dst. plain_str s" "plain_str input"
  shows "reads (unpack_saved UnpackSavedataSimpleString)
    (lb @ saved_head dst @ [kTypeString] @ wire_str input)
    ((map_option c_mem dst, kTypeString), c_mem input) 2"
  unfolding unpack_saved_def
proof (rule reads_step [OF reads_UnpackSavedata [OF assms(1,2)]])
  have "reads UnpackSavedataSimpleString (wire_str input) (c_mem input) 1"
    unfolding UnpackSavedataSimpleString_def by (rule reads_last [OF reads_ReadStr_plain [OF assms(3)]])
  then show "reads (or_return UnpackSavedataSimpleString (\<lambda>rc. rc)
      (\<lambda>x. return_value ((map_option c_mem dst, kTypeString), x))) (wire_str input)
      ((map_option c_mem dst, kTypeString), c_mem input) 1" by (rule reads_last)
qed simp_all

lemma reads_bin_str:
  assumes "reads ReadRemainlen lb l 0" "\<forall>s \<in> set_option dst. plain_str s" "plain_str desc"
    and "length bin < 2 ^ 31"
  shows "reads (unpack_saved UnpackSavedataBinStr)
    (lb @ saved_head dst @ [kTypeBin] @ wire_str desc @ bytes32 (of_nat (length bin)) @ bin)
    ((map_option c_mem dst, kTypeBin), c_mem desc, c_mem bin, of_nat (length bin)) 3"
proof -
  have n: "unat (of_nat (length bin) :: u32) = length bin" using assms(4) by (intro unat_of_nat_32) simp
  have "reads (ReadBytes (of_nat (length bin))) bin (c_mem bin) 1"
    by (rule reads_ReadBytes) (use n assms(4) in simp_all)
  note bytes = this
  have "reads UnpackSavedataBinStr (wire_str desc @ bytes32 (of_nat (length bin)) @ bin)
      (c_mem desc, c_mem bin, of_nat (length bin)) 2"
    unfolding UnpackSavedataBinStr_def
    by (rule reads_step [OF reads_ReadStr_plain [OF assms(3)]], rule reads_step [OF reads_ReadUint32],
        rule reads_last [OF bytes]) simp_all
  note body = reads_last [OF this]
  show ?thesis
    unfolding unpack_saved_def
    by (rule reads_step [OF reads_UnpackSavedata [OF assms(1,2)]], rule body) simp_all
qed

subsection \<open>Commands\<close>

text \<open>A reading function leaves the contents of the packet and its write position alone.\<close>

definition keeps :: "'a edp_read \<Rightarrow> bool" where
  "keeps rd \<longleftrightarrow> (\<forall>st r st'. rd st = Some (r, st') \<longrightarrow>
     edp_data (fst st') = edp_data (fst st) \<and> write_pos (fst st') = write_pos (fst st))"

lemma keepsI:
  "(\<And>st r st'. rd st = Some (r, st') \<Longrightarrow>
     edp_data (fst st') = edp_data (fst st) \<and> write_pos (fst st') = write_pos (fst st)) \<Longrightarrow> keeps rd"
  unfolding keeps_def by blast

lemma keepsD: "keeps rd \<Longrightarrow> rd st = Some (r, st') \<Longrightarrow>
    edp_data (fst st') = edp_data (fst st) \<and> write_pos (fst st') = write_pos (fst st)"
  unfolding keeps_def by blast

lemma keeps_ReadByte: "keeps ReadByte"
  by (rule keepsI) (auto simp: ReadByte_def bind_eq_Some_conv split: if_splits)

lemma keeps_ReadUint16: "keeps ReadUint16"
  by (rule keepsI) (auto simp: ReadUint16_def bind_eq_Some_conv split: if_splits)

lemma keeps_ReadBytes: "keeps (ReadBytes n)"
  by (rule keepsI) (auto simp: ReadBytes_def bind_eq_Some_conv split: if_splits prod.splits)

lemma read_uint32_loop_keeps: "read_uint32_loop n t (pkg, ms) = Some (r, st') \<Longrightarrow>
    edp_data (fst st') = edp_data pkg \<and> write_pos (fst st') = write_pos pkg"
  by (induction n arbitrary: t pkg) (fastforce simp: bind_eq_Some_conv)+

lemma keeps_ReadUint32: "keeps ReadUint32"
proof (rule keepsI)
  fix st r st'
  assume a: "ReadUint32 st = Some (r, st')"
  obtain pkg ms where st: "st = (pkg, ms)" by (cases st)
  show "edp_data (fst st') = edp_data (fst st) \<and> write_pos (fst st') = write_pos (fst st)"
  proof (cases "write_pos pkg < read_pos pkg + 4")
    case True
    with a show ?thesis by (auto simp: ReadUint32_def st)
  next
    case False
    with a have "read_uint32_loop 4 0 (pkg, ms) = Some (r, st')" by (simp add: ReadUint32_def st)
    from read_uint32_loop_keeps [OF this] show ?thesis by (simp add: st)
  qed
qed

lemma read_remainlen_loop_keeps: "read_remainlen_loop n mult l st = Some (r, st') \<Longrightarrow>
    edp_data (fst st') = edp_data (fst st) \<and> write_pos (fst st') = write_pos (fst st)"
proof (induction n mult l st rule: read_remainlen_loop.induct)
  case (1 n mult l st)
  from "1.prems" obtain x st1 where rb: "ReadByte st = Some (x, st1)"
    by (subst (asm) read_remainlen_loop.simps) (auto split: option.splits)
  note k = keepsD [OF keeps_ReadByte rb]
  show ?case
  proof (cases x)
    case (Inl e)
    with "1.prems" rb have "st' = st1" by (subst (asm) read_remainlen_loop.simps) simp
    with k show ?thesis by simp
  next
    case (Inr b)
    show ?thesis
    proof (cases "4 < n + 1 \<or> b AND 0x80 = 0")
      case True
      with "1.prems" rb Inr have "st' = st1"
        by (subst (asm) read_remainlen_loop.simps) (auto simp: Let_def split: if_splits)
      with k show ?thesis by simp
    next
      case False
      with "1.prems" rb Inr
      have "read_remainlen_loop (n + 1) (mult * 0x80) (l + ucast (b AND 0x7f) * mult) st1 = Some (r, st')"
        by (subst (asm) read_remainlen_loop.simps) (simp add: Let_def)
      from "1.IH" [OF rb refl Inr refl refl refl _ _ this] False k show ?thesis by simp
    qed
  qed
qed

lemma keeps_ReadRemainlen: "keeps ReadRemainlen"
  by (rule keepsI) (simp add: ReadRemainlen_def read_remainlen_loop_keeps)

lemma unread_position:
  "unread m (pkg, ms) bs \<Longrightarrow> unat (read_pos pkg) = unat (write_pos pkg) - length bs"
  by (auto simp: unread_def)

text \<open>One step of an unpacking function, with the position after it.\<close>

lemma or_return_reads:
  assumes "reads rd bs x n" "keeps rd" "unread (n + m) st (bs @ rest)"
  obtains st' where "or_return rd e k st = k x st'" "unread m st' rest"
    "write_pos (fst st') = write_pos (fst st)"
proof -
  from readsD [OF assms(1,3)] obtain st' where "rd st = Some (Inr x, st')" "unread m st' rest" by blast
  with assms(2) show thesis using keepsD [OF assms(2)] by (intro that [of st']) (auto simp: or_return_def)
qed

text \<open>\<^verbatim>\<open>req_len\<close> so large that position plus length wraps around.\<close>

lemma UnpackCmdReq_wraps:
  assumes lb: "reads ReadRemainlen lb l 0" and cid: "length cid < 2 ^ 16"
    and u: "unread 1 st (lb @ bytes16 (of_nat (length cid)) @ cid @ bytes32 n @ rest)"
    and w: "2 ^ 32 \<le> unat (write_pos (fst st)) - length rest + unat n"
  shows "UnpackCmdReq st = None"
proof -
  have c: "unat (ucast (of_nat (length cid) :: u16) :: u32) = length cid" using unat_u16_length [OF cid] by simp
  then have rc: "reads (ReadBytes (ucast (of_nat (length cid) :: u16))) cid (c_mem cid) 1"
    by (rule reads_ReadBytes) (use c cid in simp)
  obtain st1 where 1: "UnpackCmdReq st =
      or_return ReadUint16 (\<lambda>rc. rc) (\<lambda>cidlen. or_return (ReadBytes (ucast cidlen)) (\<lambda>_. ERR_UNPACK_CMDREQ) (\<lambda>cmdid.
        or_return ReadUint32 (\<lambda>rc. rc) (\<lambda>req_len. or_return (ReadBytes req_len) (\<lambda>_. ERR_UNPACK_CMDREQ) (\<lambda>req.
          return_value (cmdid, cidlen, req, req_len))))) st1"
    "unread 1 st1 (bytes16 (of_nat (length cid)) @ cid @ bytes32 n @ rest)" "write_pos (fst st1) = write_pos (fst st)"
    unfolding UnpackCmdReq_def
    by (rule or_return_reads [OF lb keeps_ReadRemainlen, of 1]) (use u in auto)
  obtain st2 where 2: "UnpackCmdReq st =
      or_return (ReadBytes (ucast (of_nat (length cid) :: u16))) (\<lambda>_. ERR_UNPACK_CMDREQ) (\<lambda>cmdid.
        or_return ReadUint32 (\<lambda>rc. rc) (\<lambda>req_len. or_return (ReadBytes req_len) (\<lambda>_. ERR_UNPACK_CMDREQ) (\<lambda>req.
          return_value (cmdid, of_nat (length cid), req, req_len)))) st2"
    "unread 1 st2 (cid @ bytes32 n @ rest)" "write_pos (fst st2) = write_pos (fst st)"
    unfolding 1(1)
    by (rule or_return_reads [OF reads_ReadUint16 keeps_ReadUint16, of 1 st1 "of_nat (length cid)"]) (use 1 in auto)
  obtain st3 where 3: "UnpackCmdReq st =
      or_return ReadUint32 (\<lambda>rc. rc) (\<lambda>req_len. or_return (ReadBytes req_len) (\<lambda>_. ERR_UNPACK_CMDREQ) (\<lambda>req.
          return_value (c_mem cid, of_nat (length cid), req, req_len))) st3"
    "unread 0 st3 (bytes32 n @ rest)" "write_pos (fst st3) = write_pos (fst st)"
    unfolding 2(1) by (rule or_return_reads [OF rc keeps_ReadBytes, of 0]) (use 2 in auto)
  obtain st4 where 4: "UnpackCmdReq st =
      or_return (ReadBytes n) (\<lambda>_. ERR_UNPACK_CMDREQ) (\<lambda>req. return_value (c_mem cid, of_nat (length cid), req, n)) st4"
    "unread 0 st4 rest" "write_pos (fst st4) = write_pos (fst st)"
    unfolding 3(1) by (rule or_return_reads [OF reads_ReadUint32 keeps_ReadUint32, of 0 st3 n rest]) (use 3 in auto)
  obtain pkg ms where st4: "st4 = (pkg, ms)" by (cases st4)
  have "2 ^ 32 \<le> unat (read_pos pkg) + unat n"
    using w unread_position [OF 4(2) [unfolded st4]] 4(3) by (simp add: st4)
  from ReadBytes_wraps [OF 4(2) [unfolded st4] this] show ?thesis
    unfolding 4(1) by (simp add: or_return_def st4)
qed

end
