(* ===== verification/Edp_Properties.thy ===== *)
theory Edp_Properties
  imports Edp_Unpack
begin

text \<open>
  The properties of the EDP protocol: packets through the wire and back, what each call of
  the receiver takes out of a piece of the stream, every outcome of unpacking pushed data, and where lengths and
  missing memory are not guarded. The witnesses run them on concrete bytes.
\<close>

subsection \<open>What the packing functions write\<close>

lemma appends_wire_str: "plain_str s \<Longrightarrow> appends (WriteStr s) (wire_str s)"
  unfolding wire_str_def plain_str_def by (rule appends_WriteStr) simp

lemma savedata_head_ok:
  assumes "\<forall>s \<in> set_option dst. plain_str s" "n = of_nat len"
  obtains ws bss where
    "savedata_head dst n = WriteRemainlen (of_nat (length (saved_head dst) + 1 + len)) # ws"
    "list_all2 appends ws bss" "concat bss = saved_head dst"
proof (cases dst)
  case None
  show thesis
    by (rule that [of "[WriteByte 0]" "[[0]]"])
      (simp_all add: None savedata_head_def saved_head_def assms(2) appends_WriteByte)
next
  case (Some s)
  with assms(1) have s: "plain_str s" by simp
  show thesis
    by (rule that [of "[WriteByte 0x80, WriteStr s]" "[[0x80], wire_str s]"])
      (use appends_wire_str [OF s] in \<open>simp_all add: Some savedata_head_def saved_head_def assms(2)
        appends_WriteByte edp_strlen_def wire_str_def add_ac\<close>)
qed

text \<open>A packing function and a receiver whose buffer ends with the packet.\<close>

definition arrives :: "edp_packed \<Rightarrow> 'a edp_read \<Rightarrow> byte \<Rightarrow> 'a \<Rightarrow> nat \<Rightarrow> bool" where
  "arrives pk unpack t x n \<longleftrightarrow> (\<exists>pkg ms bs. pk = Some (Some pkg, ms) \<and> packed pkg bs \<and>
     (\<forall>buf rms rest m. holds (n + m) (buf, rms) (bs @ rest) \<longrightarrow>
        (\<exists>st. edp_deliver unpack (buf, rms) = Some (t, Inr x, st) \<and> holds m st rest)))"

lemma arrivesI:
  assumes "ws = WriteByte t # WriteRemainlen (of_nat (length body)) # ws'" "list_all2 appends ws' bss"
    "concat bss = body" "length body < 2 ^ 28" "26 \<le> avail ms"
    and "\<And>lb. reads ReadRemainlen lb (of_nat (length body)) 0 \<Longrightarrow> reads unpack (lb @ body) x n"
  shows "arrives (pack ws ms) unpack t x (3 + n)"
proof -
  let ?f = "edp_frame t (of_nat (length body)) body"
  have l: "unat (of_nat (length body) :: u32) = length body" using assms(4) by (intro unat_of_nat_32) simp
  from pack_ok [OF assms(1-3), of 0 ms] assms(4,5) obtain pkg ms' where
    p: "pack ws ms = Some (Some pkg, ms')" "packed pkg ?f" by auto
  have f: "is_packet ?f" by (rule is_packet_edp_frame [OF l assms(4)])
  have "reads ReadRemainlen (remainlen_bytes (of_nat (length body))) (of_nat (length body)) 0"
    using reads_ReadRemainlen [OF remainlen_bytes_ok(1) remainlen_bytes_short] l assms(4)
    by (simp add: remainlen_bytes_ok(2))
  from assms(6) [OF this] f have
    "\<exists>st. edp_deliver unpack (buf, rms) = Some (t, Inr x, st) \<and> holds m st rest"
    if "holds (3 + n + m) (buf, rms) (?f @ rest)" for buf rms rest m
    using edp_deliver_reads [of unpack _ x n t m buf rms rest] that by (simp add: edp_frame_def add.assoc)
  with p show ?thesis unfolding arrives_def by blast
qed

text \<open>C19: A data packet that \<^verbatim>\<open>PacketPushdata\<close> builds and that reaches a receive buffer, followed
  by anything, is taken out by \<^verbatim>\<open>GetEdpPacket\<close>, has the type \<^verbatim>\<open>PUSHDATA\<close>, and \<^verbatim>\<open>UnpackPushdata\<close> gives
  back the device id, the data and its length; the receive buffer keeps what followed. The id
  has no 0 and at most 65535 characters, the packet less than 2\^28 bytes, and memory is there.\<close>
theorem edp_push_roundtrip:
  assumes "plain_str devid" "take (length data) src = map Some data"
    and "length devid + length data + 2 < 2 ^ 28" "26 \<le> avail ms"
  shows "arrives (PacketPushdata devid src (of_nat (length data)) ms) UnpackPushdata PUSHDATA
    (c_mem devid, c_mem data, of_nat (length data)) 5"
proof -
  let ?body = "wire_str devid @ data"
  have len: "length ?body = length devid + length data + 2" by (simp add: wire_str_def)
  have "arrives (pack [WriteByte PUSHDATA, WriteRemainlen (of_nat (length ?body)), WriteStr devid,
      WriteBytes src (of_nat (length data))] ms) UnpackPushdata PUSHDATA
      (c_mem devid, c_mem data, of_nat (length data)) (3 + 2)"
  proof (rule arrivesI [OF refl])
    show "list_all2 appends [WriteStr devid, WriteBytes src (of_nat (length data))] [wire_str devid, data]"
      using assms(1,2) by (simp add: appends_wire_str appends_WriteBytes)
    show "length ?body < 2 ^ 28" unfolding len by (rule assms(3))
    show "reads UnpackPushdata (lb @ ?body) (c_mem devid, c_mem data, of_nat (length data)) 2"
      if "reads ReadRemainlen lb (of_nat (length ?body)) 0" for lb
      using assms that [unfolded len] unfolding plain_str_def by (intro reads_pushdata_body) blast+
  qed (simp_all add: assms(4))
  moreover have "of_nat (length ?body) = (2 + edp_strlen devid) + (of_nat (length data) :: u32)"
    unfolding len by (simp add: edp_strlen_def)
  ultimately show ?thesis unfolding PacketPushdata_def by simp
qed

theorem edp_push_roundtrip_witness:
  "arrives (PacketPushdata [0x64, 0x31] (map Some [7, 0, 9]) 3 (replicate 26 True)) UnpackPushdata PUSHDATA
    (c_mem [0x64, 0x31], c_mem [7, 0, 9], 3) 5"
  using edp_push_roundtrip [of "[0x64, 0x31]" "[7, 0, 9]" "map Some [7, 0, 9]" "replicate 26 True"]
  by (simp add: plain_str_def)

text \<open>A string that \<^verbatim>\<open>PacketSavedataSimpleString\<close> packs, with or without the id of
  another device, is unpacked by \<^verbatim>\<open>UnpackSavedata\<close> and \<^verbatim>\<open>UnpackSavedataSimpleString\<close> to the same id
  (a null pointer where there is none), the type \<^verbatim>\<open>kTypeString\<close> and the same string.\<close>
theorem edp_string_roundtrip:
  assumes "\<forall>s \<in> set_option dst. plain_str s" "plain_str input" "26 \<le> avail ms"
  shows "arrives (PacketSavedataSimpleString dst input ms) (unpack_saved UnpackSavedataSimpleString) SAVEDATA
    ((map_option c_mem dst, kTypeString), c_mem input) 5"
proof -
  let ?body = "saved_head dst @ [kTypeString] @ wire_str input"
  have len: "length ?body = length (saved_head dst) + 1 + (2 + length input)" by (simp add: wire_str_def)
  have small: "length ?body < 2 ^ 28"
    using assms(1,2) by (auto simp: saved_head_def wire_str_def plain_str_def split: option.split)
  obtain ws bss where ws: "savedata_head dst (2 + edp_strlen input) = WriteRemainlen (of_nat (length ?body)) # ws"
    "list_all2 appends ws bss" "concat bss = saved_head dst"
    unfolding len by (rule savedata_head_ok [OF assms(1), of "2 + edp_strlen input" "2 + length input"])
      (simp_all add: edp_strlen_def)
  have "arrives (pack (WriteByte SAVEDATA # WriteRemainlen (of_nat (length ?body)) #
      (ws @ [WriteByte kTypeString, WriteStr input])) ms)
      (unpack_saved UnpackSavedataSimpleString) SAVEDATA ((map_option c_mem dst, kTypeString), c_mem input) (3 + 2)"
  proof (rule arrivesI [OF refl])
    show "list_all2 appends (ws @ [WriteByte kTypeString, WriteStr input]) (bss @ [[kTypeString], wire_str input])"
      using ws(2) assms(2) by (auto intro!: list_all2_appendI appends_WriteByte appends_wire_str)
  qed (use ws(3) small assms reads_simple_string in auto)
  then show ?thesis by (simp add: PacketSavedataSimpleString_def ws(1))
qed

theorem edp_string_roundtrip_witness:
  "arrives (PacketSavedataSimpleString None [0x2C, 0x3B, 0x35] (replicate 26 True))
    (unpack_saved UnpackSavedataSimpleString) SAVEDATA ((None, kTypeString), c_mem [0x2C, 0x3B, 0x35]) 5"
  using edp_string_roundtrip [of None "[0x2C, 0x3B, 0x35]" "replicate 26 True"] by (simp add: plain_str_def)

text \<open>Binary data of up to 3 megabytes and its description, packed by
  \<^verbatim>\<open>PacketSavedataBinStr\<close>, are unpacked by \<^verbatim>\<open>UnpackSavedata\<close> and \<^verbatim>\<open>UnpackSavedataBinStr\<close> to the same
  description, data and length, where the description has at most 65535 characters.\<close>
theorem edp_binary_roundtrip:
  assumes "\<forall>s \<in> set_option dst. plain_str s" "plain_str desc" "take (length bin) src = map Some bin"
    and "length bin \<le> 3 * 2 ^ 20" "26 \<le> avail ms"
  shows "arrives (PacketSavedataBinStr dst desc src (of_nat (length bin)) ms)
    (unpack_saved UnpackSavedataBinStr) SAVEDATA
    ((map_option c_mem dst, kTypeBin), c_mem desc, c_mem bin, of_nat (length bin)) 6"
proof -
  let ?n = "of_nat (length bin) :: u32"
  let ?body = "saved_head dst @ [kTypeBin] @ wire_str desc @ bytes32 ?n @ bin"
  have n: "unat ?n = length bin" "unat (edp_strlen desc) = length desc"
    using assms(2,4) unfolding edp_strlen_def plain_str_def by (intro unat_of_nat_32; simp)+
  have ok: "\<not> desc_refused desc ?n"
    using assms(2,4) n by (simp add: desc_refused_def plain_str_def word_less_nat_alt)
  have len: "length ?body = length (saved_head dst) + 1 + ((2 + length desc) + (4 + length bin))"
    by (simp add: wire_str_def)
  have small: "length ?body < 2 ^ 28"
    using assms(1,2,4) by (auto simp: saved_head_def wire_str_def plain_str_def split: option.split)
  obtain ws bss where ws: "savedata_head dst ((2 + edp_strlen desc) + (4 + ?n)) = WriteRemainlen (of_nat (length ?body)) # ws"
    "list_all2 appends ws bss" "concat bss = saved_head dst"
    unfolding len by (rule savedata_head_ok [OF assms(1), of _ "(2 + length desc) + (4 + length bin)"])
      (simp_all add: edp_strlen_def)
  have "arrives (pack (WriteByte SAVEDATA # WriteRemainlen (of_nat (length ?body)) #
      (ws @ [WriteByte kTypeBin, WriteStr desc, WriteUint32 ?n, WriteBytes src ?n])) ms)
      (unpack_saved UnpackSavedataBinStr) SAVEDATA
      ((map_option c_mem dst, kTypeBin), c_mem desc, c_mem bin, ?n) (3 + 3)"
  proof (rule arrivesI [OF refl])
    show "list_all2 appends (ws @ [WriteByte kTypeBin, WriteStr desc, WriteUint32 ?n, WriteBytes src ?n])
        (bss @ [[kTypeBin], wire_str desc, bytes32 ?n, bin])"
      using ws(2) assms(2,3)
      by (auto intro!: list_all2_appendI appends_WriteByte appends_wire_str appends_WriteUint32 appends_WriteBytes)
    show "reads (unpack_saved UnpackSavedataBinStr) (lb @ ?body)
        ((map_option c_mem dst, kTypeBin), c_mem desc, c_mem bin, ?n) 3"
      if "reads ReadRemainlen lb (of_nat (length ?body)) 0" for lb
      by (rule reads_bin_str [OF that assms(1,2)]) (use assms(4) in simp)
  qed (use ws(3) small assms in auto)
  then show ?thesis unfolding PacketSavedataBinStr_def ws(1) using ok by simp
qed

theorem edp_binary_roundtrip_witness:
  "arrives (PacketSavedataBinStr (Some [0x64]) [0x7B, 0x7D] (map Some [0, 255]) 2 (replicate 26 True))
    (unpack_saved UnpackSavedataBinStr) SAVEDATA
    ((Some (c_mem [0x64]), kTypeBin), c_mem [0x7B, 0x7D], c_mem [0, 255], 2) 6"
  using edp_binary_roundtrip [of "Some [0x64]" "[0x7B, 0x7D]" "[0, 255]" "map Some [0, 255]" "replicate 26 True"]
  by (simp add: plain_str_def)

subsection \<open>Receiving\<close>

text \<open>C18: Calls of \<^verbatim>\<open>Recv_Thread_Func\<close> one after the other, each with a piece of the stream from
  the server or with none: whatever the bytes (at most 2\^31 in a piece), every call returns and no
  access goes astray, and together they take out of their buffers exactly the packets into which
  each piece by itself is cut, in order. The rest of a piece, which does not begin with a packet
  (the first part of a packet whose end arrives in the next call, or bytes that are no packet), is
  lost with the buffer of the call. Memory is there; what is done with a packet is not part of
  this.\<close>
theorem edp_receiver_each_call:
  assumes "\<forall>p. Some p \<in> set pieces \<longrightarrow> length p \<le> 2 ^ 31"
    and "(\<Sum>piece \<leftarrow> pieces. case piece of None \<Rightarrow> 2 | Some p \<Rightarrow> 26 + 3 * length p) \<le> avail ms"
  shows "\<exists>cs pkgs ms'. receive_calls pieces ms = Some (pkgs, ms') \<and>
    list_all2 (\<lambda>piece c. case piece of None \<Rightarrow> c = ([], []) | Some p \<Rightarrow> cuts p c) pieces cs \<and>
    list_all2 packed pkgs (concat (map fst cs))"
  using assms
proof (induction pieces arbitrary: ms)
  case Nil
  then show ?case by simp
next
  case (Cons piece pieces)
  let ?m = "\<Sum>piece \<leftarrow> pieces. case piece of None \<Rightarrow> 2 | Some p \<Rightarrow> 26 + 3 * length p"
  have "\<exists>c pkgs ms1. receive_call piece ms = Some (pkgs, ms1) \<and> ?m \<le> avail ms1 \<and>
    list_all2 packed pkgs (fst c) \<and> (case piece of None \<Rightarrow> c = ([], []) | Some p \<Rightarrow> cuts p c)"
  proof (cases piece)
    case None
    with receive_call_nothing [of ?m ms] Cons.prems(2) show ?thesis by auto
  next
    case (Some p)
    obtain fs r where "cuts p (fs, r)" using cuts_exists [of p] by auto
    with receive_call_ok [OF this, of ?m ms] Cons.prems Some show ?thesis by fastforce
  qed
  then obtain c pkgs ms1 where 1: "receive_call piece ms = Some (pkgs, ms1)" "?m \<le> avail ms1"
    "list_all2 packed pkgs (fst c)" "case piece of None \<Rightarrow> c = ([], []) | Some p \<Rightarrow> cuts p c" by blast
  from Cons.IH [OF _ 1(2)] Cons.prems(1) obtain cs pkgs' ms' where
    "receive_calls pieces ms1 = Some (pkgs', ms')" "list_all2 packed pkgs' (concat (map fst cs))"
    "list_all2 (\<lambda>piece c. case piece of None \<Rightarrow> c = ([], []) | Some p \<Rightarrow> cuts p c) pieces cs" by auto
  with 1 show ?case
    by (intro exI [of _ "c # cs"] exI [of _ "pkgs @ pkgs'"] exI [of _ ms']) (simp add: list_all2_appendI)
qed

lemma ping_is_packet: "is_packet [0xD0, 0]" and connresp_is_packet: "is_packet [0x20, 2, 0, 0]"
  and type_2_is_packet: "is_packet [2, 0]"
  unfolding is_packet_def
  by (rule exI [of _ "0xD0"], rule exI [of _ "[0]"], rule exI [of _ "[]"], simp)
    (rule exI [of _ "0x20"], rule exI [of _ "[2]"], rule exI [of _ "[0, 0]"], simp,
     rule exI [of _ "2"], rule exI [of _ "[0]"], rule exI [of _ "[]"], simp)

text \<open>A byte alone does not begin with a packet.\<close>

lemma byte_cuts: "list_all is_packet fs \<Longrightarrow> cuts (concat fs @ [x]) (fs, [x])"
proof -
  have "\<not> starts_packet [x]"
    by (auto simp: starts_packet_def is_packet_def Cons_eq_append_conv append_eq_Cons_conv)
  then show "list_all is_packet fs \<Longrightarrow> cuts (concat fs @ [x]) (fs, [x])" by (simp add: cuts_def)
qed

text \<open>The response to a connection that arrives in two calls is lost, and the second call takes
  a packet of type 2 out of its end.\<close>
theorem edp_receiver_each_call_witness:
  "\<exists>pkgs ms'. receive_calls [Some [0xD0, 0, 0x20], None, Some [2, 0, 0]] (replicate 80 True) = Some (pkgs, ms') \<and>
     list_all2 packed pkgs [[0xD0, 0], [2, 0]]"
proof -
  have c: "cuts [0xD0, 0, 0x20] ([[0xD0, 0]], [0x20])" "cuts [2, 0, 0] ([[2, 0]], [0])"
    using byte_cuts [of "[[0xD0, 0]]" "0x20"] byte_cuts [of "[[2, 0]]" 0] ping_is_packet type_2_is_packet
    by simp_all
  from edp_receiver_each_call [of "[Some [0xD0, 0, 0x20], None, Some [2, 0, 0]]" "replicate 80 True"]
  obtain c1 c2 c3 pkgs ms' where
    r: "receive_calls [Some [0xD0, 0, 0x20], None, Some [2, 0, 0]] (replicate 80 True) = Some (pkgs, ms')"
      "list_all2 packed pkgs (fst c1 @ fst c2 @ fst c3)"
    and k: "cuts [0xD0, 0, 0x20] c1" "c2 = ([], [])" "cuts [2, 0, 0] c3"
    by (auto simp: list_all2_Cons1 avail_def)
  have "fst c1 = [[0xD0, 0]]" "fst c3 = [[2, 0]]"
    using cuts_unique [OF c(1), of "fst c1" "snd c1"] cuts_unique [OF c(2), of "fst c3" "snd c3"] k(1,3) by auto
  with r k(2) show ?thesis by auto
qed

text \<open>C32: For every packet in the receive buffer, whatever its bytes, \<^verbatim>\<open>UnpackPushdata\<close> ends,
  reads only bytes of the packet, and gives the id and the data, or \<^verbatim>\<open>ERR_UNPACK_PUSHD_DEVID\<close> where
  the id does not fit the packet, or \<^verbatim>\<open>ERR_UNPACK_PUSHD_DATA\<close> where the id contains a 0; the bytes
  after the packet stay in the buffer.\<close>
theorem edp_pushdata_every_packet:
  assumes "length_bytes lb" "length lb \<le> 4" "base128 lb = length body"
    and "holds (5 + m) (buf, ms) ((t # lb @ body) @ rest)"
  shows "\<exists>st. edp_deliver UnpackPushdata (buf, ms) = Some (t, pushdata_result body, st) \<and> holds m st rest"
proof -
  have p: "is_packet (t # lb @ body)" using assms(1-3) unfolding is_packet_def by blast
  have lb: "reads ReadRemainlen lb (of_nat (length body)) 0"
    using reads_ReadRemainlen [OF assms(1,2)] by (simp add: assms(3))
  have "length body < 2 ^ 28" using base128_bound [OF assms(2)] by (simp add: assms(3))
  note y = yields_pushdata [OF lb this]
  have h: "holds (3 + (2 + m)) (buf, ms) ((t # lb @ body) @ rest)" using assms(4) by simp
  show ?thesis
  proof (cases "pushdata_result body")
    case (Inl e)
    with y edp_deliver_refuses [OF _ p h] show ?thesis by (simp add: yields_def)
  next
    case (Inr x)
    with y edp_deliver_reads [OF _ p h] show ?thesis by (simp add: yields_def)
  qed
qed

text \<open>A buffer that holds the given bytes, for the witnesses.\<close>

definition buffer_of :: "byte list \<Rightarrow> edp_buffer" where
  "buffer_of bs = \<lparr>edp_data = map Some bs @ replicate (128 - length bs) None,
     write_pos = of_nat (length bs), read_pos = 0, capacity = 128\<rparr>"

lemma buffer_of_holds: "length bs \<le> 128 \<Longrightarrow> 24 + m \<le> avail ms \<Longrightarrow> holds m (buffer_of bs, ms) bs"
  unfolding holds_def by (auto simp: shape_def buffer_of_def filled_def intro!: exI [of _ 0])

theorem edp_pushdata_every_packet_witness:
  "\<exists>st. edp_deliver UnpackPushdata (buffer_of [0x30, 5, 0, 2, 0x64, 0, 9, 0xD0], replicate 29 True) =
     Some (0x30, Inl ERR_UNPACK_PUSHD_DATA, st) \<and> holds 0 st [0xD0]"
proof -
  have "pushdata_result [0, 2, 0x64, 0, 9] = Inl ERR_UNPACK_PUSHD_DATA"
    by (simp add: pushdata_result_def Let_def)
  with edp_pushdata_every_packet [of "[5]" "[0, 2, 0x64, 0, 9]" 0 "buffer_of [0x30, 5, 0, 2, 0x64, 0, 9, 0xD0]"
      "replicate 29 True" "0x30" "[0xD0]"]
  show ?thesis by (simp add: buffer_of_holds)
qed

text \<open>A command packet whose \<^verbatim>\<open>req_len\<close> field is so large that it wraps around when the read
  position is added passes the length test of \<^verbatim>\<open>ReadBytes\<close>, and \<^verbatim>\<open>UnpackCmdReq\<close> copies outside the
  packet. An eight byte packet from the network is enough.\<close>
theorem edp_command_length_wraps:
  assumes "length_bytes lb" "length lb \<le> 4" "base128 lb = length body" "length cid < 2 ^ 16"
    and "body = bytes16 (of_nat (length cid)) @ cid @ bytes32 n @ others"
    and "2 ^ 32 \<le> length lb + length cid + 7 + unat n"
    and "holds 4 (buf, ms) ((CMDREQ # lb @ body) @ rest)"
  shows "\<exists>pkg st. GetEdpPacket (buf, ms) = Some (Some pkg, st) \<and> packed pkg (CMDREQ # lb @ body) \<and>
    edp_deliver UnpackCmdReq (buf, ms) = None"
proof -
  have p: "is_packet (CMDREQ # lb @ body)" using assms(1-3) unfolding is_packet_def by blast
  have lb: "reads ReadRemainlen lb (of_nat (length body)) 0"
    using reads_ReadRemainlen [OF assms(1,2)] by (simp add: assms(3))
  have h: "holds (3 + 1) (buf, ms) ((CMDREQ # lb @ body) @ rest)" using assms(7) by simp
  from GetEdpPacket_ok [OF h p] obtain pkg j buf1 ms1 where
    1: "GetEdpPacket (buf, ms) = Some (Some pkg, (buf1, ms1))" "shape pkg j (CMDREQ # lb @ body)"
    "holds 1 (buf1, ms1) rest" by auto
  then have "1 \<le> avail ms1" by (auto simp: holds_def)
  from shape_unread [OF 1(2) this] readsD [OF reads_ReadByte, of 1 "(pkg, ms1)" CMDREQ "lb @ body"]
  obtain st1 where 2: "ReadByte (pkg, ms1) = Some (Inr CMDREQ, st1)" "unread 1 st1 (lb @ body)" by auto
  have "write_pos (fst st1) = write_pos pkg" using keepsD [OF keeps_ReadByte 2(1)] by simp
  then have "unat (write_pos (fst st1)) = 1 + length lb + length body"
    using shape_write_pos [OF 1(2)] by simp
  then have "2 ^ 32 \<le> unat (write_pos (fst st1)) - length others + unat n"
    using assms(5,6) by simp
  from UnpackCmdReq_wraps [OF lb assms(4) _ this] 2(2) assms(5) have "UnpackCmdReq st1 = None" by simp
  then have "edp_deliver UnpackCmdReq (buf, ms) = None"
    by (simp add: edp_deliver_def 1(1) EdpPacketType_def 2(1))
  with 1 shape_packed show ?thesis by blast
qed

theorem edp_command_length_wraps_witness:
  "\<exists>pkg st. GetEdpPacket (buffer_of [0xA0, 6, 0, 0, 0xFF, 0xFF, 0xFF, 0xFF], replicate 28 True) = Some (Some pkg, st) \<and>
     packed pkg [0xA0, 6, 0, 0, 0xFF, 0xFF, 0xFF, 0xFF] \<and>
     edp_deliver UnpackCmdReq (buffer_of [0xA0, 6, 0, 0, 0xFF, 0xFF, 0xFF, 0xFF], replicate 28 True) = None"
proof -
  have b: "[0, 0, 0xFF, 0xFF, 0xFF, 0xFF] = bytes16 (of_nat (length ([] :: byte list))) @ [] @ bytes32 0xFFFFFFFF @ []"
    by (simp add: bytes16_def bytes32_def)
  have h: "holds 4 (buffer_of [0xA0, 6, 0, 0, 0xFF, 0xFF, 0xFF, 0xFF], replicate 28 True)
      ((CMDREQ # [6] @ [0, 0, 0xFF, 0xFF, 0xFF, 0xFF]) @ [])"
    using buffer_of_holds [of "[0xA0, 6, 0, 0, 0xFF, 0xFF, 0xFF, 0xFF]" 4 "replicate 28 True"] by simp
  show ?thesis
    using edp_command_length_wraps [OF _ _ _ _ b _ h] by simp
qed

subsection \<open>Memory\<close>

lemma unat_zero_minus: "v \<noteq> 0 \<Longrightarrow> unat (0 - v :: u32) = 2 ^ 32 - unat v"
proof -
  assume v: "v \<noteq> 0"
  have "unat ((0 - v) + v) = 0" by simp
  then have "(unat (0 - v) + unat v) mod 2 ^ 32 = 0" by (simp only: unat_word_ariths) simp
  moreover have "unat (0 - v) < 2 ^ 32" "unat v < 2 ^ 32" "0 < unat v"
    using unsigned_less [of "0 - v :: u32"] unsigned_less [of v] v by (simp_all add: word_unat_eq_iff)
  moreover from calculation(1) obtain k where "unat (0 - v) + unat v = 2 ^ 32 * k"
    unfolding mod_eq_0_iff_dvd by (rule dvdE)
  moreover from calculation have "k = 1" by simp
  ultimately show ?thesis by simp
qed

lemma grow_cap_zero: "wpos \<noteq> 0 \<Longrightarrow> len \<le> 0 - wpos \<Longrightarrow> grow_cap wpos len flag 0 = (flag, 0)"
  by (subst grow_cap.simps) auto

lemma grow_cap_stuck: "0 - wpos < len \<Longrightarrow> f \<le> 32 \<Longrightarrow> 32 < fst (grow_cap wpos len f 0)"
proof (induction "32 - f" arbitrary: f)
  case 0
  then show ?case by (subst grow_cap.simps) simp
next
  case (Suc d)
  then show ?case by (subst grow_cap.simps) simp
qed

text \<open>A request beyond 2\^31 bytes doubles the size until it has wrapped around to 0.\<close>

lemma grow_cap_wraps:
  assumes "k \<le> 24" "w \<le> 2 ^ (7 + k)" "2 ^ 31 < w + n" "flag \<le> 7 + k" "unat wpos = w" "unat len = n"
  shows "\<exists>f \<le> 32. grow_cap wpos len flag (2 ^ (7 + k)) = grow_cap wpos len f 0"
  using assms
proof (induction "24 - k" arbitrary: k flag rule: less_induct)
  case less
  have c: "unat ((2 :: u32) ^ (7 + k)) = 2 ^ (7 + k)" using less.prems(1) by (intro unat_pow2) simp
  have le: "wpos \<le> 2 ^ (7 + k)" unfolding word_le_nat_alt c less.prems(5) by (rule less.prems(2))
  have big: "(2 :: nat) ^ (7 + k) \<le> 2 ^ 31" using less.prems(1) by (intro power_increasing) auto
  have "2 ^ (7 + k) - w < n" using less.prems(2,3) big by linarith
  then have lt: "2 ^ (7 + k) - wpos < len"
    unfolding word_less_nat_alt unat_sub [OF le] c less.prems(5,6) .
  have p: "push_bit (Suc 0) ((2 :: u32) ^ (7 + k)) = 2 ^ (7 + Suc k)"
    by (simp add: push_bit_eq_mult power_add)
  have step: "grow_cap wpos len flag (2 ^ (7 + k)) = grow_cap wpos len (flag + 1) (2 ^ (7 + Suc k))"
    using lt less.prems(1,4) p by (subst grow_cap.simps) (simp add: Let_def)
  show ?case
  proof (cases "k = 24")
    case True
    have "(2 :: u32) ^ (7 + Suc 24) = 0" by simp
    then have "grow_cap wpos len flag (2 ^ (7 + k)) = grow_cap wpos len (flag + 1) 0"
      unfolding step by (simp only: True)
    then show ?thesis using less.prems(4) True by (intro exI [of _ "flag + 1"]) simp
  next
    case False
    then have "Suc k \<le> 24" using less.prems(1) by simp
    moreover have "w \<le> 2 ^ (7 + Suc k)" using less.prems(2) by (simp add: power_add)
    ultimately show ?thesis
      unfolding step using less.hyps [of "Suc k" "flag + 1"] less.prems by simp
  qed
qed

lemma CheckCapacity_wraps:
  assumes "shape buf k acc" "2 ^ 31 < length acc + unat len"
  shows "CheckCapacity len (buf, ms) =
    Some (if acc \<noteq> [] \<and> length acc + unat len \<le> 2 ^ 32 then 0 else -1, (buf, ms))"
proof -
  have k: "k \<le> 24" "capacity buf = 2 ^ (7 + k)" using assms(1) by (simp_all add: shape_def)
  have w: "unat (write_pos buf) = length acc" by (rule shape_write_pos [OF assms(1)])
  obtain f where f: "f \<le> 32" "grow_cap (write_pos buf) len 0 (2 ^ (7 + k)) = grow_cap (write_pos buf) len f 0"
    using grow_cap_wraps [OF k(1) shape_length [OF assms(1)] assms(2), of 0 "write_pos buf" len] w by auto
  show ?thesis
  proof (cases "acc \<noteq> [] \<and> length acc + unat len \<le> 2 ^ 32")
    case True
    then have z: "write_pos buf \<noteq> 0" using w by auto
    have "unat len \<le> 2 ^ 32 - length acc" using True by linarith
    then have "len \<le> 0 - write_pos buf" unfolding word_le_nat_alt unat_zero_minus [OF z] w .
    from grow_cap_zero [OF z this] f True show ?thesis by (simp add: CheckCapacity_def k(2))
  next
    case False
    have "0 - write_pos buf < len"
    proof (cases "acc = []")
      case True
      then have "write_pos buf = 0" using w by (simp add: unat_eq_0)
      moreover have "0 < unat len" using True assms(2) by simp
      ultimately show ?thesis by (simp add: word_less_nat_alt)
    next
      case ne: False
      then have z: "write_pos buf \<noteq> 0" using w by auto
      have "length acc \<le> 2 ^ 31" using shape_length_31 [OF assms(1)] by simp
      then have "2 ^ 32 - length acc < unat len" using False ne by simp
      then show ?thesis unfolding word_less_nat_alt unat_zero_minus [OF z] w .
    qed
    from grow_cap_stuck [OF this f(1)] f(2) False show ?thesis
      by (auto simp: CheckCapacity_def k(2) split: prod.split)
  qed
qed

text \<open>C33: \<^verbatim>\<open>CheckCapacity\<close> on a buffer that has been doubled some number of times: when the contents
  and the new bytes need at most 2\^31 bytes together and memory is there, it answers 0, and the
  block then has room for them and keeps its contents. Beyond that the doubled size wraps around
  to 0 and the block stays as it was, without room for the new bytes: the answer is -1 for an
  empty buffer and for more than 2\^32 bytes together, but 0 in between.\<close>
theorem edp_check_capacity:
  assumes "shape buf k acc" "0 < avail ms"
  shows "if length acc + unat len \<le> 2 ^ 31
    then \<exists>j buf' ms'. CheckCapacity len (buf, ms) = Some (0, (buf', ms')) \<and> shape buf' j acc \<and>
      length acc + unat len \<le> length (edp_data buf')
    else CheckCapacity len (buf, ms) =
        Some (if acc = [] \<or> 2 ^ 32 < length acc + unat len then -1 else 0, (buf, ms)) \<and>
      length (edp_data buf) < length acc + unat len"
proof (cases "length acc + unat len \<le> 2 ^ 31")
  case True
  with CheckCapacity_ok [OF assms(1) True, of ms] assms(2) show ?thesis unfolding shape_def by auto
next
  case False
  have "k \<le> 24" "length (edp_data buf) = 2 ^ (7 + k)" using assms(1) by (simp_all add: shape_def)
  moreover from this have "(2 :: nat) ^ (7 + k) \<le> 2 ^ 31" by (intro power_increasing) auto
  ultimately have "length (edp_data buf) < length acc + unat len" using False by linarith
  moreover have "CheckCapacity len (buf, ms) =
      Some (if acc = [] \<or> 2 ^ 32 < length acc + unat len then -1 else 0, (buf, ms))"
    using CheckCapacity_wraps [OF assms(1), of len ms] False by (simp add: not_le)
  ultimately show ?thesis using False by (simp only: if_False simp_thms)
qed

theorem edp_check_capacity_witness:
  "CheckCapacity 0x80000000 (buffer_of [0x30], [True]) = Some (0, (buffer_of [0x30], [True])) \<and>
   (\<exists>j buf' ms'. CheckCapacity 200 (buffer_of [0x30], [True]) = Some (0, (buf', ms')) \<and>
     shape buf' j [0x30] \<and> 201 \<le> length (edp_data buf'))"
proof -
  have s: "shape (buffer_of [0x30]) 0 [0x30]" by (simp add: shape_def buffer_of_def filled_def)
  show ?thesis
    using edp_check_capacity [OF s, of "[True]" "0x80000000"] edp_check_capacity [OF s, of "[True]" 200] by simp
qed

text \<open>Where \<^verbatim>\<open>NewBuffer\<close> gets no memory, \<^verbatim>\<open>PacketConnect1\<close> returns a null pointer, and every
  other packing function writes through the null pointer.\<close>
theorem edp_no_memory:
  assumes "avail ms \<le> 1"
  shows "(\<exists>ms'. PacketConnect1 devid key ms = Some (None, ms')) \<and> PacketConnect2 userid info ms = None \<and>
    PacketPushdata dst data len ms = None \<and> PacketPing ms = None \<and>
    PacketCmdResp cmdid cmdid_len resp resp_len ms = None \<and> PacketSavedataSimpleString dev input ms = None"
proof -
  from NewBuffer_refused [OF assms] obtain ms' where "NewBuffer ms = (None, ms')" by blast
  then show ?thesis
    by (simp add: PacketConnect1_def PacketConnect2_def PacketPushdata_def PacketPing_def PacketCmdResp_def
        PacketSavedataSimpleString_def pack_def)
qed

theorem edp_no_memory_witness:
  "(\<exists>ms'. PacketConnect1 [0x31] [0x32] [True, False] = Some (None, ms')) \<and> PacketPing [True, False] = None"
  using edp_no_memory [of "[True, False]" "[0x31]" "[0x32]"] by simp

subsection \<open>Lengths\<close>

text \<open>Once the receive buffer begins with a remaining length of more than four bytes, the
  protocol error that \<^verbatim>\<open>IsPkgComplete\<close> finds is to \<^verbatim>\<open>GetEdpPacket\<close> the same as an incomplete packet:
  whatever is written behind it, no packet is taken out and the buffer only grows, which makes the
  same true of the next bytes for a caller that keeps its buffer.\<close>
theorem edp_bad_length_blocks:
  assumes "holds m st acc" "5 \<le> length acc" "\<forall>j \<in> {1..<5}. acc ! j AND 0x80 \<noteq> 0"
    and "length acc + length c \<le> 2 ^ 31"
  shows "\<exists>st'. receive c st = Some ([], st') \<and> holds m st' (acc @ c)"
proof -
  have "appends (WriteBytes (map Some c) (of_nat (length c))) c"
    by (rule appends_WriteBytes) simp_all
  from appendsD [OF this assms(1)] assms(4) obtain st1 where
    1: "WriteBytes (map Some c) (of_nat (length c)) st = Some (0, st1)" "holds m st1 (acc @ c)" by auto
  have "\<not> starts_packet (acc @ c)"
  proof
    assume "starts_packet (acc @ c)"
    then obtain t lb r where p: "acc @ c = t # lb @ r" "length_bytes lb" "length lb \<le> 4"
      by (auto simp: starts_packet_def is_packet_def)
    have "last lb AND 0x80 = 0" using p(2) by (induction lb rule: length_bytes.induct) auto
    moreover have ne: "lb \<noteq> []" using p(2) by auto
    moreover have "last lb = (acc @ c) ! length lb"
      unfolding p(1) using ne by (cases lb rule: rev_cases) (auto simp: nth_append)
    moreover have "(acc @ c) ! length lb = acc ! length lb" using p(3) assms(2) by (simp add: nth_append)
    moreover have "length lb \<in> {1..<5}" using ne p(3) by (cases lb) auto
    ultimately show False using assms(3) by simp
  qed
  from GetEdpPacket_none [OF 1(2) this] have "take_packets st1 = Some ([], st1)"
    by (subst take_packets.simps) simp
  with 1 show ?thesis by (simp add: receive_def)
qed

theorem edp_bad_length_blocks_witness:
  "\<exists>st'. receive [0xD0, 0] (buffer_of [0, 0x80, 0x80, 0x80, 0x80], replicate 24 True) = Some ([], st') \<and>
     holds 0 st' [0, 0x80, 0x80, 0x80, 0x80, 0xD0, 0]"
proof -
  have "\<forall>j \<in> {1..<5}. [0, 0x80, 0x80, 0x80, 0x80] ! j AND (0x80 :: byte) \<noteq> 0"
  proof
    fix j :: nat assume "j \<in> {1..<5}"
    then have "j = 1 \<or> j = 2 \<or> j = 3 \<or> j = 4" by auto
    then show "[0, 0x80, 0x80, 0x80, 0x80] ! j AND (0x80 :: byte) \<noteq> 0" by auto
  qed
  with edp_bad_length_blocks [OF buffer_of_holds, of "[0, 0x80, 0x80, 0x80, 0x80]" 0 "replicate 24 True" "[0xD0, 0]"]
  show ?thesis by simp
qed

text \<open>\<^verbatim>\<open>PacketSavedataBinStr\<close> accepts a description of 65536 characters, writes 0 into its
  length field and leaves the description out, but counts it in the remaining length: the
  receiver takes no packet out of these bytes and waits for 65536 more.\<close>
theorem edp_description_left_out:
  assumes "length desc = 2 ^ 16" "take (length bin) src = map Some bin" "length bin \<le> 3 * 2 ^ 20" "26 \<le> avail ms"
  shows "\<exists>pkg ms'. PacketSavedataBinStr None desc src (of_nat (length bin)) ms = Some (Some pkg, ms') \<and>
    packed pkg (edp_frame SAVEDATA (of_nat (length bin + 65544)) ([0, kTypeBin, 0, 0] @ bytes32 (of_nat (length bin)) @ bin)) \<and>
    (\<forall>m st. holds m st (edp_frame SAVEDATA (of_nat (length bin + 65544))
        ([0, kTypeBin, 0, 0] @ bytes32 (of_nat (length bin)) @ bin)) \<longrightarrow> GetEdpPacket st = Some (None, st))"
proof -
  let ?n = "of_nat (length bin) :: u32" and ?l = "of_nat (length bin + 65544) :: u32"
  let ?body = "[0, kTypeBin, 0, 0] @ bytes32 ?n @ bin"
  have n: "unat ?n = length bin" using assms(3) by (intro unat_of_nat_32) simp
  have l: "unat ?l = length bin + 65544" using assms(3) by (intro unat_of_nat_32) simp
  have s: "edp_strlen desc = 0x10000" by (simp add: edp_strlen_def assms(1))
  have z: "(of_nat (length desc) :: u16) = 0" by (simp add: assms(1))
  have ok: "\<not> desc_refused desc ?n"
    using assms(3) n by (simp add: desc_refused_def s word_less_nat_alt)
  have "appends (WriteBytes (c_mem desc) 0) []" by (rule appends_WriteBytes) simp_all
  from appends_or_else [OF appends_WriteUint16 this, of 0]
  have str: "appends (WriteStr desc) [0, 0]" by (simp add: WriteStr_def z bytes16_def)
  have "\<exists>pkg ms'. pack (WriteByte SAVEDATA # WriteRemainlen ?l #
      [WriteByte 0, WriteByte kTypeBin, WriteStr desc, WriteUint32 ?n, WriteBytes src ?n]) ms =
      Some (Some pkg, ms') \<and> packed pkg (edp_frame SAVEDATA ?l ?body) \<and> 0 \<le> avail ms'"
  proof (rule pack_ok [OF refl])
    show "list_all2 appends [WriteByte 0, WriteByte kTypeBin, WriteStr desc, WriteUint32 ?n, WriteBytes src ?n]
        [[0], [kTypeBin], [0, 0], bytes32 ?n, bin]"
      using str assms(2) by (simp add: appends_WriteByte appends_WriteUint32 appends_WriteBytes)
  qed (use assms(3,4) in simp_all)
  moreover have "GetEdpPacket st = Some (None, st)" if "holds m st (edp_frame SAVEDATA ?l ?body)" for m st
  proof -
    obtain buf ms where st: "st = (buf, ms)" by (cases st)
    from that obtain k where k: "shape buf k (SAVEDATA # remainlen_bytes ?l @ ?body)"
      by (auto simp: holds_def st edp_frame_def)
    have "length (remainlen_bytes ?l) \<le> 4" using l assms(3) by (intro remainlen_bytes_short) simp
    from IsPkgComplete_header [OF k remainlen_bytes_ok(1) this]
    moreover have "\<not> base128 (remainlen_bytes ?l) \<le> length ?body"
      unfolding remainlen_bytes_ok(2) l by simp
    ultimately have "IsPkgComplete buf = Some 0" by (simp only: if_False)
    then show ?thesis by (simp add: GetEdpPacket_def st)
  qed
  moreover have "PacketSavedataBinStr None desc src ?n ms = pack (WriteByte SAVEDATA # WriteRemainlen ?l #
      [WriteByte 0, WriteByte kTypeBin, WriteStr desc, WriteUint32 ?n, WriteBytes src ?n]) ms"
    using ok by (simp add: PacketSavedataBinStr_def savedata_head_def s add_ac)
  ultimately show ?thesis by auto
qed

theorem edp_description_left_out_witness:
  "\<exists>pkg ms'. PacketSavedataBinStr None (replicate (2 ^ 16) 0x41) (map Some [7]) 1 (replicate 26 True) = Some (Some pkg, ms') \<and>
    packed pkg (edp_frame SAVEDATA 65545 [0, kTypeBin, 0, 0, 0, 0, 0, 1, 7])"
  using edp_description_left_out [of "replicate (2 ^ 16) 0x41" "[7]" "map Some [7]" "replicate 26 True"]
  by (auto simp: bytes32_def)

end
