(* ===== verification/At_Client.thy ===== *)
theory At_Client
  imports Mqtt_Codec
begin

text \<open>
  The AT client (\<^verbatim>\<open>components/net/at/src/at_client.c\<close>, \<^verbatim>\<open>at_utils.c\<close>): a parser thread takes the
  characters of a modem apart into lines, hands unsolicited lines (URCs) to their functions and
  collects the others as the response to the command that waits for one.

  Blocks are as in \<open>Mqtt_Codec\<close>. The parser is a function of one character, as its thread blocks in
  \<^verbatim>\<open>at_client_getchar\<close> between two characters; its local variables are the record \<open>at_parser\<close>.
  The response objects are named by numbers, and \<open>resps\<close> is their memory: a freed one is \<open>None\<close>.
  \<^verbatim>\<open>resp_notice\<close> is the value of the semaphore (theory \<open>Semaphore\<close> has its operations). A URC function
  is a parameter: it is given the line and says how many of the next characters it takes with
  \<^verbatim>\<open>at_client_obj_recv\<close>; its calls are noted in \<open>urc_calls\<close>. \<^verbatim>\<open>AT_COMPonet_Station\<close>, which makes the
  parser sleep between two lines while it is 0, is taken to be 1, its initial value.
\<close>

record at_response =
  resp_buf :: mem
  buf_size :: nat
  line_num :: nat
  line_counts :: nat
  resp_timeout :: int

record at_urc =
  cmd_prefix :: "byte list"
  cmd_suffix :: "byte list"
  func :: "(byte list \<Rightarrow> nat) option"

abbreviation AT_RESP_OK :: int where "AT_RESP_OK \<equiv> 0"
abbreviation AT_RESP_ERROR :: int where "AT_RESP_ERROR \<equiv> -1"
abbreviation AT_RESP_TIMEOUT :: int where "AT_RESP_TIMEOUT \<equiv> -2"
abbreviation AT_RESP_BUFF_FULL :: int where "AT_RESP_BUFF_FULL \<equiv> -3"

abbreviation AT_RESP_END_OK :: "byte list" where "AT_RESP_END_OK \<equiv> [0x4F, 0x4B]"
abbreviation AT_RESP_END_ERROR :: "byte list" where "AT_RESP_END_ERROR \<equiv> [0x45, 0x52, 0x52, 0x4F, 0x52]"
abbreviation AT_RESP_END_FAIL :: "byte list" where "AT_RESP_END_FAIL \<equiv> [0x46, 0x41, 0x49, 0x4C]"

record at_client =
  end_sign :: byte
  recv_buffer :: mem
  recv_bufsz :: nat
  cur_recv_len :: nat
  resp :: "nat option"
  resps :: "nat \<Rightarrow> at_response option"
  resp_notice :: nat
  resp_status :: int
  urc_table :: "at_urc list option"
  urc_calls :: "(byte list \<times> byte list) list"
  sent :: "byte list"

text \<open>The locals of \<^verbatim>\<open>at_recv_readline\<close> and \<^verbatim>\<open>client_parser\<close>. \<open>urc_wants\<close> characters are still to be
  taken by the URC function that runs, \<open>urc_line\<close> and \<open>urc_data\<close> are what it was given and has taken.\<close>

record at_parser =
  read_len :: nat
  last_ch :: byte
  is_full :: bool
  resp_buf_len :: nat
  parsed_lines :: nat
  urc_wants :: nat
  urc_line :: "byte list"
  urc_data :: "byte list"

type_synonym at_state = "at_client \<times> at_parser"

subsection \<open>String functions of the C library\<close>

text \<open>\<^verbatim>\<open>!strncmp(m + i, s, strlen(s))\<close>, which stops at the first difference; \<^verbatim>\<open>!memcmp(m, s, n)\<close>, which
  may read all bytes; \<^verbatim>\<open>strstr(m, s) != NULL\<close>.\<close>

fun starts_at :: "mem \<Rightarrow> nat \<Rightarrow> byte list \<Rightarrow> bool option" where
  "starts_at m i [] = Some True"
| "starts_at m i (c # s) = do {
     b \<leftarrow> peek m i;
     if b = c then starts_at m (Suc i) s else Some False
   }"

definition memcmp_eq :: "mem \<Rightarrow> byte list \<Rightarrow> bool option" where
  "memcmp_eq m s = map_option (\<lambda>bs. bs = s) (mem_slice m 0 (length s))"

fun contains :: "byte list \<Rightarrow> byte list \<Rightarrow> bool" where
  "contains s [] = (s = [])"
| "contains s (x # xs) = (take (length s) (x # xs) = s \<or> contains s xs)"

definition strstr_in :: "mem \<Rightarrow> byte list \<Rightarrow> bool option" where
  "strstr_in m s = map_option (contains s) (c_string m)"

definition mem_copy :: "mem \<Rightarrow> nat \<Rightarrow> mem \<Rightarrow> nat \<Rightarrow> mem option" where
  "mem_copy dst i src n =
     (if i + n \<le> length dst \<and> n \<le> length src
      then Some (take i dst @ take n src @ drop (i + n) dst) else None)"

subsection \<open>Response objects\<close>

text \<open>\<open>calloc\<close> and \<open>realloc\<close> stand for \<^verbatim>\<open>rt_calloc\<close> and \<^verbatim>\<open>rt_realloc\<close>: whether there is memory. The
  object gets the number \<open>i\<close>.\<close>

definition at_create_resp :: "bool \<Rightarrow> bool \<Rightarrow> nat \<Rightarrow> nat \<Rightarrow> nat \<Rightarrow> int \<Rightarrow> at_client \<Rightarrow> nat option \<times> at_client" where
  "at_create_resp ok_resp ok_buf i bufsz num timeout c =
     (if \<not> ok_resp \<or> \<not> ok_buf then (None, c)
      else (Some i, c\<lparr>resps := (resps c)(i \<mapsto>
              \<lparr>resp_buf = replicate bufsz (Some 0), buf_size = bufsz, line_num = num, line_counts = 0,
               resp_timeout = timeout\<rparr>)\<rparr>))"

definition at_delete_resp :: "nat option \<Rightarrow> at_client \<Rightarrow> at_client option" where
  "at_delete_resp p c =
     (case p of
        None \<Rightarrow> Some c
      | Some i \<Rightarrow> (case resps c i of None \<Rightarrow> None | Some r \<Rightarrow> Some (c\<lparr>resps := (resps c)(i := None)\<rparr>)))"

text \<open>\<open>None\<close> for the buffer is the null pointer that a failed \<^verbatim>\<open>rt_realloc\<close> leaves behind.\<close>

definition at_resp_set_info :: "bool \<Rightarrow> nat \<Rightarrow> nat \<Rightarrow> int \<Rightarrow> at_response \<Rightarrow> bool \<times> at_response" where
  "at_resp_set_info ok_realloc bufsz num timeout r =
     (if buf_size r \<noteq> bufsz
      then let r = r\<lparr>buf_size := bufsz\<rparr>
           in if \<not> ok_realloc then (False, r\<lparr>resp_buf := []\<rparr>)
              else (True, r\<lparr>resp_buf := take bufsz (resp_buf r) @ replicate (bufsz - length (resp_buf r)) None,
                            line_num := num, resp_timeout := timeout\<rparr>)
      else (True, r\<lparr>line_num := num, resp_timeout := timeout\<rparr>))"

text \<open>The two loops; the result is the offset of the line in the buffer.\<close>

function get_line_loop :: "mem \<Rightarrow> nat \<Rightarrow> nat \<Rightarrow> nat \<Rightarrow> nat \<Rightarrow> nat option option" where
  "get_line_loop m counts want line off =
     (if counts < line then Some None
      else if want = line then Some (Some off)
      else do {
        s \<leftarrow> c_string (drop off m);
        get_line_loop m counts want (line + 1) (off + (length s + 1))
      })"
  by pat_completeness auto
termination
  by (relation "measure (\<lambda>(m, counts, want, line, off). Suc counts - line)") auto

declare get_line_loop.simps [simp del]

definition at_resp_get_line :: "at_response \<Rightarrow> nat \<Rightarrow> nat option option" where
  "at_resp_get_line r resp_line =
     (if resp_line > line_counts r \<or> resp_line \<le> 0 then Some None
      else get_line_loop (resp_buf r) (line_counts r) resp_line 1 0)"

function get_kw_loop :: "mem \<Rightarrow> nat \<Rightarrow> byte list \<Rightarrow> nat \<Rightarrow> nat \<Rightarrow> nat option option" where
  "get_kw_loop m counts keyword line off =
     (if counts < line then Some None
      else do {
        found \<leftarrow> strstr_in (drop off m) keyword;
        if found then Some (Some off)
        else do {
          s \<leftarrow> c_string (drop off m);
          get_kw_loop m counts keyword (line + 1) (off + (length s + 1))
        }
      })"
  by pat_completeness auto
termination
  by (relation "measure (\<lambda>(m, counts, kw, line, off). Suc counts - line)") auto

declare get_kw_loop.simps [simp del]

definition at_resp_get_line_by_kw :: "at_response \<Rightarrow> byte list \<Rightarrow> nat option option" where
  "at_resp_get_line_by_kw r keyword = get_kw_loop (resp_buf r) (line_counts r) keyword 1 0"

text \<open>\<open>scan\<close> is \<^verbatim>\<open>vsscanf\<close> with its expression and arguments.\<close>

definition at_resp_parse_line_args :: "(byte list \<Rightarrow> int) \<Rightarrow> at_response \<Rightarrow> nat \<Rightarrow> int option" where
  "at_resp_parse_line_args scan r resp_line = do {
     l \<leftarrow> at_resp_get_line r resp_line;
     case l of
       None \<Rightarrow> Some (-1)
     | Some off \<Rightarrow> map_option scan (c_string (drop off (resp_buf r)))
   }"

definition at_resp_parse_line_args_by_kw :: "(byte list \<Rightarrow> int) \<Rightarrow> at_response \<Rightarrow> byte list \<Rightarrow> int option" where
  "at_resp_parse_line_args_by_kw scan r keyword = do {
     l \<leftarrow> at_resp_get_line_by_kw r keyword;
     case l of
       None \<Rightarrow> Some (-1)
     | Some off \<Rightarrow> map_option scan (c_string (drop off (resp_buf r)))
   }"

subsection \<open>Reading a line\<close>

fun find_urc :: "mem \<Rightarrow> nat \<Rightarrow> at_urc list \<Rightarrow> at_urc option option" where
  "find_urc buffer buf_sz [] = Some None"
| "find_urc buffer buf_sz (u # us) =
     (let prefix_len = length (cmd_prefix u); suffix_len = length (cmd_suffix u)
      in if buf_sz < prefix_len + suffix_len then find_urc buffer buf_sz us
         else do {
           p \<leftarrow> (if prefix_len \<noteq> 0 then starts_at buffer 0 (cmd_prefix u) else Some True);
           s \<leftarrow> (if p then (if suffix_len \<noteq> 0 then starts_at buffer (buf_sz - suffix_len) (cmd_suffix u)
                          else Some True) else Some False);
           if s then Some (Some u) else find_urc buffer buf_sz us
         })"

definition get_urc_obj :: "at_client \<Rightarrow> at_urc option option" where
  "get_urc_obj c =
     (case urc_table c of None \<Rightarrow> Some None | Some t \<Rightarrow> find_urc (recv_buffer c) (cur_recv_len c) t)"

definition clear_recv :: "at_client \<Rightarrow> at_client option" where
  "clear_recv c =
     (if recv_bufsz c \<le> length (recv_buffer c)
      then Some (c\<lparr>recv_buffer := replicate (recv_bufsz c) (Some 0) @ drop (recv_bufsz c) (recv_buffer c),
                   cur_recv_len := 0\<rparr>)
      else None)"

definition readline_start :: "at_state \<Rightarrow> at_state option" where
  "readline_start = (\<lambda>(c, p). do {
     c \<leftarrow> clear_recv c;
     Some (c, p\<lparr>read_len := 0, last_ch := 0, is_full := False\<rparr>)
   })"

text \<open>The body of the loop of \<^verbatim>\<open>at_recv_readline\<close>, with the value it returns where it does.\<close>

definition at_recv_readline :: "byte \<Rightarrow> at_state \<Rightarrow> (int option \<times> at_state) option" where
  "at_recv_readline ch = (\<lambda>(c, p). do {
     (c, p) \<leftarrow> (if read_len p < recv_bufsz c
               then do {
                 m \<leftarrow> poke (recv_buffer c) (read_len p) [ch];
                 Some (c\<lparr>recv_buffer := m, cur_recv_len := read_len p + 1\<rparr>, p\<lparr>read_len := read_len p + 1\<rparr>)
               }
               else Some (c, p\<lparr>is_full := True\<rparr>));
     urc \<leftarrow> (if ch = 0x0A \<and> last_ch p = 0x0D \<or> end_sign c \<noteq> 0 \<and> ch = end_sign c then Some True
            else map_option (\<lambda>u. u \<noteq> None) (get_urc_obj c));
     if urc
     then if is_full p then do { c \<leftarrow> clear_recv c; Some (Some (- 3), (c, p)) }
          else Some (Some (int (read_len p)), (c, p))
     else Some (None, (c, p\<lparr>last_ch := ch\<rparr>))
   })"

subsection \<open>What becomes of a line\<close>

definition collect_line :: "nat \<Rightarrow> at_response \<Rightarrow> at_state \<Rightarrow> (at_response \<times> at_state) option" where
  "collect_line i r = (\<lambda>(c, p).
     if resp_buf_len p + cur_recv_len c < buf_size r
     then do {
       m \<leftarrow> mem_copy (resp_buf r) (resp_buf_len p) (recv_buffer c) (cur_recv_len c);
       let r = r\<lparr>resp_buf := m\<rparr>;
       Some (r, (c\<lparr>resps := (resps c)(i \<mapsto> r)\<rparr>,
                 p\<lparr>resp_buf_len := resp_buf_len p + cur_recv_len c, parsed_lines := parsed_lines p + 1\<rparr>))
     }
     else Some (r, (c\<lparr>resp_status := AT_RESP_BUFF_FULL\<rparr>, p)))"

text \<open>The chain of tests; \<open>None\<close> inside is the \<^verbatim>\<open>continue\<close>.\<close>

definition end_status :: "at_response \<Rightarrow> at_state \<Rightarrow> int option option" where
  "end_status r = (\<lambda>(c, p). do {
     ok \<leftarrow> memcmp_eq (recv_buffer c) AT_RESP_END_OK;
     if ok \<and> line_num r = 0 then Some (Some AT_RESP_OK)
     else do {
       e \<leftarrow> strstr_in (recv_buffer c) AT_RESP_END_ERROR;
       f \<leftarrow> (if e then Some True else memcmp_eq (recv_buffer c) AT_RESP_END_FAIL);
       if f then Some (Some AT_RESP_ERROR)
       else if parsed_lines p = line_num r \<and> line_num r \<noteq> 0 then Some (Some AT_RESP_OK)
       else Some None
     }
   })"

definition response_line :: "nat \<Rightarrow> at_state \<Rightarrow> at_state option" where
  "response_line i = (\<lambda>(c, p). do {
     m \<leftarrow> (if cur_recv_len c = 0 then None else poke (recv_buffer c) (cur_recv_len c - 1) [0]);
     let c = c\<lparr>recv_buffer := m\<rparr>;
     r \<leftarrow> resps c i;
     (r, (c, p)) \<leftarrow> collect_line i r (c, p);
     s \<leftarrow> end_status r (c, p);
     case s of
       None \<Rightarrow> Some (c, p)
     | Some s \<Rightarrow>
         Some (c\<lparr>resp_status := s, resps := (resps c)(i \<mapsto> r\<lparr>line_counts := parsed_lines p\<rparr>),
                 resp := None, resp_notice := resp_notice c + 1\<rparr>,
               p\<lparr>resp_buf_len := 0, parsed_lines := 0\<rparr>)
   })"

text \<open>After a line that is a URC its function runs, which may take characters before the next line
  is read.\<close>

definition urc_end :: "at_state \<Rightarrow> at_state option" where
  "urc_end = (\<lambda>(c, p).
     readline_start (c\<lparr>urc_calls := urc_calls c @ [(urc_line p, urc_data p)]\<rparr>, p))"

definition urc_start :: "at_urc \<Rightarrow> at_state \<Rightarrow> at_state option" where
  "urc_start u = (\<lambda>(c, p).
     case func u of
       None \<Rightarrow> readline_start (c, p)
     | Some f \<Rightarrow> do {
         l \<leftarrow> mem_slice (recv_buffer c) 0 (cur_recv_len c);
         let p = p\<lparr>urc_line := l, urc_data := [], urc_wants := f l\<rparr>;
         if f l = 0 then urc_end (c, p) else Some (c, p)
       })"

definition handle_line :: "at_state \<Rightarrow> at_state option" where
  "handle_line = (\<lambda>(c, p). do {
     urc \<leftarrow> get_urc_obj c;
     case urc of
       Some u \<Rightarrow> urc_start u (c, p)
     | None \<Rightarrow>
         (case resp c of
            Some i \<Rightarrow> do { st \<leftarrow> response_line i (c, p); readline_start st }
          | None \<Rightarrow> readline_start (c, p))
   })"

text \<open>\<open>at_client_obj_recv\<close>: one character for the URC function.\<close>

definition at_client_obj_recv :: "byte \<Rightarrow> at_state \<Rightarrow> at_state option" where
  "at_client_obj_recv ch = (\<lambda>(c, p).
     let p = p\<lparr>urc_data := urc_data p @ [ch], urc_wants := urc_wants p - 1\<rparr>
     in if urc_wants p = 0 then urc_end (c, p) else Some (c, p))"

definition client_parser :: "byte \<Rightarrow> at_state \<Rightarrow> at_state option" where
  "client_parser ch = (\<lambda>(c, p).
     if urc_wants p \<noteq> 0 then at_client_obj_recv ch (c, p)
     else do {
       (n, st) \<leftarrow> at_recv_readline ch (c, p);
       case n of
         None \<Rightarrow> Some st
       | Some n \<Rightarrow> if 0 < n then handle_line st else readline_start st
     })"

fun client_input :: "byte list \<Rightarrow> at_state \<Rightarrow> at_state option" where
  "client_input [] st = Some st"
| "client_input (ch # chs) st = do { st \<leftarrow> client_parser ch st; client_input chs st }"

subsection \<open>Commands\<close>

abbreviation AT_CMD_MAX_LEN :: nat where "AT_CMD_MAX_LEN \<equiv> 128"

text \<open>\<open>text\<close> is what the format and its arguments give. \<^verbatim>\<open>vsnprintf\<close> writes at most the size of
  \<^verbatim>\<open>send_buf\<close> and returns the length of the whole text.\<close>

definition at_vprintf :: "byte list \<Rightarrow> at_client \<Rightarrow> at_client option" where
  "at_vprintf cmd c =
     (let send_buf = take (AT_CMD_MAX_LEN - 1) cmd @ [0]; last_cmd_len = length cmd
      in if AT_CMD_MAX_LEN < last_cmd_len then None
         else Some (c\<lparr>sent := sent c @ take last_cmd_len send_buf\<rparr>))"

definition at_vprintfln :: "byte list \<Rightarrow> at_client \<Rightarrow> at_client option" where
  "at_vprintfln cmd c = do {
     c \<leftarrow> at_vprintf cmd c;
     Some (c\<lparr>sent := sent c @ [0x0D, 0x0A]\<rparr>)
   }"

text \<open>\<^verbatim>\<open>at_obj_exec_cmd\<close> in three steps: up to the command that is sent, the reset of the line count,
  and what follows \<^verbatim>\<open>rt_sem_take\<close>, which gave a unit or timed out. The caller holds the mutex
  throughout.\<close>

definition exec_send :: "nat option \<Rightarrow> byte list \<Rightarrow> at_client \<Rightarrow> at_client option" where
  "exec_send r cmd c = at_vprintfln cmd (c\<lparr>resp_status := AT_RESP_OK, resp := r\<rparr>)"

definition exec_wait :: "nat \<Rightarrow> at_client \<Rightarrow> at_client option" where
  "exec_wait i c = do {
     r \<leftarrow> resps c i;
     Some (c\<lparr>resps := (resps c)(i \<mapsto> r\<lparr>line_counts := 0\<rparr>)\<rparr>)
   }"

definition exec_end :: "bool \<Rightarrow> at_client \<Rightarrow> int \<times> at_client" where
  "exec_end taken c =
     (if \<not> taken then (-2, c\<lparr>resp_status := AT_RESP_TIMEOUT, resp := None\<rparr>)
      else (if resp_status c \<noteq> AT_RESP_OK then -1 else 0,
            c\<lparr>resp_notice := resp_notice c - 1, resp := None\<rparr>))"

text \<open>Without a response object nothing is waited for.\<close>

definition exec_no_resp :: "byte list \<Rightarrow> at_client \<Rightarrow> (int \<times> at_client) option" where
  "exec_no_resp cmd c = do {
     c \<leftarrow> exec_send None cmd c;
     Some (0, c\<lparr>resp := None\<rparr>)
   }"

text \<open>\<^verbatim>\<open>at_client_obj_wait_connect\<close> in steps: the response object (the number of ticks is
  \<^verbatim>\<open>rt_tick_from_millisecond(500)\<close> at 100 ticks a second) or \<^verbatim>\<open>-RT_ENOMEM\<close>; one round up to
  \<^verbatim>\<open>rt_sem_take\<close>, or \<^verbatim>\<open>-RT_ETIMEOUT\<close>, with the tick read at its beginning; a semaphore that was given;
  the deletion of the object; the end. A semaphore that times out leads to the next round.\<close>

definition wait_begin :: "bool \<Rightarrow> bool \<Rightarrow> nat \<Rightarrow> at_client \<Rightarrow> int option \<times> at_client" where
  "wait_begin ok_resp ok_buf i c =
     (case at_create_resp ok_resp ok_buf i 16 0 50 c of
        (None, c) \<Rightarrow> (Some (- 5), c)
      | (Some i, c) \<Rightarrow> (None, c\<lparr>resp := Some i\<rparr>))"

definition wait_round :: "32 word \<Rightarrow> 32 word \<Rightarrow> 32 word \<Rightarrow> nat \<Rightarrow> at_client \<Rightarrow> (int option \<times> at_client) option" where
  "wait_round now start_time timeout i c =
     (if now - start_time > timeout then Some (Some (- 2), c)
      else do {
        r \<leftarrow> resps c i;
        Some (None, c\<lparr>resps := (resps c)(i \<mapsto> r\<lparr>line_counts := 0\<rparr>), sent := sent c @ [0x41, 0x54, 0x0D, 0x0A]\<rparr>)
      })"

definition wait_taken :: "at_client \<Rightarrow> int \<times> at_client" where
  "wait_taken c = (0, c\<lparr>resp_notice := resp_notice c - 1\<rparr>)"

definition wait_delete :: "nat \<Rightarrow> at_client \<Rightarrow> at_client option" where
  "wait_delete i c = at_delete_resp (Some i) c"

definition wait_end :: "at_client \<Rightarrow> at_client" where
  "wait_end c = c\<lparr>resp := None\<rparr>"

definition at_obj_set_end_sign :: "byte \<Rightarrow> at_client \<Rightarrow> at_client" where
  "at_obj_set_end_sign ch c = c\<lparr>end_sign := ch\<rparr>"

definition at_obj_set_urc_table :: "at_urc list \<Rightarrow> at_client \<Rightarrow> at_client" where
  "at_obj_set_urc_table t c = c\<lparr>urc_table := Some t\<rparr>"

definition at_client_obj_send :: "byte list \<Rightarrow> at_client \<Rightarrow> at_client" where
  "at_client_obj_send buf c = c\<lparr>sent := sent c @ buf\<rparr>"

end
