(* ===== verification/At_Lines.thy ===== *)
theory At_Lines
  imports At_Client
begin

text \<open>
  What the parser of the AT client makes of whole lines. \<open>at_line st s\<close> is the state in which the
  characters \<open>s\<close> of a line have been read; a line that is no URC goes to the response that waits
  for it, and \<open>collecting\<close> says what the response holds.
\<close>

subsection \<open>Reading a line character by character\<close>

definition line_mem :: "nat \<Rightarrow> byte list \<Rightarrow> mem" where
  "line_mem n s = map Some s @ replicate (n - length s) (Some 0)"

definition at_line :: "at_state \<Rightarrow> byte list \<Rightarrow> at_state" where
  "at_line = (\<lambda>(c, p) s.
     (c\<lparr>recv_buffer := line_mem (recv_bufsz c) s, cur_recv_len := length s\<rparr>,
      p\<lparr>read_len := length s, last_ch := (if s = [] then 0 else last s), is_full := False\<rparr>))"

definition line_start :: "at_state \<Rightarrow> bool" where
  "line_start st \<longleftrightarrow> at_line st [] = st \<and> urc_wants (snd st) = 0 \<and> 4 \<le> recv_bufsz (fst st)"

definition no_urc :: "at_client \<Rightarrow> byte list \<Rightarrow> bool" where
  "no_urc c s \<longleftrightarrow>
     get_urc_obj (c\<lparr>recv_buffer := line_mem (recv_bufsz c) s, cur_recv_len := length s\<rparr>) = Some None"

text \<open>A line \<open>s\<close> that ends with its CR LF and not before, fits the receive buffer and is no URC.\<close>

definition plain_line :: "at_client \<Rightarrow> byte list \<Rightarrow> bool" where
  "plain_line c s \<longleftrightarrow> 0x0A \<notin> set s \<and> 0 \<notin> set s \<and> length s + 2 \<le> recv_bufsz c \<and>
     (end_sign c = 0 \<or> end_sign c \<notin> insert 0x0D (set s)) \<and>
     (\<forall>k \<le> length s + 2. no_urc c (take k (s @ [0x0D, 0x0A])))"

lemma length_line_mem: "length s \<le> n \<Longrightarrow> length (line_mem n s) = n"
  by (simp add: line_mem_def)

lemma poke_line_mem:
  "length s < n \<Longrightarrow> poke (line_mem n s) (length s) [ch] = Some (line_mem n (s @ [ch]))"
proof -
  assume l: "length s < n"
  then obtain k where "n - length s = Suc k" by (cases "n - length s") auto
  then show ?thesis using l by (simp add: poke_def line_mem_def)
qed

lemma at_line_simps:
  "at_line (c, p) s = (c\<lparr>recv_buffer := line_mem (recv_bufsz c) s, cur_recv_len := length s\<rparr>,
      p\<lparr>read_len := length s, last_ch := (if s = [] then 0 else last s), is_full := False\<rparr>)"
  by (simp add: at_line_def)

lemma readline_char_continues:
  assumes "length s < recv_bufsz c" "\<not> (ch = 0x0A \<and> s \<noteq> [] \<and> last s = 0x0D)"
    "end_sign c = 0 \<or> ch \<noteq> end_sign c" "no_urc c (s @ [ch])"
  shows "at_recv_readline ch (at_line (c, p) s) = Some (None, at_line (c, p) (s @ [ch]))"
proof -
  have "get_urc_obj (c\<lparr>recv_buffer := line_mem (recv_bufsz c) (s @ [ch]), cur_recv_len := Suc (length s)\<rparr>) = Some None"
    using assms(4) by (simp add: no_urc_def)
  with assms(1-3) show ?thesis
    by (auto simp: at_recv_readline_def at_line_simps poke_line_mem)
qed

lemma readline_char_ends:
  assumes "length s < recv_bufsz c" "s \<noteq> []" "last s = 0x0D"
  shows "at_recv_readline 0x0A (at_line (c, p) s) =
    Some (Some (int (length s + 1)), (fst (at_line (c, p) (s @ [0x0A])),
      snd (at_line (c, p) (s @ [0x0A]))\<lparr>last_ch := 0x0D\<rparr>))"
  using assms by (simp add: at_recv_readline_def at_line_simps poke_line_mem)

lemma client_input_append:
  "client_input (xs @ ys) st = do { st \<leftarrow> client_input xs st; client_input ys st }"
  by (induction xs arbitrary: st) (simp_all split: bind_split)

lemma client_input_line_chars:
  assumes "urc_wants p = 0"
  shows "length (a @ s) \<le> recv_bufsz c \<Longrightarrow> 0x0A \<notin> set s \<Longrightarrow> end_sign c = 0 \<or> end_sign c \<notin> set s \<Longrightarrow>
    (\<forall>k. length a < k \<and> k \<le> length (a @ s) \<longrightarrow> no_urc c (take k (a @ s))) \<Longrightarrow>
    client_input s (at_line (c, p) a) = Some (at_line (c, p) (a @ s))"
proof (induction s arbitrary: a)
  case (Cons ch s)
  have "no_urc c (a @ [ch])" using spec [OF Cons.prems(4), of "Suc (length a)"] by simp
  with Cons.prems have "at_recv_readline ch (at_line (c, p) a) = Some (None, at_line (c, p) (a @ [ch]))"
    by (intro readline_char_continues) auto
  then have "client_parser ch (at_line (c, p) a) = Some (at_line (c, p) (a @ [ch]))"
    using assms by (simp add: client_parser_def at_line_simps)
  moreover have "client_input s (at_line (c, p) (a @ [ch])) = Some (at_line (c, p) ((a @ [ch]) @ s))"
    by (rule Cons.IH) (use Cons.prems in auto)
  ultimately show ?case by simp
qed simp

text \<open>A whole line: \<open>handle_line\<close> on the buffer with the line.\<close>

lemma client_input_line:
  assumes "line_start (c, p)" "plain_line c s"
  shows "client_input (s @ [0x0D, 0x0A]) (c, p) =
    handle_line (fst (at_line (c, p) (s @ [0x0D, 0x0A])),
      snd (at_line (c, p) (s @ [0x0D, 0x0A]))\<lparr>last_ch := 0x0D\<rparr>)"
proof -
  have w: "urc_wants p = 0" and z: "at_line (c, p) [] = (c, p)"
    using assms(1) by (simp_all add: line_start_def)
  have "client_input (s @ [0x0D]) (at_line (c, p) []) = Some (at_line (c, p) ([] @ s @ [0x0D]))"
  proof (rule client_input_line_chars [OF w])
    show "\<forall>k. length ([] :: byte list) < k \<and> k \<le> length ([] @ s @ [0x0D]) \<longrightarrow> no_urc c (take k ([] @ s @ [0x0D]))"
    proof (intro allI impI)
      fix k assume k: "length ([] :: byte list) < k \<and> k \<le> length ([] @ s @ [0x0D :: byte])"
      then have "take k ([] @ s @ [0x0D]) = take k (s @ [0x0D, 0x0A])" by (cases "k - length s") auto
      moreover have "no_urc c (take k (s @ [0x0D, 0x0A]))" using assms(2) k by (simp add: plain_line_def)
      ultimately show "no_urc c (take k ([] @ s @ [0x0D]))" by simp
    qed
  qed (use assms(2) in \<open>auto simp: plain_line_def\<close>)
  then have 1: "client_input (s @ [0x0D]) (c, p) = Some (at_line (c, p) (s @ [0x0D]))" by (simp add: z)
  have "at_recv_readline 0x0A (at_line (c, p) (s @ [0x0D])) =
    Some (Some (int (length (s @ [0x0D]) + 1)), (fst (at_line (c, p) ((s @ [0x0D]) @ [0x0A])),
      snd (at_line (c, p) ((s @ [0x0D]) @ [0x0A]))\<lparr>last_ch := 0x0D\<rparr>))"
    by (rule readline_char_ends) (use assms(2) in \<open>simp_all add: plain_line_def\<close>)
  then have "client_parser 0x0A (at_line (c, p) (s @ [0x0D])) =
    handle_line (fst (at_line (c, p) (s @ [0x0D, 0x0A])),
      snd (at_line (c, p) (s @ [0x0D, 0x0A]))\<lparr>last_ch := 0x0D\<rparr>)"
    using w by (simp add: client_parser_def at_line_simps)
  then have 2: "client_input [0x0A] (at_line (c, p) (s @ [0x0D])) =
    handle_line (fst (at_line (c, p) (s @ [0x0D, 0x0A])),
      snd (at_line (c, p) (s @ [0x0D, 0x0A]))\<lparr>last_ch := 0x0D\<rparr>)" by (simp split: bind_split)
  have "client_input (s @ [0x0D, 0x0A]) (c, p) = client_input ((s @ [0x0D]) @ [0x0A]) (c, p)" by simp
  also have "\<dots> = handle_line (fst (at_line (c, p) (s @ [0x0D, 0x0A])),
      snd (at_line (c, p) (s @ [0x0D, 0x0A]))\<lparr>last_ch := 0x0D\<rparr>)"
    unfolding client_input_append [of "s @ [0x0D]" "[0x0A]"] 1 by (simp only: bind.bind_lunit 2)
  finally show ?thesis .
qed

subsection \<open>Collecting a response\<close>

text \<open>\<open>stored ls\<close>: the lines as they stand in the response buffer. \<open>line_end\<close> is the test for the
  end of the response at a line: \<open>n\<close> is \<^verbatim>\<open>line_num\<close>, \<open>k\<close> the number of lines so far.\<close>

definition stored :: "byte list list \<Rightarrow> byte list" where
  "stored ls = concat (map (\<lambda>s. s @ [0x0D, 0]) ls)"

definition line_end :: "nat \<Rightarrow> nat \<Rightarrow> byte list \<Rightarrow> int option" where
  "line_end n k s =
     (if take 2 s = AT_RESP_END_OK \<and> n = 0 then Some AT_RESP_OK
      else if contains AT_RESP_END_ERROR (s @ [0x0D]) \<or> take 4 s = AT_RESP_END_FAIL then Some AT_RESP_ERROR
      else if k = n \<and> n \<noteq> 0 then Some AT_RESP_OK
      else None)"

text \<open>The response object \<open>r\<close> with number \<open>i\<close> is waited for, at the beginning of a line.\<close>

definition collecting :: "nat \<Rightarrow> at_response \<Rightarrow> at_state \<Rightarrow> bool" where
  "collecting i r = (\<lambda>(c, p). line_start (c, p) \<and> resp c = Some i \<and> resps c i = Some r \<and>
     length (resp_buf r) = buf_size r \<and> resp_buf_len p \<le> buf_size r)"

text \<open>The response after a line: \<open>put_line off s r\<close> writes it at \<open>off\<close>.\<close>

definition put_line :: "nat \<Rightarrow> byte list \<Rightarrow> at_response \<Rightarrow> at_response" where
  "put_line off s r = r\<lparr>resp_buf := take off (resp_buf r) @ map Some (s @ [0x0D, 0]) @
     drop (off + length s + 2) (resp_buf r)\<rparr>"

lemma line_tests:
  assumes "length s + 2 \<le> n" "4 \<le> n" "0 \<notin> set s"
  defines "m \<equiv> map Some (s @ [0x0D, 0]) @ replicate (n - (length s + 2)) (Some 0)"
  shows "memcmp_eq m AT_RESP_END_OK = Some (take 2 s = AT_RESP_END_OK)"
    and "memcmp_eq m AT_RESP_END_FAIL = Some (take 4 s = AT_RESP_END_FAIL)"
    and "strstr_in m w = Some (contains w (s @ [0x0D]))"
proof -
  have m: "m = map Some (s @ [0x0D, 0] @ replicate (n - (length s + 2)) 0)" by (simp add: m_def)
  have len: "length m = n" using assms(1) by (simp add: m_def)
  have pre: "mem_slice m 0 k = Some (take k (s @ [0x0D, 0] @ replicate (n - (length s + 2)) 0))" if "k \<le> n" for k
    unfolding mem_slice_Some using that len by (simp only: drop_0 add_0) (simp only: m take_map)
  have two: "length AT_RESP_END_OK = 2" and four: "length AT_RESP_END_FAIL = 4" by simp_all
  have ok: "take 2 (s @ 0x0D # t) = AT_RESP_END_OK \<longleftrightarrow> take 2 s = AT_RESP_END_OK" for t
    by (cases s; cases "tl s") (auto simp: take_Cons')
  show "memcmp_eq m AT_RESP_END_OK = Some (take 2 s = AT_RESP_END_OK)"
    unfolding memcmp_eq_def two using pre [of 2] ok assms(2) by simp
  have fail: "take 4 (s @ 0x0D # t) = AT_RESP_END_FAIL \<longleftrightarrow> take 4 s = AT_RESP_END_FAIL" for t
    by (cases s; cases "tl s"; cases "tl (tl s)"; cases "tl (tl (tl s))") (auto simp: take_Cons')
  show "memcmp_eq m AT_RESP_END_FAIL = Some (take 4 s = AT_RESP_END_FAIL)"
    unfolding memcmp_eq_def four using pre [of 4] fail assms(2) by simp
  have "c_string m = Some (s @ [0x0D])"
    using c_string_c_mem [of "s @ [0x0D]" "replicate (n - (length s + 2)) (Some 0)"] assms(3)
    by (simp add: m_def c_mem_def)
  then show "strstr_in m w = Some (contains w (s @ [0x0D]))" by (simp add: strstr_in_def)
qed

text \<open>The state after the line \<open>s\<close>, again at the beginning of a line.\<close>

definition take_line :: "nat \<Rightarrow> at_response \<Rightarrow> byte list \<Rightarrow> at_state \<Rightarrow> at_state" where
  "take_line i r s = (\<lambda>(c, p).
     let fits = resp_buf_len p + length s + 2 < buf_size r;
         r' = (if fits then put_line (resp_buf_len p) s r else r);
         k = (if fits then parsed_lines p + 1 else parsed_lines p);
         off = (if fits then resp_buf_len p + length s + 2 else resp_buf_len p)
     in case line_end (line_num r) k s of
          None \<Rightarrow> (c\<lparr>resps := (resps c)(i \<mapsto> r'),
                     resp_status := (if fits then resp_status c else AT_RESP_BUFF_FULL)\<rparr>,
                   p\<lparr>resp_buf_len := off, parsed_lines := k\<rparr>)
        | Some e \<Rightarrow> (c\<lparr>resps := (resps c)(i \<mapsto> r'\<lparr>line_counts := k\<rparr>), resp_status := e, resp := None,
                       resp_notice := resp_notice c + 1\<rparr>,
                     p\<lparr>resp_buf_len := 0, parsed_lines := 0\<rparr>))"

lemma put_line_simps [simp]: "line_num (put_line off s r) = line_num r"
  "buf_size (put_line off s r) = buf_size r" "line_counts (put_line off s r) = line_counts r"
  "off + length s + 2 \<le> length (resp_buf r) \<Longrightarrow> length (resp_buf (put_line off s r)) = length (resp_buf r)"
  by (simp_all add: put_line_def)

lemma line_start_mem: "line_start (c, p) \<Longrightarrow> recv_buffer c = replicate (recv_bufsz c) (Some 0) \<and> cur_recv_len c = 0 \<and>
    read_len p = 0 \<and> last_ch p = 0 \<and> \<not> is_full p"
proof -
  assume "line_start (c, p)"
  then have 1: "c\<lparr>recv_buffer := line_mem (recv_bufsz c) [], cur_recv_len := 0\<rparr> = c"
    and 2: "p\<lparr>read_len := 0, last_ch := 0, is_full := False\<rparr> = p"
    by (simp_all add: line_start_def at_line_simps)
  have "recv_buffer c = line_mem (recv_bufsz c) []" "cur_recv_len c = 0"
    by (subst 1 [symmetric], simp)+
  moreover have "read_len p = 0" "last_ch p = 0" "is_full p = False"
    by (subst 2 [symmetric], simp)+
  ultimately show ?thesis by (simp add: line_mem_def)
qed

lemma response_line_ok:
  assumes "collecting i r (c, p)" "plain_line c s"
  shows "client_input (s @ [0x0D, 0x0A]) (c, p) = Some (take_line i r s (c, p))"
proof -
  let ?l = "s @ [0x0D, 0x0A]" and ?n = "recv_bufsz c"
  let ?m = "map Some (s @ [0x0D, 0]) @ replicate (?n - (length s + 2)) (Some 0)"
  have st: "line_start (c, p)" and i: "resp c = Some i" "resps c i = Some r"
    and r: "length (resp_buf r) = buf_size r"
    using assms(1) by (simp_all add: collecting_def)
  have n: "4 \<le> ?n" "length s + 2 \<le> ?n" and z: "0 \<notin> set s"
    using st assms(2) by (simp_all add: line_start_def plain_line_def)
  note start = line_start_mem [OF st]
  define c1 where "c1 = c\<lparr>recv_buffer := line_mem ?n ?l, cur_recv_len := length ?l\<rparr>"
  define p1 where "p1 = p\<lparr>read_len := length ?l, last_ch := last ?l, is_full := False, last_ch := 0x0D\<rparr>"
  have 1: "client_input ?l (c, p) = handle_line (c1, p1)"
    unfolding client_input_line [OF st assms(2)] by (simp add: at_line_simps c1_def p1_def)
  have "no_urc c (take (length s + 2) ?l)" using assms(2) unfolding plain_line_def by blast
  then have "no_urc c ?l" by simp
  then have u: "get_urc_obj c1 = Some None" by (simp add: no_urc_def c1_def)
  have 2: "handle_line (c1, p1) = do { st \<leftarrow> response_line i (c1, p1); readline_start st }"
    unfolding handle_line_def by (simp add: u) (simp add: c1_def i)
  define c2 where "c2 = c1\<lparr>recv_buffer := ?m\<rparr>"
  have c1: "cur_recv_len c1 = length s + 2" "recv_buffer c1 = line_mem ?n ?l" "resps c1 = resps c"
    by (simp_all add: c1_def)
  have "poke (line_mem ?n ?l) (length s + 1) [0] = Some ?m"
    using n by (simp add: poke_def line_mem_def)
  then have 3: "response_line i (c1, p1) = do {
     (r, (c, p)) \<leftarrow> collect_line i r (c2, p1);
     s \<leftarrow> end_status r (c, p);
     case s of
       None \<Rightarrow> Some (c, p)
     | Some s \<Rightarrow>
         Some (c\<lparr>resp_status := s, resps := (resps c)(i \<mapsto> r\<lparr>line_counts := parsed_lines p\<rparr>),
                 resp := None, resp_notice := resp_notice c + 1\<rparr>,
               p\<lparr>resp_buf_len := 0, parsed_lines := 0\<rparr>)}"
    by (simp add: response_line_def c1 c2_def i(2) split: bind_split)
  define fits where "fits \<longleftrightarrow> resp_buf_len p + length s + 2 < buf_size r"
  define r' where "r' = (if fits then put_line (resp_buf_len p) s r else r)"
  define c3 where "c3 = (if fits then c2\<lparr>resps := (resps c)(i \<mapsto> r')\<rparr> else c2\<lparr>resp_status := AT_RESP_BUFF_FULL\<rparr>)"
  define p3 where "p3 = (if fits then p1\<lparr>resp_buf_len := resp_buf_len p + length s + 2,
      parsed_lines := parsed_lines p + 1\<rparr> else p1)"
  have "take (length s + 2) ?m = map Some (s @ [0x0D, 0])" by simp
  then have "mem_copy (resp_buf r) (resp_buf_len p) ?m (length s + 2) = Some (resp_buf r')" if fits
    using that r by (simp add: mem_copy_def r'_def put_line_def fits_def add.assoc)
  then have 4: "collect_line i r (c2, p1) = Some (r', (c3, p3))"
    by (auto simp: Let_def collect_line_def c2_def c1_def p1_def c3_def p3_def r'_def fits_def put_line_def add.assoc)
  have 5: "end_status r' (c3, p3) = Some (line_end (line_num r) (parsed_lines p3) s)"
  proof -
    have m: "recv_buffer c3 = ?m" "line_num r' = line_num r"
      by (simp_all add: c3_def c2_def c1_def r'_def)
    show ?thesis
      unfolding end_status_def line_end_def prod.case m
      unfolding line_tests [OF n(2,1) z] by simp
  qed
  have rb: "clear_recv c' = Some (c'\<lparr>recv_buffer := replicate ?n (Some 0), cur_recv_len := 0\<rparr>)"
    if "recv_bufsz c' = ?n" "recv_buffer c' = ?m" for c'
    using that n by (simp add: clear_recv_def)
  have k: "parsed_lines p3 = (if fits then parsed_lines p + 1 else parsed_lines p)" by (simp add: p3_def p1_def)
  show ?thesis
  proof (cases "line_end (line_num r) (parsed_lines p3) s")
    case None
    then have "client_input ?l (c, p) = readline_start (c3, p3)" unfolding 1 2 3 4 by (simp add: 5)
    also have "\<dots> = Some (take_line i r s (c, p))"
      unfolding take_line_def Let_def prod.case fits_def [symmetric] k [symmetric] None option.case
      using start i(2) unfolding readline_start_def
      by (auto simp: rb c3_def p3_def c2_def c1_def p1_def r'_def intro!: at_client.equality at_parser.equality)
    finally show ?thesis .
  next
    case (Some e)
    then have "client_input ?l (c, p) = readline_start
        (c3\<lparr>resp_status := e, resps := (resps c3)(i \<mapsto> r'\<lparr>line_counts := parsed_lines p3\<rparr>),
           resp := None, resp_notice := resp_notice c3 + 1\<rparr>,
         p3\<lparr>resp_buf_len := 0, parsed_lines := 0\<rparr>)" unfolding 1 2 3 4 by (simp add: 5)
    also have "\<dots> = Some (take_line i r s (c, p))"
      unfolding take_line_def Let_def prod.case fits_def [symmetric] k [symmetric] Some option.case
      using start i(2) unfolding readline_start_def
      by (auto simp: rb c3_def p3_def c2_def c1_def p1_def r'_def intro!: at_client.equality at_parser.equality)
    finally show ?thesis .
  qed
qed

end
