(* ===== verification/At_Response.thy ===== *)
theory At_Response
  imports At_Lines
begin

text \<open>
  Responses of several lines, and the two ways to look lines up in them. \<open>response i r ls st\<close> is
  the state in which the lines \<open>ls\<close> of the response \<open>i\<close> have been collected.
\<close>

definition wire_lines :: "byte list list \<Rightarrow> byte list" where
  "wire_lines ls = concat (map (\<lambda>s. s @ [0x0D, 0x0A]) ls)"

definition has_lines :: "at_response \<Rightarrow> byte list list \<Rightarrow> bool" where
  "has_lines r ls \<longleftrightarrow> length (stored ls) \<le> length (resp_buf r) \<and>
     take (length (stored ls)) (resp_buf r) = map Some (stored ls) \<and> (\<forall>s \<in> set ls. 0 \<notin> set s)"

definition response :: "nat \<Rightarrow> at_response \<Rightarrow> byte list list \<Rightarrow> at_state \<Rightarrow> bool" where
  "response i r ls st \<longleftrightarrow> collecting i r st \<and> resp_buf_len (snd st) = length (stored ls) \<and>
     parsed_lines (snd st) = length ls \<and> has_lines r ls"

lemma stored_simps [simp]: "stored [] = []" "stored (ls @ [s]) = stored ls @ s @ [0x0D, 0]"
  "stored (s # ls) = s @ 0x0D # 0 # stored ls"
  by (simp_all add: stored_def)

lemma wire_lines_simps [simp]: "wire_lines [] = []" "wire_lines (s # ls) = s @ [0x0D, 0x0A] @ wire_lines ls"
  by (simp_all add: wire_lines_def)

lemma has_lines_Nil [simp]: "has_lines r []"
  by (simp add: has_lines_def)

lemma has_lines_put:
  assumes "has_lines r ls" "length (stored ls) + length s + 2 \<le> length (resp_buf r)" "0 \<notin> set s"
  shows "has_lines (put_line (length (stored ls)) s r) (ls @ [s])"
proof -
  have "length (stored ls) \<le> length (resp_buf r)" using assms(2) by simp
  with assms show ?thesis
    by (auto simp: has_lines_def put_line_def min_absorb1 min_absorb2)
qed

lemma has_lines_counts [simp]: "has_lines (r\<lparr>line_counts := k\<rparr>) ls = has_lines r ls"
  by (simp add: has_lines_def)

text \<open>What \<open>plain_line\<close> depends on does not change while lines are collected.\<close>

definition same_reader :: "at_client \<Rightarrow> at_client \<Rightarrow> bool" where
  "same_reader c c' \<longleftrightarrow> recv_bufsz c' = recv_bufsz c \<and> end_sign c' = end_sign c \<and> urc_table c' = urc_table c"

lemma no_urc_eq: "no_urc c s \<longleftrightarrow>
    (case urc_table c of None \<Rightarrow> True | Some t \<Rightarrow> find_urc (line_mem (recv_bufsz c) s) (length s) t = Some None)"
  by (simp add: no_urc_def get_urc_obj_def split: option.split)

lemma same_reader_plain: "same_reader c c' \<Longrightarrow> plain_line c' s = plain_line c s"
proof -
  assume same: "same_reader c c'"
  then have "no_urc c' = no_urc c"
    by (cases "urc_table c") (auto simp: no_urc_eq same_reader_def)
  then show ?thesis using same by (simp add: same_reader_def plain_line_def)
qed

lemma same_reader_trans: "same_reader a b \<Longrightarrow> same_reader b c \<Longrightarrow> same_reader a c"
  by (simp add: same_reader_def)

lemma take_line_reader: "same_reader c (fst (take_line i r s (c, p)))"
  by (simp add: take_line_def Let_def same_reader_def split: option.split)

lemma line_start_update:
  "line_start (c, p) \<Longrightarrow> recv_buffer c' = recv_buffer c \<Longrightarrow> recv_bufsz c' = recv_bufsz c \<Longrightarrow>
   cur_recv_len c' = cur_recv_len c \<Longrightarrow> read_len p' = read_len p \<Longrightarrow> last_ch p' = last_ch p \<Longrightarrow>
   is_full p' = is_full p \<Longrightarrow> urc_wants p' = urc_wants p \<Longrightarrow> line_start (c', p')"
proof -
  assume st: "line_start (c, p)" and eqs: "recv_buffer c' = recv_buffer c" "recv_bufsz c' = recv_bufsz c"
    "cur_recv_len c' = cur_recv_len c" "read_len p' = read_len p" "last_ch p' = last_ch p"
    "is_full p' = is_full p" "urc_wants p' = urc_wants p"
  have "c'\<lparr>recv_buffer := replicate (recv_bufsz c') (Some 0), cur_recv_len := 0\<rparr> = c'"
    "p'\<lparr>read_len := 0, last_ch := 0, is_full := False\<rparr> = p'"
    using line_start_mem [OF st] eqs by (auto intro!: at_client.equality at_parser.equality)
  then show ?thesis using st eqs by (simp add: line_start_def at_line_simps line_mem_def)
qed

lemma take_line_start: "line_start (c, p) \<Longrightarrow> line_start (take_line i r s (c, p))"
  unfolding take_line_def Let_def prod.case
  by (auto split: option.split intro!: line_start_update [of c p])

lemma response_more:
  assumes "response i r ls (c, p)" "plain_line c s" "length (stored ls) + length s + 2 < buf_size r"
    "line_end (line_num r) (length ls + 1) s = None"
  shows "client_input (s @ [0x0D, 0x0A]) (c, p) = Some (take_line i r s (c, p))"
    and "response i (put_line (length (stored ls)) s r) (ls @ [s]) (take_line i r s (c, p))"
    and "resp_notice (fst (take_line i r s (c, p))) = resp_notice c"
    and "resp_status (fst (take_line i r s (c, p))) = resp_status c"
proof -
  have col: "collecting i r (c, p)" and p: "resp_buf_len p = length (stored ls)" "parsed_lines p = length ls"
    and h: "has_lines r ls" using assms(1) by (simp_all add: response_def)
  have r: "length (resp_buf r) = buf_size r" "line_start (c, p)" "resp c = Some i"
    using col by (simp_all add: collecting_def)
  show "client_input (s @ [0x0D, 0x0A]) (c, p) = Some (take_line i r s (c, p))"
    by (rule response_line_ok [OF col assms(2)])
  have t: "take_line i r s (c, p) = (c\<lparr>resps := (resps c)(i \<mapsto> put_line (length (stored ls)) s r), resp_status := resp_status c\<rparr>,
      p\<lparr>resp_buf_len := length (stored ls) + length s + 2, parsed_lines := length ls + 1\<rparr>)"
    using assms(3,4) by (simp add: take_line_def p)
  have "has_lines (put_line (length (stored ls)) s r) (ls @ [s])"
    by (rule has_lines_put [OF h]) (use assms(2,3) r(1) in \<open>simp_all add: plain_line_def\<close>)
  moreover have "line_start (take_line i r s (c, p))" by (rule take_line_start [OF r(2)])
  ultimately show "response i (put_line (length (stored ls)) s r) (ls @ [s]) (take_line i r s (c, p))"
    using assms(3) r unfolding response_def collecting_def t by simp
  show "resp_notice (fst (take_line i r s (c, p))) = resp_notice c"
    "resp_status (fst (take_line i r s (c, p))) = resp_status c" by (simp_all add: t)
qed

lemma response_end:
  assumes "response i r ls (c, p)" "plain_line c s" "length (stored ls) + length s + 2 < buf_size r"
    "line_end (line_num r) (length ls + 1) s = Some e"
  obtains c' p' r' where "client_input (s @ [0x0D, 0x0A]) (c, p) = Some (c', p')" "line_start (c', p')"
    "resp c' = None" "resp_status c' = e" "resp_notice c' = resp_notice c + 1"
    "resps c' = (resps c)(i \<mapsto> r')" "has_lines r' (ls @ [s])" "line_counts r' = length ls + 1"
    "resp_buf_len p' = 0" "parsed_lines p' = 0" "same_reader c c'"
proof -
  have col: "collecting i r (c, p)" and p: "resp_buf_len p = length (stored ls)" "parsed_lines p = length ls"
    and h: "has_lines r ls" using assms(1) by (simp_all add: response_def)
  have r: "length (resp_buf r) = buf_size r" "line_start (c, p)"
    using col by (simp_all add: collecting_def)
  let ?r = "(put_line (length (stored ls)) s r)\<lparr>line_counts := length ls + 1\<rparr>"
  have t: "take_line i r s (c, p) = (c\<lparr>resps := (resps c)(i \<mapsto> ?r), resp_status := e, resp := None,
      resp_notice := resp_notice c + 1\<rparr>, p\<lparr>resp_buf_len := 0, parsed_lines := 0\<rparr>)"
    using assms(3,4) by (simp add: take_line_def p)
  have "has_lines ?r (ls @ [s])"
    using has_lines_put [OF h, of s] assms(2,3) r(1) by (simp add: plain_line_def)
  with that [of "fst (take_line i r s (c, p))" "snd (take_line i r s (c, p))" ?r]
    response_line_ok [OF col assms(2)] take_line_start [OF r(2), of i r s] take_line_reader [of c i r s p]
  show thesis by (simp add: t)
qed

text \<open>All lines of a response. Only the last one ends it.\<close>

definition only_last_ends :: "nat \<Rightarrow> nat \<Rightarrow> byte list list \<Rightarrow> byte list \<Rightarrow> int \<Rightarrow> bool" where
  "only_last_ends n k ls s e \<longleftrightarrow>
     (\<forall>j < length ls. line_end n (k + j + 1) (ls ! j) = None) \<and> line_end n (k + length ls + 1) s = Some e"

lemma only_last_ends_Cons:
  "only_last_ends n k (l # ls) s e \<longleftrightarrow> line_end n (k + 1) l = None \<and> only_last_ends n (Suc k) ls s e"
  unfolding only_last_ends_def by (auto simp: less_Suc_eq_0_disj nth_Cons split: nat.split)

lemma response_lines:
  "response i r acc (c, p) \<Longrightarrow> \<forall>l \<in> set (ls @ [s]). plain_line c l \<Longrightarrow>
   length (stored (acc @ ls @ [s])) < buf_size r \<Longrightarrow> only_last_ends (line_num r) (length acc) ls s e \<Longrightarrow>
   \<exists>c' p' r'. client_input (wire_lines (ls @ [s])) (c, p) = Some (c', p') \<and> line_start (c', p') \<and>
     resp c' = None \<and> resp_status c' = e \<and> resp_notice c' = resp_notice c + 1 \<and> resps c' i = Some r' \<and>
     has_lines r' (acc @ ls @ [s]) \<and> line_counts r' = length acc + length ls + 1 \<and>
     resp_buf_len p' = 0 \<and> parsed_lines p' = 0 \<and> same_reader c c'"
proof (induction ls arbitrary: acc r c p)
  case Nil
  have "plain_line c s" "length (stored acc) + length s + 2 < buf_size r"
    "line_end (line_num r) (length acc + 1) s = Some e"
    using Nil.prems by (simp_all add: only_last_ends_def)
  then obtain c' p' r' where "client_input (s @ [0x0D, 0x0A]) (c, p) = Some (c', p')" "line_start (c', p')"
    "resp c' = None" "resp_status c' = e" "resp_notice c' = resp_notice c + 1"
    "resps c' = (resps c)(i \<mapsto> r')" "has_lines r' (acc @ [s])" "line_counts r' = length acc + 1"
    "resp_buf_len p' = 0" "parsed_lines p' = 0" "same_reader c c'"
    by (rule response_end [OF Nil.prems(1)])
  then show ?case by simp
next
  case (Cons l ls)
  let ?r = "put_line (length (stored acc)) l r"
  have l: "plain_line c l" "length (stored acc) + length l + 2 < buf_size r"
    "line_end (line_num r) (length acc + 1) l = None"
    using Cons.prems by (simp_all add: only_last_ends_Cons stored_def)
  note m = response_more [OF Cons.prems(1) l]
  obtain c1 p1 where t: "take_line i r l (c, p) = (c1, p1)" by (cases "take_line i r l (c, p)")
  have same: "same_reader c c1" using take_line_reader [of c i r l p] by (simp add: t)
  have "\<exists>c' p' r'. client_input (wire_lines (ls @ [s])) (c1, p1) = Some (c', p') \<and> line_start (c', p') \<and>
     resp c' = None \<and> resp_status c' = e \<and> resp_notice c' = resp_notice c1 + 1 \<and> resps c' i = Some r' \<and>
     has_lines r' ((acc @ [l]) @ ls @ [s]) \<and> line_counts r' = length (acc @ [l]) + length ls + 1 \<and>
     resp_buf_len p' = 0 \<and> parsed_lines p' = 0 \<and> same_reader c1 c'"
  proof (rule Cons.IH)
    show "response i ?r (acc @ [l]) (c1, p1)" using m(2) by (simp add: t)
    show "\<forall>l \<in> set (ls @ [s]). plain_line c1 l" using Cons.prems(2) same_reader_plain [OF same] by simp
    show "length (stored ((acc @ [l]) @ ls @ [s])) < buf_size ?r" using Cons.prems(3) by simp
    show "only_last_ends (line_num ?r) (length (acc @ [l])) ls s e"
      using Cons.prems(4) by (simp add: only_last_ends_Cons)
  qed
  then obtain c' p' r' where IH: "client_input (wire_lines (ls @ [s])) (c1, p1) = Some (c', p')"
    "line_start (c', p')" "resp c' = None" "resp_status c' = e" "resp_notice c' = resp_notice c1 + 1"
    "resps c' i = Some r'" "has_lines r' ((acc @ [l]) @ ls @ [s])"
    "line_counts r' = length (acc @ [l]) + length ls + 1" "resp_buf_len p' = 0" "parsed_lines p' = 0"
    "same_reader c1 c'" by blast
  have "client_input (wire_lines ((l # ls) @ [s])) (c, p) = Some (c', p')"
    using client_input_append [of "l @ [0x0D, 0x0A]" "wire_lines (ls @ [s])" "(c, p)"] m(1) IH(1)
    by (simp add: t)
  moreover have "resp_notice c1 = resp_notice c" using m(3) by (simp add: t)
  ultimately show ?case using IH same_reader_trans [OF same IH(11)] by simp
qed

subsection \<open>Looking lines up\<close>

lemma has_lines_at:
  assumes "has_lines r ls" "k < length ls"
  shows "c_string (drop (length (stored (take k ls))) (resp_buf r)) = Some (ls ! k @ [0x0D])"
proof -
  have ls: "ls = take k ls @ ls ! k # drop (Suc k) ls" using assms(2) by (simp add: id_take_nth_drop)
  have st: "stored ls = stored (take k ls) @ ls ! k @ 0x0D # 0 # stored (drop (Suc k) ls)"
    by (subst ls) (simp add: stored_def)
  obtain rest where "resp_buf r = map Some (stored ls) @ rest"
    using assms(1) by (metis append_take_drop_id has_lines_def)
  then have "drop (length (stored (take k ls))) (resp_buf r) =
      c_mem (ls ! k @ [0x0D]) @ map Some (stored (drop (Suc k) ls)) @ rest"
    by (simp add: st c_mem_def)
  moreover have "0 \<notin> set (ls ! k @ [0x0D])" using assms by (simp add: has_lines_def)
  ultimately show ?thesis using c_string_c_mem by metis
qed

lemma length_stored_take: "k < length ls \<Longrightarrow>
    length (stored (take (Suc k) ls)) = length (stored (take k ls)) + length (ls ! k @ [0x0D]) + 1"
  by (simp add: take_Suc_conv_app_nth)

lemma get_line_loop_ok:
  assumes "has_lines r ls" "want \<le> length ls"
  shows "1 \<le> line \<Longrightarrow> line \<le> want \<Longrightarrow>
    get_line_loop (resp_buf r) (length ls) want line (length (stored (take (line - 1) ls))) =
      Some (Some (length (stored (take (want - 1) ls))))"
proof (induction "want - line" arbitrary: line)
  case 0
  then show ?case using assms(2) by (subst get_line_loop.simps) simp
next
  case (Suc d)
  then have k: "line - 1 < length ls" "Suc (line - 1) = line" using assms(2) by auto
  have "get_line_loop (resp_buf r) (length ls) want (line + 1) (length (stored (take (line + 1 - 1) ls))) =
      Some (Some (length (stored (take (want - 1) ls))))"
    by (rule Suc.hyps(1)) (use Suc.hyps(2) Suc.prems in auto)
  moreover have "length (stored (take (line + 1 - 1) ls)) =
      length (stored (take (line - 1) ls)) + (length (ls ! (line - 1) @ [0x0D]) + 1)"
    using length_stored_take [OF k(1)] unfolding k(2) by simp
  ultimately show ?case
    using has_lines_at [OF assms(1) k(1)] Suc.hyps(2) Suc.prems assms(2)
    by (subst get_line_loop.simps) simp
qed

lemma at_resp_get_line_ok:
  assumes "has_lines r ls" "line_counts r = length ls"
  shows "at_resp_get_line r n =
    Some (if 1 \<le> n \<and> n \<le> length ls then Some (length (stored (take (n - 1) ls))) else None)"
proof (cases "1 \<le> n \<and> n \<le> length ls")
  case True
  with get_line_loop_ok [OF assms(1), of n 1] assms(2) show ?thesis by (simp add: at_resp_get_line_def)
next
  case False
  then show ?thesis using assms(2) by (auto simp: at_resp_get_line_def)
qed

text \<open>The first line that contains the keyword.\<close>

fun first_with :: "byte list \<Rightarrow> byte list list \<Rightarrow> nat option" where
  "first_with w [] = None"
| "first_with w (s # ls) = (if contains w (s @ [0x0D]) then Some 0 else map_option Suc (first_with w ls))"

lemma get_kw_loop_ok:
  assumes "has_lines r ls"
  shows "k \<le> length ls \<Longrightarrow>
    get_kw_loop (resp_buf r) (length ls) w (k + 1) (length (stored (take k ls))) =
      Some (map_option (\<lambda>j. length (stored (take (k + j) ls))) (first_with w (drop k ls)))"
proof (induction "length ls - k" arbitrary: k)
  case 0
  then show ?case by (subst get_kw_loop.simps) simp
next
  case (Suc d)
  then have k: "k < length ls" by simp
  have d: "drop k ls = ls ! k # drop (Suc k) ls" using k by (simp add: Cons_nth_drop_Suc)
  note at = has_lines_at [OF assms k]
  show ?case
  proof (cases "contains w (ls ! k @ [0x0D])")
    case True
    then show ?thesis using k at d by (subst get_kw_loop.simps) (simp add: strstr_in_def)
  next
    case False
    have "get_kw_loop (resp_buf r) (length ls) w (Suc k + 1) (length (stored (take (Suc k) ls))) =
      Some (map_option (\<lambda>j. length (stored (take (Suc k + j) ls))) (first_with w (drop (Suc k) ls)))"
      by (rule Suc.hyps(1)) (use Suc.hyps(2) k in auto)
    then show ?thesis using False k at d length_stored_take [OF k]
      by (subst get_kw_loop.simps) (simp add: strstr_in_def option.map_comp o_def)
  qed
qed

lemma at_resp_get_line_by_kw_ok:
  "has_lines r ls \<Longrightarrow> line_counts r = length ls \<Longrightarrow>
   at_resp_get_line_by_kw r w = Some (map_option (\<lambda>j. length (stored (take j ls))) (first_with w ls))"
  using get_kw_loop_ok [of r ls 0 w] by (simp add: at_resp_get_line_by_kw_def)

end
