(* ===== verification/At_Safety.thy ===== *)
theory At_Safety
  imports At_Response
begin

text \<open>
  The parser of the AT client on arbitrary characters: the invariant \<open>parser_ok\<close> is kept, no step
  reads or writes outside a buffer, and none reads a byte that was never written.
\<close>

definition buffer_ok :: "at_client \<Rightarrow> bool" where
  "buffer_ok c \<longleftrightarrow> 4 \<le> recv_bufsz c \<and> cur_recv_len c \<le> recv_bufsz c \<and>
     (\<exists>bs. recv_buffer c = map Some bs \<and> length bs = recv_bufsz c)"

definition resp_ok :: "at_client \<Rightarrow> bool" where
  "resp_ok c \<longleftrightarrow> (\<forall>i. resp c = Some i \<longrightarrow> (\<exists>r. resps c i = Some r \<and> length (resp_buf r) = buf_size r))"

definition parser_ok :: "at_state \<Rightarrow> bool" where
  "parser_ok = (\<lambda>(c, p). buffer_ok c \<and> resp_ok c \<and> read_len p \<le> recv_bufsz c \<and>
     (urc_wants p = 0 \<longrightarrow> read_len p = cur_recv_len c))"

lemma starts_at_defined: "i + length s \<le> length bs \<Longrightarrow> \<exists>b. starts_at (map Some bs) i s = Some b"
  by (induction s arbitrary: i) auto

lemma find_urc_defined: "n \<le> length bs \<Longrightarrow> \<exists>u. find_urc (map Some bs) n us = Some u"
proof (induction us)
  case (Cons u us)
  show ?case
  proof (cases "n < length (cmd_prefix u) + length (cmd_suffix u)")
    case True
    with Cons show ?thesis by simp
  next
    case False
    then obtain a b where "starts_at (map Some bs) 0 (cmd_prefix u) = Some a"
      "starts_at (map Some bs) (n - length (cmd_suffix u)) (cmd_suffix u) = Some b"
      using starts_at_defined [of 0 "cmd_prefix u" bs] Cons.prems
        starts_at_defined [of "n - length (cmd_suffix u)" "cmd_suffix u" bs] by auto
    with False Cons show ?thesis by (simp add: Let_def)
  qed
qed simp

lemma get_urc_obj_defined: "buffer_ok c \<Longrightarrow> \<exists>u. get_urc_obj c = Some u"
  using find_urc_defined by (auto simp: buffer_ok_def get_urc_obj_def split: option.split)

lemma clear_recv_ok: "buffer_ok c \<Longrightarrow>
    clear_recv c = Some (c\<lparr>recv_buffer := map Some (replicate (recv_bufsz c) 0), cur_recv_len := 0\<rparr>)"
  by (auto simp: buffer_ok_def clear_recv_def)

lemma readline_start_ok:
  assumes "buffer_ok c" "resp_ok c" "urc_wants p = 0"
  shows "\<exists>st. readline_start (c, p) = Some st \<and> parser_ok st"
proof -
  have "buffer_ok (c\<lparr>recv_buffer := map Some (replicate (recv_bufsz c) 0), cur_recv_len := 0\<rparr>)"
    using assms(1) by (auto simp: buffer_ok_def intro!: exI [of _ "replicate (recv_bufsz c) 0"])
  with assms show ?thesis
    by (auto simp: readline_start_def clear_recv_ok parser_ok_def resp_ok_def)
qed

lemma poke_recv_ok:
  assumes "buffer_ok c" "i < recv_bufsz c" "n \<le> recv_bufsz c"
  shows "\<exists>m. poke (recv_buffer c) i [b] = Some m \<and> buffer_ok (c\<lparr>recv_buffer := m, cur_recv_len := n\<rparr>) \<and>
    peek m i = Some b"
proof -
  from assms(1) obtain bs where bs: "recv_buffer c = map Some bs" "length bs = recv_bufsz c"
    by (auto simp: buffer_ok_def)
  let ?bs = "take i bs @ [b] @ drop (i + 1) bs"
  have p: "poke (recv_buffer c) i [b] = Some (map Some ?bs)"
    using assms(2) bs by (simp add: poke_def take_map drop_map)
  moreover have "buffer_ok (c\<lparr>recv_buffer := map Some ?bs, cur_recv_len := n\<rparr>)"
    using assms bs unfolding buffer_ok_def by (intro conjI exI [of _ ?bs]) auto
  moreover have "peek (map Some ?bs) i = Some b" using peek_poke [OF p, of i] by simp
  ultimately show ?thesis by blast
qed

lemma at_recv_readline_ok:
  assumes "parser_ok (c, p)" "urc_wants p = 0"
  obtains n c' p' where "at_recv_readline ch (c, p) = Some (n, (c', p'))" "parser_ok (c', p') \<or> n = Some (- 3)"
    "buffer_ok c'" "resp_ok c'" "urc_wants p' = 0" "\<forall>k. n = Some k \<longrightarrow> 0 < k \<longrightarrow> 0 < cur_recv_len c'"
proof -
  have ok: "buffer_ok c" "resp_ok c" "read_len p \<le> recv_bufsz c" "read_len p = cur_recv_len c"
    using assms by (simp_all add: parser_ok_def)
  obtain c1 p1 where 1: "(if read_len p < recv_bufsz c
      then do { m \<leftarrow> poke (recv_buffer c) (read_len p) [ch];
                Some (c\<lparr>recv_buffer := m, cur_recv_len := read_len p + 1\<rparr>, p\<lparr>read_len := read_len p + 1\<rparr>) }
      else Some (c, p\<lparr>is_full := True\<rparr>)) = Some (c1, p1)"
    "buffer_ok c1" "resp_ok c1" "urc_wants p1 = 0" "read_len p1 = cur_recv_len c1"
  proof (cases "read_len p < recv_bufsz c")
    case True
    from poke_recv_ok [OF ok(1) True, of "read_len p + 1" ch] True obtain m where
      "poke (recv_buffer c) (read_len p) [ch] = Some m"
      "buffer_ok (c\<lparr>recv_buffer := m, cur_recv_len := read_len p + 1\<rparr>)" by auto
    with True ok assms(2) show thesis
      by (intro that [of "c\<lparr>recv_buffer := m, cur_recv_len := read_len p + 1\<rparr>" "p\<lparr>read_len := read_len p + 1\<rparr>"])
        (simp_all add: resp_ok_def)
  next
    case False
    with ok assms(2) show thesis by (intro that [of c "p\<lparr>is_full := True\<rparr>"]) simp_all
  qed
  obtain u where u: "(if ch = 0x0A \<and> last_ch p1 = 0x0D \<or> end_sign c1 \<noteq> 0 \<and> ch = end_sign c1 then Some True
      else map_option (\<lambda>u. u \<noteq> None) (get_urc_obj c1)) = Some u"
    using get_urc_obj_defined [OF 1(2)] by (cases "ch = 0x0A \<and> last_ch p1 = 0x0D \<or> end_sign c1 \<noteq> 0 \<and> ch = end_sign c1") auto
  note unfold = at_recv_readline_def prod.case 1(1) bind.bind_lunit u
  have le: "cur_recv_len c1 \<le> recv_bufsz c1" using 1(2) by (simp add: buffer_ok_def)
  show thesis
  proof (cases u)
    case False
    then have "at_recv_readline ch (c, p) = Some (None, (c1, p1\<lparr>last_ch := ch\<rparr>))" by (simp only: unfold if_False)
    then show thesis by (rule that) (use 1(2-5) le in \<open>simp_all add: parser_ok_def\<close>)
  next
    case True
    show thesis
    proof (cases "is_full p1")
      case full: True
      let ?c = "c1\<lparr>recv_buffer := map Some (replicate (recv_bufsz c1) 0), cur_recv_len := 0\<rparr>"
      have b: "buffer_ok ?c" using 1(2) by (auto simp: buffer_ok_def intro!: exI [of _ "replicate (recv_bufsz c1) 0"])
      have "at_recv_readline ch (c, p) = Some (Some (- 3), (?c, p1))"
        using True full by (simp only: unfold if_True clear_recv_ok [OF 1(2)])
      then show thesis by (rule that) (use 1(3,4) b in \<open>simp_all add: resp_ok_def\<close>)
    next
      case False
      then have "at_recv_readline ch (c, p) = Some (Some (int (read_len p1)), (c1, p1))"
        using True by (simp only: unfold if_True if_False)
      then show thesis by (rule that) (use 1(2-5) le in \<open>simp_all add: parser_ok_def\<close>)
    qed
  qed
qed

lemma c_string_defined: "0 \<in> set bs \<Longrightarrow> \<exists>s. c_string (map Some bs) = Some s"
  by (induction bs) auto

lemma end_status_defined: "buffer_ok c \<Longrightarrow> 0 < cur_recv_len c \<Longrightarrow> peek (recv_buffer c) (cur_recv_len c - 1) = Some 0 \<Longrightarrow>
    \<exists>s. end_status r (c, p) = Some s"
proof -
  assume b: "buffer_ok c" and n: "0 < cur_recv_len c" and z: "peek (recv_buffer c) (cur_recv_len c - 1) = Some 0"
  from b obtain bs where bs: "recv_buffer c = map Some bs" "length bs = recv_bufsz c" "4 \<le> length bs"
    by (auto simp: buffer_ok_def)
  have "0 \<in> set bs" using z by (auto simp: bs(1) peek_def in_set_conv_nth split: if_splits)
  then have "\<exists>e. strstr_in (recv_buffer c) w = Some e" for w
    using c_string_defined [of bs] by (auto simp: strstr_in_def bs(1))
  moreover have "\<exists>a. memcmp_eq (recv_buffer c) w = Some a" if "length w \<le> 4" for w
    using that bs by (auto simp: memcmp_eq_def mem_slice_def take_map)
  moreover have "length AT_RESP_END_OK \<le> 4" "length AT_RESP_END_FAIL \<le> 4" by simp_all
  ultimately obtain a e f where "memcmp_eq (recv_buffer c) AT_RESP_END_OK = Some a"
    "strstr_in (recv_buffer c) AT_RESP_END_ERROR = Some e" "memcmp_eq (recv_buffer c) AT_RESP_END_FAIL = Some f"
    by blast
  then show ?thesis by (simp add: end_status_def)
qed

lemma response_line_defined:
  assumes "buffer_ok c" "resp_ok c" "0 < cur_recv_len c" "resp c = Some i" "urc_wants p = 0"
  obtains c' p' where "response_line i (c, p) = Some (c', p')" "buffer_ok c'" "resp_ok c'" "urc_wants p' = 0"
proof -
  have n: "cur_recv_len c - 1 < recv_bufsz c" "cur_recv_len c \<le> recv_bufsz c"
    using assms(1,3) by (auto simp: buffer_ok_def)
  from poke_recv_ok [OF assms(1) n, of 0] obtain m where
    m: "poke (recv_buffer c) (cur_recv_len c - 1) [0] = Some m" "buffer_ok (c\<lparr>recv_buffer := m\<rparr>)"
    "peek m (cur_recv_len c - 1) = Some 0" by auto
  define c1 where "c1 = c\<lparr>recv_buffer := m\<rparr>"
  from assms(2,4) obtain r where r: "resps c i = Some r" "length (resp_buf r) = buf_size r"
    by (auto simp: resp_ok_def)
  obtain r2 c2 p2 where 2: "collect_line i r (c1, p) = Some (r2, (c2, p2))" "recv_buffer c2 = m"
    "recv_bufsz c2 = recv_bufsz c" "cur_recv_len c2 = cur_recv_len c" "resps c2 i = Some r2"
    "length (resp_buf r2) = buf_size r2" "resp c2 = resp c" "urc_wants p2 = 0"
  proof (cases "resp_buf_len p + cur_recv_len c1 < buf_size r")
    case True
    have "cur_recv_len c1 \<le> length (recv_buffer c1)"
      using m(2) by (auto simp: c1_def buffer_ok_def)
    with True r(2) obtain m' where m': "mem_copy (resp_buf r) (resp_buf_len p) (recv_buffer c1) (cur_recv_len c1) = Some m'"
      "length m' = length (resp_buf r)" by (simp add: mem_copy_def)
    with True show thesis using that [of "r\<lparr>resp_buf := m'\<rparr>"] r assms(5)
      by (simp add: collect_line_def c1_def Let_def)
  next
    case False
    then show thesis using that [of r] r assms(5) by (simp add: collect_line_def c1_def)
  qed
  have b2: "buffer_ok c2" using m(2) 2(2-4) by (simp add: buffer_ok_def)
  have "0 < cur_recv_len c2" "peek (recv_buffer c2) (cur_recv_len c2 - 1) = Some 0"
    using assms(3) m(3) 2(2,4) by simp_all
  from end_status_defined [OF b2 this, of r2 p2] obtain s where s: "end_status r2 (c2, p2) = Some s" by blast
  have rl: "response_line i (c, p) = (case s of None \<Rightarrow> Some (c2, p2)
     | Some s \<Rightarrow> Some (c2\<lparr>resp_status := s, resps := (resps c2)(i \<mapsto> r2\<lparr>line_counts := parsed_lines p2\<rparr>),
                 resp := None, resp_notice := resp_notice c2 + 1\<rparr>, p2\<lparr>resp_buf_len := 0, parsed_lines := 0\<rparr>))"
    using assms(3) m(1) r(1) 2(1) s by (simp add: response_line_def c1_def Let_def split: option.split)
  show thesis
  proof (cases s)
    case None
    with rl b2 2 assms(4) show thesis by (intro that [of c2 p2]) (simp_all add: resp_ok_def)
  next
    case (Some e)
    show thesis
      by (rule that [OF rl [unfolded Some option.case]]) (use b2 2(8) in \<open>simp_all add: resp_ok_def buffer_ok_def\<close>)
  qed
qed

lemma urc_end_ok: "buffer_ok c \<Longrightarrow> resp_ok c \<Longrightarrow> urc_wants p = 0 \<Longrightarrow> \<exists>st. urc_end (c, p) = Some st \<and> parser_ok st"
proof -
  assume "buffer_ok c" "resp_ok c" "urc_wants p = 0"
  then have "buffer_ok (c\<lparr>urc_calls := urc_calls c @ [(urc_line p, urc_data p)]\<rparr>)"
    "resp_ok (c\<lparr>urc_calls := urc_calls c @ [(urc_line p, urc_data p)]\<rparr>)"
    by (simp_all add: buffer_ok_def resp_ok_def)
  from readline_start_ok [OF this \<open>urc_wants p = 0\<close>] show ?thesis by (simp add: urc_end_def)
qed

lemma handle_line_ok:
  assumes "parser_ok (c, p)" "0 < cur_recv_len c" "urc_wants p = 0"
  shows "\<exists>st. handle_line (c, p) = Some st \<and> parser_ok st"
proof -
  have ok: "buffer_ok c" "resp_ok c" "read_len p \<le> recv_bufsz c" using assms(1) by (simp_all add: parser_ok_def)
  from get_urc_obj_defined [OF ok(1)] obtain u where u: "get_urc_obj c = Some u" by blast
  show ?thesis
  proof (cases u)
    case None
    show ?thesis
    proof (cases "resp c")
      case (Some i)
      obtain c' p' where "response_line i (c, p) = Some (c', p')" "buffer_ok c'" "resp_ok c'" "urc_wants p' = 0"
        by (rule response_line_defined [OF ok(1,2) assms(2) Some assms(3)])
      with readline_start_ok [of c' p'] show ?thesis by (simp add: handle_line_def u None Some)
    qed (use readline_start_ok [OF ok(1,2) assms(3)] u None in \<open>simp add: handle_line_def\<close>)
  next
    case (Some x)
    show ?thesis
    proof (cases "func x")
      case None
      with readline_start_ok [OF ok(1,2) assms(3)] show ?thesis by (simp add: handle_line_def u Some urc_start_def)
    next
      case f: (Some f)
      obtain l where l: "mem_slice (recv_buffer c) 0 (cur_recv_len c) = Some l"
        using ok(1) by (auto simp: buffer_ok_def mem_slice_def take_map)
      let ?p = "p\<lparr>urc_line := l, urc_data := [], urc_wants := f l\<rparr>"
      have "handle_line (c, p) = (if f l = 0 then urc_end (c, ?p) else Some (c, ?p))"
        by (simp add: handle_line_def u Some urc_start_def f l Let_def)
      moreover have "\<exists>st. urc_end (c, ?p) = Some st \<and> parser_ok st" if "f l = 0"
        by (rule urc_end_ok [OF ok(1,2)]) (simp add: that)
      ultimately show ?thesis using ok by (auto simp: parser_ok_def)
    qed
  qed
qed

lemma client_parser_ok:
  assumes "parser_ok st"
  shows "\<exists>st'. client_parser ch st = Some st' \<and> parser_ok st'"
proof -
  obtain c p where st: "st = (c, p)" by (cases st)
  have ok: "buffer_ok c" "resp_ok c" "read_len p \<le> recv_bufsz c" using assms by (simp_all add: parser_ok_def st)
  show ?thesis
  proof (cases "urc_wants p = 0")
    case False
    let ?p = "p\<lparr>urc_data := urc_data p @ [ch], urc_wants := urc_wants p - 1\<rparr>"
    have "client_parser ch st = (if urc_wants p - 1 = 0 then urc_end (c, ?p) else Some (c, ?p))"
      using False by (simp add: client_parser_def at_client_obj_recv_def st Let_def)
    moreover have "\<exists>st'. urc_end (c, ?p) = Some st' \<and> parser_ok st'" if "urc_wants p - 1 = 0"
      by (rule urc_end_ok [OF ok(1,2)]) (use that in simp)
    moreover have "parser_ok (c, ?p)" if "urc_wants p - 1 \<noteq> 0"
      using ok that unfolding parser_ok_def by simp
    ultimately show ?thesis by (cases "urc_wants p - 1 = 0") auto
  next
    case True
    obtain n c' p' where n: "at_recv_readline ch (c, p) = Some (n, (c', p'))" "parser_ok (c', p') \<or> n = Some (- 3)"
      "buffer_ok c'" "resp_ok c'" "urc_wants p' = 0" "\<forall>k. n = Some k \<longrightarrow> 0 < k \<longrightarrow> 0 < cur_recv_len c'"
      by (rule at_recv_readline_ok [OF assms [unfolded st] True])
    have s: "client_parser ch st = (case n of None \<Rightarrow> Some (c', p')
        | Some n \<Rightarrow> if 0 < n then handle_line (c', p') else readline_start (c', p'))"
      using True n(1) by (simp add: client_parser_def st)
    show ?thesis
    proof (cases n)
      case None
      with s n(2) show ?thesis by simp
    next
      case (Some k)
      show ?thesis
      proof (cases "0 < k")
        case True
        with s Some n handle_line_ok [of c' p'] show ?thesis by auto
      next
        case False
        with s Some n(3-5) readline_start_ok [of c' p'] show ?thesis by simp
      qed
    qed
  qed
qed

lemma client_input_ok: "parser_ok st \<Longrightarrow> \<exists>st'. client_input chs st = Some st' \<and> parser_ok st'"
proof (induction chs arbitrary: st)
  case (Cons ch chs)
  from client_parser_ok [OF Cons.prems, of ch] obtain st1 where "client_parser ch st = Some st1" "parser_ok st1" by blast
  with Cons.IH [of st1] show ?case by simp
qed simp

end
