(* ===== verification/At_Urc.thy ===== *)
theory At_Urc
  imports At_Response
begin

text \<open>
  Unsolicited lines of the AT client: a URC is recognised with its last character, and its function
  takes the characters that follow from the parser. \<open>urc_line_of\<close> says that a line is such a URC.
\<close>

lemma mem_slice_line_mem: "length s \<le> n \<Longrightarrow> mem_slice (line_mem n s) 0 (length s) = Some s"
  by (simp add: line_mem_def mem_slice_Some)

lemma char_completes_urc:
  assumes "length a < recv_bufsz c" "urc_wants p = 0"
    and "get_urc_obj (fst (at_line (c, p) (a @ [ch]))) = Some (Some u)"
  shows "client_parser ch (at_line (c, p) a) = urc_start u (fst (at_line (c, p) (a @ [ch])),
    snd (at_line (c, p) (a @ [ch]))\<lparr>last_ch := (if a = [] then 0 else last a)\<rparr>)"
proof -
  have "at_recv_readline ch (at_line (c, p) a) = Some (Some (int (Suc (length a))), (fst (at_line (c, p) (a @ [ch])),
      snd (at_line (c, p) (a @ [ch]))\<lparr>last_ch := (if a = [] then 0 else last a)\<rparr>))"
    using assms(1,3) by (simp add: at_recv_readline_def at_line_simps poke_line_mem)
  moreover have "int (Suc (length a)) > 0" by simp
  ultimately show ?thesis using assms(2,3)
    by (simp add: client_parser_def handle_line_def at_line_simps)
qed

lemma urc_takes_data:
  "0 < length d \<Longrightarrow> urc_wants p = length d \<Longrightarrow>
    client_input d (c, p) = urc_end (c, p\<lparr>urc_data := urc_data p @ d, urc_wants := 0\<rparr>)"
proof (induction d arbitrary: p)
  case (Cons x d)
  show ?case
  proof (cases d)
    case Nil
    with Cons.prems show ?thesis
      by (cases "urc_end (c, p\<lparr>urc_data := urc_data p @ [x], urc_wants := 0\<rparr>)")
        (simp_all add: client_parser_def at_client_obj_recv_def Let_def)
  next
    case (Cons y ys)
    with Cons.prems Cons.IH [of "p\<lparr>urc_data := urc_data p @ [x], urc_wants := length d\<rparr>"] show ?thesis
      by (simp add: client_parser_def at_client_obj_recv_def Let_def)
  qed
qed simp

text \<open>The line \<open>s\<close> is no URC, and no line, before its last character; then it is the URC with the
  function \<open>f\<close>.\<close>

definition urc_line_of :: "at_client \<Rightarrow> byte list \<Rightarrow> (byte list \<Rightarrow> nat) \<Rightarrow> bool" where
  "urc_line_of c s f \<longleftrightarrow> s \<noteq> [] \<and> length s \<le> recv_bufsz c \<and> 0x0A \<notin> set (butlast s) \<and>
     (end_sign c = 0 \<or> end_sign c \<notin> set (butlast s)) \<and>
     (\<forall>k. 0 < k \<and> k < length s \<longrightarrow> no_urc c (take k s)) \<and>
     (\<exists>u. get_urc_obj (c\<lparr>recv_buffer := line_mem (recv_bufsz c) s, cur_recv_len := length s\<rparr>) = Some (Some u) \<and>
        func u = Some f)"

lemma urc_end_start:
  assumes "line_start (c, p)" "length s \<le> recv_bufsz c"
  shows "urc_end (c\<lparr>recv_buffer := line_mem (recv_bufsz c) s, cur_recv_len := n\<rparr>,
      p\<lparr>read_len := n', is_full := b, last_ch := l, urc_line := s, urc_data := d, urc_wants := 0\<rparr>) =
    Some (c\<lparr>urc_calls := urc_calls c @ [(s, d)]\<rparr>, p\<lparr>urc_line := s, urc_data := d\<rparr>)"
proof -
  have "urc_wants p = 0" using assms(1) by (simp add: line_start_def)
  with assms(2) line_start_mem [OF assms(1)] show ?thesis
    by (auto simp: urc_end_def readline_start_def clear_recv_def length_line_mem
        intro!: at_client.equality at_parser.equality)
qed

lemma urc_delivered:
  assumes "line_start (c, p)" "urc_line_of c s f" "length d = f s"
  shows "client_input (s @ d) (c, p) =
    Some (c\<lparr>urc_calls := urc_calls c @ [(s, d)]\<rparr>, p\<lparr>urc_line := s, urc_data := d\<rparr>)"
proof -
  let ?a = "butlast s" and ?ch = "last s"
  have s: "?a @ [?ch] = s" "length s \<le> recv_bufsz c" "length ?a < recv_bufsz c" "length s = Suc (length ?a)"
    using assms(2) append_butlast_last_id [of s]
    by (auto simp: urc_line_of_def length_butlast neq_Nil_conv)
  have w: "urc_wants p = 0" and z: "at_line (c, p) [] = (c, p)"
    using assms(1) by (simp_all add: line_start_def)
  obtain u where u: "get_urc_obj (fst (at_line (c, p) (?a @ [?ch]))) = Some (Some u)" "func u = Some f"
    using assms(2) by (auto simp: urc_line_of_def s(1) at_line_simps)
  have "client_input ?a (at_line (c, p) []) = Some (at_line (c, p) ([] @ ?a))"
  proof (rule client_input_line_chars [OF w])
    show "\<forall>k. length ([] :: byte list) < k \<and> k \<le> length ([] @ ?a) \<longrightarrow> no_urc c (take k ([] @ ?a))"
    proof (intro allI impI)
      fix k assume k: "length ([] :: byte list) < k \<and> k \<le> length ([] @ ?a)"
      then have "take k ([] @ ?a) = take k s" by (simp add: butlast_conv_take)
      moreover have "no_urc c (take k s)" using assms(2) k by (auto simp: urc_line_of_def)
      ultimately show "no_urc c (take k ([] @ ?a))" by simp
    qed
  qed (use assms(2) s(3) in \<open>auto simp: urc_line_of_def\<close>)
  then have 1: "client_input ?a (c, p) = Some (at_line (c, p) ?a)" by (simp add: z)
  let ?c = "c\<lparr>recv_buffer := line_mem (recv_bufsz c) s, cur_recv_len := length s\<rparr>"
  let ?p = "p\<lparr>read_len := length s, is_full := False, last_ch := (if ?a = [] then 0 else last ?a),
    urc_line := s, urc_data := [], urc_wants := f s\<rparr>"
  have "client_parser ?ch (at_line (c, p) ?a) = (if f s = 0 then urc_end (?c, ?p) else Some (?c, ?p))"
    using char_completes_urc [OF s(3) w u(1)]
    by (simp add: s(1,2) at_line_simps urc_start_def u(2) mem_slice_line_mem Let_def)
  then have 2: "client_input s (c, p) = (if f s = 0 then urc_end (?c, ?p) else Some (?c, ?p))"
    using client_input_append [of ?a "[?ch]" "(c, p)"] unfolding s(1) 1 by (simp split: bind_split)
  show ?thesis
  proof (cases "f s = 0")
    case True
    with assms(3) 2 urc_end_start [OF assms(1) s(2), where d = "[]" and n = "length s" and n' = "length s"]
    show ?thesis by simp
  next
    case False
    then have "client_input d (?c, ?p) = urc_end (?c, ?p\<lparr>urc_data := d, urc_wants := 0\<rparr>)"
      using urc_takes_data [of d ?p ?c] assms(3) by simp
    with False 2 urc_end_start [OF assms(1) s(2), where d = d and n = "length s" and n' = "length s"]
    show ?thesis unfolding client_input_append by simp
  qed
qed

end
