(* ===== verification/At_Properties.thy ===== *)
theory At_Properties
  imports At_Safety At_Urc
begin

text \<open>
  The properties of the AT client: a response reaches the command that waits for it line by line,
  the parser is memory safe for any input, and where lines are lost, left over or overtaken. The
  witnesses run them on a client with a receive buffer of 16 bytes.
\<close>

subsection \<open>A client for the witnesses\<close>

definition idle_client :: at_client where
  "idle_client = \<lparr>end_sign = 0, recv_buffer = replicate 16 (Some 0), recv_bufsz = 16, cur_recv_len = 0,
     resp = None, resps = (\<lambda>_. None), resp_notice = 0, resp_status = 0, urc_table = None, urc_calls = [],
     sent = []\<rparr>"

definition idle_parser :: at_parser where
  "idle_parser = \<lparr>read_len = 0, last_ch = 0, is_full = False, resp_buf_len = 0, parsed_lines = 0,
     urc_wants = 0, urc_line = [], urc_data = []\<rparr>"

definition blank_resp :: "nat \<Rightarrow> nat \<Rightarrow> at_response" where
  "blank_resp n num = \<lparr>resp_buf = replicate n (Some 0), buf_size = n, line_num = num, line_counts = 0, resp_timeout = 100\<rparr>"

lemma blank_resp_simps [simp]: "resp_buf (blank_resp n num) = replicate n (Some 0)" "buf_size (blank_resp n num) = n"
  "line_num (blank_resp n num) = num"
  by (simp_all add: blank_resp_def)

lemma plain_line_no_urcs:
  "urc_table c = None \<Longrightarrow> plain_line c s \<longleftrightarrow> 0x0A \<notin> set s \<and> 0 \<notin> set s \<and> length s + 2 \<le> recv_bufsz c \<and>
     (end_sign c = 0 \<or> end_sign c \<notin> insert 0x0D (set s))"
  by (simp add: plain_line_def no_urc_eq)

subsection \<open>Commands and their responses\<close>

lemma exec_send_ok: "length cmd \<le> AT_CMD_MAX_LEN \<Longrightarrow>
    \<exists>t. exec_send r cmd c = Some (c\<lparr>resp_status := AT_RESP_OK, resp := r, sent := t\<rparr>)"
  by (auto simp: exec_send_def at_vprintfln_def at_vprintf_def Let_def)

text \<open>C20: A command of at most 128 bytes is sent with a response object while the parser stands at
  the start of a line and has nothing left over from a response that timed out
  (\<^verbatim>\<open>resp_buf_len\<close> and the number of parsed lines are 0), and after \<^verbatim>\<open>at_obj_exec_cmd\<close> has set
  \<^verbatim>\<open>line_counts\<close> to 0 and waits, the modem answers with lines of which only the last ends the
  response (OK, ERROR, FAIL, or the number of lines asked for). When no beginning of a line is an
  unsolicited one and the lines fit the buffers, the semaphore is released exactly once,
  \<^verbatim>\<open>at_obj_exec_cmd\<close> returns 0 if the response ended well and -1 if not, and
  \<^verbatim>\<open>at_resp_get_line\<close> gives every line of the answer. (What happens without these conditions:
  \<open>at_timeout_leaves_position\<close>, \<open>at_early_response_lost\<close>.)\<close>
theorem at_response_complete:
  assumes "line_start (c, p)" "resp_buf_len p = 0" "parsed_lines p = 0" "length cmd \<le> 128"
    and "resps c i = Some r" "length (resp_buf r) = buf_size r"
    and "\<forall>l \<in> set (ls @ [s]). plain_line c l" "length (stored (ls @ [s])) < buf_size r"
    and "only_last_ends (line_num r) 0 ls s e"
  shows "\<exists>c1 c2 c3 p3 r'. exec_send (Some i) cmd c = Some c1 \<and> exec_wait i c1 = Some c2 \<and>
    client_input (wire_lines (ls @ [s])) (c2, p) = Some (c3, p3) \<and> resp_notice c3 = resp_notice c + 1 \<and>
    fst (exec_end True c3) = (if e = AT_RESP_OK then 0 else -1) \<and> resps c3 i = Some r' \<and>
    (\<forall>k < length ls + 1. \<exists>off. at_resp_get_line r' (k + 1) = Some (Some off) \<and>
       c_string (drop off (resp_buf r')) = Some ((ls @ [s]) ! k @ [0x0D]))"
proof -
  from exec_send_ok [of cmd "Some i" c] assms(4) obtain t where
    1: "exec_send (Some i) cmd c = Some (c\<lparr>resp_status := AT_RESP_OK, resp := Some i, sent := t\<rparr>)" by auto
  let ?r = "r\<lparr>line_counts := 0\<rparr>"
  let ?c = "c\<lparr>resp_status := AT_RESP_OK, resp := Some i, sent := t, resps := (resps c)(i \<mapsto> ?r)\<rparr>"
  have 2: "exec_wait i (c\<lparr>resp_status := AT_RESP_OK, resp := Some i, sent := t\<rparr>) = Some ?c"
    using assms(5) by (simp add: exec_wait_def)
  have same: "same_reader c ?c" by (simp add: same_reader_def)
  have "line_start (?c, p)" by (rule line_start_update [OF assms(1)]) simp_all
  then have resp: "response i ?r [] (?c, p)"
    using assms(2,3,6) by (simp add: response_def collecting_def)
  have "\<exists>c' p' r'. client_input (wire_lines (ls @ [s])) (?c, p) = Some (c', p') \<and> line_start (c', p') \<and>
     resp c' = None \<and> resp_status c' = e \<and> resp_notice c' = resp_notice ?c + 1 \<and> resps c' i = Some r' \<and>
     has_lines r' ([] @ ls @ [s]) \<and> line_counts r' = length ([] :: byte list list) + length ls + 1 \<and>
     resp_buf_len p' = 0 \<and> parsed_lines p' = 0 \<and> same_reader ?c c'"
    by (rule response_lines [OF resp])
      (use assms(7-9) same_reader_plain [OF same] in simp_all)
  then obtain c3 p3 r' where 3: "client_input (wire_lines (ls @ [s])) (?c, p) = Some (c3, p3)"
    "resp_status c3 = e" "resp_notice c3 = resp_notice c + 1" "resps c3 i = Some r'"
    "has_lines r' (ls @ [s])" "line_counts r' = length (ls @ [s])" by auto
  have "\<exists>off. at_resp_get_line r' (k + 1) = Some (Some off) \<and>
       c_string (drop off (resp_buf r')) = Some ((ls @ [s]) ! k @ [0x0D])" if "k < length ls + 1" for k
    using at_resp_get_line_ok [OF 3(5,6), of "k + 1"] has_lines_at [OF 3(5), of k] that by simp
  with 1 2 3 show ?thesis by (simp add: exec_end_def)
qed

theorem at_response_complete_witness:
  "\<exists>c1 c2 c3 p3 r'. exec_send (Some 7) [0x41, 0x54] (idle_client\<lparr>resps := [7 \<mapsto> blank_resp 32 0]\<rparr>) = Some c1 \<and>
    exec_wait 7 c1 = Some c2 \<and>
    client_input [0x2B, 0x31, 0x0D, 0x0A, 0x4F, 0x4B, 0x0D, 0x0A] (c2, idle_parser) = Some (c3, p3) \<and>
    fst (exec_end True c3) = 0 \<and> resps c3 7 = Some r' \<and>
    (\<exists>off. at_resp_get_line r' 1 = Some (Some off) \<and> c_string (drop off (resp_buf r')) = Some [0x2B, 0x31, 0x0D])"
proof -
  let ?c = "idle_client\<lparr>resps := [7 \<mapsto> blank_resp 32 0]\<rparr>"
  have st: "line_start (?c, idle_parser)"
    by (simp add: line_start_def at_line_simps idle_client_def idle_parser_def line_mem_def)
  have pl: "\<forall>l \<in> set ([[0x2B, 0x31]] @ [[0x4F, 0x4B]]). plain_line ?c l"
    by (simp add: plain_line_no_urcs idle_client_def)
  have e: "only_last_ends 0 0 [[0x2B, 0x31]] [0x4F, 0x4B] 0"
    by (simp add: only_last_ends_def line_end_def)
  have p: "resp_buf_len idle_parser = 0" "parsed_lines idle_parser = 0" by (simp_all add: idle_parser_def)
  obtain c1 c2 c3 p3 r' where *: "exec_send (Some 7) [0x41, 0x54] ?c = Some c1" "exec_wait 7 c1 = Some c2"
    "client_input (wire_lines ([[0x2B, 0x31]] @ [[0x4F, 0x4B]])) (c2, idle_parser) = Some (c3, p3)"
    "fst (exec_end True c3) = (if 0 = AT_RESP_OK then 0 else -1)" "resps c3 7 = Some r'"
    "\<forall>k < length [[0x2B, 0x31 :: byte]] + 1. \<exists>off. at_resp_get_line r' (k + 1) = Some (Some off) \<and>
       c_string (drop off (resp_buf r')) = Some (([[0x2B, 0x31]] @ [[0x4F, 0x4B]]) ! k @ [0x0D])"
    using at_response_complete [OF st p, of "[0x41, 0x54]" 7 "blank_resp 32 0" "[[0x2B, 0x31]]" "[0x4F, 0x4B]" 0] pl e
    by auto
  from spec [OF *(6), of 0] have "\<exists>off. at_resp_get_line r' 1 = Some (Some off) \<and>
      c_string (drop off (resp_buf r')) = Some [0x2B, 0x31, 0x0D]" by simp
  with * show ?thesis by (intro exI [of _ c1] exI [of _ c2] exI [of _ c3] exI [of _ p3] exI [of _ r']) simp
qed

text \<open>C21: Whatever characters the modem sends, the parser takes them all without reading or
  writing outside the receive buffer or a response buffer, and is again in a consistent state: the
  receive buffer has at least four bytes, and the response object that is waited for exists.\<close>
theorem at_parser_memory_safe:
  assumes "parser_ok st"
  shows "\<exists>st'. client_input chs st = Some st' \<and> parser_ok st'"
  using client_input_ok [OF assms] .

lemma idle_parser_ok: "parser_ok (idle_client, idle_parser)"
  unfolding parser_ok_def buffer_ok_def resp_ok_def prod.case
  by (intro conjI exI [of _ "replicate 16 0"]) (simp_all add: idle_client_def idle_parser_def)

theorem at_parser_memory_safe_witness:
  "\<exists>st'. client_input [0x0D, 0x0A, 0x0A, 0, 255] (idle_client, idle_parser) = Some st' \<and> parser_ok st'"
  by (rule at_parser_memory_safe [OF idle_parser_ok])

text \<open>\<^verbatim>\<open>at_resp_get_line_by_kw\<close> on a complete response gives the first line that
  contains the keyword, or a null pointer when none does.\<close>
theorem at_keyword_finds_first:
  assumes "has_lines r ls" "line_counts r = length ls"
  shows "case first_with kw ls of
      None \<Rightarrow> at_resp_get_line_by_kw r kw = Some None \<and> (\<forall>s \<in> set ls. \<not> contains kw (s @ [0x0D]))
    | Some k \<Rightarrow> k < length ls \<and> contains kw (ls ! k @ [0x0D]) \<and> (\<forall>j < k. \<not> contains kw (ls ! j @ [0x0D])) \<and>
        (\<exists>off. at_resp_get_line_by_kw r kw = Some (Some off) \<and>
           c_string (drop off (resp_buf r)) = Some (ls ! k @ [0x0D]))"
proof (cases "first_with kw ls")
  case None
  then have "\<forall>s \<in> set ls. \<not> contains kw (s @ [0x0D])"
    by (induction ls) (auto split: if_splits)
  with None at_resp_get_line_by_kw_ok [OF assms] show ?thesis by simp
next
  case (Some k)
  then have "k < length ls \<and> contains kw (ls ! k @ [0x0D]) \<and> (\<forall>j < k. \<not> contains kw (ls ! j @ [0x0D]))"
  proof (induction ls arbitrary: k)
    case (Cons s ls)
    then show ?case by (auto split: if_splits simp: less_Suc_eq_0_disj)
  qed simp
  with Some at_resp_get_line_by_kw_ok [OF assms] has_lines_at [OF assms(1), of k] show ?thesis by simp
qed

theorem at_keyword_finds_first_witness:
  "\<exists>off. at_resp_get_line_by_kw ((put_line 0 [0x2B, 0x31] (blank_resp 32 0))\<lparr>line_counts := 1\<rparr>) [0x31] = Some (Some off) \<and>
     c_string (drop off (resp_buf (put_line 0 [0x2B, 0x31] (blank_resp 32 0)))) = Some [0x2B, 0x31, 0x0D]"
proof -
  have "has_lines (put_line 0 [0x2B, 0x31] (blank_resp 32 0)) [[0x2B, 0x31]]"
    using has_lines_put [of "blank_resp 32 0" "[]" "[0x2B, 0x31]"] by simp
  with at_keyword_finds_first [of "(put_line 0 [0x2B, 0x31] (blank_resp 32 0))\<lparr>line_counts := 1\<rparr>" "[[0x2B, 0x31]]" "[0x31]"]
  show ?thesis by simp
qed

text \<open>An unsolicited line that comes while a response is collected is recognised with its last
  character. Its function is given the line and takes the characters it asks for, and no other; the
  response goes on as if neither had come.\<close>
theorem at_urc_in_response:
  assumes "response i r acc (c, p)" "urc_line_of c s f" "length d = f s"
  shows "\<exists>c' p'. client_input (s @ d) (c, p) = Some (c', p') \<and> urc_calls c' = urc_calls c @ [(s, d)] \<and>
    response i r acc (c', p') \<and> resp_notice c' = resp_notice c \<and> resp_status c' = resp_status c"
proof -
  have st: "line_start (c, p)" using assms(1) by (simp add: response_def collecting_def)
  let ?c = "c\<lparr>urc_calls := urc_calls c @ [(s, d)]\<rparr>" and ?p = "p\<lparr>urc_line := s, urc_data := d\<rparr>"
  have "line_start (?c, ?p)" by (rule line_start_update [OF st]) simp_all
  with assms(1) have "response i r acc (?c, ?p)" by (simp add: response_def collecting_def)
  with urc_delivered [OF st assms(2,3)] show ?thesis by simp
qed

theorem at_urc_in_response_witness:
  "\<exists>c' p'. client_input ([0x2B, 0x44, 0x3A] @ [0x0D, 0x0A])
      (idle_client\<lparr>resp := Some 7, resps := [7 \<mapsto> blank_resp 32 0],
         urc_table := Some [\<lparr>cmd_prefix = [0x2B], cmd_suffix = [0x3A], func = Some (\<lambda>l. length l - 1)\<rparr>]\<rparr>, idle_parser) =
      Some (c', p') \<and> urc_calls c' = [([0x2B, 0x44, 0x3A], [0x0D, 0x0A])] \<and>
    response 7 (blank_resp 32 0) [] (c', p')"
proof -
  let ?c = "idle_client\<lparr>resp := Some 7, resps := [7 \<mapsto> blank_resp 32 0],
    urc_table := Some [\<lparr>cmd_prefix = [0x2B], cmd_suffix = [0x3A], func = Some (\<lambda>l. length l - 1)\<rparr>]\<rparr>"
  have st: "line_start (?c, idle_parser)"
    by (simp add: line_start_def at_line_simps idle_client_def idle_parser_def line_mem_def)
  then have r: "response 7 (blank_resp 32 0) [] (?c, idle_parser)"
    by (simp add: response_def collecting_def idle_client_def idle_parser_def)
  have n: "no_urc ?c [0x2B]" "no_urc ?c [0x2B, 0x44]"
    by (simp_all add: idle_client_def no_urc_eq line_mem_def Let_def peek_def)
  have "no_urc ?c (take k [0x2B, 0x44, 0x3A])" if "0 < k" "k < 3" for k
  proof -
    from that have "k = 1 \<or> k = 2" by auto
    with n show ?thesis by auto
  qed
  then have u: "urc_line_of ?c [0x2B, 0x44, 0x3A] (\<lambda>l. length l - 1)"
    unfolding urc_line_of_def by (simp add: idle_client_def get_urc_obj_def line_mem_def Let_def peek_def)
  from at_urc_in_response [OF r u, of "[0x0D, 0x0A]"] show ?thesis by (auto simp: idle_client_def)
qed

subsection \<open>Lines that are lost, left over or overtaken\<close>

text \<open>A line that does not fit the response buffer is dropped and \<^verbatim>\<open>AT_RESP_BUFF_FULL\<close> is
  noted, but the OK that follows overwrites the status: \<^verbatim>\<open>at_obj_exec_cmd\<close> returns 0 and the line is
  missing from the response.\<close>
theorem at_lost_line_reported_ok:
  assumes "response i r acc (c, p)" "line_num r = 0" "plain_line c s" "plain_line c [0x4F, 0x4B]"
    and "buf_size r \<le> length (stored acc) + length s + 2" "length (stored acc) + 4 < buf_size r"
    and "line_end 0 (length acc) s = None"
  shows "\<exists>c1 p1 c2 p2 r'. client_input (s @ [0x0D, 0x0A]) (c, p) = Some (c1, p1) \<and> resp_status c1 = AT_RESP_BUFF_FULL \<and>
    client_input [0x4F, 0x4B, 0x0D, 0x0A] (c1, p1) = Some (c2, p2) \<and> resp_status c2 = AT_RESP_OK \<and>
    fst (exec_end True c2) = 0 \<and> resps c2 i = Some r' \<and>
    line_counts r' = length acc + 1 \<and> has_lines r' (acc @ [[0x4F, 0x4B]])"
proof -
  have col: "collecting i r (c, p)" and p: "resp_buf_len p = length (stored acc)" "parsed_lines p = length acc"
    and h: "has_lines r acc" using assms(1) by (simp_all add: response_def)
  have r: "length (resp_buf r) = buf_size r" "line_start (c, p)" "resps c i = Some r" "resp c = Some i"
    using col by (simp_all add: collecting_def)
  obtain c1 p1 where t: "take_line i r s (c, p) = (c1, p1)" by (cases "take_line i r s (c, p)")
  have t': "c1 = c\<lparr>resps := (resps c)(i \<mapsto> r), resp_status := AT_RESP_BUFF_FULL\<rparr>"
    "p1 = p\<lparr>resp_buf_len := length (stored acc), parsed_lines := length acc\<rparr>"
    using t assms(2,5,7) by (simp_all add: take_line_def p)
  have 1: "client_input (s @ [0x0D, 0x0A]) (c, p) = Some (c1, p1)"
    using response_line_ok [OF col assms(3)] by (simp add: t)
  have "line_start (c1, p1)" using take_line_start [OF r(2), of i r s] by (simp add: t)
  then have resp: "response i r acc (c1, p1)"
    using r h assms(6) by (simp add: response_def collecting_def t')
  have "same_reader c c1" by (simp add: same_reader_def t')
  then have pl: "plain_line c1 [0x4F, 0x4B]" using assms(4) same_reader_plain by blast
  have fit: "length (stored acc) + length [0x4F, 0x4B :: byte] + 2 < buf_size r" using assms(6) by simp
  have "line_end (line_num r) (length acc + 1) [0x4F, 0x4B] = Some AT_RESP_OK"
    by (simp add: line_end_def assms(2))
  then obtain c' p' r' where "client_input ([0x4F, 0x4B] @ [0x0D, 0x0A]) (c1, p1) = Some (c', p')"
    "resp_status c' = AT_RESP_OK" "resps c' = (resps c1)(i \<mapsto> r')" "has_lines r' (acc @ [[0x4F, 0x4B]])"
    "line_counts r' = length acc + 1"
    by (rule response_end [OF resp pl fit])
  with 1 show ?thesis by (simp add: exec_end_def t'(1))
qed

theorem at_lost_line_reported_ok_witness:
  "\<exists>c1 p1 c2 p2 r'. client_input [0x2B, 0x31, 0x32, 0x33, 0x34, 0x0D, 0x0A]
      (idle_client\<lparr>resp := Some 7, resps := [7 \<mapsto> blank_resp 6 0]\<rparr>, idle_parser) = Some (c1, p1) \<and>
    resp_status c1 = AT_RESP_BUFF_FULL \<and>
    client_input [0x4F, 0x4B, 0x0D, 0x0A] (c1, p1) = Some (c2, p2) \<and> resp_status c2 = AT_RESP_OK \<and>
    fst (exec_end True c2) = 0 \<and> resps c2 7 = Some r' \<and> line_counts r' = 1 \<and> has_lines r' [[0x4F, 0x4B]]"
proof -
  let ?c = "idle_client\<lparr>resp := Some 7, resps := [7 \<mapsto> blank_resp 6 0]\<rparr>"
  have st: "line_start (?c, idle_parser)"
    by (simp add: line_start_def at_line_simps idle_client_def idle_parser_def line_mem_def)
  have r: "response 7 (blank_resp 6 0) [] (?c, idle_parser)"
    using st by (simp add: response_def collecting_def idle_client_def idle_parser_def)
  have pl: "plain_line ?c [0x2B, 0x31, 0x32, 0x33, 0x34]" "plain_line ?c [0x4F, 0x4B]"
    by (simp_all add: plain_line_no_urcs idle_client_def)
  have e: "line_end 0 (length ([] :: byte list list)) [0x2B, 0x31, 0x32, 0x33, 0x34] = None"
    by (simp add: line_end_def)
  show ?thesis using at_lost_line_reported_ok [OF r _ pl _ _ e] by simp
qed

text \<open>A command times out after some lines of its answer have come. The parser keeps its
  position in the response buffer: the answer OK to the next command, with a new response object,
  is stored behind as many characters as were collected before, and the new response counts the old
  lines. \<^verbatim>\<open>at_obj_exec_cmd\<close> returns 0, and line 1 of the new response is empty.\<close>
theorem at_timeout_leaves_position:
  assumes "response i r acc (c, p)" "acc \<noteq> []" "length cmd \<le> 128" "plain_line c [0x4F, 0x4B]"
    and "resps c j = Some (blank_resp n 0)" "length (stored acc) + 4 < n"
  shows "\<exists>c1 c2 c3 p3 r'. exec_send (Some j) cmd (snd (exec_end False c)) = Some c1 \<and> exec_wait j c1 = Some c2 \<and>
    client_input [0x4F, 0x4B, 0x0D, 0x0A] (c2, p) = Some (c3, p3) \<and> fst (exec_end True c3) = 0 \<and>
    resps c3 j = Some r' \<and> line_counts r' = length acc + 1 \<and>
    at_resp_get_line r' 1 = Some (Some 0) \<and> c_string (resp_buf r') = Some []"
proof -
  have col: "collecting i r (c, p)" and p: "resp_buf_len p = length (stored acc)" "parsed_lines p = length acc"
    using assms(1) by (simp_all add: response_def)
  have st: "line_start (c, p)" using col by (simp add: collecting_def)
  let ?c = "snd (exec_end False c)"
  from exec_send_ok [of cmd "Some j" ?c] assms(3) obtain t where
    1: "exec_send (Some j) cmd ?c = Some (?c\<lparr>resp_status := AT_RESP_OK, resp := Some j, sent := t\<rparr>)" by auto
  let ?r = "(blank_resp n 0)\<lparr>line_counts := 0\<rparr>"
  let ?c2 = "?c\<lparr>resp_status := AT_RESP_OK, resp := Some j, sent := t, resps := (resps ?c)(j \<mapsto> ?r)\<rparr>"
  have 2: "exec_wait j (?c\<lparr>resp_status := AT_RESP_OK, resp := Some j, sent := t\<rparr>) = Some ?c2"
    using assms(5) by (simp add: exec_wait_def exec_end_def)
  have "line_start (?c2, p)" by (rule line_start_update [OF st]) (simp_all add: exec_end_def)
  then have col2: "collecting j ?r (?c2, p)"
    using p(1) assms(6) by (simp add: collecting_def)
  have "plain_line ?c2 [0x4F, 0x4B]"
    using assms(4) same_reader_plain [of c ?c2] by (simp add: same_reader_def exec_end_def)
  from response_line_ok [OF col2 this]
  have 3: "client_input [0x4F, 0x4B, 0x0D, 0x0A] (?c2, p) = Some (take_line j ?r [0x4F, 0x4B] (?c2, p))" by simp
  let ?r' = "(put_line (length (stored acc)) [0x4F, 0x4B] ?r)\<lparr>line_counts := length acc + 1\<rparr>"
  have t: "take_line j ?r [0x4F, 0x4B] (?c2, p) = (?c2\<lparr>resps := (resps ?c2)(j \<mapsto> ?r'), resp_status := AT_RESP_OK,
      resp := None, resp_notice := resp_notice ?c2 + 1\<rparr>, p\<lparr>resp_buf_len := 0, parsed_lines := 0\<rparr>)"
    using assms(6) by (simp add: take_line_def p line_end_def blank_resp_def)
  have "0 < length (stored acc)" using assms(2) by (cases acc) auto
  then obtain k where "min (length (stored acc)) n = Suc k" using assms(6) by (cases "min (length (stored acc)) n") auto
  then have 4: "c_string (resp_buf ?r') = Some []" by (simp add: put_line_def take_replicate)
  have 5: "at_resp_get_line ?r' 1 = Some (Some 0)"
    by (simp add: at_resp_get_line_def get_line_loop.simps)
  show ?thesis
    apply (intro exI conjI, rule 1, rule 2, rule 3 [unfolded t])
    prefer 4 apply (rule 5)
    prefer 4 apply (rule 4)
    by (simp_all add: exec_end_def)
qed

theorem at_timeout_leaves_position_witness:
  "\<exists>c1 c2 c3 p3 r'. exec_send (Some 8) [0x41, 0x54]
      (snd (exec_end False (idle_client\<lparr>resp := Some 7, resps := [7 \<mapsto> put_line 0 [0x2B] (blank_resp 32 0),
         8 \<mapsto> blank_resp 32 0]\<rparr>))) = Some c1 \<and> exec_wait 8 c1 = Some c2 \<and>
    client_input [0x4F, 0x4B, 0x0D, 0x0A] (c2, idle_parser\<lparr>resp_buf_len := 3, parsed_lines := 1\<rparr>) = Some (c3, p3) \<and>
    fst (exec_end True c3) = 0 \<and> resps c3 8 = Some r' \<and> line_counts r' = 2 \<and>
    at_resp_get_line r' 1 = Some (Some 0) \<and> c_string (resp_buf r') = Some []"
proof -
  let ?c = "idle_client\<lparr>resp := Some 7, resps := [7 \<mapsto> put_line 0 [0x2B] (blank_resp 32 0), 8 \<mapsto> blank_resp 32 0]\<rparr>"
  let ?p = "idle_parser\<lparr>resp_buf_len := 3, parsed_lines := 1\<rparr>"
  have st: "line_start (?c, ?p)"
    by (simp add: line_start_def at_line_simps idle_client_def idle_parser_def line_mem_def)
  have "has_lines (put_line 0 [0x2B] (blank_resp 32 0)) [[0x2B]]"
    using has_lines_put [of "blank_resp 32 0" "[]" "[0x2B]"] by simp
  then have r: "response 7 (put_line 0 [0x2B] (blank_resp 32 0)) [[0x2B]] (?c, ?p)"
    using st by (simp add: response_def collecting_def idle_client_def idle_parser_def)
  have pl: "plain_line ?c [0x4F, 0x4B]" by (simp add: plain_line_no_urcs idle_client_def)
  have j: "resps ?c 8 = Some (blank_resp 32 0)" by simp
  have "\<exists>c1 c2 c3 p3 r'. exec_send (Some 8) [0x41, 0x54] (snd (exec_end False ?c)) = Some c1 \<and> exec_wait 8 c1 = Some c2 \<and>
    client_input [0x4F, 0x4B, 0x0D, 0x0A] (c2, ?p) = Some (c3, p3) \<and> fst (exec_end True c3) = 0 \<and>
    resps c3 8 = Some r' \<and> line_counts r' = length [[0x2B :: byte]] + 1 \<and>
    at_resp_get_line r' 1 = Some (Some 0) \<and> c_string (resp_buf r') = Some []"
    by (rule at_timeout_leaves_position [OF r _ _ pl j]) simp_all
  then show ?thesis by (simp add: eval_nat_numeral)
qed

text \<open>\<^verbatim>\<open>at_obj_exec_cmd\<close> resets the line count after it has sent the command. When the parser,
  whose thread has the higher priority, has already handled the whole answer by then, the command
  still returns 0, and the response seems to have no lines.\<close>
theorem at_early_response_lost:
  assumes "resps c i = Some r" "resp_status c = AT_RESP_OK"
  shows "\<exists>c' r'. exec_wait i c = Some c' \<and> fst (exec_end True c') = 0 \<and> resps c' i = Some r' \<and>
    resp_buf r' = resp_buf r \<and> (\<forall>n. at_resp_get_line r' n = Some None)"
  using assms by (simp add: exec_wait_def exec_end_def at_resp_get_line_def)

theorem at_early_response_lost_witness:
  "\<exists>c' r'. exec_wait 7 (idle_client\<lparr>resps := [7 \<mapsto> (blank_resp 32 0)\<lparr>line_counts := 3\<rparr>]\<rparr>) = Some c' \<and>
    fst (exec_end True c') = 0 \<and> resps c' 7 = Some r' \<and>
    resp_buf r' = replicate 32 (Some 0) \<and> (\<forall>n. at_resp_get_line r' n = Some None)"
  using at_early_response_lost [of "idle_client\<lparr>resps := [7 \<mapsto> (blank_resp 32 0)\<lparr>line_counts := 3\<rparr>]\<rparr>" 7
      "(blank_resp 32 0)\<lparr>line_counts := 3\<rparr>"] by (simp add: idle_client_def)

text \<open>\<^verbatim>\<open>at_client_obj_wait_connect\<close> gives up after \<^verbatim>\<open>timeout\<close> ticks and deletes its
  response object before it resets \<^verbatim>\<open>client->resp\<close>: a line that ends in between makes the parser use
  the freed object. Once \<^verbatim>\<open>client->resp\<close> is reset, the line is ignored.\<close>

lemma plain_line_ignored:
  assumes "line_start (c, p)" "plain_line c s" "resp c = None"
  shows "client_input (s @ [0x0D, 0x0A]) (c, p) = Some (c, p)"
proof -
  have "no_urc c (take (length s + 2) (s @ [0x0D, 0x0A]))" and "length s + 2 \<le> recv_bufsz c"
    using assms(2) unfolding plain_line_def by blast+
  moreover have "c\<lparr>recv_buffer := recv_buffer c, cur_recv_len := cur_recv_len c\<rparr> = c"
    "p\<lparr>read_len := read_len p, last_ch := last_ch p, is_full := is_full p\<rparr> = p" by simp_all
  ultimately show ?thesis using assms(3) line_start_mem [OF assms(1)]
    unfolding client_input_line [OF assms(1,2)]
    by (simp add: handle_line_def at_line_simps no_urc_def readline_start_def clear_recv_def length_line_mem
        line_mem_def)
qed

theorem at_wait_connect_frees_early:
  assumes "line_start (c, p)" "plain_line c s" "resp c = Some i" "resps c i = Some r" "timeout < now - start"
  shows "\<exists>c1. wait_round now start timeout i c = Some (Some (- 2), c) \<and> wait_delete i c = Some c1 \<and>
    client_input (s @ [0x0D, 0x0A]) (c1, p) = None \<and>
    client_input (s @ [0x0D, 0x0A]) (wait_end c1, p) = Some (wait_end c1, p)"
proof -
  let ?c = "c\<lparr>resps := (resps c)(i := None)\<rparr>" and ?l = "s @ [0x0D, 0x0A]"
  have st: "line_start (?c, p)" "line_start (wait_end ?c, p)"
    by (rule line_start_update [OF assms(1)]; simp add: wait_end_def)+
  have "same_reader c ?c" "same_reader c (wait_end ?c)" by (simp_all add: same_reader_def wait_end_def)
  with assms(2) same_reader_plain have pl: "plain_line ?c s" "plain_line (wait_end ?c) s" by blast+
  have "no_urc ?c (take (length s + 2) ?l)" using pl(1) unfolding plain_line_def by blast
  then have "client_input ?l (?c, p) = None"
    using assms(3) unfolding client_input_line [OF st(1) pl(1)]
    by (simp add: handle_line_def at_line_simps no_urc_def response_line_def split: bind_split)
  moreover have "client_input ?l (wait_end ?c, p) = Some (wait_end ?c, p)"
    by (rule plain_line_ignored [OF st(2) pl(2)]) (simp add: wait_end_def)
  ultimately show ?thesis
    using assms(4,5) by (simp add: wait_round_def wait_delete_def at_delete_resp_def)
qed

end
