(* ===== verification/At_Socket.thy ===== *)
theory At_Socket
  imports Mqtt_Codec Memory "HOL-Library.Signed_Division"
begin

text \<open>
  The sockets on top of the AT client (\<^verbatim>\<open>components/net/at/at_socket/at_socket.c\<close>): a table of sockets,
  and for each a list of the packets that the modem has delivered and that nobody has read.

  A pointer to a socket is its index in the table; a call that uses a null pointer, or that fails an
  assertion, is \<open>None\<close>. \<^verbatim>\<open>AT_SOCKETS_NUM\<close> is the length of the table. The functions of the modem's
  driver (\<^verbatim>\<open>struct at_device_ops\<close>) are a parameter; their results may depend on the calls made so far,
  which \<open>drv_calls\<close> notes. \<open>recv_notice\<close> is the value of the semaphore and \<open>recv_lock\<close> whether the
  mutex exists, in whose sections every step takes place. \<^verbatim>\<open>rt_slist_t\<close> is a list (theory \<open>Rt_List\<close>
  has its pointers). The code reads the link of a packet after \<^verbatim>\<open>rt_free\<close> has taken it, to go on with the
  next one: \<open>freed_intact\<close> says whether freed memory still has its contents then, and without it
  such a step is \<open>None\<close>. The names of the kernel objects, \<^verbatim>\<open>callback\<close>, which is never used, and the
  wait queue of \<^verbatim>\<open>SAL_USING_POSIX\<close>, which is off, are left out.
\<close>

abbreviation AT_SOCKET_MAGIC :: u32 where "AT_SOCKET_MAGIC \<equiv> 0xA100"
abbreviation AF_INET :: int where "AF_INET \<equiv> 2"
abbreviation SOCK_STREAM :: int where "SOCK_STREAM \<equiv> 1"
abbreviation SOCK_DGRAM :: int where "SOCK_DGRAM \<equiv> 2"
abbreviation MSG_DONTWAIT :: u32 where "MSG_DONTWAIT \<equiv> 0x08"
abbreviation SOL_SOCKET :: int where "SOL_SOCKET \<equiv> 0xfff"
abbreviation IPPROTO_TCP :: int where "IPPROTO_TCP \<equiv> 6"
abbreviation SO_SNDTIMEO :: int where "SO_SNDTIMEO \<equiv> 0x1005"
abbreviation SO_RCVTIMEO :: int where "SO_RCVTIMEO \<equiv> 0x1006"
abbreviation WAIT_FOREVER :: u32 where "WAIT_FOREVER \<equiv> -1"

datatype at_socket_state = AT_SOCKET_NONE | AT_SOCKET_LISTEN | AT_SOCKET_CONNECT | AT_SOCKET_CLOSED
datatype at_socket_type = AT_SOCKET_INVALID | AT_SOCKET_TCP | AT_SOCKET_UDP
datatype at_socket_evt = AT_SOCKET_EVT_RECV | AT_SOCKET_EVT_CLOSED
datatype at_event = AT_EVENT_SEND | AT_EVENT_RECV | AT_EVENT_ERROR

datatype drv_call =
    Drv_connect int mem u16 at_socket_type
  | Drv_close int
  | Drv_send int "byte list" at_socket_type
  | Drv_resolve "byte list"
  | Drv_set_event_cb at_socket_evt

record at_device_ops =
  op_connect :: "drv_call list \<Rightarrow> int \<Rightarrow> mem \<Rightarrow> u16 \<Rightarrow> at_socket_type \<Rightarrow> int"
  op_closesocket :: "drv_call list \<Rightarrow> int \<Rightarrow> int"
  op_send :: "drv_call list \<Rightarrow> int \<Rightarrow> byte list \<Rightarrow> at_socket_type \<Rightarrow> int"
  op_resolve :: "drv_call list \<Rightarrow> byte list \<Rightarrow> mem \<Rightarrow> int \<times> mem"

record at_recv_pkt =
  bfsz_totle :: u32
  bfsz_index :: u32
  pkt_buff :: "byte list"

record at_sock =
  magic :: u32
  sock_no :: int
  sock_type :: at_socket_type
  sock_state :: at_socket_state
  recv_notice :: "nat option"
  recv_lock :: bool
  recvpkt_list :: "at_recv_pkt list"
  recv_timeout :: u32
  send_timeout :: u32
  rcvevent :: u16
  sendevent :: u16
  errevent :: u16

record at_net =
  sockets :: "at_sock list"
  at_dev_ops :: "at_device_ops option"
  at_slock :: bool
  drv_calls :: "drv_call list"
  freed_intact :: bool

record sockaddr =
  sin_addr :: u32
  sin_port :: u16

definition sock_at :: "at_net \<Rightarrow> nat \<Rightarrow> at_sock" where
  "sock_at st n = sockets st ! n"

definition upd_sock :: "nat \<Rightarrow> (at_sock \<Rightarrow> at_sock) \<Rightarrow> at_net \<Rightarrow> at_net" where
  "upd_sock n f st = st\<lparr>sockets := (sockets st)[n := f (sockets st ! n)]\<rparr>"

definition called :: "drv_call \<Rightarrow> at_net \<Rightarrow> at_net" where
  "called c st = st\<lparr>drv_calls := drv_calls st @ [c]\<rparr>"

definition at_get_socket :: "int \<Rightarrow> at_net \<Rightarrow> nat option" where
  "at_get_socket s st =
     (if s < 0 \<or> s \<ge> int (length (sockets st)) then None
      else if magic (sock_at st (nat s)) \<noteq> AT_SOCKET_MAGIC then None
      else Some (nat s))"

definition at_scoket_device_register :: "at_device_ops \<Rightarrow> at_net \<Rightarrow> at_net" where
  "at_scoket_device_register ops st = st\<lparr>at_dev_ops := Some ops\<rparr>"

subsection \<open>The list of received packets\<close>

definition at_recvpkt_put :: "bool \<Rightarrow> byte list \<Rightarrow> u32 \<Rightarrow> at_recv_pkt list \<Rightarrow> u32 \<times> at_recv_pkt list" where
  "at_recvpkt_put ok_calloc ptr len rlist =
     (if \<not> ok_calloc then (0, rlist)
      else (len, rlist @ [\<lparr>bfsz_totle = len, bfsz_index = 0, pkt_buff = ptr\<rparr>]))"

text \<open>The walk frees every packet and then reads its link.\<close>

definition at_recvpkt_all_delete :: "bool \<Rightarrow> at_recv_pkt list \<Rightarrow> at_recv_pkt list option" where
  "at_recvpkt_all_delete intact rlist = (if rlist = [] \<or> intact then Some [] else None)"

text \<open>\<^verbatim>\<open>memcpy(mem + content_pos, pkt->buff + pkt->bfsz_index, n)\<close>; \<open>out\<close> is what was written to
  \<open>mem\<close>, which has room for \<open>len\<close> bytes.\<close>

definition copy_pkt :: "u32 \<Rightarrow> u32 \<Rightarrow> at_recv_pkt \<Rightarrow> u32 \<Rightarrow> byte list \<Rightarrow> byte list option" where
  "copy_pkt len content_pos p n out =
     (if unat (bfsz_index p) + unat n \<le> length (pkt_buff p) \<and> unat content_pos + unat n \<le> unat len
      then Some (take (unat content_pos) out @ take (unat n) (drop (unat (bfsz_index p)) (pkt_buff p)))
      else None)"

text \<open>The loop of \<^verbatim>\<open>at_recvpkt_get\<close>. A packet that is read to its end is deleted with
  \<^verbatim>\<open>at_recvpkt_node_delete\<close>; when the loop is not left there, it reads the link of the freed node.\<close>

fun recvpkt_loop ::
    "bool \<Rightarrow> u32 \<Rightarrow> u32 \<Rightarrow> byte list \<Rightarrow> at_recv_pkt list \<Rightarrow> (u32 \<times> byte list \<times> at_recv_pkt list) option" where
  "recvpkt_loop intact len content_pos out [] = Some (content_pos, out, [])"
| "recvpkt_loop intact len content_pos out (p # ps) =
     (let page_pos = bfsz_totle p - bfsz_index p
      in if page_pos \<ge> len - content_pos
         then do {
           out \<leftarrow> copy_pkt len content_pos p (len - content_pos) out;
           let p = p\<lparr>bfsz_index := bfsz_index p + (len - content_pos)\<rparr>;
           Some (len, out, if bfsz_index p = bfsz_totle p then ps else p # ps)
         }
         else do {
           out \<leftarrow> copy_pkt len content_pos p page_pos out;
           if intact then recvpkt_loop intact len (content_pos + page_pos) out ps else None
         })"

definition at_recvpkt_get :: "bool \<Rightarrow> at_recv_pkt list \<Rightarrow> u32 \<Rightarrow> (u32 \<times> byte list \<times> at_recv_pkt list) option" where
  "at_recvpkt_get intact rlist len = recvpkt_loop intact len 0 [] rlist"

subsection \<open>Events\<close>

definition step_event :: "bool \<Rightarrow> u16 \<Rightarrow> u16" where
  "step_event is_plus v = (if is_plus then v + 1 else if v \<noteq> 0 then v - 1 else v)"

definition at_do_event_changes :: "at_event \<Rightarrow> bool \<Rightarrow> at_sock \<Rightarrow> at_sock" where
  "at_do_event_changes event is_plus s =
     (case event of
        AT_EVENT_SEND \<Rightarrow> s\<lparr>sendevent := step_event is_plus (sendevent s)\<rparr>
      | AT_EVENT_RECV \<Rightarrow> s\<lparr>rcvevent := step_event is_plus (rcvevent s)\<rparr>
      | AT_EVENT_ERROR \<Rightarrow> s\<lparr>errevent := step_event is_plus (errevent s)\<rparr>)"

subsection \<open>The table of sockets\<close>

fun find_slot :: "at_sock list \<Rightarrow> nat" where
  "find_slot [] = 0"
| "find_slot (s # ss) = (if magic s \<noteq> 0 then Suc (find_slot ss) else 0)"

text \<open>The flags say whether the kernel objects can be created.\<close>

definition alloc_socket :: "bool \<Rightarrow> bool \<Rightarrow> bool \<Rightarrow> at_net \<Rightarrow> nat option \<times> at_net" where
  "alloc_socket ok_slock ok_sem ok_mutex st =
     (if \<not> at_slock st \<and> \<not> ok_slock then (None, st)
      else
        (let st = st\<lparr>at_slock := True\<rparr>; idx = find_slot (sockets st)
         in if idx = length (sockets st) then (None, st)
            else
              (let st = upd_sock idx (\<lambda>s. s\<lparr>magic := AT_SOCKET_MAGIC, sock_no := int idx, sock_state := AT_SOCKET_NONE,
                     rcvevent := 0, sendevent := 0, errevent := 0, recvpkt_list := []\<rparr>) st;
                   st = upd_sock idx (\<lambda>s. s\<lparr>recv_notice := if ok_sem then Some 0 else None\<rparr>) st
               in if \<not> ok_sem then (None, st)
                  else (let st = upd_sock idx (\<lambda>s. s\<lparr>recv_lock := ok_mutex\<rparr>) st
                        in if \<not> ok_mutex then (None, st) else (Some idx, st)))))"

text \<open>\<open>af_at\<close> is \<^verbatim>\<open>AF_AT\<close>, which the repository does not define. A failed allocation returns
  \<^verbatim>\<open>RT_NULL\<close>, which is 0.\<close>

definition at_socket :: "int \<Rightarrow> bool \<Rightarrow> bool \<Rightarrow> bool \<Rightarrow> int \<Rightarrow> int \<Rightarrow> at_net \<Rightarrow> (int \<times> at_net) option" where
  "at_socket af_at ok_slock ok_sem ok_mutex domain type st =
     (if domain \<noteq> af_at \<and> domain \<noteq> AF_INET then None
      else if type \<noteq> SOCK_STREAM \<and> type \<noteq> SOCK_DGRAM then Some (-1, st)
      else (let socket_type = (if type = SOCK_STREAM then AT_SOCKET_TCP else AT_SOCKET_UDP);
                (sock, st) = alloc_socket ok_slock ok_sem ok_mutex st
            in case sock of
                 None \<Rightarrow> Some (0, st)
               | Some n \<Rightarrow> (let st = upd_sock n (\<lambda>s. s\<lparr>sock_type := socket_type\<rparr>) st
                            in Some (sock_no (sock_at st n), st))))"

definition zero_sock :: at_sock where
  "zero_sock = \<lparr>magic = 0, sock_no = 0, sock_type = AT_SOCKET_INVALID, sock_state = AT_SOCKET_NONE, recv_notice = None,
     recv_lock = False, recvpkt_list = [], recv_timeout = 0, send_timeout = 0, rcvevent = 0, sendevent = 0, errevent = 0\<rparr>"

definition free_socket :: "nat \<Rightarrow> at_net \<Rightarrow> at_net option" where
  "free_socket n st = do {
     ps \<leftarrow> at_recvpkt_all_delete (freed_intact st) (recvpkt_list (sock_at st n));
     Some (upd_sock n (\<lambda>s. zero_sock) (upd_sock n (\<lambda>s. s\<lparr>recvpkt_list := ps\<rparr>) st))
   }"

text \<open>What follows the delay of 100 ms, before which only \<^verbatim>\<open>at_dev_ops\<close> is tested.\<close>

definition at_closesocket :: "int \<Rightarrow> at_net \<Rightarrow> (int \<times> at_net) option" where
  "at_closesocket sk st =
     (case at_dev_ops st of
        None \<Rightarrow> Some (-1, st)
      | Some ops \<Rightarrow>
          (case at_get_socket sk st of
             None \<Rightarrow> Some (-1, st)
           | Some n \<Rightarrow>
               (let last_state = sock_state (sock_at st n);
                    st = upd_sock n (\<lambda>s. s\<lparr>sock_state := AT_SOCKET_CLOSED\<rparr>) st
                in if last_state = AT_SOCKET_CONNECT
                   then (let r = op_closesocket ops (drv_calls st) sk; st = called (Drv_close sk) st
                         in map_option (Pair (if r \<noteq> 0 then -1 else 0)) (free_socket n st))
                   else map_option (Pair 0) (free_socket n st))))"

definition at_shutdown :: "int \<Rightarrow> at_net \<Rightarrow> (int \<times> at_net) option" where
  "at_shutdown sk st =
     (case at_dev_ops st of
        None \<Rightarrow> Some (-1, st)
      | Some ops \<Rightarrow>
          (case at_get_socket sk st of
             None \<Rightarrow> Some (-1, st)
           | Some n \<Rightarrow>
               (if sock_state (sock_at st n) = AT_SOCKET_CONNECT
                then (let r = op_closesocket ops (drv_calls st) sk; st = called (Drv_close sk) st
                      in map_option (Pair (if r \<noteq> 0 then -1 else 0)) (free_socket n st))
                else map_option (Pair 0) (free_socket n st))))"

definition at_bind :: "int \<Rightarrow> at_net \<Rightarrow> int" where
  "at_bind sk st = (if at_get_socket sk st = None then -1 else 0)"

subsection \<open>Addresses\<close>

definition HTONS_PORT :: "u16 \<Rightarrow> u16" where
  "HTONS_PORT x = ucast (push_bit 8 (ucast x AND (0x00ff :: u32)) OR drop_bit 8 (ucast x AND (0xff00 :: u32)))"

definition socketaddr_to_ipaddr_port :: "sockaddr \<Rightarrow> u32 \<times> u16" where
  "socketaddr_to_ipaddr_port a = (sin_addr a, HTONS_PORT (sin_port a))"

text \<open>\<^verbatim>\<open>%u\<close> of the bytes of the address, in the order in which they lie in memory; \<open>ipstr\<close> is 16 zero bytes.\<close>

fun dec :: "nat \<Rightarrow> byte list" where
  "dec n = (if n < 10 then [0x30 + of_nat n] else dec (n div 10) @ [0x30 + of_nat (n mod 10)])"

declare dec.simps [simp del]

definition ip_text :: "u32 \<Rightarrow> byte list" where
  "ip_text a = (let q = map (dec \<circ> unat) (split32 a) in q ! 0 @ [0x2E] @ q ! 1 @ [0x2E] @ q ! 2 @ [0x2E] @ q ! 3)"

definition ipaddr_to_ipstr :: "u32 \<Rightarrow> mem option" where
  "ipaddr_to_ipstr a = poke (replicate 16 (Some 0)) 0 (take 15 (ip_text a) @ [0])"

subsection \<open>Callbacks of the driver\<close>

definition at_recv_notice_cb :: "bool \<Rightarrow> int \<Rightarrow> byte list option \<Rightarrow> u32 \<Rightarrow> at_net \<Rightarrow> at_net option" where
  "at_recv_notice_cb ok_calloc sk buff bfsz st =
     (case buff of
        None \<Rightarrow> None
      | Some b \<Rightarrow>
          (if bfsz = 0 then None
           else case at_get_socket sk st of
                  None \<Rightarrow> Some st
                | Some n \<Rightarrow>
                    (if \<not> recv_lock (sock_at st n) then None
                     else (let st = upd_sock n (\<lambda>s. s\<lparr>recvpkt_list := snd (at_recvpkt_put ok_calloc b bfsz (recvpkt_list s))\<rparr>) st
                           in case recv_notice (sock_at st n) of
                                None \<Rightarrow> None
                              | Some v \<Rightarrow> Some (upd_sock n (at_do_event_changes AT_EVENT_RECV True)
                                            (upd_sock n (\<lambda>s. s\<lparr>recv_notice := Some (v + 1)\<rparr>) st))))))"

definition at_closed_notice_cb :: "int \<Rightarrow> at_net \<Rightarrow> at_net option" where
  "at_closed_notice_cb sk st =
     (case at_get_socket sk st of
        None \<Rightarrow> Some st
      | Some n \<Rightarrow>
          (let st = upd_sock n (at_do_event_changes AT_EVENT_RECV True) st;
               st = upd_sock n (at_do_event_changes AT_EVENT_ERROR True) st;
               st = upd_sock n (\<lambda>s. s\<lparr>sock_state := AT_SOCKET_CLOSED\<rparr>) st
           in case recv_notice (sock_at st n) of
                None \<Rightarrow> None
              | Some v \<Rightarrow> Some (upd_sock n (\<lambda>s. s\<lparr>recv_notice := Some (v + 1)\<rparr>) st)))"

subsection \<open>Connecting, receiving and sending\<close>

text \<open>The code at \<^verbatim>\<open>__exit\<close> counts an error with the socket pointer, null or not.\<close>

definition fail_exit :: "nat option \<Rightarrow> at_net \<Rightarrow> at_net option" where
  "fail_exit sock st = (case sock of None \<Rightarrow> None | Some n \<Rightarrow> Some (upd_sock n (at_do_event_changes AT_EVENT_ERROR True) st))"

text \<open>The three places that connect: what the driver answers.\<close>

definition connect_to :: "at_device_ops \<Rightarrow> int \<Rightarrow> nat \<Rightarrow> sockaddr \<Rightarrow> at_net \<Rightarrow> (int \<times> at_net) option" where
  "connect_to ops sk n name st = do {
     let (remote_addr, remote_port) = socketaddr_to_ipaddr_port name;
     ipstr \<leftarrow> ipaddr_to_ipstr (sin_addr name);
     let t = sock_type (sock_at st n);
     Some (op_connect ops (drv_calls st) sk ipstr remote_port t, called (Drv_connect sk ipstr remote_port t) st)
   }"

definition at_connect :: "int \<Rightarrow> sockaddr \<Rightarrow> at_net \<Rightarrow> (int \<times> at_net) option" where
  "at_connect sk name st =
     (case at_dev_ops st of
        None \<Rightarrow> Some (-1, st)
      | Some ops \<Rightarrow>
          (case at_get_socket sk st of
             None \<Rightarrow> map_option (Pair (-1)) (fail_exit None st)
           | Some n \<Rightarrow>
               (if sock_state (sock_at st n) \<noteq> AT_SOCKET_NONE then map_option (Pair (-1)) (fail_exit (Some n) st)
                else do {
                  (r, st) \<leftarrow> connect_to ops sk n name st;
                  if r < 0 then map_option (Pair (-1)) (fail_exit (Some n) st)
                  else Some (0, called (Drv_set_event_cb AT_SOCKET_EVT_CLOSED) (called (Drv_set_event_cb AT_SOCKET_EVT_RECV)
                         (upd_sock n (\<lambda>s. s\<lparr>sock_state := AT_SOCKET_CONNECT\<rparr>) st)))
                })))"

text \<open>A call of \<^verbatim>\<open>at_recvfrom\<close> returns a value, with the bytes written to \<open>mem\<close>, or waits for the
  semaphore of socket \<open>n\<close> with a time-out.\<close>

datatype recv_result = Recv_ret int "byte list" | Recv_waits nat u32

definition recv_fails :: "nat option \<Rightarrow> at_net \<Rightarrow> (recv_result \<times> at_net) option" where
  "recv_fails sock st = map_option (Pair (Recv_ret (-1) [])) (fail_exit sock st)"

definition recv_done :: "nat \<Rightarrow> u32 \<Rightarrow> byte list \<Rightarrow> at_net \<Rightarrow> recv_result \<times> at_net" where
  "recv_done n recv_len out st =
     (Recv_ret (sint recv_len) out, if recv_len \<noteq> 0 then upd_sock n (at_do_event_changes AT_EVENT_RECV False) st else st)"

definition sock_take :: "nat \<Rightarrow> u32 \<Rightarrow> at_net \<Rightarrow> (u32 \<times> byte list \<times> at_net) option" where
  "sock_take n len st =
     (if \<not> recv_lock (sock_at st n) then None
      else do {
        (recv_len, out, ps) \<leftarrow> at_recvpkt_get (freed_intact st) (recvpkt_list (sock_at st n)) len;
        Some (recv_len, out, upd_sock n (\<lambda>s. s\<lparr>recvpkt_list := ps\<rparr>) st)
      })"

text \<open>From the test of the state on, up to the wait.\<close>

definition recv_first :: "nat \<Rightarrow> u32 \<Rightarrow> u32 \<Rightarrow> at_net \<Rightarrow> (recv_result \<times> at_net) option" where
  "recv_first n len flags st =
     (if sock_state (sock_at st n) \<noteq> AT_SOCKET_CONNECT then recv_fails (Some n) st
      else do {
        (recv_len, out, st) \<leftarrow> sock_take n len st;
        Some (if recv_len > 0 \<or> flags AND MSG_DONTWAIT \<noteq> 0 then recv_done n recv_len out st
              else (Recv_waits n (if recv_timeout (sock_at st n) = 0 then WAIT_FOREVER else recv_timeout (sock_at st n)), st))
      })"

definition at_recvfrom :: "bool \<Rightarrow> int \<Rightarrow> u32 \<Rightarrow> u32 \<Rightarrow> sockaddr option \<Rightarrow> at_net \<Rightarrow> (recv_result \<times> at_net) option" where
  "at_recvfrom has_mem sk len flags frm st =
     (if \<not> has_mem \<or> len = 0 then Some (Recv_ret (-1) [], st)
      else case at_dev_ops st of
        None \<Rightarrow> Some (Recv_ret (-1) [], st)
      | Some ops \<Rightarrow>
          (case at_get_socket sk st of
             None \<Rightarrow> recv_fails None st
           | Some n \<Rightarrow>
               (case frm of
                  Some a \<Rightarrow>
                    (if sock_type (sock_at st n) = AT_SOCKET_UDP \<and> sock_state (sock_at st n) = AT_SOCKET_NONE
                     then do {
                       (r, st) \<leftarrow> connect_to ops sk n a st;
                       if r < 0 then recv_fails (Some n) st
                       else recv_first n len flags (upd_sock n (\<lambda>s. s\<lparr>sock_state := AT_SOCKET_CONNECT\<rparr>) st)
                     }
                     else recv_first n len flags st)
                | None \<Rightarrow> recv_first n len flags st)))"

text \<open>One round of the loop, once \<^verbatim>\<open>rt_sem_take\<close> returns: with a unit, or with an error.\<close>

definition recv_round :: "nat \<Rightarrow> u32 \<Rightarrow> u32 \<Rightarrow> at_net \<Rightarrow> (recv_result \<times> at_net) option" where
  "recv_round n timeout len st =
     (case recv_notice (sock_at st n) of
        None \<Rightarrow> None
      | Some 0 \<Rightarrow> Some (Recv_waits n timeout, st)
      | Some (Suc v) \<Rightarrow>
          (let st = upd_sock n (\<lambda>s. s\<lparr>recv_notice := Some v\<rparr>) st
           in if sock_state (sock_at st n) = AT_SOCKET_CONNECT
              then do {
                (recv_len, out, st) \<leftarrow> sock_take n len st;
                Some (if recv_len > 0 then recv_done n recv_len out st else (Recv_waits n timeout, st))
              }
              else recv_fails (Some n) st))"

definition recv_timed_out :: "nat \<Rightarrow> at_net \<Rightarrow> (recv_result \<times> at_net) option" where
  "recv_timed_out n st = recv_fails (Some n) st"

definition at_recv :: "bool \<Rightarrow> int \<Rightarrow> u32 \<Rightarrow> u32 \<Rightarrow> at_net \<Rightarrow> (recv_result \<times> at_net) option" where
  "at_recv has_mem sk len flags st = at_recvfrom has_mem sk len flags None st"

text \<open>Without a driver the pointer is not yet initialised when it is used at \<^verbatim>\<open>__exit\<close>.\<close>

definition send_data :: "at_device_ops \<Rightarrow> nat \<Rightarrow> byte list \<Rightarrow> at_net \<Rightarrow> (int \<times> at_net) option" where
  "send_data ops n data st =
     (let s = sock_at st n;
          len = op_send ops (drv_calls st) (sock_no s) data (sock_type s);
          st = called (Drv_send (sock_no s) data (sock_type s)) st
      in if len < 0 then map_option (Pair (-1)) (fail_exit (Some n) st) else Some (len, st))"

definition at_sendto :: "int \<Rightarrow> byte list option \<Rightarrow> sockaddr option \<Rightarrow> at_net \<Rightarrow> (int \<times> at_net) option" where
  "at_sendto sk data to st =
     (case at_dev_ops st of
        None \<Rightarrow> None
      | Some ops \<Rightarrow>
          (case data of
             None \<Rightarrow> None
           | Some d \<Rightarrow>
               (if d = [] then None
                else case at_get_socket sk st of
                  None \<Rightarrow> map_option (Pair (-1)) (fail_exit None st)
                | Some n \<Rightarrow>
                    (case sock_type (sock_at st n) of
                       AT_SOCKET_TCP \<Rightarrow>
                         (if sock_state (sock_at st n) \<noteq> AT_SOCKET_CONNECT then map_option (Pair (-1)) (fail_exit (Some n) st)
                          else send_data ops n d st)
                     | AT_SOCKET_UDP \<Rightarrow>
                         (case to of
                            Some a \<Rightarrow>
                              (if sock_state (sock_at st n) = AT_SOCKET_NONE
                               then do {
                                 (r, st) \<leftarrow> connect_to ops sk n a st;
                                 if r < 0 then map_option (Pair (-1)) (fail_exit (Some n) st)
                                 else send_data ops n d (upd_sock n (\<lambda>s. s\<lparr>sock_state := AT_SOCKET_CONNECT\<rparr>) st)
                               }
                               else send_data ops n d st)
                          | None \<Rightarrow> send_data ops n d st)
                     | AT_SOCKET_INVALID \<Rightarrow> map_option (Pair (-1)) (fail_exit (Some n) st)))))"

definition at_send :: "int \<Rightarrow> byte list option \<Rightarrow> at_net \<Rightarrow> (int \<times> at_net) option" where
  "at_send sk data st = at_sendto sk data None st"

subsection \<open>Options\<close>

text \<open>\<^verbatim>\<open>struct timeval\<close>, whose fields have 32 bits, signed. In \<^verbatim>\<open>timeout / 1000U\<close> the time-out is
  converted to unsigned.\<close>

record timeval =
  tv_sec :: u32
  tv_usec :: u32

definition to_timeval :: "u32 \<Rightarrow> timeval" where
  "to_timeval timeout = \<lparr>tv_sec = timeout div 1000, tv_usec = (timeout mod 1000) * 1000\<rparr>"

definition of_timeval :: "timeval \<Rightarrow> u32" where
  "of_timeval tv = tv_sec tv * 1000 + of_int (sint (tv_usec tv) sdiv 1000)"

definition at_getsockopt :: "int \<Rightarrow> int \<Rightarrow> int \<Rightarrow> bool \<Rightarrow> at_net \<Rightarrow> int \<times> timeval option" where
  "at_getsockopt sk level optname has_opt st =
     (if \<not> has_opt then (-1, None)
      else case at_get_socket sk st of
        None \<Rightarrow> (-1, None)
      | Some n \<Rightarrow>
          (if level \<noteq> SOL_SOCKET then (-1, None)
           else if optname = SO_RCVTIMEO then (0, Some (to_timeval (recv_timeout (sock_at st n))))
           else if optname = SO_SNDTIMEO then (0, Some (to_timeval (send_timeout (sock_at st n))))
           else (-1, None)))"

definition at_setsockopt :: "int \<Rightarrow> int \<Rightarrow> int \<Rightarrow> timeval option \<Rightarrow> at_net \<Rightarrow> int \<times> at_net" where
  "at_setsockopt sk level optname optval st =
     (case optval of
        None \<Rightarrow> (-1, st)
      | Some tv \<Rightarrow>
          (case at_get_socket sk st of
             None \<Rightarrow> (-1, st)
           | Some n \<Rightarrow>
               (if level = SOL_SOCKET
                then (if optname = SO_RCVTIMEO then (0, upd_sock n (\<lambda>s. s\<lparr>recv_timeout := of_timeval tv\<rparr>) st)
                      else if optname = SO_SNDTIMEO then (0, upd_sock n (\<lambda>s. s\<lparr>send_timeout := of_timeval tv\<rparr>) st)
                      else (-1, st))
                else if level = IPPROTO_TCP then (0, st)
                else (-1, st))))"

end
