(* ===== verification/At_Stream.thy ===== *)
theory At_Stream
  imports At_Socket
begin

text \<open>
  What the socket table and the list of received packets do: reading takes bytes off the front of the
  pending ones, and the calls that do not receive leave the receiving part of a socket alone.
\<close>

subsection \<open>Access to the table\<close>

lemma sock_at_upd [simp]:
  "sock_at (upd_sock n f st) m = (if m = n \<and> n < length (sockets st) then f (sock_at st n) else sock_at st m)"
  by (cases "m = n"; cases "n < length (sockets st)") (simp_all add: sock_at_def upd_sock_def list_update_beyond)

lemma upd_sock_sel [simp]:
  "length (sockets (upd_sock n f st)) = length (sockets st)" "sockets (upd_sock n f st) = [] \<longleftrightarrow> sockets st = []" "at_dev_ops (upd_sock n f st) = at_dev_ops st"
  "freed_intact (upd_sock n f st) = freed_intact st" "drv_calls (upd_sock n f st) = drv_calls st" "at_slock (upd_sock n f st) = at_slock st"
  by (simp_all add: upd_sock_def)

lemma called_sel [simp]:
  "freed_intact (called c st) = freed_intact st" "sockets (called c st) = sockets st" "at_dev_ops (called c st) = at_dev_ops st" "sock_at (called c st) n = sock_at st n"
  by (simp_all add: called_def sock_at_def)

lemma at_get_socket_Some:
  "at_get_socket sk st = Some n \<longleftrightarrow> sk = int n \<and> n < length (sockets st) \<and> magic (sock_at st n) = AT_SOCKET_MAGIC"
  by (auto simp: at_get_socket_def)

lemma at_get_socket_int:
  "at_get_socket (int n) st = (if n < length (sockets st) \<and> magic (sock_at st n) = AT_SOCKET_MAGIC then Some n else None)"
  by (simp add: at_get_socket_def)

lemma event_changes_sel [simp]:
  "magic (at_do_event_changes e b s) = magic s" "recv_lock (at_do_event_changes e b s) = recv_lock s"
  "recv_notice (at_do_event_changes e b s) = recv_notice s" "recvpkt_list (at_do_event_changes e b s) = recvpkt_list s"
  "sock_state (at_do_event_changes e b s) = sock_state s" "sock_no (at_do_event_changes e b s) = sock_no s"
  by (cases e; simp add: at_do_event_changes_def)+

subsection \<open>Reading packets\<close>

definition pkt_ok :: "at_recv_pkt \<Rightarrow> bool" where
  "pkt_ok p \<longleftrightarrow> unat (bfsz_totle p) = length (pkt_buff p) \<and> bfsz_index p < bfsz_totle p"

definition pkt_rest :: "at_recv_pkt \<Rightarrow> byte list" where
  "pkt_rest p = drop (unat (bfsz_index p)) (pkt_buff p)"

definition pending :: "at_recv_pkt list \<Rightarrow> byte list" where
  "pending ps = concat (map pkt_rest ps)"

lemma pending_simps [simp]:
  "pending [] = []" "pending (p # ps) = pkt_rest p @ pending ps" "pending (ps @ qs) = pending ps @ pending qs"
  by (simp_all add: pending_def)

lemma pkt_rest_pos: "pkt_ok p \<Longrightarrow> pkt_rest p \<noteq> []"
  by (simp add: pkt_ok_def pkt_rest_def word_less_nat_alt)

lemma pending_Nil: "\<forall>p \<in> set ps. pkt_ok p \<Longrightarrow> pending ps = [] \<longleftrightarrow> ps = []"
  by (cases ps) (simp_all add: pkt_rest_pos)

lemma pkt_page: "pkt_ok p \<Longrightarrow> unat (bfsz_totle p - bfsz_index p) = length (pkt_rest p)"
  by (simp add: pkt_ok_def pkt_rest_def unat_sub less_imp_le)

lemma copy_pkt_ok:
  assumes "pkt_ok p" "unat n \<le> length (pkt_rest p)" "unat pos + unat n \<le> unat len" "length out = unat pos"
  shows "copy_pkt len pos p n out = Some (out @ take (unat n) (pkt_rest p))"
proof -
  have "unat (bfsz_index p) < length (pkt_buff p)" using assms(1) by (simp add: pkt_ok_def word_less_nat_alt)
  then have "unat (bfsz_index p) + unat n \<le> length (pkt_buff p)" using assms(2) by (simp add: pkt_rest_def)
  then show ?thesis using assms(3,4) by (simp add: copy_pkt_def pkt_rest_def)
qed

lemma recvpkt_loop_ok:
  assumes "\<forall>p \<in> set ps. pkt_ok p" "pos < len" "length out = unat pos"
  shows "\<exists>ps'. recvpkt_loop True len pos out ps = Some
      (of_nat (unat pos + length (take (unat len - unat pos) (pending ps))), out @ take (unat len - unat pos) (pending ps), ps') \<and>
    pending ps' = drop (unat len - unat pos) (pending ps) \<and> (\<forall>p \<in> set ps'. pkt_ok p)"
  using assms
proof (induction ps arbitrary: pos out)
  case Nil
  then show ?case by simp
next
  case (Cons p ps)
  have p: "pkt_ok p" and ps: "\<forall>p \<in> set ps. pkt_ok p" using Cons.prems(1) by simp_all
  let ?page = "bfsz_totle p - bfsz_index p"
  have pos: "unat pos < unat len" using Cons.prems(2) by (simp add: word_less_nat_alt)
  have left: "unat (len - pos) = unat len - unat pos" using Cons.prems(2) by (simp add: unat_sub less_imp_le)
  note page = pkt_page [OF p]
  show ?case
  proof (cases "?page \<ge> len - pos")
    case True
    then have le: "unat len - unat pos \<le> length (pkt_rest p)" using left page by (simp add: word_le_nat_alt)
    have c: "copy_pkt len pos p (len - pos) out = Some (out @ take (unat len - unat pos) (pkt_rest p))"
      using copy_pkt_ok [OF p, of "len - pos" pos len out] le left pos Cons.prems(3) by simp
    let ?i = "bfsz_index p + (len - pos)"
    have i: "unat ?i = unat (bfsz_index p) + (unat len - unat pos)"
    proof -
      have "unat (bfsz_index p) + unat (len - pos) \<le> unat (bfsz_totle p)"
        using le left p by (auto simp: word_less_nat_alt pkt_ok_def pkt_rest_def)
      also have "\<dots> < 2 ^ 32" using unsigned_less [of "bfsz_totle p", where ?'a = nat] by simp
      finally show ?thesis using left by (simp add: unat_word_ariths)
    qed
    have tot: "unat (bfsz_totle p) = unat (bfsz_index p) + length (pkt_rest p)"
      using p by (simp add: pkt_ok_def pkt_rest_def word_less_nat_alt)
    have n: "of_nat (unat len) = len" by simp
    show ?thesis
    proof (cases "?i = bfsz_totle p")
      case eq: True
      then have "length (pkt_rest p) = unat len - unat pos" using i tot by simp
      then show ?thesis using True c eq n pos ps by (simp add: Let_def)
    next
      case neq: False
      then have lt: "unat ?i < unat (bfsz_totle p)" using i tot le by (metis add_le_cancel_left le_neq_implies_less word_unat_eq_iff)
      then have ok: "pkt_ok (p\<lparr>bfsz_index := ?i\<rparr>)" using p by (simp add: pkt_ok_def word_less_nat_alt)
      have "pkt_rest (p\<lparr>bfsz_index := ?i\<rparr>) = drop (unat len - unat pos) (pkt_rest p)"
        by (simp add: pkt_rest_def i add.commute)
      then show ?thesis using True c neq n pos ps ok le by (simp add: Let_def min_absorb2)
    qed
  next
    case False
    then have lt: "length (pkt_rest p) < unat len - unat pos" using left page by (simp add: word_le_nat_alt)
    have c: "copy_pkt len pos p ?page out = Some (out @ pkt_rest p)"
      using copy_pkt_ok [OF p, of ?page pos len out] lt page Cons.prems(3) by simp
    have sum: "unat pos + length (pkt_rest p) < 2 ^ 32" using lt unsigned_less [of len, where ?'a = nat] by simp
    then have pos': "unat (pos + ?page) = unat pos + length (pkt_rest p)" by (simp add: unat_word_ariths page)
    have 1: "pos + ?page < len" using pos' lt by (simp add: word_less_nat_alt)
    have 2: "length (out @ pkt_rest p) = unat (pos + ?page)" using pos' Cons.prems(3) by simp
    have d: "unat len - unat (pos + ?page) = unat len - unat pos - length (pkt_rest p)" using pos' by simp
    from Cons.IH [OF ps 1 2] obtain ps' where
      "recvpkt_loop True len (pos + ?page) (out @ pkt_rest p) ps = Some
         (of_nat (unat (pos + ?page) + length (take (unat len - unat (pos + ?page)) (pending ps))),
          (out @ pkt_rest p) @ take (unat len - unat (pos + ?page)) (pending ps), ps')"
      "pending ps' = drop (unat len - unat (pos + ?page)) (pending ps)" "\<forall>p \<in> set ps'. pkt_ok p" by blast
    then show ?thesis using False c lt unfolding d pos' by (simp add: Let_def add.assoc)
  qed
qed

lemma at_recvpkt_get_ok:
  assumes "\<forall>p \<in> set ps. pkt_ok p" "0 < len"
  shows "\<exists>ps'. at_recvpkt_get True ps len = Some (of_nat (length (take (unat len) (pending ps))), take (unat len) (pending ps), ps') \<and>
    pending ps' = drop (unat len) (pending ps) \<and> (\<forall>p \<in> set ps'. pkt_ok p)"
  using recvpkt_loop_ok [OF assms, of "[]"] by (simp add: at_recvpkt_get_def)

subsection \<open>The receiving part of a socket\<close>

definition rx_ok :: "at_sock \<Rightarrow> bool" where
  "rx_ok s \<longleftrightarrow> magic s = AT_SOCKET_MAGIC \<and> recv_lock s \<and> recv_notice s \<noteq> None \<and> (\<forall>p \<in> set (recvpkt_list s). pkt_ok p)"

definition rx_same :: "nat \<Rightarrow> at_net \<Rightarrow> at_net \<Rightarrow> bool" where
  "rx_same n st st' \<longleftrightarrow> length (sockets st') = length (sockets st) \<and> freed_intact st' = freed_intact st \<and>
     magic (sock_at st' n) = magic (sock_at st n) \<and> recv_lock (sock_at st' n) = recv_lock (sock_at st n) \<and>
     recv_notice (sock_at st' n) = recv_notice (sock_at st n) \<and> recvpkt_list (sock_at st' n) = recvpkt_list (sock_at st n)"

lemma rx_same_refl [simp]: "rx_same n st st" and rx_same_trans: "rx_same n st st1 \<Longrightarrow> rx_same n st1 st2 \<Longrightarrow> rx_same n st st2"
  by (simp_all add: rx_same_def)

lemma rx_same_simps [simp]:
  "rx_same n (called c st) st' = rx_same n st st'" "rx_same n st (called c st') = rx_same n st st'"
  "rx_same n st (upd_sock m (at_do_event_changes e b) st') = rx_same n st st'"
  "rx_same n st (upd_sock m (\<lambda>s. s\<lparr>sock_state := x\<rparr>) st') = rx_same n st st'"
  "rx_same n (upd_sock m (\<lambda>s. s\<lparr>sock_state := x\<rparr>) st) st' = rx_same n st st'"
  by (auto simp: rx_same_def)

lemma fail_exit_same: "fail_exit sock st = Some st' \<Longrightarrow> rx_same n st st'"
  by (auto simp: fail_exit_def split: option.splits)

lemma connect_to_same: "connect_to ops sk m a st = Some (r, st') \<Longrightarrow> rx_same n st st'"
  by (auto simp: connect_to_def Let_def case_prod_beta split: bind_splits)

lemma at_connect_same: "at_connect sk a st = Some (r, st') \<Longrightarrow> rx_same n st st'"
  by (auto simp: at_connect_def split: option.splits if_splits bind_splits dest!: fail_exit_same [where n = n] connect_to_same [where n = n]
      intro: rx_same_trans)

lemma send_data_same: "send_data ops m d st = Some (r, st') \<Longrightarrow> rx_same n st st'"
  by (auto simp: send_data_def Let_def split: if_splits dest!: fail_exit_same [where n = n])

lemma at_sendto_same: "at_sendto sk data to st = Some (r, st') \<Longrightarrow> rx_same n st st'"
  by (auto simp: at_sendto_def split: option.splits if_splits bind_splits at_socket_type.splits
      dest!: fail_exit_same [where n = n] connect_to_same [where n = n] send_data_same [where n = n]; blast intro: rx_same_trans)

lemma at_closed_notice_cb_rx:
  assumes "at_closed_notice_cb (int n) st = Some st'" "n < length (sockets st)" "rx_ok (sock_at st n)"
  shows "length (sockets st') = length (sockets st)" "freed_intact st' = freed_intact st" "rx_ok (sock_at st' n)"
    "recvpkt_list (sock_at st' n) = recvpkt_list (sock_at st n)" "recv_notice (sock_at st' n) \<noteq> Some 0"
  using assms by (auto simp: at_closed_notice_cb_def at_get_socket_def rx_ok_def Let_def)

lemma at_recv_notice_cb_rx:
  assumes "at_recv_notice_cb ok (int n) (Some b) (of_nat (length b)) st = Some st'" "n < length (sockets st)"
    "rx_ok (sock_at st n)" "length b < 2 ^ 32"
  shows "length (sockets st') = length (sockets st)" "freed_intact st' = freed_intact st" "rx_ok (sock_at st' n)"
    "pending (recvpkt_list (sock_at st' n)) = pending (recvpkt_list (sock_at st n)) @ (if ok then b else [])"
    "recv_notice (sock_at st' n) \<noteq> Some 0"
proof -
  have b: "unat (of_nat (length b) :: u32) = length b" using assms(4) by (simp add: unat_of_nat)
  have nz: "of_nat (length b) \<noteq> (0 :: u32)" using assms(1) by (auto simp: at_recv_notice_cb_def)
  then have p: "pkt_ok \<lparr>bfsz_totle = of_nat (length b), bfsz_index = 0, pkt_buff = b\<rparr>"
    by (simp add: pkt_ok_def b word_neq_0_conv)
  obtain v where v: "recv_notice (sock_at st n) = Some v" using assms(3) by (auto simp: rx_ok_def)
  have st': "st' = upd_sock n (at_do_event_changes AT_EVENT_RECV True) (upd_sock n (\<lambda>s. s\<lparr>recv_notice := Some (v + 1)\<rparr>)
      (upd_sock n (\<lambda>s. s\<lparr>recvpkt_list := snd (at_recvpkt_put ok b (of_nat (length b)) (recvpkt_list s))\<rparr>) st))"
    using assms(1-3) nz v by (simp add: at_recv_notice_cb_def at_get_socket_def rx_ok_def Let_def)
  show "length (sockets st') = length (sockets st)" "freed_intact st' = freed_intact st" "rx_ok (sock_at st' n)"
    "pending (recvpkt_list (sock_at st' n)) = pending (recvpkt_list (sock_at st n)) @ (if ok then b else [])"
    "recv_notice (sock_at st' n) \<noteq> Some 0"
    using assms(2,3) p by (auto simp: st' rx_ok_def at_recvpkt_put_def pkt_rest_def)
qed

subsection \<open>Receiving\<close>

definition recv_bytes :: "recv_result \<Rightarrow> byte list" where
  "recv_bytes r = (case r of Recv_ret _ bs \<Rightarrow> bs | Recv_waits _ _ \<Rightarrow> [])"

definition recv_waiting :: "recv_result \<Rightarrow> bool" where
  "recv_waiting r = (case r of Recv_ret _ _ \<Rightarrow> False | Recv_waits _ _ \<Rightarrow> True)"

text \<open>What a receiving step does to socket \<open>n\<close>: the bytes that it returns are the first pending ones, and a
  step that found nothing to return has found nothing pending.\<close>

definition rx_taken :: "nat \<Rightarrow> byte list \<Rightarrow> at_net \<Rightarrow> at_net \<Rightarrow> bool" where
  "rx_taken n out st st' \<longleftrightarrow> length (sockets st') = length (sockets st) \<and> freed_intact st' = freed_intact st \<and> rx_ok (sock_at st' n) \<and>
     pending (recvpkt_list (sock_at st n)) = out @ pending (recvpkt_list (sock_at st' n))"

lemma rx_taken_same: "rx_same n st st' \<Longrightarrow> rx_ok (sock_at st n) \<Longrightarrow> rx_taken n [] st st'"
  by (simp add: rx_taken_def rx_same_def rx_ok_def)

lemma rx_taken_after: "rx_same n st st1 \<Longrightarrow> rx_taken n out st1 st' \<Longrightarrow> rx_taken n out st st'"
  by (simp add: rx_taken_def rx_same_def)

lemma recv_fails_taken: "recv_fails sock st = Some (r, st') \<Longrightarrow> rx_ok (sock_at st n) \<Longrightarrow>
    rx_taken n (recv_bytes r) st st' \<and> \<not> recv_waiting r"
  by (auto simp: recv_fails_def recv_bytes_def recv_waiting_def rx_taken_same dest!: fail_exit_same [where n = n])

lemma sock_take_ok:
  assumes "rx_ok (sock_at st n)" "n < length (sockets st)" "0 < len" "freed_intact st"
  defines "out \<equiv> take (unat len) (pending (recvpkt_list (sock_at st n)))"
  shows "\<exists>st'. sock_take n len st = Some (of_nat (length out), out, st') \<and> rx_taken n out st st' \<and>
    recv_timeout (sock_at st' n) = recv_timeout (sock_at st n) \<and>
    ((of_nat (length out) :: u32) = 0 \<longleftrightarrow> out = []) \<and> (out = [] \<longleftrightarrow> pending (recvpkt_list (sock_at st n)) = [])"
proof -
  have "length out < 2 ^ 32" using unsigned_less [of len, where ?'a = nat] by (simp add: out_def min_less_iff_disj)
  then have "unat (of_nat (length out) :: u32) = length out" by (simp add: unat_of_nat)
  then have 1: "(of_nat (length out) :: u32) = 0 \<longleftrightarrow> out = []" by (metis length_0_conv unat_eq_zero)
  have 2: "out = [] \<longleftrightarrow> pending (recvpkt_list (sock_at st n)) = []"
    using assms(3) by (simp add: out_def word_less_nat_alt)
  from at_recvpkt_get_ok [OF _ assms(3), of "recvpkt_list (sock_at st n)"] assms(1) obtain ps' where
    "at_recvpkt_get True (recvpkt_list (sock_at st n)) len = Some (of_nat (length out), out, ps')"
    "pending ps' = drop (unat len) (pending (recvpkt_list (sock_at st n)))" "\<forall>p \<in> set ps'. pkt_ok p"
    unfolding out_def rx_ok_def by blast
  then show ?thesis using assms(1,2,4) 1 2
    by (auto simp: sock_take_def rx_ok_def rx_taken_def out_def)
qed

lemma recv_done_taken:
  assumes "rx_taken n out st st1" "recv_done n k out st1 = (r, st')"
  shows "rx_taken n (recv_bytes r) st st'" "\<not> recv_waiting r"
  using assms by (auto simp: recv_done_def recv_bytes_def recv_waiting_def rx_taken_def rx_ok_def split: if_splits)

lemma recv_first_taken:
  assumes "rx_ok (sock_at st n)" "n < length (sockets st)" "0 < len" "recv_first n len flags st = Some (r, st')"
    and i: "freed_intact st"
  shows "rx_taken n (recv_bytes r) st st' \<and> (recv_waiting r \<longrightarrow> pending (recvpkt_list (sock_at st' n)) = [])"
proof (cases "sock_state (sock_at st n) = AT_SOCKET_CONNECT")
  case True
  let ?out = "take (unat len) (pending (recvpkt_list (sock_at st n)))"
  from sock_take_ok [OF assms(1-3) i] obtain st1 where t: "sock_take n len st = Some (of_nat (length ?out), ?out, st1)"
    "rx_taken n ?out st st1" "(of_nat (length ?out) :: u32) = 0 \<longleftrightarrow> ?out = []"
    "?out = [] \<longleftrightarrow> pending (recvpkt_list (sock_at st n)) = []" by blast
  show ?thesis
  proof (cases "(of_nat (length ?out) :: u32) > 0 \<or> flags AND MSG_DONTWAIT \<noteq> 0")
    case full: True
    then have "recv_done n (of_nat (length ?out)) ?out st1 = (r, st')" using assms(4) True t(1) by (simp add: recv_first_def)
    from recv_done_taken [OF t(2) this] show ?thesis by simp
  next
    case False
    then have e: "?out = []" using t(3) word_neq_0_conv by blast
    then have "recv_bytes r = []" "st' = st1" using assms(4) True False t(1)
      by (auto simp: recv_first_def recv_bytes_def split: if_splits)
    then show ?thesis using t(2,4) e by (simp add: rx_taken_def)
  qed
next
  case False
  then show ?thesis using recv_fails_taken [OF _ assms(1)] assms(4) by (auto simp: recv_first_def)
qed

lemma at_recvfrom_taken:
  assumes "rx_ok (sock_at st n)" "n < length (sockets st)" "at_recvfrom True (int n) len flags frm st = Some (r, st')"
    and i: "freed_intact st"
  shows "rx_taken n (recv_bytes r) st st' \<and> (recv_waiting r \<longrightarrow> pending (recvpkt_list (sock_at st' n)) = [])"
proof (cases "len = 0 \<or> at_dev_ops st = None")
  case True
  then show ?thesis using assms by (cases "len = 0") (auto simp: at_recvfrom_def recv_bytes_def recv_waiting_def rx_taken_same)
next
  case False
  then obtain ops where ops: "at_dev_ops st = Some ops" and len: "0 < len" by (auto simp: word_neq_0_conv)
  have g: "at_get_socket (int n) st = Some n" using assms(1,2) by (simp add: at_get_socket_Some rx_ok_def)
  show ?thesis
  proof (cases "\<exists>a. frm = Some a \<and> sock_type (sock_at st n) = AT_SOCKET_UDP \<and> sock_state (sock_at st n) = AT_SOCKET_NONE")
    case True
    then obtain a r1 st1 where c: "connect_to ops (int n) n a st = Some (r1, st1)"
      and rest: "(if r1 < 0 then recv_fails (Some n) st1
         else recv_first n len flags (upd_sock n (\<lambda>s. s\<lparr>sock_state := AT_SOCKET_CONNECT\<rparr>) st1)) = Some (r, st')"
      using assms(3) False ops g by (auto simp: at_recvfrom_def split: bind_splits)
    note s = connect_to_same [OF c, of n]
    have ok: "rx_ok (sock_at st1 n)" "n < length (sockets st1)" using s assms(1,2) by (simp_all add: rx_same_def rx_ok_def)
    show ?thesis
    proof (cases "r1 < 0")
      case True
      then show ?thesis using rest recv_fails_taken [OF _ ok(1)] rx_taken_after [OF s] by auto
    next
      case False
      let ?st = "upd_sock n (\<lambda>s. s\<lparr>sock_state := AT_SOCKET_CONNECT\<rparr>) st1"
      have "rx_same n st ?st" using s by simp
      then have a: "rx_taken n out ?st st' \<Longrightarrow> rx_taken n out st st'" for out by (rule rx_taken_after)
      have ok': "rx_ok (sock_at ?st n)" "n < length (sockets ?st)" using ok by (simp_all add: rx_ok_def)
      from rest False have "recv_first n len flags ?st = Some (r, st')" by simp
      moreover have "freed_intact ?st" using s i by (simp add: rx_same_def)
      ultimately show ?thesis using a recv_first_taken [OF ok' len] by blast
    qed
  next
    case False
    then have "recv_first n len flags st = Some (r, st')"
      using assms(3) len ops g by (auto simp: at_recvfrom_def split: option.splits if_splits)
    then show ?thesis using i by (rule recv_first_taken [OF assms(1,2) len])
  qed
qed

lemma recv_round_taken:
  assumes "rx_ok (sock_at st n)" "n < length (sockets st)" "0 < len" "recv_round n timeout len st = Some (r, st')"
    "recv_notice (sock_at st n) = Some 0 \<longrightarrow> pending (recvpkt_list (sock_at st n)) = []"
    and i: "freed_intact st"
  shows "rx_taken n (recv_bytes r) st st' \<and> (recv_waiting r \<longrightarrow> pending (recvpkt_list (sock_at st' n)) = [])"
proof -
  obtain v where v: "recv_notice (sock_at st n) = Some v" using assms(1) by (auto simp: rx_ok_def)
  show ?thesis
  proof (cases v)
    case 0
    then show ?thesis using assms(1,4,5) v by (auto simp: recv_round_def recv_bytes_def recv_waiting_def rx_taken_same)
  next
    case (Suc k)
    let ?st = "upd_sock n (\<lambda>s. s\<lparr>recv_notice := Some k\<rparr>) st"
    have ok: "rx_ok (sock_at ?st n)" "n < length (sockets ?st)" using assms(1,2) by (simp_all add: rx_ok_def)
    have i': "freed_intact ?st" using i by simp
    have rr: "recv_round n timeout len st = do {
        (recv_len, out, st) \<leftarrow> sock_take n len ?st;
        Some (if recv_len > 0 then recv_done n recv_len out st else (Recv_waits n timeout, st))
      }" if "sock_state (sock_at st n) = AT_SOCKET_CONNECT"
      using that by (simp add: recv_round_def v Suc Let_def assms(2))
    have before: "rx_taken n out ?st st2 \<Longrightarrow> rx_taken n out st st2" for out st2
      using assms(2) by (simp add: rx_taken_def)
    show ?thesis
    proof (cases "sock_state (sock_at st n) = AT_SOCKET_CONNECT")
      case True
      let ?out = "take (unat len) (pending (recvpkt_list (sock_at ?st n)))"
      from sock_take_ok [OF ok assms(3) i'] obtain st1 where t: "sock_take n len ?st = Some (of_nat (length ?out), ?out, st1)"
        "rx_taken n ?out ?st st1" "(of_nat (length ?out) :: u32) = 0 \<longleftrightarrow> ?out = []"
        "?out = [] \<longleftrightarrow> pending (recvpkt_list (sock_at ?st n)) = []" by blast
      show ?thesis
      proof (cases "?out = []")
        case e: True
        then have z: "(of_nat (length ?out) :: u32) = 0" using t(3) by blast
        have "recv_round n timeout len st = Some (Recv_waits n timeout, st1)"
          unfolding rr [OF True] t(1) z by simp
        then have "r = Recv_waits n timeout" "st' = st1" using assms(4) by simp_all
        have "rx_taken n [] ?st st1" using t(2) unfolding e .
        moreover from this have "pending (recvpkt_list (sock_at st1 n)) = []" using t(4) e unfolding rx_taken_def by simp
        ultimately show ?thesis using before \<open>r = Recv_waits n timeout\<close> \<open>st' = st1\<close>
          unfolding recv_bytes_def by simp
      next
        case False
        then have z: "(of_nat (length ?out) :: u32) > 0" using t(3) word_neq_0_conv by blast
        have "recv_round n timeout len st = Some (recv_done n (of_nat (length ?out)) ?out st1)"
          unfolding rr [OF True] t(1) bind.bind_lunit prod.case if_P [OF z] ..
        then have "recv_done n (of_nat (length ?out)) ?out st1 = (r, st')" using assms(4) by simp
        from recv_done_taken [OF t(2) this] show ?thesis using before by blast
      qed
    next
      case False
      then have "recv_fails (Some n) ?st = Some (r, st')" using assms(4) v Suc by (simp add: recv_round_def Let_def assms(2))
      from recv_fails_taken [OF this ok(1)] show ?thesis using before by blast
    qed
  qed
qed

text \<open>While freed memory is intact a receiving call is defined: every copy stays inside its buffers.\<close>

lemma recv_first_defined:
  assumes "rx_ok (sock_at st n)" "n < length (sockets st)" "0 < len" "freed_intact st"
  shows "recv_first n len flags st \<noteq> None"
proof -
  obtain st1 where "sock_take n len st = Some (of_nat (length (take (unat len) (pending (recvpkt_list (sock_at st n))))),
      take (unat len) (pending (recvpkt_list (sock_at st n))), st1)"
    using sock_take_ok [OF assms] by blast
  then show ?thesis by (simp add: recv_first_def recv_fails_def fail_exit_def)
qed

lemma at_recvfrom_defined:
  assumes "rx_ok (sock_at st n)" "n < length (sockets st)" "freed_intact st"
  shows "at_recvfrom True (int n) len flags None st \<noteq> None"
proof (cases "len = 0")
  case False
  then have "0 < len" by (simp add: word_neq_0_conv)
  moreover have "at_get_socket (int n) st = Some n" using assms(1,2) by (simp add: at_get_socket_Some rx_ok_def)
  ultimately show ?thesis using recv_first_defined [OF assms(1,2) _ assms(3), of len flags]
    by (simp add: at_recvfrom_def split: option.split)
qed (simp add: at_recvfrom_def)

end
