(* ===== verification/At_Resolve.thy ===== *)
theory At_Resolve
  imports At_Socket
begin

text \<open>
  Names and addresses of the AT sockets (\<^verbatim>\<open>at_socket.c\<close>): the address parser, \<^verbatim>\<open>at_gethostbyname\<close> and
  \<^verbatim>\<open>at_getaddrinfo\<close>. Strings that the caller passes are lists of characters without the 0; a local
  buffer is a memory block, of which only bytes inside may be read. \<^verbatim>\<open>inet_aton\<close>, a function of the
  network stack, is a parameter. \<^verbatim>\<open>at_freeaddrinfo\<close> only frees and is left out.
\<close>

definition isspace :: "byte \<Rightarrow> bool" where
  "isspace c = (c = 0x20 \<or> 0x09 \<le> c \<and> c \<le> 0x0D)"

definition isdigit :: "byte \<Rightarrow> bool" where
  "isdigit c = (0x30 \<le> c \<and> c \<le> 0x39)"

definition isalpha :: "byte \<Rightarrow> bool" where
  "isalpha c = (0x41 \<le> c \<and> c \<le> 0x5A \<or> 0x61 \<le> c \<and> c \<le> 0x7A)"

fun skip_spaces :: "mem \<Rightarrow> mem option" where
  "skip_spaces (Some c # m) = (if isspace c then skip_spaces m else Some (Some c # m))"
| "skip_spaces _ = None"

fun atol_digits :: "u32 \<Rightarrow> mem \<Rightarrow> u32 option" where
  "atol_digits tot (Some c # m) =
     (if isdigit c then atol_digits (10 * tot + (ucast c - 0x30)) m else Some tot)"
| "atol_digits tot _ = None"

definition ipstr_atol :: "mem \<Rightarrow> u32 option" where
  "ipstr_atol nptr = do {
     m \<leftarrow> skip_spaces nptr;
     c \<leftarrow> peek m 0;
     let sign = (if c = 0x2D \<or> c = 0x2B then c else 0x2B);
     tot \<leftarrow> atol_digits 0 (if c = 0x2D \<or> c = 0x2B then tl m else m);
     Some (if sign = 0x2D then - tot else tot)
   }"

text \<open>\<^verbatim>\<open>strchr(ipstr, '.')\<close>: the rest of the block from the dot on, or no dot.\<close>

fun strchr_dot :: "mem \<Rightarrow> mem option option" where
  "strchr_dot (Some c # m) =
     (if c = 0x2E then Some (Some (Some c # m)) else if c = 0 then Some None else strchr_dot m)"
| "strchr_dot _ = None"

text \<open>The loop of \<^verbatim>\<open>ipstr_to_u32\<close> with \<open>n\<close> bytes left to fill; the others stay 0.\<close>

fun ip_bytes :: "nat \<Rightarrow> mem \<Rightarrow> byte list option" where
  "ip_bytes 0 m = Some []"
| "ip_bytes (Suc n) m = do {
     v \<leftarrow> ipstr_atol m;
     d \<leftarrow> strchr_dot m;
     case d of
       None \<Rightarrow> Some (ucast v # replicate n 0)
     | Some m \<Rightarrow> map_option (Cons (ucast v)) (ip_bytes n (tl m))
   }"

definition ipstr_to_u32 :: "mem \<Rightarrow> u32 option" where
  "ipstr_to_u32 ipstr = map_option join32 (ip_bytes 4 ipstr)"

abbreviation DNS_MAX_NAME_LENGTH :: nat where "DNS_MAX_NAME_LENGTH \<equiv> 256"

text \<open>The address of a name, with the driver's answer if there is a letter in it and otherwise copied
  with \<^verbatim>\<open>strncpy(ipstr, name, strlen(name))\<close>, which writes no 0. The test of the answer is \<^verbatim>\<open>< 0\<close>
  in \<^verbatim>\<open>at_gethostbyname\<close> and \<^verbatim>\<open>!= 0\<close> in \<^verbatim>\<open>at_getaddrinfo\<close>.\<close>

definition resolve :: "(int \<Rightarrow> bool) \<Rightarrow> at_device_ops \<Rightarrow> byte list \<Rightarrow> at_net \<Rightarrow> (u32 option \<times> at_net) option" where
  "resolve failed ops name st =
     (let ipstr = replicate 16 (Some 0)
      in if \<exists>c \<in> set name. isalpha c
         then (let (r, ipstr) = op_resolve ops (drv_calls st) name ipstr; st = called (Drv_resolve name) st
               in if failed r then Some (None, st) else map_option (\<lambda>a. (Some a, st)) (ipstr_to_u32 ipstr))
         else do {
           ipstr \<leftarrow> poke ipstr 0 name;
           map_option (\<lambda>a. (Some a, st)) (ipstr_to_u32 ipstr)
         })"

text \<open>Of \<^verbatim>\<open>struct hostent\<close> the name and the address, the other fields being constants.\<close>

definition at_gethostbyname :: "byte list option \<Rightarrow> at_net \<Rightarrow> ((byte list \<times> u32) option \<times> at_net) option" where
  "at_gethostbyname name st =
     (case name of
        None \<Rightarrow> Some (None, st)
      | Some nm \<Rightarrow>
          (case at_dev_ops st of
             None \<Rightarrow> Some (None, st)
           | Some ops \<Rightarrow>
               map_option (\<lambda>(a, st). (map_option (Pair (take DNS_MAX_NAME_LENGTH nm)) a, st))
                 (resolve (\<lambda>r. r < 0) ops nm st)))"

abbreviation EAI_NONAME :: int where "EAI_NONAME \<equiv> 200"
abbreviation EAI_SERVICE :: int where "EAI_SERVICE \<equiv> 201"
abbreviation EAI_FAIL :: int where "EAI_FAIL \<equiv> 202"
abbreviation EAI_MEMORY :: int where "EAI_MEMORY \<equiv> 203"
abbreviation EAI_FAMILY :: int where "EAI_FAMILY \<equiv> 204"
abbreviation AF_UNSPEC :: int where "AF_UNSPEC \<equiv> 0"
abbreviation AI_NUMERICHOST :: u32 where "AI_NUMERICHOST \<equiv> 0x04"

record addrinfo =
  ai_flags :: u32
  ai_family :: int
  ai_socktype :: int
  ai_protocol :: int

text \<open>What \<^verbatim>\<open>at_getaddrinfo\<close> allocates; \<open>None\<close> for the address is a variable that was never set.\<close>

record at_addrinfo =
  res_info :: addrinfo
  res_canonname :: "byte list option"
  res_addr :: "u32 option"
  res_port :: u16

text \<open>\<^verbatim>\<open>atoi\<close>; a number outside \<^verbatim>\<open>int\<close> is undefined.\<close>

fun digits_value :: "int \<Rightarrow> byte list \<Rightarrow> int" where
  "digits_value v (c # s) = (if isdigit c then digits_value (10 * v + (uint c - 0x30)) s else v)"
| "digits_value v [] = v"

definition c_atoi :: "byte list \<Rightarrow> int option" where
  "c_atoi s =
     (let s = dropWhile isspace s;
          v = (case s of
                 c # t \<Rightarrow> (if c = 0x2D then - digits_value 0 t else if c = 0x2B then digits_value 0 t else digits_value 0 s)
               | [] \<Rightarrow> 0)
      in if - (2 ^ 31) \<le> v \<and> v < 2 ^ 31 then Some v else None)"

definition htons :: "u16 \<Rightarrow> u16" where
  "htons x = push_bit 8 x OR drop_bit 8 x"

definition node_lookup :: "at_device_ops \<Rightarrow> byte list \<Rightarrow> at_net \<Rightarrow> ((int + u32 option) \<times> at_net) option" where
  "node_lookup ops nm st =
     map_option (\<lambda>(a, st). (case a of None \<Rightarrow> Inl EAI_FAIL | Some a \<Rightarrow> if a = 0 then Inl EAI_FAIL else Inr (Some a), st))
       (resolve (\<lambda>r. r \<noteq> 0) ops nm st)"

text \<open>The address for \<^verbatim>\<open>nodename\<close>: an error, or the address where it is set.\<close>

definition node_addr ::
    "(byte list \<Rightarrow> u32 option) \<Rightarrow> int \<Rightarrow> at_device_ops \<Rightarrow> byte list option \<Rightarrow> addrinfo option \<Rightarrow> at_net
     \<Rightarrow> ((int + u32 option) \<times> at_net) option" where
  "node_addr inet_aton af_at ops nodename hints st =
     (case nodename of
        None \<Rightarrow> Some (Inr None, st)
      | Some nm \<Rightarrow>
          (case hints of
             Some h \<Rightarrow>
               (if ai_flags h AND AI_NUMERICHOST \<noteq> 0
                then (case inet_aton nm of
                        None \<Rightarrow> Some (Inl EAI_NONAME, st)
                      | Some a \<Rightarrow> (if ai_family h = af_at \<or> ai_family h = AF_INET then Some (Inl EAI_NONAME, st)
                                  else Some (Inr (Some a), st)))
                else node_lookup ops nm st)
           | None \<Rightarrow> node_lookup ops nm st))"

definition at_getaddrinfo ::
    "(byte list \<Rightarrow> u32 option) \<Rightarrow> int \<Rightarrow> bool \<Rightarrow> byte list option \<Rightarrow> byte list option \<Rightarrow> addrinfo option \<Rightarrow> bool \<Rightarrow> at_net
     \<Rightarrow> ((int + at_addrinfo) \<times> at_net) option" where
  "at_getaddrinfo inet_aton af_at ok_malloc nodename servname hints has_res st =
     (if \<not> has_res then Some (Inl EAI_FAIL, st)
      else case at_dev_ops st of
        None \<Rightarrow> Some (Inl EAI_FAIL, st)
      | Some ops \<Rightarrow>
          (if nodename = None \<and> servname = None then Some (Inl EAI_NONAME, st)
           else if (case hints of None \<Rightarrow> False | Some h \<Rightarrow> ai_family h \<noteq> af_at \<and> ai_family h \<noteq> AF_INET \<and> ai_family h \<noteq> AF_UNSPEC)
           then Some (Inl EAI_FAMILY, st)
           else do {
             port_nr \<leftarrow> (case servname of None \<Rightarrow> Some 0 | Some sv \<Rightarrow> c_atoi sv);
             if servname \<noteq> None \<and> (port_nr \<le> 0 \<or> port_nr > 0xffff) then Some (Inl EAI_SERVICE, st)
             else do {
               (addr, st) \<leftarrow> node_addr inet_aton af_at ops nodename hints st;
               case addr of
                 Inl e \<Rightarrow> Some (Inl e, st)
               | Inr a \<Rightarrow>
                   if (case nodename of None \<Rightarrow> False | Some nm \<Rightarrow> length nm > DNS_MAX_NAME_LENGTH) then Some (Inl EAI_FAIL, st)
                   else if \<not> ok_malloc then Some (Inl EAI_MEMORY, st)
                   else Some (Inr \<lparr>res_info = \<lparr>ai_flags = 0, ai_family = AF_INET,
                       ai_socktype = (case hints of None \<Rightarrow> 0 | Some h \<Rightarrow> ai_socktype h),
                       ai_protocol = (case hints of None \<Rightarrow> 0 | Some h \<Rightarrow> ai_protocol h)\<rparr>,
                     res_canonname = nodename, res_addr = a, res_port = htons (of_int port_nr)\<rparr>, st)
             }
           }))"

end
