(* ===== verification/At_Socket_Properties.thy ===== *)
theory At_Socket_Properties
  imports At_Stream At_Resolve
begin

text \<open>
  The properties of the AT sockets: what reaches a reader, how sockets are given out and taken back, and
  addresses as text.
\<close>

subsection \<open>One socket with one reader\<close>

text \<open>The state: whether the reader is in the loop of \<^verbatim>\<open>at_recvfrom\<close>, the sockets, the packets that the
  driver has delivered, each with whether there was memory for its entry, and the bytes that the
  reader has got. A packet for whose entry there is no memory is lost.\<close>

type_synonym stream = "bool \<times> at_net \<times> (bool \<times> byte list) list \<times> byte list"

definition stored_bytes :: "(bool \<times> byte list) list \<Rightarrow> byte list" where
  "stored_bytes ins = concat (map snd (filter fst ins))"

inductive stream_step :: "nat \<Rightarrow> stream \<Rightarrow> stream \<Rightarrow> bool" for n where
  connecting: "at_connect (int n) name st = Some (x, st') \<Longrightarrow> stream_step n (w, st, ins, outs) (w, st', ins, outs)"
| arrival: "at_recv_notice_cb ok (int n) (Some b) (of_nat (length b)) st = Some st' \<Longrightarrow> length b < 2 ^ 32 \<Longrightarrow>
    stream_step n (w, st, ins, outs) (w, st', ins @ [(ok, b)], outs)"
| remote_close: "at_closed_notice_cb (int n) st = Some st' \<Longrightarrow> stream_step n (w, st, ins, outs) (w, st', ins, outs)"
| receiving: "at_recvfrom True (int n) len flags frm st = Some (r, st') \<Longrightarrow>
    stream_step n (False, st, ins, outs) (recv_waiting r, st', ins, outs @ recv_bytes r)"
| woken: "recv_round n timeout len st = Some (r, st') \<Longrightarrow> 0 < len \<Longrightarrow>
    stream_step n (True, st, ins, outs) (recv_waiting r, st', ins, outs @ recv_bytes r)"
| time_out: "recv_timed_out n st = Some (r, st') \<Longrightarrow>
    stream_step n (True, st, ins, outs) (recv_waiting r, st', ins, outs @ recv_bytes r)"
| sending: "at_sendto (int n) data to st = Some (x, st') \<Longrightarrow> stream_step n (w, st, ins, outs) (w, st', ins, outs)"

definition sock_unread :: "nat \<Rightarrow> at_net \<Rightarrow> byte list" where
  "sock_unread n st = pending (recvpkt_list (sock_at st n))"

definition stream_inv :: "nat \<Rightarrow> stream \<Rightarrow> bool" where
  "stream_inv n = (\<lambda>(w, st, ins, outs). n < length (sockets st) \<and> rx_ok (sock_at st n) \<and>
     freed_intact st \<and> stored_bytes ins = outs @ sock_unread n st \<and>
     (w \<and> recv_notice (sock_at st n) = Some 0 \<longrightarrow> sock_unread n st = []))"

lemma stream_inv_same: "stream_inv n (w, st, ins, outs) \<Longrightarrow> rx_same n st st' \<Longrightarrow> stream_inv n (w, st', ins, outs)"
  by (simp add: stream_inv_def rx_same_def rx_ok_def sock_unread_def)

lemma stream_inv_taken:
  assumes "stream_inv n (w, st, ins, outs)" "rx_taken n (recv_bytes r) st st' \<and> (recv_waiting r \<longrightarrow> sock_unread n st' = [])"
  shows "stream_inv n (recv_waiting r, st', ins, outs @ recv_bytes r)"
  using assms by (auto simp: stream_inv_def rx_taken_def sock_unread_def)

lemma stream_inv_step: "stream_step n s s' \<Longrightarrow> stream_inv n s \<Longrightarrow> stream_inv n s'"
proof (induction rule: stream_step.induct)
  case (connecting name st x st' w ins outs)
  then show ?case using stream_inv_same at_connect_same by blast
next
  case (arrival ok b st st' w ins outs)
  then have i: "n < length (sockets st)" "rx_ok (sock_at st n)" by (simp_all add: stream_inv_def)
  note a = at_recv_notice_cb_rx [OF arrival.hyps(1) i arrival.hyps(2)]
  show ?case using arrival.prems i(1) a by (auto simp: stream_inv_def sock_unread_def stored_bytes_def)
next
  case (remote_close st st' w ins outs)
  then have i: "n < length (sockets st)" "rx_ok (sock_at st n)" by (simp_all add: stream_inv_def)
  note a = at_closed_notice_cb_rx [OF remote_close.hyps(1) i]
  show ?case using remote_close.prems i(1) a by (auto simp: stream_inv_def sock_unread_def)
next
  case (receiving len flags frm st r st' ins outs)
  then have i: "n < length (sockets st)" "rx_ok (sock_at st n)" "freed_intact st" by (simp_all add: stream_inv_def)
  show ?case using stream_inv_taken [OF receiving.prems] at_recvfrom_taken [OF i(2,1) receiving.hyps(1) i(3)] by (simp add: sock_unread_def)
next
  case (woken timeout len st r st' ins outs)
  then have i: "n < length (sockets st)" "rx_ok (sock_at st n)"
    "recv_notice (sock_at st n) = Some 0 \<longrightarrow> pending (recvpkt_list (sock_at st n)) = []" "freed_intact st"
    by (simp_all add: stream_inv_def sock_unread_def)
  show ?case using stream_inv_taken [OF woken.prems] recv_round_taken [OF i(2,1) woken.hyps(2,1) i(3,4)] by (simp add: sock_unread_def)
next
  case (time_out st r st' ins outs)
  then have "rx_ok (sock_at st n)" by (simp add: stream_inv_def)
  from recv_fails_taken [OF time_out.hyps(1) [unfolded recv_timed_out_def] this]
  show ?case using stream_inv_taken [OF time_out.prems] by blast
next
  case (sending data to st x st' w ins outs)
  then show ?case using stream_inv_same at_sendto_same by blast
qed

subsection \<open>The table of sockets\<close>

lemma find_slot_least: "find_slot ss \<le> length ss \<and> (\<forall>m < find_slot ss. magic (ss ! m) \<noteq> 0) \<and>
    (find_slot ss < length ss \<longrightarrow> magic (ss ! find_slot ss) = 0)"
  by (induction ss) (auto simp: nth_Cons split: nat.split)

lemma alloc_socket_fresh:
  assumes "alloc_socket a b c st = (Some n, st')"
  shows "n < length (sockets st)" "n = find_slot (sockets st)" "length (sockets st') = length (sockets st)"
    "rx_ok (sock_at st' n)" "sock_unread n st' = []" "sock_state (sock_at st' n) = AT_SOCKET_NONE" "sock_no (sock_at st' n) = int n"
    "m \<noteq> n \<Longrightarrow> sock_at st' m = sock_at st m" "at_dev_ops st' = at_dev_ops st" "freed_intact st' = freed_intact st"
    "(at_slock st \<or> a) \<and> b \<and> c"
proof -
  have n: "n = find_slot (sockets st)" "find_slot (sockets st) \<noteq> length (sockets st)" "b" "c" "at_slock st \<or> a"
    using assms by (auto simp: alloc_socket_def Let_def split: if_splits)
  then have lt: "n < length (sockets st)" using find_slot_least [of "sockets st"] by simp
  have st': "st' = upd_sock n (\<lambda>s. s\<lparr>recv_lock := True\<rparr>) (upd_sock n (\<lambda>s. s\<lparr>recv_notice := Some 0\<rparr>)
      (upd_sock n (\<lambda>s. s\<lparr>magic := AT_SOCKET_MAGIC, sock_no := int n, sock_state := AT_SOCKET_NONE,
         rcvevent := 0, sendevent := 0, errevent := 0, recvpkt_list := []\<rparr>) (st\<lparr>at_slock := True\<rparr>)))"
    using assms n by (auto simp: alloc_socket_def Let_def split: if_splits)
  have s: "sock_at (st\<lparr>at_slock := True\<rparr>) m = sock_at st m" for m by (simp add: sock_at_def)
  show "n < length (sockets st)" "n = find_slot (sockets st)" "length (sockets st') = length (sockets st)"
    "rx_ok (sock_at st' n)" "sock_unread n st' = []" "sock_state (sock_at st' n) = AT_SOCKET_NONE" "sock_no (sock_at st' n) = int n"
    "m \<noteq> n \<Longrightarrow> sock_at st' m = sock_at st m" "at_dev_ops st' = at_dev_ops st" "freed_intact st' = freed_intact st"
    "(at_slock st \<or> a) \<and> b \<and> c"
    using lt n by (simp_all add: st' rx_ok_def sock_unread_def s)
qed

lemma alloc_socket_works:
  assumes "find_slot (sockets st) < length (sockets st)" "at_slock st \<or> a"
  shows "\<exists>st'. alloc_socket a True True st = (Some (find_slot (sockets st)), st')"
  using assms by (auto simp: alloc_socket_def Let_def)

lemma alloc_socket_half:
  assumes "find_slot (sockets st) < length (sockets st)" "at_slock st \<or> a" "\<not> (b \<and> c)"
  shows "\<exists>st'. alloc_socket a b c st = (None, st') \<and>
    at_get_socket (int (find_slot (sockets st))) st' = Some (find_slot (sockets st)) \<and>
    (\<forall>m. m \<noteq> find_slot (sockets st) \<longrightarrow> sock_at st' m = sock_at st m)"
proof -
  have l: "sock_at (st\<lparr>at_slock := True\<rparr>) m = sock_at st m" for m by (simp add: sock_at_def)
  show ?thesis
    using assms by (cases b) (auto simp: alloc_socket_def Let_def at_get_socket_int l)
qed

lemma free_socket_intact:
  "freed_intact st \<Longrightarrow> \<exists>st'. free_socket n st = Some st' \<and> length (sockets st') = length (sockets st) \<and>
     (\<forall>m. sock_at st' m = (if m = n \<and> n < length (sockets st) then zero_sock else sock_at st m)) \<and>
     drv_calls st' = drv_calls st"
  by (simp add: free_socket_def at_recvpkt_all_delete_def)

text \<open>Closing an open socket, in whatever state it is by then.\<close>

definition closes :: "at_device_ops \<Rightarrow> nat \<Rightarrow> at_net \<Rightarrow> bool" where
  "closes ops n st \<longleftrightarrow>
     (\<exists>st'. at_closesocket (int n) st = Some (if sock_state (sock_at st n) = AT_SOCKET_CONNECT \<and>
          op_closesocket ops (drv_calls st) (int n) \<noteq> 0 then -1 else 0, st') \<and>
        drv_calls st' = drv_calls st @ (if sock_state (sock_at st n) = AT_SOCKET_CONNECT then [Drv_close (int n)] else []) \<and>
        at_get_socket (int n) st' = None \<and> sock_at st' n = zero_sock \<and> (\<forall>m. m \<noteq> n \<longrightarrow> sock_at st' m = sock_at st m))"

lemma at_closesocket_frees:
  assumes "at_get_socket (int n) st = Some n" "at_dev_ops st = Some ops" "freed_intact st"
  shows "closes ops n st"
proof -
  have n: "n < length (sockets st)" using assms(1) by (simp add: at_get_socket_Some)
  let ?s = "upd_sock n (\<lambda>s. s\<lparr>sock_state := AT_SOCKET_CLOSED\<rparr>) st"
  have drv: "drv_calls (called c ?s) = drv_calls st @ [c]" for c by (simp add: called_def upd_sock_def)
  obtain s1 where 1: "free_socket n ?s = Some s1" "length (sockets s1) = length (sockets st)"
    "\<And>m. sock_at s1 m = (if m = n then zero_sock else sock_at st m)" "drv_calls s1 = drv_calls st"
    using free_socket_intact [of ?s n] assms(3) n by auto
  obtain s2 where 2: "free_socket n (called (Drv_close (int n)) ?s) = Some s2" "length (sockets s2) = length (sockets st)"
    "\<And>m. sock_at s2 m = (if m = n then zero_sock else sock_at st m)" "drv_calls s2 = drv_calls st @ [Drv_close (int n)]"
    using free_socket_intact [of "called (Drv_close (int n)) ?s" n] assms(3) n drv by auto
  show ?thesis
  proof (cases "sock_state (sock_at st n) = AT_SOCKET_CONNECT")
    case True
    then show ?thesis using assms 2 n
      by (auto simp: closes_def at_closesocket_def Let_def at_get_socket_int zero_sock_def)
  next
    case False
    then show ?thesis using assms 1 n
      by (auto simp: closes_def at_closesocket_def Let_def at_get_socket_int zero_sock_def)
  qed
qed

subsection \<open>Dotted addresses\<close>

definition digit :: "nat \<Rightarrow> byte" where
  "digit n = 0x30 + of_nat n"

lemma digit_facts:
  assumes "n < 10"
  shows "isdigit (digit n)" "\<not> isspace (digit n)" "digit n \<noteq> 0x2E" "digit n \<noteq> 0" "digit n \<noteq> 0x2D" "digit n \<noteq> 0x2B"
    "(ucast (digit n) :: u32) - 0x30 = of_nat n"
proof -
  have "n = 0 \<or> n = 1 \<or> n = 2 \<or> n = 3 \<or> n = 4 \<or> n = 5 \<or> n = 6 \<or> n = 7 \<or> n = 8 \<or> n = 9" using assms by auto
  then show "isdigit (digit n)" "\<not> isspace (digit n)" "digit n \<noteq> 0x2E" "digit n \<noteq> 0" "digit n \<noteq> 0x2D" "digit n \<noteq> 0x2B"
    "(ucast (digit n) :: u32) - 0x30 = of_nat n"
    by (auto simp: digit_def isdigit_def isspace_def)
qed

lemma dec_digits: "dec n = (if n < 10 then [digit n] else dec (n div 10) @ [digit (n mod 10)])"
  by (subst dec.simps) (simp add: digit_def)

lemma dec_hd: "\<exists>d t. d < 10 \<and> dec n = digit d # t"
proof (induction n rule: dec.induct)
  case (1 n)
  show ?case
  proof (cases "n < 10")
    case True
    then show ?thesis using dec_digits [of n] by auto
  next
    case False
    then show ?thesis using 1 dec_digits [of n] by force
  qed
qed

lemma dec_length: "n < 256 \<Longrightarrow> length (dec n) \<le> 3"
  by (subst dec_digits, subst dec_digits, subst dec_digits) auto

lemma atol_digits_dec:
  "atol_digits t (map Some (dec n) @ m) = atol_digits (t * 10 ^ length (dec n) + of_nat n) m"
proof (induction n arbitrary: m rule: dec.induct)
  case (1 n)
  show ?case
  proof (cases "n < 10")
    case True
    then show ?thesis by (simp add: dec_digits [of n] digit_facts mult.commute)
  next
    case False
    have "of_nat n = (10 * of_nat (n div 10) + of_nat (n mod 10) :: u32)"
      by (metis mult_div_mod_eq of_nat_add of_nat_mult of_nat_numeral)
    moreover have "dec n = dec (n div 10) @ [digit (n mod 10)]" using False dec_digits [of n] by simp
    ultimately show ?thesis using 1 [OF False, of "Some (digit (n mod 10)) # m"]
      by (simp add: digit_facts algebra_simps)
  qed
qed

lemma strchr_dot_dec: "strchr_dot (map Some (dec n) @ m) = strchr_dot m"
proof (induction n arbitrary: m rule: dec.induct)
  case (1 n)
  show ?case
  proof (cases "n < 10")
    case True
    then show ?thesis by (simp add: dec_digits [of n] digit_facts)
  next
    case False
    then show ?thesis using 1 dec_digits [of n] by (simp add: digit_facts)
  qed
qed

lemma ipstr_atol_dec:
  assumes "m = Some c # m'" "\<not> isdigit c"
  shows "ipstr_atol (map Some (dec n) @ m) = Some (of_nat n)"
proof -
  obtain d t where d: "d < 10" "dec n = digit d # t" using dec_hd by blast
  have "skip_spaces (map Some (dec n) @ m) = Some (map Some (dec n) @ m)" using d digit_facts by simp
  moreover have "peek (map Some (dec n) @ m) 0 = Some (digit d)" using d by simp
  moreover have "atol_digits 0 (map Some (dec n) @ m) = Some (of_nat n)" using assms atol_digits_dec [of 0 n m] by simp
  ultimately show ?thesis using digit_facts(5,6) [OF d(1)] by (simp add: ipstr_atol_def)
qed

lemma byte_of_nat: "b < 256 \<Longrightarrow> (ucast (of_nat b :: u32) :: byte) = of_nat b"
  by (simp add: unsigned_of_nat take_bit_nat_eq_self)

lemma ip_bytes_dot:
  "b < 256 \<Longrightarrow> ip_bytes (Suc k) (map Some (dec b) @ Some 0x2E # m) = map_option (Cons (of_nat b)) (ip_bytes k m)"
  using ipstr_atol_dec [of "Some 0x2E # m" "0x2E" m b] by (simp add: strchr_dot_dec isdigit_def byte_of_nat)

lemma ip_bytes_last: "b < 256 \<Longrightarrow> ip_bytes (Suc 0) (map Some (dec b) @ Some 0 # m) = Some [of_nat b]"
  using ipstr_atol_dec [of "Some 0 # m" 0 m b] by (simp add: strchr_dot_dec isdigit_def byte_of_nat)

subsection \<open>Properties\<close>

text \<open>C29: a socket delivers the bytes of the packets that it could store in order, each byte once,
  whatever the sizes of the packets and of the reads and however arrivals, reads, time-outs, sends
  and the end of the connection are interleaved: what was stored is what was read followed by what is
  still pending. A packet for whose entry there is no memory is dropped as a whole
  (\<^verbatim>\<open>at_recvpkt_put\<close>). A reader never waits while bytes are stored: when the semaphore
  it waits for is 0, it has got everything. A receiving call without an address is defined in every
  such state. All this holds provided freed memory keeps its contents until the loop of
  \<^verbatim>\<open>at_recvpkt_get\<close> has read the link of the packet it has just freed (\<open>freed_intact\<close>).\<close>

theorem at_socket_stream:
  assumes "freed_intact st0" "alloc_socket a b c st0 = (Some n, st)"
    "(stream_step n)\<^sup>*\<^sup>* (False, st, [], []) (w, st', ins, outs)"
  shows "stored_bytes ins = outs @ sock_unread n st' \<and>
    (w \<and> recv_notice (sock_at st' n) = Some 0 \<longrightarrow> outs = stored_bytes ins) \<and>
    at_recvfrom True (int n) len flags None st' \<noteq> None"
proof -
  note f = alloc_socket_fresh [OF assms(2)]
  have i: "stream_inv n (False, st, [], [])" using f assms(1) by (simp add: stream_inv_def stored_bytes_def)
  have "stream_inv n (w, st', ins, outs)"
    using assms(3) i by (induction rule: rtranclp_induct) (auto intro: stream_inv_step)
  then show ?thesis using at_recvfrom_defined by (auto simp: stream_inv_def)
qed

text \<open>without it, a read that goes past the end of a packet is undefined.\<close>

theorem at_read_past_packet_undefined:
  assumes "\<not> freed_intact st" "rx_ok (sock_at st n)" "n < length (sockets st)" "0 < len"
    "recvpkt_list (sock_at st n) = p # ps" "length (pkt_rest p) < unat len"
  shows "sock_take n len st = None"
proof -
  have "bfsz_totle p - bfsz_index p < len"
    using pkt_page [of p] assms(2,5,6) by (simp add: rx_ok_def word_less_nat_alt)
  then show ?thesis using assms(1,5)
    by (auto simp: sock_take_def at_recvpkt_get_def Let_def split: bind_splits)
qed

text \<open>C31: an address that is printed in dotted form for the modem and parsed again is the same
  address; both stay inside the buffer of 16 bytes.\<close>

theorem at_dotted_roundtrip:
  "\<exists>ipstr. ipaddr_to_ipstr a = Some ipstr \<and> length ipstr = 16 \<and> ipstr_to_u32 ipstr = Some a"
proof -
  obtain x0 x1 x2 x3 where q: "split32 a = [x0, x1, x2, x3]" by (simp add: split32_def)
  let ?d = "\<lambda>x :: byte. dec (unat x)"
  have b: "unat x < 256" for x :: byte
    using unsigned_less [of x, where ?'a = nat] by simp
  have ipt: "ip_text a = ?d x0 @ [0x2E] @ ?d x1 @ [0x2E] @ ?d x2 @ [0x2E] @ ?d x3"
    by (simp add: ip_text_def q Let_def numeral_2_eq_2 numeral_3_eq_3)
  have len: "length (ip_text a) \<le> 15"
    using dec_length [OF b, of x0] dec_length [OF b, of x1] dec_length [OF b, of x2] dec_length [OF b, of x3] by (simp add: ipt)
  then obtain m where m: "ipaddr_to_ipstr a = Some (map Some (ip_text a) @ Some 0 # m)"
    "length (map Some (ip_text a) @ Some 0 # m) = 16"
    by (simp add: ipaddr_to_ipstr_def poke_def)
  have "ip_bytes 4 (map Some (ip_text a) @ Some 0 # m) = Some [x0, x1, x2, x3]"
    using ip_bytes_dot [OF b] ip_bytes_last [OF b] by (simp add: ipt numeral_eq_Suc del: ip_bytes.simps)
  then have "ipstr_to_u32 (map Some (ip_text a) @ Some 0 # m) = Some (join32 (split32 a))"
    unfolding ipstr_to_u32_def q by simp
  then show ?thesis using m by auto
qed

text \<open>C30: with a driver registered, and asked for a stream or datagram socket of \<^verbatim>\<open>AF_INET\<close>: when the
  kernel objects can be created and the table has a free entry, \<^verbatim>\<open>at_socket\<close> gives
  out the first one, fresh and unconnected, and leaves the other sockets alone. In any later state
  in which the number still is a socket, \<^verbatim>\<open>at_closesocket\<close> takes just this entry back (\<open>closes\<close>): the modem's
  driver is called exactly if the socket is connected, the result is -1 exactly if it then answers
  with an error, the entry is cleared in every case, after which the number is no socket, and the
  other sockets are as before. (As in C29, freed memory must stay intact while the pending packets are
  deleted.) When the table is full or its lock cannot be created the result is 0, which
  is also the number of a socket, and no entry has changed. When the semaphore or the mutex
  of the entry cannot be created the result is 0 as well, the entry stays marked as a socket and the
  others are as before.\<close>

theorem at_socket_open_close:
  assumes "at_dev_ops st = Some ops" "type = SOCK_STREAM \<or> type = SOCK_DGRAM"
    "at_socket af_at ok_slock ok_sem ok_mutex AF_INET type st = Some (sk, st1)"
  defines "n \<equiv> find_slot (sockets st)"
  shows "if n < length (sockets st) \<and> (at_slock st \<or> ok_slock)
    then magic (sock_at st n) = 0 \<and> at_get_socket (int n) st1 = Some n \<and>
      (\<forall>m. m \<noteq> n \<longrightarrow> sock_at st1 m = sock_at st m) \<and>
      (if ok_sem \<and> ok_mutex
       then sk = int n \<and> sock_state (sock_at st1 n) = AT_SOCKET_NONE \<and> sock_unread n st1 = [] \<and>
         sock_type (sock_at st1 n) = (if type = SOCK_STREAM then AT_SOCKET_TCP else AT_SOCKET_UDP) \<and>
         (\<forall>st2. at_get_socket sk st2 = Some n \<and> at_dev_ops st2 = Some ops \<and> freed_intact st2 \<longrightarrow> closes ops n st2)
       else sk = 0)
    else sk = 0 \<and> sockets st1 = sockets st"
proof (cases "n < length (sockets st) \<and> (at_slock st \<or> ok_slock)")
  case True
  have z: "magic (sock_at st n) = 0" using find_slot_least [of "sockets st"] True by (simp add: n_def sock_at_def)
  show ?thesis
  proof (cases "ok_sem \<and> ok_mutex")
    case ok: True
    let ?t = "if type = SOCK_STREAM then AT_SOCKET_TCP else AT_SOCKET_UDP"
    obtain s where s: "alloc_socket ok_slock True True st = (Some n, s)" using alloc_socket_works True unfolding n_def by blast
    note f = alloc_socket_fresh [OF s]
    have st1: "st1 = upd_sock n (\<lambda>s. s\<lparr>sock_type := ?t\<rparr>) s" and sk: "sk = int n"
      using assms(2,3) s f ok by (auto simp: at_socket_def Let_def)
    have g: "at_get_socket (int n) st1 = Some n" using f by (simp add: st1 at_get_socket_Some rx_ok_def)
    have others: "sock_at st1 m = sock_at st m" if "m \<noteq> n" for m using f(8) [OF that] that by (simp add: st1)
    have new: "sock_state (sock_at st1 n) = AT_SOCKET_NONE" "sock_unread n st1 = []" "sock_type (sock_at st1 n) = ?t"
      using f by (simp_all add: st1 sock_unread_def)
    show ?thesis using True ok sk g z others new at_closesocket_frees by auto
  next
    case False
    obtain s where "alloc_socket ok_slock ok_sem ok_mutex st = (None, s)" "at_get_socket (int n) s = Some n"
      "\<forall>m. m \<noteq> n \<longrightarrow> sock_at s m = sock_at st m"
      using alloc_socket_half [of st ok_slock ok_sem ok_mutex] True False unfolding n_def by blast
    then have "sk = 0 \<and> at_get_socket (int n) st1 = Some n \<and> (\<forall>m. m \<noteq> n \<longrightarrow> sock_at st1 m = sock_at st m)"
      using assms(2,3) by (auto simp: at_socket_def Let_def)
    then show ?thesis using True False z by auto
  qed
next
  case False
  then have "n = length (sockets st) \<or> \<not> (at_slock st \<or> ok_slock)"
    using find_slot_least [of "sockets st"] by (auto simp: n_def)
  then have "\<exists>s. alloc_socket ok_slock ok_sem ok_mutex st = (None, s) \<and> sockets s = sockets st"
    by (elim disjE) (auto simp: alloc_socket_def Let_def n_def)
  then obtain s where "alloc_socket ok_slock ok_sem ok_mutex st = (None, s)" "sockets s = sockets st" by blast
  then have "sk = 0 \<and> sockets st1 = sockets st" using assms(2,3) by (auto simp: at_socket_def Let_def)
  then show ?thesis unfolding if_not_P [OF False] .
qed

text \<open>When the semaphore or the mutex cannot be created the entry stays marked as a socket: it is found by its number,
  has no mutex, and the next packet for it fails an assertion.\<close>

theorem at_failed_socket_stays:
  assumes "find_slot (sockets st) < length (sockets st)" "magic (sock_at st (find_slot (sockets st))) = 0"
    "domain = af_at \<or> domain = AF_INET" "type = SOCK_STREAM \<or> type = SOCK_DGRAM"
  shows "\<exists>st1. at_socket af_at True True False domain type st = Some (0, st1) \<and>
    at_get_socket (int (find_slot (sockets st))) st1 = Some (find_slot (sockets st)) \<and>
    at_recv_notice_cb True (int (find_slot (sockets st))) (Some [c]) 1 st1 = None"
  using assms by (auto simp: at_socket_def alloc_socket_def Let_def at_get_socket_int at_recv_notice_cb_def)

subsection \<open>Witnesses\<close>

definition demo_at_ops :: at_device_ops where
  "demo_at_ops = \<lparr>op_connect = (\<lambda>_ _ _ _ _. 0), op_closesocket = (\<lambda>_ _. 0), op_send = (\<lambda>_ _ d _. int (length d)),
     op_resolve = (\<lambda>_ _ m. (-1, m))\<rparr>"

definition demo_net :: at_net where
  "demo_net = \<lparr>sockets = [zero_sock, zero_sock], at_dev_ops = Some demo_at_ops, at_slock = False, drv_calls = [], freed_intact = True\<rparr>"

lemma demo_net_slot: "find_slot (sockets demo_net) = 0" "length (sockets demo_net) = 2" "at_dev_ops demo_net \<noteq> None"
  "sock_at demo_net 0 = zero_sock"
  by (simp_all add: demo_net_def zero_sock_def sock_at_def)

theorem at_socket_open_close_witness:
  "\<exists>st1 st2. at_socket 45 True True True AF_INET SOCK_STREAM demo_net = Some (0, st1) \<and> at_get_socket 0 st1 = Some 0 \<and>
    at_closesocket 0 st1 = Some (0, st2) \<and> at_get_socket 0 st2 = None"
proof -
  have "at_socket 45 True True True AF_INET SOCK_STREAM demo_net \<noteq> None"
    by (simp add: at_socket_def case_prod_beta Let_def split: option.splits)
  then obtain sk st1 where 1: "at_socket 45 True True True AF_INET SOCK_STREAM demo_net = Some (sk, st1)" by auto
  have o: "at_dev_ops demo_net = Some demo_at_ops" by (simp add: demo_net_def)
  have st1: "at_dev_ops st1 = Some demo_at_ops" "freed_intact st1"
    using 1 by (auto simp: at_socket_def alloc_socket_def Let_def demo_net_slot split: if_splits) (simp_all add: demo_net_def)
  have "closes demo_at_ops 0 st1 \<and> sk = 0 \<and> at_get_socket 0 st1 = Some 0 \<and> sock_state (sock_at st1 0) = AT_SOCKET_NONE"
    using at_socket_open_close [OF o _ 1] st1 by (auto simp: demo_net_slot)
  then show ?thesis using 1 by (auto simp: closes_def)
qed

text \<open>A socket that is connected, gets a packet of three bytes and is asked for two.\<close>

definition demo_connected :: "at_net option" where
  "demo_connected = map_option snd (at_connect 0 \<lparr>sin_addr = 0x0101A8C0, sin_port = 0x5000\<rparr> (snd (alloc_socket True True True demo_net)))"

definition demo_arrived :: "at_net option" where
  "demo_arrived = do { st \<leftarrow> demo_connected; at_recv_notice_cb True 0 (Some [65, 66, 67]) 3 st }"

definition demo_read :: "(recv_result \<times> at_net) option" where
  "demo_read = do { st \<leftarrow> demo_arrived; at_recvfrom True 0 2 0 None st }"

lemma demo_read_result: "map_option fst demo_read = Some (Recv_ret 2 [65, 66])"
  by code_simp

theorem at_socket_stream_witness:
  "\<exists>st1 st2. demo_arrived = Some st1 \<and> at_recvfrom True 0 2 0 None st1 = Some (Recv_ret 2 [65, 66], st2) \<and> sock_unread 0 st2 = [67]"
proof -
  obtain st where 0: "alloc_socket True True True demo_net = (Some 0, st)"
    using alloc_socket_works [of demo_net True] by (auto simp: demo_net_slot)
  obtain st0 where c: "demo_connected = Some st0"
    using demo_read_result by (cases demo_connected) (simp_all add: demo_read_def demo_arrived_def)
  obtain st1 where a: "demo_arrived = Some st1"
    using demo_read_result by (cases demo_arrived) (simp_all add: demo_read_def)
  have "map_option fst (at_recvfrom True 0 2 0 None st1) = Some (Recv_ret 2 [65, 66])"
    using demo_read_result unfolding demo_read_def a by simp
  then obtain st2 where r: "at_recvfrom True (int 0) 2 0 None st1 = Some (Recv_ret 2 [65, 66], st2)" by auto
  obtain x where x: "at_connect (int 0) \<lparr>sin_addr = 0x0101A8C0, sin_port = 0x5000\<rparr> st = Some (x, st0)"
    using c by (auto simp: demo_connected_def 0)
  have b: "at_recv_notice_cb True (int 0) (Some [65, 66, 67]) (of_nat (length [65, 66, 67 :: byte])) st0 = Some st1"
    using a unfolding demo_arrived_def c by simp
  have "stream_step 0 (False, st, [], []) (False, st0, [], [])" by (rule stream_step.connecting [OF x])
  moreover have "stream_step 0 (False, st0, [], []) (False, st1, [(True, [65, 66, 67])], [])"
    using stream_step.arrival [OF b, of False "[]" "[]"] by simp
  moreover have "stream_step 0 (False, st1, [(True, [65, 66, 67])], []) (False, st2, [(True, [65, 66, 67])], [65, 66])"
    using stream_step.receiving [OF r, of "[(True, [65, 66, 67])]" "[]"] by (simp add: recv_waiting_def recv_bytes_def)
  ultimately have "(stream_step 0)\<^sup>*\<^sup>* (False, st, [], []) (False, st2, [(True, [65, 66, 67])], [65, 66])" by (meson rtranclp.rtrancl_into_rtrancl rtranclp.rtrancl_refl)
  from at_socket_stream [OF _ 0 this] have "sock_unread 0 st2 = [67]" by (simp add: demo_net_def stored_bytes_def)
  with a r show ?thesis by auto
qed

theorem at_failed_socket_stays_witness:
  "\<exists>st1. at_socket 45 True True False AF_INET SOCK_STREAM demo_net = Some (0, st1) \<and> at_get_socket 0 st1 = Some 0"
  using at_failed_socket_stays [of demo_net AF_INET 45 SOCK_STREAM 1] by (auto simp: demo_net_slot zero_sock_def)

end
