(* ===== verification/Device.thy ===== *)
theory Device
  imports Thread
begin

text \<open>
  The device framework (\<^verbatim>\<open>src/device.c\<close>): devices are registered by name, opened and closed any number
  of times, and read and written through the functions of their driver.

  The driver is a parameter, the record \<open>dev_ops\<close>: a function may be missing, and takes and returns
  the device structure, as the code gives it the pointer. \<open>dev_log\<close> notes the calls of the driver
  with their results, and whether the driver left the flag \<^verbatim>\<open>RT_DEVICE_FLAG_ACTIVATED\<close> set; a missing
  function of \<^verbatim>\<open>init\<close>, \<^verbatim>\<open>open\<close> or \<^verbatim>\<open>close\<close> is noted where the code takes its call as done. It is not
  part of the code. \<^verbatim>\<open>rt_set_errno\<close> is the left result of a read or a
  write, which then return 0. \<^verbatim>\<open>rt_device_create\<close> and \<^verbatim>\<open>rt_device_destroy\<close>, which only allocate and free
  the structure, are left out.
\<close>

abbreviation RT_ENOSYS :: int where "RT_ENOSYS \<equiv> 6"
abbreviation RT_EBUSY :: int where "RT_EBUSY \<equiv> 7"

abbreviation RT_DEVICE_FLAG_STANDALONE :: u16 where "RT_DEVICE_FLAG_STANDALONE \<equiv> 0x008"
abbreviation RT_DEVICE_FLAG_ACTIVATED :: u16 where "RT_DEVICE_FLAG_ACTIVATED \<equiv> 0x010"
abbreviation RT_DEVICE_OFLAG_CLOSE :: u16 where "RT_DEVICE_OFLAG_CLOSE \<equiv> 0x000"
abbreviation RT_DEVICE_OFLAG_OPEN :: u16 where "RT_DEVICE_OFLAG_OPEN \<equiv> 0x008"
abbreviation RT_DEVICE_OFLAG_MASK :: u16 where "RT_DEVICE_OFLAG_MASK \<equiv> 0xf0f"

datatype dev_call = Dev_init int | Dev_open int | Dev_close int | Dev_read | Dev_write | Dev_control

record rt_device =
  dev_flag :: u16
  open_flag :: u16
  ref_count :: u8
  rx_indicate :: "nat option"
  tx_complete :: "nat option"
  user_data :: "byte list"
  dev_log :: "(dev_call \<times> bool) list"

record dev_ops =
  op_init :: "(rt_device \<Rightarrow> int \<times> rt_device) option"
  op_open :: "(u16 \<Rightarrow> rt_device \<Rightarrow> int \<times> rt_device) option"
  op_close :: "(rt_device \<Rightarrow> int \<times> rt_device) option"
  op_read :: "(int \<Rightarrow> u32 \<Rightarrow> rt_device \<Rightarrow> byte list \<times> rt_device) option"
  op_write :: "(int \<Rightarrow> byte list \<Rightarrow> rt_device \<Rightarrow> u32 \<times> rt_device) option"
  op_control :: "(int \<Rightarrow> nat \<Rightarrow> rt_device \<Rightarrow> int \<times> rt_device) option"

definition has_flag :: "u16 \<Rightarrow> u16 \<Rightarrow> bool" where
  "has_flag x f = (x AND f \<noteq> 0)"

definition noted :: "('a \<Rightarrow> dev_call) \<Rightarrow> rt_device \<Rightarrow> ('a \<times> rt_device) \<Rightarrow> 'a \<times> rt_device" where
  "noted c d = (\<lambda>(r, d').
     (r, d'\<lparr>dev_log := dev_log d @ [(c r, has_flag (dev_flag d') RT_DEVICE_FLAG_ACTIVATED)]\<rparr>))"

subsection \<open>Registration\<close>

record dev_state =
  dev_kern :: kernel
  devices :: "oid \<Rightarrow> rt_device"

definition rt_device_find :: "string \<Rightarrow> kernel \<Rightarrow> obj_ref option \<times> kernel" where
  "rt_device_find name k =
     (let k = (if rt_thread_self k \<noteq> None then rt_enter_critical k else k);
          k = rt_assert (rt_object_get_information RT_Object_Class_Device \<noteq> None) k
      in (find_object name (obj_hdr k) (obj_list k RT_Object_Class_Device),
          if rt_thread_self k \<noteq> None then rt_exit_critical k else k))"

definition rt_device_register :: "oid option \<Rightarrow> string \<Rightarrow> u16 \<Rightarrow> dev_state \<Rightarrow> int \<times> dev_state" where
  "rt_device_register dev name flags s =
     (case dev of
        None \<Rightarrow> (- RT_ERROR, s)
      | Some d \<Rightarrow>
          (let (found, k) = rt_device_find name (dev_kern s); s = s\<lparr>dev_kern := k\<rparr>
           in if found \<noteq> None then (- RT_ERROR, s)
              else (RT_EOK, s\<lparr>dev_kern := rt_object_init (Ipc_obj d) RT_Object_Class_Device name k,
                devices := (devices s)(d := (devices s d)\<lparr>dev_flag := flags, ref_count := 0, open_flag := 0\<rparr>)\<rparr>)))"

definition rt_device_unregister :: "oid \<Rightarrow> dev_state \<Rightarrow> int \<times> dev_state" where
  "rt_device_unregister d s = (RT_EOK, s\<lparr>dev_kern := rt_object_detach (Ipc_obj d) (dev_kern s)\<rparr>)"

subsection \<open>Operations\<close>

definition rt_device_init :: "dev_ops \<Rightarrow> rt_device \<Rightarrow> int \<times> rt_device" where
  "rt_device_init ops d =
     (case op_init ops of
        None \<Rightarrow> (RT_EOK, d)
      | Some f \<Rightarrow>
          (if \<not> has_flag (dev_flag d) RT_DEVICE_FLAG_ACTIVATED
           then (let (result, d) = noted Dev_init d (f d)
                 in if result \<noteq> RT_EOK then (result, d)
                    else (result, d\<lparr>dev_flag := dev_flag d OR RT_DEVICE_FLAG_ACTIVATED\<rparr>))
           else (RT_EOK, d)))"

text \<open>Up to the activation; the result is the error with which \<^verbatim>\<open>rt_device_open\<close> returns.\<close>

definition open_activate :: "dev_ops \<Rightarrow> rt_device \<Rightarrow> int \<times> rt_device" where
  "open_activate ops d =
     (if \<not> has_flag (dev_flag d) RT_DEVICE_FLAG_ACTIVATED
      then (let (result, d) = noted Dev_init d (case op_init ops of None \<Rightarrow> (RT_EOK, d) | Some f \<Rightarrow> f d)
            in if result \<noteq> RT_EOK then (result, d)
               else (RT_EOK, d\<lparr>dev_flag := dev_flag d OR RT_DEVICE_FLAG_ACTIVATED\<rparr>))
      else (RT_EOK, d))"

text \<open>\<open>None\<close> is the failed assertion on the reference count.\<close>

definition rt_device_open :: "dev_ops \<Rightarrow> u16 \<Rightarrow> rt_device \<Rightarrow> (int \<times> rt_device) option" where
  "rt_device_open ops oflag d =
     (let (result, d) = open_activate ops d
      in if result \<noteq> RT_EOK then Some (result, d)
         else if has_flag (dev_flag d) RT_DEVICE_FLAG_STANDALONE \<and> has_flag (open_flag d) RT_DEVICE_OFLAG_OPEN
         then Some (- RT_EBUSY, d)
         else
           (let (result, d) = noted Dev_open d (case op_open ops of
                  Some f \<Rightarrow> f oflag d
                | None \<Rightarrow> (RT_EOK, d\<lparr>open_flag := oflag AND RT_DEVICE_OFLAG_MASK\<rparr>))
            in if result = RT_EOK \<or> result = - RT_ENOSYS
               then (let d = d\<lparr>open_flag := open_flag d OR RT_DEVICE_OFLAG_OPEN, ref_count := ref_count d + 1\<rparr>
                     in if ref_count d \<noteq> 0 then Some (result, d) else None)
               else Some (result, d)))"

definition rt_device_close :: "dev_ops \<Rightarrow> rt_device \<Rightarrow> int \<times> rt_device" where
  "rt_device_close ops d =
     (if ref_count d = 0 then (- RT_ERROR, d)
      else (let d = d\<lparr>ref_count := ref_count d - 1\<rparr>
            in if ref_count d \<noteq> 0 then (RT_EOK, d)
               else (let (result, d) = noted Dev_close d (case op_close ops of None \<Rightarrow> (RT_EOK, d) | Some f \<Rightarrow> f d)
                     in (result, if result = RT_EOK \<or> result = - RT_ENOSYS
                                 then d\<lparr>open_flag := RT_DEVICE_OFLAG_CLOSE\<rparr> else d))))"

definition rt_device_read :: "dev_ops \<Rightarrow> int \<Rightarrow> u32 \<Rightarrow> rt_device \<Rightarrow> (int + byte list) \<times> rt_device" where
  "rt_device_read ops pos sz d =
     (if ref_count d = 0 then (Inl (- RT_ERROR), d)
      else case op_read ops of
             Some f \<Rightarrow> (let (r, d) = noted (\<lambda>_. Dev_read) d (f pos sz d) in (Inr r, d))
           | None \<Rightarrow> (Inl (- RT_ENOSYS), d))"

definition rt_device_write :: "dev_ops \<Rightarrow> int \<Rightarrow> byte list \<Rightarrow> rt_device \<Rightarrow> (int + u32) \<times> rt_device" where
  "rt_device_write ops pos buffer d =
     (if ref_count d = 0 then (Inl (- RT_ERROR), d)
      else case op_write ops of
             Some f \<Rightarrow> (let (r, d) = noted (\<lambda>_. Dev_write) d (f pos buffer d) in (Inr r, d))
           | None \<Rightarrow> (Inl (- RT_ENOSYS), d))"

definition rt_device_control :: "dev_ops \<Rightarrow> int \<Rightarrow> nat \<Rightarrow> rt_device \<Rightarrow> int \<times> rt_device" where
  "rt_device_control ops cmd arg d =
     (case op_control ops of
        Some f \<Rightarrow> noted (\<lambda>_. Dev_control) d (f cmd arg d)
      | None \<Rightarrow> (- RT_ENOSYS, d))"

definition rt_device_set_rx_indicate :: "nat option \<Rightarrow> rt_device \<Rightarrow> int \<times> rt_device" where
  "rt_device_set_rx_indicate rx_ind d = (RT_EOK, d\<lparr>rx_indicate := rx_ind\<rparr>)"

definition rt_device_set_tx_complete :: "nat option \<Rightarrow> rt_device \<Rightarrow> int \<times> rt_device" where
  "rt_device_set_tx_complete tx_done d = (RT_EOK, d\<lparr>tx_complete := tx_done\<rparr>)"

end
