(* ===== verification/Device_Properties.thy ===== *)
theory Device_Properties
  imports Device Kernel_Demo
begin

text \<open>
  The properties of the device framework. \<open>dev_step\<close> is any call on a device, and \<open>drv_run\<close> the protocol
  that the calls of the driver follow: it is activated before it is opened, closed once for any
  number of opens, and read and written only while it is open.
\<close>

subsection \<open>The protocol of the driver\<close>

text \<open>
  What the driver has seen: whether the device is activated, which the driver may undo at any time,
  and whether it has been opened and not closed since.
\<close>

fun drv_next :: "bool \<times> bool \<Rightarrow> dev_call \<times> bool \<Rightarrow> (bool \<times> bool) option" where
  "drv_next (act, open) (Dev_init r, b) = (if act then None else Some (b \<or> r = RT_EOK, open))"
| "drv_next (act, open) (Dev_open r, b) = (if act then Some (b, open \<or> r = RT_EOK \<or> r = - RT_ENOSYS) else None)"
| "drv_next (act, open) (Dev_close r, b) = (if open then Some (b, False) else None)"
| "drv_next (act, open) (Dev_read, b) = (if open then Some (b, open) else None)"
| "drv_next (act, open) (Dev_write, b) = (if open then Some (b, open) else None)"
| "drv_next (act, open) (Dev_control, b) = Some (b, open)"

fun drv_run :: "bool \<times> bool \<Rightarrow> (dev_call \<times> bool) list \<Rightarrow> (bool \<times> bool) option" where
  "drv_run st [] = Some st"
| "drv_run st (c # cs) = (case drv_next st c of None \<Rightarrow> None | Some st \<Rightarrow> drv_run st cs)"

lemma drv_run_snoc: "drv_run st (cs @ [c]) = (case drv_run st cs of None \<Rightarrow> None | Some st \<Rightarrow> drv_next st c)"
  by (induction cs arbitrary: st) (auto split: option.split)

text \<open>
  What a driver is relied on for, and what the drivers of the repository do: its functions leave
  the reference count alone and do not make a device stand-alone, and the open flag's bit
  \<^verbatim>\<open>RT_DEVICE_OFLAG_OPEN\<close> is changed by the functions that open and close only. They may clear other
  flags: \<^verbatim>\<open>rt_hwtimer_close\<close> clears \<^verbatim>\<open>RT_DEVICE_FLAG_ACTIVATED\<close>, the control functions of serial and CAN
  devices change \<^verbatim>\<open>RT_DEVICE_FLAG_SUSPENDED\<close>. (\<^verbatim>\<open>pipe.c\<close> changes the reference count in functions of its
  own and is not covered.) Any function may be missing.
\<close>

definition keeps :: "rt_device \<Rightarrow> rt_device \<Rightarrow> bool" where
  "keeps d d' \<longleftrightarrow> ref_count d' = ref_count d \<and>
     (has_flag (dev_flag d') RT_DEVICE_FLAG_STANDALONE \<longrightarrow> has_flag (dev_flag d) RT_DEVICE_FLAG_STANDALONE)"

definition keeps_open :: "rt_device \<Rightarrow> rt_device \<Rightarrow> bool" where
  "keeps_open d d' \<longleftrightarrow> keeps d d' \<and>
     has_flag (open_flag d') RT_DEVICE_OFLAG_OPEN = has_flag (open_flag d) RT_DEVICE_OFLAG_OPEN"

definition driver_ok :: "dev_ops \<Rightarrow> bool" where
  "driver_ok ops \<longleftrightarrow>
     (\<forall>f d. op_init ops = Some f \<longrightarrow> keeps_open d (snd (f d))) \<and>
     (\<forall>f o' d. op_open ops = Some f \<longrightarrow> keeps d (snd (f o' d))) \<and>
     (\<forall>f d. op_close ops = Some f \<longrightarrow> keeps d (snd (f d))) \<and>
     (\<forall>f p n d. op_read ops = Some f \<longrightarrow> keeps_open d (snd (f p n d))) \<and>
     (\<forall>f p b d. op_write ops = Some f \<longrightarrow> keeps_open d (snd (f p b d))) \<and>
     (\<forall>f c a d. op_control ops = Some f \<longrightarrow> keeps_open d (snd (f c a d)))"

inductive dev_step :: "dev_ops \<Rightarrow> rt_device \<Rightarrow> rt_device \<Rightarrow> bool" for ops where
  initial: "rt_device_init ops d = (r, d') \<Longrightarrow> dev_step ops d d'"
| open_call: "rt_device_open ops oflag d = Some (r, d') \<Longrightarrow> dev_step ops d d'"
| close_call: "rt_device_close ops d = (r, d') \<Longrightarrow> dev_step ops d d'"
| reading: "rt_device_read ops pos n d = (rd, d') \<Longrightarrow> dev_step ops d d'"
| writing: "rt_device_write ops pos buf d = (wr, d') \<Longrightarrow> dev_step ops d d'"
| ctrl: "rt_device_control ops cmd arg d = (r, d') \<Longrightarrow> dev_step ops d d'"
| rx: "rt_device_set_rx_indicate h d = (r, d') \<Longrightarrow> dev_step ops d d'"
| tx: "rt_device_set_tx_complete h d = (r, d') \<Longrightarrow> dev_step ops d d'"

inductive_cases dev_stepE: "dev_step ops d d'"

definition activated :: "rt_device \<Rightarrow> bool" where
  "activated d = has_flag (dev_flag d) RT_DEVICE_FLAG_ACTIVATED"

definition drv_of :: "rt_device \<Rightarrow> bool \<times> bool" where
  "drv_of d = (activated d, ref_count d \<noteq> 0)"

definition dev_inv :: "rt_device \<Rightarrow> bool" where
  "dev_inv d \<longleftrightarrow> drv_run (False, False) (dev_log d) = Some (drv_of d) \<and>
     (has_flag (dev_flag d) RT_DEVICE_FLAG_STANDALONE \<longrightarrow>
        ref_count d \<le> 1 \<and> (ref_count d \<noteq> 0 \<longrightarrow> has_flag (open_flag d) RT_DEVICE_OFLAG_OPEN))"

lemma has_flag_or [simp]:
  "has_flag (x OR RT_DEVICE_FLAG_ACTIVATED) RT_DEVICE_FLAG_ACTIVATED"
  "has_flag (x OR RT_DEVICE_FLAG_ACTIVATED) RT_DEVICE_FLAG_STANDALONE = has_flag x RT_DEVICE_FLAG_STANDALONE"
  "has_flag (x OR RT_DEVICE_OFLAG_OPEN) RT_DEVICE_OFLAG_OPEN"
  by (simp_all add: has_flag_def bit.conj_disj_distrib2 and.assoc)

lemma noted_simps [simp]:
  "noted c d p = (fst p, (snd p)\<lparr>dev_log := dev_log d @ [(c (fst p), activated (snd p))]\<rparr>)"
  by (simp add: noted_def activated_def case_prod_beta)

subsection \<open>Each call keeps the invariant\<close>

lemma dev_inv_call:
  assumes "dev_inv d" "keeps_open d d'" "drv_next (drv_of d) (c, activated d') = Some (activated d', ref_count d \<noteq> 0)"
  shows "dev_inv (d'\<lparr>dev_log := dev_log d @ [(c, activated d')]\<rparr>)"
  using assms by (auto simp: dev_inv_def drv_run_snoc keeps_open_def keeps_def drv_of_def activated_def)

lemma dev_inv_activate:
  assumes "dev_inv d" "driver_ok ops" "open_activate ops d = (r, d')"
  shows "dev_inv d'" "r = RT_EOK \<longrightarrow> activated d'"
proof -
  let ?p = "case op_init ops of None \<Rightarrow> (RT_EOK, d) | Some f \<Rightarrow> f d"
  have k: "keeps_open d (snd ?p)"
    using assms(2) by (auto simp: driver_ok_def keeps_open_def keeps_def split: option.split)
  have "dev_inv d' \<and> (r = RT_EOK \<longrightarrow> activated d')"
  proof (cases "activated d")
    case True
    then show ?thesis using assms(1,3) by (auto simp: open_activate_def activated_def)
  next
    case False
    then have d': "(r, d') = (fst ?p, let e = (snd ?p)\<lparr>dev_log := dev_log d @ [(Dev_init (fst ?p), activated (snd ?p))]\<rparr>
        in if fst ?p = RT_EOK then e\<lparr>dev_flag := dev_flag e OR RT_DEVICE_FLAG_ACTIVATED\<rparr> else e)"
      using assms(3) by (auto simp: open_activate_def activated_def Let_def case_prod_beta split: if_splits)
    then show ?thesis using False assms(1) k
      by (auto simp: dev_inv_def drv_run_snoc keeps_open_def keeps_def drv_of_def activated_def Let_def)
  qed
  then show "dev_inv d'" "r = RT_EOK \<longrightarrow> activated d'" by auto
qed

lemma dev_inv_init:
  assumes "dev_inv d" "driver_ok ops"
  shows "dev_inv (snd (rt_device_init ops d))"
proof (cases "op_init ops")
  case None
  then show ?thesis using assms(1) by (simp add: rt_device_init_def)
next
  case (Some f)
  then have "rt_device_init ops d = open_activate ops d"
    by (simp add: rt_device_init_def open_activate_def Let_def case_prod_beta)
  with dev_inv_activate(1) [OF assms, of "fst (open_activate ops d)" "snd (open_activate ops d)"]
  show ?thesis by simp
qed

lemma dev_inv_open:
  assumes "dev_inv d" "driver_ok ops" "rt_device_open ops oflag d = Some (r, d')"
  shows "dev_inv d'"
proof -
  obtain r1 d1 where 1: "open_activate ops d = (r1, d1)" by (cases "open_activate ops d")
  note a = dev_inv_activate [OF assms(1,2) 1]
  let ?x = "case op_open ops of Some f \<Rightarrow> f oflag d1 | None \<Rightarrow> (RT_EOK, d1\<lparr>open_flag := oflag AND RT_DEVICE_OFLAG_MASK\<rparr>)"
  let ?ok = "fst ?x = RT_EOK \<or> fst ?x = - RT_ENOSYS"
  let ?e = "(snd ?x)\<lparr>dev_log := dev_log d1 @ [(Dev_open (fst ?x), activated (snd ?x))]\<rparr>"
  show ?thesis
  proof (cases "r1 = RT_EOK \<and> \<not> (has_flag (dev_flag d1) RT_DEVICE_FLAG_STANDALONE \<and>
      has_flag (open_flag d1) RT_DEVICE_OFLAG_OPEN)")
    case True
    then have act: "activated d1" and st: "has_flag (dev_flag d1) RT_DEVICE_FLAG_STANDALONE \<Longrightarrow> ref_count d1 = 0"
      using a by (auto simp: dev_inv_def)
    have run: "drv_run (False, False) (dev_log d1) = Some (True, ref_count d1 \<noteq> 0)"
      using a(1) act by (simp add: dev_inv_def drv_of_def)
    have keep: "keeps d1 (snd ?x)"
      using assms(2) by (cases "op_open ops") (auto simp: driver_ok_def keeps_def)
    have k: "ref_count (snd ?x) = ref_count d1"
      "has_flag (dev_flag (snd ?x)) RT_DEVICE_FLAG_STANDALONE \<Longrightarrow> ref_count d1 = 0"
      using keep st by (auto simp: keeps_def)
    show ?thesis
    proof (cases ?ok)
      case ok: True
      have d': "d' = ?e\<lparr>open_flag := open_flag (snd ?x) OR RT_DEVICE_OFLAG_OPEN, ref_count := ref_count d1 + 1\<rparr>"
        "ref_count d1 + 1 \<noteq> 0"
        using assms(3) True ok k(1) by (auto simp: rt_device_open_def 1 Let_def case_prod_beta split: if_splits)
      then show ?thesis using run ok k(2)
        by (auto simp: dev_inv_def drv_of_def activated_def drv_run_snoc)
    next
      case bad: False
      then have "d' = ?e"
        using assms(3) True by (auto simp: rt_device_open_def 1 Let_def case_prod_beta split: if_splits)
      then show ?thesis using run bad k
        by (auto simp: dev_inv_def drv_of_def activated_def drv_run_snoc)
    qed
  next
    case False
    then show ?thesis using assms(3) a(1) by (auto simp: rt_device_open_def 1 Let_def split: if_splits)
  qed
qed

lemma dev_inv_close:
  assumes "dev_inv d" "driver_ok ops"
  shows "dev_inv (snd (rt_device_close ops d))"
proof (cases "ref_count d = 0")
  case True
  then show ?thesis using assms(1) by (simp add: rt_device_close_def)
next
  case False
  have run: "drv_run (False, False) (dev_log d) = Some (activated d, True)"
    and st: "has_flag (dev_flag d) RT_DEVICE_FLAG_STANDALONE \<Longrightarrow> ref_count d \<le> 1"
    using assms(1) False by (auto simp: dev_inv_def drv_of_def)
  show ?thesis
  proof (cases "ref_count d = 1")
    case True
    let ?d = "d\<lparr>ref_count := 0\<rparr>"
    let ?p = "case op_close ops of None \<Rightarrow> (RT_EOK, ?d) | Some f \<Rightarrow> f ?d"
    have "ref_count (snd ?p) = 0" using assms(2) by (auto simp: driver_ok_def keeps_def split: option.split)
    then show ?thesis using True run
      by (auto simp: rt_device_close_def Let_def case_prod_beta dev_inv_def drv_of_def activated_def drv_run_snoc)
  next
    case two: False
    then have "snd (rt_device_close ops d) = d\<lparr>ref_count := ref_count d - 1\<rparr>" "ref_count d - 1 \<noteq> 0"
      using False by (simp_all add: rt_device_close_def Let_def)
    moreover have "\<not> has_flag (dev_flag d) RT_DEVICE_FLAG_STANDALONE"
    proof
      assume "has_flag (dev_flag d) RT_DEVICE_FLAG_STANDALONE"
      then have "unat (ref_count d) \<le> 1" using st by (simp add: word_le_nat_alt)
      moreover have "unat (ref_count d) \<noteq> unat (0 :: u8)" "unat (ref_count d) \<noteq> unat (1 :: u8)"
        using False two by (simp_all only: word_unat_eq_iff simp_thms)
      ultimately show False by simp
    qed
    ultimately show ?thesis using run False by (auto simp: dev_inv_def drv_of_def activated_def)
  qed
qed

lemma dev_inv_driver:
  assumes "dev_inv d" "driver_ok ops" "ref_count d \<noteq> 0"
  shows "dev_inv (snd (rt_device_read ops pos n d))" "dev_inv (snd (rt_device_write ops pos buf d))"
  using assms
  by (auto simp: rt_device_read_def rt_device_write_def Let_def case_prod_beta driver_ok_def drv_of_def
      split: option.split intro!: dev_inv_call)

lemma dev_inv_step:
  assumes "dev_step ops d d'" "dev_inv d" "driver_ok ops"
  shows "dev_inv d'"
  using assms(1)
proof (cases rule: dev_step.cases)
  case (initial r)
  then show ?thesis using dev_inv_init [OF assms(2,3)] by simp
next
  case (open_call oflag r)
  then show ?thesis using dev_inv_open [OF assms(2,3)] by simp
next
  case (close_call r)
  then show ?thesis using dev_inv_close [OF assms(2,3)] by simp
next
  case (reading pos n rd)
  then show ?thesis using dev_inv_driver(1) [OF assms(2,3), of pos n] assms(2)
    by (cases "ref_count d = 0") (auto simp: rt_device_read_def)
next
  case (writing pos buf wr)
  then show ?thesis using dev_inv_driver(2) [OF assms(2,3), of pos buf] assms(2)
    by (cases "ref_count d = 0") (auto simp: rt_device_write_def)
next
  case (ctrl cmd arg r)
  then show ?thesis using assms(2,3)
    by (auto simp: rt_device_control_def driver_ok_def drv_of_def split: option.splits intro!: dev_inv_call)
next
  case (rx h r)
  then show ?thesis using assms(2) by (auto simp: rt_device_set_rx_indicate_def dev_inv_def drv_of_def activated_def)
next
  case (tx h r)
  then show ?thesis using assms(2) by (auto simp: rt_device_set_tx_complete_def dev_inv_def drv_of_def activated_def)
qed

subsection \<open>The names of the devices\<close>

definition registered :: "dev_state \<Rightarrow> string \<Rightarrow> obj_ref option" where
  "registered s name = fst (rt_device_find name (dev_kern s))"

definition dev_objects :: "dev_state \<Rightarrow> obj_ref list" where
  "dev_objects s = obj_list (dev_kern s) RT_Object_Class_Device"

definition dev_names_unique :: "dev_state \<Rightarrow> bool" where
  "dev_names_unique s \<longleftrightarrow> distinct (dev_objects s) \<and>
     (\<forall>r \<in> set (dev_objects s). \<forall>r' \<in> set (dev_objects s).
        rt_name_eq (obj_name (obj_hdr (dev_kern s) r)) (obj_name (obj_hdr (dev_kern s) r')) \<longrightarrow> r = r')"

lemma rt_name_eq_equiv:
  "rt_name_eq a b \<Longrightarrow> rt_name_eq b a" "rt_name_eq a b \<Longrightarrow> rt_name_eq b c \<Longrightarrow> rt_name_eq a c"
  by (simp_all add: rt_name_eq_def)

lemma rt_device_find_eq:
  "fst (rt_device_find name k) = find_object name (obj_hdr k) (obj_list k RT_Object_Class_Device)"
  "obj_hdr (snd (rt_device_find name k)) = obj_hdr k" "obj_list (snd (rt_device_find name k)) = obj_list k"
  by (simp_all add: rt_device_find_def Let_def)

lemma registered_iff:
  assumes "dev_names_unique s"
  shows "registered s name = Some r \<longleftrightarrow>
    r \<in> set (dev_objects s) \<and> rt_name_eq (obj_name (obj_hdr (dev_kern s) r)) name"
proof
  assume "registered s name = Some r"
  then show "r \<in> set (dev_objects s) \<and> rt_name_eq (obj_name (obj_hdr (dev_kern s) r)) name"
    using find_object_Some by (auto simp: registered_def rt_device_find_eq dev_objects_def)
next
  assume r: "r \<in> set (dev_objects s) \<and> rt_name_eq (obj_name (obj_hdr (dev_kern s) r)) name"
  then obtain r' where r': "registered s name = Some r'"
    by (cases "registered s name") (auto simp: registered_def rt_device_find_eq dev_objects_def find_object_None)
  then have "r' \<in> set (dev_objects s)" "rt_name_eq (obj_name (obj_hdr (dev_kern s) r')) name"
    using find_object_Some by (auto simp: registered_def rt_device_find_eq dev_objects_def)
  with r have "r' = r" using assms rt_name_eq_equiv unfolding dev_names_unique_def by blast
  with r' show "registered s name = Some r" by simp
qed

lemma registered_None:
  "registered s name = None \<longleftrightarrow> (\<forall>r \<in> set (dev_objects s). \<not> rt_name_eq (obj_name (obj_hdr (dev_kern s) r)) name)"
  by (simp add: registered_def rt_device_find_eq dev_objects_def find_object_None)

lemma rt_device_register_state:
  "rt_device_register (Some n) name flags s = (RT_EOK, s') \<Longrightarrow> registered s name = None \<and>
     dev_objects s' = Ipc_obj n # dev_objects s \<and>
     obj_hdr (dev_kern s') = (obj_hdr (dev_kern s))(Ipc_obj n :=
       (obj_hdr (dev_kern s) (Ipc_obj n))\<lparr>obj_type := RT_Object_Class_Device, obj_static := True, obj_name := rt_strncpy_name name\<rparr>) \<and>
     devices s' = (devices s)(n := (devices s n)\<lparr>dev_flag := flags, ref_count := 0, open_flag := 0\<rparr>)"
  by (auto simp: rt_device_register_def registered_def dev_objects_def case_prod_beta Let_def kobj_defs
      rt_device_find_eq split: if_splits)

lemma rt_device_register_result:
  "fst (rt_device_register (Some n) name flags s) = (if registered s name = None then RT_EOK else - RT_ERROR)"
  "registered s name \<noteq> None \<Longrightarrow> registered (snd (rt_device_register (Some n) name flags s)) = registered s"
  by (auto simp: rt_device_register_def registered_def case_prod_beta Let_def rt_device_find_eq fun_eq_iff)

lemma dev_register_names:
  assumes "dev_names_unique s" "Ipc_obj n \<notin> set (dev_objects s)"
    "rt_device_register (Some n) name flags s = (RT_EOK, s')"
  shows "dev_names_unique s'"
    "registered s' nm = (if rt_name_eq name nm then Some (Ipc_obj n) else registered s nm)"
proof -
  note r = rt_device_register_state [OF assms(3)]
  have none: "\<not> rt_name_eq (obj_name (obj_hdr (dev_kern s) x)) name" "\<not> rt_name_eq name (obj_name (obj_hdr (dev_kern s) x))"
    "x \<noteq> Ipc_obj n" if "x \<in> set (dev_objects s)" for x
    using that r assms(2) registered_None rt_name_eq_equiv(1) by blast+
  have short: "rt_name_eq (rt_strncpy_name a) b = rt_name_eq a b" "rt_name_eq b (rt_strncpy_name a) = rt_name_eq b a" for a b
    by (simp_all add: rt_name_eq_def rt_strncpy_name_def)
  have h: "obj_hdr (dev_kern s') x = obj_hdr (dev_kern s) x" if "x \<in> set (dev_objects s)" for x
    using r none(3) [OF that] by simp
  have objs: "dev_objects s' = Ipc_obj n # dev_objects s" using r by blast
  have d: "distinct (dev_objects s')" using r assms(1,2) by (simp add: dev_names_unique_def)
  have new: "obj_name (obj_hdr (dev_kern s') (Ipc_obj n)) = rt_strncpy_name name" using r by simp
  have "x = y" if "x \<in> set (dev_objects s')" "y \<in> set (dev_objects s')"
    "rt_name_eq (obj_name (obj_hdr (dev_kern s') x)) (obj_name (obj_hdr (dev_kern s') y))" for x y
  proof -
    from that(1,2) r have "(x = Ipc_obj n \<or> x \<in> set (dev_objects s)) \<and> (y = Ipc_obj n \<or> y \<in> set (dev_objects s))" by simp
    then consider "x = y" | "x = Ipc_obj n" "y \<in> set (dev_objects s)" | "y = Ipc_obj n" "x \<in> set (dev_objects s)"
      | "x \<in> set (dev_objects s)" "y \<in> set (dev_objects s)" by blast
    then show ?thesis
    proof cases
      case 2
      then show ?thesis using that(3) none(2) h new by (simp add: short)
    next
      case 3
      then show ?thesis using that(3) none(1) h new by (simp add: short)
    next
      case 4
      then show ?thesis using that(3) h assms(1) by (simp add: dev_names_unique_def)
    qed simp
  qed
  then show u: "dev_names_unique s'" using d unfolding dev_names_unique_def by blast
  show "registered s' nm = (if rt_name_eq name nm then Some (Ipc_obj n) else registered s nm)"
  proof (cases "rt_name_eq name nm")
    case True
    then show ?thesis using registered_iff [OF u] r by (simp add: short)
  next
    case False
    have "registered s' nm = Some x \<longleftrightarrow> registered s nm = Some x" for x
      using registered_iff [OF u, of nm x] registered_iff [OF assms(1), of nm x] objs h new False assms(2) by (auto simp: short)
    then show ?thesis using False by (cases "registered s nm"; cases "registered s' nm") auto
  qed
qed

lemma dev_unregister_names:
  assumes "dev_names_unique s" "rt_device_unregister n s = (r, s')"
  shows "dev_names_unique s'"
    "registered s' nm = (if registered s nm = Some (Ipc_obj n) then None else registered s nm)"
proof -
  have k: "dev_kern s' = rt_object_detach (Ipc_obj n) (dev_kern s)" using assms(2) by (auto simp: rt_device_unregister_def)
  have h: "obj_hdr (dev_kern s') = obj_hdr (dev_kern s)" by (simp add: k)
  have objs: "dev_objects s' = removeAll (Ipc_obj n) (dev_objects s)"
    by (simp add: k dev_objects_def rt_object_detach_def obj_unlink_def)
  have "distinct (dev_objects s')" using assms(1) by (simp add: objs dev_names_unique_def distinct_removeAll)
  moreover have "set (dev_objects s') \<subseteq> set (dev_objects s)" by (simp add: objs)
  ultimately show u: "dev_names_unique s'" using assms(1) unfolding dev_names_unique_def h by blast
  have x: "registered s' nm = Some x \<longleftrightarrow> registered s nm = Some x \<and> x \<noteq> Ipc_obj n" for x
    unfolding registered_iff [OF u] registered_iff [OF assms(1)] objs h by auto
  show "registered s' nm = (if registered s nm = Some (Ipc_obj n) then None else registered s nm)"
  proof (cases "registered s' nm")
    case None
    then show ?thesis using x [of "the (registered s nm)"] by (cases "registered s nm") auto
  next
    case (Some y)
    then show ?thesis using x [of y] by simp
  qed
qed

subsection \<open>Properties\<close>

text \<open>C35: devices are found by their names, of which eight characters count.
  \<^verbatim>\<open>rt_device_register\<close> accepts a device exactly if no registered one has its name; from then
  on \<^verbatim>\<open>rt_device_find\<close> gives this device for the name and for every other name what it gave before;
  a refused registration changes nothing. \<^verbatim>\<open>rt_device_unregister\<close> takes away just the name of its device.
  No two registered devices ever have the same name.\<close>

theorem dev_registry:
  assumes "dev_names_unique s" "Ipc_obj n \<notin> set (dev_objects s)"
    "rt_device_register (Some n) name flags s = (r, s')" "rt_device_unregister m s' = (r2, s2)"
  shows "r = (if registered s name = None then RT_EOK else - RT_ERROR) \<and>
    registered s' nm = (if r = RT_EOK \<and> rt_name_eq name nm then Some (Ipc_obj n) else registered s nm) \<and>
    registered s2 nm = (if registered s' nm = Some (Ipc_obj m) then None else registered s' nm) \<and>
    dev_names_unique s' \<and> dev_names_unique s2"
proof (cases "registered s name = None")
  case True
  then have r: "rt_device_register (Some n) name flags s = (RT_EOK, s')" "r = RT_EOK"
    using rt_device_register_result(1) [of n name flags s] assms(3) by simp_all
  note u = dev_register_names [OF assms(1,2) r(1)]
  show ?thesis using True r(2) u(1) u(2) [of nm] dev_unregister_names(1) [OF u(1) assms(4)] dev_unregister_names(2) [OF u(1) assms(4), of nm] by simp
next
  case False
  have r: "r = - RT_ERROR" using rt_device_register_result(1) [of n name flags s] False by (simp add: assms(3))
  have s': "registered s' = registered s" using rt_device_register_result(2) [OF False, of n flags] by (simp add: assms(3))
  have u: "dev_names_unique s'"
    using assms(1,3) False by (auto simp: rt_device_register_def registered_def dev_names_unique_def
        dev_objects_def case_prod_beta Let_def rt_device_find_eq)
  show ?thesis using False r s' u dev_unregister_names(1) [OF u assms(4)] dev_unregister_names(2) [OF u assms(4), of nm] by simp
qed

text \<open>C34: from its registration on, whatever calls are made on a device and whatever errors its
  driver reports, the driver is called in order: it is initialised only while the device is not
  activated, and opened only once it is activated (by a successful initialisation, until the
  driver itself takes the flag back); it is read, written and closed only while it is open, that is
  between the first successful opening and the last of the closes that match, and it is
  closed just once for them. It is open in this sense exactly while the reference count is above
  0. The reference count of a stand-alone device is at most 1, and while it is 1 the device's open
  flag is set. A missing function counts as one that succeeds. A driver is relied on to leave the
  reference count to the framework, not to make the device stand-alone, and to change the bit
  \<^verbatim>\<open>RT_DEVICE_OFLAG_OPEN\<close> of the open flag in its open and close functions only (\<open>driver_ok\<close>); all
  drivers of the repository but \<^verbatim>\<open>pipe.c\<close>, which counts its opens itself, do so. A 256th open stops
  at the assertion.\<close>

theorem dev_driver_protocol:
  assumes "driver_ok ops" "rt_device_register (Some n) name flags s = (RT_EOK, s')"
    "\<not> has_flag flags RT_DEVICE_FLAG_ACTIVATED" "dev_log (devices s n) = []"
    "(dev_step ops)\<^sup>*\<^sup>* (devices s' n) d"
  shows "drv_run (False, False) (dev_log d) = Some (activated d, ref_count d \<noteq> 0) \<and>
    (has_flag (dev_flag d) RT_DEVICE_FLAG_STANDALONE \<longrightarrow>
       ref_count d \<le> 1 \<and> (ref_count d \<noteq> 0 \<longrightarrow> has_flag (open_flag d) RT_DEVICE_OFLAG_OPEN))"
proof -
  have "dev_inv (devices s' n)"
    using rt_device_register_state [OF assms(2)] assms(3,4) by (simp add: dev_inv_def drv_of_def activated_def)
  with assms(5) have "dev_inv d" by induction (auto intro: dev_inv_step [OF _ _ assms(1)])
  then show ?thesis by (auto simp: dev_inv_def drv_of_def)
qed

text \<open>The order breaks once a stand-alone device could not be closed: the reference count is 0, the open
  flag is still set, and every later \<^verbatim>\<open>rt_device_open\<close> and \<^verbatim>\<open>rt_device_close\<close> fails.\<close>

theorem dev_failed_close_stays_open:
  assumes "op_close ops = Some f" "fst (f (d\<lparr>ref_count := 0\<rparr>)) \<notin> {RT_EOK, - RT_ENOSYS}"
    "ref_count (snd (f (d\<lparr>ref_count := 0\<rparr>))) = 0" "dev_flag (snd (f (d\<lparr>ref_count := 0\<rparr>))) = dev_flag d"
    "open_flag (snd (f (d\<lparr>ref_count := 0\<rparr>))) = open_flag d"
    "ref_count d = 1" "activated d" "has_flag (dev_flag d) RT_DEVICE_FLAG_STANDALONE" "has_flag (open_flag d) RT_DEVICE_OFLAG_OPEN"
    "rt_device_close ops d = (r, d')"
  shows "rt_device_open ops oflag d' = Some (- RT_EBUSY, d')" "rt_device_close ops d' = (- RT_ERROR, d')"
proof -
  have d': "d' = (snd (f (d\<lparr>ref_count := 0\<rparr>)))\<lparr>dev_log := dev_log d @ [(Dev_close (fst (f (d\<lparr>ref_count := 0\<rparr>))),
      activated (snd (f (d\<lparr>ref_count := 0\<rparr>))))]\<rparr>"
    using assms(1,2,6,10) by (auto simp: rt_device_close_def Let_def)
  then show "rt_device_open ops oflag d' = Some (- RT_EBUSY, d')" "rt_device_close ops d' = (- RT_ERROR, d')"
    using assms(3,4,5,7-9) by (simp_all add: rt_device_open_def open_activate_def rt_device_close_def keeps_def activated_def)
qed

subsection \<open>Witnesses\<close>

definition demo_ops :: dev_ops where
  "demo_ops = \<lparr>op_init = Some (\<lambda>d. (0, d)), op_open = Some (\<lambda>_ d. (0, d)), op_close = Some (\<lambda>d. (- 1, d)),
     op_read = Some (\<lambda>_ _ d. ([65], d)), op_write = None, op_control = None\<rparr>"

definition demo_dev :: rt_device where
  "demo_dev = \<lparr>dev_flag = 0, open_flag = 0, ref_count = 0, rx_indicate = None, tx_complete = None,
     user_data = [], dev_log = []\<rparr>"

definition demo_devs :: dev_state where
  "demo_devs = \<lparr>dev_kern = demo None, devices = \<lambda>_. demo_dev\<rparr>"

lemma demo_ops_ok: "driver_ok demo_ops"
  by (simp add: driver_ok_def demo_ops_def keeps_open_def keeps_def)

lemma demo_devs_free: "dev_objects demo_devs = []" "dev_names_unique demo_devs" "registered demo_devs name = None"
  by (simp_all add: demo_devs_def dev_objects_def dev_names_unique_def registered_def rt_device_find_eq)

lemma demo_register:
  obtains s' where "rt_device_register (Some 7) ''uart1'' 11 demo_devs = (RT_EOK, s')"
  using rt_device_register_result(1) [of 7 "''uart1''" 11 demo_devs] demo_devs_free(3)
  by (cases "rt_device_register (Some 7) ''uart1'' 11 demo_devs") simp

theorem dev_registry_witness:
  "\<exists>s' s2. rt_device_register (Some 7) ''uart1'' 11 demo_devs = (RT_EOK, s') \<and> registered s' ''uart1'' = Some (Ipc_obj 7) \<and>
    rt_device_unregister 7 s' = (RT_EOK, s2) \<and> registered s2 ''uart1'' = None"
proof -
  obtain s' where 1: "rt_device_register (Some 7) ''uart1'' 11 demo_devs = (RT_EOK, s')" by (rule demo_register)
  obtain s2 where 2: "rt_device_unregister 7 s' = (RT_EOK, s2)" by (simp add: rt_device_unregister_def)
  have 3: "Ipc_obj 7 \<notin> set (dev_objects demo_devs)" by (simp add: demo_devs_free)
  show ?thesis using dev_registry [OF demo_devs_free(2) 3 1 2, of "''uart1''"] 1 2 by (auto simp: rt_name_eq_def)
qed

theorem dev_driver_protocol_witness:
  "\<exists>s' d. rt_device_register (Some 7) ''uart1'' 11 demo_devs = (RT_EOK, s') \<and>
    rt_device_open demo_ops 3 (devices s' 7) = Some (RT_EOK, d) \<and> ref_count d = 1 \<and>
    drv_run (False, False) (dev_log d) = Some (True, True)"
proof -
  obtain s' where 1: "rt_device_register (Some 7) ''uart1'' 11 demo_devs = (RT_EOK, s')" by (rule demo_register)
  have s': "devices s' 7 = demo_dev\<lparr>dev_flag := 11, ref_count := 0, open_flag := 0\<rparr>"
    using rt_device_register_state [OF 1] by (simp add: demo_devs_def)
  have f: "\<not> has_flag 11 RT_DEVICE_FLAG_ACTIVATED" by (simp add: has_flag_def)
  have l: "dev_log (devices demo_devs 7) = []" by (simp add: demo_devs_def demo_dev_def)
  obtain d where 2: "rt_device_open demo_ops 3 (devices s' 7) = Some (RT_EOK, d)" "ref_count d = 1" "activated d"
    unfolding s' by (simp add: rt_device_open_def open_activate_def demo_ops_def demo_dev_def has_flag_def activated_def)
  from 2(1) have "(dev_step demo_ops)\<^sup>*\<^sup>* (devices s' 7) d" by (auto intro: dev_step.open_call)
  from dev_driver_protocol [OF demo_ops_ok 1 f l this] 1 2 show ?thesis by auto
qed

theorem dev_failed_close_stays_open_witness:
  "\<exists>r d'. rt_device_close demo_ops (demo_dev\<lparr>dev_flag := 24, open_flag := 8, ref_count := 1\<rparr>) = (r, d') \<and>
    rt_device_open demo_ops 3 d' = Some (- RT_EBUSY, d')"
proof -
  let ?d = "demo_dev\<lparr>dev_flag := 24, open_flag := 8, ref_count := 1\<rparr>"
  obtain r d' where c: "rt_device_close demo_ops ?d = (r, d')" by (cases "rt_device_close demo_ops ?d")
  have "op_close demo_ops = Some (\<lambda>d. (- 1, d))" by (simp add: demo_ops_def)
  from dev_failed_close_stays_open(1) [OF this _ _ _ _ _ _ _ _ c, of 3] show ?thesis
    using c by (simp add: activated_def has_flag_def)
qed

end
