(* ===== verification/Ringbuffer.thy ===== *)
theory Ringbuffer
  imports Fifo Rtdef
begin

text \<open>
  The byte ring buffer of the device drivers (\<^verbatim>\<open>components/drivers/src/ringbuffer.c\<close>,
  \<^verbatim>\<open>include/ipc/ringbuffer.h\<close>): a pool, a read and a write position of 15 bits each with a
  mirror bit that flips when the position wraps, so that all of the pool can be used.

  A call gives \<open>None\<close> where the C code would read or write outside the caller's block or the
  pool. \<open>rb_wf\<close> is the invariant, \<open>rb_items\<close> the bytes stored, oldest first; the calls act on
  it as on a bounded queue (interpretation \<open>rb\<close> of \<open>bounded_fifo\<close> for single bytes, the
  lemmas \<open>ringbuffer_put_items\<close> and \<open>ringbuffer_get_items\<close> for blocks).
\<close>

subsection \<open>Data\<close>

record rt_ringbuffer =
  buffer_ptr :: "byte list"
  read_mirror :: bool
  read_index :: "15 word"
  write_mirror :: bool
  write_index :: "15 word"
  buffer_size :: "16 word"

datatype rt_ringbuffer_state = RT_RINGBUFFER_EMPTY | RT_RINGBUFFER_FULL | RT_RINGBUFFER_HALFFULL

definition rt_ringbuffer_status :: "rt_ringbuffer \<Rightarrow> rt_ringbuffer_state" where
  "rt_ringbuffer_status rb =
     (if read_index rb = write_index rb
      then if read_mirror rb = write_mirror rb then RT_RINGBUFFER_EMPTY else RT_RINGBUFFER_FULL
      else RT_RINGBUFFER_HALFFULL)"

text \<open>\<open>memcpy\<close> into a buffer at an offset, and out of it; the counts are C \<^verbatim>\<open>int\<close>s.\<close>

definition copy_in :: "byte list \<Rightarrow> int \<Rightarrow> byte list \<Rightarrow> int \<Rightarrow> byte list option" where
  "copy_in dst off src n =
     (if 0 \<le> off \<and> 0 \<le> n \<and> off + n \<le> int (length dst) \<and> n \<le> int (length src)
      then Some (take (nat off) dst @ take (nat n) src @ drop (nat off + nat n) dst)
      else None)"

definition copy_out :: "byte list \<Rightarrow> int \<Rightarrow> int \<Rightarrow> byte list option" where
  "copy_out src off n =
     (if 0 \<le> off \<and> 0 \<le> n \<and> off + n \<le> int (length src)
      then Some (take (nat n) (drop (nat off) src))
      else None)"

subsection \<open>Operations\<close>

definition rt_ringbuffer_reset :: "rt_ringbuffer \<Rightarrow> rt_ringbuffer" where
  "rt_ringbuffer_reset rb =
     rb\<lparr>read_mirror := False, read_index := 0, write_mirror := False, write_index := 0\<rparr>"

definition rt_ringbuffer_init :: "byte list \<Rightarrow> 16 word \<Rightarrow> rt_ringbuffer" where
  "rt_ringbuffer_init pool sz =
     \<lparr>buffer_ptr = pool, read_mirror = False, read_index = 0, write_mirror = False,
      write_index = 0, buffer_size = ucast (RT_ALIGN_DOWN (scast sz) (of_nat RT_ALIGN_SIZE))\<rparr>"

text \<open>
  \<open>m1\<close> and \<open>m2\<close>: what the two calls of \<^verbatim>\<open>rt_malloc\<close> return. When the second one fails the
  function frees the control block and returns its address all the same.
\<close>

datatype rb_created = Rb_null | Rb_freed | Rb_created rt_ringbuffer

definition rt_ringbuffer_create :: "u16 \<Rightarrow> bool \<Rightarrow> byte list option \<Rightarrow> rb_created" where
  "rt_ringbuffer_create sz m1 m2 =
     (let sz = ucast (RT_ALIGN_DOWN (ucast sz) (of_nat RT_ALIGN_SIZE)) :: u16 in
      if \<not> m1 then Rb_null
      else case m2 of
        None \<Rightarrow> Rb_freed
      | Some pool \<Rightarrow> Rb_created (rt_ringbuffer_init pool sz))"

definition rt_ringbuffer_data_len :: "rt_ringbuffer \<Rightarrow> u32" where
  "rt_ringbuffer_data_len rb =
     (case rt_ringbuffer_status rb of
        RT_RINGBUFFER_EMPTY \<Rightarrow> 0
      | RT_RINGBUFFER_FULL \<Rightarrow> scast (buffer_size rb)
      | RT_RINGBUFFER_HALFFULL \<Rightarrow>
          if write_index rb > read_index rb
          then of_int (uint (write_index rb) - uint (read_index rb))
          else of_int (sint (buffer_size rb) - (uint (read_index rb) - uint (write_index rb))))"

definition rt_ringbuffer_get_size :: "rt_ringbuffer \<Rightarrow> u16" where
  "rt_ringbuffer_get_size rb = buffer_size rb"

definition rt_ringbuffer_space_len :: "rt_ringbuffer \<Rightarrow> u32" where
  "rt_ringbuffer_space_len rb = scast (buffer_size rb) - rt_ringbuffer_data_len rb"

text \<open>The room up to the end of the pool, and the copy of \<open>len\<close> bytes that starts there.\<close>

definition write_room :: "rt_ringbuffer \<Rightarrow> int" where
  "write_room rb = sint (buffer_size rb) - uint (write_index rb)"

definition put_wrapped :: "rt_ringbuffer \<Rightarrow> byte list \<Rightarrow> u16 \<Rightarrow> rt_ringbuffer option" where
  "put_wrapped rb ptr len =
     (case copy_in (buffer_ptr rb) (uint (write_index rb)) ptr (write_room rb) of
        None \<Rightarrow> None
      | Some p \<Rightarrow>
          (case copy_in p 0 (drop (nat (write_room rb)) ptr) (uint len - write_room rb) of
             None \<Rightarrow> None
           | Some p \<Rightarrow> Some (rb\<lparr>buffer_ptr := p, write_mirror := \<not> write_mirror rb,
               write_index := of_int (uint len - write_room rb)\<rparr>)))"

definition put_straight :: "rt_ringbuffer \<Rightarrow> byte list \<Rightarrow> u16 \<Rightarrow> rt_ringbuffer option" where
  "put_straight rb ptr len =
     map_option (\<lambda>p. rb\<lparr>buffer_ptr := p, write_index := write_index rb + ucast len\<rparr>)
       (copy_in (buffer_ptr rb) (uint (write_index rb)) ptr (uint len))"

definition rt_ringbuffer_put :: "rt_ringbuffer \<Rightarrow> byte list \<Rightarrow> u16 \<Rightarrow> (u32 \<times> rt_ringbuffer) option" where
  "rt_ringbuffer_put rb ptr len =
     (let sz = ucast (rt_ringbuffer_space_len rb) :: u16 in
      if sz = 0 then Some (0, rb)
      else
        (let len = (if sz < len then sz else len) in
         if write_room rb > uint len
         then map_option (Pair (ucast len)) (put_straight rb ptr len)
         else map_option (Pair (ucast len)) (put_wrapped rb ptr len)))"

definition rt_ringbuffer_put_force :: "rt_ringbuffer \<Rightarrow> byte list \<Rightarrow> u16 \<Rightarrow> (u32 \<times> rt_ringbuffer) option" where
  "rt_ringbuffer_put_force rb ptr len =
     (let space = ucast (rt_ringbuffer_space_len rb) :: u16;
          len = (if len > space then buffer_size rb else len) in
      if write_room rb > uint len
      then map_option (\<lambda>rb. (ucast len,
             if len > space then rb\<lparr>read_index := write_index rb\<rparr> else rb)) (put_straight rb ptr len)
      else map_option (\<lambda>rb. (ucast len,
             if len > space
             then rb\<lparr>read_mirror := \<not> read_mirror rb, read_index := write_index rb\<rparr>
             else rb)) (put_wrapped rb ptr len))"

text \<open>The bytes that \<open>get\<close> stores at the caller's pointer are part of its result.\<close>

definition rt_ringbuffer_get :: "rt_ringbuffer \<Rightarrow> u16 \<Rightarrow> (u32 \<times> byte list \<times> rt_ringbuffer) option" where
  "rt_ringbuffer_get rb len =
     (let sz = rt_ringbuffer_data_len rb in
      if sz = 0 then Some (0, [], rb)
      else
        (let len = (if sz < ucast len then ucast sz else len);
             room = sint (buffer_size rb) - uint (read_index rb) in
         if room > uint len
         then map_option (\<lambda>bs. (ucast len, bs, rb\<lparr>read_index := read_index rb + ucast len\<rparr>))
                (copy_out (buffer_ptr rb) (uint (read_index rb)) (uint len))
         else
           (case (copy_out (buffer_ptr rb) (uint (read_index rb)) room,
                  copy_out (buffer_ptr rb) 0 (uint len - room)) of
              (Some a, Some b) \<Rightarrow> Some (ucast len, a @ b,
                rb\<lparr>read_mirror := \<not> read_mirror rb, read_index := of_int (uint len - room)\<rparr>)
            | _ \<Rightarrow> None)))"

definition store_byte :: "rt_ringbuffer \<Rightarrow> byte \<Rightarrow> rt_ringbuffer option" where
  "store_byte rb ch =
     (if unat (write_index rb) < length (buffer_ptr rb)
      then Some (rb\<lparr>buffer_ptr := (buffer_ptr rb)[unat (write_index rb) := ch]\<rparr>)
      else None)"

definition rt_ringbuffer_putchar :: "rt_ringbuffer \<Rightarrow> byte \<Rightarrow> (u32 \<times> rt_ringbuffer) option" where
  "rt_ringbuffer_putchar rb ch =
     (if rt_ringbuffer_space_len rb = 0 then Some (0, rb)
      else map_option (\<lambda>rb. (1,
        if uint (write_index rb) = sint (buffer_size rb) - 1
        then rb\<lparr>write_mirror := \<not> write_mirror rb, write_index := 0\<rparr>
        else rb\<lparr>write_index := write_index rb + 1\<rparr>)) (store_byte rb ch))"

definition rt_ringbuffer_putchar_force :: "rt_ringbuffer \<Rightarrow> byte \<Rightarrow> (u32 \<times> rt_ringbuffer) option" where
  "rt_ringbuffer_putchar_force rb ch =
     (let old_state = rt_ringbuffer_status rb in
      map_option (\<lambda>rb. (1,
        if uint (write_index rb) = sint (buffer_size rb) - 1
        then (let rb = rb\<lparr>write_mirror := \<not> write_mirror rb, write_index := 0\<rparr> in
              if old_state = RT_RINGBUFFER_FULL
              then rb\<lparr>read_mirror := \<not> read_mirror rb, read_index := write_index rb\<rparr> else rb)
        else (let rb = rb\<lparr>write_index := write_index rb + 1\<rparr> in
              if old_state = RT_RINGBUFFER_FULL then rb\<lparr>read_index := write_index rb\<rparr> else rb)))
        (store_byte rb ch))"

definition rt_ringbuffer_getchar :: "rt_ringbuffer \<Rightarrow> (u32 \<times> byte option \<times> rt_ringbuffer) option" where
  "rt_ringbuffer_getchar rb =
     (if rt_ringbuffer_data_len rb = 0 then Some (0, None, rb)
      else if unat (read_index rb) < length (buffer_ptr rb)
      then Some (1, Some (buffer_ptr rb ! unat (read_index rb)),
        if uint (read_index rb) = sint (buffer_size rb) - 1
        then rb\<lparr>read_mirror := \<not> read_mirror rb, read_index := 0\<rparr>
        else rb\<lparr>read_index := read_index rb + 1\<rparr>)
      else None)"

subsection \<open>The invariant and the contents\<close>

definition rb_cap :: "rt_ringbuffer \<Rightarrow> nat" where
  "rb_cap rb = length (buffer_ptr rb)"

definition rb_wf :: "rt_ringbuffer \<Rightarrow> bool" where
  "rb_wf rb \<longleftrightarrow> 0 < rb_cap rb \<and> sint (buffer_size rb) = int (rb_cap rb) \<and>
     unat (read_index rb) < rb_cap rb \<and> unat (write_index rb) < rb_cap rb \<and>
     (if read_mirror rb = write_mirror rb then read_index rb \<le> write_index rb
      else write_index rb \<le> read_index rb)"

definition rb_count :: "rt_ringbuffer \<Rightarrow> nat" where
  "rb_count rb =
     (if read_mirror rb = write_mirror rb then unat (write_index rb) - unat (read_index rb)
      else rb_cap rb - (unat (read_index rb) - unat (write_index rb)))"

definition rb_items :: "rt_ringbuffer \<Rightarrow> byte list" where
  "rb_items rb = circ (buffer_ptr rb) (unat (read_index rb)) (rb_count rb)"

lemma rb_cap_bound: "rb_wf rb \<Longrightarrow> rb_cap rb < 2 ^ 15"
proof -
  assume "rb_wf rb"
  moreover have "sint (buffer_size rb) < 2 ^ 15" using sint_lt [of "buffer_size rb"] by simp
  ultimately show ?thesis by (simp add: rb_wf_def)
qed

lemma u15_Suc: "unat w + n < 2 ^ 15 \<Longrightarrow> unat (w + of_nat n) = unat w + n" for w :: "15 word"
  by (simp add: unat_word_ariths take_bit_nat_eq_self unat_of_nat)

lemma u15_of_int: "n < 2 ^ 15 \<Longrightarrow> unat (of_int (int n) :: 15 word) = n"
  unfolding of_int_of_nat_eq by (simp add: unat_of_nat take_bit_nat_eq_self)

lemma word_of_sint: "sint w = int n \<Longrightarrow> w = of_nat n" for w :: "'a::len word"
proof -
  assume "sint w = int n"
  moreover have "w = word_of_int (sint w)" by simp
  ultimately have "w = word_of_int (int n)" by argo
  then show ?thesis by simp
qed

lemma rb_counts:
  assumes "rb_wf rb"
  shows "rb_count rb \<le> rb_cap rb" "unat (rt_ringbuffer_data_len rb) = rb_count rb"
    "unat (rt_ringbuffer_space_len rb) = rb_cap rb - rb_count rb"
    "(unat (read_index rb) + rb_count rb) mod rb_cap rb = unat (write_index rb)"
    "scast (buffer_size rb) = (of_nat (rb_cap rb) :: u32)"
proof -
  let ?r = "unat (read_index rb)" and ?w = "unat (write_index rb)" and ?n = "rb_cap rb"
  have b: "?n < 2 ^ 15" using rb_cap_bound [OF assms] .
  have wf: "?r < ?n" "?w < ?n" "read_mirror rb = write_mirror rb \<Longrightarrow> ?r \<le> ?w"
    "read_mirror rb \<noteq> write_mirror rb \<Longrightarrow> ?w \<le> ?r" "sint (buffer_size rb) = int ?n"
    using assms by (auto simp: rb_wf_def word_le_nat_alt)
  show sc: "scast (buffer_size rb) = (of_nat ?n :: u32)"
    using wf(5) by (metis of_int_of_nat_eq of_int_sint)
  show c: "rb_count rb \<le> ?n" using wf by (auto simp: rb_count_def)
  have u: "unat (of_nat m :: u32) = m" if "m \<le> ?n" for m
    using that b by (simp add: unat_of_nat take_bit_nat_eq_self)
  have eq: "rt_ringbuffer_data_len rb = of_nat (rb_count rb)"
  proof (cases "read_index rb = write_index rb")
    case True
    then show ?thesis using sc
      by (simp add: rt_ringbuffer_data_len_def rt_ringbuffer_status_def rb_count_def)
  next
    case False
    then have ne: "?r \<noteq> ?w" and st: "rt_ringbuffer_status rb = RT_RINGBUFFER_HALFFULL"
      by (simp_all add: word_unat_eq_iff rt_ringbuffer_status_def)
    show ?thesis
    proof (cases "read_mirror rb = write_mirror rb")
      case True
      then have "?r < ?w" using wf(3) ne by simp
      then have "uint (write_index rb) - uint (read_index rb) = int (rb_count rb)"
        using True by (simp add: rb_count_def of_nat_diff)
      moreover have "read_index rb < write_index rb" using \<open>?r < ?w\<close> by (simp add: word_less_nat_alt)
      ultimately show ?thesis
        unfolding rt_ringbuffer_data_len_def st by (simp only: rt_ringbuffer_state.case if_True of_int_of_nat_eq)
    next
      case m: False
      then have "?w < ?r" using wf(4) ne by simp
      then have "sint (buffer_size rb) - (uint (read_index rb) - uint (write_index rb)) = int (rb_count rb)"
        using m wf(1,5) by (simp add: rb_count_def of_nat_diff)
      moreover have "\<not> read_index rb < write_index rb" using \<open>?w < ?r\<close> by (simp add: word_less_nat_alt)
      ultimately show ?thesis
        unfolding rt_ringbuffer_data_len_def st by (simp only: rt_ringbuffer_state.case if_False of_int_of_nat_eq)
    qed
  qed
  show "unat (rt_ringbuffer_data_len rb) = rb_count rb" unfolding eq using u [OF c] .
  have "rt_ringbuffer_space_len rb = of_nat (?n - rb_count rb)"
    unfolding rt_ringbuffer_space_len_def sc eq using c by (simp add: of_nat_diff)
  then show "unat (rt_ringbuffer_space_len rb) = ?n - rb_count rb" using u [of "?n - rb_count rb"] by simp
  show "(?r + rb_count rb) mod ?n = ?w"
  proof (cases "read_mirror rb = write_mirror rb")
    case True
    then show ?thesis using wf by (simp add: rb_count_def)
  next
    case False
    then have "?r + rb_count rb = ?w + ?n" using wf by (simp add: rb_count_def)
    then show ?thesis using wf(2) by simp
  qed
qed

lemma length_rb_items [simp]: "length (rb_items rb) = rb_count rb"
  by (simp add: rb_items_def)

subsection \<open>Storing\<close>

lemma room_nat:
  assumes "rb_wf rb"
  shows "write_room rb = int (rb_cap rb - unat (write_index rb))"
    "sint (buffer_size rb) - uint (read_index rb) = int (rb_cap rb - unat (read_index rb))"
  using assms by (simp_all add: rb_wf_def write_room_def of_nat_diff)

lemma copy_in_nat:
  "off + n \<le> length dst \<Longrightarrow> n \<le> length src \<Longrightarrow>
     copy_in dst (int off) src (int n) = Some (take off dst @ take n src @ drop (off + n) dst)"
  by (simp add: copy_in_def)

lemma copy_out_nat:
  "off + n \<le> length src \<Longrightarrow> copy_out src (int off) (int n) = Some (take n (drop off src))"
  by (simp add: copy_out_def)

lemma put_block:
  fixes len :: u16
  assumes wf: "rb_wf rb" and fit: "rb_count rb + unat len \<le> rb_cap rb" and src: "unat len \<le> length ptr"
  shows "\<exists>rb'. (if write_room rb > uint len then put_straight rb ptr len else put_wrapped rb ptr len) = Some rb' \<and>
    rb_wf rb' \<and> rb_items rb' = rb_items rb @ take (unat len) ptr \<and> rb_cap rb' = rb_cap rb"
proof -
  let ?N = "rb_cap rb" and ?w = "unat (write_index rb)" and ?r = "unat (read_index rb)"
    and ?m = "unat len" and ?xs = "buffer_ptr rb"
  let ?bs = "take ?m ptr"
  have N: "?N < 2 ^ 15" "length ?xs = ?N" using rb_cap_bound [OF wf] by (simp_all add: rb_cap_def)
  have w: "?w < ?N" "?r < ?N" "sint (buffer_size rb) = int ?N"
    "read_mirror rb = write_mirror rb \<Longrightarrow> ?r \<le> ?w" "read_mirror rb \<noteq> write_mirror rb \<Longrightarrow> ?w \<le> ?r"
    using wf by (auto simp: rb_wf_def word_le_nat_alt)
  have lb: "length ?bs = ?m" using src by simp
  note wr = circ_write [of "rb_count rb" ?bs ?xs ?r ?w, unfolded N(2) lb,
      OF fit rb_counts(4) [OF wf] w(2)]
  have items: "circ ys ?r (rb_count rb + ?m) = rb_items rb @ ?bs \<and> length ys = ?N"
    if "ys = (if ?w + ?m \<le> ?N then take ?w ?xs @ ?bs @ drop (?w + ?m) ?xs
      else drop (?N - ?w) ?bs @ drop (?m - (?N - ?w)) (take ?w ?xs) @ take (?N - ?w) ?bs)" for ys
    using wr [OF that] unfolding rb_items_def .
  show ?thesis
  proof (cases "?w + ?m < ?N")
    case True
    let ?ys = "take ?w ?xs @ ?bs @ drop (?w + ?m) ?xs"
    let ?rb = "rb\<lparr>buffer_ptr := ?ys, write_index := write_index rb + ucast len\<rparr>"
    have u: "ucast len = (of_nat ?m :: 15 word)" by simp
    have w': "unat (write_index rb + ucast len) = ?w + ?m"
      unfolding u by (rule u15_Suc) (use True N(1) in linarith)
    have "copy_in ?xs (uint (write_index rb)) ptr (uint len) = Some ?ys"
      unfolding uint_nat by (rule copy_in_nat) (use True N(2) src in simp_all)
    then have st: "put_straight rb ptr len = Some ?rb" by (simp add: put_straight_def)
    have c: "rb_cap ?rb = ?N" using items [of ?ys] True by (simp add: rb_cap_def)
    have cnt: "rb_count ?rb = rb_count rb + ?m"
      using w' w fit c by (cases "read_mirror rb = write_mirror rb") (auto simp: rb_count_def)
    have "rb_wf ?rb" using wf w' w True fit c
      by (auto simp: rb_wf_def word_le_nat_alt rb_count_def split: if_splits)
    moreover have "rb_items ?rb = rb_items rb @ ?bs"
      using items [of ?ys] True cnt by (simp add: rb_items_def)
    moreover have "write_room rb > uint len" using True w(1) unfolding room_nat [OF wf] uint_nat by linarith
    ultimately show ?thesis using st c by simp
  next
    case False
    let ?k = "?N - ?w"
    let ?p = "take ?w ?xs @ take ?k ptr"
    let ?ys = "take (?m - ?k) (drop ?k ptr) @ drop (?m - ?k) ?p"
    let ?rb = "rb\<lparr>buffer_ptr := ?ys, write_mirror := \<not> write_mirror rb,
      write_index := of_int (uint len - write_room rb)\<rparr>"
    have k: "?k \<le> ?m" "?m - ?k \<le> ?N" using False w(1) fit by auto
    have m: "read_mirror rb = write_mirror rb"
      using False w(1,2,5) fit by (auto simp: rb_count_def split: if_splits)
    have d: "uint len - write_room rb = int (?m - ?k)"
      unfolding room_nat [OF wf] uint_nat using k by linarith
    have w': "unat (of_int (uint len - write_room rb) :: 15 word) = ?m - ?k"
      unfolding d by (rule u15_of_int) (use k N(1) in linarith)
    have a: "copy_in ?xs (uint (write_index rb)) ptr (write_room rb) = Some ?p"
      unfolding uint_nat room_nat [OF wf] by (subst copy_in_nat) (use k src N(2) w(1) in simp_all)
    have b: "copy_in ?p 0 (drop (nat (write_room rb)) ptr) (uint len - write_room rb) = Some ?ys"
    proof -
      have "nat (write_room rb) = ?k" by (simp add: room_nat [OF wf])
      moreover have "copy_in ?p (int 0) (drop ?k ptr) (int (?m - ?k)) = Some ?ys"
        by (subst copy_in_nat) (use k src N(2) w(1) in \<open>simp_all add: min_def\<close>)
      ultimately show ?thesis unfolding d by simp
    qed
    have st: "put_wrapped rb ptr len = Some ?rb"
      unfolding put_wrapped_def a option.case b ..
    have ys: "?ys = (if ?w + ?m \<le> ?N then take ?w ?xs @ ?bs @ drop (?w + ?m) ?xs
      else drop ?k ?bs @ drop (?m - ?k) (take ?w ?xs) @ take ?k ?bs)"
    proof (cases "?w + ?m = ?N")
      case True
      then have "?k = ?m" by simp
      then show ?thesis using True N(2) by simp
    next
      case neq: False
      moreover have "?m \<le> ?N" using fit by simp
      ultimately show ?thesis using k False N(2) w(1) by (simp add: drop_take min_def)
    qed
    note it = items [OF ys]
    have c: "rb_cap ?rb = ?N" using it by (simp add: rb_cap_def)
    have cnt: "rb_count ?rb = rb_count rb + ?m"
    proof -
      have "rb_count rb = ?w - ?r" using m by (simp add: rb_count_def)
      moreover have "rb_count ?rb = ?N - (?r - (?m - ?k))"
        unfolding rb_count_def c using m w' by simp
      ultimately show ?thesis using w(1,2) w(4) [OF m] fit k by arith
    qed
    have le: "?m - ?k \<le> ?r" using m w(1) w(4) [OF m] fit by (simp add: rb_count_def)
    then have "?m - ?k < ?N" using w(2) by linarith
    then have "rb_wf ?rb" unfolding rb_wf_def c using w m le
      by (simp add: word_le_nat_alt del: of_int_diff) (simp add: w' del: of_int_diff)
    moreover have "rb_items ?rb = rb_items rb @ ?bs" using it cnt by (simp add: rb_items_def)
    moreover have "\<not> write_room rb > uint len" using False w(1) unfolding room_nat [OF wf] uint_nat by linarith
    ultimately show ?thesis using st c by simp
  qed
qed

lemma u16_space:
  assumes "rb_wf rb"
  shows "unat (ucast (rt_ringbuffer_space_len rb) :: u16) = rb_cap rb - rb_count rb"
proof -
  have "unat (rt_ringbuffer_space_len rb) < 2 ^ 16"
    using rb_counts(3) [OF assms] rb_cap_bound [OF assms] by simp
  then have "unat (ucast (rt_ringbuffer_space_len rb) :: u16) = unat (rt_ringbuffer_space_len rb)"
    by (simp add: unsigned_ucast_eq take_bit_nat_eq_self)
  then show ?thesis using rb_counts(3) [OF assms] by simp
qed

lemma ringbuffer_put_items:
  fixes len :: u16
  assumes wf: "rb_wf rb" and src: "unat len \<le> length ptr"
  defines "m \<equiv> min (unat len) (rb_cap rb - rb_count rb)"
  shows "\<exists>rb'. rt_ringbuffer_put rb ptr len = Some (of_nat m, rb') \<and> rb_wf rb' \<and>
    rb_items rb' = rb_items rb @ take m ptr \<and> rb_cap rb' = rb_cap rb"
proof -
  let ?sz = "ucast (rt_ringbuffer_space_len rb) :: u16"
  note sz = u16_space [OF wf]
  show ?thesis
  proof (cases "?sz = 0")
    case True
    then have "m = 0" using sz by (simp add: m_def)
    then show ?thesis using True wf by (simp add: rt_ringbuffer_put_def)
  next
    case False
    let ?len = "if ?sz < len then ?sz else len"
    have l: "unat ?len = m" using sz by (simp add: m_def word_less_nat_alt min_def)
    have f: "rb_count rb + unat ?len \<le> rb_cap rb" "unat ?len \<le> length ptr"
      unfolding l using rb_counts(1) [OF wf] src by (auto simp: m_def)
    obtain rb' where rb': "(if write_room rb > uint ?len then put_straight rb ptr ?len else put_wrapped rb ptr ?len) = Some rb'"
      "rb_wf rb'" "rb_items rb' = rb_items rb @ take m ptr" "rb_cap rb' = rb_cap rb"
      using put_block [OF wf f] unfolding l by blast
    have "ucast ?len = (of_nat m :: u32)" unfolding l [symmetric] by simp
    moreover have "rt_ringbuffer_put rb ptr len = map_option (Pair (ucast ?len))
        (if write_room rb > uint ?len then put_straight rb ptr ?len else put_wrapped rb ptr ?len)"
      using False unfolding rt_ringbuffer_put_def Let_def by simp
    ultimately show ?thesis using rb' by simp
  qed
qed

subsection \<open>Fetching\<close>

lemma rb_items_take: "m \<le> rb_count rb \<Longrightarrow> take m (rb_items rb) = circ (buffer_ptr rb) (unat (read_index rb)) m"
  by (simp add: rb_items_def circ_def take_map)

lemma rb_items_drop:
  assumes "m \<le> rb_count rb"
  shows "drop m (rb_items rb) =
    circ (buffer_ptr rb) ((unat (read_index rb) + m) mod rb_cap rb) (rb_count rb - m)"
  using circ_add [of "buffer_ptr rb" "unat (read_index rb)" m "rb_count rb - m"] assms
  by (simp add: rb_items_def rb_cap_def)

text \<open>The reader's side moved on by \<open>m\<close> stored bytes.\<close>

lemma read_advance:
  assumes wf: "rb_wf rb" and m: "m \<le> rb_count rb"
    and same: "buffer_ptr rb' = buffer_ptr rb" "write_index rb' = write_index rb"
      "write_mirror rb' = write_mirror rb" "buffer_size rb' = buffer_size rb"
    and r: "if unat (read_index rb) + m < rb_cap rb
      then unat (read_index rb') = unat (read_index rb) + m \<and> read_mirror rb' = read_mirror rb
      else unat (read_index rb') = unat (read_index rb) + m - rb_cap rb \<and> read_mirror rb' = (\<not> read_mirror rb)"
  shows "rb_wf rb'" "rb_items rb' = drop m (rb_items rb)" "rb_cap rb' = rb_cap rb"
proof -
  let ?N = "rb_cap rb" and ?r = "unat (read_index rb)" and ?w = "unat (write_index rb)"
  have w: "?w < ?N" "?r < ?N" "read_mirror rb = write_mirror rb \<Longrightarrow> ?r \<le> ?w"
    "read_mirror rb \<noteq> write_mirror rb \<Longrightarrow> ?w \<le> ?r"
    using wf by (auto simp: rb_wf_def word_le_nat_alt)
  show c: "rb_cap rb' = ?N" by (simp add: rb_cap_def same)
  have mN: "m \<le> ?N" using m rb_counts(1) [OF wf] by simp
  have lt: "unat (read_index rb') < ?N" using r w(2) mN by (auto split: if_splits)
  have md: "unat (read_index rb') = (?r + m) mod ?N" using r w(2) mN by (auto simp: mod_if split: if_splits)
  have cnt: "rb_count rb' = rb_count rb - m"
    and ord: "if read_mirror rb' = write_mirror rb then unat (read_index rb') \<le> ?w else ?w \<le> unat (read_index rb')"
    using r w m by (auto simp: rb_count_def c same split: if_splits)
  show "rb_wf rb'" using wf lt ord by (auto simp: rb_wf_def c same word_le_nat_alt)
  show "rb_items rb' = drop m (rb_items rb)"
    unfolding rb_items_drop [OF m] by (simp add: rb_items_def same cnt md)
qed

lemma ringbuffer_get_items:
  fixes len :: u16
  assumes wf: "rb_wf rb"
  defines "m \<equiv> min (unat len) (rb_count rb)"
  shows "\<exists>rb'. rt_ringbuffer_get rb len = Some (of_nat m, take m (rb_items rb), rb') \<and> rb_wf rb' \<and>
    rb_items rb' = drop m (rb_items rb) \<and> rb_cap rb' = rb_cap rb"
proof -
  let ?N = "rb_cap rb" and ?r = "unat (read_index rb)" and ?xs = "buffer_ptr rb"
    and ?sz = "rt_ringbuffer_data_len rb"
  have r: "?r < ?N" using wf by (simp add: rb_wf_def)
  have N: "?N < 2 ^ 15" "length ?xs = ?N" using rb_cap_bound [OF wf] by (simp_all add: rb_cap_def)
  note cnt = rb_counts(1,2) [OF wf]
  show ?thesis
  proof (cases "?sz = 0")
    case True
    then have "m = 0" using cnt(2) by (simp add: m_def)
    then show ?thesis using True wf by (simp add: rt_ringbuffer_get_def)
  next
    case False
    let ?len = "if ?sz < ucast len then ucast ?sz else len :: u16"
    have "unat ?sz < 2 ^ 16" using cnt N(1) by simp
    then have "unat (ucast ?sz :: u16) = unat ?sz"
      by (simp add: unsigned_ucast_eq take_bit_nat_eq_self)
    then have l: "unat ?len = m" using cnt(2) by (auto simp: m_def word_less_nat_alt)
    have u: "uint ?len = int m" unfolding uint_nat l ..
    have m: "m \<le> rb_count rb" "m \<le> ?N" using cnt(1) by (simp_all add: m_def)
    have ret: "ucast ?len = (of_nat m :: u32)" "ucast ?len = (of_nat m :: 15 word)"
      unfolding l [symmetric] by simp_all
    note eq = rt_ringbuffer_get_def [of rb len, unfolded Let_def if_not_P [OF False]]
    note bytes = rb_items_take [OF m(1)]
    show ?thesis
    proof (cases "?r + m < ?N")
      case True
      let ?rb = "rb\<lparr>read_index := read_index rb + of_nat m\<rparr>"
      have "unat (read_index ?rb) = ?r + m" using u15_Suc [of "read_index rb" m] True N(1) by simp
      then have st: "rb_wf ?rb" "rb_items ?rb = drop m (rb_items rb)" "rb_cap ?rb = ?N"
        using read_advance [OF wf m(1), of ?rb] True by simp_all
      have "copy_out ?xs (uint (read_index rb)) (int m) = Some (take m (drop ?r ?xs))"
        unfolding uint_nat by (rule copy_out_nat) (use True N(2) in simp)
      moreover have "take m (drop ?r ?xs) = take m (rb_items rb)"
        unfolding bytes by (rule circ_straight [symmetric]) (use True N(2) in simp)
      moreover have "int m < sint (buffer_size rb) - uint (read_index rb)"
        unfolding room_nat [OF wf] using True by linarith
      ultimately have "rt_ringbuffer_get rb len = Some (of_nat m, take m (rb_items rb), ?rb)"
        unfolding eq u ret by simp
      then show ?thesis using st by blast
    next
      case wrap: False
      let ?k = "?N - ?r"
      let ?rb = "rb\<lparr>read_mirror := \<not> read_mirror rb, read_index := of_int (int (m - ?k))\<rparr>"
      have k: "?k \<le> m" using wrap r by simp
      have d: "int m - int ?k = int (m - ?k)" using k by linarith
      have "unat (of_int (int (m - ?k)) :: 15 word) = m - ?k"
        by (rule u15_of_int) (use m N(1) in linarith)
      moreover have "m - ?k = ?r + m - ?N" using k r by linarith
      ultimately have ri: "unat (read_index ?rb) = ?r + m - ?N" by simp
      have adv: "unat (read_index ?rb) = ?r + m - ?N \<and> read_mirror ?rb = (\<not> read_mirror rb)"
        by (rule conjI [OF ri]) simp
      note adv' = read_advance [OF wf m(1), where rb' = ?rb, unfolded if_not_P [OF wrap], OF _ _ _ _ adv]
      have st: "rb_wf ?rb" "rb_items ?rb = drop m (rb_items rb)" "rb_cap ?rb = ?N"
        by (rule adv'; simp)+
      have "copy_out ?xs (uint (read_index rb)) (int ?k) = Some (drop ?r ?xs)"
        unfolding uint_nat by (subst copy_out_nat) (use r N(2) in simp_all)
      moreover have "copy_out ?xs (int 0) (int (m - ?k)) = Some (take (m - ?k) ?xs)"
        by (subst copy_out_nat) (use m N(2) in simp_all)
      moreover have "drop ?r ?xs @ take (m - ?k) ?xs = take m (rb_items rb)"
        unfolding bytes using circ_wrapped [of ?r ?xs m] r k m N(2) by simp
      moreover have "\<not> int m < int ?k" using k by simp
      ultimately have "rt_ringbuffer_get rb len = Some (of_nat m, take m (rb_items rb), ?rb)"
        unfolding eq u ret room_nat [OF wf] d by simp
      then show ?thesis using st by blast
    qed
  qed
qed

subsection \<open>Single bytes\<close>

lemma last_index:
  assumes "rb_wf rb"
  shows "uint (read_index rb) = sint (buffer_size rb) - 1 \<longleftrightarrow> unat (read_index rb) + 1 = rb_cap rb"
    "uint (write_index rb) = sint (buffer_size rb) - 1 \<longleftrightarrow> unat (write_index rb) + 1 = rb_cap rb"
proof -
  have "sint (buffer_size rb) = int (rb_cap rb)" using assms by (simp add: rb_wf_def)
  then show "uint (read_index rb) = sint (buffer_size rb) - 1 \<longleftrightarrow> unat (read_index rb) + 1 = rb_cap rb"
    "uint (write_index rb) = sint (buffer_size rb) - 1 \<longleftrightarrow> unat (write_index rb) + 1 = rb_cap rb"
    unfolding uint_nat by linarith+
qed

lemma u15_plus_1: "unat w + 1 < 2 ^ 15 \<Longrightarrow> unat (w + 1) = unat w + 1" for w :: "15 word"
  using u15_Suc [of w 1] by simp

lemma ringbuffer_getchar_items:
  assumes wf: "rb_wf rb" and ne: "rb_count rb \<noteq> 0"
  shows "\<exists>rb'. rt_ringbuffer_getchar rb = Some (1, Some (hd (rb_items rb)), rb') \<and> rb_wf rb' \<and>
    rb_items rb' = tl (rb_items rb) \<and> rb_cap rb' = rb_cap rb"
proof -
  let ?r = "unat (read_index rb)" and ?N = "rb_cap rb"
  let ?rb = "if ?r + 1 = ?N then rb\<lparr>read_mirror := \<not> read_mirror rb, read_index := 0\<rparr>
    else rb\<lparr>read_index := read_index rb + 1\<rparr>"
  have r: "?r < ?N" "?N < 2 ^ 15" using wf rb_cap_bound [OF wf] by (simp_all add: rb_wf_def)
  have z: "rt_ringbuffer_data_len rb \<noteq> 0" using ne rb_counts(2) [OF wf] by auto
  have adv: "rb_wf ?rb" "rb_items ?rb = drop 1 (rb_items rb)" "rb_cap ?rb = ?N"
    using read_advance [OF wf, of 1 ?rb] ne r u15_plus_1 [of "read_index rb"] by (auto split: if_splits)
  have "hd (rb_items rb) = buffer_ptr rb ! ?r"
    using ne r by (cases "rb_count rb") (simp_all add: rb_items_def rb_cap_def circ_Suc)
  then have "rt_ringbuffer_getchar rb = Some (1, Some (hd (rb_items rb)), ?rb)"
    using z r by (simp add: rt_ringbuffer_getchar_def last_index [OF wf] rb_cap_def)
  then show ?thesis using adv by (auto simp: drop_Suc)
qed

lemma ringbuffer_getchar_empty:
  "rb_wf rb \<Longrightarrow> rb_count rb = 0 \<Longrightarrow> rt_ringbuffer_getchar rb = Some (0, None, rb)"
  using rb_counts(2) [of rb] by (simp add: rt_ringbuffer_getchar_def unat_eq_0)

lemma ringbuffer_putchar_full:
  "rb_wf rb \<Longrightarrow> rb_count rb = rb_cap rb \<Longrightarrow> rt_ringbuffer_putchar rb ch = Some (0, rb)"
  using rb_counts(3) [of rb] by (simp add: rt_ringbuffer_putchar_def unat_eq_0)

lemma rb_count_full: "rb_wf rb \<Longrightarrow> rt_ringbuffer_status rb = RT_RINGBUFFER_FULL \<longleftrightarrow> rb_count rb = rb_cap rb"
  by (auto simp: rb_wf_def rb_count_def rt_ringbuffer_status_def word_unat_eq_iff word_le_nat_alt
      split: if_splits)

text \<open>A byte written at the write position, and the position moved on.\<close>

definition push_byte :: "byte \<Rightarrow> rt_ringbuffer \<Rightarrow> rt_ringbuffer" where
  "push_byte ch rb =
     (let rb' = rb\<lparr>buffer_ptr := (buffer_ptr rb)[unat (write_index rb) := ch]\<rparr> in
      if unat (write_index rb) + 1 = rb_cap rb
      then rb'\<lparr>write_mirror := \<not> write_mirror rb, write_index := 0\<rparr>
      else rb'\<lparr>write_index := write_index rb + 1\<rparr>)"

lemma push_byte_items:
  assumes wf: "rb_wf rb" and room: "rb_count rb < rb_cap rb"
  shows "rb_wf (push_byte ch rb)" "rb_items (push_byte ch rb) = rb_items rb @ [ch]"
    "rb_cap (push_byte ch rb) = rb_cap rb"
proof -
  let ?N = "rb_cap rb" and ?r = "unat (read_index rb)" and ?w = "unat (write_index rb)" and ?p = "push_byte ch rb"
  have w: "?w < ?N" "?r < ?N" "?N < 2 ^ 15" "read_mirror rb = write_mirror rb \<Longrightarrow> ?r \<le> ?w"
    "read_mirror rb \<noteq> write_mirror rb \<Longrightarrow> ?w \<le> ?r"
    using wf rb_cap_bound [OF wf] by (auto simp: rb_wf_def word_le_nat_alt)
  show c: "rb_cap ?p = ?N" by (simp add: push_byte_def rb_cap_def Let_def)
  have sel: "read_index ?p = read_index rb" "read_mirror ?p = read_mirror rb" "buffer_size ?p = buffer_size rb"
    "buffer_ptr ?p = (buffer_ptr rb)[?w := ch]"
    "unat (write_index ?p) = (if ?w + 1 = ?N then 0 else ?w + 1)"
    "write_mirror ?p = (if ?w + 1 = ?N then \<not> write_mirror rb else write_mirror rb)"
    using u15_plus_1 [of "write_index rb"] w by (auto simp: push_byte_def Let_def)
  have cnt: "rb_count ?p = Suc (rb_count rb)"
    using w room by (auto simp: rb_count_def c sel split: if_splits)
  show "rb_wf ?p" unfolding rb_wf_def c using wf w room
    by (auto simp: rb_wf_def sel word_le_nat_alt rb_count_def split: if_splits)
  have "circ ((buffer_ptr rb)[(?r + rb_count rb) mod length (buffer_ptr rb) := ch]) ?r (Suc (rb_count rb)) =
      circ (buffer_ptr rb) ?r (rb_count rb) @ [ch]"
    by (rule circ_snoc) (use room in \<open>simp add: rb_cap_def\<close>)
  then show "rb_items ?p = rb_items rb @ [ch]"
    using rb_counts(4) [OF wf] by (simp add: rb_items_def cnt sel rb_cap_def)
qed

lemma ringbuffer_putchar_push:
  assumes "rb_wf rb" "rb_count rb < rb_cap rb"
  shows "rt_ringbuffer_putchar rb ch = Some (1, push_byte ch rb)"
proof -
  have "rt_ringbuffer_space_len rb \<noteq> 0" using rb_counts(3) [OF assms(1)] assms(2) by auto
  moreover have "unat (write_index rb) < length (buffer_ptr rb)"
    using assms(1) by (simp add: rb_wf_def rb_cap_def)
  ultimately show ?thesis using last_index(2) [OF assms(1)]
    by (simp add: rt_ringbuffer_putchar_def store_byte_def push_byte_def Let_def)
qed

definition pop_byte :: "rt_ringbuffer \<Rightarrow> rt_ringbuffer" where
  "pop_byte rb = (if unat (read_index rb) + 1 = rb_cap rb
     then rb\<lparr>read_mirror := \<not> read_mirror rb, read_index := 0\<rparr>
     else rb\<lparr>read_index := read_index rb + 1\<rparr>)"

lemma pop_byte_items:
  assumes wf: "rb_wf rb" and ne: "rb_count rb \<noteq> 0"
  shows "rb_wf (pop_byte rb)" "rb_items (pop_byte rb) = tl (rb_items rb)" "rb_cap (pop_byte rb) = rb_cap rb"
    "rt_ringbuffer_getchar rb = Some (1, Some (hd (rb_items rb)), pop_byte rb)"
proof -
  have r: "unat (read_index rb) < rb_cap rb" "rb_cap rb < 2 ^ 15"
    using wf rb_cap_bound [OF wf] by (simp_all add: rb_wf_def)
  have z: "rt_ringbuffer_data_len rb \<noteq> 0" using ne rb_counts(2) [OF wf] by auto
  show "rb_wf (pop_byte rb)" "rb_items (pop_byte rb) = tl (rb_items rb)" "rb_cap (pop_byte rb) = rb_cap rb"
    using read_advance [OF wf, of 1 "pop_byte rb"] ne r u15_plus_1 [of "read_index rb"]
    by (auto simp: pop_byte_def drop_Suc split: if_splits)
  have "hd (rb_items rb) = buffer_ptr rb ! unat (read_index rb)"
    using ne r by (cases "rb_count rb") (simp_all add: rb_items_def rb_cap_def circ_Suc)
  then show "rt_ringbuffer_getchar rb = Some (1, Some (hd (rb_items rb)), pop_byte rb)"
    using z r by (simp add: rt_ringbuffer_getchar_def last_index [OF wf] rb_cap_def pop_byte_def)
qed

text \<open>A forced byte: the oldest one makes room for it.\<close>

lemma ringbuffer_putchar_force_push:
  assumes wf: "rb_wf rb"
  shows "rt_ringbuffer_putchar_force rb ch =
    Some (1, push_byte ch (if rb_count rb = rb_cap rb then pop_byte rb else rb))"
proof -
  have l: "unat (write_index rb) < length (buffer_ptr rb)" using wf by (simp add: rb_wf_def rb_cap_def)
  show ?thesis
  proof (cases "rb_count rb = rb_cap rb")
    case False
    then have "rt_ringbuffer_status rb \<noteq> RT_RINGBUFFER_FULL" using rb_count_full [OF wf] by simp
    then show ?thesis using l last_index(2) [OF wf] False
      by (simp add: rt_ringbuffer_putchar_force_def store_byte_def push_byte_def Let_def)
  next
    case True
    then have st: "rt_ringbuffer_status rb = RT_RINGBUFFER_FULL" using rb_count_full [OF wf] by simp
    then have "read_index rb = write_index rb"
      by (auto simp: rt_ringbuffer_status_def split: if_splits)
    then show ?thesis using l last_index(2) [OF wf] True st
      by (simp add: rt_ringbuffer_putchar_force_def store_byte_def push_byte_def pop_byte_def rb_cap_def Let_def)
  qed
qed

subsection \<open>The ring buffer as a queue\<close>

interpretation rb: bounded_fifo rb_wf rb_items rb_cap "\<lambda>_ _. True"
  "\<lambda>ch rb. snd (the (rt_ringbuffer_putchar rb ch))"
  "\<lambda>rb. (the (fst (snd (the (rt_ringbuffer_getchar rb)))), snd (snd (the (rt_ringbuffer_getchar rb))))"
proof
  fix rb :: rt_ringbuffer and ch :: byte
  assume wf: "rb_wf rb"
  show "length (rb_items rb) \<le> rb_cap rb" using rb_counts(1) [OF wf] by simp
  show "rb_wf (snd (the (rt_ringbuffer_putchar rb ch)))"
    "rb_items (snd (the (rt_ringbuffer_putchar rb ch))) = rb_items rb @ [ch]"
    "rb_cap (snd (the (rt_ringbuffer_putchar rb ch))) = rb_cap rb \<and> (\<lambda>_. True) = (\<lambda>_. True)"
    if "length (rb_items rb) < rb_cap rb"
    using that push_byte_items [OF wf] ringbuffer_putchar_push [OF wf] by simp_all
  let ?g = "(the (fst (snd (the (rt_ringbuffer_getchar rb)))), snd (snd (the (rt_ringbuffer_getchar rb))))"
  show "rb_wf (snd ?g)" "fst ?g # rb_items (snd ?g) = rb_items rb"
    "rb_cap (snd ?g) = rb_cap rb \<and> (\<lambda>_. True) = (\<lambda>_. True)"
    if "rb_items rb \<noteq> []"
  proof -
    have "rb_count rb \<noteq> 0" using that by (metis length_rb_items length_0_conv)
    then show "rb_wf (snd ?g)" "fst ?g # rb_items (snd ?g) = rb_items rb"
      "rb_cap (snd ?g) = rb_cap rb \<and> (\<lambda>_. True) = (\<lambda>_. True)"
      using pop_byte_items [OF wf] that by simp_all
  qed
qed

subsection \<open>Forced blocks\<close>

text \<open>
  A block longer than the free space is replaced by one of the size of the whole buffer: it
  reads past a caller's block that is shorter than that, and if the stored bytes did not wrap
  around the end, both mirror bits flip and the buffer counts as empty afterwards.
\<close>

lemma force_len:
  assumes wf: "rb_wf rb" and len: "rb_cap rb < rb_count rb + unat len"
  shows "rt_ringbuffer_put_force rb ptr len = map_option (\<lambda>rb'. (of_nat (rb_cap rb),
      if rb_count rb = 0 then rb'
      else rb'\<lparr>read_mirror := \<not> read_mirror rb', read_index := write_index rb'\<rparr>))
      (put_wrapped rb ptr (buffer_size rb))"
proof -
  let ?sp = "ucast (rt_ringbuffer_space_len rb) :: u16"
  have sp: "unat ?sp = rb_cap rb - rb_count rb" by (rule u16_space [OF wf])
  have b: "0 < rb_cap rb" "rb_cap rb < 2 ^ 15" "sint (buffer_size rb) = int (rb_cap rb)"
    using wf rb_cap_bound [OF wf] by (simp_all add: rb_wf_def)
  have "buffer_size rb = of_nat (rb_cap rb)" using b(3) by (rule word_of_sint)
  then have n: "unat (buffer_size rb) = rb_cap rb" using b(2) by (simp add: unat_of_nat take_bit_nat_eq_self)
  have "ucast (buffer_size rb) = (of_nat (unat (buffer_size rb)) :: u32)" by simp
  then have u: "ucast (buffer_size rb) = (of_nat (rb_cap rb) :: u32)" unfolding n .
  have "?sp < len" using sp len rb_counts(1) [OF wf] by (simp add: word_less_nat_alt)
  moreover have "\<not> write_room rb > uint (buffer_size rb)"
    unfolding room_nat [OF wf] uint_nat n by simp
  moreover have "?sp < buffer_size rb \<longleftrightarrow> rb_count rb \<noteq> 0"
    using sp n b(1) rb_counts(1) [OF wf] by (auto simp: word_less_nat_alt)
  ultimately show ?thesis unfolding rt_ringbuffer_put_force_def Let_def
    by (cases "rb_count rb = 0") (simp_all add: u)
qed

lemma put_wrapped_whole:
  assumes wf: "rb_wf rb"
  shows "put_wrapped rb ptr (buffer_size rb) =
    (if rb_cap rb \<le> length ptr
     then Some (rb\<lparr>buffer_ptr := take (unat (write_index rb)) (drop (rb_cap rb - unat (write_index rb)) ptr) @
         take (rb_cap rb - unat (write_index rb)) ptr, write_mirror := \<not> write_mirror rb\<rparr>)
     else None)"
proof -
  let ?N = "rb_cap rb" and ?w = "unat (write_index rb)" and ?xs = "buffer_ptr rb"
  have b: "?w < ?N" "?N < 2 ^ 15" "sint (buffer_size rb) = int ?N" "length ?xs = ?N"
    using wf rb_cap_bound [OF wf] by (simp_all add: rb_wf_def rb_cap_def)
  have "buffer_size rb = of_nat ?N" using b(3) by (rule word_of_sint)
  then have "unat (buffer_size rb) = ?N" using b(2) by (simp add: unat_of_nat take_bit_nat_eq_self)
  then have n: "uint (buffer_size rb) = int ?N" unfolding uint_nat by simp
  have d: "uint (buffer_size rb) - write_room rb = int ?w"
    unfolding n room_nat [OF wf] using b(1) by linarith
  have wi: "(of_int (int ?w) :: 15 word) = write_index rb" by simp
  show ?thesis
  proof (cases "?N \<le> length ptr")
    case True
    have "copy_in ?xs (uint (write_index rb)) ptr (write_room rb) = Some (take ?w ?xs @ take (?N - ?w) ptr)"
      unfolding uint_nat room_nat [OF wf] by (subst copy_in_nat) (use True b in simp_all)
    moreover have "copy_in (take ?w ?xs @ take (?N - ?w) ptr) (int 0) (drop (?N - ?w) ptr) (int ?w) =
        Some (take ?w (drop (?N - ?w) ptr) @ take (?N - ?w) ptr)"
      by (subst copy_in_nat) (use True b in simp_all)
    moreover have "nat (write_room rb) = ?N - ?w" by (simp add: room_nat [OF wf])
    moreover have "rb\<lparr>buffer_ptr := p, write_mirror := m, write_index := of_int (int ?w)\<rparr> =
        rb\<lparr>buffer_ptr := p, write_mirror := m\<rparr>" for p m
      by (rule rt_ringbuffer.equality) simp_all
    ultimately show ?thesis using True unfolding put_wrapped_def d by simp
  next
    case False
    then show ?thesis using b(1)
      by (auto simp: put_wrapped_def d n copy_in_def room_nat [OF wf] split: option.splits simp del: of_nat_unat)
  qed
qed

lemma put_force_overwrites:
  assumes wf: "rb_wf rb" and len: "rb_cap rb < rb_count rb + unat len" and src: "rb_cap rb \<le> length ptr"
  shows "\<exists>rb'. rt_ringbuffer_put_force rb ptr len = Some (of_nat (rb_cap rb), rb') \<and> rb_wf rb' \<and>
    rb_items rb' = (if read_mirror rb = write_mirror rb \<and> rb_count rb \<noteq> 0 then [] else take (rb_cap rb) ptr)"
proof -
  let ?N = "rb_cap rb" and ?w = "unat (write_index rb)" and ?r = "unat (read_index rb)"
  let ?p = "take ?w (drop (?N - ?w) ptr) @ take (?N - ?w) ptr"
  let ?f = "rb\<lparr>buffer_ptr := ?p, write_mirror := \<not> write_mirror rb\<rparr>"
  let ?g = "if rb_count rb = 0 then ?f else ?f\<lparr>read_mirror := \<not> read_mirror rb, read_index := write_index rb\<rparr>"
  have w: "?w < ?N" "?r < ?N" "read_mirror rb = write_mirror rb \<Longrightarrow> ?r \<le> ?w"
    using wf by (auto simp: rb_wf_def word_le_nat_alt)
  define g where "g = ?g"
  have f: "rt_ringbuffer_put_force rb ptr len = Some (of_nat ?N, g)"
    using src by (simp add: g_def force_len [OF wf len] put_wrapped_whole [OF wf])
  have p: "length ?p = ?N" using src w(1) by simp
  have z: "read_mirror rb = write_mirror rb \<and> ?r = ?w" if "rb_count rb = 0"
    using that w by (auto simp: rb_count_def split: if_splits)
  have sel: "buffer_ptr g = ?p" "write_index g = write_index rb" "read_index g = write_index rb"
    "write_mirror g = (\<not> write_mirror rb)" "buffer_size g = buffer_size rb"
    "read_mirror g = (if rb_count rb = 0 then read_mirror rb else \<not> read_mirror rb)"
    using z by (simp_all add: g_def word_unat_eq_iff)
  have c: "rb_cap g = ?N" using p by (simp only: rb_cap_def sel)
  have cnt: "rb_count g = (if read_mirror rb = write_mirror rb \<and> rb_count rb \<noteq> 0 then 0 else ?N)"
    using z unfolding rb_count_def [of g] c sel by auto
  have wfg: "rb_wf g" unfolding rb_wf_def c sel using wf by (simp add: rb_wf_def)
  have "circ ?p ?w ?N = take ?N ptr"
  proof -
    have "circ ?p ?w ?N = drop ?w ?p @ take ?w ?p"
      using circ_wrapped [of ?w ?p ?N] p w(1) by simp
    also have "\<dots> = take (?N - ?w) ptr @ take ?w (drop (?N - ?w) ptr)"
      using src w(1) by simp
    also have "\<dots> = take ?N ptr" using w(1) by (simp flip: take_add)
    finally show ?thesis .
  qed
  then have "rb_items g = (if read_mirror rb = write_mirror rb \<and> rb_count rb \<noteq> 0 then [] else take ?N ptr)"
    unfolding rb_items_def sel cnt by simp
  then show ?thesis using f wfg by blast
qed

lemma put_force_overreads:
  assumes "rb_wf rb" "rb_cap rb < rb_count rb + unat len" "length ptr < rb_cap rb"
  shows "rt_ringbuffer_put_force rb ptr len = None"
  using assms by (simp add: force_len put_wrapped_whole)

lemma ringbuffer_init_wf:
  assumes "int (length pool) = sint (buffer_size (rt_ringbuffer_init pool sz))" "pool \<noteq> []"
  shows "rb_wf (rt_ringbuffer_init pool sz)" "rb_items (rt_ringbuffer_init pool sz) = []"
proof -
  have "rb_cap (rt_ringbuffer_init pool sz) = length pool"
    by (simp add: rb_cap_def rt_ringbuffer_init_def)
  then show "rb_wf (rt_ringbuffer_init pool sz)" "rb_items (rt_ringbuffer_init pool sz) = []"
    using assms by (simp_all add: rb_wf_def rb_items_def rb_count_def) (simp_all add: rt_ringbuffer_init_def)
qed

lemma ringbuffer_reset_wf:
  "rb_wf rb \<Longrightarrow> rb_wf (rt_ringbuffer_reset rb) \<and> rb_items (rt_ringbuffer_reset rb) = []"
  by (auto simp: rb_wf_def rb_items_def rb_count_def rb_cap_def rt_ringbuffer_reset_def)

end
