(* ===== verification/Crc.thy ===== *)
theory Crc
  imports Rt_Prelude
begin

text \<open>
  The helpers of \<^verbatim>\<open>components/net/Utils/utils.c\<close> that compute: the CRC-16 of the Modbus frames,
  done with two tables of 256 bytes, and the hexadecimal digit of a nibble. The frame is the
  memory the pointer can reach; reading past its end is \<open>None\<close>. The reference is the shift
  register that feeds the frame in bit by bit (polynomial \<open>0xA001\<close>, start value \<open>0xFFFF\<close>);
  the lemmas show that the tables are its eight-step table, and that the code agrees with it.
\<close>

unbundle bit_operations_syntax

subsection \<open>The code\<close>

definition aucCRCHi :: "byte list" where
  "aucCRCHi =
  [0x00, 0xC1, 0x81, 0x40, 0x01, 0xC0, 0x80, 0x41, 0x01, 0xC0, 0x80, 0x41,
   0x00, 0xC1, 0x81, 0x40, 0x01, 0xC0, 0x80, 0x41, 0x00, 0xC1, 0x81, 0x40,
   0x00, 0xC1, 0x81, 0x40, 0x01, 0xC0, 0x80, 0x41, 0x01, 0xC0, 0x80, 0x41,
   0x00, 0xC1, 0x81, 0x40, 0x00, 0xC1, 0x81, 0x40, 0x01, 0xC0, 0x80, 0x41,
   0x00, 0xC1, 0x81, 0x40, 0x01, 0xC0, 0x80, 0x41, 0x01, 0xC0, 0x80, 0x41,
   0x00, 0xC1, 0x81, 0x40, 0x01, 0xC0, 0x80, 0x41, 0x00, 0xC1, 0x81, 0x40,
   0x00, 0xC1, 0x81, 0x40, 0x01, 0xC0, 0x80, 0x41, 0x00, 0xC1, 0x81, 0x40,
   0x01, 0xC0, 0x80, 0x41, 0x01, 0xC0, 0x80, 0x41, 0x00, 0xC1, 0x81, 0x40,
   0x00, 0xC1, 0x81, 0x40, 0x01, 0xC0, 0x80, 0x41, 0x01, 0xC0, 0x80, 0x41,
   0x00, 0xC1, 0x81, 0x40, 0x01, 0xC0, 0x80, 0x41, 0x00, 0xC1, 0x81, 0x40,
   0x00, 0xC1, 0x81, 0x40, 0x01, 0xC0, 0x80, 0x41, 0x01, 0xC0, 0x80, 0x41,
   0x00, 0xC1, 0x81, 0x40, 0x00, 0xC1, 0x81, 0x40, 0x01, 0xC0, 0x80, 0x41,
   0x00, 0xC1, 0x81, 0x40, 0x01, 0xC0, 0x80, 0x41, 0x01, 0xC0, 0x80, 0x41,
   0x00, 0xC1, 0x81, 0x40, 0x00, 0xC1, 0x81, 0x40, 0x01, 0xC0, 0x80, 0x41,
   0x01, 0xC0, 0x80, 0x41, 0x00, 0xC1, 0x81, 0x40, 0x01, 0xC0, 0x80, 0x41,
   0x00, 0xC1, 0x81, 0x40, 0x00, 0xC1, 0x81, 0x40, 0x01, 0xC0, 0x80, 0x41,
   0x00, 0xC1, 0x81, 0x40, 0x01, 0xC0, 0x80, 0x41, 0x01, 0xC0, 0x80, 0x41,
   0x00, 0xC1, 0x81, 0x40, 0x01, 0xC0, 0x80, 0x41, 0x00, 0xC1, 0x81, 0x40,
   0x00, 0xC1, 0x81, 0x40, 0x01, 0xC0, 0x80, 0x41, 0x01, 0xC0, 0x80, 0x41,
   0x00, 0xC1, 0x81, 0x40, 0x00, 0xC1, 0x81, 0x40, 0x01, 0xC0, 0x80, 0x41,
   0x00, 0xC1, 0x81, 0x40, 0x01, 0xC0, 0x80, 0x41, 0x01, 0xC0, 0x80, 0x41,
   0x00, 0xC1, 0x81, 0x40]"

definition aucCRCLo :: "byte list" where
  "aucCRCLo =
  [0x00, 0xC0, 0xC1, 0x01, 0xC3, 0x03, 0x02, 0xC2, 0xC6, 0x06, 0x07, 0xC7,
   0x05, 0xC5, 0xC4, 0x04, 0xCC, 0x0C, 0x0D, 0xCD, 0x0F, 0xCF, 0xCE, 0x0E,
   0x0A, 0xCA, 0xCB, 0x0B, 0xC9, 0x09, 0x08, 0xC8, 0xD8, 0x18, 0x19, 0xD9,
   0x1B, 0xDB, 0xDA, 0x1A, 0x1E, 0xDE, 0xDF, 0x1F, 0xDD, 0x1D, 0x1C, 0xDC,
   0x14, 0xD4, 0xD5, 0x15, 0xD7, 0x17, 0x16, 0xD6, 0xD2, 0x12, 0x13, 0xD3,
   0x11, 0xD1, 0xD0, 0x10, 0xF0, 0x30, 0x31, 0xF1, 0x33, 0xF3, 0xF2, 0x32,
   0x36, 0xF6, 0xF7, 0x37, 0xF5, 0x35, 0x34, 0xF4, 0x3C, 0xFC, 0xFD, 0x3D,
   0xFF, 0x3F, 0x3E, 0xFE, 0xFA, 0x3A, 0x3B, 0xFB, 0x39, 0xF9, 0xF8, 0x38,
   0x28, 0xE8, 0xE9, 0x29, 0xEB, 0x2B, 0x2A, 0xEA, 0xEE, 0x2E, 0x2F, 0xEF,
   0x2D, 0xED, 0xEC, 0x2C, 0xE4, 0x24, 0x25, 0xE5, 0x27, 0xE7, 0xE6, 0x26,
   0x22, 0xE2, 0xE3, 0x23, 0xE1, 0x21, 0x20, 0xE0, 0xA0, 0x60, 0x61, 0xA1,
   0x63, 0xA3, 0xA2, 0x62, 0x66, 0xA6, 0xA7, 0x67, 0xA5, 0x65, 0x64, 0xA4,
   0x6C, 0xAC, 0xAD, 0x6D, 0xAF, 0x6F, 0x6E, 0xAE, 0xAA, 0x6A, 0x6B, 0xAB,
   0x69, 0xA9, 0xA8, 0x68, 0x78, 0xB8, 0xB9, 0x79, 0xBB, 0x7B, 0x7A, 0xBA,
   0xBE, 0x7E, 0x7F, 0xBF, 0x7D, 0xBD, 0xBC, 0x7C, 0xB4, 0x74, 0x75, 0xB5,
   0x77, 0xB7, 0xB6, 0x76, 0x72, 0xB2, 0xB3, 0x73, 0xB1, 0x71, 0x70, 0xB0,
   0x50, 0x90, 0x91, 0x51, 0x93, 0x53, 0x52, 0x92, 0x96, 0x56, 0x57, 0x97,
   0x55, 0x95, 0x94, 0x54, 0x9C, 0x5C, 0x5D, 0x9D, 0x5F, 0x9F, 0x9E, 0x5E,
   0x5A, 0x9A, 0x9B, 0x5B, 0x99, 0x59, 0x58, 0x98, 0x88, 0x48, 0x49, 0x89,
   0x4B, 0x8B, 0x8A, 0x4A, 0x4E, 0x8E, 0x8F, 0x4F, 0x8D, 0x4D, 0x4C, 0x8C,
   0x44, 0x84, 0x85, 0x45, 0x87, 0x47, 0x46, 0x86, 0x82, 0x42, 0x43, 0x83,
   0x41, 0x81, 0x80, 0x40]"

fun crc_loop :: "byte list \<Rightarrow> nat \<Rightarrow> byte \<Rightarrow> byte \<Rightarrow> u16 option" where
  "crc_loop frame 0 ucCRCHi ucCRCLo =
     Some (push_bit 8 (ucast ucCRCHi) OR ucast ucCRCLo)"
| "crc_loop [] (Suc n) ucCRCHi ucCRCLo = None"
| "crc_loop (b # frame) (Suc n) ucCRCHi ucCRCLo =
     (let iIndex = unat (ucCRCLo XOR b)
      in crc_loop frame n (aucCRCLo ! iIndex) (ucCRCHi XOR aucCRCHi ! iIndex))"

definition usMBCRC16 :: "byte list \<Rightarrow> u16 \<Rightarrow> u16 option" where
  "usMBCRC16 pucFrame usLen = crc_loop pucFrame (unat usLen) 0xFF 0xFF"

definition prvucMBBIN2CHAR :: "byte \<Rightarrow> byte" where
  "prvucMBBIN2CHAR ucByte =
     (if ucByte \<le> 0x09 then 0x30 + ucByte
      else if 0x0A \<le> ucByte \<and> ucByte \<le> 0x0F then ucByte - 0x0A + 0x41
      else 0x30)"

subsection \<open>The shift register\<close>

definition crc_bit :: "u16 \<Rightarrow> u16" where
  "crc_bit c = (if bit c 0 then drop_bit 1 c XOR 0xA001 else drop_bit 1 c)"

definition crc_byte :: "u16 \<Rightarrow> byte \<Rightarrow> u16" where
  "crc_byte c b = (crc_bit ^^ 8) (c XOR ucast b)"

definition crc16 :: "byte list \<Rightarrow> u16" where
  "crc16 bs = foldl crc_byte 0xFFFF bs"

lemma byte_bit: "bit (x :: byte) n \<Longrightarrow> n < 8"
  by (drule bit_imp_le_length) simp

lemma crc_bit_xor: "crc_bit (a XOR b) = crc_bit a XOR crc_bit b"
  by (auto simp: crc_bit_def bit_simps ac_simps intro!: bit_eqI)

lemma crc_bits_xor: "(crc_bit ^^ n) (a XOR b) = (crc_bit ^^ n) a XOR (crc_bit ^^ n) b"
  by (induction n) (simp_all add: crc_bit_xor)

lemma crc_bits_high_byte:
  "n \<le> 8 \<Longrightarrow> (crc_bit ^^ n) (push_bit 8 (ucast (h :: byte))) = push_bit (8 - n) (ucast h)"
proof (induction n)
  case (Suc n)
  define k where "k = 7 - n"
  have k: "8 - n = Suc k" "8 - Suc n = k" "k < 8" using Suc.prems by (auto simp: k_def)
  have "\<not> bit (push_bit (Suc k) (ucast h :: u16)) 0" by (subst bit_push_bit_iff) simp
  moreover have "drop_bit 1 (push_bit (Suc k) (ucast h :: u16)) = push_bit k (ucast h)"
    using k(3) by (force simp: bit_simps simp del: push_bit_Suc intro!: bit_eqI dest: byte_bit)
  ultimately have "crc_bit (push_bit (Suc k) (ucast h)) = push_bit k (ucast h)"
    by (simp only: crc_bit_def if_False)
  with Suc k show ?case by simp
qed simp

definition crc_word :: "byte \<Rightarrow> byte \<Rightarrow> u16" where
  "crc_word h l = push_bit 8 (ucast h) XOR ucast l"

lemma crc_word_or: "push_bit 8 (ucast h) OR ucast l = crc_word h l"
proof (rule bit_eqI)
  fix n
  show "bit (push_bit 8 (ucast h) OR ucast l :: u16) n = bit (crc_word h l) n"
    using byte_bit [of l n] by (cases "n < 8") (auto simp: crc_word_def bit_simps)
qed

lemma crc_8: "(crc_bit ^^ 8) c =
    crc_bit (crc_bit (crc_bit (crc_bit (crc_bit (crc_bit (crc_bit (crc_bit c)))))))"
  by (simp add: eval_nat_numeral)

fun tables_ok :: "u16 \<Rightarrow> byte list \<Rightarrow> byte list \<Rightarrow> bool" where
  "tables_ok i (l # ls) (h # hs) =
     ((crc_bit ^^ 8) i = crc_word l h \<and> tables_ok (i + 1) ls hs)"
| "tables_ok i ls hs = (ls = [] \<and> hs = [])"

lemma tables_match: "tables_ok 0 aucCRCLo aucCRCHi"
  by (simp add: aucCRCLo_def aucCRCHi_def crc_word_def crc_bit_def crc_8)

lemma tables_length: "length aucCRCLo = 256" "length aucCRCHi = 256"
  by (simp_all add: aucCRCHi_def aucCRCLo_def)

lemma tables_ok_nth:
  "tables_ok i ls hs \<Longrightarrow> j < length ls \<Longrightarrow>
   (crc_bit ^^ 8) (i + of_nat j) = crc_word (ls ! j) (hs ! j)"
proof (induction i ls hs arbitrary: j rule: tables_ok.induct)
  case (1 i l ls h hs)
  then show ?case by (cases j) (auto simp: algebra_simps)
qed auto

lemma tables_entry:
  "(crc_bit ^^ 8) (ucast (b :: byte)) = crc_word (aucCRCLo ! unat b) (aucCRCHi ! unat b)"
proof -
  have "unat b < 256" using unsigned_less [of b, where ?'a = nat] by simp
  with tables_ok_nth [OF tables_match, of "unat b"]
  have "(crc_bit ^^ 8) (of_nat (unat b)) = crc_word (aucCRCLo ! unat b) (aucCRCHi ! unat b)"
    by (simp add: tables_length)
  then show ?thesis by simp
qed

lemma crc_byte_tables:
  "crc_byte (crc_word h l) b =
   crc_word (aucCRCLo ! unat (l XOR b)) (h XOR aucCRCHi ! unat (l XOR b))"
proof -
  have "crc_word h l XOR ucast b = push_bit 8 (ucast h) XOR ucast (l XOR b)"
    by (auto simp: crc_word_def bit_simps intro!: bit_eqI)
  then have "crc_byte (crc_word h l) b =
      ucast h XOR crc_word (aucCRCLo ! unat (l XOR b)) (aucCRCHi ! unat (l XOR b))"
    by (simp only: crc_byte_def crc_bits_xor crc_bits_high_byte [OF order_refl] tables_entry) simp
  then show ?thesis
    by (auto simp: crc_word_def bit_simps intro!: bit_eqI)
qed

lemma crc_loop_correct:
  "n \<le> length bs \<Longrightarrow>
   crc_loop bs n h l = Some (foldl crc_byte (crc_word h l) (take n bs))"
proof (induction bs n h l rule: crc_loop.induct)
  case 1 then show ?case by (simp add: crc_word_or)
next
  case 3 then show ?case by (simp add: Let_def crc_byte_tables)
qed simp

lemma usMBCRC16_correct:
  "unat n \<le> length bs \<Longrightarrow> usMBCRC16 bs n = Some (crc16 (take (unat n) bs))"
proof -
  have "crc_word 0xFF 0xFF = 0xFFFF" by (simp add: crc_word_def)
  then show "unat n \<le> length bs \<Longrightarrow> ?thesis"
    by (simp add: usMBCRC16_def crc16_def crc_loop_correct)
qed

lemma crc_loop_short: "length bs < n \<Longrightarrow> crc_loop bs n h l = None"
  by (induction bs n h l rule: crc_loop.induct) (auto simp: Let_def)

subsection \<open>What the receiver relies on\<close>

text \<open>The sender appends the CRC low byte first; the CRC of the extended frame is 0.\<close>

lemma crc_byte_word: "crc_byte (crc_word h l) l = ucast h"
proof -
  have "crc_word h l XOR ucast l = push_bit 8 (ucast h)"
    by (auto simp: crc_word_def bit_simps intro!: bit_eqI)
  then show ?thesis by (simp only: crc_byte_def crc_bits_high_byte [OF order_refl]) simp
qed

lemma crc_bits_zero: "(crc_bit ^^ n) 0 = 0"
  by (induction n) (simp_all add: crc_bit_def)

lemma crc_append: "crc16 (bs @ [ucast (crc16 bs), ucast (drop_bit 8 (crc16 bs))]) = 0"
proof -
  define c where "c = crc16 bs"
  have c: "c = crc_word (ucast (drop_bit 8 c)) (ucast c)"
    by (auto simp: crc_word_def bit_simps intro!: bit_eqI dest: bit_imp_le_length)
  have "crc_byte c (ucast c) = ucast (ucast (drop_bit 8 c) :: byte)"
    by (subst c) (rule crc_byte_word)
  moreover have "crc_byte (ucast h) h = 0" for h :: byte
    by (simp add: crc_byte_def crc_bits_zero)
  ultimately show ?thesis unfolding crc16_def [of "_ @ _"] by (simp flip: crc16_def add: c_def)
qed

text \<open>The register step can be undone, so a frame with one byte changed has another CRC.\<close>

lemma xor_zero: "x XOR y = 0 \<Longrightarrow> x = y" for x y :: u16
  by (rule bit_eqI) (drule arg_cong [where f = "\<lambda>v. bit v n" for n], auto simp: bit_simps)

lemma crc_bit_zero_iff: "crc_bit c = 0 \<longleftrightarrow> c = 0"
proof
  assume z: "crc_bit c = 0"
  have nb: "\<not> bit c 0"
  proof
    assume "bit c 0"
    with z have "drop_bit 1 c = 0xA001" using xor_zero by (simp add: crc_bit_def)
    then have "bit (drop_bit 1 c) 15 = bit (0xA001 :: u16) 15" by simp
    then have "bit c 16" by (simp add: bit_simps)
    then show False by (auto dest: bit_imp_le_length)
  qed
  with z have d: "drop_bit 1 c = 0" by (simp add: crc_bit_def)
  have "\<not> bit c n" for n
    using nb arg_cong [OF d, of "\<lambda>v. bit v (n - 1)"] by (cases n) (auto simp: bit_simps)
  then show "c = 0" by (auto intro: bit_eqI)
qed (simp add: crc_bit_def)

lemma crc_bits_zero_iff: "(crc_bit ^^ n) c = 0 \<longleftrightarrow> c = 0"
  by (induction n) (simp_all add: crc_bit_zero_iff)

lemma crc_byte_inj:
  assumes "crc_byte c b = crc_byte d e"
  shows "c XOR ucast b = d XOR ucast e"
proof (rule xor_zero)
  have "(crc_bit ^^ 8) ((c XOR ucast b) XOR (d XOR ucast e)) = 0"
    using assms by (simp add: crc_byte_def crc_bits_xor)
  then show "(c XOR ucast b) XOR (d XOR ucast e) = 0" by (simp only: crc_bits_zero_iff)
qed

lemma xor_right_cancel: "x XOR z = y XOR z \<Longrightarrow> x = y" for x y z :: u16
  by (metis xor.assoc xor.right_neutral xor_self_eq)

lemma crc_fold_inj: "foldl crc_byte c bs = foldl crc_byte d bs \<Longrightarrow> c = d"
  by (induction bs arbitrary: c d) (auto dest!: crc_byte_inj xor_right_cancel)

lemma crc16_changed_byte:
  assumes "crc16 (xs @ b # ys) = crc16 (xs @ b' # ys)"
  shows "b = b'"
proof -
  from assms have "crc_byte (crc16 xs) b = crc_byte (crc16 xs) b'"
    by (auto simp: crc16_def dest: crc_fold_inj)
  then have "ucast b XOR crc16 xs = (ucast b' :: u16) XOR crc16 xs"
    by (auto dest: crc_byte_inj simp: xor.commute)
  then have "ucast b = (ucast b' :: u16)" by (rule xor_right_cancel)
  then have u: "bit (ucast b :: u16) n = bit (ucast b' :: u16) n" for n by simp
  show ?thesis
  proof (rule bit_eqI)
    fix n show "bit b n = bit b' n"
      using u [of n] by (cases "n < 8") (auto simp: bit_simps dest: byte_bit)
  qed
qed

end
