(* ===== verification/Driver_Properties.thy ===== *)
theory Driver_Properties
  imports Ringbuffer Crc
begin

text \<open>
  The properties of the byte ring buffer of the device drivers and of the CRC of the Modbus
  frames.
\<close>

text \<open>C36: A ring buffer is a bounded queue of bytes: \<^verbatim>\<open>rt_ringbuffer_put\<close> appends as many bytes of
  the block as there is room for and reports their number, \<^verbatim>\<open>rt_ringbuffer_get\<close> delivers the
  oldest bytes and removes them, also where the block wraps at the end of the pool; both keep the
  invariant, and neither accesses memory outside the pool or the block.\<close>
theorem ringbuffer_is_fifo:
  assumes "rb_wf rb" "unat len \<le> length ptr"
  shows "(\<exists>rb'. rt_ringbuffer_put rb ptr len = Some (of_nat (min (unat len) (rb_cap rb - rb_count rb)), rb') \<and>
      rb_wf rb' \<and> rb_items rb' = rb_items rb @ take (min (unat len) (rb_cap rb - rb_count rb)) ptr \<and>
      rb_cap rb' = rb_cap rb) \<and>
    (\<exists>rb'. rt_ringbuffer_get rb len =
        Some (of_nat (min (unat len) (rb_count rb)), take (min (unat len) (rb_count rb)) (rb_items rb), rb') \<and>
      rb_wf rb' \<and> rb_items rb' = drop (min (unat len) (rb_count rb)) (rb_items rb) \<and> rb_cap rb' = rb_cap rb)"
  using ringbuffer_put_items [OF assms] ringbuffer_get_items [OF assms(1)] by blast

theorem ringbuffer_is_fifo_witness:
  "\<exists>rb'. rt_ringbuffer_put (rt_ringbuffer_init [0, 0, 0, 0] 4) [7, 8, 9] 3 = Some (3, rb') \<and>
     rb_wf rb' \<and> rb_items rb' = [7, 8, 9]"
proof -
  let ?rb = "rt_ringbuffer_init [0, 0, 0, 0] 4"
  have sz: "int (length [0, 0, 0, 0 :: byte]) = sint (buffer_size (rt_ringbuffer_init [0, 0, 0, 0] 4))"
    by (simp add: rt_ringbuffer_init_def RT_ALIGN_DOWN_def RT_ALIGN_SIZE_def)
  have wf: "rb_wf ?rb" "rb_items ?rb = []"
    by (rule ringbuffer_init_wf [OF sz], simp)+
  then have "rb_count ?rb = 0" using length_rb_items [of ?rb] by simp
  moreover have "rb_cap ?rb = 4" by (simp add: rb_cap_def rt_ringbuffer_init_def)
  ultimately show ?thesis using ringbuffer_is_fifo [OF wf(1), of 3 "[7, 8, 9]"] wf(2) by auto
qed

text \<open>C37: \<^verbatim>\<open>usMBCRC16\<close>, with its two tables of 256 entries, computes the CRC of the bit-serial shift
  register with polynomial \<open>0xA001\<close>. A frame with its CRC appended low byte first has CRC 0, which
  is what the receiver tests, and a frame that differs from it in one byte does not.\<close>
theorem crc_tables_equal_shift_register:
  assumes "length bs + 2 < 2 ^ 16"
  shows "usMBCRC16 bs (of_nat (length bs)) = Some (crc16 bs) \<and>
    (\<forall>frame. frame = bs @ [ucast (crc16 bs), ucast (drop_bit 8 (crc16 bs))] \<longrightarrow>
       usMBCRC16 frame (of_nat (length frame)) = Some 0 \<and>
       (\<forall>i b. i < length frame \<and> b \<noteq> frame ! i \<longrightarrow>
          usMBCRC16 (frame[i := b]) (of_nat (length frame)) \<noteq> Some 0))"
proof -
  have len: "unat (of_nat n :: u16) = n" if "n < 2 ^ 16" for n
    using that by (simp add: unsigned_of_nat take_bit_nat_eq_self)
  have crc: "usMBCRC16 xs (of_nat (length xs)) = Some (crc16 xs)" if "length xs < 2 ^ 16" for xs
    using usMBCRC16_correct [of "of_nat (length xs)" xs] len [OF that] by simp
  define f where "f = bs @ [ucast (crc16 bs), ucast (drop_bit 8 (crc16 bs))]"
  have f: "crc16 f = 0" "length f < 2 ^ 16" using crc_append assms by (simp_all add: f_def)
  have "crc16 (f[i := b]) \<noteq> 0" if "i < length f" "b \<noteq> f ! i" for i b
  proof
    assume "crc16 (f[i := b]) = 0"
    then have "crc16 (take i f @ b # drop (Suc i) f) = crc16 (take i f @ f ! i # drop (Suc i) f)"
      using f(1) that(1) by (simp add: upd_conv_take_nth_drop flip: id_take_nth_drop)
    then show False using that(2) by (auto dest: crc16_changed_byte)
  qed
  moreover have "length (f[i := b]) = length f" for i b by simp
  ultimately have "usMBCRC16 (f[i := b]) (of_nat (length f)) \<noteq> Some 0" if "i < length f" "b \<noteq> f ! i" for i b
    using that crc [of "f[i := b]"] f(2) by simp
  then show ?thesis using crc [of bs] crc [of f] f assms by (auto simp: f_def)
qed

theorem crc_tables_equal_shift_register_witness:
  "usMBCRC16 [1, 3, 0] 3 = Some (crc16 [1, 3, 0])"
  using crc_tables_equal_shift_register [of "[1, 3, 0]"] by simp

end
