(* ===== verification/Spec2Isabelle.thy ===== *)
theory Spec2Isabelle
  imports Kernel_Properties Memory_Properties Mqtt_Properties Mempool_Properties Edp_Properties At_Properties At_Socket_Properties Device_Properties Driver_Properties
begin

text \<open>
  A model of the RT-Thread 3.0.3 kernel and of its MQTT, EDP and AT clients, as this repository builds
  them for an STM32F10x. File names below are relative to \<^verbatim>\<open>rt-thread-3.0.3/\<close>.

  \<^bold>\<open>The build.\<close> \<^verbatim>\<open>bsp/stm32f10x/rtconfig.h\<close>: 32 priorities, object names of 8 characters, 100 ticks a
  second, alignment 4, assertions on (\<^verbatim>\<open>RT_DEBUG\<close>), the small memory heap, hard timers in one
  sorted row. Signals, application modules, soft timers and memory tracing are off. Hooks can be
  set (\<^verbatim>\<open>RT_USING_HOOK\<close>) and are null unless a user sets them; the model has none.
  \<^verbatim>\<open>int\<close>, \<^verbatim>\<open>size_t\<close> and pointers have 32 bits, words are stored low byte first, \<^verbatim>\<open>char\<close> is unsigned.

  \<^bold>\<open>The parts and how they work together.\<close> The tick interrupt and the calls of the threads change one
  kernel state: the scheduler's ready queues, the rows of timers and the wait lists of the IPC
  objects. A call that has to wait puts the caller on a wait list, arms its timer and switches to
  the highest ready thread; another thread's call, or the timer, makes it ready again. Objects
  are registered in containers; closed threads are left to the idle thread. Dynamic objects,
  message pools and the buffers of the MQTT client come from the heap. The MQTT client packs
  packets into a chain of extents, hands them to a write function, and takes received bytes
  apart in a fixed buffer; the EDP client does the same with one growing buffer per packet. Both
  talk to the network through a modem, which the AT client drives: a parser thread reads its lines
  and wakes the thread whose command they answer. The ring buffer lies between the interrupt and the readers of a
  serial device.

  \<^bold>\<open>Conventions.\<close> Every operation is a function from a state to a state, or to a result and a state.
  A kernel object is named by a number; a thread's intrusive list node is in one of the lists of
  the record \<open>kernel\<close>. What the code leaves undefined, or a failed assertion, is the field \<open>fault\<close> of
  the kernel, and the result \<open>None\<close> in the other parts; a theorem that an operation gives \<open>Some\<close> says
  that no access goes astray and that every loop ends. A kernel call runs with interrupts
  locked, so it is one step; a call that is made of several such sections (message queues, the
  blocking calls) is several definitions, and the code after a wait is the definition \<open>..._return\<close>.

  \<^bold>\<open>Kernel.\<close>
  \<^item> \<open>Rt_Prelude\<close>, \<open>Rtdef\<close>: words, insertion into ordered lists; the records and constants of
    \<^verbatim>\<open>include/rtdef.h\<close> and the state \<open>kernel\<close>.
  \<^item> \<open>Rt_List\<close>: the intrusive lists of \<^verbatim>\<open>include/rtservice.h\<close> as pointer code, shown to implement the
    list operations that the other theories use.
  \<^item> \<open>Kservice\<close>, \<open>Scheduler\<close>: \<^verbatim>\<open>__rt_ffs\<close> in C (the board's image has it in assembly); \<^verbatim>\<open>src/scheduler.c\<close>, \<^verbatim>\<open>src/irq.c\<close>. \<open>kinv\<close> ties the ready queues, the
    states of the threads and the priority bits together.
  \<^item> \<open>Kobject\<close>, \<open>Timer\<close>, \<open>Thread\<close>, \<open>Clock\<close>, \<open>Idle\<close>: \<^verbatim>\<open>src/object.c\<close>, \<^verbatim>\<open>src/timer.c\<close>, \<^verbatim>\<open>src/thread.c\<close>, \<^verbatim>\<open>src/clock.c\<close>,
    \<^verbatim>\<open>src/idle.c\<close>. Each operation keeps \<open>kinv\<close>; the row of timers stays sorted by the time that is
    left; \<^verbatim>\<open>rt_timer_check\<close> has fuel, of which one unit per timer that has expired and one more are
    enough when the periods are positive and what is left of each fits into half of the tick
    range. The functions of user timers are parameters: \<open>timer_fn\<close> says what they may do with the
    timers, \<open>user_fn\<close> (in \<open>Kernel_Steps\<close>) with the rest of the kernel.
  \<^item> \<open>Ipc\<close>, \<open>Semaphore\<close>, \<open>Mutex\<close>, \<open>Event\<close>, \<open>Mailbox\<close>, \<open>Msgqueue\<close>: \<^verbatim>\<open>src/ipc.c\<close>. \<open>kernel_ok\<close> adds the wait lists to
    \<open>kinv\<close>. Semaphores refine a counter with a queue, events the walk \<open>deliver\<close>, mailboxes the
    locale \<open>bounded_fifo\<close> of theory \<open>Fifo\<close>, message queues a list of messages over a pool whose slots
    are always partitioned (\<open>mq_step\<close>, any interleaving).
  \<^item> \<open>Kernel_Timers\<close>, \<open>Kernel_Objects\<close>: \<open>timers_ok\<close> (an armed timer of a thread belongs to a suspended
    thread and wakes that thread) and \<open>objects_ok\<close> (\<open>kernel_ok\<close> and the priorities of the mutexes), kept by
    every call. \<open>Kernel_Steps\<close>: all calls as data (\<open>syscall\<close>: threads and the start of the scheduler,
    locks, mail, timers; objects are initialised, created, detached and deleted) with what each
    asks of its caller (\<open>allowed\<close>), and the machine \<open>kstep\<close> of the calls, the tick interrupt with its
    timers and the idle thread; the locale \<open>kernel_call\<close> (an operation that keeps \<open>system_ok\<close> under
    its guard) is interpreted on the calls. \<open>Kernel_Demo\<close> has small concrete
    kernels for the witnesses, \<open>Kernel_Properties\<close> the properties.

  \<^bold>\<open>Memory.\<close>
  \<^item> \<open>Memory\<close>, \<open>Kservice_Mem\<close>: byte-addressed memory, where unmapped addresses give \<open>None\<close>; \<^verbatim>\<open>rt_memset\<close>,
    \<^verbatim>\<open>rt_memcpy\<close>, \<^verbatim>\<open>rt_memmove\<close> and \<^verbatim>\<open>rt_memcmp\<close> of \<^verbatim>\<open>src/kservice.c\<close>, equal to their byte-wise versions.
  \<^item> \<open>Mem_Heap\<close>: \<^verbatim>\<open>src/mem.c\<close>, with its headers as bytes of that memory. Its two loops are partial
    functions; \<open>malloc_find_eq\<close> and \<open>lfree_next_eq\<close> show that they end on every consistent heap.
  \<^item> \<open>Mem_Chain\<close>, \<open>Mem_Alloc\<close>: the chain of headers as a list of blocks, the invariant \<open>heap_holds\<close>, and
    what each operation does to the list. \<open>Allocator\<close>: the contract of an allocator (a locale) and
    a client of it; \<open>Mem_Client\<close>: the heap as its clients see it, \<open>mem_step\<close> for any well-behaved
    client, and the interpretation of the contract. A heap has between 12 and \<open>2\<^sup>31\<close> bytes there.

  \<^item> \<open>Mempool\<close>: \<^verbatim>\<open>src/mempool.c\<close> on the kernel state and the heap together. \<open>Mempool_Chain\<close>: the chain of free
    blocks as a list (\<open>pool_ok\<close>). \<open>Mempool_Ops\<close>: initialisation, the pool as another interpretation of
    the contract of an allocator, waiting threads, pools on the heap. \<open>Mempool_Properties\<close>.

  \<^bold>\<open>MQTT client\<close> (\<^verbatim>\<open>components/net/Protocol/mqtt\<close>).
  \<^item> \<open>Mqtt_Codec\<close>, \<open>Mqtt_Buffer\<close>: integers, remaining length, identifiers, UTF-8; the chain of extents.
  \<^item> \<open>Mqtt_Pack\<close>, \<open>Mqtt_Pack2\<close>, \<open>Mqtt_Datapoint\<close>: the packets that are sent, byte for byte.
  \<^item> \<open>Mqtt_Recv\<close>, \<open>Mqtt_Safety\<close>: the receiver and \<^verbatim>\<open>Mqtt_SendPkt\<close>; memory safety for any input.
  \<^item> \<open>Mqtt_Session\<close>: what one client makes of the bytes another one packed. \<open>Mqtt_Properties\<close>.
  The application's callbacks, the bytes that are read, the addresses that \<^verbatim>\<open>malloc\<close> returns and the
  texts of \<^verbatim>\<open>strftime\<close> and \<^verbatim>\<open>snprintf\<close> are parameters.

  \<^bold>\<open>EDP client\<close> (\<^verbatim>\<open>components/net/Protocol/edp\<close>).
  \<^item> \<open>Edp_Buffer\<close>, \<open>Edp_Packet\<close>: the growing buffers, the functions that write and read fields; one
    function per packet of \<^verbatim>\<open>EdpKit.c\<close>, and the framing. A buffer is enlarged at most 24 times, so 26
    calls of \<^verbatim>\<open>malloc\<close> are enough for any packet; \<open>holds\<close> keeps count of them.
  \<^item> \<open>Edp_Wire\<close>: \<open>appends\<close> and \<open>reads\<close> say which bytes a function writes or consumes, and compose.
    \<open>Edp_Stream\<close>: how bytes are cut into packets (\<open>cuts\<close>), and the calls of \<^verbatim>\<open>EdpDemo.c\<close>, each with a
    receive buffer of its own.
    \<open>Edp_Unpack\<close>: the unpacking functions over the bytes of a packet. \<open>Edp_Properties\<close>.
  \<^verbatim>\<open>cJSON_Print\<close> and \<^verbatim>\<open>cJSON_Parse\<close> are parameters.

  \<^bold>\<open>AT client\<close> (\<^verbatim>\<open>components/net/at\<close>).
  \<^item> \<open>At_Client\<close>: \<^verbatim>\<open>at_client.c\<close>, \<^verbatim>\<open>at_utils.c\<close>. The parser is a function of one character,
    \<open>client_parser\<close>; commands and \<^verbatim>\<open>at_client_obj_wait_connect\<close> are steps between which it may run.
  \<^item> \<open>At_Lines\<close>, \<open>At_Response\<close>: what the parser makes of a whole line, of the lines of a response, and
    how the response is looked up. \<open>At_Urc\<close>: unsolicited lines and the characters they take.
    \<open>At_Safety\<close>: the invariant \<open>parser_ok\<close> for any characters. \<open>At_Properties\<close>.
  The functions of unsolicited lines and \<^verbatim>\<open>vsscanf\<close> are parameters.

  \<^bold>\<open>AT sockets\<close> (\<^verbatim>\<open>components/net/at/at_socket\<close>).
  \<^item> \<open>At_Socket\<close>: the table of sockets, the lists of received packets, the calls. \<open>At_Resolve\<close>: addresses
    and names. \<open>At_Stream\<close>: what the calls do to the pending bytes. \<open>At_Socket_Properties\<close>: any
    interleaving of the modem's callbacks and one reader (\<open>stream_step\<close>). A read that goes on to the
    next packet, and the closing of a socket with pending packets, follow a link in a packet that
    has just been freed; whether it still stands there is the field \<open>freed_intact\<close>.
  The functions of the modem's driver and \<^verbatim>\<open>inet_aton\<close> are parameters.

  \<^bold>\<open>Devices.\<close> \<open>Device\<close> (\<^verbatim>\<open>src/device.c\<close>), with the functions of the driver as a parameter;
  \<open>Device_Properties\<close>: the names of the devices, and the order in which a driver is called, for
  drivers that leave the reference count and the open flag to the framework (\<open>driver_ok\<close>).

  \<^bold>\<open>Drivers and utilities.\<close> \<open>Ringbuffer\<close> (\<^verbatim>\<open>components/drivers/src/ringbuffer.c\<close>, another
  interpretation of \<open>bounded_fifo\<close>), \<open>Crc\<close> (\<^verbatim>\<open>components/net/Utils/utils.c\<close>), \<open>Driver_Properties\<close>.

  \<^bold>\<open>Departures from what the code means to do\<close> are stated as theorems where they show in the model:
  the priority that a timed-out waiter leaves with the owner of a mutex, the free memory that
  \<^verbatim>\<open>rt_realloc\<close> hides, sizes that wrap around, the partial packet that \<^verbatim>\<open>Mqtt_RecvPkt\<close> loses, topics that
  cannot be appended, short writes that cannot be resumed, EDP lengths that wrap around when the
  read position is added, the count of waiting threads that a time-out leaves wrong in a
  memory pool, packets that the EDP receiver loses between two calls, a malformed length that
  blocks its buffer, lines of a modem that are lost, counted twice or written to a response that is
  freed, a stand-alone device that stays open when its driver fails to close it, an AT socket that
  could not be created and stays in the table, received bytes that an AT socket drops for want of
  memory, and the freed packets it reads.

  \<^bold>\<open>Not modelled.\<close> Context switches and interrupt entry (assembly of \<^verbatim>\<open>libcpu\<close>), the board and its vendor
  library, register-level drivers: no logic that can be stated without the hardware. Formatted
  output and the shell: text for people. Third-party stacks and file systems (lwIP, uIP,
  FreeModbus, Paho, FatFs, cJSON). Allocators outside the build (\<^verbatim>\<open>memheap.c\<close>, \<^verbatim>\<open>slab.c\<close>), signals and
  modules. The AT server: \<^verbatim>\<open>at.h\<close> leaves it out of the build. Of the AT
  client its initialisation, the choice among several clients, and the waiting of the threads.
\<close>

end
